(* ===== verification/Prelude.thy ===== *)
theory Prelude
  imports Main "HOL-Library.Word" "HOL-Library.Monad_Syntax"
begin

text \<open>
  Shared vocabulary of the development: the machine types of the C sources, the
  option-valued guard used for accesses that C leaves undefined, C strings in memory,
  and the list lemmas that the component proofs share.

  Conventions used everywhere.
  \<^item> \<open>None\<close> as the result of an operation that touches memory stands for a run the C
    standard leaves undefined (an access outside an array, a write to a read-only
    mapping). A theorem that says an operation returns \<open>Some\<close> is a memory-safety theorem.
  \<^item> Offsets and sizes that the C code keeps in an \<open>int\<close> under a documented
    precondition \<open>0 <= offset\<close> are \<open>nat\<close>; where negative values occur they are \<open>int\<close>.
  \<^item> A C string in memory is a \<open>char list\<close> that holds a zero byte; a C string as a value
    is the \<open>string\<close> before that zero byte.
\<close>

unbundle bit_operations_syntax

named_theorems mem_simps \<open>effects of the primitive memory operations\<close>
named_theorems store_rules \<open>contents after an operation on a paged buffer\<close>
named_theorems log_simps \<open>shape of the encoded undo log\<close>

type_synonym u8 = "8 word"
type_synonym u32 = "32 word"

subsection \<open>Guards\<close>

definition guard :: "bool \<Rightarrow> unit option" where
  "guard b = (if b then Some () else None)"

lemma guard_bind [simp]: "(guard b \<bind> f = Some x) \<longleftrightarrow> b \<and> f () = Some x"
  by (simp add: guard_def)

lemma guard_True [simp]: "guard True = Some ()"
  by (simp add: guard_def)

subsection \<open>C strings in memory\<close>

abbreviation NUL :: char where "NUL \<equiv> CHR 0x00"

definition cstr :: "char list \<Rightarrow> string" where
  "cstr m = takeWhile (\<lambda>c. c \<noteq> NUL) m"

definition c_string :: "string \<Rightarrow> bool" where
  "c_string s \<longleftrightarrow> NUL \<notin> set s"

lemma c_string_Nil [simp]: "c_string []"
  and c_string_Cons [simp]: "c_string (c # s) \<longleftrightarrow> c \<noteq> NUL \<and> c_string s"
  and c_string_append [simp]: "c_string (s @ t) \<longleftrightarrow> c_string s \<and> c_string t"
  by (auto simp: c_string_def)

lemma c_string_take [simp]: "c_string s \<Longrightarrow> c_string (take n s)"
  by (auto simp: c_string_def dest: in_set_takeD)

lemma cstr_append_NUL [simp]: "c_string s \<Longrightarrow> cstr (s @ NUL # m) = s"
  by (induction s) (auto simp: cstr_def)

lemma c_string_cstr [simp]: "c_string (cstr m)"
  by (auto simp: cstr_def c_string_def dest: set_takeWhileD)

lemma cstr_split:
  assumes "NUL \<in> set m"
  shows "m = cstr m @ NUL # drop (Suc (length (cstr m))) m"
  using assms by (induction m) (auto simp: cstr_def)

lemma length_cstr_less: "NUL \<in> set (take n m) \<Longrightarrow> length (cstr m) < n"
proof (induction m arbitrary: n)
  case (Cons c m)
  then show ?case by (cases n) (auto simp: cstr_def)
qed simp

subsection \<open>Bytes\<close>

abbreviation byte :: "int \<Rightarrow> u8" where "byte \<equiv> word_of_int"

lemma uint_byte: "0 \<le> k \<Longrightarrow> k < 256 \<Longrightarrow> uint (byte k) = k"
  unfolding uint_word_of_int by simp

lemma u8_less: "unat (b :: u8) < 256"
  using unsigned_less [of b, where ?'a = nat] by simp

lemma u8_uint_less: "uint (b :: u8) < 256"
  using uint_lt2p [of b] by simp

lemma byte_uint [simp]: "byte (uint b) = b"
  by (rule word_of_int_uint)

lemma byte_eq_iff:
  "0 \<le> j \<Longrightarrow> j < 256 \<Longrightarrow> 0 \<le> k \<Longrightarrow> k < 256 \<Longrightarrow> byte j = byte k \<longleftrightarrow> j = k"
  by (metis uint_byte)

subsection \<open>Lists\<close>

lemma drop_overlay: "length a \<le> k \<Longrightarrow> drop k (a @ drop (length a) m) = drop k m"
  by simp

lemma take_drop_assoc: "take n xs @ drop n xs @ ys = xs @ ys"
  by (metis append.assoc append_take_drop_id)

lemma take_append_drop_mid:
  "i \<le> j \<Longrightarrow> take i xs @ drop i (take j xs) = take j xs"
  by (metis append_take_drop_id min.absorb1 take_take)

lemma drop_take_split:
  "i \<le> j \<Longrightarrow> drop i xs = drop i (take j xs) @ drop j xs"
  by (metis append_take_drop_id drop_drop drop_take le_add_diff_inverse2)

lemma concat_split_nth:
  assumes "i < length xss"
  shows "concat xss = concat (take i xss) @ xss ! i @ concat (drop (Suc i) xss)"
  using assms
  by (metis concat.simps(2) concat_append id_take_nth_drop append_Cons append_take_drop_id
      Cons_nth_drop_Suc)

lemma sum_list_length_concat: "sum_list (map length xss) = length (concat xss)"
  by (simp add: length_concat)

end
