(* ===== verification/Cutils.thy ===== *)
theory Cutils
  imports Prelude
begin

text \<open>
  The C utilities of \<open>src/cutils.c\<close> and \<open>src/cutils.h\<close>: prefix tests, bounded string
  copies into a memory area, the dynamic string \<open>QString\<close> with its allocation trick, and
  the intrusive doubly linked lists.
\<close>

section \<open>Prefix tests\<close>

text \<open>
  A returned pointer into the string is the rest of the string from there. Reading the
  terminating zero byte of the shorter string never matches a byte of the prefix.
\<close>

fun strstart :: "string \<Rightarrow> string \<Rightarrow> string option" where
  "strstart p [] = Some p"
| "strstart [] (c # q) = None"
| "strstart (x # p) (c # q) = (if x \<noteq> c then None else strstart p q)"

definition c_toupper :: "char \<Rightarrow> char" where
  "c_toupper c = (if of_char c \<in> {97..122::nat} then char_of (of_char c - 32 :: nat) else c)"

definition c_tolower :: "char \<Rightarrow> char" where
  "c_tolower c = (if of_char c \<in> {65..90::nat} then char_of (of_char c + 32 :: nat) else c)"

fun stristart :: "string \<Rightarrow> string \<Rightarrow> string option" where
  "stristart p [] = Some p"
| "stristart [] (c # q) = None"
| "stristart (x # p) (c # q) =
     (if c_toupper x \<noteq> c_toupper c then None else stristart p q)"

lemma strstart_iff: "strstart s v = Some r \<longleftrightarrow> s = v @ r"
  by (induction s v rule: strstart.induct) auto

lemma stristart_iff:
  "stristart s v = Some r \<longleftrightarrow>
     (\<exists>u. s = u @ r \<and> length u = length v \<and> map c_toupper u = map c_toupper v)"
proof (induction s v rule: stristart.induct)
  case (3 x p c q)
  show ?case
  proof
    assume "stristart (x # p) (c # q) = Some r"
    then have x: "c_toupper x = c_toupper c" "stristart p q = Some r" by (auto split: if_splits)
    with 3 obtain u where "p = u @ r" "length u = length q" "map c_toupper u = map c_toupper q"
      by auto
    with x show "\<exists>u. x # p = u @ r \<and> length u = length (c # q) \<and>
        map c_toupper u = map c_toupper (c # q)"
      by (intro exI [of _ "x # u"]) simp
  next
    assume "\<exists>u. x # p = u @ r \<and> length u = length (c # q) \<and>
        map c_toupper u = map c_toupper (c # q)"
    then show "stristart (x # p) (c # q) = Some r"
      using 3 by (auto simp: Cons_eq_append_conv)
  qed
qed auto

section \<open>Bounded copies\<close>

text \<open>
  \<open>m\<close> is the memory area the destination pointer points into, \<open>base\<close> the index it
  points to. A store outside the area has no defined result.
\<close>

definition mem_put :: "char list \<Rightarrow> nat \<Rightarrow> char \<Rightarrow> char list option" where
  "mem_put m i c = (if i < length m then Some (m[i := c]) else None)"

fun pstrcpy_loop :: "char list \<Rightarrow> nat \<Rightarrow> nat \<Rightarrow> string \<Rightarrow> char list option" where
  "pstrcpy_loop m q lim [] = mem_put m q NUL"
| "pstrcpy_loop m q lim (c # str) =
     (if q \<ge> lim then mem_put m q NUL
      else do { m' \<leftarrow> mem_put m q c; pstrcpy_loop m' (Suc q) lim str })"

definition pstrcpy :: "char list \<Rightarrow> nat \<Rightarrow> int \<Rightarrow> string \<Rightarrow> char list option" where
  "pstrcpy m base buf_size str =
     (if buf_size \<le> 0 then Some m
      else pstrcpy_loop m base (base + nat buf_size - 1) str)"

definition pstrcat :: "char list \<Rightarrow> nat \<Rightarrow> int \<Rightarrow> string \<Rightarrow> char list option" where
  "pstrcat m base buf_size s = do {
     guard (NUL \<in> set (drop base m));
     let len = length (cstr (drop base m)) in
       if int len < buf_size then pstrcpy m (base + len) (buf_size - int len) s
       else Some m }"

lemma pstrcpy_loop_eq:
  assumes "q \<le> lim" "lim < length m"
  shows "pstrcpy_loop m q lim s =
    Some (take q m @ take (lim - q) s @ NUL # drop (Suc (q + length (take (lim - q) s))) m)"
  using assms
proof (induction m q lim s rule: pstrcpy_loop.induct)
  case (1 m q lim)
  then show ?case by (simp add: mem_put_def upd_conv_take_nth_drop)
next
  case (2 m q lim c str)
  show ?case
  proof (cases "q \<ge> lim")
    case True
    with 2 show ?thesis by (simp add: mem_put_def upd_conv_take_nth_drop)
  next
    case False
    then have [simp]: "lim - q = Suc (lim - Suc q)" by simp
    from False 2 show ?thesis
      by (simp add: mem_put_def take_Suc_conv_app_nth)
  qed
qed

lemma pstrcpy_eq:
  assumes "0 < n" "base + n \<le> length m"
  shows "pstrcpy m base (int n) s =
    Some (take base m @ take (n - 1) s @ NUL # drop (Suc (base + length (take (n - 1) s))) m)"
  using assms by (simp add: pstrcpy_def pstrcpy_loop_eq)

text \<open>
  The value of a bounded copy: used by the components that call \<open>pstrcpy\<close> on buffers of a
  known size.
\<close>

lemma pstrcpy_spec:
  assumes "0 < n" "base + n \<le> length m" "c_string s"
  obtains m' where "pstrcpy m base (int n) s = Some m'" "length m' = length m"
    "cstr (drop base m') = take (n - 1) s" "take base m' = take base m"
    "drop (base + n) m' = drop (base + n) m" "NUL \<in> set (drop base m')"
proof (rule that)
  let ?a = "take base m @ take (n - 1) s @ [NUL]"
  let ?m = "?a @ drop (length ?a) m"
  show "pstrcpy m base (int n) s = Some ?m"
    using assms by (simp add: pstrcpy_eq)
  have l: "length ?a \<le> base + n" using assms by simp
  then show "length ?m = length m" using assms by simp
  show "cstr (drop base ?m) = take (n - 1) s" "take base ?m = take base m"
    "NUL \<in> set (drop base ?m)"
    using assms by simp_all
  show "drop (base + n) ?m = drop (base + n) m"
    using l by (rule drop_overlay)
qed

lemma cstr_drop_append:
  assumes "NUL \<in> set (drop base m)" "take (base + length (cstr (drop base m))) m' =
      take (base + length (cstr (drop base m))) m"
  shows "drop base m' = cstr (drop base m) @ drop (base + length (cstr (drop base m))) m'"
proof -
  let ?l = "length (cstr (drop base m))"
  have "drop base m' = drop base (take (base + ?l) m') @ drop (base + ?l) m'"
    by (rule drop_take_split) simp
  also have "drop base (take (base + ?l) m') = take ?l (drop base m)"
    by (simp add: assms(2) drop_take)
  also have "take ?l (drop base m) = cstr (drop base m)"
    by (metis append_eq_conv_conj cstr_split [OF assms(1)])
  finally show ?thesis .
qed

lemma pstrcat_spec:
  assumes "NUL \<in> set (take n (drop base m))" "base + n \<le> length m" "c_string s"
  obtains m' where "pstrcat m base (int n) s = Some m'" "length m' = length m"
    "cstr (drop base m') = take (n - 1) (cstr (drop base m) @ s)"
    "take base m' = take base m" "drop (base + n) m' = drop (base + n) m"
proof -
  let ?d = "drop base m"
  let ?l = "length (cstr ?d)"
  have nul: "NUL \<in> set ?d" using assms(1) by (meson in_set_takeD)
  have l: "?l < n" using assms(1) by (rule length_cstr_less)
  have "0 < n - ?l" "base + ?l + (n - ?l) \<le> length m" using l assms by simp_all
  then obtain m' where m': "pstrcpy m (base + ?l) (int (n - ?l)) s = Some m'"
    "length m' = length m" "cstr (drop (base + ?l) m') = take (n - ?l - 1) s"
    "take (base + ?l) m' = take (base + ?l) m"
    "drop (base + ?l + (n - ?l)) m' = drop (base + ?l + (n - ?l)) m"
    "NUL \<in> set (drop (base + ?l) m')"
    using assms(3) by (rule pstrcpy_spec)
  show thesis
  proof (rule that)
    show "pstrcat m base (int n) s = Some m'"
      using nul l m'(1) by (simp add: pstrcat_def guard_def of_nat_diff)
    show "length m' = length m" by fact
    have e: "drop base m' = cstr ?d @ drop (base + ?l) m'"
      using nul m'(4) by (rule cstr_drop_append)
    also have "drop (base + ?l) m' = take (n - ?l - 1) s @ NUL
        # drop (Suc (length (take (n - ?l - 1) s))) (drop (base + ?l) m')"
      using cstr_split [OF m'(6)] unfolding m'(3) .
    finally have "drop base m' = (cstr ?d @ take (n - ?l - 1) s) @ NUL
        # drop (Suc (length (take (n - ?l - 1) s))) (drop (base + ?l) m')"
      by (simp only: append.assoc)
    moreover have "c_string (cstr ?d @ take (n - ?l - 1) s)" using assms(3) by simp
    ultimately have "cstr (drop base m') = cstr ?d @ take (n - ?l - 1) s"
      using cstr_append_NUL by (simp only:)
    then show "cstr (drop base m') = take (n - 1) (cstr ?d @ s)"
      using l by simp
    have "take base (take (base + ?l) m') = take base (take (base + ?l) m)"
      by (simp only: m'(4))
    then show "take base m' = take base m" by simp
    show "drop (base + n) m' = drop (base + n) m"
      using m'(5) l by simp
  qed
qed

section \<open>Dynamic strings\<close>

text \<open>
  \<open>qdata\<close> is the allocated block (its length is the allocated size, \<open>[]\<close> is NULL) and
  \<open>qlen\<close> the length without the trailing zero. \<open>realloc\<close> keeps the old bytes; the bytes
  it adds are unspecified in C and 0 here. The argument \<open>ok\<close> says whether the allocator
  succeeds. Sizes are below 2 ^ 30, so no \<open>int\<close> of the code wraps around.
\<close>

record QString =
  qdata :: "u8 list"
  qlen :: nat

definition qstrinit :: QString where
  "qstrinit = \<lparr>qdata = [], qlen = 0\<rparr>"

definition realloc_to :: "nat \<Rightarrow> u8 list \<Rightarrow> u8 list" where
  "realloc_to n d = take n d @ replicate (n - length d) 0"

definition smear_step :: "nat \<Rightarrow> nat \<Rightarrow> nat" where
  "smear_step k n = n OR drop_bit k n"

definition qmem_alloc_size :: "nat \<Rightarrow> nat" where
  "qmem_alloc_size n =
     smear_step 16 (smear_step 8 (smear_step 4 (smear_step 2 (smear_step 1 n))))"

definition qmemcat :: "bool \<Rightarrow> QString \<Rightarrow> u8 list \<Rightarrow> (int \<times> QString) option" where
  "qmemcat ok q data1 =
    (let len = qlen q; new_len = len + length data1;
         grow = (len XOR new_len \<ge> len);
         alloc_size = qmem_alloc_size new_len
     in if grow \<and> \<not> ok then Some (-1, q)
        else do {
          let data = (if grow then realloc_to (alloc_size + 1) (qdata q) else qdata q);
          guard (new_len < length data);
          let data = take len data @ data1 @ drop new_len data;
          let data = data[new_len := 0];
          Some (0, \<lparr>qdata = data, qlen = new_len\<rparr>) })"

definition bytes_of :: "string \<Rightarrow> u8 list" where
  "bytes_of s = map (\<lambda>c. of_nat (of_char c)) s"

definition qstrcat :: "bool \<Rightarrow> QString \<Rightarrow> string \<Rightarrow> (int \<times> QString) option" where
  "qstrcat ok q str = qmemcat ok q (bytes_of str)"

text \<open>
  The bytes that \<open>memcpy (_, buf, len)\<close> reads from a local array of \<open>n\<close> bytes after
  \<open>len = vsnprintf (buf, n, \<dots>)\<close> of the formatted text \<open>s\<close>: \<open>vsnprintf\<close> stores at most
  \<open>n - 1\<close> bytes and a zero but returns the whole length, so longer texts are read beyond the
  array.
\<close>

definition vsnprintf_bytes :: "nat \<Rightarrow> u8 list \<Rightarrow> u8 list option" where
  "vsnprintf_bytes n s =
     (if length s < n then Some s
      else if length s = n then Some (take (n - 1) s @ [0]) else None)"

definition qprintf :: "bool \<Rightarrow> QString \<Rightarrow> u8 list \<Rightarrow> (int \<times> QString) option" where
  "qprintf ok q s = do { bs \<leftarrow> vsnprintf_bytes 4096 s; qmemcat ok q bs }"

definition qstr_val :: "QString \<Rightarrow> u8 list" where
  "qstr_val q = take (qlen q) (qdata q)"

definition qstr_inv :: "QString \<Rightarrow> bool" where
  "qstr_inv q \<longleftrightarrow>
     (if qlen q = 0 then True
      else qmem_alloc_size (qlen q) + 1 \<le> length (qdata q) \<and> qdata q ! qlen q = 0)"

lemma bit_smear_step: "bit (smear_step k n) i \<longleftrightarrow> bit n i \<or> bit n (k + i)"
  by (simp add: smear_step_def bit_or_iff bit_drop_bit_eq)

text \<open>A smeared number has every bit set below a set bit of the argument.\<close>

lemma smear_double:
  assumes "\<And>d i. d < k \<Longrightarrow> bit n (d + i) \<Longrightarrow> bit m i" "d < 2 * k" "bit n (d + i)"
  shows "bit (smear_step k m) i"
proof (cases "d < k")
  case True
  with assms show ?thesis by (simp add: bit_smear_step)
next
  case False
  then have "d - k < k" "bit n ((d - k) + (k + i))" using assms by simp_all
  then show ?thesis using assms(1) by (auto simp: bit_smear_step)
qed

lemma bit_qmem_alloc_size:
  assumes "d < 32" "bit n (d + i)"
  shows "bit (qmem_alloc_size n) i"
proof -
  have 1: "bit (smear_step 1 n) i" if "d < 2" "bit n (d + i)" for d i
    by (rule smear_double [of 1 n]) (use that in auto)
  have 2: "bit (smear_step 2 (smear_step 1 n)) i" if "d < 4" "bit n (d + i)" for d i
    by (rule smear_double [of 2 n]) (use that 1 in auto)
  have 3: "bit (smear_step 4 (smear_step 2 (smear_step 1 n))) i"
    if "d < 8" "bit n (d + i)" for d i
    by (rule smear_double [of 4 n]) (use that 2 in auto)
  have 4: "bit (smear_step 8 (smear_step 4 (smear_step 2 (smear_step 1 n)))) i"
    if "d < 16" "bit n (d + i)" for d i
    by (rule smear_double [of 8 n]) (use that 3 in auto)
  show ?thesis
    unfolding qmem_alloc_size_def by (rule smear_double [of 16 n]) (use assms 4 in auto)
qed

lemma smear_step_less: "n < 2 ^ j \<Longrightarrow> smear_step k n < 2 ^ j"
  unfolding smear_step_def
  by (metis drop_bit_nat_eq less_eq_nat.simps(1) nat_take_bit_eq take_bit_nat_eq_self
      take_bit_nat_less_exp take_bit_or take_bit_nat_eq_self_iff div_le_dividend
      drop_bit_nat_def order_le_less_trans)

lemma qmem_alloc_size_less: "n < 2 ^ j \<Longrightarrow> qmem_alloc_size n < 2 ^ j"
  unfolding qmem_alloc_size_def by (intro smear_step_less)

lemma mask_le_of_bits:
  assumes "\<And>i. i < j \<Longrightarrow> bit n i" shows "2 ^ j - 1 \<le> (n :: nat)"
proof -
  have "take_bit j n = mask j"
    by (rule bit_eqI) (use assms in \<open>auto simp: bit_take_bit_iff bit_mask_iff\<close>)
  then show ?thesis
    by (metis mask_eq_exp_minus_1 take_bit_nat_less_eq_self)
qed

lemma log_exists: "0 < (n :: nat) \<Longrightarrow> \<exists>k. 2 ^ k \<le> n \<and> n < 2 ^ Suc k"
  using ex_power_ivl1 [of 2 n] by auto

lemma qmem_alloc_size_eq:
  assumes "2 ^ k \<le> n" "n < 2 ^ Suc k" "k < 32"
  shows "qmem_alloc_size n = 2 ^ Suc k - 1"
proof -
  have "n div 2 ^ k = 1"
    using assms by (intro div_nat_eqI) auto
  then have "bit n k" by (simp add: bit_iff_odd)
  then have "bit (qmem_alloc_size n) i" if "i < Suc k" for i
    using bit_qmem_alloc_size [of "k - i" n i] that assms(3) by simp
  then have "2 ^ Suc k - 1 \<le> qmem_alloc_size n"
    by (rule mask_le_of_bits)
  with qmem_alloc_size_less [OF assms(2)] show ?thesis by simp
qed

lemma qmem_alloc_size_ge:
  assumes "n < 2 ^ 32" shows "n \<le> qmem_alloc_size n"
proof (cases "n = 0")
  case False
  then obtain k where k: "2 ^ k \<le> n" "n < 2 ^ Suc k" using log_exists by auto
  have "(2::nat) ^ k < 2 ^ 32" using k(1) assms by linarith
  then have "k < 32" by (rule power_less_imp_less_exp [rotated]) simp
  with k show ?thesis by (simp add: qmem_alloc_size_eq)
qed simp

lemma xor_nat_less: "(a::nat) < 2 ^ j \<Longrightarrow> b < 2 ^ j \<Longrightarrow> a XOR b < 2 ^ j"
  by (metis take_bit_nat_eq_self_iff take_bit_xor)

text \<open>
  The trick of the allocator: when the length keeps its top bit the block is left alone,
  and it is still large enough.
\<close>

lemma no_grow_fits:
  assumes "0 < len" "len < 2 ^ 32" "len XOR new_len < len"
  shows "new_len \<le> qmem_alloc_size len \<and> qmem_alloc_size new_len \<le> qmem_alloc_size len"
proof -
  obtain k where k: "2 ^ k \<le> len" "len < 2 ^ Suc k" using assms(1) log_exists by auto
  have "(2::nat) ^ k < 2 ^ 32" using k(1) assms(2) by linarith
  then have "k < 32" by (rule power_less_imp_less_exp [rotated]) simp
  with k have a: "qmem_alloc_size len = 2 ^ Suc k - 1" by (simp add: qmem_alloc_size_eq)
  have "len XOR new_len < 2 ^ Suc k" using assms(3) k(2) by linarith
  then have "len XOR (len XOR new_len) < 2 ^ Suc k"
    by (rule xor_nat_less [OF k(2)])
  moreover have "len XOR (len XOR new_len) = new_len"
    by (rule bit_eqI) (auto simp: bit_xor_iff)
  ultimately have "new_len < 2 ^ Suc k" by simp
  with qmem_alloc_size_less [OF this] show ?thesis unfolding a by linarith
qed

lemma qstr_inv_init [simp]: "qstr_inv qstrinit"
  by (simp add: qstr_inv_def qstrinit_def)

lemma take_overwrite:
  "l + length d < length D \<Longrightarrow>
    take (l + length d) ((take l D @ d @ drop (l + length d) D)[l + length d := x]) = take l D @ d"
  by simp

lemma qmemcat_correct:
  assumes "qstr_inv q" "qlen q + length d < 2 ^ 30"
  shows "\<exists>q'. qmemcat True q d = Some (0, q') \<and> qstr_inv q' \<and>
    qstr_val q' = qstr_val q @ d \<and> qlen q' = qlen q + length d"
proof -
  let ?n = "qlen q + length d"
  let ?grow = "qlen q XOR ?n \<ge> qlen q"
  let ?data = "if ?grow then realloc_to (qmem_alloc_size ?n + 1) (qdata q) else qdata q"
  have n: "?n < 2 ^ 32" using assms(2) by simp
  have cap: "qmem_alloc_size ?n + 1 \<le> length ?data"
  proof (cases ?grow)
    case False
    then have "0 < qlen q" by (cases "qlen q = 0") auto
    with False n have "qmem_alloc_size ?n \<le> qmem_alloc_size (qlen q)"
      by (intro conjunct2 [OF no_grow_fits]) auto
    with False assms(1) \<open>0 < qlen q\<close> show ?thesis by (simp add: qstr_inv_def)
  qed (simp add: realloc_to_def)
  then have fits: "?n < length ?data" using qmem_alloc_size_ge [OF n] by linarith
  have keep: "take (qlen q) ?data = qstr_val q"
  proof (cases ?grow)
    case True
    have "qlen q \<le> length (qdata q)"
      using assms(1) qmem_alloc_size_ge [of "qlen q"] n by (auto simp: qstr_inv_def split: if_splits)
    with True fits show ?thesis by (simp add: realloc_to_def qstr_val_def)
  qed (simp add: qstr_val_def)
  define data where "data = (take (qlen q) ?data @ d @ drop ?n ?data)[?n := 0]"
  have len: "length data = length ?data" using fits by (simp add: data_def)
  have "qmemcat True q d = Some (0, \<lparr>qdata = data, qlen = ?n\<rparr>)"
    using fits by (simp add: qmemcat_def data_def Let_def)
  moreover have "take ?n data = qstr_val q @ d"
    using take_overwrite [OF fits, of 0] keep by (simp only: data_def)
  moreover have "data ! ?n = 0" using fits by (simp add: data_def)
  ultimately show ?thesis
    using cap len by (simp add: qstr_val_def qstr_inv_def)
qed

section \<open>Doubly linked lists\<close>

text \<open>
  Nodes are addresses, a heap is the pair of the \<open>next\<close> and \<open>prev\<close> fields. The stores
  of \<open>__list_add\<close> and \<open>__list_del\<close> happen in the order of the source.
\<close>

record list_heap =
  nxt :: "nat \<Rightarrow> nat"
  prv :: "nat \<Rightarrow> nat"

definition set_nxt :: "nat \<Rightarrow> nat \<Rightarrow> list_heap \<Rightarrow> list_heap" where
  "set_nxt a v h = h\<lparr>nxt := (nxt h)(a := v)\<rparr>"

definition set_prv :: "nat \<Rightarrow> nat \<Rightarrow> list_heap \<Rightarrow> list_heap" where
  "set_prv a v h = h\<lparr>prv := (prv h)(a := v)\<rparr>"

definition LIST_HEAD :: "nat \<Rightarrow> list_heap \<Rightarrow> list_heap" where
  "LIST_HEAD name h = set_prv name name (set_nxt name name h)"

definition list_empty :: "list_heap \<Rightarrow> nat \<Rightarrow> bool" where
  "list_empty h head \<longleftrightarrow> nxt h head = head"

definition list_add_between :: "nat \<Rightarrow> nat \<Rightarrow> nat \<Rightarrow> list_heap \<Rightarrow> list_heap" where
  "list_add_between elem p n h =
     set_prv elem p (set_nxt p elem (set_nxt elem n (set_prv n elem h)))"

definition list_del_between :: "nat \<Rightarrow> nat \<Rightarrow> list_heap \<Rightarrow> list_heap" where
  "list_del_between p n h = set_prv n p (set_nxt p n h)"

definition list_add :: "nat \<Rightarrow> nat \<Rightarrow> list_heap \<Rightarrow> list_heap" where
  "list_add elem head h = list_add_between elem head (nxt h head) h"

definition list_add_tail :: "nat \<Rightarrow> nat \<Rightarrow> list_heap \<Rightarrow> list_heap" where
  "list_add_tail elem head h = list_add_between elem (prv h head) head h"

definition list_del :: "nat \<Rightarrow> list_heap \<Rightarrow> list_heap" where
  "list_del elem h = list_del_between (prv h elem) (nxt h elem) h"

text \<open>The nodes a \<open>list_for_each\<close> loop visits from \<open>e\<close> on; None when it never ends.\<close>

partial_function (option) list_for_each :: "list_heap \<Rightarrow> nat \<Rightarrow> nat \<Rightarrow> nat list option" where
  "list_for_each h head e =
     (if e = head then Some []
      else do { es \<leftarrow> list_for_each h head (nxt h e); Some (e # es) })"

fun lseg :: "list_heap \<Rightarrow> nat \<Rightarrow> nat list \<Rightarrow> nat \<Rightarrow> bool" where
  "lseg h a [] b \<longleftrightarrow> nxt h a = b \<and> prv h b = a"
| "lseg h a (x # xs) b \<longleftrightarrow> nxt h a = x \<and> prv h x = a \<and> lseg h x xs b"

definition dlist :: "list_heap \<Rightarrow> nat \<Rightarrow> nat list \<Rightarrow> bool" where
  "dlist h head xs \<longleftrightarrow> distinct (head # xs) \<and> lseg h head xs head"

lemmas list_stores = set_nxt_def set_prv_def list_add_between_def list_del_between_def

lemma lseg_append: "lseg h a (xs @ y # ys) b \<longleftrightarrow> lseg h a xs y \<and> lseg h y ys b"
  by (induction xs arbitrary: a) auto

lemma lseg_last: "lseg h a xs b \<Longrightarrow> prv h b = last (a # xs)"
  by (induction xs arbitrary: a) auto

lemma lseg_first: "lseg h a xs b \<Longrightarrow> nxt h a = hd (xs @ [b])"
  by (cases xs) auto

text \<open>A segment depends on the \<open>next\<close> of its start and nodes, the \<open>prev\<close> of its nodes and end.\<close>

lemma lseg_cong:
  assumes "\<And>x. x \<in> insert a (set xs) \<Longrightarrow> nxt h' x = nxt h x"
    "\<And>x. x \<in> insert b (set xs) \<Longrightarrow> prv h' x = prv h x"
  shows "lseg h' a xs b = lseg h a xs b"
  using assms by (induction xs arbitrary: a) auto

lemma dlist_LIST_HEAD: "dlist (LIST_HEAD a h) a []"
  by (simp add: dlist_def LIST_HEAD_def list_stores)

lemma dlist_list_empty: "dlist h head xs \<Longrightarrow> list_empty h head \<longleftrightarrow> xs = []"
  by (cases xs) (auto simp: dlist_def list_empty_def)

lemma list_for_each_lseg:
  "lseg h a xs head \<Longrightarrow> head \<notin> set xs \<Longrightarrow> list_for_each h head (nxt h a) = Some xs"
proof (induction xs arbitrary: a)
  case Nil
  then show ?case by (simp add: list_for_each.simps)
next
  case (Cons x xs)
  then show ?case by (subst list_for_each.simps) simp
qed

lemma list_for_each_dlist: "dlist h head xs \<Longrightarrow> list_for_each h head (nxt h head) = Some xs"
  unfolding dlist_def by (intro list_for_each_lseg) auto

text \<open>Linking a fresh node between two parts of a ring, and unlinking one.\<close>

lemma lseg_split:
  "lseg h a (xs @ ys) b \<longleftrightarrow> lseg h a xs (hd (ys @ [b])) \<and> lseg h (last (a # xs)) ys b"
proof (induction xs arbitrary: a)
  case Nil
  then show ?case by (cases ys) auto
qed auto

lemma lseg_new_end:
  assumes "lseg h a xs b" "distinct (a # xs)"
    "nxt h' (last (a # xs)) = e" "prv h' e = last (a # xs)"
    "\<And>x. x \<in> set (a # xs) \<Longrightarrow> x \<noteq> last (a # xs) \<Longrightarrow> nxt h' x = nxt h x"
    "\<And>x. x \<in> set xs \<Longrightarrow> prv h' x = prv h x"
  shows "lseg h' a xs e"
  using assms
proof (induction xs arbitrary: a)
  case (Cons x xs)
  have "a \<noteq> last (x # xs)" using Cons.prems(2) by (metis distinct.simps(2) last_in_set list.distinct(1))
  then have "nxt h' a = x" using Cons.prems(1,5) by simp
  moreover have "prv h' x = a" using Cons.prems(1,6) by simp
  moreover have "lseg h' x xs e"
    using Cons.prems by (intro Cons.IH) auto
  ultimately show ?case by simp
qed auto

lemma lseg_new_start:
  assumes "lseg h a ys b" "nxt h' e = hd (ys @ [b])" "prv h' (hd (ys @ [b])) = e"
    "\<And>x. x \<in> set ys \<Longrightarrow> nxt h' x = nxt h x"
    "\<And>x. x \<in> set (tl (ys @ [b])) \<Longrightarrow> prv h' x = prv h x"
  shows "lseg h' e ys b"
proof (cases ys)
  case (Cons y zs)
  have "lseg h' y zs b = lseg h y zs b"
    using assms(4,5) Cons by (intro lseg_cong) auto
  then show ?thesis using assms Cons by simp
qed (use assms in simp)

lemma dlist_add_between:
  assumes "dlist h head (xs @ ys)" "elem \<notin> set (head # xs @ ys)"
    "p = last (head # xs)" "n = hd (ys @ [head])"
  shows "dlist (list_add_between elem p n h) head (xs @ elem # ys)"
proof -
  let ?h = "list_add_between elem p n h"
  have d: "distinct (head # xs @ ys)" using assms(1) by (simp add: dlist_def)
  have p: "p \<in> set (head # xs)" "p \<notin> set ys"
    using d assms(3) by (auto dest: last_in_set split: if_splits)
  have n: "n \<in> set (ys @ [head])" "n \<notin> set xs" "n \<notin> set (tl (ys @ [head]))"
    using d assms(4) by (cases ys; auto)+
  have e: "elem \<notin> set (tl (ys @ [head]))" using assms(2) by (cases ys) auto
  have seg: "lseg h head xs n" "lseg h p ys head"
    using assms(1,3,4) by (simp_all add: dlist_def lseg_split)
  have "lseg ?h head xs elem"
    by (rule lseg_new_end [OF seg(1)])
      (use d assms n in \<open>auto simp: list_stores\<close>)
  moreover have "lseg ?h elem ys head"
    by (rule lseg_new_start [OF seg(2)])
      (use assms p n e in \<open>auto simp: list_stores\<close>)
  ultimately show ?thesis using assms(2) d by (simp add: dlist_def lseg_append)
qed

lemma dlist_add:
  assumes "dlist h head xs" "elem \<notin> set (head # xs)"
  shows "dlist (list_add elem head h) head (elem # xs)"
proof -
  have "nxt h head = hd (xs @ [head])"
    using assms(1) by (auto simp: dlist_def dest: lseg_first)
  then show ?thesis
    using dlist_add_between [of h head "[]" xs elem head "nxt h head"] assms
    by (simp add: list_add_def)
qed

lemma dlist_add_tail:
  assumes "dlist h head xs" "elem \<notin> set (head # xs)"
  shows "dlist (list_add_tail elem head h) head (xs @ [elem])"
proof -
  have "prv h head = last (head # xs)"
    using assms(1) by (auto simp: dlist_def dest: lseg_last)
  then show ?thesis
    using dlist_add_between [of h head xs "[]" elem "prv h head" head] assms
    by (simp add: list_add_tail_def)
qed

lemma dlist_del:
  assumes "dlist h head (xs @ elem # ys)"
  shows "dlist (list_del elem h) head (xs @ ys)"
proof -
  let ?p = "last (head # xs)" and ?n = "hd (ys @ [head])"
  let ?h = "list_del_between ?p ?n h"
  have d: "distinct (head # xs @ elem # ys)" using assms by (simp add: dlist_def)
  have seg: "lseg h head xs elem" "lseg h elem ys head"
    using assms by (simp_all add: dlist_def lseg_append)
  have "prv h elem = ?p" "nxt h elem = ?n"
    using seg by (auto dest: lseg_last lseg_first)
  then have e: "list_del elem h = ?h" by (simp add: list_del_def)
  have p: "?p \<in> set (head # xs)" "?p \<notin> set ys"
    using d by (auto dest: last_in_set split: if_splits)
  have n: "?n \<in> set (ys @ [head])" "?n \<notin> set xs" "?n \<notin> set (tl (ys @ [head]))"
    using d by (cases ys; auto)+
  have "lseg ?h head xs ?n"
    by (rule lseg_new_end [OF seg(1)]) (use d n in \<open>auto simp: list_stores\<close>)
  moreover have "lseg ?h ?p ys head"
    by (rule lseg_new_start [OF seg(2)])
      (use p n in \<open>auto simp: list_stores dest: list.set_sel(2)\<close>)
  ultimately show ?thesis using d unfolding e by (simp add: dlist_def lseg_split)
qed

end
