(* ===== verification/Utf8.thy ===== *)
theory Utf8
  imports Prelude Cutils
begin

text \<open>
  UTF-8 in \<open>src/charset.c\<close>: the tables built by \<open>charset_init\<close>, the coder and the strict
  decoder, with the round trip in both directions. The charsets built on them are in the
  theory \<open>Charset\<close>.
  Code points are \<open>int\<close> (the C \<open>int\<close>); the decoder accumulates in a 32 bit word as the
  source does. A decoder gets the bytes from its pointer on and returns the rest of them;
  None means that it reads past the end of the bytes given.
\<close>

section \<open>Tables\<close>

definition INVALID_CHAR :: int where "INVALID_CHAR = 0xfffd"
definition ESCAPE_CHAR :: int where "ESCAPE_CHAR = 0xffff"
definition MAX_CHAR_BYTES :: nat where "MAX_CHAR_BYTES = 6"

definition min_code :: "nat \<Rightarrow> u32" where
  "min_code l = [0, 0, 0x80, 0x800, 0x10000, 0x00200000, 0x04000000] ! l"

definition first_code_mask :: "nat \<Rightarrow> u8" where
  "first_code_mask l = [0, 0, 0x1f, 0xf, 0x7, 0x3, 0x1] ! l"

text \<open>The inner loop of \<open>charset_init\<close> fills \<open>n\<close> entries from \<open>i\<close> on with \<open>l\<close>.\<close>

fun fill_length :: "nat \<Rightarrow> nat \<Rightarrow> nat \<Rightarrow> nat list \<Rightarrow> nat \<times> nat list" where
  "fill_length l i 0 t = (i, t)"
| "fill_length l i (Suc n) t = fill_length l (i + 1) n (t[i := l])"

fun fill_lengths :: "nat list \<Rightarrow> nat \<Rightarrow> nat list \<Rightarrow> nat list" where
  "fill_lengths [] i t = t"
| "fill_lengths (l # ls) i t =
     (let (i', t') = fill_length l i (unat (first_code_mask l) + 1) t in fill_lengths ls i' t')"

definition utf8_length_table :: "nat list" where
  "utf8_length_table = fill_lengths [2, 3, 4, 5, 6] 0xc0 (replicate 256 1)"

definition utf8_length :: "u8 \<Rightarrow> nat" where
  "utf8_length b = utf8_length_table ! unat b"

definition table_idem :: "int list" where
  "table_idem = map int [0..<256]"

definition table_utf8 :: "int list" where
  "table_utf8 = map int [0..<0x80] @ replicate 0x40 INVALID_CHAR @
     replicate (0xfe - 0xc0) ESCAPE_CHAR @ replicate 2 INVALID_CHAR"

definition length_class :: "nat \<Rightarrow> nat" where
  "length_class b =
    (if b < 192 then 1 else if b < 224 then 2 else if b < 240 then 3
     else if b < 248 then 4 else if b < 252 then 5 else if b < 254 then 6 else 1)"

lemma utf8_length_table_eq: "utf8_length_table = map length_class [0..<256]"
  by code_simp

lemma utf8_length_eq: "utf8_length b = length_class (unat b)"
  using u8_less [of b] by (simp add: utf8_length_def utf8_length_table_eq del: upt_rec_numeral)

section \<open>UTF-8\<close>

text \<open>
  The loop over the continuation bytes: \<open>k\<close> of them are left. The result is the
  accumulated code, or None where the source jumps to \<open>fail\<close>, and the rest of the bytes.
\<close>

fun utf8_cont :: "nat \<Rightarrow> u32 \<Rightarrow> u8 list \<Rightarrow> (u32 option \<times> u8 list) option" where
  "utf8_cont 0 c p = Some (Some c, p)"
| "utf8_cont (Suc k) c [] = None"
| "utf8_cont (Suc k) c (c1 # p) =
     (if c1 < 0x80 \<or> c1 \<ge> 0xc0 then Some (None, c1 # p)
      else utf8_cont k (push_bit 6 c OR (ucast c1 AND 0x3f)) p)"

definition utf8_forbidden :: "u32 \<Rightarrow> bool" where
  "utf8_forbidden c \<longleftrightarrow> (c \<ge> 0xd800 \<and> c \<le> 0xdfff) \<or> c = 0xfffe \<or> c = 0xffff"

definition utf8_decode :: "u8 list \<Rightarrow> (int \<times> u8 list) option" where
  "utf8_decode pp = (case pp of [] \<Rightarrow> None | c # p \<Rightarrow>
     if c < 128 then Some (uint c, p)
     else let l = utf8_length c in
       if l = 1 then Some (INVALID_CHAR, p)
       else case utf8_cont (l - 1) (ucast (c AND first_code_mask l)) p of
           None \<Rightarrow> None
         | Some (None, p) \<Rightarrow> Some (INVALID_CHAR, p)
         | Some (Some c, p) \<Rightarrow>
             if c < min_code l \<or> utf8_forbidden c then Some (INVALID_CHAR, p)
             else Some (uint c, p))"

definition cont_byte :: "nat \<Rightarrow> int \<Rightarrow> u8" where
  "cont_byte k c = byte ((drop_bit k c AND 0x3f) OR 0x80)"

definition utf8_encode :: "int \<Rightarrow> u8 list" where
  "utf8_encode c =
    (if c < 0x80 then [byte c]
     else
       (if c < 0x800 then [byte (drop_bit 6 c OR 0xc0)]
        else
          (if c < 0x10000 then [byte (drop_bit 12 c OR 0xe0)]
           else
             (if c < 0x00200000 then [byte (drop_bit 18 c OR 0xf0)]
              else
                (if c < 0x04000000 then [byte (drop_bit 24 c OR 0xf8)]
                 else [byte (drop_bit 30 c OR 0xfc), cont_byte 24 c])
                @ [cont_byte 18 c])
             @ [cont_byte 12 c])
          @ [cont_byte 6 c])
       @ [cont_byte 0 c])"

text \<open>Both directions in arithmetic.\<close>

lemma or_disjoint: "0 \<le> a \<Longrightarrow> a < 2 ^ n \<Longrightarrow> a OR push_bit n b = a + push_bit n (b::int)"
  by (metis concat_bit_def concat_bit_eq take_bit_int_eq_self)

lemma and_63: "(a::int) AND 63 = a mod 64"
  using take_bit_eq_mask [of 6 a] by (simp add: take_bit_eq_mod mask_eq_exp_minus_1)

lemma cont_byte_eq: "cont_byte k c = byte (128 + (c div 2 ^ k) mod 64)"
  using or_disjoint [of "(c div 2 ^ k) mod 64" 6 2]
  by (simp add: cont_byte_def drop_bit_eq_div and_63 push_bit_eq_mult add.commute)

lemma lead_eq:
  "0 \<le> x \<Longrightarrow> x < 32 \<Longrightarrow> x OR 0xc0 = 0xc0 + (x::int)"
  "0 \<le> x \<Longrightarrow> x < 16 \<Longrightarrow> x OR 0xe0 = 0xe0 + x"
  "0 \<le> x \<Longrightarrow> x < 8 \<Longrightarrow> x OR 0xf0 = 0xf0 + x"
  "0 \<le> x \<Longrightarrow> x < 4 \<Longrightarrow> x OR 0xf8 = 0xf8 + x"
  "0 \<le> x \<Longrightarrow> x < 2 \<Longrightarrow> x OR 0xfc = 0xfc + x"
  using or_disjoint [of x 5 6] or_disjoint [of x 4 14] or_disjoint [of x 3 30]
    or_disjoint [of x 2 62] or_disjoint [of x 1 126]
  by (simp_all add: push_bit_eq_mult add.commute)

definition utf8_bytes :: "int \<Rightarrow> int list" where
  "utf8_bytes c =
    (if c < 0x80 then [c]
     else if c < 0x800 then [192 + c div 64, 128 + c mod 64]
     else if c < 0x10000 then [224 + c div 4096, 128 + (c div 64) mod 64, 128 + c mod 64]
     else if c < 0x200000 then
       [240 + c div 262144, 128 + (c div 4096) mod 64, 128 + (c div 64) mod 64, 128 + c mod 64]
     else if c < 0x4000000 then
       [248 + c div 16777216, 128 + (c div 262144) mod 64, 128 + (c div 4096) mod 64,
        128 + (c div 64) mod 64, 128 + c mod 64]
     else
       [252 + c div 1073741824, 128 + (c div 16777216) mod 64, 128 + (c div 262144) mod 64,
        128 + (c div 4096) mod 64, 128 + (c div 64) mod 64, 128 + c mod 64])"

lemma utf8_encode_eq:
  assumes "0 \<le> c" "c < 2 ^ 31"
  shows "utf8_encode c = map byte (utf8_bytes c)"
proof -
  have "c div 64 < 32" if "c < 0x800" using that by simp
  moreover have "c div 4096 < 16" if "c < 0x10000" using that by simp
  moreover have "c div 262144 < 8" if "c < 0x200000" using that by simp
  moreover have "c div 16777216 < 4" if "c < 0x4000000" using that by simp
  moreover have "c div 1073741824 < 2" using assms by simp
  ultimately show ?thesis
    using assms
    by (simp add: utf8_encode_def utf8_bytes_def cont_byte_eq drop_bit_eq_div lead_eq)
qed

text \<open>One step of the accumulation, and the whole continuation loop, as arithmetic.\<close>

definition shift_in :: "int \<Rightarrow> int list \<Rightarrow> int" where
  "shift_in a xs = foldl (\<lambda>a x. 64 * a + x) a xs"

lemma shift_in_simps [simp]:
  "shift_in a [] = a" "shift_in a (x # xs) = shift_in (64 * a + x) xs"
  by (simp_all add: shift_in_def)

lemma uint_cont_step:
  assumes "uint (c :: u32) < 2 ^ 26"
  shows "uint (push_bit 6 c OR (ucast (b :: u8) AND 0x3f)) = 64 * uint c + uint b mod 64"
proof -
  have "uint (push_bit 6 c) = take_bit 32 (push_bit 6 (uint c))"
    by (simp only: unsigned_push_bit_eq) simp
  also have "\<dots> = push_bit 6 (uint c)"
    using assms by (intro take_bit_int_eq_self) (simp_all add: push_bit_eq_mult)
  finally have "uint (push_bit 6 c) = push_bit 6 (uint c)" .
  moreover have "uint (ucast b :: u32) = uint b"
    unfolding unsigned_ucast_eq using u8_uint_less [of b] by (intro take_bit_int_eq_self) auto
  then have "uint (ucast b AND 0x3f :: u32) = uint b mod 64"
    by (simp add: unsigned_and_eq and_63)
  ultimately have "uint (push_bit 6 c OR (ucast b AND 0x3f)) =
      uint b mod 64 OR push_bit 6 (uint c)"
    by (simp only: unsigned_or_eq or.commute)
  also have "\<dots> = uint b mod 64 + push_bit 6 (uint c)"
    by (rule or_disjoint) simp_all
  finally show ?thesis by (simp add: push_bit_eq_mult)
qed

lemma cont_byte_range:
  "\<not> (b < 0x80 \<or> b \<ge> 0xc0) \<longleftrightarrow> (\<exists>x. 0 \<le> x \<and> x < 64 \<and> (b :: u8) = byte (128 + x))" (is "?L = ?R")
proof
  assume ?L
  then have "128 \<le> uint b" "uint b < 192"
    by (simp_all add: word_less_def word_le_def)
  then show ?R by (intro exI [of _ "uint b - 128"]) (simp del: of_int_add)
next
  assume ?R
  then obtain x where "0 \<le> x" "x < 64" "b = byte (128 + x)" by blast
  moreover from this have "uint b = 128 + x" by (simp only: uint_byte)
  ultimately show ?L by (simp add: word_less_def word_le_def)
qed

lemma uint_cont_byte: "0 \<le> x \<Longrightarrow> x < 64 \<Longrightarrow> uint (byte (128 + x)) mod 64 = x"
  using mod_mult_self1 [of x 2 64] by (subst uint_byte) (simp_all add: add.commute)

lemma byte_cont_inj:
  "0 \<le> x \<Longrightarrow> x < 64 \<Longrightarrow> 0 \<le> y \<Longrightarrow> y < 64 \<Longrightarrow> byte (128 + x) = byte (128 + y) \<longleftrightarrow> x = y"
  by (subst byte_eq_iff) auto

abbreviation sextets :: "int list \<Rightarrow> bool" where
  "sextets xs \<equiv> \<forall>x \<in> set xs. 0 \<le> x \<and> x < 64"

lemma utf8_cont_iff:
  assumes "(uint c + 1) * 64 ^ k \<le> 2 ^ 32"
  shows "utf8_cont k c bs = Some (Some v, r) \<longleftrightarrow>
    (\<exists>xs. length xs = k \<and> sextets xs \<and> bs = map (\<lambda>x. byte (128 + x)) xs @ r \<and>
       uint v = shift_in (uint c) xs)"
  using assms
proof (induction k c bs rule: utf8_cont.induct)
  case (1 c p)
  then show ?case by (auto intro: word_uint_eqI)
next
  case (2 k c)
  then show ?case by (auto simp: length_Suc_conv)
next
  case (3 k c b p)
  show ?case
  proof (cases "b < 0x80 \<or> b \<ge> 0xc0")
    case True
    then have "\<not> (\<exists>x. 0 \<le> x \<and> x < 64 \<and> b = byte (128 + x))"
      using cont_byte_range [of b] by blast
    with True show ?thesis by (auto simp: length_Suc_conv)
  next
    case False
    then obtain x where x: "0 \<le> x" "x < 64" "b = byte (128 + x)"
      using cont_byte_range [of b] by blast
    let ?c = "push_bit 6 c OR (ucast b AND 0x3f) :: u32"
    have le: "(uint c + 1) * 64 \<le> (uint c + 1) * 64 ^ Suc k"
      by (intro mult_left_mono) (auto simp: self_le_power)
    then have "uint c < 2 ^ 26" using "3.prems" by simp
    then have c: "uint ?c = 64 * uint c + x"
      using uint_cont_step x uint_cont_byte by simp
    then have "(uint ?c + 1) * 64 ^ k \<le> (64 * (uint c + 1)) * 64 ^ k"
      using x by (intro mult_right_mono) auto
    also have "\<dots> = (uint c + 1) * 64 ^ Suc k" by simp
    also have "\<dots> \<le> 2 ^ 32" by (rule "3.prems")
    finally have IH: "utf8_cont k ?c p = Some (Some v, r) \<longleftrightarrow>
      (\<exists>xs. length xs = k \<and> sextets xs \<and> p = map (\<lambda>x. byte (128 + x)) xs @ r \<and>
         uint v = shift_in (uint ?c) xs)"
      by (rule "3.IH" [OF False])
    have "(\<exists>xs. length xs = Suc k \<and> sextets xs \<and> b # p = map (\<lambda>x. byte (128 + x)) xs @ r \<and>
         uint v = shift_in (uint c) xs) \<longleftrightarrow>
      (\<exists>xs. length xs = k \<and> sextets xs \<and> p = map (\<lambda>x. byte (128 + x)) xs @ r \<and>
         uint v = shift_in (64 * uint c + x) xs)" (is "?A \<longleftrightarrow> ?B")
    proof
      assume ?A
      then obtain y ys where "length ys = k" "sextets (y # ys)"
        "b = byte (128 + y)" "p = map (\<lambda>x. byte (128 + x)) ys @ r"
        "uint v = shift_in (64 * uint c + y) ys"
        by (auto simp: length_Suc_conv)
      with x byte_cont_inj show ?B by (intro exI [of _ ys]) auto
    next
      assume ?B
      then obtain ys where "length ys = k" "sextets ys"
        "p = map (\<lambda>x. byte (128 + x)) ys @ r" "uint v = shift_in (64 * uint c + x) ys"
        by blast
      with x show ?A by (intro exI [of _ "x # ys"]) simp
    qed
    with IH c have "utf8_cont k ?c p = Some (Some v, r) \<longleftrightarrow> ?A" by (simp only:)
    moreover have "utf8_cont (Suc k) c (b # p) = utf8_cont k ?c p" using False by simp
    ultimately show ?thesis by (simp only:)
  qed
qed

section \<open>Decoding what was encoded, and only that\<close>

definition utf8_valid :: "int \<Rightarrow> bool" where
  "utf8_valid c \<longleftrightarrow> 0 \<le> c \<and> c < 2 ^ 31 \<and> \<not> (0xd800 \<le> c \<and> c \<le> 0xdfff) \<and>
     c \<noteq> 0xfffe \<and> c \<noteq> 0xffff"

text \<open>Lead byte and payload of the class of \<open>l\<close> bytes.\<close>

definition lead_base :: "nat \<Rightarrow> int" where
  "lead_base l = [0, 0, 192, 224, 240, 248, 252] ! l"

definition lead_span :: "nat \<Rightarrow> int" where
  "lead_span l = [0, 0, 32, 16, 8, 4, 2] ! l"

lemma lead_base_values:
  "lead_base 2 = 192" "lead_base 3 = 224" "lead_base 4 = 240" "lead_base 5 = 248"
  "lead_base 6 = 252"
  by (simp_all add: lead_base_def)

lemma class_cases: "l \<in> {2..6::nat} \<Longrightarrow> l = 2 \<or> l = 3 \<or> l = 4 \<or> l = 5 \<or> l = 6"
  by auto

lemmas lead_tables = lead_base_def lead_span_def min_code_def first_code_mask_def

lemma length_class_iff:
  assumes "l = 2 \<or> l = 3 \<or> l = 4 \<or> l = 5 \<or> l = 6"
  shows "length_class n = l \<longleftrightarrow> lead_base l \<le> int n \<and> int n < lead_base l + lead_span l"
  using assms unfolding length_class_def lead_tables
  by (elim disjE; hypsubst) (auto split: if_splits)

lemma lead_class:
  "l \<in> {2..6} \<Longrightarrow> utf8_length b = l \<longleftrightarrow> (\<exists>a. 0 \<le> a \<and> a < lead_span l \<and> b = byte (lead_base l + a))"
proof -
  assume l: "l \<in> {2..6}"
  have "utf8_length b = l \<longleftrightarrow> lead_base l \<le> int (unat b) \<and> int (unat b) < lead_base l + lead_span l"
    using class_cases [OF l] unfolding utf8_length_eq by (rule length_class_iff)
  then have "utf8_length b = l \<longleftrightarrow> lead_base l \<le> uint b \<and> uint b < lead_base l + lead_span l"
    by (simp only: uint_nat)
  also have "\<dots> \<longleftrightarrow> (\<exists>a. 0 \<le> a \<and> a < lead_span l \<and> b = byte (lead_base l + a))" (is "?L = ?R")
  proof
    assume ?L
    then show ?R by (intro exI [of _ "uint b - lead_base l"]) (simp del: of_int_add)
  next
    assume ?R
    then obtain a where a: "0 \<le> a" "a < lead_span l" "b = byte (lead_base l + a)" by blast
    have "0 \<le> lead_base l" "lead_base l + lead_span l \<le> 256"
      using class_cases [OF l] by (elim disjE; simp add: lead_tables)+
    with a have "uint b = lead_base l + a" by (simp add: uint_byte del: of_int_add)
    with a show ?L by simp
  qed
  finally show ?thesis .
qed

lemma lead_payload:
  assumes "l \<in> {2..6}" "0 \<le> a" "a < lead_span l"
  shows "uint (ucast (byte (lead_base l + a) AND first_code_mask l) :: u32) = a"
proof -
  have b: "uint (byte (lead_base l + a)) = lead_base l + a"
    using class_cases [OF assms(1)] assms(2,3)
    by (intro uint_byte) (elim disjE; simp add: lead_tables)+
  let ?n = "7 - l"
  have n: "lead_span l = 2 ^ ?n" "uint (first_code_mask l) = mask ?n" "lead_base l mod 2 ^ ?n = 0"
    using class_cases [OF assms(1)]
    by (elim disjE; simp add: lead_tables mask_eq_exp_minus_1)+
  have "uint (byte (lead_base l + a) AND first_code_mask l) = (lead_base l + a) AND mask ?n"
    by (simp only: unsigned_and_eq b n(2))
  also have "\<dots> = (lead_base l + a) mod 2 ^ ?n"
    by (simp only: take_bit_eq_mask [symmetric] take_bit_eq_mod)
  also have "\<dots> = a"
    using assms(2,3) n by (metis mod_add_self1 mod_add_eq add.left_neutral mod_mod_trivial
      mod_pos_pos_trivial)
  finally have "uint (byte (lead_base l + a) AND first_code_mask l) = a" .
  then show ?thesis
    unfolding unsigned_ucast_eq using u8_uint_less [of "byte (lead_base l + a) AND first_code_mask l"]
      assms(2) by (subst take_bit_int_eq_self) auto
qed

lemma powers_64:
  "64 * 64 = (4096::int)" "64 * 4096 = (262144::int)" "64 * 262144 = (16777216::int)"
  "64 * 16777216 = (1073741824::int)"
  by simp_all

lemma shift_div:
  assumes "0 \<le> x" "x < (64::int)"
  shows "(64 * y + x) mod 64 = x" "(64 * y + x) div 64 = y"
    "(64 * y + x) div 4096 = y div 64" "(64 * y + x) div 262144 = y div 4096"
    "(64 * y + x) div 16777216 = y div 262144"
    "(64 * y + x) div 1073741824 = y div 16777216"
proof -
  show "(64 * y + x) mod 64 = x" using assms by simp
  show e: "(64 * y + x) div 64 = y" using assms by simp
  have d: "(64 * y + x) div (64 * numeral k) = y div numeral k" for k
    using zdiv_zmult2_eq [OF zero_le_numeral, of "64 * y + x" 64 k] unfolding e .
  note n = powers_64 [symmetric]
  show "(64 * y + x) div 4096 = y div 64" unfolding n(1) by (rule d)
  show "(64 * y + x) div 262144 = y div 4096" unfolding n(2) by (rule d)
  show "(64 * y + x) div 16777216 = y div 262144" unfolding n(3) by (rule d)
  show "(64 * y + x) div 1073741824 = y div 16777216" unfolding n(4) by (rule d)
qed

lemma length_numerals:
  "length xs = 2 \<longleftrightarrow> (\<exists>a b. xs = [a, b])" "length xs = 3 \<longleftrightarrow> (\<exists>a b c. xs = [a, b, c])"
  "length xs = 4 \<longleftrightarrow> (\<exists>a b c d. xs = [a, b, c, d])"
  "length xs = 5 \<longleftrightarrow> (\<exists>a b c d e. xs = [a, b, c, d, e])"
  by (auto simp: length_Suc_conv eval_nat_numeral)

lemma length_one: "length xs = Suc 0 \<longleftrightarrow> (\<exists>a. xs = [a])"
  by (auto simp: length_Suc_conv)

text \<open>
  The payload of a code: the bits of the lead byte and the sextets of the continuation
  bytes. Its class is the number of bytes of its canonical encoding.
\<close>

definition payload :: "nat \<Rightarrow> int \<Rightarrow> int list \<Rightarrow> int \<Rightarrow> bool" where
  "payload l a xs c \<longleftrightarrow> l \<in> {2..6} \<and> 0 \<le> a \<and> a < lead_span l \<and> length xs = l - 1 \<and> sextets xs \<and>
     c = shift_in a xs \<and> uint (min_code l) \<le> c"

definition payload_bytes :: "nat \<Rightarrow> int \<Rightarrow> int list \<Rightarrow> u8 list" where
  "payload_bytes l a xs = byte (lead_base l + a) # map (\<lambda>x. byte (128 + x)) xs"

text \<open>The canonical bytes of a code, class by class.\<close>

lemma utf8_bytes_2:
  assumes "0x80 \<le> c" "c < 0x800"
  shows "utf8_bytes c = [192 + c div 64, 128 + c mod 64]"
  using assms by (simp add: utf8_bytes_def)

lemma utf8_bytes_3:
  assumes "0x800 \<le> c" "c < 0x10000"
  shows "utf8_bytes c = [224 + c div 4096, 128 + (c div 64) mod 64, 128 + c mod 64]"
  using assms by (simp add: utf8_bytes_def)

lemma utf8_bytes_4:
  assumes "0x10000 \<le> c" "c < 0x200000"
  shows "utf8_bytes c =
    [240 + c div 262144, 128 + (c div 4096) mod 64, 128 + (c div 64) mod 64, 128 + c mod 64]"
  using assms by (simp add: utf8_bytes_def)

lemma utf8_bytes_5:
  assumes "0x200000 \<le> c" "c < 0x4000000"
  shows "utf8_bytes c =
    [248 + c div 16777216, 128 + (c div 262144) mod 64, 128 + (c div 4096) mod 64,
     128 + (c div 64) mod 64, 128 + c mod 64]"
  using assms by (simp add: utf8_bytes_def)

lemma utf8_bytes_6:
  assumes "0x4000000 \<le> c"
  shows "utf8_bytes c =
    [252 + c div 1073741824, 128 + (c div 16777216) mod 64, 128 + (c div 262144) mod 64,
     128 + (c div 4096) mod 64, 128 + (c div 64) mod 64, 128 + c mod 64]"
  using assms by (simp add: utf8_bytes_def)

lemma shift_in_bounds:
  "sextets xs \<Longrightarrow> a * 64 ^ length xs \<le> shift_in a xs \<and> shift_in a xs < (a + 1) * 64 ^ length xs"
proof (induction xs arbitrary: a)
  case (Cons x xs)
  let ?k = "64 ^ length xs :: int"
  have "(64 * a) * ?k \<le> (64 * a + x) * ?k" "(64 * a + x + 1) * ?k \<le> (64 * (a + 1)) * ?k"
    using Cons.prems by (intro mult_right_mono; force)+
  moreover have "(64 * a + x) * ?k \<le> shift_in (64 * a + x) xs \<and>
      shift_in (64 * a + x) xs < (64 * a + x + 1) * ?k"
    using Cons by (intro Cons.IH) simp
  ultimately have "(64 * a) * ?k \<le> shift_in (64 * a + x) xs \<and>
      shift_in (64 * a + x) xs < (64 * (a + 1)) * ?k" by linarith
  moreover have "64 ^ length (x # xs) = 64 * ?k" by simp
  ultimately show ?case by (simp only: shift_in_simps mult.assoc mult.left_commute)
qed simp

lemma payload_upper:
  assumes "payload l a xs c" shows "c < lead_span l * 64 ^ (l - 1)"
proof -
  have "c < (a + 1) * 64 ^ (l - 1)"
    using assms shift_in_bounds [of xs a] by (simp add: payload_def)
  also have "\<dots> \<le> lead_span l * 64 ^ (l - 1)"
    using assms by (intro mult_right_mono) (auto simp: payload_def)
  finally show ?thesis .
qed

lemma payload_utf8_bytes:
  assumes "payload l a xs c"
  shows "utf8_bytes c = (lead_base l + a) # map (\<lambda>x. 128 + x) xs \<and> 0x80 \<le> c \<and> c < 2 ^ 31"
proof -
  have l: "l = 2 \<or> l = 3 \<or> l = 4 \<or> l = 5 \<or> l = 6"
    using assms class_cases by (simp add: payload_def)
  note up = payload_upper [OF assms]
  have p: "length xs = l - 1" "sextets xs" "c = shift_in a xs" "uint (min_code l) \<le> c"
    using assms by (simp_all add: payload_def)
  from l show ?thesis
  proof (elim disjE)
    assume [simp]: "l = 2"
    from p obtain x where [simp]: "xs = [x]" by (auto simp: length_one)
    have "utf8_bytes c = [192 + c div 64, 128 + c mod 64]"
      using p(4) up by (intro utf8_bytes_2) (simp_all add: lead_tables)
    with p up show ?thesis by (simp add: lead_tables shift_div)
  next
    assume [simp]: "l = 3"
    from p obtain x y where [simp]: "xs = [x, y]" by (auto simp: length_numerals)
    have c: "c = 64 * (64 * a + x) + y" using p(3) by (simp only: \<open>xs = [x, y]\<close> shift_in_simps)
    have r: "0 \<le> x" "x < 64" "0 \<le> y" "y < 64"
      using p(2) by simp_all
    have "utf8_bytes c = [224 + c div 4096, 128 + (c div 64) mod 64, 128 + c mod 64]"
      using p(4) up by (intro utf8_bytes_3) (simp_all add: lead_tables)
    moreover have "0x80 \<le> c" "c < 2 ^ 31" using p(4) up by (simp_all add: lead_tables)
    moreover have "c mod 64 = y" "c div 64 mod 64 = x" "c div 4096 = a"
      unfolding c shift_div [OF r(1,2)] shift_div [OF r(3,4)] by (rule refl)+
    ultimately show ?thesis
      by (simp only: \<open>l = 3\<close> \<open>xs = [x, y]\<close> lead_base_values list.map simp_thms)
  next
    assume [simp]: "l = 4"
    from p obtain x y z where [simp]: "xs = [x, y, z]" by (auto simp: length_numerals)
    have c: "c = 64 * (64 * (64 * a + x) + y) + z" using p(3) by (simp only: \<open>xs = [x, y, z]\<close> shift_in_simps)
    have r: "0 \<le> x" "x < 64" "0 \<le> y" "y < 64" "0 \<le> z" "z < 64"
      using p(2) by simp_all
    have "utf8_bytes c = [240 + c div 262144, 128 + (c div 4096) mod 64,
        128 + (c div 64) mod 64, 128 + c mod 64]"
      using p(4) up by (intro utf8_bytes_4) (simp_all add: lead_tables)
    moreover have "0x80 \<le> c" "c < 2 ^ 31" using p(4) up by (simp_all add: lead_tables)
    moreover have "c mod 64 = z" "c div 64 mod 64 = y" "c div 4096 mod 64 = x" "c div 262144 = a"
      unfolding c shift_div [OF r(1,2)] shift_div [OF r(3,4)] shift_div [OF r(5,6)] by (rule refl)+
    ultimately show ?thesis
      by (simp only: \<open>l = 4\<close> \<open>xs = [x, y, z]\<close> lead_base_values list.map simp_thms)
  next
    assume [simp]: "l = 5"
    from p obtain x y z u where [simp]: "xs = [x, y, z, u]" by (auto simp: length_numerals)
    have c: "c = 64 * (64 * (64 * (64 * a + x) + y) + z) + u" using p(3) by (simp only: \<open>xs = [x, y, z, u]\<close> shift_in_simps)
    have r: "0 \<le> x" "x < 64" "0 \<le> y" "y < 64" "0 \<le> z" "z < 64" "0 \<le> u" "u < 64"
      using p(2) by simp_all
    have "utf8_bytes c = [248 + c div 16777216, 128 + (c div 262144) mod 64,
        128 + (c div 4096) mod 64, 128 + (c div 64) mod 64, 128 + c mod 64]"
      using p(4) up by (intro utf8_bytes_5) (simp_all add: lead_tables)
    moreover have "0x80 \<le> c" "c < 2 ^ 31" using p(4) up by (simp_all add: lead_tables)
    moreover have "c mod 64 = u" "c div 64 mod 64 = z" "c div 4096 mod 64 = y" "c div 262144 mod 64 = x" "c div 16777216 = a"
      unfolding c shift_div [OF r(1,2)] shift_div [OF r(3,4)] shift_div [OF r(5,6)] shift_div [OF r(7,8)] by (rule refl)+
    ultimately show ?thesis
      by (simp only: \<open>l = 5\<close> \<open>xs = [x, y, z, u]\<close> lead_base_values list.map simp_thms)
  next
    assume [simp]: "l = 6"
    from p obtain x y z u v where [simp]: "xs = [x, y, z, u, v]" by (auto simp: length_numerals)
    have c: "c = 64 * (64 * (64 * (64 * (64 * a + x) + y) + z) + u) + v" using p(3) by (simp only: \<open>xs = [x, y, z, u, v]\<close> shift_in_simps)
    have r: "0 \<le> x" "x < 64" "0 \<le> y" "y < 64" "0 \<le> z" "z < 64" "0 \<le> u" "u < 64" "0 \<le> v" "v < 64"
      using p(2) by simp_all
    have "utf8_bytes c = [252 + c div 1073741824, 128 + (c div 16777216) mod 64,
        128 + (c div 262144) mod 64, 128 + (c div 4096) mod 64, 128 + (c div 64) mod 64,
        128 + c mod 64]"
      using p(4) by (intro utf8_bytes_6) (simp_all add: lead_tables)
    moreover have "0x80 \<le> c" "c < 2 ^ 31" using p(4) up by (simp_all add: lead_tables)
    moreover have "c mod 64 = v" "c div 64 mod 64 = u" "c div 4096 mod 64 = z" "c div 262144 mod 64 = y" "c div 16777216 mod 64 = x" "c div 1073741824 = a"
      unfolding c shift_div [OF r(1,2)] shift_div [OF r(3,4)] shift_div [OF r(5,6)] shift_div [OF r(7,8)] shift_div [OF r(9,10)] by (rule refl)+
    ultimately show ?thesis
      by (simp only: \<open>l = 6\<close> \<open>xs = [x, y, z, u, v]\<close> lead_base_values list.map simp_thms)
  qed
qed

lemma payload_encode:
  assumes "payload l a xs c" shows "utf8_encode c = payload_bytes l a xs"
  using payload_utf8_bytes [OF assms]
  by (simp add: utf8_encode_eq payload_bytes_def del: of_int_add of_int_numeral)

lemma lead_not_ascii:
  assumes "l \<in> {2..6}" "0 \<le> a" "a < lead_span l"
  shows "\<not> byte (lead_base l + a) < 128" "utf8_length (byte (lead_base l + a)) = l"
proof -
  show u: "utf8_length (byte (lead_base l + a)) = l" using lead_class assms by blast
  then show "\<not> byte (lead_base l + a) < 128"
    using assms(1) by (auto simp: utf8_length_eq length_class_def word_less_nat_alt)
qed

lemma uint_u32_le: "c < (d :: u32) \<longleftrightarrow> uint c < uint d" "c \<le> d \<longleftrightarrow> uint c \<le> uint d"
  by (simp_all add: word_less_def word_le_def)

lemma utf8_forbidden_iff:
  "utf8_forbidden c \<longleftrightarrow> (0xd800 \<le> uint c \<and> uint c \<le> 0xdfff) \<or> uint c = 0xfffe \<or> uint c = 0xffff"
  by (auto simp: utf8_forbidden_def uint_u32_le word_uint_eq_iff)

lemma cont_bound:
  assumes "l \<in> {2..6}" "0 \<le> a" "a < lead_span l"
  shows "(a + 1) * 64 ^ (l - 1) \<le> 2 ^ 32"
  using class_cases [OF assms(1)] assms(3) by (elim disjE) (simp_all add: lead_tables)

text \<open>Every decoding of more than one byte, other than a failure, has the canonical payload.\<close>

lemma utf8_decode_payload:
  assumes "payload l a xs c" "utf8_valid c"
  shows "utf8_decode (payload_bytes l a xs @ r) = Some (c, r)"
proof -
  have l: "l \<in> {2..6}" "0 \<le> a" "a < lead_span l" "length xs = l - 1" "sextets xs"
    "c = shift_in a xs" "uint (min_code l) \<le> c" using assms(1) by (auto simp: payload_def)
  let ?b = "byte (lead_base l + a)"
  let ?a = "ucast (?b AND first_code_mask l) :: u32"
  have a: "uint ?a = a" by (rule lead_payload [OF l(1-3)])
  have c: "uint (word_of_int c :: u32) = c"
    using assms(2) by (simp add: uint_word_of_int utf8_valid_def)
  have "utf8_cont (l - 1) ?a (map (\<lambda>x. byte (128 + x)) xs @ r) = Some (Some (word_of_int c), r)"
    using l c by (subst utf8_cont_iff) (use a cont_bound [OF l(1-3)] in auto)
  then show ?thesis
    using lead_not_ascii [OF l(1-3)] l(1,7) assms(2) c
    by (auto simp: utf8_decode_def payload_bytes_def utf8_forbidden_iff uint_u32_le utf8_valid_def
        simp del: of_int_add of_int_numeral)
qed

lemma utf8_decode_SomeD:
  assumes "utf8_decode bs = Some (c, r)" "c \<noteq> INVALID_CHAR"
  shows "(\<exists>b. b < 128 \<and> bs = b # r \<and> c = uint b) \<or>
    (\<exists>l a xs. payload l a xs c \<and> utf8_valid c \<and> bs = payload_bytes l a xs @ r)"
proof -
  obtain b p where bs: "bs = b # p"
    using assms(1) by (cases bs) (auto simp: utf8_decode_def)
  show ?thesis
  proof (cases "b < 128")
    case True
    with assms(1) bs show ?thesis by (simp add: utf8_decode_def)
  next
    case False
    let ?l = "utf8_length b"
    let ?a = "ucast (b AND first_code_mask ?l) :: u32"
    from False assms bs obtain v where v: "?l \<noteq> 1" "utf8_cont (?l - 1) ?a p = Some (Some v, r)"
      "\<not> v < min_code ?l" "\<not> utf8_forbidden v" "c = uint v"
      by (auto simp: utf8_decode_def Let_def split: if_splits option.splits)
    have l: "?l \<in> {2..6}"
      using v(1) by (auto simp: utf8_length_eq length_class_def split: if_splits)
    then obtain a where a: "0 \<le> a" "a < lead_span ?l" "b = byte (lead_base ?l + a)"
      using lead_class by blast
    have ua: "uint ?a = a" using lead_payload [OF l a(1,2)] a(3) by simp
    obtain xs where xs: "length xs = ?l - 1" "sextets xs" "p = map (\<lambda>x. byte (128 + x)) xs @ r"
      "uint v = shift_in a xs"
      using v(2) utf8_cont_iff [of ?a "?l - 1" p v r] ua cont_bound [OF l a(1,2)] by auto
    have pl: "payload ?l a xs c"
      using l a xs v by (simp add: payload_def uint_u32_le)
    moreover have "utf8_valid c"
      using payload_utf8_bytes [OF pl] v by (auto simp: utf8_valid_def utf8_forbidden_iff)
    moreover have "bs = payload_bytes ?l a xs @ r"
      using bs a(3) xs(3) by (simp add: payload_bytes_def)
    ultimately show ?thesis by blast
  qed
qed

lemma payload_exists:
  assumes "0x80 \<le> c" "c < 2 ^ 31"
  obtains l a xs where "payload l a xs c"
proof -
  have sx: "0 \<le> c div k mod 64 \<and> c div k mod 64 < 64" "0 \<le> c mod 64 \<and> c mod 64 < 64" for k
    by simp_all
  have d1: "64 * (c div 64) + c mod 64 = c" by simp
  have d: "64 * (c div (64 * numeral k)) + c div numeral k mod 64 = c div numeral k" for k
    by (metis div_mult_mod_eq mult.commute zdiv_zmult2_eq zero_le_numeral)
  have d2: "64 * (c div 4096) + c div 64 mod 64 = c div 64"
    unfolding powers_64(1) [symmetric] by (rule d)
  have d3: "64 * (c div 262144) + c div 4096 mod 64 = c div 4096"
    unfolding powers_64(2) [symmetric] by (rule d)
  have d4: "64 * (c div 16777216) + c div 262144 mod 64 = c div 262144"
    unfolding powers_64(3) [symmetric] by (rule d)
  have d5: "64 * (c div 1073741824) + c div 16777216 mod 64 = c div 16777216"
    unfolding powers_64(4) [symmetric] by (rule d)
  consider "c < 0x800" | "0x800 \<le> c" "c < 0x10000" | "0x10000 \<le> c" "c < 0x200000"
    | "0x200000 \<le> c" "c < 0x4000000" | "0x4000000 \<le> c" by linarith
  then show thesis
  proof cases
    case 1
    then have "payload 2 (c div 64) [c mod 64] c"
      using assms by (auto simp: payload_def lead_tables)
    then show thesis by (rule that)
  next
    case 2
    then have "payload 3 (c div 4096) [c div 64 mod 64, c mod 64] c"
      by (auto simp: payload_def lead_tables d1 d2)
    then show thesis by (rule that)
  next
    case 3
    then have "payload 4 (c div 262144) [c div 4096 mod 64, c div 64 mod 64, c mod 64] c"
      by (auto simp: payload_def lead_tables d1 d2 d3)
    then show thesis by (rule that)
  next
    case 4
    then have "payload 5 (c div 16777216)
        [c div 262144 mod 64, c div 4096 mod 64, c div 64 mod 64, c mod 64] c"
      by (auto simp: payload_def lead_tables d1 d2 d3 d4)
    then show thesis by (rule that)
  next
    case 5
    have "0 \<le> c div 1073741824" "c div 1073741824 < 2"
      using assms by (simp_all add: pos_imp_zdiv_nonneg_iff)
    with 5 have "payload 6 (c div 1073741824)
        [c div 16777216 mod 64, c div 262144 mod 64, c div 4096 mod 64, c div 64 mod 64,
         c mod 64] c"
      using assms by (simp add: payload_def lead_tables d1 d2 d3 d4 d5)
    then show thesis by (rule that)
  qed
qed

lemma utf8_encode_ascii: "0 \<le> c \<Longrightarrow> c < 0x80 \<Longrightarrow> utf8_encode c = [byte c]"
  by (simp add: utf8_encode_def)

lemma byte_ascii: "0 \<le> c \<Longrightarrow> c < 0x80 \<Longrightarrow> byte c < 128"
  by (simp add: word_less_def uint_byte)

text \<open>Decoding an encoded code point gives it back.\<close>

lemma utf8_roundtrip:
  assumes "utf8_valid c" shows "utf8_decode (utf8_encode c @ r) = Some (c, r)"
proof (cases "c < 0x80")
  case True
  then show ?thesis
    using assms byte_ascii [of c] by (simp add: utf8_encode_ascii utf8_valid_def utf8_decode_def uint_byte)
next
  case False
  then obtain l a xs where "payload l a xs c"
    using assms payload_exists [of c] by (auto simp: utf8_valid_def)
  then show ?thesis
    using assms utf8_decode_payload by (simp add: payload_encode)
qed

text \<open>The decoder is strict: what it accepts is the canonical encoding of the result.\<close>

lemma utf8_decode_canonical:
  assumes "utf8_decode bs = Some (c, r)" "c \<noteq> INVALID_CHAR"
  shows "utf8_valid c \<and> bs = utf8_encode c @ r"
  using utf8_decode_SomeD [OF assms]
proof
  assume "\<exists>b. b < 128 \<and> bs = b # r \<and> c = uint b"
  then obtain b where b: "b < 128" "bs = b # r" "c = uint b" by blast
  then have "c < 0x80" by (simp add: word_less_def)
  with b show ?thesis by (simp add: utf8_encode_ascii utf8_valid_def)
next
  assume "\<exists>l a xs. payload l a xs c \<and> utf8_valid c \<and> bs = payload_bytes l a xs @ r"
  then show ?thesis by (auto simp: payload_encode)
qed

lemma utf8_cont_rest:
  "utf8_cont k c p = Some (v, r) \<Longrightarrow> \<exists>q. p = q @ r \<and> length q \<le> k"
proof (induction k c p rule: utf8_cont.induct)
  case (3 k c b p)
  show ?case
  proof (cases "b < 0x80 \<or> b \<ge> 0xc0")
    case False
    with 3 obtain q where "p = q @ r" "length q \<le> k" by auto
    then show ?thesis by (intro exI [of _ "b # q"]) simp
  qed (use 3 in auto)
qed auto

text \<open>Every call consumes between one and six bytes, whatever the input.\<close>

lemma utf8_decode_progress:
  assumes "utf8_decode bs = Some (c, r)"
  shows "\<exists>q. bs = q @ r \<and> 1 \<le> length q \<and> length q \<le> MAX_CHAR_BYTES"
proof -
  obtain b p where bs: "bs = b # p"
    using assms by (cases bs) (auto simp: utf8_decode_def)
  have "utf8_length b - 1 \<le> 5" by (simp add: utf8_length_eq length_class_def)
  moreover have "\<exists>q. p = q @ r \<and> length q \<le> utf8_length b - 1"
    using assms bs utf8_cont_rest
    by (fastforce simp: utf8_decode_def Let_def split: if_splits option.splits)
  ultimately obtain q where "p = q @ r" "length q \<le> 5" by auto
  with bs show ?thesis by (intro exI [of _ "b # q"]) (simp add: MAX_CHAR_BYTES_def)
qed

lemma utf8_decode_total:
  "MAX_CHAR_BYTES \<le> length bs \<Longrightarrow> \<exists>c r. utf8_decode bs = Some (c, r)"
proof -
  have *: "k \<le> length p \<Longrightarrow> \<exists>v r. utf8_cont k c p = Some (v, r)" for k c p
    by (induction k c p rule: utf8_cont.induct) auto
  assume "MAX_CHAR_BYTES \<le> length bs"
  then obtain b p where bs: "bs = b # p" "5 \<le> length p"
    by (cases bs) (auto simp: MAX_CHAR_BYTES_def)
  have "utf8_length b - 1 \<le> 5" by (simp add: utf8_length_eq length_class_def)
  then have "\<exists>v r. utf8_cont (utf8_length b - 1) c p = Some (v, r)" for c
    using bs(2) by (intro *) simp
  then obtain v r where
    "utf8_cont (utf8_length b - 1) (ucast (b AND first_code_mask (utf8_length b))) p = Some (v, r)"
    by blast
  with bs(1) show ?thesis
    by (auto simp: utf8_decode_def Let_def split: option.splits)
qed

end
