(* ===== verification/Charset.thy ===== *)
theory Charset
  imports Utf8
begin

text \<open>
  The charsets of \<open>src/charset.c\<close> and the declarations of \<open>src/qe.h\<close> around them: the
  three charsets with their tables, aliases and coders, the registry, the table-driven
  decoder \<open>charset_decode\<close>, the detection heuristic, and the interface \<open>char_codec\<close> of a
  coder and decoder that agree.
\<close>

section \<open>The charsets\<close>

text \<open>A charset is identified by the object that describes it, as the pointer comparisons do.\<close>

datatype QECharset = Charset_8859_1 | Charset_utf8 | Charset_7bit

fun charset_name :: "QECharset \<Rightarrow> string" where
  "charset_name Charset_8859_1 = ''8859-1''"
| "charset_name Charset_utf8 = ''utf-8''"
| "charset_name Charset_7bit = ''7bit''"

fun charset_aliases :: "QECharset \<Rightarrow> string list" where
  "charset_aliases Charset_8859_1 = [''ISO-8859-1'', ''iso-ir-100'', ''latin1'', ''l1'', ''819'']"
| "charset_aliases Charset_utf8 = [''utf8'']"
| "charset_aliases Charset_7bit =
     [''us-ascii'', ''ascii'', ''7bit'', ''7-bit'', ''iso-ir-6'', ''ANSI_X3.4'', ''646'']"

definition encode_8859_1 :: "int \<Rightarrow> u8 list option" where
  "encode_8859_1 c = (if c \<le> 0xff then Some [byte c] else None)"

definition encode_7bit :: "int \<Rightarrow> u8 list option" where
  "encode_7bit c = (if c \<le> 0x7f then Some [byte c] else None)"

definition encode_utf8 :: "int \<Rightarrow> u8 list option" where
  "encode_utf8 c = Some (utf8_encode c)"

fun encode_func :: "QECharset \<Rightarrow> int \<Rightarrow> u8 list option" where
  "encode_func Charset_8859_1 = encode_8859_1"
| "encode_func Charset_utf8 = encode_utf8"
| "encode_func Charset_7bit = encode_7bit"

text \<open>
  The decoder state after \<open>charset_decode_init\<close>: its table and whether it has a slow
  decoder. No charset of the program sets \<open>table_alloc\<close>.
\<close>

record CharsetDecodeState =
  table :: "int list"
  decode_func :: "(u8 list \<Rightarrow> (int \<times> u8 list) option) option"

fun charset_decode_init :: "QECharset \<Rightarrow> CharsetDecodeState" where
  "charset_decode_init Charset_8859_1 = \<lparr>table = table_idem, decode_func = None\<rparr>"
| "charset_decode_init Charset_utf8 = \<lparr>table = table_utf8, decode_func = Some utf8_decode\<rparr>"
| "charset_decode_init Charset_7bit = \<lparr>table = table_idem, decode_func = None\<rparr>"

definition charset_decode :: "CharsetDecodeState \<Rightarrow> u8 list \<Rightarrow> (int \<times> u8 list) option" where
  "charset_decode s pp = (case pp of [] \<Rightarrow> None | b # p \<Rightarrow>
     let c = table s ! unat b in
     if c = ESCAPE_CHAR then (case decode_func s of None \<Rightarrow> None | Some f \<Rightarrow> f pp)
     else Some (c, p))"

text \<open>
  \<open>unicode_to_charset\<close>: the bytes written before the terminating zero, with \<open>'?'\<close> where
  the charset cannot represent the character.
\<close>

definition unicode_to_charset :: "int \<Rightarrow> QECharset \<Rightarrow> u8 list" where
  "unicode_to_charset c charset = (case encode_func charset c of None \<Rightarrow> [0x3f] | Some q \<Rightarrow> q)"

text \<open>
  What \<open>unicode_to_charset\<close> writes into an array of \<open>MAX_CHAR_BYTES\<close> bytes, with its terminating
  zero behind the array if the character has as many bytes.
\<close>

definition char_bytes :: "int \<Rightarrow> QECharset \<Rightarrow> u8 list option" where
  "char_bytes c cs =
     (let q = unicode_to_charset c cs in if length q < MAX_CHAR_BYTES then Some q else None)"

text \<open>\<open>uq\<close> entries are left before the last one, which holds the terminating zero.\<close>

fun utf8_to_unicode_loop :: "nat \<Rightarrow> u8 list \<Rightarrow> int list option" where
  "utf8_to_unicode_loop 0 p = Some []"
| "utf8_to_unicode_loop (Suc uq) p = (case utf8_decode p of None \<Rightarrow> None
     | Some (c, p') \<Rightarrow> if c = 0 then Some []
         else map_option ((#) c) (utf8_to_unicode_loop uq p'))"

definition utf8_to_unicode :: "int \<Rightarrow> u8 list \<Rightarrow> int list option" where
  "utf8_to_unicode dest_length str =
     (if dest_length \<le> 0 then Some [] else utf8_to_unicode_loop (nat (dest_length - 1)) str)"

section \<open>The registry\<close>

definition qe_register_charset :: "QECharset list \<Rightarrow> QECharset \<Rightarrow> QECharset list" where
  "qe_register_charset cs c = cs @ [c]"

definition charset_init :: "QECharset list" where
  "charset_init = qe_register_charset (qe_register_charset (qe_register_charset []
     Charset_8859_1) Charset_utf8) Charset_7bit"

definition strcaseeq :: "string \<Rightarrow> string \<Rightarrow> bool" where
  "strcaseeq a b \<longleftrightarrow> map c_tolower a = map c_tolower b"

fun find_charset :: "QECharset list \<Rightarrow> string \<Rightarrow> QECharset option" where
  "find_charset [] str = None"
| "find_charset (p # ps) str =
     (if strcaseeq str (charset_name p) then Some p
      else if \<exists>a \<in> set (charset_aliases p). strcaseeq str a then Some p
      else find_charset ps str)"

section \<open>Detection\<close>

text \<open>
  The inner loop of \<open>detect_charset\<close> reads up to \<open>l - 1\<close> continuation bytes. The jump to
  \<open>no_utf8\<close> clears the flag and leaves the inner loop only: the scan goes on behind the
  offending byte.
\<close>

fun detect_cont :: "nat \<Rightarrow> u8 list \<Rightarrow> bool \<Rightarrow> bool \<times> u8 list" where
  "detect_cont 0 p h = (h, p)"
| "detect_cont (Suc l) [] h = (True, [])"
| "detect_cont (Suc l) (c # p) h =
     (if c \<ge> 0x80 \<and> c < 0xc0 then detect_cont l p True else (False, p))"

lemma detect_cont_length: "length (snd (detect_cont l p h)) \<le> length p"
  by (induction l p h rule: detect_cont.induct) auto

function detect_loop :: "u8 list \<Rightarrow> bool \<Rightarrow> bool" where
  "detect_loop [] has_utf8 = has_utf8"
| "detect_loop (c # p) has_utf8 =
     (if (c \<ge> 0x80 \<and> c < 0xc0) \<or> c \<ge> 0xfe then detect_loop p False
      else detect_loop (snd (detect_cont (utf8_length c - 1) p has_utf8))
             (fst (detect_cont (utf8_length c - 1) p has_utf8)))"
  by pat_completeness auto
termination
  by (relation "measure (\<lambda>(p, h). length p)") (auto intro: le_imp_less_Suc detect_cont_length)

definition detect_charset :: "u8 list \<Rightarrow> QECharset" where
  "detect_charset buf = (if detect_loop buf False then Charset_utf8 else Charset_8859_1)"

section \<open>An interface: a coder and a decoder that agree\<close>

text \<open>
  \<open>ok\<close> says which characters the coder represents. A client of a charset, such as the
  display of a decoded line, relies on no more than these laws.
\<close>

definition enc_text :: "(int \<Rightarrow> u8 list option) \<Rightarrow> int list \<Rightarrow> u8 list" where
  "enc_text enc cs = concat (map (\<lambda>c. the (enc c)) cs)"

fun dec_text :: "(u8 list \<Rightarrow> (int \<times> u8 list) option) \<Rightarrow> nat \<Rightarrow> u8 list \<Rightarrow> int list option" where
  "dec_text dec n [] = Some []"
| "dec_text dec 0 p = None"
| "dec_text dec (Suc n) p =
     (case dec p of None \<Rightarrow> None | Some (c, r) \<Rightarrow> map_option ((#) c) (dec_text dec n r))"

locale char_codec =
  fixes enc :: "int \<Rightarrow> u8 list option"
    and dec :: "u8 list \<Rightarrow> (int \<times> u8 list) option"
    and ok :: "int \<Rightarrow> bool"
  assumes enc_ok: "ok c \<Longrightarrow> \<exists>e. enc c = Some e \<and> e \<noteq> [] \<and> (\<forall>r. dec (e @ r) = Some (c, r))"
begin

lemma dec_text_step:
  "p \<noteq> [] \<Longrightarrow> dec p = Some (c, r) \<Longrightarrow> dec_text dec (Suc n) p = map_option ((#) c) (dec_text dec n r)"
  by (cases p) auto

text \<open>Decoding an encoded text returns it; one unit of fuel per character is enough.\<close>

lemma dec_text_enc_text:
  "\<forall>c \<in> set cs. ok c \<Longrightarrow> length cs \<le> n \<Longrightarrow> dec_text dec n (enc_text enc cs) = Some cs"
proof (induction cs arbitrary: n)
  case Nil
  then show ?case by (cases n) (simp_all add: enc_text_def)
next
  case (Cons c cs)
  then obtain m where m: "n = Suc m" "length cs \<le> m" by (cases n) auto
  have "ok c" using Cons.prems(1) by simp
  then obtain e where e: "enc c = Some e" "e \<noteq> []" "\<forall>r. dec (e @ r) = Some (c, r)"
    using enc_ok by blast
  have "enc_text enc (c # cs) = e @ enc_text enc cs" using e(1) by (simp add: enc_text_def)
  moreover have "dec_text dec (Suc m) (e @ enc_text enc cs) =
      map_option ((#) c) (dec_text dec m (enc_text enc cs))"
    by (rule dec_text_step) (use e in auto)
  moreover have "dec_text dec m (enc_text enc cs) = Some cs"
    using Cons.prems(1) m(2) by (intro Cons.IH) simp_all
  ultimately show ?case using m(1) by simp
qed

lemma enc_prefix_free:
  assumes "ok c" "ok d" "enc c = Some e" "enc d = Some (e @ r)"
  shows "c = d \<and> r = []"
proof -
  have 1: "dec (e @ r) = Some (c, r)" using enc_ok [OF assms(1)] assms(3) by auto
  obtain f where "enc d = Some f" "\<forall>r. dec (f @ r) = Some (d, r)"
    using enc_ok [OF assms(2)] by blast
  then have "dec ((e @ r) @ []) = Some (d, [])" using assms(4) by (metis option.inject)
  with 1 show ?thesis by simp
qed

lemma enc_inj: "ok c \<Longrightarrow> ok d \<Longrightarrow> enc c = enc d \<Longrightarrow> c = d"
  by (metis append_Nil2 enc_ok enc_prefix_free)

end

section \<open>The charsets meet the interface\<close>

lemma nth_table_idem: "table_idem ! unat (b :: u8) = uint b"
proof -
  have "table_idem ! unat b = int ([0..<256] ! unat b)"
    unfolding table_idem_def by (rule nth_map) (simp only: length_upt u8_less diff_zero)
  also have "[0..<256] ! unat b = unat b"
    by (subst nth_upt) (simp_all only: u8_less add_0)
  finally show ?thesis by (simp only: uint_nat)
qed

lemma idem_decode:
  "charset_decode \<lparr>table = table_idem, decode_func = f\<rparr> (b # p) = Some (uint b, p)"
proof -
  have "uint b \<noteq> ESCAPE_CHAR" using u8_uint_less [of b] unfolding ESCAPE_CHAR_def by linarith
  then show ?thesis
    by (simp only: charset_decode_def list.case Let_def CharsetDecodeState.simps nth_table_idem
        if_False)
qed

lemma nth_table_utf8:
  "i < 256 \<Longrightarrow> table_utf8 ! i =
    (if i < 0x80 then int i else if i < 0xc0 then INVALID_CHAR
     else if i < 0xfe then ESCAPE_CHAR else INVALID_CHAR)"
  by (auto simp: table_utf8_def nth_append simp del: upt_rec_numeral)

lemma u8_less_iff: "(b :: u8) < 128 \<longleftrightarrow> unat b < 128"
  by (simp add: word_less_nat_alt)

text \<open>The table-driven decoder of UTF-8 is the decoder itself.\<close>

lemma charset_decode_utf8:
  "charset_decode (charset_decode_init Charset_utf8) p = utf8_decode p"
proof (cases p)
  case (Cons b q)
  let ?t = "table_utf8 ! unat b"
  have dec: "charset_decode (charset_decode_init Charset_utf8) p =
      (if ?t = ESCAPE_CHAR then utf8_decode p else Some (?t, q))"
    by (simp only: Cons charset_decode_def charset_decode_init.simps list.case Let_def
        CharsetDecodeState.simps option.case)
  note t = nth_table_utf8 [OF u8_less [of b]]
  consider "unat b < 0x80" | "0x80 \<le> unat b" "\<not> (0xc0 \<le> unat b \<and> unat b < 0xfe)"
    | "0xc0 \<le> unat b" "unat b < 0xfe" by linarith
  then show ?thesis
  proof cases
    case 1
    then have "b < 128" unfolding u8_less_iff by simp
    moreover have "?t = uint b" using 1 unfolding t uint_nat by simp
    moreover from 1 this have "?t \<noteq> ESCAPE_CHAR" unfolding uint_nat ESCAPE_CHAR_def by linarith
    ultimately show ?thesis unfolding dec by (simp only: Cons utf8_decode_def list.case if_True if_False)
  next
    case 2
    then have "\<not> b < 128" unfolding u8_less_iff by simp
    moreover have "?t = INVALID_CHAR" using 2 unfolding t by auto
    moreover have "utf8_length b = 1" using 2 unfolding utf8_length_eq length_class_def by auto
    moreover have "INVALID_CHAR \<noteq> ESCAPE_CHAR" by (simp add: INVALID_CHAR_def ESCAPE_CHAR_def)
    ultimately show ?thesis
      unfolding dec by (simp only: Cons utf8_decode_def list.case if_True if_False Let_def
          simp_thms)
  next
    case 3
    then show ?thesis unfolding dec t by simp
  qed
qed (simp add: charset_decode_def utf8_decode_def)

fun representable :: "QECharset \<Rightarrow> int \<Rightarrow> bool" where
  "representable Charset_8859_1 c \<longleftrightarrow> 0 \<le> c \<and> c \<le> 0xff"
| "representable Charset_utf8 c \<longleftrightarrow> utf8_valid c"
| "representable Charset_7bit c \<longleftrightarrow> 0 \<le> c \<and> c \<le> 0x7f"

lemma utf8_encode_not_Nil [simp]: "utf8_encode c \<noteq> []"
  by (simp add: utf8_encode_def)

lemma charset_codec:
  assumes "representable cs c"
  shows "\<exists>e. encode_func cs c = Some e \<and> e \<noteq> [] \<and>
    (\<forall>r. charset_decode (charset_decode_init cs) (e @ r) = Some (c, r))"
proof (cases cs)
  case Charset_utf8
  then show ?thesis using assms
    by (simp add: encode_utf8_def charset_decode_utf8 utf8_roundtrip del: charset_decode_init.simps)
qed (use assms in \<open>simp_all add: encode_8859_1_def encode_7bit_def idem_decode uint_byte\<close>)

interpretation codec: char_codec "encode_func cs" "charset_decode (charset_decode_init cs)"
  "representable cs" for cs
  by unfold_locales (rule charset_codec)

section \<open>What detection returns\<close>

lemma detect_cont_sextets:
  "sextets xs \<Longrightarrow> detect_cont (length xs) (map (\<lambda>x. byte (128 + x)) xs @ p) h =
     (if xs = [] then h else True, p)"
proof (induction xs arbitrary: h)
  case (Cons x xs)
  then have "\<not> (byte (128 + x) < 0x80 \<or> byte (128 + x) \<ge> 0xc0)"
    using cont_byte_range by auto
  then have "byte (128 + x) \<ge> 0x80 \<and> byte (128 + x) < 0xc0"
    by (simp only: de_Morgan_disj not_less not_le)
  with Cons show ?case by (simp del: of_int_add of_int_numeral)
qed simp

lemma detect_loop_encode:
  assumes "utf8_valid c"
  shows "detect_loop (utf8_encode c @ p) h = detect_loop p (h \<or> 0x80 \<le> c)"
proof (cases "c < 0x80")
  case True
  then have c: "unat (byte c) < 0x80"
    using assms uint_byte [of c] by (simp add: utf8_valid_def unat_eq_nat_uint)
  then have "utf8_length (byte c) = 1" by (simp add: utf8_length_eq length_class_def)
  with True c assms show ?thesis
    by (simp add: utf8_encode_ascii utf8_valid_def word_le_nat_alt word_less_nat_alt)
next
  case False
  then obtain l a xs where pl: "payload l a xs c"
    using assms payload_exists [of c] by (auto simp: utf8_valid_def)
  then have l: "l \<in> {2..6}" "0 \<le> a" "a < lead_span l" "length xs = l - 1" "sextets xs"
    by (auto simp: payload_def)
  let ?b = "byte (lead_base l + a)"
  have len: "utf8_length ?b = l" using lead_not_ascii [OF l(1-3)] by simp
  then have "\<not> ((?b \<ge> 0x80 \<and> ?b < 0xc0) \<or> ?b \<ge> 0xfe)"
    using l(1) by (auto simp: utf8_length_eq length_class_def word_le_nat_alt word_less_nat_alt
        split: if_splits)
  moreover have "detect_cont (l - 1) (map (\<lambda>x. byte (128 + x)) xs @ p) h = (True, p)"
    using detect_cont_sextets [OF l(5), of p h] l(1,4) by auto
  ultimately show ?thesis
    using False len by (auto simp: payload_encode [OF pl] payload_bytes_def
        simp del: of_int_add of_int_numeral)
qed

lemma detect_loop_text:
  "\<forall>c \<in> set cs. utf8_valid c \<Longrightarrow>
    detect_loop (concat (map utf8_encode cs)) h \<longleftrightarrow> h \<or> (\<exists>c \<in> set cs. 0x80 \<le> c)"
  by (induction cs arbitrary: h) (auto simp: detect_loop_encode)

lemma detect_charset_text:
  "\<forall>c \<in> set cs. utf8_valid c \<Longrightarrow>
    detect_charset (concat (map utf8_encode cs)) =
      (if \<exists>c \<in> set cs. 0x80 \<le> c then Charset_utf8 else Charset_8859_1)"
  by (simp add: detect_charset_def detect_loop_text)

text \<open>
  An invalid byte does not end the scan: a later multi-byte character sets the flag
  again, although the buffer as a whole is not UTF-8.
\<close>

lemma detect_charset_after_invalid:
  "detect_charset [0xff, 0xc3, 0xa9] = Charset_utf8 \<and>
   charset_decode (charset_decode_init Charset_utf8) [0xff, 0xc3, 0xa9] =
     Some (INVALID_CHAR, [0xc3, 0xa9])"
  by code_simp

lemma unicode_to_charset_length:
  "unicode_to_charset c cs \<noteq> [] \<and> length (unicode_to_charset c cs) \<le> MAX_CHAR_BYTES"
  by (cases cs) (auto simp: unicode_to_charset_def encode_8859_1_def encode_7bit_def
      encode_utf8_def utf8_encode_def MAX_CHAR_BYTES_def split: option.splits)

text \<open>The zero behind a character of six bytes is outside an array of \<open>MAX_CHAR_BYTES\<close>.\<close>

lemma char_bytes_overflow: "0x4000000 \<le> c \<Longrightarrow> char_bytes c Charset_utf8 = None"
  by (simp add: char_bytes_def unicode_to_charset_def encode_utf8_def utf8_encode_def MAX_CHAR_BYTES_def Let_def)

lemma find_charset_Some:
  "find_charset ps str = Some p \<Longrightarrow>
    p \<in> set ps \<and> (\<exists>n \<in> set (charset_name p # charset_aliases p). strcaseeq str n)"
  by (induction ps str rule: find_charset.induct) (auto split: if_splits)

lemma utf8_to_unicode_loop_bound:
  "utf8_to_unicode_loop n p = Some cs \<Longrightarrow> length cs \<le> n \<and> 0 \<notin> set cs"
  by (induction n p arbitrary: cs rule: utf8_to_unicode_loop.induct)
    (fastforce split: option.splits if_splits prod.splits)+

end
