(* ===== verification/Pages.thy ===== *)
theory Pages
  imports Prelude
begin

text \<open>
  The paged text storage of \<open>src/buffer.c\<close>: the page table of an \<open>EditBuffer\<close>, its one
  entry cache, and the operations that read, overwrite, insert and delete bytes. This
  theory holds the definitions; \<open>Page_Store\<close> proves them correct.

  Pages are addressed by their index in the page table, and a pointer that walks over pages
  is such an index. A page's \<open>size\<close> field is the length of its data. A page flagged
  \<open>PG_READ_ONLY\<close> lies in a read-only mapping of the file: writing to it is a fault, so a
  write goes through \<open>page_store\<close>, which has no result there. The allocator succeeds.
\<close>

section \<open>Pages\<close>

definition MAX_PAGE_SIZE :: nat where "MAX_PAGE_SIZE = 4096"

definition PG_READ_ONLY :: u32 where "PG_READ_ONLY = 0x0001"
definition PG_VALID_POS :: u32 where "PG_VALID_POS = 0x0002"
definition PG_VALID_CHAR :: u32 where "PG_VALID_CHAR = 0x0004"
definition PG_VALID_COLORS :: u32 where "PG_VALID_COLORS = 0x0008"

record Page =
  p_data :: "u8 list"
  p_flags :: u32
  p_nb_lines :: nat
  p_col :: nat
  p_nb_chars :: nat

abbreviation p_size :: "Page \<Rightarrow> nat" where
  "p_size p \<equiv> length (p_data p)"

abbreviation page_bytes :: "Page list \<Rightarrow> u8 list" where
  "page_bytes pt \<equiv> concat (map p_data pt)"

definition has_flag :: "Page \<Rightarrow> u32 \<Rightarrow> bool" where
  "has_flag p f \<longleftrightarrow> p_flags p AND f \<noteq> 0"

text \<open>The fields of an \<open>EditBuffer\<close> that hold the text and the page cache.\<close>

record PageBuf =
  page_table :: "Page list"
  total_size :: nat
  cur_page :: "nat option"
  cur_offset :: nat

definition empty_pages :: PageBuf where
  "empty_pages = \<lparr>page_table = [], total_size = 0, cur_page = None, cur_offset = 0\<rparr>"

definition contents :: "'a PageBuf_scheme \<Rightarrow> u8 list" where
  "contents b = page_bytes (page_table b)"

text \<open>\<open>find_page\<close>: the cached page if the offset is in it, else a walk from the first page.\<close>

fun find_page_loop :: "Page list \<Rightarrow> nat \<Rightarrow> nat \<Rightarrow> (nat \<times> nat) option" where
  "find_page_loop [] offset i = None"
| "find_page_loop (p # ps) offset i =
     (if offset \<ge> p_size p then find_page_loop ps (offset - p_size p) (Suc i)
      else Some (i, offset))"

definition find_page_walk ::
    "'a PageBuf_scheme \<Rightarrow> nat \<Rightarrow> (nat \<times> nat \<times> 'a PageBuf_scheme) option" where
  "find_page_walk b offset_ptr = do {
     (i, offset) \<leftarrow> find_page_loop (page_table b) offset_ptr 0;
     Some (i, offset, b\<lparr>cur_page := Some i, cur_offset := offset_ptr - offset\<rparr>) }"

definition find_page ::
    "'a PageBuf_scheme \<Rightarrow> nat \<Rightarrow> (nat \<times> nat \<times> 'a PageBuf_scheme) option" where
  "find_page b offset_ptr = (case cur_page b of
       None \<Rightarrow> find_page_walk b offset_ptr
     | Some i \<Rightarrow> do {
         guard (i < length (page_table b));
         if offset_ptr \<ge> cur_offset b \<and> offset_ptr < cur_offset b + p_size (page_table b ! i)
         then Some (i, offset_ptr - cur_offset b, b)
         else find_page_walk b offset_ptr })"

text \<open>\<open>update_page\<close>: a read-only page is copied; what was known about the page is dropped.\<close>

definition update_page :: "Page \<Rightarrow> Page" where
  "update_page p =
    (let p = (if has_flag p PG_READ_ONLY
              then p\<lparr>p_flags := p_flags p AND NOT PG_READ_ONLY\<rparr> else p)
     in p\<lparr>p_flags := p_flags p AND NOT (PG_VALID_POS OR PG_VALID_CHAR OR PG_VALID_COLORS)\<rparr>)"

definition page_store :: "Page \<Rightarrow> u8 list \<Rightarrow> Page option" where
  "page_store p d = (if has_flag p PG_READ_ONLY then None else Some (p\<lparr>p_data := d\<rparr>))"

section \<open>Reading and overwriting\<close>

text \<open>
  The loop of \<open>eb_rw\<close>, on the pages from the found one on: it reads \<open>size\<close> bytes, or
  stores the bytes \<open>buf\<close>. Running off the page table has no defined result.
\<close>

function rw_read :: "Page list \<Rightarrow> nat \<Rightarrow> nat \<Rightarrow> u8 list option" where
  "rw_read ps offset 0 = Some []"
| "rw_read [] offset (Suc n) = None"
| "rw_read (p # ps) offset (Suc n) =
     (let sz = Suc n; len = min (p_size p - offset) sz;
          got = take len (drop offset (p_data p))
      in map_option ((@) got)
           (if offset + len \<ge> p_size p then rw_read ps 0 (sz - len)
            else rw_read (p # ps) (offset + len) (sz - len)))"
  by pat_completeness auto
termination
  by (relation "measures [\<lambda>(ps, offset, sz). length ps, \<lambda>(ps, offset, sz). sz]") auto

function rw_write :: "Page list \<Rightarrow> nat \<Rightarrow> u8 list \<Rightarrow> Page list option" where
  "rw_write ps offset [] = Some ps"
| "rw_write [] offset (x # xs) = None"
| "rw_write (p # ps) offset (x # xs) =
     (let buf = x # xs; len = min (p_size p - offset) (length buf);
          d = p_data p
      in case page_store (update_page p)
             (take offset d @ take len buf @ drop (offset + len) d) of
           None \<Rightarrow> None
         | Some p' \<Rightarrow>
             (if offset + len \<ge> p_size p
              then map_option ((#) p') (rw_write ps 0 (drop len buf))
              else rw_write (p' # ps) (offset + len) (drop len buf)))"
  by pat_completeness auto
termination
  by (relation "measures [\<lambda>(ps, offset, buf). length ps, \<lambda>(ps, offset, buf). length buf]")
    (auto simp: less_imp_diff_less min_def split: if_splits)

text \<open>The size that \<open>eb_rw\<close> transfers: \<open>size1\<close> cut off at the end of the buffer.\<close>

definition rw_size :: "'a PageBuf_scheme \<Rightarrow> nat \<Rightarrow> nat \<Rightarrow> nat" where
  "rw_size b offset size1 =
     (if offset + size1 > total_size b then total_size b - offset else size1)"

definition eb_read :: "'a PageBuf_scheme \<Rightarrow> nat \<Rightarrow> nat \<Rightarrow> (u8 list \<times> 'a PageBuf_scheme) option" where
  "eb_read b offset sz =
    (let size1 = rw_size b offset sz in
     if size1 = 0 then Some ([], b)
     else do {
       (i, offset, b) \<leftarrow> find_page b offset;
       bs \<leftarrow> rw_read (drop i (page_table b)) offset size1;
       Some (bs, b) })"

text \<open>The writing half of \<open>eb_rw\<close>, after the log entry: it stores all of \<open>buf\<close>.\<close>

definition rw_store :: "'a PageBuf_scheme \<Rightarrow> nat \<Rightarrow> u8 list \<Rightarrow> 'a PageBuf_scheme option" where
  "rw_store b offset buf = do {
     (i, offset, b) \<leftarrow> find_page b offset;
     ps \<leftarrow> rw_write (drop i (page_table b)) offset buf;
     Some (b\<lparr>page_table := take i (page_table b) @ ps\<rparr>) }"

section \<open>Inserting\<close>

function new_pages :: "u8 list \<Rightarrow> Page list" where
  "new_pages buf =
    (if buf = [] then []
     else let len = min (length buf) MAX_PAGE_SIZE in
       \<lparr>p_data = take len buf, p_flags = 0, p_nb_lines = 0, p_col = 0, p_nb_chars = 0\<rparr>
         # new_pages (drop len buf))"
  by pat_completeness auto
termination
  by (relation "measure length") (auto simp: MAX_PAGE_SIZE_def)

declare new_pages.simps [simp del]

text \<open>
  \<open>eb_insert1\<close>: put \<open>buf\<close> at the beginning of page \<open>page_index\<close>; as much of its end as
  fits goes into that page, the rest into new pages before it.
\<close>

definition eb_insert1 :: "Page list \<Rightarrow> nat \<Rightarrow> u8 list \<Rightarrow> Page list option" where
  "eb_insert1 pt page_index buf = do {
     (pt, buf) \<leftarrow>
       (if page_index < length pt
        then let p = pt ! page_index; sz = length buf;
                 len = min (MAX_PAGE_SIZE - p_size p) sz
             in if len > 0
                then do {
                  p' \<leftarrow> page_store (update_page p) (drop (sz - len) buf @ p_data p);
                  Some (pt[page_index := p'], take (sz - len) buf) }
                else Some (pt, buf)
        else Some (pt, buf));
     Some (take page_index pt @ new_pages buf @ drop page_index pt) }"

text \<open>
  The part of \<open>eb_insert_lowlevel\<close> for a page \<open>i\<close> and a position \<open>offset > 0\<close> in it: the
  bytes that no longer fit move to the next page, then \<open>len\<close> bytes are inserted.
\<close>

definition insert_in_page ::
    "Page list \<Rightarrow> nat \<Rightarrow> nat \<Rightarrow> u8 list \<Rightarrow> (Page list \<times> u8 list) option" where
  "insert_in_page pt i offset buf =
    (let p = pt ! i;
         len = min (MAX_PAGE_SIZE - offset) (length buf);
         len_out = (p_size p + len) - MAX_PAGE_SIZE
     in do {
       pt \<leftarrow> (if len_out > 0
              then eb_insert1 pt (i + 1) (drop (p_size p - len_out) (p_data p))
              else Some pt);
       if len > 0
       then let p = pt ! i; d = p_data p; newsize = p_size p + len - len_out in do {
         p' \<leftarrow> page_store (update_page p)
                (take offset d @ take len buf @ take (newsize - (offset + len)) (drop offset d));
         Some (pt[i := p'], drop len buf) }
       else Some (pt, buf) })"

definition eb_insert_lowlevel ::
    "'a PageBuf_scheme \<Rightarrow> nat \<Rightarrow> u8 list \<Rightarrow> 'a PageBuf_scheme option" where
  "eb_insert_lowlevel b offset buf = do {
     let b = b\<lparr>total_size := total_size b + length buf\<rparr>;
     (b, k, buf) \<leftarrow>
       (if offset > 0
        then do {
          (i, offset, b) \<leftarrow> find_page b (offset - 1);
          (pt, buf) \<leftarrow> insert_in_page (page_table b) i (offset + 1) buf;
          Some (b\<lparr>page_table := pt\<rparr>, i + 1, buf) }
        else Some (b, 0, buf));
     pt \<leftarrow> (if length buf > 0 then eb_insert1 (page_table b) k buf else Some (page_table b));
     Some (b\<lparr>page_table := pt, cur_page := None\<rparr>) }"

section \<open>Inserting from another buffer\<close>

text \<open>How many whole pages of the source fit in \<open>size\<close>, and what remains of it.\<close>

fun count_pages :: "Page list \<Rightarrow> nat \<Rightarrow> (nat \<times> nat) option" where
  "count_pages ps 0 = Some (0, 0)"
| "count_pages [] (Suc n) = None"
| "count_pages (p # ps) (Suc n) =
     (if p_size p \<le> Suc n
      then map_option (\<lambda>(k, s). (Suc k, s)) (count_pages ps (Suc n - p_size p))
      else Some (0, Suc n))"

definition copy_page :: "Page \<Rightarrow> Page" where
  "copy_page p =
     \<lparr>p_data = p_data p, p_flags = (if has_flag p PG_READ_ONLY then PG_READ_ONLY else 0),
      p_nb_lines = 0, p_col = 0, p_nb_chars = 0\<rparr>"

text \<open>Cut the page of \<open>dest\<close> at \<open>dest_offset\<close>: the index of the page that starts there.\<close>

definition cut_page ::
    "'a PageBuf_scheme \<Rightarrow> nat \<Rightarrow> ('a PageBuf_scheme \<times> nat) option" where
  "cut_page dest dest_offset =
    (if dest_offset < total_size dest
     then do {
       (q, offset, dest) \<leftarrow> find_page dest dest_offset;
       if offset > 0
       then do {
         pt \<leftarrow> eb_insert1 (page_table dest) (q + 1) (drop offset (p_data (page_table dest ! q)));
         q' \<leftarrow> page_store (update_page (pt ! q)) (take offset (p_data (pt ! q)));
         Some (dest\<lparr>page_table := pt[q := q']\<rparr>, q + 1) }
       else Some (dest, q) }
     else Some (dest, length (page_table dest)))"

definition insert_page_run ::
    "'a PageBuf_scheme \<Rightarrow> nat \<Rightarrow> Page list \<Rightarrow> nat \<Rightarrow> 'a PageBuf_scheme option" where
  "insert_page_run dest page_index ps sz = do {
     let dest = dest\<lparr>total_size := total_size dest + sz\<rparr>;
     (n, sz) \<leftarrow> count_pages ps sz;
     let pt = take page_index (page_table dest) @ map copy_page (take n ps)
                @ drop page_index (page_table dest);
     pt \<leftarrow> (if sz > 0 then eb_insert1 pt (page_index + n) (take sz (p_data (ps ! n)))
            else Some pt);
     Some (dest\<lparr>page_table := pt, cur_page := None\<rparr>) }"

text \<open>
  \<open>eb_insert_buffer\<close> after the log entry, for a positive size: the end of the first source page
  if the selection starts inside it, then whole pages, then the beginning of the last one.
\<close>

definition insert_pages ::
    "'a PageBuf_scheme \<Rightarrow> nat \<Rightarrow> 'b PageBuf_scheme \<Rightarrow> nat \<Rightarrow> nat
      \<Rightarrow> ('a PageBuf_scheme \<times> 'b PageBuf_scheme) option" where
  "insert_pages dest dest_offset src src_offset sz = do {
     (p, offset, src) \<leftarrow> find_page src src_offset;
     (dest, dest_offset, sz, p) \<leftarrow>
       (if offset > 0
        then let d = p_data (page_table src ! p); len = min (length d - offset) sz in do {
          dest \<leftarrow> eb_insert_lowlevel dest dest_offset (take len (drop offset d));
          Some (dest, dest_offset + len, sz - len, p + 1) }
        else Some (dest, dest_offset, sz, p));
     if sz = 0 then Some (dest, src)
     else do {
       (dest, page_index) \<leftarrow> cut_page dest dest_offset;
       dest \<leftarrow> insert_page_run dest page_index (drop p (page_table src)) sz;
       Some (dest, src) } }"

section \<open>Deleting\<close>

text \<open>
  The loop of \<open>eb_delete\<close>. It empties pages from the table only after the loop, so it
  returns the first page to remove and how many there are.
\<close>

function delete_loop ::
    "Page list \<Rightarrow> nat \<Rightarrow> nat \<Rightarrow> nat \<Rightarrow> nat option \<Rightarrow> nat \<Rightarrow> (Page list \<times> nat option \<times> nat) option" where
  "delete_loop pt p offset sz del_start n =
    (if sz = 0 then Some (pt, del_start, n)
     else if p \<ge> length pt then None
     else let q = pt ! p; d = p_data q; len = min (p_size q - offset) sz in
       if len = p_size q
       then delete_loop pt (p + 1) 0 (sz - len)
              (case del_start of None \<Rightarrow> Some p | Some s \<Rightarrow> Some s) (n + 1)
       else (case page_store (update_page q) (take offset d @ drop (offset + len) d) of
           None \<Rightarrow> None
         | Some q' \<Rightarrow>
             (if offset + len \<ge> p_size q'
              then delete_loop (pt[p := q']) (p + 1) 0 (sz - len) del_start n
              else delete_loop (pt[p := q']) p (offset + len) (sz - len) del_start n)))"
  by pat_completeness auto
termination
  by (relation "measures [\<lambda>(pt, p, offset, sz, s, n). length pt - p,
      \<lambda>(pt, p, offset, sz, s, n). sz]")
    (auto simp: page_store_def update_page_def Let_def min_def split: if_splits)

declare delete_loop.simps [simp del]

definition delete_pages :: "'a PageBuf_scheme \<Rightarrow> nat \<Rightarrow> nat \<Rightarrow> 'a PageBuf_scheme option" where
  "delete_pages b offset sz = do {
     (p, offset, b) \<leftarrow> find_page b offset;
     (pt, del_start, n) \<leftarrow> delete_loop (page_table b) p offset sz None 0;
     let pt = (case del_start of None \<Rightarrow> pt | Some s \<Rightarrow> take s pt @ drop (s + n) pt);
     Some (b\<lparr>page_table := pt, cur_page := None\<rparr>) }"

end
