(* ===== verification/Page_Store.thy ===== *)
theory Page_Store
  imports Pages
begin

text \<open>
  Correctness of the paged storage: the interface \<open>text_store\<close> of a mutable byte sequence,
  and the proof that the page operations implement it. Every operation on a well-formed
  buffer, called under its documented precondition, has a result (no access outside the
  page table, no write to a read-only page), keeps the buffer well formed, and changes the
  contents as the corresponding list operation does.
\<close>

section \<open>The specification: editing a byte sequence\<close>

definition list_insert :: "nat \<Rightarrow> 'a list \<Rightarrow> 'a list \<Rightarrow> 'a list" where
  "list_insert off bs xs = take off xs @ bs @ drop off xs"

definition list_delete :: "nat \<Rightarrow> nat \<Rightarrow> 'a list \<Rightarrow> 'a list" where
  "list_delete off n xs = take off xs @ drop (off + n) xs"

definition list_write :: "nat \<Rightarrow> 'a list \<Rightarrow> 'a list \<Rightarrow> 'a list" where
  "list_write off bs xs = take off xs @ bs @ drop (off + length bs) xs"

definition list_slice :: "nat \<Rightarrow> nat \<Rightarrow> 'a list \<Rightarrow> 'a list" where
  "list_slice off n xs = take n (drop off xs)"

lemma length_list_insert [simp]: "length (list_insert off bs xs) = length xs + length bs"
  by (simp add: list_insert_def)

lemma length_list_delete [simp]:
  "off + n \<le> length xs \<Longrightarrow> length (list_delete off n xs) = length xs - n"
  by (simp add: list_delete_def)

lemma length_list_write [simp]:
  "off + length bs \<le> length xs \<Longrightarrow> length (list_write off bs xs) = length xs"
  by (simp add: list_write_def)

lemma length_list_slice [simp]: "off + n \<le> length xs \<Longrightarrow> length (list_slice off n xs) = n"
  by (simp add: list_slice_def)

lemma list_delete_insert [simp]:
  "off \<le> length xs \<Longrightarrow> list_delete off (length bs) (list_insert off bs xs) = xs"
  by (simp add: list_delete_def list_insert_def)

lemma list_insert_delete [simp]:
  "off + n \<le> length xs \<Longrightarrow> list_insert off (list_slice off n xs) (list_delete off n xs) = xs"
  by (simp add: list_delete_def list_insert_def list_slice_def)
    (metis add.commute append_take_drop_id drop_drop)

lemma list_slice_insert [simp]:
  "off \<le> length xs \<Longrightarrow> list_slice off (length bs) (list_insert off bs xs) = bs"
  by (simp add: list_slice_def list_insert_def)

lemma list_slice_write [simp]:
  "off + length bs \<le> length xs \<Longrightarrow> list_slice off (length bs) (list_write off bs xs) = bs"
  by (simp add: list_slice_def list_write_def)

lemma list_write_write:
  "off + length bs \<le> length xs \<Longrightarrow> length cs = length bs \<Longrightarrow>
    list_write off cs (list_write off bs xs) = list_write off cs xs"
  by (simp add: list_write_def)

lemma list_write_slice [simp]:
  "off + n \<le> length xs \<Longrightarrow> list_write off (list_slice off n xs) xs = xs"
  by (simp add: list_write_def list_slice_def)
    (metis add.commute append_take_drop_id drop_drop)

lemma list_insert_Nil [simp]: "list_insert off [] xs = xs"
  by (simp add: list_insert_def)

lemma list_insert_insert:
  "off \<le> length xs \<Longrightarrow>
    list_insert (off + length bs) cs (list_insert off bs xs) = list_insert off (bs @ cs) xs"
  by (simp add: list_insert_def)

text \<open>The operations on the second part of a split sequence.\<close>

lemma list_write_append:
    "off = length a + k \<Longrightarrow> list_write off bs (a @ d) = a @ list_write k bs d"
  and list_insert_append:
    "off = length a + k \<Longrightarrow> list_insert off bs (a @ d) = a @ list_insert k bs d"
  and list_delete_append:
    "off = length a + k \<Longrightarrow> list_delete off n (a @ d) = a @ list_delete k n d"
  and list_slice_append:
    "off = length a + k \<Longrightarrow> list_slice off n (a @ d) = list_slice k n d"
  by (simp_all add: list_write_def list_insert_def list_delete_def list_slice_def)

section \<open>Flags and single pages\<close>

lemma update_page_simps [simp, mem_simps]:
  "p_data (update_page p) = p_data p" "\<not> has_flag (update_page p) PG_READ_ONLY"
proof -
  show "p_data (update_page p) = p_data p" by (simp add: update_page_def Let_def)
  show "\<not> has_flag (update_page p) PG_READ_ONLY"
    by (simp add: update_page_def Let_def has_flag_def PG_READ_ONLY_def PG_VALID_POS_def
        PG_VALID_CHAR_def PG_VALID_COLORS_def and.assoc)
qed

lemma update_page_flags:
  "\<not> has_flag (update_page p) PG_VALID_POS" "\<not> has_flag (update_page p) PG_VALID_CHAR"
proof -
  have *: "(f AND NOT (2 OR 4 OR 8)) AND 2 = (0 :: u32)" "(f AND NOT (2 OR 4 OR 8)) AND 4 = (0 :: u32)"
    for f
    by (simp_all add: and.assoc)
  show "\<not> has_flag (update_page p) PG_VALID_POS" "\<not> has_flag (update_page p) PG_VALID_CHAR"
    using * by (simp_all add: update_page_def Let_def has_flag_def PG_VALID_POS_def
        PG_VALID_CHAR_def PG_VALID_COLORS_def)
qed

lemma page_store_update [simp, mem_simps]:
  "page_store (update_page p) d = Some ((update_page p)\<lparr>p_data := d\<rparr>)"
  by (simp add: page_store_def)

definition pages_ok :: "Page list \<Rightarrow> bool" where
  "pages_ok pt \<longleftrightarrow> (\<forall>p \<in> set pt. 0 < p_size p \<and> p_size p \<le> MAX_PAGE_SIZE)"

lemma pages_ok_simps [simp]:
  "pages_ok []" "pages_ok (p # pt) \<longleftrightarrow> 0 < p_size p \<and> p_size p \<le> MAX_PAGE_SIZE \<and> pages_ok pt"
  "pages_ok (pt @ qt) \<longleftrightarrow> pages_ok pt \<and> pages_ok qt"
  by (auto simp: pages_ok_def)

lemma pages_ok_take [simp]: "pages_ok pt \<Longrightarrow> pages_ok (take i pt)"
  and pages_ok_drop [simp]: "pages_ok pt \<Longrightarrow> pages_ok (drop i pt)"
  by (auto simp: pages_ok_def dest: in_set_takeD in_set_dropD)

lemma pages_ok_nth: "pages_ok pt \<Longrightarrow> i < length pt \<Longrightarrow>
    0 < p_size (pt ! i) \<and> p_size (pt ! i) \<le> MAX_PAGE_SIZE"
  by (auto simp: pages_ok_def)

lemma pages_ok_update:
  "pages_ok pt \<Longrightarrow> 0 < p_size p \<Longrightarrow> p_size p \<le> MAX_PAGE_SIZE \<Longrightarrow> pages_ok (pt[i := p])"
  by (auto simp: pages_ok_def dest!: set_update_subset_insert [THEN subsetD])

lemma page_bytes_split:
  "i < length pt \<Longrightarrow>
    page_bytes pt = page_bytes (take i pt) @ p_data (pt ! i) @ page_bytes (drop (Suc i) pt)"
  by (metis append_take_drop_id concat_append Cons_nth_drop_Suc list.simps(9) map_append concat.simps(2))

lemma page_bytes_update:
  "i < length pt \<Longrightarrow>
    page_bytes (pt[i := p]) = page_bytes (take i pt) @ p_data p @ page_bytes (drop (Suc i) pt)"
  by (simp add: upd_conv_take_nth_drop)

lemma page_bytes_take_drop: "page_bytes (take i pt) @ page_bytes (drop i pt) = page_bytes pt"
  by (metis append_take_drop_id concat_append map_append)

section \<open>Well-formed buffers and the page cache\<close>

definition cache_ok :: "'a PageBuf_scheme \<Rightarrow> bool" where
  "cache_ok b \<longleftrightarrow> (case cur_page b of None \<Rightarrow> True
     | Some i \<Rightarrow> i < length (page_table b) \<and>
         cur_offset b = length (page_bytes (take i (page_table b))))"

definition buf_ok :: "'a PageBuf_scheme \<Rightarrow> bool" where
  "buf_ok b \<longleftrightarrow> pages_ok (page_table b) \<and> total_size b = length (contents b) \<and> cache_ok b"

lemma buf_okD:
  assumes "buf_ok b"
  shows "pages_ok (page_table b)" "total_size b = length (contents b)" "cache_ok b"
  using assms by (auto simp: buf_ok_def)

lemma buf_ok_empty [simp]: "buf_ok empty_pages" "contents empty_pages = []"
  by (simp_all add: buf_ok_def empty_pages_def contents_def cache_ok_def)

text \<open>Page \<open>i\<close> holds offset \<open>off\<close> of the text, at position \<open>o\<close> in it.\<close>

definition at_page :: "Page list \<Rightarrow> nat \<Rightarrow> nat \<Rightarrow> nat \<Rightarrow> bool" where
  "at_page pt off i k \<longleftrightarrow> i < length pt \<and> k < p_size (pt ! i) \<and>
     off = length (page_bytes (take i pt)) + k"

lemma find_page_loop_at:
  "off < length (page_bytes pt) \<Longrightarrow> \<exists>i k. find_page_loop pt off j = Some (j + i, k) \<and> at_page pt off i k"
proof (induction pt off j rule: find_page_loop.induct)
  case (2 p ps off j)
  show ?case
  proof (cases "off \<ge> p_size p")
    case True
    then have "off - p_size p < length (page_bytes ps)" using "2.prems" by simp
    with 2 True obtain i k where "find_page_loop ps (off - p_size p) (Suc j) = Some (Suc j + i, k)"
      "at_page ps (off - p_size p) i k" by blast
    with True show ?thesis
      by (intro exI [of _ "Suc i"] exI [of _ k]) (auto simp: at_page_def)
  next
    case False
    then show ?thesis by (intro exI [of _ 0] exI [of _ off]) (auto simp: at_page_def)
  qed
qed simp

lemma find_page_correct:
  assumes "pages_ok (page_table b)" "cache_ok b" "off < length (contents b)"
  obtains i k b' where "find_page b off = Some (i, k, b')" "at_page (page_table b) off i k"
    "page_table b' = page_table b" "total_size b' = total_size b" "cache_ok b'"
    "PageBuf.more b' = PageBuf.more b"
proof -
  have walk: "\<exists>i k b'. find_page_walk b off = Some (i, k, b') \<and> at_page (page_table b) off i k \<and>
    page_table b' = page_table b \<and> total_size b' = total_size b \<and> cache_ok b' \<and>
    PageBuf.more b' = PageBuf.more b"
  proof -
    obtain i k where "find_page_loop (page_table b) off 0 = Some (i, k)"
      "at_page (page_table b) off i k"
      using find_page_loop_at [of off "page_table b" 0] assms(3) by (auto simp: contents_def)
    then show ?thesis
      by (auto simp: find_page_walk_def cache_ok_def at_page_def)
  qed
  show thesis
  proof (cases "cur_page b")
    case None
    with walk show thesis using that by (auto simp: find_page_def)
  next
    case (Some i)
    then have i: "i < length (page_table b)"
        "cur_offset b = length (page_bytes (take i (page_table b)))"
      using assms(2) by (auto simp: cache_ok_def)
    show thesis
    proof (cases "off \<ge> cur_offset b \<and> off < cur_offset b + p_size (page_table b ! i)")
      case True
      with Some i have "find_page b off = Some (i, off - cur_offset b, b)"
        "at_page (page_table b) off i (off - cur_offset b)"
        by (auto simp: find_page_def at_page_def)
      with assms(2) show thesis using that by blast
    next
      case False
      with Some i have "find_page b off = find_page_walk b off"
        by (auto simp: find_page_def)
      with walk show thesis using that by auto
    qed
  qed
qed

section \<open>Reading and overwriting\<close>

lemma rw_read_correct:
  assumes "pages_ok ps" "ps \<noteq> [] \<Longrightarrow> k < p_size (hd ps)" "k + n \<le> length (page_bytes ps)"
  shows "rw_read ps k n = Some (list_slice k n (page_bytes ps))"
  using assms
proof (induction ps k n rule: rw_read.induct)
  case (3 p ps k n)
  define len where "len = min (p_size p - k) (Suc n)"
  have k: "k < p_size p" using "3.prems" by simp
  show ?case
  proof (cases "k + len \<ge> p_size p")
    case True
    with k have len: "len = p_size p - k" by (simp add: len_def min_def split: if_splits)
    have "rw_read ps 0 (Suc n - len) = Some (list_slice 0 (Suc n - len) (page_bytes ps))"
    proof (rule "3.IH"(1) [OF refl len_def refl])
      show "p_size p \<le> k + len" by (rule True)
      show "pages_ok ps" using "3.prems"(1) by simp
      show "0 < p_size (hd ps)" if "ps \<noteq> []"
        using "3.prems"(1) that by (cases ps) auto
      show "0 + (Suc n - len) \<le> length (page_bytes ps)" using "3.prems"(3) len by simp
    qed
    moreover have "len \<le> Suc n" by (simp add: len_def)
    ultimately show ?thesis
      using True k len by (simp add: Let_def list_slice_def flip: len_def)
  next
    case False
    then have len: "len = Suc n" by (simp add: len_def min_def split: if_splits)
    then have "Suc n \<le> p_size p - k" using False by simp
    with False len show ?thesis
      by (simp add: Let_def list_slice_def flip: len_def)
  qed
qed (auto simp: list_slice_def)

lemma rw_write_correct:
  assumes "pages_ok ps" "ps \<noteq> [] \<Longrightarrow> k < p_size (hd ps)" "k + length buf \<le> length (page_bytes ps)"
  shows "\<exists>ps'. rw_write ps k buf = Some ps' \<and> page_bytes ps' = list_write k buf (page_bytes ps) \<and>
    map p_size ps' = map p_size ps"
  using assms
proof (induction ps k buf rule: rw_write.induct)
  case (3 p ps k x xs)
  let ?buf = "x # xs" and ?d = "p_data p"
  define len where "len = min (p_size p - k) (length ?buf)"
  have k: "k < p_size p" using "3.prems" by simp
  let ?new = "take k ?d @ take len ?buf @ drop (k + len) ?d"
  let ?p = "(update_page p)\<lparr>p_data := ?new\<rparr>"
  have size: "length ?new = p_size p" using k by (simp add: len_def)
  show ?case
  proof (cases "k + len \<ge> p_size p")
    case True
    with k have len: "len = p_size p - k" by (simp add: len_def min_def split: if_splits)
    have "\<exists>ps'. rw_write ps 0 (drop len ?buf) = Some ps' \<and>
      page_bytes ps' = list_write 0 (drop len ?buf) (page_bytes ps) \<and> map p_size ps' = map p_size ps"
    proof (rule "3.IH"(1) [OF refl len_def refl])
      show "page_store (update_page p) ?new = Some ?p" by simp
      show "p_size p \<le> k + len" by (rule True)
      show "pages_ok ps" using "3.prems"(1) by simp
      show "0 < p_size (hd ps)" if "ps \<noteq> []"
        using "3.prems"(1) that by (cases ps) auto
      show "0 + length (drop len ?buf) \<le> length (page_bytes ps)" using "3.prems"(3) len by simp
    qed
    then obtain ps' where "rw_write ps 0 (drop len ?buf) = Some ps'"
      "page_bytes ps' = drop len ?buf @ drop (length ?buf - len) (page_bytes ps)"
      "map p_size ps' = map p_size ps" by (auto simp: list_write_def)
    moreover have "len \<le> length ?buf" by (simp add: len_def)
    moreover have "?new @ drop len ?buf = take k ?d @ ?buf"
      using len k by simp
    ultimately show ?thesis
      using True size len k
      by (intro exI [of _ "?p # ps'"])
        (simp add: Let_def list_write_def take_drop_assoc [of _ "x # xs", simplified] add.commute
          flip: len_def)
  next
    case False
    then have len: "len = length ?buf" by (simp add: len_def min_def split: if_splits)
    then have "length ?buf \<le> p_size p - k" using False by simp
    with False len size show ?thesis
      by (intro exI [of _ "?p # ps"]) (simp add: Let_def list_write_def flip: len_def)
  qed
qed (auto simp: list_write_def)

lemma at_page_drop:
  assumes "at_page pt off i k" "pages_ok pt"
  shows "drop i pt \<noteq> [] \<Longrightarrow> k < p_size (hd (drop i pt))"
    "off + n \<le> length (page_bytes pt) \<Longrightarrow> k + n \<le> length (page_bytes (drop i pt))"
    "off = length (page_bytes (take i pt)) + k"
  using assms arg_cong [OF page_bytes_take_drop [of i pt], of length]
  by (auto simp: at_page_def hd_drop_conv_nth)

text \<open>The part of a buffer that a search of a page may change.\<close>

definition same_text :: "'a PageBuf_scheme \<Rightarrow> 'a PageBuf_scheme \<Rightarrow> bool" where
  "same_text b b' \<longleftrightarrow> page_table b' = page_table b \<and> total_size b' = total_size b \<and>
     PageBuf.more b' = PageBuf.more b"

lemma eb_read_correct:
  assumes "buf_ok b"
  shows "\<exists>b'. eb_read b off n = Some (list_slice off n (contents b), b') \<and> buf_ok b' \<and> same_text b b'"
proof (cases "rw_size b off n = 0")
  case True
  then have "list_slice off n (contents b) = []"
    using buf_okD [OF assms] by (auto simp: rw_size_def list_slice_def split: if_splits)
  with True assms show ?thesis by (simp add: eb_read_def same_text_def)
next
  case False
  let ?n = "rw_size b off n"
  have n: "off + ?n \<le> length (contents b)" "list_slice off n (contents b) = list_slice off ?n (contents b)"
    using False buf_okD(2) [OF assms] by (auto simp: rw_size_def list_slice_def split: if_splits)
  obtain i k b' where f: "find_page b off = Some (i, k, b')" "at_page (page_table b) off i k"
    "page_table b' = page_table b" "total_size b' = total_size b" "cache_ok b'"
    "PageBuf.more b' = PageBuf.more b"
    by (rule find_page_correct [of b off]) (use False n buf_okD [OF assms] in auto)
  let ?ps = "drop i (page_table b)"
  have "rw_read ?ps k ?n = Some (list_slice k ?n (page_bytes ?ps))"
    using at_page_drop [OF f(2)] n(1) buf_okD(1) [OF assms]
    by (intro rw_read_correct) (auto simp: contents_def)
  moreover have "list_slice k ?n (page_bytes ?ps) = list_slice off ?n (contents b)"
    using at_page_drop(3) [OF f(2)] buf_okD(1) [OF assms] page_bytes_take_drop [of i "page_table b"]
    unfolding list_slice_def contents_def
    by (metis append_eq_conv_conj drop_drop add.commute)
  ultimately show ?thesis
    using False f n(2) assms
    by (simp add: eb_read_def Let_def same_text_def buf_ok_def contents_def)
qed

lemma cache_ok_sizes:
  assumes "cache_ok b" "map p_size pt = map p_size (page_table b)"
  shows "cache_ok (b\<lparr>page_table := pt\<rparr>)"
proof -
  have "length pt = length (page_table b)" using assms(2) by (metis length_map)
  moreover have "length (page_bytes (take i pt)) = length (page_bytes (take i (page_table b)))" for i
    using assms(2) by (simp add: length_concat comp_def flip: take_map)
  ultimately show ?thesis
    using assms(1) by (auto simp: cache_ok_def split: option.splits)
qed

lemma pages_ok_sizes: "map p_size pt = map p_size qt \<Longrightarrow> pages_ok pt \<longleftrightarrow> pages_ok qt"
proof -
  assume "map p_size pt = map p_size qt"
  then have "set (map p_size pt) = set (map p_size qt)" by simp
  then have e: "p_size ` set pt = p_size ` set qt" by simp
  have *: "pages_ok rt \<longleftrightarrow> (\<forall>n \<in> p_size ` set rt. 0 < n \<and> n \<le> MAX_PAGE_SIZE)" for rt
    by (auto simp: pages_ok_def)
  show ?thesis unfolding * e ..
qed

lemma rw_store_correct:
  assumes "buf_ok b" "buf \<noteq> []" "off + length buf \<le> length (contents b)"
  shows "\<exists>b'. rw_store b off buf = Some b' \<and> buf_ok b' \<and>
    contents b' = list_write off buf (contents b) \<and> PageBuf.more b' = PageBuf.more b"
proof -
  have off: "off < length (contents b)" using assms(2,3) by (cases buf) auto
  obtain i k b' where f: "find_page b off = Some (i, k, b')" "at_page (page_table b) off i k"
    "page_table b' = page_table b" "total_size b' = total_size b" "cache_ok b'"
    "PageBuf.more b' = PageBuf.more b"
    by (rule find_page_correct [of b off]) (use off buf_okD [OF assms(1)] in auto)
  note at = at_page_drop [OF f(2) buf_okD(1) [OF assms(1)]]
  let ?pt = "page_table b"
  obtain ps where ps: "rw_write (drop i ?pt) k buf = Some ps"
    "page_bytes ps = list_write k buf (page_bytes (drop i ?pt))"
    "map p_size ps = map p_size (drop i ?pt)"
    using rw_write_correct [of "drop i ?pt" k buf] at(1) at(2) [of "length buf"] assms
      buf_okD(1) [OF assms(1)] by (auto simp: contents_def)
  let ?b = "b'\<lparr>page_table := take i ?pt @ ps\<rparr>"
  have sizes: "map p_size (take i ?pt @ ps) = map p_size ?pt"
    using ps(3) by (metis append_take_drop_id map_append)
  have cont: "contents ?b = list_write off buf (contents b)"
    using ps(2) list_write_append [OF at(3)]
    unfolding contents_def page_bytes_take_drop [of i ?pt, symmetric] by simp
  have "buf_ok ?b"
    using cache_ok_sizes [OF f(5)] sizes pages_ok_sizes [OF sizes] f(3,4) cont assms
      buf_okD [OF assms(1)]
    by (simp add: buf_ok_def)
  with f ps cont show ?thesis by (auto simp: rw_store_def)
qed

section \<open>Inserting\<close>

lemma new_pages_Nil [simp]: "new_pages [] = []"
  by (simp add: new_pages.simps)

lemma new_pages_bytes: "page_bytes (new_pages buf) = buf"
proof (induction buf rule: new_pages.induct)
  case (1 buf)
  show ?case
  proof (cases "buf = []")
    case False
    with 1 show ?thesis by (subst new_pages.simps) (simp add: Let_def)
  qed simp
qed

lemma new_pages_ok: "pages_ok (new_pages buf)"
proof (induction buf rule: new_pages.induct)
  case (1 buf)
  show ?case
  proof (cases "buf = []")
    case False
    with 1 show ?thesis by (subst new_pages.simps) (simp add: Let_def MAX_PAGE_SIZE_def)
  qed simp
qed

text \<open>The number of pages filled is the number of slots that the C code makes room for.\<close>

lemma length_new_pages:
  "length (new_pages buf) = (length buf + MAX_PAGE_SIZE - 1) div MAX_PAGE_SIZE"
proof (induction buf rule: new_pages.induct)
  case (1 buf)
  have M: "0 < MAX_PAGE_SIZE" by (simp add: MAX_PAGE_SIZE_def)
  show ?case
  proof (cases "length buf \<le> MAX_PAGE_SIZE")
    case True
    show ?thesis
    proof (cases "buf = []")
      case False
      then have "0 < length buf" by simp
      then have "(length buf + MAX_PAGE_SIZE - 1) div MAX_PAGE_SIZE = 1"
        using True M by (intro div_nat_eqI; simp; linarith)
      then show ?thesis using True False by (subst new_pages.simps) simp
    qed (simp add: MAX_PAGE_SIZE_def)
  next
    case False
    then have ne: "buf \<noteq> []" by auto
    have "length buf + MAX_PAGE_SIZE - 1 = (length buf - MAX_PAGE_SIZE + MAX_PAGE_SIZE - 1) + MAX_PAGE_SIZE"
      using False M by simp
    then have "(length buf + MAX_PAGE_SIZE - 1) div MAX_PAGE_SIZE =
      Suc ((length buf - MAX_PAGE_SIZE + MAX_PAGE_SIZE - 1) div MAX_PAGE_SIZE)"
      using M by (metis Suc_eq_plus1 div_add_self2 not_gr_zero)
    moreover have "length (new_pages buf) = Suc (length (new_pages (drop MAX_PAGE_SIZE buf)))"
      using False ne by (subst new_pages.simps) (simp add: Let_def)
    moreover have "length (new_pages (drop MAX_PAGE_SIZE buf)) =
      (length buf - MAX_PAGE_SIZE + MAX_PAGE_SIZE - 1) div MAX_PAGE_SIZE"
      using "1.IH" [OF ne refl] False by simp
    ultimately show ?thesis by simp
  qed
qed

lemma prefix_page_list:
  assumes "pages_ok (take i pt @ X)" "page_bytes X = bs" "e = Some (take i pt @ X)" "i \<le> length pt"
  shows "\<exists>pt'. e = Some pt' \<and> pages_ok pt' \<and> take i pt' = take i pt \<and>
    page_bytes (drop i pt') = bs \<and> i \<le> length pt'"
  using assms by (intro exI [of _ "take i pt @ X"]) simp

lemma eb_insert1_correct:
  assumes "pages_ok pt" "i \<le> length pt"
  shows "\<exists>pt'. eb_insert1 pt i buf = Some pt' \<and> pages_ok pt' \<and> take i pt' = take i pt \<and>
    page_bytes (drop i pt') = buf @ page_bytes (drop i pt) \<and> i \<le> length pt'"
proof (cases "i < length pt \<and> MAX_PAGE_SIZE - p_size (pt ! i) > 0 \<and> buf \<noteq> []")
  case True
  let ?p = "pt ! i" and ?n = "length buf"
  let ?len = "min (MAX_PAGE_SIZE - p_size ?p) ?n"
  let ?q = "(update_page ?p)\<lparr>p_data := drop (?n - ?len) buf @ p_data ?p\<rparr>"
  let ?new = "new_pages (take (?n - ?len) buf)"
  have len: "0 < ?len" using True by auto
  have d: "drop i pt = ?p # drop (Suc i) pt" using True by (simp add: Cons_nth_drop_Suc)
  have e: "eb_insert1 pt i buf = Some (take i pt @ ?new @ ?q # drop (Suc i) pt)"
    using True len by (simp add: eb_insert1_def Let_def drop_update_swap
        drop_update_cancel flip: Cons_nth_drop_Suc)
  have "0 < p_size ?p \<and> p_size ?p \<le> MAX_PAGE_SIZE"
    using True pages_ok_nth [OF assms(1), of i] by simp
  then have "0 < p_size ?q \<and> p_size ?q \<le> MAX_PAGE_SIZE" by auto
  then have "pages_ok (take i pt @ ?new @ ?q # drop (Suc i) pt)"
    using assms(1) by (simp only: pages_ok_simps pages_ok_take pages_ok_drop new_pages_ok)
  moreover have "page_bytes (?new @ ?q # drop (Suc i) pt) = buf @ page_bytes (drop i pt)"
    by (simp add: d new_pages_bytes take_drop_assoc)
  ultimately show ?thesis using e assms(2) by (rule prefix_page_list)
next
  case False
  then have "eb_insert1 pt i buf = Some (take i pt @ new_pages buf @ drop i pt)"
    by (auto simp: eb_insert1_def Let_def)
  then show ?thesis
    using assms by (intro exI conjI) (assumption, simp_all add: new_pages_ok new_pages_bytes)
qed

lemma take_drop_two:
  "i \<le> j \<Longrightarrow> take (j - i) (drop i xs) @ drop j xs = drop i xs"
  by (metis append_take_drop_id drop_drop le_add_diff_inverse2)

lemma insert_in_page_correct:
  assumes "pages_ok pt" "i < length pt" "0 < k" "k \<le> p_size (pt ! i)"
  shows "\<exists>pt' rest. insert_in_page pt i k buf = Some (pt', rest) \<and> pages_ok pt' \<and>
    i < length pt' \<and> take i pt' = take i pt \<and>
    (\<exists>mid. p_data (pt' ! i) = take k (p_data (pt ! i)) @ mid \<and>
      mid @ page_bytes (drop (Suc i) pt') =
        take (length buf - length rest) buf @ drop k (p_data (pt ! i)) @ page_bytes (drop (Suc i) pt) \<and>
      rest = drop (length buf - length rest) buf \<and>
      (rest \<noteq> [] \<longrightarrow> mid = take (length buf - length rest) buf))"
proof -
  let ?p = "pt ! i" let ?d = "p_data ?p"
  define len where "len = min (MAX_PAGE_SIZE - k) (length buf)"
  define out where "out = p_size ?p + len - MAX_PAGE_SIZE"
  define cut where "cut = p_size ?p - out"
  have p: "p_size ?p \<le> MAX_PAGE_SIZE" using pages_ok_nth [OF assms(1,2)] by simp
  have cut: "k \<le> cut" "cut \<le> p_size ?p" "cut + len \<le> MAX_PAGE_SIZE" "len \<le> length buf"
    using assms(3,4) p by (auto simp: cut_def out_def len_def)
  have full: "len < length buf \<Longrightarrow> cut = k"
    using assms(3,4) p by (auto simp: cut_def out_def len_def min_def split: if_splits)
  have "\<exists>pt1. (if out > 0 then eb_insert1 pt (i + 1) (drop (p_size ?p - out) ?d) else Some pt) = Some pt1 \<and>
    pages_ok pt1 \<and> take (Suc i) pt1 = take (Suc i) pt \<and> Suc i \<le> length pt1 \<and>
    page_bytes (drop (Suc i) pt1) = drop cut ?d @ page_bytes (drop (Suc i) pt)"
    using eb_insert1_correct [OF assms(1), of "Suc i" "drop cut ?d"] assms(1,2)
    by (cases "out > 0") (auto simp: cut_def)
  then obtain pt1 where pt1:
    "(if out > 0 then eb_insert1 pt (i + 1) (drop (p_size ?p - out) ?d) else Some pt) = Some pt1"
    "pages_ok pt1" "take (Suc i) pt1 = take (Suc i) pt" "Suc i \<le> length pt1"
    "page_bytes (drop (Suc i) pt1) = drop cut ?d @ page_bytes (drop (Suc i) pt)" by blast
  have same: "pt1 ! i = ?p" "take i pt1 = take i pt"
    using pt1(3) by (metis lessI nth_take, metis le_SucI min.absorb1 order_refl take_take)
  let ?mid = "take len buf @ take (cut - k) (drop k ?d)"
  let ?q = "(update_page ?p)\<lparr>p_data := take k ?d @ ?mid\<rparr>"
  have newsize: "p_size ?p + len - out - (k + len) = cut - k"
    using cut by (simp add: cut_def)
  have keep: "take (cut - k) (drop k ?d) @ drop cut ?d = drop k ?d"
    using cut(1) by (rule take_drop_two)
  show ?thesis
  proof (cases "len > 0")
    case True
    have e: "insert_in_page pt i k buf = Some (pt1[i := ?q], drop len buf)"
      unfolding insert_in_page_def Let_def len_def [symmetric] out_def [symmetric] pt1(1)
      using True same newsize by simp
    have "p_size ?q = cut + len" using cut assms(4) by simp
    then have "0 < p_size ?q" "p_size ?q \<le> MAX_PAGE_SIZE" using True cut(3) by linarith+
    then have "pages_ok (pt1[i := ?q])" by (rule pages_ok_update [OF pt1(2)])
    moreover have "len < length buf \<longrightarrow> take (cut - k) (drop k ?d) = []" using full by simp
    ultimately show ?thesis
      using e pt1 same keep cut(4)
      by (intro exI [of _ "pt1[i := ?q]"] exI [of _ "drop len buf"] conjI exI [of _ ?mid])
        (auto simp: drop_update_cancel)
  next
    case False
    then have "len = 0" by simp
    then have e: "insert_in_page pt i k buf = Some (pt1, buf)"
      unfolding insert_in_page_def Let_def len_def [symmetric] out_def [symmetric] pt1(1)
      by simp
    have "out = 0" using p \<open>len = 0\<close> by (simp add: out_def)
    then have c: "cut = p_size ?p" by (simp add: cut_def)
    have mid: "buf \<noteq> [] \<longrightarrow> drop k ?d = []" using full \<open>len = 0\<close> c by auto
    show ?thesis
      using e pt1 same c mid
      by (intro exI [of _ pt1] exI [of _ buf] conjI exI [of _ "drop k ?d"]) auto
  qed
qed

lemma eb_insert_lowlevel_correct:
  assumes "buf_ok b" "off \<le> length (contents b)"
  shows "\<exists>b'. eb_insert_lowlevel b off buf = Some b' \<and> buf_ok b' \<and>
    contents b' = list_insert off buf (contents b) \<and> PageBuf.more b' = PageBuf.more b \<and>
    cur_page b' = None"
proof (cases "off = 0")
  case True
  let ?b = "b\<lparr>total_size := total_size b + length buf\<rparr>"
  have "\<exists>pt. (if length buf > 0 then eb_insert1 (page_table b) 0 buf else Some (page_table b)) = Some pt \<and>
     pages_ok pt \<and> page_bytes pt = buf @ page_bytes (page_table b)"
    using eb_insert1_correct [OF buf_okD(1) [OF assms(1)], of 0 buf] buf_okD(1) [OF assms(1)]
    by (cases "buf = []") auto
  then obtain pt where pt:
    "(if length buf > 0 then eb_insert1 (page_table b) 0 buf else Some (page_table b)) = Some pt"
    "pages_ok pt" "page_bytes pt = buf @ page_bytes (page_table b)" by blast
  have e: "eb_insert_lowlevel b off buf = Some (?b\<lparr>page_table := pt, cur_page := None\<rparr>)"
    using True pt(1) by (cases "buf = []") (simp_all add: eb_insert_lowlevel_def Let_def)
  show ?thesis
    unfolding e using True pt(2,3) buf_okD(2) [OF assms(1)]
    by (simp add: buf_ok_def contents_def cache_ok_def list_insert_def)
next
  case False
  let ?b = "b\<lparr>total_size := total_size b + length buf\<rparr>"
  have "pages_ok (page_table ?b)" "cache_ok ?b" "off - 1 < length (contents ?b)"
    using buf_okD [OF assms(1)] assms(2) False
    by (auto simp: cache_ok_def contents_def split: option.splits)
  then obtain i k b1 where f: "find_page ?b (off - 1) = Some (i, k, b1)"
    "at_page (page_table b) (off - 1) i k" "page_table b1 = page_table b"
    "total_size b1 = total_size b + length buf" "PageBuf.more b1 = PageBuf.more b"
    by (rule find_page_correct) auto
  let ?pt = "page_table b"
  let ?d = "p_data (?pt ! i)"
  have at: "i < length ?pt" "Suc k \<le> p_size (?pt ! i)" "off = length (page_bytes (take i ?pt)) + Suc k"
    using f(2) False by (auto simp: at_page_def)
  obtain pt1 rest mid where r: "insert_in_page ?pt i (Suc k) buf = Some (pt1, rest)" "pages_ok pt1"
    "i < length pt1" "take i pt1 = take i ?pt" "p_data (pt1 ! i) = take (Suc k) ?d @ mid"
    "mid @ page_bytes (drop (Suc i) pt1) =
       take (length buf - length rest) buf @ drop (Suc k) ?d @ page_bytes (drop (Suc i) ?pt)"
    "rest = drop (length buf - length rest) buf"
    "rest \<noteq> [] \<longrightarrow> mid = take (length buf - length rest) buf"
    using insert_in_page_correct [OF buf_okD(1) [OF assms(1)] at(1) _ at(2), of buf] by auto
  have "\<exists>pt2. (if length rest > 0 then eb_insert1 pt1 (Suc i) rest else Some pt1) = Some pt2 \<and>
    pages_ok pt2 \<and> take (Suc i) pt2 = take (Suc i) pt1 \<and>
    page_bytes (drop (Suc i) pt2) = rest @ page_bytes (drop (Suc i) pt1)"
    using eb_insert1_correct [OF r(2), of "Suc i" rest] r(2,3) by (cases "rest = []") auto
  then obtain pt2 where pt2: "(if length rest > 0 then eb_insert1 pt1 (Suc i) rest else Some pt1) = Some pt2"
    "pages_ok pt2" "take (Suc i) pt2 = take (Suc i) pt1"
    "page_bytes (drop (Suc i) pt2) = rest @ page_bytes (drop (Suc i) pt1)" by blast
  let ?A = "page_bytes (take i ?pt)" and ?R = "page_bytes (drop (Suc i) ?pt)"
  have "page_bytes pt2 = page_bytes (take (Suc i) pt2) @ page_bytes (drop (Suc i) pt2)"
    by (rule page_bytes_take_drop [symmetric])
  also have "\<dots> = ?A @ take (Suc k) ?d @ mid @ rest @ page_bytes (drop (Suc i) pt1)"
    using pt2(3,4) r(3-5) by (simp add: take_Suc_conv_app_nth)
  also have "mid @ rest @ page_bytes (drop (Suc i) pt1) = buf @ drop (Suc k) ?d @ ?R"
  proof (cases "rest = []")
    case True
    then show ?thesis using r(6) by simp
  next
    case False
    then have "page_bytes (drop (Suc i) pt1) = drop (Suc k) ?d @ ?R" using r(6,8) by simp
    then show ?thesis using False r(7,8) by (metis append.assoc append_take_drop_id)
  qed
  finally have "page_bytes pt2 = ?A @ list_insert (Suc k) buf (?d @ ?R)"
    using at(2) by (simp add: list_insert_def)
  also have "\<dots> = list_insert off buf (contents b)"
    using list_insert_append [OF at(3), of buf "?d @ ?R"] page_bytes_split [OF at(1)]
    by (simp add: contents_def)
  finally have c: "page_bytes pt2 = list_insert off buf (contents b)" .
  have e: "eb_insert_lowlevel b off buf = Some (b1\<lparr>page_table := pt2, cur_page := None\<rparr>)"
    using False f(1,3) r(1) pt2(1)
    by (cases "rest = []") (simp_all add: eb_insert_lowlevel_def Let_def)
  show ?thesis
    unfolding e using c pt2(2) f(4,5) buf_okD(2) [OF assms(1)] assms(2)
    by (simp add: buf_ok_def contents_def cache_ok_def)
qed

section \<open>Deleting\<close>

definition remove_run :: "Page list \<Rightarrow> nat option \<Rightarrow> nat \<Rightarrow> Page list" where
  "remove_run pt ds n = (case ds of None \<Rightarrow> pt | Some s \<Rightarrow> take s pt @ drop (s + n) pt)"

definition run_ok :: "nat option \<Rightarrow> nat \<Rightarrow> nat \<Rightarrow> bool" where
  "run_ok ds n p \<longleftrightarrow> (case ds of None \<Rightarrow> n = 0 | Some s \<Rightarrow> s + n = p)"

definition run_start :: "nat option \<Rightarrow> nat \<Rightarrow> nat" where
  "run_start ds p = (case ds of None \<Rightarrow> p | Some s \<Rightarrow> s)"

lemma delete_loop_0: "delete_loop pt p k 0 ds n = Some (pt, ds, n)"
  by (simp add: delete_loop.simps)

lemma remove_run_bytes:
  assumes "run_ok ds n p"
  shows "page_bytes (remove_run pt ds n) = page_bytes (take (run_start ds p) pt) @ page_bytes (drop p pt)"
  using assms page_bytes_take_drop [of p pt]
  by (auto simp: run_ok_def run_start_def remove_run_def split: option.splits)

lemma pages_ok_remove_run: "pages_ok pt \<Longrightarrow> pages_ok (remove_run pt ds n)"
  by (simp add: remove_run_def split: option.splits)

text \<open>The loop from the beginning of a page on.\<close>

lemma delete_loop_whole:
  assumes "pages_ok pt" "run_ok ds n p" "run_start ds p \<le> p" "sz \<le> length (page_bytes (drop p pt))"
  shows "\<exists>pt' ds' n'. delete_loop pt p 0 sz ds n = Some (pt', ds', n') \<and>
    pages_ok (remove_run pt' ds' n') \<and>
    page_bytes (remove_run pt' ds' n') =
      page_bytes (take (run_start ds p) pt) @ drop sz (page_bytes (drop p pt))"
  using assms
proof (induction "length pt - p" arbitrary: p sz ds n)
  case (0 p sz ds n)
  then have "sz = 0" by simp
  with 0 show ?case
    by (simp add: delete_loop_0 remove_run_bytes pages_ok_remove_run)
next
  case (Suc m p sz ds n)
  let ?q = "pt ! p" let ?d = "p_data ?q" let ?R = "page_bytes (drop (Suc p) pt)"
  have p: "p < length pt" using Suc.hyps(2) by simp
  have dr: "page_bytes (drop p pt) = ?d @ ?R" using p by (simp flip: Cons_nth_drop_Suc)
  have q: "0 < p_size ?q" "p_size ?q \<le> MAX_PAGE_SIZE" using pages_ok_nth [OF Suc.prems(1) p] by auto
  consider "sz = 0" | "0 < sz" "p_size ?q \<le> sz" | "0 < sz" "sz < p_size ?q" by linarith
  then show ?case
  proof cases
    case 1
    with Suc.prems show ?thesis
      by (simp add: delete_loop_0 remove_run_bytes pages_ok_remove_run)
  next
    case 2
    let ?ds = "case ds of None \<Rightarrow> Some p | Some s \<Rightarrow> Some s"
    have e: "delete_loop pt p 0 sz ds n = delete_loop pt (Suc p) 0 (sz - p_size ?q) ?ds (Suc n)"
      using 2 p by (subst delete_loop.simps) (simp add: Let_def min_absorb1)
    have s: "run_start ?ds (Suc p) = run_start ds p" by (simp add: run_start_def split: option.splits)
    have "\<exists>pt' ds' n'. delete_loop pt (Suc p) 0 (sz - p_size ?q) ?ds (Suc n) = Some (pt', ds', n') \<and>
      pages_ok (remove_run pt' ds' n') \<and>
      page_bytes (remove_run pt' ds' n') =
        page_bytes (take (run_start ?ds (Suc p)) pt) @ drop (sz - p_size ?q) ?R"
    proof (rule Suc.hyps(1))
      show "m = length pt - Suc p" using Suc.hyps(2) by simp
      show "pages_ok pt" by (rule Suc.prems(1))
      show "run_ok ?ds (Suc n) (Suc p)"
        using Suc.prems(2) by (auto simp: run_ok_def split: option.splits)
      show "run_start ?ds (Suc p) \<le> Suc p" using s Suc.prems(3) by simp
      show "sz - p_size ?q \<le> length ?R" using Suc.prems(4) dr by simp
    qed
    then show ?thesis using 2(2) unfolding e s dr by simp
  next
    case 3
    let ?q' = "(update_page ?q)\<lparr>p_data := drop sz ?d\<rparr>"
    let ?pt = "pt[p := ?q']"
    have e: "delete_loop pt p 0 sz ds n = Some (?pt, ds, n)"
      using 3 p by (subst delete_loop.simps) (simp add: Let_def min_def delete_loop_0)
    have ok: "pages_ok ?pt" using 3 q by (intro pages_ok_update [OF Suc.prems(1)]) simp_all
    have "page_bytes (remove_run ?pt ds n) =
        page_bytes (take (run_start ds p) ?pt) @ page_bytes (drop p ?pt)"
      using Suc.prems(2) by (rule remove_run_bytes)
    also have "take (run_start ds p) ?pt = take (run_start ds p) pt"
      using Suc.prems(3) by simp
    also have "page_bytes (drop p ?pt) = drop sz (page_bytes (drop p pt))"
      using p 3 dr by (simp add: drop_update_swap flip: Cons_nth_drop_Suc)
    finally show ?thesis using e ok by (simp add: pages_ok_remove_run)
  qed
qed

lemma delete_loop_correct:
  assumes "pages_ok pt" "at_page pt off p k" "off + sz \<le> length (page_bytes pt)"
  shows "\<exists>pt' ds' n'. delete_loop pt p k sz None 0 = Some (pt', ds', n') \<and>
    pages_ok (remove_run pt' ds' n') \<and>
    page_bytes (remove_run pt' ds' n') = list_delete off sz (page_bytes pt)"
proof -
  let ?q = "pt ! p" let ?d = "p_data ?q"
  let ?A = "page_bytes (take p pt)" and ?R = "page_bytes (drop (Suc p) pt)"
  have p: "p < length pt" "k < p_size ?q" and off: "off = length ?A + k"
    using assms(2) by (auto simp: at_page_def)
  have q: "p_size ?q \<le> MAX_PAGE_SIZE" using pages_ok_nth [OF assms(1) p(1)] by auto
  have split: "page_bytes pt = ?A @ ?d @ ?R" using p(1) by (rule page_bytes_split)
  have goal: "list_delete off sz (page_bytes pt) = ?A @ take k ?d @ drop (k + sz) (?d @ ?R)"
    unfolding split list_delete_append [OF off] using p(2) by (simp add: list_delete_def)
  have sz: "k + sz \<le> p_size ?q + length ?R" using assms(3) off split by simp
  show ?thesis
  proof (cases "sz = 0 \<or> k = 0")
    case True
    then show ?thesis
    proof
      assume "sz = 0"
      then show ?thesis
        using assms(1) by (simp add: delete_loop_0 remove_run_def list_delete_def)
    next
      assume k: "k = 0"
      have "page_bytes (drop p pt) = ?d @ ?R" using p(1) by (simp flip: Cons_nth_drop_Suc)
      then show ?thesis
        using delete_loop_whole [of pt None 0 p sz] assms(1) sz k goal
        by (simp add: run_ok_def run_start_def)
    qed
  next
    case False
    define len where "len = min (p_size ?q - k) sz"
    let ?new = "take k ?d @ drop (k + len) ?d"
    let ?q' = "(update_page ?q)\<lparr>p_data := ?new\<rparr>"
    let ?pt = "pt[p := ?q']"
    have len: "len \<noteq> p_size ?q" "0 < len" "len \<le> sz" "k + len \<le> p_size ?q"
      using False p(2) by (auto simp: len_def)
    have size: "p_size ?q' = p_size ?q - len" using len(4) by simp
    then have "0 < p_size ?q'" "p_size ?q' \<le> MAX_PAGE_SIZE" using p(2) q len False by linarith+
    then have ok: "pages_ok ?pt" by (rule pages_ok_update [OF assms(1)])
    have e: "delete_loop pt p k sz None 0 =
      (if k + len \<ge> p_size ?q - len then delete_loop ?pt (Suc p) 0 (sz - len) None 0
       else delete_loop ?pt p (k + len) (sz - len) None 0)"
      using False p(1) len(1,4)
      by (subst delete_loop.simps) (simp add: Let_def flip: len_def)
    have tail: "drop (k + len) ?d @ drop (sz - len) ?R = drop (k + sz) (?d @ ?R)"
    proof (cases "p_size ?q - k \<le> sz")
      case True
      then have "sz - len = k + sz - p_size ?q" "k + len = p_size ?q" using p(2) by (simp_all add: len_def)
      with True show ?thesis by simp
    next
      case False
      then show ?thesis by (simp add: len_def)
    qed
    show ?thesis
    proof (cases "k + len \<ge> p_size ?q - len")
      case True
      have "\<exists>pt' ds' n'. delete_loop ?pt (Suc p) 0 (sz - len) None 0 = Some (pt', ds', n') \<and>
        pages_ok (remove_run pt' ds' n') \<and>
        page_bytes (remove_run pt' ds' n') =
          page_bytes (take (run_start None (Suc p)) ?pt) @ drop (sz - len) (page_bytes (drop (Suc p) ?pt))"
      proof (rule delete_loop_whole [OF ok])
        have "sz - len \<le> length ?R" unfolding len_def using sz p(2) by arith
        then show "sz - len \<le> length (page_bytes (drop (Suc p) ?pt))" by simp
      qed (simp_all add: run_ok_def run_start_def)
      moreover have "page_bytes (take (Suc p) ?pt) = ?A @ ?new"
        using p(1) by (simp add: take_Suc_conv_app_nth)
      ultimately show ?thesis
        using e True tail unfolding goal by (simp add: run_start_def)
    next
      case False
      then have l: "len = sz" by (auto simp: len_def min_def split: if_splits)
      then have "delete_loop pt p k sz None 0 = Some (?pt, None, 0)"
        using e False by (simp add: delete_loop_0)
      then show ?thesis
        using ok tail l p(1) unfolding goal
        by (simp add: remove_run_def page_bytes_update)
    qed
  qed
qed

lemma delete_pages_correct:
  assumes "pages_ok (page_table b)" "cache_ok b" "off < length (contents b)"
    "off + sz \<le> length (contents b)"
  shows "\<exists>b'. delete_pages b off sz = Some b' \<and> pages_ok (page_table b') \<and>
    contents b' = list_delete off sz (contents b) \<and> cur_page b' = None \<and>
    total_size b' = total_size b \<and> PageBuf.more b' = PageBuf.more b"
proof -
  obtain i k b1 where f: "find_page b off = Some (i, k, b1)" "at_page (page_table b) off i k"
    "page_table b1 = page_table b" "total_size b1 = total_size b"
    "PageBuf.more b1 = PageBuf.more b"
    using find_page_correct [OF assms(1-3)] by metis
  obtain pt ds n where d: "delete_loop (page_table b) i k sz None 0 = Some (pt, ds, n)"
    "pages_ok (remove_run pt ds n)"
    "page_bytes (remove_run pt ds n) = list_delete off sz (page_bytes (page_table b))"
    using delete_loop_correct [OF assms(1) f(2), of sz] assms(4) by (auto simp: contents_def)
  have "delete_pages b off sz = Some (b1\<lparr>page_table := remove_run pt ds n, cur_page := None\<rparr>)"
    using f d(1) by (simp add: delete_pages_def remove_run_def Let_def)
  then show ?thesis using d f by (simp add: contents_def)
qed

section \<open>Inserting from another buffer\<close>

lemma count_pages_correct:
  assumes "pages_ok ps" "sz \<le> length (page_bytes ps)"
  shows "\<exists>n r. count_pages ps sz = Some (n, r) \<and> n \<le> length ps \<and>
    take sz (page_bytes ps) = page_bytes (take n ps) @ (if r > 0 then take r (p_data (ps ! n)) else []) \<and>
    (r > 0 \<longrightarrow> n < length ps \<and> r < p_size (ps ! n))"
  using assms
proof (induction ps sz rule: count_pages.induct)
  case (3 p ps m)
  show ?case
  proof (cases "p_size p \<le> Suc m")
    case True
    have "pages_ok ps" "Suc m - p_size p \<le> length (page_bytes ps)" using "3.prems" by auto
    then obtain n r where "count_pages ps (Suc m - p_size p) = Some (n, r)" "n \<le> length ps"
      "take (Suc m - p_size p) (page_bytes ps) =
         page_bytes (take n ps) @ (if r > 0 then take r (p_data (ps ! n)) else [])"
      "r > 0 \<longrightarrow> n < length ps \<and> r < p_size (ps ! n)"
      using "3.IH" [OF True] by blast
    with True show ?thesis
      by (intro exI [of _ "Suc n"] exI [of _ r]) simp
  next
    case False
    then show ?thesis by simp
  qed
qed auto

lemma copy_page_simps [simp]: "p_data (copy_page p) = p_data p"
  by (simp add: copy_page_def)

lemma copy_page_read_only [simp]: "has_flag (copy_page p) PG_READ_ONLY = has_flag p PG_READ_ONLY"
  by (simp add: copy_page_def has_flag_def PG_READ_ONLY_def)

lemma copy_pages [simp]:
  "page_bytes (map copy_page ps) = page_bytes ps" "pages_ok (map copy_page ps) = pages_ok ps"
  by (simp_all add: comp_def pages_ok_def)

lemma insert_page_run_correct:
  assumes "pages_ok (page_table dest)" "j \<le> length (page_table dest)" "pages_ok ps"
    "sz \<le> length (page_bytes ps)"
  shows "\<exists>dest'. insert_page_run dest j ps sz = Some dest' \<and> pages_ok (page_table dest') \<and>
    contents dest' = page_bytes (take j (page_table dest)) @ take sz (page_bytes ps)
      @ page_bytes (drop j (page_table dest)) \<and>
    total_size dest' = total_size dest + sz \<and> cur_page dest' = None \<and>
    PageBuf.more dest' = PageBuf.more dest"
proof -
  obtain n r where c: "count_pages ps sz = Some (n, r)" "n \<le> length ps"
    "take sz (page_bytes ps) = page_bytes (take n ps) @ (if r > 0 then take r (p_data (ps ! n)) else [])"
    "r > 0 \<longrightarrow> n < length ps \<and> r < p_size (ps ! n)"
    using count_pages_correct [OF assms(3,4)] by blast
  let ?pt = "page_table dest"
  let ?new = "take j ?pt @ map copy_page (take n ps) @ drop j ?pt"
  have new: "pages_ok ?new" using assms(1,3) by simp
  have at: "take (j + n) ?new = take j ?pt @ map copy_page (take n ps)"
    "drop (j + n) ?new = drop j ?pt" "j + n \<le> length ?new"
    using assms(2) c(2) by simp_all
  have "\<exists>pt. (if r > 0 then eb_insert1 ?new (j + n) (take r (p_data (ps ! n))) else Some ?new) = Some pt \<and>
    pages_ok pt \<and> take (j + n) pt = take (j + n) ?new \<and>
    page_bytes (drop (j + n) pt) =
      (if r > 0 then take r (p_data (ps ! n)) else []) @ page_bytes (drop (j + n) ?new)"
    using eb_insert1_correct [OF new at(3), of "take r (p_data (ps ! n))"] new by (cases "r > 0") auto
  then obtain pt where pt:
    "(if r > 0 then eb_insert1 ?new (j + n) (take r (p_data (ps ! n))) else Some ?new) = Some pt"
    "pages_ok pt" "take (j + n) pt = take (j + n) ?new"
    "page_bytes (drop (j + n) pt) =
      (if r > 0 then take r (p_data (ps ! n)) else []) @ page_bytes (drop (j + n) ?new)" by blast
  have "page_bytes pt = page_bytes (take (j + n) pt) @ page_bytes (drop (j + n) pt)"
    by (rule page_bytes_take_drop [symmetric])
  also have "\<dots> = page_bytes (take j ?pt) @ take sz (page_bytes ps) @ page_bytes (drop j ?pt)"
    unfolding pt(3,4) at c(3) by (simp add: comp_def)
  finally have b: "page_bytes pt = page_bytes (take j ?pt) @ take sz (page_bytes ps) @ page_bytes (drop j ?pt)" .
  have "insert_page_run dest j ps sz =
      Some (dest\<lparr>total_size := total_size dest + sz, page_table := pt, cur_page := None\<rparr>)"
    using c(1) pt(1) by (cases "r > 0") (simp_all add: insert_page_run_def Let_def)
  then show ?thesis using b pt(2) by (simp add: contents_def)
qed

lemma cut_page_correct:
  assumes "buf_ok dest" "off \<le> length (contents dest)"
  shows "\<exists>dest' j. cut_page dest off = Some (dest', j) \<and> pages_ok (page_table dest') \<and>
    j \<le> length (page_table dest') \<and>
    page_bytes (take j (page_table dest')) = take off (contents dest) \<and>
    page_bytes (drop j (page_table dest')) = drop off (contents dest) \<and>
    total_size dest' = total_size dest \<and> PageBuf.more dest' = PageBuf.more dest"
proof (cases "off < total_size dest")
  case False
  then show ?thesis
    using assms buf_okD [OF assms(1)] by (simp add: cut_page_def contents_def)
next
  case True
  note ok = buf_okD [OF assms(1)]
  let ?pt = "page_table dest"
  obtain i k b1 where f: "find_page dest off = Some (i, k, b1)" "at_page ?pt off i k"
    "page_table b1 = ?pt" "total_size b1 = total_size dest" "PageBuf.more b1 = PageBuf.more dest"
    using find_page_correct [OF ok(1,3)] True ok(2) by metis
  let ?d = "p_data (?pt ! i)"
  let ?A = "page_bytes (take i ?pt)" and ?R = "page_bytes (drop (Suc i) ?pt)"
  have i: "i < length ?pt" "k < p_size (?pt ! i)" and off: "off = length ?A + k"
    using f(2) by (auto simp: at_page_def)
  have split: "contents dest = ?A @ ?d @ ?R"
    unfolding contents_def using i(1) by (rule page_bytes_split)
  show ?thesis
  proof (cases "k = 0")
    case k: True
    have "cut_page dest off = Some (b1, i)" using True f k by (simp add: cut_page_def)
    moreover have "page_bytes (drop i ?pt) = ?d @ ?R" using i(1) by (simp flip: Cons_nth_drop_Suc)
    ultimately show ?thesis using k off split f ok(1) i(1) by simp
  next
    case k: False
    obtain pt1 where pt1: "eb_insert1 ?pt (Suc i) (drop k ?d) = Some pt1" "pages_ok pt1"
      "take (Suc i) pt1 = take (Suc i) ?pt" "page_bytes (drop (Suc i) pt1) = drop k ?d @ ?R"
      "Suc i \<le> length pt1"
      using eb_insert1_correct [OF ok(1), of "Suc i" "drop k ?d"] i(1) by auto
    have same: "pt1 ! i = ?pt ! i" "take i pt1 = take i ?pt"
      using pt1(3) by (metis lessI nth_take, metis le_SucI min.absorb1 order_refl take_take)
    let ?q = "(update_page (?pt ! i))\<lparr>p_data := take k ?d\<rparr>"
    let ?new = "pt1[i := ?q]"
    have "cut_page dest off = Some (b1\<lparr>page_table := ?new\<rparr>, Suc i)"
      using True f k pt1(1) same by (simp add: cut_page_def)
    moreover have "pages_ok ?new"
      using pages_ok_nth [OF ok(1) i(1)] k i(2) by (intro pages_ok_update [OF pt1(2)]) simp_all
    moreover have "page_bytes (take (Suc i) ?new) = take off (contents dest)"
      using pt1(5) same i(2) off split by (simp add: take_Suc_conv_app_nth)
    moreover have "page_bytes (drop (Suc i) ?new) = drop off (contents dest)"
      using pt1(4) i(2) off split by simp
    ultimately show ?thesis using f(4,5) pt1(5) by simp
  qed
qed

lemma insert_whole_pages:
  assumes "buf_ok dest" "off \<le> length (contents dest)" "pages_ok ps" "sz \<le> length (page_bytes ps)"
  shows "\<exists>dest'. (do { (dest, j) \<leftarrow> cut_page dest off; insert_page_run dest j ps sz }) = Some dest' \<and>
    buf_ok dest' \<and> contents dest' = list_insert off (take sz (page_bytes ps)) (contents dest) \<and>
    cur_page dest' = None \<and> PageBuf.more dest' = PageBuf.more dest"
proof -
  obtain d1 j where c: "cut_page dest off = Some (d1, j)" "pages_ok (page_table d1)"
    "j \<le> length (page_table d1)" "page_bytes (take j (page_table d1)) = take off (contents dest)"
    "page_bytes (drop j (page_table d1)) = drop off (contents dest)"
    "total_size d1 = total_size dest" "PageBuf.more d1 = PageBuf.more dest"
    using cut_page_correct [OF assms(1,2)] by blast
  obtain d2 where r: "insert_page_run d1 j ps sz = Some d2" "pages_ok (page_table d2)"
    "contents d2 = take off (contents dest) @ take sz (page_bytes ps) @ drop off (contents dest)"
    "total_size d2 = total_size dest + sz" "cur_page d2 = None" "PageBuf.more d2 = PageBuf.more dest"
    using insert_page_run_correct [OF c(2,3) assms(3,4)] c(4-7) by metis
  have "buf_ok d2"
    using r assms(4) buf_okD(2) [OF assms(1)] by (simp add: buf_ok_def cache_ok_def)
  with c(1) r show ?thesis by (simp add: list_insert_def)
qed

lemma insert_pages_correct:
  assumes "buf_ok dest" "pages_ok (page_table src)" "cache_ok src" "doff \<le> length (contents dest)" "0 < sz"
    "soff + sz \<le> length (contents src)"
  shows "\<exists>dest' src'. insert_pages dest doff src soff sz = Some (dest', src') \<and> buf_ok dest' \<and>
    contents dest' = list_insert doff (list_slice soff sz (contents src)) (contents dest) \<and>
    cur_page dest' = None \<and> PageBuf.more dest' = PageBuf.more dest \<and>
    cache_ok src' \<and> same_text src src'"
proof -
  note ok = assms(2,3)
  let ?pt = "page_table src"
  have lt: "soff < length (contents src)" using assms(5,6) by simp
  obtain i k s1 where f: "find_page src soff = Some (i, k, s1)" "at_page ?pt soff i k"
    "page_table s1 = ?pt" "total_size s1 = total_size src" "cache_ok s1"
    "PageBuf.more s1 = PageBuf.more src"
    using find_page_correct [OF ok lt] by blast
  have s1: "cache_ok s1" "same_text src s1"
    using f by (simp_all add: same_text_def)
  let ?d = "p_data (?pt ! i)" and ?R = "page_bytes (drop (Suc i) ?pt)"
  have i: "i < length ?pt" "k < p_size (?pt ! i)"
    "soff = length (page_bytes (take i ?pt)) + k"
    using f(2) by (auto simp: at_page_def)
  have split: "contents src = page_bytes (take i ?pt) @ ?d @ ?R"
    unfolding contents_def using i(1) by (rule page_bytes_split)
  have slice: "list_slice soff sz (contents src) = list_slice k sz (?d @ ?R)"
    unfolding split by (rule list_slice_append) (rule i(3))
  have len: "k + sz \<le> length (?d @ ?R)" using assms(6) i(3) split by simp
  show ?thesis
  proof (cases "k = 0")
    case True
    have dr: "page_bytes (drop i ?pt) = ?d @ ?R" using i(1) by (simp flip: Cons_nth_drop_Suc)
    obtain d' where d': "(do { (dest, j) \<leftarrow> cut_page dest doff; insert_page_run dest j (drop i ?pt) sz }) = Some d'"
      "buf_ok d'" "contents d' = list_insert doff (take sz (page_bytes (drop i ?pt))) (contents dest)"
      "cur_page d' = None" "PageBuf.more d' = PageBuf.more dest"
      using insert_whole_pages [OF assms(1,4), of "drop i ?pt" sz] ok(1) len True dr by auto
    have "insert_pages dest doff src soff sz = Some (d', s1)"
      using d'(1) f(1,3) True assms(5)
      by (auto simp: insert_pages_def bind_eq_Some_conv split: prod.splits)
    then show ?thesis using d' s1 slice True by (simp add: list_slice_def dr)
  next
    case False
    let ?len = "min (length ?d - k) sz"
    let ?first = "take ?len (drop k ?d)"
    obtain d1 where d1: "eb_insert_lowlevel dest doff ?first = Some d1" "buf_ok d1"
      "contents d1 = list_insert doff ?first (contents dest)" "PageBuf.more d1 = PageBuf.more dest"
      "cur_page d1 = None"
      using eb_insert_lowlevel_correct [OF assms(1,4), of ?first] by blast
    have fl: "length ?first = ?len" by simp
    show ?thesis
    proof (cases "sz \<le> length ?d - k")
      case True
      have "insert_pages dest doff src soff sz = Some (d1, s1)"
        using f(1,3) False True d1(1) by (simp add: insert_pages_def Let_def min_absorb2)
      moreover have "?first = list_slice soff sz (contents src)"
        unfolding slice using True i(2) by (simp add: list_slice_def)
      ultimately show ?thesis using d1 s1 by simp
    next
      case long: False
      let ?off = "doff + ?len" and ?sz = "sz - ?len"
      have off: "?off \<le> length (contents d1)" using d1(3) assms(4) by simp
      have "?sz \<le> length ?R" using len long by simp
      then obtain d2 where d2:
        "(do { (dest, j) \<leftarrow> cut_page d1 ?off; insert_page_run dest j (drop (Suc i) ?pt) ?sz }) = Some d2"
        "buf_ok d2" "contents d2 = list_insert ?off (take ?sz ?R) (contents d1)"
        "cur_page d2 = None" "PageBuf.more d2 = PageBuf.more d1"
        using insert_whole_pages [OF d1(2) off, of "drop (Suc i) ?pt" ?sz] ok(1) by auto
      have "insert_pages dest doff src soff sz = Some (d2, s1)"
        using f(1,3) False long d1(1) d2(1)
        by (auto simp: insert_pages_def Let_def min_absorb1 bind_eq_Some_conv split: prod.splits)
      moreover have "contents d2 = list_insert doff (?first @ take ?sz ?R) (contents dest)"
        using list_insert_insert [OF assms(4), of ?first "take ?sz ?R"] d2(3) d1(3) fl by simp
      moreover have "?first @ take ?sz ?R = list_slice soff sz (contents src)"
        unfolding slice using long i(2) by (simp add: list_slice_def)
      ultimately show ?thesis using d1 d2 s1 by simp
    qed
  qed
qed

section \<open>The interface of the text storage\<close>

text \<open>
  What the undo log, the line functions and the commands rely on: the operations have a
  result under their preconditions and act on the text as the list operations do.
\<close>

locale text_store =
  fixes cont :: "'b \<Rightarrow> u8 list"
    and ok :: "'b \<Rightarrow> bool"
    and ins :: "'b \<Rightarrow> nat \<Rightarrow> u8 list \<Rightarrow> 'b option"
    and del :: "'b \<Rightarrow> nat \<Rightarrow> nat \<Rightarrow> 'b option"
    and put :: "'b \<Rightarrow> nat \<Rightarrow> u8 list \<Rightarrow> 'b option"
    and get :: "'b \<Rightarrow> nat \<Rightarrow> nat \<Rightarrow> (u8 list \<times> 'b) option"
  assumes ins: "ok b \<Longrightarrow> off \<le> length (cont b) \<Longrightarrow>
      \<exists>b'. ins b off bs = Some b' \<and> ok b' \<and> cont b' = list_insert off bs (cont b)"
    and del: "ok b \<Longrightarrow> off + n \<le> length (cont b) \<Longrightarrow>
      \<exists>b'. del b off n = Some b' \<and> ok b' \<and> cont b' = list_delete off n (cont b)"
    and put: "ok b \<Longrightarrow> bs \<noteq> [] \<Longrightarrow> off + length bs \<le> length (cont b) \<Longrightarrow>
      \<exists>b'. put b off bs = Some b' \<and> ok b' \<and> cont b' = list_write off bs (cont b)"
    and get: "ok b \<Longrightarrow>
      \<exists>b'. get b off n = Some (list_slice off n (cont b), b') \<and> ok b' \<and> cont b' = cont b"
begin

text \<open>Inserting and then deleting the inserted range is the identity on the text.\<close>

lemma ins_del:
  assumes "ok b" "off \<le> length (cont b)"
  shows "\<exists>b1 b2. ins b off bs = Some b1 \<and> del b1 off (length bs) = Some b2 \<and> ok b2 \<and> cont b2 = cont b"
proof -
  obtain b1 where b1: "ins b off bs = Some b1" "ok b1" "cont b1 = list_insert off bs (cont b)"
    using ins [OF assms] by blast
  then have "off + length bs \<le> length (cont b1)" using assms(2) by simp
  then obtain b2 where "del b1 off (length bs) = Some b2" "ok b2"
    "cont b2 = list_delete off (length bs) (cont b1)"
    using del [OF b1(2)] by blast
  with b1 assms(2) show ?thesis by simp
qed

text \<open>Reading a range, deleting it and inserting what was read is the identity on the text.\<close>

lemma get_del_ins:
  assumes "ok b" "off + n \<le> length (cont b)"
  shows "\<exists>bs b0 b1 b2. get b off n = Some (bs, b0) \<and> del b0 off n = Some b1 \<and>
    ins b1 off bs = Some b2 \<and> ok b2 \<and> cont b2 = cont b"
proof -
  obtain b0 where b0: "get b off n = Some (list_slice off n (cont b), b0)" "ok b0" "cont b0 = cont b"
    using get [OF assms(1)] by blast
  then obtain b1 where b1: "del b0 off n = Some b1" "ok b1" "cont b1 = list_delete off n (cont b)"
    using del [of b0 off n] assms(2) by auto
  then have "off \<le> length (cont b1)" using assms(2) by simp
  then obtain b2 where "ins b1 off (list_slice off n (cont b)) = Some b2" "ok b2"
    "cont b2 = list_insert off (list_slice off n (cont b)) (cont b1)"
    using ins [OF b1(2)] by blast
  with b0 b1 assms(2) show ?thesis by auto
qed

text \<open>What is written is read back, and the rest of the text is as before.\<close>

lemma put_get:
  assumes "ok b" "bs \<noteq> []" "off + length bs \<le> length (cont b)"
  shows "\<exists>b1 b2. put b off bs = Some b1 \<and> get b1 off (length bs) = Some (bs, b2) \<and> ok b2 \<and>
    cont b2 = list_write off bs (cont b)"
proof -
  obtain b1 where b1: "put b off bs = Some b1" "ok b1" "cont b1 = list_write off bs (cont b)"
    using put [OF assms] by blast
  obtain b2 where "get b1 off (length bs) = Some (list_slice off (length bs) (cont b1), b2)"
    "ok b2" "cont b2 = cont b1"
    using get [OF b1(2)] by blast
  with b1 assms(3) show ?thesis by simp
qed

end

text \<open>
  \<open>raw_delete\<close> is \<open>eb_delete\<close> on a buffer that keeps no log: the size is reduced, then the
  pages are cut. \<open>raw_insert\<close> and \<open>raw_write\<close> are \<open>eb_insert\<close> and \<open>eb_write\<close> on such a
  buffer: the undo log is one.
\<close>

definition raw_delete :: "'a PageBuf_scheme \<Rightarrow> nat \<Rightarrow> nat \<Rightarrow> 'a PageBuf_scheme option" where
  "raw_delete b offset n =
    (if offset \<ge> total_size b then Some b
     else delete_pages (b\<lparr>total_size := total_size b - n\<rparr>) offset n)"

definition raw_insert :: "'a PageBuf_scheme \<Rightarrow> nat \<Rightarrow> u8 list \<Rightarrow> 'a PageBuf_scheme option" where
  "raw_insert b offset buf = do {
     b \<leftarrow> eb_insert_lowlevel b offset buf;
     Some (b\<lparr>cur_page := None\<rparr>) }"

definition raw_write :: "'a PageBuf_scheme \<Rightarrow> nat \<Rightarrow> u8 list \<Rightarrow> 'a PageBuf_scheme option" where
  "raw_write b offset buf =
    (let len = rw_size b offset (length buf) in do {
       b \<leftarrow> (if len = 0 then Some b else rw_store b offset (take len buf));
       if length buf - len > 0 then raw_insert b (offset + len) (drop len buf) else Some b })"

lemma raw_insert_correct:
  assumes "buf_ok b" "off \<le> length (contents b)"
  shows "\<exists>b'. raw_insert b off bs = Some b' \<and> buf_ok b' \<and>
    contents b' = list_insert off bs (contents b) \<and> PageBuf.more b' = PageBuf.more b"
proof -
  obtain b' where "eb_insert_lowlevel b off bs = Some b'" "buf_ok b'"
    "contents b' = list_insert off bs (contents b)" "PageBuf.more b' = PageBuf.more b"
    using eb_insert_lowlevel_correct [OF assms] by blast
  then show ?thesis by (simp add: raw_insert_def buf_ok_def contents_def cache_ok_def)
qed

lemma raw_delete_correct:
  assumes "buf_ok b" "off + n \<le> length (contents b)"
  shows "\<exists>b'. raw_delete b off n = Some b' \<and> buf_ok b' \<and>
    contents b' = list_delete off n (contents b) \<and> PageBuf.more b' = PageBuf.more b"
proof (cases "off \<ge> total_size b")
  case True
  then have "n = 0" "off = length (contents b)"
    using assms buf_okD(2) [OF assms(1)] by simp_all
  with True assms show ?thesis by (simp add: raw_delete_def list_delete_def)
next
  case False
  note ok = buf_okD [OF assms(1)]
  let ?b = "b\<lparr>total_size := total_size b - n\<rparr>"
  have c: "contents ?b = contents b" by (simp add: contents_def)
  have "cache_ok ?b" using ok(3) by (auto simp: cache_ok_def split: option.splits)
  then obtain b' where "delete_pages ?b off n = Some b'" "pages_ok (page_table b')"
    "contents b' = list_delete off n (contents b)" "cur_page b' = None"
    "total_size b' = total_size ?b" "PageBuf.more b' = PageBuf.more ?b"
    using delete_pages_correct [of ?b off n] ok False assms(2) c by auto
  with False ok(2) assms(2) show ?thesis
    by (simp add: raw_delete_def buf_ok_def cache_ok_def)
qed

interpretation pages: text_store contents buf_ok raw_insert raw_delete rw_store eb_read
proof unfold_locales
  fix b :: "'a PageBuf_scheme" and off n bs
  assume b: "buf_ok b"
  show "\<exists>b'. raw_insert b off bs = Some b' \<and> buf_ok b' \<and> contents b' = list_insert off bs (contents b)"
    if "off \<le> length (contents b)" using raw_insert_correct [OF b that] by blast
  show "\<exists>b'. raw_delete b off n = Some b' \<and> buf_ok b' \<and> contents b' = list_delete off n (contents b)"
    if "off + n \<le> length (contents b)" using raw_delete_correct [OF b that] by blast
  show "\<exists>b'. rw_store b off bs = Some b' \<and> buf_ok b' \<and> contents b' = list_write off bs (contents b)"
    if "bs \<noteq> []" "off + length bs \<le> length (contents b)"
    using rw_store_correct [OF b that] by blast
  show "\<exists>b'. eb_read b off n = Some (list_slice off n (contents b), b') \<and> buf_ok b' \<and> contents b' = contents b"
    using eb_read_correct [OF b, of off n] by (auto simp: same_text_def contents_def)
qed

lemma raw_write_correct:
  assumes "buf_ok b" "off \<le> length (contents b)"
  shows "\<exists>b'. raw_write b off bs = Some b' \<and> buf_ok b' \<and>
    contents b' = list_write off bs (contents b) \<and> PageBuf.more b' = PageBuf.more b"
proof -
  define len where "len = rw_size b off (length bs)"
  have len: "len = min (length bs) (length (contents b) - off)"
    using buf_okD(2) [OF assms(1)] assms(2) by (auto simp: rw_size_def len_def)
  have "\<exists>b1. (if len = 0 then Some b else rw_store b off (take len bs)) = Some b1 \<and> buf_ok b1 \<and>
    contents b1 = list_write off (take len bs) (contents b) \<and> PageBuf.more b1 = PageBuf.more b"
  proof (cases "len = 0")
    case True
    then show ?thesis using assms by (simp add: list_write_def)
  next
    case False
    then have "take len bs \<noteq> []" using len by auto
    moreover have "off + length (take len bs) \<le> length (contents b)" using len assms(2) by simp
    ultimately show ?thesis
      using rw_store_correct [OF assms(1), of "take len bs" off] False by simp
  qed
  then obtain b1 where b1: "(if len = 0 then Some b else rw_store b off (take len bs)) = Some b1"
    "buf_ok b1" "contents b1 = list_write off (take len bs) (contents b)"
    "PageBuf.more b1 = PageBuf.more b" by blast
  have step: "raw_write b off bs =
      (if length bs - len > 0 then raw_insert b1 (off + len) (drop len bs) else Some b1)"
    unfolding raw_write_def Let_def len_def [symmetric] b1(1) by simp
  show ?thesis
  proof (cases "length bs - len > 0")
    case False
    then have l: "len = length bs" using len by simp
    have "raw_write b off bs = Some b1" using step False by simp
    moreover have "contents b1 = list_write off bs (contents b)" using b1(3) l by simp
    ultimately show ?thesis using b1(2,4) by blast
  next
    case True
    then have l: "len = length (contents b) - off" using len by simp
    then have c1: "contents b1 = take off (contents b) @ take len bs"
      using b1(3) True assms(2) by (simp add: list_write_def)
    then have off: "off + len = length (contents b1)" using True l assms(2) by simp
    obtain b2 where b2: "raw_insert b1 (off + len) (drop len bs) = Some b2" "buf_ok b2"
      "contents b2 = list_insert (off + len) (drop len bs) (contents b1)"
      "PageBuf.more b2 = PageBuf.more b1"
      using raw_insert_correct [OF b1(2) order_eq_refl [OF off], of "drop len bs"] by blast
    have "list_insert (off + len) (drop len bs) (contents b1) = contents b1 @ drop len bs"
      unfolding off list_insert_def by simp
    moreover have "contents b1 @ drop len bs = list_write off bs (contents b)"
      using c1 True l by (simp add: list_write_def)
    ultimately have "contents b2 = list_write off bs (contents b)" using b2(3) by simp
    moreover have "raw_write b off bs = Some b2" using step True b2(1) by simp
    ultimately show ?thesis using b2(2,4) b1(4) by simp
  qed
qed

end
