(* ===== verification/Base_Theorems.thy ===== *)
theory Base_Theorems
  imports Cutils Charset Page_Store
begin

text \<open>
  The properties of the base layers: bounded strings, dynamic strings, intrusive lists, UTF-8
  and the charset table, and copying text between paged buffers.
\<close>

section \<open>Strings and lists\<close>

text \<open>Bounded string copy and concatenation. Into a region of \<open>n > 0\<close> bytes inside a
  larger memory, \<open>pstrcpy\<close> stores the string cut off after \<open>n - 1\<close> characters and terminated,
  \<open>pstrcat\<close> then appends to it under the same bound, and no byte outside the region changes.\<close>

theorem pstrcpy_pstrcat:
  assumes "0 < n" "base + n \<le> length m" "c_string s" "c_string t"
  shows "\<exists>m1 m2. pstrcpy m base (int n) s = Some m1 \<and> pstrcat m1 base (int n) t = Some m2 \<and>
    cstr (drop base m1) = take (n - 1) s \<and> cstr (drop base m2) = take (n - 1) (s @ t) \<and>
    take base m2 = take base m \<and> drop (base + n) m2 = drop (base + n) m"
proof -
  obtain m1 where m1: "pstrcpy m base (int n) s = Some m1" "length m1 = length m"
    "cstr (drop base m1) = take (n - 1) s" "take base m1 = take base m"
    "drop (base + n) m1 = drop (base + n) m" "NUL \<in> set (drop base m1)"
    by (rule pstrcpy_spec [OF assms(1-3)])
  have "NUL \<in> set (take n (drop base m1))"
  proof -
    have "drop base m1 ! length (cstr (drop base m1)) = NUL"
      using cstr_split [OF m1(6)] by (metis nth_append_length)
    moreover have "length (cstr (drop base m1)) < n" using m1(3) assms(1) by simp
    moreover have "length (cstr (drop base m1)) < length (drop base m1)"
      using assms(1,2) m1(2,3) by simp
    ultimately show ?thesis by (metis in_set_conv_nth length_take min_less_iff_conj nth_take)
  qed
  then obtain m2 where m2: "pstrcat m1 base (int n) t = Some m2" "length m2 = length m1"
    "cstr (drop base m2) = take (n - 1) (cstr (drop base m1) @ t)"
    "take base m2 = take base m1" "drop (base + n) m2 = drop (base + n) m1"
    using pstrcat_spec [of n base m1 t] assms(2,4) m1(2) by metis
  have "take (n - 1) (take (n - 1) s @ t) = take (n - 1) (s @ t)"
    by (cases "n - 1 \<le> length s") simp_all
  with m1 m2 show ?thesis by auto
qed

lemma pstrcpy_pstrcat_witness:
  "\<exists>m1 m2. pstrcpy (replicate 8 NUL) 2 4 ''ab'' = Some m1 \<and> pstrcat m1 2 4 ''cde'' = Some m2 \<and>
    cstr (drop 2 m2) = ''abc''"
proof -
  have "c_string ''ab''" "c_string ''cde''" by (simp_all add: c_string_def)
  from pstrcpy_pstrcat [of 4 2 "replicate 8 NUL", OF _ _ this] show ?thesis by force
qed

fun append_all :: "QString \<Rightarrow> u8 list list \<Rightarrow> QString option" where
  "append_all q [] = Some q"
| "append_all q (d # ds) = (case qmemcat True q d of
       None \<Rightarrow> None | Some (r, q') \<Rightarrow> if r = 0 then append_all q' ds else None)"

lemma append_all_correct:
  "qstr_inv q \<Longrightarrow> qlen q + length (concat ds) < 2 ^ 30 \<Longrightarrow>
    \<exists>q'. append_all q ds = Some q' \<and> qstr_val q' = qstr_val q @ concat ds \<and> qstr_inv q' \<and>
      qlen q' = qlen q + length (concat ds)"
proof (induction ds arbitrary: q)
  case (Cons d ds)
  then obtain q1 where q1: "qmemcat True q d = Some (0, q1)" "qstr_inv q1"
    "qstr_val q1 = qstr_val q @ d" "qlen q1 = qlen q + length d"
    using qmemcat_correct [of q d] by auto
  then show ?case using Cons.IH [of q1] Cons.prems(2) by auto
qed simp

text \<open>Dynamic strings never overrun their block. A string built from the empty one by any
  number of \<open>qmemcat\<close> calls, up to \<open>2 ^ 30\<close> bytes in all, holds the concatenation, terminated
  by a zero: the test \<open>(len ^ new_len) >= len\<close> grows the block often enough, and every store
  is inside it.\<close>

theorem qstring_appends:
  assumes "length (concat ds) < 2 ^ 30" "concat ds \<noteq> []"
  shows "\<exists>q. append_all qstrinit ds = Some q \<and> qstr_val q = concat ds \<and>
    qlen q < length (qdata q) \<and> qdata q ! qlen q = 0"
proof -
  have "qstr_inv qstrinit" "qlen qstrinit = 0" "qstr_val qstrinit = []"
    by (simp_all add: qstr_inv_def qstrinit_def qstr_val_def)
  then obtain q where q: "append_all qstrinit ds = Some q" "qstr_val q = concat ds" "qstr_inv q"
    "qlen q = length (concat ds)"
    using append_all_correct [of qstrinit ds] assms(1) by auto
  have "qlen q \<noteq> 0" using q(4) assms(2) by simp
  moreover have "qlen q \<le> qmem_alloc_size (qlen q)"
    using qmem_alloc_size_ge [of "qlen q"] q(4) assms(1) by simp
  ultimately have "qlen q < length (qdata q)" "qdata q ! qlen q = 0"
    using q(3) by (auto simp: qstr_inv_def)
  with q(1,2) show ?thesis by blast
qed

lemma qstring_appends_witness:
  "\<exists>q. append_all qstrinit [[104], [], [101, 108], [108, 111]] = Some q \<and>
    qstr_val q = [104, 101, 108, 108, 111]"
  using qstring_appends [of "[[104], [], [101, 108], [108, 111]]"] by auto

text \<open>Intrusive lists. On a ring that links the distinct nodes \<open>xs\<close>, \<open>list_add_tail\<close> of a
  new node makes the loop of \<open>list_for_each\<close> end and visit \<open>xs\<close> and then that node,
  \<open>list_add\<close> makes it visit the node first, and \<open>list_del\<close> of a node makes it visit
  the others in their order.\<close>

theorem list_operations:
  assumes "dlist h head (xs @ ys)" "elem \<notin> set (head # xs @ ys)"
  shows "(let h1 = list_add_tail elem head h in list_for_each h1 head (nxt h1 head) = Some (xs @ ys @ [elem])) \<and>
    (let h2 = list_add elem head h in list_for_each h2 head (nxt h2 head) = Some (elem # xs @ ys)) \<and>
    (ys \<noteq> [] \<longrightarrow> (let h3 = list_del (hd ys) h in
       list_for_each h3 head (nxt h3 head) = Some (xs @ tl ys)))"
  using list_for_each_dlist [OF dlist_add_tail [OF assms]] list_for_each_dlist [OF dlist_add [OF assms]]
    list_for_each_dlist [OF dlist_del [of h head xs "hd ys" "tl ys"]] assms(1)
  by (cases ys) (simp_all add: Let_def)

lemma list_operations_witness:
  "\<exists>h. list_for_each (list_add_tail 2 0 h) 0 (nxt (list_add_tail 2 0 h) 0) = Some [1, 2]"
proof -
  define h where "h = list_add 1 0 (LIST_HEAD 0 \<lparr>nxt = \<lambda>_. 0, prv = \<lambda>_. 0\<rparr>)"
  have "dlist h 0 ([1] @ [])" unfolding h_def using dlist_add [OF dlist_LIST_HEAD, of 1 0] by simp
  from list_operations [OF this, of 2] show ?thesis by (auto simp: Let_def)
qed

section \<open>Character sets\<close>

text \<open>C18. The UTF-8 decoder is strict and complete. A result other than the replacement
  character means exactly that the bytes begin with the canonical encoding of that code
  point and that the code point is allowed (no surrogate, not \<open>0xfffe\<close> or \<open>0xffff\<close>, below
  \<open>2 ^ 31\<close>): overlong and truncated forms are all rejected.\<close>

theorem utf8_decode_iff:
  assumes "c \<noteq> INVALID_CHAR"
  shows "utf8_decode bs = Some (c, r) \<longleftrightarrow> utf8_valid c \<and> bs = utf8_encode c @ r"
  using utf8_decode_canonical [OF _ assms] utf8_roundtrip by blast

lemma utf8_decode_iff_witness: "utf8_decode [0xc0, 0xaf] \<noteq> Some (0x2f, [])"
  using utf8_decode_iff [of "0x2f" "[0xc0, 0xaf]" "[]"] by (simp add: utf8_encode_ascii INVALID_CHAR_def)

text \<open>C19. Every charset round-trips the text it can represent: decoding, with the table or
  the slow decoder, the concatenated encodings of any sequence of representable code points
  returns the sequence.\<close>

theorem charset_roundtrip:
  assumes "\<forall>c \<in> set cs. representable ch c"
  shows "dec_text (charset_decode (charset_decode_init ch)) (length cs) (enc_text (encode_func ch) cs) = Some cs"
  using codec.dec_text_enc_text [OF assms] by simp

lemma charset_roundtrip_witness:
  "dec_text (charset_decode (charset_decode_init Charset_utf8)) 2
    (enc_text (encode_func Charset_utf8) [0x20ac, 0x41]) = Some [0x20ac, 0x41]"
  using charset_roundtrip [of "[0x20ac, 0x41]" Charset_utf8] by (simp add: utf8_valid_def numeral_2_eq_2 del: charset_decode_init.simps)

text \<open>Charset detection. A text of encoded valid code points is taken for UTF-8 exactly if
  one of them is not ASCII.\<close>

theorem detect_charset_spec:
  assumes "\<forall>c \<in> set cs. utf8_valid c"
  shows "detect_charset (concat (map utf8_encode cs)) =
    (if \<forall>c \<in> set cs. c < 0x80 then Charset_8859_1 else Charset_utf8)"
  using detect_charset_text [OF assms] by (auto simp: not_less)

lemma detect_charset_spec_witness: "detect_charset (concat (map utf8_encode [0x41, 0xe9])) = Charset_utf8"
  using detect_charset_spec [of "[0x41, 0xe9]"] by (simp add: utf8_valid_def)

text \<open>Detection forgets invalid bytes. An invalid byte only clears the flag that a later
  valid sequence sets again, so bytes that are not UTF-8 are detected as UTF-8, and decoding them
  gives the replacement character.\<close>

theorem detect_charset_accepts_invalid:
  "detect_charset [0xff, 0xc3, 0xa9] = Charset_utf8 \<and>
    charset_decode (charset_decode_init Charset_utf8) [0xff, 0xc3, 0xa9] = Some (INVALID_CHAR, [0xc3, 0xa9])"
  by code_simp

section \<open>Paged text\<close>

text \<open>C13. Copying between buffers. \<open>eb_insert_buffer\<close> (after its log entry) inserts exactly the
  selected range of the source at the offset, for every split of both texts into pages; the
  destination stays well formed, with pages of at most \<open>MAX_PAGE_SIZE\<close> bytes, and the source
  keeps its pages.\<close>

theorem insert_pages_copies:
  assumes "buf_ok dest" "buf_ok src" "doff \<le> length (contents dest)" "0 < n"
    "soff + n \<le> length (contents src)"
  shows "\<exists>dest' src'. insert_pages dest doff src soff n = Some (dest', src') \<and> buf_ok dest' \<and>
    contents dest' = take doff (contents dest) @ take n (drop soff (contents src)) @ drop doff (contents dest) \<and>
    page_table src' = page_table src"
  using insert_pages_correct [OF assms(1) _ _ assms(3-5)] buf_okD(1,3) [OF assms(2)]
  by (auto simp: list_insert_def list_slice_def same_text_def)

lemma insert_pages_copies_witness:
  "\<exists>d s'. insert_pages empty_pages 0
      \<lparr>page_table = [\<lparr>p_data = [1, 2], p_flags = PG_READ_ONLY, p_nb_lines = 0, p_col = 0, p_nb_chars = 0\<rparr>,
          \<lparr>p_data = [3], p_flags = 0, p_nb_lines = 0, p_col = 0, p_nb_chars = 0\<rparr>],
       total_size = 3, cur_page = None, cur_offset = 0\<rparr> 1 2 = Some (d, s') \<and> contents d = [2, 3]"
proof -
  let ?s = "\<lparr>page_table = [\<lparr>p_data = [1, 2], p_flags = PG_READ_ONLY, p_nb_lines = 0, p_col = 0, p_nb_chars = 0\<rparr>,
          \<lparr>p_data = [3], p_flags = 0, p_nb_lines = 0, p_col = 0, p_nb_chars = 0\<rparr>],
       total_size = 3, cur_page = None, cur_offset = 0\<rparr>"
  have "buf_ok ?s" by (simp add: buf_ok_def contents_def cache_ok_def MAX_PAGE_SIZE_def)
  from insert_pages_copies [OF buf_ok_empty(1) this, of 0 2 1] show ?thesis
    by (auto simp: contents_def empty_pages_def)
qed

end
