(* ===== verification/Edit_Buffer.thy ===== *)
theory Edit_Buffer
  imports Page_Store Charset
begin

text \<open>
  The \<open>EditBuffer\<close> of \<open>src/qe.h\<close> and the logged editing operations and undo of
  \<open>src/buffer.c\<close>: modification callbacks, \<open>eb_addlog\<close>, \<open>eb_write\<close>, \<open>eb_insert\<close>,
  \<open>eb_insert_buffer\<close>, \<open>eb_delete\<close>, \<open>log_reset\<close> and \<open>do_undo\<close>. This theory holds the
  definitions; \<open>Undo_Log\<close> proves them correct.

  A tracked position is an \<open>int\<close> of the program that \<open>eb_offset_callback\<close> moves: the mark of
  the buffer or the offsets of a window. It is named by its address (a number), and \<open>tracked\<close>
  is the memory that holds these integers. The other two callbacks of the program (of the
  colorizers) only record which lines have to be coloured again and are left out.
  The log buffer keeps no log itself (it is created with \<open>BF_SYSTEM\<close> alone) and nothing reads
  its mark or its modified flag, so its pages are all that is kept of it.
\<close>

section \<open>The buffer and its callbacks\<close>

datatype LogOperation = LOGOP_FREE | LOGOP_WRITE | LOGOP_INSERT | LOGOP_DELETE

fun op_code :: "LogOperation \<Rightarrow> nat" where
  "op_code LOGOP_FREE = 0"
| "op_code LOGOP_WRITE = 1"
| "op_code LOGOP_INSERT = 2"
| "op_code LOGOP_DELETE = 3"

lemma op_code_eq_iff [simp]: "op_code a = op_code b \<longleftrightarrow> a = b"
  by (cases a; cases b) simp_all

instantiation LogOperation :: linorder
begin

definition less_eq_LogOperation :: "LogOperation \<Rightarrow> LogOperation \<Rightarrow> bool" where
  "a \<le> b \<longleftrightarrow> op_code a \<le> op_code b"

definition less_LogOperation :: "LogOperation \<Rightarrow> LogOperation \<Rightarrow> bool" where
  "a < b \<longleftrightarrow> op_code a < op_code b"

instance
proof
  fix a b c :: LogOperation
  show "a < b \<longleftrightarrow> a \<le> b \<and> \<not> b \<le> a" by (auto simp: less_eq_LogOperation_def less_LogOperation_def)
  show "a \<le> a" by (simp add: less_eq_LogOperation_def)
  show "a \<le> b \<Longrightarrow> b \<le> c \<Longrightarrow> a \<le> c" by (simp add: less_eq_LogOperation_def)
  show "a \<le> b \<Longrightarrow> b \<le> a \<Longrightarrow> a = b" by (simp add: less_eq_LogOperation_def)
  show "a \<le> b \<or> b \<le> a" by (auto simp: less_eq_LogOperation_def)
qed

end

definition NB_LOGS_MAX :: nat where "NB_LOGS_MAX = 50"

definition BF_SAVELOG :: u32 where "BF_SAVELOG = 0x0001"
definition BF_SYSTEM :: u32 where "BF_SYSTEM = 0x0002"
definition BF_READONLY :: u32 where "BF_READONLY = 0x0004"
definition BF_PREVIEW :: u32 where "BF_PREVIEW = 0x0008"
definition BF_LOADING :: u32 where "BF_LOADING = 0x0010"
definition BF_SAVING :: u32 where "BF_SAVING = 0x0020"

type_synonym tracker = nat

record EditBuffer = PageBuf +
  tracked :: "tracker \<Rightarrow> int"
  callbacks :: "tracker list"
  modified :: bool
  save_log :: bool
  log_new_index :: nat
  log_current :: nat
  log_buffer :: "PageBuf option"
  nb_logs :: nat
  b_flags :: u32
  charset :: QECharset
  charset_state :: CharsetDecodeState
  b_name :: string
  filename :: string

text \<open>\<open>eb_offset_callback\<close> for the integer at address \<open>a\<close>.\<close>

definition eb_offset_callback ::
    "(tracker \<Rightarrow> int) \<Rightarrow> tracker \<Rightarrow> LogOperation \<Rightarrow> int \<Rightarrow> int \<Rightarrow> tracker \<Rightarrow> int" where
  "eb_offset_callback m a op offset sz = (case op of
       LOGOP_INSERT \<Rightarrow> if m a > offset then m(a := m a + sz) else m
     | LOGOP_DELETE \<Rightarrow>
         if m a > offset then
           (let m = m(a := m a - sz) in if m a < offset then m(a := offset) else m)
         else m
     | _ \<Rightarrow> m)"

fun call_callbacks ::
    "tracker list \<Rightarrow> (tracker \<Rightarrow> int) \<Rightarrow> LogOperation \<Rightarrow> int \<Rightarrow> int \<Rightarrow> tracker \<Rightarrow> int" where
  "call_callbacks [] m op offset sz = m"
| "call_callbacks (a # l) m op offset sz =
     call_callbacks l (eb_offset_callback m a op offset sz) op offset sz"

definition eb_add_callback :: "EditBuffer \<Rightarrow> tracker \<Rightarrow> EditBuffer" where
  "eb_add_callback b opaque = b\<lparr>callbacks := opaque # callbacks b\<rparr>"

fun remove_callback :: "tracker \<Rightarrow> tracker list \<Rightarrow> tracker list" where
  "remove_callback opaque [] = []"
| "remove_callback opaque (l # pl) = (if l = opaque then pl else l # remove_callback opaque pl)"

definition eb_free_callback :: "EditBuffer \<Rightarrow> tracker \<Rightarrow> EditBuffer" where
  "eb_free_callback b opaque = b\<lparr>callbacks := remove_callback opaque (callbacks b)\<rparr>"

text \<open>
  \<open>eb_new\<close> without the list of buffers: a zeroed structure whose only callback is the one of
  its mark, at address 0.
\<close>

definition alloc_buffer :: "string \<Rightarrow> u32 \<Rightarrow> EditBuffer" where
  "alloc_buffer name flags =
     eb_add_callback
       \<lparr>page_table = [], total_size = 0, cur_page = None, cur_offset = 0, tracked = (\<lambda>_. 0),
        callbacks = [], modified = False, save_log = flags AND BF_SAVELOG \<noteq> 0,
        log_new_index = 0, log_current = 0, log_buffer = None, nb_logs = 0, b_flags = flags,
        charset = Charset_8859_1, charset_state = charset_decode_init Charset_8859_1,
        b_name = take 255 name, filename = []\<rparr> 0"

section \<open>Log entries in memory\<close>

text \<open>
  An \<open>int\<close> is four bytes, least significant first. \<open>struct LogBuffer\<close> is two bytes, two bytes
  of padding and two \<open>int\<close>s; nothing reads the padding, which is written as zeros here.
\<close>

definition int_bytes :: "int \<Rightarrow> u8 list" where
  "int_bytes k = [byte (k mod 256), byte (k div 256 mod 256), byte (k div 65536 mod 256),
     byte (k div 16777216 mod 256)]"

fun bytes_int :: "u8 list \<Rightarrow> int" where
  "bytes_int [a, b, c, d] =
     (let u = uint a + 256 * uint b + 65536 * uint c + 16777216 * uint d
      in if u \<ge> 2147483648 then u - 4294967296 else u)"
| "bytes_int _ = 0"

record LogBuffer =
  lb_op :: nat
  lb_was_modified :: bool
  lb_offset :: int
  lb_size :: int

definition sizeof_LogBuffer :: nat where "sizeof_LogBuffer = 12"
definition sizeof_int :: nat where "sizeof_int = 4"

definition log_header :: "LogBuffer \<Rightarrow> u8 list" where
  "log_header lb = [byte (int (lb_op lb)), byte (if lb_was_modified lb then 1 else 0), 0, 0]
     @ int_bytes (lb_offset lb) @ int_bytes (lb_size lb)"

definition parse_header :: "u8 list \<Rightarrow> LogBuffer" where
  "parse_header bs =
     \<lparr>lb_op = unat (bs ! 0), lb_was_modified = bs ! 1 \<noteq> 0,
      lb_offset = bytes_int (take 4 (drop 4 bs)), lb_size = bytes_int (take 4 (drop 8 bs))\<rparr>"

section \<open>The undo log\<close>

text \<open>
  The least recent entry is removed when the log is full. There is no result where an index
  of the log would become negative or a read falls short of the record that is read.
\<close>

definition drop_least_recent :: "PageBuf \<Rightarrow> EditBuffer \<Rightarrow> (PageBuf \<times> EditBuffer) option" where
  "drop_least_recent lbuf b =
    (if nb_logs b \<ge> NB_LOGS_MAX - 1
     then do {
       (h, lbuf) \<leftarrow> eb_read lbuf 0 sizeof_LogBuffer;
       guard (length h = sizeof_LogBuffer);
       let lb = parse_header h;
       let len = (if lb_op lb = op_code LOGOP_INSERT then 0 else lb_size lb);
       let len = len + int (sizeof_LogBuffer + sizeof_int);
       guard (0 \<le> len \<and> len \<le> int (log_new_index b));
       let len = nat len;
       lbuf \<leftarrow> raw_delete lbuf 0 len;
       guard (log_current b > 1 \<longrightarrow> len \<le> log_current b);
       Some (lbuf, b\<lparr>log_new_index := log_new_index b - len,
         log_current := if log_current b > 1 then log_current b - len else log_current b,
         nb_logs := nb_logs b - 1\<rparr>) }
     else Some (lbuf, b))"

text \<open>The data of an entry: \<open>eb_insert_buffer\<close> into the log, which does nothing for size 0.\<close>

definition log_data :: "PageBuf \<Rightarrow> EditBuffer \<Rightarrow> LogOperation \<Rightarrow> nat \<Rightarrow> nat
    \<Rightarrow> (PageBuf \<times> EditBuffer \<times> nat) option" where
  "log_data lbuf b op offset sz =
    (if op = LOGOP_DELETE \<or> op = LOGOP_WRITE
     then do {
       (lbuf, b) \<leftarrow> (if sz = 0 then Some (lbuf, b)
                    else insert_pages lbuf (log_new_index b) b offset sz);
       Some (lbuf, b\<lparr>log_new_index := log_new_index b + sz\<rparr>, sz) }
     else Some (lbuf, b, 0))"

definition eb_addlog :: "EditBuffer \<Rightarrow> LogOperation \<Rightarrow> nat \<Rightarrow> nat \<Rightarrow> EditBuffer option" where
  "eb_addlog b op offset sz =
    (let b = b\<lparr>tracked := call_callbacks (callbacks b) (tracked b) op (int offset) (int sz)\<rparr>;
         was_modified = modified b;
         b = b\<lparr>modified := True\<rparr>
     in if \<not> save_log b then Some b
     else do {
       let lbuf = (case log_buffer b of None \<Rightarrow> empty_pages | Some l \<Rightarrow> l);
       (lbuf, b) \<leftarrow> drop_least_recent lbuf b;
       lbuf \<leftarrow> raw_write lbuf (log_new_index b)
         (log_header \<lparr>lb_op = op_code op, lb_was_modified = was_modified,
                      lb_offset = int offset, lb_size = int sz\<rparr>);
       let b = b\<lparr>log_new_index := log_new_index b + sizeof_LogBuffer\<rparr>;
       (lbuf, b, size_trailer) \<leftarrow> log_data lbuf b op offset sz;
       lbuf \<leftarrow> raw_write lbuf (log_new_index b) (int_bytes (int size_trailer));
       let b = b\<lparr>log_new_index := log_new_index b + sizeof_int\<rparr>;
       Some (b\<lparr>log_buffer := Some lbuf, nb_logs := nb_logs b + 1\<rparr>) })"

definition log_reset :: "EditBuffer \<Rightarrow> EditBuffer" where
  "log_reset b =
    (let b = (case log_buffer b of None \<Rightarrow> b
       | Some _ \<Rightarrow> b\<lparr>log_buffer := None, log_new_index := 0, log_current := 0, nb_logs := 0\<rparr>)
     in b\<lparr>modified := False\<rparr>)"

section \<open>The editing operations\<close>

definition eb_insert :: "EditBuffer \<Rightarrow> nat \<Rightarrow> u8 list \<Rightarrow> EditBuffer option" where
  "eb_insert b offset buf = do {
     b \<leftarrow> eb_addlog b LOGOP_INSERT offset (length buf);
     b \<leftarrow> eb_insert_lowlevel b offset buf;
     Some (b\<lparr>cur_page := None\<rparr>) }"

text \<open>\<open>eb_rw\<close> with \<open>do_write\<close> set, and \<open>eb_write\<close>, which can also write past the end.\<close>

definition eb_rw_write :: "EditBuffer \<Rightarrow> nat \<Rightarrow> u8 list \<Rightarrow> (nat \<times> EditBuffer) option" where
  "eb_rw_write b offset buf =
    (let size1 = rw_size b offset (length buf) in
     if size1 = 0 then Some (0, b)
     else do {
       b \<leftarrow> eb_addlog b LOGOP_WRITE offset size1;
       b \<leftarrow> rw_store b offset (take size1 buf);
       Some (size1, b) })"

definition eb_write :: "EditBuffer \<Rightarrow> nat \<Rightarrow> u8 list \<Rightarrow> EditBuffer option" where
  "eb_write b offset buf = do {
     (len, b) \<leftarrow> eb_rw_write b offset buf;
     if length buf - len > 0 then eb_insert b (offset + len) (drop len buf) else Some b }"

definition eb_delete :: "EditBuffer \<Rightarrow> nat \<Rightarrow> nat \<Rightarrow> EditBuffer option" where
  "eb_delete b offset sz =
    (if offset \<ge> total_size b then Some b
     else do {
       guard (sz \<le> total_size b);
       let b = b\<lparr>total_size := total_size b - sz\<rparr>;
       b \<leftarrow> eb_addlog b LOGOP_DELETE offset sz;
       delete_pages b offset sz })"

definition eb_insert_buffer :: "EditBuffer \<Rightarrow> nat \<Rightarrow> 'b PageBuf_scheme \<Rightarrow> nat \<Rightarrow> nat
    \<Rightarrow> (EditBuffer \<times> 'b PageBuf_scheme) option" where
  "eb_insert_buffer dest dest_offset src src_offset sz =
    (if sz = 0 then Some (dest, src)
     else do {
       dest \<leftarrow> eb_addlog dest LOGOP_INSERT dest_offset sz;
       insert_pages dest dest_offset src src_offset sz })"

section \<open>Undo\<close>

text \<open>Reading a record of the log: there is no result if it is not wholly there.\<close>

definition log_read :: "EditBuffer \<Rightarrow> int \<Rightarrow> nat \<Rightarrow> (u8 list \<times> EditBuffer) option" where
  "log_read b i n = do {
     lbuf \<leftarrow> log_buffer b;
     guard (0 \<le> i);
     (bs, lbuf) \<leftarrow> eb_read lbuf (nat i) n;
     guard (length bs = n);
     Some (bs, b\<lparr>log_buffer := Some lbuf\<rparr>) }"

text \<open>
  \<open>eb_insert_buffer\<close> from the log of the buffer itself, called with \<open>save_log\<close> off, so that
  the log does not change meanwhile.
\<close>

definition insert_from_log :: "EditBuffer \<Rightarrow> nat \<Rightarrow> nat \<Rightarrow> nat \<Rightarrow> EditBuffer option" where
  "insert_from_log b offset log_index sz = do {
     lbuf \<leftarrow> log_buffer b;
     (b, lbuf) \<leftarrow> eb_insert_buffer b offset lbuf log_index sz;
     Some (b\<lparr>log_buffer := Some lbuf\<rparr>) }"

text \<open>
  Play the log entry \<open>lb\<close>, whose data is at \<open>log_index\<close>; \<open>s_offset\<close> is the address of the
  window's \<open>offset\<close>.
\<close>

definition play_entry ::
    "EditBuffer \<Rightarrow> tracker \<Rightarrow> LogBuffer \<Rightarrow> nat \<Rightarrow> EditBuffer option" where
  "play_entry b s_offset lb log_index = do {
     guard (0 \<le> lb_offset lb \<and> 0 \<le> lb_size lb);
     let offset = nat (lb_offset lb);
     let sz = nat (lb_size lb);
     b \<leftarrow> (if lb_op lb = op_code LOGOP_WRITE
          then do {
            let saved = save_log b;
            let b = b\<lparr>save_log := False\<rparr>;
            b \<leftarrow> eb_delete b offset sz;
            b \<leftarrow> insert_from_log b offset log_index sz;
            let b = b\<lparr>save_log := saved\<rparr>;
            b \<leftarrow> eb_addlog b LOGOP_WRITE offset sz;
            Some (b\<lparr>tracked := (tracked b)(s_offset := lb_offset lb + lb_size lb)\<rparr>) }
          else if lb_op lb = op_code LOGOP_DELETE
          then do {
            let saved = save_log b;
            let b = b\<lparr>save_log := False\<rparr>;
            b \<leftarrow> insert_from_log b offset log_index sz;
            let b = b\<lparr>save_log := saved\<rparr>;
            b \<leftarrow> eb_addlog b LOGOP_INSERT offset sz;
            Some (b\<lparr>tracked := (tracked b)(s_offset := lb_offset lb + lb_size lb)\<rparr>) }
          else if lb_op lb = op_code LOGOP_INSERT
          then do {
            b \<leftarrow> eb_delete b offset sz;
            Some (b\<lparr>tracked := (tracked b)(s_offset := lb_offset lb)\<rparr>) }
          else None);
     Some (b\<lparr>modified := lb_was_modified lb\<rparr>) }"

text \<open>\<open>again\<close> says that the last command was \<open>do_undo\<close> as well.\<close>

definition do_undo :: "EditBuffer \<Rightarrow> bool \<Rightarrow> tracker \<Rightarrow> EditBuffer option" where
  "do_undo b again s_offset =
    (if log_buffer b = None then Some b
     else
       let b = (if \<not> again then b\<lparr>log_current := 0\<rparr> else b);
           log_index = (if log_current b = 0 then log_new_index b else log_current b - 1)
       in if log_index = 0 then Some b
       else do {
         let log_index = int log_index - int sizeof_int;
         (t, b) \<leftarrow> log_read b log_index sizeof_int;
         let log_index = log_index - (bytes_int t + int sizeof_LogBuffer);
         guard (0 \<le> log_index);
         let b = b\<lparr>log_current := nat log_index + 1\<rparr>;
         (h, b) \<leftarrow> log_read b log_index sizeof_LogBuffer;
         let log_index = log_index + int sizeof_LogBuffer;
         play_entry b s_offset (parse_header h) (nat log_index) })"

end
