(* ===== verification/Undo_Log.thy ===== *)
theory Undo_Log
  imports Edit_Buffer
begin

text \<open>
  Correctness of the undo log. The concrete buffer, whose log is a second paged buffer of
  encoded records addressed by byte indices, refines an abstract buffer whose log is a list
  of entries with a cursor. Every logged operation has a result under its precondition and
  simulates the abstract one; the undo theorems follow on the abstract side.
\<close>

section \<open>Encoding\<close>

lemma length_int_bytes [simp]: "length (int_bytes k) = 4"
  by (simp add: int_bytes_def)

lemma length_log_header [simp]: "length (log_header lb) = 12"
  by (simp add: log_header_def)

lemma four_digits:
  fixes k :: int
  assumes "k = r0 + 256 * q1" "q1 = r1 + 256 * q2" "q2 = r2 + 256 * q3"
  shows "k = r0 + 256 * r1 + 65536 * r2 + 16777216 * q3"
  using assms by simp

lemma bytes_int_bytes:
  assumes "0 \<le> k" "k < 2147483648"
  shows "bytes_int (int_bytes k) = k"
proof -
  have div: "k div 65536 = k div 256 div 256" "k div 16777216 = k div 256 div 256 div 256"
    by (simp_all add: zdiv_zmult2_eq [symmetric])
  have top: "k div 16777216 mod 256 = k div 16777216"
    using assms by (intro mod_pos_pos_trivial) auto
  have "k = k mod 256 + 256 * (k div 256 mod 256) + 65536 * (k div 256 div 256 mod 256)
      + 16777216 * (k div 256 div 256 div 256)"
    by (rule four_digits) (rule mod_mult_div_eq [symmetric])+
  then have sum: "k mod 256 + 256 * (k div 256 mod 256) + 65536 * (k div 65536 mod 256)
      + 16777216 * (k div 16777216 mod 256) = k"
    unfolding top unfolding div by (rule sym)
  have digit: "uint (byte (j mod 256)) = j mod 256" for j
    by (rule uint_byte) simp_all
  show ?thesis
    unfolding int_bytes_def bytes_int.simps Let_def digit sum using assms(2) by simp
qed

lemma parse_log_header:
  assumes "lb_op lb < 256" "0 \<le> lb_offset lb" "lb_offset lb < 2147483648"
    "0 \<le> lb_size lb" "lb_size lb < 2147483648"
  shows "parse_header (log_header lb @ r) = lb"
proof -
  have "unat (byte (int (lb_op lb))) = lb_op lb"
    using assms(1) by (simp add: unat_of_nat)
  then show ?thesis
    using assms bytes_int_bytes
    by (simp add: parse_header_def log_header_def)
qed

section \<open>The abstract log\<close>

record LogEntry =
  le_op :: LogOperation
  le_mod :: bool
  le_off :: nat
  le_size :: nat
  le_data :: "u8 list"

definition has_data :: "LogOperation \<Rightarrow> bool" where
  "has_data op \<longleftrightarrow> op = LOGOP_DELETE \<or> op = LOGOP_WRITE"

definition entry_ok :: "LogEntry \<Rightarrow> bool" where
  "entry_ok e \<longleftrightarrow> le_op e \<noteq> LOGOP_FREE \<and> le_off e < 2147483648 \<and> le_size e < 2147483648 \<and>
     length (le_data e) = (if has_data (le_op e) then le_size e else 0)"

definition entry_header :: "LogEntry \<Rightarrow> LogBuffer" where
  "entry_header e = \<lparr>lb_op = op_code (le_op e), lb_was_modified = le_mod e,
     lb_offset = int (le_off e), lb_size = int (le_size e)\<rparr>"

definition enc :: "LogEntry \<Rightarrow> u8 list" where
  "enc e = log_header (entry_header e) @ le_data e @ int_bytes (int (length (le_data e)))"

definition log_bytes :: "LogEntry list \<Rightarrow> u8 list" where
  "log_bytes es = concat (map enc es)"

lemma log_bytes_simps [simp, log_simps]:
  "log_bytes [] = []" "log_bytes (e # es) = enc e @ log_bytes es"
  "log_bytes (es @ fs) = log_bytes es @ log_bytes fs"
  by (simp_all add: log_bytes_def)

lemma length_enc [simp, log_simps]: "length (enc e) = 16 + length (le_data e)"
  by (simp add: enc_def)

lemma log_bytes_empty [simp]: "log_bytes es = [] \<longleftrightarrow> es = []"
  by (cases es) (auto dest: arg_cong [of _ _ length])

lemma op_code_less: "op_code op < 256"
  by (cases op) simp_all

lemma parse_entry_header:
  assumes "entry_ok e"
  shows "parse_header (log_header (entry_header e) @ r) = entry_header e"
  using assms op_code_less
  by (intro parse_log_header) (auto simp: entry_ok_def entry_header_def)

lemma take_header: "take 12 (enc e @ r) = log_header (entry_header e)"
  by (simp add: enc_def)

lemma parse_take_header: "entry_ok e \<Longrightarrow> parse_header (take 12 (enc e @ r)) = entry_header e"
  unfolding take_header using parse_entry_header [of e "[]"] by simp

definition log_rep :: "EditBuffer \<Rightarrow> LogEntry list \<Rightarrow> bool" where
  "log_rep b es \<longleftrightarrow>
     (case log_buffer b of None \<Rightarrow> es = [] | Some l \<Rightarrow> buf_ok l \<and> contents l = log_bytes es) \<and>
     log_new_index b = length (log_bytes es) \<and> nb_logs b = length es \<and>
     length es \<le> NB_LOGS_MAX - 1 \<and> (\<forall>e \<in> set es. entry_ok e)"

text \<open>
  The cursor \<open>log_current\<close>: zero, or one more than the byte index of a boundary between
  entries; the entries before it can still be undone.
\<close>

definition cur_rep :: "EditBuffer \<Rightarrow> LogEntry list \<Rightarrow> nat option \<Rightarrow> bool" where
  "cur_rep b es c \<longleftrightarrow> (case c of None \<Rightarrow> log_current b = 0
     | Some n \<Rightarrow> n \<le> length es \<and> log_current b = length (log_bytes (take n es)) + 1)"

text \<open>The fields of the document that logging leaves alone.\<close>

definition doc_eq :: "EditBuffer \<Rightarrow> EditBuffer \<Rightarrow> bool" where
  "doc_eq b b' \<longleftrightarrow> page_table b' = page_table b \<and> total_size b' = total_size b \<and>
     callbacks b' = callbacks b \<and> save_log b' = save_log b \<and> b_flags b' = b_flags b \<and>
     charset b' = charset b \<and> charset_state b' = charset_state b \<and> b_name b' = b_name b \<and>
     filename b' = filename b"

lemma more_eqD:
  assumes "PageBuf.more (b' :: EditBuffer) = PageBuf.more b"
  shows "tracked b' = tracked b" "callbacks b' = callbacks b" "modified b' = modified b"
    "save_log b' = save_log b" "log_new_index b' = log_new_index b" "log_current b' = log_current b"
    "log_buffer b' = log_buffer b" "nb_logs b' = nb_logs b" "b_flags b' = b_flags b"
    "charset b' = charset b" "charset_state b' = charset_state b" "b_name b' = b_name b"
    "filename b' = filename b"
  using assms by (cases b; cases b'; simp)+

section \<open>Adding an entry\<close>

lemma list_write_end [simp]: "n = length xs \<Longrightarrow> list_write n bs xs = xs @ bs"
  and list_insert_end [simp]: "n = length xs \<Longrightarrow> list_insert n bs xs = xs @ bs"
  by (simp_all add: list_write_def list_insert_def)

definition trim :: "LogEntry list \<Rightarrow> LogEntry list" where
  "trim es = (if length es \<ge> NB_LOGS_MAX - 1 then tl es else es)"

definition trim_cur :: "LogEntry list \<Rightarrow> nat option \<Rightarrow> nat option" where
  "trim_cur es c = (if length es \<ge> NB_LOGS_MAX - 1 then map_option (\<lambda>n. n - 1) c else c)"

lemma trim_ok: "\<forall>e \<in> set es. entry_ok e \<Longrightarrow> \<forall>e \<in> set (trim es). entry_ok e"
  by (cases es) (auto simp: trim_def)

lemma length_trim: "length es \<le> NB_LOGS_MAX - 1 \<Longrightarrow> length (trim es) < NB_LOGS_MAX - 1"
  by (auto simp: trim_def NB_LOGS_MAX_def)

lemma cur_rep_tl:
  assumes "cur_rep b (e # es) c"
  shows "log_current b > 1 \<longrightarrow> length (enc e) \<le> log_current b"
    "cur_rep (b\<lparr>log_current := if log_current b > 1 then log_current b - length (enc e)
       else log_current b\<rparr>) es (map_option (\<lambda>n. n - 1) c)"
proof -
  show "log_current b > 1 \<longrightarrow> length (enc e) \<le> log_current b"
    "cur_rep (b\<lparr>log_current := if log_current b > 1 then log_current b - length (enc e)
       else log_current b\<rparr>) es (map_option (\<lambda>n. n - 1) c)"
    using assms
    by (auto simp: cur_rep_def take_Cons split: option.splits nat.splits if_splits)
qed

lemma drop_step:
  assumes "nb_logs b \<ge> NB_LOGS_MAX - 1" "eb_read l 0 sizeof_LogBuffer = Some (h, l1)"
    "length h = sizeof_LogBuffer"
    "(if lb_op (parse_header h) = op_code LOGOP_INSERT then 0 else lb_size (parse_header h))
      + int (sizeof_LogBuffer + sizeof_int) = int n"
    "n \<le> log_new_index b" "raw_delete l1 0 n = Some l2" "log_current b > 1 \<longrightarrow> n \<le> log_current b"
  shows "drop_least_recent l b = Some (l2, b\<lparr>log_new_index := log_new_index b - n,
    log_current := if log_current b > 1 then log_current b - n else log_current b,
    nb_logs := nb_logs b - 1\<rparr>)"
proof -
  have "int n \<le> int (log_new_index b)" using assms(5) by simp
  then show ?thesis
    unfolding drop_least_recent_def
    by (simp only: assms Let_def if_True bind.bind_lunit prod.case guard_True nat_int of_nat_0_le_iff
        simp_thms option.simps assms(7) [THEN eqTrueI])
qed

lemma drop_least_recent_correct:
  assumes "buf_ok l" "contents l = log_bytes es" "log_new_index b = length (log_bytes es)"
    "nb_logs b = length es" "\<forall>e \<in> set es. entry_ok e" "cur_rep b es c"
  shows "\<exists>l' k. drop_least_recent l b =
      Some (l', b\<lparr>log_new_index := length (log_bytes (trim es)), log_current := k,
                 nb_logs := length (trim es)\<rparr>) \<and>
    buf_ok l' \<and> contents l' = log_bytes (trim es) \<and>
    cur_rep (b\<lparr>log_current := k\<rparr>) (trim es) (trim_cur es c)"
proof (cases "length es \<ge> NB_LOGS_MAX - 1")
  case False
  then have *: "drop_least_recent l b = Some (l, b)"
    "b\<lparr>log_new_index := length (log_bytes es), log_current := log_current b,
       nb_logs := length es\<rparr> = b"
    using assms(3,4) by (auto simp: drop_least_recent_def)
  show ?thesis
    using False assms * by (intro exI [of _ l] exI [of _ "log_current b"]) (simp add: trim_def trim_cur_def)
next
  case True
  then obtain e es' where es: "es = e # es'" by (cases es) (auto simp: NB_LOGS_MAX_def)
  obtain l1 where l1: "eb_read l 0 12 = Some (list_slice 0 12 (contents l), l1)" "buf_ok l1"
    "contents l1 = contents l"
    using pages.get [OF assms(1)] by blast
  have h: "list_slice 0 12 (contents l) = take 12 (enc e @ log_bytes es')"
    using assms(2) es by (simp add: list_slice_def)
  have e: "entry_ok e" using assms(5) es by simp
  have hd: "parse_header (take 12 (enc e @ log_bytes es')) = entry_header e"
    by (rule parse_take_header [OF e])
  have len: "(if lb_op (entry_header e) = op_code LOGOP_INSERT then 0 else lb_size (entry_header e))
      + int (sizeof_LogBuffer + sizeof_int) = int (length (enc e))"
    using e by (cases "le_op e")
      (auto simp: entry_header_def entry_ok_def has_data_def sizeof_LogBuffer_def sizeof_int_def)
  have "0 + length (enc e) \<le> length (contents l1)" using l1(3) assms(2) es by simp
  then obtain l2 where l2: "raw_delete l1 0 (length (enc e)) = Some l2" "buf_ok l2"
    "contents l2 = list_delete 0 (length (enc e)) (contents l1)"
    using pages.del [OF l1(2)] by blast
  note cur = cur_rep_tl [of b e es' c]
  let ?k = "if log_current b > 1 then log_current b - length (enc e) else log_current b"
  have "drop_least_recent l b =
      Some (l2, b\<lparr>log_new_index := length (log_bytes es'), log_current := ?k,
                 nb_logs := length es'\<rparr>)"
  proof -
    have "drop_least_recent l b = Some (l2, b\<lparr>log_new_index := log_new_index b - length (enc e),
        log_current := ?k, nb_logs := nb_logs b - 1\<rparr>)"
    proof (rule drop_step)
      show "eb_read l 0 sizeof_LogBuffer = Some (take 12 (enc e @ log_bytes es'), l1)"
        using l1(1) h by (simp add: sizeof_LogBuffer_def)
      show "(if lb_op (parse_header (take 12 (enc e @ log_bytes es'))) = op_code LOGOP_INSERT then 0
          else lb_size (parse_header (take 12 (enc e @ log_bytes es'))))
        + int (sizeof_LogBuffer + sizeof_int) = int (length (enc e))"
        unfolding hd by (rule len)
      show "log_current b > 1 \<longrightarrow> length (enc e) \<le> log_current b"
        using cur(1) assms(6) es by simp
    qed (use True assms(3,4) es l2(1) in \<open>simp_all add: sizeof_LogBuffer_def\<close>)
    then show ?thesis using assms(3,4) es by simp
  qed
  moreover have "contents l2 = log_bytes es'"
    using l2(3) l1(3) assms(2) es by (simp add: list_delete_def)
  ultimately show ?thesis
    using True es cur(2) assms(6) l2(2)
    by (intro exI [of _ l2] exI [of _ ?k]) (simp add: trim_def trim_cur_def)
qed

section \<open>The abstract buffer\<close>

record AbsBuf =
  a_text :: "u8 list"
  a_tracked :: "tracker \<Rightarrow> int"
  a_callbacks :: "tracker list"
  a_modified :: bool
  a_save :: bool
  a_log :: "LogEntry list"
  a_cur :: "nat option"

definition a_addlog :: "AbsBuf \<Rightarrow> LogOperation \<Rightarrow> nat \<Rightarrow> nat \<Rightarrow> AbsBuf" where
  "a_addlog a op off sz =
    (let e = \<lparr>le_op = op, le_mod = a_modified a, le_off = off, le_size = sz,
              le_data = if has_data op then list_slice off sz (a_text a) else []\<rparr>;
         a = a\<lparr>a_tracked := call_callbacks (a_callbacks a) (a_tracked a) op (int off) (int sz),
               a_modified := True\<rparr>
     in if a_save a
        then a\<lparr>a_log := trim (a_log a) @ [e], a_cur := trim_cur (a_log a) (a_cur a)\<rparr>
        else a)"

lemma a_addlog_text [simp]: "a_text (a_addlog a op off sz) = a_text a"
  and a_addlog_save [simp]: "a_save (a_addlog a op off sz) = a_save a"
  and a_addlog_callbacks [simp]: "a_callbacks (a_addlog a op off sz) = a_callbacks a"
  and a_addlog_modified [simp]: "a_modified (a_addlog a op off sz)"
  by (simp_all add: a_addlog_def Let_def)

text \<open>
  The concrete buffer represents the abstract one. \<open>refines_doc\<close> leaves the size open:
  \<open>eb_delete\<close> logs after it has reduced the size and before it cuts the pages.
\<close>

definition refines_doc :: "EditBuffer \<Rightarrow> AbsBuf \<Rightarrow> bool" where
  "refines_doc b a \<longleftrightarrow> pages_ok (page_table b) \<and> cache_ok b \<and> contents b = a_text a \<and>
     tracked b = a_tracked a \<and> callbacks b = a_callbacks a \<and> modified b = a_modified a \<and>
     save_log b = a_save a \<and> log_rep b (a_log a) \<and> cur_rep b (a_log a) (a_cur a) \<and>
     (log_buffer b = None \<longrightarrow> a_cur a = None)"

definition refines :: "EditBuffer \<Rightarrow> AbsBuf \<Rightarrow> bool" where
  "refines b a \<longleftrightarrow> refines_doc b a \<and> total_size b = length (contents b)"

lemma refinesD:
  assumes "refines b a"
  shows "refines_doc b a" "buf_ok b" "total_size b = length (a_text a)" "contents b = a_text a"
  using assms by (auto simp: refines_def refines_doc_def buf_ok_def)

lemma refines_docD:
  assumes "refines_doc b a"
  shows "pages_ok (page_table b)" "cache_ok b" "contents b = a_text a" "tracked b = a_tracked a"
    "callbacks b = a_callbacks a" "modified b = a_modified a" "save_log b = a_save a"
    "log_rep b (a_log a)" "cur_rep b (a_log a) (a_cur a)" "log_buffer b = None \<Longrightarrow> a_cur a = None"
  using assms by (auto simp: refines_doc_def)

text \<open>The data of an entry is appended to the log.\<close>

lemma log_data_correct:
  assumes "pages_ok (page_table b)" "cache_ok b" "buf_ok l" "log_new_index b = length (contents l)"
    "has_data op \<longrightarrow> off + sz \<le> length (contents b)"
  shows "\<exists>l' b'. log_data l b op off sz = Some (l', b', if has_data op then sz else 0) \<and>
    buf_ok l' \<and>
    contents l' = contents l @ (if has_data op then list_slice off sz (contents b) else []) \<and>
    cache_ok b' \<and> page_table b' = page_table b \<and> total_size b' = total_size b \<and>
    PageBuf.more b' = PageBuf.more
      (b\<lparr>log_new_index := log_new_index b + (if has_data op then sz else 0)\<rparr>)"
proof (cases "has_data op \<and> sz \<noteq> 0")
  case False
  have [simp]: "b\<lparr>log_new_index := length (contents l)\<rparr> = b"
    unfolding assms(4) [symmetric] by simp
  from False assms show ?thesis
    by (cases "has_data op")
      (auto simp: log_data_def has_data_def list_slice_def)
next
  case True
  have len: "log_new_index b \<le> length (contents l)" "0 < sz" "off + sz \<le> length (contents b)"
    using assms(4,5) True by simp_all
  obtain l' b' where i: "insert_pages l (log_new_index b) b off sz = Some (l', b')" "buf_ok l'"
    "contents l' = list_insert (log_new_index b) (list_slice off sz (contents b)) (contents l)"
    "cache_ok b'" "same_text b b'"
    using insert_pages_correct [OF assms(3,1,2) len] by blast
  from i(5) have more: "PageBuf.more b' = PageBuf.more b" and
    pt: "page_table b' = page_table b" "total_size b' = total_size b"
    by (simp_all add: same_text_def)
  have idx: "log_new_index b' = log_new_index b" by (rule more_eqD(5) [OF more])
  have "log_data l b op off sz = Some (l', b'\<lparr>log_new_index := log_new_index b' + sz\<rparr>, sz)"
    using True i(1) by (auto simp: log_data_def has_data_def)
  moreover have "contents l' = contents l @ list_slice off sz (contents b)"
    using i(3) assms(4) by simp
  moreover have "cache_ok (b'\<lparr>log_new_index := log_new_index b' + sz\<rparr>)"
    using i(4) by (simp add: cache_ok_def split: option.splits)
  moreover have "PageBuf.more (b'\<lparr>log_new_index := log_new_index b' + sz\<rparr>) =
    PageBuf.more (b\<lparr>log_new_index := log_new_index b + sz\<rparr>)"
    using more idx by (cases b; cases b'; simp)
  ultimately show ?thesis using True i(2) pt by simp
qed

lemma enc_entry:
  "log_header \<lparr>lb_op = op_code (le_op e), lb_was_modified = le_mod e, lb_offset = int (le_off e),
     lb_size = int (le_size e)\<rparr> @ le_data e @ int_bytes (int (length (le_data e))) = enc e"
  by (simp add: enc_def entry_header_def)

lemma log_append:
  assumes "buf_ok l" "n = length (contents l)"
  shows "\<exists>l'. raw_write l n bs = Some l' \<and> buf_ok l' \<and> contents l' = contents l @ bs"
  using raw_write_correct [OF assms(1) order_eq_refl [OF assms(2)], of bs] assms(2) by auto

lemma eb_addlog_logged:
  assumes ref: "refines_doc b a" and save: "save_log b" and op: "op \<noteq> LOGOP_FREE"
    and bounds: "off < 2147483648" "sz < 2147483648"
    and range: "has_data op \<longrightarrow> off + sz \<le> length (a_text a)"
  shows "\<exists>b'. eb_addlog b op off sz = Some b' \<and> refines_doc b' (a_addlog a op off sz) \<and> doc_eq b b'"
proof -
  note r = refines_docD [OF ref]
  define es where "es = a_log a"
  define e where "e = \<lparr>le_op = op, le_mod = a_modified a, le_off = off, le_size = sz,
      le_data = if has_data op then list_slice off sz (a_text a) else []\<rparr>"
  define b1 where "b1 = b\<lparr>tracked := call_callbacks (callbacks b) (tracked b) op (int off) (int sz),
      modified := True\<rparr>"
  define l where "l = (case log_buffer b of None \<Rightarrow> empty_pages | Some l \<Rightarrow> l)"
  have es: "log_new_index b = length (log_bytes es)" "nb_logs b = length es"
    "length es \<le> NB_LOGS_MAX - 1" "\<forall>e \<in> set es. entry_ok e"
    using r(8) by (simp_all add: log_rep_def es_def)
  have l: "buf_ok l" "contents l = log_bytes es"
    using r(8) by (auto simp: log_rep_def l_def es_def split: option.splits)
  have e_ok: "entry_ok e" "length (le_data e) = (if has_data op then sz else 0)"
    using op bounds range by (auto simp: entry_ok_def e_def)
  have b1: "log_new_index b1 = length (log_bytes es)" "nb_logs b1 = length es"
    "cur_rep b1 es (a_cur a)"
    using es r(9) by (simp_all add: b1_def cur_rep_def es_def split: option.splits)
  obtain l1 k where d: "drop_least_recent l b1 = Some (l1, b1\<lparr>log_new_index := length (log_bytes (trim es)),
        log_current := k, nb_logs := length (trim es)\<rparr>)" "buf_ok l1" "contents l1 = log_bytes (trim es)"
    "cur_rep (b1\<lparr>log_current := k\<rparr>) (trim es) (trim_cur es (a_cur a))"
    using drop_least_recent_correct [OF l b1(1,2) es(4) b1(3)] by blast
  let ?hd = "log_header (entry_header e)"
  define b2 where "b2 = b1\<lparr>log_current := k, nb_logs := length (trim es),
      log_new_index := length (contents l1) + 12\<rparr>"
  obtain l2 where l2: "raw_write l1 (length (contents l1)) ?hd = Some l2" "buf_ok l2"
    "contents l2 = contents l1 @ ?hd"
    using log_append [OF d(2) refl] by blast
  have b2: "pages_ok (page_table b2)" "cache_ok b2" "log_new_index b2 = length (contents l2)"
    "contents b2 = a_text a" "page_table b2 = page_table b" "total_size b2 = total_size b"
    using r(1-3) l2(3)
    by (simp_all add: b2_def b1_def contents_def cache_ok_def split: option.splits)
  have "has_data op \<longrightarrow> off + sz \<le> length (contents b2)" using range b2(4) by simp
  then obtain l3 b3 where l3: "log_data l2 b2 op off sz = Some (l3, b3, length (le_data e))" "buf_ok l3"
    "contents l3 = contents l2 @ le_data e" "cache_ok b3" "page_table b3 = page_table b2"
    "total_size b3 = total_size b2"
    "PageBuf.more b3 = PageBuf.more (b2\<lparr>log_new_index := length (contents l2) + length (le_data e)\<rparr>)"
    using log_data_correct [OF b2(1,2) l2(2) b2(3), of op off sz] b2(3,4) e_ok(2)
    by (auto simp: e_def)
  note m = more_eqD [OF l3(7)]
  have idx: "log_new_index b3 = length (contents l3)" using m(5) l3(3) by simp
  obtain l4 where l4: "raw_write l3 (length (contents l3)) (int_bytes (int (length (le_data e)))) = Some l4"
    "buf_ok l4" "contents l4 = contents l3 @ int_bytes (int (length (le_data e)))"
    using log_append [OF l3(2) refl] by blast
  let ?b = "b3\<lparr>log_new_index := length (contents l3) + 4, log_buffer := Some l4,
      nb_logs := nb_logs b3 + 1\<rparr>"
  have run: "eb_addlog b op off sz = Some ?b"
  proof -
    have hd: "\<lparr>lb_op = op_code op, lb_was_modified = modified b, lb_offset = int off,
        lb_size = int sz\<rparr> = entry_header e"
      using r(6) by (simp add: entry_header_def e_def)
    have b1': "b1\<lparr>log_new_index := length (log_bytes (trim es)), log_current := k,
        nb_logs := length (trim es)\<rparr>\<lparr>log_new_index := length (contents l1) + 12\<rparr> = b2"
      by (simp add: b2_def)
    have "eb_addlog b op off sz = do {
       (lbuf, b) \<leftarrow> drop_least_recent l b1;
       lbuf \<leftarrow> raw_write lbuf (log_new_index b) ?hd;
       let b = b\<lparr>log_new_index := log_new_index b + sizeof_LogBuffer\<rparr>;
       (lbuf, b, size_trailer) \<leftarrow> log_data lbuf b op off sz;
       lbuf \<leftarrow> raw_write lbuf (log_new_index b) (int_bytes (int size_trailer));
       let b = b\<lparr>log_new_index := log_new_index b + sizeof_int\<rparr>;
       Some (b\<lparr>log_buffer := Some lbuf, nb_logs := nb_logs b + 1\<rparr>) }"
      using save by (simp add: eb_addlog_def Let_def hd l_def b1_def)
    then show ?thesis
      using d(1) d(3) l2(1) l3(1) l4(1) idx b1'
      by (simp add: Let_def sizeof_LogBuffer_def sizeof_int_def)
  qed
  have "contents l4 = log_bytes (trim es @ [e])"
    using l4(3) l3(3) l2(3) d(3) by (simp add: enc_def)
  moreover have "length (log_bytes (trim es @ [e])) = length (contents l3) + 4"
    using l3(3) l2(3) d(3) by simp
  moreover have "length (trim es) < NB_LOGS_MAX - 1" by (rule length_trim [OF es(3)])
  ultimately have log: "log_rep ?b (trim es @ [e])"
    using l4(2) trim_ok [OF es(4)] e_ok(1) m(8) by (simp add: log_rep_def b2_def)
  have cur: "cur_rep ?b (trim es @ [e]) (trim_cur es (a_cur a))"
    using d(4) m(6) by (auto simp: cur_rep_def b2_def split: option.splits)
  have text_b: "contents ?b = a_text a" "cache_ok ?b" "pages_ok (page_table ?b)"
    using l3(4,5) b2(1,4) by (simp_all add: contents_def cache_ok_def split: option.splits)
  have rest: "tracked ?b = call_callbacks (a_callbacks a) (a_tracked a) op (int off) (int sz)"
    "callbacks ?b = a_callbacks a" "modified ?b" "save_log ?b = a_save a" "a_save a"
    using m r save by (simp_all add: b2_def b1_def)
  have "a_addlog a op off sz = a\<lparr>a_tracked := call_callbacks (a_callbacks a) (a_tracked a) op (int off) (int sz),
      a_modified := True, a_log := trim es @ [e], a_cur := trim_cur es (a_cur a)\<rparr>"
    using rest(5) by (simp add: a_addlog_def Let_def e_def es_def)
  then have "refines_doc ?b (a_addlog a op off sz)"
    unfolding refines_doc_def using text_b rest log cur by simp
  moreover have "doc_eq b ?b"
    using l3(5,6) b2(5,6) m by (simp add: doc_eq_def b2_def b1_def)
  ultimately show ?thesis using run by blast
qed

lemma eb_addlog_correct:
  assumes "refines_doc b a" "op \<noteq> LOGOP_FREE" "off < 2147483648" "sz < 2147483648"
    "has_data op \<longrightarrow> off + sz \<le> length (a_text a)"
  shows "\<exists>b'. eb_addlog b op off sz = Some b' \<and> refines_doc b' (a_addlog a op off sz) \<and> doc_eq b b'"
proof (cases "save_log b")
  case True
  with assms show ?thesis by (intro eb_addlog_logged)
next
  case False
  with assms(1) show ?thesis
    by (auto simp: eb_addlog_def a_addlog_def Let_def refines_doc_def doc_eq_def contents_def
        cache_ok_def log_rep_def cur_rep_def split: option.splits)
qed

section \<open>The editing operations refine list editing with a log\<close>

definition a_insert :: "AbsBuf \<Rightarrow> nat \<Rightarrow> u8 list \<Rightarrow> AbsBuf" where
  "a_insert a off bs =
     (a_addlog a LOGOP_INSERT off (length bs))\<lparr>a_text := list_insert off bs (a_text a)\<rparr>"

definition a_delete :: "AbsBuf \<Rightarrow> nat \<Rightarrow> nat \<Rightarrow> AbsBuf" where
  "a_delete a off n = (if off \<ge> length (a_text a) then a
     else (a_addlog a LOGOP_DELETE off n)\<lparr>a_text := list_delete off n (a_text a)\<rparr>)"

definition a_write :: "AbsBuf \<Rightarrow> nat \<Rightarrow> u8 list \<Rightarrow> AbsBuf" where
  "a_write a off bs =
    (let len = min (length bs) (length (a_text a) - off);
         a = (if len = 0 then a
              else (a_addlog a LOGOP_WRITE off len)\<lparr>a_text := list_write off (take len bs) (a_text a)\<rparr>)
     in if length bs - len > 0 then a_insert a (off + len) (drop len bs) else a)"

lemma a_ops_save [simp]: "a_save (a_insert a off bs) = a_save a"
    "a_save (a_delete a off n) = a_save a" "a_save (a_write a off bs) = a_save a"
  by (simp_all add: a_insert_def a_delete_def a_write_def Let_def)

lemma a_insert_text [simp]: "a_text (a_insert a off bs) = list_insert off bs (a_text a)"
  by (simp add: a_insert_def)

lemma a_delete_text [simp]:
  "off + n \<le> length (a_text a) \<Longrightarrow> a_text (a_delete a off n) = list_delete off n (a_text a)"
  by (auto simp: a_delete_def list_delete_def)

lemma a_write_text [simp]:
  "off \<le> length (a_text a) \<Longrightarrow> a_text (a_write a off bs) = list_write off bs (a_text a)"
proof -
  assume "off \<le> length (a_text a)"
  moreover have "n = 0 \<or> 0 < n" for n :: nat by auto
  ultimately show ?thesis
    by (cases "length bs \<le> length (a_text a) - off")
      (auto simp: a_write_def Let_def list_write_def list_insert_def min_def)
qed

lemma pages_ok_more [simp]:
  "pages_ok (page_table (b\<lparr>cur_page := None\<rparr>)) = pages_ok (page_table b)"
  "contents (b\<lparr>cur_page := None\<rparr>) = contents b"
  "cache_ok (b\<lparr>cur_page := None\<rparr>)"
  by (simp_all add: contents_def cache_ok_def)

lemma total_size_update [simp]:
  "contents (b\<lparr>total_size := n\<rparr>) = contents b" "cache_ok (b\<lparr>total_size := n\<rparr>) = cache_ok b"
  "log_rep (b\<lparr>total_size := n\<rparr>) es = log_rep b es" "cur_rep (b\<lparr>total_size := n\<rparr>) es c = cur_rep b es c"
  by (simp_all add: contents_def cache_ok_def log_rep_def cur_rep_def split: option.split)

lemma refines_textI:
  assumes "refines_doc b a" "buf_ok b'" "contents b' = t" "PageBuf.more b' = PageBuf.more b"
  shows "refines b' (a\<lparr>a_text := t\<rparr>)"
proof -
  note m = more_eqD [OF assms(4)]
  have "log_rep b' (a_log a) = log_rep b (a_log a)"
    "cur_rep b' (a_log a) (a_cur a) = cur_rep b (a_log a) (a_cur a)"
    unfolding log_rep_def cur_rep_def m(5-8) by (rule refl)+
  with assms m show ?thesis
    by (simp add: refines_def refines_doc_def buf_ok_def)
qed

lemma refines_logI:
  "refines_doc b' a' \<Longrightarrow> doc_eq b b' \<Longrightarrow> refines b a \<Longrightarrow> a_text a' = a_text a \<Longrightarrow> refines b' a'"
  by (simp add: refines_def refines_doc_def doc_eq_def)

lemma eb_insert_refines:
  assumes "refines b a" "off \<le> length (a_text a)" "length (a_text a) + length bs < 2147483648"
  shows "\<exists>b'. eb_insert b off bs = Some b' \<and> refines b' (a_insert a off bs)"
proof -
  note r = refinesD [OF assms(1)]
  have *: "off < 2147483648" "length bs < 2147483648" using assms by simp_all
  obtain b1 where b1: "eb_addlog b LOGOP_INSERT off (length bs) = Some b1"
    "refines_doc b1 (a_addlog a LOGOP_INSERT off (length bs))" "doc_eq b b1"
    using eb_addlog_correct [OF r(1) _ *] by (auto simp: has_data_def)
  have ref1: "refines b1 (a_addlog a LOGOP_INSERT off (length bs))"
    by (rule refines_logI [OF b1(2,3) assms(1)]) simp
  note r1 = refinesD [OF ref1]
  obtain b2 where b2: "raw_insert b1 off bs = Some b2" "buf_ok b2"
    "contents b2 = list_insert off bs (contents b1)" "PageBuf.more b2 = PageBuf.more b1"
    using raw_insert_correct [OF r1(2), of off bs] r1(4) assms(2) by auto
  have "eb_insert b off bs = Some b2"
    using b1(1) b2(1) by (simp add: eb_insert_def raw_insert_def)
  moreover have "refines b2 (a_insert a off bs)"
    unfolding a_insert_def using refines_textI [OF b1(2) b2(2,3,4)] r1(4) by simp
  ultimately show ?thesis by blast
qed

lemma eb_delete_refines:
  assumes "refines b a" "off + n \<le> length (a_text a)" "length (a_text a) < 2147483648"
  shows "\<exists>b'. eb_delete b off n = Some b' \<and> refines b' (a_delete a off n)"
proof (cases "off \<ge> length (a_text a)")
  case True
  with assms(1) refinesD(3) [OF assms(1)] show ?thesis by (simp add: eb_delete_def a_delete_def)
next
  case False
  note r = refinesD [OF assms(1)]
  let ?b = "b\<lparr>total_size := total_size b - n\<rparr>"
  have ref: "refines_doc ?b a"
    using r(1) by (simp add: refines_doc_def)
  have *: "off < 2147483648" "n < 2147483648" using assms by simp_all
  obtain b1 where b1: "eb_addlog ?b LOGOP_DELETE off n = Some b1"
    "refines_doc b1 (a_addlog a LOGOP_DELETE off n)" "doc_eq ?b b1"
    using eb_addlog_correct [OF ref _ * impI [OF assms(2)], of LOGOP_DELETE] by auto
  note r1 = refines_docD [OF b1(2)]
  have c1: "contents b1 = a_text a" using r1(3) by simp
  have "off < length (contents b1)" "off + n \<le> length (contents b1)" using False assms(2) c1 by simp_all
  then obtain b2 where b2: "delete_pages b1 off n = Some b2" "pages_ok (page_table b2)"
    "contents b2 = list_delete off n (contents b1)" "cur_page b2 = None"
    "total_size b2 = total_size b1" "PageBuf.more b2 = PageBuf.more b1"
    using delete_pages_correct [of b1 off n] r1(1,2) by blast
  have "total_size b1 = length (a_text a) - n"
    using b1(3) r(3) by (simp add: doc_eq_def)
  then have "buf_ok b2" using b2 c1 assms(2) by (simp add: buf_ok_def cache_ok_def)
  moreover have "eb_delete b off n = Some b2"
    using False r(3) assms(2) b1(1) b2(1) by (simp add: eb_delete_def Let_def)
  ultimately show ?thesis
    using refines_textI [OF b1(2) _ b2(3,6)] c1 False by (simp add: a_delete_def)
qed

lemma eb_rw_write_refines:
  assumes "refines b a" "length (a_text a) < 2147483648" "len = min (length bs) (length (a_text a) - off)"
    "off \<le> length (a_text a)"
  shows "\<exists>b'. eb_rw_write b off bs = Some (len, b') \<and>
    refines b' (if len = 0 then a
      else (a_addlog a LOGOP_WRITE off len)\<lparr>a_text := list_write off (take len bs) (a_text a)\<rparr>)"
proof -
  note r = refinesD [OF assms(1)]
  have len: "rw_size b off (length bs) = len"
    using r(3) assms(3,4) by (auto simp: rw_size_def)
  show ?thesis
  proof (cases "len = 0")
    case True
    with len assms(1) show ?thesis by (simp add: eb_rw_write_def)
  next
    case False
    have *: "off < 2147483648" "len < 2147483648" "off + len \<le> length (a_text a)"
      using assms by simp_all
    obtain b1 where b1: "eb_addlog b LOGOP_WRITE off len = Some b1"
      "refines_doc b1 (a_addlog a LOGOP_WRITE off len)" "doc_eq b b1"
      using eb_addlog_correct [OF r(1) _ *(1,2) impI [OF *(3)], of LOGOP_WRITE] by auto
    have ref1: "refines b1 (a_addlog a LOGOP_WRITE off len)"
      by (rule refines_logI [OF b1(2,3) assms(1)]) simp
    note r1 = refinesD [OF ref1]
    have "take len bs \<noteq> []" "off + length (take len bs) \<le> length (contents b1)"
      using False assms(3) *(3) r1(4) by auto
    then obtain b2 where b2: "rw_store b1 off (take len bs) = Some b2" "buf_ok b2"
      "contents b2 = list_write off (take len bs) (contents b1)" "PageBuf.more b2 = PageBuf.more b1"
      using rw_store_correct [OF r1(2)] by blast
    have "eb_rw_write b off bs = Some (len, b2)"
      using False b1(1) b2(1) by (simp add: eb_rw_write_def Let_def len)
    then show ?thesis
      using refines_textI [OF b1(2) b2(2,3,4)] r1(4) False by simp
  qed
qed

lemma eb_write_refines:
  assumes "refines b a" "off \<le> length (a_text a)" "length (a_text a) + length bs < 2147483648"
  shows "\<exists>b'. eb_write b off bs = Some b' \<and> refines b' (a_write a off bs)"
proof -
  define len where "len = min (length bs) (length (a_text a) - off)"
  define a1 where "a1 = (if len = 0 then a
    else (a_addlog a LOGOP_WRITE off len)\<lparr>a_text := list_write off (take len bs) (a_text a)\<rparr>)"
  have "length (a_text a) < 2147483648" using assms(3) by simp
  then obtain b1 where b1: "eb_rw_write b off bs = Some (len, b1)" "refines b1 a1"
    using eb_rw_write_refines [OF assms(1) _ len_def assms(2)] by (auto simp: a1_def)
  have a: "a_write a off bs =
      (if length bs - len > 0 then a_insert a1 (off + len) (drop len bs) else a1)"
    unfolding a_write_def Let_def len_def [symmetric] a1_def by (rule refl)
  have len1: "length (a_text a1) = length (a_text a)"
    using assms(2) by (auto simp: a1_def len_def)
  show ?thesis
  proof (cases "length bs - len > 0")
    case False
    with a b1 show ?thesis by (simp add: eb_write_def)
  next
    case True
    have "off + len \<le> length (a_text a1)" "length (a_text a1) + length (drop len bs) < 2147483648"
      using len1 assms(2,3) by (simp_all add: len_def)
    then obtain b2 where "eb_insert b1 (off + len) (drop len bs) = Some b2"
      "refines b2 (a_insert a1 (off + len) (drop len bs))"
      using eb_insert_refines [OF b1(2)] by blast
    with True a b1(1) show ?thesis by (simp add: eb_write_def)
  qed
qed

lemma eb_insert_buffer_refines:
  assumes "refines b a" "off \<le> length (a_text a)" "length (a_text a) + n < 2147483648"
    "pages_ok (page_table src)" "cache_ok src" "soff + n \<le> length (contents src)"
  shows "\<exists>b' src'. eb_insert_buffer b off src soff n = Some (b', src') \<and>
    refines b' (if n = 0 then a else a_insert a off (list_slice soff n (contents src))) \<and>
    cache_ok src' \<and> same_text src src'"
proof (cases "n = 0")
  case True
  with assms(1,5) show ?thesis by (simp add: eb_insert_buffer_def same_text_def)
next
  case False
  note r = refinesD [OF assms(1)]
  let ?bs = "list_slice soff n (contents src)"
  have *: "off < 2147483648" "n < 2147483648" using assms False by simp_all
  obtain b1 where b1: "eb_addlog b LOGOP_INSERT off n = Some b1"
    "refines_doc b1 (a_addlog a LOGOP_INSERT off n)" "doc_eq b b1"
    using eb_addlog_correct [OF r(1) _ *] by (auto simp: has_data_def)
  have ref1: "refines b1 (a_addlog a LOGOP_INSERT off n)"
    by (rule refines_logI [OF b1(2,3) assms(1)]) simp
  note r1 = refinesD [OF ref1]
  have "off \<le> length (contents b1)" "0 < n" using r1(4) assms(2) False by simp_all
  then obtain b2 s2 where b2: "insert_pages b1 off src soff n = Some (b2, s2)" "buf_ok b2"
    "contents b2 = list_insert off ?bs (contents b1)" "PageBuf.more b2 = PageBuf.more b1"
    "cache_ok s2" "same_text src s2"
    using insert_pages_correct [OF r1(2) assms(4,5) _ _ assms(6)] by blast
  have "eb_insert_buffer b off src soff n = Some (b2, s2)"
    using False b1(1) b2(1) by (simp add: eb_insert_buffer_def)
  moreover have "refines b2 (a_insert a off ?bs)"
    using refines_textI [OF b1(2) b2(2,3,4)] r1(4) assms(6) by (simp add: a_insert_def)
  ultimately show ?thesis using False b2(5,6) by simp
qed

end
