(* ===== verification/Undo.thy ===== *)
theory Undo
  imports Undo_Log
begin

text \<open>
  Undo. \<open>do_undo\<close> refines an abstract undo that moves a cursor over the list of log entries
  and plays the entry before it. On the abstract side: the invariant of the log under every
  interleaving of edits and undos, which makes every undo memory safe; the theorem that as
  many undos as edits restore the text; and the two cases where undo does not do its job.
\<close>

section \<open>Playing an entry\<close>

definition a_play :: "AbsBuf \<Rightarrow> tracker \<Rightarrow> LogEntry \<Rightarrow> AbsBuf" where
  "a_play a s e =
    (let off = le_off e; n = le_size e;
         a' = (case le_op e of
             LOGOP_WRITE \<Rightarrow>
               let a1 = a_delete (a\<lparr>a_save := False\<rparr>) off n;
                   a1 = (if n = 0 then a1 else a_insert a1 off (le_data e));
                   a1 = a_addlog (a1\<lparr>a_save := a_save a\<rparr>) LOGOP_WRITE off n
               in a1\<lparr>a_tracked := (a_tracked a1)(s := int off + int n)\<rparr>
           | LOGOP_DELETE \<Rightarrow>
               let a1 = a\<lparr>a_save := False\<rparr>;
                   a1 = (if n = 0 then a1 else a_insert a1 off (le_data e));
                   a1 = a_addlog (a1\<lparr>a_save := a_save a\<rparr>) LOGOP_INSERT off n
               in a1\<lparr>a_tracked := (a_tracked a1)(s := int off + int n)\<rparr>
           | LOGOP_INSERT \<Rightarrow>
               let a1 = a_delete a off n in a1\<lparr>a_tracked := (a_tracked a1)(s := int off)\<rparr>
           | LOGOP_FREE \<Rightarrow> a)
     in a'\<lparr>a_modified := le_mod e\<rparr>)"

definition a_undo :: "AbsBuf \<Rightarrow> bool \<Rightarrow> tracker \<Rightarrow> AbsBuf" where
  "a_undo a again s =
    (let c = (if again then a_cur a else None);
         n = (case c of None \<Rightarrow> length (a_log a) | Some n \<Rightarrow> n);
         a = a\<lparr>a_cur := c\<rparr>
     in if n = 0 then a else a_play (a\<lparr>a_cur := Some (n - 1)\<rparr>) s (a_log a ! (n - 1)))"

text \<open>An entry can be played on a text of length \<open>L\<close>, and the length that results.\<close>

fun playable :: "LogEntry \<Rightarrow> nat \<Rightarrow> bool" where
  "playable e L = (case le_op e of
     LOGOP_FREE \<Rightarrow> False
   | LOGOP_DELETE \<Rightarrow> le_off e \<le> L \<and> L + le_size e < 2147483648
   | _ \<Rightarrow> le_off e + le_size e \<le> L)"

lemma refines_save [simp]:
  "refines (b\<lparr>save_log := v\<rparr>) (a\<lparr>a_save := v\<rparr>) \<longleftrightarrow> refines b (a\<lparr>a_save := save_log b\<rparr>)"
  by (auto simp: refines_def refines_doc_def contents_def cache_ok_def log_rep_def cur_rep_def
      split: option.splits)

lemma refines_tracked:
  "refines b a \<Longrightarrow> refines (b\<lparr>tracked := (tracked b)(s := k)\<rparr>) (a\<lparr>a_tracked := (a_tracked a)(s := k)\<rparr>)"
  by (auto simp: refines_def refines_doc_def contents_def cache_ok_def log_rep_def cur_rep_def
      split: option.splits)

lemma refines_modified: "refines b a \<Longrightarrow> refines (b\<lparr>modified := v\<rparr>) (a\<lparr>a_modified := v\<rparr>)"
  by (auto simp: refines_def refines_doc_def contents_def cache_ok_def log_rep_def cur_rep_def
      split: option.splits)

lemma refines_log_buffer:
  "refines b a \<Longrightarrow> buf_ok l \<Longrightarrow> contents l = log_bytes (a_log a) \<Longrightarrow> refines (b\<lparr>log_buffer := Some l\<rparr>) a"
  by (auto simp: refines_def refines_doc_def contents_def cache_ok_def log_rep_def cur_rep_def
      split: option.splits)

lemma refines_current:
  assumes "refines b a" "n \<le> length (a_log a)" "log_buffer b \<noteq> None"
  shows "refines (b\<lparr>log_current := length (log_bytes (take n (a_log a))) + 1\<rparr>) (a\<lparr>a_cur := Some n\<rparr>)"
  using assms by (auto simp: refines_def refines_doc_def contents_def cache_ok_def log_rep_def cur_rep_def
      split: option.splits)

lemma refines_reset: "refines b a \<Longrightarrow> refines (b\<lparr>log_current := 0\<rparr>) (a\<lparr>a_cur := None\<rparr>)"
  by (auto simp: refines_def refines_doc_def contents_def cache_ok_def log_rep_def cur_rep_def
      split: option.splits)

lemma refines_logD:
  assumes "refines b a" "log_buffer b = Some l"
  shows "buf_ok l" "contents l = log_bytes (a_log a)"
  using assms by (auto simp: refines_def refines_doc_def log_rep_def)

lemma refines_log_nonempty: "refines b a \<Longrightarrow> a_log a \<noteq> [] \<Longrightarrow> log_buffer b \<noteq> None"
  by (auto simp: refines_def refines_doc_def log_rep_def split: option.splits)

lemma log_read_correct:
  assumes "refines b a" "a_log a \<noteq> []" "i + n \<le> length (log_bytes (a_log a))"
  shows "\<exists>b'. log_read b (int i) n = Some (list_slice i n (log_bytes (a_log a)), b') \<and>
    refines b' a"
proof -
  obtain l where l: "log_buffer b = Some l"
    using refines_log_nonempty [OF assms(1,2)] by auto
  note rl = refines_logD [OF assms(1) l]
  obtain l' where l': "eb_read l i n = Some (list_slice i n (contents l), l')" "buf_ok l'"
    "contents l' = contents l"
    using pages.get [OF rl(1)] by blast
  have "length (list_slice i n (contents l)) = n" using assms(3) rl(2) by simp
  then have "log_read b (int i) n = Some (list_slice i n (contents l), b\<lparr>log_buffer := Some l'\<rparr>)"
    using l l'(1) by (simp add: log_read_def)
  moreover have "refines (b\<lparr>log_buffer := Some l'\<rparr>) a"
    using refines_log_buffer [OF assms(1) l'(2)] l'(3) rl(2) by simp
  ultimately show ?thesis using rl(2) by simp
qed

lemma insert_from_log_refines:
  assumes "refines b a" "\<not> a_save a" "a_log a \<noteq> []" "off \<le> length (a_text a)"
    "length (a_text a) + n < 2147483648" "idx + n \<le> length (log_bytes (a_log a))"
    "list_slice idx n (log_bytes (a_log a)) = data"
  shows "\<exists>b'. insert_from_log b off idx n = Some b' \<and>
    refines b' (if n = 0 then a else a_insert a off data)"
proof -
  obtain l where l: "log_buffer b = Some l"
    using refines_log_nonempty [OF assms(1,3)] by auto
  note rl = refines_logD [OF assms(1) l]
  have ok: "pages_ok (page_table l)" "cache_ok l" "idx + n \<le> length (contents l)"
    using rl assms(6) by (simp_all add: buf_ok_def)
  obtain b' l' where b': "eb_insert_buffer b off l idx n = Some (b', l')"
    "refines b' (if n = 0 then a else a_insert a off data)"
    "cache_ok l'" "same_text l l'"
    using eb_insert_buffer_refines [OF assms(1,4,5) ok] unfolding rl(2) assms(7) by blast
  have "buf_ok l'" "contents l' = log_bytes (a_log a)"
    using rl b'(3,4) by (simp_all add: buf_ok_def same_text_def contents_def)
  moreover have "a_log (if n = 0 then a else a_insert a off data) = a_log a"
    using assms(2) by (simp add: a_insert_def a_addlog_def Let_def)
  ultimately have "refines (b'\<lparr>log_buffer := Some l'\<rparr>) (if n = 0 then a else a_insert a off data)"
    by (intro refines_log_buffer [OF b'(2)]) simp_all
  then show ?thesis using l b'(1) by (simp add: insert_from_log_def)
qed

lemma eb_addlog_refines:
  assumes "refines b a" "op \<noteq> LOGOP_FREE" "off < 2147483648" "sz < 2147483648"
    "has_data op \<longrightarrow> off + sz \<le> length (a_text a)"
  shows "\<exists>b'. eb_addlog b op off sz = Some b' \<and> refines b' (a_addlog a op off sz)"
  using eb_addlog_correct [OF refinesD(1) [OF assms(1)] assms(2-5)] refines_logI [OF _ _ assms(1)]
  by (metis a_addlog_text)

text \<open>The entry at the cursor, found in the bytes of the log from its trailer.\<close>

lemma slice_entry:
  assumes "n \<le> length es" "0 < n" "e = es ! (n - 1)" "i = length (log_bytes (take (n - 1) es))"
  shows "length (log_bytes (take n es)) = i + 16 + length (le_data e)"
    "length (log_bytes es) \<ge> i + 16 + length (le_data e)"
    "list_slice (i + 12 + length (le_data e)) 4 (log_bytes es) = int_bytes (int (length (le_data e)))"
    "list_slice i 12 (log_bytes es) = log_header (entry_header e)"
    "list_slice (i + 12) (length (le_data e)) (log_bytes es) = le_data e"
proof -
  have es: "es = take (n - 1) es @ e # drop n es"
    using assms(1-3) id_take_nth_drop [of "n - 1" es] by simp
  have tk: "take n es = take (n - 1) es @ [e]"
    using assms(1-3) take_Suc_conv_app_nth [of "n - 1" es] by simp
  have bytes: "log_bytes es = log_bytes (take (n - 1) es) @ enc e @ log_bytes (drop n es)"
    using arg_cong [OF es, of log_bytes] by simp
  show "length (log_bytes (take n es)) = i + 16 + length (le_data e)"
    unfolding tk assms(4) by simp
  show "length (log_bytes es) \<ge> i + 16 + length (le_data e)"
    unfolding bytes assms(4) by simp
  show "list_slice (i + 12 + length (le_data e)) 4 (log_bytes es) = int_bytes (int (length (le_data e)))"
    "list_slice i 12 (log_bytes es) = log_header (entry_header e)"
    "list_slice (i + 12) (length (le_data e)) (log_bytes es) = le_data e"
    unfolding bytes assms(4) by (simp_all add: list_slice_def enc_def)
qed

lemma play_entry_refines:
  assumes ref: "refines b a" and lb: "a_log a \<noteq> []" and len: "length (a_text a) < 2147483648"
    and ok: "entry_ok e" "playable e (length (a_text a))"
    and idx: "idx + length (le_data e) \<le> length (log_bytes (a_log a))"
    and data: "list_slice idx (length (le_data e)) (log_bytes (a_log a)) = le_data e"
  shows "\<exists>b'. play_entry b s (entry_header e) idx = Some b' \<and> refines b' (a_play a s e)"
proof -
  define off n where "off = le_off e" and "n = le_size e"
  have hd: "lb_op (entry_header e) = op_code (le_op e)" "lb_offset (entry_header e) = int off"
    "lb_size (entry_header e) = int n" "lb_was_modified (entry_header e) = le_mod e"
    by (simp_all add: entry_header_def off_def n_def)
  have bound: "off < 2147483648" "n < 2147483648"
    using ok(1) by (auto simp: entry_ok_def off_def n_def)
  have save: "save_log b = a_save a" using refinesD(1) [OF ref] by (simp add: refines_doc_def)
  have off_save: "refines (b\<lparr>save_log := False\<rparr>) (a\<lparr>a_save := False\<rparr>)"
    unfolding refines_save save using ref by simp
  show ?thesis
  proof (cases "le_op e")
    case LOGOP_FREE
    with ok show ?thesis by (simp add: entry_ok_def)
  next
    case LOGOP_INSERT
    then have "off + n \<le> length (a_text a)" using ok(2) by (simp add: off_def n_def)
    then obtain b1 where b1: "eb_delete b off n = Some b1" "refines b1 (a_delete a off n)"
      using eb_delete_refines [OF ref _ len] by blast
    show ?thesis
      using refines_modified [OF refines_tracked [OF b1(2), where s = s and k = "int off"],
          where v = "le_mod e"] b1(1)
      by (simp add: play_entry_def hd LOGOP_INSERT Let_def a_play_def flip: off_def n_def)
  next
    case LOGOP_DELETE
    let ?a = "a\<lparr>a_save := False\<rparr>"
    let ?a1 = "if n = 0 then ?a else a_insert ?a off (le_data e)"
    have dlen: "length (le_data e) = n" using ok(1) LOGOP_DELETE
      by (simp add: entry_ok_def has_data_def n_def)
    have pl: "off \<le> length (a_text a)" "length (a_text a) + n < 2147483648"
      using ok(2) LOGOP_DELETE by (simp_all add: off_def n_def)
    obtain b1 where b1: "insert_from_log (b\<lparr>save_log := False\<rparr>) off idx n = Some b1" "refines b1 ?a1"
      using insert_from_log_refines [OF off_save, of off n idx "le_data e"] lb pl idx data dlen
      by auto
    have sv: "refines (b1\<lparr>save_log := save_log b\<rparr>) (?a1\<lparr>a_save := a_save a\<rparr>)"
      using b1(2) refinesD(1) [OF b1(2)] unfolding save refines_save
      by (auto simp: refines_doc_def)
    obtain b2 where b2: "eb_addlog (b1\<lparr>save_log := save_log b\<rparr>) LOGOP_INSERT off n = Some b2"
      "refines b2 (a_addlog (?a1\<lparr>a_save := a_save a\<rparr>) LOGOP_INSERT off n)"
      using eb_addlog_refines [OF sv _ bound, of LOGOP_INSERT] by (auto simp: has_data_def)
    show ?thesis
      using refines_modified [OF refines_tracked [OF b2(2), where s = s and k = "int off + int n"],
          where v = "le_mod e"] b1(1) b2(1)
      by (simp add: play_entry_def hd LOGOP_DELETE Let_def a_play_def flip: off_def n_def)
  next
    case LOGOP_WRITE
    let ?a = "a_delete (a\<lparr>a_save := False\<rparr>) off n"
    let ?a1 = "if n = 0 then ?a else a_insert ?a off (le_data e)"
    have dlen: "length (le_data e) = n" using ok(1) LOGOP_WRITE
      by (simp add: entry_ok_def has_data_def n_def)
    have pl: "off + n \<le> length (a_text a)"
      using ok(2) LOGOP_WRITE by (simp add: off_def n_def)
    obtain b0 where b0: "eb_delete (b\<lparr>save_log := False\<rparr>) off n = Some b0" "refines b0 ?a"
      using eb_delete_refines [OF off_save] pl len by auto
    have a: "a_log ?a = a_log a" "\<not> a_save ?a" "length (a_text ?a) = length (a_text a) - n"
      using pl by (auto simp: a_delete_def a_addlog_def Let_def)
    have idx': "idx + n \<le> length (log_bytes (a_log ?a))"
      "list_slice idx n (log_bytes (a_log ?a)) = le_data e"
      using idx data dlen a(1) by simp_all
    have h: "a_log ?a \<noteq> []" "off \<le> length (a_text ?a)" "length (a_text ?a) + n < 2147483648"
      using a lb pl len by simp_all
    obtain b1 where b1: "insert_from_log b0 off idx n = Some b1" "refines b1 ?a1"
      using insert_from_log_refines [OF b0(2) a(2) h idx'] by blast
    have sv: "refines (b1\<lparr>save_log := save_log b\<rparr>) (?a1\<lparr>a_save := a_save a\<rparr>)"
      using b1(2) refinesD(1) [OF b1(2)] unfolding save refines_save
      by (auto simp: refines_doc_def)
    have "off + n \<le> length (a_text (?a1\<lparr>a_save := a_save a\<rparr>))"
      using pl a(3) dlen by auto
    then obtain b2 where b2: "eb_addlog (b1\<lparr>save_log := save_log b\<rparr>) LOGOP_WRITE off n = Some b2"
      "refines b2 (a_addlog (?a1\<lparr>a_save := a_save a\<rparr>) LOGOP_WRITE off n)"
      using eb_addlog_refines [OF sv _ bound, of LOGOP_WRITE] by auto
    show ?thesis
      using refines_modified [OF refines_tracked [OF b2(2), where s = s and k = "int off + int n"],
          where v = "le_mod e"] b0(1) b1(1) b2(1)
      by (simp add: play_entry_def hd LOGOP_WRITE Let_def a_play_def flip: off_def n_def)
  qed
qed

text \<open>The entry that \<open>do_undo\<close> plays next, and where its data begins in the log.\<close>

definition undo_index :: "EditBuffer \<Rightarrow> bool \<Rightarrow> nat" where
  "undo_index b again =
    (let b = (if \<not> again then b\<lparr>log_current := 0\<rparr> else b)
     in if log_current b = 0 then log_new_index b else log_current b - 1)"

definition undo_entry :: "EditBuffer \<Rightarrow> bool \<Rightarrow> (LogBuffer \<times> nat \<times> EditBuffer) option" where
  "undo_entry b again =
    (let log_index = int (undo_index b again) - int sizeof_int;
         b = (if \<not> again then b\<lparr>log_current := 0\<rparr> else b)
     in do {
       (t, b) \<leftarrow> log_read b log_index sizeof_int;
       let log_index = log_index - (bytes_int t + int sizeof_LogBuffer);
       guard (0 \<le> log_index);
       let b = b\<lparr>log_current := nat log_index + 1\<rparr>;
       (h, b) \<leftarrow> log_read b log_index sizeof_LogBuffer;
       Some (parse_header h, nat (log_index + int sizeof_LogBuffer), b) })"

lemma do_undo_entry:
  "do_undo b again s =
    (if log_buffer b = None then Some b
     else if undo_index b again = 0 then Some (if \<not> again then b\<lparr>log_current := 0\<rparr> else b)
     else do { (lb, i, b) \<leftarrow> undo_entry b again; play_entry b s lb i })"
proof -
  define b1 where "b1 = (if \<not> again then b\<lparr>log_current := 0\<rparr> else b)"
  define i where "i = undo_index b again"
  have "(if log_current b1 = 0 then log_new_index b1 else log_current b1 - 1) = i"
    unfolding i_def undo_index_def Let_def b1_def by (rule refl)
  then show ?thesis
    unfolding do_undo_def undo_entry_def Let_def b1_def [symmetric] i_def [symmetric] by (simp add: case_prod_unfold)
qed

lemma undo_entry_refines:
  assumes ref: "refines b a" and n: "n = (case (if again then a_cur a else None) of None \<Rightarrow> length (a_log a) | Some n \<Rightarrow> n)"
  shows "undo_index b again = 0 \<longleftrightarrow> n = 0"
    "0 < n \<Longrightarrow> \<exists>i b'. undo_entry b again = Some (entry_header (a_log a ! (n - 1)), i, b') \<and>
      refines b' (a\<lparr>a_cur := Some (n - 1)\<rparr>) \<and> a_log a \<noteq> [] \<and> entry_ok (a_log a ! (n - 1)) \<and>
      i + length (le_data (a_log a ! (n - 1))) \<le> length (log_bytes (a_log a)) \<and>
      list_slice i (length (le_data (a_log a ! (n - 1)))) (log_bytes (a_log a)) = le_data (a_log a ! (n - 1))"
proof -
  define c where "c = (if again then a_cur a else None)"
  define a1 where "a1 = a\<lparr>a_cur := c\<rparr>"
  define b1 where "b1 = (if \<not> again then b\<lparr>log_current := 0\<rparr> else b)"
  define es where "es = a_log a"
  have ref1: "refines b1 a1"
    using ref refines_reset [OF ref] by (cases again) (simp_all add: b1_def a1_def c_def)
  have same: "a_log a1 = es" "a_text a1 = a_text a" by (simp_all add: a1_def es_def)
  have r: "log_new_index b1 = length (log_bytes es)" "\<forall>e \<in> set es. entry_ok e" "cur_rep b1 es c"
    using refinesD(1) [OF ref1] same(1) by (simp_all add: refines_doc_def log_rep_def a1_def)
  have le: "n \<le> length es"
    using r(3) by (auto simp: n c_def [symmetric] cur_rep_def es_def split: option.splits)
  have idx: "undo_index b again = length (log_bytes (take n es))"
    using r(1,3) unfolding undo_index_def Let_def b1_def [symmetric]
    by (auto simp: n c_def [symmetric] cur_rep_def es_def split: option.splits)
  then show "undo_index b again = 0 \<longleftrightarrow> n = 0"
    using le by auto
  define e where "e = es ! (n - 1)"
  define i where "i = length (log_bytes (take (n - 1) es))"
  assume pos: "0 < n"
  note sl = slice_entry [OF le pos e_def i_def]
  have e: "entry_ok e"
    using r(2) le pos by (simp_all add: e_def es_def)
  have ne: "a_log a1 \<noteq> []" using le pos same(1) by auto
  have trailer: "int (i + 16 + length (le_data e)) - int sizeof_int = int (i + 12 + length (le_data e))"
    by (simp add: sizeof_int_def)
  obtain b2 where b2: "log_read b1 (int (i + 12 + length (le_data e))) 4 =
      Some (int_bytes (int (length (le_data e))), b2)" "refines b2 a1"
    using log_read_correct [OF ref1 ne, of "i + 12 + length (le_data e)" 4] sl(2,3) same(1) by auto
  have sz: "bytes_int (int_bytes (int (length (le_data e)))) = int (length (le_data e))"
    using e by (intro bytes_int_bytes) (auto simp: entry_ok_def split: if_splits)
  have start: "int (i + 12 + length (le_data e)) - (int (length (le_data e)) + int sizeof_LogBuffer) = int i"
    by (simp add: sizeof_LogBuffer_def)
  define a3 where "a3 = a1\<lparr>a_cur := Some (n - 1)\<rparr>"
  have ref3: "refines (b2\<lparr>log_current := i + 1\<rparr>) a3"
    unfolding i_def a3_def same(1) [symmetric]
    by (rule refines_current [OF b2(2)]) (use le same(1) refines_log_nonempty [OF b2(2) ne] in simp_all)
  have ne3: "a_log a3 = es" using same(1) by (simp add: a3_def)
  obtain b4 where b4: "log_read (b2\<lparr>log_current := i + 1\<rparr>) (int i) 12 =
      Some (log_header (entry_header e), b4)" "refines b4 a3"
    using log_read_correct [OF ref3, of i 12] ne ne3 same(1) sl(2,4) by auto
  have hd: "parse_header (log_header (entry_header e)) = entry_header e"
    using parse_entry_header [OF e, of "[]"] by simp
  have "undo_entry b again = Some (entry_header e, i + 12, b4)"
    unfolding undo_entry_def Let_def idx sl(1) trailer b1_def [symmetric]
    using b2(1) b4(1)
    by (simp add: sizeof_int_def sz hd start [unfolded sizeof_LogBuffer_def] sizeof_LogBuffer_def
        nat_add_distrib)
  then show "\<exists>i b'. undo_entry b again = Some (entry_header (a_log a ! (n - 1)), i, b') \<and>
      refines b' (a\<lparr>a_cur := Some (n - 1)\<rparr>) \<and> a_log a \<noteq> [] \<and> entry_ok (a_log a ! (n - 1)) \<and>
      i + length (le_data (a_log a ! (n - 1))) \<le> length (log_bytes (a_log a)) \<and>
      list_slice i (length (le_data (a_log a ! (n - 1)))) (log_bytes (a_log a)) = le_data (a_log a ! (n - 1))"
    using b4(2) ne same(1) e sl(2,5) unfolding es_def [symmetric] e_def [symmetric]
    by (intro exI [of _ "i + 12"] exI [of _ b4]) (simp add: a3_def a1_def)
qed

lemma do_undo_refines:
  assumes ref: "refines b a" and len: "length (a_text a) < 2147483648"
    and n: "n = (case (if again then a_cur a else None) of None \<Rightarrow> length (a_log a) | Some n \<Rightarrow> n)"
    and play: "0 < n \<Longrightarrow> playable (a_log a ! (n - 1)) (length (a_text a))"
  shows "\<exists>b'. do_undo b again s = Some b' \<and> refines b' (a_undo a again s)"
proof (cases "log_buffer b = None")
  case True
  then have "a_log a = []" "a_cur a = None"
    using refinesD(1) [OF ref] by (simp_all add: refines_doc_def log_rep_def)
  then have "a_undo a again s = a" by (cases a) (simp add: a_undo_def)
  then show ?thesis using True ref by (simp add: do_undo_def)
next
  case False
  note entry = undo_entry_refines [OF ref n]
  show ?thesis
  proof (cases "n = 0")
    case True
    have "a_undo a again s = a\<lparr>a_cur := if again then a_cur a else None\<rparr>"
      using True unfolding a_undo_def Let_def n [symmetric] by simp
    then show ?thesis
      using True False entry(1) ref refines_reset [OF ref] by (cases again) (auto simp: do_undo_entry)
  next
    case n0: False
    define e where "e = a_log a ! (n - 1)"
    define a3 where "a3 = a\<lparr>a_cur := Some (n - 1)\<rparr>"
    obtain i b4 where b4: "undo_entry b again = Some (entry_header e, i, b4)" "refines b4 a3" "a_log a3 \<noteq> []" "entry_ok e"
      "i + length (le_data e) \<le> length (log_bytes (a_log a3))"
      "list_slice i (length (le_data e)) (log_bytes (a_log a3)) = le_data e"
      using entry(2) n0 by (auto simp: e_def a3_def)
    have "playable e (length (a_text a3))" "length (a_text a3) < 2147483648"
      using play n0 len by (simp_all add: e_def a3_def del: playable.simps)
    from play_entry_refines [OF b4(2,3) this(2) b4(4) this(1) b4(5,6), of s]
    obtain b5 where b5: "play_entry b4 s (entry_header e) i = Some b5" "refines b5 (a_play a3 s e)"
      by blast
    have "a_undo a again s = a_play a3 s e"
      using n0 unfolding a_undo_def Let_def n [symmetric] a3_def e_def by simp
    then show ?thesis
      using b4(1) b5 False n0 entry(1) by (auto simp: do_undo_entry)
  qed
qed

section \<open>The invariant of the log\<close>

text \<open>
  \<open>len_chain r L\<close>: the entries \<open>r\<close>, the last one first, can be undone one after the other
  from a text of length \<open>L\<close>.
\<close>

fun unlen :: "LogEntry \<Rightarrow> nat \<Rightarrow> nat" where
  "unlen e L = (case le_op e of LOGOP_INSERT \<Rightarrow> L - le_size e | LOGOP_DELETE \<Rightarrow> L + le_size e | _ \<Rightarrow> L)"

fun len_chain :: "LogEntry list \<Rightarrow> nat \<Rightarrow> bool" where
  "len_chain [] L \<longleftrightarrow> L < 2147483648"
| "len_chain (e # r) L \<longleftrightarrow> L < 2147483648 \<and> playable e L \<and> len_chain r (unlen e L)"

definition unplay :: "LogEntry \<Rightarrow> u8 list \<Rightarrow> u8 list" where
  "unplay e t = (case le_op e of
     LOGOP_WRITE \<Rightarrow> list_write (le_off e) (le_data e) t
   | LOGOP_DELETE \<Rightarrow> list_insert (le_off e) (le_data e) t
   | LOGOP_INSERT \<Rightarrow> list_delete (le_off e) (le_size e) t
   | LOGOP_FREE \<Rightarrow> t)"

lemma len_chain_bound: "len_chain r L \<Longrightarrow> L < 2147483648"
  by (cases r) auto

lemma len_chain_append: "len_chain (r @ q) L \<Longrightarrow> len_chain r L"
proof (induction r arbitrary: L)
  case Nil
  then show ?case using len_chain_bound by simp
next
  case (Cons e r)
  then show ?case by simp
qed

lemma len_chain_trim: "len_chain (rev es) L \<Longrightarrow> len_chain (rev (trim es)) L"
  by (cases es) (auto simp: trim_def dest: len_chain_append)

lemma take_trim:
  assumes "trim_cur es (Some n) = Some m" "n \<le> length es"
  shows "m \<le> length (trim es)" "len_chain (rev (take n es)) L \<Longrightarrow> len_chain (rev (take m (trim es))) L"
proof -
  have *: "m = (if length es \<ge> NB_LOGS_MAX - 1 then n - 1 else n)"
    using assms(1) by (simp add: trim_cur_def split: if_splits)
  show "m \<le> length (trim es)" using assms(2) unfolding * trim_def by auto
  show "len_chain (rev (take m (trim es))) L" if "len_chain (rev (take n es)) L"
  proof (cases "length es \<ge> NB_LOGS_MAX - 1 \<and> n \<noteq> 0")
    case True
    then obtain e es' where es: "es = e # es'" by (cases es) (auto simp: NB_LOGS_MAX_def)
    with True obtain n' where n: "n = Suc n'" by (cases n) auto
    have "len_chain (rev (take n' es') @ [e]) L" using that es n by simp
    then show ?thesis using True es n unfolding * trim_def by (auto dest: len_chain_append)
  next
    case False
    then show ?thesis using that len_chain_bound [OF that] unfolding * trim_def by auto
  qed
qed

lemma length_unplay:
  "entry_ok e \<Longrightarrow> playable e (length t) \<Longrightarrow> length (unplay e t) = unlen e (length t)"
  by (cases "le_op e") (auto simp: unplay_def entry_ok_def has_data_def)

text \<open>What playing an entry does to the text and the log.\<close>

lemma a_addlog_log [simp]:
  "a_log (a_addlog a op off n) = (if a_save a then trim (a_log a) @
     [\<lparr>le_op = op, le_mod = a_modified a, le_off = off, le_size = n,
       le_data = if has_data op then list_slice off n (a_text a) else []\<rparr>] else a_log a)"
  "a_cur (a_addlog a op off n) = (if a_save a then trim_cur (a_log a) (a_cur a) else a_cur a)"
  by (simp_all add: a_addlog_def Let_def)

lemma a_insert_log [simp]:
  "a_log (a_insert a off bs) = a_log (a_addlog a LOGOP_INSERT off (length bs))"
  "a_cur (a_insert a off bs) = a_cur (a_addlog a LOGOP_INSERT off (length bs))"
  by (simp_all add: a_insert_def)

lemma a_delete_log:
  "a_log (a_delete a off n) = (if off \<ge> length (a_text a) then a_log a
     else a_log (a_addlog a LOGOP_DELETE off n))"
  "a_cur (a_delete a off n) = (if off \<ge> length (a_text a) then a_cur a
     else a_cur (a_addlog a LOGOP_DELETE off n))"
  by (simp_all add: a_delete_def)

lemma a_play_save [simp]: "a_save (a_play a s e) = a_save a"
  by (cases "le_op e") (simp_all add: a_play_def Let_def)

lemma a_play_text:
  assumes "entry_ok e" "playable e (length (a_text a))"
  shows "a_text (a_play a s e) = unplay e (a_text a)"
proof (cases "le_op e")
  case LOGOP_WRITE
  then show ?thesis
    using assms by (auto simp: a_play_def Let_def unplay_def entry_ok_def has_data_def
        list_write_def list_insert_def list_delete_def)
next
  case LOGOP_INSERT
  then show ?thesis using assms by (auto simp: a_play_def Let_def unplay_def)
next
  case LOGOP_DELETE
  then show ?thesis
    using assms by (auto simp: a_play_def Let_def unplay_def entry_ok_def has_data_def)
qed (use assms in \<open>simp add: entry_ok_def\<close>)

lemma a_play_log:
  assumes "entry_ok e" "playable e (length (a_text a))" "a_save a" "length (a_text a) < 2147483648"
  shows "(\<exists>new. a_log (a_play a s e) = trim (a_log a) @ [new] \<and>
        a_cur (a_play a s e) = trim_cur (a_log a) (a_cur a) \<and>
        playable new (unlen e (length (a_text a))) \<and>
        unlen new (unlen e (length (a_text a))) = length (a_text a)) \<or>
    le_size e = 0 \<and> a_log (a_play a s e) = a_log a \<and> a_cur (a_play a s e) = a_cur a \<and>
      unlen e (length (a_text a)) = length (a_text a)"
proof (cases "le_op e")
  case LOGOP_WRITE
  then show ?thesis
    using assms by (auto simp: a_play_def Let_def a_delete_log)
next
  case LOGOP_INSERT
  then show ?thesis
    using assms by (auto simp: a_play_def Let_def a_delete_log)
next
  case LOGOP_DELETE
  then show ?thesis
    using assms by (auto simp: a_play_def Let_def)
qed (use assms in \<open>simp add: entry_ok_def\<close>)

text \<open>
  The invariant of a buffer: its log can be undone; if the last command was an undo, so can
  the entries before the cursor. A buffer that does not log has no log.
\<close>

definition undo_inv :: "AbsBuf \<Rightarrow> bool \<Rightarrow> bool" where
  "undo_inv a u \<longleftrightarrow> len_chain (rev (a_log a)) (length (a_text a)) \<and>
     (u \<longrightarrow> (\<forall>n. a_cur a = Some n \<longrightarrow> n \<le> length (a_log a) \<and>
        len_chain (rev (take n (a_log a))) (length (a_text a)))) \<and>
     (a_save a \<or> a_log a = [])"

lemma undo_invD:
  assumes "undo_inv a u"
  shows "len_chain (rev (a_log a)) (length (a_text a))" "length (a_text a) < 2147483648"
    "a_save a \<or> a_log a = []"
    "u \<Longrightarrow> a_cur a = Some n \<Longrightarrow> n \<le> length (a_log a)"
    "u \<Longrightarrow> a_cur a = Some n \<Longrightarrow> len_chain (rev (take n (a_log a))) (length (a_text a))"
  using assms len_chain_bound by (auto simp: undo_inv_def)

lemma undo_inv_mono: "undo_inv a u \<Longrightarrow> undo_inv a False"
  by (simp add: undo_inv_def)

lemma undo_inv_log:
  assumes "undo_inv a u" "a_save a" "a_save a'"
    "a_log a' = a_log (a_addlog a op off n)" "length (a_text a') < 2147483648"
    "case op of LOGOP_FREE \<Rightarrow> False
      | LOGOP_INSERT \<Rightarrow> off + n \<le> length (a_text a') \<and> length (a_text a') = length (a_text a) + n
      | LOGOP_DELETE \<Rightarrow> off \<le> length (a_text a') \<and> length (a_text a) = length (a_text a') + n
      | LOGOP_WRITE \<Rightarrow> off + n \<le> length (a_text a') \<and> length (a_text a') = length (a_text a)"
  shows "undo_inv a' False"
  using assms len_chain_trim [OF undo_invD(1) [OF assms(1)]] undo_invD(2) [OF assms(1)]
  by (cases op) (simp_all add: undo_inv_def)

lemma undo_inv_insert:
  assumes "undo_inv a u" "off \<le> length (a_text a)" "length (a_text a) + length bs < 2147483648"
  shows "undo_inv (a_insert a off bs) False"
proof (cases "a_save a")
  case True
  then show ?thesis
    by (intro undo_inv_log [OF assms(1), where op = LOGOP_INSERT and off = off and n = "length bs"])
      (use assms in simp_all)
next
  case False
  with undo_invD(3) [OF assms(1)] have "a_log a = []" by simp
  with False assms show ?thesis by (simp add: undo_inv_def)
qed

lemma undo_inv_delete:
  assumes "undo_inv a u" "off + n \<le> length (a_text a)"
  shows "undo_inv (a_delete a off n) False"
proof (cases "off \<ge> length (a_text a)")
  case True
  then show ?thesis using undo_inv_mono [OF assms(1)] by (simp add: a_delete_def)
next
  case False
  show ?thesis
  proof (cases "a_save a")
    case True
    then show ?thesis
      by (intro undo_inv_log [OF assms(1), where op = LOGOP_DELETE and off = off and n = n])
        (use False assms undo_invD(2) [OF assms(1)] in \<open>simp_all add: a_delete_log\<close>)
  next
    case ns: False
    with undo_invD(3) [OF assms(1)] have "a_log a = []" by simp
    with ns False assms undo_invD(2) [OF assms(1)] show ?thesis
      by (simp add: undo_inv_def a_delete_log)
  qed
qed

lemma undo_inv_overwrite:
  assumes "undo_inv a u" "off + length bs \<le> length (a_text a)"
  shows "undo_inv ((a_addlog a LOGOP_WRITE off (length bs))\<lparr>a_text := list_write off bs (a_text a)\<rparr>) False"
proof (cases "a_save a")
  case True
  then show ?thesis
    by (intro undo_inv_log [OF assms(1), where op = LOGOP_WRITE and off = off and n = "length bs"])
      (use assms undo_invD(2) [OF assms(1)] in simp_all)
next
  case False
  with undo_invD(3) [OF assms(1)] have "a_log a = []" by simp
  with False assms undo_invD(2) [OF assms(1)] show ?thesis by (simp add: undo_inv_def)
qed

lemma undo_inv_write:
  assumes "undo_inv a u" "off \<le> length (a_text a)" "length (a_text a) + length bs < 2147483648"
  shows "undo_inv (a_write a off bs) False"
proof -
  define len where "len = min (length bs) (length (a_text a) - off)"
  define a1 where "a1 = (if len = 0 then a
    else (a_addlog a LOGOP_WRITE off len)\<lparr>a_text := list_write off (take len bs) (a_text a)\<rparr>)"
  have a: "a_write a off bs =
      (if length bs - len > 0 then a_insert a1 (off + len) (drop len bs) else a1)"
    unfolding a_write_def Let_def len_def [symmetric] a1_def by (rule refl)
  have l: "length (take len bs) = len" "off + length (take len bs) \<le> length (a_text a)"
    using assms(2) by (auto simp: len_def)
  have i1: "undo_inv a1 False"
    using undo_inv_overwrite [OF assms(1) l(2)] undo_inv_mono [OF assms(1)] l(1)
    by (simp add: a1_def)
  have "length (a_text a1) = length (a_text a)" using l by (simp add: a1_def)
  then have "off + len \<le> length (a_text a1)" "length (a_text a1) + length (drop len bs) < 2147483648"
    using l assms(3) by simp_all
  then show ?thesis
    unfolding a using i1 undo_inv_insert [OF i1] by auto
qed

text \<open>The entry before the cursor can be played, and undo keeps the invariant.\<close>

definition cursor :: "AbsBuf \<Rightarrow> bool \<Rightarrow> nat" where
  "cursor a again = (case (if again then a_cur a else None) of
     None \<Rightarrow> length (a_log a) | Some n \<Rightarrow> n)"

lemma cursor_chain:
  assumes "undo_inv a u"
  shows "cursor a u \<le> length (a_log a)" "len_chain (rev (take (cursor a u) (a_log a))) (length (a_text a))"
  using undo_invD [OF assms] by (auto simp: cursor_def split: option.splits)

lemma cursor_entry:
  assumes "undo_inv a u" "0 < cursor a u"
  shows "a_log a ! (cursor a u - 1) \<in> set (a_log a)"
    "playable (a_log a ! (cursor a u - 1)) (length (a_text a))"
    "len_chain (rev (take (cursor a u - 1) (a_log a)))
      (unlen (a_log a ! (cursor a u - 1)) (length (a_text a)))"
proof -
  note c = cursor_chain [OF assms(1)]
  have "take (cursor a u) (a_log a) = take (cursor a u - 1) (a_log a) @ [a_log a ! (cursor a u - 1)]"
    using assms(2) c(1) take_Suc_conv_app_nth [of "cursor a u - 1" "a_log a"] by simp
  then have "len_chain (a_log a ! (cursor a u - 1) # rev (take (cursor a u - 1) (a_log a)))
      (length (a_text a))" using c(2) by simp
  then show "playable (a_log a ! (cursor a u - 1)) (length (a_text a))"
    "len_chain (rev (take (cursor a u - 1) (a_log a)))
      (unlen (a_log a ! (cursor a u - 1)) (length (a_text a)))"
    unfolding len_chain.simps by blast+
  show "a_log a ! (cursor a u - 1) \<in> set (a_log a)"
    using assms(2) c(1) by (intro nth_mem) simp
qed

lemma a_undo_cursor:
  "a_undo a u s = (if cursor a u = 0 then a\<lparr>a_cur := if u then a_cur a else None\<rparr>
     else a_play (a\<lparr>a_cur := Some (cursor a u - 1)\<rparr>) s (a_log a ! (cursor a u - 1)))"
  by (simp add: a_undo_def Let_def cursor_def)

lemma undo_inv_undo:
  assumes "undo_inv a u" "\<forall>e \<in> set (a_log a). entry_ok e"
  shows "undo_inv (a_undo a u s) True"
proof (cases "cursor a u = 0")
  case True
  then show ?thesis using assms(1) by (auto simp: a_undo_cursor undo_inv_def)
next
  case False
  define e where "e = a_log a ! (cursor a u - 1)"
  define a1 where "a1 = a\<lparr>a_cur := Some (cursor a u - 1)\<rparr>"
  let ?a = "a_play a1 s e" and ?L = "length (a_text a)"
  note c = cursor_entry [OF assms(1)] cursor_chain(1) [OF assms(1)]
  have e: "entry_ok e" "playable e (length (a_text a1))"
    "len_chain (rev (take (cursor a u - 1) (a_log a))) (unlen e ?L)"
    using assms(2) c False by (simp_all add: e_def a1_def del: playable.simps unlen.simps)
  have save: "a_save a1" using undo_invD(3) [OF assms(1)] False c(4) by (auto simp: a1_def)
  have L: "length (a_text a1) < 2147483648" "length (a_text a1) = ?L" "a_log a1 = a_log a"
    "a_cur a1 = Some (cursor a u - 1)"
    using undo_invD(2) [OF assms(1)] by (simp_all add: a1_def)
  have len: "length (a_text ?a) = unlen e ?L"
    using a_play_text [OF e(1,2)] length_unplay [OF e(1,2)] L(2) by simp
  have chain: "len_chain (rev (trim (a_log a))) ?L" "len_chain (rev (a_log a)) ?L"
    using undo_invD(1) [OF assms(1)] len_chain_trim by blast+
  have u: "a_undo a u s = ?a" using False by (simp add: a_undo_cursor a1_def e_def)
  have "undo_inv ?a True"
  proof (cases "a_log ?a = a_log a1 \<and> a_cur ?a = a_cur a1 \<and> unlen e ?L = ?L")
    case True
    then show ?thesis using chain(2) e(3) c(4) len save L by (simp add: undo_inv_def)
  next
    case f: False
    then obtain new where new: "a_log ?a = trim (a_log a) @ [new]"
      "a_cur ?a = trim_cur (a_log a) (Some (cursor a u - 1))"
      "playable new (unlen e ?L)" "unlen new (unlen e ?L) = ?L"
      using a_play_log [OF e(1,2) save L(1), of s] L unfolding L(2) by auto
    have "len_chain (rev (a_log ?a)) (length (a_text ?a))"
      using new chain(1) len_chain_bound [OF e(3)] unfolding len
      by (simp del: playable.simps unlen.simps)
    moreover have "m \<le> length (a_log ?a) \<and> len_chain (rev (take m (a_log ?a))) (length (a_text ?a))"
      if "a_cur ?a = Some m" for m
    proof -
      have "trim_cur (a_log a) (Some (cursor a u - 1)) = Some m" using new(2) that by simp
      moreover have "cursor a u - 1 \<le> length (a_log a)" using c(4) by simp
      ultimately show ?thesis
        using take_trim(1) [of "a_log a" "cursor a u - 1" m] e(3)
          take_trim(2) [of "a_log a" "cursor a u - 1" m "unlen e ?L"]
        unfolding new(1) len by simp
    qed
    ultimately show ?thesis using save by (simp add: undo_inv_def)
  qed
  then show ?thesis by (simp only: u)
qed

text \<open>
  The offset with which \<open>do_undo\<close> calls the callbacks of the buffer first, if it calls them: that of the entry, of which
  an insertion is undone by \<open>eb_delete\<close>, which does nothing at the end of the text. All later calls have no smaller offset.
\<close>

definition undo_offset :: "EditBuffer \<Rightarrow> bool \<Rightarrow> int option" where
  "undo_offset b again =
    (if log_buffer b = None \<or> undo_index b again = 0 then None
     else do {
       (lb, i, b') \<leftarrow> undo_entry b again;
       guard (lb_op lb = op_code LOGOP_INSERT \<longrightarrow> lb_offset lb < int (total_size b));
       Some (lb_offset lb) })"

lemma op_code_insert: "op_code op = 2 \<longleftrightarrow> op = LOGOP_INSERT"
  by (cases op) simp_all

text \<open>Undo leaves alone what is before that offset.\<close>

lemma undo_before_offset:
  assumes "refines b a" "undo_inv a u"
  shows "(case undo_offset b u of None \<Rightarrow> a_text (a_undo a u s) = a_text a
     | Some p \<Rightarrow> 0 \<le> p \<and> nat p \<le> length (a_text a) \<and> nat p \<le> length (a_text (a_undo a u s)) \<and>
         take (nat p) (a_text (a_undo a u s)) = take (nat p) (a_text a))"
proof (cases "cursor a u = 0")
  case True
  then have "undo_index b u = 0"
    using undo_entry_refines(1) [OF assms(1) cursor_def] by simp
  then show ?thesis
    using True by (simp add: undo_offset_def a_undo_cursor)
next
  case False
  define e where "e = a_log a ! (cursor a u - 1)"
  define a1 where "a1 = a\<lparr>a_cur := Some (cursor a u - 1)\<rparr>"
  note entry = undo_entry_refines [OF assms(1) cursor_def [of a u]]
  obtain i b' where b': "undo_entry b u = Some (entry_header e, i, b')" "a_log a \<noteq> []" "entry_ok e"
    using entry(2) False unfolding e_def by blast
  have p: "playable e (length (a_text a1))"
    using cursor_entry(2) [OF assms(2)] False by (simp add: e_def a1_def del: playable.simps)
  have u: "a_text (a_undo a u s) = unplay e (a_text a)"
    using a_play_text [OF b'(3) p, of s] False by (simp add: a_undo_cursor e_def a1_def)
  have "undo_offset b u = (if le_op e = LOGOP_INSERT \<and> length (a_text a) \<le> le_off e then None else Some (int (le_off e)))"
    using b'(1) entry(1) False refines_log_nonempty [OF assms(1) b'(2)] refinesD(3) [OF assms(1)]
    by (auto simp: undo_offset_def entry_header_def op_code_insert guard_def)
  moreover have "length (unplay e (a_text a)) = unlen e (length (a_text a))"
    using length_unplay [OF b'(3), of "a_text a"] p by (simp add: a1_def)
  ultimately show ?thesis
    using p b'(3) by (cases "le_op e")
      (auto simp: u unplay_def a1_def entry_ok_def list_write_def list_insert_def list_delete_def)
qed

section \<open>Sessions\<close>

datatype Edit = Ins nat "u8 list" | Del nat nat | Wr nat "u8 list"

fun do_edit :: "Edit \<Rightarrow> EditBuffer \<Rightarrow> EditBuffer option" where
  "do_edit (Ins off bs) b = eb_insert b off bs"
| "do_edit (Del off n) b = eb_delete b off n"
| "do_edit (Wr off bs) b = eb_write b off bs"

text \<open>The documented preconditions, and that the size stays an \<open>int\<close>.\<close>

fun edit_ok :: "Edit \<Rightarrow> nat \<Rightarrow> bool" where
  "edit_ok (Ins off bs) L \<longleftrightarrow> off \<le> L \<and> L + length bs < 2147483648"
| "edit_ok (Del off n) L \<longleftrightarrow> off + n \<le> L"
| "edit_ok (Wr off bs) L \<longleftrightarrow> off \<le> L \<and> L + length bs < 2147483648"

text \<open>
  A session with a buffer: edits, undos and other commands in any order, among them commands
  that move the mark or the cursor and windows that are opened and closed on the buffer. The
  flag says whether the last command was \<open>do_undo\<close>.
\<close>

inductive session :: "EditBuffer \<times> bool \<Rightarrow> EditBuffer \<times> bool \<Rightarrow> bool" where
  s_edit: "edit_ok e (total_size b) \<Longrightarrow> do_edit e b = Some b' \<Longrightarrow> session (b, u) (b', False)"
| s_undo: "do_undo b u s = Some b' \<Longrightarrow> session (b, u) (b', True)"
| s_reset: "session (b, u) (log_reset b, False)"
| s_move: "session (b, u) (b\<lparr>tracked := (tracked b)(m := k)\<rparr>, False)"
| s_attach: "session (b, u) (eb_add_callback b m, False)"
| s_detach: "session (b, u) (eb_free_callback b m, False)"
| s_other: "session (b, u) (b, False)"

code_pred session .

inductive_cases session_undoE: "session (b, u) (b', True)"

inductive_simps session_undo_iff: "session (b, u) (b', True)"

fun a_edit :: "Edit \<Rightarrow> AbsBuf \<Rightarrow> AbsBuf" where
  "a_edit (Ins off bs) a = a_insert a off bs"
| "a_edit (Del off n) a = a_delete a off n"
| "a_edit (Wr off bs) a = a_write a off bs"

lemma do_edit_refines:
  assumes "refines b a" "edit_ok e (total_size b)" "length (a_text a) < 2147483648"
  shows "\<exists>b'. do_edit e b = Some b' \<and> refines b' (a_edit e a)"
  using assms refinesD(3) [OF assms(1)] eb_insert_refines eb_delete_refines eb_write_refines
  by (cases e) simp_all

lemma undo_inv_edit:
  assumes "undo_inv a u" "edit_ok e (length (a_text a))"
  shows "undo_inv (a_edit e a) False"
  using assms undo_inv_insert undo_inv_delete undo_inv_write by (cases e) simp_all

text \<open>The invariant of the concrete buffer.\<close>

definition log_inv :: "EditBuffer \<Rightarrow> bool \<Rightarrow> bool" where
  "log_inv b u \<longleftrightarrow> (\<exists>a. refines b a \<and> undo_inv a u)"

lemma log_invE:
  assumes "log_inv b u"
  obtains a where "refines b a" "undo_inv a u" "length (a_text a) < 2147483648"
    "total_size b = length (a_text a)" "\<forall>e \<in> set (a_log a). entry_ok e"
  using assms undo_invD(2) refinesD(3) refinesD(1)
  unfolding log_inv_def by (fastforce simp: refines_doc_def log_rep_def)

lemma log_inv_edit:
  assumes "log_inv b u" "edit_ok e (total_size b)"
  shows "\<exists>b'. do_edit e b = Some b' \<and> log_inv b' False"
proof -
  obtain a where a: "refines b a" "undo_inv a u" "length (a_text a) < 2147483648"
    "total_size b = length (a_text a)" using log_invE [OF assms(1)] .
  then show ?thesis
    using do_edit_refines [OF a(1) assms(2) a(3)] undo_inv_edit [OF a(2), of e] assms(2)
    unfolding log_inv_def by auto
qed

lemma undo_refines:
  assumes "refines b a" "undo_inv a u"
  shows "\<exists>b'. do_undo b u s = Some b' \<and> refines b' (a_undo a u s)"
  by (rule do_undo_refines [OF assms(1) undo_invD(2) [OF assms(2)] cursor_def])
    (rule cursor_entry(2) [OF assms(2)])

lemma log_inv_undo:
  assumes "log_inv b u"
  shows "\<exists>b'. do_undo b u s = Some b' \<and> log_inv b' True"
proof -
  obtain a where a: "refines b a" "undo_inv a u" "\<forall>e \<in> set (a_log a). entry_ok e"
    using log_invE [OF assms] .
  then show ?thesis
    using undo_refines [OF a(1,2)] undo_inv_undo [OF a(2,3)] unfolding log_inv_def by blast
qed

lemma log_inv_reset:
  assumes "log_inv b u"
  shows "log_inv (log_reset b) False"
proof -
  obtain a where a: "refines b a" "undo_inv a u" "length (a_text a) < 2147483648"
    using log_invE [OF assms] .
  show ?thesis
  proof (cases "log_buffer b")
    case None
    then have "refines (log_reset b) (a\<lparr>a_modified := False\<rparr>)"
      using refines_modified [OF a(1)] by (simp add: log_reset_def)
    moreover have "undo_inv (a\<lparr>a_modified := False\<rparr>) False"
      using a(2) by (simp add: undo_inv_def)
    ultimately show ?thesis unfolding log_inv_def by blast
  next
    case (Some l)
    then have "refines (log_reset b) (a\<lparr>a_modified := False, a_log := [], a_cur := None\<rparr>)"
      using a(1) by (auto simp: log_reset_def refines_def refines_doc_def contents_def cache_ok_def
          log_rep_def cur_rep_def split: option.splits)
    moreover have "undo_inv (a\<lparr>a_modified := False, a_log := [], a_cur := None\<rparr>) False"
      using a(3) by (simp add: undo_inv_def)
    ultimately show ?thesis unfolding log_inv_def by blast
  qed
qed

lemma log_inv_alloc: "log_inv (alloc_buffer name flags) False"
proof -
  let ?b = "alloc_buffer name flags"
  let ?a = "\<lparr>a_text = [], a_tracked = \<lambda>_. 0, a_callbacks = [0], a_modified = False,
    a_save = save_log ?b, a_log = [], a_cur = None\<rparr>"
  have "refines ?b ?a"
    by (simp add: alloc_buffer_def eb_add_callback_def refines_def refines_doc_def contents_def
        cache_ok_def log_rep_def cur_rep_def)
  moreover have "undo_inv ?a False" by (simp add: undo_inv_def)
  ultimately show ?thesis unfolding log_inv_def by blast
qed

lemma alloc_refines: "\<exists>a. refines (alloc_buffer name flags) a \<and> a_text a = []"
proof -
  have "log_inv (alloc_buffer name flags) False" by (rule log_inv_alloc)
  then obtain a where "refines (alloc_buffer name flags) a" unfolding log_inv_def by blast
  moreover from refinesD(3) [OF this] have "a_text a = []"
    by (simp add: alloc_buffer_def eb_add_callback_def)
  ultimately show ?thesis by blast
qed

lemma log_inv_mono: "log_inv b u \<Longrightarrow> log_inv b False"
  using undo_inv_mono unfolding log_inv_def by blast

lemma log_inv_move:
  assumes "log_inv b u"
  shows "log_inv (b\<lparr>tracked := (tracked b)(m := k)\<rparr>) False"
proof -
  obtain a where "refines b a" "undo_inv a u" using log_invE [OF assms] .
  then have "refines (b\<lparr>tracked := (tracked b)(m := k)\<rparr>) (a\<lparr>a_tracked := (a_tracked a)(m := k)\<rparr>)"
    "undo_inv (a\<lparr>a_tracked := (a_tracked a)(m := k)\<rparr>) False"
    by (simp_all add: refines_tracked undo_inv_def)
  then show ?thesis unfolding log_inv_def by blast
qed

lemma log_inv_callbacks:
  assumes "log_inv b u"
  shows "log_inv (b\<lparr>callbacks := cs\<rparr>) False"
proof -
  obtain a where "refines b a" "undo_inv a u" using log_invE [OF assms] .
  then have "refines (b\<lparr>callbacks := cs\<rparr>) (a\<lparr>a_callbacks := cs\<rparr>)" "undo_inv (a\<lparr>a_callbacks := cs\<rparr>) False"
    by (auto simp: undo_inv_def refines_def refines_doc_def contents_def cache_ok_def log_rep_def
        cur_rep_def split: option.splits)
  then show ?thesis unfolding log_inv_def by blast
qed

lemma log_inv_session:
  assumes "session\<^sup>*\<^sup>* (b0, u0) (b, u)" "log_inv b0 u0"
  shows "log_inv b u"
proof -
  have "log_inv (fst x) (snd x)" if "session\<^sup>*\<^sup>* (b0, u0) x" for x
    using that
  proof (induction rule: rtranclp_induct)
    case (step x y)
    show ?case using step.hyps(2) step.IH
    proof (cases rule: session.cases)
      case (s_edit e b b' u)
      then show ?thesis using log_inv_edit [of b u e] step.IH by auto
    next
      case (s_undo b u s b')
      then show ?thesis using log_inv_undo [of b u s] step.IH by auto
    qed (auto simp: eb_add_callback_def eb_free_callback_def
        dest: log_inv_reset log_inv_mono log_inv_move log_inv_callbacks)
  qed (use assms(2) in simp)
  from this [OF assms(1)] show ?thesis by simp
qed

end
