(* ===== verification/Undo_Props.thy ===== *)
theory Undo_Props
  imports Undo
begin

text \<open>
  The properties of undo: undos restore what edits changed, and the two entries whose replay
  does not do its job. The proofs follow the entries of the abstract log.
\<close>

section \<open>Undoing a run of edits\<close>

fun undo_times :: "nat \<Rightarrow> EditBuffer \<Rightarrow> bool \<Rightarrow> tracker \<Rightarrow> EditBuffer option" where
  "undo_times 0 b again s = Some b"
| "undo_times (Suc k) b again s = do { b \<leftarrow> do_undo b again s; undo_times k b True s }"

fun do_edits :: "Edit list \<Rightarrow> EditBuffer \<Rightarrow> EditBuffer option" where
  "do_edits [] b = Some b"
| "do_edits (e # es) b = do { b \<leftarrow> do_edit e b; do_edits es b }"

text \<open>An edit that makes exactly one entry of positive size.\<close>

fun one_entry :: "Edit \<Rightarrow> nat \<Rightarrow> bool" where
  "one_entry (Ins off bs) L \<longleftrightarrow> bs \<noteq> []"
| "one_entry (Del off n) L \<longleftrightarrow> 0 < n"
| "one_entry (Wr off bs) L \<longleftrightarrow> bs \<noteq> [] \<and> off + length bs \<le> L"

fun edit_len :: "Edit \<Rightarrow> nat \<Rightarrow> nat" where
  "edit_len (Ins off bs) L = L + length bs"
| "edit_len (Del off n) L = L - n"
| "edit_len (Wr off bs) L = max L (off + length bs)"

fun edits_ok :: "Edit list \<Rightarrow> nat \<Rightarrow> bool" where
  "edits_ok [] L \<longleftrightarrow> True"
| "edits_ok (e # es) L \<longleftrightarrow> edit_ok e L \<and> one_entry e L \<and> edits_ok es (edit_len e L)"

text \<open>The text and the modified flag after undoing the entries \<open>r\<close>, the last one first.\<close>

fun undone :: "LogEntry list \<Rightarrow> u8 list \<times> bool \<Rightarrow> u8 list \<times> bool" where
  "undone [] tm = tm"
| "undone (e # r) (t, m) = undone r (unplay e t, le_mod e)"

lemma undone_append: "undone (r @ q) tm = undone q (undone r tm)"
proof (induction r arbitrary: tm)
  case (Cons e r)
  then show ?case by (cases tm) simp
qed simp

lemma a_insert_modified [simp]: "a_modified (a_insert a off bs)"
  by (simp add: a_insert_def)

lemma list_write_undo:
  "off + length bs \<le> length t \<Longrightarrow>
    list_write off (list_slice off (length bs) t) (list_write off bs t) = t"
  by (simp add: list_write_write)

text \<open>An edit adds an entry that undoes it.\<close>

lemma a_edit_entry:
  assumes "a_save a" "edit_ok e (length (a_text a))" "one_entry e (length (a_text a))"
  shows "\<exists>x. a_log (a_edit e a) = trim (a_log a) @ [x] \<and> 0 < le_size x \<and>
    unplay x (a_text (a_edit e a)) = a_text a \<and> le_mod x = a_modified a"
proof (cases e)
  case (Ins off bs)
  then show ?thesis using assms by (auto simp: unplay_def)
next
  case (Del off n)
  then have "off < length (a_text a)" using assms by auto
  then show ?thesis using Del assms by (auto simp: unplay_def a_delete_log has_data_def)
next
  case (Wr off bs)
  then have len: "off + length bs \<le> length (a_text a)" "bs \<noteq> []"
    "min (length bs) (length (a_text a) - off) = length bs"
    using assms by auto
  then have "a_write a off bs =
      (a_addlog a LOGOP_WRITE off (length bs))\<lparr>a_text := list_write off bs (a_text a)\<rparr>"
    by (simp add: a_write_def)
  then show ?thesis
    using Wr len assms list_write_undo by (simp add: unplay_def has_data_def)
qed

lemma trim_split:
  assumes "length R < NB_LOGS_MAX - 1"
  shows "\<exists>X'. trim (X @ R) = X' @ R \<and>
    (trim_cur (X @ R) (Some (length X + k)) = Some (length X' + k))"
proof (cases "length (X @ R) \<ge> NB_LOGS_MAX - 1")
  case True
  then have "X \<noteq> []" using assms by auto
  with True show ?thesis
    by (intro exI [of _ "tl X"]) (cases X; simp add: trim_def trim_cur_def)
next
  case False
  then show ?thesis by (intro exI [of _ X]) (simp add: trim_def trim_cur_def)
qed

definition undoes_to :: "LogEntry list \<Rightarrow> AbsBuf \<Rightarrow> AbsBuf \<Rightarrow> bool" where
  "undoes_to R a a0 \<longleftrightarrow> (\<exists>X. a_log a = X @ R) \<and> (\<forall>x \<in> set R. 0 < le_size x) \<and>
     undone (rev R) (a_text a, a_modified a) = (a_text a0, a_modified a0)"

lemma undoes_to_edit:
  assumes "undoes_to R a a0" "a_save a" "edit_ok e (length (a_text a))"
    "one_entry e (length (a_text a))" "length R < NB_LOGS_MAX - 1"
  shows "\<exists>x. undoes_to (R @ [x]) (a_edit e a) a0"
proof -
  obtain X where X: "a_log a = X @ R" "\<forall>x \<in> set R. 0 < le_size x"
    "undone (rev R) (a_text a, a_modified a) = (a_text a0, a_modified a0)"
    using assms(1) by (auto simp: undoes_to_def)
  obtain X' where "trim (a_log a) = X' @ R" using trim_split [OF assms(5)] X(1) by metis
  moreover obtain x where "a_log (a_edit e a) = trim (a_log a) @ [x]" "0 < le_size x"
    "unplay x (a_text (a_edit e a)) = a_text a" "le_mod x = a_modified a"
    using a_edit_entry [OF assms(2-4)] by blast
  ultimately have "undoes_to (R @ [x]) (a_edit e a) a0" using X by (simp add: undoes_to_def)
  then show ?thesis ..
qed

lemma a_edit_save [simp]: "a_save (a_edit e a) = a_save a"
  by (cases e) simp_all

lemma length_a_edit: "edit_ok e (length (a_text a)) \<Longrightarrow> length (a_text (a_edit e a)) = edit_len e (length (a_text a))"
  by (cases e) (auto simp: list_write_def)

lemma do_edits_undoes:
  assumes "edits_ok es (total_size b)" "refines b a" "undo_inv a u" "a_save a" "undoes_to R a a0"
    "length R + length es < NB_LOGS_MAX"
  shows "\<exists>b' a' R'. do_edits es b = Some b' \<and> refines b' a' \<and> undo_inv a' False \<and> a_save a' \<and>
    undoes_to R' a' a0 \<and> length R' = length R + length es"
  using assms
proof (induction es arbitrary: b a R u)
  case Nil
  then show ?case using undo_inv_mono by (auto intro!: exI)
next
  case (Cons e es)
  have len: "total_size b = length (a_text a)" using refinesD(3) [OF Cons.prems(2)] .
  obtain b1 where b1: "do_edit e b = Some b1" "refines b1 (a_edit e a)"
    using do_edit_refines [OF Cons.prems(2)] Cons.prems(1) undo_invD(2) [OF Cons.prems(3)] by auto
  have e: "edit_ok e (length (a_text a))" "one_entry e (length (a_text a))" "edits_ok es (total_size b1)"
    using Cons.prems(1) len refinesD(3) [OF b1(2)] length_a_edit by simp_all
  have "length R < NB_LOGS_MAX - 1" using Cons.prems(6) by simp
  then obtain x where x: "undoes_to (R @ [x]) (a_edit e a) a0"
    using undoes_to_edit [OF Cons.prems(5,4) e(1,2)] by blast
  have "length (R @ [x]) + length es < NB_LOGS_MAX" using Cons.prems(6) by simp
  from Cons.IH [OF e(3) b1(2) undo_inv_edit [OF Cons.prems(3) e(1)] _ x this] Cons.prems(4)
  show ?case using b1(1) by auto
qed

text \<open>The undos: \<open>R\<close> are the entries to undo before the cursor, \<open>Y\<close> those after it.\<close>

lemma a_play_modified [simp]: "a_modified (a_play a s e) = le_mod e"
  by (simp add: a_play_def Let_def)

lemma undo_times_undoes:
  assumes "refines b a" "undo_inv a u" "a_save a" "a_log a = X @ R @ Y"
    "cursor a u = length X + length R" "\<forall>x \<in> set R. 0 < le_size x"
    "2 * length R + length Y \<le> NB_LOGS_MAX - 1"
  shows "\<exists>b' a'. undo_times (length R) b u s = Some b' \<and> refines b' a' \<and>
    (a_text a', a_modified a') = undone (rev R) (a_text a, a_modified a)"
  using assms
proof (induction R arbitrary: b a u X Y rule: rev_induct)
  case Nil
  then show ?case by auto
next
  case (snoc e R)
  let ?c = "length X + length R"
  define a1 where "a1 = a\<lparr>a_cur := Some ?c\<rparr>"
  have c: "cursor a u = Suc ?c" "0 < cursor a u" using snoc.prems(5) by simp_all
  have at: "a_log a ! (cursor a u - 1) = e" using snoc.prems(4) c by (simp add: nth_append)
  have ok: "\<forall>e \<in> set (a_log a). entry_ok e"
    using refinesD(1) [OF snoc.prems(1)] by (simp add: refines_doc_def log_rep_def)
  have u: "a_undo a u s = a_play a1 s e" using c at by (simp add: a_undo_cursor a1_def)
  obtain b1 where b1: "do_undo b u s = Some b1" "refines b1 (a_play a1 s e)"
    using undo_refines [OF snoc.prems(1,2), of s] unfolding u by blast
  have inv: "undo_inv (a_play a1 s e) True"
    using undo_inv_undo [OF snoc.prems(2) ok, of s] unfolding u .
  have e: "entry_ok e" "playable e (length (a_text a1))" "a_save a1" "length (a_text a1) < 2147483648"
    "0 < le_size e"
    using cursor_entry [OF snoc.prems(2) c(2)] at ok snoc.prems(3,6) undo_invD(2) [OF snoc.prems(2)]
    by (simp_all add: a1_def del: playable.simps)
  obtain new where new: "a_log (a_play a1 s e) = trim (a_log a) @ [new]"
    "a_cur (a_play a1 s e) = trim_cur (a_log a) (Some ?c)"
    using a_play_log [OF e(1-4), of s] e(5) by (auto simp: a1_def)
  have "length (R @ [e] @ Y) < NB_LOGS_MAX - 1" using snoc.prems(7) by simp
  then obtain X' where X': "trim (a_log a) = X' @ R @ [e] @ Y"
    "trim_cur (a_log a) (Some ?c) = Some (length X' + length R)"
    using trim_split [of "R @ [e] @ Y" X "length R"] snoc.prems(4) by auto
  have "a_log (a_play a1 s e) = X' @ R @ ([e] @ Y @ [new])"
    "cursor (a_play a1 s e) True = length X' + length R"
    "2 * length R + length ([e] @ Y @ [new]) \<le> NB_LOGS_MAX - 1"
    using new X' snoc.prems(7) by (simp_all add: cursor_def)
  from snoc.IH [OF b1(2) inv _ this(1,2) _ this(3)] snoc.prems(3,6)
  obtain b2 a2 where "undo_times (length R) b1 True s = Some b2" "refines b2 a2"
    "(a_text a2, a_modified a2) = undone (rev R) (a_text (a_play a1 s e), le_mod e)"
    by (auto simp: a1_def)
  moreover have "a_text (a_play a1 s e) = unplay e (a_text a)"
    using a_play_text [OF e(1,2)] by (simp add: a1_def)
  ultimately show ?case using b1(1) by auto
qed

lemma undo_times_restores:
  assumes "log_inv b u" "save_log b" "edits_ok es (total_size b)" "2 * length es \<le> NB_LOGS_MAX - 1"
  shows "\<exists>b1 b2. do_edits es b = Some b1 \<and> undo_times (length es) b1 False s = Some b2 \<and>
    contents b2 = contents b \<and> modified b2 = modified b"
proof -
  obtain a where a: "refines b a" "undo_inv a u" using log_invE [OF assms(1)] .
  have save: "a_save a" using assms(2) refinesD(1) [OF a(1)] by (simp add: refines_doc_def)
  have "undoes_to [] a a" by (simp add: undoes_to_def)
  moreover have "length [] + length es < NB_LOGS_MAX" using assms(4) by (simp add: NB_LOGS_MAX_def)
  ultimately obtain b1 a1 R where r: "do_edits es b = Some b1" "refines b1 a1" "undo_inv a1 False"
    "a_save a1" "undoes_to R a1 a" "length R = length es"
    using do_edits_undoes [OF assms(3) a save] by force
  then obtain X where X: "a_log a1 = X @ R @ []" "\<forall>x \<in> set R. 0 < le_size x"
    "undone (rev R) (a_text a1, a_modified a1) = (a_text a, a_modified a)"
    by (auto simp: undoes_to_def)
  have "cursor a1 False = length X + length R" "2 * length R + length [] \<le> NB_LOGS_MAX - 1"
    using X(1) assms(4) r(6) by (simp_all add: cursor_def)
  then obtain b2 a2 where b2: "undo_times (length R) b1 False s = Some b2" "refines b2 a2"
    "(a_text a2, a_modified a2) = undone (rev R) (a_text a1, a_modified a1)"
    using undo_times_undoes [OF r(2,3,4) X(1) _ X(2), of s] by blast
  have "contents b2 = contents b" "modified b2 = modified b"
    using b2(2,3) X(3) a(1) by (simp_all add: refines_def refines_doc_def)
  with r(1,6) b2(1) show ?thesis by auto
qed

section \<open>Playing the last entry\<close>

lemma last_undo:
  assumes "a_log a = es @ [e]"
  shows "a_undo a False s = a_play (a\<lparr>a_cur := Some (length es)\<rparr>) s e"
  using assms by (simp add: a_undo_cursor cursor_def)

lemma a_tracked_addlog [simp]: "a_tracked (a_addlog a op off n) =
    call_callbacks (a_callbacks a) (a_tracked a) op (int off) (int n)"
  by (simp add: a_addlog_def Let_def)

lemma undo_delete_tracked:
  assumes "a_save a" "off + n \<le> length (a_text a)" "0 < n" "a_callbacks a = [m]"
    "int (off + n) < a_tracked a m" "s \<noteq> m"
  shows "a_tracked (a_delete a off n) m = a_tracked a m - int n"
    "a_tracked (a_undo (a_delete a off n) False s) m = a_tracked a m + int n"
    "a_text (a_undo (a_delete a off n) False s) = a_text a"
proof -
  define e where "e = \<lparr>le_op = LOGOP_DELETE, le_mod = a_modified a, le_off = off, le_size = n,
    le_data = list_slice off n (a_text a)\<rparr>"
  have lt: "\<not> off \<ge> length (a_text a)" using assms(2,3) by simp
  have log: "a_log (a_delete a off n) = trim (a_log a) @ [e]"
    using assms(1) lt by (simp add: a_delete_log e_def has_data_def)
  show m1: "a_tracked (a_delete a off n) m = a_tracked a m - int n"
    using lt assms(4,5) by (simp add: a_delete_def eb_offset_callback_def)
  have cb: "a_callbacks (a_delete a off n) = [m]"
    using assms(4) by (simp add: a_delete_def)
  have "int off < a_tracked (a_delete a off n) m" using assms(5) m1 by simp
  then show "a_tracked (a_undo (a_delete a off n) False s) m = a_tracked a m + int n"
    unfolding last_undo [OF log]
    using assms(2,3,6) cb m1
    by (simp add: a_play_def Let_def e_def a_insert_def eb_offset_callback_def)
  show "a_text (a_undo (a_delete a off n) False s) = a_text a"
    unfolding last_undo [OF log] using assms(2,3) by (simp add: a_play_def Let_def e_def)
qed

text \<open>The entry that the undo of a write leaves behind puts back the text that is there.\<close>

lemma undo_write_log:
  assumes "a_save a" "off + length bs \<le> length (a_text a)" "bs \<noteq> []"
    "a_log a' = es @ [\<lparr>le_op = LOGOP_WRITE, le_mod = m, le_off = off, le_size = length bs,
       le_data = list_slice off (length bs) t\<rparr>]"
    "a_save a'" "a_text a' = list_write off bs t" "t = a_text a"
  shows "a_text (a_undo a' False s) = t"
    "a_text (a_undo ((a_undo a' False s)\<lparr>a_cur := c\<rparr>) False s) = t"
proof -
  let ?n = "length bs"
  define e where "e = \<lparr>le_op = LOGOP_WRITE, le_mod = m, le_off = off, le_size = ?n,
       le_data = list_slice off ?n t\<rparr>"
  have len: "off + ?n \<le> length t" using assms(2,7) by simp
  have play: "a_text (a_play x s (e\<lparr>le_mod := v\<rparr>)) = list_write off (list_slice off ?n t) (a_text x)"
    if "length (a_text x) = length t" for x v
    using len assms(3) that
    by (simp add: a_play_def Let_def e_def list_write_def list_insert_def list_delete_def min_def)
  have same: "e\<lparr>le_mod := m\<rparr> = e" by (simp add: e_def)
  have u: "a_undo a' False s = a_play (a'\<lparr>a_cur := Some (length es)\<rparr>) s e"
    by (rule last_undo) (simp add: assms(4) e_def)
  have t1: "a_text (a_play (a'\<lparr>a_cur := Some (length es)\<rparr>) s e) = t"
    using play [of "a'\<lparr>a_cur := Some (length es)\<rparr>" m] len assms(6) unfolding same
    by (simp add: list_write_undo)
  then show first: "a_text (a_undo a' False s) = t" by (simp only: u)
  have "\<exists>es' v. a_log (a_undo a' False s) = es' @ [e\<lparr>le_mod := v\<rparr>]"
  proof -
    have w: "list_write off (list_slice off ?n t) (list_write off bs t) = t"
      using len by (rule list_write_undo)
    have "list_insert off (list_slice off ?n t) (list_delete off ?n (list_write off bs t)) = t"
      using w len by (simp add: list_write_def list_insert_def list_delete_def)
    then show ?thesis
      unfolding u using assms(3-6) len
      by (intro exI [of _ "trim (es @ [e])"] exI [of _ True])
        (simp add: a_play_def Let_def e_def a_delete_log has_data_def)
  qed
  then obtain es' v where "a_log (a_undo a' False s) = es' @ [e\<lparr>le_mod := v\<rparr>]" by blast
  then have "a_log ((a_undo a' False s)\<lparr>a_cur := c\<rparr>) = es' @ [e\<lparr>le_mod := v\<rparr>]" by simp
  from last_undo [OF this, of s]
  show "a_text (a_undo ((a_undo a' False s)\<lparr>a_cur := c\<rparr>) False s) = t"
    using play [of "(a_undo a' False s)\<lparr>a_cur := Some (length es')\<rparr>" v] first len by simp
qed

section \<open>Properties\<close>

lemma session_inv: "session\<^sup>*\<^sup>* (alloc_buffer name flags, False) (b, u) \<Longrightarrow> log_inv b u"
  using log_inv_session log_inv_alloc by blast

lemma log_inv_bounds:
  assumes "log_inv b u"
  shows "buf_ok b" "nb_logs b \<le> NB_LOGS_MAX - 1"
proof -
  obtain a where a: "refines b a" using log_invE [OF assms] .
  show "buf_ok b" by (rule refinesD(2) [OF a])
  show "nb_logs b \<le> NB_LOGS_MAX - 1"
    using refinesD(1) [OF a] by (simp add: refines_doc_def log_rep_def)
qed

text \<open>C1. Safety of the undo log. In every session with a buffer that starts from a
  fresh one, made of edits under their documented preconditions, undos, log resets and other
  commands in any order, the buffer stays well formed, the log holds at most
  \<open>NB_LOGS_MAX - 1\<close> entries, and undo has a result: no access outside a page table or
  the log, no write to a read-only page, no entry of an unknown kind.\<close>

theorem undo_safe:
  assumes "session\<^sup>*\<^sup>* (alloc_buffer name flags, False) (b, u)"
  shows "buf_ok b \<and> nb_logs b \<le> NB_LOGS_MAX - 1 \<and> do_undo b u s \<noteq> None \<and>
    (edit_ok e (total_size b) \<longrightarrow> do_edit e b \<noteq> None)"
  using log_inv_bounds [OF session_inv [OF assms]] log_inv_undo [OF session_inv [OF assms], of s]
    log_inv_edit [OF session_inv [OF assms], of e] by auto

lemma session_edit:
  assumes "edit_ok e (total_size b)" "log_inv b u"
  obtains b' where "do_edit e b = Some b'" "session\<^sup>*\<^sup>* (b, u) (b', False)"
  using log_inv_edit [OF assms(2,1)] session.s_edit [OF assms(1)] by blast

lemma undo_safe_witness:
  "\<exists>b. do_edit (Ins 0 [104, 105]) (alloc_buffer ''text'' BF_SAVELOG) = Some b \<and>
    buf_ok b \<and> nb_logs b \<le> 49 \<and> do_undo b False 1 \<noteq> None"
proof -
  have "edit_ok (Ins 0 [104, 105]) (total_size (alloc_buffer ''text'' BF_SAVELOG))"
    by (simp add: alloc_buffer_def eb_add_callback_def)
  then obtain b where "do_edit (Ins 0 [104, 105]) (alloc_buffer ''text'' BF_SAVELOG) = Some b"
    "session\<^sup>*\<^sup>* (alloc_buffer ''text'' BF_SAVELOG, False) (b, False)"
    using session_edit log_inv_alloc by metis
  then show ?thesis using undo_safe [of "''text''" BF_SAVELOG b False 1 "Del 0 0"]
    by (auto simp: NB_LOGS_MAX_def)
qed

text \<open>C5. Undo restores. In any reachable buffer that logs, after \<open>k\<close> edits that each
  make one entry, with \<open>2 k\<close> at most \<open>NB_LOGS_MAX - 1\<close>, \<open>k\<close> undos in a row bring back
  the text and the modified flag as they were before the edits.\<close>

theorem undo_restores:
  assumes "session\<^sup>*\<^sup>* (alloc_buffer name flags, False) (b, u)" "save_log b"
    "edits_ok es (total_size b)" "2 * length es \<le> NB_LOGS_MAX - 1"
  shows "\<exists>b1 b2. do_edits es b = Some b1 \<and> undo_times (length es) b1 False s = Some b2 \<and>
    contents b2 = contents b \<and> modified b2 = modified b"
  by (rule undo_times_restores [OF session_inv [OF assms(1)] assms(2-4)])

lemma alloc_buffer_simps [simp]:
  "save_log (alloc_buffer name BF_SAVELOG)" "total_size (alloc_buffer name flags) = 0"
  "contents (alloc_buffer name flags) = []" "\<not> modified (alloc_buffer name flags)"
  "callbacks (alloc_buffer name flags) = [0]"
  by (simp_all add: alloc_buffer_def eb_add_callback_def BF_SAVELOG_def contents_def)

lemma undo_restores_witness:
  "\<exists>b1 b2. do_edits [Ins 0 [104, 105], Wr 0 [72], Del 1 1] (alloc_buffer ''text'' BF_SAVELOG) = Some b1 \<and>
    undo_times 3 b1 False 1 = Some b2 \<and> contents b2 = [] \<and> \<not> modified b2"
  using undo_restores [of "''text''" BF_SAVELOG "alloc_buffer ''text'' BF_SAVELOG" False
      "[Ins 0 [104, 105], Wr 0 [72], Del 1 1]" 1]
  by (simp add: NB_LOGS_MAX_def numeral_3_eq_3)

fun list_edit :: "Edit \<Rightarrow> u8 list \<Rightarrow> u8 list" where
  "list_edit (Ins off bs) t = list_insert off bs t"
| "list_edit (Del off n) t = list_delete off n t"
| "list_edit (Wr off bs) t = list_write off bs t"

lemma a_edit_text: "edit_ok e (length (a_text a)) \<Longrightarrow> a_text (a_edit e a) = list_edit e (a_text a)"
  by (cases e) simp_all

text \<open>C6. The editing operations act on the text as on a list of bytes: in every
  reachable buffer, under its precondition, \<open>eb_insert\<close> inserts, \<open>eb_delete\<close> deletes and
  \<open>eb_write\<close> overwrites and extends past the end, and the size kept in the buffer is the
  length of the text.\<close>

theorem edits_refine_lists:
  assumes "session\<^sup>*\<^sup>* (alloc_buffer name flags, False) (b, u)" "edit_ok e (total_size b)"
  shows "\<exists>b'. do_edit e b = Some b' \<and> contents b' = list_edit e (contents b) \<and>
    total_size b' = length (contents b') \<and> session\<^sup>*\<^sup>* (b, u) (b', False)"
proof -
  obtain a where a: "refines b a" "undo_inv a u" "length (a_text a) < 2147483648"
    "total_size b = length (a_text a)" using log_invE [OF session_inv [OF assms(1)]] .
  obtain b' where b': "do_edit e b = Some b'" "refines b' (a_edit e a)"
    using do_edit_refines [OF a(1) assms(2) a(3)] by blast
  have "contents b' = list_edit e (contents b)"
    using refinesD(4) [OF b'(2)] refinesD(4) [OF a(1)] a_edit_text assms(2) a(4) by simp
  moreover have "total_size b' = length (contents b')"
    using refinesD(3,4) [OF b'(2)] by simp
  ultimately show ?thesis using b'(1) session.s_edit [OF assms(2) b'(1)] by blast
qed

lemma edits_refine_lists_witness:
  "\<exists>b. do_edit (Wr 0 [104, 105]) (alloc_buffer ''text'' BF_SAVELOG) = Some b \<and> contents b = [104, 105]"
  using edits_refine_lists [of "''text''" BF_SAVELOG "alloc_buffer ''text'' BF_SAVELOG" False "Wr 0 [104, 105]"]
  by (auto simp: list_write_def)

text \<open>Undoing a deletion moves the tracked positions twice. \<open>do_undo\<close> plays a
  \<open>LOGOP_DELETE\<close> entry with \<open>eb_insert_buffer\<close>, whose \<open>eb_addlog\<close> calls the callbacks, and
  then calls \<open>eb_addlog\<close> itself, which calls them again. A mark behind the deleted range is
  moved back by the deletion and forward twice by the undo: it ends \<open>n\<close> bytes behind the
  place it had, although the text is the same.\<close>

theorem undo_delete_moves_mark_twice:
  assumes "session\<^sup>*\<^sup>* (alloc_buffer name flags, False) (b, u)" "save_log b" "callbacks b = [m]"
    "off + n \<le> total_size b" "0 < n" "int (off + n) < tracked b m" "s \<noteq> m"
  shows "\<exists>b1 b2. eb_delete b off n = Some b1 \<and> tracked b1 m = tracked b m - int n \<and>
    do_undo b1 False s = Some b2 \<and> contents b2 = contents b \<and> tracked b2 m = tracked b m + int n"
proof -
  obtain a where a: "refines b a" "undo_inv a u" "length (a_text a) < 2147483648"
    "total_size b = length (a_text a)" using log_invE [OF session_inv [OF assms(1)]] .
  note r = refines_docD [OF refinesD(1) [OF a(1)]]
  have off: "off + n \<le> length (a_text a)" using assms(4) a(4) by simp
  obtain b1 where b1: "eb_delete b off n = Some b1" "refines b1 (a_delete a off n)"
    using eb_delete_refines [OF a(1) off a(3)] by blast
  obtain b2 where b2: "do_undo b1 False s = Some b2" "refines b2 (a_undo (a_delete a off n) False s)"
    using undo_refines [OF b1(2) undo_inv_delete [OF a(2) off]] by blast
  have "a_save a" "a_callbacks a = [m]" "int (off + n) < a_tracked a m"
    using assms(2,3,6) r(4,5,7) by simp_all
  note moved = undo_delete_tracked [OF this(1) off assms(5) this(2,3) assms(7)]
  show ?thesis
    using b1 b2 moved r(3,4) refines_docD(3,4) [OF refinesD(1) [OF b1(2)]]
      refines_docD(3,4) [OF refinesD(1) [OF b2(2)]] by auto
qed

lemma undo_delete_moves_mark_twice_witness:
  "\<exists>b b1 b2. eb_insert (alloc_buffer ''text'' BF_SAVELOG) 0 [104, 101, 108, 108, 111] = Some b \<and>
    eb_delete (b\<lparr>tracked := (tracked b)(0 := 4)\<rparr>) 0 3 = Some b1 \<and> tracked b1 0 = 1 \<and>
    do_undo b1 False 1 = Some b2 \<and> contents b2 = contents b \<and> tracked b2 0 = 7"
proof -
  let ?init = "alloc_buffer ''text'' BF_SAVELOG" and ?bs = "[104, 101, 108, 108, 111] :: u8 list"
  have ok: "edit_ok (Ins 0 ?bs) (total_size ?init)" by simp
  obtain b where b: "do_edit (Ins 0 ?bs) ?init = Some b" "contents b = list_edit (Ins 0 ?bs) (contents ?init)"
    "total_size b = length (contents b)" "session\<^sup>*\<^sup>* (?init, False) (b, False)" "save_log b"
    "callbacks b = [0]"
  proof -
    obtain a where "refines ?init a" "length (a_text a) < 2147483648"
      using log_invE [OF log_inv_alloc [of "''text''" BF_SAVELOG]] .
    moreover from this obtain b where "do_edit (Ins 0 ?bs) ?init = Some b" "refines b (a_edit (Ins 0 ?bs) a)"
      using do_edit_refines [OF _ ok] by blast
    moreover have "save_log b" "callbacks b = [0]"
      using calculation by (simp_all add: refines_def refines_doc_def a_insert_def)
    moreover have "contents b = list_edit (Ins 0 ?bs) (contents ?init)" "total_size b = length (contents b)"
      using calculation by (simp_all add: refines_def refines_doc_def)
    ultimately show thesis using that session.s_edit [OF ok] by blast
  qed
  let ?b = "b\<lparr>tracked := (tracked b)(0 := 4)\<rparr>"
  have s: "session\<^sup>*\<^sup>* (?init, False) (?b, False)"
    using b(4) session.s_move [of b False 0 4] by (rule rtranclp.rtrancl_into_rtrancl)
  have c: "contents ?b = contents b" by (simp add: contents_def)
  have "total_size ?b = 5" using b(2,3) by simp
  then have "\<exists>b1 b2. eb_delete ?b 0 3 = Some b1 \<and> tracked b1 0 = tracked ?b 0 - int 3 \<and>
    do_undo b1 False 1 = Some b2 \<and> contents b2 = contents ?b \<and> tracked b2 0 = tracked ?b 0 + int 3"
    using undo_delete_moves_mark_twice [OF s, of 0 0 3 1] b(5,6) by simp
  then show ?thesis using b(1) c by auto
qed

text \<open>An undone write cannot be redone. When \<open>do_undo\<close> plays a \<open>LOGOP_WRITE\<close>
  entry it restores the old bytes first and logs the write afterwards, so the entry it adds
  holds the restored bytes, not the ones it replaced: undoing the undo, after another command,
  leaves the text as the first undo made it.\<close>

theorem redo_of_write_does_nothing:
  assumes "session\<^sup>*\<^sup>* (alloc_buffer name flags, False) (b, u)" "save_log b"
    "off + length bs \<le> total_size b" "bs \<noteq> []"
  shows "\<exists>b1 b2 b3. eb_write b off bs = Some b1 \<and>
    contents b1 = list_write off bs (contents b) \<and>
    do_undo b1 False s = Some b2 \<and> contents b2 = contents b \<and>
    do_undo b2 False s = Some b3 \<and> contents b3 = contents b"
proof -
  obtain a where a: "refines b a" "undo_inv a u" "length (a_text a) < 2147483648"
    "total_size b = length (a_text a)" using log_invE [OF session_inv [OF assms(1)]] .
  have len: "off + length bs \<le> length (a_text a)" using assms(3) a(4) by simp
  define w where "w = (a_addlog a LOGOP_WRITE off (length bs))\<lparr>a_text := list_write off bs (a_text a)\<rparr>"
  have rw: "rw_size b off (length bs) = length bs" using assms(3) by (simp add: rw_size_def)
  have m: "length bs = min (length bs) (length (a_text a) - off)" "off \<le> length (a_text a)"
    using len by simp_all
  obtain b1 where b1: "eb_rw_write b off bs = Some (length bs, b1)" "refines b1 w"
    using eb_rw_write_refines [OF a(1,3) m] assms(4) by (auto simp: w_def)
  have inv: "undo_inv w False" unfolding w_def by (rule undo_inv_overwrite [OF a(2) len])
  obtain b2 where b2: "do_undo b1 False s = Some b2" "refines b2 (a_undo w False s)"
    using undo_refines [OF b1(2) inv] by blast
  have inv2: "undo_inv (a_undo w False s) False"
    using undo_inv_undo [OF inv] refinesD(1) [OF b1(2)] undo_inv_mono
    unfolding refines_doc_def log_rep_def by blast
  obtain b3 where b3: "do_undo b2 False s = Some b3" "refines b3 (a_undo (a_undo w False s) False s)"
    using undo_refines [OF b2(2) inv2] by blast
  have sv: "a_save a" using assms(2) refinesD(1) [OF a(1)] by (simp add: refines_doc_def)
  have wl: "a_log w = trim (a_log a) @ [\<lparr>le_op = LOGOP_WRITE, le_mod = a_modified a, le_off = off,
       le_size = length bs, le_data = list_slice off (length bs) (a_text a)\<rparr>]" "a_save w"
    "a_text w = list_write off bs (a_text a)"
    using sv by (simp_all add: w_def has_data_def)
  note u = undo_write_log [OF sv len assms(4) wl refl, where s = s]
  have "a_text (a_undo (a_undo w False s) False s) = a_text a"
    using u(2) [of "a_cur (a_undo w False s)"] by simp
  then have "contents b3 = contents b" "contents b2 = contents b"
    "contents b1 = list_write off bs (contents b)"
    using u(1) wl(3) refinesD(4) [OF b3(2)] refinesD(4) [OF b2(2)] refinesD(4) [OF b1(2)]
      refinesD(4) [OF a(1)] by simp_all
  moreover have "eb_write b off bs = Some b1" using b1(1) by (simp add: eb_write_def)
  ultimately show ?thesis using b2(1) b3(1) by blast
qed

lemma redo_of_write_does_nothing_witness:
  "\<exists>b b1 b2 b3. eb_insert (alloc_buffer ''text'' BF_SAVELOG) 0 [104, 105] = Some b \<and>
    eb_write b 0 [72] = Some b1 \<and> contents b1 = [72, 105] \<and>
    do_undo b1 False 1 = Some b2 \<and> contents b2 = [104, 105] \<and>
    do_undo b2 False 1 = Some b3 \<and> contents b3 = [104, 105]"
proof -
  let ?init = "alloc_buffer ''text'' BF_SAVELOG"
  have ok: "edit_ok (Ins 0 [104, 105]) (total_size ?init)" by simp
  obtain a where a: "refines ?init a" "length (a_text a) < 2147483648"
    using log_invE [OF log_inv_alloc [of "''text''" BF_SAVELOG]] .
  obtain b where b: "do_edit (Ins 0 [104, 105]) ?init = Some b" "refines b (a_edit (Ins 0 [104, 105]) a)"
    using do_edit_refines [OF a(1) ok a(2)] by blast
  have f: "save_log b" "contents b = [104, 105]" "total_size b = 2"
    using b(2) a(1) by (simp_all add: refines_def refines_doc_def list_insert_def)
  have "session\<^sup>*\<^sup>* (?init, False) (b, False)" using session.s_edit [OF ok b(1)] by blast
  from redo_of_write_does_nothing [OF this f(1), of 0 "[72]" 1] f b(1)
  show ?thesis by (simp add: list_write_def)
qed

end
