(* ===== verification/Lines.thy ===== *)
theory Lines
  imports Edit_Buffer
begin

text \<open>
  The line and character functions of \<open>src/buffer.c\<close>: moving over characters, lines and
  columns of a buffer and the positions cached in its pages. This theory holds the
  definitions; \<open>Line_Props\<close> proves what they compute.

  Offsets are \<open>int\<close>, since \<open>eb_prevc\<close> can make them negative. \<open>junk\<close> stands for the bytes
  that the local array of \<open>eb_nextc\<close> holds before it is filled: a decoder that runs into the
  end of the text reads them. Its length is \<open>MAX_CHAR_BYTES - 1\<close>, and a function that calls
  \<open>eb_nextc\<close> repeatedly finds the same bytes there each time, as the array has one place on
  the stack. \<open>None\<close> is an access outside an array.
\<close>

section \<open>Characters\<close>

definition eb_set_charset :: "EditBuffer \<Rightarrow> QECharset \<Rightarrow> EditBuffer" where
  "eb_set_charset b cs = b\<lparr>charset := cs, charset_state := charset_decode_init cs\<rparr>"

definition eb_nextc :: "EditBuffer \<Rightarrow> u8 list \<Rightarrow> int \<Rightarrow> (int \<times> int \<times> EditBuffer) option" where
  "eb_nextc b junk offset =
    (if offset \<ge> int (total_size b) then Some (10, int (total_size b), b)
     else do {
       guard (0 \<le> offset);
       (bs, b) \<leftarrow> eb_read b (nat offset) 1;
       guard (length bs = 1);
       let c0 = bs ! 0;
       let ch = table (charset_state b) ! unat c0;
       let offset = offset + 1;
       if ch = ESCAPE_CHAR
       then do {
         (bs, b) \<leftarrow> eb_read b (nat offset) (MAX_CHAR_BYTES - 1);
         let buf = c0 # bs @ drop (length bs) junk;
         f \<leftarrow> decode_func (charset_state b);
         (ch, p) \<leftarrow> f buf;
         Some (ch, offset + int (length buf - length p) - 1, b) }
       else Some (ch, offset, b) })"

definition cont :: "u8 \<Rightarrow> bool" where
  "cont c \<longleftrightarrow> 0x80 \<le> c \<and> c < 0xc0"

text \<open>
  The loop of \<open>eb_prevc\<close>, on the bytes \<open>q\<close> from its pointer to the end of its array. On a
  run of continuation bytes that is too long it gives up with the last byte, at
  \<open>offset + (buf - 1) - q\<close>; \<open>room\<close> is \<open>q - buf\<close>.
\<close>

fun prevc_loop :: "nat \<Rightarrow> EditBuffer \<Rightarrow> int \<Rightarrow> u8 list \<Rightarrow> (int \<times> int \<times> EditBuffer) option" where
  "prevc_loop 0 b offset q =
    (if cont (hd q) then Some (uint (last q), offset + -1, b)
     else do { (ch, _) \<leftarrow> utf8_decode q; Some (ch, offset, b) })"
| "prevc_loop (Suc room) b offset q =
    (if cont (hd q)
     then if offset = 0 then Some (uint (last q), offset + (-1 - int (Suc room)), b)
       else do {
         let offset = offset - 1;
         (bs, b) \<leftarrow> eb_read b (nat offset) 1;
         guard (length bs = 1);
         prevc_loop room b offset (bs ! 0 # q) }
     else do { (ch, _) \<leftarrow> utf8_decode q; Some (ch, offset, b) })"

definition eb_prevc :: "EditBuffer \<Rightarrow> int \<Rightarrow> (int \<times> int \<times> EditBuffer) option" where
  "eb_prevc b offset =
    (if offset \<le> 0 then Some (10, 0, b)
     else do {
       let offset = offset - 1;
       (bs, b) \<leftarrow> eb_read b (nat offset) 1;
       guard (length bs = 1);
       if charset b = Charset_utf8 then prevc_loop (MAX_CHAR_BYTES - 1) b offset [bs ! 0]
       else Some (uint (bs ! 0), offset, b) })"

section \<open>Lines and columns\<close>

text \<open>\<open>memchr (p, '\n', _)\<close> and the bytes after what it finds.\<close>

definition memchr_after :: "u8 list \<Rightarrow> u8 list option" where
  "memchr_after p = (case dropWhile (\<lambda>c. c \<noteq> 10) p of [] \<Rightarrow> None | _ # r \<Rightarrow> Some r)"

lemma memchr_after_length: "memchr_after p = Some r \<Longrightarrow> length r < length p"
  by (auto simp: memchr_after_def split: list.splits)
    (metis Suc_le_lessD length_Cons length_dropWhile_le)

function get_lines :: "u8 list \<Rightarrow> nat \<Rightarrow> nat \<times> u8 list" where
  "get_lines p line = (case memchr_after p of
       None \<Rightarrow> (line, p) | Some r \<Rightarrow> get_lines r (line + 1))"
  by pat_completeness auto
termination
  by (relation "measure (\<lambda>(p, line). length p)") (auto dest: memchr_after_length)

function get_cols :: "CharsetDecodeState \<Rightarrow> u8 list \<Rightarrow> nat" where
  "get_cols s [] = 0"
| "get_cols s (c # lp) =
     (if table s ! unat c = ESCAPE_CHAR then get_cols s (drop (utf8_length c - 1) lp) + 1
      else get_cols s lp + 1)"
  by pat_completeness auto
termination
  by (relation "measure (\<lambda>(s, lp). length lp)") auto

definition get_pos :: "u8 list \<Rightarrow> CharsetDecodeState \<Rightarrow> nat \<times> nat" where
  "get_pos buf s = (let (line, lp) = get_lines buf 0 in (line, get_cols s lp))"

text \<open>The cached position of a page.\<close>

definition page_pos :: "CharsetDecodeState \<Rightarrow> Page \<Rightarrow> Page" where
  "page_pos s p =
    (if \<not> has_flag p PG_VALID_POS
     then let (line, col) = get_pos (p_data p) s
          in p\<lparr>p_flags := p_flags p OR PG_VALID_POS, p_nb_lines := line, p_col := col\<rparr>
     else p)"

fun seek_line :: "u8 list \<Rightarrow> nat \<Rightarrow> u8 list option" where
  "seek_line q 0 = Some q"
| "seek_line q (Suc n) = do { q \<leftarrow> memchr_after q; seek_line q n }"

fun goto_col :: "EditBuffer \<Rightarrow> u8 list \<Rightarrow> int \<Rightarrow> nat \<Rightarrow> (int \<times> EditBuffer) option" where
  "goto_col b junk offset 0 = Some (offset, b)"
| "goto_col b junk offset (Suc n) = do {
     (c, offset1, b) \<leftarrow> eb_nextc b junk offset;
     if c \<noteq> 10 then goto_col b junk offset1 n else Some (offset, b) }"

function goto_pos_loop :: "EditBuffer \<Rightarrow> u8 list \<Rightarrow> nat \<Rightarrow> nat \<Rightarrow> nat \<Rightarrow> int \<Rightarrow> nat \<Rightarrow> nat
    \<Rightarrow> (int \<times> EditBuffer) option" where
  "goto_pos_loop b junk p line col offset line1 col1 =
    (if p < length (page_table b)
     then let pg = page_pos (charset_state b) (page_table b ! p);
              b = b\<lparr>page_table := (page_table b)[p := pg]\<rparr>;
              line2 = line + p_nb_lines pg;
              col2 = (if p_nb_lines pg \<noteq> 0 then 0 else col);
              col2 = col + p_col pg
          in if line2 > line1 \<or> line2 = line1 \<and> col2 \<ge> col1
             then do {
               q \<leftarrow> seek_line (p_data pg) (line1 - line);
               let col = (if line < line1 then 0 else col);
               let offset = offset + int (p_size pg - length q);
               goto_col b junk offset (col1 - col) }
             else goto_pos_loop b junk (p + 1) line2 col2 (offset + int (p_size pg)) line1 col1
     else Some (int (total_size b), b))"
  by pat_completeness auto
termination
  by (relation "measure (\<lambda>(b, junk, p, _). length (page_table b) - p)") auto

declare goto_pos_loop.simps [simp del]

definition eb_goto_pos :: "EditBuffer \<Rightarrow> u8 list \<Rightarrow> nat \<Rightarrow> nat \<Rightarrow> (int \<times> EditBuffer) option" where
  "eb_goto_pos b junk line1 col1 = goto_pos_loop b junk 0 0 0 0 line1 col1"

text \<open>\<open>eb_get_pos\<close> on the pages from \<open>p\<close> on; it returns them with their caches filled.\<close>

fun get_pos_loop :: "CharsetDecodeState \<Rightarrow> Page list \<Rightarrow> nat \<Rightarrow> nat \<Rightarrow> nat
    \<Rightarrow> (nat \<times> nat) \<times> Page list" where
  "get_pos_loop s [] line col offset = ((line, col), [])"
| "get_pos_loop s (p # ps) line col offset =
    (if offset < p_size p
     then let (line1, col1) = get_pos (take offset (p_data p)) s
          in ((line + line1, (if line1 \<noteq> 0 then 0 else col) + col1), p # ps)
     else let p = page_pos s p;
              (r, ps) = get_pos_loop s ps (line + p_nb_lines p)
                ((if p_nb_lines p \<noteq> 0 then 0 else col) + p_col p) (offset - p_size p)
          in (r, p # ps))"

definition eb_get_pos :: "EditBuffer \<Rightarrow> nat \<Rightarrow> (nat \<times> nat) \<times> EditBuffer" where
  "eb_get_pos b offset =
    (let (r, pt) = get_pos_loop (charset_state b) (page_table b) 0 0 offset
     in (r, b\<lparr>page_table := pt\<rparr>))"

section \<open>Character offsets\<close>

definition get_chars :: "u8 list \<Rightarrow> QECharset \<Rightarrow> nat" where
  "get_chars buf cs =
    (if cs \<noteq> Charset_utf8 then length buf
     else length (filter (\<lambda>c. c < 0x80 \<or> c \<ge> 0xc0) buf))"

text \<open>The loop of \<open>goto_char\<close>; it does not look at the end of the page.\<close>

fun goto_char_loop :: "u8 list \<Rightarrow> nat \<Rightarrow> nat \<Rightarrow> nat option" where
  "goto_char_loop [] nb_chars pos = None"
| "goto_char_loop (c # buf) nb_chars pos =
    (if c < 0x80 \<or> c \<ge> 0xc0
     then if nb_chars \<ge> pos then Some 0 else map_option Suc (goto_char_loop buf (nb_chars + 1) pos)
     else map_option Suc (goto_char_loop buf nb_chars pos))"

definition goto_char :: "u8 list \<Rightarrow> nat \<Rightarrow> QECharset \<Rightarrow> nat option" where
  "goto_char buf pos cs = (if cs \<noteq> Charset_utf8 then Some pos else goto_char_loop buf 0 pos)"

definition page_chars :: "QECharset \<Rightarrow> Page \<Rightarrow> Page" where
  "page_chars cs p =
    (if \<not> has_flag p PG_VALID_CHAR
     then p\<lparr>p_flags := p_flags p OR PG_VALID_CHAR, p_nb_chars := get_chars (p_data p) cs\<rparr>
     else p)"

fun goto_char_pages :: "QECharset \<Rightarrow> Page list \<Rightarrow> nat \<Rightarrow> (nat \<times> Page list) option" where
  "goto_char_pages cs [] pos = Some (0, [])"
| "goto_char_pages cs (p # ps) pos =
    (let p = page_chars cs p in
     if pos < p_nb_chars p then map_option (\<lambda>k. (k, p # ps)) (goto_char (p_data p) pos cs)
     else map_option (\<lambda>(k, ps). (p_size p + k, p # ps)) (goto_char_pages cs ps (pos - p_nb_chars p)))"

definition eb_goto_char :: "EditBuffer \<Rightarrow> nat \<Rightarrow> (nat \<times> EditBuffer) option" where
  "eb_goto_char b pos =
    (if charset b \<noteq> Charset_utf8 then Some (min pos (total_size b), b)
     else do {
       (offset, pt) \<leftarrow> goto_char_pages (charset b) (page_table b) pos;
       Some (offset, b\<lparr>page_table := pt\<rparr>) })"

fun char_offset_pages :: "QECharset \<Rightarrow> Page list \<Rightarrow> nat \<Rightarrow> nat \<times> Page list" where
  "char_offset_pages cs [] offset = (0, [])"
| "char_offset_pages cs (p # ps) offset =
    (if offset < p_size p then (get_chars (take offset (p_data p)) cs, p # ps)
     else let p = page_chars cs p; (k, ps) = char_offset_pages cs ps (offset - p_size p)
          in (p_nb_chars p + k, p # ps))"

definition eb_get_char_offset :: "EditBuffer \<Rightarrow> nat \<Rightarrow> nat \<times> EditBuffer" where
  "eb_get_char_offset b offset =
    (case decode_func (charset_state b) of
       None \<Rightarrow> (min offset (total_size b), b)
     | Some _ \<Rightarrow>
         let (pos, pt) = char_offset_pages (charset b) (page_table b) offset
         in (pos, b\<lparr>page_table := pt\<rparr>))"

section \<open>Whole lines\<close>

lemma prevc_loop_le:
  "prevc_loop room b offset q = Some (c, offset1, b') \<Longrightarrow> offset1 \<le> offset"
proof (induction room arbitrary: b offset q)
  case 0
  then show ?case by (auto simp: bind_eq_Some_conv split: if_splits)
next
  case (Suc room)
  then show ?case by (fastforce simp: bind_eq_Some_conv Let_def split: if_splits)
qed

lemma eb_prevc_less:
  assumes "eb_prevc b offset = Some (c, offset1, b')" "c \<noteq> 10"
  shows "offset > 0 \<and> offset1 < offset"
proof -
  have pos: "\<not> offset \<le> 0" using assms by (auto simp: eb_prevc_def)
  with assms(1) have "offset1 \<le> offset - 1"
    by (auto simp: eb_prevc_def Let_def bind_eq_Some_conv dest!: prevc_loop_le split: if_splits)
  with pos show ?thesis by simp
qed

function eb_goto_bol :: "EditBuffer \<Rightarrow> int \<Rightarrow> (int \<times> EditBuffer) option" where
  "eb_goto_bol b offset = (case eb_prevc b offset of
       None \<Rightarrow> None
     | Some (c, offset1, b) \<Rightarrow> if c = 10 then Some (offset, b) else eb_goto_bol b offset1)"
  by pat_completeness auto
termination
  by (relation "measure (\<lambda>(b, offset). nat offset)") (auto dest: eb_prevc_less)

text \<open>\<open>isspace\<close> of a value that is no \<open>unsigned char\<close> is undefined.\<close>

definition isspace :: "int \<Rightarrow> bool option" where
  "isspace c = (if 0 \<le> c \<and> c < 256 then Some (c = 32 \<or> 9 \<le> c \<and> c \<le> 13) else None)"

partial_function (option) eb_is_empty_line ::
    "EditBuffer \<Rightarrow> u8 list \<Rightarrow> int \<Rightarrow> (bool \<times> EditBuffer) option" where
  "eb_is_empty_line b junk offset = do {
     (c, offset, b) \<leftarrow> eb_nextc b junk offset;
     if c = 10 then Some (True, b)
     else do {
       sp \<leftarrow> isspace c;
       if sp then eb_is_empty_line b junk offset else Some (False, b) } }"

partial_function (option) eb_next_line ::
    "EditBuffer \<Rightarrow> u8 list \<Rightarrow> int \<Rightarrow> (int \<times> EditBuffer) option" where
  "eb_next_line b junk offset = do {
     (c, offset, b) \<leftarrow> eb_nextc b junk offset;
     if c = 10 then Some (offset, b) else eb_next_line b junk offset }"

text \<open>\<open>eb_get_line\<close>: \<open>room\<close> characters still fit; the rest of the line is skipped.\<close>

partial_function (option) eb_get_line ::
    "EditBuffer \<Rightarrow> u8 list \<Rightarrow> nat \<Rightarrow> int \<Rightarrow> (int list \<times> int \<times> EditBuffer) option" where
  "eb_get_line b junk room offset = do {
     (c, offset, b) \<leftarrow> eb_nextc b junk offset;
     if c = 10 then Some ([], offset, b)
     else do {
       (cs, offset, b) \<leftarrow> eb_get_line b junk (room - 1) offset;
       Some (if room > 0 then c # cs else cs, offset, b) } }"

text \<open>\<open>eb_get_strline\<close> stores the characters as \<open>char\<close>s, which cuts off their high bits.\<close>

definition eb_get_strline ::
    "EditBuffer \<Rightarrow> u8 list \<Rightarrow> nat \<Rightarrow> int \<Rightarrow> (u8 list \<times> int \<times> EditBuffer) option" where
  "eb_get_strline b junk buf_size offset = do {
     guard (0 < buf_size);
     (cs, offset, b) \<leftarrow> eb_get_line b junk (buf_size - 1) offset;
     Some (map byte cs @ [0], offset, b) }"

definition eb_get_str :: "EditBuffer \<Rightarrow> nat \<Rightarrow> (u8 list \<times> EditBuffer) option" where
  "eb_get_str b buf_size = do {
     guard (0 < buf_size);
     let len = min (total_size b) (buf_size - 1);
     (bs, b) \<leftarrow> eb_read b 0 len;
     Some (bs @ [0], b) }"

text \<open>\<open>eb_printf\<close> of the formatted text \<open>s\<close>, through a local array of 1024 bytes.\<close>

definition eb_printf :: "EditBuffer \<Rightarrow> u8 list \<Rightarrow> EditBuffer option" where
  "eb_printf b s = do {
     bs \<leftarrow> vsnprintf_bytes 1024 s;
     eb_insert b (total_size b) bs }"

function line_pad_count :: "EditBuffer \<Rightarrow> int \<Rightarrow> nat \<Rightarrow> (nat \<times> EditBuffer) option" where
  "line_pad_count b offset i = (case eb_prevc b offset of
       None \<Rightarrow> None
     | Some (c, offset1, b) \<Rightarrow> if c = 10 then Some (i, b) else line_pad_count b offset1 (i + 1))"
  by pat_completeness auto
termination
  by (relation "measure (\<lambda>(b, offset, i). nat offset)") (auto dest: eb_prevc_less)

fun pad_spaces :: "EditBuffer \<Rightarrow> nat \<Rightarrow> EditBuffer option" where
  "pad_spaces b 0 = Some b"
| "pad_spaces b (Suc n) = do { b \<leftarrow> eb_printf b [32]; pad_spaces b n }"

definition eb_line_pad :: "EditBuffer \<Rightarrow> nat \<Rightarrow> EditBuffer option" where
  "eb_line_pad b n = do {
     (i, b) \<leftarrow> line_pad_count b (int (total_size b)) 0;
     pad_spaces b (n - i) }"

declare eb_goto_bol.simps [simp del] line_pad_count.simps [simp del]
  get_lines.simps [simp del]

text \<open>The loops without a termination proof are executable by their equations.\<close>

declare eb_is_empty_line.simps [code] eb_next_line.simps [code] eb_get_line.simps [code]

end
