(* ===== verification/Page_Caches.thy ===== *)
theory Page_Caches
  imports Lines Undo
begin

text \<open>
  The values cached in pages. A page caches its lines, columns and characters under the flags
  \<open>PG_VALID_POS\<close> and \<open>PG_VALID_CHAR\<close>; a function that trusts a flag is right only if every
  operation that changes a page clears it. The locale \<open>page_pred\<close> states what a predicate on
  pages needs for all editing operations to keep it, and \<open>cache_valid\<close> is the predicate
  that the caches are right.
\<close>

section \<open>Predicates that editing keeps\<close>

abbreviation all_pages :: "(Page \<Rightarrow> bool) \<Rightarrow> 'a PageBuf_scheme \<Rightarrow> bool" where
  "all_pages Q b \<equiv> list_all Q (page_table b)"

lemma find_page_table: "find_page b off = Some (i, k, b') \<Longrightarrow> page_table b' = page_table b"
  by (auto simp: find_page_def find_page_walk_def bind_eq_Some_conv split: option.splits if_splits)

lemma eb_read_table: "eb_read b off n = Some (bs, b') \<Longrightarrow> page_table b' = page_table b"
  by (auto simp: eb_read_def Let_def bind_eq_Some_conv dest: find_page_table split: if_splits)

lemma insert_pages_src: "insert_pages d off s soff n = Some (d', s') \<Longrightarrow> page_table s' = page_table s"
  by (auto simp: insert_pages_def Let_def bind_eq_Some_conv dest: find_page_table split: if_splits)

lemma list_all_update: "list_all Q pt \<Longrightarrow> Q p \<Longrightarrow> list_all Q (pt[i := p])"
  by (auto simp: list_all_iff dest!: set_update_subset_insert [THEN subsetD])

lemma list_all_take_drop: "list_all Q pt \<Longrightarrow> list_all Q (take i pt)" "list_all Q pt \<Longrightarrow> list_all Q (drop i pt)"
  by (auto simp: list_all_iff dest: in_set_takeD in_set_dropD)

locale page_pred =
  fixes Q :: "Page \<Rightarrow> bool"
  assumes updated: "Q ((update_page p)\<lparr>p_data := d\<rparr>)"
    and fresh: "Q \<lparr>p_data = d, p_flags = 0, p_nb_lines = 0, p_col = 0, p_nb_chars = 0\<rparr>"
    and copied: "Q (copy_page p)"
begin

lemma stored: "page_store (update_page p) d = Some p' \<Longrightarrow> Q p'"
  using updated by auto

lemma new_pages_all: "list_all Q (new_pages buf)"
  by (induction buf rule: new_pages.induct) (subst new_pages.simps, auto simp: Let_def fresh)

lemma eb_insert1_all: "eb_insert1 pt i buf = Some pt' \<Longrightarrow> list_all Q pt \<Longrightarrow> list_all Q pt'"
  by (auto simp: eb_insert1_def Let_def bind_eq_Some_conv new_pages_all list_all_take_drop
      list_all_update updated split: if_splits)

lemma insert_in_page_all:
  "insert_in_page pt i off buf = Some (pt', buf') \<Longrightarrow> list_all Q pt \<Longrightarrow> list_all Q pt'"
  by (auto simp: insert_in_page_def Let_def bind_eq_Some_conv list_all_update updated
      dest: eb_insert1_all split: if_splits)

lemma eb_insert_lowlevel_all:
  assumes "eb_insert_lowlevel b off buf = Some b'" "all_pages Q b"
  shows "all_pages Q b'"
  using assms
  by (auto simp: eb_insert_lowlevel_def Let_def bind_eq_Some_conv
      dest!: find_page_table split: if_splits)
    (auto dest: eb_insert1_all insert_in_page_all)

lemma rw_write_all: "rw_write ps off buf = Some ps' \<Longrightarrow> list_all Q ps \<Longrightarrow> list_all Q ps'"
proof (induction ps off buf arbitrary: ps' rule: rw_write.induct)
  case (3 p ps off x xs)
  then show ?case
    by (auto simp: Let_def updated split: if_splits)
qed auto

lemma rw_store_all: "rw_store b off buf = Some b' \<Longrightarrow> all_pages Q b \<Longrightarrow> all_pages Q b'"
  by (auto simp: rw_store_def bind_eq_Some_conv list_all_take_drop dest!: find_page_table)
    (metis rw_write_all list_all_take_drop(2))

lemma cut_page_all: "cut_page b off = Some (b', i) \<Longrightarrow> all_pages Q b \<Longrightarrow> all_pages Q b'"
  by (auto simp: cut_page_def bind_eq_Some_conv updated intro!: list_all_update dest!: find_page_table
      split: if_splits)
    (metis eb_insert1_all)

lemma copies_all: "list_all Q pt \<Longrightarrow> list_all Q (take i pt @ map copy_page ps @ drop i pt)"
  by (auto simp: list_all_iff copied dest: in_set_takeD in_set_dropD)

lemma insert_page_run_all:
  "insert_page_run b i ps n = Some b' \<Longrightarrow> all_pages Q b \<Longrightarrow> all_pages Q b'"
  using copies_all
  by (auto simp: insert_page_run_def Let_def bind_eq_Some_conv simp del: list_all_append
      dest!: eb_insert1_all split: if_splits)

lemma insert_pages_all:
  "insert_pages d off s soff n = Some (d', s') \<Longrightarrow> all_pages Q d \<Longrightarrow> all_pages Q d'"
  by (auto simp: insert_pages_def Let_def bind_eq_Some_conv split: if_splits
      dest: eb_insert_lowlevel_all cut_page_all insert_page_run_all)

lemma delete_loop_all:
  "delete_loop pt p off n s k = Some (pt', s', k') \<Longrightarrow> list_all Q pt \<Longrightarrow> list_all Q pt'"
proof (induction pt p off n s k rule: delete_loop.induct)
  case (1 pt p off n s k)
  let ?q = "pt ! p"
  define len where "len = min (p_size ?q - off) n"
  let ?d = "take off (p_data ?q) @ drop (off + len) (p_data ?q)"
  let ?p = "(update_page ?q)\<lparr>p_data := ?d\<rparr>"
  note step = "1.prems"(1) [unfolded delete_loop.simps [of pt p off n s k] Let_def, folded len_def]
  show ?case
  proof (cases "n = 0")
    case True
    then show ?thesis using step "1.prems"(2) by simp
  next
    case n: False
    then have p: "\<not> length pt \<le> p" using step by (simp split: if_splits)
    show ?thesis
    proof (cases "len = p_size ?q")
      case True
      then show ?thesis
        using "1.IH"(1) [OF n p refl refl len_def True] step n p "1.prems"(2) by simp
    next
      case False
      have ok: "list_all Q (pt[p := ?p])" using "1.prems"(2) updated by (rule list_all_update)
      note store = page_store_update [of ?q ?d]
      have step: "(if p_size ?p \<le> off + len
          then delete_loop (pt[p := ?p]) (p + 1) 0 (n - len) s k
          else delete_loop (pt[p := ?p]) p (off + len) (n - len) s k) = Some (pt', s', k')"
        using step unfolding if_not_P [OF n] if_not_P [OF p] if_not_P [OF False] store option.case .
      show ?thesis
      proof (cases "p_size ?p \<le> off + len")
        case True
        then show ?thesis
          using "1.IH"(2) [OF n p refl refl len_def False store True] ok
            step [unfolded if_P [OF True]] by simp
      next
        case le: False
        then show ?thesis
          using "1.IH"(3) [OF n p refl refl len_def False store le] ok
            step [unfolded if_not_P [OF le]] by simp
      qed
    qed
  qed
qed

lemma delete_pages_all: "delete_pages b off n = Some b' \<Longrightarrow> all_pages Q b \<Longrightarrow> all_pages Q b'"
  by (auto simp: delete_pages_def Let_def bind_eq_Some_conv list_all_take_drop
      dest!: find_page_table delete_loop_all split: option.splits)

end
section \<open>What the operations leave alone\<close>

lemma find_page_more: "find_page b off = Some (i, k, b') \<Longrightarrow> PageBuf.more b' = PageBuf.more b"
  by (auto simp: find_page_def find_page_walk_def bind_eq_Some_conv split: option.splits if_splits)

lemma eb_read_more: "eb_read b off n = Some (bs, b') \<Longrightarrow> PageBuf.more b' = PageBuf.more b"
  by (auto simp: eb_read_def Let_def bind_eq_Some_conv dest: find_page_more split: if_splits)

lemma eb_insert_lowlevel_more: "eb_insert_lowlevel b off buf = Some b' \<Longrightarrow> PageBuf.more b' = PageBuf.more b"
  by (auto simp: eb_insert_lowlevel_def Let_def bind_eq_Some_conv dest!: find_page_more split: if_splits)

lemma rw_store_more: "rw_store b off buf = Some b' \<Longrightarrow> PageBuf.more b' = PageBuf.more b"
  by (auto simp: rw_store_def bind_eq_Some_conv dest: find_page_more)

lemma delete_pages_more: "delete_pages b off n = Some b' \<Longrightarrow> PageBuf.more b' = PageBuf.more b"
  by (auto simp: delete_pages_def Let_def bind_eq_Some_conv dest: find_page_more)

lemma insert_pages_more:
  assumes "insert_pages d off s soff n = Some (d', s')"
  shows "PageBuf.more d' = PageBuf.more d" "PageBuf.more s' = PageBuf.more s"
proof -
  have cut: "cut_page x o1 = Some (x', i) \<Longrightarrow> PageBuf.more x' = PageBuf.more x" for x x' o1 i
    by (auto simp: cut_page_def bind_eq_Some_conv dest: find_page_more split: if_splits)
  have run: "insert_page_run x i ps n1 = Some x' \<Longrightarrow> PageBuf.more x' = PageBuf.more x" for x x' i ps n1
    by (auto simp: insert_page_run_def Let_def bind_eq_Some_conv)
  show "PageBuf.more d' = PageBuf.more d" "PageBuf.more s' = PageBuf.more s"
    using assms
    by (auto simp: insert_pages_def Let_def bind_eq_Some_conv split: if_splits
        dest!: find_page_more eb_insert_lowlevel_more cut run)
qed

lemmas more_intros = find_page_more eb_read_more eb_insert_lowlevel_more rw_store_more delete_pages_more
  insert_pages_more

text \<open>The part of a buffer that the cached values depend on.\<close>

definition view :: "EditBuffer \<Rightarrow> QECharset \<times> CharsetDecodeState" where
  "view b = (charset b, charset_state b)"

lemma view_more:
  assumes "PageBuf.more b' = PageBuf.more b"
  shows "view b' = view b"
  unfolding view_def more_eqD [OF assms] by (rule refl)

lemma view_simps [simp]:
  "view (b\<lparr>page_table := x\<rparr>) = view b" "view (b\<lparr>total_size := n\<rparr>) = view b"
  "view (b\<lparr>cur_page := c\<rparr>) = view b" "view (b\<lparr>tracked := m\<rparr>) = view b"
  "view (b\<lparr>modified := v\<rparr>) = view b" "view (b\<lparr>save_log := v\<rparr>) = view b"
  "view (b\<lparr>log_new_index := n\<rparr>) = view b" "view (b\<lparr>log_current := n\<rparr>) = view b"
  "view (b\<lparr>log_buffer := l\<rparr>) = view b" "view (b\<lparr>nb_logs := n\<rparr>) = view b"
  by (simp_all add: view_def)

lemma drop_least_recent_doc:
  "drop_least_recent l b = Some (l', b') \<Longrightarrow> page_table b' = page_table b \<and> view b' = view b"
  by (cases "nb_logs b \<ge> NB_LOGS_MAX - 1")
    (auto simp: drop_least_recent_def Let_def bind_eq_Some_conv split del: if_split)

lemma log_data_doc:
  "log_data l b op off n = Some (l', b', k) \<Longrightarrow> page_table b' = page_table b \<and> view b' = view b"
  by (auto simp: log_data_def bind_eq_Some_conv dest: insert_pages_src
      insert_pages_more(2) [THEN view_more] split: if_splits)

lemma eb_addlog_doc:
  assumes "eb_addlog b op off n = Some b'"
  shows "page_table b' = page_table b" "view b' = view b"
  using assms
  by (auto simp: eb_addlog_def Let_def bind_eq_Some_conv dest!: drop_least_recent_doc log_data_doc
      split: if_splits)

lemma log_read_doc:
  "log_read b i n = Some (bs, b') \<Longrightarrow> page_table b' = page_table b \<and> view b' = view b"
  by (auto simp: log_read_def bind_eq_Some_conv)

context page_pred
begin

lemma eb_insert_all: "eb_insert b off bs = Some b' \<Longrightarrow> all_pages Q b \<Longrightarrow> all_pages Q b' \<and> view b' = view b"
  using eb_insert_lowlevel_all eb_insert_lowlevel_more [THEN view_more] eb_addlog_doc
  by (fastforce simp: eb_insert_def bind_eq_Some_conv)

lemma eb_insert_buffer_all:
  "eb_insert_buffer b off s soff n = Some (b', s') \<Longrightarrow> all_pages Q b \<Longrightarrow> all_pages Q b' \<and> view b' = view b"
  using insert_pages_all insert_pages_more(1) [THEN view_more] eb_addlog_doc
  by (fastforce simp: eb_insert_buffer_def bind_eq_Some_conv split: if_splits)

lemma eb_delete_all: "eb_delete b off n = Some b' \<Longrightarrow> all_pages Q b \<Longrightarrow> all_pages Q b' \<and> view b' = view b"
  using delete_pages_all delete_pages_more [THEN view_more] eb_addlog_doc
  by (fastforce simp: eb_delete_def Let_def bind_eq_Some_conv split: if_splits)

lemma eb_write_all: "eb_write b off bs = Some b' \<Longrightarrow> all_pages Q b \<Longrightarrow> all_pages Q b' \<and> view b' = view b"
  using rw_store_all rw_store_more [THEN view_more] eb_addlog_doc eb_insert_all
  by (fastforce simp: eb_write_def eb_rw_write_def Let_def bind_eq_Some_conv split: if_splits)

lemma do_edit_all: "do_edit e b = Some b' \<Longrightarrow> all_pages Q b \<Longrightarrow> all_pages Q b' \<and> view b' = view b"
  using eb_insert_all eb_delete_all eb_write_all by (cases e) auto

lemma insert_from_log_all:
  "insert_from_log b off i n = Some b' \<Longrightarrow> all_pages Q b \<Longrightarrow> all_pages Q b' \<and> view b' = view b"
  using eb_insert_buffer_all by (fastforce simp: insert_from_log_def bind_eq_Some_conv)


lemma play_entry_all:
  assumes "play_entry b s lb i = Some b'" "all_pages Q b"
  shows "all_pages Q b' \<and> view b' = view b"
proof -
  have rest: "all_pages Q b2 \<and> view b2 = view b1"
    if "eb_addlog (b1\<lparr>save_log := v\<rparr>) op off n = Some b2" "all_pages Q b1" for b1 v op off n b2
    using eb_addlog_doc [OF that(1)] that(2) by simp
  have ins: "all_pages Q b2 \<and> view b2 = view b"
    if "insert_from_log b1 off i n = Some b2" "all_pages Q b1 \<and> view b1 = view b" for b1 off n b2
    using insert_from_log_all [OF that(1)] that(2) by simp
  have start: "all_pages Q (b\<lparr>save_log := False\<rparr>) \<and> view (b\<lparr>save_log := False\<rparr>) = view b"
    using assms(2) by simp
  have del: "all_pages Q b2 \<and> view b2 = view b"
    if "eb_delete b1 off n = Some b2" "all_pages Q b1 \<and> view b1 = view b" for b1 off n b2
    using eb_delete_all [OF that(1)] that(2) by simp
  consider "lb_op lb = op_code LOGOP_WRITE" | "lb_op lb = op_code LOGOP_DELETE"
    | "lb_op lb = op_code LOGOP_INSERT"
    using assms(1) by (fastforce simp: play_entry_def bind_eq_Some_conv split: if_splits)
  then show ?thesis
  proof cases
    case 1
    then obtain b1 b2 b3 where "eb_delete (b\<lparr>save_log := False\<rparr>) (nat (lb_offset lb)) (nat (lb_size lb)) = Some b1"
      "insert_from_log b1 (nat (lb_offset lb)) i (nat (lb_size lb)) = Some b2"
      "eb_addlog (b2\<lparr>save_log := save_log b\<rparr>) LOGOP_WRITE (nat (lb_offset lb)) (nat (lb_size lb)) = Some b3"
      "page_table b' = page_table b3" "view b' = view b3"
      using assms(1) by (auto simp: play_entry_def Let_def bind_eq_Some_conv)
    then show ?thesis using del [OF _ start] ins rest by metis
  next
    case 2
    then obtain b2 b3 where
      "insert_from_log (b\<lparr>save_log := False\<rparr>) (nat (lb_offset lb)) i (nat (lb_size lb)) = Some b2"
      "eb_addlog (b2\<lparr>save_log := save_log b\<rparr>) LOGOP_INSERT (nat (lb_offset lb)) (nat (lb_size lb)) = Some b3"
      "page_table b' = page_table b3" "view b' = view b3"
      using assms(1) by (auto simp: play_entry_def Let_def bind_eq_Some_conv)
    then show ?thesis using ins [OF _ start] rest by metis
  next
    case 3
    then obtain b1 where "eb_delete b (nat (lb_offset lb)) (nat (lb_size lb)) = Some b1"
      "page_table b' = page_table b1" "view b' = view b1"
      using assms(1) by (auto simp: play_entry_def Let_def bind_eq_Some_conv)
    then show ?thesis using eb_delete_all assms(2) by metis
  qed
qed

lemma do_undo_all:
  assumes "do_undo b again s = Some b'" "all_pages Q b"
  shows "all_pages Q b' \<and> view b' = view b"
proof -
  define b1 where "b1 = (if \<not> again then b\<lparr>log_current := 0\<rparr> else b)"
  have b1: "all_pages Q b1" "view b1 = view b" using assms(2) by (simp_all add: b1_def)
  have "all_pages Q b' \<and> view b' = view b1 \<or> b' = b"
    using assms(1) b1(1) play_entry_all
    unfolding do_undo_def Let_def b1_def [symmetric]
    by (fastforce simp: bind_eq_Some_conv dest: log_read_doc split: if_splits)
  then show ?thesis using b1 assms(2) by auto
qed

end

section \<open>The caches are right\<close>

definition cache_valid :: "CharsetDecodeState \<Rightarrow> QECharset \<Rightarrow> Page \<Rightarrow> bool" where
  "cache_valid s cs p \<longleftrightarrow>
     (has_flag p PG_VALID_POS \<longrightarrow> (p_nb_lines p, p_col p) = get_pos (p_data p) s) \<and>
     (has_flag p PG_VALID_CHAR \<longrightarrow> p_nb_chars p = get_chars (p_data p) cs)"

lemma has_flag_data [simp]: "has_flag (p\<lparr>p_data := d\<rparr>) f = has_flag p f"
  by (simp add: has_flag_def)

interpretation caches: page_pred "cache_valid s cs" for s cs
proof
  fix p d
  show "cache_valid s cs ((update_page p)\<lparr>p_data := d\<rparr>)"
    by (simp add: cache_valid_def update_page_flags)
  show "cache_valid s cs \<lparr>p_data = d, p_flags = 0, p_nb_lines = 0, p_col = 0, p_nb_chars = 0\<rparr>"
    by (simp add: cache_valid_def has_flag_def)
  show "cache_valid s cs (copy_page p)"
    by (simp add: cache_valid_def has_flag_def copy_page_def PG_READ_ONLY_def PG_VALID_POS_def
        PG_VALID_CHAR_def)
qed

definition cached :: "EditBuffer \<Rightarrow> bool" where
  "cached b \<longleftrightarrow> all_pages (cache_valid (charset_state b) (charset b)) b"

lemma cached_all: "(\<And>Q. page_pred Q \<Longrightarrow> all_pages Q b \<Longrightarrow> all_pages Q b' \<and> view b' = view b) \<Longrightarrow>
    cached b \<Longrightarrow> cached b'"
  using caches.page_pred_axioms unfolding cached_def view_def by (metis prod.inject)

lemma page_pos_data [simp]: "p_data (page_pos s p) = p_data p"
  and page_chars_data [simp]: "p_data (page_chars cs p) = p_data p"
  by (simp_all add: page_pos_def page_chars_def split: prod.split)

lemma page_pos_valid:
  assumes "cache_valid s cs p"
  shows "cache_valid s cs (page_pos s p)" "(p_nb_lines (page_pos s p), p_col (page_pos s p)) = get_pos (p_data p) s"
  using assms
  by (auto simp: page_pos_def cache_valid_def has_flag_def bit.conj_disj_distrib2 PG_VALID_POS_def
      PG_VALID_CHAR_def split: prod.splits)

lemma page_chars_valid:
  assumes "cache_valid s cs p"
  shows "cache_valid s cs (page_chars cs p)" "p_nb_chars (page_chars cs p) = get_chars (p_data p) cs"
  using assms
  by (auto simp: page_chars_def cache_valid_def has_flag_def bit.conj_disj_distrib2 PG_VALID_POS_def
      PG_VALID_CHAR_def split: prod.splits)

end
