(* ===== verification/Line_Props.thy ===== *)
theory Line_Props
  imports Page_Caches
begin

text \<open>
  What the line and character functions compute: line and column of an offset and the way
  back, character counts in UTF-8 text, and moving forward and backward over characters. For
  each there is a specification on the bytes of the whole text; the functions work page by
  page with cached values.
\<close>

section \<open>Lines and columns\<close>

text \<open>The line and column after the bytes \<open>t\<close>, in a charset of one byte per character.\<close>

definition line_col :: "u8 list \<Rightarrow> nat \<times> nat" where
  "line_col t = (count_list t 10, length (takeWhile (\<lambda>c. c \<noteq> 10) (rev t)))"

definition then_pos :: "nat \<times> nat \<Rightarrow> nat \<times> nat \<Rightarrow> nat \<times> nat" where
  "then_pos p q = (fst p + fst q, (if fst q \<noteq> 0 then 0 else snd p) + snd q)"

definition one_byte :: "CharsetDecodeState \<Rightarrow> bool" where
  "one_byte s \<longleftrightarrow> (\<forall>c < 256. table s ! c \<noteq> ESCAPE_CHAR)"

lemma one_byte_init [simp]:
  "one_byte (charset_decode_init Charset_8859_1)" "one_byte (charset_decode_init Charset_7bit)"
  by (simp_all add: one_byte_def table_idem_def ESCAPE_CHAR_def)

lemma count_list_zero: "count_list t x = 0 \<longleftrightarrow> x \<notin> set t"
  by (induction t) auto

lemma takeWhile_all: "10 \<notin> set t \<Longrightarrow> takeWhile (\<lambda>c. c \<noteq> (10 :: u8)) (rev t) = rev t"
  by (auto intro: takeWhile_eq_all_conv [THEN iffD2])

lemma line_col_append: "line_col (a @ b) = then_pos (line_col a) (line_col b)"
proof (cases "10 \<in> set b")
  case True
  then have "takeWhile (\<lambda>c. c \<noteq> 10) (rev b @ rev a) = takeWhile (\<lambda>c. c \<noteq> 10) (rev b)"
    by (intro takeWhile_append1 [of 10]) auto
  with True show ?thesis
    by (auto simp: line_col_def then_pos_def count_list_zero)
next
  case False
  then have "takeWhile (\<lambda>c. c \<noteq> 10) (rev b @ rev a) = rev b @ takeWhile (\<lambda>c. c \<noteq> 10) (rev a)"
    by (intro takeWhile_append2) auto
  with False show ?thesis
    by (simp add: line_col_def then_pos_def count_list_zero takeWhile_all)
qed

lemma memchr_after_None: "memchr_after p = None \<longleftrightarrow> 10 \<notin> set p"
  by (auto simp: memchr_after_def split: list.splits)
    (metis (mono_tags, lifting) dropWhile_eq_Nil_conv list.distinct(1))

lemma memchr_after_Some:
  assumes "memchr_after p = Some r"
  obtains a where "p = a @ 10 # r" "10 \<notin> set a"
proof -
  obtain x where x: "dropWhile (\<lambda>c. c \<noteq> 10) p = x # r"
    using assms by (auto simp: memchr_after_def split: list.splits)
  then have "x = 10" by (metis (mono_tags, lifting) hd_dropWhile list.sel(1) list.distinct(1))
  with x have "p = takeWhile (\<lambda>c. c \<noteq> 10) p @ 10 # r" by (metis takeWhile_dropWhile_id)
  moreover have "10 \<notin> set (takeWhile (\<lambda>c. c \<noteq> 10) p)" by (auto dest: set_takeWhileD)
  ultimately show thesis using that by blast
qed

lemma memchr_after_append: "10 \<notin> set a \<Longrightarrow> memchr_after (a @ 10 # r) = Some r"
proof -
  assume "10 \<notin> set a"
  then have "dropWhile (\<lambda>c. c \<noteq> 10) (a @ 10 # r) = dropWhile (\<lambda>c. c \<noteq> 10) (10 # r)"
    by (intro dropWhile_append2) auto
  then show ?thesis by (simp add: memchr_after_def)
qed

lemma line_col_line: "10 \<notin> set a \<Longrightarrow> line_col (a @ 10 # r) = (1 + fst (line_col r), snd (line_col r))"
proof -
  assume "10 \<notin> set a"
  then have "line_col (a @ [10]) = (1, 0)" by (simp add: line_col_def count_list_zero)
  then show ?thesis using line_col_append [of "a @ [10]" r] by (simp add: then_pos_def)
qed

lemma get_lines_correct:
  "fst (get_lines p n) = n + fst (line_col p) \<and> length (snd (get_lines p n)) = snd (line_col p)"
proof (induction p n rule: get_lines.induct)
  case (1 p n)
  show ?case
  proof (cases "memchr_after p")
    case None
    then have "10 \<notin> set p" by (simp add: memchr_after_None)
    then have "line_col p = (0, length p)" by (simp add: line_col_def count_list_zero takeWhile_all)
    with None show ?thesis by (subst (1 2) get_lines.simps) simp
  next
    case (Some r)
    then obtain a where "p = a @ 10 # r" "10 \<notin> set a" by (rule memchr_after_Some)
    with 1 [OF Some] Some show ?thesis
      by (subst (1 2) get_lines.simps) (simp add: line_col_line)
  qed
qed

lemma get_cols_one_byte: "one_byte s \<Longrightarrow> get_cols s lp = length lp"
  by (induction s lp rule: get_cols.induct) (auto simp: one_byte_def u8_less)

lemma get_pos_one_byte: "one_byte s \<Longrightarrow> get_pos buf s = line_col buf"
  using get_lines_correct [of buf 0]
  by (auto simp: get_pos_def get_cols_one_byte prod_eq_iff split: prod.splits)

lemma get_pos_loop_correct:
  assumes "one_byte s" "list_all (cache_valid s cs) ps"
  shows "fst (get_pos_loop s ps line col off) =
      then_pos (line, col) (line_col (take off (page_bytes ps)))"
  using assms(2)
proof (induction ps arbitrary: line col off)
  case Nil
  then show ?case by (simp add: line_col_def then_pos_def)
next
  case (Cons p ps)
  note get_pos_one_byte [OF assms(1), simp]
  show ?case
  proof (cases "off < p_size p")
    case True
    then show ?thesis by (simp add: then_pos_def split: prod.split)
  next
    case False
    let ?p = "page_pos s p"
    have "(p_nb_lines ?p, p_col ?p) = line_col (p_data p)"
      using page_pos_valid(2) [of s cs p] Cons.prems by simp
    then have pos: "p_nb_lines ?p = fst (line_col (p_data p))" "p_col ?p = snd (line_col (p_data p))"
      by (metis fst_conv snd_conv)+
    have "take off (p_data p @ page_bytes ps) = p_data p @ take (off - p_size p) (page_bytes ps)"
      using False by simp
    then show ?thesis
      using False Cons.IH [of "line + p_nb_lines ?p" "(if p_nb_lines ?p \<noteq> 0 then 0 else col) + p_col ?p"
          "off - p_size p"] Cons.prems
      by (simp add: Let_def line_col_append pos then_pos_def case_prod_beta)
  qed
qed

lemma get_pos_loop_pages:
  assumes "list_all (cache_valid s cs) ps"
  shows "list_all (cache_valid s cs) (snd (get_pos_loop s ps line col off))"
    "map p_data (snd (get_pos_loop s ps line col off)) = map p_data ps"
  using assms
  by (induction s ps line col off rule: get_pos_loop.induct)
    (auto simp: Let_def page_pos_valid split: prod.splits)

lemma eb_get_pos_correct:
  assumes "cached b" "one_byte (charset_state b)"
  shows "fst (eb_get_pos b off) = line_col (take off (contents b))"
  using get_pos_loop_correct [OF assms(2) assms(1) [unfolded cached_def], of 0 0 off]
  by (simp add: eb_get_pos_def contents_def then_pos_def prod_eq_iff split: prod.splits)

lemma eb_get_pos_keeps:
  assumes "cached b"
  shows "cached (snd (eb_get_pos b off))" "contents (snd (eb_get_pos b off)) = contents b"
  using get_pos_loop_pages [OF assms [unfolded cached_def], of 0 0 off]
  by (auto simp: eb_get_pos_def cached_def contents_def split: prod.splits)

section \<open>Character offsets\<close>

definition lead :: "u8 \<Rightarrow> bool" where
  "lead c \<longleftrightarrow> c < 0x80 \<or> c \<ge> 0xc0"

definition chars :: "u8 list \<Rightarrow> nat" where
  "chars t = length (filter lead t)"

lemma chars_simps [simp]:
  "chars [] = 0" "chars (c # t) = (if lead c then Suc (chars t) else chars t)"
  "chars (a @ b) = chars a + chars b"
  by (simp_all add: chars_def)

lemma get_chars_utf8: "get_chars t Charset_utf8 = chars t"
  by (simp add: get_chars_def chars_def lead_def [abs_def])

lemma chars_take_le: "chars (take k t) \<le> chars t"
  by (metis append_take_drop_id chars_simps(3) le_add1)

lemma char_offset_pages_correct:
  assumes "list_all (cache_valid s Charset_utf8) ps"
  shows "fst (char_offset_pages Charset_utf8 ps off) = chars (take off (page_bytes ps))"
    "list_all (cache_valid s Charset_utf8) (snd (char_offset_pages Charset_utf8 ps off))"
    "map p_data (snd (char_offset_pages Charset_utf8 ps off)) = map p_data ps"
proof -
  have "fst (char_offset_pages Charset_utf8 ps off) = chars (take off (page_bytes ps)) \<and>
    list_all (cache_valid s Charset_utf8) (snd (char_offset_pages Charset_utf8 ps off)) \<and>
    map p_data (snd (char_offset_pages Charset_utf8 ps off)) = map p_data ps"
    using assms
  proof (induction ps arbitrary: off)
    case (Cons p ps)
    let ?p = "page_chars Charset_utf8 p"
    have "p_nb_chars ?p = chars (p_data p)" "cache_valid s Charset_utf8 ?p"
      using page_chars_valid [of s Charset_utf8 p] Cons.prems by (simp_all add: get_chars_utf8)
    then show ?case
      using Cons.IH [of "off - p_size p"] Cons.prems
      by (cases "off < p_size p") (auto simp: Let_def get_chars_utf8 split: prod.splits)
  qed simp
  then show "fst (char_offset_pages Charset_utf8 ps off) = chars (take off (page_bytes ps))"
    "list_all (cache_valid s Charset_utf8) (snd (char_offset_pages Charset_utf8 ps off))"
    "map p_data (snd (char_offset_pages Charset_utf8 ps off)) = map p_data ps" by blast+
qed

lemma goto_char_loop_correct:
  assumes "n \<le> pos" "pos - n < chars buf"
  shows "\<exists>k. goto_char_loop buf n pos = Some k \<and> k < length buf \<and> chars (take k buf) = pos - n \<and>
    lead (buf ! k)"
  using assms
proof (induction buf arbitrary: n)
  case (Cons c buf)
  show ?case
  proof (cases "lead c")
    case True
    show ?thesis
    proof (cases "n \<ge> pos")
      case True
      with \<open>lead c\<close> Cons.prems(1) show ?thesis by (auto simp: lead_def)
    next
      case False
      then have "Suc n \<le> pos" "pos - Suc n < chars buf" using Cons.prems True by auto
      from Cons.IH [OF this] obtain k where "goto_char_loop buf (n + 1) pos = Some k" "k < length buf"
        "chars (take k buf) = pos - Suc n" "lead (buf ! k)" by auto
      with False True show ?thesis
        by (intro exI [of _ "Suc k"]) (auto simp: lead_def)
    qed
  next
    case False
    then have "pos - n < chars buf" using Cons.prems by simp
    from Cons.IH [OF Cons.prems(1) this] obtain k where "goto_char_loop buf n pos = Some k"
      "k < length buf" "chars (take k buf) = pos - n" "lead (buf ! k)" by auto
    with False show ?thesis by (intro exI [of _ "Suc k"]) (auto simp: lead_def)
  qed
qed simp

lemma goto_char_pages_correct:
  assumes "list_all (cache_valid s Charset_utf8) ps"
  shows "\<exists>k ps'. goto_char_pages Charset_utf8 ps pos = Some (k, ps') \<and>
    k \<le> length (page_bytes ps) \<and> chars (take k (page_bytes ps)) = min pos (chars (page_bytes ps)) \<and>
    (pos < chars (page_bytes ps) \<longrightarrow> k < length (page_bytes ps) \<and> lead (page_bytes ps ! k)) \<and>
    list_all (cache_valid s Charset_utf8) ps' \<and> map p_data ps' = map p_data ps"
  using assms
proof (induction ps arbitrary: pos)
  case (Cons p ps)
  let ?p = "page_chars Charset_utf8 p"
  have nb: "p_nb_chars ?p = chars (p_data p)"
    using page_chars_valid(2) [of s Charset_utf8 p] Cons.prems by (simp add: get_chars_utf8)
  have valid: "cache_valid s Charset_utf8 ?p" using page_chars_valid(1) Cons.prems by simp
  show ?case
  proof (cases "pos < chars (p_data p)")
    case True
    then obtain k where "goto_char_loop (p_data p) 0 pos = Some k" "k < p_size p"
      "chars (take k (p_data p)) = pos" "lead (p_data p ! k)"
      using goto_char_loop_correct [of 0 pos "p_data p"] by auto
    with True nb valid Cons.prems show ?thesis
      by (simp add: goto_char_def Let_def nth_append min_def)
  next
    case False
    have "list_all (cache_valid s Charset_utf8) ps" using Cons.prems by simp
    from Cons.IH [OF this, of "pos - chars (p_data p)"] obtain k ps' where
      "goto_char_pages Charset_utf8 ps (pos - chars (p_data p)) = Some (k, ps')"
      "k \<le> length (page_bytes ps)"
      "chars (take k (page_bytes ps)) = min (pos - chars (p_data p)) (chars (page_bytes ps))"
      "pos - chars (p_data p) < chars (page_bytes ps) \<longrightarrow> k < length (page_bytes ps) \<and> lead (page_bytes ps ! k)"
      "list_all (cache_valid s Charset_utf8) ps'" "map p_data ps' = map p_data ps" by blast
    with False nb valid show ?thesis
      by (auto simp: Let_def nth_append)
  qed
qed simp

lemma eb_goto_char_correct:
  assumes "cached b" "charset b = Charset_utf8"
  shows "\<exists>k b'. eb_goto_char b pos = Some (k, b') \<and> k \<le> length (contents b) \<and>
    chars (take k (contents b)) = min pos (chars (contents b)) \<and>
    (pos < chars (contents b) \<longrightarrow> k < length (contents b) \<and> lead (contents b ! k)) \<and>
    cached b' \<and> contents b' = contents b \<and> view b' = view b"
proof -
  obtain k ps' where "goto_char_pages Charset_utf8 (page_table b) pos = Some (k, ps')"
    "k \<le> length (contents b)" "chars (take k (contents b)) = min pos (chars (contents b))"
    "pos < chars (contents b) \<longrightarrow> k < length (contents b) \<and> lead (contents b ! k)"
    "list_all (cache_valid (charset_state b) Charset_utf8) ps'" "map p_data ps' = map p_data (page_table b)"
    using goto_char_pages_correct [OF assms(1) [unfolded cached_def assms(2)], of pos]
    unfolding contents_def by blast
  then show ?thesis
    by (intro exI [of _ k] exI [of _ "b\<lparr>page_table := ps'\<rparr>"])
      (simp add: eb_goto_char_def assms(2) cached_def contents_def)
qed

lemma eb_get_char_offset_correct:
  assumes "cached b" "charset b = Charset_utf8" "charset_state b = charset_decode_init Charset_utf8"
  shows "fst (eb_get_char_offset b off) = chars (take off (contents b))"
    "cached (snd (eb_get_char_offset b off))" "contents (snd (eb_get_char_offset b off)) = contents b"
  using char_offset_pages_correct [OF assms(1) [unfolded cached_def assms(2)], of off] assms(2,3)
  by (auto simp: eb_get_char_offset_def contents_def cached_def split: prod.splits)

section \<open>Moving over characters\<close>

text \<open>A buffer that reading has not changed but for its page cache.\<close>

definition same_doc :: "EditBuffer \<Rightarrow> EditBuffer \<Rightarrow> bool" where
  "same_doc b b' \<longleftrightarrow> buf_ok b' \<and> same_text b b'"

lemma same_docD:
  assumes "same_doc b b'"
  shows "buf_ok b'" "contents b' = contents b" "total_size b' = total_size b"
    "charset b' = charset b" "charset_state b' = charset_state b" "page_table b' = page_table b"
  using assms more_eqD [of b' b] by (auto simp: same_doc_def same_text_def contents_def)

lemma same_doc_refl: "buf_ok b \<Longrightarrow> same_doc b b"
  by (simp add: same_doc_def same_text_def)

lemma same_doc_trans: "same_doc a b \<Longrightarrow> same_doc b c \<Longrightarrow> same_doc a c"
  by (simp add: same_doc_def same_text_def)

lemma read_doc:
  assumes "buf_ok b"
  obtains b' where "eb_read b off n = Some (list_slice off n (contents b), b')" "same_doc b b'"
  using eb_read_correct [OF assms, of off n] by (auto simp: same_doc_def)

lemma read_byte:
  assumes "buf_ok b" "off < length (contents b)"
  obtains b' where "eb_read b off 1 = Some ([contents b ! off], b')" "same_doc b b'"
proof -
  have "list_slice off 1 (contents b) = [contents b ! off]"
    using assms(2) by (simp add: list_slice_def take_Suc_conv_app_nth Cons_nth_drop_Suc [symmetric])
  then show thesis using read_doc [OF assms(1), of off 1] that by metis
qed

text \<open>\<open>eb_nextc\<close> decodes the next bytes of the text, filled up from the array behind its end.\<close>

lemma eb_nextc_decode:
  assumes "buf_ok b" "off < length (contents b)"
    "buf = list_slice off MAX_CHAR_BYTES (contents b) @
       drop (length (list_slice (off + 1) (MAX_CHAR_BYTES - 1) (contents b))) junk"
    "charset_decode (charset_state b) buf = Some (ch, p)"
  shows "\<exists>b'. eb_nextc b junk (int off) = Some (ch, int off + int (length buf - length p), b') \<and> same_doc b b'"
proof -
  let ?c = "contents b ! off" and ?s = "charset_state b"
  have total: "total_size b = length (contents b)" by (rule buf_okD(2) [OF assms(1)])
  obtain b1 where b1: "eb_read b off 1 = Some ([?c], b1)" "same_doc b b1"
    by (rule read_byte [OF assms(1,2)])
  note d1 = same_docD [OF b1(2)]
  have buf: "buf = ?c # list_slice (Suc off) (MAX_CHAR_BYTES - Suc 0) (contents b) @
      drop (length (list_slice (Suc off) (MAX_CHAR_BYTES - Suc 0) (contents b))) junk"
    unfolding assms(3) using assms(2)
    by (simp add: list_slice_def MAX_CHAR_BYTES_def Cons_nth_drop_Suc [symmetric])
  show ?thesis
  proof (cases "table ?s ! unat ?c = ESCAPE_CHAR")
    case False
    then have "ch = table ?s ! unat ?c" "p = tl buf"
      using assms(4) buf by (auto simp: charset_decode_def Let_def)
    moreover have "eb_nextc b junk (int off) = Some (table ?s ! unat ?c, int off + 1, b1)"
      using total assms(2) b1(1) d1 False by (simp add: eb_nextc_def Let_def)
    moreover have "length buf - length (tl buf) = 1" using buf by simp
    ultimately show ?thesis using b1(2) by simp
  next
    case True
    obtain b2 where b2: "eb_read b1 (off + 1) (MAX_CHAR_BYTES - 1) =
        Some (list_slice (off + 1) (MAX_CHAR_BYTES - 1) (contents b), b2)" "same_doc b1 b2"
      using read_doc [OF d1(1), of "off + 1" "MAX_CHAR_BYTES - 1"] d1(2) by metis
    note d2 = same_docD [OF b2(2)]
    obtain f where f: "decode_func ?s = Some f" "f buf = Some (ch, p)"
      using assms(4) buf True by (auto simp: charset_decode_def Let_def split: option.splits)
    have n: "nat (int off + 1) = off + 1" by simp
    have len: "Suc (length (list_slice (Suc off) (MAX_CHAR_BYTES - Suc 0) (contents b)) +
        (length junk - length (list_slice (Suc off) (MAX_CHAR_BYTES - Suc 0) (contents b)))) = length buf"
      by (subst buf) simp
    have "eb_nextc b junk (int off) = Some (ch, int off + 1 + int (length buf - length p) - 1, b2)"
      unfolding eb_nextc_def Let_def
      using total assms(2) b1(1) d1 True b2(1) d2 f
      by (simp add: n buf [symmetric] len)
    then show ?thesis using same_doc_trans [OF b1(2) b2(2)] by simp
  qed
qed

lemma encode_length: "encode_func cs c = Some e \<Longrightarrow> length e \<le> MAX_CHAR_BYTES"
  by (cases cs) (auto simp: encode_8859_1_def encode_7bit_def encode_utf8_def utf8_encode_def
      MAX_CHAR_BYTES_def split: if_splits)

lemma eb_nextc_char:
  assumes "buf_ok b" "charset_state b = charset_decode_init cs" "contents b = A @ e @ B"
    "representable cs c" "encode_func cs c = Some e"
  shows "\<exists>b'. eb_nextc b junk (int (length A)) = Some (c, int (length A + length e), b') \<and> same_doc b b'"
proof -
  obtain e' where e': "e' = e" "e \<noteq> []" "\<And>r. charset_decode (charset_decode_init cs) (e @ r) = Some (c, r)"
    using charset_codec [OF assms(4)] assms(5) by auto
  define tail where "tail = take (MAX_CHAR_BYTES - length e) B @
    drop (length (list_slice (length A + 1) (MAX_CHAR_BYTES - 1) (contents b))) junk"
  have "list_slice (length A) MAX_CHAR_BYTES (contents b) = e @ take (MAX_CHAR_BYTES - length e) B"
    using encode_length [OF assms(5)] by (simp add: list_slice_def assms(3))
  then have buf: "e @ tail = list_slice (length A) MAX_CHAR_BYTES (contents b) @
      drop (length (list_slice (length A + 1) (MAX_CHAR_BYTES - 1) (contents b))) junk"
    by (simp add: tail_def)
  have lt: "length A < length (contents b)" using assms(3) e'(2) by simp
  have "charset_decode (charset_state b) (e @ tail) = Some (c, tail)"
    unfolding assms(2) by (rule e'(3))
  from eb_nextc_decode [OF assms(1) lt buf this] show ?thesis by simp
qed

lemma prevc_loop_char:
  assumes "buf_ok b" "contents b = A @ e @ B" "e = h # m" "\<not> cont h" "\<forall>x \<in> set m. cont x"
    "utf8_decode e = Some (c, r)" "j < length e" "j \<le> room"
  shows "\<exists>b'. prevc_loop room b (int (length A + j)) (drop j e) = Some (c, int (length A), b') \<and> same_doc b b'"
  using assms
proof (induction j arbitrary: room b)
  case 0
  then show ?case using same_doc_refl by (cases room) auto
next
  case (Suc j)
  then obtain room' where room: "room = Suc room'" by (cases room) auto
  have hd: "cont (hd (drop (Suc j) e))"
    using Suc.prems(3,5,7) by (simp add: hd_drop_conv_nth)
  have lt: "length A + j < length (contents b)" using Suc.prems(2,7) by simp
  have byte: "contents b ! (length A + j) = e ! j"
    using Suc.prems(2,7) by (simp add: nth_append)
  obtain b1 where b1: "eb_read b (length A + j) 1 = Some ([e ! j], b1)" "same_doc b b1"
    using read_byte [OF Suc.prems(1) lt] byte by metis
  have q: "e ! j # drop (Suc j) e = drop j e" using Suc.prems(7) by (simp add: Cons_nth_drop_Suc)
  have step: "prevc_loop room b (int (length A + Suc j)) (drop (Suc j) e) =
      prevc_loop room' b1 (int (length A + j)) (drop j e)"
    using hd b1(1) q by (simp add: room Let_def nat_int_add)
  obtain b2 where "prevc_loop room' b1 (int (length A + j)) (drop j e) = Some (c, int (length A), b2)"
    "same_doc b1 b2"
    using Suc.IH [of b1 room'] Suc.prems same_docD(1,2) [OF b1(2)] room by auto
  with step same_doc_trans [OF b1(2)] show ?case by auto
qed

lemma cont_iff: "cont b \<longleftrightarrow> (\<exists>x. 0 \<le> x \<and> x < 64 \<and> b = byte (128 + x))"
  unfolding cont_byte_range [symmetric] by (auto simp: cont_def)

lemma lead_not_cont:
  assumes "l \<in> {2..6}" "0 \<le> a" "a < lead_span l"
  shows "\<not> cont (byte (lead_base l + a))"
proof
  assume "cont (byte (lead_base l + a))"
  then obtain x where x: "0 \<le> x" "x < 64" "byte (lead_base l + a) = byte (128 + x)"
    unfolding cont_iff by blast
  have "192 \<le> lead_base l + a" "lead_base l + a < 256"
    using class_cases [OF assms(1)] assms(2,3) by (auto simp: lead_tables)
  with x show False by (subst (asm) byte_eq_iff) auto
qed

lemma utf8_encode_shape:
  assumes "utf8_valid c"
  obtains h m where "utf8_encode c = h # m" "\<not> cont h" "\<forall>x \<in> set m. cont x" "length m < MAX_CHAR_BYTES"
proof (cases "c < 0x80")
  case True
  then have "0 \<le> c" using assms by (simp add: utf8_valid_def)
  with True have "utf8_encode c = [byte c]" "byte c < 128"
    by (simp_all add: utf8_encode_ascii byte_ascii)
  moreover from this(2) have "\<not> cont (byte c)" by (auto simp: cont_def)
  ultimately show ?thesis using that by (simp add: MAX_CHAR_BYTES_def)
next
  case False
  then have "0x80 \<le> c" "c < 2 ^ 31" using assms by (simp_all add: utf8_valid_def)
  then obtain l a xs where p: "payload l a xs c" by (rule payload_exists)
  then have l: "l \<in> {2..6}" "0 \<le> a" "a < lead_span l" "length xs = l - 1" "sextets xs"
    by (simp_all add: payload_def)
  have e: "utf8_encode c = byte (lead_base l + a) # map (\<lambda>x. byte (128 + x)) xs"
    using payload_encode [OF p] by (simp add: payload_bytes_def del: of_int_add of_int_numeral)
  have "\<forall>x \<in> set (map (\<lambda>x. byte (128 + x)) xs). cont x"
    using l(5) by (auto simp: cont_iff simp del: of_int_add of_int_numeral)
  with that [OF e lead_not_cont [OF l(1-3)]] l(1,4) show ?thesis by (auto simp: MAX_CHAR_BYTES_def)
qed

lemma eb_prevc_char:
  assumes "buf_ok b" "charset b = Charset_utf8" "contents b = A @ utf8_encode c @ B" "utf8_valid c"
  shows "\<exists>b'. eb_prevc b (int (length A + length (utf8_encode c))) = Some (c, int (length A), b') \<and> same_doc b b'"
proof -
  obtain h m where e: "utf8_encode c = h # m" "\<not> cont h" "\<forall>x \<in> set m. cont x" "length m < MAX_CHAR_BYTES"
    by (rule utf8_encode_shape [OF assms(4)])
  let ?e = "utf8_encode c"
  have dec: "utf8_decode ?e = Some (c, [])" using utf8_roundtrip [OF assms(4), of "[]"] by simp
  have lt: "length A + length m < length (contents b)" using assms(3) e(1) by simp
  have byte: "contents b ! (length A + length m) = ?e ! length m"
  proof -
    have "length m < length ?e" using e(1) by simp
    then show ?thesis by (simp add: assms(3) nth_append)
  qed
  obtain b1 where b1: "eb_read b (length A + length m) 1 = Some ([?e ! length m], b1)" "same_doc b b1"
    using read_byte [OF assms(1) lt] byte by metis
  note d1 = same_docD [OF b1(2)]
  have last: "[?e ! length m] = drop (length m) ?e"
    using e(1) Cons_nth_drop_Suc [of "length m" ?e] by simp
  have "\<exists>b'. prevc_loop (MAX_CHAR_BYTES - 1) b1 (int (length A + length m)) (drop (length m) ?e) =
      Some (c, int (length A), b') \<and> same_doc b1 b'"
    using d1 assms(3) e dec by (intro prevc_loop_char [where B = B and h = h and m = m]) auto
  then obtain b2 where b2: "prevc_loop (MAX_CHAR_BYTES - 1) b1 (int (length A + length m)) (drop (length m) ?e) =
      Some (c, int (length A), b2)" "same_doc b1 b2" by blast
  have off: "int (length A + length ?e) - 1 = int (length A + length m)" using e(1) by simp
  have "eb_prevc b (int (length A + length ?e)) = Some (c, int (length A), b2)"
    unfolding eb_prevc_def Let_def off
    using b1(1) d1 assms(2) b2(1) [folded last] by (simp del: of_nat_add add: e(1) [symmetric])
  then show ?thesis using same_doc_trans [OF b1(2) b2(2)] by blast
qed

end
