(* ===== verification/Line_Theorems.thy ===== *)
theory Line_Theorems
  imports Line_Props
begin

text \<open>
  The properties of the line and character functions: caches, positions, character offsets,
  movement over characters and lines, and the inputs on which these functions go wrong.
\<close>

section \<open>Whole lines in charsets of one byte per character\<close>

definition wf_charset :: "EditBuffer \<Rightarrow> bool" where
  "wf_charset b \<longleftrightarrow> charset_state b = charset_decode_init (charset b)"

lemma one_byte_wf: "wf_charset b \<Longrightarrow> charset b \<noteq> Charset_utf8 \<Longrightarrow> one_byte (charset_state b)"
  using one_byte_init
  by (cases "charset b") (auto simp: wf_charset_def simp del: charset_decode_init.simps)

lemma decode_8bit:
  "wf_charset b \<Longrightarrow> charset b \<noteq> Charset_utf8 \<Longrightarrow>
    charset_decode (charset_state b) (x # p) = Some (uint x, p)"
  by (cases "charset b") (simp_all add: wf_charset_def idem_decode)

lemma same_doc_wf: "same_doc b b' \<Longrightarrow> wf_charset b' = wf_charset b"
  using same_docD(4,5) by (simp add: wf_charset_def)

lemma eb_nextc_8bit:
  assumes "buf_ok b" "wf_charset b" "charset b \<noteq> Charset_utf8" "off < length (contents b)"
  shows "\<exists>b'. eb_nextc b junk (int off) = Some (uint (contents b ! off), int (off + 1), b') \<and> same_doc b b'"
proof -
  let ?buf = "list_slice off MAX_CHAR_BYTES (contents b) @
      drop (length (list_slice (off + 1) (MAX_CHAR_BYTES - 1) (contents b))) junk"
  have "?buf = contents b ! off # tl ?buf"
    using assms(4) by (simp add: list_slice_def MAX_CHAR_BYTES_def Cons_nth_drop_Suc [symmetric])
  then have d: "charset_decode (charset_state b) ?buf = Some (uint (contents b ! off), tl ?buf)"
    using decode_8bit [OF assms(2,3)] by metis
  have "length ?buf - length (tl ?buf) = 1"
    using assms(4) by (simp add: list_slice_def MAX_CHAR_BYTES_def)
  with eb_nextc_decode [OF assms(1,4) refl d] show ?thesis by (simp add: add.commute)
qed

lemma eb_nextc_end: "buf_ok b \<Longrightarrow> eb_nextc b junk (int (length (contents b))) =
    Some (10, int (length (contents b)), b)"
  using buf_okD(2) [of b] by (simp add: eb_nextc_def)

lemma eb_prevc_8bit:
  assumes "buf_ok b" "charset b \<noteq> Charset_utf8" "off < length (contents b)"
  shows "\<exists>b'. eb_prevc b (int (Suc off)) = Some (uint (contents b ! off), int off, b') \<and> same_doc b b'"
proof -
  obtain b1 where b1: "eb_read b off 1 = Some ([contents b ! off], b1)" "same_doc b b1"
    using read_byte [OF assms(1,3)] .
  then show ?thesis using assms(2) same_docD(4) [OF b1(2)] by (auto simp: eb_prevc_def Let_def)
qed

lemma uint_10: "uint (x :: u8) = 10 \<longleftrightarrow> x = 10"
  by (simp add: word_uint_eq_iff)

lemma eb_goto_bol_8bit:
  assumes "buf_ok b" "charset b \<noteq> Charset_utf8" "off \<le> length (contents b)"
  shows "\<exists>b'. eb_goto_bol b (int off) = Some (int (off - snd (line_col (take off (contents b)))), b') \<and>
    same_doc b b'"
  using assms
proof (induction off arbitrary: b)
  case 0
  then show ?case using same_doc_refl by (simp add: eb_goto_bol.simps eb_prevc_def)
next
  case (Suc off)
  then have lt: "off < length (contents b)" by simp
  obtain b1 where b1: "eb_prevc b (int (Suc off)) = Some (uint (contents b ! off), int off, b1)" "same_doc b b1"
    using eb_prevc_8bit [OF Suc.prems(1,2) lt] by blast
  note d1 = same_docD [OF b1(2)]
  have take: "take (Suc off) (contents b) = take off (contents b) @ [contents b ! off]"
    using lt by (simp add: take_Suc_conv_app_nth)
  show ?case
  proof (cases "contents b ! off = 10")
    case True
    then show ?thesis
      using b1 same_doc_refl [OF Suc.prems(1)]
      by (subst eb_goto_bol.simps) (auto simp: take line_col_def simp del: of_nat_Suc)
  next
    case False
    then have "uint (contents b ! off) \<noteq> 10" by (simp add: uint_10)
    then have step: "eb_goto_bol b (int (Suc off)) = eb_goto_bol b1 (int off)"
      by (subst eb_goto_bol.simps) (simp only: b1(1) option.case prod.case if_False)
    have "snd (line_col (take (Suc off) (contents b))) = Suc (snd (line_col (take off (contents b))))"
      using False by (simp add: take line_col_def)
    then show ?thesis
      using Suc.IH [of b1] d1 Suc.prems same_doc_trans [OF b1(2)] unfolding step by auto
  qed
qed

definition line_rest :: "u8 list \<Rightarrow> nat" where
  "line_rest t = length (takeWhile (\<lambda>c. c \<noteq> 10) t)"

lemma eb_get_line_8bit:
  assumes "buf_ok b" "wf_charset b" "charset b \<noteq> Charset_utf8" "off \<le> length (contents b)"
  shows "\<exists>b'. eb_get_line b junk room (int off) =
      Some (take room (map uint (takeWhile (\<lambda>c. c \<noteq> 10) (drop off (contents b)))),
        int (min (off + line_rest (drop off (contents b)) + 1) (length (contents b))), b') \<and> same_doc b b'"
  using assms
proof (induction "length (contents b) - off" arbitrary: b off room)
  case 0
  then have "off = length (contents b)" by simp
  then show ?case
    using eb_nextc_end [OF "0.prems"(1), of junk] same_doc_refl [OF "0.prems"(1)]
    by (subst eb_get_line.simps) (simp add: line_rest_def)
next
  case (Suc k)
  then have lt: "off < length (contents b)" by simp
  obtain b1 where b1: "eb_nextc b junk (int off) = Some (uint (contents b ! off), int (off + 1), b1)" "same_doc b b1"
    using eb_nextc_8bit [OF Suc.prems(1-3) lt] by blast
  note d1 = same_docD [OF b1(2)]
  have dr: "drop off (contents b) = contents b ! off # drop (off + 1) (contents b)"
    using lt by (simp add: Cons_nth_drop_Suc)
  show ?case
  proof (cases "contents b ! off = 10")
    case True
    then show ?thesis
      using b1 dr lt by (subst eb_get_line.simps) (simp add: line_rest_def min_def)
  next
    case False
    obtain b2 where b2: "eb_get_line b1 junk (room - 1) (int (off + 1)) =
      Some (take (room - 1) (map uint (takeWhile (\<lambda>c. c \<noteq> 10) (drop (off + 1) (contents b)))),
        int (min (off + 1 + line_rest (drop (off + 1) (contents b)) + 1) (length (contents b))), b2)"
      "same_doc b1 b2"
  proof -
    have p: "k = length (contents b1) - (off + 1)" "wf_charset b1" "charset b1 \<noteq> Charset_utf8"
      "off + 1 \<le> length (contents b1)"
      using Suc.hyps(2) Suc.prems d1 lt same_doc_wf [OF b1(2)] by simp_all
    show thesis using that Suc.hyps(1) [OF p(1) d1(1) p(2-4), of "room - 1"] unfolding d1(2) by blast
  qed
    have "uint (contents b ! off) \<noteq> 10" using False by (simp add: uint_10)
    then have "eb_get_line b junk room (int off) =
      Some (take room (map uint (takeWhile (\<lambda>c. c \<noteq> 10) (drop off (contents b)))),
        int (min (off + line_rest (drop off (contents b)) + 1) (length (contents b))), b2)"
      using b1(1) b2(1) False dr
      by (subst eb_get_line.simps) (cases room; simp add: line_rest_def)
    then show ?thesis using same_doc_trans [OF b1(2) b2(2)] by blast
  qed
qed

section \<open>Stray and truncated sequences\<close>

lemma prevc_loop_stray:
  assumes "buf_ok b" "off < length (contents b)" "\<forall>x \<in> set (take (Suc off) (contents b)). cont x"
    "q = contents b ! off # r"
  shows "\<exists>b'. prevc_loop room b (int off) q = Some (uint (last q), int off - int room - 1, b') \<and> same_doc b b'"
  using assms
proof (induction room arbitrary: b off q r)
  case 0
  have "contents b ! off \<in> set (take (Suc off) (contents b))"
    using "0.prems"(2) by (auto simp: in_set_conv_nth)
  then have "cont (hd q)" using "0.prems"(3,4) by simp
  then show ?case using same_doc_refl [OF "0.prems"(1)] by (auto intro!: exI [of _ b])
next
  case (Suc room)
  have "contents b ! off \<in> set (take (Suc off) (contents b))"
    using Suc.prems(2) by (auto simp: in_set_conv_nth)
  then have hd: "cont (hd q)" using Suc.prems(3,4) by simp
  show ?case
  proof (cases "off = 0")
    case True
    with hd show ?thesis using same_doc_refl [OF Suc.prems(1)] by (auto intro!: exI [of _ b])
  next
    case False
    then obtain k where k: "off = Suc k" by (cases off) auto
    then have lt: "k < length (contents b)" using Suc.prems(2) by simp
    obtain b1 where b1: "eb_read b k 1 = Some ([contents b ! k], b1)" "same_doc b b1"
      using read_byte [OF Suc.prems(1) lt] .
    note d1 = same_docD [OF b1(2)]
    have pre: "\<forall>x \<in> set (take (Suc k) (contents b1)). cont x"
      using Suc.prems(3) d1(2) k set_take_subset_set_take [of "Suc k" "Suc off" "contents b"] by auto
    obtain b2 where b2: "prevc_loop room b1 (int k) (contents b1 ! k # q) =
        Some (uint (last (contents b1 ! k # q)), int k - int room - 1, b2)" "same_doc b1 b2"
      using Suc.IH [OF d1(1) _ pre refl, of q] lt d1(2) by auto
    have "last (contents b1 ! k # q) = last q" using Suc.prems(4) by simp
    then have "prevc_loop (Suc room) b (int off) q = Some (uint (last q), int off - int (Suc room) - 1, b2)"
      using hd b1(1) b2(1) d1(2) k by (simp add: Let_def)
    then show ?thesis using same_doc_trans [OF b1(2) b2(2)] by blast
  qed
qed

text \<open>\<open>eb_prevc\<close> leaves the text on stray continuation bytes. In a UTF-8 buffer
  whose bytes before \<open>off\<close> are all continuation bytes, it does give up with the last byte as
  the comment in the code says, but it steps back by seven bytes instead of one:
  the correction of the offset uses \<open>buf - 1 - q\<close> where \<open>q\<close>'s distance to the last byte
  of the array is meant. Up to offset 6 the resulting offset is negative.\<close>

theorem eb_prevc_stray_bytes:
  assumes "buf_ok b" "charset b = Charset_utf8" "0 < off" "off \<le> length (contents b)"
    "list_all cont (take off (contents b))"
  shows "\<exists>b'. eb_prevc b (int off) = Some (uint (contents b ! (off - 1)), int off - 7, b')"
proof -
  obtain k where k: "off = Suc k" using assms(3) by (cases off) auto
  then have lt: "k < length (contents b)" using assms(4) by simp
  obtain b1 where b1: "eb_read b k 1 = Some ([contents b ! k], b1)" "same_doc b b1"
    using read_byte [OF assms(1) lt] .
  note d1 = same_docD [OF b1(2)]
  have pre: "\<forall>x \<in> set (take (Suc k) (contents b1)). cont x" "k < length (contents b1)"
    using assms(5) k d1(2) lt by (simp_all add: list_all_iff)
  from prevc_loop_stray [OF d1(1) pre(2,1) refl, of "MAX_CHAR_BYTES - 1" "[]"] obtain b2 where
    "prevc_loop (MAX_CHAR_BYTES - 1) b1 (int k) [contents b ! k] =
       Some (uint (contents b ! k), int k - int (MAX_CHAR_BYTES - 1) - 1, b2)"
    unfolding d1(2) by auto
  then have "eb_prevc b (int off) = Some (uint (contents b ! k), int k - int (MAX_CHAR_BYTES - 1) - 1, b2)"
    using b1(1) d1(4) assms(2) k by (simp add: eb_prevc_def Let_def)
  then show ?thesis using k by (simp add: MAX_CHAR_BYTES_def)
qed

text \<open>A buffer with the given pages.\<close>

definition page_of :: "u8 list \<Rightarrow> Page" where
  "page_of d = \<lparr>p_data = d, p_flags = 0, p_nb_lines = 0, p_col = 0, p_nb_chars = 0\<rparr>"

definition buffer_of :: "u8 list list \<Rightarrow> QECharset \<Rightarrow> EditBuffer" where
  "buffer_of ds cs = eb_set_charset
     ((alloc_buffer ''text'' 0)\<lparr>page_table := map page_of ds, total_size := length (concat ds)\<rparr>) cs"

lemma contents_buffer_of [simp]: "contents (buffer_of ds cs) = concat ds"
  by (simp add: buffer_of_def eb_set_charset_def contents_def page_of_def comp_def)

lemma buffer_of_simps [simp]:
  "charset (buffer_of ds cs) = cs" "charset_state (buffer_of ds cs) = charset_decode_init cs"
  "wf_charset (buffer_of ds cs)" "page_table (buffer_of ds cs) = map page_of ds"
  by (simp_all add: buffer_of_def eb_set_charset_def wf_charset_def)

lemma buf_ok_buffer_of:
  "list_all (\<lambda>d. d \<noteq> [] \<and> length d \<le> MAX_PAGE_SIZE) ds \<Longrightarrow> buf_ok (buffer_of ds cs)"
  by (auto simp: buf_ok_def buffer_of_def eb_set_charset_def contents_def page_of_def comp_def
      cache_ok_def alloc_buffer_def eb_add_callback_def pages_ok_def list_all_iff)

lemma cached_buffer_of: "cached (buffer_of ds cs)"
  by (auto simp: cached_def list_all_iff page_of_def cache_valid_def has_flag_def)

lemma eb_prevc_stray_bytes_witness: "\<exists>b'. eb_prevc (buffer_of [[0x80, 0x81]] Charset_utf8) 2 = Some (0x81, -5, b')"
  using eb_prevc_stray_bytes [of "buffer_of [[0x80, 0x81]] Charset_utf8" 2]
    buf_ok_buffer_of [of "[[0x80, 0x81]]" Charset_utf8]
  by (simp add: MAX_PAGE_SIZE_def cont_def word_less_def word_le_def)

text \<open>\<open>eb_prevc\<close> reads behind its array on a truncated sequence. When the byte before
  the offset begins a multi-byte sequence, \<open>utf8_decode\<close> is called on the last byte of the
  local array and reads the following ones: the call is undefined in C (no result).\<close>

theorem eb_prevc_truncated:
  assumes "buf_ok b" "charset b = Charset_utf8" "off < length (contents b)"
    "utf8_length (contents b ! off) \<in> {2..6}"
  shows "eb_prevc b (int (Suc off)) = None"
proof -
  let ?c = "contents b ! off"
  obtain a where a: "0 \<le> a" "a < lead_span (utf8_length ?c)" "?c = byte (lead_base (utf8_length ?c) + a)"
    using lead_class [OF assms(4), of ?c] by auto
  have nc: "\<not> cont ?c" using lead_not_cont [OF assms(4) a(1,2)] a(3) by simp
  have na: "\<not> ?c < 128" using lead_not_ascii(1) [OF assms(4) a(1,2)] a(3) by simp
  obtain b1 where b1: "eb_read b off 1 = Some ([?c], b1)" "same_doc b b1"
    using read_byte [OF assms(1,3)] .
  have "utf8_cont (utf8_length ?c - 1) x [] = None" for x
    using assms(4) by (cases "utf8_length ?c - 1") auto
  then have "utf8_decode [?c] = None"
    using na assms(4) by (simp add: utf8_decode_def Let_def)
  then show ?thesis
    using b1(1) assms(2) same_docD(4) [OF b1(2)] nc
    by (simp add: eb_prevc_def Let_def prevc_loop.simps(2) MAX_CHAR_BYTES_def numeral_eq_Suc)
qed

lemma eb_prevc_truncated_witness: "eb_prevc (buffer_of [[0x41, 0xe2]] Charset_utf8) 2 = None"
  using eb_prevc_truncated [of "buffer_of [[0x41, 0xe2]] Charset_utf8" 1]
    buf_ok_buffer_of [of "[[0x41, 0xe2]]" Charset_utf8]
  by (simp add: MAX_PAGE_SIZE_def utf8_length_eq length_class_def)

section \<open>Properties\<close>

lemma eb_read_keeps: "eb_read b off n = Some (bs, b') \<Longrightarrow> page_table b' = page_table b \<and> view b' = view b"
  using eb_read_table eb_read_more [THEN view_more] by blast

lemma eb_nextc_table:
  "eb_nextc b junk off = Some (c, k, b') \<Longrightarrow> page_table b' = page_table b \<and> view b' = view b"
  by (auto simp: eb_nextc_def Let_def bind_eq_Some_conv dest!: eb_read_keeps split: if_splits)

lemma goto_col_table:
  "goto_col b junk off n = Some (k, b') \<Longrightarrow> page_table b' = page_table b \<and> view b' = view b"
proof (induction b junk off n rule: goto_col.induct)
  case (2 b junk off n)
  then obtain c o1 b1 where one: "eb_nextc b junk off = Some (c, o1, b1)"
    and rest: "(if c \<noteq> 10 then goto_col b1 junk o1 n else Some (off, b1)) = Some (k, b')"
    by (auto simp: bind_eq_Some_conv)
  show ?case
    using eb_nextc_table [OF one] rest 2(1) [OF one refl refl] by (auto split: if_splits)
qed simp

lemma cached_tableI: "page_table b' = page_table b \<Longrightarrow> view b' = view b \<Longrightarrow> cached b \<Longrightarrow> cached b'"
  by (simp add: cached_def view_def)

lemma goto_pos_loop_keeps:
  "goto_pos_loop b junk p line col off line1 col1 = Some (k, b') \<Longrightarrow> cached b \<Longrightarrow> cached b' \<and> view b' = view b"
proof (induction b junk p line col off line1 col1 rule: goto_pos_loop.induct)
  case (1 b junk p line col off line1 col1)
  define pg where "pg = page_pos (charset_state b) (page_table b ! p)"
  define b1 where "b1 = b\<lparr>page_table := (page_table b)[p := pg]\<rparr>"
  show ?case
  proof (cases "p < length (page_table b)")
    case True
    have "cache_valid (charset_state b) (charset b) pg"
      unfolding pg_def by (rule page_pos_valid(1)) (use 1(3) True in \<open>simp add: cached_def list_all_length\<close>)
    then have c1: "cached b1" "view b1 = view b"
      using 1(3) by (simp_all add: cached_def b1_def list_all_update)
    note step = 1(2) [unfolded goto_pos_loop.simps [of b junk p], folded pg_def, unfolded Let_def, folded b1_def,
      unfolded if_P [OF True]]
    show ?thesis
    proof (cases "line + p_nb_lines pg > line1 \<or> line + p_nb_lines pg = line1 \<and> col + p_col pg \<ge> col1")
      case here: True
      then obtain o1 n where "goto_col b1 junk o1 n = Some (k, b')"
        using step by (auto simp: bind_eq_Some_conv)
      from goto_col_table [OF this] show ?thesis
        using c1 cached_tableI by metis
    next
      case False
      have "goto_pos_loop b1 junk (p + 1) (line + p_nb_lines pg) (col + p_col pg) (off + int (p_size pg)) line1 col1 = Some (k, b')"
        by (rule step [unfolded if_not_P [OF False]])
      from 1(1) [OF True pg_def b1_def refl refl refl False this c1(1)] c1(2) show ?thesis
        by simp
    qed
  next
    case False
    then show ?thesis
      using 1(2,3) by (subst (asm) goto_pos_loop.simps) simp
  qed
qed

lemma char_offset_pages_keeps:
  "list_all (cache_valid s cs) ps \<Longrightarrow> list_all (cache_valid s cs) (snd (char_offset_pages cs ps off))"
  by (induction cs ps off rule: char_offset_pages.induct)
    (auto simp: Let_def page_chars_valid(1) split: prod.split)

lemma eb_get_char_offset_keeps:
  "cached b \<Longrightarrow> cached (snd (eb_get_char_offset b off)) \<and> view (snd (eb_get_char_offset b off)) = view b"
  using char_offset_pages_keeps [of "charset_state b" "charset b" "page_table b" off]
  by (auto simp: eb_get_char_offset_def cached_def split: option.split prod.split)

lemma eb_goto_char_keeps:
  assumes "cached b" "eb_goto_char b pos = Some (k, b')"
  shows "cached b' \<and> view b' = view b"
proof (cases "charset b = Charset_utf8")
  case True
  then show ?thesis
    using eb_goto_char_correct [OF assms(1) True, of pos] assms(2) by auto
next
  case False
  then show ?thesis
    using assms by (simp add: eb_goto_char_def)
qed

lemma eb_insert_buffer_source:
  "eb_insert_buffer b off s soff n = Some (b', s') \<Longrightarrow> page_table s' = page_table s \<and> view s' = view s"
  by (auto simp: eb_insert_buffer_def bind_eq_Some_conv dest: insert_pages_src insert_pages_more(2) [THEN view_more]
    split: if_splits)

lemma eb_get_pos_view: "view (snd (eb_get_pos b off)) = view b"
  by (simp add: eb_get_pos_def split: prod.split)

text \<open>C14. The page caches stay valid, in every charset. If every page whose flags say so caches the right
  number of lines, columns and characters of its data, then so does every page after any
  insertion, deletion, overwriting, insertion from another buffer (whose caches stay valid, too) or undo, and after
  the queries for and by lines, columns and characters, which fill the caches; the charset of the buffer is left alone.
\<close>

theorem caches_stay_valid:
  assumes "cached b"
  shows "(do_edit e b = Some b' \<longrightarrow> cached b' \<and> view b' = view b) \<and>
    (cached s \<longrightarrow> eb_insert_buffer b off s soff n = Some (b', s') \<longrightarrow>
      cached b' \<and> view b' = view b \<and> cached s' \<and> view s' = view s) \<and>
    (do_undo b again w = Some b' \<longrightarrow> cached b' \<and> view b' = view b) \<and>
    (eb_get_pos b off = (r, b') \<longrightarrow> cached b' \<and> view b' = view b) \<and>
    (eb_goto_pos b junk line col = Some (q, b') \<longrightarrow> cached b' \<and> view b' = view b) \<and>
    (eb_get_char_offset b off = (k, b') \<longrightarrow> cached b' \<and> view b' = view b) \<and>
    (eb_goto_char b pos = Some (k, b') \<longrightarrow> cached b' \<and> view b' = view b)"
proof (intro conjI impI)
  have all: "cached b' \<and> view b' = view b"
    if "\<And>Q. page_pred Q \<Longrightarrow> all_pages Q b \<Longrightarrow> all_pages Q b' \<and> view b' = view b" for b'
    using cached_all [OF that assms] that [OF caches.page_pred_axioms] assms unfolding cached_def by blast
  show "cached b'" "view b' = view b" if "do_edit e b = Some b'"
    using all page_pred.do_edit_all [OF _ that] by blast+
  show "cached b'" "view b' = view b" if "do_undo b again w = Some b'"
    using all page_pred.do_undo_all [OF _ that] by blast+
  show "cached b'" "view b' = view b" if "eb_insert_buffer b off s soff n = Some (b', s')"
    using all page_pred.eb_insert_buffer_all [OF _ that] by blast+
  show "cached s'" "view s' = view s" if "cached s" "eb_insert_buffer b off s soff n = Some (b', s')"
    using eb_insert_buffer_source [OF that(2)] that(1) cached_tableI by metis+
  show "cached b'" "view b' = view b" if "eb_get_pos b off = (r, b')"
    using eb_get_pos_keeps(1) [OF assms, of off] eb_get_pos_view [of b off] that by simp_all
  show "cached b'" "view b' = view b" if "eb_goto_pos b junk line col = Some (q, b')"
    using goto_pos_loop_keeps [OF _ assms] that by (simp_all add: eb_goto_pos_def)
  show "cached b'" "view b' = view b" if "eb_get_char_offset b off = (k, b')"
    using eb_get_char_offset_keeps [OF assms, of off] that by simp_all
  show "cached b'" "view b' = view b" if "eb_goto_char b pos = Some (k, b')"
    using eb_goto_char_keeps [OF assms that] by simp_all
qed

lemma caches_stay_valid_witness:
  "cached (snd (eb_get_pos (buffer_of [[104, 10], [105]] Charset_utf8) 3))"
  using caches_stay_valid [OF cached_buffer_of [of "[[104, 10], [105]]" Charset_utf8], where off = 3]
  by (metis prod.collapse)

text \<open>\<open>eb_get_pos\<close> is right. In a charset of one byte per character and with valid
  caches, the line and column it adds up page by page are the number of newlines before the
  offset and the distance to the last of them.\<close>

theorem eb_get_pos_spec:
  assumes "cached b" "wf_charset b" "charset b \<noteq> Charset_utf8"
  shows "fst (eb_get_pos b off) =
    (count_list (take off (contents b)) 10,
     length (takeWhile (\<lambda>c. c \<noteq> 10) (rev (take off (contents b)))))"
  using eb_get_pos_correct [OF assms(1) one_byte_wf [OF assms(2,3)], of off]
  by (simp add: line_col_def)

lemma eb_get_pos_spec_witness:
  "fst (eb_get_pos (buffer_of [[104, 10], [105, 106, 107]] Charset_8859_1) 4) = (1, 2)"
  using eb_get_pos_spec [OF cached_buffer_of [of "[[104, 10], [105, 106, 107]]" Charset_8859_1], of 4]
  by simp

text \<open>C16. Character offsets. In UTF-8, \<open>eb_goto_char\<close> finds the byte at which character
  \<open>pos\<close> starts (the end of the text, if there are fewer), always inside the page it walks,
  and \<open>eb_get_char_offset\<close> of that byte is \<open>pos\<close> again, cut off at the number of characters.\<close>

theorem char_offset_roundtrip:
  assumes "cached b" "charset b = Charset_utf8" "wf_charset b"
  shows "\<exists>k b'. eb_goto_char b pos = Some (k, b') \<and> k \<le> length (contents b) \<and>
    (pos < chars (contents b) \<longrightarrow> lead (contents b ! k)) \<and>
    fst (eb_get_char_offset b' k) = min pos (chars (contents b))"
proof -
  obtain k b' where k: "eb_goto_char b pos = Some (k, b')" "k \<le> length (contents b)"
    "chars (take k (contents b)) = min pos (chars (contents b))"
    "pos < chars (contents b) \<longrightarrow> k < length (contents b) \<and> lead (contents b ! k)"
    "cached b'" "contents b' = contents b" "view b' = view b"
    using eb_goto_char_correct [OF assms(1,2), of pos] by blast
  have "charset b' = Charset_utf8" "charset_state b' = charset_decode_init Charset_utf8"
    using k(7) assms(2,3) by (simp_all add: view_def wf_charset_def)
  from eb_get_char_offset_correct(1) [OF k(5) this, of k] k show ?thesis by auto
qed

lemma char_offset_roundtrip_witness:
  "\<exists>k b'. eb_goto_char (buffer_of [[0xc3], [0xa9, 105]] Charset_utf8) 1 = Some (k, b') \<and>
    fst (eb_get_char_offset b' k) = 1"
  using char_offset_roundtrip [OF cached_buffer_of [of "[[0xc3], [0xa9, 105]]" Charset_utf8], of 1]
  by (auto simp: lead_def word_less_def word_le_def)

text \<open>C15. Forward and backward over a character. Wherever a valid code point stands
  encoded in a UTF-8 buffer, across pages too, \<open>eb_nextc\<close> at its first byte returns it and
  the offset behind it, whatever the stack holds, and \<open>eb_prevc\<close> from there returns it and
  the offset before it.\<close>

theorem nextc_prevc_inverse:
  assumes "buf_ok b" "charset b = Charset_utf8" "wf_charset b" "utf8_valid c"
    "contents b = A @ utf8_encode c @ B"
  shows "\<exists>b1 b2 n. eb_nextc b junk (int (length A)) = Some (c, n, b1) \<and>
    n = int (length (A @ utf8_encode c)) \<and> eb_prevc b1 n = Some (c, int (length A), b2)"
proof -
  have "representable Charset_utf8 c" "encode_func Charset_utf8 c = Some (utf8_encode c)"
    using assms(4) by (simp_all add: encode_utf8_def)
  from eb_nextc_char [OF assms(1) _ assms(5) this] obtain b1 where
    b1: "eb_nextc b junk (int (length A)) = Some (c, int (length A + length (utf8_encode c)), b1)" "same_doc b b1"
    using assms(2,3) by (auto simp: wf_charset_def)
  note d1 = same_docD [OF b1(2)]
  have "charset b1 = Charset_utf8" "contents b1 = A @ utf8_encode c @ B" using d1 assms(2,5) by simp_all
  from eb_prevc_char [OF d1(1) this assms(4)] b1(1) show ?thesis by auto
qed

lemma nextc_prevc_inverse_witness:
  "\<exists>b1 b2. eb_nextc (buffer_of [[104, 0xc3], [0xa9]] Charset_utf8) [] 1 = Some (0xe9, 3, b1) \<and>
    eb_prevc b1 3 = Some (0xe9, 1, b2)"
proof -
  have e: "utf8_encode 0xe9 = [0xc3, 0xa9]" by code_simp
  show ?thesis
    using nextc_prevc_inverse [of "buffer_of [[104, 0xc3], [0xa9]] Charset_utf8" "0xe9" "[104]" "[]" "[]"]
      buf_ok_buffer_of [of "[[104, 0xc3], [0xa9]]" Charset_utf8]
    by (simp add: MAX_PAGE_SIZE_def utf8_valid_def e)
qed

text \<open>A text of encoded code points.\<close>

definition utf8_text :: "int list \<Rightarrow> u8 list" where
  "utf8_text cs = concat (map utf8_encode cs)"

lemma utf8_text_simps [simp]:
  "utf8_text [] = []" "utf8_text (c # cs) = utf8_encode c @ utf8_text cs" "utf8_text (cs @ ds) = utf8_text cs @ utf8_text ds"
  by (simp_all add: utf8_text_def)

lemma eb_goto_bol_utf8:
  assumes "buf_ok b" "charset b = Charset_utf8" "contents b = utf8_text A @ B" "\<forall>c\<in>set A. utf8_valid c"
  shows "\<exists>b'. eb_goto_bol b (int (length (utf8_text A))) =
    Some (int (length (utf8_text A)) - int (length (utf8_text (rev (takeWhile (\<lambda>c. c \<noteq> 10) (rev A))))), b')"
  using assms
proof (induction A arbitrary: b B rule: rev_induct)
  case Nil
  then show ?case
    by (simp add: eb_goto_bol.simps eb_prevc_def)
next
  case (snoc c A)
  obtain b1 where b1: "eb_prevc b (int (length (utf8_text (A @ [c])))) = Some (c, int (length (utf8_text A)), b1)" "same_doc b b1"
    using eb_prevc_char [of b "utf8_text A" c B] snoc.prems by auto
  show ?case
  proof (cases "c = 10")
    case True
    then show ?thesis
      using b1 by (subst eb_goto_bol.simps) simp
  next
    case False
    have "eb_goto_bol b (int (length (utf8_text (A @ [c])))) = eb_goto_bol b1 (int (length (utf8_text A)))"
      using b1(1) False by (subst eb_goto_bol.simps) simp
    moreover obtain b' where "eb_goto_bol b1 (int (length (utf8_text A))) =
      Some (int (length (utf8_text A)) - int (length (utf8_text (rev (takeWhile (\<lambda>c. c \<noteq> 10) (rev A))))), b')"
      using snoc.IH [of b1 "utf8_encode c @ B"] snoc.prems same_docD [OF b1(2)] by auto
    ultimately show ?thesis
      using False by simp
  qed
qed

lemma eb_get_line_utf8:
  assumes "buf_ok b" "charset b = Charset_utf8" "wf_charset b" "contents b = A @ utf8_text B" "\<forall>c\<in>set B. utf8_valid c"
  shows "\<exists>b'. eb_get_line b junk room (int (length A)) =
    Some (take room (takeWhile (\<lambda>c. c \<noteq> 10) B),
      int (min (length A + length (utf8_text (takeWhile (\<lambda>c. c \<noteq> 10) B)) + 1) (length (contents b))), b')"
  using assms
proof (induction B arbitrary: b A room)
  case Nil
  then show ?case
    using eb_nextc_end [OF Nil(1), of junk] by (subst eb_get_line.simps) simp
next
  case (Cons c B)
  have "representable Charset_utf8 c" "encode_func Charset_utf8 c = Some (utf8_encode c)"
    using Cons.prems(5) by (simp_all add: encode_utf8_def)
  from eb_nextc_char [OF Cons.prems(1) _ _ this, of A "utf8_text B" junk] obtain b1 where
    b1: "eb_nextc b junk (int (length A)) = Some (c, int (length (A @ utf8_encode c)), b1)" "same_doc b b1"
    using Cons.prems(2-4) by (auto simp: wf_charset_def)
  note d1 = same_docD [OF b1(2)]
  show ?case
  proof (cases "c = 10")
    case True
    then have "length (utf8_encode c) = 1"
      by (simp add: utf8_encode_def)
    then show ?thesis
      using b1(1) True Cons.prems(4) by (subst eb_get_line.simps) simp
  next
    case False
    have "contents b1 = (A @ utf8_encode c) @ utf8_text B" "charset b1 = Charset_utf8" "wf_charset b1"
      using d1 Cons.prems(2-4) same_doc_wf [OF b1(2)] by simp_all
    from Cons.IH [OF d1(1) this(2,3,1), of "room - 1"] Cons.prems(5) obtain b2 where
      b2: "eb_get_line b1 junk (room - 1) (int (length (A @ utf8_encode c))) =
        Some (take (room - 1) (takeWhile (\<lambda>c. c \<noteq> 10) B),
          int (min (length (A @ utf8_encode c) + length (utf8_text (takeWhile (\<lambda>c. c \<noteq> 10) B)) + 1) (length (contents b1))), b2)"
      by auto
    have "take room (c # l) = (if room > 0 then c # take (room - 1) l else take (room - 1) l)" for l :: "int list"
      by (cases room) simp_all
    then show ?thesis
      using b1(1) b2 False d1(2) by (subst eb_get_line.simps) (simp add: add.assoc)
  qed
qed

text \<open>C17. The line around an offset. \<open>eb_goto_bol\<close> goes back to the beginning of the line, \<open>eb_get_line\<close> returns
  the characters from the offset up to the next newline or the end, as many as the array takes, and the
  offset behind it; both loops end. This holds in charsets of one byte per character at every offset, and
  in UTF-8 between any two characters of a text of encoded valid code points.\<close>

theorem line_around:
  assumes "buf_ok b" "wf_charset b"
  shows "(charset b \<noteq> Charset_utf8 \<longrightarrow> off \<le> length (contents b) \<longrightarrow>
    (\<exists>b1 b2. eb_goto_bol b (int off) = Some (int (off - snd (line_col (take off (contents b)))), b1) \<and>
      eb_get_line b junk room (int off) =
        Some (take room (map uint (takeWhile (\<lambda>c. c \<noteq> 10) (drop off (contents b)))),
          int (min (off + line_rest (drop off (contents b)) + 1) (length (contents b))), b2))) \<and>
    (charset b = Charset_utf8 \<longrightarrow> contents b = utf8_text (A @ B) \<longrightarrow> (\<forall>c\<in>set (A @ B). utf8_valid c) \<longrightarrow>
    (\<exists>b1 b2. eb_goto_bol b (int (length (utf8_text A))) =
        Some (int (length (utf8_text A)) - int (length (utf8_text (rev (takeWhile (\<lambda>c. c \<noteq> 10) (rev A))))), b1) \<and>
      eb_get_line b junk room (int (length (utf8_text A))) =
        Some (take room (takeWhile (\<lambda>c. c \<noteq> 10) B),
          int (min (length (utf8_text A) + length (utf8_text (takeWhile (\<lambda>c. c \<noteq> 10) B)) + 1) (length (contents b))), b2)))"
proof (intro conjI impI, goal_cases)
  case 1
  then show ?case
    using eb_goto_bol_8bit [OF assms(1) 1] eb_get_line_8bit [OF assms 1, of junk room] by blast
next
  case 2
  then have c: "contents b = utf8_text A @ utf8_text B" "\<forall>c\<in>set A. utf8_valid c" "\<forall>c\<in>set B. utf8_valid c"
    by auto
  show ?case
    using eb_goto_bol_utf8 [OF assms(1) 2(1) c(1,2)] eb_get_line_utf8 [OF assms(1) 2(1) assms(2) c(1,3), of junk room] by blast
qed

lemma line_around_witness:
  "(\<exists>b1 b2. eb_goto_bol (buffer_of [[104, 10], [105, 106, 10]] Charset_8859_1) 3 = Some (2, b1) \<and>
    eb_get_line (buffer_of [[104, 10], [105, 106, 10]] Charset_8859_1) [] 80 3 = Some ([106], 5, b2)) \<and>
   (\<exists>b1 b2. eb_goto_bol (buffer_of [[10, 0xc3], [0xa9, 105]] Charset_utf8) 3 = Some (1, b1) \<and>
    eb_get_line (buffer_of [[10, 0xc3], [0xa9, 105]] Charset_utf8) [] 80 3 = Some ([105], 4, b2))"
proof -
  have e: "utf8_encode 0xe9 = [0xc3, 0xa9]" "utf8_encode 10 = [10]" "utf8_encode 105 = [105]"
    by code_simp+
  have "utf8_text ([10, 0xe9] @ [105]) = [10, 0xc3, 0xa9, 105]" "utf8_text [10, 0xe9] = [10, 0xc3, 0xa9]"
    by (simp_all add: e)
  then show ?thesis
    using line_around [of "buffer_of [[104, 10], [105, 106, 10]] Charset_8859_1" 3 "[]" 80]
      buf_ok_buffer_of [of "[[104, 10], [105, 106, 10]]" Charset_8859_1]
      line_around [of "buffer_of [[10, 0xc3], [0xa9, 105]] Charset_utf8" 3 "[]" 80 "[10, 0xe9]" "[105]"]
      buf_ok_buffer_of [of "[[10, 0xc3], [0xa9, 105]]" Charset_utf8]
    by (simp add: MAX_PAGE_SIZE_def line_col_def line_rest_def utf8_valid_def e)
qed

text \<open>\<open>eb_goto_pos\<close> goes to the wrong place on lines that span pages. The column
  carried into the next page is computed from the column before the page even when the page
  holds a newline, because the reset of \<open>col2\<close> is overwritten by the next assignment. On the
  three pages \<open>aaaa\<close>, \<open>a\n b\<close> and \<open>ccccccc\<close>, line 1 and column 7 is offset 13, as \<open>eb_get_pos\<close> says,
  but \<open>eb_goto_pos\<close> returns 9.\<close>

theorem eb_goto_pos_wrong:
  "let b = buffer_of [[97, 97, 97, 97], [97, 10, 98], [99, 99, 99, 99, 99, 99, 99]] Charset_8859_1
   in fst (eb_get_pos b 13) = (1, 7) \<and> map_option fst (eb_goto_pos b [] 1 7) = Some 9"
  by code_simp

text \<open>Changing the charset leaves stale positions. \<open>eb_set_charset\<close> does not clear the
  flags of the pages: after a query in Latin-1, the two bytes of one UTF-8 character still
  count as two columns when the buffer is switched to UTF-8, unlike in a buffer whose cache
  was not filled.\<close>

theorem charset_change_keeps_stale_positions:
  "let b = buffer_of [[0xc3, 0xa9]] Charset_8859_1; b1 = snd (eb_get_pos b 2)
   in fst (eb_get_pos (eb_set_charset b Charset_utf8) 2) = (0, 1) \<and>
      fst (eb_get_pos (eb_set_charset b1 Charset_utf8) 2) = (0, 2)"
  by code_simp

end
