(* ===== verification/Util.thy ===== *)
theory Util
  imports Cutils Charset
begin

text \<open>
  The utilities of \<open>src/util.c\<close>: searching files along a path, canonical paths, bounded
  copies, enumerations, colors, rectangles, string arrays and styled cells.

  An output buffer of \<open>n\<close> bytes is the C string it holds. \<open>bcpy\<close> and \<open>bcat\<close> are what
  \<open>pstrcpy\<close> and \<open>pstrcat\<close> leave in such a buffer, as \<open>Base_Theorems\<close> proves of them.
\<close>

definition bcpy :: "nat \<Rightarrow> string \<Rightarrow> string" where
  "bcpy n s = take (n - 1) s"

definition bcat :: "nat \<Rightarrow> string \<Rightarrow> string \<Rightarrow> string" where
  "bcat n b s = take (n - 1) (b @ s)"

section \<open>Searching files along a path\<close>

text \<open>
  \<open>opendir\<close> with the names \<open>readdir\<close> then returns, and \<open>fnmatch\<close>, are those of the system:
  the parameters \<open>ls\<close> (None for a directory that cannot be opened) and \<open>fnm\<close>. The path that
  is still to be searched is \<open>ff_bufptr\<close>; the open directory is the list of names to come.
\<close>

record FindFileState =
  ff_pattern :: string
  ff_bufptr :: string
  ff_dirpath :: string
  ff_dir :: "string list option"

definition find_file_open :: "string \<Rightarrow> string \<Rightarrow> FindFileState" where
  "find_file_open path pattern =
     \<lparr>ff_pattern = bcpy 1024 pattern, ff_bufptr = bcpy 1024 path, ff_dirpath = [], ff_dir = None\<rparr>"

definition next_dir :: "(string \<Rightarrow> string list option) \<Rightarrow> FindFileState \<Rightarrow> FindFileState" where
  "next_dir ls s =
    (let q = takeWhile (\<lambda>c. c \<noteq> CHR '':'') (ff_bufptr s);
         p = dropWhile (\<lambda>c. c \<noteq> CHR '':'') (ff_bufptr s);
         p = (if p \<noteq> [] then tl p else p);
         dirpath = take 1023 q
     in s\<lparr>ff_dirpath := dirpath, ff_bufptr := p, ff_dir := ls dirpath\<rparr>)"

lemma tl_shorter: "x \<noteq> [] \<Longrightarrow> length d \<le> length x \<Longrightarrow> length (if d \<noteq> [] then tl d else d) < length x"
  by (cases d) auto

lemma next_dir_bufptr:
  "ff_bufptr s \<noteq> [] \<Longrightarrow> length (ff_bufptr (next_dir ls s)) < length (ff_bufptr s)"
proof -
  assume ne: "ff_bufptr s \<noteq> []"
  let ?d = "dropWhile (\<lambda>c. c \<noteq> CHR '':'') (ff_bufptr s)"
  have "ff_bufptr (next_dir ls s) = (if ?d \<noteq> [] then tl ?d else ?d)"
    by (simp add: next_dir_def Let_def)
  then show ?thesis using tl_shorter [OF ne length_dropWhile_le] by metis
qed

lemma next_dir_closed:
  "ff_bufptr s \<noteq> [] \<Longrightarrow> length (ff_bufptr (next_dir ls (s\<lparr>ff_dir := x\<rparr>))) < length (ff_bufptr s)"
  using next_dir_bufptr [of "s\<lparr>ff_dir := x\<rparr>"] by simp

text \<open>
  \<open>find_file_next\<close>: the next match, or None for -1. The size of the caller's buffer is an
  argument that the code does not use; a name that does not fit is an overflow.
\<close>

datatype find_result = Found string | No_more | Overflow

definition the_default :: "'a \<Rightarrow> 'a option \<Rightarrow> 'a" where
  "the_default a x = (case x of None \<Rightarrow> a | Some y \<Rightarrow> y)"

function find_file_next :: "(string \<Rightarrow> string list option) \<Rightarrow> (string \<Rightarrow> string \<Rightarrow> bool)
    \<Rightarrow> FindFileState \<Rightarrow> nat \<Rightarrow> find_result \<times> FindFileState" where
  "find_file_next ls fnm s filename_size_max = (case ff_dir s of
       Some (d # ds) \<Rightarrow>
         let s = s\<lparr>ff_dir := Some ds\<rparr>;
             filename = ff_dirpath s @ ''/'' @ d
         in if fnm (ff_pattern s) d
            then (if length filename < filename_size_max then Found filename else Overflow, s)
            else find_file_next ls fnm s filename_size_max
     | _ \<Rightarrow>
         let s = s\<lparr>ff_dir := None\<rparr>
         in if ff_bufptr s = [] then (No_more, s)
            else find_file_next ls fnm (next_dir ls s) filename_size_max)"
  by pat_completeness auto
termination
proof (relation "measures [\<lambda>(ls, fnm, s, n). length (ff_bufptr s),
    \<lambda>(ls, fnm, s, n). length (the_default [] (ff_dir s))]", goal_cases)
  case 1
  show ?case by simp
next
  case 2
  then show ?case using next_dir_closed by simp
next
  case 3
  then show ?case using next_dir_closed by (simp add: the_default_def)
next
  case 4
  then show ?case by (simp add: the_default_def)
qed

declare find_file_next.simps [simp del]

section \<open>Paths\<close>

definition slash :: char where "slash = CHR ''/''"

text \<open>\<open>strrchr\<close>: the part before the last occurrence and the part from it on.\<close>

definition strrchr :: "string \<Rightarrow> char \<Rightarrow> (string \<times> string) option" where
  "strrchr s c = (if c \<in> set s
     then let k = length s - length (takeWhile (\<lambda>x. x \<noteq> c) (rev s)) - 1
          in Some (take k s, drop k s)
     else None)"

text \<open>The inner loop of \<open>canonize_path1\<close>: the next component, whether the path goes on, and the rest.\<close>

fun extract_file :: "string \<Rightarrow> string \<times> bool \<times> string" where
  "extract_file [] = ([], False, [])"
| "extract_file (c # p) =
    (if c = slash then ([], True, p)
     else let (f, rest, r) = extract_file p in (c # f, rest, r))"

lemma extract_file_rest: "extract_file p = (f, True, r) \<Longrightarrow> length r < length p"
  by (induction p arbitrary: f r) (fastforce split: if_splits prod.splits)+

definition copy_file :: "nat \<Rightarrow> bool \<Rightarrow> string \<Rightarrow> string \<Rightarrow> string" where
  "copy_file n abs_path buf file =
    (let buf = (if buf \<noteq> [] \<or> (buf = [] \<and> abs_path) then bcat n buf ''/'' else buf)
     in bcat n buf file)"

definition canonize_step :: "nat \<Rightarrow> bool \<Rightarrow> string \<Rightarrow> string \<Rightarrow> string" where
  "canonize_step n abs_path buf file =
    (if file = [] then buf
     else if file = ''.'' then buf
     else if file = ''..'' then
       (if buf = [] then (if \<not> abs_path then copy_file n abs_path buf file else buf)
        else (case strrchr buf slash of
            None \<Rightarrow> copy_file n abs_path buf file
          | Some (before, q1) \<Rightarrow>
              if q1 = ''/..'' then copy_file n abs_path buf file else before))
     else copy_file n abs_path buf file)"

function canonize_loop :: "nat \<Rightarrow> bool \<Rightarrow> string \<Rightarrow> string \<Rightarrow> string" where
  "canonize_loop n abs_path buf p =
    (case extract_file p of (f, rest, r) \<Rightarrow>
       let buf = canonize_step n abs_path buf (take 1023 f)
       in if rest then canonize_loop n abs_path buf r else buf)"
  by pat_completeness auto
termination
  by (relation "measure (\<lambda>(n, abs_path, buf, p). length p)")
    (auto dest: extract_file_rest [OF sym])

declare canonize_loop.simps [simp del]

definition canonize_path1 :: "nat \<Rightarrow> string \<Rightarrow> string" where
  "canonize_path1 buf_size path =
    (let abs_path = (path \<noteq> [] \<and> hd path = slash);
         buf = canonize_loop buf_size abs_path [] path
     in if buf = [] then bcat buf_size buf (if abs_path then ''/'' else ''.'') else buf)"

definition strchr :: "string \<Rightarrow> char \<Rightarrow> (string \<times> string) option" where
  "strchr s c = (if c \<in> set s then Some (takeWhile (\<lambda>x. x \<noteq> c) s, dropWhile (\<lambda>x. x \<noteq> c) s) else None)"

text \<open>
  \<open>canonize_path\<close>. For a drive letter it copies the first two bytes of \<open>p\<close>, which points to
  the colon; the second may be the terminating zero, which ends the string there.
\<close>

definition canonize_path :: "nat \<Rightarrow> string \<Rightarrow> string" where
  "canonize_path buf_size path = (case strchr path (CHR '':'') of
       None \<Rightarrow> canonize_path1 buf_size path
     | Some (before, p) \<Rightarrow>
         if length before = 1
         then (case p of
             [c] \<Rightarrow> [c]
           | c # d # _ \<Rightarrow> [c, d] @ canonize_path1 (buf_size - 2) p
           | [] \<Rightarrow> [])
         else bcpy buf_size path)"

definition is_abs_path :: "string \<Rightarrow> bool" where
  "is_abs_path path =
    (let p = (case strchr path (CHR '':'') of None \<Rightarrow> path | Some (_, p) \<Rightarrow> tl p)
     in p \<noteq> [] \<and> hd p = slash)"

text \<open>The working directory \<open>cwd\<close> is a parameter; \<open>getcwd\<close> fails on one that is too long.\<close>

definition canonize_absolute_path :: "string \<Rightarrow> nat \<Rightarrow> string \<Rightarrow> string option" where
  "canonize_absolute_path cwd buf_size path1 =
    (if \<not> is_abs_path path1
     then do {
       guard (length cwd < 1024);
       Some (canonize_path buf_size (bcat 1024 (bcat 1024 cwd ''/'') path1)) }
     else Some (canonize_path buf_size (bcpy 1024 path1)))"

definition qe_basename :: "string \<Rightarrow> string" where
  "qe_basename filename = (case strrchr filename slash of
       None \<Rightarrow> filename | Some (_, p) \<Rightarrow> tl p)"

definition pathname :: "nat \<Rightarrow> string \<Rightarrow> string" where
  "pathname buf_size filename = (case strrchr filename slash of
       None \<Rightarrow> bcpy buf_size filename
     | Some (before, _) \<Rightarrow> take (min (length before + 1) (buf_size - 1)) filename)"

section \<open>Bounded copies and scanning\<close>

fun pstrncpy_loop :: "nat \<Rightarrow> string \<Rightarrow> nat \<Rightarrow> string" where
  "pstrncpy_loop room s 0 = []"
| "pstrncpy_loop 0 s (Suc len) = []"
| "pstrncpy_loop (Suc room) [] (Suc len) = []"
| "pstrncpy_loop (Suc room) (c # s) (Suc len) = c # pstrncpy_loop room s len"

definition pstrncpy :: "nat \<Rightarrow> string \<Rightarrow> nat \<Rightarrow> string" where
  "pstrncpy buf_size s len = pstrncpy_loop (buf_size - 1) s len"

definition css_is_space :: "char \<Rightarrow> bool" where
  "css_is_space ch \<longleftrightarrow> ch = CHR '' '' \<or> ch = CHR 0x0A \<or> ch = CHR 0x0D \<or> ch = CHR 0x09"

fun skip_spaces :: "string \<Rightarrow> string" where
  "skip_spaces [] = []"
| "skip_spaces (c # p) = (if css_is_space c then skip_spaces p else c # p)"

fun get_str :: "string \<Rightarrow> nat \<Rightarrow> string \<Rightarrow> string \<times> string" where
  "get_str [] room stop = ([], [])"
| "get_str (c # p) room stop =
    (if c \<in> set stop then ([], c # p)
     else let (buf, r) = get_str p (room - 1) stop
          in (if room > 0 then c # buf else buf, r))"

definition utoupper :: "int \<Rightarrow> int" where
  "utoupper c = (if 97 \<le> c \<and> c \<le> 122 then c + (65 - 97) else c)"

text \<open>The string \<open>str\<close> of code points ends with a zero, which is kept; reading on has no result.\<close>

fun ustristart :: "int list \<Rightarrow> string \<Rightarrow> int list option option" where
  "ustristart p [] = Some (Some p)"
| "ustristart [] (c # q) = None"
| "ustristart (x # p) (c # q) =
    (if utoupper x \<noteq> utoupper (of_char c) then Some None else ustristart p q)"

fun css_get_enum_loop :: "nat \<Rightarrow> string \<Rightarrow> string \<Rightarrow> int \<Rightarrow> int" where
  "css_get_enum_loop 0 str s val = -1"
| "css_get_enum_loop (Suc fuel) str s val = (case strchr s (CHR '','') of
       None \<Rightarrow> if s = str then val else -1
     | Some (item, s1) \<Rightarrow>
         if item = str then val else css_get_enum_loop fuel str (tl s1) (val + 1))"

text \<open>Every step drops a comma, so one more step than the length of the string is enough.\<close>

definition css_get_enum :: "string \<Rightarrow> string \<Rightarrow> int" where
  "css_get_enum str enum_str = css_get_enum_loop (length enum_str + 1) str enum_str 0"

section \<open>Colors and fonts\<close>

definition to_hex :: "int \<Rightarrow> int" where
  "to_hex key =
    (if key \<ge> 48 \<and> key \<le> 57 then key - 48
     else if key \<ge> 97 \<and> key \<le> 102 then key - 97 + 10
     else if key \<ge> 65 \<and> key \<le> 70 then key - 65 + 10
     else -1)"

definition code :: "char \<Rightarrow> int" where "code c = of_char c"

definition QERGB :: "u32 \<Rightarrow> u32 \<Rightarrow> u32 \<Rightarrow> u32" where
  "QERGB r g b = push_bit 24 0xff OR push_bit 16 r OR push_bit 8 g OR b"

definition css_colors :: "(string \<times> u32) list" where
  "css_colors =
    [(''black'', QERGB 0x00 0x00 0x00), (''green'', QERGB 0x00 0x80 0x00),
     (''silver'', QERGB 0xc0 0xc0 0xc0), (''lime'', QERGB 0x00 0xff 0x00),
     (''gray'', QERGB 0xbe 0xbe 0xbe), (''olive'', QERGB 0x80 0x80 0x00),
     (''white'', QERGB 0xff 0xff 0xff), (''yellow'', QERGB 0xff 0xff 0x00),
     (''maroon'', QERGB 0x80 0x00 0x00), (''navy'', QERGB 0x00 0x00 0x80),
     (''red'', QERGB 0xff 0x00 0x00), (''blue'', QERGB 0x00 0x00 0xff),
     (''purple'', QERGB 0x80 0x00 0x80), (''teal'', QERGB 0x00 0x80 0x80),
     (''fuchsia'', QERGB 0xff 0x00 0xff), (''aqua'', QERGB 0x00 0xff 0xff),
     (''cyan'', QERGB 0x00 0xff 0xff), (''magenta'', QERGB 0xff 0x00 0xff),
     (''transparent'', 0)]"

fun find_color :: "(string \<times> u32) list \<Rightarrow> string \<Rightarrow> u32 option" where
  "find_color [] p = None"
| "find_color ((name, color) # defs) p = (if strcaseeq p name then Some color else find_color defs p)"

text \<open>\<open>strtol\<close> with base 0, for the values that fit in a \<open>long\<close>.\<close>

definition digit_val :: "nat \<Rightarrow> char \<Rightarrow> int option" where
  "digit_val base c =
    (let v = to_hex (code c) in if 0 \<le> v \<and> v < int base then Some v else None)"

fun strtol_digits :: "nat \<Rightarrow> int \<Rightarrow> string \<Rightarrow> int \<times> string" where
  "strtol_digits base v [] = (v, [])"
| "strtol_digits base v (c # p) = (case digit_val base c of
     None \<Rightarrow> (v, c # p) | Some d \<Rightarrow> strtol_digits base (v * int base + d) p)"

definition strtol_space :: "char \<Rightarrow> bool" where
  "strtol_space c \<longleftrightarrow> code c = 32 \<or> 9 \<le> code c \<and> code c \<le> 13"

definition strtol :: "string \<Rightarrow> int \<times> string" where
  "strtol p =
    (let p1 = dropWhile strtol_space p;
         (neg, p2) = (case p1 of [] \<Rightarrow> (False, p1)
           | c # r \<Rightarrow> if c = CHR ''-'' then (True, r) else if c = CHR ''+'' then (False, r) else (False, p1));
         (base, p3) = (case p2 of
             a # x # d # r \<Rightarrow>
               if a = CHR ''0'' \<and> (x = CHR ''x'' \<or> x = CHR ''X'') \<and> digit_val 16 d \<noteq> None
               then (16, d # r) else if a = CHR ''0'' then (8, p2) else (10, p2)
           | a # _ \<Rightarrow> if a = CHR ''0'' then (8, p2) else (10, p2)
           | [] \<Rightarrow> (10, p2))
     in case p3 of [] \<Rightarrow> (0, p)
        | c # _ \<Rightarrow> if digit_val base c = None then (0, p)
          else let (v, r) = strtol_digits base 0 p3 in (if neg then - v else v, r))"

text \<open>Division of C, towards zero; \<open>int_ok\<close> says that a result is an \<open>int\<close>.\<close>

definition cdiv :: "int \<Rightarrow> int \<Rightarrow> int" where
  "cdiv a b = (if 0 \<le> a then a div b else - ((- a) div b))"

definition int_ok :: "int \<Rightarrow> bool" where
  "int_ok k \<longleftrightarrow> - 2147483648 \<le> k \<and> k < 2147483648"

text \<open>
  The components of \<open>rgb(...)\<close> and \<open>rgba(...)\<close>: a \<open>long\<close> is cut to an \<open>int\<close>, whose product
  with 255 must not overflow.
\<close>

fun parse_rgba :: "nat \<Rightarrow> string \<Rightarrow> u8 list option" where
  "parse_rgba 0 p = Some []"
| "parse_rgba (Suc n) p = do {
     let p = skip_spaces p;
     let (v, p) = strtol p;
     let v = sint (word_of_int v :: 32 word);
     (v, p) \<leftarrow> (case p of c # r \<Rightarrow>
         if c = CHR ''%'' then do { guard (int_ok (v * 255)); Some (cdiv (v * 255) 100, r) }
         else Some (v, p)
       | [] \<Rightarrow> Some (v, p));
     let p = skip_spaces p;
     let p = (case p of c # r \<Rightarrow> if c = CHR '','' then r else p | [] \<Rightarrow> p);
     vs \<leftarrow> parse_rgba n p;
     Some (byte v # vs) }"

definition rgba_color :: "u8 list \<Rightarrow> u32" where
  "rgba_color rgba = push_bit 16 (ucast (rgba ! 0)) OR push_bit 8 (ucast (rgba ! 1)) OR
     ucast (rgba ! 2) OR push_bit 24 (ucast (rgba ! 3))"

text \<open>The hexadecimal notations; shifting the -1 of a bad digit has no defined result.\<close>

definition parse_num :: "string \<Rightarrow> u32 option option" where
  "parse_num p = (case map (\<lambda>c. to_hex (code c)) p of
       [a, b, c] \<Rightarrow> do {
         guard (0 \<le> a \<and> 0 \<le> b \<and> 0 \<le> c);
         Some (Some (rgba_color [byte (a OR push_bit 4 a), byte (b OR push_bit 4 b),
           byte (c OR push_bit 4 c), 0xff])) }
     | [a, b, c, d, e, f] \<Rightarrow> do {
         guard (0 \<le> a \<and> 0 \<le> c \<and> 0 \<le> e);
         Some (Some (rgba_color [byte (push_bit 4 a OR b), byte (push_bit 4 c OR d),
           byte (push_bit 4 e OR f), 0xff])) }
     | _ \<Rightarrow> Some None)"

text \<open>\<open>css_get_color\<close>: the color, or \<open>Some None\<close> for -1.\<close>

definition css_get_color :: "string \<Rightarrow> u32 option option" where
  "css_get_color p = (case find_color css_colors p of
       Some c \<Rightarrow> Some (Some c)
     | None \<Rightarrow>
         if p \<noteq> [] \<and> digit_val 16 (hd p) \<noteq> None then parse_num p
         else if p \<noteq> [] \<and> hd p = CHR ''#'' then parse_num (tl p)
         else (case strstart p ''rgb('' of
             Some q \<Rightarrow> do { vs \<leftarrow> parse_rgba 3 q; Some (Some (rgba_color (vs @ [0xff]))) }
           | None \<Rightarrow> (case strstart p ''rgba('' of
               Some q \<Rightarrow> do { vs \<leftarrow> parse_rgba 4 q; Some (Some (rgba_color vs)) }
             | None \<Rightarrow> Some None)))"

definition css_get_font_family :: "string \<Rightarrow> int" where
  "css_get_font_family str =
    (if strcaseeq str ''serif'' \<or> strcaseeq str ''times'' then 0x0200
     else if strcaseeq str ''sans'' \<or> strcaseeq str ''arial'' \<or> strcaseeq str ''helvetica'' then 0x0300
     else if strcaseeq str ''fixed'' \<or> strcaseeq str ''monospace'' \<or> strcaseeq str ''courier'' then 0x0100
     else 0)"

section \<open>Rectangles\<close>

record CSSRect =
  rx1 :: int
  ry1 :: int
  rx2 :: int
  ry2 :: int

definition css_is_null_rect :: "CSSRect \<Rightarrow> bool" where
  "css_is_null_rect a \<longleftrightarrow> rx2 a \<le> rx1 a \<or> ry2 a \<le> ry1 a"

definition css_is_inter_rect :: "CSSRect \<Rightarrow> CSSRect \<Rightarrow> bool" where
  "css_is_inter_rect a b \<longleftrightarrow>
     \<not> (rx2 a \<le> rx1 b \<or> rx1 a \<ge> rx2 b \<or> ry2 a \<le> ry1 b \<or> ry1 a \<ge> ry2 b)"

definition css_union_rect :: "CSSRect \<Rightarrow> CSSRect \<Rightarrow> CSSRect" where
  "css_union_rect a b =
    (if css_is_null_rect b then a
     else if css_is_null_rect a then b
     else let a = (if rx1 b < rx1 a then a\<lparr>rx1 := rx1 b\<rparr> else a);
              a = (if ry1 b < ry1 a then a\<lparr>ry1 := ry1 b\<rparr> else a);
              a = (if rx2 b > rx2 a then a\<lparr>rx2 := rx2 b\<rparr> else a)
          in if ry2 b > ry2 a then a\<lparr>ry2 := ry2 b\<rparr> else a)"

section \<open>String arrays and styled cells\<close>

record StringItem =
  selected :: bool
  item_str :: string

record StringArray =
  nb_allocated :: nat
  items :: "StringItem option list"

text \<open>\<open>ok\<close> says whether the allocator succeeds. The index of the new item, if there is one.\<close>

definition set_string :: "bool \<Rightarrow> StringArray \<Rightarrow> nat \<Rightarrow> string \<Rightarrow> nat option \<times> StringArray" where
  "set_string ok cs index str =
    (if index \<ge> length (items cs) then (None, cs)
     else if \<not> ok then (None, cs)
     else (Some index, cs\<lparr>items := (items cs)[index := Some \<lparr>selected = False, item_str = str\<rparr>]\<rparr>))"

definition add_string :: "bool \<Rightarrow> StringArray \<Rightarrow> string \<Rightarrow> nat option \<times> StringArray" where
  "add_string ok cs str =
    (if length (items cs) \<ge> nb_allocated cs \<and> \<not> ok then (None, cs)
     else let cs = (if length (items cs) \<ge> nb_allocated cs
                    then cs\<lparr>nb_allocated := nb_allocated cs + 32\<rparr> else cs);
              cs = cs\<lparr>items := items cs @ [None]\<rparr>
          in set_string ok cs (length (items cs) - 1) str)"

definition free_strings :: "StringArray \<Rightarrow> StringArray" where
  "free_strings cs = \<lparr>nb_allocated = 0, items = []\<rparr>"

definition STYLE_SHIFT :: nat where "STYLE_SHIFT = 20"
definition STYLE_MASK :: u32 where "STYLE_MASK = push_bit STYLE_SHIFT 0xfff"
definition CHAR_MASK :: u32 where "CHAR_MASK = 0xfffff"

definition set_color :: "u32 list \<Rightarrow> nat \<Rightarrow> u32 \<Rightarrow> u32 list option" where
  "set_color buf len style = do {
     guard (len \<le> length buf);
     Some (map (\<lambda>c. c OR push_bit STYLE_SHIFT style) (take len buf) @ drop len buf) }"

definition clear_color :: "u32 list \<Rightarrow> nat \<Rightarrow> u32 list option" where
  "clear_color buf len = do {
     guard (len \<le> length buf);
     Some (map (\<lambda>c. c AND NOT STYLE_MASK) (take len buf) @ drop len buf) }"

definition css_strtolower :: "string \<Rightarrow> string" where
  "css_strtolower buf = map c_tolower buf"

end
