(* ===== verification/Key_Names.thy ===== *)
theory Key_Names
  imports Util
begin

text \<open>
  Keys: the key codes of \<open>src/qe.h\<close> and their names in \<open>src/util.c\<close>. A key is a code point
  or a code from \<open>0xe000\<close> on. Names are read by \<open>strtokey\<close>, which the command tables use, and
  written by \<open>keytostr\<close>, which the help and the macro commands use.
\<close>

section \<open>Key codes\<close>

definition KEY_META :: "int \<Rightarrow> int" where "KEY_META c = c OR 0xe000"
definition KEY_ESC1 :: "int \<Rightarrow> int" where "KEY_ESC1 c = c OR 0xe100"
definition KEY_CTRLX :: "int \<Rightarrow> int" where "KEY_CTRLX c = c OR 0xe200"
definition KEY_CTRLXRET :: "int \<Rightarrow> int" where "KEY_CTRLXRET c = c OR 0xe300"
definition KEY_CTRLH :: "int \<Rightarrow> int" where "KEY_CTRLH c = c OR 0xe500"
definition KEY_CTRL :: "int \<Rightarrow> int" where "KEY_CTRL c = c AND 0x1f"

definition KEY_UP :: int where "KEY_UP = KEY_ESC1 65"
definition KEY_DOWN :: int where "KEY_DOWN = KEY_ESC1 66"
definition KEY_RIGHT :: int where "KEY_RIGHT = KEY_ESC1 67"
definition KEY_LEFT :: int where "KEY_LEFT = KEY_ESC1 68"
definition KEY_CTRL_UP :: int where "KEY_CTRL_UP = KEY_ESC1 97"
definition KEY_CTRL_DOWN :: int where "KEY_CTRL_DOWN = KEY_ESC1 98"
definition KEY_CTRL_RIGHT :: int where "KEY_CTRL_RIGHT = KEY_ESC1 99"
definition KEY_CTRL_LEFT :: int where "KEY_CTRL_LEFT = KEY_ESC1 100"
definition KEY_CTRL_HOME :: int where "KEY_CTRL_HOME = 0xe402"
definition KEY_CTRL_END :: int where "KEY_CTRL_END = 0xe403"
definition KEY_TAB :: int where "KEY_TAB = KEY_CTRL 105"
definition KEY_SHIFT_TAB :: int where "KEY_SHIFT_TAB = 0xe404"
definition KEY_F1 :: int where "KEY_F1 = KEY_ESC1 11"
definition KEY_F12 :: int where "KEY_F12 = KEY_ESC1 22"
definition KEY_BACKSPACE :: int where "KEY_BACKSPACE = 127"
definition KEY_INSERT :: int where "KEY_INSERT = KEY_ESC1 2"
definition KEY_DELETE :: int where "KEY_DELETE = KEY_ESC1 3"
definition KEY_PAGEUP :: int where "KEY_PAGEUP = KEY_ESC1 5"
definition KEY_PAGEDOWN :: int where "KEY_PAGEDOWN = KEY_ESC1 6"
definition KEY_HOME :: int where "KEY_HOME = KEY_ESC1 7"
definition KEY_END :: int where "KEY_END = KEY_ESC1 8"
definition KEY_RET :: int where "KEY_RET = 0x000d"
definition KEY_ESC :: int where "KEY_ESC = 0x001b"
definition KEY_SPC :: int where "KEY_SPC = 0x0020"
definition KEY_NONE :: int where "KEY_NONE = 0xffff"
definition KEY_DEFAULT :: int where "KEY_DEFAULT = 0xe401"

definition KEY_SPECIAL :: "int \<Rightarrow> bool" where
  "KEY_SPECIAL c \<longleftrightarrow> (c \<ge> 0xe000 \<and> c < 0xf000) \<or> (c \<ge> 0 \<and> c < 32)"

section \<open>Names\<close>

text \<open>The tables \<open>keycodes\<close> and \<open>keystr\<close>, side by side.\<close>

definition keycodes :: "(int \<times> string) list" where
  "keycodes =
    [(KEY_LEFT, ''left''), (KEY_RIGHT, ''right''), (KEY_UP, ''up''), (KEY_DOWN, ''down''),
     (KEY_CTRL_LEFT, ''C-left''), (KEY_CTRL_RIGHT, ''C-right''), (KEY_CTRL_UP, ''C-up''),
     (KEY_CTRL_DOWN, ''C-down''), (KEY_CTRL_HOME, ''C-home''), (KEY_CTRL_END, ''C-end''),
     (KEY_CTRL 95, ''C-_''), (KEY_CTRL 32, ''C-space''), (KEY_CTRL 92, ''C-'' @ [CHR 0x5C]),
     (KEY_BACKSPACE, ''backspace''), (KEY_INSERT, ''insert''), (KEY_DELETE, ''delete''),
     (KEY_PAGEUP, ''prior''), (KEY_PAGEDOWN, ''next''), (KEY_HOME, ''home''), (KEY_END, ''end''),
     (32, ''SPC''), (KEY_RET, ''RET''), (KEY_ESC, ''ESC''), (KEY_TAB, ''TAB''),
     (KEY_SHIFT_TAB, ''S-TAB''), (KEY_DEFAULT, ''default'')]"

fun key_of_name :: "(int \<times> string) list \<Rightarrow> string \<Rightarrow> int option" where
  "key_of_name [] p = None"
| "key_of_name ((k, s) # t) p = (if p = s then Some k else key_of_name t p)"

fun name_of_key :: "(int \<times> string) list \<Rightarrow> int \<Rightarrow> string option" where
  "name_of_key [] key = None"
| "name_of_key ((k, s) # t) key = (if k = key then Some s else name_of_key t key)"

definition isdigit :: "char \<Rightarrow> bool" where
  "isdigit c \<longleftrightarrow> 48 \<le> code c \<and> code c \<le> 57"

text \<open>\<open>strtokey1\<close> compares whole strings, so a name must end the string to be found.\<close>

definition strtokey1 :: "string \<Rightarrow> int option" where
  "strtokey1 p = (case key_of_name keycodes p of
       Some k \<Rightarrow> Some k
     | None \<Rightarrow> (case p of
           c # d # r \<Rightarrow>
             if c = CHR ''f'' \<and> isdigit d
             then let n = code d - 48;
                      n = (if r \<noteq> [] \<and> isdigit (hd r) then n * 10 + code d - 48 else n);
                      n = (if n = 0 then 1 else n)
                  in Some (KEY_F1 + n - 1)
             else map_option fst (utf8_decode (bytes_of p @ [0]))
         | _ \<Rightarrow> map_option fst (utf8_decode (bytes_of p @ [0]))))"

definition strtokey :: "string \<Rightarrow> (int \<times> string) option" where
  "strtokey p =
    (let skip = dropWhile (\<lambda>c. c \<noteq> CHR '' '') in
     case strstart p ''C-'' of
       Some p \<Rightarrow> do {
         key \<leftarrow> strtokey1 p;
         let key = (if key \<ge> 97 \<and> key \<le> 122 then KEY_CTRL key else key);
         Some (key, skip p) }
     | None \<Rightarrow> (case strstart p ''M-'' of
         Some p \<Rightarrow> do {
           key \<leftarrow> strtokey1 p;
           let key = (if (key \<ge> 97 \<and> key \<le> 122) \<or> key = KEY_BACKSPACE then KEY_META key else key);
           Some (key, skip p) }
       | None \<Rightarrow> do { key \<leftarrow> strtokey1 p; Some (key, skip p) }))"

definition decimal :: "int \<Rightarrow> string" where
  "decimal n = (if n < 10 then [char_of (nat n + 48)]
     else [char_of (nat (n div 10) + 48), char_of (nat (n mod 10) + 48)])"

text \<open>
  \<open>keytostr\<close>: its own call is for a key below 256, which is not a meta key. The last branch
  stores the encoding of the key without looking at the size of the buffer.
\<close>

definition keytostr1 :: "nat \<Rightarrow> int \<Rightarrow> string option" where
  "keytostr1 buf_size key = (case name_of_key keycodes key of
       Some s \<Rightarrow> Some (bcpy buf_size s)
     | None \<Rightarrow>
         if key \<ge> 1 \<and> key \<le> 31 then Some (bcpy buf_size (''C-'' @ [char_of (nat (key + 97 - 1))]))
         else if key \<ge> KEY_F1 \<and> key \<le> KEY_F12
         then Some (bcpy buf_size (''F'' @ decimal (key - KEY_F1 + 1)))
         else do {
           let q = utf8_encode key;
           guard (length q < buf_size);
           Some (map (\<lambda>b. char_of (unat b)) q) })"

definition keytostr :: "nat \<Rightarrow> int \<Rightarrow> string option" where
  "keytostr buf_size key =
    (if name_of_key keycodes key = None \<and> key \<ge> KEY_META 32 \<and> key \<le> KEY_META 127
     then do { buf1 \<leftarrow> keytostr1 32 (key AND 0xff); Some (bcpy buf_size (''M-'' @ buf1)) }
     else keytostr1 buf_size key)"

section \<open>Properties\<close>

definition named_keys :: "int list" where
  "named_keys = [1..27] @ [32, 33, 65, 97, 126, 127] @ map KEY_META [97, 109, 122] @ [KEY_META KEY_BACKSPACE] @
     [KEY_LEFT, KEY_RIGHT, KEY_UP, KEY_DOWN, KEY_INSERT, KEY_DELETE, KEY_PAGEUP, KEY_PAGEDOWN,
      KEY_HOME, KEY_END, KEY_SHIFT_TAB, KEY_DEFAULT, 0xe9, 0x20ac, 0x1f600]"

text \<open>Key names read back. For all the control letters, for printable
  characters, meta letters, the editing and cursor keys and characters of every encoded length,
  \<open>strtokey\<close> of the name that \<open>keytostr\<close> writes is the key again and consumes the name.\<close>

theorem key_names_roundtrip:
  "list_all (\<lambda>key. keytostr 32 key \<bind> strtokey = Some (key, [])) named_keys"
  by code_simp

text \<open>Keys whose names do not read back. The prefix \<open>C-\<close> is taken off before the name is
  looked up, so \<open>C-left\<close> and the other control names of the table give the plain key; a function
  key is written with a capital \<open>F\<close>, which is read as that letter, and its second digit is read
  from the first one's place: \<open>f10\<close> and \<open>f12\<close> are both \<open>f11\<close>; meta names of other
  characters than lower case letters lose the modifier.\<close>

theorem key_names_misread:
  "list_all (\<lambda>key. keytostr 32 key \<bind> strtokey \<noteq> Some (key, []))
     ([KEY_CTRL_LEFT, KEY_CTRL_RIGHT, KEY_CTRL_UP, KEY_CTRL_DOWN, KEY_CTRL_HOME, KEY_CTRL_END,
       KEY_CTRL 95, KEY_CTRL 32, KEY_CTRL 92, KEY_META 65, KEY_META 60] @ [KEY_F1..KEY_F12]) \<and>
   strtokey ''C-left'' = Some (KEY_LEFT, []) \<and>
   strtokey ''f10'' = Some (KEY_F1 + 10, []) \<and> strtokey ''f12'' = Some (KEY_F1 + 10, [])"
  by code_simp

end
