(* ===== verification/Util_Theorems.thy ===== *)
theory Util_Theorems
  imports Util
begin

text \<open>
  The properties of the utilities: what the search for files enumerates, what a canonical path
  is, which hexadecimal colors are read, and that styles do not touch the characters of cells.
\<close>

section \<open>Searching files\<close>

text \<open>The abstract view of a search: the names that it has still to return.\<close>

function dirs_of :: "string \<Rightarrow> string list" where
  "dirs_of p = (if p = [] then []
     else takeWhile (\<lambda>c. c \<noteq> CHR '':'') p #
       (let r = dropWhile (\<lambda>c. c \<noteq> CHR '':'') p in dirs_of (if r \<noteq> [] then tl r else r)))"
  by pat_completeness auto
termination
proof (relation "measure length", goal_cases)
  case (2 p r)
  then show ?case using tl_shorter [OF 2(1), of r] by (simp add: length_dropWhile_le)
qed simp

declare dirs_of.simps [simp del]

definition matches_in :: "(string \<Rightarrow> string \<Rightarrow> bool) \<Rightarrow> string \<Rightarrow> string \<Rightarrow> string list option \<Rightarrow> string list" where
  "matches_in fnm pat dir entries =
    map (\<lambda>d. dir @ ''/'' @ d) (filter (fnm pat) (the_default [] entries))"

definition remaining :: "(string \<Rightarrow> string list option) \<Rightarrow> (string \<Rightarrow> string \<Rightarrow> bool) \<Rightarrow> FindFileState \<Rightarrow> string list" where
  "remaining ls fnm s = matches_in fnm (ff_pattern s) (ff_dirpath s) (ff_dir s) @
     concat (map (\<lambda>dir. matches_in fnm (ff_pattern s) (take 1023 dir) (ls (take 1023 dir)))
       (dirs_of (ff_bufptr s)))"

lemma remaining_end:
  "the_default [] (ff_dir s) = [] \<Longrightarrow> ff_bufptr s = [] \<Longrightarrow> remaining ls fnm s = []"
  by (simp add: remaining_def matches_in_def dirs_of.simps)

lemma remaining_next_dir:
  "the_default [] (ff_dir s) = [] \<Longrightarrow> ff_bufptr s \<noteq> [] \<Longrightarrow>
    remaining ls fnm (next_dir ls (s\<lparr>ff_dir := x\<rparr>)) = remaining ls fnm s"
  by (subst (2) remaining_def, subst dirs_of.simps)
    (simp add: remaining_def next_dir_def Let_def matches_in_def)

lemma remaining_entry:
  "ff_dir s = Some (d # ds) \<Longrightarrow> remaining ls fnm s =
    (if fnm (ff_pattern s) d then [ff_dirpath s @ ''/'' @ d] else []) @
    remaining ls fnm (s\<lparr>ff_dir := Some ds\<rparr>)"
  by (simp add: remaining_def matches_in_def the_default_def)

definition next_of :: "string list \<Rightarrow> nat \<Rightarrow> find_result" where
  "next_of fs n = (case fs of [] \<Rightarrow> No_more | f # _ \<Rightarrow> if length f < n then Found f else Overflow)"

lemma find_file_next_remaining:
  "fst (find_file_next ls fnm s n) = next_of (remaining ls fnm s) n \<and>
   remaining ls fnm (snd (find_file_next ls fnm s n)) = tl (remaining ls fnm s)"
proof (induction ls fnm s n rule: find_file_next.induct)
  case (1 ls fnm s n)
  show ?case
  proof (cases "the_default [] (ff_dir s)")
    case (Cons d ds)
    then have e: "ff_dir s = Some (d # ds)" by (simp add: the_default_def split: option.splits)
    show ?thesis
      using 1(3) [OF e] e remaining_entry [OF e, of ls fnm]
      by (subst (1 2) find_file_next.simps) (simp add: Let_def next_of_def)
  next
    case Nil
    then have e: "ff_dir s = None \<or> ff_dir s = Some []"
      by (simp add: the_default_def split: option.splits)
    show ?thesis
    proof (cases "ff_bufptr s = []")
      case True
      then show ?thesis using e remaining_end [OF Nil True]
        remaining_end [of "s\<lparr>ff_dir := None\<rparr>" ls fnm]
        by (subst (1 2) find_file_next.simps) (auto simp: Let_def next_of_def the_default_def)
    next
      case False
      then show ?thesis
        using e 1(1,2) remaining_next_dir [OF Nil False, of ls fnm None]
        by (subst (1 2) find_file_next.simps) (auto simp: Let_def)
    qed
  qed
qed

text \<open>Searching for files. A search for a pattern along a path returns, one call after the
  other, exactly the matching entries of the directories of the path, in their order, leaving
  out the directories that cannot be opened; then it returns -1, for good. A name that does not
  fit in the buffer of the caller is written over its end: the size passed is not looked at.\<close>

theorem find_file_spec:
  "remaining ls fnm (find_file_open path pattern) =
     concat (map (\<lambda>dir. matches_in fnm (take 1023 pattern) (take 1023 dir) (ls (take 1023 dir)))
       (dirs_of (take 1023 path))) \<and>
   fst (find_file_next ls fnm s n) = (case remaining ls fnm s of
       [] \<Rightarrow> No_more
     | f # _ \<Rightarrow> if length f < n then Found f else Overflow) \<and>
   remaining ls fnm (snd (find_file_next ls fnm s n)) = tl (remaining ls fnm s)"
  using find_file_next_remaining [of ls fnm s n]
  by (simp add: next_of_def remaining_def find_file_open_def matches_in_def the_default_def bcpy_def)

section \<open>Hexadecimal colors\<close>

definition hexdig :: "nat \<Rightarrow> char" where "hexdig d = ''0123456789abcdef'' ! d"

definition hex2 :: "u8 \<Rightarrow> string" where
  "hex2 v = [hexdig (unat v div 16), hexdig (unat v mod 16)]"

lemma to_hex_hexdig: "d < 16 \<Longrightarrow> to_hex (code (hexdig d)) = int d"
proof -
  have "\<forall>d\<in>set [0..<16]. to_hex (code (hexdig d)) = int d" by code_simp
  then show "d < 16 \<Longrightarrow> ?thesis" by simp
qed

lemma u8_digits: "unat (v :: u8) div 16 < 16" "unat v mod 16 < 16"
  using u8_less [of v] by auto

lemma nibbles: "push_bit 4 (drop_bit 4 u) OR take_bit 4 u = (u :: nat)"
  by (rule bit_eqI) (auto simp: bit_simps)

lemma byte_of_digits: "byte (push_bit 4 (int (unat (v :: u8) div 16)) OR int (unat v mod 16)) = v"
proof -
  have "push_bit 4 (int (unat v div 16)) OR int (unat v mod 16) =
      of_nat (push_bit 4 (unat v div 16) OR unat v mod 16)"
    by (simp add: of_nat_or_eq push_bit_of_nat)
  also have "push_bit 4 (unat v div 16) OR unat v mod 16 = unat v"
    using nibbles [of "unat v"] by (simp add: drop_bit_eq_div take_bit_eq_mod)
  finally show ?thesis by simp
qed

lemma css_colors_no_hash: "find_color css_colors (CHR ''#'' # p) = None"
  by (simp add: css_colors_def strcaseeq_def c_tolower_def)

lemma digit_val_hash: "digit_val 16 (CHR ''#'') = None"
  by code_simp

lemma parse_num_hex2:
  "parse_num (hex2 r @ hex2 g @ hex2 b) = Some (Some (rgba_color [r, g, b, 0xff]))"
  by (simp add: parse_num_def hex2_def to_hex_hexdig u8_digits byte_of_digits)

lemma rgba_color_QERGB: "rgba_color [r, g, b, 0xff] = QERGB (ucast r) (ucast g) (ucast b)"
proof -
  have rot: "x OR y OR z OR w = w OR x OR y OR z" for x y z w :: u32
    by (metis or.assoc or.commute)
  show ?thesis
    unfolding rgba_color_def QERGB_def by (simp del: push_bit_numeral) (rule rot)
qed

text \<open>Hexadecimal colors. For all components, \<open>#rrggbb\<close> in lower case hexadecimal digits is
  read as the opaque color of these components.\<close>

lemma css_get_color_hex:
  "css_get_color (''#'' @ hex2 r @ hex2 g @ hex2 b) =
     Some (Some (QERGB (ucast r) (ucast g) (ucast b)))"
  using css_colors_no_hash
  by (simp add: css_get_color_def digit_val_hash parse_num_hex2 rgba_color_QERGB)

section \<open>Styled cells\<close>

lemma char_of_styled: "(c OR push_bit STYLE_SHIFT style) AND CHAR_MASK = c AND CHAR_MASK"
proof -
  have "CHAR_MASK = mask 20" by (simp add: CHAR_MASK_def mask_eq_exp_minus_1)
  then show ?thesis
    by (auto simp: STYLE_SHIFT_def bit_eq_iff bit_simps)
qed

lemma char_of_cleared: "(c AND NOT STYLE_MASK) AND CHAR_MASK = c AND CHAR_MASK"
proof -
  have "CHAR_MASK = mask 20" by (simp add: CHAR_MASK_def mask_eq_exp_minus_1)
  then show ?thesis
    by (auto simp: STYLE_SHIFT_def STYLE_MASK_def bit_eq_iff bit_simps simp del: push_bit_numeral)
qed

lemma style_of_styled:
  "drop_bit STYLE_SHIFT (c OR push_bit STYLE_SHIFT style) = drop_bit STYLE_SHIFT c OR (style AND (0xfff :: u32))"
proof -
  have "(0xfff :: u32) = mask 12" by (simp add: mask_eq_exp_minus_1)
  then show ?thesis
    by (auto simp: STYLE_SHIFT_def bit_eq_iff bit_simps)
qed

lemma style_of_cleared: "drop_bit STYLE_SHIFT (c AND NOT STYLE_MASK) = 0"
proof -
  have "(0xfff :: u32) = mask 12" by (simp add: mask_eq_exp_minus_1)
  then show ?thesis
    by (auto simp: STYLE_SHIFT_def STYLE_MASK_def bit_eq_iff bit_simps simp del: push_bit_numeral)
qed

lemma nth_prefix_map:
  "len \<le> length xs \<Longrightarrow> i < length xs \<Longrightarrow>
    (map f (take len xs) @ drop len xs) ! i = (if i < len then f (xs ! i) else xs ! i)"
  by (simp add: nth_append)

text \<open>Styled cells. On a buffer of at least \<open>len\<close> cells \<open>set_color\<close> and \<open>clear_color\<close>
  stay inside it, change no character and no cell from \<open>len\<close> on; \<open>set_color\<close> adds the low
  twelve bits of the style to the style of a cell, \<open>clear_color\<close> leaves none.\<close>

theorem cell_styles:
  assumes "len \<le> length buf"
  shows "\<exists>set clr. set_color buf len style = Some set \<and> clear_color buf len = Some clr \<and>
    length set = length buf \<and> length clr = length buf \<and>
    (\<forall>i < length buf. set ! i AND CHAR_MASK = buf ! i AND CHAR_MASK \<and>
       clr ! i AND CHAR_MASK = buf ! i AND CHAR_MASK \<and>
       (if i < len
        then drop_bit STYLE_SHIFT (set ! i) = drop_bit STYLE_SHIFT (buf ! i) OR (style AND 0xfff) \<and>
             drop_bit STYLE_SHIFT (clr ! i) = 0
        else set ! i = buf ! i \<and> clr ! i = buf ! i))"
  using assms
  by (simp add: set_color_def clear_color_def nth_prefix_map char_of_styled char_of_cleared
      style_of_styled style_of_cleared del: drop_bit_or drop_bit_and)

theorem cell_styles_witness:
  "\<exists>set. set_color [65, 66] 1 2 = Some set \<and> length set = 2"
  using cell_styles [of 1 "[65, 66]" 2] by fastforce

end
