(* ===== verification/Canon_Paths.thy ===== *)
theory Canon_Paths
  imports Util
begin

text \<open>
  What \<open>canonize_path1\<close> of \<open>src/util.c\<close> computes. The path is split at its slashes and the
  components are put on a stack (\<open>norm_step\<close>); the buffer of the code is the stack written
  out (\<open>render\<close>).
\<close>

section \<open>Reference definition\<close>

fun split_slash :: "string \<Rightarrow> string list" where
  "split_slash [] = [[]]"
| "split_slash (c # p) =
    (if c = slash then [] # split_slash p
     else case split_slash p of f # fs \<Rightarrow> (c # f) # fs | [] \<Rightarrow> [[c]])"

definition slashed :: "string list \<Rightarrow> string" where
  "slashed cs = concat (map ((#) slash) cs)"

fun render :: "bool \<Rightarrow> string list \<Rightarrow> string" where
  "render abs_path [] = []"
| "render abs_path (c # cs) = (if abs_path then slash # c else c) @ slashed cs"

text \<open>Two dots take the last component away, but not the first one of a relative path.\<close>

definition norm_step :: "bool \<Rightarrow> string list \<Rightarrow> string \<Rightarrow> string list" where
  "norm_step abs_path cs f =
    (if f = [] \<or> f = ''.'' then cs
     else if f = ''..'' then
       (if abs_path \<and> cs = [] then cs
        else if length cs \<le> (if abs_path then 0 else 1) \<or> last cs = ''..'' then cs @ [f]
        else butlast cs)
     else cs @ [f])"

definition normal_path :: "string \<Rightarrow> string" where
  "normal_path p =
    (let abs_path = (p \<noteq> [] \<and> hd p = slash);
         q = render abs_path (foldl (norm_step abs_path) [] (map (take 1023) (split_slash p)))
     in if q = [] then (if abs_path then ''/'' else ''.'') else q)"

section \<open>The code computes it\<close>

definition files :: "string list \<Rightarrow> bool" where
  "files cs \<longleftrightarrow> (\<forall>f\<in>set cs. f \<noteq> [] \<and> slash \<notin> set f)"

lemma files_simps [simp]:
  "files []" "files (f # cs) \<longleftrightarrow> f \<noteq> [] \<and> slash \<notin> set f \<and> files cs"
  "files (cs @ ds) \<longleftrightarrow> files cs \<and> files ds"
  by (auto simp: files_def)

lemma files_butlast: "files cs \<Longrightarrow> files (butlast cs)"
  by (auto simp: files_def dest: in_set_butlastD)

lemma files_norm_step: "files cs \<Longrightarrow> slash \<notin> set f \<Longrightarrow> files (norm_step a cs f)"
  by (auto simp: norm_step_def files_butlast)

lemma slashed_simps [simp]:
  "slashed [] = []" "slashed (c # cs) = slash # c @ slashed cs"
  "slashed (cs @ ds) = slashed cs @ slashed ds"
  by (auto simp: slashed_def)

lemma render_abs: "render True cs = slashed cs"
  by (cases cs) auto

lemma render_snoc:
  "render a (cs @ [f]) = (if cs = [] \<and> \<not> a then f else render a cs @ slash # f)"
  by (cases cs) auto

lemma render_snoc2: "render a (cs @ [g, f]) = render a (cs @ [g]) @ slash # f"
  using render_snoc [of a "cs @ [g]" f] by simp

lemma render_Nil_iff: "files cs \<Longrightarrow> render a cs = [] \<longleftrightarrow> cs = []"
  by (cases cs) auto

lemma split_slash_extract:
  "extract_file p = (f, rest, r) \<Longrightarrow>
    slash \<notin> set f \<and> split_slash p = f # (if rest then split_slash r else []) \<and>
    length p = length f + (if rest then Suc (length r) else 0)"
proof (induction p arbitrary: f rest r)
  case (Cons c p)
  obtain f' rest' r' where e: "extract_file p = (f', rest', r')" by (metis prod_cases3)
  show ?case using Cons.prems Cons.IH [OF e] e by (cases "c = slash") auto
qed auto

lemma strrchr_mid:
  assumes "c \<notin> set g"
  shows "strrchr (s @ c # g) c = Some (s, c # g)"
proof -
  have "takeWhile (\<lambda>x. x \<noteq> c) (rev (s @ c # g)) = rev g"
    using assms by (simp add: takeWhile_append takeWhile_eq_all_conv)
  then show ?thesis by (simp add: strrchr_def Let_def)
qed

lemma strrchr_none: "c \<notin> set s \<Longrightarrow> strrchr s c = None"
  by (simp add: strrchr_def)

lemma bcat_room: "length b + length s < n \<Longrightarrow> bcat n b s = b @ s"
  by (simp add: bcat_def)

lemma copy_file_render:
  assumes "files cs" and "length (render a cs) + 1 + length f < n"
  shows "copy_file n a (render a cs) f = render a (cs @ [f])"
  using assms
  by (auto simp: copy_file_def render_snoc render_Nil_iff Let_def slash_def bcat_room)

lemma canonize_step_render:
  assumes "files cs" "slash \<notin> set f" and room: "length (render a cs) + 1 + length f < n"
  shows "canonize_step n a (render a cs) f = render a (norm_step a cs f)"
proof (cases "f = ''..''")
  case False
  then show ?thesis
    using copy_file_render [OF assms(1) room] by (simp add: canonize_step_def norm_step_def)
next
  case True
  note cp = copy_file_render [OF assms(1) room, unfolded True]
  show ?thesis
  proof (cases cs rule: rev_cases)
    case Nil
    then show ?thesis
      using cp True by (cases a) (simp_all add: canonize_step_def norm_step_def)
  next
    case (snoc ds g)
    then have g: "slash \<notin> set g" "files ds" using assms(1) by auto
    have ne: "render a cs \<noteq> []" using assms(1) snoc by (simp add: render_Nil_iff)
    show ?thesis
    proof (cases "ds = [] \<and> \<not> a")
      case rel: True
      then have "strrchr (render a cs) slash = None"
        using snoc g by (simp add: strrchr_none)
      then show ?thesis
        using cp True ne rel snoc by (simp add: canonize_step_def norm_step_def)
    next
      case f: False
      then have "render a cs = render a ds @ slash # g" using snoc by (auto simp: render_snoc)
      then have r: "strrchr (render a cs) slash = Some (render a ds, slash # g)"
        using strrchr_mid [OF g(1)] by simp
      have len: "\<not> length cs \<le> (if a then 0 else 1)" using f snoc by auto
      show ?thesis
        using cp True ne r len snoc
        by (auto simp: canonize_step_def norm_step_def slash_def)
    qed
  qed
qed

lemma length_norm_step:
  "length (render a (norm_step a cs f)) + (if \<not> a \<and> norm_step a cs f = [] then 0 else 1)
    \<le> length (render a cs) + (if \<not> a \<and> cs = [] then 0 else 1) + length f + 1"
proof (cases cs rule: rev_cases)
  case Nil
  then show ?thesis by (simp add: norm_step_def)
next
  case (snoc ds g)
  then show ?thesis by (cases "ds = []") (auto simp: norm_step_def render_snoc render_snoc2)
qed

lemma canonize_loop_render:
  assumes "files cs" and "length (render a cs) + length p + 1 < n"
  shows "canonize_loop n a (render a cs) p =
    render a (foldl (norm_step a) cs (map (take 1023) (split_slash p)))"
  using assms
proof (induction p arbitrary: cs rule: length_induct)
  case (1 p)
  obtain f rest r where e: "extract_file p = (f, rest, r)" by (metis prod_cases3)
  note s = split_slash_extract [OF e]
  let ?f = "take 1023 f"
  have f: "slash \<notin> set ?f" using s by (auto dest: in_set_takeD)
  have st: "canonize_step n a (render a cs) ?f = render a (norm_step a cs ?f)"
    using canonize_step_render [OF 1(2) f] 1(3) s by (simp split: if_splits)
  show ?case
  proof (cases rest)
    case False
    then show ?thesis using s st e by (subst canonize_loop.simps) simp
  next
    case True
    have le: "length (render a (norm_step a cs ?f)) \<le> length (render a cs) + length f + 1"
      using length_norm_step [of a cs ?f] by (auto split: if_splits)
    have "length r < length p" using s True by simp
    moreover have "length (render a (norm_step a cs ?f)) + length r + 1 < n"
      using le 1(3) s True by simp
    ultimately show ?thesis
      using 1(1) files_norm_step [OF 1(2) f] s st e True
      by (subst canonize_loop.simps) simp
  qed
qed

lemma canonize_path1_normal:
  assumes "length p + 1 < n"
  shows "canonize_path1 n p = normal_path p"
proof -
  have "Suc 0 \<le> n - Suc 0" using assms by simp
  then show ?thesis
    using canonize_loop_render [of "[]" "p \<noteq> [] \<and> hd p = slash" p n] assms
    by (simp add: canonize_path1_def normal_path_def Let_def bcat_def)
qed

section \<open>Normal paths\<close>

text \<open>A stack is stable if pushing its components in order builds it.\<close>

definition stable :: "bool \<Rightarrow> string list \<Rightarrow> bool" where
  "stable a cs \<longleftrightarrow> foldl (norm_step a) [] cs = cs"

lemma length_step_le: "length (norm_step a cs f) \<le> Suc (length cs)"
  by (auto simp: norm_step_def)

lemma norm_step_cases: "norm_step a cs f \<in> {cs, cs @ [f], butlast cs}"
  by (simp add: norm_step_def)

lemma length_fold_le: "length (foldl (norm_step a) cs fs) \<le> length cs + length fs"
proof (induction fs arbitrary: cs)
  case (Cons f fs)
  have "length (foldl (norm_step a) (norm_step a cs f) fs) \<le> length (norm_step a cs f) + length fs"
    by (rule Cons)
  also have "\<dots> \<le> Suc (length cs) + length fs" using length_step_le [of a cs f] by simp
  finally show ?case by simp
qed simp

lemma norm_step_push:
  "length (norm_step a cs f) = Suc (length cs) \<Longrightarrow> norm_step a cs f = cs @ [f]"
  by (auto simp: norm_step_def split: if_splits)

lemma stable_butlast:
  assumes "stable a (cs @ [x])"
  shows "stable a cs"
proof -
  define t where "t = foldl (norm_step a) [] cs"
  have e: "norm_step a t x = cs @ [x]" using assms by (simp add: stable_def t_def)
  have "length t \<le> length cs" using length_fold_le [of a "[]" cs] by (simp add: t_def)
  moreover have "length cs \<le> length t"
    using length_step_le [of a t x] by (simp add: e)
  ultimately have "norm_step a t x = t @ [x]" by (intro norm_step_push) (simp add: e)
  then have "t = cs" using e by simp
  then show ?thesis by (simp add: stable_def t_def)
qed

lemma stable_step:
  assumes "stable a cs"
  shows "stable a (norm_step a cs f)"
proof -
  have push: "stable a (cs @ [f])" if "norm_step a cs f = cs @ [f]"
    using that assms by (simp add: stable_def)
  have pop: "stable a (butlast cs)"
    using assms stable_butlast by (cases cs rule: rev_cases) auto
  show ?thesis using push pop assms norm_step_cases [of a cs f] by auto
qed

lemma stable_fold: "stable a cs \<Longrightarrow> stable a (foldl (norm_step a) cs fs)"
  by (induction fs arbitrary: cs) (simp_all add: stable_step)

lemma files_fold:
  "files cs \<Longrightarrow> \<forall>f\<in>set fs. slash \<notin> set f \<Longrightarrow> files (foldl (norm_step a) cs fs)"
  by (induction fs arbitrary: cs) (simp_all add: files_norm_step)

lemma split_slash_files: "f \<in> set (split_slash p) \<Longrightarrow> slash \<notin> set f"
  by (induction p arbitrary: f) (fastforce split: if_splits list.splits)+

lemma split_slash_ne: "split_slash p \<noteq> []"
  by (cases p) (auto split: list.splits)

lemma split_slash_prefix:
  "slash \<notin> set f \<Longrightarrow> split_slash (f @ slash # p) = f # split_slash p"
  by (induction f) auto

lemma split_slash_single: "slash \<notin> set f \<Longrightarrow> split_slash f = [f]"
  by (induction f) auto

lemma split_slash_slashed:
  "slash \<notin> set f \<Longrightarrow> files cs \<Longrightarrow> split_slash (f @ slashed cs) = f # cs"
  by (induction cs arbitrary: f) (simp_all add: split_slash_single split_slash_prefix)

definition short :: "string list \<Rightarrow> bool" where
  "short cs \<longleftrightarrow> (\<forall>f\<in>set cs. length f \<le> 1023)"

lemma short_step: "short cs \<Longrightarrow> length f \<le> 1023 \<Longrightarrow> short (norm_step a cs f)"
  by (auto simp: norm_step_def short_def dest: in_set_butlastD)

lemma short_fold: "short cs \<Longrightarrow> short (foldl (norm_step a) cs (map (take 1023) fs))"
  by (induction fs arbitrary: cs) (simp_all add: short_step)

lemma short_take: "short cs \<Longrightarrow> map (take 1023) cs = cs"
  by (induction cs) (auto simp: short_def)

lemma normal_path_render:
  assumes cs: "cs \<noteq> []" "files cs" "short cs" "stable a cs"
  shows "normal_path (render a cs) = render a cs"
proof -
  let ?q = "render a cs"
  have fold: "foldl (norm_step a) [] (map (take 1023) (split_slash ?q)) = cs"
  proof (cases a)
    case True
    then have "split_slash ?q = [] # cs"
      using split_slash_slashed [of "[]" cs] cs by (simp add: render_abs)
    then have "map (take 1023) (split_slash ?q) = [] # cs" using short_take [OF cs(3)] by simp
    moreover have "norm_step a [] [] = []" by (simp add: norm_step_def)
    ultimately show ?thesis using cs(4) by (simp add: stable_def)
  next
    case False
    then have "split_slash ?q = cs"
      using split_slash_slashed [of "hd cs" "tl cs"] cs by (cases cs) auto
    then show ?thesis using short_take [OF cs(3)] cs(4) by (simp add: stable_def)
  qed
  have hd: "(?q \<noteq> [] \<and> hd ?q = slash) = a"
    using cs(1,2) by (cases cs; cases "hd cs"; cases a) auto
  have "?q \<noteq> []" using cs by (simp add: render_Nil_iff)
  then show ?thesis unfolding normal_path_def hd by (simp add: fold)
qed

lemma normal_path_idem: "normal_path (normal_path p) = normal_path p"
proof -
  define a where "a = (p \<noteq> [] \<and> hd p = slash)"
  define cs where "cs = foldl (norm_step a) [] (map (take 1023) (split_slash p))"
  have f: "files cs" unfolding cs_def
    by (rule files_fold) (auto dest: split_slash_files in_set_takeD)
  have s: "short cs" unfolding cs_def by (rule short_fold) (simp add: short_def)
  have st: "stable a cs" unfolding cs_def by (rule stable_fold) (simp add: stable_def)
  have e: "normal_path p = (if cs = [] then (if a then ''/'' else ''.'') else render a cs)"
    using f by (simp add: normal_path_def Let_def render_Nil_iff flip: a_def cs_def)
  show ?thesis
  proof (cases "cs = []")
    case True
    have "normal_path ''/'' = ''/''" "normal_path ''.'' = ''.''" by code_simp+
    then show ?thesis using e True by simp
  next
    case False
    then show ?thesis using e normal_path_render [OF False f s st] by simp
  qed
qed

text \<open>C20. Canonical paths. If the result buffer has room for the path and two more bytes, then
  \<open>canonize_path1\<close> computes the path without its empty components and dots, in which two dots
  have taken away the component before them (never the first one of a relative path), and
  the result is canonical itself: canonizing it again gives the same path.\<close>

theorem canonize_path1_spec:
  assumes "length p + 1 < n" and "length (normal_path p) + 1 < n"
  shows "canonize_path1 n p = normal_path p \<and> canonize_path1 n (canonize_path1 n p) = canonize_path1 n p"
  using assms canonize_path1_normal normal_path_idem by simp

theorem canonize_path1_spec_witness:
  "canonize_path1 64 ''/usr//lib/./x/../a.c'' = ''/usr/lib/a.c'' \<and>
   canonize_path1 64 ''a/../b'' = ''a/../b''"
proof -
  have n: "normal_path ''/usr//lib/./x/../a.c'' = ''/usr/lib/a.c''" "normal_path ''a/../b'' = ''a/../b''"
    by code_simp+
  show ?thesis
    using canonize_path1_spec [of "''/usr//lib/./x/../a.c''" 64] canonize_path1_spec [of "''a/../b''" 64]
    by (simp add: n)
qed

text \<open>Drive letters are lost. A path with a drive letter is canonized from its colon on, and
  the colon and the byte behind it are stored where the drive belongs: the result is the same
  for every drive, and \<open>c:/foo\<close> becomes \<open>:/:/foo\<close>.\<close>

theorem canonize_path_drops_drive:
  assumes "c \<noteq> CHR '':''" "d \<noteq> CHR '':''"
  shows "canonize_path n (c # CHR '':'' # p) = canonize_path n (d # CHR '':'' # p)"
  using assms by (simp add: canonize_path_def strchr_def)

theorem canonize_path_drops_drive_witness:
  "canonize_path 64 ''c:/foo'' = canonize_path 64 ''d:/foo'' \<and> canonize_path 64 ''c:/foo'' = '':/:/foo''"
proof -
  have "canonize_path 64 ''c:/foo'' = '':/:/foo''" by code_simp
  then show ?thesis using canonize_path_drops_drive [of "CHR ''c''" "CHR ''d''" 64 "''/foo''"] by simp
qed

end
