(* ===== verification/Input_Methods.thy ===== *)
theory Input_Methods
  imports Util
begin

text \<open>
  The input methods of \<open>src/input.c\<close>: the list of methods, the \<open>unicode\<close> method, the
  compressed key maps and the file they are loaded from.

  An input method looks at the \<open>len\<close> keys typed so far, the beginning of the array \<open>buf\<close>,
  and returns a character and how many keys it stands for, or one of two negative codes; the
  second component is what it stores in \<open>match_len_ptr\<close>. Key maps are bytes in a mapped file; a
  pointer into the file is the list of bytes from it on.
\<close>

definition INPUTMETHOD_NOMATCH :: int where "INPUTMETHOD_NOMATCH = -1"
definition INPUTMETHOD_MORECHARS :: int where "INPUTMETHOD_MORECHARS = -2"

type_synonym match_result = "int \<times> nat option"

definition default_input :: "int list \<Rightarrow> nat \<Rightarrow> match_result option" where
  "default_input buf len = Some (INPUTMETHOD_NOMATCH, None)"

section \<open>The unicode method\<close>

text \<open>The digits are those of the array: with fewer than \<open>len\<close> elements there is no result.\<close>

fun unicode_digits :: "int \<Rightarrow> int list \<Rightarrow> int option" where
  "unicode_digits c [] = Some c"
| "unicode_digits c (k # ks) =
    (let h = to_hex k in if h = -1 then None else unicode_digits (push_bit 4 c OR h) ks)"

definition unicode_input :: "int list \<Rightarrow> nat \<Rightarrow> match_result option" where
  "unicode_input buf len = do {
     guard (0 < len \<and> len \<le> length buf);
     if buf ! 0 \<noteq> 120 then Some (INPUTMETHOD_NOMATCH, None)
     else
       let len = (if len > 5 then 5 else len)
       in case unicode_digits 0 (take (len - 1) (drop 1 buf)) of
           None \<Rightarrow> Some (INPUTMETHOD_NOMATCH, None)
         | Some c \<Rightarrow>
             if len = 5 then Some (c, Some len) else Some (INPUTMETHOD_MORECHARS, None) }"

section \<open>Key maps\<close>

definition be16 :: "u8 \<Rightarrow> u8 \<Rightarrow> int" where
  "be16 a b = push_bit 8 (uint a) OR uint b"

text \<open>
  One entry of a key map, from \<open>p\<close> on: the inner loop of \<open>kmap_input\<close>. It compares the keys
  of the entry with the array as it goes; \<open>Some None\<close> is the end of the table, else the rest
  of the table, the length of the pattern, whether it matches and the output character.
\<close>

function kmap_seq :: "int list \<Rightarrow> nat \<Rightarrow> u8 list \<Rightarrow> nat \<Rightarrow> bool \<Rightarrow> int
    \<Rightarrow> (u8 list \<times> nat \<times> bool \<times> int) option option" where
  "kmap_seq buf len [] l1 match last_outputc = None"
| "kmap_seq buf len (x # p) l1 match last_outputc =
    (let d = x AND 0x80 \<noteq> 0; c = uint (x AND 0x7f) in
     if c = 0 then Some None
     else if c \<ge> 1 \<and> c \<le> 0x1d then Some (Some (p, l1, match, last_outputc + c))
     else if c = 0x1e
     then (case p of a # b # p \<Rightarrow> Some (Some (p, l1, match, be16 a b)) | _ \<Rightarrow> None)
     else if c = 0x1f
     then (case p of
         a # b # p \<Rightarrow>
           let match = (if l1 < len \<and> be16 a b \<noteq> buf ! l1 then False else match)
           in if d then Some (Some (p, l1 + 1, match, last_outputc + 1))
              else kmap_seq buf len p (l1 + 1) match last_outputc
       | _ \<Rightarrow> None)
     else
       let match = (if l1 < len \<and> c \<noteq> buf ! l1 then False else match)
       in if d then Some (Some (p, l1 + 1, match, last_outputc + 1))
          else kmap_seq buf len p (l1 + 1) match last_outputc)"
  by pat_completeness auto
termination
  by (relation "measure (\<lambda>(buf, len, p, _). length p)") auto

declare kmap_seq.simps [simp del]

lemma kmap_seq_shorter:
  "kmap_seq buf len p l1 m out = Some (Some (p', r)) \<Longrightarrow> length p' < length p"
proof (induction p arbitrary: l1 m rule: length_induct)
  case (1 p)
  have IH: "length p' < length p" if "kmap_seq buf len q k n out = Some (Some (p', r))" "length q < length p"
    for q k n
    using 1(1) that less_trans by blast
  show ?case
  proof (cases p)
    case Nil
    then show ?thesis using 1(2) by (simp add: kmap_seq.simps)
  next
    case (Cons x q)
    then show ?thesis
      using 1(2) unfolding Cons
      by (subst (asm) kmap_seq.simps) (auto simp: Let_def Cons dest!: IH split: if_splits list.splits)
  qed
qed

text \<open>What the search has found: the variables \<open>match_len\<close> to \<open>match_count\<close>.\<close>

record KmapBest =
  match_len :: nat
  match_real_len :: nat
  match_char :: int
  match_count :: nat

definition kmap_better :: "nat \<Rightarrow> nat \<Rightarrow> int \<Rightarrow> KmapBest \<Rightarrow> KmapBest" where
  "kmap_better len l1 outc m =
    (let l = (if l1 > len then len else l1) in
     if l = match_len m then m\<lparr>match_count := match_count m + 1\<rparr>
     else if l > match_len m
     then \<lparr>match_len = l, match_real_len = l1, match_char = outc, match_count = 1\<rparr>
     else m)"

function kmap_loop :: "bool \<Rightarrow> int list \<Rightarrow> nat \<Rightarrow> nat \<Rightarrow> u8 list \<Rightarrow> int \<Rightarrow> KmapBest \<Rightarrow> KmapBest option" where
  "kmap_loop trailing_space buf len prefix_len p last_outputc m =
    (case kmap_seq buf len p prefix_len True last_outputc of
       None \<Rightarrow> None
     | Some None \<Rightarrow> Some m
     | Some (Some (p, l1, match, last_outputc)) \<Rightarrow>
         let (l1, match) =
               (if trailing_space
                then (l1 + 1, if l1 < len \<and> 32 \<noteq> buf ! l1 then False else match)
                else (l1, match));
             m = (if match then kmap_better len l1 last_outputc m else m)
         in kmap_loop trailing_space buf len prefix_len p last_outputc m)"
  by pat_completeness auto
termination
  by (relation "measure (\<lambda>(t, buf, len, pl, p, _). length p)") (auto dest: kmap_seq_shorter)

declare kmap_loop.simps [simp del]

text \<open>The entry of the first key in the prefix table: the offset of its key map.\<close>

fun kmap_prefix :: "nat \<Rightarrow> u8 list \<Rightarrow> int \<Rightarrow> nat option option" where
  "kmap_prefix 0 p1 k = Some None"
| "kmap_prefix (Suc n) [] k = None"
| "kmap_prefix (Suc n) (a # p1) k =
    (if k = uint a
     then (case p1 of
         b # c # d # _ \<Rightarrow> Some (Some (65536 * unat b + 256 * unat c + unat d)) | _ \<Rightarrow> None)
     else kmap_prefix n (drop 3 p1) k)"

definition no_match :: KmapBest where
  "no_match = \<lparr>match_len = 0, match_real_len = 0, match_char = 0, match_count = 0\<rparr>"

definition kmap_input :: "u8 list \<Rightarrow> int list \<Rightarrow> nat \<Rightarrow> match_result option" where
  "kmap_input data buf len = do {
     guard (data \<noteq> [] \<and> 0 < len \<and> len \<le> length buf);
     let nb_prefixes = unat (hd data AND 0x7f);
     let trailing_space = (hd data AND 0x80 \<noteq> 0);
     let p = tl data;
     r \<leftarrow> (if nb_prefixes > 0
          then do {
            found \<leftarrow> kmap_prefix nb_prefixes p (buf ! 0);
            Some (map_option (\<lambda>off. (drop (nb_prefixes * 4 + off) p, 1)) found) }
          else Some (Some (p, 0)));
     case r of
       None \<Rightarrow> Some (INPUTMETHOD_NOMATCH, None)
     | Some (p, prefix_len) \<Rightarrow> do {
         m \<leftarrow> kmap_loop trailing_space buf len prefix_len p 0 no_match;
         Some (if match_len m = 0 then (INPUTMETHOD_NOMATCH, None)
           else if match_count m > 1 \<or> match_real_len m > len then (INPUTMETHOD_MORECHARS, None)
           else (match_char m, Some (match_len m))) } }"

section \<open>The methods\<close>

datatype InputMatch = Default_input | Unicode_input | Kmap_input "u8 list"

record InputMethod =
  im_name :: string
  im_match :: InputMatch

fun input_match :: "InputMatch \<Rightarrow> int list \<Rightarrow> nat \<Rightarrow> match_result option" where
  "input_match Default_input buf len = default_input buf len"
| "input_match Unicode_input buf len = unicode_input buf len"
| "input_match (Kmap_input data) buf len = kmap_input data buf len"

fun register_input_method :: "InputMethod list \<Rightarrow> InputMethod \<Rightarrow> InputMethod list" where
  "register_input_method [] m = [m]"
| "register_input_method (p # input_methods) m = p # register_input_method input_methods m"

text \<open>The directory of a file of key maps, from \<open>p\<close> on; the allocator succeeds.\<close>

fun kmap_name :: "u8 list \<Rightarrow> (u8 list \<times> u8 list) option" where
  "kmap_name [] = None"
| "kmap_name (c # p) =
    (if c = 0 then Some ([], p) else map_option (\<lambda>(n, p). (c # n, p)) (kmap_name p))"

lemma kmap_name_shorter: "kmap_name p = Some (n, r) \<Longrightarrow> length r < length p"
  by (induction p arbitrary: n) (fastforce split: if_splits)+

function load_kmaps :: "u8 list \<Rightarrow> u8 list \<Rightarrow> InputMethod list \<Rightarrow> InputMethod list option" where
  "load_kmaps file_ptr (a # b # c # d # p) ms =
    (let offset = 16777216 * unat a + 65536 * unat b + 256 * unat c + unat d in
     if offset = 0 then Some ms
     else case kmap_name p of
         None \<Rightarrow> None
       | Some (name, p) \<Rightarrow>
           load_kmaps file_ptr p (register_input_method ms
             \<lparr>im_name = bcpy 1024 (map (\<lambda>b. char_of (unat b)) name),
              im_match = Kmap_input (drop offset file_ptr)\<rparr>))"
| "load_kmaps file_ptr [] ms = None"
| "load_kmaps file_ptr [a] ms = None"
| "load_kmaps file_ptr [a, b] ms = None"
| "load_kmaps file_ptr [a, b, c] ms = None"
  by pat_completeness auto
termination
  by (relation "measure (\<lambda>(f, p, ms). length p)") (auto dest!: kmap_name_shorter)

text \<open>\<open>load_input_methods\<close>: \<open>kmaps\<close> is the content of the file, if it is found and mapped.\<close>

definition load_input_methods :: "u8 list option \<Rightarrow> InputMethod list \<Rightarrow> InputMethod list option" where
  "load_input_methods kmaps ms = (case kmaps of
       None \<Rightarrow> Some ms
     | Some file_ptr \<Rightarrow> do {
         guard (4 \<le> length file_ptr);
         if take 4 file_ptr \<noteq> bytes_of ''kmap'' then Some ms
         else load_kmaps file_ptr (drop 4 file_ptr) ms })"

definition init_input_methods :: "u8 list option \<Rightarrow> InputMethod list option" where
  "init_input_methods kmaps =
    (let ms = register_input_method [] \<lparr>im_name = ''default'', im_match = Default_input\<rparr>;
         ms = register_input_method ms \<lparr>im_name = ''unicode'', im_match = Unicode_input\<rparr>
     in load_input_methods kmaps ms)"

fun input_completion :: "StringArray \<Rightarrow> InputMethod list \<Rightarrow> string \<Rightarrow> StringArray" where
  "input_completion cs [] input = cs"
| "input_completion cs (m # ms) input =
    input_completion (if take (length input) (im_name m) = input
       then snd (add_string True cs (im_name m)) else cs) ms input"

fun find_input_method :: "InputMethod list \<Rightarrow> string \<Rightarrow> InputMethod option" where
  "find_input_method [] input_str = None"
| "find_input_method (m # ms) input_str =
    (if input_str = im_name m then Some m else find_input_method ms input_str)"

text \<open>A window's current method and the one it was last set to.\<close>

type_synonym method_state = "InputMethod option \<times> InputMethod option"

definition do_set_input_method :: "InputMethod list \<Rightarrow> method_state \<Rightarrow> string \<Rightarrow> method_state" where
  "do_set_input_method input_methods s input_str = (case find_input_method input_methods input_str of
       None \<Rightarrow> s | Some m \<Rightarrow> (Some m, Some m))"

definition do_switch_input_method :: "method_state \<Rightarrow> method_state" where
  "do_switch_input_method s =
    (case s of (None, sel) \<Rightarrow> (sel, sel) | (Some _, sel) \<Rightarrow> (None, sel))"

end
