(* ===== verification/Input_Theorems.thy ===== *)
theory Input_Theorems
  imports Input_Methods Util_Theorems
begin

text \<open>
  What the input methods compute: the compressed key maps as lists of patterns and characters,
  the longest match in such a list, and the inputs on which composing never ends.
\<close>

section \<open>Key maps as lists\<close>

text \<open>The patterns and output characters of the bytes of a key map, without looking at keys.\<close>

function kmap_word :: "u8 list \<Rightarrow> int \<Rightarrow> (u8 list \<times> int list \<times> int) option option" where
  "kmap_word [] out = None"
| "kmap_word (x # p) out =
    (let d = x AND 0x80 \<noteq> 0; c = uint (x AND 0x7f)
     in if c = 0 then Some None
     else if c \<le> 0x1d then Some (Some (p, [], out + c))
     else if c = 0x1e then (case p of a # b # p \<Rightarrow> Some (Some (p, [], be16 a b)) | _ \<Rightarrow> None)
     else
       case (if c = 0x1f then (case p of a # b # q \<Rightarrow> Some (be16 a b, q) | _ \<Rightarrow> None)
             else Some (c, p)) of
         None \<Rightarrow> None
       | Some (k, q) \<Rightarrow>
           if d then Some (Some (q, [k], out + 1))
           else map_option (map_option (\<lambda>(p, cs, out). (p, k # cs, out))) (kmap_word q out))"
  by pat_completeness auto
termination
  by (relation "measure (\<lambda>(p, out). length p)") (auto split: if_splits list.splits)

declare kmap_word.simps [simp del]

definition agrees :: "int list \<Rightarrow> int list \<Rightarrow> bool" where
  "agrees cs ks \<longleftrightarrow> take (length ks) cs = take (length cs) ks"

lemma agrees_Nil [simp]: "agrees [] ks" "agrees cs []"
  by (simp_all add: agrees_def)

lemma agrees_Cons [simp]: "agrees (c # cs) (k # ks) \<longleftrightarrow> c = k \<and> agrees cs ks"
  by (simp add: agrees_def)

lemma agrees_at: "agrees (c # cs) (drop l ks) \<longleftrightarrow> (l < length ks \<longrightarrow> c = ks ! l) \<and> agrees cs (drop (Suc l) ks)"
  by (cases "l < length ks") (simp_all add: Cons_nth_drop_Suc [symmetric])

lemma agrees_snoc: "agrees (cs @ [c]) (drop l ks) \<longleftrightarrow>
    agrees cs (drop l ks) \<and> (l + length cs < length ks \<longrightarrow> c = ks ! (l + length cs))"
  by (induction cs arbitrary: l) (auto simp: agrees_at)

lemma and_7f_pos: "0 \<le> uint (x AND 0x7f :: u8)"
  by simp

lemma kmap_seq_word:
  assumes "len \<le> length buf"
  shows "kmap_seq buf len p l1 m out =
    map_option (map_option (\<lambda>(p, cs, out). (p, l1 + length cs, m \<and> agrees cs (drop l1 (take len buf)), out)))
      (kmap_word p out)"
proof (induction p arbitrary: l1 m rule: length_induct)
  case (1 p)
  show ?case
  proof (cases p)
    case Nil
    then show ?thesis by (simp add: kmap_seq.simps kmap_word.simps)
  next
    case (Cons x q)
    have c: "x AND 0x7f = 0 \<or> 1 \<le> uint (x AND 0x7f)"
      by (metis and_7f_pos int_one_le_iff_zero_less order_le_less uint_0_iff)
    have ag: "agrees (c # cs) (drop l1 (take len buf)) \<longleftrightarrow>
        (l1 < len \<longrightarrow> c = buf ! l1) \<and> agrees cs (drop (Suc l1) (take len buf))" for c cs
      using assms by (simp add: agrees_at)
    show ?thesis
      using 1(1) c unfolding Cons
      by (subst kmap_seq.simps, subst kmap_word.simps)
        (auto simp: Let_def ag option.map_comp comp_def case_prod_beta fun_eq_iff
          intro!: option.map_cong split: list.splits)
  qed
qed

lemma kmap_word_shorter: "kmap_word p out = Some (Some (p', r)) \<Longrightarrow> length p' < length p"
  using kmap_seq_word [of 0 "[]" p 0 True out] by (cases r) (auto dest: kmap_seq_shorter)

function kmap_entries :: "bool \<Rightarrow> u8 list \<Rightarrow> int \<Rightarrow> (int list \<times> int) list option" where
  "kmap_entries trailing p out = (case kmap_word p out of
       None \<Rightarrow> None
     | Some None \<Rightarrow> Some []
     | Some (Some (p, cs, out)) \<Rightarrow>
         map_option ((#) (cs @ (if trailing then [32] else []), out)) (kmap_entries trailing p out))"
  by pat_completeness auto
termination
  by (relation "measure (\<lambda>(t, p, out). length p)") (auto dest: kmap_word_shorter)

declare kmap_entries.simps [simp del]

definition try_entry :: "int list \<Rightarrow> nat \<Rightarrow> int list \<times> int \<Rightarrow> KmapBest \<Rightarrow> KmapBest" where
  "try_entry ks pl e m =
    (if agrees (fst e) (drop pl ks) then kmap_better (length ks) (pl + length (fst e)) (snd e) m else m)"

lemma kmap_loop_entries:
  assumes "len \<le> length buf"
  shows "kmap_loop trailing buf len pl p out m =
    map_option (\<lambda>es. fold (try_entry (take len buf) pl) es m) (kmap_entries trailing p out)"
proof (induction p arbitrary: out m rule: length_induct)
  case (1 p)
  show ?case
  proof (cases "kmap_word p out")
    case None
    then show ?thesis
      by (simp add: kmap_loop.simps kmap_entries.simps kmap_seq_word [OF assms])
  next
    case (Some r)
    show ?thesis
    proof (cases r)
      case None
      then show ?thesis using Some
        by (simp add: kmap_loop.simps kmap_entries.simps kmap_seq_word [OF assms])
    next
      case r: (Some t)
      obtain q cs o' where t: "t = (q, cs, o')" by (metis prod_cases3)
      have w: "kmap_word p out = Some (Some (q, cs, o'))" using Some r t by simp
      note sn = agrees_snoc [of cs 32 pl "take len buf"]
      have IH: "kmap_loop trailing buf len pl q o' n =
          map_option (\<lambda>es. fold (try_entry (take len buf) pl) es n) (kmap_entries trailing q o')" for n
        using 1 kmap_word_shorter [OF w] by blast
      have e: "kmap_entries trailing p out =
          map_option ((#) (cs @ (if trailing then [32] else []), o')) (kmap_entries trailing q o')"
        by (subst kmap_entries.simps) (simp add: w)
      have l: "kmap_loop trailing buf len pl p out m = kmap_loop trailing buf len pl q o'
          (try_entry (take len buf) pl (cs @ (if trailing then [32] else []), o') m)"
        using assms sn
        by (subst kmap_loop.simps)
          (auto simp: kmap_seq_word [OF assms] w try_entry_def Let_def)
      show ?thesis unfolding l e IH by (simp add: option.map_comp comp_def)
    qed
  qed
qed

section \<open>The longest match\<close>

definition reach :: "nat \<Rightarrow> int list \<Rightarrow> int list \<times> int \<Rightarrow> nat" where
  "reach pl ks e = min (pl + length (fst e)) (length ks)"

text \<open>
  Of the entries that agree with the keys \<open>ks\<close> typed so far, those that agree with most of
  them count. A single one that the keys complete gives its character.
\<close>

definition longest :: "nat \<Rightarrow> int list \<Rightarrow> (int list \<times> int) list \<Rightarrow> nat" where
  "longest pl ks es = foldr max (map (reach pl ks) es) 0"

definition kmap_spec :: "nat \<Rightarrow> int list \<Rightarrow> (int list \<times> int) list \<Rightarrow> match_result" where
  "kmap_spec pl ks es =
    (let cands = filter (\<lambda>e. agrees (fst e) (drop pl ks)) es; best = longest pl ks cands
     in if best = 0 then (INPUTMETHOD_NOMATCH, None)
     else (case filter (\<lambda>e. reach pl ks e = best) cands of
         [e] \<Rightarrow> if pl + length (fst e) \<le> length ks then (snd e, Some best) else (INPUTMETHOD_MORECHARS, None)
       | _ \<Rightarrow> (INPUTMETHOD_MORECHARS, None)))"

lemma longest_snoc: "longest pl ks (es @ [e]) = max (longest pl ks es) (reach pl ks e)"
  by (induction es) (simp_all add: longest_def max.assoc)

lemma longest_upper: "e \<in> set es \<Longrightarrow> reach pl ks e \<le> longest pl ks es"
  by (induction es rule: rev_induct) (auto simp: longest_snoc)

definition best_of :: "nat \<Rightarrow> int list \<Rightarrow> (int list \<times> int) list \<Rightarrow> KmapBest \<Rightarrow> bool" where
  "best_of pl ks es m \<longleftrightarrow>
    (let tops = filter (\<lambda>e. reach pl ks e = longest pl ks es) es
     in match_len m = longest pl ks es \<and> match_count m = length tops \<and>
       (match_len m > 0 \<longrightarrow> tops \<noteq> [] \<and> match_real_len m = pl + length (fst (hd tops)) \<and>
         match_char m = snd (hd tops)))"

lemma best_of_Nil: "best_of pl ks [] no_match"
  by (simp add: best_of_def no_match_def longest_def)

lemma best_of_better:
  assumes "best_of pl ks es m"
  shows "best_of pl ks (es @ [e]) (kmap_better (length ks) (pl + length (fst e)) (snd e) m)"
proof -
  let ?M = "longest pl ks es" and ?r = "reach pl ks e"
  have r: "(if pl + length (fst e) > length ks then length ks else pl + length (fst e)) = ?r"
    by (simp add: reach_def min_def)
  have m: "match_len m = ?M" using assms by (simp add: best_of_def Let_def)
  consider "?r = ?M" | "?M < ?r" | "?r < ?M" by linarith
  then show ?thesis
  proof cases
    case 1
    then show ?thesis
      using assms m unfolding best_of_def kmap_better_def Let_def r longest_snoc by auto
  next
    case 2
    then have "\<forall>x\<in>set es. reach pl ks x \<noteq> ?r" using longest_upper leD by metis
    then have "filter (\<lambda>x. reach pl ks x = ?r) es = []" by (simp add: filter_empty_conv)
    then show ?thesis
      using 2 m unfolding best_of_def kmap_better_def Let_def r longest_snoc by (simp add: max_def)
  next
    case 3
    then show ?thesis
      using assms m unfolding best_of_def kmap_better_def Let_def r longest_snoc by (simp add: max_def)
  qed
qed

lemma best_of_fold:
  "best_of pl ks cs m \<Longrightarrow>
    best_of pl ks (cs @ filter (\<lambda>e. agrees (fst e) (drop pl ks)) es) (fold (try_entry ks pl) es m)"
proof (induction es arbitrary: cs m)
  case (Cons e es)
  show ?case
  proof (cases "agrees (fst e) (drop pl ks)")
    case True
    then show ?thesis
      using Cons.IH [OF best_of_better [OF Cons.prems, of e]] by (simp add: try_entry_def)
  next
    case False
    then show ?thesis using Cons.IH [OF Cons.prems] by (simp add: try_entry_def)
  qed
qed simp

lemma best_of_result:
  assumes "best_of pl ks (filter (\<lambda>e. agrees (fst e) (drop pl ks)) es) m"
  shows "(if match_len m = 0 then (INPUTMETHOD_NOMATCH, None)
     else if match_count m > 1 \<or> match_real_len m > length ks then (INPUTMETHOD_MORECHARS, None)
     else (match_char m, Some (match_len m))) = kmap_spec pl ks es"
  using assms unfolding best_of_def kmap_spec_def Let_def
  by (auto split: list.splits)

text \<open>The table that \<open>kmap_input\<close> searches for the first key \<open>k\<close>: none, or its bytes and the
  number of keys that the prefix has taken.\<close>

definition kmap_table :: "u8 list \<Rightarrow> int \<Rightarrow> (u8 list \<times> nat) option option" where
  "kmap_table data k =
    (let n = unat (hd data AND 0x7f)
     in if n > 0 then map_option (map_option (\<lambda>off. (drop (n * 4 + off) (tl data), 1))) (kmap_prefix n (tl data) k)
        else Some (Some (tl data, 0)))"

text \<open>C36. Key maps. \<open>kmap_input\<close> reads the compressed table as a list of patterns with their
  characters and computes the longest match in that list: the character of the single entry that agrees
  with most of the typed keys, once all its keys are typed.\<close>

theorem kmap_input_spec:
  assumes "data \<noteq> []" "0 < len" "len \<le> length buf"
    and "kmap_table data (buf ! 0) = Some (Some (p, pl))"
    and "kmap_entries (hd data AND 0x80 \<noteq> 0) p 0 = Some es"
  shows "kmap_input data buf len = Some (kmap_spec pl (take len buf) es)"
proof -
  let ?ks = "take len buf"
  have len: "length ?ks = len" using assms(3) by simp
  define m where "m = fold (try_entry ?ks pl) es no_match"
  have l: "kmap_loop (hd data AND 0x80 \<noteq> 0) buf len pl p 0 no_match = Some m"
    by (simp add: kmap_loop_entries [OF assms(3)] assms(5) m_def)
  have b: "best_of pl ?ks (filter (\<lambda>e. agrees (fst e) (drop pl ?ks)) es) m"
    using best_of_fold [OF best_of_Nil, where es = es] by (simp add: m_def)
  note res = best_of_result [OF b, unfolded len]
  let ?n = "unat (hd data AND 0x7f)"
  have r: "(if ?n > 0
       then do { found \<leftarrow> kmap_prefix ?n (tl data) (buf ! 0);
         Some (map_option (\<lambda>off. (drop (?n * 4 + off) (tl data), Suc 0)) found) }
       else Some (Some (tl data, 0))) = Some (Some (p, pl))"
    using assms(4) by (auto simp: kmap_table_def Let_def split: if_splits)
  show ?thesis
    unfolding kmap_input_def Let_def One_nat_def r using assms(1-3) l
    by (simp flip: res)
qed

lemma kmap_input_spec_witness:
  "kmap_input [0, 97, 39, 0x1e, 0, 0xe1, 97, 34, 0x1e, 0, 0xe4, 0] [97, 39] 2 = Some (0xe1, Some 2)"
proof -
  let ?d = "[0, 97, 39, 0x1e, 0, 0xe1, 97, 34, 0x1e, 0, 0xe4, 0] :: u8 list"
  have t: "kmap_table ?d ([97, 39] ! 0) = Some (Some (tl ?d, 0))" by (simp add: kmap_table_def)
  have e: "kmap_entries (hd ?d AND 0x80 \<noteq> 0) (tl ?d) 0 = Some [([97, 39], 0xe1), ([97, 34], 0xe4)]"
    by code_simp
  have s: "kmap_spec 0 (take 2 [97, 39]) [([97, 39], 0xe1), ([97, 34], 0xe4)] = (0xe1, Some 2)"
    by code_simp
  show ?thesis using kmap_input_spec [OF _ _ _ t e] s by simp
qed

lemma longest_eqI:
  "e \<in> set es \<Longrightarrow> reach pl ks e = n \<Longrightarrow> \<forall>e\<in>set es. reach pl ks e \<le> n \<Longrightarrow> longest pl ks es = n"
proof -
  assume a: "e \<in> set es" "reach pl ks e = n" "\<forall>e\<in>set es. reach pl ks e \<le> n"
  have "longest pl ks es \<le> n"
    using a(3) by (induction es) (auto simp: longest_def)
  then show ?thesis using longest_upper [OF a(1), of pl ks] a(2) by simp
qed

lemma two_elements: "2 \<le> length xs \<Longrightarrow> \<exists>x y r. xs = x # y # r"
  by (cases xs; cases "tl xs") auto

lemma length_filter_mono: "(\<And>x. P x \<Longrightarrow> Q x) \<Longrightarrow> length (filter P xs) \<le> length (filter Q xs)"
  by (induction xs) (auto simp: le_SucI)

text \<open>Ambiguous key maps keep composing for ever. If two entries of a key map have the
  same pattern, then after its keys the answer is that more keys are wanted, whatever is
  typed next, as long as no longer pattern agrees: the match is never decided, the keys pile
  up in \<open>compose_buf\<close>, which has room for twenty.\<close>

theorem kmap_ambiguous:
  assumes "data \<noteq> []" "hd data = 0" "kmap_entries False (tl data) 0 = Some es"
    and "cs \<noteq> []" "2 \<le> length (filter (\<lambda>e. fst e = cs) es)"
    and "\<forall>e\<in>set es. agrees (fst e) (cs @ ys) \<longrightarrow> length (fst e) \<le> length cs"
  shows "kmap_input data (cs @ ys) (length (cs @ ys)) = Some (INPUTMETHOD_MORECHARS, None)"
proof -
  let ?ks = "cs @ ys"
  let ?c = "filter (\<lambda>e. agrees (fst e) (drop 0 ?ks)) es"
  have ag: "agrees cs ?ks" by (simp add: agrees_def)
  have sub: "filter (\<lambda>e. fst e = cs) ?c = filter (\<lambda>e. fst e = cs) es"
    using ag by (auto intro!: filter_cong)
  obtain e z r0 where "filter (\<lambda>e. fst e = cs) es = e # z # r0"
    using two_elements [OF assms(5)] by blast
  then have "e \<in> set (filter (\<lambda>e. fst e = cs) ?c)" unfolding sub by simp
  then have e: "e \<in> set ?c" "fst e = cs" by auto
  have M: "longest 0 ?ks ?c = length cs"
    by (rule longest_eqI [OF e(1)]) (use e(2) assms(6) in \<open>auto simp: reach_def\<close>)
  have "length (filter (\<lambda>e. fst e = cs) ?c) \<le> length (filter (\<lambda>e. reach 0 ?ks e = length cs) ?c)"
    by (rule length_filter_mono) (simp add: reach_def)
  then have "2 \<le> length (filter (\<lambda>e. reach 0 ?ks e = length cs) ?c)"
    using assms(5) unfolding sub by linarith
  then obtain x y r where top: "filter (\<lambda>e. reach 0 ?ks e = length cs) ?c = x # y # r"
    using two_elements by blast
  have "kmap_spec 0 ?ks es = (INPUTMETHOD_MORECHARS, None)"
    unfolding kmap_spec_def Let_def M top using assms(4) by simp
  moreover have "kmap_table data (?ks ! 0) = Some (Some (tl data, 0))"
    using assms(2) by (simp add: kmap_table_def)
  ultimately show ?thesis
    using kmap_input_spec [of data "length ?ks" ?ks "tl data" 0 es] assms(1-4) by simp
qed

lemma kmap_ambiguous_witness:
  "kmap_input [0, 97, 0x1e, 0x4e, 0, 97, 0x1e, 0x4e, 1, 0] (97 # replicate 19 98) 20 =
     Some (INPUTMETHOD_MORECHARS, None)"
proof -
  let ?d = "[0, 97, 0x1e, 0x4e, 0, 97, 0x1e, 0x4e, 1, 0] :: u8 list"
  have e: "kmap_entries False (tl ?d) 0 = Some [([97], 0x4e00), ([97], 0x4e01)]" by code_simp
  show ?thesis
    using kmap_ambiguous [OF _ _ e, of "[97]" "replicate 19 98"] by simp
qed

text \<open>Typing a code point. With the \<open>unicode\<close> method the letter x and the four
  hexadecimal digits of any 16 bit number give the character with that number; with fewer digits more
  keys are wanted.\<close>

theorem unicode_input_hex:
  "unicode_input (120 # map code (hex2 a @ hex2 b)) 5 = Some (be16 a b, Some 5) \<and>
   list_all (\<lambda>n. unicode_input (120 # map code (hex2 a @ hex2 b)) n = Some (INPUTMETHOD_MORECHARS, None)) [1, 2, 3, 4]"
proof -
  have nz: "int (unat v div 16) \<noteq> -1" "int (unat v mod 16) \<noteq> -1" for v :: u8 by simp_all
  have v: "push_bit 4 (int (unat v div 16)) OR int (unat v mod 16) = uint v" for v :: u8
  proof -
    have "push_bit 4 (int (unat v div 16)) OR int (unat v mod 16) =
        int (push_bit 4 (drop_bit 4 (unat v)) OR take_bit 4 (unat v))"
      by (simp add: of_nat_or_eq push_bit_of_nat drop_bit_eq_div take_bit_eq_mod)
    then show ?thesis unfolding nibbles by simp
  qed
  have s: "push_bit 4 (push_bit 4 (uint a) OR x) OR y = push_bit 8 (uint a) OR (push_bit 4 x OR y)" for x y
    by (simp add: push_bit_or or.assoc)
  have w: "(x OR push_bit 4 (int (unat v div 16))) OR int (unat v mod 16) = x OR uint v" for x and v :: u8
    by (simp add: or.assoc v)
  show ?thesis
    by (simp add: unicode_input_def hex2_def to_hex_hexdig u8_digits nz v s w be16_def
        INPUTMETHOD_MORECHARS_def)
qed

end
