(* ===== verification/Editing.thy ===== *)
theory Editing
  imports Line_Theorems Undo_Props Input_Theorems
begin

text \<open>
  The editing commands of the text mode in \<open>src/qe.c\<close>: moving over lines, words and
  paragraphs, changing case, deleting, transposing, typing with an input method, and the kill
  ring. This theory holds the definitions; \<open>Edit_Theorems\<close> proves what they do.

  An \<open>EditState\<close> is a window on a buffer. Its \<open>offset\<close> is an integer that the callbacks of
  the buffer move (\<open>text_mode_init\<close> registers its address), so it is kept in the buffer's
  \<open>tracked\<close> memory, at the address \<open>OFFSET\<close>; the buffer's mark is at \<open>MARK\<close>. The mode
  of the window is the text mode, whose functions the commands call. Messages in the status line,
  redisplay and the selection of the window system are left out: they do not change the buffer.
\<close>

section \<open>Windows\<close>

definition MARK :: tracker where "MARK = 0"
definition OFFSET :: tracker where "OFFSET = 1"

definition COMPOSE_MAX :: nat where "COMPOSE_MAX = 20"

record EditState =
  es_b :: EditBuffer
  es_insert :: bool
  input_method :: "InputMethod option"
  compose_buf :: "int list"
  compose_start_offset :: int

definition off :: "EditState \<Rightarrow> int" where
  "off s = tracked (es_b s) OFFSET"

definition mark :: "EditState \<Rightarrow> int" where
  "mark s = tracked (es_b s) MARK"

definition set_tracked :: "tracker \<Rightarrow> int \<Rightarrow> EditState \<Rightarrow> EditState" where
  "set_tracked a v s = s\<lparr>es_b := (es_b s)\<lparr>tracked := (tracked (es_b s))(a := v)\<rparr>\<rparr>"

abbreviation goto_off :: "EditState \<Rightarrow> int \<Rightarrow> EditState" where
  "goto_off s v \<equiv> set_tracked OFFSET v s"

definition read_only :: "EditState \<Rightarrow> bool" where
  "read_only s \<longleftrightarrow> b_flags (es_b s) AND BF_READONLY \<noteq> 0"

text \<open>
  The buffer functions on the window's buffer. Deleting a negative range makes the size of
  the buffer disagree with its pages, and a negative offset is in front of the first page: no
  result.
\<close>

definition nextc :: "EditState \<Rightarrow> u8 list \<Rightarrow> int \<Rightarrow> (int \<times> int \<times> EditState) option" where
  "nextc s junk p = do {
     (c, q, b) \<leftarrow> eb_nextc (es_b s) junk p;
     Some (c, q, s\<lparr>es_b := b\<rparr>) }"

definition prevc :: "EditState \<Rightarrow> int \<Rightarrow> (int \<times> int \<times> EditState) option" where
  "prevc s p = do {
     (c, q, b) \<leftarrow> eb_prevc (es_b s) p;
     Some (c, q, s\<lparr>es_b := b\<rparr>) }"

definition delete_at :: "EditState \<Rightarrow> int \<Rightarrow> int \<Rightarrow> EditState option" where
  "delete_at s p n = do {
     guard (0 \<le> p \<and> 0 \<le> n);
     b \<leftarrow> eb_delete (es_b s) (nat p) (nat n);
     Some (s\<lparr>es_b := b\<rparr>) }"

definition insert_at :: "EditState \<Rightarrow> int \<Rightarrow> u8 list \<Rightarrow> EditState option" where
  "insert_at s p bs = do {
     guard (0 \<le> p);
     b \<leftarrow> eb_insert (es_b s) (nat p) bs;
     Some (s\<lparr>es_b := b\<rparr>) }"

definition write_at :: "EditState \<Rightarrow> int \<Rightarrow> u8 list \<Rightarrow> EditState option" where
  "write_at s p bs = do {
     guard (0 \<le> p);
     b \<leftarrow> eb_write (es_b s) (nat p) bs;
     Some (s\<lparr>es_b := b\<rparr>) }"

abbreviation es_size :: "EditState \<Rightarrow> int" where
  "es_size s \<equiv> int (total_size (es_b s))"

section \<open>Moving\<close>

definition do_bof :: "EditState \<Rightarrow> EditState" where
  "do_bof s = goto_off s 0"

definition do_eof :: "EditState \<Rightarrow> EditState" where
  "do_eof s = goto_off s (es_size s)"

partial_function (option) text_move_bol :: "EditState \<Rightarrow> EditState option" where
  "text_move_bol s =
    (if off s \<le> 0 then Some s
     else do {
       (c, offset1, s) \<leftarrow> prevc s (off s);
       if c = 10 then Some s else text_move_bol (goto_off s offset1) })"

partial_function (option) text_move_eol :: "EditState \<Rightarrow> u8 list \<Rightarrow> EditState option" where
  "text_move_eol s junk = do {
     (c, offset1, s) \<leftarrow> nextc s junk (off s);
     if c = 10 then Some s else text_move_eol (goto_off s offset1) junk }"

definition isword :: "int \<Rightarrow> bool" where
  "isword c \<longleftrightarrow> (c \<ge> 97 \<and> c \<le> 122) \<or> (c \<ge> 65 \<and> c \<le> 90) \<or> (c \<ge> 48 \<and> c \<le> 57) \<or> c = 95 \<or> c \<ge> 128"

partial_function (option) word_right :: "EditState \<Rightarrow> u8 list \<Rightarrow> bool \<Rightarrow> EditState option" where
  "word_right s junk w =
    (if off s \<ge> es_size s then Some s
     else do {
       (c, offset1, s) \<leftarrow> nextc s junk (off s);
       if isword c = w then Some s else word_right (goto_off s offset1) junk w })"

partial_function (option) word_left :: "EditState \<Rightarrow> bool \<Rightarrow> EditState option" where
  "word_left s w =
    (if off s = 0 then Some s
     else do {
       (c, offset1, s) \<leftarrow> prevc s (off s);
       if isword c = w then Some s else word_left (goto_off s offset1) w })"

definition text_move_word_left_right :: "EditState \<Rightarrow> u8 list \<Rightarrow> int \<Rightarrow> EditState option" where
  "text_move_word_left_right s junk dir =
    (if dir > 0 then do { s \<leftarrow> word_right s junk True; word_right s junk False }
     else do { s \<leftarrow> word_left s True; word_left s False })"

definition do_goto_line :: "EditState \<Rightarrow> u8 list \<Rightarrow> int \<Rightarrow> EditState option" where
  "do_goto_line s junk line =
    (if line < 1 then Some s
     else do {
       (p, b) \<leftarrow> eb_goto_pos (es_b s) junk (nat (line - 1)) 0;
       Some (goto_off (s\<lparr>es_b := b\<rparr>) p) })"

definition do_goto_char :: "EditState \<Rightarrow> int \<Rightarrow> EditState option" where
  "do_goto_char s pos =
    (if pos < 0 then Some s
     else do {
       (p, b) \<leftarrow> eb_goto_char (es_b s) (nat pos);
       Some (goto_off (s\<lparr>es_b := b\<rparr>) (int p)) })"

section \<open>Paragraphs\<close>

partial_function (option) next_paragraph_loop ::
    "EditBuffer \<Rightarrow> u8 list \<Rightarrow> int \<Rightarrow> bool \<Rightarrow> (int \<times> EditBuffer) option" where
  "next_paragraph_loop b junk offset text_found =
    (if offset \<ge> int (total_size b) then Some (offset, b)
     else do {
       (empty, b) \<leftarrow> eb_is_empty_line b junk offset;
       if empty \<and> text_found then Some (offset, b)
       else do {
         (offset, b) \<leftarrow> eb_next_line b junk offset;
         next_paragraph_loop b junk offset (text_found \<or> \<not> empty) } })"

definition eb_next_paragraph :: "EditBuffer \<Rightarrow> u8 list \<Rightarrow> int \<Rightarrow> (int \<times> EditBuffer) option" where
  "eb_next_paragraph b junk offset = do {
     (offset, b) \<leftarrow> eb_goto_bol b offset;
     next_paragraph_loop b junk offset False }"

partial_function (option) eb_start_paragraph ::
    "EditBuffer \<Rightarrow> u8 list \<Rightarrow> int \<Rightarrow> (int \<times> EditBuffer) option" where
  "eb_start_paragraph b junk offset = do {
     (offset, b) \<leftarrow> eb_goto_bol b offset;
     if offset \<le> 0 then Some (offset, b)
     else do {
       (empty, b) \<leftarrow> eb_is_empty_line b junk offset;
       if empty then eb_next_line b junk offset
       else do {
         (_, offset, b) \<leftarrow> eb_prevc b offset;
         eb_start_paragraph b junk offset } } }"

partial_function (option) skip_empty_lines ::
    "EditBuffer \<Rightarrow> u8 list \<Rightarrow> int \<Rightarrow> (int \<times> EditBuffer) option" where
  "skip_empty_lines b junk offset =
    (if offset \<le> 0 then Some (offset, b)
     else do {
       (offset, b) \<leftarrow> eb_goto_bol b offset;
       (empty, b) \<leftarrow> eb_is_empty_line b junk offset;
       if \<not> empty then Some (offset, b)
       else do {
         (_, offset, b) \<leftarrow> eb_prevc b offset;
         skip_empty_lines b junk offset } })"

definition do_backward_paragraph :: "EditState \<Rightarrow> u8 list \<Rightarrow> EditState option" where
  "do_backward_paragraph s junk = do {
     (offset, b) \<leftarrow> skip_empty_lines (es_b s) junk (off s);
     (offset, b) \<leftarrow> eb_start_paragraph b junk offset;
     (_, offset, b) \<leftarrow> eb_prevc b offset;
     (offset, b) \<leftarrow> eb_goto_bol b offset;
     Some (goto_off (s\<lparr>es_b := b\<rparr>) offset) }"

definition do_forward_paragraph :: "EditState \<Rightarrow> u8 list \<Rightarrow> EditState option" where
  "do_forward_paragraph s junk = do {
     (offset, b) \<leftarrow> eb_next_paragraph (es_b s) junk (off s);
     Some (goto_off (s\<lparr>es_b := b\<rparr>) offset) }"

section \<open>Changing case\<close>

definition ascii_case :: "bool \<Rightarrow> int \<Rightarrow> int" where
  "ascii_case up ch =
    (if up then (if 97 \<le> ch \<and> ch \<le> 122 then ch - 32 else ch)
     else (if 65 \<le> ch \<and> ch \<le> 90 then ch + 32 else ch))"

definition eb_changecase :: "EditState \<Rightarrow> u8 list \<Rightarrow> int \<Rightarrow> bool \<Rightarrow> (int \<times> EditState) option" where
  "eb_changecase s junk offset up = do {
     (ch, offset1, s) \<leftarrow> nextc s junk offset;
     let ch = (if ch < 128 then ascii_case up ch else ch);
     buf \<leftarrow> char_bytes ch (charset (es_b s));
     let len = int (length buf);
     s \<leftarrow> (if len = offset1 - offset then write_at s offset buf
          else do { s \<leftarrow> delete_at s offset (offset1 - offset); insert_at s offset buf });
     Some (offset + len, s) }"

partial_function (option) changecase_word_loop :: "EditState \<Rightarrow> u8 list \<Rightarrow> bool \<Rightarrow> EditState option" where
  "changecase_word_loop s junk up =
    (if off s \<ge> es_size s then Some s
     else do {
       (c, _, s) \<leftarrow> nextc s junk (off s);
       if \<not> isword c then Some s
       else do {
         (offset, s) \<leftarrow> eb_changecase s junk (off s) up;
         changecase_word_loop (goto_off s offset) junk up } })"

definition do_changecase_word :: "EditState \<Rightarrow> u8 list \<Rightarrow> bool \<Rightarrow> EditState option" where
  "do_changecase_word s junk up = do {
     s \<leftarrow> word_right s junk True;
     changecase_word_loop s junk up }"

partial_function (option) changecase_region_loop ::
    "EditState \<Rightarrow> u8 list \<Rightarrow> int \<Rightarrow> bool \<Rightarrow> EditState option" where
  "changecase_region_loop s junk offset up =
    (if offset \<ge> (if off s > mark s then off s else mark s) then Some s
     else do {
       (offset, s) \<leftarrow> eb_changecase s junk offset up;
       changecase_region_loop s junk offset up })"

definition do_changecase_region :: "EditState \<Rightarrow> u8 list \<Rightarrow> bool \<Rightarrow> EditState option" where
  "do_changecase_region s junk up =
     changecase_region_loop s junk (if off s > mark s then mark s else off s) up"

text \<open>
  The word at the cursor, as \<open>char\<close>s. The array has 256 bytes and is zero before; a word that
  fills it leaves \<open>strdup\<close> without an end.
\<close>

partial_function (option) word_start :: "EditState \<Rightarrow> int \<Rightarrow> EditState option" where
  "word_start s o_offs =
    (if off s = 0 then Some (goto_off s o_offs)
     else do {
       (c, offset1, s) \<leftarrow> prevc s (off s);
       if \<not> isword c then Some s else word_start (goto_off s offset1) o_offs })"

partial_function (option) word_chars :: "EditState \<Rightarrow> u8 list \<Rightarrow> (u8 list \<times> EditState) option" where
  "word_chars s junk =
    (if off s \<ge> es_size s then Some ([], s)
     else do {
       (c, offset1, s) \<leftarrow> nextc s junk (off s);
       if \<not> isword c then Some ([], s)
       else do {
         (cs, s) \<leftarrow> word_chars (goto_off s offset1) junk;
         Some (byte c # cs, s) } })"

definition do_read_word_at_offset :: "EditState \<Rightarrow> u8 list \<Rightarrow> (u8 list \<times> EditState) option" where
  "do_read_word_at_offset s junk = do {
     let o_offs = off s;
     s \<leftarrow> word_start s o_offs;
     (word, s) \<leftarrow> word_chars s junk;
     guard (length word < 256 \<or> 0 \<in> set (take 256 word));
     Some (takeWhile (\<lambda>c. c \<noteq> 0) word, goto_off s o_offs) }"

section \<open>Deleting and transposing\<close>

definition do_delete_word :: "EditState \<Rightarrow> u8 list \<Rightarrow> int \<Rightarrow> EditState option" where
  "do_delete_word s junk dir =
    (if read_only s then Some s
     else do {
       let start = off s;
       s \<leftarrow> text_move_word_left_right s junk dir;
       let last = off s;
       if start < last then delete_at s start (last - start) else delete_at s last (start - last) })"

definition do_delete_char :: "EditState \<Rightarrow> u8 list \<Rightarrow> EditState option" where
  "do_delete_char s junk = do {
     (_, offset1, s) \<leftarrow> nextc s junk (off s);
     delete_at s (off s) (offset1 - off s) }"

partial_function (option) back_spaces :: "EditState \<Rightarrow> int \<Rightarrow> (int \<times> EditState) option" where
  "back_spaces s nr_spaces = do {
     (c, offset1, s) \<leftarrow> prevc s (off s);
     sp \<leftarrow> isspace c;
     if \<not> sp \<or> c = 10 then Some (nr_spaces, s)
     else back_spaces (goto_off s offset1) (nr_spaces + 1) }"

definition trim_line :: "EditState \<Rightarrow> u8 list \<Rightarrow> int \<Rightarrow> (bool \<times> EditState) option" where
  "trim_line s junk i = do {
     s \<leftarrow> do_goto_line s junk i;
     s \<leftarrow> text_move_eol s junk;
     (nr_spaces, s) \<leftarrow> back_spaces s 0;
     if nr_spaces > 0 then do { s \<leftarrow> delete_at s (off s) nr_spaces; Some (True, s) }
     else Some (False, s) }"

text \<open>The lines \<open>i\<close> and the \<open>n\<close> - 1 after it; the result counts the lines changed.\<close>

fun trim_lines :: "EditState \<Rightarrow> u8 list \<Rightarrow> nat \<Rightarrow> nat \<Rightarrow> nat \<Rightarrow> (nat \<times> EditState) option" where
  "trim_lines s junk i 0 twl = Some (twl, s)"
| "trim_lines s junk i (Suc n) twl = do {
     (cut, s) \<leftarrow> trim_line s junk (int i);
     trim_lines s junk (i + 1) n (if cut then twl + 1 else twl) }"

definition do_delete_trailing_whitespace :: "EditState \<Rightarrow> u8 list \<Rightarrow> (nat \<times> EditState) option" where
  "do_delete_trailing_whitespace s junk = do {
     let s = do_eof s;
     let ((tline_num, _), b) = eb_get_pos (es_b s) (nat (off s));
     let s = do_bof (s\<lparr>es_b := b\<rparr>);
     trim_lines s junk 0 tline_num 0 }"

text \<open>The loop of \<open>do_match_parenthesis\<close>; whether the parenthesis was found.\<close>

partial_function (option) match_loop ::
    "EditState \<Rightarrow> u8 list \<Rightarrow> bool \<Rightarrow> int \<Rightarrow> int \<Rightarrow> int \<Rightarrow> int \<Rightarrow> (bool \<times> EditState) option" where
  "match_loop s junk fw this_paren other_paren initial_offset nest = do {
     (c, offset1, s) \<leftarrow> (if fw then nextc s junk (off s) else prevc s (off s));
     let nest = (if c = this_paren then nest + 1 else if c = other_paren then nest - 1 else nest);
     if c \<noteq> this_paren \<and> c = other_paren \<and> nest \<le> 0
     then Some (nest = 0,
       if nest = 0 \<and> \<not> fw then goto_off s offset1
       else if nest < 0 then goto_off s initial_offset else s)
     else if offset1 \<le> 0 \<or> offset1 \<ge> es_size s then Some (False, goto_off s initial_offset)
     else match_loop (goto_off s offset1) junk fw this_paren other_paren initial_offset nest }"

definition do_match_parenthesis :: "EditState \<Rightarrow> u8 list \<Rightarrow> (bool \<times> EditState) option" where
  "do_match_parenthesis s junk = do {
     let initial_offset = off s;
     guard (0 \<le> off s);
     (r, b) \<leftarrow> eb_read (es_b s) (nat (off s)) 1;
     guard (length r = 1);
     let s = s\<lparr>es_b := b\<rparr>;
     let this_paren = uint (r ! 0);
     if this_paren = 123 \<or> this_paren = 40 \<or> this_paren = 91
     then match_loop (goto_off s (off s + 1)) junk True this_paren
       (if this_paren = 40 then this_paren + 1 else this_paren + 2) initial_offset 1
     else if this_paren = 125 \<or> this_paren = 41 \<or> this_paren = 93
     then match_loop s junk False this_paren
       (if this_paren = 41 then this_paren - 1 else this_paren - 2) initial_offset 1
     else Some (False, s) }"

definition do_backspace :: "EditState \<Rightarrow> EditState option" where
  "do_backspace s = do {
     (_, offset1, s) \<leftarrow> prevc s (off s);
     if offset1 < off s
     then do {
       s \<leftarrow> delete_at s offset1 (off s - offset1);
       Some ((goto_off s offset1)\<lparr>compose_buf := butlast (compose_buf s)\<rparr>) }
     else Some s }"

text \<open>At the end of the buffer the second byte is not read: it has no value.\<close>

definition do_transpose_char :: "EditState \<Rightarrow> EditState option" where
  "do_transpose_char s = do {
     let o_offs = off s;
     (_, offset1, s) \<leftarrow> prevc s (off s);
     guard (0 \<le> offset1);
     (ch, b) \<leftarrow> eb_read (es_b s) (nat offset1) 2;
     let s = s\<lparr>es_b := b\<rparr>;
     if offset1 < off s
     then do {
       guard (length ch = 2);
       s \<leftarrow> delete_at s offset1 (off s - offset1 + 1);
       s \<leftarrow> insert_at s (off s) [ch ! 1, ch ! 0];
       Some (goto_off s o_offs) }
     else Some s }"

section \<open>Typing\<close>

fun skip_chars :: "EditState \<Rightarrow> u8 list \<Rightarrow> int \<Rightarrow> nat \<Rightarrow> (int \<times> EditState) option" where
  "skip_chars s junk offset 0 = Some (offset, s)"
| "skip_chars s junk offset (Suc n) = do {
     (_, offset, s) \<leftarrow> nextc s junk offset;
     skip_chars s junk offset n }"

partial_function (option) compose_loop :: "EditState \<Rightarrow> u8 list \<Rightarrow> EditState option" where
  "compose_loop s junk = (case input_method s of
       None \<Rightarrow> Some (s\<lparr>compose_buf := []\<rparr>)
     | Some m \<Rightarrow> do {
         (ret, match_len) \<leftarrow> input_match (im_match m) (compose_buf s) (length (compose_buf s));
         if ret = INPUTMETHOD_NOMATCH then Some (s\<lparr>compose_buf := []\<rparr>)
         else if ret = INPUTMETHOD_MORECHARS then Some s
         else do {
           match_len \<leftarrow> match_len;
           let key = ret;
           let start = compose_start_offset s;
           let offset1 = off s;
           (offset, s) \<leftarrow> skip_chars s junk start match_len;
           s \<leftarrow> delete_at s start (offset - start);
           guard (match_len \<le> length (compose_buf s));
           let s = s\<lparr>compose_buf := drop match_len (compose_buf s)\<rparr>;
           buf \<leftarrow> char_bytes key (charset (es_b s));
           let len = int (length buf);
           s \<leftarrow> insert_at s start buf;
           let s = goto_off s (offset1 + len - (offset - start));
           let s = s\<lparr>compose_start_offset := start + len\<rparr>;
           if compose_buf s = [] then Some s else compose_loop s junk } })"

text \<open>The array \<open>compose_buf\<close> has room for \<open>COMPOSE_MAX\<close> keys.\<close>

definition text_write_char :: "EditState \<Rightarrow> u8 list \<Rightarrow> int \<Rightarrow> EditState option" where
  "text_write_char s junk key = do {
     (cur_ch, offset1, s) \<leftarrow> nextc s junk (off s);
     let cur_len = offset1 - off s;
     buf \<leftarrow> char_bytes key (charset (es_b s));
     let len = int (length buf);
     if es_insert s \<or> cur_ch = 10
     then do {
       let s = (if compose_buf s = [] then s\<lparr>compose_start_offset := off s\<rparr> else s);
       s \<leftarrow> insert_at s (off s) buf;
       let s = goto_off s (off s + len);
       guard (length (compose_buf s) < COMPOSE_MAX);
       let s = s\<lparr>compose_buf := compose_buf s @ [key]\<rparr>;
       compose_loop s junk }
     else do {
       s \<leftarrow> (if cur_len = len then write_at s (off s) buf
            else do { s \<leftarrow> delete_at s (off s) cur_len; insert_at s (off s) buf });
       Some (goto_off s (off s + len)) } }"

definition do_char :: "EditState \<Rightarrow> u8 list \<Rightarrow> int \<Rightarrow> EditState option" where
  "do_char s junk key = (if read_only s then Some s else text_write_char s junk key)"

definition do_tab :: "EditState \<Rightarrow> u8 list \<Rightarrow> EditState option" where
  "do_tab s junk = do_char s junk 9"

definition do_insert :: "EditState \<Rightarrow> EditState" where
  "do_insert s = s\<lparr>es_insert := \<not> es_insert s\<rparr>"

definition do_open_line :: "EditState \<Rightarrow> EditState option" where
  "do_open_line s = (if read_only s then Some s else insert_at s (off s) [10])"

definition do_return :: "EditState \<Rightarrow> EditState option" where
  "do_return s = do {
     s \<leftarrow> do_open_line s;
     Some (goto_off s (off s + 1)) }"

section \<open>Mark and kill ring\<close>

definition NB_YANK_BUFFERS :: nat where "NB_YANK_BUFFERS = 10"

record YankRing =
  yank_current :: nat
  yank_buffers :: "EditBuffer option list"

definition do_set_mark :: "EditState \<Rightarrow> EditState" where
  "do_set_mark s = set_tracked MARK (off s) s"

definition do_exchange_point_and_mark :: "EditState \<Rightarrow> EditState" where
  "do_exchange_point_and_mark s =
    (let tmp = mark s; s = set_tracked MARK (off s) s in goto_off s tmp)"

definition new_yank_buffer :: "YankRing \<Rightarrow> YankRing" where
  "new_yank_buffer qs =
    (let k = (if yank_current qs + 1 = NB_YANK_BUFFERS then 0 else yank_current qs + 1)
     in qs\<lparr>yank_current := k,
           yank_buffers := (yank_buffers qs)[k := Some (alloc_buffer ''*yank*'' BF_SYSTEM)]\<rparr>)"

definition set_yank :: "YankRing \<Rightarrow> EditBuffer \<Rightarrow> YankRing" where
  "set_yank qs b = qs\<lparr>yank_buffers := (yank_buffers qs)[yank_current qs := Some b]\<rparr>"

partial_function (option) line_end :: "EditState \<Rightarrow> u8 list \<Rightarrow> int \<Rightarrow> (int \<times> EditState) option" where
  "line_end s junk p1 = do {
     (c, offset1, s) \<leftarrow> nextc s junk p1;
     if c = 10 then Some (p1, s) else line_end s junk offset1 }"

text \<open>\<open>kill\<close> is 0 to copy the region, 1 to kill it and 2 to kill the rest of the line.\<close>

definition do_kill_region ::
    "EditState \<Rightarrow> u8 list \<Rightarrow> YankRing \<Rightarrow> nat \<Rightarrow> (EditState \<times> YankRing) option" where
  "do_kill_region s junk qs kill =
    (if read_only s then Some (s, qs)
     else do {
       let p2 = off s;
       (p1, s) \<leftarrow>
         (if kill = 2
          then do {
            (c, offset1, s) \<leftarrow> nextc s junk p2;
            if c = 10 then Some (offset1, s) else line_end s junk p2 }
          else Some (mark s, s));
       let (p1, p2) = (if p1 > p2 then (p2, p1) else (p1, p2));
       let len = p2 - p1;
       let qs = new_yank_buffer qs;
       b \<leftarrow> yank_buffers qs ! yank_current qs;
       guard (0 \<le> p1);
       (b, src) \<leftarrow> eb_insert_buffer b 0 (es_b s) (nat p1) (nat len);
       let qs = set_yank qs b;
       let s = s\<lparr>es_b := src\<rparr>;
       if kill \<noteq> 0
       then do {
         s \<leftarrow> delete_at s p1 len;
         Some (goto_off s p1, qs) }
       else Some (s, qs) })"

definition do_yank :: "EditState \<Rightarrow> YankRing \<Rightarrow> (EditState \<times> YankRing) option" where
  "do_yank s qs =
    (if read_only s then Some (s, qs)
     else case yank_buffers qs ! yank_current qs of
         None \<Rightarrow> Some (s, qs)
       | Some b \<Rightarrow>
           let size = total_size b in
           if size > 0
           then do {
             guard (0 \<le> off s);
             (d, b) \<leftarrow> eb_insert_buffer (es_b s) (nat (off s)) b 0 size;
             let s = s\<lparr>es_b := d\<rparr>;
             Some (goto_off s (off s + int size), set_yank qs b) }
           else Some (s, qs))"

text \<open>\<open>again\<close> says that the last command was an undo, as in \<open>do_undo\<close>.\<close>

definition do_yank_pop :: "EditState \<Rightarrow> YankRing \<Rightarrow> bool \<Rightarrow> (EditState \<times> YankRing) option" where
  "do_yank_pop s qs again = do {
     b \<leftarrow> do_undo (es_b s) again OFFSET;
     let s = s\<lparr>es_b := b\<rparr>;
     let qs = qs\<lparr>yank_current :=
       (if yank_current qs = 0 then NB_YANK_BUFFERS - 1 else yank_current qs - 1)\<rparr>;
     do_yank s qs }"

text \<open>The loops without a termination proof are executable by their equations.\<close>

declare text_move_bol.simps [code] text_move_eol.simps [code] word_right.simps [code]
  word_left.simps [code] next_paragraph_loop.simps [code] eb_start_paragraph.simps [code]
  skip_empty_lines.simps [code] changecase_word_loop.simps [code]
  changecase_region_loop.simps [code] word_start.simps [code] word_chars.simps [code]
  back_spaces.simps [code] match_loop.simps [code] compose_loop.simps [code]
  line_end.simps [code]

end
