(* ===== verification/Edit_Moves.thy ===== *)
theory Edit_Moves
  imports Editing
begin

text \<open>
  What the movement commands of \<open>Editing\<close> do in charsets of one byte per character: they end,
  leave the text alone and put the cursor where a scan of the bytes says.
\<close>

section \<open>Windows that have only moved\<close>

text \<open>\<open>s'\<close> is the window \<open>s\<close> with the cursor at \<open>p\<close>; only the page cache has changed besides.\<close>

definition moved :: "EditState \<Rightarrow> int \<Rightarrow> EditState \<Rightarrow> bool" where
  "moved s p s' \<longleftrightarrow> buf_ok (es_b s) \<and> (\<exists>b. same_doc (es_b s) b \<and> s' = goto_off (s\<lparr>es_b := b\<rparr>) p)"

text \<open>A window on a good buffer in a charset of one byte per character.\<close>

definition byte_window :: "EditState \<Rightarrow> bool" where
  "byte_window s \<longleftrightarrow> buf_ok (es_b s) \<and> wf_charset (es_b s) \<and> charset (es_b s) \<noteq> Charset_utf8"

abbreviation es_text :: "EditState \<Rightarrow> u8 list" where
  "es_text s \<equiv> contents (es_b s)"

lemma same_text_cache:
  assumes "same_text b (b' :: EditBuffer)"
  shows "b' = b\<lparr>cur_page := cur_page b', cur_offset := cur_offset b'\<rparr>"
  using assms by (cases b; cases b') (simp add: same_text_def)

lemma same_doc_fields:
  assumes "same_doc b b'"
  shows "tracked b' = tracked b" "b_flags b' = b_flags b" "callbacks b' = callbacks b"
  using assms more_eqD [of b' b] by (auto simp: same_doc_def same_text_def)

lemma buf_ok_tracked [simp]: "buf_ok (b\<lparr>tracked := m\<rparr>) = buf_ok b"
  by (simp add: buf_ok_def contents_def cache_ok_def split: option.split)

lemma contents_tracked [simp]: "contents (b\<lparr>tracked := m\<rparr>) = contents b"
  by (simp add: contents_def)

lemma same_doc_tracked: "same_doc b b' \<Longrightarrow> same_doc (b\<lparr>tracked := m\<rparr>) (b'\<lparr>tracked := m\<rparr>)"
proof -
  assume d: "same_doc b b'"
  obtain x y where e: "b' = b\<lparr>cur_page := x, cur_offset := y\<rparr>"
    using d same_text_cache by (auto simp: same_doc_def)
  show ?thesis using d unfolding same_doc_def buf_ok_tracked
    by (cases b) (simp add: e same_text_def)
qed

lemma off_goto [simp]: "off (goto_off s p) = p"
  by (simp add: off_def set_tracked_def)

lemma goto_goto [simp]: "goto_off (goto_off s p) q = goto_off s q"
  by (simp add: set_tracked_def)

lemma goto_fields [simp]:
  "es_text (goto_off s p) = es_text s" "es_size (goto_off s p) = es_size s"
  "charset (es_b (goto_off s p)) = charset (es_b s)"
  "charset_state (es_b (goto_off s p)) = charset_state (es_b s)"
  "buf_ok (es_b (goto_off s p)) = buf_ok (es_b s)" "b_flags (es_b (goto_off s p)) = b_flags (es_b s)"
  by (simp_all add: set_tracked_def)

lemma goto_setup [simp]:
  "compose_buf (goto_off s p) = compose_buf s" "input_method (goto_off s p) = input_method s"
  "es_insert (goto_off s p) = es_insert s" "compose_start_offset (goto_off s p) = compose_start_offset s"
  by (simp_all add: set_tracked_def)

lemma off_setup [simp]:
  "off (s\<lparr>compose_buf := cs\<rparr>) = off s" "off (s\<lparr>compose_start_offset := p\<rparr>) = off s"
  by (simp_all add: off_def)

lemma goto_off_self: "goto_off s (off s) = s"
  by (simp add: set_tracked_def off_def)

lemma goto_same_off: "same_doc (es_b s) b \<Longrightarrow> goto_off (s\<lparr>es_b := b\<rparr>) (off s) = s\<lparr>es_b := b\<rparr>"
  by (simp add: set_tracked_def off_def same_doc_fields(1) [symmetric])

lemma moved_off: "moved s p s' \<Longrightarrow> off s' = p"
  by (auto simp: moved_def)

lemma moved_doc:
  assumes "moved s p s'"
  shows "es_text s' = es_text s" "total_size (es_b s') = total_size (es_b s)"
    "byte_window s' = byte_window s" "buf_ok (es_b s')" "b_flags (es_b s') = b_flags (es_b s)"
    "charset (es_b s') = charset (es_b s)"
proof -
  obtain b where b: "same_doc (es_b s) b" "s' = goto_off (s\<lparr>es_b := b\<rparr>) p"
    using assms by (auto simp: moved_def)
  have ok: "buf_ok (es_b s)" using assms by (simp add: moved_def)
  show "es_text s' = es_text s" "total_size (es_b s') = total_size (es_b s)"
    "buf_ok (es_b s')" "b_flags (es_b s') = b_flags (es_b s)" "charset (es_b s') = charset (es_b s)"
    using b(2) same_docD [OF b(1)] same_doc_fields [OF b(1)] by (simp_all add: set_tracked_def)
  then show "byte_window s' = byte_window s"
    using b same_docD [OF b(1)] same_doc_wf [OF b(1)]
    by (simp add: byte_window_def wf_charset_def ok)
qed

lemma moved_refl: "buf_ok (es_b s) \<Longrightarrow> moved s (off s) s"
  using same_doc_refl [of "es_b s"] by (auto simp: moved_def goto_off_self intro!: exI [of _ "es_b s"])

lemma moved_goto: "buf_ok (es_b s) \<Longrightarrow> moved s p (goto_off s p)"
  using same_doc_refl [of "es_b s"] by (auto simp: moved_def intro!: exI [of _ "es_b s"])

lemma moved_read: "buf_ok (es_b s) \<Longrightarrow> same_doc (es_b s) b \<Longrightarrow> moved s (off s) (s\<lparr>es_b := b\<rparr>)"
  unfolding moved_def using goto_same_off by metis

lemma moved_trans:
  assumes "moved s p s1" "moved s1 q s2"
  shows "moved s q s2"
proof -
  obtain b where b: "same_doc (es_b s) b" "s1 = goto_off (s\<lparr>es_b := b\<rparr>) p"
    using assms(1) by (auto simp: moved_def)
  obtain c where c: "same_doc (es_b s1) c" "s2 = goto_off (s1\<lparr>es_b := c\<rparr>) q"
    using assms(2) by (auto simp: moved_def)
  let ?c = "c\<lparr>tracked := tracked b\<rparr>"
  have "same_doc b ?c"
    using same_doc_tracked [OF c(1), of "tracked b"] by (simp add: b(2) set_tracked_def)
  then have "same_doc (es_b s) ?c" using same_doc_trans [OF b(1)] by blast
  moreover have "s2 = goto_off (s\<lparr>es_b := ?c\<rparr>) q"
    using c(2) b(2) same_doc_fields(1) [OF c(1)] by (simp add: set_tracked_def)
  ultimately show ?thesis using assms(1) by (auto simp: moved_def)
qed

lemma byte_windowD: "byte_window s \<Longrightarrow> buf_ok (es_b s)"
  by (simp add: byte_window_def)

lemma es_size_eq: "buf_ok (es_b s) \<Longrightarrow> es_size s = int (length (es_text s))"
  using buf_okD(2) by simp

section \<open>Single characters\<close>

lemma nextc_byte:
  assumes "byte_window s" "p < length (es_text s)"
  obtains s' where "nextc s junk (int p) = Some (uint (es_text s ! p), int (p + 1), s')"
    "moved s (off s) s'"
proof -
  obtain b where "eb_nextc (es_b s) junk (int p) = Some (uint (es_text s ! p), int (p + 1), b)"
    "same_doc (es_b s) b"
    using eb_nextc_8bit [of "es_b s" p junk] assms by (auto simp: byte_window_def)
  then show thesis
    using that moved_read byte_windowD [OF assms(1)] by (simp add: nextc_def)
qed

lemma nextc_end:
  assumes "buf_ok (es_b s)"
  shows "nextc s junk (int (length (es_text s))) = Some (10, int (length (es_text s)), s)"
  using eb_nextc_end [OF assms] by (simp add: nextc_def)

lemma prevc_byte:
  assumes "byte_window s" "p < length (es_text s)"
  obtains s' where "prevc s (int (Suc p)) = Some (uint (es_text s ! p), int p, s')"
    "moved s (off s) s'"
proof -
  obtain b where "eb_prevc (es_b s) (int (Suc p)) = Some (uint (es_text s ! p), int p, b)"
    "same_doc (es_b s) b"
    using eb_prevc_8bit [of "es_b s" p] assms by (auto simp: byte_window_def)
  then show thesis
    using that moved_read byte_windowD [OF assms(1)] by (simp add: prevc_def)
qed

section \<open>Words and lines\<close>

definition word_byte :: "u8 \<Rightarrow> bool" where
  "word_byte x \<longleftrightarrow> isword (uint x)"

text \<open>How far a scan from \<open>p\<close> goes while the bytes are \<open>P\<close>, forward and backward.\<close>

definition scan :: "(u8 \<Rightarrow> bool) \<Rightarrow> u8 list \<Rightarrow> nat \<Rightarrow> nat" where
  "scan P t p = p + length (takeWhile P (drop p t))"

definition scan_back :: "(u8 \<Rightarrow> bool) \<Rightarrow> u8 list \<Rightarrow> nat \<Rightarrow> nat" where
  "scan_back P t p = p - length (takeWhile P (rev (take p t)))"

lemma scan_step: "p < length t \<Longrightarrow> scan P t p = (if P (t ! p) then scan P t (Suc p) else p)"
  by (simp add: scan_def Cons_nth_drop_Suc [symmetric])

lemma scan_stop: "p < length t \<Longrightarrow> \<not> P (t ! p) \<Longrightarrow> scan P t p = p"
  and scan_go: "p < length t \<Longrightarrow> P (t ! p) \<Longrightarrow> scan P t p = scan P t (Suc p)"
  by (simp_all add: scan_step)

lemma scan_end: "length t \<le> p \<Longrightarrow> scan P t p = p"
  by (simp add: scan_def)

lemma scan_le: "p \<le> length t \<Longrightarrow> scan P t p \<le> length t"
  using length_takeWhile_le [of P "drop p t"] by (simp add: scan_def)

lemma scan_back_step: "p < length t \<Longrightarrow>
    scan_back P t (Suc p) = (if P (t ! p) then scan_back P t p else Suc p)"
  by (simp add: scan_back_def take_Suc_conv_app_nth)

lemma scan_back_stop: "p < length t \<Longrightarrow> \<not> P (t ! p) \<Longrightarrow> scan_back P t (Suc p) = Suc p"
  and scan_back_go: "p < length t \<Longrightarrow> P (t ! p) \<Longrightarrow> scan_back P t (Suc p) = scan_back P t p"
  by (simp_all add: scan_back_step)

lemma scan_back_0 [simp]: "scan_back P t 0 = 0"
  by (simp add: scan_back_def)

lemma scan_back_le: "scan_back P t p \<le> p"
  by (simp add: scan_back_def)

lemma word_right_scan:
  assumes "byte_window s" "off s = int p" "p \<le> length (es_text s)"
  shows "\<exists>s'. word_right s junk w = Some s' \<and> moved s (int (scan (\<lambda>x. word_byte x \<noteq> w) (es_text s) p)) s'"
  using assms
proof (induction "length (es_text s) - p" arbitrary: s p)
  case 0
  have "es_size s \<le> off s"
    using es_size_eq [OF byte_windowD [OF "0.prems"(1)]] "0.hyps" "0.prems"(2) by simp
  then have "word_right s junk w = Some s" by (subst word_right.simps) (simp only: if_True)
  then show ?case
    using "0.hyps" "0.prems" moved_refl [OF byte_windowD [OF "0.prems"(1)]] by (simp add: scan_end)
next
  case (Suc n)
  then have lt: "p < length (es_text s)" by simp
  obtain s1 where s1: "nextc s junk (int p) = Some (uint (es_text s ! p), int (p + 1), s1)" "moved s (off s) s1"
    by (rule nextc_byte [OF Suc.prems(1) lt])
  have ok1: "buf_ok (es_b s1)" using moved_doc(4) [OF s1(2)] .
  have size: "es_size s = int (length (es_text s))" by (rule es_size_eq [OF byte_windowD [OF Suc.prems(1)]])
  show ?case
  proof (cases "word_byte (es_text s ! p) = w")
    case True
    then have "scan (\<lambda>x. word_byte x \<noteq> w) (es_text s) p = p" by (intro scan_stop lt) simp
    moreover have "word_right s junk w = Some s1"
      using s1(1) Suc.prems(2) lt size True
      by (subst word_right.simps) (simp add: word_byte_def)
    ultimately show ?thesis using s1(2) Suc.prems(2) by simp
  next
    case False
    let ?s = "goto_off s1 (int (p + 1))"
    have m: "moved s (int (p + 1)) ?s" by (rule moved_trans [OF s1(2) moved_goto [OF ok1]])
    have "\<exists>s'. word_right ?s junk w = Some s' \<and> moved ?s (int (scan (\<lambda>x. word_byte x \<noteq> w) (es_text ?s) (p + 1))) s'"
      by (rule Suc.hyps(1)) (use Suc.hyps(2) Suc.prems(1) lt moved_doc(1,3) [OF m] in auto)
    then obtain s2 where "word_right ?s junk w = Some s2"
      "moved ?s (int (scan (\<lambda>x. word_byte x \<noteq> w) (es_text ?s) (p + 1))) s2" by blast
    moreover have "scan (\<lambda>x. word_byte x \<noteq> w) (es_text s) p = scan (\<lambda>x. word_byte x \<noteq> w) (es_text s) (p + 1)"
      using scan_go [OF lt, of "\<lambda>x. word_byte x \<noteq> w"] False by simp
    moreover have "word_right s junk w = word_right ?s junk w"
      using s1(1) Suc.prems(2) lt size False
      by (subst word_right.simps) (simp add: word_byte_def)
    ultimately show ?thesis using moved_trans [OF m, of _ s2] moved_doc(1) [OF m] by auto
  qed
qed

lemma word_left_scan:
  assumes "byte_window s" "off s = int p" "p \<le> length (es_text s)"
  shows "\<exists>s'. word_left s w = Some s' \<and> moved s (int (scan_back (\<lambda>x. word_byte x \<noteq> w) (es_text s) p)) s'"
  using assms
proof (induction p arbitrary: s)
  case 0
  then have "word_left s w = Some s" by (subst word_left.simps) simp
  then show ?case using "0.prems"(2) moved_refl [OF byte_windowD [OF "0.prems"(1)]] by simp
next
  case (Suc p)
  then have lt: "p < length (es_text s)" by simp
  obtain s1 where s1: "prevc s (int (Suc p)) = Some (uint (es_text s ! p), int p, s1)" "moved s (off s) s1"
    by (rule prevc_byte [OF Suc.prems(1) lt])
  have ok1: "buf_ok (es_b s1)" using moved_doc(4) [OF s1(2)] .
  show ?case
  proof (cases "word_byte (es_text s ! p) = w")
    case True
    then have "scan_back (\<lambda>x. word_byte x \<noteq> w) (es_text s) (Suc p) = Suc p"
      by (intro scan_back_stop lt) simp
    moreover have "word_left s w = Some s1"
      using s1(1) Suc.prems(2) True
      by (subst word_left.simps) (simp add: word_byte_def)
    ultimately show ?thesis using s1(2) Suc.prems(2) by simp
  next
    case False
    let ?s = "goto_off s1 (int p)"
    have m: "moved s (int p) ?s" by (rule moved_trans [OF s1(2) moved_goto [OF ok1]])
    obtain s2 where "word_left ?s w = Some s2"
      "moved ?s (int (scan_back (\<lambda>x. word_byte x \<noteq> w) (es_text ?s) p)) s2"
      using Suc.IH [of ?s] Suc.prems(1) lt moved_doc(1,3) [OF m] by auto
    moreover have "scan_back (\<lambda>x. word_byte x \<noteq> w) (es_text s) (Suc p) = scan_back (\<lambda>x. word_byte x \<noteq> w) (es_text s) p"
      using scan_back_go [OF lt, of "\<lambda>x. word_byte x \<noteq> w"] False by simp
    moreover have "word_left s w = word_left ?s w"
      using s1(1) Suc.prems(2) False
      by (subst word_left.simps) (simp add: word_byte_def)
    ultimately show ?thesis using moved_trans [OF m, of _ s2] moved_doc(1) [OF m] by auto
  qed
qed

end
