(* ===== verification/Edit_Match.thy ===== *)
theory Edit_Match
  imports Edit_Moves
begin

text \<open>
  Matching parentheses: the loop of \<open>do_match_parenthesis\<close> passes over words in which the
  parentheses are nested, in both directions.
\<close>

section \<open>Matching parentheses\<close>

text \<open>Words in which the parentheses \<open>op\<close> and \<open>cl\<close> are nested.\<close>

inductive nested :: "u8 \<Rightarrow> u8 \<Rightarrow> u8 list \<Rightarrow> bool" for op cl where
  nested_Nil: "nested op cl []"
| nested_char: "x \<noteq> op \<Longrightarrow> x \<noteq> cl \<Longrightarrow> nested op cl M \<Longrightarrow> nested op cl (x # M)"
| nested_pair: "nested op cl M \<Longrightarrow> nested op cl N \<Longrightarrow> nested op cl (op # M @ cl # N)"

code_pred nested .

definition count_nest :: "u8 \<Rightarrow> u8 \<Rightarrow> u8 \<Rightarrow> int \<Rightarrow> int" where
  "count_nest th ot x n = (if x = th then n + 1 else if x = ot then n - 1 else n)"

lemma count_nest_uint:
  "(if uint x = uint th then n + 1 else if uint x = uint ot then n - 1 else n) = count_nest th ot x n"
  by (simp add: count_nest_def word_uint_eq_iff)

lemma match_forward_step:
  assumes "byte_window s" "off s = int p" "p + 1 < length (es_text s)"
    "0 < count_nest th ot (es_text s ! p) n"
  shows "\<exists>s'. moved s (int (p + 1)) s' \<and>
    match_loop s junk True (uint th) (uint ot) io n =
    match_loop s' junk True (uint th) (uint ot) io (count_nest th ot (es_text s ! p) n)"
proof -
  have lt: "p < length (es_text s)" using assms(3) by simp
  obtain s1 where s1: "nextc s junk (int p) = Some (uint (es_text s ! p), int (p + 1), s1)" "moved s (off s) s1"
    by (rule nextc_byte [OF assms(1) lt])
  have m: "moved s (int (p + 1)) (goto_off s1 (int (p + 1)))"
    by (rule moved_trans [OF s1(2) moved_goto [OF moved_doc(4) [OF s1(2)]]])
  have "es_size s1 = int (length (es_text s))"
    using moved_doc(2) [OF s1(2)] es_size_eq [OF byte_windowD [OF assms(1)]] by simp
  then have "match_loop s junk True (uint th) (uint ot) io n =
    match_loop (goto_off s1 (int (p + 1))) junk True (uint th) (uint ot) io (count_nest th ot (es_text s ! p) n)"
    using s1(1) assms(2-4)
    by (subst match_loop.simps) (simp add: Let_def count_nest_uint)
  with m show ?thesis by blast
qed

lemma match_backward_step:
  assumes "byte_window s" "off s = int (Suc p)" "0 < p" "p < length (es_text s)"
    "0 < count_nest th ot (es_text s ! p) n"
  shows "\<exists>s'. moved s (int p) s' \<and>
    match_loop s junk False (uint th) (uint ot) io n =
    match_loop s' junk False (uint th) (uint ot) io (count_nest th ot (es_text s ! p) n)"
proof -
  obtain s1 where s1: "prevc s (int (Suc p)) = Some (uint (es_text s ! p), int p, s1)" "moved s (off s) s1"
    by (rule prevc_byte [OF assms(1,4)])
  have m: "moved s (int p) (goto_off s1 (int p))"
    by (rule moved_trans [OF s1(2) moved_goto [OF moved_doc(4) [OF s1(2)]]])
  have "es_size s1 = int (length (es_text s))"
    using moved_doc(2) [OF s1(2)] es_size_eq [OF byte_windowD [OF assms(1)]] by simp
  then have "match_loop s junk False (uint th) (uint ot) io n =
    match_loop (goto_off s1 (int p)) junk False (uint th) (uint ot) io (count_nest th ot (es_text s ! p) n)"
    using s1(1) assms(2-5)
    by (subst match_loop.simps) (simp add: Let_def count_nest_uint)
  with m show ?thesis by blast
qed

text \<open>The loop passes over a nested word and comes back to the same depth.\<close>

lemma match_forward_nested:
  assumes "nested op cl M" "op \<noteq> cl" "0 < n"
    "byte_window s" "es_text s = A @ M @ B" "B \<noteq> []" "off s = int (length A)"
  shows "\<exists>s'. moved s (int (length A + length M)) s' \<and>
    match_loop s junk True (uint op) (uint cl) io n = match_loop s' junk True (uint op) (uint cl) io n"
  using assms
proof (induction M arbitrary: n s A B rule: nested.induct)
  case nested_Nil
  then show ?case using moved_refl [OF byte_windowD, of s] by auto
next
  case (nested_char x M)
  have step: "count_nest op cl (es_text s ! length A) n = n"
    using nested_char.hyps nested_char.prems(4) by (simp add: count_nest_def)
  have "length A + 1 < length (es_text s)"
    using nested_char.prems(4,5) by (cases B) auto
  from match_forward_step [OF nested_char.prems(3,6) this, of op cl n junk io] obtain s1 where
    s1: "moved s (int (length A + 1)) s1"
      "match_loop s junk True (uint op) (uint cl) io n = match_loop s1 junk True (uint op) (uint cl) io n"
    using step nested_char.prems(2) by auto
  have "es_text s1 = (A @ [x]) @ M @ B" using moved_doc(1) [OF s1(1)] nested_char.prems(4) by simp
  from nested_char.IH [OF nested_char.prems(1,2) _ this nested_char.prems(5)] obtain s2 where
    "moved s1 (int (length (A @ [x]) + length M)) s2"
    "match_loop s1 junk True (uint op) (uint cl) io n = match_loop s2 junk True (uint op) (uint cl) io n"
    using nested_char.prems(3) moved_doc(3) [OF s1(1)] moved_off [OF s1(1)] by auto
  then show ?case using s1(2) moved_trans [OF s1(1)] by auto
next
  case (nested_pair M N)
  note p = nested_pair.prems
  have "count_nest op cl (es_text s ! length A) n = n + 1" using p(4) by (simp add: count_nest_def)
  moreover have "length A + 1 < length (es_text s)" using p(4) by simp
  ultimately obtain s1 where s1: "moved s (int (length A + 1)) s1"
      "match_loop s junk True (uint op) (uint cl) io n = match_loop s1 junk True (uint op) (uint cl) io (n + 1)"
    using match_forward_step [OF p(3,6), of op cl n junk io] p(2) by auto
  have "es_text s1 = (A @ [op]) @ M @ (cl # N @ B)" using moved_doc(1) [OF s1(1)] p(4) by simp
  from nested_pair.IH(1) [OF p(1) _ _ this, of "n + 1"] obtain s2 where
    s2: "moved s1 (int (length (A @ [op]) + length M)) s2"
    "match_loop s1 junk True (uint op) (uint cl) io (n + 1) = match_loop s2 junk True (uint op) (uint cl) io (n + 1)"
    using p(2,3) moved_doc(3) [OF s1(1)] moved_off [OF s1(1)] by auto
  let ?q = "length A + 1 + length M"
  have m2: "moved s (int ?q) s2" using moved_trans [OF s1(1) s2(1)] by simp
  have t2: "es_text s2 = (A @ op # M) @ cl # N @ B" using moved_doc(1) [OF m2] p(4) by simp
  have "es_text s2 ! ?q = cl" using nth_append_length [of "A @ op # M" cl "N @ B"] unfolding t2 by simp
  then have "count_nest op cl (es_text s2 ! ?q) (n + 1) = n" using p(1) by (simp add: count_nest_def)
  moreover have "?q + 1 < length (es_text s2)" using p(5) unfolding t2 by (cases B) auto
  ultimately obtain s3 where s3: "moved s2 (int (?q + 1)) s3"
      "match_loop s2 junk True (uint op) (uint cl) io (n + 1) = match_loop s3 junk True (uint op) (uint cl) io n"
    using match_forward_step [of s2 ?q op cl "n + 1" junk io] p(2,3) moved_doc(3) [OF m2] moved_off [OF m2] by auto
  have m3: "moved s (int (?q + 1)) s3" by (rule moved_trans [OF m2 s3(1)])
  have "es_text s3 = (A @ op # M @ [cl]) @ N @ B" using moved_doc(1) [OF m3] p(4) by simp
  from nested_pair.IH(2) [OF p(1,2) _ this p(5)] obtain s4 where
    "moved s3 (int (length (A @ op # M @ [cl]) + length N)) s4"
    "match_loop s3 junk True (uint op) (uint cl) io n = match_loop s4 junk True (uint op) (uint cl) io n"
    using p(3) moved_doc(3) [OF m3] moved_off [OF m3] by auto
  then show ?case using s1(2) s2(2) s3(2) moved_trans [OF m3] by (auto simp: add.assoc)
qed

lemma match_backward_nested:
  assumes "nested op cl M" "op \<noteq> cl" "0 < n"
    "byte_window s" "es_text s = A @ M @ B" "A \<noteq> []" "off s = int (length A + length M)"
  shows "\<exists>s'. moved s (int (length A)) s' \<and>
    match_loop s junk False (uint cl) (uint op) io n = match_loop s' junk False (uint cl) (uint op) io n"
  using assms
proof (induction M arbitrary: n s A B rule: nested.induct)
  case nested_Nil
  then show ?case using moved_refl [OF byte_windowD, of s] by auto
next
  case (nested_char x M)
  note p = nested_char.prems
  have "es_text s = (A @ [x]) @ M @ B" "off s = int (length (A @ [x]) + length M)" using p(4,6) by simp_all
  from nested_char.IH [OF p(1-3) this(1) _ this(2)] obtain s1 where
    s1: "moved s (int (length (A @ [x]))) s1"
      "match_loop s junk False (uint cl) (uint op) io n = match_loop s1 junk False (uint cl) (uint op) io n"
    by blast
  have "count_nest cl op (es_text s1 ! length A) n = n"
    using nested_char.hyps p(4) moved_doc(1) [OF s1(1)] by (simp add: count_nest_def)
  then obtain s2 where "moved s1 (int (length A)) s2"
    "match_loop s1 junk False (uint cl) (uint op) io n = match_loop s2 junk False (uint cl) (uint op) io n"
    using match_backward_step [of s1 "length A" cl op n junk io] p(2-5)
      moved_doc(1,3) [OF s1(1)] moved_off [OF s1(1)] by auto
  then show ?case using s1(2) moved_trans [OF s1(1)] by auto
next
  case (nested_pair M N)
  note p = nested_pair.prems
  have "es_text s = (A @ op # M @ [cl]) @ N @ B" "off s = int (length (A @ op # M @ [cl]) + length N)"
    using p(4,6) by simp_all
  from nested_pair.IH(2) [OF p(1-3) this(1) _ this(2)] obtain s1 where
    s1: "moved s (int (length (A @ op # M @ [cl]))) s1"
      "match_loop s junk False (uint cl) (uint op) io n = match_loop s1 junk False (uint cl) (uint op) io n"
    by blast
  let ?q = "length A + 1 + length M"
  have t1: "es_text s1 = (A @ op # M) @ cl # N @ B" using moved_doc(1) [OF s1(1)] p(4) by simp
  have "es_text s1 ! ?q = cl" using nth_append_length [of "A @ op # M" cl "N @ B"] unfolding t1 by simp
  then have "count_nest cl op (es_text s1 ! ?q) n = n + 1" using p(1) by (simp add: count_nest_def)
  moreover have "?q < length (es_text s1)" unfolding t1 by simp
  ultimately obtain s2 where s2: "moved s1 (int ?q) s2"
      "match_loop s1 junk False (uint cl) (uint op) io n = match_loop s2 junk False (uint cl) (uint op) io (n + 1)"
    using match_backward_step [of s1 ?q cl op n junk io] p(2,3) moved_doc(3) [OF s1(1)] moved_off [OF s1(1)]
    by auto
  have m2: "moved s (int ?q) s2" by (rule moved_trans [OF s1(1) s2(1)])
  have t2: "es_text s2 = (A @ [op]) @ M @ (cl # N @ B)" using moved_doc(1) [OF m2] p(4) by simp
  from nested_pair.IH(1) [OF p(1) _ _ t2, of "n + 1"] obtain s3 where
    s3: "moved s2 (int (length (A @ [op]))) s3"
    "match_loop s2 junk False (uint cl) (uint op) io (n + 1) = match_loop s3 junk False (uint cl) (uint op) io (n + 1)"
    using p(2,3) moved_doc(3) [OF m2] moved_off [OF m2] by auto
  have m3: "moved s (int (length (A @ [op]))) s3" by (rule moved_trans [OF m2 s3(1)])
  have t3: "es_text s3 = A @ op # M @ cl # N @ B" using moved_doc(1) [OF m3] p(4) by simp
  have "count_nest cl op (es_text s3 ! length A) (n + 1) = n" using p(1) by (simp add: t3 count_nest_def)
  then obtain s4 where "moved s3 (int (length A)) s4"
    "match_loop s3 junk False (uint cl) (uint op) io (n + 1) = match_loop s4 junk False (uint cl) (uint op) io n"
    using match_backward_step [of s3 "length A" cl op "n + 1" junk io] p(2,3,5) t3
      moved_doc(3) [OF m3] moved_off [OF m3] by auto
  then show ?case using s1(2) s2(2) s3(2) moved_trans [OF m3] by auto
qed

lemma read_here:
  assumes "byte_window s" "off s = int p" "p < length (es_text s)"
  obtains b where "eb_read (es_b s) (nat (off s)) 1 = Some ([es_text s ! p], b)"
    "moved s (off s) (s\<lparr>es_b := b\<rparr>)"
  using read_byte [OF byte_windowD [OF assms(1)] assms(3)] that moved_read [OF byte_windowD [OF assms(1)]]
    assms(2) by (metis nat_int)

definition paren_pairs :: "(u8 \<times> u8) list" where
  "paren_pairs = [(40, 41), (91, 93), (123, 125)]"

lemma match_from_open:
  assumes "(op, cl) \<in> set paren_pairs" "nested op cl M" "byte_window s"
    "es_text s = A @ op # M @ cl # B" "off s = int (length A)"
  shows "\<exists>s'. do_match_parenthesis s junk = Some (True, s') \<and> moved s (int (length A + 1 + length M)) s'"
proof -
  have ne: "op \<noteq> cl" using assms(1) by (auto simp: paren_pairs_def)
  obtain b where b: "eb_read (es_b s) (nat (off s)) 1 = Some ([es_text s ! length A], b)"
    "moved s (off s) (s\<lparr>es_b := b\<rparr>)"
    using read_here [OF assms(3,5)] assms(4) by auto
  let ?s0 = "s\<lparr>es_b := b\<rparr>"
  let ?s1 = "goto_off ?s0 (off s + 1)"
  have m1: "moved s (off s + 1) ?s1" by (rule moved_trans [OF b(2) moved_goto [OF moved_doc(4) [OF b(2)]]])
  have t1: "es_text ?s1 = (A @ [op]) @ M @ (cl # B)" using moved_doc(1) [OF m1] assms(4) by simp
  obtain s2 where s2: "moved ?s1 (int (length (A @ [op]) + length M)) s2"
    "match_loop ?s1 junk True (uint op) (uint cl) (off s) 1 = match_loop s2 junk True (uint op) (uint cl) (off s) 1"
    using match_forward_nested [OF assms(2) ne, of 1 ?s1 "A @ [op]" "cl # B" junk "off s"]
      t1 moved_doc(3) [OF m1] assms(3,5) by auto
  let ?q = "length A + 1 + length M"
  have m2: "moved s (int ?q) s2" using moved_trans [OF m1 s2(1)] by simp
  have t2: "es_text s2 = (A @ op # M) @ cl # B" using moved_doc(1) [OF m2] assms(4) by simp
  have cl: "es_text s2 ! ?q = cl" using nth_append_length [of "A @ op # M" cl B] unfolding t2 by simp
  have w2: "byte_window s2" using moved_doc(3) [OF m2] assms(3) by simp
  have lt: "?q < length (es_text s2)" unfolding t2 by simp
  obtain s3 where s3: "nextc s2 junk (int ?q) = Some (uint cl, int (?q + 1), s3)" "moved s2 (off s2) s3"
    using nextc_byte [OF w2 lt] cl by metis
  have "uint op \<noteq> uint cl" using ne by (simp add: word_uint_eq_iff)
  then have loop: "match_loop s2 junk True (uint op) (uint cl) (off s) 1 = Some (True, s3)"
    using s3(1) moved_off [OF m2] by (subst match_loop.simps) simp
  have "do_match_parenthesis s junk = match_loop ?s1 junk True (uint op) (uint cl) (off s) 1"
    using assms(1,4,5) b(1) m1
    by (auto simp: do_match_parenthesis_def paren_pairs_def Let_def off_def [of "s\<lparr>es_b := b\<rparr>"]
        moved_off [OF b(2), unfolded off_def, simplified] off_def)
  then show ?thesis using s2(2) loop moved_trans [OF m2 s3(2)] moved_off [OF m2] by simp
qed

lemma match_from_close:
  assumes "(op, cl) \<in> set paren_pairs" "nested op cl M" "byte_window s"
    "es_text s = A @ op # M @ cl # B" "off s = int (length A + 1 + length M)"
  shows "\<exists>s'. do_match_parenthesis s junk = Some (True, s') \<and> moved s (int (length A)) s'"
proof -
  have ne: "op \<noteq> cl" using assms(1) by (auto simp: paren_pairs_def)
  let ?q = "length A + 1 + length M"
  have t: "es_text s = (A @ op # M) @ cl # B" using assms(4) by simp
  have cl: "es_text s ! ?q = cl" using nth_append_length [of "A @ op # M" cl B] unfolding t by simp
  have lt: "?q < length (es_text s)" unfolding t by simp
  obtain b where b: "eb_read (es_b s) (nat (off s)) 1 = Some ([cl], b)" "moved s (off s) (s\<lparr>es_b := b\<rparr>)"
    using read_here [OF assms(3,5) lt] cl by metis
  let ?s1 = "s\<lparr>es_b := b\<rparr>"
  have t1: "es_text ?s1 = (A @ [op]) @ M @ (cl # B)" using moved_doc(1) [OF b(2)] assms(4) by simp
  obtain s2 where s2: "moved ?s1 (int (length (A @ [op]))) s2"
    "match_loop ?s1 junk False (uint cl) (uint op) (off s) 1 = match_loop s2 junk False (uint cl) (uint op) (off s) 1"
    using match_backward_nested [OF assms(2) ne, of 1 ?s1 "A @ [op]" "cl # B" junk "off s"]
      t1 moved_doc(3) [OF b(2)] moved_off [OF b(2)] assms(3,5) by auto
  have m2: "moved s (int (Suc (length A))) s2" using moved_trans [OF b(2) s2(1)] by simp
  have w2: "byte_window s2" using moved_doc(3) [OF m2] assms(3) by simp
  have t2: "es_text s2 = A @ op # M @ cl # B" using moved_doc(1) [OF m2] assms(4) by simp
  obtain s3 where s3: "prevc s2 (int (Suc (length A))) = Some (uint op, int (length A), s3)" "moved s2 (off s2) s3"
    using prevc_byte [OF w2, of "length A"] unfolding t2 by auto
  let ?s4 = "goto_off s3 (int (length A))"
  have "uint op \<noteq> uint cl" using ne by (simp add: word_uint_eq_iff)
  then have loop: "match_loop s2 junk False (uint cl) (uint op) (off s) 1 = Some (True, ?s4)"
    using s3(1) moved_off [OF m2] by (subst match_loop.simps) simp
  have m4: "moved s (int (length A)) ?s4"
    by (rule moved_trans [OF moved_trans [OF m2 s3(2)] moved_goto [OF moved_doc(4) [OF s3(2)]]])
  have "do_match_parenthesis s junk = match_loop ?s1 junk False (uint cl) (uint op) (off s) 1"
    using assms(1,5) b(1) by (auto simp: do_match_parenthesis_def paren_pairs_def Let_def)
  then show ?thesis using s2(2) loop m4 by simp
qed

end
