(* ===== verification/Edit_Changes.thy ===== *)
theory Edit_Changes
  imports Edit_Moves
begin

text \<open>
  The editing commands in terms of the abstract buffer of \<open>Undo_Log\<close>: what inserting and
  deleting in a window leave as text, and what they keep.
\<close>

section \<open>What the editing operations keep\<close>

lemma eb_addlog_flags:
  assumes "eb_addlog b op p n = Some b'"
  shows "b_flags b' = b_flags b"
proof -
  have d: "b_flags b' = b_flags b" if "drop_least_recent l b = Some (l', b')" for l l' b b'
    using that by (cases "nb_logs b \<ge> NB_LOGS_MAX - 1")
      (auto simp: drop_least_recent_def Let_def bind_eq_Some_conv split del: if_split)
  have l: "b_flags b' = b_flags b" if "log_data l b op p n = Some (l', b', k)" for l l' b b' k
    using that insert_pages_more(2) [THEN more_eqD(9)]
    by (auto simp: log_data_def bind_eq_Some_conv split: if_splits)
  show ?thesis
    using assms by (auto simp: eb_addlog_def Let_def bind_eq_Some_conv dest!: d l split: if_splits)
qed

lemma eb_insert_flags: "eb_insert b p bs = Some b' \<Longrightarrow> b_flags b' = b_flags b"
  using eb_insert_lowlevel_more [THEN more_eqD(9)] eb_addlog_flags
  by (fastforce simp: eb_insert_def bind_eq_Some_conv)

lemma eb_delete_flags: "eb_delete b p n = Some b' \<Longrightarrow> b_flags b' = b_flags b"
  using delete_pages_more [THEN more_eqD(9)] eb_addlog_flags
  by (fastforce simp: eb_delete_def Let_def bind_eq_Some_conv split: if_splits)

interpretation any_page: page_pred "\<lambda>_. True"
  by unfold_locales simp_all

lemma all_True: "list_all (\<lambda>_. True) xs"
  by (simp add: list_all_iff)

lemmas eb_insert_view = any_page.eb_insert_all [OF _ all_True, THEN conjunct2]
lemmas eb_delete_view = any_page.eb_delete_all [OF _ all_True, THEN conjunct2]

section \<open>Windows on abstract buffers\<close>

text \<open>The window's buffer represents the text \<open>t\<close>, which has room to grow.\<close>

definition holds_text :: "EditState \<Rightarrow> u8 list \<Rightarrow> bool" where
  "holds_text s t \<longleftrightarrow> (\<exists>a. refines (es_b s) a \<and> a_text a = t)"

definition same_setup :: "EditState \<Rightarrow> EditState \<Rightarrow> bool" where
  "same_setup s s' \<longleftrightarrow> view (es_b s') = view (es_b s) \<and> b_flags (es_b s') = b_flags (es_b s) \<and>
     s' = s\<lparr>es_b := es_b s'\<rparr>"

lemma same_setup_trans: "same_setup s s1 \<Longrightarrow> same_setup s1 s2 \<Longrightarrow> same_setup s s2"
  by (cases s; cases s1; cases s2) (simp add: same_setup_def)

lemma same_setupD:
  assumes "same_setup s s'"
  shows "charset (es_b s') = charset (es_b s)" "charset_state (es_b s') = charset_state (es_b s)"
    "read_only s' = read_only s" "input_method s' = input_method s" "compose_buf s' = compose_buf s"
    "es_insert s' = es_insert s" "compose_start_offset s' = compose_start_offset s"
  using assms by (cases s; cases s'; simp add: same_setup_def view_def read_only_def)+

lemma holds_textD: "holds_text s t \<Longrightarrow> buf_ok (es_b s) \<and> es_text s = t"
  using refinesD by (auto simp: holds_text_def)

lemma holds_goto: "holds_text s t \<Longrightarrow> holds_text (goto_off s p) t"
  using refines_tracked by (fastforce simp: holds_text_def set_tracked_def)

lemma setup_goto: "same_setup s (goto_off s p)"
  by (simp add: same_setup_def set_tracked_def)

lemma refines_same_doc: "refines b a \<Longrightarrow> same_doc b b' \<Longrightarrow> refines b' a"
  using refines_textI [of b a b' "a_text a"] refinesD [of b a]
  by (auto simp: same_doc_def same_text_def contents_def)

lemma holds_moved:
  assumes "holds_text s t" "moved s p s'"
  shows "holds_text s' t" "same_setup s s'"
proof -
  obtain b where b: "same_doc (es_b s) b" "s' = goto_off (s\<lparr>es_b := b\<rparr>) p"
    using assms(2) by (auto simp: moved_def)
  have "holds_text (s\<lparr>es_b := b\<rparr>) t"
    using assms(1) refines_same_doc [OF _ b(1)] by (auto simp: holds_text_def)
  then show "holds_text s' t" unfolding b(2) by (rule holds_goto)
  show "same_setup s s'"
    using b same_docD(4,5) [OF b(1)] same_doc_fields(2) [OF b(1)]
    by (simp add: same_setup_def set_tracked_def view_def)
qed

lemma callbacks_insert_behind: "m a \<le> p \<Longrightarrow> call_callbacks l m LOGOP_INSERT p n a = m a"
proof (induction l arbitrary: m)
  case (Cons x l)
  have "eb_offset_callback m x LOGOP_INSERT p n a = m a"
    using Cons.prems by (auto simp: eb_offset_callback_def)
  then show ?case using Cons by simp
qed simp

text \<open>The cursor stays in front of what is inserted at it.\<close>

lemma insert_at_text:
  assumes "holds_text s t" "p \<le> length t" "length t + length bs < 2147483648"
  obtains s' where "insert_at s (int p) bs = Some s'" "holds_text s' (list_insert p bs t)" "same_setup s s'"
    "off s \<le> int p \<longrightarrow> off s' = off s"
proof -
  obtain a where a: "refines (es_b s) a" "a_text a = t" using assms(1) by (auto simp: holds_text_def)
  obtain b where b: "eb_insert (es_b s) p bs = Some b" "refines b (a_insert a p bs)"
    using eb_insert_refines [OF a(1)] a(2) assms(2,3) by auto
  have "same_setup s (s\<lparr>es_b := b\<rparr>)"
    using eb_insert_view [OF b(1)] eb_insert_flags [OF b(1)] by (simp add: same_setup_def)
  moreover have "holds_text (s\<lparr>es_b := b\<rparr>) (list_insert p bs t)"
    using b(2) a(2) by (auto simp: holds_text_def intro!: exI [of _ "a_insert a p bs"])
  moreover have "off s \<le> int p \<longrightarrow> off (s\<lparr>es_b := b\<rparr>) = off s"
    using refines_docD(4) [OF refinesD(1) [OF b(2)]] refines_docD(4) [OF refinesD(1) [OF a(1)]]
    by (simp add: a_insert_def a_addlog_def Let_def off_def callbacks_insert_behind)
  ultimately show thesis using that b(1) by (simp add: insert_at_def)
qed

lemma delete_at_text:
  assumes "holds_text s t" "p + n \<le> length t" "length t < 2147483648"
  obtains s' where "delete_at s (int p) (int n) = Some s'" "holds_text s' (list_delete p n t)" "same_setup s s'"
    "p < length t \<longrightarrow> tracked (es_b s') =
      call_callbacks (callbacks (es_b s)) (tracked (es_b s)) LOGOP_DELETE (int p) (int n)"
proof -
  obtain a where a: "refines (es_b s) a" "a_text a = t" using assms(1) by (auto simp: holds_text_def)
  obtain b where b: "eb_delete (es_b s) p n = Some b" "refines b (a_delete a p n)"
    using eb_delete_refines [OF a(1)] a(2) assms(2,3) by auto
  have "same_setup s (s\<lparr>es_b := b\<rparr>)"
    using eb_delete_view [OF b(1)] eb_delete_flags [OF b(1)] by (simp add: same_setup_def)
  moreover have "holds_text (s\<lparr>es_b := b\<rparr>) (list_delete p n t)"
    using b(2) a(2) assms(2) by (auto simp: holds_text_def intro!: exI [of _ "a_delete a p n"])
  moreover have "p < length t \<longrightarrow> tracked b =
      call_callbacks (callbacks (es_b s)) (tracked (es_b s)) LOGOP_DELETE (int p) (int n)"
    using refines_docD(4) [OF refinesD(1) [OF b(2)]] refines_docD(4,5) [OF refinesD(1) [OF a(1)]] a(2)
    by (simp add: a_delete_def a_addlog_def Let_def)
  ultimately show thesis using that b(1) by (simp add: delete_at_def)
qed

lemma call_callbacks_other: "a \<notin> set l \<Longrightarrow> call_callbacks l m op p n a = m a"
  by (induction l arbitrary: m) (auto simp: eb_offset_callback_def Let_def split: LogOperation.split)

text \<open>A tracked position inside a deleted range ends up at its beginning.\<close>

lemma callbacks_delete_inside:
  "a \<in> set l \<Longrightarrow> p \<le> m a \<Longrightarrow> m a \<le> p + n \<Longrightarrow> call_callbacks l m LOGOP_DELETE p n a = p"
proof (induction l arbitrary: m)
  case (Cons x l)
  let ?m = "eb_offset_callback m x LOGOP_DELETE p n"
  have x: "?m a = (if x = a then p else m a)" if "x = a \<or> True"
    using Cons.prems(2,3) by (auto simp: eb_offset_callback_def Let_def)
  show ?case
  proof (cases "a \<in> set l")
    case True
    then show ?thesis using Cons.IH [OF True, of ?m] Cons.prems(2,3) x by (auto split: if_splits)
  next
    case False
    then show ?thesis using Cons.prems(1) x by (simp add: call_callbacks_other)
  qed
qed simp

end
