(* ===== verification/Edit_Theorems.thy ===== *)
theory Edit_Theorems
  imports Edit_Match Edit_Changes
begin

text \<open>
  The properties of the editing commands: word movement, matching parentheses, transposing,
  typing and taking back, killing and yanking.
\<close>

section \<open>Characters of a window\<close>

definition wf_window :: "EditState \<Rightarrow> bool" where
  "wf_window s \<longleftrightarrow> wf_charset (es_b s)"

lemma utf8_cont_total: "k \<le> length bs \<Longrightarrow> utf8_cont k c bs \<noteq> None"
  by (induction k c bs rule: utf8_cont.induct) auto

lemma utf8_length_le: "utf8_length c \<le> MAX_CHAR_BYTES"
  by (simp add: utf8_length_eq length_class_def MAX_CHAR_BYTES_def)

lemma utf8_decode_returns: "MAX_CHAR_BYTES \<le> length bs \<Longrightarrow> utf8_decode bs \<noteq> None"
proof (cases bs)
  case (Cons c p)
  assume "MAX_CHAR_BYTES \<le> length bs"
  then have "utf8_cont (utf8_length c - 1) x p \<noteq> None" for x
    using utf8_length_le [of c] Cons by (intro utf8_cont_total) (simp add: MAX_CHAR_BYTES_def)
  from this [of "ucast (c AND first_code_mask (utf8_length c))"] show ?thesis
    unfolding Cons utf8_decode_def Let_def by (auto split: option.splits)
qed (simp add: MAX_CHAR_BYTES_def)

lemma charset_decode_total:
  "MAX_CHAR_BYTES \<le> length bs \<Longrightarrow> charset_decode (charset_decode_init cs) bs \<noteq> None"
proof -
  assume l: "MAX_CHAR_BYTES \<le> length bs"
  then obtain c p where bs: "bs = c # p" by (cases bs) (auto simp: MAX_CHAR_BYTES_def)
  show ?thesis
  proof (cases "cs = Charset_utf8")
    case True
    then show ?thesis using utf8_decode_returns [OF l] charset_decode_utf8 by metis
  next
    case False
    then show ?thesis by (cases cs) (simp_all add: bs idem_decode)
  qed
qed

text \<open>With a full local array, the next character of a good buffer can always be read.\<close>

lemma nextc_total:
  assumes "holds_text s t" "wf_window s" "p \<le> length t" "MAX_CHAR_BYTES \<le> Suc (length junk)"
  obtains c q s' where "nextc s junk (int p) = Some (c, q, s')" "moved s (off s) s'"
proof (cases "p = length t")
  case True
  then show ?thesis
    using nextc_end [of s junk] holds_textD [OF assms(1)] moved_refl [of s] that by auto
next
  case False
  let ?b = "es_b s"
  have lt: "p < length t" using False assms(3) by simp
  have ok: "buf_ok ?b" "contents ?b = t" using holds_textD [OF assms(1)] by auto
  define buf where "buf = list_slice p MAX_CHAR_BYTES (contents ?b) @
       drop (length (list_slice (p + 1) (MAX_CHAR_BYTES - 1) (contents ?b))) junk"
  obtain k where k: "length t - p = Suc k" "length t - Suc p = k" using lt by (metis Suc_diff_Suc)
  have "MAX_CHAR_BYTES \<le> length buf"
    using k assms(4) ok(2) by (simp add: buf_def list_slice_def MAX_CHAR_BYTES_def min_def)
  then obtain c r where "charset_decode (charset_state ?b) buf = Some (c, r)"
    using charset_decode_total [of buf "charset ?b"] assms(2) by (auto simp: wf_window_def wf_charset_def)
  then obtain b where "eb_nextc ?b junk (int p) = Some (c, int p + int (length buf - length r), b)" "same_doc ?b b"
    using eb_nextc_decode [OF ok(1) _ buf_def] False assms(3) ok(2) by (metis le_neq_implies_less)
  then show ?thesis using that moved_read [OF ok(1)] by (simp add: nextc_def)
qed

lemma prevc_encoded:
  assumes "buf_ok (es_b s)" "wf_window s" "representable (charset (es_b s)) c"
    "encode_func (charset (es_b s)) c = Some e" "es_text s = A @ e @ B"
  obtains s' where "prevc s (int (length A + length e)) = Some (c, int (length A), s')" "moved s (off s) s'"
proof (cases "charset (es_b s) = Charset_utf8")
  case True
  then have e: "e = utf8_encode c" "utf8_valid c"
    using assms(3,4) by (simp_all add: encode_utf8_def split: if_splits)
  then show thesis
    using eb_prevc_char [OF assms(1) True, of A c B] assms(5) that moved_read [OF assms(1)]
    by (auto simp: prevc_def)
next
  case False
  then have e: "e = [byte c]" "0 \<le> c" "c < 256"
    using assms(3,4) by (cases "charset (es_b s)"; simp add: encode_8859_1_def encode_7bit_def split: if_splits)+
  have w: "byte_window s" using assms(1,2) False by (simp add: byte_window_def wf_window_def)
  obtain s1 where "prevc s (int (Suc (length A))) = Some (uint (byte c), int (length A), s1)" "moved s (off s) s1"
    using prevc_byte [OF w, of "length A"] assms(5) e(1) by auto
  then show thesis using that e by (simp add: uint_byte)
qed

section \<open>Properties\<close>

text \<open>Word movement. In a charset of one byte per character, moving right by a word
  skips the bytes that are not of words and then the bytes that are; moving left does the
  same backwards. Both always end inside the text and do not change it.\<close>

theorem word_motion:
  assumes "byte_window s" "off s = int p" "p \<le> length (es_text s)"
  shows "(\<exists>s'. text_move_word_left_right s junk 1 = Some s' \<and> es_text s' = es_text s \<and>
      off s' = int (scan word_byte (es_text s) (scan (Not \<circ> word_byte) (es_text s) p))) \<and>
    (\<exists>s'. text_move_word_left_right s junk (-1) = Some s' \<and> es_text s' = es_text s \<and>
      off s' = int (scan_back word_byte (es_text s) (scan_back (Not \<circ> word_byte) (es_text s) p)))"
proof
  obtain s1 where s1: "word_right s junk True = Some s1"
    "moved s (int (scan (Not \<circ> word_byte) (es_text s) p)) s1"
    using word_right_scan [OF assms, of junk True] by (auto simp: comp_def)
  obtain s2 where "word_right s1 junk False = Some s2"
    "moved s1 (int (scan word_byte (es_text s) (scan (Not \<circ> word_byte) (es_text s) p))) s2"
    using word_right_scan [of s1 "scan (Not \<circ> word_byte) (es_text s) p" junk False]
      assms(1) moved_doc(1,3) [OF s1(2)] moved_off [OF s1(2)] scan_le [OF assms(3)] by auto
  then show "\<exists>s'. text_move_word_left_right s junk 1 = Some s' \<and> es_text s' = es_text s \<and>
      off s' = int (scan word_byte (es_text s) (scan (Not \<circ> word_byte) (es_text s) p))"
    using s1 moved_doc(1) [OF moved_trans [OF s1(2)]] moved_off
    by (auto simp: text_move_word_left_right_def)
next
  obtain s1 where s1: "word_left s True = Some s1"
    "moved s (int (scan_back (Not \<circ> word_byte) (es_text s) p)) s1"
    using word_left_scan [OF assms, of True] by (auto simp: comp_def)
  obtain s2 where "word_left s1 False = Some s2"
    "moved s1 (int (scan_back word_byte (es_text s) (scan_back (Not \<circ> word_byte) (es_text s) p))) s2"
    using word_left_scan [of s1 "scan_back (Not \<circ> word_byte) (es_text s) p" False]
      assms(1,3) moved_doc(1,3) [OF s1(2)] moved_off [OF s1(2)] scan_back_le [of "Not \<circ> word_byte" "es_text s" p]
    by auto
  then show "\<exists>s'. text_move_word_left_right s junk (-1) = Some s' \<and> es_text s' = es_text s \<and>
      off s' = int (scan_back word_byte (es_text s) (scan_back (Not \<circ> word_byte) (es_text s) p))"
    using s1 moved_doc(1) [OF moved_trans [OF s1(2)]] moved_off
    by (auto simp: text_move_word_left_right_def)
qed

text \<open>A window on a fresh buffer with the given pages.\<close>

definition window_of :: "u8 list list \<Rightarrow> QECharset \<Rightarrow> int \<Rightarrow> EditState" where
  "window_of ds cs p = goto_off
     \<lparr>es_b = eb_add_callback (buffer_of ds cs) OFFSET, es_insert = True, input_method = None,
      compose_buf = [], compose_start_offset = 0\<rparr> p"

lemma window_of_simps [simp]:
  "es_text (window_of ds cs p) = concat ds" "off (window_of ds cs p) = p"
  "charset (es_b (window_of ds cs p)) = cs" "wf_window (window_of ds cs p)"
  "compose_buf (window_of ds cs p) = []" "es_insert (window_of ds cs p)"
  "input_method (window_of ds cs p) = None"
  "mark (window_of ds cs p) = 0" "\<not> read_only (window_of ds cs p)"
  "OFFSET \<in> set (callbacks (es_b (window_of ds cs p)))"
  by (simp_all add: window_of_def eb_add_callback_def contents_def wf_window_def wf_charset_def
      set_tracked_def off_def mark_def read_only_def buffer_of_def eb_set_charset_def alloc_buffer_def
      MARK_def OFFSET_def page_of_def comp_def)

lemma holds_window_of:
  assumes "list_all (\<lambda>d. d \<noteq> [] \<and> length d \<le> MAX_PAGE_SIZE) ds"
  shows "holds_text (window_of ds cs p) (concat ds)"
proof -
  let ?b = "eb_add_callback (buffer_of ds cs) OFFSET"
  have "refines ?b \<lparr>a_text = concat ds, a_tracked = (\<lambda>_. 0), a_callbacks = [OFFSET, 0], a_modified = False,
    a_save = False, a_log = [], a_cur = None\<rparr>"
    using buf_ok_buffer_of [OF assms, of cs] contents_buffer_of [of ds cs]
    by (simp add: refines_def refines_doc_def buf_ok_def eb_add_callback_def contents_def cache_ok_def
        log_rep_def cur_rep_def buffer_of_def eb_set_charset_def alloc_buffer_def)
  then show ?thesis
    unfolding window_of_def by (intro holds_goto) (auto simp: holds_text_def)
qed

lemma byte_window_of:
  assumes "list_all (\<lambda>d. d \<noteq> [] \<and> length d \<le> MAX_PAGE_SIZE) ds" "cs \<noteq> Charset_utf8"
  shows "byte_window (window_of ds cs p)"
  using holds_textD [OF holds_window_of [OF assms(1), of cs p]] assms(2)
  by (simp add: byte_window_def wf_window_def [symmetric])

lemma word_motion_witness:
  "\<exists>s'. text_move_word_left_right (window_of [[97, 32], [98, 99, 33]] Charset_8859_1 1) [] 1 = Some s' \<and> off s' = 4"
proof -
  let ?s = "window_of [[97, 32], [98, 99, 33]] Charset_8859_1 1"
  have "byte_window ?s" by (rule byte_window_of) (simp_all add: MAX_PAGE_SIZE_def)
  from word_motion [OF this, of 1 "[]"] show ?thesis
    by (auto simp: scan_def word_byte_def isword_def)
qed



lemma delete_inserted: "p \<le> length t \<Longrightarrow> list_delete p (length e) (list_insert p e t) = t"
  by (simp add: list_insert_def list_delete_def)

lemma wf_setup: "same_setup s s' \<Longrightarrow> wf_window s' = wf_window s"
  using same_setupD(1,2) [of s s'] by (simp add: wf_window_def wf_charset_def)

text \<open>C34. Typing and taking back. In every charset, typing a character that it can represent in
  at most five bytes,
  in insert mode and without an input method, inserts its encoding at the cursor and moves the cursor
  behind it; backspace then takes away the whole character and restores text and cursor.\<close>

theorem type_then_backspace:
  assumes "holds_text s t" "wf_window s" "off s = int p" "p \<le> length t"
    and "es_insert s" "input_method s = None" "compose_buf s = []"
    and "representable (charset (es_b s)) key" "encode_func (charset (es_b s)) key = Some e"
    and "length t + length e < 2147483648" "MAX_CHAR_BYTES \<le> Suc (length junk)"
    and "length e < MAX_CHAR_BYTES"
  shows "\<exists>s1 s2. text_write_char s junk key = Some s1 \<and> es_text s1 = take p t @ e @ drop p t \<and>
    off s1 = int (p + length e) \<and> do_backspace s1 = Some s2 \<and> es_text s2 = t \<and> off s2 = off s"
proof -
  obtain c q s0 where n: "nextc s junk (int p) = Some (c, q, s0)" "moved s (off s) s0"
    using nextc_total [OF assms(1,2,4,11)] .
  note h0 = holds_moved [OF assms(1) n(2)]
  note p0 = same_setupD [OF h0(2)]
  have off0: "off s0 = int p" using moved_off [OF n(2)] assms(3) by simp
  have ch: "charset (es_b s0) = charset (es_b s)" by (rule p0(1))
  have e: "char_bytes key (charset (es_b s0)) = Some e"
    using assms(9,12) ch by (simp add: char_bytes_def unicode_to_charset_def)
  let ?s0 = "s0\<lparr>compose_start_offset := off s0\<rparr>"
  have hs: "holds_text ?s0 t" using h0(1) by (simp add: holds_text_def)
  obtain s1 where s1: "insert_at ?s0 (int p) e = Some s1" "holds_text s1 (list_insert p e t)" "same_setup ?s0 s1"
    "off ?s0 \<le> int p \<longrightarrow> off s1 = off ?s0"
    by (rule insert_at_text [OF hs assms(4,10)])
  note p1 = same_setupD [OF s1(3)]
  have none: "e \<noteq> []" using charset_codec [OF assms(8)] assms(9) by auto
  have off1: "off s1 = int p" using s1(4) off0 by (simp add: off_def)
  define s2 where "s2 = (goto_off s1 (int (p + length e)))\<lparr>compose_buf := []\<rparr>"
  have typed: "text_write_char s junk key = Some s2"
    using n(1) s1(1) assms(3,5-7) p0(4-6) p1(4-6) e off0 off1
    by (simp add: text_write_char_def Let_def COMPOSE_MAX_def compose_loop.simps s2_def)
  have h2: "holds_text s2 (list_insert p e t)"
    using holds_goto [OF s1(2)] by (simp add: s2_def holds_text_def)
  have wf2: "wf_window s2"
    using assms(2) wf_setup [OF h0(2)] wf_setup [OF s1(3)] wf_setup [OF setup_goto [of s1]]
    by (simp add: s2_def wf_window_def)
  have ch2: "charset (es_b s2) = charset (es_b s)" using p1(1) ch by (simp add: s2_def set_tracked_def)
  have t2: "es_text s2 = take p t @ e @ drop p t" using holds_textD [OF h2] by (simp add: list_insert_def)
  have len: "int (length (take p t) + length e) = int (p + length e)" "int (length (take p t)) = int p"
    using assms(4) by simp_all
  obtain s3 where s3: "prevc s2 (int (p + length e)) = Some (key, int p, s3)" "moved s2 (off s2) s3"
    using prevc_encoded [OF _ wf2, of key e "take p t" "drop p t"] ch2 assms(8,9) t2 holds_textD [OF h2]
    unfolding len by metis
  have off2: "off s2 = int (p + length e)" by (simp add: s2_def off_def set_tracked_def)
  note h3 = holds_moved(1) [OF h2 s3(2)]
  have "p + length e \<le> length (list_insert p e t)" "length (list_insert p e t) < 2147483648"
    using assms(4,10) by simp_all
  then obtain s4 where s4: "delete_at s3 (int p) (int (length e)) = Some s4"
    "holds_text s4 (list_delete p (length e) (list_insert p e t))"
    using delete_at_text [OF h3] by metis
  have "do_backspace s2 = Some ((goto_off s4 (int p))\<lparr>compose_buf := butlast (compose_buf s4)\<rparr>)"
    using s3(1) s4(1) off2 moved_off [OF s3(2)] none
    by (simp add: do_backspace_def set_tracked_def)
  moreover have "es_text ((goto_off s4 (int p))\<lparr>compose_buf := butlast (compose_buf s4)\<rparr>) = t"
    using holds_textD [OF s4(2)] delete_inserted [OF assms(4)] by (simp add: set_tracked_def)
  ultimately show ?thesis
    using typed t2 off2 assms(3) by (auto simp: off_def set_tracked_def)
qed

lemma type_then_backspace_witness:
  "\<exists>s1. text_write_char (window_of [[97, 98]] Charset_utf8 1) (replicate 5 0) 0x20ac = Some s1 \<and>
     es_text s1 = [97, 0xe2, 0x82, 0xac, 98]"
proof -
  let ?s = "window_of [[97, 98]] Charset_utf8 1"
  have h: "holds_text ?s [97, 98]" using holds_window_of [of "[[97, 98]]"] by (simp add: MAX_PAGE_SIZE_def)
  have e: "encode_func Charset_utf8 0x20ac = Some [0xe2, 0x82, 0xac]" by code_simp
  have v: "representable Charset_utf8 0x20ac" by (simp add: utf8_valid_def)
  show ?thesis
    using type_then_backspace [OF h, where p = 1 and key = "0x20ac" and e = "[0xe2, 0x82, 0xac]"
        and junk = "replicate 5 0"] e v
    by (auto simp: MAX_CHAR_BYTES_def)
qed

lemma moved_callbacks: "moved s p s' \<Longrightarrow> callbacks (es_b s') = callbacks (es_b s)"
  using same_doc_fields(3) by (auto simp: moved_def set_tracked_def)

lemma list_swap:
  "q + n \<le> length t \<Longrightarrow> list_insert q bs (list_delete q n t) = take q t @ bs @ drop (q + n) t"
  by (simp add: list_insert_def list_delete_def)

text \<open>What the command does, whatever the character before the cursor is.\<close>

lemma transpose_text:
  assumes "holds_text s t" "off s = int p" "OFFSET \<in> set (callbacks (es_b s))" "length t < 2147483648"
    "prevc s (int p) = Some (c, int q, s0)" "moved s (off s) s0" "q < p" "p < length t"
  shows "\<exists>s'. do_transpose_char s = Some s' \<and> off s' = int p \<and>
    es_text s' = take q t @ [t ! Suc q, t ! q] @ drop (Suc p) t"
proof -
  note h0 = holds_moved(1) [OF assms(1,6)]
  have ok0: "buf_ok (es_b s0)" "es_text s0 = t" using holds_textD [OF h0] by auto
  have off0: "off s0 = int p" using moved_off [OF assms(6)] assms(2) by simp
  have "list_slice q 2 t = [t ! q, t ! Suc q]"
    using assms(7,8) by (simp add: list_slice_def Cons_nth_drop_Suc [symmetric] numeral_2_eq_2)
  then obtain b where b: "eb_read (es_b s0) q 2 = Some ([t ! q, t ! Suc q], b)" "same_doc (es_b s0) b"
    using read_doc [OF ok0(1), of q 2] ok0(2) by metis
  define s1 where "s1 = s0\<lparr>es_b := b\<rparr>"
  have m1: "moved s0 (off s0) s1" unfolding s1_def by (rule moved_read [OF ok0(1) b(2)])
  note h1 = holds_moved(1) [OF h0 m1]
  have off1: "off s1 = int p" using moved_off [OF m1] off0 by simp
  have cb: "OFFSET \<in> set (callbacks (es_b s1))"
    using moved_callbacks [OF m1] moved_callbacks [OF assms(6)] assms(3) by simp
  have n: "q + (p - q + 1) \<le> length t" using assms(7,8) by simp
  obtain s2 where s2: "delete_at s1 (int q) (int (p - q + 1)) = Some s2"
    "holds_text s2 (list_delete q (p - q + 1) t)"
    "tracked (es_b s2) = call_callbacks (callbacks (es_b s1)) (tracked (es_b s1)) LOGOP_DELETE (int q) (int (p - q + 1))"
    using delete_at_text [OF h1 n assms(4)] assms(7,8) by (metis less_trans)
  have off2: "off s2 = int q"
    unfolding off_def s2(3) using off1 assms(7) by (intro callbacks_delete_inside cb) (simp_all add: off_def)
  have "q \<le> length (list_delete q (p - q + 1) t)"
    "length (list_delete q (p - q + 1) t) + length [t ! Suc q, t ! q] < 2147483648"
    using assms(4,7,8) by simp_all
  then obtain s3 where s3: "insert_at s2 (int q) [t ! Suc q, t ! q] = Some s3"
    "holds_text s3 (list_insert q [t ! Suc q, t ! q] (list_delete q (p - q + 1) t))"
    using insert_at_text [OF s2(2)] by metis
  have n': "int p - int q + 1 = int (p - q + 1)" using assms(7) by simp
  have "do_transpose_char s = Some (goto_off s3 (int p))"
    unfolding do_transpose_char_def Let_def
    using assms(2,5,7) b(1) s1_def [symmetric] off1 s2(1) off2 s3(1)
    by (simp add: n' del: of_nat_add of_nat_Suc)
  then show ?thesis
    using holds_textD [OF s3(2)] list_swap [OF n] assms(7) by simp
qed

text \<open>Transposing characters. In a charset of one byte per character, between two
  characters of the text the command swaps them and leaves the cursor where it is.\<close>

theorem transpose_swaps:
  assumes "holds_text s t" "byte_window s" "off s = int (Suc p)" "Suc p < length t"
    "OFFSET \<in> set (callbacks (es_b s))" "length t < 2147483648"
  shows "\<exists>s'. do_transpose_char s = Some s' \<and> off s' = off s \<and>
    es_text s' = take p t @ [t ! Suc p, t ! p] @ drop (p + 2) t"
proof -
  have "p < length (es_text s)" using assms(4) holds_textD [OF assms(1)] by simp
  then obtain s0 where "prevc s (int (Suc p)) = Some (uint (es_text s ! p), int p, s0)" "moved s (off s) s0"
    using prevc_byte [OF assms(2)] by blast
  from transpose_text [OF assms(1,3,5,6) this] show ?thesis using assms(3,4) by simp
qed

lemma transpose_swaps_witness:
  "\<exists>s'. do_transpose_char (window_of [[97, 98, 99]] Charset_8859_1 2) = Some s' \<and> es_text s' = [97, 99, 98]"
proof -
  let ?s = "window_of [[97, 98, 99]] Charset_8859_1 2"
  have h: "holds_text ?s [97, 98, 99]" using holds_window_of [of "[[97, 98, 99]]"] by (simp add: MAX_PAGE_SIZE_def)
  have b: "byte_window ?s" by (rule byte_window_of) (simp_all add: MAX_PAGE_SIZE_def)
  show ?thesis using transpose_swaps [OF h b, of 1] by (auto simp: numeral_2_eq_2)
qed

text \<open>Transposing loses text. Behind a character of several bytes in UTF-8 the command
  swaps the first two bytes of that character and drops its other bytes and the whole byte
  after the cursor; at the end of the text, in a charset of one byte per character, it deletes
  and inserts beyond the end: no result.\<close>

theorem transpose_breaks:
  assumes "holds_text s t" "OFFSET \<in> set (callbacks (es_b s))" "length t < 2147483648"
  shows "(charset (es_b s) = Charset_utf8 \<and> wf_window s \<and> utf8_valid c \<and> 1 < length (utf8_encode c) \<and>
      t = A @ utf8_encode c @ x # B \<and> off s = int (length A + length (utf8_encode c)) \<longrightarrow>
      (\<exists>s'. do_transpose_char s = Some s' \<and>
        es_text s' = A @ [utf8_encode c ! 1, utf8_encode c ! 0] @ B)) \<and>
    (byte_window s \<and> t \<noteq> [] \<and> off s = int (length t) \<longrightarrow> do_transpose_char s = None)"
proof (rule conjI)
  show "charset (es_b s) = Charset_utf8 \<and> wf_window s \<and> utf8_valid c \<and> 1 < length (utf8_encode c) \<and>
      t = A @ utf8_encode c @ x # B \<and> off s = int (length A + length (utf8_encode c)) \<longrightarrow>
      (\<exists>s'. do_transpose_char s = Some s' \<and>
        es_text s' = A @ [utf8_encode c ! 1, utf8_encode c ! 0] @ B)"
  proof (intro impI, elim conjE)
    assume u: "charset (es_b s) = Charset_utf8" "wf_window s" "utf8_valid c" "1 < length (utf8_encode c)"
      "t = A @ utf8_encode c @ x # B" "off s = int (length A + length (utf8_encode c))"
    obtain s0 where "prevc s (int (length A + length (utf8_encode c))) = Some (c, int (length A), s0)" "moved s (off s) s0"
      using prevc_encoded [of s c "utf8_encode c" A "x # B"] u holds_textD [OF assms(1)]
      by (auto simp: encode_utf8_def)
    from transpose_text [OF assms(1) u(6) assms(2,3) this] obtain s' where
      "do_transpose_char s = Some s'"
      "es_text s' = take (length A) t @ [t ! Suc (length A), t ! length A] @ drop (Suc (length A + length (utf8_encode c))) t"
      using u(4,5) by auto
    then show "\<exists>s'. do_transpose_char s = Some s' \<and>
        es_text s' = A @ [utf8_encode c ! 1, utf8_encode c ! 0] @ B"
      using u(4,5) by (auto simp: nth_append)
  qed
  show "byte_window s \<and> t \<noteq> [] \<and> off s = int (length t) \<longrightarrow> do_transpose_char s = None"
  proof (intro impI, elim conjE)
    assume e: "byte_window s" "t \<noteq> []" "off s = int (length t)"
    obtain p where p: "length t = Suc p" using e(2) by (cases t) auto
    then have lt: "p < length (es_text s)" using holds_textD [OF assms(1)] by simp
    obtain s0 where s0: "prevc s (int (Suc p)) = Some (uint (es_text s ! p), int p, s0)" "moved s (off s) s0"
      using prevc_byte [OF e(1) lt] by blast
    have ok0: "buf_ok (es_b s0)" "es_text s0 = t"
      using moved_doc(1,4) [OF s0(2)] holds_textD [OF assms(1)] by auto
    obtain b where b: "eb_read (es_b s0) p 2 = Some (list_slice p 2 t, b)" "same_doc (es_b s0) b"
      using read_doc [OF ok0(1), of p 2] ok0(2) by metis
    have off0: "off s0 = int (Suc p)" using moved_off [OF s0(2)] e(3) p by simp
    then have "off (s0\<lparr>es_b := b\<rparr>) = int (Suc p)"
      using moved_off [OF moved_read [OF ok0(1) b(2)]] by simp
    moreover have "length (list_slice p 2 t) \<noteq> 2" using p by (simp add: list_slice_def)
    ultimately show "do_transpose_char s = None"
      using s0(1) b(1) e(3) p by (simp add: do_transpose_char_def Let_def guard_def)
  qed
qed

lemma transpose_breaks_witness:
  "(\<exists>s'. do_transpose_char (window_of [[0xe2, 0x82, 0xac, 97]] Charset_utf8 3) = Some s' \<and> es_text s' = [0x82, 0xe2]) \<and>
   do_transpose_char (window_of [[97, 98]] Charset_8859_1 2) = None"
proof
  let ?s = "window_of [[0xe2, 0x82, 0xac, 97]] Charset_utf8 3"
  have h: "holds_text ?s [0xe2, 0x82, 0xac, 97]"
    using holds_window_of [of "[[0xe2, 0x82, 0xac, 97]]"] by (simp add: MAX_PAGE_SIZE_def)
  have e: "utf8_encode 0x20ac = [0xe2, 0x82, 0xac]" by code_simp
  show "\<exists>s'. do_transpose_char ?s = Some s' \<and> es_text s' = [0x82, 0xe2]"
    using transpose_breaks [OF h, where c = "0x20ac" and A = "[]" and B = "[]" and x = 97] e
    by (auto simp: utf8_valid_def)
next
  let ?s = "window_of [[97, 98]] Charset_8859_1 2"
  have h: "holds_text ?s [97, 98]" using holds_window_of [of "[[97, 98]]"] by (simp add: MAX_PAGE_SIZE_def)
  have b: "byte_window ?s" by (rule byte_window_of) (simp_all add: MAX_PAGE_SIZE_def)
  show "do_transpose_char ?s = None" using transpose_breaks [OF h] b by simp
qed

text \<open>Return in a read-only buffer. Nothing is inserted there, but the cursor still moves
  on by a byte, at the end of the text to a position behind it.\<close>

theorem return_read_only:
  assumes "read_only s" "off s = es_size s"
  shows "\<exists>s'. do_return s = Some s' \<and> es_b s' = (es_b s)\<lparr>tracked := (tracked (es_b s))(OFFSET := es_size s + 1)\<rparr> \<and>
    off s' > es_size s'"
  using assms by (simp add: do_return_def do_open_line_def off_def set_tracked_def)

lemma return_read_only_witness:
  "\<exists>s'. do_return \<lparr>es_b = alloc_buffer ''text'' BF_READONLY, es_insert = True, input_method = None,
      compose_buf = [], compose_start_offset = 0\<rparr> = Some s' \<and> off s' = 1"
proof -
  let ?s = "\<lparr>es_b = alloc_buffer ''text'' BF_READONLY, es_insert = True, input_method = None,
      compose_buf = [], compose_start_offset = 0\<rparr>"
  have "read_only ?s" by (simp add: read_only_def alloc_buffer_def eb_add_callback_def BF_READONLY_def)
  moreover have "off ?s = es_size ?s" by (simp add: off_def alloc_buffer_def eb_add_callback_def)
  ultimately show ?thesis
    using return_read_only [of ?s] by (auto simp: off_def alloc_buffer_def eb_add_callback_def)
qed

section \<open>Killing and yanking\<close>

lemma copy_to_yank:
  assumes "holds_text s t" "q + n \<le> length t" "n < 2147483648"
  obtains y b where "eb_insert_buffer (alloc_buffer name flags) 0 (es_b s) q n = Some (y, b)"
    "contents y = list_slice q n t" "total_size y = n" "buf_ok y" "same_doc (es_b s) b"
proof -
  note h = holds_textD [OF assms(1)]
  obtain a where a: "refines (alloc_buffer name flags) a" "a_text a = []" using alloc_refines by blast
  obtain y b where y: "eb_insert_buffer (alloc_buffer name flags) 0 (es_b s) q n = Some (y, b)"
    "refines y (if n = 0 then a else a_insert a 0 (list_slice q n t))" "cache_ok b" "same_text (es_b s) b"
    using eb_insert_buffer_refines [OF a(1), of 0 n "es_b s" q] a(2) assms(2,3) h by (auto simp: buf_ok_def)
  have "same_doc (es_b s) b"
    using y(3,4) h by (simp add: same_doc_def same_text_def buf_ok_def contents_def)
  moreover have "contents y = list_slice q n t"
    using refinesD(4) [OF y(2)] a(2) by (auto simp: list_insert_def list_slice_def)
  moreover have "buf_ok y" by (rule refinesD(2) [OF y(2)])
  moreover have "total_size y = n" using buf_okD(2) [OF calculation(3)] calculation(2) assms(2) by simp
  ultimately show thesis using that y(1) by blast
qed

text \<open>C33. Killing and yanking. In every charset, killing the region between the mark and the
  cursor takes exactly its text out of the buffer, into a fresh buffer of the kill ring, and leaves
  the cursor at its beginning; a yank then puts it back, with the cursor at its end.\<close>

theorem kill_then_yank:
  assumes "holds_text s t" "\<not> read_only s" "length t < 2147483648"
    and "length (yank_buffers qs) = NB_YANK_BUFFERS" "yank_current qs < NB_YANK_BUFFERS"
    and "off s = int p" "p \<le> length t" "mark s = int m" "m \<le> length t"
  shows "\<exists>s1 qs1 y s2 qs2. do_kill_region s junk qs 1 = Some (s1, qs1) \<and>
    es_text s1 = list_delete (min p m) (max p m - min p m) t \<and> off s1 = int (min p m) \<and>
    yank_buffers qs1 ! yank_current qs1 = Some y \<and> contents y = list_slice (min p m) (max p m - min p m) t \<and>
    do_yank s1 qs1 = Some (s2, qs2) \<and> es_text s2 = t \<and> off s2 = int (max p m)"
proof -
  define q where "q = min p m"
  define n where "n = max p m - q"
  have qn: "q + n \<le> length t" "n < 2147483648" "q + n = max p m" "q \<le> length t"
    using assms(3,7,9) by (auto simp: q_def n_def)
  define k where "k = (if yank_current qs + 1 = NB_YANK_BUFFERS then 0 else yank_current qs + 1)"
  have k: "k < length (yank_buffers qs)" using assms(4,5) by (auto simp: k_def NB_YANK_BUFFERS_def)
  obtain y b where y: "eb_insert_buffer (alloc_buffer ''*yank*'' BF_SYSTEM) 0 (es_b s) q n = Some (y, b)"
    "contents y = list_slice q n t" "total_size y = n" "buf_ok y" "same_doc (es_b s) b"
    by (rule copy_to_yank [OF assms(1) qn(1,2)])
  have m: "moved s (off s) (s\<lparr>es_b := b\<rparr>)"
    using moved_read [OF _ y(5)] holds_textD [OF assms(1)] by simp
  note h1 = holds_moved [OF assms(1) m]
  obtain s1 where s1: "delete_at (s\<lparr>es_b := b\<rparr>) (int q) (int n) = Some s1"
    "holds_text s1 (list_delete q n t)" "same_setup (s\<lparr>es_b := b\<rparr>) s1"
    using delete_at_text [OF h1(1) qn(1) assms(3)] by metis
  define qs1 where "qs1 = qs\<lparr>yank_current := k, yank_buffers := (yank_buffers qs)[k := Some y]\<rparr>"
  have ord: "(if int m > int p then (int p, int m) else (int m, int p)) = (int q, int q + int n)"
    by (auto simp: q_def n_def)
  have nyb: "new_yank_buffer qs = qs\<lparr>yank_current := k,
      yank_buffers := (yank_buffers qs)[k := Some (alloc_buffer ''*yank*'' BF_SYSTEM)]\<rparr>"
    unfolding new_yank_buffer_def Let_def k_def by (rule refl)
  have kill: "do_kill_region s junk qs 1 = Some (goto_off s1 (int q), qs1)"
    unfolding do_kill_region_def
    using assms(2,6,8) ord k y(1) s1(1)
    by (simp add: Let_def nyb set_yank_def qs1_def)
  let ?s1 = "goto_off s1 (int q)"
  have h2: "holds_text ?s1 (list_delete q n t)" by (rule holds_goto [OF s1(2)])
  have ro: "\<not> read_only ?s1"
    using same_setupD(3) [OF same_setup_trans [OF same_setup_trans [OF h1(2) s1(3)] setup_goto]] assms(2) by simp
  have cur: "yank_buffers qs1 ! yank_current qs1 = Some y" using k by (simp add: qs1_def)
  have yank: "\<exists>s2 qs2. do_yank ?s1 qs1 = Some (s2, qs2) \<and> es_text s2 = t \<and> off s2 = int (q + n)"
  proof (cases "n = 0")
    case True
    then show ?thesis
      using ro cur y(3) holds_textD [OF h2] by (simp add: do_yank_def list_delete_def)
  next
    case False
    obtain a where a: "refines (es_b ?s1) a" "a_text a = list_delete q n t"
      using h2 by (auto simp: holds_text_def)
    have "q \<le> length (a_text a)" "length (a_text a) + n < 2147483648" "0 + n \<le> length (contents y)"
      using a(2) qn(1,2,4) assms(3) y(2) by auto
    then obtain d y' where d: "eb_insert_buffer (es_b ?s1) q y 0 n = Some (d, y')"
      "refines d (a_insert a q (list_slice 0 n (contents y)))"
      using eb_insert_buffer_refines [OF a(1), of q n y 0] False y(4) by (auto simp: buf_ok_def)
    have "list_slice 0 n (list_slice q n t) = list_slice q n t" using qn(1) by (simp add: list_slice_def)
    then have "contents d = t" using refinesD(4) [OF d(2)] a(2) qn(1) y(2) by simp
    moreover have "off (?s1\<lparr>es_b := d\<rparr>) = int q"
    proof -
      have at: "a_tracked a OFFSET = int q"
        using refines_docD(4) [OF refinesD(1) [OF a(1)]] by (metis off_def off_goto)
      have "tracked d OFFSET = a_tracked (a_insert a q (list_slice 0 n (contents y))) OFFSET"
        using refines_docD(4) [OF refinesD(1) [OF d(2)]] by simp
      also have "\<dots> = int q"
        using at callbacks_insert_behind [of "a_tracked a" OFFSET "int q"]
        by (simp add: a_insert_def a_addlog_def Let_def)
      finally show ?thesis by (simp add: off_def)
    qed
    ultimately show ?thesis
      using ro cur y(3) False d(1) by (simp add: do_yank_def Let_def)
  qed
  show ?thesis
    using kill cur y(2) yank [unfolded qn(3)] holds_textD [OF h2]
    unfolding q_def [symmetric] n_def [symmetric] by simp
qed

lemma kill_then_yank_witness:
  "\<exists>s1 qs1 y. do_kill_region (window_of [[97, 98], [99, 100]] Charset_8859_1 3) []
      \<lparr>yank_current = 9, yank_buffers = replicate 10 None\<rparr> 1 = Some (s1, qs1) \<and> es_text s1 = [100] \<and>
    yank_buffers qs1 ! yank_current qs1 = Some y \<and> contents y = [97, 98, 99]"
proof -
  let ?s = "window_of [[97, 98], [99, 100]] Charset_8859_1 3"
  have h: "holds_text ?s [97, 98, 99, 100]"
    using holds_window_of [of "[[97, 98], [99, 100]]"] by (simp add: MAX_PAGE_SIZE_def)
  have "list_delete 0 3 [97, 98, 99, 100 :: u8] = [100]" "list_slice 0 3 [97, 98, 99, 100 :: u8] = [97, 98, 99]"
    by (simp_all add: list_delete_def list_slice_def)
  then show ?thesis
    using kill_then_yank [OF h, where p = 3 and m = 0 and junk = "[]" and
        qs = "\<lparr>yank_current = 9, yank_buffers = replicate 10 None\<rparr>"]
    by (auto simp: NB_YANK_BUFFERS_def)
qed

section \<open>Commands that miss their aim\<close>

text \<open>Trailing whitespace stays on the last two lines. The loop counts lines from zero to the
  number of newlines, but lines are numbered from one when it goes to them: the first line is done twice,
  the last two never. Of three lines with a space at their ends, one is cleaned.\<close>

theorem trailing_whitespace_left:
  "map_option (\<lambda>(twl, s). (twl, es_text s)) (do_delete_trailing_whitespace
     (window_of [bytes_of ''a ''  @ [10] @ bytes_of ''b '' @ [10] @ bytes_of ''c ''] Charset_8859_1 0) []) =
   Some (1, bytes_of ''a'' @ [10] @ bytes_of ''b '' @ [10] @ bytes_of ''c '')"
  by code_simp

text \<open>The word at the beginning of the text is cut off. When the search for the beginning of the
  word reaches the beginning of the text, it goes back to the cursor, and only the rest of
  the word is returned; anywhere else the whole word is.\<close>

theorem word_at_text_start:
  "map_option fst (do_read_word_at_offset (window_of [bytes_of ''main x''] Charset_8859_1 2) []) =
     Some (bytes_of ''in'') \<and>
   map_option fst (do_read_word_at_offset (window_of [bytes_of '' main x''] Charset_8859_1 3) []) =
     Some (bytes_of ''main'')"
  by code_simp

end
