(* ===== verification/Buffers.thy ===== *)
theory Buffers
  imports Edit_Buffer Util
begin

text \<open>
  The list of buffers: creating, finding, naming and freeing buffers in \<open>src/buffer.c\<close>, and
  the commands of \<open>src/qe.c\<close> that switch and kill buffers. This theory holds the definitions
  and the lemmas on names; \<open>Buffer_Theorems\<close> proves the properties.

  A buffer is named by its address, a number. \<open>first_buffer\<close> is the linked list of the
  allocated buffers with their addresses and \<open>first_window\<close> the list of the windows with the
  addresses of their buffers. Dereferencing an address that is not allocated has no result. The log
  buffers, which carry names of their own, are kept inside their buffers, and what a mode does
  when it is opened or closed for a window is left out.
\<close>

section \<open>The lists of buffers and windows\<close>

type_synonym bufptr = nat

record QEmacsState =
  first_buffer :: "(bufptr \<times> EditBuffer) list"
  first_window :: "(nat \<times> bufptr) list"
  fresh_ptr :: bufptr

definition buf_at :: "QEmacsState \<Rightarrow> bufptr \<Rightarrow> EditBuffer option" where
  "buf_at qs p = map_of (first_buffer qs) p"

definition put_buf :: "QEmacsState \<Rightarrow> bufptr \<Rightarrow> EditBuffer \<Rightarrow> QEmacsState" where
  "put_buf qs p b =
     qs\<lparr>first_buffer := map (\<lambda>(q, c). if q = p then (q, b) else (q, c)) (first_buffer qs)\<rparr>"

fun find_buffer :: "(EditBuffer \<Rightarrow> bool) \<Rightarrow> (bufptr \<times> EditBuffer) list \<Rightarrow> bufptr option" where
  "find_buffer P [] = None"
| "find_buffer P ((p, b) # bs) = (if P b then Some p else find_buffer P bs)"

definition eb_find :: "QEmacsState \<Rightarrow> string \<Rightarrow> bufptr option" where
  "eb_find qs name = find_buffer (\<lambda>b. b_name b = name) (first_buffer qs)"

definition eb_find_file :: "QEmacsState \<Rightarrow> string \<Rightarrow> bufptr option" where
  "eb_find_file qs fname = find_buffer (\<lambda>b. filename b = fname) (first_buffer qs)"

definition eb_new :: "QEmacsState \<Rightarrow> string \<Rightarrow> u32 \<Rightarrow> bufptr \<times> QEmacsState" where
  "eb_new qs name flags =
     (let p = fresh_ptr qs in
      (p, qs\<lparr>first_buffer := (p, alloc_buffer name flags) # first_buffer qs, fresh_ptr := p + 1\<rparr>))"

text \<open>Freeing a buffer: only its removal from the list can be seen afterwards.\<close>

fun unlink_buffer :: "bufptr \<Rightarrow> (bufptr \<times> EditBuffer) list
    \<Rightarrow> (bufptr \<times> EditBuffer) list option" where
  "unlink_buffer p [] = None"
| "unlink_buffer p ((q, b) # bs) =
     (if q = p then Some bs else map_option ((#) (q, b)) (unlink_buffer p bs))"

definition eb_free :: "QEmacsState \<Rightarrow> bufptr \<Rightarrow> QEmacsState option" where
  "eb_free qs p = do {
     bs \<leftarrow> unlink_buffer p (first_buffer qs);
     Some (qs\<lparr>first_buffer := bs\<rparr>) }"

text \<open>Empty a buffer without keeping a log.\<close>

definition eb_invalidate_raw_data :: "EditBuffer \<Rightarrow> EditBuffer option" where
  "eb_invalidate_raw_data b = do {
     let b = b\<lparr>save_log := False\<rparr>;
     b \<leftarrow> eb_delete b 0 (total_size b);
     Some (log_reset b) }"

section \<open>Names\<close>

text \<open>What \<open>sprintf\<close> writes for \<open>%d\<close> and a number that is not negative.\<close>

fun dec :: "nat \<Rightarrow> string" where
  "dec n = (if n < 10 then [char_of (n + 48)] else dec (n div 10) @ [char_of (n mod 10 + 48)])"

declare dec.simps [simp del]

definition suffix_no :: "nat \<Rightarrow> string" where
  "suffix_no n = ''<'' @ dec n @ ''>''"

lemma less_exp_dec: "n < 10 ^ length (dec n)"
proof (induction n rule: dec.induct)
  case (1 n)
  show ?case
  proof (cases "n < 10")
    case False
    then have "n div 10 < 10 ^ length (dec (n div 10))" by (rule 1)
    then have "n < 10 * 10 ^ length (dec (n div 10))"
      by (simp add: div_less_iff_less_mult mult.commute)
    then show ?thesis using False by (subst dec.simps) simp
  qed (subst dec.simps, simp)
qed

text \<open>
  \<open>sprintf (name + pos, "<%d>", n)\<close> writes behind the array \<open>name\<close> of 256 bytes when the
  text is too long; such a call has no result.
\<close>

definition NAME_SIZE :: nat where "NAME_SIZE = 256"

function name_loop :: "QEmacsState \<Rightarrow> string \<Rightarrow> string \<Rightarrow> nat \<Rightarrow> string option" where
  "name_loop qs base name n =
     (if eb_find qs name = None then Some name
      else if length base + length (suffix_no n) \<ge> NAME_SIZE then None
      else name_loop qs base (base @ suffix_no n) (n + 1))"
  by pat_completeness auto
termination
proof (relation "measure (\<lambda>(qs, base, name, n). 10 ^ NAME_SIZE - n)")
  fix qs and base name :: string and n :: nat
  assume "\<not> NAME_SIZE \<le> length base + length (suffix_no n)"
  then have "length (dec n) \<le> NAME_SIZE" by (simp add: suffix_no_def)
  then have "(10::nat) ^ length (dec n) \<le> 10 ^ NAME_SIZE" by (rule power_increasing) simp
  with less_exp_dec [of n] have "n < 10 ^ NAME_SIZE" by (rule order_less_le_trans)
  then have "10 ^ NAME_SIZE - (n + 1) < 10 ^ NAME_SIZE - n" by (rule diff_less_mono2 [rotated]) simp
  then show "((qs, base, base @ suffix_no n, n + 1), (qs, base, name, n))
      \<in> measure (\<lambda>(qs, base, name, n). 10 ^ NAME_SIZE - n)"
    by simp
qed simp

declare name_loop.simps [simp del]

definition set_buffer_name :: "QEmacsState \<Rightarrow> bufptr \<Rightarrow> string \<Rightarrow> QEmacsState option" where
  "set_buffer_name qs p name1 = do {
     b \<leftarrow> buf_at qs p;
     let name = take (NAME_SIZE - 10 - 1) name1;
     let qs = put_buf qs p (b\<lparr>b_name := []\<rparr>);
     name \<leftarrow> name_loop qs name name 2;
     Some (put_buf qs p (b\<lparr>b_name := take (NAME_SIZE - 1) name\<rparr>)) }"

definition MAX_FILENAME_SIZE :: nat where "MAX_FILENAME_SIZE = 1024"

definition set_filename :: "QEmacsState \<Rightarrow> bufptr \<Rightarrow> string \<Rightarrow> QEmacsState option" where
  "set_filename qs p fname = do {
     b \<leftarrow> buf_at qs p;
     let qs = put_buf qs p (b\<lparr>filename := take (MAX_FILENAME_SIZE - 1) fname\<rparr>);
     set_buffer_name qs p (qe_basename fname) }"

section \<open>Windows\<close>

text \<open>Show the buffer \<open>p\<close> in the window \<open>s\<close>.\<close>

definition switch_to_buffer :: "QEmacsState \<Rightarrow> nat \<Rightarrow> bufptr \<Rightarrow> QEmacsState" where
  "switch_to_buffer qs s p =
     qs\<lparr>first_window := map (\<lambda>(e, q). if e = s then (e, p) else (e, q)) (first_window qs)\<rparr>"

text \<open>\<open>e->b == b\<close> for some window \<open>e\<close>.\<close>

definition shown :: "QEmacsState \<Rightarrow> bufptr \<Rightarrow> bool" where
  "shown qs p = list_ex (\<lambda>(e, q). q = p) (first_window qs)"

definition is_system :: "EditBuffer \<Rightarrow> bool" where
  "is_system b \<longleftrightarrow> b_flags b AND BF_SYSTEM \<noteq> 0"

fun predict_loop :: "QEmacsState \<Rightarrow> bufptr \<Rightarrow> (bufptr \<times> EditBuffer) list \<Rightarrow> bufptr" where
  "predict_loop qs cur [] = cur"
| "predict_loop qs cur ((p, b) # bs) =
     (if \<not> is_system b \<and> \<not> shown qs p then p else predict_loop qs cur bs)"

definition predict_switch_to_buffer :: "QEmacsState \<Rightarrow> bufptr \<Rightarrow> bufptr" where
  "predict_switch_to_buffer qs cur = predict_loop qs cur (first_buffer qs)"

definition do_switch_to_buffer :: "QEmacsState \<Rightarrow> nat \<Rightarrow> string \<Rightarrow> QEmacsState" where
  "do_switch_to_buffer qs s bufname =
     (let (p, qs) = (case eb_find qs bufname of
            None \<Rightarrow> eb_new qs bufname BF_SAVELOG | Some p \<Rightarrow> (p, qs))
      in switch_to_buffer qs s p)"

definition do_toggle_read_only :: "EditBuffer \<Rightarrow> EditBuffer" where
  "do_toggle_read_only b = b\<lparr>b_flags := b_flags b XOR BF_READONLY\<rparr>"

text \<open>The buffer that takes the place of a killed one: the first other that is not a system buffer.\<close>

fun find_other :: "bufptr \<Rightarrow> (bufptr \<times> EditBuffer) list \<Rightarrow> bufptr option" where
  "find_other p [] = None"
| "find_other p ((q, b) # bs) = (if q \<noteq> p \<and> \<not> is_system b then Some q else find_other p bs)"

fun switch_all :: "QEmacsState \<Rightarrow> bufptr \<Rightarrow> bufptr \<Rightarrow> (nat \<times> bufptr) list \<Rightarrow> QEmacsState" where
  "switch_all qs p p1 [] = qs"
| "switch_all qs p p1 ((e, q) # es) =
     switch_all (if q = p then switch_to_buffer qs e p1 else qs) p p1 es"

definition kill_buffer_noconfirm :: "QEmacsState \<Rightarrow> bufptr \<Rightarrow> QEmacsState option" where
  "kill_buffer_noconfirm qs p =
     (let (p1, qs) = (case find_other p (first_buffer qs) of
            None \<Rightarrow> eb_new qs ''*scratch*'' BF_SAVELOG | Some q \<Rightarrow> (q, qs));
          qs = switch_all qs p p1 (first_window qs)
      in eb_free qs p)"

text \<open>
  What \<open>do_kill_buffer\<close> does: nothing, ask for confirmation with the answer going to
  \<open>kill_buffer_confirm_cb\<close>, or kill at once.
\<close>

datatype KillResult = Kill_No_Match | Kill_Ask bufptr | Kill_Done QEmacsState

definition do_kill_buffer :: "QEmacsState \<Rightarrow> string \<Rightarrow> KillResult option" where
  "do_kill_buffer qs bufname = (case eb_find qs bufname of
       None \<Rightarrow> Some Kill_No_Match
     | Some p \<Rightarrow> do {
         b \<leftarrow> buf_at qs p;
         if modified b \<and> filename b \<noteq> [] then Some (Kill_Ask p)
         else do { qs \<leftarrow> kill_buffer_noconfirm qs p; Some (Kill_Done qs) } })"

definition kill_buffer_confirm_cb :: "QEmacsState \<Rightarrow> bufptr \<Rightarrow> string option
    \<Rightarrow> QEmacsState option" where
  "kill_buffer_confirm_cb qs p reply = (case reply of
       None \<Rightarrow> Some qs
     | Some r \<Rightarrow> if r = ''yes'' then kill_buffer_noconfirm qs p else Some qs)"

text \<open>The directory offered for reading and writing files.\<close>

definition get_default_path :: "string \<Rightarrow> EditBuffer \<Rightarrow> nat \<Rightarrow> string option" where
  "get_default_path cwd b buf_size = do {
     fname \<leftarrow> (if is_system b \<or> take 1 (b_name b) = ''*''
              then canonize_absolute_path cwd 1024 ''a'' else Some (filename b));
     Some (pathname buf_size fname) }"

end
