(* ===== verification/Buffer_Theorems.thy ===== *)
theory Buffer_Theorems
  imports Buffers
begin

text \<open>
  The properties of the list of buffers: the names that \<open>set_buffer_name\<close> chooses, and the
  invariant of the lists of buffers and windows under the commands that change them.
\<close>

section \<open>Numbers in names\<close>

definition undec :: "string \<Rightarrow> nat" where
  "undec s = foldl (\<lambda>a c. 10 * a + (of_char c - 48)) 0 s"

lemma undec_dec [simp]: "undec (dec n) = n"
proof (induction n rule: dec.induct)
  case (1 n)
  then show ?case by (cases "n < 10") (simp_all add: dec.simps [of n] undec_def)
qed

lemma dec_inj: "dec m = dec n \<Longrightarrow> m = n"
  by (metis undec_dec)

lemma exp_dec_le: "0 < n \<Longrightarrow> 10 ^ (length (dec n) - 1) \<le> n"
proof (induction n rule: dec.induct)
  case (1 n)
  show ?case
  proof (cases "n < 10")
    case False
    then have "10 ^ (length (dec (n div 10)) - 1) \<le> n div 10" by (intro 1) auto
    moreover have "0 < length (dec (n div 10))" by (subst dec.simps) simp
    ultimately have "10 ^ length (dec (n div 10)) \<le> 10 * (n div 10)"
      by (cases "length (dec (n div 10))") simp_all
    also have "\<dots> \<le> n" by simp
    finally show ?thesis using False by (subst dec.simps) simp
  qed (use 1 in \<open>simp add: dec.simps [of n]\<close>)
qed

lemma suffix_inj: "base @ suffix_no m = base @ suffix_no n \<longleftrightarrow> m = n"
  by (auto simp: suffix_no_def dest: dec_inj)

section \<open>The list of buffers\<close>

definition buffer_names :: "QEmacsState \<Rightarrow> string list" where
  "buffer_names qs = map (\<lambda>(p, b). b_name b) (first_buffer qs)"

definition buffer_ptrs :: "QEmacsState \<Rightarrow> bufptr list" where
  "buffer_ptrs qs = map fst (first_buffer qs)"

lemma find_buffer_None: "find_buffer P bs = None \<longleftrightarrow> (\<forall>(p, b) \<in> set bs. \<not> P b)"
  by (induction P bs rule: find_buffer.induct) auto

lemma find_buffer_Some: "find_buffer P bs = Some p \<Longrightarrow> \<exists>b. (p, b) \<in> set bs \<and> P b"
  by (induction P bs rule: find_buffer.induct) (auto split: if_splits)

lemma eb_find_None: "eb_find qs name = None \<longleftrightarrow> name \<notin> set (buffer_names qs)"
  by (auto simp: eb_find_def find_buffer_None buffer_names_def)

lemma ptrs_put [simp]: "buffer_ptrs (put_buf qs p b) = buffer_ptrs qs"
  by (auto simp: buffer_ptrs_def put_buf_def)

lemma put_buf_fields [simp]:
  "first_window (put_buf qs p b) = first_window qs" "fresh_ptr (put_buf qs p b) = fresh_ptr qs"
  by (simp_all add: put_buf_def)

lemma put_put [simp]: "put_buf (put_buf qs p b) p c = put_buf qs p c"
  by (simp add: put_buf_def split_beta)

lemma buf_at_iff: "distinct (buffer_ptrs qs) \<Longrightarrow> buf_at qs p = Some b \<longleftrightarrow> (p, b) \<in> set (first_buffer qs)"
  by (simp add: buf_at_def buffer_ptrs_def map_of_eq_Some_iff)

lemma buf_at_ptr: "buf_at qs p = Some b \<Longrightarrow> p \<in> set (buffer_ptrs qs)"
  by (auto simp: buf_at_def buffer_ptrs_def dest!: map_of_SomeD intro: rev_image_eqI)

lemma buf_at_put [simp]: "buf_at qs p = Some c \<Longrightarrow> buf_at (put_buf qs p b) q = (if q = p then Some b else buf_at qs q)"
proof -
  have "map_of (map (\<lambda>(q, c). if q = p then (q, b) else (q, c)) xs) q
      = (if q = p then (if p \<in> set (map fst xs) then Some b else None) else map_of xs q)" for xs
    by (induction xs) (auto simp del: set_map simp: set_map [symmetric])
  moreover assume "buf_at qs p = Some c"
  then have "p \<in> set (map fst (first_buffer qs))" using buf_at_ptr by (simp add: buffer_ptrs_def)
  ultimately show ?thesis by (simp add: buf_at_def put_buf_def)
qed

text \<open>The names of the other buffers.\<close>

definition other_names :: "QEmacsState \<Rightarrow> bufptr \<Rightarrow> string list" where
  "other_names qs p = map (\<lambda>(q, b). b_name b) (filter (\<lambda>(q, b). q \<noteq> p) (first_buffer qs))"

lemma other_names_put [simp]: "other_names (put_buf qs p b) p = other_names qs p"
proof -
  have "map (\<lambda>(q, b). b_name b) (filter (\<lambda>(q, b). q \<noteq> p)
        (map (\<lambda>(q, c). if q = p then (q, b) else (q, c)) xs))
      = map (\<lambda>(q, b). b_name b) (filter (\<lambda>(q, b). q \<noteq> p) xs)" for xs :: "(bufptr \<times> EditBuffer) list"
    by (induction xs) auto
  then show ?thesis by (simp add: other_names_def put_buf_def)
qed

lemma names_put:
  assumes "buf_at qs p = Some c"
  shows "set (buffer_names (put_buf qs p b)) = insert (b_name b) (set (other_names qs p))"
  using assms by (force simp: buffer_names_def other_names_def put_buf_def buf_at_def dest: map_of_SomeD)

lemma distinct_other_names: "distinct (buffer_names qs) \<Longrightarrow> distinct (other_names qs p)"
  by (auto simp: buffer_names_def other_names_def distinct_map elim: inj_on_subset)

lemma distinct_names_put:
  assumes "distinct (buffer_ptrs qs)" "distinct (other_names qs p)" "b_name b \<notin> set (other_names qs p)"
  shows "distinct (buffer_names (put_buf qs p b))"
proof -
  let ?upd = "map (\<lambda>(q, c). if q = p then (q, b) else (q, c))"
  let ?names = "map (\<lambda>(q, c). b_name c)"
  let ?rest = "filter (\<lambda>(q, c). q \<noteq> p)"
  have "distinct (?names (?upd xs)) \<and> set (?names (?upd xs)) \<subseteq> insert (b_name b) (set (?names (?rest xs)))"
    if "distinct (map fst xs)" "distinct (?names (?rest xs))" "b_name b \<notin> set (?names (?rest xs))" for xs
    using that
  proof (induction xs)
    case (Cons x xs)
    obtain q c where x: "x = (q, c)" by (cases x)
    show ?case
    proof (cases "q = p")
      case True
      have "?upd xs = xs" "?rest xs = xs"
        using Cons.prems(1) True x by (force intro!: map_idI filter_True split: prod.split)+
      then show ?thesis using Cons.prems True x by auto
    next
      case False
      with Cons x have ih: "distinct (?names (?upd xs))"
        "set (?names (?upd xs)) \<subseteq> insert (b_name b) (set (?names (?rest xs)))" by auto
      have "b_name c \<notin> insert (b_name b) (set (?names (?rest xs)))" using Cons.prems(2,3) False x by auto
      with ih(2) have "b_name c \<notin> set (?names (?upd xs))" by blast
      then show ?thesis using ih False x by auto
    qed
  qed simp
  from this [of "first_buffer qs"] assms show ?thesis
    by (simp add: buffer_names_def buffer_ptrs_def other_names_def put_buf_def)
qed

section \<open>Choosing a name\<close>

lemma name_loop_Some:
  "name_loop qs base name n = Some nm \<Longrightarrow>
   nm \<notin> set (buffer_names qs) \<and>
   (nm = name \<or> (name \<in> set (buffer_names qs) \<and> (\<exists>m \<ge> n. nm = base @ suffix_no m \<and>
     length base + length (suffix_no m) < NAME_SIZE \<and>
     (\<forall>j. n \<le> j \<and> j < m \<longrightarrow> base @ suffix_no j \<in> set (buffer_names qs)))))"
proof (induction qs base name n rule: name_loop.induct)
  case (1 qs base name n)
  show ?case
  proof (cases "eb_find qs name = None")
    case True
    with 1(2) show ?thesis by (simp add: name_loop.simps [of qs base name] eb_find_None)
  next
    case used: False
    with 1(2) have short: "length base + length (suffix_no n) < NAME_SIZE"
      and r: "name_loop qs base (base @ suffix_no n) (n + 1) = Some nm"
      by (simp_all add: name_loop.simps [of qs base name] split: if_splits)
    from 1(1) [OF used _ r] short have ih: "nm \<notin> set (buffer_names qs)"
      "nm = base @ suffix_no n \<or> (base @ suffix_no n \<in> set (buffer_names qs) \<and>
        (\<exists>m \<ge> n + 1. nm = base @ suffix_no m \<and> length base + length (suffix_no m) < NAME_SIZE \<and>
        (\<forall>j. n + 1 \<le> j \<and> j < m \<longrightarrow> base @ suffix_no j \<in> set (buffer_names qs))))"
      by simp_all
    from used have "name \<in> set (buffer_names qs)" by (simp add: eb_find_None)
    moreover have "\<exists>m \<ge> n. nm = base @ suffix_no m \<and> length base + length (suffix_no m) < NAME_SIZE \<and>
        (\<forall>j. n \<le> j \<and> j < m \<longrightarrow> base @ suffix_no j \<in> set (buffer_names qs))"
      using ih(2) short by (metis Suc_eq_plus1 Suc_leD linorder_not_less not_less_eq_eq le_antisym)
    ultimately show ?thesis using ih(1) by blast
  qed
qed

lemma name_loop_None:
  "name_loop qs base name n = None \<Longrightarrow>
   \<exists>m \<ge> n. NAME_SIZE \<le> length base + length (suffix_no m) \<and>
     (\<forall>j. n \<le> j \<and> j < m \<longrightarrow> base @ suffix_no j \<in> set (buffer_names qs))"
proof (induction qs base name n rule: name_loop.induct)
  case (1 qs base name n)
  show ?case
  proof (cases "length base + length (suffix_no n) \<ge> NAME_SIZE")
    case True
    then show ?thesis by (intro exI [of _ n]) auto
  next
    case False
    with 1(2) have used: "eb_find qs name \<noteq> None"
      and r: "name_loop qs base (base @ suffix_no n) (n + 1) = None"
      by (simp_all add: name_loop.simps [of qs base name] split: if_splits)
    have "base @ suffix_no n \<in> set (buffer_names qs)"
      using r by (auto simp: name_loop.simps [of qs base "base @ suffix_no n"] eb_find_None split: if_splits)
    moreover obtain m where "n + 1 \<le> m" "NAME_SIZE \<le> length base + length (suffix_no m)"
      "\<forall>j. n + 1 \<le> j \<and> j < m \<longrightarrow> base @ suffix_no j \<in> set (buffer_names qs)"
      using 1(1) [OF used False r] by auto
    ultimately show ?thesis
      by (intro exI [of _ m]) (metis Suc_eq_plus1 Suc_leD le_antisym not_less_eq_eq)
  qed
qed

text \<open>With fewer buffers than numbers of eight digits the array is never too short.\<close>

lemma name_loop_ends:
  assumes "length base \<le> 245" "length (first_buffer qs) < 99999998"
  shows "name_loop qs base name 2 \<noteq> None"
proof
  assume "name_loop qs base name 2 = None"
  then obtain m where m: "2 \<le> m" "NAME_SIZE \<le> length base + length (suffix_no m)"
    "\<forall>j. 2 \<le> j \<and> j < m \<longrightarrow> base @ suffix_no j \<in> set (buffer_names qs)"
    using name_loop_None by blast
  have "8 \<le> length (dec m) - 1" using m(2) assms(1) by (simp add: suffix_no_def NAME_SIZE_def)
  then have "(10::nat) ^ 8 \<le> 10 ^ (length (dec m) - 1)" by (rule power_increasing) simp
  also have "\<dots> \<le> m" by (rule exp_dec_le) (use m(1) in simp)
  finally have big: "100000000 \<le> m" by simp
  have "(\<lambda>j. base @ suffix_no j) ` {2..<m} \<subseteq> set (buffer_names qs)" using m(3) by auto
  moreover have "inj_on (\<lambda>j. base @ suffix_no j) {2..<m}" by (rule inj_onI) (simp only: suffix_inj)
  ultimately have "card {2..<m} \<le> card (set (buffer_names qs))"
    by (metis List.finite_set card_inj_on_le)
  also have "\<dots> \<le> length (first_buffer qs)"
    using card_length [of "buffer_names qs"] by (simp add: buffer_names_def)
  finally show False using big assms(2) by simp
qed

text \<open>The names that \<open>set_buffer_name\<close> may choose, given the names of the other buffers.\<close>

definition chosen_name :: "string set \<Rightarrow> string \<Rightarrow> string \<Rightarrow> bool" where
  "chosen_name others base nm \<longleftrightarrow> nm \<notin> others \<and>
     (if base \<noteq> [] \<and> base \<notin> others then nm = base
      else \<exists>m \<ge> 2. nm = base @ suffix_no m \<and> (\<forall>j. 2 \<le> j \<and> j < m \<longrightarrow> base @ suffix_no j \<in> others))"

lemma suffix_not_Nil [simp]: "suffix_no n \<noteq> []"
  by (simp add: suffix_no_def)

text \<open>Naming a buffer. For every list of fewer than 99999998 buffers \<open>set_buffer_name\<close> ends
  and writes nothing behind its arrays. It changes only the name of its buffer. The new name is the
  one asked for, cut off after 245 characters, if that is free and not empty, and otherwise the
  first free one that is made of it with a number from 2 on; it has at most 255 characters and is
  different from the names of all other buffers.\<close>

theorem set_buffer_name_spec:
  assumes "distinct (buffer_ptrs qs)" "buf_at qs p = Some b" "length (first_buffer qs) < 99999998"
  shows "\<exists>nm. set_buffer_name qs p name1 = Some (put_buf qs p (b\<lparr>b_name := nm\<rparr>)) \<and> length nm \<le> 255 \<and>
    chosen_name (set (other_names qs p)) (take 245 name1) nm"
proof -
  define base where "base = take 245 name1"
  define qs1 where "qs1 = put_buf qs p (b\<lparr>b_name := []\<rparr>)"
  have names: "set (buffer_names qs1) = insert [] (set (other_names qs p))"
    unfolding qs1_def by (simp add: names_put [OF assms(2)])
  have "length (first_buffer qs1) < 99999998" using assms(3) by (simp add: qs1_def put_buf_def)
  then obtain nm where nm: "name_loop qs1 base base 2 = Some nm"
    using name_loop_ends [of base qs1 base] by (auto simp: base_def)
  from name_loop_Some [OF this] have new: "nm \<notin> set (other_names qs p)"
    and form: "nm = base \<and> base \<noteq> [] \<or> (base \<in> insert [] (set (other_names qs p)) \<and> (\<exists>m \<ge> 2.
      nm = base @ suffix_no m \<and> length base + length (suffix_no m) < NAME_SIZE \<and>
      (\<forall>j. 2 \<le> j \<and> j < m \<longrightarrow> base @ suffix_no j \<in> set (other_names qs p))))"
    unfolding names by auto
  have len: "length nm \<le> 255" using form by (auto simp: base_def NAME_SIZE_def)
  have "chosen_name (set (other_names qs p)) base nm"
    unfolding chosen_name_def using form new by auto
  moreover have "set_buffer_name qs p name1 = Some (put_buf qs p (b\<lparr>b_name := nm\<rparr>))"
    using assms(2) nm len by (simp add: set_buffer_name_def Let_def qs1_def base_def NAME_SIZE_def)
  ultimately show ?thesis using len unfolding base_def by blast
qed

section \<open>The lists under the commands\<close>

definition windows_ok :: "QEmacsState \<Rightarrow> bool" where
  "windows_ok qs \<longleftrightarrow> (\<forall>(e, p) \<in> set (first_window qs). p \<in> set (buffer_ptrs qs))"

text \<open>
  Names that several buffers may have: those of the buffers that the editor creates for itself without looking for an
  old one, those of logs, and names that fill the array of 256 bytes, to which longer ones are cut off.
\<close>

definition shared_name :: "string \<Rightarrow> bool" where
  "shared_name n \<longleftrightarrow> n \<in> {''*scratch*'', ''*yank*'', ''*color*'', ''*tmp*'', ''*minibuf*'', ''*completion*'',
     ''*bufed*'', ''*dired*''} \<or> take 6 n = ''*log <'' \<or> 255 \<le> length n"

lemma shared_name_cut: "shared_name (take 255 n) \<or> take 255 n = n"
  by (cases "255 \<le> length n") (simp_all add: shared_name_def)

lemma shared_name_take: "shared_name n \<Longrightarrow> shared_name (take 255 n)"
  using shared_name_cut [of n] by auto

definition names_apart :: "(bufptr \<times> EditBuffer) set \<Rightarrow> bool" where
  "names_apart bs \<longleftrightarrow> (\<forall>(p, b)\<in>bs. \<forall>(q, c)\<in>bs. b_name b = b_name c \<longrightarrow> p = q \<or> shared_name (b_name b))"

definition editor_ok :: "QEmacsState \<Rightarrow> bool" where
  "editor_ok qs \<longleftrightarrow> distinct (buffer_ptrs qs) \<and> (\<forall>p \<in> set (buffer_ptrs qs). p < fresh_ptr qs) \<and>
     windows_ok qs \<and> names_apart (set (first_buffer qs))"

text \<open>
  What the commands do to both lists. A file is read into a new buffer that is named after it; a buffer for the output of
  a program gets the name asked for; a buffer is renamed when its file is; the user selects a buffer by any name, and it is
  created if there is none; a buffer of the editor is created, without looking for an old one only under a name
  of \<open>shared_name\<close>; a buffer is shown in a window, a window opened or closed; the text or other fields of a buffer
  change; a buffer is killed; a buffer that no window shows is freed.
\<close>

inductive editor_step :: "QEmacsState \<Rightarrow> QEmacsState \<Rightarrow> bool" where
  load: "eb_new qs [] BF_SAVELOG = (p, qs1) \<Longrightarrow> set_filename qs1 p f = Some qs2 \<Longrightarrow>
    editor_step qs (switch_to_buffer qs2 s p)"
| run: "eb_new qs [] BF_SAVELOG = (p, qs1) \<Longrightarrow> set_buffer_name qs1 p name = Some qs2 \<Longrightarrow> editor_step qs qs2"
| rename: "buf_at qs p = Some b \<Longrightarrow> set_filename qs p f = Some qs1 \<Longrightarrow> editor_step qs qs1"
| select: "editor_step qs (do_switch_to_buffer qs s name)"
| create: "shared_name name \<or> eb_find qs name = None \<Longrightarrow> eb_new qs name flags = (p, qs1) \<Longrightarrow> editor_step qs qs1"
| display: "buf_at qs p = Some b \<Longrightarrow> editor_step qs (switch_to_buffer qs s p)"
| open_window: "buf_at qs p = Some b \<Longrightarrow> editor_step qs (qs\<lparr>first_window := (s, p) # first_window qs\<rparr>)"
| close_window: "editor_step qs (qs\<lparr>first_window := filter (\<lambda>(e, p). e \<noteq> s) (first_window qs)\<rparr>)"
| change: "buf_at qs p = Some b \<Longrightarrow> b_name b' = b_name b \<Longrightarrow> editor_step qs (put_buf qs p b')"
| kill: "buf_at qs p = Some b \<Longrightarrow> kill_buffer_noconfirm qs p = Some qs1 \<Longrightarrow> editor_step qs qs1"
| free: "\<not> shown qs p \<Longrightarrow> eb_free qs p = Some qs1 \<Longrightarrow> editor_step qs qs1"

text \<open>All of \<open>editor_ok\<close> but for the name of the buffer \<open>p\<close>.\<close>

definition ok_but_name :: "QEmacsState \<Rightarrow> bufptr \<Rightarrow> bool" where
  "ok_but_name qs p \<longleftrightarrow> distinct (buffer_ptrs qs) \<and> (\<forall>p \<in> set (buffer_ptrs qs). p < fresh_ptr qs) \<and>
     windows_ok qs \<and> names_apart {(q, b) \<in> set (first_buffer qs). q \<noteq> p}"

lemma names_apart_subset: "names_apart bs \<Longrightarrow> cs \<subseteq> bs \<Longrightarrow> names_apart cs"
  unfolding names_apart_def by blast

lemma ok_but_name: "editor_ok qs \<Longrightarrow> ok_but_name qs p"
  by (auto simp: editor_ok_def ok_but_name_def elim: names_apart_subset)

lemma is_system_name [simp]: "is_system (b\<lparr>b_name := n\<rparr>) = is_system b"
  by (simp add: is_system_def)

lemma set_put_buf: "(q, c) \<in> set (first_buffer (put_buf qs p b)) \<Longrightarrow>
    (q = p \<and> c = b) \<or> (q \<noteq> p \<and> (q, c) \<in> set (first_buffer qs))"
  by (auto simp: put_buf_def split: if_splits)

lemma in_other_names: "n \<in> set (other_names qs p) \<longleftrightarrow> (\<exists>(q, b)\<in>set (first_buffer qs). q \<noteq> p \<and> b_name b = n)"
  by (force simp: other_names_def)

lemma editor_ok_put:
  assumes "ok_but_name qs p" "shared_name (b_name b) \<or> b_name b \<notin> set (other_names qs p)"
  shows "editor_ok (put_buf qs p b)"
proof -
  have "names_apart (set (first_buffer (put_buf qs p b)))"
    unfolding names_apart_def
  proof (clarify, goal_cases)
    case (1 q c r d)
    have "q = p \<and> c = b \<or> q \<noteq> p \<and> (q, c) \<in> set (first_buffer qs)" "r = p \<and> d = b \<or> r \<noteq> p \<and> (r, d) \<in> set (first_buffer qs)"
      using set_put_buf 1 by blast+
    then show ?case
      using 1(3,4) assms unfolding in_other_names ok_but_name_def names_apart_def by fastforce
  qed
  then show ?thesis
    using assms(1) by (simp add: editor_ok_def ok_but_name_def windows_ok_def)
qed

lemma set_buffer_name_other:
  assumes "set_buffer_name qs p n = Some qs1" "buf_at qs p = Some b"
  obtains nm where "qs1 = put_buf qs p (b\<lparr>b_name := nm\<rparr>)" "nm \<notin> set (other_names qs p)"
proof -
  define qs0 where "qs0 = put_buf qs p (b\<lparr>b_name := []\<rparr>)"
  obtain nm where nm: "name_loop qs0 (take 245 n) (take 245 n) 2 = Some nm"
    "qs1 = put_buf qs p (b\<lparr>b_name := take 255 nm\<rparr>)"
    using assms by (auto simp: set_buffer_name_def Let_def NAME_SIZE_def bind_eq_Some_conv qs0_def)
  note l = name_loop_Some [OF nm(1)]
  have "length nm \<le> 255" using l by (auto simp: NAME_SIZE_def)
  moreover have "nm \<notin> set (other_names qs p)"
    using l names_put [OF assms(2)] by (auto simp: qs0_def)
  ultimately show thesis using that nm(2) by simp
qed

lemma set_buffer_name_ok:
  assumes "ok_but_name qs p" "buf_at qs p = Some b" "set_buffer_name qs p n = Some qs1"
  shows "editor_ok qs1 \<and> first_window qs1 = first_window qs \<and> buffer_ptrs qs1 = buffer_ptrs qs"
proof -
  obtain nm where nm: "qs1 = put_buf qs p (b\<lparr>b_name := nm\<rparr>)" "nm \<notin> set (other_names qs p)"
    using set_buffer_name_other [OF assms(3,2)] .
  then show ?thesis
    using editor_ok_put [OF assms(1), of "b\<lparr>b_name := nm\<rparr>"] by simp
qed

lemma ok_but_name_put: "ok_but_name qs p \<Longrightarrow> ok_but_name (put_buf qs p b) p"
  unfolding ok_but_name_def windows_ok_def
  by (auto elim!: names_apart_subset dest!: set_put_buf)

lemma set_filename_ok:
  assumes "ok_but_name qs p" "buf_at qs p = Some b" "set_filename qs p f = Some qs1"
  shows "editor_ok qs1 \<and> first_window qs1 = first_window qs \<and> buffer_ptrs qs1 = buffer_ptrs qs"
proof -
  define c where "c = b\<lparr>filename := take 1023 f\<rparr>"
  have "buf_at (put_buf qs p c) p = Some c" "set_buffer_name (put_buf qs p c) p (qe_basename f) = Some qs1"
    using assms(2,3) by (simp_all add: set_filename_def MAX_FILENAME_SIZE_def c_def)
  from set_buffer_name_ok [OF ok_but_name_put [OF assms(1)] this] show ?thesis
    by simp
qed

lemma switch_to_buffer_fields [simp]:
  "first_buffer (switch_to_buffer qs s p) = first_buffer qs"
  "fresh_ptr (switch_to_buffer qs s p) = fresh_ptr qs"
  "buffer_ptrs (switch_to_buffer qs s p) = buffer_ptrs qs"
  "buffer_names (switch_to_buffer qs s p) = buffer_names qs"
  by (simp_all add: switch_to_buffer_def buffer_ptrs_def buffer_names_def)

lemma editor_ok_switch:
  "editor_ok qs \<Longrightarrow> p \<in> set (buffer_ptrs qs) \<Longrightarrow> editor_ok (switch_to_buffer qs s p)"
  by (auto simp: editor_ok_def windows_ok_def) (auto simp: switch_to_buffer_def split: if_splits)

lemma eb_new_ptrs: "eb_new qs name flags = (p, qs1) \<Longrightarrow> p \<in> set (buffer_ptrs qs1)"
  by (auto simp: eb_new_def Let_def buffer_ptrs_def)

lemma alloc_buffer_name [simp]: "b_name (alloc_buffer name flags) = take 255 name"
  by (simp add: alloc_buffer_def eb_add_callback_def)

lemma eb_new_ok:
  assumes "editor_ok qs" "eb_new qs name flags = (p, qs1)"
  shows "ok_but_name qs1 p" "buf_at qs1 p = Some (alloc_buffer name flags)"
    "shared_name name \<or> name \<notin> set (buffer_names qs) \<Longrightarrow> editor_ok qs1"
proof -
  have q: "qs1 = qs\<lparr>first_buffer := (fresh_ptr qs, alloc_buffer name flags) # first_buffer qs,
      fresh_ptr := fresh_ptr qs + 1\<rparr>" "p = fresh_ptr qs"
    using assms(2) by (auto simp: eb_new_def Let_def)
  have less: "q < p" if "(q, b) \<in> set (first_buffer qs)" for q b
    using assms(1) that q(2) by (force simp: editor_ok_def buffer_ptrs_def)
  have rest: "distinct (buffer_ptrs qs1)" "\<forall>p \<in> set (buffer_ptrs qs1). p < fresh_ptr qs1" "windows_ok qs1"
    using assms(1) less by (force simp: editor_ok_def q windows_ok_def buffer_ptrs_def)+
  have apart: "names_apart (set (first_buffer qs))"
    using assms(1) by (simp add: editor_ok_def)
  then show "ok_but_name qs1 p"
    using rest unfolding ok_but_name_def by (auto simp: q elim!: names_apart_subset)
  show "buf_at qs1 p = Some (alloc_buffer name flags)"
    by (simp add: q buf_at_def)
  assume name: "shared_name name \<or> name \<notin> set (buffer_names qs)"
  have new: "shared_name (take 255 name)" if "(q, b) \<in> set (first_buffer qs)" "b_name b = take 255 name" for q b
  proof (cases "shared_name name")
    case False
    have "b_name b \<in> set (buffer_names qs)"
      using that(1) by (force simp: buffer_names_def)
    then have "take 255 name \<noteq> name"
      using False name that(2) by auto
    then show ?thesis
      using shared_name_cut [of name] by blast
  qed (rule shared_name_take)
  have "names_apart (set (first_buffer qs1))"
    unfolding names_apart_def
  proof (clarify, goal_cases)
    case (1 q c r d)
    then show ?case
      using new [of q c] new [of r d] apart unfolding names_apart_def by (auto simp: q)
  qed
  then show "editor_ok qs1"
    using rest by (simp add: editor_ok_def)
qed

lemma switch_all_eq:
  "switch_all qs p p1 es = qs\<lparr>first_window :=
     map (\<lambda>(e, q). if (e, p) \<in> set es then (e, p1) else (e, q)) (first_window qs)\<rparr>"
proof (induction qs p p1 es rule: switch_all.induct)
  case (1 qs p p1)
  have "map (\<lambda>(e, q). (e, q)) (first_window qs) = first_window qs" by (simp add: split_def)
  then show ?case by simp
next
  case (2 qs p p1 e q es)
  then show ?case by (auto simp: switch_to_buffer_def intro!: arg_cong [of _ _ "\<lambda>w. qs\<lparr>first_window := w\<rparr>"])
qed

lemma unlink_buffer_eq:
  "unlink_buffer p bs = Some bs' \<Longrightarrow> distinct (map fst bs) \<Longrightarrow> bs' = filter (\<lambda>(q, b). q \<noteq> p) bs"
proof (induction p bs arbitrary: bs' rule: unlink_buffer.induct)
  case (2 p q b bs)
  show ?case
  proof (cases "q = p")
    case True
    have "filter (\<lambda>(q, b). q \<noteq> p) bs = bs" using 2(3) True by (force intro!: filter_True)
    then show ?thesis using 2(2) True by simp
  qed (use 2 in auto)
qed simp

lemma unlink_buffer_total: "p \<in> fst ` set bs \<Longrightarrow> unlink_buffer p bs \<noteq> None"
  by (induction p bs rule: unlink_buffer.induct) auto

lemma find_other_Some: "find_other p bs = Some q \<Longrightarrow> q \<noteq> p \<and> q \<in> fst ` set bs"
  by (induction p bs rule: find_other.induct) (auto split: if_splits)

lemma find_other_None: "find_other p bs = None \<Longrightarrow> (q, b) \<in> set bs \<Longrightarrow> q \<noteq> p \<Longrightarrow> is_system b"
  by (induction p bs rule: find_other.induct) (auto split: if_splits)

text \<open>Freeing a buffer whose windows are switched to another one.\<close>

lemma free_switched:
  assumes "ok_but_name qs p" "p1 \<noteq> p" "p1 \<in> set (buffer_ptrs qs)" "p \<in> set (buffer_ptrs qs)"
  shows "\<exists>qs'. eb_free (switch_all qs p p1 (first_window qs)) p = Some qs' \<and> editor_ok qs' \<and>
    first_buffer qs' = filter (\<lambda>(q, b). q \<noteq> p) (first_buffer qs)"
proof -
  define bs where "bs = filter (\<lambda>(q, b). q \<noteq> p) (first_buffer qs)"
  define ws where "ws = map (\<lambda>(e, q). if (e, p) \<in> set (first_window qs) then (e, p1) else (e, q)) (first_window qs)"
  have d: "distinct (map fst (first_buffer qs))"
    using assms(1) by (simp add: ok_but_name_def buffer_ptrs_def)
  have "unlink_buffer p (first_buffer qs) = Some bs"
  proof -
    have "unlink_buffer p (first_buffer qs) \<noteq> None"
      by (rule unlink_buffer_total) (use assms(4) in \<open>simp add: buffer_ptrs_def\<close>)
    then obtain bs' where bs': "unlink_buffer p (first_buffer qs) = Some bs'" by blast
    with unlink_buffer_eq [OF bs' d] show ?thesis by (simp add: bs_def)
  qed
  then have free: "eb_free (switch_all qs p p1 (first_window qs)) p = Some (qs\<lparr>first_window := ws, first_buffer := bs\<rparr>)"
    by (simp add: eb_free_def switch_all_eq ws_def)
  have distinct: "distinct (map fst bs)" "names_apart (set bs)"
    using d assms(1) by (auto simp: ok_but_name_def bs_def distinct_map_filter elim!: names_apart_subset)
  have windows: "q \<in> fst ` set bs" if "(e, q) \<in> set ws" for e q
  proof -
    have mem: "x \<in> fst ` set bs \<longleftrightarrow> x \<in> fst ` set (first_buffer qs) \<and> x \<noteq> p" for x
      by (force simp: bs_def)
    from that have "q = p1 \<or> ((e, q) \<in> set (first_window qs) \<and> q \<noteq> p)"
      by (auto simp: ws_def split: if_splits)
    then show ?thesis
    proof
      assume "q = p1"
      then show ?thesis using assms(2,3) unfolding mem by (simp add: buffer_ptrs_def)
    next
      assume "(e, q) \<in> set (first_window qs) \<and> q \<noteq> p"
      moreover have "windows_ok qs" using assms(1) by (simp add: ok_but_name_def)
      ultimately show ?thesis unfolding mem by (fastforce simp: windows_ok_def buffer_ptrs_def)
    qed
  qed
  have others: "q < fresh_ptr qs" if "(q, b) \<in> set bs" for q b
    using that assms(1) by (force simp: bs_def ok_but_name_def buffer_ptrs_def)
  have "editor_ok (qs\<lparr>first_window := ws, first_buffer := bs\<rparr>)"
    unfolding editor_ok_def windows_ok_def buffer_ptrs_def buffer_names_def
    using distinct windows others by auto
  with free show ?thesis unfolding bs_def by auto
qed

lemma kill_ok:
  assumes "editor_ok qs" "p \<in> set (buffer_ptrs qs)"
  shows "\<exists>qs'. kill_buffer_noconfirm qs p = Some qs' \<and> editor_ok qs' \<and> p \<notin> set (buffer_ptrs qs')"
proof (cases "find_other p (first_buffer qs)")
  case (Some q)
  then have "q \<noteq> p" "q \<in> set (buffer_ptrs qs)" using find_other_Some by (auto simp: buffer_ptrs_def)
  from free_switched [OF ok_but_name [OF assms(1)] this assms(2)] show ?thesis
    using Some by (auto simp: kill_buffer_noconfirm_def buffer_ptrs_def)
next
  case None
  obtain p1 qs1 where n: "eb_new qs ''*scratch*'' BF_SAVELOG = (p1, qs1)" by fastforce
  have q: "first_buffer qs1 = (p1, alloc_buffer ''*scratch*'' BF_SAVELOG) # first_buffer qs"
    "p1 = fresh_ptr qs" "first_window qs1 = first_window qs" using n by (auto simp: eb_new_def Let_def)
  have ne: "p1 \<noteq> p" using assms q(2) by (auto simp: editor_ok_def)
  have "editor_ok qs1"
    using eb_new_ok(3) [OF assms(1) n] by (simp add: shared_name_def)
  moreover have "p1 \<in> set (buffer_ptrs qs1)" "p \<in> set (buffer_ptrs qs1)"
    using assms(2) by (simp_all add: buffer_ptrs_def q)
  ultimately obtain qs' where "eb_free (switch_all qs1 p p1 (first_window qs1)) p = Some qs'" "editor_ok qs'"
    "first_buffer qs' = filter (\<lambda>(q, b). q \<noteq> p) (first_buffer qs1)"
    using free_switched [OF ok_but_name ne] by blast
  then show ?thesis
    using None n by (auto simp: kill_buffer_noconfirm_def buffer_ptrs_def)
qed

lemma buf_at_listed: "buf_at qs p = Some b \<Longrightarrow> p \<in> set (buffer_ptrs qs)"
  by (force simp: buf_at_def buffer_ptrs_def dest: map_of_SomeD)

text \<open>A buffer that no window shows is freed.\<close>

lemma eb_free_ok:
  assumes "editor_ok qs" "\<not> shown qs p" "eb_free qs p = Some qs1"
  shows "editor_ok qs1"
proof -
  have d: "distinct (map fst (first_buffer qs))"
    using assms(1) by (simp add: editor_ok_def buffer_ptrs_def)
  obtain bs where bs: "unlink_buffer p (first_buffer qs) = Some bs" "qs1 = qs\<lparr>first_buffer := bs\<rparr>"
    using assms(3) by (auto simp: eb_free_def bind_eq_Some_conv)
  note bs' = unlink_buffer_eq [OF bs(1) d]
  have "distinct (map fst bs)" "names_apart (set bs)"
    using assms(1) d by (auto simp: bs' editor_ok_def distinct_map_filter elim!: names_apart_subset)
  moreover have "q \<in> fst ` set bs" if "(e, q) \<in> set (first_window qs)" for e q
  proof -
    have "q \<noteq> p"
      using assms(2) that by (auto simp: shown_def list_ex_iff)
    moreover have "q \<in> fst ` set (first_buffer qs)"
      using assms(1) that by (auto simp: editor_ok_def windows_ok_def buffer_ptrs_def)
    ultimately show ?thesis
      by (force simp: bs')
  qed
  ultimately show ?thesis
    using assms(1) unfolding editor_ok_def by (auto simp: bs(2) bs' windows_ok_def buffer_ptrs_def)
qed

lemma editor_step_ok: "editor_step qs qs' \<Longrightarrow> editor_ok qs \<Longrightarrow> editor_ok qs'"
proof (induction rule: editor_step.induct)
  case (load qs p qs1 f qs2 s)
  from set_filename_ok [OF eb_new_ok(1,2) [OF load(3,1)] load(2)] show ?case
    using editor_ok_switch eb_new_ptrs [OF load(1)] by simp
next
  case (run qs p qs1 name qs2)
  then show ?case using set_buffer_name_ok [OF eb_new_ok(1,2)] by blast
next
  case (rename qs p b f qs1)
  then show ?case using set_filename_ok [OF ok_but_name] by blast
next
  case (select qs s name)
  show ?case
  proof (cases "eb_find qs name")
    case None
    obtain p qs1 where n: "eb_new qs name BF_SAVELOG = (p, qs1)" by fastforce
    have "editor_ok qs1"
      using eb_new_ok(3) [OF select n] None by (simp add: eb_find_None)
    then show ?thesis using None n editor_ok_switch eb_new_ptrs [OF n] by (simp add: do_switch_to_buffer_def)
  next
    case (Some p)
    then have "p \<in> set (buffer_ptrs qs)" using find_buffer_Some by (force simp: eb_find_def buffer_ptrs_def)
    then show ?thesis using Some select editor_ok_switch by (simp add: do_switch_to_buffer_def)
  qed
next
  case (create name qs flags p qs1)
  then show ?case using eb_new_ok(3) by (simp add: eb_find_None)
next
  case (display qs p b s)
  then show ?case using editor_ok_switch buf_at_listed by blast
next
  case (open_window qs p b s)
  then show ?case using buf_at_listed by (auto simp: editor_ok_def windows_ok_def buffer_ptrs_def)
next
  case (close_window qs s)
  then show ?case by (auto simp: editor_ok_def windows_ok_def buffer_ptrs_def)
next
  case (change qs p b b')
  have "b_name b \<in> set (other_names qs p) \<Longrightarrow> shared_name (b_name b)"
    using change(1,3) unfolding in_other_names editor_ok_def names_apart_def buf_at_def by (fastforce dest: map_of_SomeD)
  then show ?case
    using editor_ok_put [OF ok_but_name [OF change(3)], of b' p] change(2) by auto
next
  case (kill qs p b qs1)
  then show ?case using kill_ok [OF _ buf_at_listed] by force
next
  case (free qs p qs1)
  then show ?case using eb_free_ok by blast
qed

text \<open>C10. Buffers and windows stay consistent. Whatever sequence of the steps of \<open>editor_step\<close> is made, the addresses
  of the buffers are different, no address in use is handed out again, two buffers have the same name only if it is
  one of \<open>shared_name\<close>, every window shows a buffer that is in the list, and killing any listed buffer succeeds, after
  which it is neither listed nor shown. Buffers that are freed without being killed are not shown in a
  window (\<open>new_yank_buffer\<close> does not look, see \<open>freed_while_shown\<close>).
\<close>

theorem buffers_consistent:
  assumes "editor_step\<^sup>*\<^sup>* qs0 qs" "editor_ok qs0"
  shows "distinct (map fst (first_buffer qs)) \<and>
    (\<forall>p \<in> fst ` set (first_buffer qs). p \<noteq> fst (eb_new qs name flags)) \<and>
    (\<forall>(p, b) \<in> set (first_buffer qs). \<forall>(q, c) \<in> set (first_buffer qs).
      b_name b = b_name c \<longrightarrow> p = q \<or> shared_name (b_name b)) \<and>
    (\<forall>(e, p) \<in> set (first_window qs). buf_at qs p \<noteq> None) \<and>
    (\<forall>p. buf_at qs p \<noteq> None \<longrightarrow>
      (\<exists>qs'. kill_buffer_noconfirm qs p = Some qs' \<and> buf_at qs' p = None \<and> \<not> shown qs' p))"
proof -
  have ok: "editor_ok qs" using assms by induction (auto dest: editor_step_ok)
  have at: "buf_at q p = None \<longleftrightarrow> p \<notin> set (buffer_ptrs q)" for q p
    by (simp add: buf_at_def buffer_ptrs_def map_of_eq_None_iff)
  have "\<exists>qs'. kill_buffer_noconfirm qs p = Some qs' \<and> buf_at qs' p = None \<and> \<not> shown qs' p"
    if "buf_at qs p \<noteq> None" for p
  proof -
    have "p \<in> set (buffer_ptrs qs)" using that at by metis
    then obtain qs' where k: "kill_buffer_noconfirm qs p = Some qs'" "editor_ok qs'"
      "p \<notin> set (buffer_ptrs qs')" using kill_ok [OF ok] by blast
    then have "\<not> shown qs' p" by (auto simp: editor_ok_def windows_ok_def shown_def list_ex_iff)
    then show ?thesis using k at by blast
  qed
  moreover have "distinct (map fst (first_buffer qs))" "\<forall>p \<in> fst ` set (first_buffer qs). p \<noteq> fst (eb_new qs name flags)"
    using ok by (auto simp: editor_ok_def buffer_ptrs_def eb_new_def Let_def)
  moreover have "\<forall>(p, b) \<in> set (first_buffer qs). \<forall>(q, c) \<in> set (first_buffer qs).
      b_name b = b_name c \<longrightarrow> p = q \<or> shared_name (b_name b)"
    using ok by (simp add: editor_ok_def names_apart_def)
  moreover have "\<forall>(e, p) \<in> set (first_window qs). buf_at qs p \<noteq> None"
    using ok at by (auto simp: editor_ok_def windows_ok_def)
  ultimately show ?thesis
    by blast
qed

text \<open>
  Freeing a buffer that is shown leaves a window with it: \<open>new_yank_buffer\<close> does so when the oldest kill is
  displayed, which the user may have selected by the name \<open>*yank*\<close>.
\<close>

lemma freed_while_shown:
  assumes "editor_ok qs" "shown qs p" "eb_free qs p = Some qs1"
  shows "shown qs1 p \<and> buf_at qs1 p = None"
proof -
  have d: "distinct (map fst (first_buffer qs))"
    using assms(1) by (simp add: editor_ok_def buffer_ptrs_def)
  obtain bs where bs: "unlink_buffer p (first_buffer qs) = Some bs" "qs1 = qs\<lparr>first_buffer := bs\<rparr>"
    using assms(3) by (auto simp: eb_free_def bind_eq_Some_conv)
  show ?thesis
    using assms(2) unlink_buffer_eq [OF bs(1) d] by (auto simp: bs(2) shown_def buf_at_def map_of_eq_None_iff)
qed

definition no_buffers :: QEmacsState where
  "no_buffers = \<lparr>first_buffer = [], first_window = [], fresh_ptr = 1\<rparr>"

definition with_file :: QEmacsState where
  "with_file = no_buffers\<lparr>first_buffer := [(2, alloc_buffer [] BF_SAVELOG), (1, alloc_buffer ''a.c'' BF_SAVELOG)],
     fresh_ptr := 3\<rparr>"

lemma with_file_ptrs:
  "distinct (buffer_ptrs with_file)" "buf_at with_file 2 = Some (alloc_buffer [] BF_SAVELOG)"
  "length (first_buffer with_file) < 99999998"
  by (simp_all add: with_file_def buffer_ptrs_def buf_at_def)

theorem set_buffer_name_spec_witness:
  "(\<exists>nm. set_buffer_name with_file 2 ''a.c'' =
      Some (put_buf with_file 2 ((alloc_buffer [] BF_SAVELOG)\<lparr>b_name := nm\<rparr>)) \<and> length nm \<le> 255 \<and>
      chosen_name (set (other_names with_file 2)) (take 245 ''a.c'') nm) \<and>
    chosen_name (set (other_names with_file 2)) (take 245 ''a.c'') ''a.c<2>''"
proof
  show "\<exists>nm. set_buffer_name with_file 2 ''a.c'' =
      Some (put_buf with_file 2 ((alloc_buffer [] BF_SAVELOG)\<lparr>b_name := nm\<rparr>)) \<and> length nm \<le> 255 \<and>
    chosen_name (set (other_names with_file 2)) (take 245 ''a.c'') nm"
    by (rule set_buffer_name_spec [OF with_file_ptrs])
  have "dec 2 = ''2''" by code_simp
  then show "chosen_name (set (other_names with_file 2)) (take 245 ''a.c'') ''a.c<2>''"
    by (auto simp: chosen_name_def with_file_def no_buffers_def other_names_def suffix_no_def intro: exI [of _ 2])
qed

text \<open>Two buffers of the kill ring with the same name, and one of the user.\<close>

theorem buffers_consistent_witness:
  "\<exists>qs. editor_step\<^sup>*\<^sup>* no_buffers qs \<and> map (\<lambda>(p, b). b_name b) (first_buffer qs) = [''x'', ''*yank*'', ''*yank*''] \<and>
     (\<exists>qs'. kill_buffer_noconfirm qs 3 = Some qs' \<and> buf_at qs' 3 = None)"
proof -
  define yank where "yank qs = snd (eb_new qs ''*yank*'' BF_SYSTEM)" for qs
  define q where "q = do_switch_to_buffer (yank (yank no_buffers)) 0 ''x''"
  have y: "editor_step qs (yank qs)" for qs
    by (rule editor_step.create [where name = "''*yank*''"]) (auto simp: yank_def shared_name_def intro: prod.collapse [symmetric])
  have s: "editor_step\<^sup>*\<^sup>* no_buffers q"
    using y [of no_buffers] y [of "yank no_buffers"] editor_step.select [of "yank (yank no_buffers)" 0 "''x''"]
    unfolding q_def by (metis converse_rtranclp_into_rtranclp rtranclp.rtrancl_refl)
  have "editor_ok no_buffers"
    by (simp add: editor_ok_def no_buffers_def windows_ok_def buffer_ptrs_def names_apart_def)
  note c = buffers_consistent [OF s this]
  have n: "map (\<lambda>(p, b). b_name b) (first_buffer q) = [''x'', ''*yank*'', ''*yank*'']" "buf_at q 3 \<noteq> None"
    by (simp_all add: q_def do_switch_to_buffer_def eb_find_def no_buffers_def eb_new_def yank_def buf_at_def Let_def)
  have "buf_at q 3 \<noteq> None \<longrightarrow> (\<exists>qs'. kill_buffer_noconfirm q 3 = Some qs' \<and> buf_at qs' 3 = None \<and> \<not> shown qs' 3)"
    by (rule spec [OF conjunct2 [OF conjunct2 [OF conjunct2 [OF conjunct2 [OF c [of "[]" 0]]]]]])
  then obtain qs' where "kill_buffer_noconfirm q 3 = Some qs'" "buf_at qs' 3 = None"
    using n(2) by (elim impE exE conjE)
  then show ?thesis
    using s n(1) by (intro exI [of _ q] exI [of _ qs'] conjI)
qed

text \<open>Names that are too long. A name of more than 255 characters is cut off when a buffer is
  created for it, but \<open>do_switch_to_buffer\<close> looks for the whole name: selecting the same name twice
  makes two buffers of the same name, of which \<open>eb_find\<close> only ever finds one.\<close>

theorem long_names_duplicate:
  assumes "255 < length name" "\<forall>(p, b) \<in> set (first_buffer qs). length (b_name b) \<le> 255"
    "do_switch_to_buffer (do_switch_to_buffer qs s name) s name = qs2"
  shows "\<exists>p1 p2 b1 b2. first_buffer qs2 = (p1, b1) # (p2, b2) # first_buffer qs \<and> p1 \<noteq> p2 \<and>
    b_name b1 = take 255 name \<and> b_name b2 = take 255 name \<and> eb_find qs2 (take 255 name) = Some p1"
proof -
  have new: "first_buffer (do_switch_to_buffer q s name) = (fresh_ptr q, alloc_buffer name BF_SAVELOG) # first_buffer q"
    "fresh_ptr (do_switch_to_buffer q s name) = fresh_ptr q + 1"
    if "\<forall>(p, b) \<in> set (first_buffer q). length (b_name b) \<le> 255" for q
  proof -
    have "eb_find q name = None"
      using that assms(1) by (auto simp: eb_find_None buffer_names_def)
    then show "first_buffer (do_switch_to_buffer q s name) = (fresh_ptr q, alloc_buffer name BF_SAVELOG) # first_buffer q"
      "fresh_ptr (do_switch_to_buffer q s name) = fresh_ptr q + 1"
      by (simp_all add: do_switch_to_buffer_def eb_new_def Let_def)
  qed
  have "\<forall>(p, b) \<in> set (first_buffer (do_switch_to_buffer qs s name)). length (b_name b) \<le> 255"
    using assms(2) by (simp add: new)
  from new(1) [OF this] new [OF assms(2)] assms(3) show ?thesis
    by (simp add: eb_find_def)
qed

theorem long_names_duplicate_witness:
  "\<exists>p1 p2 b1 b2. first_buffer (do_switch_to_buffer (do_switch_to_buffer no_buffers 0 (replicate 300 CHR ''a'')) 0
      (replicate 300 CHR ''a'')) = (p1, b1) # (p2, b2) # first_buffer no_buffers \<and> b_name b1 = b_name b2"
  using long_names_duplicate [of "replicate 300 CHR ''a''" no_buffers 0]
  by (fastforce simp: no_buffers_def)

end
