(* ===== verification/Buffer_Files.thy ===== *)
theory Buffer_Files
  imports Buffers Lines
begin

text \<open>
  Buffers and files: loading, mapping and saving in \<open>src/buffer.c\<close>, reloading, inserting a file and
  converting the charset of a buffer in \<open>src/qe.c\<close>. This theory holds the definitions;
  \<open>File_Theorems\<close> proves what they do.

  The disk is a directory of names that lead to numbered files (inodes), each with its bytes and its
  permissions. What the operating system does with the calls of the program is an argument: whether a
  file can be opened or renamed, and what \<open>write\<close> returns.
\<close>

section \<open>The disk\<close>

record Disk =
  entries :: "string \<Rightarrow> nat option"
  inode_data :: "nat \<Rightarrow> u8 list"
  inode_mode :: "nat \<Rightarrow> nat"
  fresh_inode :: nat

definition file_at :: "Disk \<Rightarrow> string \<Rightarrow> u8 list option" where
  "file_at d f = map_option (inode_data d) (entries d f)"

definition mode_at :: "Disk \<Rightarrow> string \<Rightarrow> nat option" where
  "mode_at d f = map_option (inode_mode d) (entries d f)"

text \<open>\<open>rename\<close>, which does nothing if both names lead to the same file.\<close>

definition rename_file :: "Disk \<Rightarrow> string \<Rightarrow> string \<Rightarrow> Disk" where
  "rename_file d f g = (case entries d f of
       None \<Rightarrow> d
     | Some i \<Rightarrow> if entries d g = Some i then d
         else d\<lparr>entries := (entries d)(g \<mapsto> i, f := None)\<rparr>)"

text \<open>\<open>open\<close> with \<open>O_CREAT\<close> and \<open>O_TRUNC\<close>.\<close>

definition open_trunc :: "Disk \<Rightarrow> string \<Rightarrow> nat \<Rightarrow> nat \<times> Disk" where
  "open_trunc d f mode = (case entries d f of
       Some i \<Rightarrow> (i, d\<lparr>inode_data := (inode_data d)(i := [])\<rparr>)
     | None \<Rightarrow> let i = fresh_inode d in
         (i, d\<lparr>entries := (entries d)(f \<mapsto> i), inode_data := (inode_data d)(i := []),
               inode_mode := (inode_mode d)(i := mode), fresh_inode := i + 1\<rparr>))"

definition chmod_file :: "Disk \<Rightarrow> string \<Rightarrow> nat \<Rightarrow> Disk" where
  "chmod_file d f mode = (case entries d f of
       None \<Rightarrow> d | Some i \<Rightarrow> d\<lparr>inode_mode := (inode_mode d)(i := mode)\<rparr>)"

text \<open>
  The environment of a save. \<open>write_results\<close> are the results of the first calls of \<open>write\<close>:
  negative for an error, otherwise the number of bytes the system is ready to take; later calls
  take all they get.
\<close>

record Save_Env =
  renames :: bool
  opens :: bool
  write_results :: "int list"

section \<open>Loading\<close>

text \<open>The environment of a load: whether \<open>fopen\<close>, and in \<open>mmap_buffer\<close> \<open>open\<close>, \<open>mmap\<close> and \<open>malloc\<close> succeed.\<close>

record Load_Env =
  fopens :: bool
  mmap_opens :: bool
  mmaps :: bool
  page_mallocs :: bool

definition IOBUF_SIZE :: nat where "IOBUF_SIZE = 32768"
definition MIN_MMAP_SIZE :: nat where "MIN_MMAP_SIZE = 1024 * 1024"

text \<open>Insert what \<open>fread\<close> returns, call by call, up to the first empty result.\<close>

fun raw_load_buffer1 :: "EditBuffer \<Rightarrow> nat \<Rightarrow> u8 list list \<Rightarrow> (int \<times> EditBuffer) option" where
  "raw_load_buffer1 b offset [] = Some (0, b)"
| "raw_load_buffer1 b offset (buf # reads) =
     (if buf = [] then Some (0, b)
      else do {
        b \<leftarrow> eb_insert b offset buf;
        raw_load_buffer1 b (offset + length buf) reads })"

text \<open>Pieces of at most \<open>n\<close> elements: the results of \<open>fread\<close> on a file.\<close>

function pieces :: "nat \<Rightarrow> 'a list \<Rightarrow> 'a list list" where
  "pieces n xs = (if xs = [] \<or> n = 0 then [] else take n xs # pieces n (drop n xs))"
  by pat_completeness auto
termination by (relation "measure (\<lambda>(n, xs). length xs)") auto

declare pieces.simps [simp del]

text \<open>
  Map the file into the page table. The cache of the current page is left as it is; the numbers
  of a new page are not initialised, and its flags say that they are not valid.
\<close>

definition mapped_page :: "u8 list \<Rightarrow> Page" where
  "mapped_page d = \<lparr>p_data = d, p_flags = PG_READ_ONLY, p_nb_lines = 0, p_col = 0, p_nb_chars = 0\<rparr>"

definition mmap_buffer :: "Load_Env \<Rightarrow> EditBuffer \<Rightarrow> u8 list \<Rightarrow> int \<times> EditBuffer" where
  "mmap_buffer env b file =
     (if \<not> mmap_opens env then (-1, b)
      else if \<not> mmaps env then (-1, b)
      else if \<not> page_mallocs env then (-1, b)
      else (0, b\<lparr>page_table := map mapped_page (pieces MAX_PAGE_SIZE file), total_size := length file\<rparr>))"

text \<open>\<open>rest\<close> is what has not been read yet of the stream \<open>f\<close>.\<close>

definition raw_load_buffer :: "Load_Env \<Rightarrow> Disk \<Rightarrow> EditBuffer \<Rightarrow> u8 list \<Rightarrow> (int \<times> EditBuffer) option" where
  "raw_load_buffer env d b rest = (case file_at d (filename b) of
       Some file \<Rightarrow> if length file \<ge> MIN_MMAP_SIZE then Some (mmap_buffer env b file)
         else raw_load_buffer1 b 0 (pieces IOBUF_SIZE rest)
     | None \<Rightarrow> raw_load_buffer1 b 0 (pieces IOBUF_SIZE rest))"

text \<open>
  \<open>reload_buffer\<close> for the raw data type: from the rest of the open stream \<open>f1\<close> or from the
  beginning of the file of the buffer.
\<close>

definition reload_buffer :: "Load_Env \<Rightarrow> Disk \<Rightarrow> EditBuffer \<Rightarrow> u8 list option \<Rightarrow> (int \<times> EditBuffer) option" where
  "reload_buffer env d b f1 =
     (if filename b = [] then Some (0, b)
      else case (case f1 of None \<Rightarrow> (if fopens env then file_at d (filename b) else None) | Some r \<Rightarrow> Some r) of
        None \<Rightarrow> Some (-1, b)
      | Some rest \<Rightarrow> do {
          let saved = save_log b;
          (ret, b) \<leftarrow> raw_load_buffer env d (b\<lparr>save_log := False\<rparr>) rest;
          let b = b\<lparr>modified := False, save_log := saved\<rparr>;
          Some (if ret < 0 then -1 else 0, b) })"

text \<open>Insert a file at the offset of the window.\<close>

definition do_insert_file :: "Disk \<Rightarrow> EditBuffer \<Rightarrow> nat \<Rightarrow> string \<Rightarrow> EditBuffer option" where
  "do_insert_file d b offset f = (case file_at d f of
       None \<Rightarrow> Some b
     | Some file \<Rightarrow> do { (r, b) \<leftarrow> raw_load_buffer1 b offset (pieces IOBUF_SIZE file); Some b })"

section \<open>Saving\<close>

text \<open>
  The loop of \<open>raw_save_buffer\<close> with \<open>size\<close> bytes to go and \<open>out\<close> written so far.
\<close>

function save_loop :: "EditBuffer \<Rightarrow> nat \<Rightarrow> int list \<Rightarrow> u8 list
    \<Rightarrow> (int \<times> u8 list \<times> EditBuffer) option" where
  "save_loop b sz ws out =
     (if sz = 0 then Some (0, out, b)
      else case eb_read b (total_size b - sz) (min sz IOBUF_SIZE) of
        None \<Rightarrow> None
      | Some (buf, b) \<Rightarrow>
          (case ws of
             [] \<Rightarrow> save_loop b (sz - min sz IOBUF_SIZE) [] (out @ buf)
           | w # ws \<Rightarrow> if w < 0 then Some (-1, out, b)
               else let len = min (nat w) (min sz IOBUF_SIZE)
                    in save_loop b (sz - len) ws (out @ take len buf)))"
  by pat_completeness auto
termination
  by (relation "measures [\<lambda>(b, sz, ws, out). length ws, \<lambda>(b, sz, ws, out). sz]")
    (auto simp: IOBUF_SIZE_def)

declare save_loop.simps [simp del]

text \<open>
  \<open>mapping\<close> is the file that the read-only pages of the buffer are mapped from, if any. Opening that
  same file truncates it, and the pages can no longer be read.
\<close>

definition raw_save_buffer :: "Save_Env \<Rightarrow> nat option \<Rightarrow> Disk \<Rightarrow> EditBuffer \<Rightarrow> string
    \<Rightarrow> (int \<times> Disk \<times> EditBuffer) option" where
  "raw_save_buffer env mapping d b f =
     (if \<not> opens env then Some (-1, d, b)
      else let (fd, d) = open_trunc d f 384 in do {
        guard (\<not> (mapping = Some fd \<and> list_ex (\<lambda>p. has_flag p PG_READ_ONLY) (page_table b)));
        (ret, out, b) \<leftarrow> save_loop b (total_size b) (write_results env) [];
        Some (ret, d\<lparr>inode_data := (inode_data d)(fd := out)\<rparr>, b) })"

definition PATH_MAX :: nat where "PATH_MAX = 4096"

definition backup_name :: "string \<Rightarrow> string \<Rightarrow> string" where
  "backup_name backup_dir f = backup_dir @ ''/'' @ qe_basename f @ ''~''"

definition save_buffer :: "Save_Env \<Rightarrow> string \<Rightarrow> nat option \<Rightarrow> Disk \<Rightarrow> EditBuffer
    \<Rightarrow> (int \<times> Disk \<times> EditBuffer) option" where
  "save_buffer env g_backup_dir mapping d b = do {
     let f = filename b;
     let mode = (case mode_at d f of None \<Rightarrow> 420 | Some m \<Rightarrow> m mod 512);
     let buf1 = backup_name g_backup_dir f;
     guard (length buf1 < PATH_MAX);
     let d = (if renames env then rename_file d f buf1 else d);
     (ret, d, b) \<leftarrow> raw_save_buffer env mapping d b f;
     if ret < 0 then Some (ret, d, b)
     else Some (0, chmod_file d f mode, (log_reset b)\<lparr>modified := False\<rparr>) }"

section \<open>Changing the charset\<close>

partial_function (option) convert_loop ::
    "u8 list \<Rightarrow> QECharset \<Rightarrow> EditBuffer \<Rightarrow> int \<Rightarrow> EditBuffer \<Rightarrow> (EditBuffer \<times> EditBuffer) option" where
  "convert_loop junk cs b offset b1 =
     (if offset < int (total_size b) then do {
        (c, offset, b) \<leftarrow> eb_nextc b junk offset;
        buf \<leftarrow> char_bytes c cs;
        b1 \<leftarrow> eb_write b1 (total_size b1) buf;
        convert_loop junk cs b offset b1 }
      else Some (b, b1))"

definition do_convert_buffer_file_coding_system ::
    "u8 list \<Rightarrow> QECharset list \<Rightarrow> EditBuffer \<Rightarrow> string \<Rightarrow> EditBuffer option" where
  "do_convert_buffer_file_coding_system junk registered b charset_str =
     (case find_charset registered charset_str of
        None \<Rightarrow> Some b
      | Some cs \<Rightarrow> do {
          (b, b1) \<leftarrow> convert_loop junk cs b 0 (alloc_buffer ''*tmp*'' BF_SYSTEM);
          b \<leftarrow> eb_delete b 0 (total_size b);
          (b, b1) \<leftarrow> eb_insert_buffer b 0 b1 0 (total_size b1);
          Some (eb_set_charset b cs) })"

definition do_set_buffer_file_coding_system ::
    "QECharset list \<Rightarrow> EditBuffer \<Rightarrow> string \<Rightarrow> EditBuffer" where
  "do_set_buffer_file_coding_system registered b charset_str =
     (case find_charset registered charset_str of None \<Rightarrow> b | Some cs \<Rightarrow> eb_set_charset b cs)"

declare convert_loop.simps [code]

end
