(* ===== verification/File_Theorems.thy ===== *)
theory File_Theorems
  imports Buffer_Files Undo_Props Line_Theorems Canon_Paths
begin

text \<open>
  The properties of buffers and files: loading a file by reading or mapping it, saving with partial
  writes and errors, and changing the charset of a text.
\<close>

section \<open>Loading\<close>

lemma concat_pieces: "0 < n \<Longrightarrow> concat (pieces n xs) = xs"
proof (induction n xs rule: pieces.induct)
  case (1 n xs)
  then show ?case by (subst pieces.simps) simp
qed

lemma pieces_bounds: "p \<in> set (pieces n xs) \<Longrightarrow> p \<noteq> [] \<and> length p \<le> n"
proof (induction n xs rule: pieces.induct)
  case (1 n xs)
  then show ?case by (cases "xs = [] \<or> n = 0") (auto simp: pieces.simps [of n xs])
qed

text \<open>The bytes that a sequence of reads delivers.\<close>

definition delivered :: "u8 list list \<Rightarrow> u8 list" where
  "delivered reads = concat (takeWhile (\<lambda>r. r \<noteq> []) reads)"

lemma delivered_simps [simp]:
  "delivered [] = []" "delivered (r # rs) = (if r = [] then [] else r @ delivered rs)"
  by (simp_all add: delivered_def)

lemma delivered_pieces [simp]: "0 < n \<Longrightarrow> delivered (pieces n xs) = xs"
proof -
  assume n: "0 < n"
  have "takeWhile (\<lambda>r. r \<noteq> []) (pieces n xs) = pieces n xs"
    using pieces_bounds [of _ n xs] by (simp add: takeWhile_eq_all_conv)
  then show ?thesis using concat_pieces [OF n, of xs] by (simp only: delivered_def)
qed

lemma list_insert_two: "off \<le> length t \<Longrightarrow> list_insert (off + length a) b (list_insert off a t) = list_insert off (a @ b) t"
  by (simp add: list_insert_def)

text \<open>Abstract buffers that differ in the text, the tracked positions and the modified flag.\<close>

definition same_log :: "AbsBuf \<Rightarrow> AbsBuf \<Rightarrow> bool" where
  "same_log a a' \<longleftrightarrow> a_save a' = a_save a \<and> a_callbacks a' = a_callbacks a \<and>
     (\<not> a_save a \<longrightarrow> a_log a' = a_log a \<and> a_cur a' = a_cur a)"

lemma raw_load_buffer1_correct:
  assumes "refines b a" "off \<le> length (a_text a)" "length (a_text a) + length (delivered reads) < 2147483648"
  shows "\<exists>b' a'. raw_load_buffer1 b off reads = Some (0, b') \<and> refines b' a' \<and>
    a_text a' = list_insert off (delivered reads) (a_text a) \<and> same_log a a'"
  using assms
proof (induction b off reads arbitrary: a rule: raw_load_buffer1.induct)
  case (1 b offset)
  then show ?case by (auto simp: same_log_def list_insert_def)
next
  case (2 b offset buf reads)
  show ?case
  proof (cases "buf = []")
    case True
    then show ?thesis using 2(2) by (auto simp: same_log_def list_insert_def)
  next
    case False
    obtain b1 where b1: "eb_insert b offset buf = Some b1" "refines b1 (a_insert a offset buf)"
      using eb_insert_refines [OF 2(2,3), of buf] 2(4) False by auto
    have "\<exists>b' a'. raw_load_buffer1 b1 (offset + length buf) reads = Some (0, b') \<and> refines b' a' \<and>
      a_text a' = list_insert (offset + length buf) (delivered reads) (a_text (a_insert a offset buf)) \<and>
      same_log (a_insert a offset buf) a'"
      by (rule 2(1) [OF False b1]) (use 2(3,4) False in auto)
    moreover have "same_log a (a_insert a offset buf)"
      by (simp add: same_log_def a_insert_def a_addlog_def Let_def)
    ultimately show ?thesis
      using b1(1) False 2(3) by (auto simp: list_insert_two same_log_def)
  qed
qed

lemma mapped_pages:
  "page_bytes (map mapped_page ds) = concat ds"
  "(\<forall>d \<in> set ds. d \<noteq> [] \<and> length d \<le> MAX_PAGE_SIZE) \<Longrightarrow> pages_ok (map mapped_page ds)"
  by (induction ds) (simp_all add: mapped_page_def)

lemma mmap_buffer_refines:
  assumes "refines b a" "a_text a = []" "mmap_opens env" "mmaps env" "page_mallocs env"
  shows "\<exists>b'. mmap_buffer env b fc = (0, b') \<and> refines b' (a\<lparr>a_text := fc\<rparr>) \<and>
    list_all (\<lambda>p. has_flag p PG_READ_ONLY) (page_table b')"
proof -
  let ?b = "snd (mmap_buffer env b fc)"
  have "page_table b = []"
    using refinesD(2,4) [OF assms(1)] assms(2) by (cases "page_table b") (auto simp: buf_ok_def contents_def)
  then have "cur_page b = None"
    using refinesD(2) [OF assms(1)] by (auto simp: buf_ok_def cache_ok_def split: option.splits)
  moreover have "contents ?b = fc"
    using mapped_pages(1) [of "pieces MAX_PAGE_SIZE fc"]
    using assms(3-5) by (simp add: mmap_buffer_def contents_def concat_pieces MAX_PAGE_SIZE_def)
  moreover have "pages_ok (page_table ?b)"
    using assms(3-5) pieces_bounds [of _ MAX_PAGE_SIZE fc] by (simp add: mmap_buffer_def mapped_pages(2))
  ultimately have "buf_ok ?b" "contents ?b = fc" "PageBuf.more ?b = PageBuf.more b"
    using assms(3-5) by (simp_all add: buf_ok_def cache_ok_def) (simp_all add: mmap_buffer_def)
  then have "refines ?b (a\<lparr>a_text := fc\<rparr>)" using refines_textI [OF refinesD(1) [OF assms(1)]] by blast
  moreover have "list_all (\<lambda>p. has_flag p PG_READ_ONLY) (page_table ?b)"
    using assms(3-5) by (auto simp: mmap_buffer_def list_all_iff mapped_page_def has_flag_def PG_READ_ONLY_def)
  ultimately show ?thesis using assms(3-5) by (simp add: mmap_buffer_def)
qed

text \<open>The calls that loading a file of \<open>n\<close> bytes makes succeed.\<close>

definition loads :: "Load_Env \<Rightarrow> nat \<Rightarrow> bool" where
  "loads env n \<longleftrightarrow> fopens env \<and> (MIN_MMAP_SIZE \<le> n \<longrightarrow> mmap_opens env \<and> mmaps env \<and> page_mallocs env)"

lemma load_fails:
  assumes "filename b \<noteq> []" "file_at d (filename b) = Some fc" "\<not> loads env (length fc)"
  shows "\<exists>b'. reload_buffer env d b None = Some (-1, b') \<and> contents b' = contents b"
proof (cases "fopens env")
  case True
  then have "MIN_MMAP_SIZE \<le> length fc" "mmap_buffer env (b\<lparr>save_log := False\<rparr>) fc = (-1, b\<lparr>save_log := False\<rparr>)"
    using assms(3) by (auto simp: loads_def mmap_buffer_def)
  then show ?thesis
    using True assms(1,2) by (simp add: reload_buffer_def raw_load_buffer_def contents_def)
next
  case False
  then show ?thesis
    using assms(1) by (simp add: reload_buffer_def)
qed

lemma load_empty_buffer:
  assumes "refines b a" "a_text a = []" "filename b \<noteq> []" "file_at d (filename b) = Some fc"
    "length fc < 2147483648" "loads env (length fc)"
  shows "\<exists>b'. reload_buffer env d b None = Some (0, b') \<and> contents b' = fc \<and>
      refines b' (a\<lparr>a_text := fc, a_modified := False, a_tracked := tracked b'\<rparr>) \<and>
      (MIN_MMAP_SIZE \<le> length fc \<longrightarrow> list_all (\<lambda>p. has_flag p PG_READ_ONLY) (page_table b'))"
proof -
  define b0 where "b0 = b\<lparr>save_log := False\<rparr>"
  have save: "a_save a = save_log b" using refines_docD(7) [OF refinesD(1) [OF assms(1)]] by simp
  then have "a\<lparr>a_save := save_log b\<rparr> = a" by simp
  then have r0: "refines b0 (a\<lparr>a_save := False\<rparr>)" using assms(1) unfolding b0_def by (simp only: refines_save)
  have fn: "filename b0 = filename b" by (simp add: b0_def)
  define mapping where "mapping b' \<longleftrightarrow> (MIN_MMAP_SIZE \<le> length fc \<longrightarrow>
    list_all (\<lambda>p. has_flag p PG_READ_ONLY) (page_table b'))" for b' :: EditBuffer
  have loaded: "\<exists>b1 a1. raw_load_buffer env d b0 fc = Some (0, b1) \<and> refines b1 a1 \<and> a_text a1 = fc \<and>
      same_log (a\<lparr>a_save := False\<rparr>) a1 \<and> mapping b1"
  proof (cases "MIN_MMAP_SIZE \<le> length fc")
    case True
    obtain b1 where "mmap_buffer env b0 fc = (0, b1)" "refines b1 (a\<lparr>a_save := False, a_text := fc\<rparr>)" "mapping b1"
      using mmap_buffer_refines [OF r0, of env fc] True assms(2,6) by (auto simp: mapping_def loads_def)
    then show ?thesis
      using True assms(4) fn
      by (intro exI [of _ b1] exI [of _ "a\<lparr>a_save := False, a_text := fc\<rparr>"])
        (simp add: raw_load_buffer_def same_log_def)
  next
    case False
    have l: "length (a_text (a\<lparr>a_save := False\<rparr>)) + length (delivered (pieces IOBUF_SIZE fc)) < 2147483648"
      using assms(2,5) by (simp add: IOBUF_SIZE_def)
    obtain b1 a1 where "raw_load_buffer1 b0 0 (pieces IOBUF_SIZE fc) = Some (0, b1)" "refines b1 a1"
      "a_text a1 = fc" "same_log (a\<lparr>a_save := False\<rparr>) a1"
      using raw_load_buffer1_correct [OF r0 _ l] assms(2) by (auto simp: IOBUF_SIZE_def list_insert_def)
    then show ?thesis
      using False assms(4) fn by (auto simp: raw_load_buffer_def mapping_def)
  qed
  obtain b1 a1 where b1: "raw_load_buffer env d b0 fc = Some (0, b1)" "refines b1 a1" "a_text a1 = fc"
    "same_log (a\<lparr>a_save := False\<rparr>) a1" "mapping b1" using loaded by blast
  define b' where "b' = b1\<lparr>modified := False, save_log := save_log b\<rparr>"
  have "a_save a1 = save_log b1" using refines_docD(7) [OF refinesD(1) [OF b1(2)]] by simp
  then have "(a1\<lparr>a_modified := False\<rparr>)\<lparr>a_save := save_log (b1\<lparr>modified := False\<rparr>)\<rparr> = a1\<lparr>a_modified := False\<rparr>"
    by simp
  then have r: "refines b' (a1\<lparr>a_modified := False, a_save := save_log b\<rparr>)"
    using refines_modified [OF b1(2), of False] unfolding b'_def by (metis refines_save)
  have "a_tracked a1 = tracked b'" using refines_docD(4) [OF refinesD(1) [OF r]] by simp
  then have "a1\<lparr>a_modified := False, a_save := save_log b\<rparr> =
      a\<lparr>a_text := fc, a_modified := False, a_tracked := tracked b'\<rparr>"
    using b1(3,4) save by (simp add: same_log_def)
  with r have r: "refines b' (a\<lparr>a_text := fc, a_modified := False, a_tracked := tracked b'\<rparr>)" by simp
  moreover have "reload_buffer env d b None = Some (0, b')"
    using assms(3,4,6) b1(1) by (simp add: reload_buffer_def b0_def b'_def loads_def)
  ultimately show ?thesis
    using refinesD(4) [OF r] b1(5) by (auto simp: mapping_def b'_def)
qed

text \<open>Loading a file. Reloading an empty buffer that is not modified, with its file below 2 GB, succeeds
  if the system calls do, and leaves exactly the bytes of the file as its text, not modified, with a log as before and
  logging as before; files from 1 MB on are mapped, and then all pages are read-only. Other
  sequences of reads, as they come from a pipe, are inserted in their order up to the first empty one.\<close>

theorem load_buffer_spec:
  assumes "refines b a" "a_text a = []" "filename b \<noteq> []" "file_at d (filename b) = Some fc"
    "length fc < 2147483648" "loads env (length fc)"
  shows "(\<exists>b'. reload_buffer env d b None = Some (0, b') \<and> contents b' = fc \<and>
      refines b' (a\<lparr>a_text := fc, a_modified := False, a_tracked := tracked b'\<rparr>) \<and>
      (MIN_MMAP_SIZE \<le> length fc \<longrightarrow> list_all (\<lambda>p. has_flag p PG_READ_ONLY) (page_table b'))) \<and>
    (length (delivered reads) < 2147483648 \<longrightarrow>
      (\<exists>b'. raw_load_buffer1 b 0 reads = Some (0, b') \<and> contents b' = delivered reads))"
proof
  show "\<exists>b'. reload_buffer env d b None = Some (0, b') \<and> contents b' = fc \<and>
      refines b' (a\<lparr>a_text := fc, a_modified := False, a_tracked := tracked b'\<rparr>) \<and>
      (MIN_MMAP_SIZE \<le> length fc \<longrightarrow> list_all (\<lambda>p. has_flag p PG_READ_ONLY) (page_table b'))"
    by (rule load_empty_buffer [OF assms])
next
  show "length (delivered reads) < 2147483648 \<longrightarrow>
      (\<exists>b'. raw_load_buffer1 b 0 reads = Some (0, b') \<and> contents b' = delivered reads)"
  proof
    assume "length (delivered reads) < 2147483648"
    then have "length (a_text a) + length (delivered reads) < 2147483648" using assms(2) by simp
    from raw_load_buffer1_correct [OF assms(1) _ this] assms(2) show
      "\<exists>b'. raw_load_buffer1 b 0 reads = Some (0, b') \<and> contents b' = delivered reads"
      using refinesD(4) by (fastforce simp: list_insert_def)
  qed
qed

section \<open>Saving\<close>

lemma take_extend: "take k xs @ take n (list_slice k m xs) = take (k + min n m) xs"
  by (simp add: list_slice_def take_add min.commute)

text \<open>
  With \<open>k\<close> bytes written: the rest of the text is written, or an error leaves the first bytes of it.
\<close>

lemma save_loop_correct:
  assumes "buf_ok b" "k + sz = length (contents b)" "out = take k (contents b)"
  shows "\<exists>r out' b'. save_loop b sz ws out = Some (r, out', b') \<and> same_doc b b' \<and>
    (r = 0 \<and> out' = contents b \<or> r = -1 \<and> (\<exists>w \<in> set ws. w < 0) \<and> (\<exists>j. out' = take j (contents b)))"
  using assms
proof (induction b sz ws out arbitrary: k rule: save_loop.induct)
  case (1 b sz ws out)
  show ?case
  proof (cases "sz = 0")
    case True
    then show ?thesis using 1(3-5) same_doc_refl by (subst save_loop.simps) auto
  next
    case False
    define n where "n = min sz IOBUF_SIZE"
    have n: "0 < n" "n \<le> sz" using False by (simp_all add: n_def IOBUF_SIZE_def)
    have start: "total_size b - sz = k" using 1(4) buf_okD(2) [OF 1(3)] by simp
    obtain b1 where b1: "eb_read b k n = Some (list_slice k n (contents b), b1)" "same_doc b b1"
      using eb_read_correct [OF 1(3), of k n] by (auto simp: same_doc_def)
    note d = same_docD [OF b1(2)]
    have step: "save_loop b sz ws out = (case ws of
        [] \<Rightarrow> save_loop b1 (sz - n) [] (out @ list_slice k n (contents b))
      | w # ws \<Rightarrow> if w < 0 then Some (-1, out, b1)
          else save_loop b1 (sz - min (nat w) n) ws (out @ take (min (nat w) n) (list_slice k n (contents b))))"
      using False b1(1) start by (subst save_loop.simps) (simp add: n_def Let_def split: list.split)
    show ?thesis
    proof (cases ws)
      case Nil
      have "out @ list_slice k n (contents b) = take (k + n) (contents b1)"
        using 1(5) d(2) take_extend [of k "contents b" n n] by (simp add: list_slice_def)
      moreover have "k + n + (sz - n) = length (contents b1)" using 1(4) n(2) d(2) by simp
      ultimately have "\<exists>r out' b'. save_loop b1 (sz - n) [] (out @ list_slice k n (contents b)) = Some (r, out', b') \<and>
          same_doc b1 b' \<and> r = 0 \<and> out' = contents b1"
        using 1(1) [of "(list_slice k n (contents b), b1)" "list_slice k n (contents b)" b1 "k + n"]
          False b1(1) start Nil d(1) by (simp add: n_def)
      then show ?thesis using Nil step d(2) same_doc_trans [OF b1(2)] by auto
    next
      case (Cons w ws')
      define m where "m = min (nat w) n"
      have "out @ take m (list_slice k n (contents b)) = take (k + m) (contents b1)"
        using 1(5) d(2) take_extend [of k "contents b" m n] n(2) by (simp add: m_def)
      moreover have "k + m + (sz - m) = length (contents b1)" using 1(4) n(2) d(2) by (simp add: m_def)
      ultimately have ih: "\<exists>r out' b'. save_loop b1 (sz - m) ws' (out @ take m (list_slice k n (contents b))) = Some (r, out', b') \<and>
          same_doc b1 b' \<and> (r = 0 \<and> out' = contents b1 \<or> r = -1 \<and> (\<exists>w \<in> set ws'. w < 0) \<and> (\<exists>j. out' = take j (contents b1)))" if "\<not> w < 0"
        using 1(2) [of "(list_slice k n (contents b), b1)" "list_slice k n (contents b)" b1 w ws' m "k + m"]
          False b1(1) start Cons that d(1) by (simp add: n_def m_def)
      show ?thesis
      proof (cases "w < 0")
        case True
        then show ?thesis using Cons step b1(2) 1(5) by auto
      next
        case False
        obtain r out' b' where r: "save_loop b1 (sz - m) ws' (out @ take m (list_slice k n (contents b))) = Some (r, out', b')"
          "same_doc b1 b'" "r = 0 \<and> out' = contents b1 \<or> r = -1 \<and> (\<exists>w \<in> set ws'. w < 0) \<and> (\<exists>j. out' = take j (contents b1))"
          using ih [OF False] by blast
        have "save_loop b sz ws out = Some (r, out', b')" using r(1) step Cons False by (simp add: m_def)
        then show ?thesis using r(3) d(2) same_doc_trans [OF b1(2) r(2)] Cons by auto
      qed
    qed
  qed
qed

lemma backup_differs: "backup_name bd f \<noteq> f"
proof
  assume eq: "backup_name bd f = f"
  have no_slash: "slash \<notin> set (qe_basename g)" for g
  proof (cases "slash \<in> set g")
    case True
    then obtain x y where "g = x @ slash # y" "slash \<notin> set y" by (metis split_list_last)
    then show ?thesis by (simp add: qe_basename_def strrchr_mid)
  qed (simp add: qe_basename_def strrchr_none)
  have "f = bd @ slash # (qe_basename f @ ''~'')"
    using eq by (simp add: backup_name_def slash_def)
  then have "qe_basename f = qe_basename f @ ''~''"
  proof -
    have "slash \<notin> set (qe_basename f @ ''~'')" using no_slash [of f] by (simp add: slash_def)
    from strrchr_mid [OF this, of bd] have "strrchr f slash = Some (bd, slash # qe_basename f @ ''~'')"
      using \<open>f = _\<close> by metis
    then show ?thesis by (subst qe_basename_def) simp
  qed
  then show False by simp
qed

text \<open>A new file of the bytes \<open>out\<close> in place of a renamed one.\<close>

definition new_file :: "Disk \<Rightarrow> string \<Rightarrow> u8 list \<Rightarrow> Disk" where
  "new_file d f out = (let n = fresh_inode d in
     d\<lparr>entries := (entries d)(f \<mapsto> n), inode_mode := (inode_mode d)(n := 384),
       fresh_inode := n + 1, inode_data := (inode_data d)(n := out)\<rparr>)"

lemma raw_save_new_file:
  assumes "buf_ok b" "opens env" "entries d f = None" "mapping \<noteq> Some (fresh_inode d)"
  obtains r out b' where "raw_save_buffer env mapping d b f = Some (r, new_file d f out, b')"
    "same_doc b b'" "r = 0 \<and> out = contents b \<or>
      r = -1 \<and> (\<exists>w \<in> set (write_results env). w < 0) \<and> (\<exists>j. out = take j (contents b))"
proof -
  have "0 + total_size b = length (contents b)" using buf_okD(2) [OF assms(1)] by simp
  from save_loop_correct [OF assms(1) this, of "[]" "write_results env"] obtain r out b'
    where "save_loop b (total_size b) (write_results env) [] = Some (r, out, b')" "same_doc b b'"
    "r = 0 \<and> out = contents b \<or>
      r = -1 \<and> (\<exists>w \<in> set (write_results env). w < 0) \<and> (\<exists>j. out = take j (contents b))" by auto
  then show thesis
    using that assms(2-4) by (simp add: raw_save_buffer_def open_trunc_def new_file_def Let_def)
qed

lemma replaced_files:
  assumes "entries d f = Some i" "entries d g \<noteq> Some i" "g \<noteq> f" "\<And>h. entries d h \<noteq> Some (fresh_inode d)"
    "d1 = rename_file d f g" "d2 = new_file d1 f out"
  shows "entries d1 f = None" "fresh_inode d1 = fresh_inode d"
    "file_at d2 f = Some out" "file_at d2 g = file_at d f"
    "h \<noteq> f \<Longrightarrow> h \<noteq> g \<Longrightarrow> file_at d2 h = file_at d h"
    "file_at (chmod_file d2 f m) h = file_at d2 h" "mode_at (chmod_file d2 f m) f = Some m"
proof -
  have d1: "d1 = d\<lparr>entries := (entries d)(g \<mapsto> i, f := None)\<rparr>"
    using assms(1,2,5) by (simp add: rename_file_def)
  show "entries d1 f = None" "fresh_inode d1 = fresh_inode d" by (simp_all add: d1)
  show "file_at d2 f = Some out" by (simp add: file_at_def assms(6) new_file_def Let_def)
  have "i \<noteq> fresh_inode d" using assms(1,4) by metis
  then show "file_at d2 g = file_at d f"
    using assms(1,3) by (simp add: file_at_def assms(6) new_file_def Let_def d1)
  show "file_at d2 h = file_at d h" if "h \<noteq> f" "h \<noteq> g"
    using that assms(4) [of h] by (cases "entries d h") (auto simp: file_at_def assms(6) new_file_def Let_def d1)
  show "file_at (chmod_file d2 f m) h = file_at d2 h"
    by (auto simp: chmod_file_def file_at_def split: option.splits)
  show "mode_at (chmod_file d2 f m) f = Some m"
    by (simp add: mode_at_def chmod_file_def assms(6) new_file_def Let_def)
qed

text \<open>The system is able to save the buffer: the file is there, its backup is another one.\<close>

definition can_save :: "Save_Env \<Rightarrow> string \<Rightarrow> nat option \<Rightarrow> Disk \<Rightarrow> string \<Rightarrow> bool" where
  "can_save env bd mapping d f \<longleftrightarrow> renames env \<and> opens env \<and> entries d f \<noteq> None \<and>
     entries d (backup_name bd f) \<noteq> entries d f \<and> length (backup_name bd f) < PATH_MAX \<and>
     (\<forall>g. entries d g \<noteq> Some (fresh_inode d)) \<and> mapping \<noteq> Some (fresh_inode d)"

text \<open>Without a backup the mapped file is truncated under the buffer.\<close>

lemma save_over_mapping:
  assumes "buf_ok b" "\<not> renames env" "opens env" "contents b \<noteq> []"
    "list_all (\<lambda>p. has_flag p PG_READ_ONLY) (page_table b)" "entries d (filename b) \<noteq> None"
  shows "save_buffer env bd (entries d (filename b)) d b = None"
proof -
  have "list_ex (\<lambda>p. has_flag p PG_READ_ONLY) (page_table b)"
    using assms(4,5) by (cases "page_table b") (simp_all add: contents_def)
  then show ?thesis
    using assms(2,3,6) by (auto simp: save_buffer_def raw_save_buffer_def open_trunc_def guard_def Let_def)
qed

lemma save_buffer_correct:
  assumes "buf_ok b" "can_save env bd mapping d (filename b)"
  shows "\<exists>r d' b'. save_buffer env bd mapping d b = Some (r, d', b') \<and> contents b' = contents b \<and>
    file_at d' (backup_name bd (filename b)) = file_at d (filename b) \<and>
    (\<forall>f. f \<noteq> filename b \<and> f \<noteq> backup_name bd (filename b) \<longrightarrow> file_at d' f = file_at d f) \<and>
    ((\<forall>w \<in> set (write_results env). 0 \<le> w) \<longrightarrow> r = 0) \<and>
    (if r = 0 then file_at d' (filename b) = Some (contents b) \<and>
        mode_at d' (filename b) = map_option (\<lambda>m. m mod 512) (mode_at d (filename b)) \<and>
        \<not> modified b' \<and> log_buffer b' = None
     else r = -1 \<and> (\<exists>j. file_at d' (filename b) = Some (take j (contents b))) \<and>
        PageBuf.more b' = PageBuf.more b)"
proof -
  define f where "f = filename b"
  define g where "g = backup_name bd f"
  obtain i where i: "entries d f = Some i" "entries d g \<noteq> Some i" and env: "renames env" "opens env"
    and len: "length g < PATH_MAX" and fresh: "\<And>h. entries d h \<noteq> Some (fresh_inode d)"
      "mapping \<noteq> Some (fresh_inode d)"
    using assms(2) by (auto simp: can_save_def f_def g_def)
  define d1 where "d1 = rename_file d f g"
  note files = replaced_files [OF i _ fresh(1) d1_def refl]
  have fg: "g \<noteq> f" unfolding g_def by (rule backup_differs)
  obtain r out b1 where s: "raw_save_buffer env mapping d1 b f = Some (r, new_file d1 f out, b1)"
    "same_doc b b1" "r = 0 \<and> out = contents b \<or>
      r = -1 \<and> (\<exists>w \<in> set (write_results env). w < 0) \<and> (\<exists>j. out = take j (contents b))"
    by (rule raw_save_new_file [of b env d1 f mapping]) (use assms(1) env(2) fresh(2) files(1,2) [OF fg] in auto)
  define d2 where "d2 = new_file d1 f out"
  define mode where "mode = (case mode_at d f of None \<Rightarrow> 420 | Some m \<Rightarrow> m mod 512)"
  have saved: "save_buffer env bd mapping d b = (if r < 0 then Some (r, d2, b1)
      else Some (0, chmod_file d2 f mode, (log_reset b1)\<lparr>modified := False\<rparr>))"
    using env(1) len s(1)
    by (simp add: save_buffer_def f_def [symmetric] g_def [symmetric] d1_def d2_def mode_def Let_def)
  note files = files(3-7) [OF fg, where out = out, folded d2_def]
  have mode: "map_option (\<lambda>m. m mod 512) (mode_at d f) = Some mode"
    using i(1) by (simp add: mode_at_def mode_def)
  have same: "contents b1 = contents b" "PageBuf.more b1 = PageBuf.more b"
    using s(2) by (auto simp: same_doc_def same_text_def contents_def)
  have reset: "contents (log_reset b1) = contents b1" "log_buffer (log_reset b1) = None"
    by (simp_all add: log_reset_def contents_def split: option.split)
  show ?thesis
  proof (intro exI conjI)
    let ?r = "if r < 0 then r else 0" and ?d = "if r < 0 then d2 else chmod_file d2 f mode"
      and ?b = "if r < 0 then b1 else (log_reset b1)\<lparr>modified := False\<rparr>"
    show "save_buffer env bd mapping d b = Some (?r, ?d, ?b)" using saved by simp
    show "contents ?b = contents b" using same reset by (simp add: contents_def)
    show "file_at ?d (backup_name bd (filename b)) = file_at d (filename b)"
      using files(2,4) by (simp add: f_def g_def)
    show "\<forall>h. h \<noteq> filename b \<and> h \<noteq> backup_name bd (filename b) \<longrightarrow> file_at ?d h = file_at d h"
      using files(3,4) by (simp add: f_def g_def)
    show "(\<forall>w \<in> set (write_results env). 0 \<le> w) \<longrightarrow> ?r = 0" using s(3) by force
    show "if ?r = 0 then file_at ?d (filename b) = Some (contents b) \<and>
        mode_at ?d (filename b) = map_option (\<lambda>m. m mod 512) (mode_at d (filename b)) \<and>
        \<not> modified ?b \<and> log_buffer ?b = None
      else ?r = -1 \<and> (\<exists>j. file_at ?d (filename b) = Some (take j (contents b))) \<and>
        PageBuf.more ?b = PageBuf.more b"
      using s(3) files(1,4,5) mode same(2) reset(2) by (auto simp: f_def)
  qed
qed

text \<open>C7. Saving a buffer. If the old file can be renamed to its backup and a new one be opened, then
  for every sequence of results of \<open>write\<close>, be they partial, empty or errors, \<open>save_buffer\<close> ends, the
  backup is the old file, no other file changes and the text of the buffer stays. Without errors the
  file then holds exactly the text, with the permission bits of the old file, and the
  log and the modified flag are reset. After an error the result is -1, the
  file holds the first bytes of the text, and the buffer is as modified as before, its log intact. This
  holds also if the pages of the buffer are mapped from the old file; but if such a file
  cannot be renamed it is truncated under the buffer, whose text is lost.\<close>

theorem save_buffer_spec:
  assumes "buf_ok b" "can_save env bd mapping d (filename b)"
  shows "\<exists>r d' b'. save_buffer env bd mapping d b = Some (r, d', b') \<and> contents b' = contents b \<and>
    file_at d' (backup_name bd (filename b)) = file_at d (filename b) \<and>
    (\<forall>f. f \<noteq> filename b \<and> f \<noteq> backup_name bd (filename b) \<longrightarrow> file_at d' f = file_at d f) \<and>
    ((\<forall>w \<in> set (write_results env). 0 \<le> w) \<longrightarrow> r = 0) \<and>
    (if r = 0 then file_at d' (filename b) = Some (contents b) \<and>
        mode_at d' (filename b) = map_option (\<lambda>m. m mod 512) (mode_at d (filename b)) \<and>
        \<not> modified b' \<and> log_buffer b' = None
     else r = -1 \<and> (\<exists>j. file_at d' (filename b) = Some (take j (contents b))) \<and>
        PageBuf.more b' = PageBuf.more b) \<and>
    (\<forall>env'. \<not> renames env' \<and> opens env' \<and> contents b \<noteq> [] \<and> list_all (\<lambda>p. has_flag p PG_READ_ONLY) (page_table b) \<longrightarrow>
      save_buffer env' bd (entries d (filename b)) d b = None)"
proof -
  have "\<forall>env'. \<not> renames env' \<and> opens env' \<and> contents b \<noteq> [] \<and> list_all (\<lambda>p. has_flag p PG_READ_ONLY) (page_table b) \<longrightarrow>
      save_buffer env' bd (entries d (filename b)) d b = None"
    using assms(2) by (auto simp: can_save_def intro!: save_over_mapping [OF assms(1)])
  with save_buffer_correct [OF assms] show ?thesis by blast
qed

text \<open>C8. Saving and loading again. Whatever the sizes of the writes, a text below 2 GB that has been saved
  without an error and is loaded into a new buffer of that file is the same text, if the calls that load it succeed: \<open>fopen\<close>
  and, from 1 MB on, \<open>open\<close>, \<open>mmap\<close> and \<open>malloc\<close>. If one of them fails, the result is -1 and the buffer stays empty.\<close>

theorem save_load_roundtrip:
  assumes "buf_ok b" "can_save env bd mapping d (filename b)" "filename b \<noteq> []"
    "length (contents b) < 2147483648" "save_buffer env bd mapping d b = Some (0, d', b')"
  shows "\<exists>r b2. reload_buffer lenv d' ((alloc_buffer name flags)\<lparr>filename := filename b\<rparr>) None = Some (r, b2) \<and>
    (if loads lenv (length (contents b)) then r = 0 \<and> contents b2 = contents b \<and> \<not> modified b2
     else r = -1 \<and> contents b2 = [])"
proof (cases "loads lenv (length (contents b))")
  case True
  have saved: "file_at d' (filename b) = Some (contents b)"
    using save_buffer_correct [OF assms(1,2)] assms(5) by auto
  obtain a where "refines (alloc_buffer name flags) a" "a_text a = []" using alloc_refines by blast
  then have a: "refines ((alloc_buffer name flags)\<lparr>filename := filename b\<rparr>) a" "a_text a = []"
    by (simp_all add: refines_def refines_doc_def contents_def cache_ok_def log_rep_def cur_rep_def
        split: option.splits)
  obtain b2 where b2: "reload_buffer lenv d' ((alloc_buffer name flags)\<lparr>filename := filename b\<rparr>) None = Some (0, b2)"
    "contents b2 = contents b" "refines b2 (a\<lparr>a_text := contents b, a_modified := False, a_tracked := tracked b2\<rparr>)"
    using load_empty_buffer [OF a, of d' "contents b" lenv] assms(3,4) saved True by auto
  then show ?thesis using refines_docD(6) [OF refinesD(1) [OF b2(3)]] True by auto
next
  case False
  have "file_at d' (filename b) = Some (contents b)"
    using save_buffer_correct [OF assms(1,2)] assms(5) by auto
  from load_fails [of "(alloc_buffer name flags)\<lparr>filename := filename b\<rparr>", OF _ _ False] this assms(3)
  obtain b2 where "reload_buffer lenv d' ((alloc_buffer name flags)\<lparr>filename := filename b\<rparr>) None = Some (-1, b2)"
    "contents b2 = contents ((alloc_buffer name flags)\<lparr>filename := filename b\<rparr>)"
    by auto
  then show ?thesis
    using False by (auto simp: alloc_buffer_def eb_add_callback_def contents_def)
qed

section \<open>Changing the charset\<close>

text \<open>A character for the charset \<open>cs\<close>, with a question mark for what it cannot represent.\<close>

definition convertible :: "QECharset \<Rightarrow> int \<Rightarrow> int" where
  "convertible cs c = (if representable cs c then c else 0x3f)"

lemma encode_convertible:
  assumes "representable ch c"
  shows "encode_func cs (convertible cs c) = Some (unicode_to_charset c cs)"
proof -
  have "0 \<le> c" "utf8_valid c" using assms by (cases ch; simp add: utf8_valid_def)+
  then show ?thesis
    by (cases cs) (auto simp: convertible_def unicode_to_charset_def encode_8859_1_def encode_7bit_def
        encode_utf8_def)
qed

lemma utf8_encode_short: "0 \<le> c \<Longrightarrow> c < 0x4000000 \<Longrightarrow> length (utf8_encode c) < 6"
  by (simp add: utf8_encode_def)

lemma char_bytes_short:
  assumes "representable ch c" "c < 0x4000000"
  shows "char_bytes c cs = Some (unicode_to_charset c cs)"
proof -
  have "0 \<le> c" using assms(1) by (cases ch) (simp_all add: utf8_valid_def)
  then have "length (unicode_to_charset c cs) < 6"
    using utf8_encode_short [OF _ assms(2)]
    by (cases cs) (simp_all add: unicode_to_charset_def encode_8859_1_def encode_7bit_def encode_utf8_def)
  then show ?thesis by (simp add: char_bytes_def Let_def MAX_CHAR_BYTES_def)
qed

lemma enc_text_simps [simp]:
  "enc_text ef [] = []" "enc_text ef (c # cs) = the (ef c) @ enc_text ef cs"
  by (simp_all add: enc_text_def)

lemma convert_loop_correct:
  assumes "buf_ok b" "charset_state b = charset_decode_init ch"
    "contents b = A @ enc_text (encode_func ch) cs" "\<forall>c \<in> set cs. representable ch c \<and> c < 0x4000000"
    "refines b1 a1" "length (a_text a1) + 6 * length cs < 2147483648"
  shows "\<exists>b' b1' a1'. convert_loop junk B b (int (length A)) b1 = Some (b', b1') \<and> same_doc b b' \<and>
    refines b1' a1' \<and> a_text a1' = a_text a1 @ concat (map (\<lambda>c. unicode_to_charset c B) cs)"
  using assms
proof (induction cs arbitrary: b A b1 a1)
  case Nil
  then have "\<not> int (length A) < int (total_size b)" using buf_okD(2) by fastforce
  then show ?case
    using Nil same_doc_refl by (subst convert_loop.simps) auto
next
  case (Cons c cs)
  have c: "representable ch c" "c < 0x4000000" using Cons.prems(4) by simp_all
  obtain e where e: "encode_func ch c = Some e" "e \<noteq> []" using charset_codec [OF c(1)] by auto
  let ?R = "enc_text (encode_func ch) cs" and ?q = "unicode_to_charset c B"
  have tx: "contents b = A @ e @ ?R" using Cons.prems(3) e(1) by simp
  obtain b' where n: "eb_nextc b junk (int (length A)) = Some (c, int (length A + length e), b')" "same_doc b b'"
    using eb_nextc_char [OF Cons.prems(1,2) tx c(1) e(1)] by blast
  have lt: "int (length A) < int (total_size b)" using tx e(2) buf_okD(2) [OF Cons.prems(1)] by (cases e) simp_all
  have q: "char_bytes c B = Some ?q" by (rule char_bytes_short [OF c])
  have ql: "length ?q \<le> 6" using unicode_to_charset_length [of c B] by (simp add: MAX_CHAR_BYTES_def)
  have tot: "total_size b1 = length (a_text a1)" by (rule refinesD(3) [OF Cons.prems(5)])
  obtain b2 where b2: "eb_write b1 (total_size b1) ?q = Some b2" "refines b2 (a_write a1 (length (a_text a1)) ?q)"
    using eb_write_refines [OF Cons.prems(5), of "length (a_text a1)" ?q] Cons.prems(6) ql unfolding tot by auto
  have t2: "a_text (a_write a1 (length (a_text a1)) ?q) = a_text a1 @ ?q" by simp
  note d = same_docD [OF n(2)]
  have pre: "buf_ok b'" "charset_state b' = charset_decode_init ch" "contents b' = (A @ e) @ ?R"
    "\<forall>c \<in> set cs. representable ch c \<and> c < 0x4000000"
    "length (a_text (a_write a1 (length (a_text a1)) ?q)) + 6 * length cs < 2147483648"
    using d Cons.prems(2,4,6) tx ql unfolding t2 by simp_all
  from Cons.IH [OF pre(1-4) b2(2) pre(5)] obtain b'' b1' a1' where
    r: "convert_loop junk B b' (int (length (A @ e))) b2 = Some (b'', b1')" "same_doc b' b''" "refines b1' a1'"
    "a_text a1' = a_text a1 @ concat (map (\<lambda>c. unicode_to_charset c B) (c # cs))" unfolding t2 by auto
  have "convert_loop junk B b (int (length A)) b1 = Some (b'', b1')"
    using lt n(1) q b2(1) r(1) by (subst convert_loop.simps) simp
  then show ?case using r(3,4) same_doc_trans [OF n(2) r(2)] by blast
qed

lemma length_enc_text:
  assumes "\<forall>c \<in> set cs. representable ch c"
  shows "length (enc_text (encode_func ch) cs) \<le> 6 * length cs"
  using assms
proof (induction cs)
  case (Cons c cs)
  then have "length (the (encode_func ch c)) \<le> 6"
    using charset_codec [of ch c] encode_length [of ch c] by (auto simp: MAX_CHAR_BYTES_def)
  then show ?case using Cons by simp
qed simp

lemma convertible_text:
  assumes "\<forall>c \<in> set cs. representable ch c"
  shows "concat (map (\<lambda>c. unicode_to_charset c B) cs) = enc_text (encode_func B) (map (convertible B) cs)"
  using assms by (induction cs) (simp_all add: encode_convertible [of ch])

lemma convertible_representable: "representable B (convertible B c)"
  by (cases B) (auto simp: convertible_def utf8_valid_def)

text \<open>Replacing the whole text by that of another buffer.\<close>

lemma replace_text:
  assumes "refines b a" "refines b2 a2" "length (a_text a) < 2147483648" "length (a_text a2) < 2147483648"
  obtains b' b3 b2' where "eb_delete b 0 (total_size b) = Some b3"
    "eb_insert_buffer b3 0 b2 0 (total_size b2) = Some (b', b2')" "contents b' = a_text a2"
proof -
  let ?a = "a_delete a 0 (length (a_text a))"
  have tot: "total_size b = length (a_text a)" by (rule refinesD(3) [OF assms(1)])
  obtain b3 where b3: "eb_delete b 0 (total_size b) = Some b3" "refines b3 ?a"
    using eb_delete_refines [OF assms(1), of 0 "length (a_text a)"] assms(3) unfolding tot by auto
  have t3: "a_text ?a = []" by (simp add: list_delete_def)
  note r = refinesD [OF assms(2)]
  obtain b' b2' where b': "eb_insert_buffer b3 0 b2 0 (total_size b2) = Some (b', b2')"
    "refines b' (if total_size b2 = 0 then ?a else a_insert ?a 0 (list_slice 0 (total_size b2) (contents b2)))"
    using eb_insert_buffer_refines [OF b3(2), of 0 "total_size b2" b2 0] assms(4) r t3
    by (auto simp: buf_ok_def)
  have "contents b' = a_text a2"
    using refinesD(4) [OF b'(2)] r(3,4) t3 by (auto simp: list_slice_def list_insert_def)
  then show thesis using that b3(1) b'(1) by blast
qed

text \<open>Converting the charset. In a buffer whose text is the encoding of characters below
  \<open>0x4000000\<close> in its charset, changing to another charset leaves the encoding of the same characters in
  the new one, with question marks for those it cannot represent; the new charset is set.\<close>

theorem convert_charset_spec:
  assumes "refines b a" "charset_state b = charset_decode_init ch"
    "contents b = enc_text (encode_func ch) cs" "\<forall>c \<in> set cs. representable ch c \<and> c < 0x4000000"
    "6 * length cs < 2147483648" "find_charset registered charset_str = Some B"
  shows "\<exists>b'. do_convert_buffer_file_coding_system junk registered b charset_str = Some b' \<and>
    contents b' = enc_text (encode_func B) (map (convertible B) cs) \<and> charset b' = B \<and>
    charset_state b' = charset_decode_init B"
proof -
  let ?tmp = "alloc_buffer ''*tmp*'' BF_SYSTEM"
  obtain a0 where a0: "refines ?tmp a0" "a_text a0 = []" using alloc_refines by blast
  note b = refinesD [OF assms(1)]
  have t: "contents b = [] @ enc_text (encode_func ch) cs" "length (a_text a0) + 6 * length cs < 2147483648"
    using assms(3,5) a0(2) by simp_all
  obtain b1 b2 a2 where r: "convert_loop junk B b 0 ?tmp = Some (b1, b2)" "same_doc b b1" "refines b2 a2"
    "a_text a2 = concat (map (\<lambda>c. unicode_to_charset c B) cs)"
    using convert_loop_correct [OF b(2) assms(2) t(1) assms(4) a0(1) t(2), of junk B] a0(2) by auto
  have rep: "\<forall>c \<in> set cs. representable ch c" using assms(4) by blast
  note bytes = r(4) [unfolded convertible_text [OF rep]]
  have r1: "refines b1 a"
    using refines_textI [OF refinesD(1) [OF assms(1)], of b1 "a_text a"] same_docD [OF r(2)] r(2) b(4)
    by (simp add: same_doc_def same_text_def)
  have "length (a_text a) < 2147483648" "length (a_text a2) < 2147483648"
    using length_enc_text [OF rep] length_enc_text [of "map (convertible B) cs" B] bytes assms(3,5) b(4)
    by (simp_all add: convertible_representable)
  from replace_text [OF r1 r(3) this] obtain b3 b' b2' where "eb_delete b1 0 (total_size b1) = Some b3"
    "eb_insert_buffer b3 0 b2 0 (total_size b2) = Some (b', b2')" "contents b' = a_text a2" .
  then show ?thesis
    using assms(6) r(1) bytes
    by (simp add: do_convert_buffer_file_coding_system_def eb_set_charset_def contents_def)
qed

section \<open>Witnesses\<close>

definition hello_disk :: Disk where
  "hello_disk = \<lparr>entries = [''a'' \<mapsto> 0], inode_data = (\<lambda>_. [0x68, 0x69]), inode_mode = (\<lambda>_. 33188),
     fresh_inode = 1\<rparr>"

definition file_buffer :: EditBuffer where
  "file_buffer = (alloc_buffer ''a'' BF_SAVELOG)\<lparr>filename := ''a''\<rparr>"

lemma file_buffer_refines: "\<exists>a. refines file_buffer a \<and> a_text a = []"
proof -
  obtain a where "refines (alloc_buffer ''a'' BF_SAVELOG) a" "a_text a = []" using alloc_refines by blast
  then have "refines file_buffer a"
    by (simp add: file_buffer_def refines_def refines_doc_def contents_def cache_ok_def log_rep_def cur_rep_def
        split: option.splits)
  then show ?thesis using \<open>a_text a = []\<close> by blast
qed

theorem load_buffer_spec_witness:
  "\<exists>b'. reload_buffer \<lparr>fopens = True, mmap_opens = False, mmaps = False, page_mallocs = False\<rparr> hello_disk file_buffer None = Some (0, b') \<and> contents b' = [0x68, 0x69]"
proof -
  obtain a where a: "refines file_buffer a" "a_text a = []" using file_buffer_refines by blast
  show ?thesis
    using load_buffer_spec [OF a, of hello_disk "[0x68, 0x69]"
        "\<lparr>fopens = True, mmap_opens = False, mmaps = False, page_mallocs = False\<rparr>"]
    by (fastforce simp: loads_def MIN_MMAP_SIZE_def file_buffer_def file_at_def hello_disk_def)
qed

definition slow_env :: Save_Env where
  "slow_env = \<lparr>renames = True, opens = True, write_results = [1, 0, 1]\<rparr>"

lemma can_save_hello: "buf_ok file_buffer" "can_save slow_env ''/b'' None hello_disk (filename file_buffer)"
proof -
  show "buf_ok file_buffer" using file_buffer_refines refinesD(2) by blast
  show "can_save slow_env ''/b'' None hello_disk (filename file_buffer)"
    by (simp add: can_save_def slow_env_def hello_disk_def file_buffer_def backup_name_def qe_basename_def
        strrchr_def slash_def PATH_MAX_def)
qed

theorem save_buffer_spec_witness:
  "\<exists>d' b'. save_buffer slow_env ''/b'' None hello_disk file_buffer = Some (0, d', b') \<and>
     file_at d' ''/b/a~'' = Some [0x68, 0x69] \<and> file_at d' ''a'' = Some []"
proof -
  have "filename file_buffer = ''a''" "contents file_buffer = []"
    by (simp_all add: file_buffer_def alloc_buffer_def eb_add_callback_def contents_def)
  moreover have "backup_name ''/b'' ''a'' = ''/b/a~''"
    by (simp add: backup_name_def qe_basename_def strrchr_def slash_def)
  moreover have "file_at hello_disk ''a'' = Some [0x68, 0x69]" by (simp add: file_at_def hello_disk_def)
  moreover have "\<forall>w \<in> set (write_results slow_env). 0 \<le> w" by (simp add: slow_env_def)
  ultimately show ?thesis using save_buffer_spec [OF can_save_hello] by fastforce
qed

theorem save_load_roundtrip_witness:
  "\<exists>d' b' b2. save_buffer slow_env ''/b'' None hello_disk file_buffer = Some (0, d', b') \<and>
     reload_buffer \<lparr>fopens = True, mmap_opens = False, mmaps = False, page_mallocs = False\<rparr> d'
       ((alloc_buffer [] BF_SAVELOG)\<lparr>filename := ''a''\<rparr>) None = Some (0, b2) \<and>
     contents b2 = contents file_buffer"
proof -
  have f: "filename file_buffer = ''a''" "filename file_buffer \<noteq> []" "contents file_buffer = []"
    by (simp_all add: file_buffer_def alloc_buffer_def eb_add_callback_def contents_def)
  then have len: "length (contents file_buffer) < 2147483648" by simp
  have "\<forall>w \<in> set (write_results slow_env). 0 \<le> w" by (simp add: slow_env_def)
  then obtain d' b' where s: "save_buffer slow_env ''/b'' None hello_disk file_buffer = Some (0, d', b')"
    using save_buffer_correct [OF can_save_hello] by blast
  have "loads \<lparr>fopens = True, mmap_opens = False, mmaps = False, page_mallocs = False\<rparr> (length (contents file_buffer))"
    using f(3) by (simp add: loads_def MIN_MMAP_SIZE_def)
  with save_load_roundtrip [OF can_save_hello f(2) len s,
      of "\<lparr>fopens = True, mmap_opens = False, mmaps = False, page_mallocs = False\<rparr>" "[]" BF_SAVELOG] s
  show ?thesis
    unfolding f(1) by auto
qed

theorem convert_charset_spec_witness:
  "\<exists>b'. do_convert_buffer_file_coding_system [] [Charset_utf8] (buffer_of [[0xe9]] Charset_8859_1) ''utf-8'' = Some b' \<and>
     contents b' = [0xc3, 0xa9]"
proof -
  let ?b = "buffer_of [[0xe9]] Charset_8859_1"
  have ok: "list_all (\<lambda>d. d \<noteq> [] \<and> length d \<le> MAX_PAGE_SIZE) [[0xe9]]" by (simp add: MAX_PAGE_SIZE_def)
  have r: "refines ?b \<lparr>a_text = [0xe9], a_tracked = (\<lambda>_. 0), a_callbacks = [0], a_modified = False,
    a_save = False, a_log = [], a_cur = None\<rparr>"
    using buf_ok_buffer_of [OF ok, of Charset_8859_1] contents_buffer_of [of "[[0xe9]]" Charset_8859_1]
    by (simp add: refines_def refines_doc_def buf_ok_def cache_ok_def log_rep_def cur_rep_def
        buffer_of_def eb_set_charset_def alloc_buffer_def eb_add_callback_def contents_def BF_SAVELOG_def)
  have t: "contents ?b = enc_text (encode_func Charset_8859_1) [0xe9]"
    by (simp add: encode_8859_1_def)
  have f: "find_charset [Charset_utf8] ''utf-8'' = Some Charset_utf8" by code_simp
  have "enc_text (encode_func Charset_utf8) (map (convertible Charset_utf8) [0xe9]) = [0xc3, 0xa9]"
    by code_simp
  then show ?thesis
    using convert_charset_spec [OF r _ t _ _ f, of "[]"] by fastforce
qed

end
