(* ===== verification/Quit.thy ===== *)
theory Quit
  imports Buffer_Theorems File_Theorems Key_Names
begin

text \<open>
  Leaving the editor (\<open>do_quit\<close> in \<open>src/qe.c\<close>): the state machine that goes through the buffers
  and asks for each modified file whether to save it. While it waits, the keys are grabbed and go to
  \<open>quit_key\<close>; no other command runs in between.
\<close>

section \<open>The state machine\<close>

datatype QuitMode = QS_ASK | QS_NOSAVE | QS_SAVE

text \<open>\<open>is_b\<close> is the rest of the list of buffers from \<open>is->b\<close> on.\<close>

record QuitState =
  is_state :: QuitMode
  is_modified :: bool
  is_b :: "bufptr list"

text \<open>
  What happens next: wait for a key, ask for confirmation (with the answer going to
  \<open>quit_confirm_cb\<close>), leave the main loop, or go on editing.
\<close>

datatype QuitPhase = Wait_Key QuitState | Ask_Confirm | Exited | Editing_Again

text \<open>The editor, the disk, and how the system reacts when the buffer at an address is saved.\<close>

record QuitWorld =
  qw_editor :: QEmacsState
  qw_disk :: Disk

record SaveCalls =
  call_env :: "bufptr \<Rightarrow> Save_Env"
  call_dir :: string
  call_mapping :: "bufptr \<Rightarrow> nat option"

definition needs_save :: "EditBuffer \<Rightarrow> bool" where
  "needs_save b \<longleftrightarrow> \<not> is_system b \<and> filename b \<noteq> [] \<and> modified b"

text \<open>\<open>save_buffer (b)\<close> without looking at its result.\<close>

definition quit_save :: "SaveCalls \<Rightarrow> QuitWorld \<Rightarrow> bufptr \<Rightarrow> QuitWorld option" where
  "quit_save sc w p = do {
     b \<leftarrow> buf_at (qw_editor w) p;
     (ret, d, b) \<leftarrow> save_buffer (call_env sc p) (call_dir sc) (call_mapping sc p) (qw_disk w) b;
     Some \<lparr>qw_editor = put_buf (qw_editor w) p b, qw_disk = d\<rparr> }"

fun quit_examine :: "SaveCalls \<Rightarrow> QuitWorld \<Rightarrow> QuitMode \<Rightarrow> bool \<Rightarrow> bufptr list
    \<Rightarrow> (QuitWorld \<times> QuitPhase) option" where
  "quit_examine sc w m md [] = Some (w, if md then Ask_Confirm else Exited)"
| "quit_examine sc w m md (p # ps) = (case buf_at (qw_editor w) p of
       None \<Rightarrow> None
     | Some b \<Rightarrow>
         if needs_save b then
           (case m of
              QS_ASK \<Rightarrow> Some (w, Wait_Key \<lparr>is_state = m, is_modified = md, is_b = p # ps\<rparr>)
            | QS_NOSAVE \<Rightarrow> quit_examine sc w m True ps
            | QS_SAVE \<Rightarrow> (case quit_save sc w p of
                None \<Rightarrow> None | Some w \<Rightarrow> quit_examine sc w m md ps))
         else quit_examine sc w m md ps)"

definition quit_examine_buffers :: "SaveCalls \<Rightarrow> QuitWorld \<Rightarrow> QuitState
    \<Rightarrow> (QuitWorld \<times> QuitPhase) option" where
  "quit_examine_buffers sc w st = quit_examine sc w (is_state st) (is_modified st) (is_b st)"

definition do_quit :: "SaveCalls \<Rightarrow> QuitWorld \<Rightarrow> (QuitWorld \<times> QuitPhase) option" where
  "do_quit sc w = quit_examine_buffers sc w
     \<lparr>is_state = QS_ASK, is_modified = False, is_b = map fst (first_buffer (qw_editor w))\<rparr>"

text \<open>Go on with the buffer after the one asked for, which is saved before if \<open>sv\<close> holds.\<close>

definition quit_next :: "SaveCalls \<Rightarrow> QuitWorld \<Rightarrow> QuitState \<Rightarrow> bool \<Rightarrow> (QuitWorld \<times> QuitPhase) option" where
  "quit_next sc w st sv = (case is_b st of
       [] \<Rightarrow> None
     | p # ps \<Rightarrow> do {
         w \<leftarrow> (if sv then quit_save sc w p else Some w);
         quit_examine_buffers sc w (st\<lparr>is_b := ps\<rparr>) })"

definition quit_key :: "SaveCalls \<Rightarrow> QuitWorld \<Rightarrow> QuitState \<Rightarrow> int \<Rightarrow> (QuitWorld \<times> QuitPhase) option" where
  "quit_key sc w st ch =
     (if ch = 121 \<or> ch = 32 then quit_next sc w st True
      else if ch = 110 \<or> ch = KEY_DELETE then quit_next sc w (st\<lparr>is_modified := True\<rparr>) False
      else if ch = 113 \<or> ch = KEY_RET
        then quit_next sc w (st\<lparr>is_state := QS_NOSAVE, is_modified := True\<rparr>) False
      else if ch = 33 then quit_next sc w (st\<lparr>is_state := QS_SAVE\<rparr>) True
      else if ch = 46 then quit_next sc w (st\<lparr>is_state := QS_NOSAVE\<rparr>) True
      else if ch = KEY_CTRL 103 then Some (w, Editing_Again)
      else Some (w, Wait_Key st))"

definition quit_confirm_cb :: "string option \<Rightarrow> QuitPhase" where
  "quit_confirm_cb reply = (case reply of
       None \<Rightarrow> Editing_Again
     | Some r \<Rightarrow> if take 1 r = ''y'' \<or> take 1 r = ''Y'' then Exited else Editing_Again)"

text \<open>The keys the user presses; the confirmation is not part of this relation.\<close>

inductive quit_step :: "SaveCalls \<Rightarrow> QuitWorld \<times> QuitPhase \<Rightarrow> QuitWorld \<times> QuitPhase \<Rightarrow> bool" for sc where
  key: "quit_key sc w st ch = Some s \<Longrightarrow> quit_step sc (w, Wait_Key st) s"

section \<open>What is saved\<close>

text \<open>No call of the system fails.\<close>

definition saves_succeed :: "SaveCalls \<Rightarrow> bool" where
  "saves_succeed sc \<longleftrightarrow> (\<forall>p. opens (call_env sc p) \<and> (\<forall>x \<in> set (write_results (call_env sc p)). 0 \<le> x))"

lemma save_loop_nonneg:
  "save_loop b sz ws out = Some (r, out', b') \<Longrightarrow> \<forall>x \<in> set ws. 0 \<le> x \<Longrightarrow> r = 0"
proof (induction b sz ws out rule: save_loop.induct)
  case (1 b sz ws out)
  then show ?case
    by (subst (asm) (3) save_loop.simps) (auto split: if_splits option.splits list.splits simp: Let_def)
qed

lemma save_buffer_clean:
  assumes "save_buffer env bd mapping d b = Some (r, d', b')" "opens env" "\<forall>x \<in> set (write_results env). 0 \<le> x"
  shows "\<not> modified b'"
proof -
  have raw: "ret = 0" if "raw_save_buffer env mapping d1 b f = Some (ret, d2, b1)" for d1 f ret d2 b1
    using that assms(2,3) by (auto simp: raw_save_buffer_def bind_eq_Some_conv split: prod.splits dest: save_loop_nonneg)
  obtain d1 f ret d2 b1 where "raw_save_buffer env mapping d1 b f = Some (ret, d2, b1)"
    "(if ret < 0 then Some (ret, d2, b1) else Some (0, chmod_file d2 f (case mode_at d f of None \<Rightarrow> 420 | Some m \<Rightarrow> m mod 512),
        (log_reset b1)\<lparr>modified := False\<rparr>)) = Some (r, d', b')"
    using assms(1) by (auto simp: save_buffer_def Let_def bind_eq_Some_conv)
  then show ?thesis using raw by (fastforce split: if_splits)
qed

definition clean :: "QuitWorld \<Rightarrow> bufptr \<Rightarrow> bool" where
  "clean w p \<longleftrightarrow> (\<forall>b. buf_at (qw_editor w) p = Some b \<longrightarrow> \<not> needs_save b)"

definition other_same :: "QuitWorld \<Rightarrow> QuitWorld \<Rightarrow> bufptr set \<Rightarrow> bool" where
  "other_same w w' P \<longleftrightarrow> buffer_ptrs (qw_editor w') = buffer_ptrs (qw_editor w) \<and>
     (\<forall>q. q \<notin> P \<longrightarrow> buf_at (qw_editor w') q = buf_at (qw_editor w) q)"

lemma other_same_refl: "other_same w w P"
  and other_same_trans: "other_same w w1 P \<Longrightarrow> other_same w1 w2 Q \<Longrightarrow> P \<subseteq> R \<Longrightarrow> Q \<subseteq> R \<Longrightarrow> other_same w w2 R"
  by (auto simp: other_same_def subset_iff) metis

lemma other_same_clean: "other_same w w' P \<Longrightarrow> p \<notin> P \<Longrightarrow> clean w' p = clean w p"
  by (simp add: other_same_def clean_def)

lemma quit_save_clean:
  assumes "quit_save sc w p = Some w'" "saves_succeed sc"
  shows "clean w' p" "other_same w w' {p}"
proof -
  obtain b ret d b' where b: "buf_at (qw_editor w) p = Some b"
    "save_buffer (call_env sc p) (call_dir sc) (call_mapping sc p) (qw_disk w) b = Some (ret, d, b')"
    "w' = \<lparr>qw_editor = put_buf (qw_editor w) p b', qw_disk = d\<rparr>"
    using assms(1) by (auto simp: quit_save_def bind_eq_Some_conv)
  have "\<not> modified b'" using save_buffer_clean [OF b(2)] assms(2) by (simp add: saves_succeed_def)
  then show "clean w' p" using b(1,3) by (simp add: clean_def needs_save_def)
  show "other_same w w' {p}" using b(1,3) by (simp add: other_same_def)
qed

text \<open>What the loop has done with the buffers \<open>ps\<close> when it stops.\<close>

definition examined :: "QuitWorld \<Rightarrow> QuitWorld \<Rightarrow> QuitMode \<Rightarrow> bool \<Rightarrow> bufptr list \<Rightarrow> QuitPhase \<Rightarrow> bool" where
  "examined w w' m md ps ph \<longleftrightarrow> other_same w w' (set ps) \<and>
    (ph = Exited \<longrightarrow> \<not> md \<and> (\<forall>p \<in> set ps. clean w' p)) \<and>
    (\<forall>st. ph = Wait_Key st \<longrightarrow> m = QS_ASK \<and> is_modified st = md \<and>
      (\<exists>front. ps = front @ is_b st \<and> is_b st \<noteq> [] \<and> (\<forall>p \<in> set front. clean w' p)))"

lemma examined_Cons:
  assumes "examined w1 w' m md1 ps ph" "other_same w w1 {p}" "p \<notin> set ps"
    "(md1 = md \<and> clean w1 p) \<or> (md1 \<and> m = QS_NOSAVE)"
  shows "examined w w' m md (p # ps) ph"
proof -
  have same: "other_same w w' (set (p # ps))"
    using assms(1,2) by (auto simp: examined_def intro: other_same_trans)
  have c: "clean w' p = clean w1 p" using assms(1,3) other_same_clean [of w1 w' "set ps" p] by (simp add: examined_def)
  have "m = QS_ASK \<and> is_modified st = md \<and> (\<exists>front. p # ps = front @ is_b st \<and> is_b st \<noteq> [] \<and> (\<forall>p \<in> set front. clean w' p))"
    if ph: "ph = Wait_Key st" for st
  proof -
    obtain front where f: "m = QS_ASK" "is_modified st = md1" "ps = front @ is_b st" "is_b st \<noteq> []"
      "\<forall>p \<in> set front. clean w' p" using assms(1) ph unfolding examined_def by blast
    then have "md1 = md" "clean w' p" using assms(4) c by auto
    then show ?thesis using f by (intro conjI exI [of _ "p # front"]) simp_all
  qed
  moreover have "\<not> md \<and> (\<forall>p \<in> set (p # ps). clean w' p)" if "ph = Exited"
    using assms(1,4) that c by (auto simp: examined_def)
  ultimately show ?thesis using same by (simp add: examined_def)
qed

lemma quit_examine_result:
  "quit_examine sc w m md ps = Some (w', ph) \<Longrightarrow> saves_succeed sc \<Longrightarrow> distinct ps \<Longrightarrow> examined w w' m md ps ph"
proof (induction sc w m md ps arbitrary: w' ph rule: quit_examine.induct)
  case (1 sc w m md)
  then show ?case by (cases md) (auto simp: examined_def other_same_refl)
next
  case (2 sc w m md p ps)
  obtain b where b: "buf_at (qw_editor w) p = Some b" using 2(4) by (auto split: option.splits)
  have d: "p \<notin> set ps" "distinct ps" using 2(6) by simp_all
  show ?case
  proof (cases "needs_save b")
    case False
    then have "examined w w' m md ps ph" using 2 b d by simp
    moreover have "clean w p" using False b by (simp add: clean_def)
    ultimately show ?thesis using examined_Cons [OF _ other_same_refl d(1)] by blast
  next
    case True
    show ?thesis
    proof (cases m)
      case QS_ASK
      then show ?thesis using 2(4) b True by (auto simp: examined_def other_same_refl)
    next
      case QS_NOSAVE
      then have "examined w w' m True ps ph" using 2 b d True by simp
      then show ?thesis by (rule examined_Cons [OF _ other_same_refl d(1)]) (simp add: QS_NOSAVE)
    next
      case QS_SAVE
      then obtain w1 where w1: "quit_save sc w p = Some w1" "quit_examine sc w1 m md ps = Some (w', ph)"
        using 2(4) b True by (auto split: option.splits)
      have "examined w1 w' m md ps ph" using 2(2) [OF b True QS_SAVE w1 2(5) d(2)] .
      then show ?thesis
        by (rule examined_Cons [OF _ quit_save_clean(2) [OF w1(1) 2(5)] d(1)]) (simp add: quit_save_clean(1) [OF w1(1) 2(5)])
    qed
  qed
qed

section \<open>Runs of the state machine\<close>

text \<open>
  The invariant of a run: the buffers before \<open>is->b\<close> have been seen to, or the user will be asked
  for confirmation.
\<close>

fun quit_inv :: "QuitWorld \<times> QuitPhase \<Rightarrow> bool" where
  "quit_inv (w, Wait_Key st) \<longleftrightarrow> distinct (buffer_ptrs (qw_editor w)) \<and> is_b st \<noteq> [] \<and>
     (\<exists>front. buffer_ptrs (qw_editor w) = front @ is_b st \<and> (is_modified st \<or> (\<forall>p \<in> set front. clean w p)))"
| "quit_inv (w, Exited) \<longleftrightarrow> (\<forall>p. clean w p)"
| "quit_inv (w, Ask_Confirm) \<longleftrightarrow> True"
| "quit_inv (w, Editing_Again) \<longleftrightarrow> True"

lemma clean_free: "p \<notin> set (buffer_ptrs (qw_editor w)) \<Longrightarrow> clean w p"
  using buf_at_ptr by (auto simp: clean_def)

lemma quit_examine_inv:
  assumes "quit_examine sc w m md ps = Some (w', ph)" "saves_succeed sc"
    "buffer_ptrs (qw_editor w) = front @ ps" "distinct (front @ ps)" "md \<or> (\<forall>p \<in> set front. clean w p)"
    "ph \<noteq> Editing_Again"
  shows "quit_inv (w', ph)"
proof -
  have e: "examined w w' m md ps ph"
    using assms(4) by (intro quit_examine_result [OF assms(1,2)]) simp
  then have same: "other_same w w' (set ps)" by (simp add: examined_def)
  have ptrs: "buffer_ptrs (qw_editor w') = front @ ps" using same assms(3) by (simp add: other_same_def)
  have front: "\<forall>p \<in> set front. clean w' p" if "\<not> md"
    using assms(4,5) that other_same_clean [OF same] by auto
  show ?thesis
  proof (cases ph)
    case (Wait_Key st)
    then obtain f2 where f2: "is_modified st = md" "ps = f2 @ is_b st" "is_b st \<noteq> []" "\<forall>p \<in> set f2. clean w' p"
      using e unfolding examined_def by blast
    then show ?thesis
      using Wait_Key ptrs front assms(4) by (auto intro!: exI [of _ "front @ f2"])
  next
    case Exited
    then have "\<not> md" "\<forall>p \<in> set ps. clean w' p" using e by (auto simp: examined_def)
    then show ?thesis using Exited front clean_free ptrs by fastforce
  qed (use assms(6) in simp_all)
qed

lemma quit_examine_not_editing: "quit_examine sc w m md ps = Some (w', ph) \<Longrightarrow> ph \<noteq> Editing_Again"
  by (induction sc w m md ps rule: quit_examine.induct)
    (auto split: option.splits if_splits QuitMode.splits)

lemma quit_next_inv:
  assumes "quit_next sc w st sv = Some (w', ph)" "saves_succeed sc" "distinct (buffer_ptrs (qw_editor w))"
    "buffer_ptrs (qw_editor w) = front @ is_b st" "is_modified st \<or> (\<forall>p \<in> set front. clean w p)"
    "sv \<or> is_modified st"
  shows "quit_inv (w', ph)"
proof -
  obtain p ps w1 where r: "is_b st = p # ps" "(if sv then quit_save sc w p else Some w) = Some w1"
    "quit_examine sc w1 (is_state st) (is_modified st) ps = Some (w', ph)"
    using assms(1) by (auto simp: quit_next_def quit_examine_buffers_def bind_eq_Some_conv split: list.splits)
  have same: "other_same w w1 {p}" and saved: "sv \<Longrightarrow> clean w1 p"
    using r(2) quit_save_clean [OF _ assms(2)] by (auto simp: other_same_refl split: if_splits)
  have d: "distinct ((front @ [p]) @ ps)" "buffer_ptrs (qw_editor w1) = (front @ [p]) @ ps"
    using assms(3,4) r(1) same by (simp_all add: other_same_def)
  have "is_modified st \<or> (\<forall>q \<in> set (front @ [p]). clean w1 q)"
  proof (cases "is_modified st")
    case False
    then have "clean w1 q" if "q \<in> set front" for q
      using that assms(5) d(1) other_same_clean [OF same, of q] by auto
    then show ?thesis using saved assms(6) False by auto
  qed simp
  then show ?thesis
    using quit_examine_inv [OF r(3) assms(2) d(2,1)] quit_examine_not_editing [OF r(3)] by blast
qed

lemma quit_step_inv:
  assumes "quit_step sc s s'" "saves_succeed sc" "quit_inv s"
  shows "quit_inv s'"
  using assms(1)
proof cases
  case (key w st ch)
  obtain w' ph where s': "s' = (w', ph)" by (cases s')
  have d: "distinct (buffer_ptrs (qw_editor w))" using assms(3) key by simp
  obtain front where f: "buffer_ptrs (qw_editor w) = front @ is_b st"
    "is_modified st \<or> (\<forall>p \<in> set front. clean w p)" using assms(3) key by auto
  have go_on: "quit_inv (w', ph)" if "quit_next sc w st1 sv = Some (w', ph)" "is_b st1 = is_b st"
    "is_modified st1 \<or> is_modified st1 = is_modified st \<and> sv" for st1 sv
    using quit_next_inv [OF that(1) assms(2) d, of front] f that(2,3) by auto
  have "quit_inv (w, Wait_Key st)" using assms(3) key by simp
  then show ?thesis
    using key(2) go_on unfolding s' quit_key_def by (auto split: if_splits simp del: quit_inv.simps(1))
qed

text \<open>C9. Leaving saves everything. If no call of the system fails, then whatever keys the user presses
  after \<open>do_quit\<close>: when the editor is left without asking for confirmation, no buffer with a file is left
  modified.\<close>

theorem quit_saves_all:
  assumes "do_quit sc w0 = Some s0" "distinct (buffer_ptrs (qw_editor w0))" "saves_succeed sc"
    "(quit_step sc)\<^sup>*\<^sup>* s0 (w, Exited)" "buf_at (qw_editor w) p = Some b"
  shows "is_system b \<or> filename b = [] \<or> \<not> modified b"
proof -
  obtain w1 ph where s0: "s0 = (w1, ph)" by (cases s0)
  have e: "quit_examine sc w0 QS_ASK False (buffer_ptrs (qw_editor w0)) = Some (w1, ph)"
    using assms(1) by (simp add: do_quit_def quit_examine_buffers_def buffer_ptrs_def s0)
  have "quit_inv s0"
    using quit_examine_inv [OF e assms(3), of "[]"] assms(2) quit_examine_not_editing [OF e] s0 by simp
  with assms(4) have "quit_inv (w, Exited)"
    by (induction rule: rtranclp_induct) (auto intro: quit_step_inv [OF _ assms(3)])
  then have "clean w p" by simp
  then show ?thesis using assms(5) by (auto simp: clean_def needs_save_def)
qed

text \<open>A failed save loses the text. The result of \<open>save_buffer\<close> is not looked at: if the file of the last
  buffer cannot be opened for writing and the user answers that it be saved, the editor is left
  without asking for confirmation and the buffer is still modified.\<close>

theorem quit_loses_text:
  assumes "buf_at (qw_editor w) p = Some b" "needs_save b" "\<not> opens (call_env sc p)"
    "length (backup_name (call_dir sc) (filename b)) < PATH_MAX"
    "st = \<lparr>is_state = QS_ASK, is_modified = False, is_b = [p]\<rparr>" "ch \<in> {121, 32, 33, 46}"
  shows "\<exists>w'. quit_key sc w st ch = Some (w', Exited) \<and> buf_at (qw_editor w') p = Some b \<and> modified b \<and>
    file_at (qw_disk w') (filename b) \<in> {None, file_at (qw_disk w) (filename b)}"
proof -
  define d where "d = (if renames (call_env sc p)
    then rename_file (qw_disk w) (filename b) (backup_name (call_dir sc) (filename b)) else qw_disk w)"
  define w' where "w' = \<lparr>qw_editor = put_buf (qw_editor w) p b, qw_disk = d\<rparr>"
  have "save_buffer (call_env sc p) (call_dir sc) (call_mapping sc p) (qw_disk w) b = Some (-1, d, b)"
    using assms(3,4) by (simp add: save_buffer_def raw_save_buffer_def d_def Let_def)
  then have "quit_save sc w p = Some w'" using assms(1) by (simp add: quit_save_def w'_def)
  then have "quit_key sc w st ch = Some (w', Exited)"
  proof -
    have keys: "KEY_DELETE = 57603" "KEY_RET = 13" by code_simp+
    have "ch = 121 \<or> ch = 32 \<or> ch = 33 \<or> ch = 46" using assms(6) by simp
    then show ?thesis
      unfolding assms(5) using \<open>quit_save sc w p = Some w'\<close>
      by (elim disjE) (simp_all add: quit_key_def quit_next_def quit_examine_buffers_def keys)
  qed
  moreover have "file_at d (filename b) \<in> {None, file_at (qw_disk w) (filename b)}"
    using backup_differs [of "call_dir sc" "filename b"]
    by (auto simp: d_def file_at_def rename_file_def split: option.splits)
  ultimately show ?thesis using assms(1,2) by (auto simp: w'_def needs_save_def)
qed

section \<open>Witnesses\<close>

definition edited_buffer :: EditBuffer where
  "edited_buffer = file_buffer\<lparr>modified := True\<rparr>"

definition edited_world :: QuitWorld where
  "edited_world = \<lparr>qw_editor = no_buffers\<lparr>first_buffer := [(1, edited_buffer)]\<rparr>, qw_disk = hello_disk\<rparr>"

definition slow_calls :: SaveCalls where
  "slow_calls = \<lparr>call_env = (\<lambda>_. slow_env), call_dir = ''/b'', call_mapping = (\<lambda>_. None)\<rparr>"

lemma edited_world_simps:
  "buf_at (qw_editor edited_world) 1 = Some edited_buffer" "needs_save edited_buffer"
  "buffer_ptrs (qw_editor edited_world) = [1]" "saves_succeed slow_calls"
  by (simp_all add: edited_world_def no_buffers_def buf_at_def buffer_ptrs_def needs_save_def edited_buffer_def
      is_system_def file_buffer_def alloc_buffer_def eb_add_callback_def BF_SAVELOG_def BF_SYSTEM_def
      saves_succeed_def slow_calls_def slow_env_def)

theorem quit_saves_all_witness:
  "\<exists>s0 w b. do_quit slow_calls edited_world = Some s0 \<and> (quit_step slow_calls)\<^sup>*\<^sup>* s0 (w, Exited) \<and>
     buf_at (qw_editor w) 1 = Some b \<and> (is_system b \<or> filename b = [] \<or> \<not> modified b)"
proof -
  let ?st = "\<lparr>is_state = QS_ASK, is_modified = False, is_b = [1]\<rparr>"
  have q: "do_quit slow_calls edited_world = Some (edited_world, Wait_Key ?st)"
    using edited_world_simps(1,2)
    by (simp add: do_quit_def quit_examine_buffers_def edited_world_simps(3) [unfolded buffer_ptrs_def])
  have "buf_ok edited_buffer" "can_save slow_env ''/b'' None hello_disk (filename edited_buffer)"
    using can_save_hello by (simp_all add: edited_buffer_def buf_ok_def cache_ok_def contents_def split: option.splits)
  from save_buffer_correct [OF this] obtain r d b
    where sv: "save_buffer slow_env ''/b'' None hello_disk edited_buffer = Some (r, d, b)" by blast
  define w where "w = \<lparr>qw_editor = put_buf (qw_editor edited_world) 1 b, qw_disk = d\<rparr>"
  have "quit_save slow_calls edited_world 1 = Some w"
    using sv edited_world_simps(1) by (simp add: quit_save_def slow_calls_def edited_world_def w_def)
  then have "quit_key slow_calls edited_world ?st 121 = Some (w, Exited)"
    by (simp add: quit_key_def quit_next_def quit_examine_buffers_def)
  then have run: "(quit_step slow_calls)\<^sup>*\<^sup>* (edited_world, Wait_Key ?st) (w, Exited)"
    by (intro r_into_rtranclp quit_step.key)
  have d: "distinct (buffer_ptrs (qw_editor edited_world))" by (simp add: edited_world_simps(3))
  have b: "buf_at (qw_editor w) 1 = Some b" using edited_world_simps(1) by (simp add: w_def)
  from quit_saves_all [OF q d edited_world_simps(4) run b] show ?thesis using q run b by blast
qed

definition full_disk_calls :: SaveCalls where
  "full_disk_calls = slow_calls\<lparr>call_env := (\<lambda>_. slow_env\<lparr>opens := False\<rparr>)\<rparr>"

theorem quit_loses_text_witness:
  "\<exists>w'. quit_key full_disk_calls edited_world \<lparr>is_state = QS_ASK, is_modified = False, is_b = [1]\<rparr> 121
     = Some (w', Exited) \<and> buf_at (qw_editor w') 1 = Some edited_buffer \<and> modified edited_buffer"
proof -
  have "\<not> opens (call_env full_disk_calls 1)"
    "length (backup_name (call_dir full_disk_calls) (filename edited_buffer)) < PATH_MAX"
    by (simp_all add: full_disk_calls_def slow_calls_def edited_buffer_def file_buffer_def backup_name_def
        qe_basename_def strrchr_def slash_def PATH_MAX_def)
  from quit_loses_text [OF edited_world_simps(1,2) this refl, of 121] show ?thesis by auto
qed

end
