(* ===== verification/Search.thy ===== *)
theory Search
  imports Editing Key_Names
begin

text \<open>
  Searching and replacing in \<open>src/qe.c\<close>: \<open>eb_search\<close>, incremental search and query replace. This
  theory holds the definitions; \<open>Search_Theorems\<close> proves what they find and replace.

  \<open>abort\<close> is the answer of the abort function when it is asked at an offset. The two commands grab
  the keys; a state is what their key functions get as \<open>opaque\<close>, and what they leave is a state that
  waits for the next key or the end. The text on the screen is left out, but the status
  line is built, since it has a fixed size. \<open>toupper\<close> and its kin are those of the C locale.
\<close>

section \<open>Searching\<close>

definition SEARCH_FLAG_IGNORECASE :: u32 where "SEARCH_FLAG_IGNORECASE = 0x0001"
definition SEARCH_FLAG_SMARTCASE :: u32 where "SEARCH_FLAG_SMARTCASE = 0x0002"
definition SEARCH_FLAG_WORD :: u32 where "SEARCH_FLAG_WORD = 0x0004"

definition islower :: "u8 \<Rightarrow> bool" where "islower c \<longleftrightarrow> 97 \<le> c \<and> c \<le> 122"
definition isupper :: "u8 \<Rightarrow> bool" where "isupper c \<longleftrightarrow> 65 \<le> c \<and> c \<le> 90"
definition upper_byte :: "u8 \<Rightarrow> u8" where "upper_byte c = (if islower c then c - 32 else c)"

definition flag_set :: "u32 \<Rightarrow> u32 \<Rightarrow> bool" where
  "flag_set flags f \<longleftrightarrow> flags AND f \<noteq> 0"

text \<open>Smart case: case is ignored if the text has a lower case letter and no upper case one.\<close>

definition search_flags :: "u32 \<Rightarrow> u8 list \<Rightarrow> u32" where
  "search_flags flags buf =
     (if flag_set flags SEARCH_FLAG_SMARTCASE
      then (let lower_count = length (filter islower buf); upper_count = length (filter isupper buf)
            in if lower_count > 0 \<and> upper_count = 0 then flags OR SEARCH_FLAG_IGNORECASE else flags)
      else flags)"

definition fold_case :: "u32 \<Rightarrow> u8 \<Rightarrow> u8" where
  "fold_case flags c = (if flag_set flags SEARCH_FLAG_IGNORECASE then upper_byte c else c)"

definition read_at :: "EditBuffer \<Rightarrow> int \<Rightarrow> (u8 \<times> EditBuffer) option" where
  "read_at b offset = do {
     guard (0 \<le> offset);
     (bs, b) \<leftarrow> eb_read b (nat offset) 1;
     guard (length bs = 1);
     Some (bs ! 0, b) }"

text \<open>The loop that compares: are the bytes of \<open>buf1\<close> at the offset?\<close>

fun match_bytes :: "EditBuffer \<Rightarrow> u32 \<Rightarrow> int \<Rightarrow> u8 list \<Rightarrow> (bool \<times> EditBuffer) option" where
  "match_bytes b flags offset [] = Some (True, b)"
| "match_bytes b flags offset (x # xs) = (case read_at b offset of
       None \<Rightarrow> None
     | Some (ch, b) \<Rightarrow>
         if fold_case flags ch \<noteq> x then Some (False, b) else match_bytes b flags (offset + 1) xs)"

definition word_start_at :: "EditBuffer \<Rightarrow> u32 \<Rightarrow> int \<Rightarrow> (bool \<times> EditBuffer) option" where
  "word_start_at b flags offset =
     (if flag_set flags SEARCH_FLAG_WORD \<and> offset \<noteq> 0
      then do { (ch, b) \<leftarrow> read_at b (offset - 1); Some (\<not> isword (uint ch), b) }
      else Some (True, b))"

definition word_end_at :: "EditBuffer \<Rightarrow> u32 \<Rightarrow> int \<Rightarrow> (bool \<times> EditBuffer) option" where
  "word_end_at b flags offset =
     (if flag_set flags SEARCH_FLAG_WORD \<and> offset < int (total_size b)
      then do { (ch, b) \<leftarrow> read_at b offset; Some (\<not> isword (uint ch), b) }
      else Some (True, b))"

definition found_here :: "EditBuffer \<Rightarrow> u32 \<Rightarrow> int \<Rightarrow> u8 list \<Rightarrow> (bool \<times> EditBuffer) option" where
  "found_here b flags offset buf1 = do {
     (ok, b) \<leftarrow> word_start_at b flags offset;
     if \<not> ok then Some (False, b)
     else do {
       (ok, b) \<leftarrow> match_bytes b flags offset buf1;
       if \<not> ok then Some (False, b)
       else word_end_at b flags (offset + int (length buf1)) } }"

partial_function (option) search_loop ::
    "EditBuffer \<Rightarrow> int \<Rightarrow> int \<Rightarrow> u8 list \<Rightarrow> u32 \<Rightarrow> (int \<Rightarrow> bool) \<Rightarrow> (int \<times> EditBuffer) option" where
  "search_loop b offset dir buf1 flags abort =
     (let offset = offset + dir in
      if offset < 0 then Some (-1, b)
      else if offset > int (total_size b) - int (length buf1) then Some (-1, b)
      else if offset AND 0xfff = 0 \<and> abort offset then Some (-1, b)
      else do {
        (found, b) \<leftarrow> found_here b flags offset buf1;
        if found then Some (offset, b) else search_loop b offset dir buf1 flags abort })"

definition eb_search :: "EditBuffer \<Rightarrow> int \<Rightarrow> int \<Rightarrow> u8 list \<Rightarrow> u32 \<Rightarrow> (int \<Rightarrow> bool)
    \<Rightarrow> (int \<times> EditBuffer) option" where
  "eb_search b offset dir buf flags abort =
     (if length buf = 0 \<or> length buf \<ge> 1024 then Some (-1, b)
      else let flags = search_flags flags buf;
        buf1 = map (fold_case flags) buf;
        sz = int (total_size b) - int (length buf);
        offset = (if dir < 0 then (if offset > sz then sz else offset) else offset - 1)
      in search_loop b offset dir buf1 flags abort)"

declare search_loop.simps [code]

section \<open>Incremental search\<close>

definition SEARCH_LENGTH :: nat where "SEARCH_LENGTH = 80"
definition FOUND_TAG :: u32 where "FOUND_TAG = 0x80000000"

text \<open>
  \<open>is_string\<close> is the search string up to \<open>is->pos\<close>: characters, and with \<open>FOUND_TAG\<close> the offsets of
  matches from which the search went on.
\<close>

record ISearchState =
  is_s :: EditState
  is_start :: int
  is_dir :: int
  is_flags :: u32
  is_found :: int
  is_string :: "u32 list"
  is_hex :: bool

text \<open>
  The bytes to search for and the offset to start from. In hexadecimal mode \<open>nibble\<close> is the first half of
  a byte that is not complete. The array has \<open>2 * SEARCH_LENGTH\<close> bytes; nothing is added to the last ten.
\<close>

fun isearch_bytes :: "bool \<Rightarrow> QECharset \<Rightarrow> int \<Rightarrow> u32 list \<Rightarrow> u8 list \<Rightarrow> u8 option \<Rightarrow> int
    \<Rightarrow> u8 list \<times> int" where
  "isearch_bytes hex cs dir [] q nibble search_offset = (q, search_offset)"
| "isearch_bytes hex cs dir (v # vs) q nibble search_offset =
     (if v AND FOUND_TAG = 0 then
        (if length q < 2 * SEARCH_LENGTH - 10 then
           (if hex then
              (let h = to_hex (uint v) in
               if h \<ge> 0 then
                 (case nibble of
                    None \<Rightarrow> isearch_bytes hex cs dir vs q (Some (byte (16 * h))) search_offset
                  | Some n \<Rightarrow> isearch_bytes hex cs dir vs (q @ [n OR byte h]) None search_offset)
               else isearch_bytes hex cs dir vs q nibble search_offset)
            else isearch_bytes hex cs dir vs (q @ unicode_to_charset (uint v) cs) nibble search_offset)
         else isearch_bytes hex cs dir vs q nibble search_offset)
      else isearch_bytes hex cs dir vs q nibble (uint (v AND NOT FOUND_TAG) + dir))"

text \<open>The status line, in an array of 256 bytes.\<close>

definition isearch_prompt :: "ISearchState \<Rightarrow> nat \<Rightarrow> string" where
  "isearch_prompt is len =
     (if is_found is < 0 \<and> len > 0 then ''Failing '' else []) @
     (if is_hex is then ''hex ''
      else (if flag_set (is_flags is) SEARCH_FLAG_WORD then ''word '' else []) @
        (if flag_set (is_flags is) SEARCH_FLAG_IGNORECASE then ''case-insensitive ''
         else if \<not> flag_set (is_flags is) SEARCH_FLAG_SMARTCASE then ''case-sensitive '' else [])) @
     ''I-search'' @ (if is_dir is < 0 then '' backward'' else []) @ '': ''"

definition isearch_status :: "ISearchState \<Rightarrow> nat \<Rightarrow> u8 list" where
  "isearch_status is len = bytes_of (isearch_prompt is len) @
     concat (map (\<lambda>v. if v AND FOUND_TAG = 0 then utf8_encode (uint v) else []) (is_string is))"

definition isearch_display :: "(int \<Rightarrow> bool) \<Rightarrow> ISearchState \<Rightarrow> ISearchState option" where
  "isearch_display abort is = do {
     let s = is_s is;
     let (buf, search_offset) = isearch_bytes (is_hex is) (charset (es_b s)) (is_dir is) (is_string is) [] None (is_start is);
     let len = length buf;
     is \<leftarrow> (if len = 0 then Some (is\<lparr>is_s := goto_off s (is_start is), is_found := -1\<rparr>)
       else do {
         let flags = (if is_hex is then 0 else is_flags is);
         (found, b) \<leftarrow> eb_search (es_b s) search_offset (is_dir is) buf flags abort;
         let s = s\<lparr>es_b := b\<rparr>;
         Some (is\<lparr>is_s := (if found \<ge> 0 then goto_off s (found + int len) else s), is_found := found\<rparr>) });
     guard (length (isearch_status is len) < 256);
     Some is }"

text \<open>
  What a key leads to: a state that waits for the next key, or the end with the key that is put back,
  if any. The last searched string is kept for the next search.
\<close>

datatype ISearchPhase = IS_Wait ISearchState | IS_End EditState "int option"

definition isearch_end :: "u32 list \<Rightarrow> ISearchState \<Rightarrow> u32 list" where
  "isearch_end prev is =
     (if is_string is \<noteq> [] then filter (\<lambda>v. v AND FOUND_TAG = 0) (is_string is) else prev)"

definition isearch_again :: "u32 list \<Rightarrow> ISearchState \<Rightarrow> ISearchState" where
  "isearch_again prev is =
     (if is_string is = [] then is\<lparr>is_string := prev\<rparr>
      else if length (is_string is) < SEARCH_LENGTH \<and> is_found is \<ge> 0
      then is\<lparr>is_string := is_string is @ [FOUND_TAG OR word_of_int (is_found is)]\<rparr>
      else is)"

definition isearch_key :: "(int \<Rightarrow> bool) \<Rightarrow> u32 list \<Rightarrow> ISearchState \<Rightarrow> int
    \<Rightarrow> (ISearchPhase \<times> u32 list) option" where
  "isearch_key abort prev is ch =
     (let show_state = (\<lambda>is. do { is \<leftarrow> isearch_display abort is; Some (IS_Wait is, prev) }) in
      if ch = KEY_BACKSPACE then show_state (is\<lparr>is_string := butlast (is_string is)\<rparr>)
      else if ch = KEY_CTRL 103
        then Some (IS_End (goto_off (is_s is) (is_start is)) None, isearch_end prev is)
      else if ch = KEY_CTRL 115 then show_state (isearch_again prev (is\<lparr>is_dir := 1\<rparr>))
      else if ch = KEY_CTRL 114 then show_state (isearch_again prev (is\<lparr>is_dir := -1\<rparr>))
      else if ch = KEY_CTRL 119
        then show_state (is\<lparr>is_flags := is_flags is XOR SEARCH_FLAG_WORD\<rparr>)
      else if ch = KEY_CTRL 99
        then show_state (is\<lparr>is_flags := (is_flags is XOR SEARCH_FLAG_IGNORECASE) AND NOT SEARCH_FLAG_SMARTCASE\<rparr>)
      else if KEY_SPECIAL ch
        then Some (IS_End (set_tracked MARK (is_start is) (is_s is)) (if ch \<noteq> KEY_RET then Some ch else None),
          isearch_end prev is)
      else show_state (if length (is_string is) < SEARCH_LENGTH
        then is\<lparr>is_string := is_string is @ [word_of_int ch]\<rparr> else is))"

definition do_isearch :: "(int \<Rightarrow> bool) \<Rightarrow> bool \<Rightarrow> EditState \<Rightarrow> int \<Rightarrow> ISearchState option" where
  "do_isearch abort hex s dir = isearch_display abort
     \<lparr>is_s = s, is_start = off s, is_dir = dir, is_flags = SEARCH_FLAG_SMARTCASE, is_found = 0,
      is_string = [], is_hex = hex\<rparr>"

section \<open>Query replace\<close>

text \<open>The bytes of a string: as they are or, in hexadecimal mode, read as digits.\<close>

fun hex_bytes :: "int \<Rightarrow> bool \<Rightarrow> string \<Rightarrow> u8 list" where
  "hex_bytes h nibble [] = []"
| "hex_bytes h nibble (x # s) =
     (let c = to_hex (code x) in
      if c \<ge> 0 then
        (let h = 16 * h + c in
         if nibble then byte h # hex_bytes 0 False s else hex_bytes h True s)
      else hex_bytes h nibble s)"

definition to_bytes :: "bool \<Rightarrow> nat \<Rightarrow> string \<Rightarrow> u8 list" where
  "to_bytes hex dst_size str = take dst_size (if hex then hex_bytes 0 False str else bytes_of str)"

record QueryReplaceState =
  qr_s :: EditState
  nb_reps :: nat
  search_bytes :: "u8 list"
  replace_bytes :: "u8 list"
  found_offset :: int
  replace_all :: bool

text \<open>Wait for a key, or the end with the number of replacements.\<close>

datatype QueryPhase = QR_Wait QueryReplaceState | QR_Done EditState nat

definition query_replace_replace :: "QueryReplaceState \<Rightarrow> QueryReplaceState option" where
  "query_replace_replace is = do {
     s \<leftarrow> delete_at (qr_s is) (found_offset is) (int (length (search_bytes is)));
     s \<leftarrow> insert_at s (found_offset is) (replace_bytes is);
     Some (is\<lparr>qr_s := s, found_offset := found_offset is + int (length (replace_bytes is)),
       nb_reps := nb_reps is + 1\<rparr>) }"

partial_function (option) query_replace_display :: "QueryReplaceState \<Rightarrow> QueryPhase option" where
  "query_replace_display is = do {
     (found, b) \<leftarrow> eb_search (es_b (qr_s is)) (found_offset is) 1 (search_bytes is) 0 (\<lambda>_. False);
     let is = is\<lparr>found_offset := found, qr_s := (qr_s is)\<lparr>es_b := b\<rparr>\<rparr>;
     if found < 0 then Some (QR_Done (qr_s is) (nb_reps is))
     else if replace_all is
     then do { is \<leftarrow> query_replace_replace is; query_replace_display is }
     else Some (QR_Wait (is\<lparr>qr_s := goto_off (qr_s is) found\<rparr>)) }"

definition query_replace_key :: "QueryReplaceState \<Rightarrow> int \<Rightarrow> QueryPhase option" where
  "query_replace_key is ch =
     (if ch = 121 \<or> ch = 32 then do { is \<leftarrow> query_replace_replace is; query_replace_display is }
      else if ch = 33 then query_replace_display (is\<lparr>replace_all := True\<rparr>)
      else if ch = 110 \<or> ch = KEY_DELETE then query_replace_display is
      else Some (QR_Done (qr_s is) (nb_reps is)))"

definition do_query_replace :: "bool \<Rightarrow> EditState \<Rightarrow> string \<Rightarrow> string \<Rightarrow> QueryPhase option" where
  "do_query_replace hex s search_str replace_str =
     (if read_only s then Some (QR_Done s 0)
      else query_replace_display
        \<lparr>qr_s = s, nb_reps = 0, search_bytes = to_bytes hex SEARCH_LENGTH search_str,
         replace_bytes = to_bytes hex SEARCH_LENGTH replace_str, found_offset = off s, replace_all = False\<rparr>)"

declare query_replace_display.simps [code]

end
