(* ===== verification/Search_Theorems.thy ===== *)
theory Search_Theorems
  imports Search Edit_Changes Edit_Theorems
begin

text \<open>
  The properties of searching and replacing: which occurrence a search returns, in both directions,
  and that query replace computes the replacement of all occurrences from left to right.
\<close>

section \<open>Occurrences\<close>

text \<open>The text \<open>pat\<close> occurs in \<open>t\<close> at \<open>k\<close>, under the search flags.\<close>

definition occurs :: "u32 \<Rightarrow> u8 list \<Rightarrow> u8 list \<Rightarrow> nat \<Rightarrow> bool" where
  "occurs flags pat t k \<longleftrightarrow> k + length pat \<le> length t \<and>
     map (fold_case flags) (list_slice k (length pat) t) = map (fold_case flags) pat \<and>
     (flag_set flags SEARCH_FLAG_WORD \<longrightarrow> (k = 0 \<or> \<not> isword (uint (t ! (k - 1)))) \<and>
       (k + length pat = length t \<or> \<not> isword (uint (t ! (k + length pat)))))"

lemma read_at_byte:
  assumes "buf_ok b" "k < length (contents b)"
  obtains b' where "read_at b (int k) = Some (contents b ! k, b')" "same_doc b b'"
proof -
  obtain b' where "eb_read b k 1 = Some ([contents b ! k], b')" "same_doc b b'"
    using read_byte [OF assms] .
  then show thesis using that by (simp add: read_at_def)
qed

lemma match_bytes_correct:
  assumes "buf_ok b" "k + length xs \<le> length (contents b)"
  shows "\<exists>b'. match_bytes b flags (int k) xs =
      Some (map (fold_case flags) (list_slice k (length xs) (contents b)) = xs, b') \<and> same_doc b b'"
  using assms
proof (induction xs arbitrary: b k)
  case Nil
  then show ?case by (auto simp: list_slice_def same_doc_refl)
next
  case (Cons x xs)
  have k: "k < length (contents b)" using Cons.prems(2) by simp
  obtain b1 where b1: "read_at b (int k) = Some (contents b ! k, b1)" "same_doc b b1"
    using read_at_byte [OF Cons.prems(1) k] .
  have slice: "list_slice k (length (x # xs)) (contents b) =
      contents b ! k # list_slice (Suc k) (length xs) (contents b)"
    using k by (simp add: list_slice_def Cons_nth_drop_Suc [symmetric])
  note d = same_docD [OF b1(2)]
  show ?case
  proof (cases "fold_case flags (contents b ! k) = x")
    case True
    obtain b2 where "match_bytes b1 flags (int (Suc k)) xs =
        Some (map (fold_case flags) (list_slice (Suc k) (length xs) (contents b1)) = xs, b2)" "same_doc b1 b2"
      using Cons.IH [OF d(1), of "Suc k"] Cons.prems(2) d(2) by auto
    then show ?thesis
      using True b1 d(2) same_doc_trans [OF b1(2)] unfolding slice by (auto simp: add.commute)
  next
    case False
    then show ?thesis using b1 unfolding slice by auto
  qed
qed

lemma word_start_correct:
  assumes "buf_ok b" "k \<le> length (contents b)"
  obtains b' where "word_start_at b flags (int k) =
      Some (flag_set flags SEARCH_FLAG_WORD \<longrightarrow> k = 0 \<or> \<not> isword (uint (contents b ! (k - 1))), b')" "same_doc b b'"
proof (cases "flag_set flags SEARCH_FLAG_WORD \<and> k \<noteq> 0")
  case True
  then have k: "k - 1 < length (contents b)" "int k - 1 = int (k - 1)" using assms(2) by auto
  obtain b' where "read_at b (int (k - 1)) = Some (contents b ! (k - 1), b')" "same_doc b b'"
    using read_at_byte [OF assms(1) k(1)] .
  then show thesis using that True by (simp add: word_start_at_def k(2) [symmetric])
next
  case False
  then show thesis using that [of b] assms(1) by (auto simp: word_start_at_def same_doc_refl)
qed

lemma word_end_correct:
  assumes "buf_ok b"
  obtains b' where "word_end_at b flags (int k) =
      Some (flag_set flags SEARCH_FLAG_WORD \<longrightarrow> k \<ge> length (contents b) \<or> \<not> isword (uint (contents b ! k)), b')"
    "same_doc b b'"
proof (cases "flag_set flags SEARCH_FLAG_WORD \<and> k < length (contents b)")
  case True
  then obtain b' where "read_at b (int k) = Some (contents b ! k, b')" "same_doc b b'"
    using read_at_byte [OF assms] by blast
  then show thesis using that True buf_okD(2) [OF assms] by (simp add: word_end_at_def)
next
  case False
  then show thesis using that [of b] assms buf_okD(2) [OF assms] by (auto simp: word_end_at_def same_doc_refl)
qed

lemma found_here_correct:
  assumes "buf_ok b" "k + length pat \<le> length (contents b)"
  shows "\<exists>b'. found_here b flags (int k) (map (fold_case flags) pat) = Some (occurs flags pat (contents b) k, b') \<and>
    same_doc b b'"
proof -
  let ?t = "contents b" and ?w = "flag_set flags SEARCH_FLAG_WORD"
  obtain b1 where b1: "word_start_at b flags (int k) =
      Some (?w \<longrightarrow> k = 0 \<or> \<not> isword (uint (?t ! (k - 1))), b1)" "same_doc b b1"
    using word_start_correct [OF assms(1), of k flags] assms(2) by auto
  note d1 = same_docD [OF b1(2)]
  show ?thesis
  proof (cases "?w \<longrightarrow> k = 0 \<or> \<not> isword (uint (?t ! (k - 1)))")
    case False
    then show ?thesis using b1 by (auto simp: found_here_def occurs_def)
  next
    case start: True
    obtain b2 where b2: "match_bytes b1 flags (int k) (map (fold_case flags) pat) =
        Some (map (fold_case flags) (list_slice k (length pat) ?t) = map (fold_case flags) pat, b2)" "same_doc b1 b2"
      using match_bytes_correct [OF d1(1), of k "map (fold_case flags) pat"] assms(2) d1(2) by auto
    have b02: "same_doc b b2" using same_doc_trans [OF b1(2) b2(2)] .
    note d2 = same_docD [OF b02]
    show ?thesis
    proof (cases "map (fold_case flags) (list_slice k (length pat) ?t) = map (fold_case flags) pat")
      case False
      then show ?thesis using start b1(1) b2(1) b02 by (auto simp: found_here_def occurs_def)
    next
      case True
      obtain b3 where "word_end_at b2 flags (int (k + length pat)) =
          Some (?w \<longrightarrow> k + length pat \<ge> length ?t \<or> \<not> isword (uint (?t ! (k + length pat))), b3)" "same_doc b2 b3"
        using word_end_correct [OF d2(1), of flags "k + length pat"] d2(2) by metis
      moreover have "(?w \<longrightarrow> k + length pat \<ge> length ?t \<or> \<not> isword (uint (?t ! (k + length pat)))) = occurs flags pat ?t k"
        using start True assms(2) by (auto simp: occurs_def)
      ultimately show ?thesis
        using True start b1(1) b2(1) same_doc_trans [OF b02] by (auto simp: found_here_def)
    qed
  qed
qed

section \<open>Which occurrence is found\<close>

text \<open>
  The result \<open>r\<close> of a search from \<open>p\<close>, which is not looked at itself, in the direction \<open>dir\<close>: the nearest
  occurrence, or -1 if there is none or the search was aborted.
\<close>

definition nearest :: "u32 \<Rightarrow> u8 list \<Rightarrow> u8 list \<Rightarrow> int \<Rightarrow> int \<Rightarrow> bool \<Rightarrow> int \<Rightarrow> bool" where
  "nearest flags pat t dir p aborted r \<longleftrightarrow>
     (0 \<le> r \<and> 0 < dir * (r - p) \<and> occurs flags pat t (nat r) \<and>
       (\<forall>k. 0 < dir * (int k - p) \<and> dir * (int k - r) < 0 \<longrightarrow> \<not> occurs flags pat t k)) \<or>
     (r = -1 \<and> (aborted \<or> (\<forall>k. 0 < dir * (int k - p) \<longrightarrow> \<not> occurs flags pat t k)))"

lemma nearest_step:
  assumes "nearest flags pat t dir (p + dir) aborted r" "dir = 1 \<or> dir = -1" "0 \<le> p + dir"
    "\<not> occurs flags pat t (nat (p + dir))"
  shows "nearest flags pat t dir p aborted r"
proof -
  have k: "0 < dir * (int k - (p + dir))" if "0 < dir * (int k - p)" "occurs flags pat t k" for k
  proof -
    have "int k \<noteq> p + dir" using assms(4) that(2) by (metis nat_int)
    then show ?thesis using that(1) assms(2) by auto
  qed
  have "0 < dir * (r - (p + dir)) \<Longrightarrow> 0 < dir * (r - p)" using assms(2) by auto
  then show ?thesis using assms(1) k unfolding nearest_def by blast
qed

lemma search_loop_correct:
  assumes "buf_ok b" "dir = 1 \<or> dir = -1"
    "dir = -1 \<longrightarrow> p \<le> int (length (contents b)) - int (length pat) + 1" "dir = 1 \<longrightarrow> -1 \<le> p"
  shows "\<exists>r b'. search_loop b p dir (map (fold_case flags) pat) flags abort = Some (r, b') \<and> same_doc b b' \<and>
    nearest flags pat (contents b) dir p (\<exists>k. abort k) r"
  using assms
proof (induction "nat (if dir = 1 then int (length (contents b)) - p else p + 1)" arbitrary: b p rule: less_induct)
  case less
  let ?t = "contents b" and ?q = "p + dir"
  have total: "total_size b = length ?t" by (rule buf_okD(2) [OF less.prems(1)])
  have step: "search_loop b p dir (map (fold_case flags) pat) flags abort =
      (if ?q < 0 \<or> ?q > int (length ?t) - int (length pat) \<or> (?q AND 0xfff = 0 \<and> abort ?q) then Some (-1, b)
       else case found_here b flags ?q (map (fold_case flags) pat) of None \<Rightarrow> None
         | Some (found, b) \<Rightarrow> if found then Some (?q, b)
             else search_loop b ?q dir (map (fold_case flags) pat) flags abort)"
    by (subst search_loop.simps) (auto simp: Let_def total split: option.split)
  show ?case
  proof (cases "?q < 0 \<or> ?q > int (length ?t) - int (length pat) \<or> (?q AND 0xfff = 0 \<and> abort ?q)")
    case True
    have "nearest flags pat ?t dir p (\<exists>k. abort k) (-1)"
      using True less.prems(2-4) by (auto simp: nearest_def occurs_def)
    then show ?thesis using True less.prems(1) by (auto simp: step same_doc_refl)
  next
    case False
    then have q: "int (nat ?q) = ?q" "nat ?q + length pat \<le> length ?t" by auto
    obtain b1 where b1: "found_here b flags ?q (map (fold_case flags) pat) = Some (occurs flags pat ?t (nat ?q), b1)"
      "same_doc b b1"
      using found_here_correct [OF less.prems(1) q(2), of flags] unfolding q(1) by blast
    note d = same_docD [OF b1(2)]
    show ?thesis
    proof (cases "occurs flags pat ?t (nat ?q)")
      case True
      then have "nearest flags pat ?t dir p (\<exists>k. abort k) ?q"
        using False less.prems(2) by (auto simp: nearest_def)
      then show ?thesis using False True b1 by (auto simp: step)
    next
      case no: False
      have smaller: "nat (if dir = 1 then int (length (contents b1)) - ?q else ?q + 1) <
          nat (if dir = 1 then int (length ?t) - p else p + 1)"
        using False less.prems(2) d(2) by auto
      have pre: "dir = -1 \<longrightarrow> ?q \<le> int (length (contents b1)) - int (length pat) + 1" "dir = 1 \<longrightarrow> -1 \<le> ?q"
        using False d(2) by auto
      obtain r b2 where r: "search_loop b1 ?q dir (map (fold_case flags) pat) flags abort = Some (r, b2)"
        "same_doc b1 b2" "nearest flags pat ?t dir ?q (\<exists>k. abort k) r"
        using less.hyps [OF smaller d(1) less.prems(2) pre] unfolding d(2) by blast
      have "nearest flags pat ?t dir p (\<exists>k. abort k) r"
        by (rule nearest_step [OF r(3) less.prems(2) _ no]) (use False in simp)
      then show ?thesis using False no b1(1) r(1) same_doc_trans [OF b1(2) r(2)] by (auto simp: step)
    qed
  qed
qed

text \<open>C12. What a search finds. For a text of 1 to 1023 bytes \<open>eb_search\<close> ends and leaves the buffer alone.
  Forward it returns the first occurrence at or behind the offset, backward the last one that begins before
  both the offset and the place where the text would end the buffer, or -1 if there is none or it was aborted;
  an occurrence respects case and word boundaries as the flags say.\<close>

theorem eb_search_spec:
  assumes "buf_ok b" "pat \<noteq> []" "length pat < 1024" "0 \<le> p"
  shows "(\<exists>r b'. eb_search b p 1 pat flags abort = Some (r, b') \<and> same_doc b b' \<and>
      nearest (search_flags flags pat) pat (contents b) 1 (p - 1) (\<exists>k. abort k) r) \<and>
    (\<exists>r b'. eb_search b p (-1) pat flags abort = Some (r, b') \<and> same_doc b b' \<and>
      nearest (search_flags flags pat) pat (contents b) (-1)
        (min p (int (length (contents b)) - int (length pat))) (\<exists>k. abort k) r)"
proof -
  let ?fl = "search_flags flags pat" and ?sz = "int (length (contents b)) - int (length pat)"
  have "eb_search b p 1 pat flags abort = search_loop b (p - 1) 1 (map (fold_case ?fl) pat) ?fl abort"
    "eb_search b p (-1) pat flags abort = search_loop b (min p ?sz) (-1) (map (fold_case ?fl) pat) ?fl abort"
    using assms(2,3) buf_okD(2) [OF assms(1)] by (simp_all add: eb_search_def Let_def min_def)
  then show ?thesis
    using search_loop_correct [OF assms(1), of 1 "p - 1" pat ?fl abort]
      search_loop_correct [OF assms(1), of "-1" "min p ?sz" pat ?fl abort] assms(4) by simp
qed

text \<open>Searching backward from the end. The offset is set back to the last place where the text can begin and
  then moved by one more: a text that ends the buffer is never found there, and if it occurs nowhere
  else the search fails.\<close>

theorem backward_search_misses_end:
  assumes "buf_ok b" "pat \<noteq> []" "length pat < 1024" "contents b = A @ pat" "int (length A) \<le> p"
    "\<forall>k < length A. \<not> occurs (search_flags flags pat) pat (contents b) k"
  shows "\<exists>b'. eb_search b p (-1) pat flags abort = Some (-1, b')"
proof -
  let ?fl = "search_flags flags pat"
  have "eb_search b p (-1) pat flags abort = search_loop b (int (length A)) (-1) (map (fold_case ?fl) pat) ?fl abort"
    using assms(2-5) buf_okD(2) [OF assms(1)] by (simp add: eb_search_def Let_def)
  moreover obtain r b' where "search_loop b (int (length A)) (-1) (map (fold_case ?fl) pat) ?fl abort = Some (r, b')"
    "nearest ?fl pat (contents b) (-1) (int (length A)) (\<exists>k. abort k) r"
    using search_loop_correct [OF assms(1), of "-1" "int (length A)" pat ?fl abort] assms(4) by auto
  moreover have "r = -1" using calculation(3) assms(6) by (auto simp: nearest_def)
  ultimately show ?thesis by simp
qed

section \<open>Query replace\<close>

text \<open>Replacing all occurrences from left to right, as a function on lists; and their number.\<close>

function replaced :: "'a list \<Rightarrow> 'a list \<Rightarrow> 'a list \<Rightarrow> 'a list" where
  "replaced pat rep xs =
     (if xs = [] \<or> pat = [] then xs
      else if take (length pat) xs = pat then rep @ replaced pat rep (drop (length pat) xs)
      else hd xs # replaced pat rep (tl xs))"
  by pat_completeness auto
termination by (relation "measure (\<lambda>(pat, rep, xs). length xs)") auto

function occurrences :: "'a list \<Rightarrow> 'a list \<Rightarrow> nat" where
  "occurrences pat xs =
     (if xs = [] \<or> pat = [] then 0
      else if take (length pat) xs = pat then 1 + occurrences pat (drop (length pat) xs)
      else occurrences pat (tl xs))"
  by pat_completeness auto
termination by (relation "measure (\<lambda>(pat, xs). length xs)") auto

declare replaced.simps [simp del] occurrences.simps [simp del]

lemma replaced_skip:
  "\<forall>j < k. take (length pat) (drop j xs) \<noteq> pat \<Longrightarrow> k \<le> length xs \<Longrightarrow>
   replaced pat rep xs = take k xs @ replaced pat rep (drop k xs) \<and>
   occurrences pat xs = occurrences pat (drop k xs)"
proof (induction k arbitrary: xs)
  case (Suc k)
  then obtain x ys where xs: "xs = x # ys" by (cases xs) auto
  have "take (length pat) xs \<noteq> pat" using Suc.prems(1) by (metis drop0 zero_less_Suc)
  then have "replaced pat rep xs = x # replaced pat rep ys" "occurrences pat xs = occurrences pat ys"
    using xs by (subst replaced.simps occurrences.simps; auto)+
  moreover have "\<forall>j < k. take (length pat) (drop j ys) \<noteq> pat" using Suc.prems(1) xs by (metis Suc_less_eq drop_Suc_Cons)
  ultimately show ?case using Suc.IH [of ys] Suc.prems(2) xs by simp
qed simp

lemma replaced_here:
  "take (length pat) xs = pat \<Longrightarrow> pat \<noteq> [] \<Longrightarrow>
   replaced pat rep xs = rep @ replaced pat rep (drop (length pat) xs) \<and>
   occurrences pat xs = Suc (occurrences pat (drop (length pat) xs))"
  by (subst replaced.simps, subst occurrences.simps) auto

lemma flags_0 [simp]: "flag_set 0 f = False" "search_flags 0 pat = 0" "fold_case 0 c = c"
  by (simp_all add: flag_set_def search_flags_def fold_case_def)

lemma occurs_0: "occurs 0 pat t k \<longleftrightarrow> k + length pat \<le> length t \<and> take (length pat) (drop k t) = pat"
  by (auto simp: occurs_def list_slice_def map_idI)

text \<open>A plain search forward, as the command makes it.\<close>

lemma plain_search:
  assumes "buf_ok b" "pat \<noteq> []" "length pat < 1024" "p \<le> length (contents b)"
  obtains (found) k b' where "eb_search b (int p) 1 pat 0 (\<lambda>_. False) = Some (int k, b')" "same_doc b b'" "p \<le> k"
      "k + length pat \<le> length (contents b)" "take (length pat) (drop k (contents b)) = pat"
      "\<forall>j. p \<le> j \<and> j < k \<longrightarrow> take (length pat) (drop j (contents b)) \<noteq> pat"
  | (none) b' where "eb_search b (int p) 1 pat 0 (\<lambda>_. False) = Some (-1, b')" "same_doc b b'"
      "\<forall>j \<ge> p. take (length pat) (drop j (contents b)) \<noteq> pat"
proof -
  let ?t = "contents b"
  have fits: "k + length pat \<le> length ?t" if "take (length pat) (drop k ?t) = pat" for k
    using arg_cong [OF that, of length] assms(2) by (cases pat) (auto simp: min_def split: if_splits)
  obtain r b' where r: "eb_search b (int p) 1 pat 0 (\<lambda>_. False) = Some (r, b')" "same_doc b b'"
    "nearest 0 pat ?t 1 (int p - 1) False r"
    using search_loop_correct [OF assms(1), of 1 "int p - 1" pat 0 "\<lambda>_. False"] assms(2,3)
    by (auto simp: eb_search_def Let_def)
  show thesis
  proof (cases "0 \<le> r")
    case True
    then obtain k where k: "r = int k" by (metis nonneg_int_cases)
    have "p \<le> k" "occurs 0 pat ?t k" and before: "\<And>j. p \<le> j \<Longrightarrow> j < k \<Longrightarrow> \<not> occurs 0 pat ?t j"
      using r(3) unfolding nearest_def k by auto
    moreover have "take (length pat) (drop j ?t) \<noteq> pat" if "p \<le> j" "j < k" for j
      using before [OF that] fits [of j] by (auto simp: occurs_0)
    ultimately show thesis using r(1,2) unfolding k by (intro found [of k b']) (auto simp: occurs_0)
  next
    case False
    then have "r = -1" and after: "\<And>j. p \<le> j \<Longrightarrow> \<not> occurs 0 pat ?t j"
      using r(3) unfolding nearest_def by auto
    moreover have "take (length pat) (drop j ?t) \<noteq> pat" if "p \<le> j" for j
      using after [OF that] fits [of j] by (auto simp: occurs_0)
    ultimately show thesis using r(1,2) by (intro none [of b']) auto
  qed
qed

lemma query_replace_text:
  assumes "holds_text (qr_s st) t" "found_offset st = int k" "k + length (search_bytes st) \<le> length t"
    "length t + length (replace_bytes st) < 2147483648"
  obtains s' where "query_replace_replace st = Some (st\<lparr>qr_s := s',
      found_offset := int (k + length (replace_bytes st)), nb_reps := nb_reps st + 1\<rparr>)"
    "holds_text s' (take k t @ replace_bytes st @ drop (k + length (search_bytes st)) t)"
proof -
  let ?n = "length (search_bytes st)"
  have len: "length t < 2147483648" using assms(4) by simp
  obtain s1 where s1: "delete_at (qr_s st) (int k) (int ?n) = Some s1" "holds_text s1 (list_delete k ?n t)"
    using delete_at_text [OF assms(1,3) len] .
  have k: "k \<le> length (list_delete k ?n t)" "length (list_delete k ?n t) + length (replace_bytes st) < 2147483648"
    using assms(3,4) by (simp_all add: list_delete_def)
  obtain s2 where s2: "insert_at s1 (int k) (replace_bytes st) = Some s2"
    "holds_text s2 (list_insert k (replace_bytes st) (list_delete k ?n t))"
    using insert_at_text [OF s1(2) k] .
  have "list_insert k (replace_bytes st) (list_delete k ?n t) = take k t @ replace_bytes st @ drop (k + ?n) t"
    using assms(3) by (simp add: list_insert_def list_delete_def)
  then show thesis
    using that [of s2] s1(1) s2 assms(2) by (simp add: query_replace_replace_def)
qed

lemma holds_read:
  "holds_text s t \<Longrightarrow> same_doc (es_b s) b \<Longrightarrow> holds_text (s\<lparr>es_b := b\<rparr>) t"
  using refines_same_doc by (auto simp: holds_text_def)

lemma replaced_none:
  assumes "\<forall>j \<ge> p. take (length pat) (drop j t) \<noteq> pat"
  shows "replaced pat rep (drop p t) = drop p t \<and> occurrences pat (drop p t) = 0"
proof -
  have "\<forall>j < length (drop p t). take (length pat) (drop j (drop p t)) \<noteq> pat"
    using assms by (simp add: add.commute)
  from replaced_skip [OF this] show ?thesis
    by (simp add: replaced.simps [of _ _ "[]"] occurrences.simps [of _ "[]"])
qed

lemma replaced_at:
  assumes "p \<le> k" "k + length pat \<le> length t" "take (length pat) (drop k t) = pat" "pat \<noteq> []"
    "\<forall>j. p \<le> j \<and> j < k \<longrightarrow> take (length pat) (drop j t) \<noteq> pat"
  shows "take p t @ replaced pat rep (drop p t) = take k t @ rep @ replaced pat rep (drop (k + length pat) t) \<and>
    occurrences pat (drop p t) = Suc (occurrences pat (drop (k + length pat) t))"
proof -
  have skip: "\<forall>j < k - p. take (length pat) (drop j (drop p t)) \<noteq> pat"
    using assms(5) by (simp add: add.commute)
  have here: "take (length pat) (drop (k - p) (drop p t)) = pat" using assms(1,3) by simp
  have le: "k - p \<le> length (drop p t)" using assms(1,2) by simp
  have "take p t @ take (k - p) (drop p t) = take k t" using assms(1) by (metis le_add_diff_inverse take_add)
  moreover have "drop (length pat) (drop (k - p) (drop p t)) = drop (k + length pat) t"
    using assms(1) by (simp add: add.commute)
  ultimately show ?thesis
    using replaced_skip [OF skip le, of rep] replaced_here [OF here assms(4), of rep] by (metis append.assoc)
qed

lemma growth_bound:
  fixes p k n L r :: nat
  assumes "p \<le> k" "k + n \<le> L" "0 < n" "p + (L - p) * Suc r + r < B"
  shows "L + r < B" "k + r + (L - (k + n)) * Suc r + r < B"
proof -
  obtain a where a: "k = p + a" using assms(1) le_Suc_ex by blast
  obtain c where c: "L = p + a + n + c" using assms(2) a le_Suc_ex by blast
  have "a \<le> a * Suc r" "Suc r \<le> n * Suc r" "c \<le> c * Suc r" "n \<le> n * Suc r"
    using mult_le_mono1 [of 1 n "Suc r"] assms(3) by simp_all
  moreover have "p + (a * Suc r + n * Suc r + c * Suc r) + r < B"
    using assms(4) by (simp add: c algebra_simps)
  ultimately show "L + r < B" "k + r + (L - (k + n)) * Suc r + r < B"
    unfolding a c by simp_all
qed

lemma replace_all_correct:
  assumes "holds_text (qr_s st) t" "found_offset st = int p" "p \<le> length t" "replace_all st"
    "search_bytes st \<noteq> []" "length (search_bytes st) < 1024"
    "p + (length t - p) * Suc (length (replace_bytes st)) + length (replace_bytes st) < 2147483648"
  shows "\<exists>s'. query_replace_display st =
      Some (QR_Done s' (nb_reps st + occurrences (search_bytes st) (drop p t))) \<and>
    es_text s' = take p t @ replaced (search_bytes st) (replace_bytes st) (drop p t)"
  using assms
proof (induction "length t - p" arbitrary: st t p rule: less_induct)
  case less
  let ?pat = "search_bytes st" and ?rep = "replace_bytes st"
  have b: "buf_ok (es_b (qr_s st))" "contents (es_b (qr_s st)) = t"
    using holds_textD [OF less.prems(1)] by (simp_all)
  have p: "p \<le> length (contents (es_b (qr_s st)))" using less.prems(3) b(2) by simp
  from b(1) less.prems(5,6) p show ?case
  proof (cases rule: plain_search)
    case (none b')
    have "replaced ?pat ?rep (drop p t) = drop p t" "occurrences ?pat (drop p t) = 0"
      using replaced_none [of p ?pat t ?rep] none(3) unfolding b(2) by simp_all
    moreover have "query_replace_display st = Some (QR_Done ((qr_s st)\<lparr>es_b := b'\<rparr>) (nb_reps st))"
      using none(1) less.prems(2) by (subst query_replace_display.simps) simp
    moreover have "es_text ((qr_s st)\<lparr>es_b := b'\<rparr>) = t"
      using holds_textD [OF holds_read [OF less.prems(1) none(2)]] by simp
    ultimately show ?thesis by simp
  next
    case (found k b')
    let ?n = "length ?pat" and ?s1 = "(qr_s st)\<lparr>es_b := b'\<rparr>"
    define st1 where "st1 = st\<lparr>found_offset := int k, qr_s := ?s1\<rparr>"
    have h1: "holds_text (qr_s st1) t" using holds_read [OF less.prems(1) found(2)] by (simp add: st1_def)
    have n: "0 < ?n" using less.prems(5) by simp
    have kn: "k + ?n \<le> length t" "p \<le> k" using found(3,4) b(2) by simp_all
    have room: "length t + length ?rep < 2147483648"
      "k + length ?rep + (length t - (k + ?n)) * Suc (length ?rep) + length ?rep < 2147483648"
      by (rule growth_bound [OF kn(2,1) n less.prems(7)])+
    obtain s2 where s2: "query_replace_replace st1 = Some (st1\<lparr>qr_s := s2,
        found_offset := int (k + length ?rep), nb_reps := nb_reps st + 1\<rparr>)"
      "holds_text s2 (take k t @ ?rep @ drop (k + ?n) t)"
      using query_replace_text [OF h1, of k] kn(1) room(1) by (auto simp: st1_def)
    define st2 where "st2 = st1\<lparr>qr_s := s2, found_offset := int (k + length ?rep), nb_reps := nb_reps st + 1\<rparr>"
    let ?t2 = "take k t @ ?rep @ drop (k + ?n) t" and ?p2 = "k + length ?rep"
    have t2: "take ?p2 ?t2 = take k t @ ?rep" "drop ?p2 ?t2 = drop (k + ?n) t" "length ?t2 - ?p2 = length t - (k + ?n)"
      "?p2 \<le> length ?t2" using kn(1) by simp_all
    have "\<exists>s'. query_replace_display st2 = Some (QR_Done s' (nb_reps st2 + occurrences (search_bytes st2) (drop ?p2 ?t2))) \<and>
        es_text s' = take ?p2 ?t2 @ replaced (search_bytes st2) (replace_bytes st2) (drop ?p2 ?t2)"
    proof (rule less.hyps)
      show "length ?t2 - ?p2 < length t - p" unfolding t2(3) using kn n by linarith
      show "holds_text (qr_s st2) ?t2" using s2(2) by (simp add: st2_def)
      show "?p2 + (length ?t2 - ?p2) * Suc (length (replace_bytes st2)) + length (replace_bytes st2) < 2147483648"
        unfolding t2(3) using room(2) by (simp add: st2_def st1_def)
    qed (use less.prems t2(4) in \<open>simp_all add: st2_def st1_def\<close>)
    then obtain s' where s': "query_replace_display st2 =
        Some (QR_Done s' (Suc (nb_reps st) + occurrences ?pat (drop (k + ?n) t)))"
      "es_text s' = (take k t @ ?rep) @ replaced ?pat ?rep (drop (k + ?n) t)"
      unfolding t2(1,2) by (auto simp: st2_def st1_def)
    have "query_replace_display st = query_replace_display st2"
      using found(1) less.prems(2,4) s2(1)
      by (subst query_replace_display.simps) (simp add: st1_def st2_def)
    moreover note replaced_at [OF kn(2,1) _ less.prems(5), of ?rep]
    ultimately show ?thesis using s' found(5,6) b(2) by simp
  qed
qed

text \<open>C11. Replacing all. From any state of a query replace whose texts the limits allow, the key for
  replacing all ends, and it replaces all occurrences behind the offset, from left to right without looking
  into the replacements, even if the replacement contains the text that is searched for.\<close>

theorem replace_all_spec:
  assumes "holds_text (qr_s st) t" "found_offset st = int p" "p \<le> length t"
    "search_bytes st \<noteq> []" "length (search_bytes st) < 1024"
    "(length t + 1) * Suc (length (replace_bytes st)) < 2147483648"
  shows "\<exists>s'. query_replace_key st 33 = Some (QR_Done s' (nb_reps st + occurrences (search_bytes st) (drop p t))) \<and>
    es_text s' = take p t @ replaced (search_bytes st) (replace_bytes st) (drop p t)"
proof -
  obtain q where q: "length t = p + q" using assms(3) le_Suc_ex by blast
  have "p \<le> p * Suc (length (replace_bytes st))" by simp
  moreover have "p * Suc (length (replace_bytes st)) + q * Suc (length (replace_bytes st)) +
      Suc (length (replace_bytes st)) < 2147483648"
    using assms(6) by (simp only: q add_mult_distrib nat_mult_1)
  ultimately have "p + (length t - p) * Suc (length (replace_bytes st)) + length (replace_bytes st) < 2147483648"
    unfolding q diff_add_inverse by linarith
  then show ?thesis
    using replace_all_correct [of "st\<lparr>replace_all := True\<rparr>" t p] assms(1-5)
    by (simp add: query_replace_key_def)
qed

fun query_keys :: "int list \<Rightarrow> QueryPhase \<Rightarrow> QueryPhase option" where
  "query_keys [] ph = Some ph"
| "query_keys (ch # chs) ph = (case ph of
       QR_Done s n \<Rightarrow> None
     | QR_Wait st \<Rightarrow> query_replace_key st ch \<bind> query_keys chs)"

text \<open>Not replacing. The key for no leaves the offset on the occurrence, where the next search finds it
  again: after any number of such keys the command still asks about the same occurrence.\<close>

theorem no_key_stays:
  assumes "holds_text (qr_s st) t" "found_offset st = int k" "k + length (search_bytes st) \<le> length t"
    "take (length (search_bytes st)) (drop k t) = search_bytes st" "search_bytes st \<noteq> []"
    "length (search_bytes st) < 1024" "\<not> replace_all st" "off (qr_s st) = int k"
  shows "\<exists>st'. query_keys (replicate m 110) (QR_Wait st) = Some (QR_Wait st') \<and> found_offset st' = int k \<and>
    off (qr_s st') = int k \<and> es_text (qr_s st') = t \<and> nb_reps st' = nb_reps st"
  using assms
proof (induction m arbitrary: st)
  case 0
  then show ?case using holds_textD [OF 0(1)] by simp
next
  case (Suc m)
  let ?b = "es_b (qr_s st)" and ?pat = "search_bytes st"
  have b: "buf_ok ?b" "contents ?b = t" using holds_textD [OF Suc.prems(1)] by simp_all
  then have "k \<le> length (contents ?b)" using Suc.prems(3) by simp
  with b(1) Suc.prems(5,6) obtain b' where b': "eb_search ?b (int k) 1 ?pat 0 (\<lambda>_. False) = Some (int k, b')" "same_doc ?b b'"
  proof (cases rule: plain_search)
    case (found j b')
    then have "j = k" using Suc.prems(4) b(2) by (metis le_neq_implies_less order_refl)
    then show ?thesis using that found(1,2) by simp
  next
    case (none b')
    then show ?thesis using Suc.prems(4) b(2) by simp
  qed
  define st' where "st' = st\<lparr>qr_s := goto_off ((qr_s st)\<lparr>es_b := b'\<rparr>) (int k)\<rparr>"
  have h: "holds_text (qr_s st') t"
    using holds_goto [OF holds_read [OF Suc.prems(1) b'(2)]] by (simp add: st'_def)
  have "query_replace_key st 110 = Some (QR_Wait st')"
    using b'(1) Suc.prems(2,7)
    by (simp add: query_replace_key_def) (subst query_replace_display.simps, simp add: st'_def)
  moreover have "off (qr_s st') = int k" by (simp add: st'_def off_def set_tracked_def)
  moreover have "found_offset st' = int k" "search_bytes st' = ?pat" "replace_all st' = replace_all st" "nb_reps st' = nb_reps st"
    using Suc.prems(2) by (simp_all add: st'_def)
  ultimately show ?case using Suc.IH [OF h] Suc.prems(3-7) by simp
qed

text \<open>The status line of a search for eighty characters of four bytes does not fit its array.\<close>

lemma isearch_status_overflow:
  assumes "length (is_string st) = SEARCH_LENGTH" "\<forall>v \<in> set (is_string st). v AND FOUND_TAG = 0 \<and> 0x10000 \<le> uint v"
  shows "isearch_display abort st = None"
proof -
  have four: "4 \<le> length (utf8_encode c)" if "0x10000 \<le> c" for c using that by (simp add: utf8_encode_def)
  have "4 * length vs \<le> length (concat (map (\<lambda>v. if v AND FOUND_TAG = 0 then utf8_encode (uint v) else []) vs))"
    if "\<forall>v \<in> set vs. v AND FOUND_TAG = 0 \<and> 0x10000 \<le> uint v" for vs :: "u32 list"
    using that
  proof (induction vs)
    case (Cons v vs)
    then show ?case using four [of "uint v"] by simp
  qed simp
  from this [OF assms(2)] assms(1) have long: "256 \<le> length (isearch_status st1 len)" if "is_string st1 = is_string st" for st1 len
    using that by (simp add: isearch_status_def SEARCH_LENGTH_def)
  show ?thesis
  proof (rule ccontr)
    assume "isearch_display abort st \<noteq> None"
    then obtain st1 where "isearch_display abort st = Some st1" by blast
    then obtain len where "is_string st1 = is_string st" "length (isearch_status st1 len) < 256"
      by (auto simp: isearch_display_def bind_eq_Some_conv Let_def guard_def split: if_splits prod.splits)
    with long [of st1 len] show False by simp
  qed
qed

section \<open>Witnesses\<close>

theorem eb_search_spec_witness:
  "\<exists>r b'. eb_search (buffer_of [[97, 98], [99, 97, 98]] Charset_8859_1) 1 1 [97, 98] 0 (\<lambda>_. False) = Some (r, b') \<and>
    nearest 0 [97, 98] [97, 98, 99, 97, 98] 1 0 False r"
proof -
  let ?b = "buffer_of [[97, 98], [99, 97, 98]] Charset_8859_1"
  have "buf_ok ?b" by (rule buf_ok_buffer_of) (simp add: MAX_PAGE_SIZE_def)
  from eb_search_spec [OF this, of "[97, 98]" 1 0 "\<lambda>_. False"] show ?thesis by auto
qed

theorem backward_search_misses_end_witness:
  "\<exists>b'. eb_search (buffer_of [[99, 97, 98]] Charset_8859_1) 3 (-1) [97, 98] SEARCH_FLAG_SMARTCASE (\<lambda>_. False) = Some (-1, b')"
proof -
  let ?b = "buffer_of [[99, 97, 98]] Charset_8859_1"
  have b: "buf_ok ?b" by (rule buf_ok_buffer_of) (simp add: MAX_PAGE_SIZE_def)
  have "\<not> occurs (search_flags SEARCH_FLAG_SMARTCASE [97, 98]) [97, 98] [99, 97, 98] 0" by code_simp
  then show ?thesis
    using backward_search_misses_end [OF b, of "[97, 98]" "[99]" 3 SEARCH_FLAG_SMARTCASE "\<lambda>_. False"] by simp
qed

definition ab_query :: QueryReplaceState where
  "ab_query = \<lparr>qr_s = window_of [[97, 98], [97, 98, 97, 97]] Charset_8859_1 0, nb_reps = 0, search_bytes = [97, 98],
     replace_bytes = [97, 97, 98], found_offset = 0, replace_all = False\<rparr>"

lemma ab_query_holds: "holds_text (qr_s ab_query) [97, 98, 97, 98, 97, 97]"
  using holds_window_of [of "[[97, 98], [97, 98, 97, 97]]"] by (simp add: ab_query_def MAX_PAGE_SIZE_def)

theorem replace_all_spec_witness:
  "\<exists>s'. query_replace_key ab_query 33 = Some (QR_Done s' 2) \<and> es_text s' = [97, 97, 98, 97, 97, 98, 97, 97]"
proof -
  have "occurrences [97, 98] [97, 98, 97, 98, 97, 97 :: u8] = 2"
    "replaced [97, 98] [97, 97, 98] [97, 98, 97, 98, 97, 97 :: u8] = [97, 97, 98, 97, 97, 98, 97, 97]"
    by (simp_all add: occurrences.simps replaced.simps)
  then show ?thesis
    using replace_all_spec [OF ab_query_holds, of 0] by (auto simp: ab_query_def)
qed

theorem no_key_stays_witness:
  "\<exists>st'. query_keys (replicate 7 110) (QR_Wait ab_query) = Some (QR_Wait st') \<and> found_offset st' = 0"
  using no_key_stays [OF ab_query_holds, of 0 7] by (auto simp: ab_query_def)

end
