(* ===== verification/Events.thy ===== *)
theory Events
  imports Util
begin

text \<open>
  The main loop of \<open>src/unix.c\<close>: handlers of file descriptors, timers, ended processes and bottom
  halves. A callback is the name of a function with its opaque pointer. What a callback does is an
  argument \<open>call\<close> of the operations; it gets and returns the whole state, so it may register and
  remove handlers, and it may fail. The answers of the system (the clock, \<open>select\<close> and \<open>waitpid\<close>) are
  arguments of the operations that ask for them.
\<close>

section \<open>State\<close>

type_synonym callback = "string \<times> nat"

record URLHandler =
  read_cb :: "callback option"
  write_cb :: "callback option"

record PidHandler =
  ph_pid :: int
  ph_cb :: callback

text \<open>A timer has its address, so that a timer that was freed can be told from one in the list.\<close>

record QETimer =
  ti_addr :: nat
  ti_timeout :: int
  ti_cb :: callback

record EventState =
  url_rfds :: "nat set"
  url_wfds :: "nat set"
  url_fdmax :: int
  url_handlers :: "URLHandler list"
  url_exit_request :: bool
  pid_handlers :: "PidHandler list"
  bottom_halves :: "callback list"
  first_timer :: "QETimer list"
  fresh_timer :: nat

type_synonym 'a caller = "callback \<Rightarrow> 'a EventState_scheme \<Rightarrow> 'a EventState_scheme option"

section \<open>Handlers\<close>

definition NB_HANDLERS :: nat where "NB_HANDLERS = 256"

definition set_read_handler :: "'a EventState_scheme \<Rightarrow> int \<Rightarrow> callback option \<Rightarrow> 'a EventState_scheme option" where
  "set_read_handler s fd cb = do {
     guard (0 \<le> fd \<and> fd < int NB_HANDLERS);
     let s = s\<lparr>url_handlers := (url_handlers s)[nat fd := (url_handlers s ! nat fd)\<lparr>read_cb := cb\<rparr>]\<rparr>;
     Some (if cb \<noteq> None
       then s\<lparr>url_fdmax := max fd (url_fdmax s), url_rfds := insert (nat fd) (url_rfds s)\<rparr>
       else s\<lparr>url_rfds := url_rfds s - {nat fd}\<rparr>) }"

definition set_write_handler :: "'a EventState_scheme \<Rightarrow> int \<Rightarrow> callback option \<Rightarrow> 'a EventState_scheme option" where
  "set_write_handler s fd cb = do {
     guard (0 \<le> fd \<and> fd < int NB_HANDLERS);
     let s = s\<lparr>url_handlers := (url_handlers s)[nat fd := (url_handlers s ! nat fd)\<lparr>write_cb := cb\<rparr>]\<rparr>;
     Some (if cb \<noteq> None
       then s\<lparr>url_fdmax := max fd (url_fdmax s), url_wfds := insert (nat fd) (url_wfds s)\<rparr>
       else s\<lparr>url_wfds := url_wfds s - {nat fd}\<rparr>) }"

text \<open>\<open>ok\<close> says whether the allocation succeeds.\<close>

fun remove_pid :: "int \<Rightarrow> PidHandler list \<Rightarrow> PidHandler list" where
  "remove_pid pid [] = []"
| "remove_pid pid (p # ps) = (if ph_pid p = pid then ps else p # remove_pid pid ps)"

definition set_pid_handler ::
    "bool \<Rightarrow> 'a EventState_scheme \<Rightarrow> int \<Rightarrow> callback option \<Rightarrow> int \<times> 'a EventState_scheme" where
  "set_pid_handler ok s pid cb = (case cb of
       None \<Rightarrow> (0, s\<lparr>pid_handlers := remove_pid pid (pid_handlers s)\<rparr>)
     | Some cb \<Rightarrow>
         if \<not> ok then (-1, s)
         else (0, s\<lparr>pid_handlers := \<lparr>ph_pid = pid, ph_cb = cb\<rparr> # pid_handlers s\<rparr>))"

definition register_bottom_half :: "'a EventState_scheme \<Rightarrow> callback \<Rightarrow> 'a EventState_scheme" where
  "register_bottom_half s cb = s\<lparr>bottom_halves := cb # bottom_halves s\<rparr>"

definition unregister_bottom_half :: "'a EventState_scheme \<Rightarrow> callback \<Rightarrow> 'a EventState_scheme" where
  "unregister_bottom_half s cb = s\<lparr>bottom_halves := filter (\<lambda>bh. bh \<noteq> cb) (bottom_halves s)\<rparr>"

definition qe_add_timer ::
    "bool \<Rightarrow> int \<Rightarrow> 'a EventState_scheme \<Rightarrow> int \<Rightarrow> callback \<Rightarrow> (nat option \<times> 'a EventState_scheme) option" where
  "qe_add_timer ok clock s delay cb =
     (if \<not> ok then Some (None, s)
      else do {
        guard (int_ok (clock + delay));
        let ti = \<lparr>ti_addr = fresh_timer s, ti_timeout = clock + delay, ti_cb = cb\<rparr>;
        Some (Some (fresh_timer s),
          s\<lparr>first_timer := ti # first_timer s, fresh_timer := fresh_timer s + 1\<rparr>) })"

definition qe_kill_timer :: "'a EventState_scheme \<Rightarrow> nat \<Rightarrow> 'a EventState_scheme" where
  "qe_kill_timer s ti = s\<lparr>first_timer := filter (\<lambda>t. ti_addr t \<noteq> ti) (first_timer s)\<rparr>"

section \<open>Calling\<close>

text \<open>The oldest entry, at the end of the list, is called first, until none is left; a callback that
  always registers another one makes the loop run for ever, which is \<open>None\<close>.\<close>

partial_function (option) call_bottom_halves ::
    "'a caller \<Rightarrow> 'a EventState_scheme \<Rightarrow> 'a EventState_scheme option" where
  "call_bottom_halves call s =
     (if bottom_halves s = [] then Some s
      else do {
        s \<leftarrow> call (last (bottom_halves s)) (s\<lparr>bottom_halves := butlast (bottom_halves s)\<rparr>);
        call_bottom_halves call s })"

text \<open>
  \<open>pt\<close> points to \<open>first_timer\<close> (\<open>None\<close>) or into the timer at an address. The timer that \<open>pt\<close> points
  into must still be there when \<open>*pt\<close> is read.
\<close>

fun after_timer :: "nat \<Rightarrow> QETimer list \<Rightarrow> QETimer list option" where
  "after_timer a [] = None"
| "after_timer a (t # ts) = (if ti_addr t = a then Some ts else after_timer a ts)"

definition timers_from :: "nat option \<Rightarrow> QETimer list \<Rightarrow> QETimer list option" where
  "timers_from pt ts = (case pt of None \<Rightarrow> Some ts | Some a \<Rightarrow> after_timer a ts)"

text \<open>\<open>*pt = ti->next\<close>.\<close>

definition unlink_timer :: "QETimer \<Rightarrow> QETimer list \<Rightarrow> QETimer list" where
  "unlink_timer ti ts = filter (\<lambda>t. ti_addr t \<noteq> ti_addr ti) ts"

partial_function (option) timer_loop ::
    "'a caller \<Rightarrow> int \<Rightarrow> nat option \<Rightarrow> int \<Rightarrow> 'a EventState_scheme \<Rightarrow> (int \<times> 'a EventState_scheme) option" where
  "timer_loop call cur_time pt timeout s = do {
     ts \<leftarrow> timers_from pt (first_timer s);
     case ts of
       [] \<Rightarrow> Some (timeout, s)
     | ti # _ \<Rightarrow> do {
         guard (int_ok (ti_timeout ti - cur_time));
         if ti_timeout ti - cur_time \<le> 0
         then do {
           s \<leftarrow> call (ti_cb ti) (s\<lparr>first_timer := unlink_timer ti (first_timer s)\<rparr>);
           s \<leftarrow> call_bottom_halves call s;
           timer_loop call cur_time pt timeout s }
         else do {
           guard (int_ok (ti_timeout ti - timeout));
           timer_loop call cur_time (Some (ti_addr ti))
             (if ti_timeout ti - timeout < 0 then ti_timeout ti else timeout) s } } }"

definition check_timers ::
    "'a caller \<Rightarrow> int \<Rightarrow> 'a EventState_scheme \<Rightarrow> int \<Rightarrow> (int \<times> 'a EventState_scheme) option" where
  "check_timers call cur_time s max_delay = do {
     guard (int_ok (cur_time + max_delay));
     (timeout, s) \<leftarrow> timer_loop call cur_time None (cur_time + max_delay) s;
     guard (int_ok (timeout - cur_time));
     Some (timeout - cur_time, s) }"

section \<open>The loop\<close>

definition url_block_reset :: "'a EventState_scheme \<Rightarrow> 'a EventState_scheme" where
  "url_block_reset s = s\<lparr>url_rfds := {}, url_wfds := {}, url_fdmax := -1, url_exit_request := False\<rparr>"

definition MAX_DELAY :: int where "MAX_DELAY = 500"

text \<open>A handler that is called must still be there: the sets are those of the call of \<open>select\<close>.\<close>

definition call_fd ::
    "'a caller \<Rightarrow> (URLHandler \<Rightarrow> callback option) \<Rightarrow> nat set \<Rightarrow> nat \<Rightarrow> 'a EventState_scheme \<Rightarrow>
     'a EventState_scheme option" where
  "call_fd call cb fds i s =
     (if i \<in> fds then do {
        guard (i < NB_HANDLERS);
        f \<leftarrow> cb (url_handlers s ! i);
        s \<leftarrow> call f s;
        call_bottom_halves call s }
      else Some s)"

text \<open>The bound of the loop is read again in each round; \<open>i\<close> is an index of the table, so that \<open>n\<close>,
  the number of entries that are left, bounds the loop.\<close>

fun fd_loop ::
    "'a caller \<Rightarrow> nat set \<Rightarrow> nat set \<Rightarrow> nat \<Rightarrow> nat \<Rightarrow> 'a EventState_scheme \<Rightarrow> 'a EventState_scheme option" where
  "fd_loop call rfds wfds i 0 s = (if int i \<le> url_fdmax s then None else Some s)"
| "fd_loop call rfds wfds i (Suc n) s =
     (if int i \<le> url_fdmax s then do {
        s \<leftarrow> call_fd call read_cb rfds i s;
        s \<leftarrow> call_fd call write_cb wfds i s;
        fd_loop call rfds wfds (Suc i) n s }
      else Some s)"

fun find_pid :: "int \<Rightarrow> PidHandler list \<Rightarrow> callback option" where
  "find_pid pid [] = None"
| "find_pid pid (p # ps) = (if ph_pid p = pid then Some (ph_cb p) else find_pid pid ps)"

text \<open>\<open>waits\<close> holds the results of the calls of \<open>waitpid\<close>; without any more children it returns -1. The
  status goes to the callback as part of the state and is left out.\<close>

fun pid_loop :: "'a caller \<Rightarrow> int list \<Rightarrow> 'a EventState_scheme \<Rightarrow> 'a EventState_scheme option" where
  "pid_loop call [] s = Some s"
| "pid_loop call (pid # waits) s =
     (if pid_handlers s = [] then Some s
      else if pid \<le> 0 then Some s
      else case find_pid pid (pid_handlers s) of
          None \<Rightarrow> pid_loop call waits s
        | Some cb \<Rightarrow> do {
            s \<leftarrow> call cb s;
            s \<leftarrow> call_bottom_halves call s;
            pid_loop call waits s })"

record Answers =
  clock_now :: int
  select_ret :: int
  ready_r :: "nat set"
  ready_w :: "nat set"
  waited :: "int list"

definition url_block :: "'a caller \<Rightarrow> Answers \<Rightarrow> 'a EventState_scheme \<Rightarrow> 'a EventState_scheme option" where
  "url_block call ans s = do {
     (delay, s) \<leftarrow> check_timers call (clock_now ans) s MAX_DELAY;
     let rfds = url_rfds s \<inter> ready_r ans;
     let wfds = url_wfds s \<inter> ready_w ans;
     s \<leftarrow> (if select_ret ans > 0 then fd_loop call rfds wfds 0 NB_HANDLERS s else Some s);
     pid_loop call (waited ans) s }"

text \<open>The loop over the answers that the system gives; after the last one it still blocks.\<close>

fun main_loop :: "'a caller \<Rightarrow> Answers list \<Rightarrow> 'a EventState_scheme \<Rightarrow> 'a EventState_scheme option" where
  "main_loop call [] s = Some s"
| "main_loop call (ans # rest) s =
     (if url_exit_request s then Some s
      else do { s \<leftarrow> url_block call ans s; main_loop call rest s })"

definition url_main_loop ::
    "'a caller \<Rightarrow> callback \<Rightarrow> Answers list \<Rightarrow> 'a EventState_scheme \<Rightarrow> 'a EventState_scheme option" where
  "url_main_loop call init answers s = do {
     s \<leftarrow> call init (url_block_reset s);
     main_loop call answers s }"

definition url_exit :: "'a EventState_scheme \<Rightarrow> 'a EventState_scheme" where
  "url_exit s = s\<lparr>url_exit_request := True\<rparr>"

end
