(* ===== verification/Event_Theorems.thy ===== *)
theory Event_Theorems
  imports Events "HOL-Library.Multiset"
begin

text \<open>
  What the main loop of \<open>src/unix.c\<close> calls, and when: the order of the callbacks in one round for
  callbacks that leave the tables of the loop alone, the end of the loop over the bottom halves for
  callbacks that register others, and two ways in which a callback that changes the tables breaks
  the loops that read them.
\<close>

section \<open>Bottom halves\<close>

lemma bottom_halves_empty [simp]: "bottom_halves s = [] \<Longrightarrow> call_bottom_halves call s = Some s"
  by (simp add: call_bottom_halves.simps)

definition rank_measure :: "(callback \<Rightarrow> nat) \<Rightarrow> callback list \<Rightarrow> nat multiset" where
  "rank_measure rank cbs = image_mset rank (mset cbs)"

lemma rank_measure_step:
  fixes rank :: "callback \<Rightarrow> nat"
  assumes "bhs \<noteq> []" "\<forall>r \<in> set regs. rank r < rank (last bhs)"
  shows "(rank_measure rank (regs @ butlast bhs), rank_measure rank bhs) \<in> mult {(x, y). x < y}"
proof -
  have split: "rank_measure rank bhs = rank_measure rank (butlast bhs) + {#rank (last bhs)#}"
    using assms(1) by (cases bhs rule: rev_cases) (auto simp: rank_measure_def)
  have "(rank_measure rank (butlast bhs) + image_mset rank (mset regs),
      rank_measure rank (butlast bhs) + {#rank (last bhs)#}) \<in> mult {(x, y). x < y}"
    by (rule one_step_implies_mult) (use assms(2) in auto)
  then show ?thesis
    unfolding split by (simp add: rank_measure_def add.commute)
qed

text \<open>C24. The loop over the bottom halves ends. If the callbacks can be ranked such that each one succeeds
  and only registers callbacks of smaller rank, then for every list of registered callbacks the loop
  that runs as long as there are any comes to its end.\<close>

theorem bottom_halves_end:
  fixes rank :: "callback \<Rightarrow> nat"
  assumes "\<And>cb s. \<exists>s' regs. call cb s = Some s' \<and> bottom_halves s' = regs @ bottom_halves s \<and>
    (\<forall>r \<in> set regs. rank r < rank cb)"
  shows "\<exists>s'. call_bottom_halves call s = Some s' \<and> bottom_halves s' = []"
proof (induction "rank_measure rank (bottom_halves s)" arbitrary: s
    rule: wf_induct_rule [OF wf_mult [OF wf_less]])
  case (1 s)
  show ?case
  proof (cases "bottom_halves s = []")
    case False
    let ?cb = "last (bottom_halves s)" and ?s = "s\<lparr>bottom_halves := butlast (bottom_halves s)\<rparr>"
    obtain s' regs where s': "call ?cb ?s = Some s'" "bottom_halves s' = regs @ butlast (bottom_halves s)"
      and regs: "\<forall>r \<in> set regs. rank r < rank ?cb"
      using assms [of ?cb ?s] by auto
    have "\<exists>s''. call_bottom_halves call s' = Some s'' \<and> bottom_halves s'' = []"
      by (rule 1) (use rank_measure_step [OF False regs] in \<open>simp add: s'(2)\<close>)
    then show ?thesis using False s'(1) by (simp add: call_bottom_halves.simps [of call s])
  qed simp
qed

section \<open>One round\<close>

text \<open>Callbacks that work on the rest of the program only, and a list of them.\<close>

definition outside :: "(callback \<Rightarrow> 'a \<Rightarrow> 'a option) \<Rightarrow> 'a caller" where
  "outside f cb s = map_option (\<lambda>m. s\<lparr>EventState.more := m\<rparr>) (f cb (EventState.more s))"

fun run_all :: "(callback \<Rightarrow> 'a \<Rightarrow> 'a option) \<Rightarrow> callback list \<Rightarrow> 'a \<Rightarrow> 'a option" where
  "run_all f [] m = Some m"
| "run_all f (cb # cbs) m = do { m \<leftarrow> f cb m; run_all f cbs m }"

lemma run_all_append: "run_all f (xs @ ys) m = run_all f xs m \<bind> run_all f ys"
  by (induction xs arbitrary: m) (auto split: Option.bind_split)

definition due :: "int \<Rightarrow> QETimer \<Rightarrow> bool" where
  "due cur t \<longleftrightarrow> ti_timeout t \<le> cur"

definition in_reach :: "int \<Rightarrow> QETimer \<Rightarrow> bool" where
  "in_reach cur t \<longleftrightarrow> int_ok (ti_timeout t - cur)"

lemma after_timer_append:
  "ti_addr a \<notin> ti_addr ` set pre \<Longrightarrow> after_timer (ti_addr a) (pre @ a # ts) = Some ts"
  by (induction pre) auto

text \<open>The address \<open>pt\<close> stands for when the timers \<open>pre\<close> have been passed.\<close>

definition pointer_behind :: "QETimer list \<Rightarrow> nat option" where
  "pointer_behind pre = (if pre = [] then None else Some (ti_addr (last pre)))"

lemma timers_behind:
  assumes "distinct (map ti_addr (pre @ ts))"
  shows "timers_from (pointer_behind pre) (pre @ ts) = Some ts"
proof (cases pre rule: rev_cases)
  case (snoc p a)
  then show ?thesis
    using assms after_timer_append [of a p ts] by (simp add: timers_from_def pointer_behind_def)
qed (simp add: timers_from_def pointer_behind_def)

lemma unlink_append:
  assumes "distinct (map ti_addr (pre @ t # ts))"
  shows "unlink_timer t (pre @ t # ts) = pre @ ts"
proof -
  have "filter (\<lambda>u. ti_addr u \<noteq> ti_addr t) xs = xs" if "ti_addr t \<notin> ti_addr ` set xs" for xs
    using that by (induction xs) auto
  from this [of pre] this [of ts] show ?thesis using assms by (simp add: unlink_timer_def)
qed

lemma timer_loop_outside:
  assumes "first_timer s = pre @ ts" "distinct (map ti_addr (pre @ ts))" "bottom_halves s = []"
    "list_all (in_reach cur) ts" "cur \<le> timeout" "timeout < cur + 2147483648"
  shows "timer_loop (outside f) cur (pointer_behind pre) timeout s =
    map_option (\<lambda>m. (fold min (map ti_timeout (filter (\<lambda>t. \<not> due cur t) ts)) timeout,
        s\<lparr>first_timer := pre @ filter (\<lambda>t. \<not> due cur t) ts, EventState.more := m\<rparr>))
      (run_all f (map ti_cb (filter (due cur) ts)) (EventState.more s))"
  using assms
proof (induction ts arbitrary: pre timeout s)
  case Nil
  then show ?case
    using timers_behind [of pre "[]"] by (simp add: timer_loop.simps)
next
  case (Cons t ts)
  have from_here: "timers_from (pointer_behind pre) (first_timer s) = Some (t # ts)"
    using timers_behind [OF Cons.prems(2)] Cons.prems(1) by simp
  have ok: "int_ok (ti_timeout t - cur)" using Cons.prems(4) by (simp add: in_reach_def)
  show ?case
  proof (cases "due cur t")
    case True
    have u: "unlink_timer t (first_timer s) = pre @ ts"
      using unlink_append [OF Cons.prems(2)] Cons.prems(1) by simp
    have "timer_loop (outside f) cur (pointer_behind pre) timeout (s\<lparr>first_timer := pre @ ts, EventState.more := m\<rparr>) =
      map_option (\<lambda>m'. (fold min (map ti_timeout (filter (\<lambda>t. \<not> due cur t) ts)) timeout,
        s\<lparr>first_timer := pre @ filter (\<lambda>t. \<not> due cur t) ts, EventState.more := m'\<rparr>))
      (run_all f (map ti_cb (filter (due cur) ts)) m)" for m
      using Cons.IH [of "s\<lparr>first_timer := pre @ ts, EventState.more := m\<rparr>" pre timeout] Cons.prems by simp
    note rest = this
    have "timer_loop (outside f) cur (pointer_behind pre) timeout s =
        f (ti_cb t) (EventState.more s) \<bind>
          (\<lambda>m. timer_loop (outside f) cur (pointer_behind pre) timeout (s\<lparr>first_timer := pre @ ts, EventState.more := m\<rparr>))"
      using True ok from_here Cons.prems(3) u
      by (subst timer_loop.simps) (simp add: outside_def due_def Option.bind_map_option comp_def cong: Option.bind_cong)
    then show ?thesis
      using True by (simp add: rest Option.map_option_bind comp_def)
  next
    case False
    have p: "Some (ti_addr t) = pointer_behind (pre @ [t])" by (simp add: pointer_behind_def)
    have ok2: "int_ok (ti_timeout t - timeout)"
      using ok False Cons.prems(5,6) by (simp add: int_ok_def due_def)
    have m: "(if ti_timeout t - timeout < 0 then ti_timeout t else timeout) = min (ti_timeout t) timeout"
      by simp
    have "timer_loop (outside f) cur (pointer_behind (pre @ [t])) (min (ti_timeout t) timeout) s =
      map_option (\<lambda>m'. (fold min (map ti_timeout (filter (\<lambda>t. \<not> due cur t) ts)) (min (ti_timeout t) timeout),
        s\<lparr>first_timer := (pre @ [t]) @ filter (\<lambda>t. \<not> due cur t) ts, EventState.more := m'\<rparr>))
      (run_all f (map ti_cb (filter (due cur) ts)) (EventState.more s))"
      using False Cons.prems by (intro Cons.IH) (auto simp: due_def)
    moreover have "timer_loop (outside f) cur (pointer_behind pre) timeout s =
        timer_loop (outside f) cur (pointer_behind (pre @ [t])) (min (ti_timeout t) timeout) s"
      by (subst timer_loop.simps, unfold from_here)
        (use False ok ok2 in \<open>simp add: due_def p [symmetric] m [symmetric]\<close>)
    ultimately show ?thesis using False by simp
  qed
qed

text \<open>Ready descriptors below a bound, in the order of their handlers.\<close>

definition fd_calls :: "URLHandler list \<Rightarrow> nat set \<Rightarrow> nat set \<Rightarrow> nat \<Rightarrow> callback list" where
  "fd_calls hs rfds wfds i =
     (if i \<in> rfds then [the (read_cb (hs ! i))] else []) @ (if i \<in> wfds then [the (write_cb (hs ! i))] else [])"

definition handlers_ok :: "'a EventState_scheme \<Rightarrow> bool" where
  "handlers_ok s \<longleftrightarrow> length (url_handlers s) = NB_HANDLERS \<and> url_fdmax s < int NB_HANDLERS \<and>
     (\<forall>i \<in> url_rfds s. int i \<le> url_fdmax s \<and> read_cb (url_handlers s ! i) \<noteq> None) \<and>
     (\<forall>i \<in> url_wfds s. int i \<le> url_fdmax s \<and> write_cb (url_handlers s ! i) \<noteq> None)"

lemma handlers_ok_reset: "length (url_handlers s) = NB_HANDLERS \<Longrightarrow> handlers_ok (url_block_reset s)"
  by (simp add: handlers_ok_def url_block_reset_def NB_HANDLERS_def)

lemma handlers_ok_set_read:
  "handlers_ok s \<Longrightarrow> set_read_handler s fd cb = Some s' \<Longrightarrow> handlers_ok s'"
  by (auto simp: handlers_ok_def set_read_handler_def NB_HANDLERS_def nth_list_update Let_def max_def split: if_splits)
    fastforce+

lemma handlers_ok_set_write:
  "handlers_ok s \<Longrightarrow> set_write_handler s fd cb = Some s' \<Longrightarrow> handlers_ok s'"
  by (auto simp: handlers_ok_def set_write_handler_def NB_HANDLERS_def nth_list_update Let_def max_def split: if_splits)
    fastforce+

lemma call_fd_outside:
  assumes "bottom_halves s = []" "i \<in> fds \<Longrightarrow> i < NB_HANDLERS \<and> cb (url_handlers s ! i) = Some f"
  shows "call_fd (outside g) cb fds i s =
    map_option (\<lambda>m. s\<lparr>EventState.more := m\<rparr>) (run_all g (if i \<in> fds then [f] else []) (EventState.more s))"
  using assms by (cases "g f (EventState.more s)") (auto simp: call_fd_def outside_def)

lemma fd_loop_outside:
  assumes "bottom_halves s = []" "handlers_ok s" "rfds \<subseteq> url_rfds s" "wfds \<subseteq> url_wfds s"
    "i + n = NB_HANDLERS"
  shows "fd_loop (outside g) rfds wfds i n s = map_option (\<lambda>m. s\<lparr>EventState.more := m\<rparr>)
    (run_all g (concat (map (fd_calls (url_handlers s) rfds wfds) [i..<NB_HANDLERS])) (EventState.more s))"
  using assms
proof (induction n arbitrary: i s)
  case 0
  then show ?case by (auto simp: handlers_ok_def)
next
  case (Suc n)
  have step: "[i..<NB_HANDLERS] = i # [Suc i..<NB_HANDLERS]" using Suc.prems(5) by (simp add: upt_rec)
  show ?case
  proof (cases "int i \<le> url_fdmax s")
    case False
    have "fd_calls (url_handlers s) rfds wfds j = []" if "i \<le> j" for j
      using False Suc.prems(2-4) that by (fastforce simp: handlers_ok_def fd_calls_def)
    then have "concat (map (fd_calls (url_handlers s) rfds wfds) [i..<NB_HANDLERS]) = []" by auto
    then show ?thesis using False by (simp del: concat_eq_Nil_conv)
  next
    case True
    let ?r = "if i \<in> rfds then [the (read_cb (url_handlers s ! i))] else []"
    let ?w = "if i \<in> wfds then [the (write_cb (url_handlers s ! i))] else []"
    have i: "i < NB_HANDLERS" using Suc.prems(5) by simp
    have r: "call_fd (outside g) read_cb rfds i s =
        map_option (\<lambda>m. s\<lparr>EventState.more := m\<rparr>) (run_all g ?r (EventState.more s))"
      by (rule call_fd_outside) (use Suc.prems(1-3) i in \<open>auto simp: handlers_ok_def\<close>)
    have w: "call_fd (outside g) write_cb wfds i (s\<lparr>EventState.more := m\<rparr>) =
        map_option (\<lambda>m'. s\<lparr>EventState.more := m'\<rparr>) (run_all g ?w m)" for m
      using call_fd_outside [of "s\<lparr>EventState.more := m\<rparr>" i wfds write_cb "the (write_cb (url_handlers s ! i))" g]
        Suc.prems(1,2,4) i by (auto simp: handlers_ok_def)
    have rest: "fd_loop (outside g) rfds wfds (Suc i) n (s\<lparr>EventState.more := m\<rparr>) = map_option (\<lambda>m'. s\<lparr>EventState.more := m'\<rparr>)
        (run_all g (concat (map (fd_calls (url_handlers s) rfds wfds) [Suc i..<NB_HANDLERS])) m)" for m
      using Suc.IH [of "s\<lparr>EventState.more := m\<rparr>" "Suc i"] Suc.prems by (simp add: handlers_ok_def)
    have calls: "concat (map (fd_calls (url_handlers s) rfds wfds) [i..<NB_HANDLERS]) =
        ?r @ ?w @ concat (map (fd_calls (url_handlers s) rfds wfds) [Suc i..<NB_HANDLERS])"
      by (simp add: step fd_calls_def)
    show ?thesis
      unfolding calls run_all_append
      using True r w rest
      by (cases "run_all g ?r (EventState.more s)")
        (simp_all add: Option.bind_map_option comp_def Option.map_option_bind)
  qed
qed

text \<open>Children that have ended, in the order of the results of \<open>waitpid\<close>, the first without one ends it.\<close>

definition pid_calls :: "PidHandler list \<Rightarrow> int list \<Rightarrow> callback list" where
  "pid_calls hs waits = List.map_filter (\<lambda>pid. find_pid pid hs) (takeWhile (\<lambda>pid. pid > 0) waits)"

lemma pid_loop_outside:
  assumes "bottom_halves s = []"
  shows "pid_loop (outside g) waits s =
    map_option (\<lambda>m. s\<lparr>EventState.more := m\<rparr>) (run_all g (pid_calls (pid_handlers s) waits) (EventState.more s))"
  using assms
proof (induction waits arbitrary: s)
  case Nil
  then show ?case by (simp add: pid_calls_def)
next
  case (Cons pid waits)
  have none: "pid_calls [] ws = []" for ws by (simp add: pid_calls_def map_filter_def)
  have rest: "pid_loop (outside g) waits (s\<lparr>EventState.more := m\<rparr>) = map_option (\<lambda>m'. s\<lparr>EventState.more := m'\<rparr>)
      (run_all g (pid_calls (pid_handlers s) waits) m)" for m
    using Cons.IH [of "s\<lparr>EventState.more := m\<rparr>"] Cons.prems by simp
  show ?case
  proof (cases "pid_handlers s = [] \<or> pid \<le> 0")
    case True
    then show ?thesis by (auto simp: none) (simp_all add: pid_calls_def)
  next
    case False
    show ?thesis
    proof (cases "find_pid pid (pid_handlers s)")
      case None
      then show ?thesis using False Cons.IH [OF Cons.prems] by (simp add: pid_calls_def map_filter_simps)
    next
      case (Some cb)
      have "outside g cb s = map_option (\<lambda>m. s\<lparr>EventState.more := m\<rparr>) (g cb (EventState.more s))"
        by (simp add: outside_def)
      then show ?thesis
        using False Some Cons.prems
        by (simp add: pid_calls_def map_filter_simps Option.bind_map_option Option.map_option_bind comp_def
            rest [unfolded pid_calls_def])
    qed
  qed
qed

lemma fold_min_bounds:
  fixes a :: int
  assumes "\<forall>x \<in> set xs. l \<le> x" "l \<le> a"
  shows "l \<le> fold min xs a \<and> fold min xs a \<le> a"
  using assms
proof (induction xs arbitrary: a)
  case (Cons x xs)
  then show ?case using Cons.IH [of "min x a"] by auto
qed simp

definition due_timers :: "int \<Rightarrow> 'a EventState_scheme \<Rightarrow> QETimer list" where
  "due_timers cur s = filter (due cur) (first_timer s)"

definition pending_timers :: "int \<Rightarrow> 'a EventState_scheme \<Rightarrow> QETimer list" where
  "pending_timers cur s = filter (\<lambda>t. \<not> due cur t) (first_timer s)"

definition loop_idle :: "int \<Rightarrow> 'a EventState_scheme \<Rightarrow> bool" where
  "loop_idle cur s \<longleftrightarrow> handlers_ok s \<and> bottom_halves s = [] \<and> distinct (map ti_addr (first_timer s)) \<and>
     list_all (in_reach cur) (first_timer s) \<and> int_ok (cur + MAX_DELAY)"

lemma check_timers_outside:
  assumes "loop_idle cur s"
  shows "check_timers (outside g) cur s MAX_DELAY =
    map_option (\<lambda>m. (fold min (map ti_timeout (pending_timers cur s)) (cur + MAX_DELAY) - cur,
        s\<lparr>first_timer := pending_timers cur s, EventState.more := m\<rparr>))
      (run_all g (map ti_cb (due_timers cur s)) (EventState.more s))"
proof -
  let ?m = "fold min (map ti_timeout (pending_timers cur s)) (cur + MAX_DELAY)"
  have l: "timer_loop (outside g) cur None (cur + MAX_DELAY) s =
    map_option (\<lambda>m. (?m, s\<lparr>first_timer := pending_timers cur s, EventState.more := m\<rparr>))
      (run_all g (map ti_cb (due_timers cur s)) (EventState.more s))"
    using timer_loop_outside [of s "[]" "first_timer s" cur "cur + MAX_DELAY" g] assms
    by (simp add: loop_idle_def pointer_behind_def pending_timers_def due_timers_def MAX_DELAY_def)
  have "cur \<le> ?m \<and> ?m \<le> cur + MAX_DELAY"
    by (rule fold_min_bounds) (auto simp: pending_timers_def due_def MAX_DELAY_def)
  then have "int_ok (?m - cur)" by (simp add: int_ok_def MAX_DELAY_def)
  moreover have "int_ok (cur + MAX_DELAY)" using assms by (simp add: loop_idle_def)
  ultimately show ?thesis
    by (simp add: check_timers_def l Option.bind_map_option Option.map_option_bind comp_def map_conv_bind_option)
qed

text \<open>C23. One round of the main loop. If the callbacks leave the tables of the loop alone, then one round
  calls the functions of the timers whose time has come, in the order of their list, then those of the
  descriptors \<open>select\<close> reports, ascending and reading before writing, and then those of the children
  that have ended, each exactly once. The timers that were called are removed and the others stay. The
  delay that is passed to \<open>select\<close> ends with the first of them, and after half a second at the latest.\<close>

theorem url_block_order:
  assumes "loop_idle (clock_now ans) s"
  shows "url_block (outside g) ans s =
      map_option (\<lambda>m. s\<lparr>first_timer := pending_timers (clock_now ans) s, EventState.more := m\<rparr>)
        (run_all g (map ti_cb (due_timers (clock_now ans) s) @
          (if select_ret ans > 0
           then concat (map (fd_calls (url_handlers s) (url_rfds s \<inter> ready_r ans) (url_wfds s \<inter> ready_w ans))
             [0..<NB_HANDLERS]) else []) @
          pid_calls (pid_handlers s) (waited ans)) (EventState.more s)) \<and>
    check_timers (outside g) (clock_now ans) s MAX_DELAY =
      map_option (\<lambda>m. (fold min (map ti_timeout (pending_timers (clock_now ans) s)) (clock_now ans + MAX_DELAY) -
          clock_now ans, s\<lparr>first_timer := pending_timers (clock_now ans) s, EventState.more := m\<rparr>))
        (run_all g (map ti_cb (due_timers (clock_now ans) s)) (EventState.more s))"
proof
  let ?p = "pending_timers (clock_now ans) s"
  note timers = check_timers_outside [OF assms, of g]
  then show "check_timers (outside g) (clock_now ans) s MAX_DELAY =
      map_option (\<lambda>m. (fold min (map ti_timeout ?p) (clock_now ans + MAX_DELAY) - clock_now ans,
        s\<lparr>first_timer := ?p, EventState.more := m\<rparr>))
      (run_all g (map ti_cb (due_timers (clock_now ans) s)) (EventState.more s))" .
  have ok: "handlers_ok s" "bottom_halves s = []" using assms by (simp_all add: loop_idle_def)
  have fds: "fd_loop (outside g) (url_rfds s \<inter> ready_r ans) (url_wfds s \<inter> ready_w ans) 0 NB_HANDLERS
      (s\<lparr>first_timer := ?p, EventState.more := m\<rparr>) =
    map_option (\<lambda>m. s\<lparr>first_timer := ?p, EventState.more := m\<rparr>)
    (run_all g (concat (map (fd_calls (url_handlers s) (url_rfds s \<inter> ready_r ans) (url_wfds s \<inter> ready_w ans))
      [0..<NB_HANDLERS])) m)" for m
    using fd_loop_outside [of "s\<lparr>first_timer := ?p, EventState.more := m\<rparr>" "url_rfds s \<inter> ready_r ans"
      "url_wfds s \<inter> ready_w ans" 0 NB_HANDLERS g] ok by (simp add: handlers_ok_def)
  have pids: "pid_loop (outside g) (waited ans) (s\<lparr>first_timer := ?p, EventState.more := m\<rparr>) =
    map_option (\<lambda>m. s\<lparr>first_timer := ?p, EventState.more := m\<rparr>)
      (run_all g (pid_calls (pid_handlers s) (waited ans)) m)" for m
    using pid_loop_outside [of "s\<lparr>first_timer := ?p, EventState.more := m\<rparr>" g "waited ans"] ok by simp
  show "url_block (outside g) ans s = map_option (\<lambda>m. s\<lparr>first_timer := ?p, EventState.more := m\<rparr>)
      (run_all g (map ti_cb (due_timers (clock_now ans) s) @
        (if select_ret ans > 0
         then concat (map (fd_calls (url_handlers s) (url_rfds s \<inter> ready_r ans) (url_wfds s \<inter> ready_w ans))
           [0..<NB_HANDLERS]) else []) @
        pid_calls (pid_handlers s) (waited ans)) (EventState.more s))"
    by (simp add: url_block_def timers run_all_append fds pids Option.bind_map_option Option.map_option_bind
        comp_def Let_def del: check_timers_def)
qed

section \<open>Callbacks that change the tables\<close>

text \<open>A handler that is ready and is removed by the handler of a lower descriptor is called
  all the same, through a null pointer.\<close>

lemma removed_handler_crashes:
  assumes "i < j" "j < NB_HANDLERS" "bottom_halves s = []" "read_cb (url_handlers s ! i) = Some f"
    "length (url_handlers s) = NB_HANDLERS" "call f s = set_read_handler s (int j) None"
  shows "call_fd call read_cb {i, j} i s \<bind> call_fd call read_cb {i, j} j = None"
proof -
  let ?s = "s\<lparr>url_handlers := (url_handlers s)[j := (url_handlers s ! j)\<lparr>read_cb := None\<rparr>],
      url_rfds := url_rfds s - {j}\<rparr>"
  have "call_fd call read_cb {i, j} i s = Some ?s"
    using assms by (simp add: call_fd_def set_read_handler_def Let_def)
  then show ?thesis using assms(2,5) by (simp add: call_fd_def)
qed

text \<open>A timer that frees another. If a timer is due and its callback kills the pending timer before it in
  the list, \<open>check_timers\<close> goes on with a pointer into the timer that was freed.\<close>

theorem killed_timer_is_read:
  assumes "first_timer s = pre @ a # b # rest" "distinct (map ti_addr (first_timer s))"
    "list_all (in_reach cur) (first_timer s)" "list_all (\<lambda>t. \<not> due cur t) (pre @ [a])" "due cur b"
    "int_ok (cur + MAX_DELAY)" "bottom_halves s = []"
    "\<And>s. call (ti_cb b) s = Some (qe_kill_timer s (ti_addr a))"
  shows "check_timers call cur s MAX_DELAY = None"
proof -
  have gone: "after_timer x ts = None" if "x \<notin> ti_addr ` set ts" for x ts
    using that by (induction ts) auto
  have "timer_loop call cur (pointer_behind p) timeout s = None"
    if "first_timer s = p @ ts" "ts = q @ b # rest" "p @ q = pre @ [a]" "cur \<le> timeout"
      "timeout < cur + 2147483648" for p q ts timeout
    using that
  proof (induction q arbitrary: p ts timeout)
    case Nil
    have d: "distinct (map ti_addr (p @ b # rest))" using assms(2) Nil.prems by simp
    have p: "pointer_behind p = Some (ti_addr a)" using Nil.prems(3) by (simp add: pointer_behind_def)
    have u: "unlink_timer b (first_timer s) = pre @ a # rest"
      using unlink_append [OF d] Nil.prems by simp
    have k: "after_timer (ti_addr a) (filter (\<lambda>t. ti_addr t \<noteq> ti_addr a) ts) = None" for ts
      by (rule gone) auto
    have ok: "int_ok (ti_timeout b - cur)" using assms(1,3) by (simp add: in_reach_def)
    have "timer_loop call cur (pointer_behind p) timeout s =
        timer_loop call cur (pointer_behind p) timeout (qe_kill_timer (s\<lparr>first_timer := pre @ a # rest\<rparr>) (ti_addr a))"
      using timers_behind [OF d] Nil.prems(1,2) u ok assms(5,7,8)
      by (subst timer_loop.simps) (simp add: due_def qe_kill_timer_def)
    also have "\<dots> = None"
      by (subst timer_loop.simps) (simp add: p timers_from_def qe_kill_timer_def k del: filter_append filter.simps)
    finally show ?case .
  next
    case (Cons t q)
    have d: "distinct (map ti_addr (p @ t # q @ b # rest))" using assms(2) Cons.prems(1,2) by simp
    have t: "t \<in> set (pre @ [a])" using Cons.prems(3) [symmetric] by simp
    have nd: "\<not> due cur t" using t assms(4) unfolding list_all_iff by blast
    have "t \<in> set (first_timer s)" using t assms(1) by auto
    then have ok: "int_ok (ti_timeout t - cur)" using assms(3) by (simp add: list_all_iff in_reach_def)
    have ok2: "int_ok (ti_timeout t - timeout)" using ok nd Cons.prems(4,5) by (simp add: int_ok_def due_def)
    have "timer_loop call cur (pointer_behind p) timeout s =
        timer_loop call cur (pointer_behind (p @ [t]))
          (if ti_timeout t - timeout < 0 then ti_timeout t else timeout) s"
      using timers_behind [OF d] Cons.prems(1,2) nd ok ok2
      by (subst timer_loop.simps) (simp add: due_def pointer_behind_def)
    also have "\<dots> = None"
      by (rule Cons.IH [OF _ refl]) (use Cons.prems nd in \<open>auto simp: due_def\<close>)
    finally show ?case .
  qed
  from this [of "[]" "first_timer s" "pre @ [a]" "cur + MAX_DELAY"] show ?thesis
    using assms(1,6) by (simp add: check_timers_def pointer_behind_def MAX_DELAY_def)
qed

section \<open>Examples\<close>

text \<open>A loop with two timers, at 90 and at 700, and a reader of descriptor 0; a callback that splits.\<close>

definition splitting :: "unit caller" where
  "splitting cb s = Some (s\<lparr>bottom_halves :=
     (if snd cb = 0 then [] else [(fst cb, snd cb - 1), (fst cb, snd cb - 1)]) @ bottom_halves s\<rparr>)"

definition example_loop :: "'a \<Rightarrow> 'a EventState_scheme" where
  "example_loop m = \<lparr>url_rfds = {0}, url_wfds = {}, url_fdmax = 0,
     url_handlers = \<lparr>read_cb = Some (''tty_read_handler'', 0), write_cb = None\<rparr> #
       replicate 255 \<lparr>read_cb = None, write_cb = None\<rparr>,
     url_exit_request = False, pid_handlers = [], bottom_halves = [],
     first_timer = [\<lparr>ti_addr = 2, ti_timeout = 700, ti_cb = (''late'', 0)\<rparr>,
       \<lparr>ti_addr = 1, ti_timeout = 90, ti_cb = (''blink'', 0)\<rparr>],
     fresh_timer = 3, \<dots> = m\<rparr>"

definition example_answers :: Answers where
  "example_answers = \<lparr>clock_now = 100, select_ret = 1, ready_r = {0}, ready_w = {}, waited = []\<rparr>"

definition logging :: "callback \<Rightarrow> callback list \<Rightarrow> callback list option" where
  "logging cb m = Some (m @ [cb])"

theorem bottom_halves_end_witness:
  "\<exists>s'. call_bottom_halves splitting ((example_loop ())\<lparr>bottom_halves := [(''f'', 3), (''g'', 1)]\<rparr>) = Some s' \<and> bottom_halves s' = []"
  by (rule bottom_halves_end [where rank = snd]) (auto simp: splitting_def)

lemma example_idle: "loop_idle 100 (example_loop m)"
  by (simp add: loop_idle_def example_loop_def handlers_ok_def NB_HANDLERS_def in_reach_def int_ok_def MAX_DELAY_def)

lemma example_fds:
  "concat (map (fd_calls (url_handlers (example_loop m)) {0} {}) [0..<NB_HANDLERS]) = [(''tty_read_handler'', 0)]"
proof -
  have "[0..<NB_HANDLERS] = 0 # [1..<NB_HANDLERS]" by (simp add: NB_HANDLERS_def upt_conv_Cons)
  moreover have "concat (map (fd_calls hs {0} {}) [1..<NB_HANDLERS]) = []" for hs by (auto simp: fd_calls_def)
  ultimately show ?thesis by (simp add: fd_calls_def example_loop_def del: concat_eq_Nil_conv)
qed

theorem url_block_order_witness:
  "\<exists>s'. url_block (outside logging) example_answers (example_loop []) = Some s' \<and>
     EventState.more s' = [(''blink'', 0), (''tty_read_handler'', 0)] \<and> map ti_addr (first_timer s') = [2]"
proof -
  have idle: "loop_idle (clock_now example_answers) (example_loop [] :: callback list EventState_scheme)"
    using example_idle [of "[]"] by (simp add: example_answers_def)
  have sets: "url_rfds (example_loop m) \<inter> ready_r example_answers = {0}"
    "url_wfds (example_loop m) \<inter> ready_w example_answers = {}" for m :: "callback list"
    by (simp_all add: example_loop_def example_answers_def)
  have timers: "due_timers 100 (example_loop m) = [\<lparr>ti_addr = 1, ti_timeout = 90, ti_cb = (''blink'', 0)\<rparr>]"
    "pending_timers 100 (example_loop m) = [\<lparr>ti_addr = 2, ti_timeout = 700, ti_cb = (''late'', 0)\<rparr>]"
    "pid_handlers (example_loop m) = []" "EventState.more (example_loop m) = m" for m :: "callback list"
    by (simp_all add: due_timers_def pending_timers_def example_loop_def due_def)
  have a: "clock_now example_answers = 100" "select_ret example_answers = 1" "waited example_answers = []"
    by (simp_all add: example_answers_def)
  show ?thesis
    using url_block_order [OF idle, of logging]
    by (simp add: sets example_fds timers a pid_calls_def logging_def)
qed

definition killing :: "unit caller" where
  "killing cb s = Some (qe_kill_timer s 2)"

theorem killed_timer_is_read_witness:
  "check_timers killing 100 (example_loop ()) MAX_DELAY = None"
  by (rule killed_timer_is_read [where pre = "[]" and a = "\<lparr>ti_addr = 2, ti_timeout = 700, ti_cb = (''late'', 0)\<rparr>"
        and b = "\<lparr>ti_addr = 1, ti_timeout = 90, ti_cb = (''blink'', 0)\<rparr>" and rest = "[]"])
    (simp_all add: example_loop_def in_reach_def int_ok_def MAX_DELAY_def due_def killing_def)

end
