(* ===== verification/Keys.thy ===== *)
theory Keys
  imports Events Key_Names
begin

text \<open>
  From keys to commands in \<open>src/qe.c\<close>: modes and their commands, the table of commands, key bindings,
  the parsing of a command's arguments, the processing of keys with universal arguments, and keyboard
  macros. What a command does is an argument \<open>call_cmd\<close> of the operations, except for the commands of
  this component itself.

  Tables of commands are linked through their last entries and only ever get longer; the model
  keeps their entries in one list, and a pointer to a command is a position in it. A pointer to
  a mode is a position in the list of modes.
\<close>

section \<open>Modes, commands and bindings\<close>

datatype CmdVal = Val_Int int | Val_Str string

text \<open>The name of a command is followed by a zero byte and the types of its arguments.\<close>

record CmdDef =
  cmd_key :: int
  cmd_alt_key :: int
  cmd_name :: string
  cmd_args :: string
  cmd_func :: string
  cmd_val :: CmdVal

record ModeDef =
  mode_name :: string
  mode_nocmd :: bool
  mode_display :: "string option"
  mode_save_data :: "string option"
  mode_data_type :: "string option"
  mode_mode_line :: "string option"

record KeyDef =
  kd_keys :: "int list"
  kd_cmd :: nat
  kd_mode :: "nat option"

record KeyTables =
  first_mode :: "ModeDef list"
  first_cmd :: "CmdDef list"
  first_key :: "KeyDef list"

fun mode_index :: "string \<Rightarrow> nat \<Rightarrow> ModeDef list \<Rightarrow> nat option" where
  "mode_index name i [] = None"
| "mode_index name i (m # ms) = (if name = mode_name m then Some i else mode_index name (Suc i) ms)"

definition find_mode :: "KeyTables \<Rightarrow> string \<Rightarrow> nat option" where
  "find_mode t name = mode_index name 0 (first_mode t)"

fun cmd_index :: "string \<Rightarrow> nat \<Rightarrow> CmdDef list \<Rightarrow> nat option" where
  "cmd_index name i [] = None"
| "cmd_index name i (d # ds) = (if name = cmd_name d then Some i else cmd_index name (Suc i) ds)"

definition qe_find_cmd :: "KeyTables \<Rightarrow> string \<Rightarrow> nat option" where
  "qe_find_cmd t name = cmd_index name 0 (first_cmd t)"

text \<open>Bindings of a mode are put in front, those for all modes at the end. \<open>ok\<close> is the result of
  \<open>malloc\<close>.\<close>

definition qe_register_binding1 ::
    "bool \<Rightarrow> KeyTables \<Rightarrow> int list \<Rightarrow> nat \<Rightarrow> nat option \<Rightarrow> int \<times> KeyTables" where
  "qe_register_binding1 ok t keys d m =
     (if \<not> ok then (-1, t)
      else let p = \<lparr>kd_keys = keys, kd_cmd = d, kd_mode = m\<rparr> in
        (0, t\<lparr>first_key := if m = None then first_key t @ [p] else p # first_key t\<rparr>))"

definition unpack_key :: "int \<Rightarrow> int list" where
  "unpack_key key =
     (if key \<ge> KEY_CTRLX 0 \<and> key \<le> KEY_CTRLX 0xff then [KEY_CTRL 120, key AND 0xff]
      else if key \<ge> KEY_CTRLXRET 0 \<and> key \<le> KEY_CTRLXRET 0xff then [KEY_CTRL 120, KEY_RET, key AND 0xff]
      else if key \<ge> KEY_CTRLH 0 \<and> key \<le> KEY_CTRLH 0xff then [KEY_CTRL 104, key AND 0xff]
      else [key])"

definition qe_register_binding2 :: "KeyTables \<Rightarrow> int \<Rightarrow> nat \<Rightarrow> nat option \<Rightarrow> KeyTables" where
  "qe_register_binding2 t key d m = snd (qe_register_binding1 True t (unpack_key key) d m)"

fun default_bindings :: "KeyTables \<Rightarrow> nat \<Rightarrow> CmdDef list \<Rightarrow> nat option \<Rightarrow> KeyTables" where
  "default_bindings t i [] m = t"
| "default_bindings t i (d # ds) m =
     (let t = (if cmd_key d \<noteq> KEY_NONE then qe_register_binding2 t (cmd_key d) i m else t);
          t = (if cmd_alt_key d \<noteq> KEY_NONE then qe_register_binding2 t (cmd_alt_key d) i m else t)
      in default_bindings t (Suc i) ds m)"

definition qe_register_cmd_table :: "KeyTables \<Rightarrow> CmdDef list \<Rightarrow> string option \<Rightarrow> KeyTables" where
  "qe_register_cmd_table t cmds mode =
     (let m = Option.bind mode (find_mode t);
          i = length (first_cmd t)
      in default_bindings (t\<lparr>first_cmd := first_cmd t @ cmds\<rparr>) i cmds m)"

text \<open>The loop over the names between bars. A name goes into an array of 64 bytes.\<close>

fun bind_modes :: "KeyTables \<Rightarrow> int \<Rightarrow> nat \<Rightarrow> string \<Rightarrow> string \<Rightarrow> KeyTables option" where
  "bind_modes t key d acc [] = do {
     guard (length acc < 64);
     Some (case find_mode t acc of Some m \<Rightarrow> qe_register_binding2 t key d (Some m) | None \<Rightarrow> t) }"
| "bind_modes t key d acc (c # p) =
     (if c = CHR ''|'' then do {
        guard (length acc < 64);
        bind_modes (case find_mode t acc of Some m \<Rightarrow> qe_register_binding2 t key d (Some m) | None \<Rightarrow> t)
          key d [] p }
      else bind_modes t key d (acc @ [c]) p)"

definition qe_register_binding :: "KeyTables \<Rightarrow> int \<Rightarrow> string \<Rightarrow> string option \<Rightarrow> KeyTables option" where
  "qe_register_binding t key name mode_names = (case qe_find_cmd t name of
       None \<Rightarrow> Some t
     | Some d \<Rightarrow> (case mode_names of
           None \<Rightarrow> Some (qe_register_binding2 t key d None)
         | Some p \<Rightarrow> if p = [] then Some (qe_register_binding2 t key d None) else bind_modes t key d [] p))"

definition default_to :: "string \<Rightarrow> string option \<Rightarrow> string option" where
  "default_to f p = (case p of None \<Rightarrow> Some f | Some q \<Rightarrow> Some q)"

definition qe_register_mode :: "KeyTables \<Rightarrow> ModeDef \<Rightarrow> KeyTables" where
  "qe_register_mode t m =
     (let m' = m\<lparr>mode_display := default_to ''generic_text_display'' (mode_display m),
            mode_save_data := default_to ''generic_mode_save_data'' (mode_save_data m),
            mode_data_type := default_to ''raw_data_type'' (mode_data_type m),
            mode_mode_line := default_to ''text_mode_line'' (mode_mode_line m)\<rparr>;
          t = t\<lparr>first_mode := first_mode t @ [m']\<rparr>
      in if mode_nocmd m then t
         else qe_register_cmd_table t
           [\<lparr>cmd_key = KEY_NONE, cmd_alt_key = KEY_NONE,
             cmd_name = bcat 54 (css_strtolower (bcpy 54 (mode_name m))) ''-mode'', cmd_args = ''S'',
             cmd_func = ''do_cmd_set_mode'', cmd_val = Val_Str (mode_name m)\<rparr>] None)"

definition command_completion :: "KeyTables \<Rightarrow> StringArray \<Rightarrow> string \<Rightarrow> StringArray" where
  "command_completion t cs input =
     fold (\<lambda>d cs. if take (length input) (cmd_name d) = input then snd (add_string True cs (cmd_name d)) else cs)
       (first_cmd t) cs"

definition MAX_KEYS :: nat where "MAX_KEYS = 10"

text \<open>Each key of the string is at least one character long, so the length of the string bounds the loop.\<close>

fun parse_keys :: "nat \<Rightarrow> int list \<Rightarrow> string \<Rightarrow> int list option" where
  "parse_keys 0 keys p = Some keys"
| "parse_keys (Suc n) keys p =
     (let p = skip_spaces p in
      if p = [] then Some keys
      else do {
        (key, p) \<leftarrow> strtokey p;
        if length (keys @ [key]) \<ge> MAX_KEYS then Some (keys @ [key]) else parse_keys n (keys @ [key]) p })"

definition do_global_set_key :: "KeyTables \<Rightarrow> string \<Rightarrow> string \<Rightarrow> KeyTables option" where
  "do_global_set_key t keystr name = do {
     keys \<leftarrow> parse_keys (Suc (length keystr)) [] keystr;
     Some (case qe_find_cmd t name of
         None \<Rightarrow> t
       | Some d \<Rightarrow> snd (qe_register_binding1 True t keys d None)) }"

section \<open>The state of the key processing\<close>

definition NO_ARG :: int where "NO_ARG = 0x7fffffff"
definition MAX_SCREEN_WIDTH :: nat where "MAX_SCREEN_WIDTH = 256"

text \<open>What a window contributes: its mode, whether it is the minibuffer, and the state that a command
  resets.\<close>

record Window =
  w_mode :: nat
  w_minibuf :: bool
  hex_nibble :: int
  compose_len :: nat

record QEKeyContext =
  argval :: int
  noargval :: int
  sign :: int
  is_universal_arg :: bool
  is_escape :: bool
  describe_key :: bool
  grab_key :: "callback option"
  ctx_keys :: "int list"
  ctx_buf :: string

datatype ArgType = CMD_ARG_INT | CMD_ARG_INTVAL | CMD_ARG_STRING | CMD_ARG_STRINGVAL | CMD_ARG_WINDOW
datatype ArgValue = Arg_Int int | Arg_Str "string option" | Arg_Val CmdVal | Arg_Window nat

record ExecCmdState =
  es_s :: nat
  es_d :: nat
  es_argval :: int
  es_ptype :: string
  es_args :: "(ArgType \<times> ArgValue) list"
  default_input :: string

text \<open>What \<open>minibuffer_edit\<close> was asked for. Its callback is \<open>arg_edit_cb\<close> here.\<close>

record Question =
  q_input :: string
  q_prompt :: string
  q_history :: string
  q_completion :: string
  q_es :: ExecCmdState
  q_saved_active :: nat

record KeyState = EventState +
  tables :: KeyTables
  key_ctx :: QEKeyContext
  windows :: "nat \<Rightarrow> Window"
  active_window :: nat
  fresh_window :: nat
  minibuffer_mode :: nat
  question :: "Question option"
  status_shadow :: string
  last_cmd_func :: string
  defining_macro :: bool
  macro_keys :: "int list"
  macro_keys_size :: nat
  macro_key_index :: int

text \<open>
  The rest of the program: its commands, the functions that grab keys, its other callbacks, and the
  default inputs, \<open>get_default_path\<close> and \<open>predict_switch_to_buffer\<close> on the buffers of the editor.
\<close>

record 'w Program =
  call_cmd :: "string \<Rightarrow> ArgValue list \<Rightarrow> 'w \<Rightarrow> 'w option"
  call_grab :: "callback \<Rightarrow> int \<Rightarrow> 'w \<Rightarrow> 'w option"
  call_other :: "callback \<Rightarrow> 'w \<Rightarrow> 'w option"
  default_path :: "'w \<Rightarrow> nat \<Rightarrow> string"
  default_buffer :: "'w \<Rightarrow> bool \<Rightarrow> nat \<Rightarrow> string"

definition put_status :: "'a KeyState_scheme \<Rightarrow> string \<Rightarrow> 'a KeyState_scheme" where
  "put_status s str = s\<lparr>status_shadow := bcpy MAX_SCREEN_WIDTH str\<rparr>"

text \<open>A string as the format: \<open>vsnprintf\<close> then reads arguments that were not passed.\<close>

definition put_status_format :: "'a KeyState_scheme \<Rightarrow> string \<Rightarrow> 'a KeyState_scheme option" where
  "put_status_format s fmt = do { guard (CHR ''%'' \<notin> set fmt); Some (put_status s fmt) }"

section \<open>Arguments\<close>

definition get_param :: "string \<Rightarrow> nat \<Rightarrow> char \<Rightarrow> char \<Rightarrow> string \<times> string" where
  "get_param p param_size osep sep = (case p of
       [] \<Rightarrow> ([], p)
     | c # r \<Rightarrow>
         if c = osep then
           (let q = takeWhile (\<lambda>c. c \<noteq> sep) r;
                r = dropWhile (\<lambda>c. c \<noteq> sep) r
            in (take (param_size - 1) q, if r \<noteq> [] then tl r else r))
         else ([], p))"

datatype ParsedArg = Arg_Error | Arg_End | Arg_Parsed ArgType string string string string

definition parse_arg :: "string \<Rightarrow> ParsedArg" where
  "parse_arg p = (case p of
       [] \<Rightarrow> Arg_End
     | type # p \<Rightarrow>
         let (prompt, p) = get_param p 256 (CHR ''{'') (CHR ''}'');
             (completion, p) = get_param p 64 (CHR ''['') (CHR '']'');
             (history, p) = get_param p 32 (CHR ''|'') (CHR ''|'')
         in if type = CHR ''v'' then Arg_Parsed CMD_ARG_INTVAL prompt completion history p
            else if type = CHR ''i'' then Arg_Parsed CMD_ARG_INT prompt completion history p
            else if type = CHR ''s'' then Arg_Parsed CMD_ARG_STRING prompt completion history p
            else if type = CHR ''S'' then Arg_Parsed CMD_ARG_STRINGVAL prompt completion history p
            else Arg_Error)"

definition MAX_CMD_ARGS :: nat where "MAX_CMD_ARGS = 5"

text \<open>The loop of \<open>parse_args\<close> ends with an error, with all arguments, or with a question: the prompt and
  the names of the completion and the history.\<close>

datatype ParseResult = Parse_Fail | Parse_Ready ExecCmdState | Parse_Ask ExecCmdState string string string

definition arg_value :: "CmdVal \<Rightarrow> int \<Rightarrow> ArgType \<Rightarrow> ArgValue" where
  "arg_value val n ty = (case ty of
       CMD_ARG_INT \<Rightarrow> Arg_Int n
     | CMD_ARG_STRING \<Rightarrow> Arg_Str None
     | _ \<Rightarrow> Arg_Val val)"

definition no_arg :: "int \<Rightarrow> ArgType \<Rightarrow> bool" where
  "no_arg n ty \<longleftrightarrow> (ty = CMD_ARG_INT \<and> n = NO_ARG) \<or> ty = CMD_ARG_STRING"

function parse_loop :: "CmdVal \<Rightarrow> ExecCmdState \<Rightarrow> ParseResult" where
  "parse_loop val es = (case parse_arg (es_ptype es) of
       Arg_Error \<Rightarrow> Parse_Fail
     | Arg_End \<Rightarrow> Parse_Ready es
     | Arg_Parsed ty prompt completion history p \<Rightarrow>
         if length (es_args es) \<ge> MAX_CMD_ARGS then Parse_Fail
         else let ask = no_arg (es_argval es) ty \<and> prompt \<noteq> [];
                  es = es\<lparr>es_ptype := p, es_args := es_args es @ [(ty, arg_value val (es_argval es) ty)],
                    es_argval := if ty = CMD_ARG_INT then NO_ARG else es_argval es\<rparr>
              in if ask then Parse_Ask es prompt completion history else parse_loop val es)"
  by pat_completeness auto
termination by (relation "measure (\<lambda>(val, es). MAX_CMD_ARGS - length (es_args es))") auto

text \<open>The prompt with the default, in an array of 256 bytes.\<close>

definition full_prompt :: "string \<Rightarrow> string \<Rightarrow> string" where
  "full_prompt prompt def =
     (if def \<noteq> [] then bcat 256 (bcat 256 (bcat 256 prompt ''(default '') def) '') '' else prompt)"

definition default_file :: "'w Program \<Rightarrow> 'w \<Rightarrow> nat \<Rightarrow> string \<Rightarrow> string" where
  "default_file P s e completion = (if completion = ''file'' then default_path P s e else [])"

definition default_name :: "'w Program \<Rightarrow> 'w \<Rightarrow> CmdDef \<Rightarrow> nat \<Rightarrow> string \<Rightarrow> string" where
  "default_name P s d e completion =
     (if completion = ''buffer''
      then bcpy 512 (default_buffer P s (cmd_func d = ''do_switch_to_buffer'') e) else [])"

text \<open>While a question is open, another one is refused and its command is dropped.\<close>

definition minibuffer_edit :: "'a KeyState_scheme \<Rightarrow> string \<Rightarrow> string \<Rightarrow> string \<Rightarrow> string \<Rightarrow> ExecCmdState \<Rightarrow>
    'a KeyState_scheme" where
  "minibuffer_edit s input prompt history completion es = (case question s of
       Some _ \<Rightarrow> put_status s ''Already editing in minibuffer''
     | None \<Rightarrow>
         s\<lparr>question := Some \<lparr>q_input = input, q_prompt = prompt, q_history = history,
               q_completion = completion, q_es = es, q_saved_active = active_window s\<rparr>,
           windows := (windows s)(fresh_window s :=
             \<lparr>w_mode = minibuffer_mode s, w_minibuf = True, hex_nibble = 0, compose_len = 0\<rparr>),
           active_window := fresh_window s, fresh_window := fresh_window s + 1\<rparr>)"

section \<open>Macros and the commands of this component\<close>

definition do_start_macro :: "'a KeyState_scheme \<Rightarrow> 'a KeyState_scheme" where
  "do_start_macro s =
     (if defining_macro s then put_status (s\<lparr>defining_macro := False\<rparr>) ''Already defining kbd macro''
      else put_status (s\<lparr>defining_macro := True, macro_keys := [], macro_keys_size := 0\<rparr>)
        ''Defining kbd macro...'')"

definition do_end_macro :: "'a KeyState_scheme \<Rightarrow> 'a KeyState_scheme" where
  "do_end_macro s =
     (if macro_key_index s \<noteq> -1 then s
      else if \<not> defining_macro s then put_status s ''Not defining kbd macro''
      else put_status (s\<lparr>defining_macro := False\<rparr>) ''Keyboard macro defined'')"

definition do_call_macro :: "'a KeyState_scheme \<Rightarrow> 'a KeyState_scheme" where
  "do_call_macro s =
     (if defining_macro s
      then put_status (s\<lparr>defining_macro := False\<rparr>) ''Can't execute macro while defining one''
      else if length (macro_keys s) > 0 then register_bottom_half s (''do_call_macro_bh'', 0)
      else s)"

definition MACRO_KEY_INCR :: nat where "MACRO_KEY_INCR = 64"

text \<open>Keys are recorded in 16 bits.\<close>

definition macro_add_key :: "'a KeyState_scheme \<Rightarrow> int \<Rightarrow> 'a KeyState_scheme" where
  "macro_add_key s key =
     (let s = (if length (macro_keys s) \<ge> macro_keys_size s
               then s\<lparr>macro_keys_size := macro_keys_size s + MACRO_KEY_INCR\<rparr> else s)
      in s\<lparr>macro_keys := macro_keys s @ [key AND 0xffff]\<rparr>)"

definition qe_grab_keys :: "'a KeyState_scheme \<Rightarrow> callback \<Rightarrow> 'a KeyState_scheme" where
  "qe_grab_keys s cb = s\<lparr>key_ctx := (key_ctx s)\<lparr>grab_key := Some cb\<rparr>\<rparr>"

definition qe_ungrab_keys :: "'a KeyState_scheme \<Rightarrow> 'a KeyState_scheme" where
  "qe_ungrab_keys s = s\<lparr>key_ctx := (key_ctx s)\<lparr>grab_key := None\<rparr>\<rparr>"

definition do_describe_key_briefly :: "'a KeyState_scheme \<Rightarrow> 'a KeyState_scheme" where
  "do_describe_key_briefly s =
     (put_status s ''Describe key briefly:'')\<lparr>key_ctx := (key_ctx s)\<lparr>describe_key := True\<rparr>\<rparr>"

definition call_func ::
    "'a KeyState_scheme Program \<Rightarrow> string \<Rightarrow> ArgValue list \<Rightarrow> 'a KeyState_scheme \<Rightarrow> 'a KeyState_scheme option" where
  "call_func P f args s =
     (if f = ''do_universal_argument'' then Some s
      else if f = ''do_start_macro'' then Some (do_start_macro s)
      else if f = ''do_end_macro'' then Some (do_end_macro s)
      else if f = ''do_call_macro'' then Some (do_call_macro s)
      else if f = ''do_describe_key_briefly'' then Some (do_describe_key_briefly s)
      else call_cmd P f args s)"

section \<open>Commands\<close>

definition reset_window :: "string \<Rightarrow> Window \<Rightarrow> Window" where
  "reset_window f w =
     (if f \<noteq> ''do_char''
      then (w\<lparr>hex_nibble := 0\<rparr>)\<lparr>compose_len := if f \<noteq> ''do_backspace'' then 0 else compose_len w\<rparr>
      else w)"

text \<open>\<open>save_selection\<close>, which works on the mouse selection, is one of the functions of the rest.\<close>

fun repeat_command :: "'a KeyState_scheme Program \<Rightarrow> nat \<Rightarrow> string \<Rightarrow> nat \<Rightarrow> ArgValue list \<Rightarrow>
    'a KeyState_scheme \<Rightarrow> 'a KeyState_scheme option" where
  "repeat_command P 0 f e args s = Some s"
| "repeat_command P (Suc n) f e args s = do {
     let s = s\<lparr>windows := (windows s)(e := reset_window f (windows s e))\<rparr>;
     s \<leftarrow> call_cmd P ''save_selection'' [] s;
     s \<leftarrow> call_func P f args s;
     repeat_command P n f e args s }"

definition rep_count :: "int \<Rightarrow> nat" where
  "rep_count n = (if n \<noteq> NO_ARG \<and> n > 1 then nat n else 1)"

definition parse_args ::
    "'a KeyState_scheme Program \<Rightarrow> ExecCmdState \<Rightarrow> 'a KeyState_scheme \<Rightarrow> 'a KeyState_scheme option" where
  "parse_args P es s = do {
     guard (es_d es < length (first_cmd (tables s)));
     let d = first_cmd (tables s) ! es_d es;
     case parse_loop (cmd_val d) es of
       Parse_Fail \<Rightarrow> Some s
     | Parse_Ready es \<Rightarrow> do {
         s \<leftarrow> repeat_command P (rep_count (es_argval es)) (cmd_func d) (es_s es) (map snd (es_args es)) s;
         Some (s\<lparr>last_cmd_func := cmd_func d\<rparr>) }
     | Parse_Ask es prompt completion history \<Rightarrow>
         let def = default_name P s d (es_s es) completion in
         Some (minibuffer_edit s (default_file P s (es_s es) completion) (full_prompt prompt def) history
           completion (es\<lparr>default_input := def\<rparr>)) }"

definition exec_command ::
    "'a KeyState_scheme Program \<Rightarrow> nat \<Rightarrow> nat \<Rightarrow> int \<Rightarrow> 'a KeyState_scheme \<Rightarrow> 'a KeyState_scheme option" where
  "exec_command P e d n s = do {
     guard (d < length (first_cmd (tables s)));
     parse_args P \<lparr>es_s = e, es_d = d, es_argval = n, es_ptype = cmd_args (first_cmd (tables s) ! d),
       es_args = [(CMD_ARG_WINDOW, Arg_Window e)], default_input = []\<rparr> s }"

text \<open>The answer to a question; \<open>number\<close> is \<open>strtol\<close> with the check that it read everything.\<close>

definition set_arg :: "ExecCmdState \<Rightarrow> ArgValue \<Rightarrow> ExecCmdState" where
  "set_arg es v = es\<lparr>es_args := butlast (es_args es) @ [(fst (last (es_args es)), v)]\<rparr>"

definition arg_edit_cb :: "'a KeyState_scheme Program \<Rightarrow> (string \<Rightarrow> int option) \<Rightarrow> ExecCmdState \<Rightarrow> string option \<Rightarrow>
    'a KeyState_scheme \<Rightarrow> 'a KeyState_scheme option" where
  "arg_edit_cb P number es reply s = (case reply of
       None \<Rightarrow> Some s
     | Some str \<Rightarrow> (case fst (last (es_args es)) of
           CMD_ARG_INT \<Rightarrow> (case number str of
               None \<Rightarrow> Some (put_status s ''Invalid Number'')
             | Some v \<Rightarrow> parse_args P (set_arg es (Arg_Int v)) s)
         | CMD_ARG_STRING \<Rightarrow>
             parse_args P (set_arg es (Arg_Str (Some
               (if str = [] \<and> default_input es \<noteq> [] then default_input es else str)))) s
         | _ \<Rightarrow> parse_args P es s))"

definition do_execute_command :: "'a KeyState_scheme Program \<Rightarrow> nat \<Rightarrow> string \<Rightarrow> int \<Rightarrow>
    'a KeyState_scheme \<Rightarrow> 'a KeyState_scheme option" where
  "do_execute_command P e cmd n s = (case qe_find_cmd (tables s) cmd of
       None \<Rightarrow> Some (put_status s ''No match'')
     | Some d \<Rightarrow> exec_command P e d n s)"

section \<open>Keys\<close>

fun join_keys :: "int list \<Rightarrow> nat \<Rightarrow> string \<Rightarrow> string option" where
  "join_keys [] buf_size buf = Some buf"
| "join_keys (k # ks) buf_size buf = do {
     buf1 \<leftarrow> keytostr 64 k;
     let buf = bcat buf_size buf buf1;
     join_keys ks buf_size (if ks \<noteq> [] then bcat buf_size buf '' '' else buf) }"

definition keys_to_str :: "nat \<Rightarrow> int list \<Rightarrow> string option" where
  "keys_to_str buf_size keys = join_keys keys buf_size []"

definition qe_key_init :: "QEKeyContext \<Rightarrow> QEKeyContext" where
  "qe_key_init c = c\<lparr>is_universal_arg := False, is_escape := False, noargval := 1, argval := NO_ARG,
     sign := 1, ctx_keys := [], ctx_buf := []\<rparr>"

definition mode_active :: "nat \<Rightarrow> KeyDef \<Rightarrow> bool" where
  "mode_active m kd \<longleftrightarrow> kd_mode kd = None \<or> kd_mode kd = Some m"

definition find_key :: "KeyTables \<Rightarrow> nat \<Rightarrow> int list \<Rightarrow> KeyDef option" where
  "find_key t m keys =
     List.find (\<lambda>kd. length (kd_keys kd) \<ge> length keys \<and> take (length keys) (kd_keys kd) = keys \<and>
       mode_active m kd) (first_key t)"

definition find_default :: "KeyTables \<Rightarrow> nat \<Rightarrow> KeyDef option" where
  "find_default t m = List.find (\<lambda>kd. kd_keys kd = [KEY_DEFAULT] \<and> mode_active m kd) (first_key t)"

definition set_ctx :: "'a KeyState_scheme \<Rightarrow> QEKeyContext \<Rightarrow> 'a KeyState_scheme" where
  "set_ctx s c = s\<lparr>key_ctx := c\<rparr>"

text \<open>The label \<open>next\<close>: the key is added to the status line, in an array of 128 bytes.\<close>

definition show_key :: "nat \<Rightarrow> int \<Rightarrow> 'a KeyState_scheme \<Rightarrow> 'a KeyState_scheme option" where
  "show_key e key s =
     (if w_minibuf (windows s e) then Some s
      else do {
        buf1 \<leftarrow> keytostr 32 key;
        let c = key_ctx s;
        let buf = (if ctx_buf c \<noteq> [] then butlast (ctx_buf c) @ '' '' else []) @ buf1 @ ''-'';
        guard (length buf < 128);
        put_status_format (set_ctx s (c\<lparr>ctx_buf := buf\<rparr>)) buf })"

text \<open>The label \<open>exec_cmd\<close>.\<close>

definition final_argval :: "QEKeyContext \<Rightarrow> int" where
  "final_argval c =
     (if is_universal_arg c then (if argval c = NO_ARG then noargval c else argval c * sign c)
      else argval c)"

definition exec_key :: "'a KeyState_scheme Program \<Rightarrow> nat \<Rightarrow> int \<Rightarrow> nat \<Rightarrow> 'a KeyState_scheme \<Rightarrow>
    'a KeyState_scheme option" where
  "exec_key P e key d s = do {
     guard (d < length (first_cmd (tables s)));
     let f = cmd_func (first_cmd (tables s) ! d);
     let c = key_ctx s;
     if f = ''do_universal_argument'' \<and> \<not> describe_key c
     then do {
       guard (int_ok (noargval c * 4));
       show_key e key
         (set_ctx s (c\<lparr>is_universal_arg := True, noargval := noargval c * 4, ctx_keys := []\<rparr>)) }
     else do {
       let c = c\<lparr>argval := final_argval c\<rparr>;
       s \<leftarrow> (if describe_key c
            then do {
              str \<leftarrow> keys_to_str 128 (ctx_keys c);
              Some (set_ctx (put_status s (str @ '' runs the command '' @ cmd_name (first_cmd (tables s) ! d)))
                (c\<lparr>describe_key := False\<rparr>)) }
            else exec_command P e d (argval c) (set_ctx s c));
       Some (set_ctx s (qe_key_init (key_ctx s))) } }"

definition no_key_found :: "nat \<Rightarrow> int \<Rightarrow> 'a KeyState_scheme \<Rightarrow> 'a KeyState_scheme option" where
  "no_key_found e key s = show_key e key (set_ctx s ((qe_key_init (key_ctx s))\<lparr>describe_key := False\<rparr>))"

text \<open>A single key without a binding: a digit or a sign of the argument, or a key for the default
  binding, whose command gets it as its value.\<close>

definition single_key :: "'a KeyState_scheme Program \<Rightarrow> nat \<Rightarrow> int \<Rightarrow> 'a KeyState_scheme \<Rightarrow>
    'a KeyState_scheme option" where
  "single_key P e key s =
     (let c = key_ctx s in
      if is_universal_arg c \<and> key \<ge> 48 \<and> key \<le> 57 then do {
        let n = (if argval c = NO_ARG then 0 else argval c);
        guard (int_ok (n * 10 + (key - 48)));
        show_key e key (set_ctx s (c\<lparr>argval := n * 10 + (key - 48), ctx_keys := []\<rparr>)) }
      else if is_universal_arg c \<and> key = 45 then
        show_key e key (set_ctx s (c\<lparr>sign := - sign c, ctx_keys := []\<rparr>))
      else case find_default (tables s) (w_mode (windows s e)) of
          Some kd \<Rightarrow> do {
            guard (kd_cmd kd < length (first_cmd (tables s)));
            let cmds = first_cmd (tables s);
            let cmds = cmds[kd_cmd kd := (cmds ! kd_cmd kd)\<lparr>cmd_val := Val_Int key\<rparr>];
            exec_key P e key (kd_cmd kd) (s\<lparr>tables := (tables s)\<lparr>first_cmd := cmds\<rparr>\<rparr>) }
        | None \<Rightarrow> no_key_found e key s)"

definition lookup_key :: "'a KeyState_scheme Program \<Rightarrow> nat \<Rightarrow> int \<Rightarrow> 'a KeyState_scheme \<Rightarrow>
    'a KeyState_scheme option" where
  "lookup_key P e key s =
     (case find_key (tables s) (w_mode (windows s e)) (ctx_keys (key_ctx s)) of
        None \<Rightarrow>
          if length (ctx_keys (key_ctx s)) = 1 \<and> \<not> KEY_SPECIAL key then single_key P e key s
          else no_key_found e key s
      | Some kd \<Rightarrow>
          if length (ctx_keys (key_ctx s)) = length (kd_keys kd) then exec_key P e key (kd_cmd kd) s
          else show_key e key s)"

text \<open>A key behind an escape takes its place as a meta key.\<close>

definition after_escape :: "int \<Rightarrow> QEKeyContext \<Rightarrow> QEKeyContext" where
  "after_escape key c =
     (if is_escape c
      then c\<lparr>ctx_keys := if length (ctx_keys c) \<ge> 2
               then take (length (ctx_keys c) - 2) (ctx_keys c) @ [KEY_META key] else ctx_keys c,
             is_escape := False\<rparr>
      else c)"

definition ungrabbed_key :: "'a KeyState_scheme Program \<Rightarrow> int \<Rightarrow> 'a KeyState_scheme \<Rightarrow>
    'a KeyState_scheme option" where
  "ungrabbed_key P key s =
     (let c = key_ctx s in
      if length (ctx_keys c) \<ge> MAX_KEYS
      then Some (set_ctx s ((qe_key_init c)\<lparr>describe_key := False\<rparr>))
      else let e = active_window s;
               c = c\<lparr>ctx_keys := ctx_keys c @ [key]\<rparr>;
               s = (if w_minibuf (windows s e) then s else put_status s [])
           in if key = KEY_ESC then show_key e key (set_ctx s (c\<lparr>is_escape := True\<rparr>))
              else lookup_key P e key (set_ctx s (after_escape key c)))"

definition qe_key_process :: "'a KeyState_scheme Program \<Rightarrow> int \<Rightarrow> 'a KeyState_scheme \<Rightarrow>
    'a KeyState_scheme option" where
  "qe_key_process P key s =
     (let s = (if defining_macro s then macro_add_key s key else s) in
      case grab_key (key_ctx s) of
        Some cb \<Rightarrow> call_grab P cb key s
      | None \<Rightarrow> ungrabbed_key P key s)"

text \<open>A macro that is called reads its keys from the array, whatever they do to it.\<close>

partial_function (option) macro_loop :: "'a KeyState_scheme Program \<Rightarrow> 'a KeyState_scheme \<Rightarrow>
    'a KeyState_scheme option" where
  "macro_loop P s =
     (if macro_key_index s < int (length (macro_keys s))
      then do {
        guard (0 \<le> macro_key_index s);
        s \<leftarrow> qe_key_process P (macro_keys s ! nat (macro_key_index s)) s;
        macro_loop P (s\<lparr>macro_key_index := macro_key_index s + 1\<rparr>) }
      else Some s)"

definition do_call_macro_bh :: "'a KeyState_scheme Program \<Rightarrow> 'a KeyState_scheme \<Rightarrow>
    'a KeyState_scheme option" where
  "do_call_macro_bh P s = do {
     s \<leftarrow> macro_loop P (s\<lparr>macro_key_index := 0\<rparr>);
     Some (s\<lparr>macro_key_index := -1\<rparr>) }"

text \<open>The callbacks of the main loop.\<close>

definition key_callbacks :: "'a KeyState_scheme Program \<Rightarrow> callback \<Rightarrow> 'a KeyState_scheme \<Rightarrow>
    'a KeyState_scheme option" where
  "key_callbacks P cb s = (if cb = (''do_call_macro_bh'', 0) then do_call_macro_bh P s else call_other P cb s)"

text \<open>A key from the terminal and then the bottom halves, as in the main loop.\<close>

fun type_keys :: "'a KeyState_scheme Program \<Rightarrow> int list \<Rightarrow> 'a KeyState_scheme \<Rightarrow> 'a KeyState_scheme option" where
  "type_keys P [] s = Some s"
| "type_keys P (key # keys) s = do { s \<leftarrow> qe_key_process P key s; type_keys P keys s }"

end
