(* ===== verification/Key_Theorems.thy ===== *)
theory Key_Theorems
  imports Keys
begin

text \<open>
  How keys reach commands: which binding is found, how arguments are typed and passed, and where the
  handling of keys goes wrong.
\<close>

section \<open>Bindings\<close>

definition matches :: "int list \<Rightarrow> KeyDef \<Rightarrow> bool" where
  "matches keys kd \<longleftrightarrow> length (kd_keys kd) \<ge> length keys \<and> take (length keys) (kd_keys kd) = keys"

lemma find_key_eq: "find_key t m keys = List.find (\<lambda>kd. matches keys kd \<and> mode_active m kd) (first_key t)"
  by (simp add: find_key_def matches_def conj_assoc)

lemma find_append: "List.find P (xs @ ys) = (case List.find P xs of None \<Rightarrow> List.find P ys | Some x \<Rightarrow> Some x)"
  by (induction xs) auto

lemma find_cong_set: "(\<And>x. x \<in> set xs \<Longrightarrow> P x = Q x) \<Longrightarrow> List.find P xs = List.find Q xs"
  by (induction xs) auto

lemma find_filter: "List.find P (filter Q xs) = List.find (\<lambda>x. P x \<and> Q x) xs"
  by (induction xs) auto

fun bind_all :: "KeyTables \<Rightarrow> KeyDef list \<Rightarrow> KeyTables" where
  "bind_all t [] = t"
| "bind_all t (kd # kds) =
     bind_all (snd (qe_register_binding1 True t (kd_keys kd) (kd_cmd kd) (kd_mode kd))) kds"

lemma bind_all_first_key:
  "first_key (bind_all t kds) =
     rev (filter (\<lambda>kd. kd_mode kd \<noteq> None) kds) @ first_key t @ filter (\<lambda>kd. kd_mode kd = None) kds"
  by (induction kds arbitrary: t) (auto simp: qe_register_binding1_def Let_def)

text \<open>C21. Which binding is found. After any sequence of registrations, the keys typed so far find the latest
  binding that begins with them among those of the mode of the window, and only if there is none, the
  earliest one among those for all modes.\<close>

theorem binding_precedence:
  assumes "first_key t = []"
  shows "find_key (bind_all t kds) m keys =
    (case List.find (matches keys) (rev (filter (\<lambda>kd. kd_mode kd = Some m) kds)) of
       Some kd \<Rightarrow> Some kd
     | None \<Rightarrow> List.find (matches keys) (filter (\<lambda>kd. kd_mode kd = None) kds))"
proof -
  let ?ms = "filter (\<lambda>kd. kd_mode kd \<noteq> None) kds" and ?gs = "filter (\<lambda>kd. kd_mode kd = None) kds"
  have "List.find (\<lambda>kd. matches keys kd \<and> mode_active m kd) (rev ?ms) =
      List.find (matches keys) (rev (filter (\<lambda>kd. kd_mode kd = Some m) kds))"
    unfolding rev_filter find_filter by (rule find_cong_set) (auto simp: mode_active_def)
  moreover have "List.find (\<lambda>kd. matches keys kd \<and> mode_active m kd) ?gs = List.find (matches keys) ?gs"
    by (rule find_cong_set) (auto simp: mode_active_def)
  ultimately show ?thesis
    by (simp add: find_key_eq bind_all_first_key assms find_append split: option.split)
qed

theorem binding_precedence_witness:
  "find_key (bind_all \<lparr>first_mode = [], first_cmd = [], first_key = []\<rparr>
       [\<lparr>kd_keys = [24, 6], kd_cmd = 0, kd_mode = None\<rparr>, \<lparr>kd_keys = [24], kd_cmd = 1, kd_mode = None\<rparr>,
        \<lparr>kd_keys = [24], kd_cmd = 2, kd_mode = Some 5\<rparr>]) 5 [24] =
     Some \<lparr>kd_keys = [24], kd_cmd = 2, kd_mode = Some 5\<rparr>"
  by (subst binding_precedence) (simp_all add: matches_def)

lemma matches_take:
  assumes "matches keys kd"
  shows "matches (take n keys) kd"
proof -
  have k: "take (length keys) (kd_keys kd) = keys" "length keys \<le> length (kd_keys kd)"
    using assms by (simp_all add: matches_def)
  have "take (min (length keys) n) (kd_keys kd) = take n keys"
    using arg_cong [OF k(1), of "take n"] by (simp add: min.commute)
  then show ?thesis using k(2) by (simp add: matches_def)
qed

text \<open>Binding keys that are bound. \<open>do_global_set_key\<close> puts its binding behind all others. If the keys already
  begin a binding in a window's mode, then they and every beginning of them find the same binding as
  before: the new one is without effect.\<close>

theorem global_set_key_ignored:
  assumes "do_global_set_key t keystr name = Some t'" "parse_keys (Suc (length keystr)) [] keystr = Some keys"
    "find_key t m keys \<noteq> None"
  shows "find_key t' m (take n keys) = find_key t m (take n keys)"
proof -
  obtain kd where kd: "kd \<in> set (first_key t)" "matches keys kd" "mode_active m kd"
    using assms(3) by (auto simp: find_key_eq find_None_iff)
  then have "List.find (\<lambda>kd. matches (take n keys) kd \<and> mode_active m kd) (first_key t) \<noteq> None"
    using matches_take [of keys kd n] by (auto simp: find_None_iff)
  then show ?thesis
    using assms(1,2)
    by (auto simp: do_global_set_key_def qe_register_binding1_def find_key_eq find_append
        split: option.splits)
qed

theorem global_set_key_ignored_witness:
  "\<exists>t'. do_global_set_key \<lparr>first_mode = [],
        first_cmd = [\<lparr>cmd_key = 24, cmd_alt_key = KEY_NONE, cmd_name = ''a'', cmd_args = [], cmd_func = ''f'', cmd_val = Val_Int 0\<rparr>,
          \<lparr>cmd_key = KEY_NONE, cmd_alt_key = KEY_NONE, cmd_name = ''b'', cmd_args = [], cmd_func = ''g'', cmd_val = Val_Int 0\<rparr>],
        first_key = [\<lparr>kd_keys = [24], kd_cmd = 0, kd_mode = None\<rparr>]\<rparr> ''C-x'' ''b'' = Some t' \<and>
     length (first_key t') = 2 \<and>
     find_key t' 0 [24] = Some \<lparr>kd_keys = [24], kd_cmd = 0, kd_mode = None\<rparr>"
proof -
  let ?t = "\<lparr>first_mode = [],
        first_cmd = [\<lparr>cmd_key = 24, cmd_alt_key = KEY_NONE, cmd_name = ''a'', cmd_args = [], cmd_func = ''f'', cmd_val = Val_Int 0\<rparr>,
          \<lparr>cmd_key = KEY_NONE, cmd_alt_key = KEY_NONE, cmd_name = ''b'', cmd_args = [], cmd_func = ''g'', cmd_val = Val_Int 0\<rparr>],
        first_key = [\<lparr>kd_keys = [24], kd_cmd = 0, kd_mode = None\<rparr>]\<rparr>"
  have keys: "parse_keys (Suc (length ''C-x'')) [] ''C-x'' = Some [24]" by code_simp
  then obtain t' where t': "do_global_set_key ?t ''C-x'' ''b'' = Some t'"
    by (simp add: do_global_set_key_def del: parse_keys.simps)
  have "length (first_key t') = 2"
    using t' keys by (simp add: do_global_set_key_def qe_find_cmd_def qe_register_binding1_def del: parse_keys.simps)
      auto
  moreover have f: "find_key ?t 0 [24] = Some \<lparr>kd_keys = [24], kd_cmd = 0, kd_mode = None\<rparr>"
    by (simp add: find_key_def mode_active_def)
  moreover have "find_key t' 0 (take 1 [24]) = find_key ?t 0 (take 1 [24])"
    by (rule global_set_key_ignored [OF t' keys]) (simp add: f)
  ultimately show ?thesis using t' by simp
qed

section \<open>Arguments\<close>

fun type_char :: "ArgType \<Rightarrow> char" where
  "type_char CMD_ARG_INTVAL = CHR ''v''"
| "type_char CMD_ARG_INT = CHR ''i''"
| "type_char CMD_ARG_STRING = CHR ''s''"
| "type_char CMD_ARG_STRINGVAL = CHR ''S''"
| "type_char CMD_ARG_WINDOW = CHR ''?''"

fun arg_values :: "CmdVal \<Rightarrow> int \<Rightarrow> ArgType list \<Rightarrow> ArgValue list" where
  "arg_values val n [] = []"
| "arg_values val n (ty # tys) =
     arg_value val n ty # arg_values val (if ty = CMD_ARG_INT then NO_ARG else n) tys"

lemma get_param_types:
  assumes "set tys \<subseteq> {CMD_ARG_INT, CMD_ARG_INTVAL, CMD_ARG_STRING, CMD_ARG_STRINGVAL}" "c \<in> set ''{[|''"
  shows "get_param (map type_char tys) n c c' = ([], map type_char tys)"
  using assms by (cases tys) (auto simp: get_param_def)

lemma parse_arg_types:
  assumes "set (ty # tys) \<subseteq> {CMD_ARG_INT, CMD_ARG_INTVAL, CMD_ARG_STRING, CMD_ARG_STRINGVAL}"
  shows "parse_arg (map type_char (ty # tys)) = Arg_Parsed ty [] [] [] (map type_char tys)"
  using assms get_param_types [of tys] by (cases ty) (auto simp: parse_arg_def)

declare parse_loop.simps [simp del]

lemma parse_loop_types:
  assumes "set tys \<subseteq> {CMD_ARG_INT, CMD_ARG_INTVAL, CMD_ARG_STRING, CMD_ARG_STRINGVAL}"
    "es_ptype es = map type_char tys" "length (es_args es) + length tys \<le> MAX_CMD_ARGS"
  shows "\<exists>es'. parse_loop val es = Parse_Ready es' \<and> es_s es' = es_s es \<and>
    map snd (es_args es') = map snd (es_args es) @ arg_values val (es_argval es) tys \<and>
    es_argval es' = (if CMD_ARG_INT \<in> set tys then NO_ARG else es_argval es)"
  using assms
proof (induction tys arbitrary: es)
  case Nil
  then show ?case by (simp add: parse_loop.simps parse_arg_def)
next
  case (Cons ty tys)
  define es1 where "es1 = es\<lparr>es_ptype := map type_char tys,
    es_args := es_args es @ [(ty, arg_value val (es_argval es) ty)],
    es_argval := if ty = CMD_ARG_INT then NO_ARG else es_argval es\<rparr>"
  have "parse_loop val es = parse_loop val es1"
    using Cons.prems(2,3) parse_arg_types [OF Cons.prems(1)]
    by (subst parse_loop.simps) (simp add: es1_def)
  moreover have "\<exists>es'. parse_loop val es1 = Parse_Ready es' \<and> es_s es' = es_s es1 \<and>
    map snd (es_args es') = map snd (es_args es1) @ arg_values val (es_argval es1) tys \<and>
    es_argval es' = (if CMD_ARG_INT \<in> set tys then NO_ARG else es_argval es1)"
    using Cons.prems by (intro Cons.IH) (simp_all add: es1_def)
  ultimately show ?case by (auto simp: es1_def)
qed

text \<open>Executing a command. A command with at most four arguments, none of which has a prompt, is called
  at once: with the window, its own value for the arguments of kind v and S, and the numeric
  argument for the first of kind i. Only if there is no such one is the number a count of
  repetitions, if it is more than 1.\<close>

theorem exec_command_args:
  assumes "set tys \<subseteq> {CMD_ARG_INT, CMD_ARG_INTVAL, CMD_ARG_STRING, CMD_ARG_STRINGVAL}" "length tys \<le> 4"
    "d < length (first_cmd (tables s))" "first_cmd (tables s) ! d = cmd" "cmd_args cmd = map type_char tys"
  shows "exec_command P e d n s =
    map_option (\<lambda>s. s\<lparr>last_cmd_func := cmd_func cmd\<rparr>)
      (repeat_command P (if CMD_ARG_INT \<in> set tys then 1 else rep_count n) (cmd_func cmd) e
        (Arg_Window e # arg_values (cmd_val cmd) n tys) s)"
proof -
  let ?es = "\<lparr>es_s = e, es_d = d, es_argval = n, es_ptype = map type_char tys,
    es_args = [(CMD_ARG_WINDOW, Arg_Window e)], default_input = []\<rparr>"
  obtain es' where "parse_loop (cmd_val cmd) ?es = Parse_Ready es'" "es_s es' = e"
    "map snd (es_args es') = Arg_Window e # arg_values (cmd_val cmd) n tys"
    "es_argval es' = (if CMD_ARG_INT \<in> set tys then NO_ARG else n)"
    using parse_loop_types [OF assms(1), of ?es "cmd_val cmd"] assms(2) by (auto simp: MAX_CMD_ARGS_def)
  then show ?thesis
    using assms(3-5) by (simp add: exec_command_def parse_args_def rep_count_def map_conv_bind_option comp_def Let_def)
qed

section \<open>Universal arguments\<close>

definition next_buf :: "string \<Rightarrow> string \<Rightarrow> string" where
  "next_buf buf nm = (if buf \<noteq> [] then butlast buf @ '' '' else []) @ nm @ ''-''"

lemma length_next_buf [simp]: "length (next_buf buf nm) = length buf + length nm + 1"
  by (cases buf) (simp_all add: next_buf_def)

lemma set_next_buf: "CHR ''%'' \<notin> set buf \<Longrightarrow> CHR ''%'' \<notin> set nm \<Longrightarrow> CHR ''%'' \<notin> set (next_buf buf nm)"
  by (auto simp: next_buf_def dest: in_set_butlastD)

lemma show_key_result:
  assumes "\<not> w_minibuf (windows s e)" "keytostr 32 key = Some nm"
  shows "show_key e key s =
    (if length (next_buf (ctx_buf (key_ctx s)) nm) < 128 \<and> CHR ''%'' \<notin> set (next_buf (ctx_buf (key_ctx s)) nm)
     then Some (put_status (set_ctx s ((key_ctx s)\<lparr>ctx_buf := next_buf (ctx_buf (key_ctx s)) nm\<rparr>))
       (next_buf (ctx_buf (key_ctx s)) nm)) else None)"
  using assms by (simp add: show_key_def put_status_format_def next_buf_def guard_def Let_def)

definition plain_key_state :: "'a KeyState_scheme \<Rightarrow> bool" where
  "plain_key_state s \<longleftrightarrow> \<not> defining_macro s \<and> \<not> w_minibuf (windows s (active_window s)) \<and>
     grab_key (key_ctx s) = None \<and> ctx_keys (key_ctx s) = [] \<and> \<not> is_escape (key_ctx s) \<and>
     \<not> describe_key (key_ctx s) \<and> CHR ''%'' \<notin> set (ctx_buf (key_ctx s))"

abbreviation lookup :: "'a KeyState_scheme \<Rightarrow> int list \<Rightarrow> KeyDef option" where
  "lookup s keys \<equiv> find_key (tables s) (w_mode (windows s (active_window s))) keys"

text \<open>The state behind the first key of a sequence.\<close>

definition first_typed :: "'a KeyState_scheme \<Rightarrow> int \<Rightarrow> 'a KeyState_scheme" where
  "first_typed s key = set_ctx (put_status s []) ((key_ctx s)\<lparr>ctx_keys := [key]\<rparr>)"

lemma plain_key:
  assumes "plain_key_state s" "key \<noteq> KEY_ESC"
  shows "qe_key_process P key s = lookup_key P (active_window s) key (first_typed s key)"
  using assms
  by (simp add: qe_key_process_def plain_key_state_def ungrabbed_key_def MAX_KEYS_def after_escape_def
      first_typed_def put_status_def Let_def)

lemma first_typed_simps [simp]:
  "tables (first_typed s key) = tables s" "windows (first_typed s key) = windows s"
  "key_ctx (first_typed s key) = (key_ctx s)\<lparr>ctx_keys := [key]\<rparr>"
  by (simp_all add: first_typed_def set_ctx_def put_status_def)

lemma put_status_simps [simp]:
  "tables (put_status s x) = tables s" "windows (put_status s x) = windows s"
  "active_window (put_status s x) = active_window s" "key_ctx (put_status s x) = key_ctx s"
  "defining_macro (put_status s x) = defining_macro s"
  by (simp_all add: put_status_def)

lemma set_ctx_simps [simp]:
  "tables (set_ctx s c) = tables s" "windows (set_ctx s c) = windows s"
  "active_window (set_ctx s c) = active_window s" "key_ctx (set_ctx s c) = c"
  "defining_macro (set_ctx s c) = defining_macro s"
  by (simp_all add: set_ctx_def)

lemma set_ctx_first_typed: "set_ctx (first_typed s key) c = set_ctx (put_status s []) c"
  by (simp add: first_typed_def set_ctx_def put_status_def)

lemma overwrite [simp]:
  "put_status (set_ctx (put_status s x) c) y = put_status (set_ctx s c) y"
  "put_status (put_status s x) y = put_status s y"
  "set_ctx (set_ctx s c) c' = set_ctx s c'"
  "set_ctx (put_status (set_ctx s c) x) c' = set_ctx (put_status s x) c'"
  by (simp_all add: set_ctx_def put_status_def)

lemma digit_name: "48 \<le> d \<Longrightarrow> d \<le> 57 \<Longrightarrow> keytostr 32 d = Some [char_of (nat d)]"
proof -
  assume "48 \<le> d" "d \<le> 57"
  then have "d \<in> set [48..57]" unfolding set_upto by simp
  moreover have "\<forall>d \<in> set [48..57]. keytostr 32 d = Some [char_of (nat d)]" by code_simp
  ultimately show ?thesis by blast
qed

lemma key_names:
  "keytostr 32 21 = Some ''C-u''" "keytostr 32 45 = Some ''-''" "keytostr 32 24 = Some ''C-x''"
  "keytostr 32 37 = Some ''%''" "keytostr 32 KEY_ESC = Some ''ESC''"
  by code_simp+

lemma digit_not_percent: "48 \<le> d \<Longrightarrow> d \<le> 57 \<Longrightarrow> char_of (nat d) \<noteq> CHR ''%''"
proof -
  assume "48 \<le> d" "d \<le> 57"
  then have "d \<in> set [48..57]" unfolding set_upto by simp
  moreover have "\<forall>d \<in> set [48..57]. (char_of (nat d) :: char) \<noteq> CHR ''%''" by code_simp
  ultimately show ?thesis by blast
qed

text \<open>A digit of an argument.\<close>

definition arg_so_far :: "QEKeyContext \<Rightarrow> int" where
  "arg_so_far c = (if argval c = NO_ARG then 0 else argval c)"

lemma type_digit:
  assumes "plain_key_state s" "is_universal_arg (key_ctx s)" "48 \<le> d" "d \<le> 57" "lookup s [d] = None"
  shows "qe_key_process P d s =
    (if int_ok (arg_so_far (key_ctx s) * 10 + (d - 48)) \<and> length (ctx_buf (key_ctx s)) + 2 < 128
     then let buf = next_buf (ctx_buf (key_ctx s)) [char_of (nat d)] in
       Some (put_status (set_ctx s ((key_ctx s)\<lparr>argval := arg_so_far (key_ctx s) * 10 + (d - 48), ctx_buf := buf\<rparr>)) buf)
     else None)"
proof -
  have d: "d \<noteq> KEY_ESC" "\<not> KEY_SPECIAL d" using assms(3,4) by (auto simp: KEY_ESC_def KEY_SPECIAL_def)
  have nb: "CHR ''%'' \<notin> set (next_buf (ctx_buf (key_ctx s)) [char_of (nat d)])"
    using assms(1) digit_not_percent [OF assms(3,4)]
    by (intro set_next_buf) (auto simp: plain_key_state_def)
  have c: "(key_ctx s)\<lparr>argval := v, ctx_keys := []\<rparr> = (key_ctx s)\<lparr>argval := v\<rparr>" for v
    using assms(1) by (cases "key_ctx s") (simp add: plain_key_state_def)
  have w: "\<not> w_minibuf (windows s (active_window s))" using assms(1) by (simp add: plain_key_state_def)
  have "qe_key_process P d s = single_key P (active_window s) d (first_typed s d)"
    using assms(5) d by (simp add: plain_key [OF assms(1)] lookup_key_def)
  also have "\<dots> = guard (int_ok (arg_so_far (key_ctx s) * 10 + (d - 48))) \<bind>
      (\<lambda>_. show_key (active_window s) d (set_ctx (put_status s [])
        ((key_ctx s)\<lparr>argval := arg_so_far (key_ctx s) * 10 + (d - 48)\<rparr>)))"
    using assms(2-4) c
    by (simp add: single_key_def arg_so_far_def set_ctx_first_typed Let_def del: overwrite)
  finally show ?thesis
    using nb w by (simp add: show_key_result [OF _ digit_name [OF assms(3,4)]] guard_def Let_def)
qed

text \<open>A state in which an argument is being typed.\<close>

definition arg_ctx :: "QEKeyContext \<Rightarrow> int \<Rightarrow> int \<Rightarrow> int \<Rightarrow> string \<Rightarrow> QEKeyContext" where
  "arg_ctx c na v sg buf = c\<lparr>is_universal_arg := True, noargval := na, argval := v, sign := sg, ctx_buf := buf\<rparr>"

lemma arg_ctx_fields [simp]:
  "is_universal_arg (arg_ctx c na v sg buf)" "noargval (arg_ctx c na v sg buf) = na"
  "argval (arg_ctx c na v sg buf) = v" "sign (arg_ctx c na v sg buf) = sg" "ctx_buf (arg_ctx c na v sg buf) = buf"
  "ctx_keys (arg_ctx c na v sg buf) = ctx_keys c" "grab_key (arg_ctx c na v sg buf) = grab_key c"
  "is_escape (arg_ctx c na v sg buf) = is_escape c" "describe_key (arg_ctx c na v sg buf) = describe_key c"
  by (simp_all add: arg_ctx_def)

lemma arg_ctx_updates [simp]:
  "(arg_ctx c na v sg buf)\<lparr>is_universal_arg := True\<rparr> = arg_ctx c na v sg buf"
  "(arg_ctx c na v sg buf)\<lparr>noargval := na'\<rparr> = arg_ctx c na' v sg buf"
  "(arg_ctx c na v sg buf)\<lparr>argval := v'\<rparr> = arg_ctx c na v' sg buf"
  "(arg_ctx c na v sg buf)\<lparr>sign := sg'\<rparr> = arg_ctx c na v sg' buf"
  "(arg_ctx c na v sg buf)\<lparr>ctx_buf := buf'\<rparr> = arg_ctx c na v sg buf'"
  "ctx_keys c = [] \<Longrightarrow> (arg_ctx c na v sg buf)\<lparr>ctx_keys := []\<rparr> = arg_ctx c na v sg buf"
  "arg_ctx (arg_ctx c na v sg buf) na' v' sg' buf' = arg_ctx c na' v' sg' buf'"
  by (cases c; simp add: arg_ctx_def)+

definition arg_typed :: "'a KeyState_scheme \<Rightarrow> int \<Rightarrow> int \<Rightarrow> int \<Rightarrow> string \<Rightarrow> 'a KeyState_scheme" where
  "arg_typed s na v sg buf = put_status (set_ctx s (arg_ctx (key_ctx s) na v sg buf)) buf"

lemma arg_typed_simps [simp]:
  "tables (arg_typed s na v sg buf) = tables s" "windows (arg_typed s na v sg buf) = windows s"
  "active_window (arg_typed s na v sg buf) = active_window s"
  "key_ctx (arg_typed s na v sg buf) = arg_ctx (key_ctx s) na v sg buf"
  by (simp_all add: arg_typed_def)

lemma arg_typed_plain:
  "plain_key_state s \<Longrightarrow> CHR ''%'' \<notin> set buf \<Longrightarrow> plain_key_state (arg_typed s na v sg buf)"
  by (simp add: plain_key_state_def arg_typed_def)

lemma arg_typed_update:
  "put_status (set_ctx (arg_typed s na v sg buf) (arg_ctx (key_ctx s) na' v' sg' buf')) buf' =
     arg_typed s na' v' sg' buf'"
  by (simp add: arg_typed_def)

definition unbound_digits :: "'a KeyState_scheme \<Rightarrow> bool" where
  "unbound_digits s \<longleftrightarrow> (\<forall>k \<in> insert 45 {48..57}. lookup s [k] = None)"

definition universal_bound :: "'a KeyState_scheme \<Rightarrow> bool" where
  "universal_bound s \<longleftrightarrow> (\<exists>kd. lookup s [21] = Some kd \<and> kd_keys kd = [21] \<and>
     kd_cmd kd < length (first_cmd (tables s)) \<and>
     cmd_func (first_cmd (tables s) ! kd_cmd kd) = ''do_universal_argument'')"

lemma digit_arg_typed:
  assumes "plain_key_state s" "unbound_digits s" "48 \<le> d" "d \<le> 57" "CHR ''%'' \<notin> set buf"
  shows "qe_key_process P d (arg_typed s na v sg buf) =
    (if int_ok ((if v = NO_ARG then 0 else v) * 10 + (d - 48)) \<and> length buf + 2 < 128
     then Some (arg_typed s na ((if v = NO_ARG then 0 else v) * 10 + (d - 48)) sg (next_buf buf [char_of (nat d)]))
     else None)"
proof -
  have "lookup (arg_typed s na v sg buf) [d] = None"
    using assms(2-4) by (simp add: unbound_digits_def)
  then show ?thesis
    using type_digit [OF arg_typed_plain [OF assms(1,5)], of na v sg d P] assms(3,4)
    by (simp add: arg_so_far_def arg_typed_update Let_def)
qed

lemma minus_typed:
  assumes "plain_key_state s" "unbound_digits s" "CHR ''%'' \<notin> set buf" "length buf + 2 < 128"
  shows "qe_key_process P 45 (arg_typed s na v sg buf) = Some (arg_typed s na v (- sg) (next_buf buf ''-''))"
proof -
  let ?s = "arg_typed s na v sg buf"
  have l: "lookup ?s [45] = None" using assms(2) by (simp add: unbound_digits_def)
  have nb: "CHR ''%'' \<notin> set (next_buf buf ''-'')" by (rule set_next_buf) (use assms(3) in auto)
  have w: "\<not> w_minibuf (windows s (active_window s))" "ctx_keys (key_ctx s) = []"
    using assms(1) by (simp_all add: plain_key_state_def)
  have keys: "(arg_ctx c na v sg buf)\<lparr>ctx_keys := ks, sign := sg', ctx_keys := []\<rparr> = arg_ctx c na v sg' buf"
    if "ctx_keys c = []" for c ks sg'
    using that by (cases c) (simp add: arg_ctx_def)
  have "qe_key_process P 45 ?s = single_key P (active_window s) 45 (first_typed ?s 45)"
    using l plain_key [OF arg_typed_plain [OF assms(1,3)], of 45 P na v sg]
    by (simp add: lookup_key_def KEY_ESC_def KEY_SPECIAL_def)
  also have "\<dots> = show_key (active_window s) 45 (set_ctx (put_status ?s []) (arg_ctx (key_ctx s) na v (- sg) buf))"
    by (simp add: keys [OF w(2)] single_key_def set_ctx_first_typed Let_def del: overwrite)
  finally show ?thesis
    using nb w assms(4) by (simp add: show_key_result [OF _ key_names(2)] arg_typed_update)
qed

lemma universal_typed:
  assumes "plain_key_state s" "universal_bound s" "length (ctx_buf (key_ctx s)) + 4 < 128"
    "int_ok (noargval (key_ctx s) * 4)"
  shows "qe_key_process P 21 s = Some (arg_typed s (noargval (key_ctx s) * 4) (argval (key_ctx s))
    (sign (key_ctx s)) (next_buf (ctx_buf (key_ctx s)) ''C-u''))"
proof -
  obtain kd where kd: "lookup s [21] = Some kd" "kd_keys kd = [21]" "kd_cmd kd < length (first_cmd (tables s))"
    "cmd_func (first_cmd (tables s) ! kd_cmd kd) = ''do_universal_argument''"
    using assms(2) by (auto simp: universal_bound_def)
  have d: "\<not> describe_key (key_ctx s)" "ctx_keys (key_ctx s) = []" and
    w: "\<not> w_minibuf (windows s (active_window s))"
    using assms(1) by (simp_all add: plain_key_state_def)
  have nb: "CHR ''%'' \<notin> set (next_buf (ctx_buf (key_ctx s)) ''C-u'')"
    using assms(1) by (intro set_next_buf) (auto simp: plain_key_state_def)
  let ?c = "arg_ctx (key_ctx s) (noargval (key_ctx s) * 4) (argval (key_ctx s)) (sign (key_ctx s)) (ctx_buf (key_ctx s))"
  have c: "c\<lparr>is_universal_arg := True, noargval := n, ctx_keys := []\<rparr> =
      arg_ctx c n (argval c) (sign c) (ctx_buf c)" if "ctx_keys c = []" for c n
    using that by (cases c) (simp add: arg_ctx_def)
  have "qe_key_process P 21 s = exec_key P (active_window s) 21 (kd_cmd kd) (first_typed s 21)"
    using kd by (simp add: plain_key [OF assms(1)] lookup_key_def KEY_ESC_def)
  also have "\<dots> = show_key (active_window s) 21 (set_ctx (put_status s []) ?c)"
    using kd(3,4) d assms(4)
    by (simp add: c [OF d(2)] exec_key_def set_ctx_first_typed Let_def del: overwrite)
  finally show ?thesis
    using nb w assms(3) by (simp add: show_key_result [OF _ key_names(1)] arg_typed_def)
qed

lemma bind_no_more [simp]:
  "x \<bind> type_keys P [] = x" "x \<bind> repeat_command P 0 f e args = x"
  by (cases x; simp)+

lemma type_keys_append: "type_keys P (xs @ ys) s = type_keys P xs s \<bind> type_keys P ys"
  by (induction xs arbitrary: s) (auto split: Option.bind_split)

lemma zero_char: "(char_of (48 :: nat) :: char) = CHR ''0''"
  by code_simp

lemma zeros_typed:
  assumes "plain_key_state s" "unbound_digits s" "v = NO_ARG \<or> v = 0" "CHR ''%'' \<notin> set buf" "length buf < 128"
  shows "type_keys P (replicate n 48) (arg_typed s na v sg buf) = None \<longleftrightarrow> length buf + 2 * n \<ge> 128"
  using assms(3-5)
proof (induction n arbitrary: v buf)
  case (Suc n)
  have step: "qe_key_process P 48 (arg_typed s na v sg buf) =
    (if length buf + 2 < 128 then Some (arg_typed s na 0 sg (next_buf buf ''0'')) else None)"
    using digit_arg_typed [OF assms(1,2) _ _ Suc.prems(2), of 48 P na v sg] Suc.prems(1)
    by (auto simp: int_ok_def zero_char)
  have nb: "CHR ''%'' \<notin> set (next_buf buf ''0'')" by (rule set_next_buf) (use Suc.prems(2) in auto)
  show ?case
    using step Suc.IH [OF _ nb, of 0] by auto
qed simp

text \<open>The line of typed keys overflows. The names of the keys of an unfinished command are put together in an
  array of 128 bytes without a check. A universal argument may have any number of digits: with 62 zeros
  or more behind C-u, and no fewer, the keys are written behind the array.\<close>

theorem argument_overflows:
  assumes "plain_key_state s" "universal_bound s" "unbound_digits s" "ctx_buf (key_ctx s) = []"
    "noargval (key_ctx s) = 1" "argval (key_ctx s) = NO_ARG"
  shows "type_keys P (21 # replicate n 48) s = None \<longleftrightarrow> 62 \<le> n"
proof -
  have "qe_key_process P 21 s = Some (arg_typed s 4 NO_ARG (sign (key_ctx s)) ''C-u-'')"
    using universal_typed [OF assms(1,2), of P] assms(4-6) by (simp add: int_ok_def next_buf_def)
  then show ?thesis
    using zeros_typed [OF assms(1,3), of NO_ARG "''C-u-''" P n 4 "sign (key_ctx s)"] by auto
qed

lemma digits_typed:
  assumes "plain_key_state s" "unbound_digits s" "\<forall>d \<in> set ds. 48 \<le> d \<and> d \<le> 57" "CHR ''%'' \<notin> set buf"
    "length buf + 2 * length ds < 128" "0 \<le> v" "foldl (\<lambda>n d. n * 10 + (d - 48)) v ds < NO_ARG"
  shows "\<exists>buf'. type_keys P ds (arg_typed s na v sg buf) =
      Some (arg_typed s na (foldl (\<lambda>n d. n * 10 + (d - 48)) v ds) sg buf') \<and> CHR ''%'' \<notin> set buf' \<and>
    length buf' = length buf + 2 * length ds"
  using assms(3-7)
proof (induction ds arbitrary: v buf)
  case Nil
  then show ?case by (intro exI [of _ buf]) simp
next
  case (Cons d ds)
  let ?v = "v * 10 + (d - 48)"
  have up: "n \<le> foldl (\<lambda>n d. n * 10 + (d - 48)) n ds" if "0 \<le> n" "\<forall>d \<in> set ds. 48 \<le> d" for n :: int and ds
    using that
  proof (induction ds arbitrary: n)
    case (Cons d ds)
    from Cons.IH [of "n * 10 + (d - 48)"] Cons.prems show ?case by simp
  qed simp
  have v: "?v < NO_ARG" "v \<noteq> NO_ARG" "0 \<le> ?v"
    using up [of ?v ds] Cons.prems by auto
  have nb: "CHR ''%'' \<notin> set (next_buf buf [char_of (nat d)])"
    using Cons.prems(1,2) digit_not_percent [of d] by (intro set_next_buf) auto
  have "qe_key_process P d (arg_typed s na v sg buf) = Some (arg_typed s na ?v sg (next_buf buf [char_of (nat d)]))"
    using digit_arg_typed [OF assms(1,2) _ _ Cons.prems(2), of d P na v sg] Cons.prems(1,3) v
    by (simp add: int_ok_def NO_ARG_def)
  moreover have "\<exists>buf'. type_keys P ds (arg_typed s na ?v sg (next_buf buf [char_of (nat d)])) =
      Some (arg_typed s na (foldl (\<lambda>n d. n * 10 + (d - 48)) ?v ds) sg buf') \<and> CHR ''%'' \<notin> set buf' \<and>
    length buf' = length (next_buf buf [char_of (nat d)]) + 2 * length ds"
    using Cons.prems nb v(3) by (intro Cons.IH) auto
  ultimately show ?case by auto
qed

lemma repeated_universal:
  assumes "plain_key_state s" "universal_bound s" "ctx_buf (key_ctx s) = []" "noargval (key_ctx s) = 1"
    "argval (key_ctx s) = NO_ARG" "sign (key_ctx s) = 1" "j < 15"
  shows "\<exists>buf. type_keys P (replicate (Suc j) 21) s = Some (arg_typed s (4 ^ Suc j) NO_ARG 1 buf) \<and>
    CHR ''%'' \<notin> set buf \<and> length buf = 4 * Suc j"
  using assms(7)
proof (induction j)
  case 0
  show ?case
    using universal_typed [OF assms(1,2), of P] assms(3-6)
    by (intro exI [of _ "''C-u-''"]) (simp add: int_ok_def next_buf_def)
next
  case (Suc j)
  then obtain buf where buf: "type_keys P (replicate (Suc j) 21) s = Some (arg_typed s (4 ^ Suc j) NO_ARG 1 buf)"
    "CHR ''%'' \<notin> set buf" "length buf = 4 * Suc j" by auto
  have "universal_bound (arg_typed s (4 ^ Suc j) NO_ARG 1 buf)" using assms(2) by (simp add: universal_bound_def)
  moreover have "(4 :: int) ^ Suc (Suc j) \<le> 4 ^ 15"
    by (rule power_increasing) (use Suc.prems in auto)
  then have "int_ok (4 ^ Suc j * 4)" by (simp add: int_ok_def) (smt (verit) zero_less_power)
  ultimately have "qe_key_process P 21 (arg_typed s (4 ^ Suc j) NO_ARG 1 buf) =
      Some (arg_typed s (4 ^ Suc (Suc j)) NO_ARG 1 (next_buf buf ''C-u''))"
    using universal_typed [OF arg_typed_plain [OF assms(1) buf(2)], of "4 ^ Suc j" NO_ARG 1 P] buf(3) Suc.prems
    by (simp add: arg_typed_def mult.commute)
  moreover have "CHR ''%'' \<notin> set (next_buf buf ''C-u'')" by (rule set_next_buf) (use buf(2) in auto)
  moreover have "replicate (Suc (Suc j)) (21 :: int) = replicate (Suc j) 21 @ [21]"
    by (metis replicate_Suc replicate_append_same)
  ultimately show ?case
    using buf(1,3) by (intro exI [of _ "next_buf buf ''C-u''"]) (simp add: type_keys_append del: replicate.simps)
qed

definition number :: "int list \<Rightarrow> int" where
  "number ds = foldl (\<lambda>n d. n * 10 + (d - 48)) 0 ds"

text \<open>What the keys of an argument stand for: a number, or a power of 4 if there are no digits.\<close>

definition typed_argument :: "nat \<Rightarrow> bool \<Rightarrow> int list \<Rightarrow> int" where
  "typed_argument j neg ds = (if ds = [] then 4 ^ Suc j else if neg then - number ds else number ds)"

text \<open>C22. Universal arguments. After C-u once or several times, perhaps a minus, and digits, a key that is bound to
  a command executes that command with the number as its argument, negative behind a minus;
  without digits the argument is 4 to the number of C-u keys, and a minus is ignored. Afterwards
  the argument is reset. This holds for numbers below the largest integer and as long as the
  names of the keys fit into the line.\<close>

theorem universal_argument:
  assumes "plain_key_state s" "universal_bound s" "unbound_digits s" "ctx_buf (key_ctx s) = []"
    "noargval (key_ctx s) = 1" "argval (key_ctx s) = NO_ARG" "sign (key_ctx s) = 1"
    "j < 15" "\<forall>d \<in> set ds. 48 \<le> d \<and> d \<le> 57" "number ds < NO_ARG" "4 * Suc j + 2 + 2 * length ds < 128"
    "lookup s [k] = Some kd" "kd_keys kd = [k]" "k \<noteq> KEY_ESC" "kd_cmd kd < length (first_cmd (tables s))"
    "cmd_func (first_cmd (tables s) ! kd_cmd kd) \<noteq> ''do_universal_argument''"
  shows "\<exists>s1. type_keys P (replicate (Suc j) 21 @ (if neg then [45] else []) @ ds @ [k]) s =
      map_option (\<lambda>s2. set_ctx s2 (qe_key_init (key_ctx s2)))
        (exec_command P (active_window s) (kd_cmd kd) (typed_argument j neg ds) s1) \<and>
    (\<exists>st c. s1 = set_ctx (s\<lparr>status_shadow := st\<rparr>) c \<and> argval c = typed_argument j neg ds)"
proof -
  obtain buf where buf: "type_keys P (replicate (Suc j) 21) s = Some (arg_typed s (4 ^ Suc j) NO_ARG 1 buf)"
    "CHR ''%'' \<notin> set buf" "length buf = 4 * Suc j"
    using repeated_universal [OF assms(1,2,4,5,6,7,8)] by metis
  define sg :: int where "sg = (if neg then -1 else 1)"
  obtain buf1 where buf1: "type_keys P (if neg then [45] else []) (arg_typed s (4 ^ Suc j) NO_ARG 1 buf) =
      Some (arg_typed s (4 ^ Suc j) NO_ARG sg buf1)" "CHR ''%'' \<notin> set buf1" "length buf1 \<le> 4 * Suc j + 2"
  proof (cases neg)
    case True
    have "CHR ''%'' \<notin> set (next_buf buf ''-'')" by (rule set_next_buf) (use buf(2) in auto)
    then show ?thesis
      using that [of "next_buf buf ''-''"] minus_typed [OF assms(1,3) buf(2), of P "4 ^ Suc j" NO_ARG 1] buf(3)
        assms(11) True by (simp add: sg_def)
  next
    case False
    then show ?thesis using that [of buf] buf(2,3) by (simp add: sg_def)
  qed
  define v where "v = (if ds = [] then NO_ARG else number ds)"
  obtain buf2 where buf2: "type_keys P ds (arg_typed s (4 ^ Suc j) NO_ARG sg buf1) =
      Some (arg_typed s (4 ^ Suc j) v sg buf2)" "CHR ''%'' \<notin> set buf2"
  proof (cases ds)
    case Nil
    then show ?thesis using that [of buf1] buf1(2) by (simp add: v_def)
  next
    case (Cons d ds')
    have "CHR ''%'' \<notin> set (next_buf buf1 [char_of (nat d)])"
      using buf1(2) digit_not_percent [of d] assms(9) Cons by (intro set_next_buf) auto
    moreover have "qe_key_process P d (arg_typed s (4 ^ Suc j) NO_ARG sg buf1) =
        Some (arg_typed s (4 ^ Suc j) (d - 48) sg (next_buf buf1 [char_of (nat d)]))"
      using digit_arg_typed [OF assms(1,3) _ _ buf1(2), of d P "4 ^ Suc j" NO_ARG sg] assms(9,11) buf1(3) Cons
      by (simp add: int_ok_def)
    ultimately show ?thesis
      using digits_typed [OF assms(1,3), of ds' "next_buf buf1 [char_of (nat d)]" "d - 48" P "4 ^ Suc j" sg]
        that assms(9,10,11) buf1(3) Cons by (auto simp: v_def number_def)
  qed
  let ?s = "arg_typed s (4 ^ Suc j) v sg buf2"
  have "number ds \<noteq> NO_ARG" using assms(10) by simp
  then have fin: "final_argval ((arg_ctx c (4 ^ Suc j) v sg buf2)\<lparr>ctx_keys := [k]\<rparr>) = typed_argument j neg ds" for c
    by (auto simp: final_argval_def arg_ctx_def v_def sg_def typed_argument_def)
  have d: "\<not> describe_key (key_ctx s)" using assms(1) by (simp add: plain_key_state_def)
  define c where "c = ((arg_ctx (key_ctx s) (4 ^ Suc j) v sg buf2)\<lparr>ctx_keys := [k], argval := typed_argument j neg ds\<rparr>)"
  define s1 where "s1 = set_ctx (put_status s []) c"
  have "qe_key_process P k ?s = exec_key P (active_window s) k (kd_cmd kd) (first_typed ?s k)"
    using assms(12,13) by (simp add: plain_key [OF arg_typed_plain [OF assms(1) buf2(2)] assms(14)] lookup_key_def)
  also have "\<dots> = map_option (\<lambda>s2. set_ctx s2 (qe_key_init (key_ctx s2)))
      (exec_command P (active_window s) (kd_cmd kd) (typed_argument j neg ds) s1)"
    using assms(15,16) d
    by (simp add: exec_key_def fin set_ctx_first_typed Let_def s1_def c_def arg_typed_def map_conv_bind_option comp_def
        del: power_Suc)
  finally have run: "qe_key_process P k ?s = \<dots>" .
  have "type_keys P (replicate (Suc j) 21 @ (if neg then [45] else []) @ ds @ [k]) s = qe_key_process P k ?s"
    unfolding type_keys_append buf(1) Option.bind.bind_lunit buf1(1) buf2(1) by simp
  moreover have "\<exists>st c. s1 = set_ctx (s\<lparr>status_shadow := st\<rparr>) c \<and> argval c = typed_argument j neg ds"
    by (rule exI [of _ "[]"], rule exI [of _ c]) (simp add: s1_def c_def put_status_def bcpy_def)
  ultimately show ?thesis using run by auto
qed

section \<open>A macro that calls itself\<close>

text \<open>What the steps leave alone, and the keys that are bound as in the default table.\<close>

definition agree :: "'a KeyState_scheme \<Rightarrow> 'a KeyState_scheme \<Rightarrow> bool" where
  "agree s s' \<longleftrightarrow> tables s' = tables s \<and> active_window s' = active_window s \<and>
     w_mode (windows s' (active_window s)) = w_mode (windows s (active_window s)) \<and>
     w_minibuf (windows s' (active_window s)) = w_minibuf (windows s (active_window s)) \<and>
     bottom_halves s' = bottom_halves s \<and> macro_key_index s' = macro_key_index s"

definition ctx_ready :: "int list \<Rightarrow> string \<Rightarrow> 'a KeyState_scheme \<Rightarrow> bool" where
  "ctx_ready keys buf s \<longleftrightarrow> (let c = key_ctx s in grab_key c = None \<and> ctx_keys c = keys \<and> ctx_buf c = buf \<and>
     \<not> is_escape c \<and> \<not> describe_key c \<and> \<not> is_universal_arg c \<and> argval c = NO_ARG) \<and>
     \<not> w_minibuf (windows s (active_window s))"

definition bound_to :: "'a KeyState_scheme \<Rightarrow> int list \<Rightarrow> string \<Rightarrow> bool" where
  "bound_to s keys f \<longleftrightarrow> (\<exists>kd. lookup s keys = Some kd \<and> kd_keys kd = keys \<and>
     kd_cmd kd < length (first_cmd (tables s)) \<and> cmd_func (first_cmd (tables s) ! kd_cmd kd) = f \<and>
     cmd_args (first_cmd (tables s) ! kd_cmd kd) = [])"

definition macro_bindings :: "'a KeyState_scheme \<Rightarrow> bool" where
  "macro_bindings s \<longleftrightarrow> (\<exists>kd. lookup s [24] = Some kd \<and> length (kd_keys kd) > 1) \<and>
     bound_to s [24, 40] ''do_start_macro'' \<and> bound_to s [24, 101] ''do_call_macro''"

definition recorded :: "'a KeyState_scheme \<Rightarrow> int \<Rightarrow> int list" where
  "recorded s key = (if defining_macro s then macro_keys s @ [key AND 0xffff] else macro_keys s)"

lemma macro_bindings_agree: "agree s s' \<Longrightarrow> macro_bindings s' = macro_bindings s"
  by (simp add: macro_bindings_def bound_to_def agree_def)

lemma macro_add_key_simps [simp]:
  "tables (macro_add_key s k) = tables s" "windows (macro_add_key s k) = windows s"
  "active_window (macro_add_key s k) = active_window s" "key_ctx (macro_add_key s k) = key_ctx s"
  "bottom_halves (macro_add_key s k) = bottom_halves s" "defining_macro (macro_add_key s k) = defining_macro s"
  "macro_key_index (macro_add_key s k) = macro_key_index s" "macro_keys (macro_add_key s k) = macro_keys s @ [k AND 0xffff]"
  by (simp_all add: macro_add_key_def Let_def)

lemma more_simps [simp]:
  "bottom_halves (put_status s x) = bottom_halves s" "macro_key_index (put_status s x) = macro_key_index s"
  "macro_keys (put_status s x) = macro_keys s"
  "bottom_halves (set_ctx s c) = bottom_halves s" "macro_key_index (set_ctx s c) = macro_key_index s"
  "macro_keys (set_ctx s c) = macro_keys s"
  by (simp_all add: put_status_def set_ctx_def)

lemma prefix_key:
  assumes "ctx_ready [] [] s" "macro_bindings s"
  shows "\<exists>s'. qe_key_process P 24 s = Some s' \<and> ctx_ready [24] ''C-x-'' s' \<and> agree s s' \<and>
    defining_macro s' = defining_macro s \<and> macro_keys s' = recorded s 24"
proof -
  define s0 where "s0 = (if defining_macro s then macro_add_key s 24 else s)"
  have s0: "key_ctx s0 = key_ctx s" "tables s0 = tables s" "windows s0 = windows s" "active_window s0 = active_window s"
    "bottom_halves s0 = bottom_halves s" "macro_key_index s0 = macro_key_index s" "defining_macro s0 = defining_macro s"
    "macro_keys s0 = recorded s 24"
    by (simp_all add: s0_def recorded_def)
  note ctx = assms(1) [unfolded ctx_ready_def Let_def]
  have "qe_key_process P 24 s = show_key (active_window s) 24
      (set_ctx (put_status s0 []) ((key_ctx s)\<lparr>ctx_keys := [24]\<rparr>))"
    using assms(2) ctx
    by (auto simp: qe_key_process_def ungrabbed_key_def MAX_KEYS_def after_escape_def lookup_key_def s0
        macro_bindings_def KEY_ESC_def Let_def simp flip: s0_def)
  then show ?thesis
    using ctx
    by (simp add: show_key_result [OF _ key_names(3)] s0 agree_def ctx_ready_def next_buf_def)
qed

lemma command_key:
  assumes "ctx_ready [24] ''C-x-'' s" "bound_to s [24, k] f" "f \<noteq> ''do_universal_argument''" "k \<noteq> KEY_ESC"
    "\<And>s. call_cmd P ''save_selection'' [] s = Some s"
  shows "\<exists>s1. qe_key_process P k s =
      map_option (\<lambda>s2. set_ctx (s2\<lparr>last_cmd_func := f\<rparr>) (qe_key_init (key_ctx s2)))
        (call_func P f [Arg_Window (active_window s)] s1) \<and>
    agree s s1 \<and> defining_macro s1 = defining_macro s \<and> macro_keys s1 = recorded s k \<and>
    grab_key (key_ctx s1) = None \<and> \<not> describe_key (key_ctx s1) \<and> \<not> w_minibuf (windows s1 (active_window s1))"
proof -
  define s0 where "s0 = (if defining_macro s then macro_add_key s k else s)"
  have s0: "key_ctx s0 = key_ctx s" "tables s0 = tables s" "windows s0 = windows s" "active_window s0 = active_window s"
    "bottom_halves s0 = bottom_halves s" "macro_key_index s0 = macro_key_index s" "defining_macro s0 = defining_macro s"
    "macro_keys s0 = recorded s k"
    by (simp_all add: s0_def recorded_def)
  note ctx = assms(1) [unfolded ctx_ready_def Let_def]
  obtain kd where kd: "lookup s [24, k] = Some kd" "kd_keys kd = [24, k]" "kd_cmd kd < length (first_cmd (tables s))"
    "cmd_func (first_cmd (tables s) ! kd_cmd kd) = f" "cmd_args (first_cmd (tables s) ! kd_cmd kd) = []"
    using assms(2) by (auto simp: bound_to_def)
  define c where "c = (key_ctx s)\<lparr>ctx_keys := [24, k]\<rparr>"
  define s1 where "s1 = set_ctx (put_status s0 []) c"
  define s2 where "s2 = s1\<lparr>windows := (windows s)(active_window s := reset_window f (windows s (active_window s)))\<rparr>"
  have c: "c\<lparr>argval := final_argval c\<rparr> = c" "argval c = NO_ARG" "\<not> describe_key c"
    using ctx by (simp_all add: c_def final_argval_def)
  have s1: "tables s1 = tables s" "windows s1 = windows s" "key_ctx s1 = c" "set_ctx s1 c = s1"
    by (simp_all add: s1_def s0)
  have "qe_key_process P k s = exec_key P (active_window s) k (kd_cmd kd) s1"
    using kd(1,2) ctx assms(4)
    by (simp add: qe_key_process_def ungrabbed_key_def MAX_KEYS_def after_escape_def lookup_key_def s0 s1_def c_def
        Let_def flip: s0_def)
  also have "\<dots> = exec_command P (active_window s) (kd_cmd kd) NO_ARG s1 \<bind>
      (\<lambda>s. Some (set_ctx s (qe_key_init (key_ctx s))))"
    using kd(3,4) assms(3) c by (simp add: exec_key_def s1 Let_def)
  also have "exec_command P (active_window s) (kd_cmd kd) NO_ARG s1 =
      map_option (\<lambda>s. s\<lparr>last_cmd_func := f\<rparr>) (repeat_command P 1 f (active_window s) [Arg_Window (active_window s)] s1)"
    using exec_command_args [of "[]" "kd_cmd kd" s1 _ P "active_window s" NO_ARG] kd(3-5) s1
    by (simp add: rep_count_def)
  also have "repeat_command P 1 f (active_window s) [Arg_Window (active_window s)] s1 =
      call_func P f [Arg_Window (active_window s)] s2"
    using assms(5) by (simp add: s2_def s1 Let_def)
  finally have "qe_key_process P k s = map_option (\<lambda>s2. set_ctx (s2\<lparr>last_cmd_func := f\<rparr>) (qe_key_init (key_ctx s2)))
        (call_func P f [Arg_Window (active_window s)] s2)"
    by (simp add: Option.bind_map_option map_conv_bind_option comp_def)
  moreover have "agree s s2 \<and> defining_macro s2 = defining_macro s \<and> macro_keys s2 = recorded s k \<and>
    grab_key (key_ctx s2) = None \<and> \<not> describe_key (key_ctx s2) \<and> \<not> w_minibuf (windows s2 (active_window s2))"
    using ctx by (simp add: s2_def s1_def agree_def s0 reset_window_def c_def)
  ultimately show ?thesis by blast
qed

lemma ready_again:
  assumes "agree s s'" "grab_key (key_ctx s') = None" "\<not> describe_key (key_ctx s')"
    "\<not> w_minibuf (windows s' (active_window s'))"
  shows "ctx_ready [] [] (set_ctx (s'\<lparr>last_cmd_func := f\<rparr>) (qe_key_init (key_ctx s')))" (is ?ready)
    and "agree s (set_ctx (s'\<lparr>last_cmd_func := f\<rparr>) (qe_key_init (key_ctx s')))"
  using assms by (simp_all add: ctx_ready_def qe_key_init_def set_ctx_def agree_def)

text \<open>Typing C-x ( while nothing is recorded.\<close>

lemma start_typed:
  assumes "ctx_ready [] [] s" "macro_bindings s" "\<not> defining_macro s"
    "\<And>s. call_cmd P ''save_selection'' [] s = Some s"
  shows "\<exists>s'. type_keys P [24, 40] s = Some s' \<and> ctx_ready [] [] s' \<and> agree s s' \<and> defining_macro s' \<and>
    macro_keys s' = []"
proof -
  obtain s1 where s1: "qe_key_process P 24 s = Some s1" "ctx_ready [24] ''C-x-'' s1" "agree s s1" "\<not> defining_macro s1"
    using prefix_key [OF assms(1,2), of P] assms(3) by auto
  have "bound_to s1 [24, 40] ''do_start_macro''"
    using assms(2) macro_bindings_agree [OF s1(3)] by (simp add: macro_bindings_def)
  then obtain s2 where s2: "qe_key_process P 40 s1 =
      map_option (\<lambda>s2. set_ctx (s2\<lparr>last_cmd_func := ''do_start_macro''\<rparr>) (qe_key_init (key_ctx s2)))
        (call_func P ''do_start_macro'' [Arg_Window (active_window s1)] s2)"
    and a: "agree s1 s2" "\<not> defining_macro s2" "grab_key (key_ctx s2) = None" "\<not> describe_key (key_ctx s2)"
      "\<not> w_minibuf (windows s2 (active_window s2))"
    using command_key [OF s1(2) _ _ _ assms(4), of 40 "''do_start_macro''"] s1(4) by (auto simp: KEY_ESC_def)
  let ?s3 = "do_start_macro s2"
  have "agree s ?s3" using s1(3) a(1,2) by (simp add: agree_def do_start_macro_def put_status_def)
  from ready_again [OF this] a show ?thesis
    by (intro exI [of _ "set_ctx (?s3\<lparr>last_cmd_func := ''do_start_macro''\<rparr>) (qe_key_init (key_ctx ?s3))"])
      (simp add: s1(1) s2 call_func_def do_start_macro_def put_status_def set_ctx_def)
qed

text \<open>Typing C-x e: recording stops, or the bottom half is registered.\<close>

lemma call_typed:
  assumes "ctx_ready [24] ''C-x-'' s" "macro_bindings s" "\<And>s. call_cmd P ''save_selection'' [] s = Some s"
    "macro_keys s \<noteq> []"
  shows "\<exists>s'. qe_key_process P 101 s = Some s' \<and> ctx_ready [] [] s' \<and>
    agree (if defining_macro s then s else s\<lparr>bottom_halves := (''do_call_macro_bh'', 0) # bottom_halves s\<rparr>) s' \<and>
    \<not> defining_macro s' \<and> macro_keys s' = recorded s 101"
proof -
  have "bound_to s [24, 101] ''do_call_macro''" using assms(2) by (simp add: macro_bindings_def)
  then obtain s2 where s2: "qe_key_process P 101 s =
      map_option (\<lambda>s2. set_ctx (s2\<lparr>last_cmd_func := ''do_call_macro''\<rparr>) (qe_key_init (key_ctx s2)))
        (call_func P ''do_call_macro'' [Arg_Window (active_window s)] s2)"
    and a: "agree s s2" "defining_macro s2 = defining_macro s" "macro_keys s2 = recorded s 101"
      "grab_key (key_ctx s2) = None" "\<not> describe_key (key_ctx s2)" "\<not> w_minibuf (windows s2 (active_window s2))"
    using command_key [OF assms(1) _ _ _ assms(3), of 101 "''do_call_macro''"] by (auto simp: KEY_ESC_def)
  let ?s0 = "if defining_macro s then s else s\<lparr>bottom_halves := (''do_call_macro_bh'', 0) # bottom_halves s\<rparr>"
  let ?s3 = "do_call_macro s2"
  have ne: "macro_keys s2 \<noteq> []" using a(3) assms(4) by (simp add: recorded_def)
  have "agree ?s0 ?s3"
    using a(1,2) ne by (simp add: agree_def do_call_macro_def put_status_def register_bottom_half_def)
  from ready_again [OF this] a ne show ?thesis
    by (intro exI [of _ "set_ctx (?s3\<lparr>last_cmd_func := ''do_call_macro''\<rparr>) (qe_key_init (key_ctx ?s3))"])
      (simp add: s2 call_func_def do_call_macro_def put_status_def set_ctx_def register_bottom_half_def)
qed

text \<open>The state in which the macro C-x e is about to be called.\<close>

definition macro_pending :: "'a KeyState_scheme \<Rightarrow> bool" where
  "macro_pending s \<longleftrightarrow> ctx_ready [] [] s \<and> macro_bindings s \<and> \<not> defining_macro s \<and> macro_keys s = [24, 101] \<and>
     bottom_halves s = [(''do_call_macro_bh'', 0)]"

lemma macro_runs_again:
  assumes "macro_pending s" "\<And>s. call_cmd P ''save_selection'' [] s = Some s"
  shows "\<exists>s'. key_callbacks P (last (bottom_halves s)) (s\<lparr>bottom_halves := butlast (bottom_halves s)\<rparr>) = Some s' \<and>
    macro_pending s'"
proof -
  note p = assms(1) [unfolded macro_pending_def]
  define s0 where "s0 = s\<lparr>bottom_halves := [], macro_key_index := 0\<rparr>"
  have s0: "ctx_ready [] [] s0" "macro_bindings s0" "\<not> defining_macro s0" "macro_keys s0 = [24, 101]"
    "macro_key_index s0 = 0" "bottom_halves s0 = []"
    using p by (simp_all add: s0_def ctx_ready_def macro_bindings_def bound_to_def)
  obtain s1 where s1: "qe_key_process P 24 s0 = Some s1" "ctx_ready [24] ''C-x-'' s1" "agree s0 s1" "\<not> defining_macro s1"
    "macro_keys s1 = [24, 101]"
    using prefix_key [OF s0(1,2), of P] s0(3,4) by (auto simp: recorded_def)
  define s2 where "s2 = s1\<lparr>macro_key_index := 1\<rparr>"
  have s2: "ctx_ready [24] ''C-x-'' s2" "macro_bindings s2" "\<not> defining_macro s2" "macro_keys s2 = [24, 101]"
    "bottom_halves s2 = []"
    using s1 s0 macro_bindings_agree [OF s1(3)]
    by (simp_all add: s2_def ctx_ready_def macro_bindings_def bound_to_def agree_def)
  obtain s3 where s3: "qe_key_process P 101 s2 = Some s3" "ctx_ready [] [] s3"
    "agree (s2\<lparr>bottom_halves := [(''do_call_macro_bh'', 0)]\<rparr>) s3" "\<not> defining_macro s3" "macro_keys s3 = [24, 101]"
    using call_typed [OF s2(1,2) assms(2)] s2(3-5) by (auto simp: recorded_def)
  define s4 where "s4 = s3\<lparr>macro_key_index := -1\<rparr>"
  have i3: "macro_key_index s3 = 1" using s3(3) by (simp add: agree_def s2_def)
  have "macro_loop P (s3\<lparr>macro_key_index := 2\<rparr>) = Some (s3\<lparr>macro_key_index := 2\<rparr>)"
    using s3(5) by (subst macro_loop.simps) simp
  then have "macro_loop P s2 = Some (s3\<lparr>macro_key_index := 2\<rparr>)"
    using s2(4) s3(1) i3 by (subst macro_loop.simps) (simp add: s2_def)
  then have "macro_loop P s0 = Some (s3\<lparr>macro_key_index := 2\<rparr>)"
    using s0(4,5) s1(1,3) by (subst macro_loop.simps) (simp add: s2_def agree_def)
  then have "do_call_macro_bh P (s\<lparr>bottom_halves := []\<rparr>) = Some s4"
    by (simp add: do_call_macro_bh_def s0_def s4_def)
  moreover have "macro_pending s4"
  proof -
    have "macro_bindings s4"
      using s2(2) s3(3) by (simp add: s4_def macro_bindings_def bound_to_def agree_def)
    then show ?thesis
      using s3 by (simp add: macro_pending_def s4_def ctx_ready_def agree_def)
  qed
  ultimately show ?thesis using p by (simp add: key_callbacks_def)
qed

lemma macro_never_ends:
  assumes "macro_pending s" "\<And>s. call_cmd P ''save_selection'' [] s = Some s"
  shows "call_bottom_halves (key_callbacks P) s = None"
proof -
  have "call = key_callbacks P \<longrightarrow> \<not> macro_pending s" if "call_bottom_halves call s = Some s'" for call s s'
    using that
  proof (rule call_bottom_halves.raw_induct [rotated])
    fix loop :: "'a KeyState_ext caller \<Rightarrow> 'a KeyState_scheme \<Rightarrow> 'a KeyState_scheme option" and call s s'
    assume IH: "\<And>call s s'. loop call s = Some s' \<Longrightarrow> call = key_callbacks P \<longrightarrow> \<not> macro_pending s"
      and run: "(if bottom_halves s = [] then Some s
        else call (last (bottom_halves s)) (s\<lparr>bottom_halves := butlast (bottom_halves s)\<rparr>) \<bind> loop call) = Some s'"
    show "call = key_callbacks P \<longrightarrow> \<not> macro_pending s"
    proof (intro impI notI)
      assume call: "call = key_callbacks P" and p: "macro_pending s"
      obtain s1 where "key_callbacks P (last (bottom_halves s)) (s\<lparr>bottom_halves := butlast (bottom_halves s)\<rparr>) = Some s1"
        "macro_pending s1"
        using macro_runs_again [OF p assms(2)] by auto
      moreover have "bottom_halves s \<noteq> []" using p by (simp add: macro_pending_def)
      ultimately show False using run IH [of call s1 s'] call by auto
    qed
  qed
  then show ?thesis using assms(1) by (cases "call_bottom_halves (key_callbacks P) s") auto
qed

text \<open>A run of the loop over the bottom halves in which every callback returns and that never gets to the end.\<close>

definition runs_for_ever :: "'a caller \<Rightarrow> (nat \<Rightarrow> 'a EventState_scheme) \<Rightarrow> bool" where
  "runs_for_ever call f \<longleftrightarrow> (\<forall>n. bottom_halves (f n) \<noteq> [] \<and>
     call (last (bottom_halves (f n))) ((f n)\<lparr>bottom_halves := butlast (bottom_halves (f n))\<rparr>) = Some (f (Suc n)))"

lemma macro_runs_for_ever:
  assumes "macro_pending s" "\<And>s. call_cmd P ''save_selection'' [] s = Some s"
  shows "\<exists>f. f 0 = s \<and> runs_for_ever (key_callbacks P) f"
proof -
  define next_state where "next_state s = the (key_callbacks P (last (bottom_halves s)) (s\<lparr>bottom_halves := butlast (bottom_halves s)\<rparr>))" for s
  define f where "f n = (next_state ^^ n) s" for n
  have "macro_pending (f n)" for n
  proof (induction n)
    case 0
    then show ?case
      using assms(1) by (simp add: f_def)
  next
    case (Suc n)
    then show ?case
      using macro_runs_again [OF Suc assms(2)] by (auto simp: f_def next_state_def)
  qed
  then have "bottom_halves (f n) \<noteq> [] \<and>
      key_callbacks P (last (bottom_halves (f n))) ((f n)\<lparr>bottom_halves := butlast (bottom_halves (f n))\<rparr>) = Some (f (Suc n))" for n
    using macro_runs_again [OF _ assms(2), of "f n"] by (auto simp: f_def next_state_def macro_pending_def)
  then show ?thesis
    unfolding runs_for_ever_def by (intro exI [of _ f]) (simp add: f_def)
qed

text \<open>C40. A macro that calls itself. Calling the last macro while one is recorded ends the recording, but the keys
  of the call stay in the macro. With the bindings of C-x ( and C-x e: after C-x ( C-x e C-x e the
  loop over the bottom halves runs for ever: each run of the macro returns and registers the next one, so that there
  is an endless sequence of calls, and the loop has no result.\<close>

theorem macro_calls_itself:
  assumes "ctx_ready [] [] s" "macro_bindings s" "\<not> defining_macro s" "bottom_halves s = []"
    "\<And>s. call_cmd P ''save_selection'' [] s = Some s"
  shows "\<exists>s' f. type_keys P [24, 40, 24, 101, 24, 101] s = Some s' \<and> macro_keys s' = [24, 101] \<and>
    f 0 = s' \<and> runs_for_ever (key_callbacks P) f \<and> call_bottom_halves (key_callbacks P) s' = None"
proof -
  obtain s1 where s1: "type_keys P [24, 40] s = Some s1" "ctx_ready [] [] s1" "agree s s1" "defining_macro s1"
    "macro_keys s1 = []"
    using start_typed [OF assms(1-3,5)] by auto
  have b1: "macro_bindings s1" using macro_bindings_agree [OF s1(3)] assms(2) by simp
  obtain s2 where s2: "qe_key_process P 24 s1 = Some s2" "ctx_ready [24] ''C-x-'' s2" "agree s1 s2" "defining_macro s2"
    "macro_keys s2 = [24]"
    using prefix_key [OF s1(2) b1, of P] s1(4,5) by (auto simp: recorded_def)
  have b2: "macro_bindings s2" using macro_bindings_agree [OF s2(3)] b1 by simp
  obtain s3 where s3: "qe_key_process P 101 s2 = Some s3" "ctx_ready [] [] s3" "agree s2 s3" "\<not> defining_macro s3"
    "macro_keys s3 = [24, 101]"
    using call_typed [OF s2(2) b2 assms(5)] s2(4,5) by (auto simp: recorded_def)
  have b3: "macro_bindings s3" using macro_bindings_agree [OF s3(3)] b2 by simp
  obtain s4 where s4: "qe_key_process P 24 s3 = Some s4" "ctx_ready [24] ''C-x-'' s4" "agree s3 s4" "\<not> defining_macro s4"
    "macro_keys s4 = [24, 101]"
    using prefix_key [OF s3(2) b3, of P] s3(4,5) by (auto simp: recorded_def)
  have b4: "macro_bindings s4" using macro_bindings_agree [OF s4(3)] b3 by simp
  obtain s5 where s5: "qe_key_process P 101 s4 = Some s5" "ctx_ready [] [] s5"
    "agree (s4\<lparr>bottom_halves := (''do_call_macro_bh'', 0) # bottom_halves s4\<rparr>) s5" "\<not> defining_macro s5"
    "macro_keys s5 = [24, 101]"
    using call_typed [OF s4(2) b4 assms(5)] s4(4,5) by (auto simp: recorded_def)
  have "bottom_halves s4 = []"
    using assms(4) s1(3) s2(3) s3(3) s4(3) by (simp add: agree_def)
  moreover have "macro_bindings s5"
    using s5(3) b4 by (simp add: macro_bindings_def bound_to_def agree_def)
  ultimately have "macro_pending s5" using s5(2-5) by (simp add: macro_pending_def agree_def)
  moreover have "type_keys P ([24, 40] @ [24, 101, 24, 101]) s = Some s5"
    unfolding type_keys_append s1(1) by (simp add: s2(1) s3(1) s4(1) s5(1))
  ultimately show ?thesis
    using macro_never_ends [OF _ assms(5)] macro_runs_for_ever [OF _ assms(5), of s5] s5(5) by auto
qed

text \<open>Other ways for keys to go wrong: the line of keys is the format of \<open>put_status\<close>, so that a percent sign
  that is not bound behind C-x is read as a conversion without an argument; and characters above
  \<open>0xffff\<close> are cut off in a macro.\<close>

lemma percent_in_format:
  assumes "ctx_ready [] [] s" "macro_bindings s" "lookup s [24, 37] = None" "\<not> defining_macro s"
  shows "type_keys P [24, 37] s = None"
proof -
  obtain s1 where s1: "qe_key_process P 24 s = Some s1" "ctx_ready [24] ''C-x-'' s1" "agree s s1" "\<not> defining_macro s1"
    using prefix_key [OF assms(1,2), of P] assms(4) by auto
  have l: "lookup s1 [24, 37] = None" using assms(3) s1(3) by (simp add: agree_def)
  note ctx = s1(2) [unfolded ctx_ready_def Let_def]
  have "qe_key_process P 37 s1 = None"
    using l ctx s1(4)
    by (simp add: qe_key_process_def ungrabbed_key_def MAX_KEYS_def after_escape_def lookup_key_def no_key_found_def
        KEY_ESC_def show_key_result [OF _ key_names(4)] qe_key_init_def next_buf_def Let_def)
  then show ?thesis by (simp add: s1(1))
qed

lemma macro_cuts_keys: "macro_keys (macro_add_key s 0x1f600) = macro_keys s @ [0xf600]"
  by simp

section \<open>Examples\<close>

text \<open>A few default bindings, an idle keyboard, and commands that write their name and number down.\<close>

definition example_cmd :: "string \<Rightarrow> string \<Rightarrow> CmdDef" where
  "example_cmd f args = \<lparr>cmd_key = KEY_NONE, cmd_alt_key = KEY_NONE, cmd_name = f, cmd_args = args, cmd_func = f,
     cmd_val = Val_Int 0\<rparr>"

definition example_tables :: KeyTables where
  "example_tables = \<lparr>first_mode = [],
     first_cmd = [example_cmd ''do_universal_argument'' [], example_cmd ''do_forward'' ''i'',
       example_cmd ''do_start_macro'' [], example_cmd ''do_call_macro'' []],
     first_key = [\<lparr>kd_keys = [21], kd_cmd = 0, kd_mode = None\<rparr>, \<lparr>kd_keys = [6], kd_cmd = 1, kd_mode = None\<rparr>,
       \<lparr>kd_keys = [24, 40], kd_cmd = 2, kd_mode = None\<rparr>, \<lparr>kd_keys = [24, 101], kd_cmd = 3, kd_mode = None\<rparr>]\<rparr>"

definition example_keys :: KeyState where
  "example_keys = \<lparr>url_rfds = {}, url_wfds = {}, url_fdmax = -1, url_handlers = [], url_exit_request = False,
     pid_handlers = [], bottom_halves = [], first_timer = [], fresh_timer = 1, tables = example_tables,
     key_ctx = \<lparr>argval = NO_ARG, noargval = 1, sign = 1, is_universal_arg = False, is_escape = False,
       describe_key = False, grab_key = None, ctx_keys = [], ctx_buf = []\<rparr>,
     windows = (\<lambda>_. \<lparr>w_mode = 0, w_minibuf = False, hex_nibble = 0, compose_len = 0\<rparr>), active_window = 0,
     fresh_window = 1, minibuffer_mode = 1, question = None, status_shadow = [], last_cmd_func = [],
     defining_macro = False, macro_keys = [], macro_keys_size = 0, macro_key_index = -1\<rparr>"

fun argument_text :: "ArgValue list \<Rightarrow> string" where
  "argument_text [Arg_Window e, Arg_Int n] = (if n = -12 then ''-12'' else [])"
| "argument_text _ = []"

definition example_program :: "KeyState Program" where
  "example_program = \<lparr>
     call_cmd = (\<lambda>f args s. Some (if f = ''save_selection'' then s else s\<lparr>status_shadow := f @ argument_text args\<rparr>)),
     call_grab = (\<lambda>cb k s. Some s), call_other = (\<lambda>cb s. Some s), default_path = (\<lambda>s e. []),
     default_buffer = (\<lambda>s b e. [])\<rparr>"

lemma example_plain:
  "plain_key_state example_keys" "universal_bound example_keys" "unbound_digits example_keys"
  "ctx_ready [] [] example_keys" "macro_bindings example_keys"
  by (auto simp: plain_key_state_def universal_bound_def unbound_digits_def ctx_ready_def macro_bindings_def
      bound_to_def example_keys_def example_tables_def find_key_def mode_active_def example_cmd_def)

theorem argument_overflows_witness:
  "type_keys example_program (21 # replicate 61 48) example_keys \<noteq> None \<and>
   type_keys example_program (21 # replicate 62 48) example_keys = None"
  using argument_overflows [OF example_plain(1-3), of example_program 61]
    argument_overflows [OF example_plain(1-3), of example_program 62]
  by (simp add: example_keys_def)

theorem universal_argument_witness:
  "\<exists>s. type_keys example_program [21, 45, 49, 50, 6] example_keys = Some s \<and> status_shadow s = ''do_forward-12'' \<and>
     argval (key_ctx s) = NO_ARG"
proof -
  have n: "number [49, 50] = 12" "typed_argument 0 True [49, 50] = -12"
    by (simp_all add: number_def typed_argument_def)
  have lk: "lookup example_keys [6] = Some \<lparr>kd_keys = [6], kd_cmd = 1, kd_mode = None\<rparr>"
    by (simp add: example_keys_def example_tables_def find_key_def mode_active_def)
  have cmd: "first_cmd (tables example_keys) ! 1 = example_cmd ''do_forward'' ''i''"
    "1 < length (first_cmd (tables example_keys))"
    by (simp_all add: example_keys_def example_tables_def)
  obtain s1 where s1: "type_keys example_program (replicate (Suc 0) 21 @ (if True then [45] else []) @ [49, 50] @ [6]) example_keys =
      map_option (\<lambda>s2. set_ctx s2 (qe_key_init (key_ctx s2)))
        (exec_command example_program (active_window example_keys) 1 (typed_argument 0 True [49, 50]) s1)"
    "\<exists>st c. s1 = set_ctx (example_keys\<lparr>status_shadow := st\<rparr>) c \<and> argval c = typed_argument 0 True [49, 50]"
    using universal_argument [OF example_plain(1-3), where j = 0 and ds = "[49, 50]" and k = 6 and neg = True
        and P = example_program, OF _ _ _ _ _ _ _ _ lk] cmd n
    by (auto simp: example_keys_def KEY_ESC_def NO_ARG_def example_cmd_def)
  have c1: "first_cmd (tables s1) = first_cmd (tables example_keys)" using s1(2) by auto
  have "exec_command example_program e 1 (-12) s1 = map_option (\<lambda>s. s\<lparr>last_cmd_func := cmd_func (example_cmd ''do_forward'' ''i'')\<rparr>)
      (repeat_command example_program (if CMD_ARG_INT \<in> set [CMD_ARG_INT] then 1 else rep_count (-12))
        (cmd_func (example_cmd ''do_forward'' ''i'')) e
        (Arg_Window e # arg_values (cmd_val (example_cmd ''do_forward'' ''i'')) (-12) [CMD_ARG_INT]) s1)" for e
    by (rule exec_command_args) (use cmd c1 in \<open>auto simp: example_cmd_def\<close>)
  then show ?thesis
    using s1(1) n
    by (simp add: example_cmd_def example_program_def call_func_def arg_value_def set_ctx_def qe_key_init_def Let_def)
qed

theorem exec_command_args_witness:
  "\<exists>s. exec_command example_program 0 3 2 (example_keys\<lparr>macro_keys := [6]\<rparr>) = Some s \<and>
     bottom_halves s = replicate 2 (''do_call_macro_bh'', 0)"
proof -
  let ?s = "example_keys\<lparr>macro_keys := [6]\<rparr>"
  have "exec_command example_program 0 3 2 ?s =
    map_option (\<lambda>s. s\<lparr>last_cmd_func := cmd_func (example_cmd ''do_call_macro'' [])\<rparr>)
      (repeat_command example_program (if CMD_ARG_INT \<in> set [] then 1 else rep_count 2)
        (cmd_func (example_cmd ''do_call_macro'' [])) 0
        (Arg_Window 0 # arg_values (cmd_val (example_cmd ''do_call_macro'' [])) 2 []) ?s)"
    by (rule exec_command_args) (simp_all add: example_keys_def example_tables_def example_cmd_def)
  moreover have "rep_count 2 = Suc (Suc 0)" by (simp add: rep_count_def NO_ARG_def)
  moreover have "replicate 2 x = [x, x]" for x :: callback by (simp add: numeral_2_eq_2)
  ultimately show ?thesis
    by (simp add: example_cmd_def example_program_def call_func_def do_call_macro_def register_bottom_half_def
        example_keys_def Let_def)
qed

theorem macro_calls_itself_witness:
  "\<exists>s f. type_keys example_program [24, 40, 24, 101, 24, 101] example_keys = Some s \<and> macro_keys s = [24, 101] \<and>
     f 0 = s \<and> runs_for_ever (key_callbacks example_program) f \<and> call_bottom_halves (key_callbacks example_program) s = None"
  by (rule macro_calls_itself [OF example_plain(4,5)]) (simp_all add: example_keys_def example_program_def)

end
