(* ===== verification/Text_Buffers.thy ===== *)
theory Text_Buffers
  imports Edit_Changes
begin

text \<open>
  Buffers as lists of bytes, for the components that work on a buffer without a window: what each
  function of \<open>buffer.c\<close> does to a buffer that represents a text in a charset of one byte per character,
  and what it keeps. \<open>eb_goto_pos\<close> with column 0 finds the beginning of a line.
\<close>

section \<open>Texts of bytes\<close>

definition byte_text :: "EditBuffer \<Rightarrow> u8 list \<Rightarrow> bool" where
  "byte_text b t \<longleftrightarrow> (\<exists>a. refines b a \<and> a_text a = t) \<and> cached b \<and> wf_charset b \<and> charset b \<noteq> Charset_utf8"

text \<open>What all the functions keep.\<close>

definition kept :: "EditBuffer \<Rightarrow> EditBuffer \<Rightarrow> bool" where
  "kept b b' \<longleftrightarrow> charset b' = charset b \<and> charset_state b' = charset_state b \<and> callbacks b' = callbacks b"

lemma kept_refl [simp]: "kept b b"
  by (simp add: kept_def)

lemma kept_trans: "kept b b1 \<Longrightarrow> kept b1 b2 \<Longrightarrow> kept b b2"
  by (simp add: kept_def)

lemma byte_textD:
  assumes "byte_text b t"
  shows "buf_ok b" "contents b = t" "total_size b = length t" "cached b" "wf_charset b" "charset b \<noteq> Charset_utf8"
    "one_byte (charset_state b)"
  using assms refinesD one_byte_wf by (auto simp: byte_text_def)

lemma view_iff: "view b' = view b \<longleftrightarrow> charset b' = charset b \<and> charset_state b' = charset_state b"
  by (auto simp: view_def)

lemma byte_textI:
  assumes "byte_text b t" "refines b' a" "cached b'" "view b' = view b"
  shows "byte_text b' (a_text a)"
  using assms by (auto simp: byte_text_def view_iff wf_charset_def)

lemma tracked_fields [simp]:
  "page_table (b\<lparr>tracked := m\<rparr>) = page_table b" "charset (b\<lparr>tracked := m\<rparr>) = charset b"
  "charset_state (b\<lparr>tracked := m\<rparr>) = charset_state b"
  by simp_all

lemma refines_any_tracked: "refines b a \<Longrightarrow> refines (b\<lparr>tracked := m\<rparr>) (a\<lparr>a_tracked := m\<rparr>)"
  by (auto simp: refines_def refines_doc_def contents_def cache_ok_def log_rep_def cur_rep_def
      split: option.splits)

lemma byte_text_tracked [simp]: "byte_text (b\<lparr>tracked := m\<rparr>) t = byte_text b t"
proof -
  have *: "byte_text (b\<lparr>tracked := m\<rparr>) t" if "byte_text b t" for b m
    using that refines_any_tracked [of b _ m] by (fastforce simp: byte_text_def cached_def wf_charset_def)
  from * [of "b\<lparr>tracked := m\<rparr>" "tracked b"] * [of b m] show ?thesis by auto
qed

lemma byte_text_callbacks: "byte_text b t \<Longrightarrow> byte_text (b\<lparr>callbacks := l\<rparr>) t"
proof -
  assume b: "byte_text b t"
  then obtain a where a: "refines b a" "a_text a = t" by (auto simp: byte_text_def)
  have "refines (b\<lparr>callbacks := l\<rparr>) (a\<lparr>a_callbacks := l\<rparr>)"
    using a(1) by (auto simp: refines_def refines_doc_def contents_def cache_ok_def log_rep_def cur_rep_def
        split: option.splits)
  then show ?thesis using b a(2) by (fastforce simp: byte_text_def cached_def wf_charset_def)
qed

lemma byte_text_save_log: "byte_text b t \<Longrightarrow> byte_text (b\<lparr>save_log := v\<rparr>) t"
proof -
  assume b: "byte_text b t"
  then obtain a where a: "refines b a" "a_text a = t" by (auto simp: byte_text_def)
  have "refines (b\<lparr>save_log := v\<rparr>) (a\<lparr>a_save := v\<rparr>)"
    using a(1) by (auto simp: refines_def refines_doc_def contents_def cache_ok_def log_rep_def cur_rep_def
        split: option.splits)
  then show ?thesis
    using b a(2) by (auto simp: byte_text_def cached_def wf_charset_def intro!: exI [of _ "a\<lparr>a_save := v\<rparr>"])
qed

lemma byte_text_alloc: "byte_text (alloc_buffer name flags) []"
  using alloc_refines [of name flags]
  by (auto simp: byte_text_def alloc_buffer_def eb_add_callback_def cached_def wf_charset_def)

lemma byte_text_same_doc:
  assumes "byte_text b t" "same_doc b b'"
  shows "byte_text b' t" "kept b b'" "tracked b' = tracked b"
proof -
  note d = same_docD [OF assms(2)] same_doc_fields [OF assms(2)]
  obtain a where a: "refines b a" "a_text a = t" using assms(1) by (auto simp: byte_text_def)
  have "cached b'" using assms(1) d(4,5,6) by (simp add: byte_text_def cached_def)
  with byte_textI [OF assms(1) refines_same_doc [OF a(1) assms(2)]] a(2) d(4,5)
  show "byte_text b' t" by (simp add: view_iff)
  show "kept b b'" "tracked b' = tracked b" using d by (simp_all add: kept_def)
qed

lemma byte_text_insert:
  assumes "byte_text b t" "p \<le> length t" "length t + length bs < 2147483648"
  shows "\<exists>b'. eb_insert b p bs = Some b' \<and> byte_text b' (list_insert p bs t) \<and> kept b b' \<and>
    tracked b' = call_callbacks (callbacks b) (tracked b) LOGOP_INSERT (int p) (int (length bs))"
proof -
  obtain a where a: "refines b a" "a_text a = t" using assms(1) by (auto simp: byte_text_def)
  obtain b' where b': "eb_insert b p bs = Some b'" "refines b' (a_insert a p bs)"
    using eb_insert_refines [OF a(1)] a(2) assms(2,3) by auto
  have c: "cached b'"
    by (rule cached_all [OF _ byte_textD(4) [OF assms(1)]]) (rule page_pred.eb_insert_all [OF _ b'(1)])
  have v: "view b' = view b" by (rule eb_insert_view [OF b'(1)])
  note d = refines_docD(4,5) [OF refinesD(1) [OF b'(2)]] refines_docD(4,5) [OF refinesD(1) [OF a(1)]]
  have "tracked b' = call_callbacks (callbacks b) (tracked b) LOGOP_INSERT (int p) (int (length bs))"
    "callbacks b' = callbacks b"
    using d by (simp_all add: a_insert_def a_addlog_def Let_def)
  then show ?thesis
    using b'(1) byte_textI [OF assms(1) b'(2) c v] a(2) v by (auto simp: kept_def view_iff)
qed

lemma byte_text_exists: "length t < 2147483648 \<Longrightarrow> \<exists>b. byte_text b t"
  using byte_text_insert [OF byte_text_alloc, of 0 t "''x''" 0] by auto

lemma byte_text_delete:
  assumes "byte_text b t" "p + n \<le> length t" "length t < 2147483648"
  shows "\<exists>b'. eb_delete b p n = Some b' \<and> byte_text b' (list_delete p n t) \<and> kept b b' \<and>
    (p < length t \<longrightarrow> tracked b' = call_callbacks (callbacks b) (tracked b) LOGOP_DELETE (int p) (int n)) \<and>
    (p = length t \<longrightarrow> b' = b)"
proof -
  obtain a where a: "refines b a" "a_text a = t" using assms(1) by (auto simp: byte_text_def)
  obtain b' where b': "eb_delete b p n = Some b'" "refines b' (a_delete a p n)"
    using eb_delete_refines [OF a(1)] a(2) assms(2,3) by auto
  have c: "cached b'"
    by (rule cached_all [OF _ byte_textD(4) [OF assms(1)]]) (rule page_pred.eb_delete_all [OF _ b'(1)])
  have v: "view b' = view b" by (rule eb_delete_view [OF b'(1)])
  note d = refines_docD(4,5) [OF refinesD(1) [OF b'(2)]] refines_docD(4,5) [OF refinesD(1) [OF a(1)]]
  have "p < length t \<longrightarrow> tracked b' = call_callbacks (callbacks b) (tracked b) LOGOP_DELETE (int p) (int n)"
    "callbacks b' = callbacks b"
    using d a(2) by (simp_all add: a_delete_def a_addlog_def Let_def)
  moreover have "p = length t \<longrightarrow> b' = b" using b'(1) byte_textD(3) [OF assms(1)] by (auto simp: eb_delete_def)
  moreover have "byte_text b' (list_delete p n t)"
    using byte_textI [OF assms(1) b'(2) c v] a(2) assms(2) by simp
  ultimately show ?thesis using b'(1) v by (auto simp: kept_def view_iff)
qed

lemma callbacks_write [simp]: "call_callbacks l m LOGOP_WRITE p n = m"
  by (induction l arbitrary: m) (simp_all add: eb_offset_callback_def)

lemma byte_text_write:
  assumes "byte_text b t" "p + length bs \<le> length t" "length t + length bs < 2147483648"
  shows "\<exists>b'. eb_write b p bs = Some b' \<and> byte_text b' (list_write p bs t) \<and> kept b b' \<and> tracked b' = tracked b"
proof -
  obtain a where a: "refines b a" "a_text a = t" using assms(1) by (auto simp: byte_text_def)
  obtain b' where b': "eb_write b p bs = Some b'" "refines b' (a_write a p bs)"
    using eb_write_refines [OF a(1), of p bs] a(2) assms(2,3) by auto
  have c: "cached b'"
    by (rule cached_all [OF _ byte_textD(4) [OF assms(1)]]) (rule page_pred.eb_write_all [OF _ b'(1)])
  have v: "view b' = view b" by (rule any_page.eb_write_all [OF b'(1) all_True, THEN conjunct2])
  note d = refines_docD(4,5) [OF refinesD(1) [OF b'(2)]] refines_docD(4,5) [OF refinesD(1) [OF a(1)]]
  have m: "min (length bs) (length t - p) = length bs" using assms(2) by simp
  have "a_tracked (a_write a p bs) = a_tracked a" "a_callbacks (a_write a p bs) = a_callbacks a"
    "a_text (a_write a p bs) = list_write p bs t"
    using m a(2) by (simp_all add: a_write_def a_addlog_def Let_def list_write_def)
  then show ?thesis
    using b'(1) byte_textI [OF assms(1) b'(2) c v] d v by (auto simp: kept_def view_iff)
qed

text \<open>Writing past the end appends.\<close>

lemma byte_text_overwrite:
  assumes "byte_text b t" "p \<le> length t" "length t + length bs < 2147483648"
  shows "\<exists>b'. eb_write b p bs = Some b' \<and> byte_text b' (list_write p bs t) \<and> kept b b'"
proof -
  obtain a where a: "refines b a" "a_text a = t" using assms(1) by (auto simp: byte_text_def)
  obtain b' where b': "eb_write b p bs = Some b'" "refines b' (a_write a p bs)"
    using eb_write_refines [OF a(1), of p bs] a(2) assms(2,3) by auto
  have c: "cached b'"
    by (rule cached_all [OF _ byte_textD(4) [OF assms(1)]]) (rule page_pred.eb_write_all [OF _ b'(1)])
  have v: "view b' = view b" by (rule any_page.eb_write_all [OF b'(1) all_True, THEN conjunct2])
  have "callbacks b' = callbacks b"
    using refines_docD(5) [OF refinesD(1) [OF b'(2)]] refines_docD(5) [OF refinesD(1) [OF a(1)]]
    by (simp add: a_write_def a_insert_def a_addlog_def Let_def split: if_splits)
  then show ?thesis
    using b'(1) byte_textI [OF assms(1) b'(2) c v] a(2) assms(2) v by (auto simp: kept_def view_iff)
qed

lemma byte_text_printf:
  assumes "byte_text b t" "length bs < 1024" "length t + length bs < 2147483648"
  shows "\<exists>b'. eb_printf b bs = Some b' \<and> byte_text b' (t @ bs)"
proof -
  have "list_insert (length t) bs t = t @ bs" by (simp add: list_insert_def)
  then show ?thesis
    using byte_text_insert [OF assms(1) _ assms(3), of "length t"] byte_textD(3) [OF assms(1)] assms(2)
    by (auto simp: eb_printf_def vsnprintf_bytes_def)
qed

lemma byte_text_nextc:
  assumes "byte_text b t" "p < length t"
  shows "\<exists>b'. eb_nextc b junk (int p) = Some (uint (t ! p), int (Suc p), b') \<and> byte_text b' t \<and> kept b b' \<and>
    tracked b' = tracked b"
  using eb_nextc_8bit [OF byte_textD(1,5,6) [OF assms(1)], of p junk] byte_textD(2) [OF assms(1)] assms(2)
    byte_text_same_doc [OF assms(1)] by auto

lemma byte_text_nextc_end: "byte_text b t \<Longrightarrow> eb_nextc b junk (int (length t)) = Some (10, int (length t), b)"
  using eb_nextc_end [of b junk] byte_textD(1,2) [of b t] by simp

lemma byte_text_prevc:
  assumes "byte_text b t" "p < length t"
  shows "\<exists>b'. eb_prevc b (int (Suc p)) = Some (uint (t ! p), int p, b') \<and> byte_text b' t \<and> kept b b' \<and>
    tracked b' = tracked b"
  using eb_prevc_8bit [OF byte_textD(1,6) [OF assms(1)], of p] byte_textD(2) [OF assms(1)] assms(2)
    byte_text_same_doc [OF assms(1)] by auto

lemma prevc_start [simp]: "eb_prevc b 0 = Some (10, 0, b)"
  by (simp add: eb_prevc_def)

section \<open>Changes of the page caches\<close>

lemma refines_pages:
  assumes "refines b a" "map p_data pt = map p_data (page_table b)"
  shows "refines (b\<lparr>page_table := pt\<rparr>) a"
proof -
  have len: "length pt = length (page_table b)" using arg_cong [OF assms(2), of length] by simp
  have sizes: "map p_data (take i pt) = map p_data (take i (page_table b))" for i
    using assms(2) by (simp add: take_map flip: take_map)
  have "pages_ok pt = pages_ok (page_table b)"
  proof -
    have "pages_ok q \<longleftrightarrow> (\<forall>d \<in> set (map p_data q). 0 < length d \<and> length d \<le> MAX_PAGE_SIZE)" for q
      by (auto simp: pages_ok_def)
    then show ?thesis using assms(2) by metis
  qed
  moreover have "page_bytes (take i pt) = page_bytes (take i (page_table b))" for i
    using sizes [of i] by simp
  ultimately show ?thesis
    using assms len
    by (auto simp: refines_def refines_doc_def contents_def cache_ok_def log_rep_def cur_rep_def
        split: option.splits)
qed

lemma byte_text_pages:
  assumes "byte_text b t" "map p_data pt = map p_data (page_table b)"
    "list_all (cache_valid (charset_state b) (charset b)) pt"
  shows "byte_text (b\<lparr>page_table := pt\<rparr>) t"
proof -
  obtain a where a: "refines b a" "a_text a = t" using assms(1) by (auto simp: byte_text_def)
  have "cached (b\<lparr>page_table := pt\<rparr>)" using assms(3) by (simp add: cached_def)
  from byte_textI [OF assms(1) refines_pages [OF a(1) assms(2)] this] a(2) show ?thesis by (simp add: view_iff)
qed

lemma byte_text_get_pos:
  assumes "byte_text b t" "p \<le> length t"
  shows "\<exists>b'. eb_get_pos b p = (line_col (take p t), b') \<and> byte_text b' t \<and> kept b b' \<and> tracked b' = tracked b"
proof -
  obtain b' where b': "eb_get_pos b p = (line_col (take p t), b')"
    using eb_get_pos_correct [OF byte_textD(4,7) [OF assms(1)], of p] byte_textD(2) [OF assms(1)]
    by (cases "eb_get_pos b p") auto
  have pt: "b' = b\<lparr>page_table := page_table b'\<rparr>" "page_table b' = snd (get_pos_loop (charset_state b) (page_table b) 0 0 p)"
    using b' by (auto simp: eb_get_pos_def split: prod.splits)
  note pages = get_pos_loop_pages [OF byte_textD(4) [OF assms(1), unfolded cached_def], of 0 0 p]
  have "byte_text (b\<lparr>page_table := page_table b'\<rparr>) t"
    by (rule byte_text_pages [OF assms(1)]) (use pages pt(2) in auto)
  moreover have "kept b (b\<lparr>page_table := page_table b'\<rparr>)" "tracked (b\<lparr>page_table := page_table b'\<rparr>) = tracked b"
    by (simp_all add: kept_def)
  ultimately show ?thesis using b' pt(1) by auto
qed

section \<open>Beginnings of lines\<close>

text \<open>The offset at which line \<open>n\<close> begins, counted from 0; the end of the text if there are fewer.\<close>

function line_start :: "nat \<Rightarrow> u8 list \<Rightarrow> nat" where
  "line_start 0 t = 0"
| "line_start (Suc n) t = (case memchr_after t of None \<Rightarrow> length t | Some r \<Rightarrow> length t - length r + line_start n r)"
  by pat_completeness auto
termination by (relation "measure fst") auto

lemma line_start_le: "line_start n t \<le> length t"
proof (induction n t rule: line_start.induct)
  case (2 n t)
  show ?case
  proof (cases "memchr_after t")
    case (Some r)
    then show ?thesis using 2 [OF Some] memchr_after_length [OF Some] by simp
  qed simp
qed simp

lemma seek_line_start:
  assumes "k \<le> count_list d 10"
  shows "\<exists>q. seek_line d k = Some q \<and> length q = length d - line_start k d \<and> line_start k (d @ rest) = line_start k d"
  using assms
proof (induction k arbitrary: d)
  case (Suc k)
  then have "10 \<in> set d" by (metis count_list_zero not_less_eq_eq zero_le)
  then obtain r where r: "memchr_after d = Some r" using memchr_after_None [of d] by auto
  then obtain x where x: "d = x @ 10 # r" "10 \<notin> set x" by (rule memchr_after_Some)
  have c: "k \<le> count_list r 10" using Suc.prems x count_list_zero [of x] by simp
  obtain q where q: "seek_line r k = Some q" "length q = length r - line_start k r" "line_start k (r @ rest) = line_start k r"
    using Suc.IH [OF c] by auto
  have "memchr_after (d @ rest) = Some (r @ rest)" using memchr_after_append [OF x(2)] x(1) by simp
  then show ?case using r q line_start_le [of k r] x(1) by simp
qed simp

lemma line_start_append:
  "count_list d 10 < k \<Longrightarrow> line_start k (d @ rest) = length d + line_start (k - count_list d 10) rest"
proof (induction k arbitrary: d)
  case (Suc k)
  show ?case
  proof (cases "memchr_after d")
    case None
    then have d: "10 \<notin> set d" by (simp add: memchr_after_None)
    have "memchr_after (d @ rest) = memchr_after rest"
    proof -
      have "dropWhile (\<lambda>c. c \<noteq> 10) (d @ rest) = dropWhile (\<lambda>c. c \<noteq> 10) rest"
        by (rule dropWhile_append2) (use d in auto)
      then show ?thesis by (simp add: memchr_after_def)
    qed
    then show ?thesis
      using d memchr_after_length [of rest] by (auto simp: count_list_zero split: option.split)
  next
    case (Some r)
    then obtain x where x: "d = x @ 10 # r" "10 \<notin> set x" by (rule memchr_after_Some)
    have c: "count_list d 10 = Suc (count_list r 10)" using x count_list_zero [of x] by simp
    have "memchr_after (d @ rest) = Some (r @ rest)" using memchr_after_append [OF x(2)] x(1) by simp
    then show ?thesis using Suc.IH [of r] Suc.prems x c by simp
  qed
qed simp

lemma goto_line_loop:
  assumes "list_all (cache_valid (charset_state b) (charset b)) (page_table b)" "one_byte (charset_state b)"
    "p \<le> length (page_table b)" "total_size b = length (contents b)"
    "offset = int (length (page_bytes (take p (page_table b))))"
  shows "\<exists>pt. goto_pos_loop b junk p line col offset (line + k) 0 =
      Some (offset + int (line_start k (page_bytes (drop p (page_table b)))), b\<lparr>page_table := pt\<rparr>) \<and>
    map p_data pt = map p_data (page_table b) \<and> list_all (cache_valid (charset_state b) (charset b)) pt"
  using assms
proof (induction "length (page_table b) - p" arbitrary: b p line col offset k)
  case 0
  then have p: "p = length (page_table b)" by simp
  have z: "line_start k [] = 0" by (cases k) (simp_all add: memchr_after_def)
  have t: "int (total_size b) = offset" using 0(5,6) p by (simp add: contents_def)
  show ?case
    by (rule exI [of _ "page_table b"], subst goto_pos_loop.simps) (use 0 p z t in simp)
next
  case (Suc n)
  then have p: "p < length (page_table b)" by simp
  let ?pg = "page_pos (charset_state b) (page_table b ! p)"
  define b1 where "b1 = b\<lparr>page_table := (page_table b)[p := ?pg]\<rparr>"
  let ?d = "p_data (page_table b ! p)"
  have valid: "cache_valid (charset_state b) (charset b) (page_table b ! p)"
    using Suc.prems(1) p by (simp add: list_all_length)
  have "(p_nb_lines ?pg, p_col ?pg) = line_col ?d"
    using page_pos_valid(2) [OF valid] get_pos_one_byte [OF Suc.prems(2)] by simp
  then have l: "p_nb_lines ?pg = count_list ?d 10" by (simp add: line_col_def)
  have pt1: "map p_data (page_table b1) = map p_data (page_table b)"
    "list_all (cache_valid (charset_state b1) (charset b1)) (page_table b1)"
    using Suc.prems(1) page_pos_valid(1) [OF valid] p
    by (simp_all add: b1_def map_update list_update_id list_all_length nth_list_update)
      (metis list_update_id map_update page_pos_data)
  have split: "page_bytes (drop p (page_table b)) = ?d @ page_bytes (drop (Suc p) (page_table b))"
    using p by (simp add: Cons_nth_drop_Suc [symmetric])
  have taken: "page_bytes (take (Suc p) (page_table b)) = page_bytes (take p (page_table b)) @ ?d"
    using p by (simp add: take_Suc_conv_app_nth)
  show ?case
  proof (cases "k \<le> count_list ?d 10")
    case True
    then obtain q where q: "seek_line ?d k = Some q" "length q = length ?d - line_start k ?d"
      "line_start k (?d @ page_bytes (drop (Suc p) (page_table b))) = line_start k ?d"
      using seek_line_start by blast
    have "goto_pos_loop b junk p line col offset (line + k) 0 = Some (offset + int (line_start k ?d), b1)"
      using True p q(1,2) l line_start_le [of k ?d]
      by (subst goto_pos_loop.simps) (auto simp: b1_def [symmetric] Let_def)
    then show ?thesis
      using pt1 q(3) split by (intro exI [of _ "page_table b1"]) (simp add: b1_def)
  next
    case False
    let ?k = "k - count_list ?d 10"
    have drop1: "page_bytes (drop i (page_table b1)) = page_bytes (drop i (page_table b))"
      "page_bytes (take i (page_table b1)) = page_bytes (take i (page_table b))" for i
      using arg_cong [OF pt1(1), of "drop i"] arg_cong [OF pt1(1), of "take i"]
      by (simp_all add: drop_map take_map)
    have "\<exists>pt. goto_pos_loop b1 junk (Suc p) (line + count_list ?d 10) col' (offset + int (length ?d))
        (line + count_list ?d 10 + ?k) 0 =
      Some (offset + int (length ?d) + int (line_start ?k (page_bytes (drop (Suc p) (page_table b1)))), b1\<lparr>page_table := pt\<rparr>) \<and>
      map p_data pt = map p_data (page_table b1) \<and> list_all (cache_valid (charset_state b1) (charset b1)) pt" for col'
    proof (rule Suc.hyps(1))
      show "n = length (page_table b1) - Suc p" using Suc.hyps(2) by (simp add: b1_def)
      show "list_all (cache_valid (charset_state b1) (charset b1)) (page_table b1)" by (rule pt1(2))
      show "one_byte (charset_state b1)" "Suc p \<le> length (page_table b1)" using Suc.prems(2) p by (simp_all add: b1_def)
      have "contents b1 = contents b" using pt1(1) by (simp add: contents_def)
      then show "total_size b1 = length (contents b1)" using Suc.prems(4) by (simp add: b1_def)
      show "offset + int (length ?d) = int (length (page_bytes (take (Suc p) (page_table b1))))"
        using Suc.prems(5) taken drop1(2) by simp
    qed
    from this [of "col + p_col ?pg"] obtain pt where pt: "goto_pos_loop b1 junk (Suc p) (line + count_list ?d 10)
        (col + p_col ?pg) (offset + int (length ?d)) (line + count_list ?d 10 + ?k) 0 =
      Some (offset + int (length ?d) + int (line_start ?k (page_bytes (drop (Suc p) (page_table b1)))), b1\<lparr>page_table := pt\<rparr>)"
      "map p_data pt = map p_data (page_table b1)" "list_all (cache_valid (charset_state b1) (charset b1)) pt"
      by blast
    have k: "line + count_list ?d 10 + ?k = line + k" using False by simp
    have "goto_pos_loop b junk p line col offset (line + k) 0 = goto_pos_loop b1 junk (Suc p) (line + count_list ?d 10)
        (col + p_col ?pg) (offset + int (length ?d)) (line + k) 0"
      using False p l by (subst goto_pos_loop.simps) (simp add: b1_def [symmetric] Let_def)
    also have "\<dots> = Some (offset + int (line_start k (page_bytes (drop p (page_table b)))), b1\<lparr>page_table := pt\<rparr>)"
      using pt(1) False split line_start_append [of ?d k "page_bytes (drop (Suc p) (page_table b))"] drop1(1)
      unfolding k by simp
    finally have "goto_pos_loop b junk p line col offset (line + k) 0 =
        Some (offset + int (line_start k (page_bytes (drop p (page_table b)))), b\<lparr>page_table := pt\<rparr>)"
      by (simp add: b1_def)
    then show ?thesis using pt(2,3) pt1(1) by (intro exI [of _ pt]) (simp add: b1_def)
  qed
qed

lemma byte_text_goto_line:
  assumes "byte_text b t"
  shows "\<exists>b'. eb_goto_pos b junk n 0 = Some (int (line_start n t), b') \<and> byte_text b' t \<and> kept b b' \<and>
    tracked b' = tracked b"
proof -
  note d = byte_textD [OF assms]
  obtain pt where pt: "eb_goto_pos b junk n 0 = Some (int (line_start n t), b\<lparr>page_table := pt\<rparr>)"
    "map p_data pt = map p_data (page_table b)" "list_all (cache_valid (charset_state b) (charset b)) pt"
    using goto_line_loop [of b 0 0 junk 0 0 n] d by (auto simp: eb_goto_pos_def cached_def contents_def)
  have "byte_text (b\<lparr>page_table := pt\<rparr>) t" by (rule byte_text_pages [OF assms pt(2,3)])
  then show ?thesis using pt(1) by (auto simp: kept_def)
qed

end
