(* ===== verification/Shell.thy ===== *)
theory Shell
  imports Text_Buffers Buffers
begin

text \<open>
  The terminal of the shell mode, \<open>src/shell.c\<close>: the emulation of a VT100 that writes what a
  process prints into a buffer (\<open>tty_emulate\<close> and what it calls), the color buffer that a callback
  keeps beside the text, the keys sent to the process, and the search for the next compiler message.
  This theory holds the definitions.

  A \<open>Tty\<close> is the part of \<open>ShellState\<close> that is no buffer; the texts written to the process are
  collected in \<open>pty_out\<close>, and \<open>pty_answers\<close> are the results of the calls of \<open>write\<close> to come.
  \<open>cur_offset\<close> is an \<open>int\<close> that the callbacks of the buffer move; its address is \<open>CUR\<close>. The
  windows of the buffer are given by the addresses of their offsets and their flag \<open>interactive\<close>.
  Starting a process, its pseudo terminal, signals and redisplay are system calls and not modelled.
  Where the program overflows an \<open>int\<close> or leaves an array there is no result.
\<close>

section \<open>The state\<close>

definition MAX_ESC_PARAMS :: nat where "MAX_ESC_PARAMS = 3"
definition TTY_YSIZE :: nat where "TTY_YSIZE = 25"
definition CUR :: tracker where "CUR = 2"

datatype TTYState = TTY_STATE_NORM | TTY_STATE_ESC | TTY_STATE_CSI

record Tty =
  pty_fd :: int
  pid :: int
  color :: int
  def_color :: int
  esc_params :: "int list"
  nb_esc_params :: int
  tty_state :: TTYState
  is_shell :: bool
  pty_out :: "u8 list"
  pty_answers :: "int option list"

record ShellState = Tty +
  sh_b :: EditBuffer
  b_color :: "EditBuffer option"
  sh_windows :: "(tracker \<times> bool) list"

definition INT_LIMIT :: int where "INT_LIMIT = 2147483647"

section \<open>Colors and escape parameters\<close>

definition TTY_GET_COLOR :: "int \<Rightarrow> int \<Rightarrow> int" where
  "TTY_GET_COLOR fg bg = or (push_bit 3 fg) bg"

definition TTY_GET_FG :: "int \<Rightarrow> int" where
  "TTY_GET_FG c = and (drop_bit 3 c) 7"

definition TTY_GET_BG :: "int \<Rightarrow> int" where
  "TTY_GET_BG c = and c 7"

definition tty_csi_m :: "int \<Rightarrow> 'a Tty_scheme \<Rightarrow> 'a Tty_scheme" where
  "tty_csi_m c s =
    (if c = 0 then s\<lparr>color := def_color s\<rparr>
     else if c \<ge> 30 \<and> c \<le> 37 then s\<lparr>color := TTY_GET_COLOR (c - 30) (TTY_GET_BG (color s))\<rparr>
     else if c \<ge> 40 \<and> c \<le> 47 then s\<lparr>color := TTY_GET_COLOR (TTY_GET_FG (color s)) (c - 40)\<rparr>
     else s)"

text \<open>A digit of a parameter; digits behind the last parameter are ignored. Writing behind the end of the array and overflow
  are failures.\<close>

definition csi_digit :: "int \<Rightarrow> 'a Tty_scheme \<Rightarrow> 'a Tty_scheme option" where
  "csi_digit c s =
    (if nb_esc_params s < int MAX_ESC_PARAMS
     then do {
       let k = nat (nb_esc_params s);
       guard (k < length (esc_params s));
       guard (esc_params s ! k * 10 + c \<le> INT_LIMIT);
       Some (s\<lparr>esc_params := (esc_params s)[k := esc_params s ! k * 10 + c - 48]\<rparr>) }
     else Some s)"

text \<open>The loop over the parameters of \<open>m\<close>; the array has \<open>MAX_ESC_PARAMS\<close> elements.\<close>

fun csi_colors :: "nat \<Rightarrow> nat \<Rightarrow> 'a Tty_scheme \<Rightarrow> 'a Tty_scheme option" where
  "csi_colors i 0 s = Some s"
| "csi_colors i (Suc n) s = do {
     guard (i < MAX_ESC_PARAMS);
     csi_colors (i + 1) n (tty_csi_m (esc_params s ! i) s) }"

definition csi_m :: "'a Tty_scheme \<Rightarrow> 'a Tty_scheme option" where
  "csi_m s = (let n = nb_esc_params s; n = (if n = 0 then 1 else n) in csi_colors 0 (nat n) s)"

text \<open>
  \<open>tty_write\<close>: an answer \<open>None\<close> of \<open>write\<close> is \<open>EAGAIN\<close> or \<open>EINTR\<close>, for which it tries
  again; while there is no other answer it does not return.
\<close>

fun write_loop :: "int option list \<Rightarrow> u8 list \<Rightarrow> (u8 list \<times> int option list) option" where
  "write_loop ans [] = Some ([], ans)"
| "write_loop [] buf = None"
| "write_loop (None # ans) buf = write_loop ans buf"
| "write_loop (Some r # ans) buf =
     (if r \<le> 0 then Some ([], ans)
      else map_option (\<lambda>(sent, ans). (take (nat r) buf @ sent, ans)) (write_loop ans (drop (nat r) buf)))"

definition tty_write :: "'a Tty_scheme \<Rightarrow> u8 list \<Rightarrow> 'a Tty_scheme option" where
  "tty_write s buf = do {
     (sent, ans) \<leftarrow> write_loop (pty_answers s) buf;
     Some (s\<lparr>pty_out := pty_out s @ sent, pty_answers := ans\<rparr>) }"

text \<open>The answer to the request for the cursor's position: always the first column of the first line.\<close>

definition cursor_report :: "u8 list" where "cursor_report = [27, 91, 49, 59, 49, 82]"

definition csi_n :: "'a Tty_scheme \<Rightarrow> 'a Tty_scheme option" where
  "csi_n s = (if esc_params s ! 0 = 6 then tty_write s cursor_report else Some s)"

text \<open>The end of \<open>'K'\<close> and \<open>'P'\<close>, \<open>'@'\<close> and \<open>'P'\<close> repeat at least once.\<close>

definition csi_count :: "'a Tty_scheme \<Rightarrow> nat" where
  "csi_count s = (let n = esc_params s ! 0; n = (if n \<le> 0 then 1 else n) in nat n)"

text \<open>The column and the line of \<open>'H'\<close>.\<close>

definition csi_x :: "'a Tty_scheme \<Rightarrow> nat" where
  "csi_x s = (let x = esc_params s ! 1 - 1; x = (if x < 0 then 0 else x) in nat x)"

definition csi_y :: "'a Tty_scheme \<Rightarrow> nat" where
  "csi_y s =
    (let y = esc_params s ! 0 - 1;
         y = (if y < 0 then 0 else if y \<ge> int TTY_YSIZE then int TTY_YSIZE - 1 else y)
     in nat y)"

section \<open>The color buffer\<close>

text \<open>\<open>shell_color_callback\<close>, which writes through an array of 32 bytes.\<close>

definition COLOR_CHUNK :: nat where "COLOR_CHUNK = 32"

function color_write :: "EditBuffer \<Rightarrow> int \<Rightarrow> nat \<Rightarrow> nat \<Rightarrow> EditBuffer option" where
  "color_write bc col offset sz =
    (if sz > 0
     then do {
       let len = (if sz > COLOR_CHUNK then COLOR_CHUNK else sz);
       bc \<leftarrow> eb_write bc offset (replicate len (byte col));
       color_write bc col (offset + len) (sz - len) }
     else Some bc)"
  by pat_completeness auto
termination by (relation "measure (\<lambda>(bc, col, offset, sz). sz)") (auto simp: COLOR_CHUNK_def)

function color_insert :: "EditBuffer \<Rightarrow> int \<Rightarrow> nat \<Rightarrow> nat \<Rightarrow> EditBuffer option" where
  "color_insert bc col offset sz =
    (if sz > 0
     then do {
       let len = (if sz > COLOR_CHUNK then COLOR_CHUNK else sz);
       bc \<leftarrow> eb_insert bc offset (replicate len (byte col));
       color_insert bc col offset (sz - len) }
     else Some bc)"
  by pat_completeness auto
termination by (relation "measure (\<lambda>(bc, col, offset, sz). sz)") (auto simp: COLOR_CHUNK_def)

declare color_write.simps [simp del] color_insert.simps [simp del]

definition color_change :: "EditBuffer \<Rightarrow> int \<Rightarrow> LogOperation \<Rightarrow> nat \<Rightarrow> nat \<Rightarrow> EditBuffer option" where
  "color_change bc col op offset sz = (case op of
       LOGOP_WRITE \<Rightarrow> color_write bc col offset sz
     | LOGOP_INSERT \<Rightarrow> color_insert bc col offset sz
     | LOGOP_DELETE \<Rightarrow> eb_delete bc offset sz
     | _ \<Rightarrow> Some bc)"

text \<open>Only the buffer of a shell has a color buffer and this callback.\<close>

definition shell_color_callback :: "ShellState \<Rightarrow> LogOperation \<Rightarrow> nat \<Rightarrow> nat \<Rightarrow> ShellState option" where
  "shell_color_callback s op offset sz = (case b_color s of
       None \<Rightarrow> Some s
     | Some bc \<Rightarrow> do {
         bc \<leftarrow> color_change bc (color s) op offset sz;
         Some (s\<lparr>b_color := Some bc\<rparr>) })"

section \<open>The buffer functions with the callback\<close>

definition sh_off :: "ShellState \<Rightarrow> int" where
  "sh_off s = tracked (sh_b s) CUR"

definition set_sh_off :: "ShellState \<Rightarrow> int \<Rightarrow> ShellState" where
  "set_sh_off s v = s\<lparr>sh_b := (sh_b s)\<lparr>tracked := (tracked (sh_b s))(CUR := v)\<rparr>\<rparr>"

definition sh_nextc :: "ShellState \<Rightarrow> u8 list \<Rightarrow> int \<Rightarrow> (int \<times> int \<times> ShellState) option" where
  "sh_nextc s junk p = do {
     (c, q, b) \<leftarrow> eb_nextc (sh_b s) junk p;
     Some (c, q, s\<lparr>sh_b := b\<rparr>) }"

definition sh_prevc :: "ShellState \<Rightarrow> int \<Rightarrow> (int \<times> int \<times> ShellState) option" where
  "sh_prevc s p = do {
     (c, q, b) \<leftarrow> eb_prevc (sh_b s) p;
     Some (c, q, s\<lparr>sh_b := b\<rparr>) }"

definition sh_insert :: "ShellState \<Rightarrow> int \<Rightarrow> u8 list \<Rightarrow> ShellState option" where
  "sh_insert s p bs = do {
     guard (0 \<le> p);
     s \<leftarrow> shell_color_callback s LOGOP_INSERT (nat p) (length bs);
     b \<leftarrow> eb_insert (sh_b s) (nat p) bs;
     Some (s\<lparr>sh_b := b\<rparr>) }"

definition sh_delete :: "ShellState \<Rightarrow> int \<Rightarrow> int \<Rightarrow> ShellState option" where
  "sh_delete s p n = do {
     guard (0 \<le> p \<and> 0 \<le> n);
     s \<leftarrow> (if nat p \<ge> total_size (sh_b s) then Some s
          else shell_color_callback s LOGOP_DELETE (nat p) (nat n));
     b \<leftarrow> eb_delete (sh_b s) (nat p) (nat n);
     Some (s\<lparr>sh_b := b\<rparr>) }"

text \<open>\<open>eb_write\<close> logs the overwritten part and then inserts what is left.\<close>

definition sh_write :: "ShellState \<Rightarrow> int \<Rightarrow> u8 list \<Rightarrow> ShellState option" where
  "sh_write s p bs = do {
     guard (0 \<le> p);
     let size1 = rw_size (sh_b s) (nat p) (length bs);
     s \<leftarrow> (if size1 = 0 then Some s else shell_color_callback s LOGOP_WRITE (nat p) size1);
     s \<leftarrow> (if length bs - size1 > 0
          then shell_color_callback s LOGOP_INSERT (nat p + size1) (length bs - size1) else Some s);
     b \<leftarrow> eb_write (sh_b s) (nat p) bs;
     Some (s\<lparr>sh_b := b\<rparr>) }"

section \<open>The emulation\<close>

text \<open>\<open>tty_gotoxy\<close>: lines are added at the end of the buffer, spaces at the end of the line.\<close>

function add_lines :: "ShellState \<Rightarrow> nat \<Rightarrow> nat \<Rightarrow> ShellState option" where
  "add_lines s line_num total_lines =
    (if line_num \<ge> total_lines
     then do {
       s \<leftarrow> sh_insert s (int (total_size (sh_b s))) [10];
       add_lines s line_num (total_lines + 1) }
     else Some s)"
  by pat_completeness auto
termination by (relation "measure (\<lambda>(s, line_num, total_lines). line_num + 1 - total_lines)") auto

declare add_lines.simps [simp del]

fun insert_spaces :: "ShellState \<Rightarrow> int \<Rightarrow> nat \<Rightarrow> ShellState option" where
  "insert_spaces s offset 0 = Some s"
| "insert_spaces s offset (Suc x) = do {
     s \<leftarrow> sh_insert s offset [32];
     insert_spaces s offset x }"

fun goto_x :: "ShellState \<Rightarrow> u8 list \<Rightarrow> int \<Rightarrow> nat \<Rightarrow> (int \<times> ShellState) option" where
  "goto_x s junk offset 0 = Some (offset, s)"
| "goto_x s junk offset (Suc x) = do {
     (c, offset1, s) \<leftarrow> sh_nextc s junk offset;
     if c = 10
     then do { s \<leftarrow> insert_spaces s offset (Suc x); Some (offset, s) }
     else goto_x s junk offset1 x }"

definition tty_gotoxy :: "ShellState \<Rightarrow> u8 list \<Rightarrow> nat \<Rightarrow> nat \<Rightarrow> ShellState option" where
  "tty_gotoxy s junk x y = do {
     let ((total_lines, col_num), b) = eb_get_pos (sh_b s) (total_size (sh_b s));
     let s = s\<lparr>sh_b := b\<rparr>;
     let line_num = total_lines - TTY_YSIZE + y;
     s \<leftarrow> add_lines s line_num total_lines;
     (offset, b) \<leftarrow> eb_goto_pos (sh_b s) junk line_num 0;
     let s = s\<lparr>sh_b := b\<rparr>;
     (offset, s) \<leftarrow> goto_x s junk offset x;
     Some (set_sh_off s offset) }"

definition tty_update_cursor :: "ShellState \<Rightarrow> ShellState" where
  "tty_update_cursor s =
    (if sh_off s = -1 then s
     else s\<lparr>sh_b := (sh_b s)\<lparr>tracked :=
       fold (\<lambda>(a, interactive) m. if interactive then m(a := m CUR) else m) (sh_windows s) (tracked (sh_b s))\<rparr>\<rparr>)"

text \<open>The control characters: backspace, line feed and carriage return.\<close>

definition tty_bs :: "ShellState \<Rightarrow> ShellState option" where
  "tty_bs s = do {
     (c1, offset, s) \<leftarrow> sh_prevc s (sh_off s);
     Some (if c1 \<noteq> 10 then set_sh_off s offset else s) }"

partial_function (option) lf_loop :: "ShellState \<Rightarrow> u8 list \<Rightarrow> int \<Rightarrow> (int \<times> ShellState) option" where
  "lf_loop s junk offset =
    (if offset = int (total_size (sh_b s))
     then do {
       s \<leftarrow> sh_insert s offset [10];
       Some (int (total_size (sh_b s)), s) }
     else do {
       (c, offset, s) \<leftarrow> sh_nextc s junk offset;
       if c = 10 then Some (offset, s) else lf_loop s junk offset })"

definition tty_lf :: "ShellState \<Rightarrow> u8 list \<Rightarrow> ShellState option" where
  "tty_lf s junk = do {
     (offset, s) \<leftarrow> lf_loop s junk (sh_off s);
     Some (set_sh_off s offset) }"

partial_function (option) tty_cr :: "ShellState \<Rightarrow> ShellState option" where
  "tty_cr s = do {
     (c, offset1, s) \<leftarrow> sh_prevc s (sh_off s);
     if c = 10 then Some s else tty_cr (set_sh_off s offset1) }"

text \<open>A character overwrites the one at the cursor, and is inserted at the end of a line.\<close>

definition tty_put :: "ShellState \<Rightarrow> u8 list \<Rightarrow> int \<Rightarrow> ShellState option" where
  "tty_put s junk c = do {
     let buf = unicode_to_charset c (charset (sh_b s));
     let len = int (length buf);
     (c1, offset, s) \<leftarrow> sh_nextc s junk (sh_off s);
     s \<leftarrow> (if c1 = 10 then sh_insert s (sh_off s) buf
          else do {
            let cur_len = offset - sh_off s;
            if cur_len = len then sh_write s (sh_off s) buf
            else do {
              s \<leftarrow> sh_delete s (sh_off s) cur_len;
              sh_insert s (sh_off s) buf } });
     Some (set_sh_off s (sh_off s + len)) }"

text \<open>The end of the line, at most \<open>n\<close> characters away if there is a limit.\<close>

partial_function (option) eol_loop :: "ShellState \<Rightarrow> u8 list \<Rightarrow> int \<Rightarrow> (int \<times> ShellState) option" where
  "eol_loop s junk offset1 = do {
     (c, offset2, s) \<leftarrow> sh_nextc s junk offset1;
     if c = 10 then Some (offset1, s) else eol_loop s junk offset2 }"

fun chars_loop :: "ShellState \<Rightarrow> u8 list \<Rightarrow> int \<Rightarrow> nat \<Rightarrow> (int \<times> ShellState) option" where
  "chars_loop s junk offset1 0 = Some (offset1, s)"
| "chars_loop s junk offset1 (Suc n) = do {
     (c, offset2, s) \<leftarrow> sh_nextc s junk offset1;
     if c = 10 then Some (offset1, s) else chars_loop s junk offset2 n }"

definition csi_K :: "ShellState \<Rightarrow> u8 list \<Rightarrow> ShellState option" where
  "csi_K s junk = do {
     (offset1, s) \<leftarrow> eol_loop s junk (sh_off s);
     sh_delete s (sh_off s) (offset1 - sh_off s) }"

definition csi_P :: "ShellState \<Rightarrow> u8 list \<Rightarrow> ShellState option" where
  "csi_P s junk = do {
     (offset1, s) \<leftarrow> chars_loop s junk (sh_off s) (csi_count s);
     sh_delete s (sh_off s) (offset1 - sh_off s) }"

definition tty_csi :: "ShellState \<Rightarrow> u8 list \<Rightarrow> int \<Rightarrow> ShellState option" where
  "tty_csi s junk c =
    (if c = code CHR ''H'' then tty_gotoxy s junk (csi_x s) (csi_y s)
     else if c = code CHR ''K'' then csi_K s junk
     else if c = code CHR ''P'' then csi_P s junk
     else if c = code CHR ''@'' then insert_spaces s (sh_off s) (csi_count s)
     else if c = code CHR ''m'' then csi_m s
     else if c = code CHR ''n'' then csi_n s
     else Some s)"

definition tty_emulate :: "ShellState \<Rightarrow> u8 list \<Rightarrow> int \<Rightarrow> ShellState option" where
  "tty_emulate s junk c = map_option tty_update_cursor (case tty_state s of
       TTY_STATE_NORM \<Rightarrow>
         if c = 8 then tty_bs s
         else if c = 10 then tty_lf s junk
         else if c = 13 then tty_cr s
         else if c = 27 then Some (s\<lparr>tty_state := TTY_STATE_ESC\<rparr>)
         else if c \<ge> 32 \<or> c = 9 then tty_put s junk c
         else Some s
     | TTY_STATE_ESC \<Rightarrow>
         if c = code CHR ''[''
         then Some (s\<lparr>esc_params := replicate MAX_ESC_PARAMS 0, nb_esc_params := 0, tty_state := TTY_STATE_CSI\<rparr>)
         else Some (s\<lparr>tty_state := TTY_STATE_NORM\<rparr>)
     | TTY_STATE_CSI \<Rightarrow>
         if c \<ge> 48 \<and> c \<le> 57 then csi_digit c s
         else do {
           guard (nb_esc_params s < INT_LIMIT);
           let s = s\<lparr>nb_esc_params := nb_esc_params s + 1\<rparr>;
           if c = code CHR '';'' then Some s
           else tty_csi (s\<lparr>tty_state := TTY_STATE_NORM\<rparr>) junk c })"

text \<open>What \<open>shell_read_cb\<close> does with the bytes that \<open>read\<close> gave, before the redisplay.\<close>

fun shell_read_cb :: "ShellState \<Rightarrow> u8 list \<Rightarrow> u8 list \<Rightarrow> ShellState option" where
  "shell_read_cb s junk [] = Some s"
| "shell_read_cb s junk (c # buf) = do {
     s \<leftarrow> tty_emulate s junk (uint c);
     shell_read_cb s junk buf }"

section \<open>A new shell, its end and its input\<close>

definition tty_init :: "ShellState \<Rightarrow> ShellState" where
  "tty_init s =
    (let s = set_sh_off (s\<lparr>tty_state := TTY_STATE_NORM\<rparr>) 0;
         s = s\<lparr>def_color := TTY_GET_COLOR 7 0\<rparr>
     in s\<lparr>color := def_color s\<rparr>)"

text \<open>
  \<open>new_shell_buffer\<close> on the buffer \<open>b\<close> that \<open>eb_new\<close> gave, with the file and process numbers of
  \<open>run_process\<close>. The parameters of the escape sequences are not set: \<open>junk\<close>.
\<close>

definition new_shell_buffer :: "EditBuffer \<Rightarrow> bool \<Rightarrow> int \<Rightarrow> int \<Rightarrow> int list \<Rightarrow> int \<Rightarrow> ShellState" where
  "new_shell_buffer b shell fd process junk nb =
    (let s = \<lparr>pty_fd = fd, pid = process, color = 0, def_color = 0, esc_params = junk, nb_esc_params = nb,
               tty_state = TTY_STATE_NORM, is_shell = shell, pty_out = [], pty_answers = [],
               sh_b = eb_add_callback b CUR, b_color = None, sh_windows = []\<rparr>;
         s = tty_init s
     in if shell then s\<lparr>b_color := Some ((alloc_buffer ''*color*'' BF_SYSTEM)\<lparr>save_log := False\<rparr>)\<rparr> else s)"

text \<open>\<open>shell_pid_cb\<close>: the exit code is \<open>None\<close> when the process was killed.\<close>

definition finish_message :: "bool \<Rightarrow> nat option \<Rightarrow> string \<Rightarrow> u8 list" where
  "finish_message shell status time_str = bytes_of (
     if shell then [CHR 0x0A] @ ''Process shell finished'' @ [CHR 0x0A]
     else if status = Some 0 then [CHR 0x0A] @ ''Compilation finished at '' @ time_str
     else [CHR 0x0A] @ ''Compilation exited abnormally with code '' @
       (case status of None \<Rightarrow> ''-1'' | Some n \<Rightarrow> dec n) @ '' at '' @ time_str)"

definition shell_pid_cb :: "ShellState \<Rightarrow> nat option \<Rightarrow> string \<Rightarrow> ShellState option" where
  "shell_pid_cb s status time_str = do {
     s \<leftarrow> sh_write s (int (total_size (sh_b s))) (take 1023 (finish_message (is_shell s) status time_str));
     Some (s\<lparr>pid := -1, pty_fd := -1, sh_windows := map (\<lambda>(a, _). (a, False)) (sh_windows s)\<rparr>) }"

text \<open>What \<open>shell_close\<close> does to the buffer.\<close>

definition shell_close :: "ShellState \<Rightarrow> EditBuffer" where
  "shell_close s = eb_free_callback (sh_b s) CUR"

text \<open>Toggle the input mode of the window whose offset is at address \<open>a\<close>.\<close>

definition do_shell_toggle_input :: "tracker \<Rightarrow> ShellState \<Rightarrow> ShellState" where
  "do_shell_toggle_input a s =
    (let s = s\<lparr>sh_windows := map (\<lambda>(x, i). (x, if x = a then \<not> i else i)) (sh_windows s)\<rparr>
     in if (a, True) \<in> set (sh_windows s) then tty_update_cursor s else s)"

text \<open>A key goes to the process, or to the function of the text mode that edits the buffer.\<close>

datatype TextCall = Move_Left_Right int | Move_Up_Down int | Move_Bol | Move_Eol | Delete_Char | Tab
  | Kill_Region int | Backspace | Return | Write_Char int

definition tty_keys :: "'a Tty_scheme \<Rightarrow> bool \<Rightarrow> u8 list \<Rightarrow> TextCall \<Rightarrow> (TextCall + 'a Tty_scheme) option" where
  "tty_keys s interactive bs call = (if interactive then map_option Inr (tty_write s bs) else Some (Inl call))"

definition shell_move_left_right :: "'a Tty_scheme \<Rightarrow> bool \<Rightarrow> int \<Rightarrow> (TextCall + 'a Tty_scheme) option" where
  "shell_move_left_right s interactive dir =
     tty_keys s interactive (27 # bytes_of (if dir > 0 then ''[C'' else ''[D'')) (Move_Left_Right dir)"

definition shell_move_up_down :: "'a Tty_scheme \<Rightarrow> bool \<Rightarrow> int \<Rightarrow> (TextCall + 'a Tty_scheme) option" where
  "shell_move_up_down s interactive dir =
     tty_keys s interactive (27 # bytes_of (if dir > 0 then ''[B'' else ''[A'')) (Move_Up_Down dir)"

definition shell_move_bol :: "'a Tty_scheme \<Rightarrow> bool \<Rightarrow> (TextCall + 'a Tty_scheme) option" where
  "shell_move_bol s interactive = tty_keys s interactive [1] Move_Bol"

definition shell_move_eol :: "'a Tty_scheme \<Rightarrow> bool \<Rightarrow> (TextCall + 'a Tty_scheme) option" where
  "shell_move_eol s interactive = tty_keys s interactive [5] Move_Eol"

definition shell_write_char :: "'a Tty_scheme \<Rightarrow> bool \<Rightarrow> int \<Rightarrow> (TextCall + 'a Tty_scheme) option" where
  "shell_write_char s interactive c = tty_keys s interactive [byte c]
     (if c = 4 then Delete_Char else if c = 9 then Tab else if c = 11 then Kill_Region 2
      else if c = 127 then Backspace else if c = 13 then Return else Write_Char c)"

section \<open>The colored line\<close>

definition QE_STYLE_TTY :: u32 where "QE_STYLE_TTY = 0x800"

definition colored :: "int \<Rightarrow> u8 \<Rightarrow> int \<Rightarrow> u32" where
  "colored def col c =
    (if uint col \<noteq> def then or (word_of_int c) (push_bit STYLE_SHIFT (or QE_STYLE_TTY (word_of_int (uint col))))
     else word_of_int c)"

text \<open>
  \<open>shell_get_colorized_line\<close>: \<open>room\<close> characters still fit, and \<open>col\<close> is what the one byte for
  the color holds, which a read behind the color buffer leaves as it was.
\<close>

partial_function (option) shell_get_colorized_line ::
    "ShellState \<Rightarrow> u8 list \<Rightarrow> u8 \<Rightarrow> nat \<Rightarrow> int \<Rightarrow> (u32 list \<times> ShellState) option" where
  "shell_get_colorized_line s junk col room offset = do {
     guard (0 \<le> offset);
     bc \<leftarrow> b_color s;
     (bs, bc) \<leftarrow> eb_read bc (nat offset) 1;
     let s = s\<lparr>b_color := Some bc\<rparr>;
     let col = (case bs of [] \<Rightarrow> col | x # _ \<Rightarrow> x);
     (c, offset1, s) \<leftarrow> sh_nextc s junk offset;
     if c = 10 then Some ([], s)
     else do {
       (cs, s) \<leftarrow> shell_get_colorized_line s junk col (room - 1) offset1;
       Some (if room > 0 then colored (def_color s) col c # cs else cs, s) } }"

end
