(* ===== verification/Shell_Term.thy ===== *)
theory Shell_Term
  imports Shell
begin

text \<open>
  The terminal that the shell mode shows: a text, a color per byte, a position, and the state of the
  escape sequence. \<open>term_step\<close> says what a byte of the process does to it; \<open>represents\<close> relates it
  to the buffers of a \<open>ShellState\<close>, and \<open>tty_emulate_step\<close> shows that the code implements it in
  the charsets of one byte per character.
\<close>

section \<open>The terminal\<close>

record Term = Tty +
  t_text :: "u8 list"
  t_colors :: "u8 list option"
  t_pos :: nat

definition eol :: "u8 list \<Rightarrow> nat \<Rightarrow> nat" where
  "eol t p = scan (\<lambda>c. c \<noteq> 10) t p"

definition bol :: "u8 list \<Rightarrow> nat \<Rightarrow> nat" where
  "bol t p = scan_back (\<lambda>c. c \<noteq> 10) t p"

definition paint :: "'a Tty_scheme \<Rightarrow> nat \<Rightarrow> u8 list" where
  "paint a n = replicate n (byte (color a))"

definition term_insert :: "nat \<Rightarrow> u8 list \<Rightarrow> Term \<Rightarrow> Term" where
  "term_insert p bs a = a\<lparr>t_text := list_insert p bs (t_text a),
     t_colors := map_option (list_insert p (paint a (length bs))) (t_colors a)\<rparr>"

definition term_write :: "nat \<Rightarrow> u8 list \<Rightarrow> Term \<Rightarrow> Term" where
  "term_write p bs a = a\<lparr>t_text := list_write p bs (t_text a),
     t_colors := map_option (list_write p (paint a (length bs))) (t_colors a)\<rparr>"

definition term_delete :: "nat \<Rightarrow> nat \<Rightarrow> Term \<Rightarrow> Term" where
  "term_delete p n a = a\<lparr>t_text := list_delete p n (t_text a),
     t_colors := map_option (list_delete p n) (t_colors a)\<rparr>"

definition term_lf :: "Term \<Rightarrow> Term" where
  "term_lf a =
    (let e = eol (t_text a) (t_pos a)
     in if e < length (t_text a) then a\<lparr>t_pos := e + 1\<rparr> else (term_insert e [10] a)\<lparr>t_pos := e + 1\<rparr>)"

definition term_put :: "u8 \<Rightarrow> Term \<Rightarrow> Term" where
  "term_put c a =
    (let p = t_pos a
     in (if p = length (t_text a) \<or> t_text a ! p = 10 then term_insert p [c] a else term_write p [c] a)\<lparr>t_pos := p + 1\<rparr>)"

definition term_lines :: "nat \<Rightarrow> Term \<Rightarrow> Term" where
  "term_lines n a = term_insert (length (t_text a)) (replicate (n + 1 - count_list (t_text a) 10) 10) a"

definition term_goto :: "nat \<Rightarrow> nat \<Rightarrow> Term \<Rightarrow> Term" where
  "term_goto x y a =
    (let n = count_list (t_text a) 10 - TTY_YSIZE + y;
         a = term_lines n a;
         p = line_start n (t_text a);
         e = eol (t_text a) p
     in if x \<le> e - p then a\<lparr>t_pos := p + x\<rparr>
        else (term_insert e (replicate (x - (e - p)) 32) a)\<lparr>t_pos := e\<rparr>)"

definition term_csi :: "int \<Rightarrow> Term \<Rightarrow> Term option" where
  "term_csi c a =
    (let p = t_pos a; room = eol (t_text a) p - p
     in if c = code CHR ''H'' then Some (term_goto (csi_x a) (csi_y a) a)
        else if c = code CHR ''K'' then Some (term_delete p room a)
        else if c = code CHR ''P'' then Some (term_delete p (min (csi_count a) room) a)
        else if c = code CHR ''@'' then Some (term_insert p (replicate (csi_count a) 32) a)
        else if c = code CHR ''m'' then csi_m a
        else if c = code CHR ''n'' then csi_n a
        else Some a)"

definition term_step :: "QECharset \<Rightarrow> int \<Rightarrow> Term \<Rightarrow> Term option" where
  "term_step cs c a = (case tty_state a of
       TTY_STATE_NORM \<Rightarrow> Some (
         if c = 8 then (if bol (t_text a) (t_pos a) < t_pos a then a\<lparr>t_pos := t_pos a - 1\<rparr> else a)
         else if c = 10 then term_lf a
         else if c = 13 then a\<lparr>t_pos := bol (t_text a) (t_pos a)\<rparr>
         else if c = 27 then a\<lparr>tty_state := TTY_STATE_ESC\<rparr>
         else if c \<ge> 32 \<or> c = 9 then term_put (hd (unicode_to_charset c cs)) a
         else a)
     | TTY_STATE_ESC \<Rightarrow> Some (
         if c = code CHR ''[''
         then a\<lparr>esc_params := replicate MAX_ESC_PARAMS 0, nb_esc_params := 0, tty_state := TTY_STATE_CSI\<rparr>
         else a\<lparr>tty_state := TTY_STATE_NORM\<rparr>)
     | TTY_STATE_CSI \<Rightarrow>
         if c \<ge> 48 \<and> c \<le> 57 then csi_digit c a
         else do {
           guard (nb_esc_params a < INT_LIMIT);
           let a = a\<lparr>nb_esc_params := nb_esc_params a + 1\<rparr>;
           if c = code CHR '';'' then Some a else term_csi c (a\<lparr>tty_state := TTY_STATE_NORM\<rparr>) })"

section \<open>The color buffer\<close>

lemma color_insert_text:
  assumes "byte_text bc cs" "p \<le> length cs" "length cs + n < 2147483648"
  shows "\<exists>bc'. color_insert bc col p n = Some bc' \<and> byte_text bc' (list_insert p (replicate n (byte col)) cs)"
  using assms
proof (induction n arbitrary: bc cs rule: less_induct)
  case (less n)
  show ?case
  proof (cases "n = 0")
    case False
    define k where "k = (if n > COLOR_CHUNK then COLOR_CHUNK else n)"
    have k: "0 < k" "k \<le> n" using False by (auto simp: k_def COLOR_CHUNK_def)
    obtain b1 where b1: "eb_insert bc p (replicate k (byte col)) = Some b1"
      "byte_text b1 (list_insert p (replicate k (byte col)) cs)"
      using byte_text_insert [OF less.prems(1,2), of "replicate k (byte col)"] less.prems(3) k by auto
    have *: "list_insert p (replicate (n - k) (byte col)) (list_insert p (replicate k (byte col)) cs) =
        list_insert p (replicate n (byte col)) cs"
      using less.prems(2) k(2) by (simp add: list_insert_def flip: append_assoc replicate_add)
    obtain b2 where "color_insert b1 col p (n - k) = Some b2"
      "byte_text b2 (list_insert p (replicate n (byte col)) cs)"
      using less.IH [OF _ b1(2), of "n - k"] k less.prems(2,3) unfolding * by auto
    then show ?thesis using False b1(1) by (subst color_insert.simps) (simp add: k_def Let_def)
  qed (use less.prems in \<open>simp add: color_insert.simps\<close>)
qed

lemma color_write_text:
  assumes "byte_text bc cs" "p + n \<le> length cs" "length cs + n < 2147483648"
  shows "\<exists>bc'. color_write bc col p n = Some bc' \<and> byte_text bc' (list_write p (replicate n (byte col)) cs)"
  using assms
proof (induction n arbitrary: bc cs p rule: less_induct)
  case (less n)
  show ?case
  proof (cases "n = 0")
    case False
    define k where "k = (if n > COLOR_CHUNK then COLOR_CHUNK else n)"
    have k: "0 < k" "k \<le> n" using False by (auto simp: k_def COLOR_CHUNK_def)
    obtain b1 where b1: "eb_write bc p (replicate k (byte col)) = Some b1"
      "byte_text b1 (list_write p (replicate k (byte col)) cs)"
      using byte_text_write [OF less.prems(1), of p "replicate k (byte col)"] less.prems(2,3) k by auto
    have *: "list_write (p + k) (replicate (n - k) (byte col)) (list_write p (replicate k (byte col)) cs) =
        list_write p (replicate n (byte col)) cs"
    proof -
      have "replicate k (byte col) @ replicate (n - k) (byte col) = replicate n (byte col)"
        using k(2) by (simp flip: replicate_add)
      then show ?thesis using less.prems(2) k(2) by (simp add: list_write_def add.commute)
    qed
    have l: "length cs + n - k < 2147483648" using less.prems(3) k by linarith
    obtain b2 where "color_write b1 col (p + k) (n - k) = Some b2"
      "byte_text b2 (list_write p (replicate n (byte col)) cs)"
      using less.IH [OF _ b1(2), of "n - k" "p + k"] k l less.prems(2,3) unfolding * by auto
    then show ?thesis using False b1(1) by (subst color_write.simps) (simp add: k_def Let_def)
  qed (use less.prems in \<open>simp add: color_write.simps list_write_def\<close>)
qed

section \<open>What the buffers hold\<close>

definition colors_ok :: "EditBuffer option \<Rightarrow> u8 list option \<Rightarrow> nat \<Rightarrow> bool" where
  "colors_ok bc k n = (case (bc, k) of
       (None, None) \<Rightarrow> True
     | (Some b, Some l) \<Rightarrow> byte_text b l \<and> length l = n
     | _ \<Rightarrow> False)"

definition sh_holds :: "QECharset \<Rightarrow> ShellState \<Rightarrow> u8 list \<Rightarrow> u8 list option \<Rightarrow> bool" where
  "sh_holds cs s t k \<longleftrightarrow> byte_text (sh_b s) t \<and> charset (sh_b s) = cs \<and>
     count_list (callbacks (sh_b s)) CUR = 1 \<and> CUR \<notin> fst ` set (sh_windows s) \<and>
     colors_ok (b_color s) k (length t)"

definition same_tty :: "ShellState \<Rightarrow> ShellState \<Rightarrow> bool" where
  "same_tty s s' \<longleftrightarrow> Tty.truncate s' = Tty.truncate s \<and> sh_windows s' = sh_windows s"

lemma same_tty_refl [simp]: "same_tty s s"
  by (simp add: same_tty_def)

lemma same_tty_trans: "same_tty s s1 \<Longrightarrow> same_tty s1 s2 \<Longrightarrow> same_tty s s2"
  by (simp add: same_tty_def)

lemma same_ttyD: "same_tty s s' \<Longrightarrow> color s' = color s"
  by (simp add: same_tty_def Tty.truncate_def)

lemma same_tty_sh_b [simp]: "same_tty s (s\<lparr>sh_b := b\<rparr>)" "same_tty s (s\<lparr>b_color := bc\<rparr>)"
  "same_tty s (set_sh_off s v)"
  by (simp_all add: same_tty_def Tty.truncate_def set_sh_off_def)

lemma call_callbacks_once:
  "count_list l a = 1 \<Longrightarrow> call_callbacks l m op p n a = eb_offset_callback m a op p n a"
proof (induction l arbitrary: m)
  case (Cons x l)
  let ?m = "eb_offset_callback m x op p n"
  show ?case
  proof (cases "x = a")
    case True
    then have "a \<notin> set l" using Cons.prems by (simp add: count_list_0_iff)
    then show ?thesis using True by (simp add: call_callbacks_other)
  next
    case False
    have "?m a = m a" using False by (auto simp: eb_offset_callback_def Let_def split: LogOperation.split)
    then have "eb_offset_callback ?m a op p n a = eb_offset_callback m a op p n a"
      by (auto simp: eb_offset_callback_def Let_def split: LogOperation.split)
    then show ?thesis using Cons False by simp
  qed
qed simp

lemma sh_holds_kept:
  assumes "sh_holds cs s t k" "byte_text b t'" "kept (sh_b s) b" "colors_ok bc k' (length t')"
  shows "sh_holds cs (s\<lparr>sh_b := b, b_color := bc\<rparr>) t' k'"
  using assms by (simp add: sh_holds_def kept_def)

lemma sh_holds_read:
  assumes "sh_holds cs s t k" "byte_text b t" "kept (sh_b s) b"
  shows "sh_holds cs (s\<lparr>sh_b := b\<rparr>) t k"
  using assms by (simp add: sh_holds_def kept_def)

lemma sh_holds_goto [simp]: "sh_holds cs (set_sh_off s v) t k = sh_holds cs s t k"
  by (simp add: sh_holds_def set_sh_off_def)

lemma sh_off_goto [simp]: "sh_off (set_sh_off s v) = v"
  by (simp add: sh_off_def set_sh_off_def)

lemma sh_holds_size: "sh_holds cs s t k \<Longrightarrow> total_size (sh_b s) = length t"
  using byte_textD(3) by (auto simp: sh_holds_def)

lemma callback_insert:
  assumes "colors_ok (b_color s) k n" "p \<le> n" "n + m < 2147483648"
  shows "\<exists>bc. shell_color_callback s LOGOP_INSERT p m = Some (s\<lparr>b_color := bc\<rparr>) \<and>
    colors_ok bc (map_option (list_insert p (paint s m)) k) (n + m)"
proof (cases "b_color s")
  case (Some b)
  then obtain l where "k = Some l" "byte_text b l" "length l = n"
    using assms(1) by (auto simp: colors_ok_def split: option.splits)
  then show ?thesis
    using Some color_insert_text [of b l p m "color s"] assms(2,3)
    by (auto simp: shell_color_callback_def color_change_def colors_ok_def paint_def)
next
  case None
  then have "s\<lparr>b_color := None\<rparr> = s" by simp
  then show ?thesis
    using None assms(1) by (auto simp: shell_color_callback_def colors_ok_def split: option.splits intro!: exI [of _ None])
qed

lemma callback_write:
  assumes "colors_ok (b_color s) k n" "p + m \<le> n" "n + m < 2147483648"
  shows "\<exists>bc. shell_color_callback s LOGOP_WRITE p m = Some (s\<lparr>b_color := bc\<rparr>) \<and>
    colors_ok bc (map_option (list_write p (paint s m)) k) n"
proof (cases "b_color s")
  case (Some b)
  then obtain l where "k = Some l" "byte_text b l" "length l = n"
    using assms(1) by (auto simp: colors_ok_def split: option.splits)
  then show ?thesis
    using Some color_write_text [of b l p m "color s"] assms(2,3)
    by (auto simp: shell_color_callback_def color_change_def colors_ok_def paint_def)
next
  case None
  then have "s\<lparr>b_color := None\<rparr> = s" by simp
  then show ?thesis
    using None assms(1) by (auto simp: shell_color_callback_def colors_ok_def split: option.splits intro!: exI [of _ None])
qed

lemma callback_delete:
  assumes "colors_ok (b_color s) k n" "p + m \<le> n" "n < 2147483648"
  shows "\<exists>bc. shell_color_callback s LOGOP_DELETE p m = Some (s\<lparr>b_color := bc\<rparr>) \<and>
    colors_ok bc (map_option (list_delete p m) k) (n - m)"
proof (cases "b_color s")
  case (Some b)
  then obtain l where "k = Some l" "byte_text b l" "length l = n"
    using assms(1) by (auto simp: colors_ok_def split: option.splits)
  then show ?thesis
    using Some byte_text_delete [of b l p m] assms(2,3)
    by (auto simp: shell_color_callback_def color_change_def colors_ok_def)
next
  case None
  then have "s\<lparr>b_color := None\<rparr> = s" by simp
  then show ?thesis
    using None assms(1) by (auto simp: shell_color_callback_def colors_ok_def split: option.splits intro!: exI [of _ None])
qed

section \<open>The buffer functions\<close>

lemma hold_insert:
  assumes "sh_holds cs s t k" "p \<le> length t" "length t + length bs < 2147483648"
  shows "\<exists>s'. sh_insert s (int p) bs = Some s' \<and>
    sh_holds cs s' (list_insert p bs t) (map_option (list_insert p (paint s (length bs))) k) \<and> same_tty s s' \<and>
    sh_off s' = (if sh_off s > int p then sh_off s + int (length bs) else sh_off s)"
proof -
  have h: "byte_text (sh_b s) t" "count_list (callbacks (sh_b s)) CUR = 1" "colors_ok (b_color s) k (length t)"
    using assms(1) by (simp_all add: sh_holds_def)
  obtain bc where bc: "shell_color_callback s LOGOP_INSERT p (length bs) = Some (s\<lparr>b_color := bc\<rparr>)"
    "colors_ok bc (map_option (list_insert p (paint s (length bs))) k) (length t + length bs)"
    using callback_insert [OF h(3) assms(2,3)] by blast
  obtain b where b: "eb_insert (sh_b s) p bs = Some b" "byte_text b (list_insert p bs t)" "kept (sh_b s) b"
    "tracked b = call_callbacks (callbacks (sh_b s)) (tracked (sh_b s)) LOGOP_INSERT (int p) (int (length bs))"
    using byte_text_insert [OF h(1) assms(2,3)] by auto
  have "sh_insert s (int p) bs = Some (s\<lparr>sh_b := b, b_color := bc\<rparr>)"
    using bc(1) b(1) by (simp add: sh_insert_def)
  moreover have "sh_holds cs (s\<lparr>sh_b := b, b_color := bc\<rparr>) (list_insert p bs t)
      (map_option (list_insert p (paint s (length bs))) k)"
    by (rule sh_holds_kept [OF assms(1) b(2,3)]) (use bc(2) in simp)
  moreover have "sh_off (s\<lparr>sh_b := b, b_color := bc\<rparr>) =
      (if sh_off s > int p then sh_off s + int (length bs) else sh_off s)"
    using b(4) h(2) by (simp add: sh_off_def call_callbacks_once eb_offset_callback_def)
  moreover have "same_tty s (s\<lparr>sh_b := b, b_color := bc\<rparr>)" by (simp add: same_tty_def Tty.truncate_def)
  ultimately show ?thesis by blast
qed

lemma hold_delete:
  assumes "sh_holds cs s t k" "p + n \<le> length t" "length t < 2147483648" "sh_off s \<le> int p"
  shows "\<exists>s'. sh_delete s (int p) (int n) = Some s' \<and>
    sh_holds cs s' (list_delete p n t) (map_option (list_delete p n) k) \<and> same_tty s s' \<and> sh_off s' = sh_off s"
proof -
  have h: "byte_text (sh_b s) t" "count_list (callbacks (sh_b s)) CUR = 1" "colors_ok (b_color s) k (length t)"
    using assms(1) by (simp_all add: sh_holds_def)
  note sz = byte_textD(3) [OF h(1)]
  show ?thesis
  proof (cases "p < length t")
    case True
    obtain bc where bc: "shell_color_callback s LOGOP_DELETE p n = Some (s\<lparr>b_color := bc\<rparr>)"
      "colors_ok bc (map_option (list_delete p n) k) (length t - n)"
      using callback_delete [OF h(3) assms(2,3)] by blast
    obtain b where b: "eb_delete (sh_b s) p n = Some b" "byte_text b (list_delete p n t)" "kept (sh_b s) b"
      "tracked b = call_callbacks (callbacks (sh_b s)) (tracked (sh_b s)) LOGOP_DELETE (int p) (int n)"
      using byte_text_delete [OF h(1) assms(2,3)] True by auto
    have "sh_delete s (int p) (int n) = Some (s\<lparr>sh_b := b, b_color := bc\<rparr>)"
      using bc(1) b(1) True sz by (simp add: sh_delete_def)
    moreover have "sh_holds cs (s\<lparr>sh_b := b, b_color := bc\<rparr>) (list_delete p n t) (map_option (list_delete p n) k)"
      by (rule sh_holds_kept [OF assms(1) b(2,3)]) (use bc(2) assms(2) in simp)
    moreover have "sh_off (s\<lparr>sh_b := b, b_color := bc\<rparr>) = sh_off s"
      using b(4) h(2) assms(4) by (simp add: sh_off_def call_callbacks_once eb_offset_callback_def)
    moreover have "same_tty s (s\<lparr>sh_b := b, b_color := bc\<rparr>)" by (simp add: same_tty_def Tty.truncate_def)
    ultimately show ?thesis by blast
  next
    case False
    then have p: "p = length t" "n = 0" using assms(2) by simp_all
    have "k = map_option (list_delete p n) k"
      using p h(3) by (auto simp: colors_ok_def list_delete_def split: option.splits)
    moreover have "list_delete p n t = t" using p by (simp add: list_delete_def)
    moreover have "eb_delete (sh_b s) p n = Some (sh_b s)" using p sz by (simp add: eb_delete_def)
    ultimately have "sh_delete s (int p) (int n) = Some s" using p sz by (simp add: sh_delete_def)
    with assms(1) \<open>k = _\<close> \<open>list_delete p n t = t\<close> show ?thesis by (metis same_tty_refl)
  qed
qed

lemma hold_write:
  assumes "sh_holds cs s t k" "p + length bs \<le> length t" "length t + length bs < 2147483648" "bs \<noteq> []"
  shows "\<exists>s'. sh_write s (int p) bs = Some s' \<and>
    sh_holds cs s' (list_write p bs t) (map_option (list_write p (paint s (length bs))) k) \<and> same_tty s s' \<and>
    sh_off s' = sh_off s"
proof -
  have h: "byte_text (sh_b s) t" "colors_ok (b_color s) k (length t)"
    using assms(1) by (simp_all add: sh_holds_def)
  note sz = byte_textD(3) [OF h(1)]
  obtain bc where bc: "shell_color_callback s LOGOP_WRITE p (length bs) = Some (s\<lparr>b_color := bc\<rparr>)"
    "colors_ok bc (map_option (list_write p (paint s (length bs))) k) (length t)"
    using callback_write [OF h(2) assms(2,3)] by blast
  obtain b where b: "eb_write (sh_b s) p bs = Some b" "byte_text b (list_write p bs t)" "kept (sh_b s) b"
    "tracked b = tracked (sh_b s)"
    using byte_text_write [OF h(1) assms(2,3)] by auto
  have rw: "rw_size (sh_b s) p (length bs) = length bs" using assms(2) sz by (simp add: rw_size_def)
  have "sh_write s (int p) bs = Some (s\<lparr>sh_b := b, b_color := bc\<rparr>)"
    using bc(1) b(1) rw assms(4) by (simp add: sh_write_def)
  moreover have "sh_holds cs (s\<lparr>sh_b := b, b_color := bc\<rparr>) (list_write p bs t)
      (map_option (list_write p (paint s (length bs))) k)"
    by (rule sh_holds_kept [OF assms(1) b(2,3)]) (use bc(2) assms(2) in simp)
  moreover have "sh_off (s\<lparr>sh_b := b, b_color := bc\<rparr>) = sh_off s" using b(4) by (simp add: sh_off_def)
  moreover have "same_tty s (s\<lparr>sh_b := b, b_color := bc\<rparr>)" by (simp add: same_tty_def Tty.truncate_def)
  ultimately show ?thesis by blast
qed

text \<open>What reading leaves as it was.\<close>

definition same_hold :: "QECharset \<Rightarrow> u8 list \<Rightarrow> u8 list option \<Rightarrow> ShellState \<Rightarrow> ShellState \<Rightarrow> bool" where
  "same_hold cs t k s s' \<longleftrightarrow> sh_holds cs s' t k \<and> same_tty s s' \<and> sh_off s' = sh_off s"

lemma same_holdD: "same_hold cs t k s s' \<Longrightarrow> sh_holds cs s' t k \<and> same_tty s s' \<and> sh_off s' = sh_off s"
  by (simp add: same_hold_def)

lemma same_hold_trans: "same_hold cs t k s s1 \<Longrightarrow> same_hold cs t k s1 s2 \<Longrightarrow> same_hold cs t k s s2"
  by (auto simp: same_hold_def intro: same_tty_trans)

lemma same_hold_read:
  assumes "sh_holds cs s t k" "byte_text b t" "kept (sh_b s) b" "tracked b = tracked (sh_b s)"
  shows "same_hold cs t k s (s\<lparr>sh_b := b\<rparr>)"
  using sh_holds_read [OF assms(1-3)] assms(4) by (simp add: same_hold_def sh_off_def)

lemma hold_nextc:
  assumes "sh_holds cs s t k" "p < length t"
  shows "\<exists>s'. sh_nextc s junk (int p) = Some (uint (t ! p), int (Suc p), s') \<and> same_hold cs t k s s'"
proof -
  have "byte_text (sh_b s) t" using assms(1) by (simp add: sh_holds_def)
  from byte_text_nextc [OF this assms(2), of junk] same_hold_read [OF assms(1)] show ?thesis
    by (auto simp: sh_nextc_def)
qed

lemma hold_nextc_end:
  assumes "sh_holds cs s t k"
  shows "sh_nextc s junk (int (length t)) = Some (10, int (length t), s)"
  using assms byte_text_nextc_end by (simp add: sh_holds_def sh_nextc_def)

lemma hold_prevc:
  assumes "sh_holds cs s t k" "p < length t"
  shows "\<exists>s'. sh_prevc s (int (Suc p)) = Some (uint (t ! p), int p, s') \<and> same_hold cs t k s s'"
proof -
  have "byte_text (sh_b s) t" using assms(1) by (simp add: sh_holds_def)
  from byte_text_prevc [OF this assms(2)] same_hold_read [OF assms(1)] show ?thesis
    by (auto simp: sh_prevc_def)
qed

lemma sh_prevc_start [simp]: "sh_prevc s 0 = Some (10, 0, s)"
  by (simp add: sh_prevc_def)

declare uint_10 [simp]

section \<open>The state that represents a terminal\<close>

definition rep :: "QECharset \<Rightarrow> ShellState \<Rightarrow> Term \<Rightarrow> bool" where
  "rep cs s a \<longleftrightarrow> sh_holds cs s (t_text a) (t_colors a) \<and> Tty.truncate s = Tty.truncate a"

definition represents :: "QECharset \<Rightarrow> ShellState \<Rightarrow> Term \<Rightarrow> bool" where
  "represents cs s a \<longleftrightarrow> rep cs s a \<and> sh_off s = int (t_pos a) \<and> t_pos a \<le> length (t_text a)"

lemma rep_pos [simp]: "rep cs s (a\<lparr>t_pos := v\<rparr>) = rep cs s a"
  by (simp add: rep_def Tty.truncate_def)

lemma rep_goto [simp]: "rep cs (set_sh_off s v) a = rep cs s a"
  by (simp add: rep_def Tty.truncate_def set_sh_off_def) (simp add: sh_holds_def)

lemma rep_size: "rep cs s a \<Longrightarrow> total_size (sh_b s) = length (t_text a)"
  by (auto simp: rep_def sh_holds_size)

lemma term_fields [simp]:
  "t_text (term_insert p bs a) = list_insert p bs (t_text a)" "t_text (term_delete p n a) = list_delete p n (t_text a)"
  "t_text (term_write p bs a) = list_write p bs (t_text a)"
  "Tty.truncate (term_insert p bs a) = Tty.truncate a" "Tty.truncate (term_delete p n a) = Tty.truncate a"
  "Tty.truncate (term_write p bs a) = Tty.truncate a"
  "t_pos (term_insert p bs a) = t_pos a" "t_pos (term_delete p n a) = t_pos a" "t_pos (term_write p bs a) = t_pos a"
  by (simp_all add: term_insert_def term_delete_def term_write_def Tty.truncate_def)

lemma rep_paint: "rep cs s a \<Longrightarrow> paint s n = paint a n"
  by (simp add: rep_def paint_def Tty.truncate_def)

lemma rep_same: "rep cs s a \<Longrightarrow> same_hold cs (t_text a) (t_colors a) s s' \<Longrightarrow> rep cs s' a \<and> sh_off s' = sh_off s"
  by (simp add: rep_def same_hold_def same_tty_def)

lemma rep_insert:
  assumes "rep cs s a" "p \<le> length (t_text a)" "length (t_text a) + length bs < 2147483648"
  shows "\<exists>s'. sh_insert s (int p) bs = Some s' \<and> rep cs s' (term_insert p bs a) \<and>
    sh_off s' = (if sh_off s > int p then sh_off s + int (length bs) else sh_off s)"
  using hold_insert [of cs s "t_text a" "t_colors a" p bs] assms rep_paint [OF assms(1)]
  by (auto simp: rep_def same_tty_def term_insert_def) (auto simp: Tty.truncate_def)

lemma rep_delete:
  assumes "rep cs s a" "p + n \<le> length (t_text a)" "length (t_text a) < 2147483648" "sh_off s \<le> int p"
  shows "\<exists>s'. sh_delete s (int p) (int n) = Some s' \<and> rep cs s' (term_delete p n a) \<and> sh_off s' = sh_off s"
  using hold_delete [of cs s "t_text a" "t_colors a" p n] assms
  by (auto simp: rep_def same_tty_def term_delete_def) (auto simp: Tty.truncate_def)

lemma rep_write:
  assumes "rep cs s a" "p + length bs \<le> length (t_text a)" "length (t_text a) + length bs < 2147483648" "bs \<noteq> []"
  shows "\<exists>s'. sh_write s (int p) bs = Some s' \<and> rep cs s' (term_write p bs a) \<and> sh_off s' = sh_off s"
  using hold_write [of cs s "t_text a" "t_colors a" p bs] assms rep_paint [OF assms(1)]
  by (auto simp: rep_def same_tty_def term_write_def) (auto simp: Tty.truncate_def)

lemma rep_nextc:
  assumes "rep cs s a" "p < length (t_text a)"
  shows "\<exists>s'. sh_nextc s junk (int p) = Some (uint (t_text a ! p), int (Suc p), s') \<and> rep cs s' a \<and> sh_off s' = sh_off s"
  using hold_nextc [of cs s "t_text a" "t_colors a" p junk] assms rep_same [OF assms(1)] by (auto simp: rep_def)

lemma rep_nextc_end: "rep cs s a \<Longrightarrow> sh_nextc s junk (int (length (t_text a))) = Some (10, int (length (t_text a)), s)"
  using hold_nextc_end by (auto simp: rep_def)

lemma rep_prevc:
  assumes "rep cs s a" "p < length (t_text a)"
  shows "\<exists>s'. sh_prevc s (int (Suc p)) = Some (uint (t_text a ! p), int p, s') \<and> rep cs s' a \<and> sh_off s' = sh_off s"
  using hold_prevc [of cs s "t_text a" "t_colors a" p] assms rep_same [OF assms(1)] by (auto simp: rep_def)

section \<open>The loops\<close>

lemma eol_step: "p < length t \<Longrightarrow> eol t p = (if t ! p = 10 then p else eol t (Suc p))"
  using scan_step [of p t "\<lambda>c. c \<noteq> 10"] by (simp add: eol_def)

lemma eol_end [simp]: "eol t (length t) = length t"
  by (simp add: eol_def scan_end)

lemma eol_bounds: "p \<le> length t \<Longrightarrow> p \<le> eol t p \<and> eol t p \<le> length t"
  using scan_le [of p t] by (simp add: eol_def) (simp add: scan_def)

lemma bol_le: "bol t p \<le> p"
  by (simp add: bol_def scan_back_le)

lemma bol_step: "p < length t \<Longrightarrow> bol t (Suc p) = (if t ! p = 10 then Suc p else bol t p)"
  using scan_back_step [of p t "\<lambda>c. c \<noteq> 10"] by (simp add: bol_def)

lemma bol_0 [simp]: "bol t 0 = 0"
  by (simp add: bol_def)

lemma lf_loop_rep:
  assumes "rep cs s a" "p \<le> length (t_text a)" "length (t_text a) + 1 < 2147483648"
  shows "\<exists>s'. lf_loop s junk (int p) = Some (int (eol (t_text a) p + 1), s') \<and>
    rep cs s' (if eol (t_text a) p < length (t_text a) then a else term_insert (eol (t_text a) p) [10] a)"
  using assms
proof (induction "length (t_text a) - p" arbitrary: s p)
  case 0
  then have p: "p = length (t_text a)" by simp
  obtain s' where s': "sh_insert s (int p) [10] = Some s'" "rep cs s' (term_insert p [10] a)"
    using rep_insert [OF "0.prems"(1), of p "[10]"] "0.prems"(2,3) by auto
  then show ?case
    using p rep_size [OF "0.prems"(1)] rep_size [OF s'(2)] by (subst lf_loop.simps) simp
next
  case (Suc n)
  then have lt: "p < length (t_text a)" by simp
  obtain s1 where s1: "sh_nextc s junk (int p) = Some (uint (t_text a ! p), int (Suc p), s1)" "rep cs s1 a"
    using rep_nextc [OF Suc.prems(1) lt, of junk] by auto
  have ne: "int p \<noteq> int (total_size (sh_b s))" using lt rep_size [OF Suc.prems(1)] by simp
  show ?case
  proof (cases "t_text a ! p = 10")
    case True
    then show ?thesis using s1 ne eol_step [OF lt] lt by (subst lf_loop.simps) simp
  next
    case False
    have "n = length (t_text a) - Suc p" using Suc.hyps(2) by simp
    from Suc.hyps(1) [OF this s1(2)] lt Suc.prems(3)
    show ?thesis using s1 ne False eol_step [OF lt] by (subst lf_loop.simps) (auto split: if_splits)
  qed
qed

lemma tty_cr_rep:
  assumes "rep cs s a" "sh_off s = int p" "p \<le> length (t_text a)"
  shows "\<exists>s'. tty_cr s = Some s' \<and> rep cs s' a \<and> sh_off s' = int (bol (t_text a) p)"
  using assms
proof (induction p arbitrary: s)
  case 0
  then show ?case by (subst tty_cr.simps) simp
next
  case (Suc p)
  then have lt: "p < length (t_text a)" by simp
  obtain s1 where s1: "sh_prevc s (int (Suc p)) = Some (uint (t_text a ! p), int p, s1)" "rep cs s1 a" "sh_off s1 = sh_off s"
    using rep_prevc [OF Suc.prems(1) lt] by auto
  show ?case
  proof (cases "t_text a ! p = 10")
    case True
    then show ?thesis using s1 bol_step [OF lt] Suc.prems(2) by (subst tty_cr.simps) simp
  next
    case False
    have "\<exists>s'. tty_cr (set_sh_off s1 (int p)) = Some s' \<and> rep cs s' a \<and> sh_off s' = int (bol (t_text a) p)"
      by (rule Suc.IH) (use s1(2) lt in simp_all)
    then show ?thesis using s1 False bol_step [OF lt] Suc.prems(2) by (subst tty_cr.simps) simp
  qed
qed

lemma eol_loop_rep:
  assumes "rep cs s a" "p \<le> length (t_text a)"
  shows "\<exists>s'. eol_loop s junk (int p) = Some (int (eol (t_text a) p), s') \<and> rep cs s' a \<and> sh_off s' = sh_off s"
  using assms
proof (induction "length (t_text a) - p" arbitrary: s p)
  case 0
  then have "p = length (t_text a)" by simp
  then show ?case using rep_nextc_end [OF "0.prems"(1)] "0.prems" by (subst eol_loop.simps) simp
next
  case (Suc n)
  then have lt: "p < length (t_text a)" by simp
  obtain s1 where s1: "sh_nextc s junk (int p) = Some (uint (t_text a ! p), int (Suc p), s1)" "rep cs s1 a" "sh_off s1 = sh_off s"
    using rep_nextc [OF Suc.prems(1) lt, of junk] by auto
  have "n = length (t_text a) - Suc p" using Suc.hyps(2) by simp
  from Suc.hyps(1) [OF this s1(2)] lt
  show ?case using s1 eol_step [OF lt] by (subst eol_loop.simps) simp
qed

lemma chars_loop_rep:
  assumes "rep cs s a" "p \<le> length (t_text a)"
  shows "\<exists>s'. chars_loop s junk (int p) n = Some (int (p + min n (eol (t_text a) p - p)), s') \<and> rep cs s' a \<and>
    sh_off s' = sh_off s"
  using assms
proof (induction n arbitrary: s p)
  case (Suc n)
  show ?case
  proof (cases "p < length (t_text a)")
    case True
    obtain s1 where s1: "sh_nextc s junk (int p) = Some (uint (t_text a ! p), int (Suc p), s1)" "rep cs s1 a" "sh_off s1 = sh_off s"
      using rep_nextc [OF Suc.prems(1) True, of junk] by auto
    show ?thesis
    proof (cases "t_text a ! p = 10")
      case False
      have "Suc p \<le> eol (t_text a) (Suc p)" using eol_bounds [of "Suc p" "t_text a"] True by simp
      then have "p + min (Suc n) (eol (t_text a) p - p) = Suc p + min n (eol (t_text a) (Suc p) - Suc p)"
        using eol_step [OF True] False by auto
      with Suc.IH [OF s1(2), of "Suc p"] True s1 False show ?thesis by simp
    qed (use s1 eol_step [OF True] in simp)
  next
    case False
    then have "p = length (t_text a)" using Suc.prems(2) by simp
    then show ?thesis using rep_nextc_end [OF Suc.prems(1)] Suc.prems(1) by simp
  qed
qed simp

lemma list_insert_more:
  "p \<le> length t \<Longrightarrow> list_insert p (replicate n x) (list_insert p (replicate m x) t) = list_insert p (replicate (m + n) x) t"
  by (simp add: list_insert_def add.commute [of m] replicate_add)

lemma term_insert_more:
  assumes "p \<le> length (t_text a)" "\<forall>l. t_colors a = Some l \<longrightarrow> length l = length (t_text a)"
  shows "term_insert p (replicate n x) (term_insert p (replicate m x) a) = term_insert p (replicate (m + n) x) a"
proof -
  have "map_option (list_insert p (paint a n)) (map_option (list_insert p (paint a m)) (t_colors a)) =
      map_option (list_insert p (paint a (m + n))) (t_colors a)"
    using assms by (cases "t_colors a") (auto simp: paint_def list_insert_more)
  then show ?thesis
    using assms(1) by (simp add: term_insert_def list_insert_more paint_def)
qed

lemma rep_colors: "rep cs s a \<Longrightarrow> t_colors a = Some l \<Longrightarrow> length l = length (t_text a)"
  by (auto simp: rep_def sh_holds_def colors_ok_def split: option.splits)

lemma insert_spaces_rep:
  assumes "rep cs s a" "p \<le> length (t_text a)" "length (t_text a) + n < 2147483648"
  shows "\<exists>s'. insert_spaces s (int p) n = Some s' \<and> rep cs s' (term_insert p (replicate n 32) a) \<and>
    (sh_off s \<le> int p \<longrightarrow> sh_off s' = sh_off s)"
  using assms
proof (induction n arbitrary: s a)
  case 0
  have "map_option (list_insert p []) (t_colors a) = t_colors a" by (cases "t_colors a") simp_all
  then show ?case using 0 by (simp add: term_insert_def paint_def)
next
  case (Suc n)
  obtain s1 where s1: "sh_insert s (int p) [32] = Some s1" "rep cs s1 (term_insert p [32] a)"
    "sh_off s \<le> int p \<longrightarrow> sh_off s1 = sh_off s"
    using rep_insert [OF Suc.prems(1,2), of "[32]"] Suc.prems(3) by auto
  have "term_insert p (replicate n 32) (term_insert p [32] a) = term_insert p (replicate (Suc n) 32) a"
    using term_insert_more [of p a n 32 1] rep_colors [OF Suc.prems(1)] Suc.prems(2) by simp
  moreover obtain s2 where "insert_spaces s1 (int p) n = Some s2"
    "rep cs s2 (term_insert p (replicate n 32) (term_insert p [32] a))"
    "sh_off s1 \<le> int p \<longrightarrow> sh_off s2 = sh_off s1"
    using Suc.IH [OF s1(2)] Suc.prems(2,3) by auto
  ultimately show ?case using s1 by auto
qed

lemma list_insert_end [simp]: "list_insert (length t) bs t = t @ bs"
  by (simp add: list_insert_def)

lemma add_lines_rep:
  assumes "rep cs s a" "length (t_text a) + (n + 1 - m0) < 2147483648"
  shows "\<exists>s'. add_lines s n m0 = Some s' \<and>
    rep cs s' (term_insert (length (t_text a)) (replicate (n + 1 - m0) 10) a)"
  using assms
proof (induction "n + 1 - m0" arbitrary: s a m0)
  case 0
  have "map_option (list_insert (length (t_text a)) []) (t_colors a) = t_colors a" by (cases "t_colors a") simp_all
  then show ?case using 0 by (subst add_lines.simps) (simp add: term_insert_def paint_def)
next
  case (Suc m)
  let ?p = "length (t_text a)" and ?a = "term_insert (length (t_text a)) [10] a"
  obtain s1 where s1: "sh_insert s (int ?p) [10] = Some s1" "rep cs s1 ?a"
    using rep_insert [OF Suc.prems(1), of ?p "[10]"] Suc.prems(2) Suc.hyps(2) by auto
  have c: "length l = ?p" if "t_colors a = Some l" for l using rep_colors [OF Suc.prems(1) that] .
  have "term_insert (length (t_text ?a)) (replicate m 10) ?a = term_insert ?p (replicate (Suc m) 10) a"
    using c by (cases "t_colors a") (auto simp: term_insert_def paint_def list_insert_def)
  moreover have "\<exists>s'. add_lines s1 n (m0 + 1) = Some s' \<and>
      rep cs s' (term_insert (length (t_text ?a)) (replicate (n + 1 - (m0 + 1)) 10) ?a)"
    by (rule Suc.hyps(1) [OF _ s1(2)]) (use Suc.hyps(2) Suc.prems(2) in simp_all)
  moreover have "n + 1 - (m0 + 1) = m" "n \<ge> m0" using Suc.hyps(2) by simp_all
  ultimately show ?case
    using s1(1) rep_size [OF Suc.prems(1)] Suc.hyps(2) [symmetric] by (subst add_lines.simps) simp
qed

lemma goto_x_rep:
  assumes "rep cs s a" "p \<le> length (t_text a)" "length (t_text a) + x < 2147483648"
  shows "\<exists>s'. goto_x s junk (int p) x =
      Some (int (p + min x (eol (t_text a) p - p)), s') \<and>
    rep cs s' (if x \<le> eol (t_text a) p - p then a
      else term_insert (eol (t_text a) p) (replicate (x - (eol (t_text a) p - p)) 32) a)"
  using assms
proof (induction x arbitrary: s p)
  case (Suc x)
  have stop: "\<exists>s'. insert_spaces s1 (int p) (Suc x) = Some s' \<and> rep cs s' (term_insert p (replicate (Suc x) 32) a)"
    if "rep cs s1 a" for s1
    using insert_spaces_rep [OF that Suc.prems(2,3)] by blast
  show ?case
  proof (cases "p < length (t_text a)")
    case True
    obtain s1 where s1: "sh_nextc s junk (int p) = Some (uint (t_text a ! p), int (Suc p), s1)" "rep cs s1 a"
      using rep_nextc [OF Suc.prems(1) True, of junk] by auto
    show ?thesis
    proof (cases "t_text a ! p = 10")
      case False
      have "Suc p \<le> eol (t_text a) (Suc p)" using eol_bounds [of "Suc p" "t_text a"] True by simp
      then obtain e where e: "eol (t_text a) p = e" "eol (t_text a) (Suc p) = e" "Suc p \<le> e"
        using eol_step [OF True] False by simp
      have E: "p + min (Suc x) (e - p) = Suc p + min x (e - Suc p)" "Suc x \<le> e - p \<longleftrightarrow> x \<le> e - Suc p"
        "Suc x - (e - p) = x - (e - Suc p)"
        using e(3) by auto
      have "goto_x s junk (int p) (Suc x) = goto_x s1 junk (int (Suc p)) x" using s1(1) False by simp
      then show ?thesis using Suc.IH [OF s1(2), of "Suc p"] True Suc.prems(3) unfolding e(1,2) E by simp
    next
      case True10: True
      then show ?thesis using s1 eol_step [OF True] stop [OF s1(2)] by (auto simp del: insert_spaces.simps)
    qed
  next
    case False
    then have "p = length (t_text a)" using Suc.prems(2) by simp
    then show ?thesis using rep_nextc_end [OF Suc.prems(1)] stop [OF Suc.prems(1)] by (auto simp del: insert_spaces.simps)
  qed
qed simp

section \<open>The operations\<close>

lemma represents_update: "represents cs s a \<Longrightarrow> represents cs (tty_update_cursor s) a"
proof -
  assume a: "represents cs s a"
  let ?f = "\<lambda>(x, interactive) m. if interactive then m(x := m CUR) else m"
  have *: "CUR \<notin> fst ` set w \<Longrightarrow> fold ?f w m CUR = m CUR" for w and m :: "tracker \<Rightarrow> int"
  proof (induction w arbitrary: m)
    case (Cons y w)
    then show ?case using Cons.IH [of "?f y m"] by (cases y) auto
  qed simp
  from a show ?thesis
    using * [of "sh_windows s" "tracked (sh_b s)"]
    by (auto simp: tty_update_cursor_def represents_def rep_def sh_holds_def sh_off_def Tty.truncate_def)
qed

lemma tty_gotoxy_rep:
  assumes "rep cs s a" "a' = term_goto x y a" "length (t_text a') + x < 2147483648"
  shows "\<exists>s'. tty_gotoxy s junk x y = Some s' \<and> represents cs s' a'"
proof -
  let ?L = "count_list (t_text a) 10"
  define n where "n = ?L - TTY_YSIZE + y"
  define a1 where "a1 = term_lines n a"
  define p where "p = line_start n (t_text a1)"
  define e where "e = eol (t_text a1) p"
  have p: "p \<le> length (t_text a1)" by (simp add: p_def line_start_le)
  have e: "p \<le> e" "e \<le> length (t_text a1)" using eol_bounds [OF p] by (simp_all add: e_def)
  have a': "a' = (if x \<le> e - p then a1\<lparr>t_pos := p + x\<rparr> else (term_insert e (replicate (x - (e - p)) 32) a1)\<lparr>t_pos := e\<rparr>)"
    unfolding assms(2) term_goto_def by (simp add: Let_def n_def a1_def p_def e_def)
  have len: "length (t_text a1) + x < 2147483648" "length (t_text a) + (n + 1 - ?L) \<le> length (t_text a1)"
    using assms(3) a' e by (auto simp: a1_def term_lines_def split: if_splits)
  have bt: "byte_text (sh_b s) (t_text a)" using assms(1) by (simp add: rep_def sh_holds_def)
  have sz: "total_size (sh_b s) = length (t_text a)" by (rule rep_size [OF assms(1)])
  obtain b where b: "eb_get_pos (sh_b s) (total_size (sh_b s)) = (line_col (t_text a), b)" "byte_text b (t_text a)"
    "kept (sh_b s) b"
    using byte_text_get_pos [OF bt, of "total_size (sh_b s)"] sz by auto
  have r: "rep cs (s\<lparr>sh_b := b\<rparr>) a"
    using assms(1) sh_holds_read [OF _ b(2,3)] by (simp add: rep_def Tty.truncate_def)
  obtain s1 where s1: "add_lines (s\<lparr>sh_b := b\<rparr>) n ?L = Some s1" "rep cs s1 a1"
    using add_lines_rep [OF r, of n ?L] len by (auto simp: a1_def term_lines_def)
  have bt1: "byte_text (sh_b s1) (t_text a1)" using s1(2) by (simp add: rep_def sh_holds_def)
  obtain b1 where b1: "eb_goto_pos (sh_b s1) junk n 0 = Some (int p, b1)" "byte_text b1 (t_text a1)" "kept (sh_b s1) b1"
    using byte_text_goto_line [OF bt1, of junk n] by (auto simp: p_def)
  have r1: "rep cs (s1\<lparr>sh_b := b1\<rparr>) a1"
    using s1(2) sh_holds_read [OF _ b1(2,3)] by (simp add: rep_def Tty.truncate_def)
  obtain s2 where s2: "goto_x (s1\<lparr>sh_b := b1\<rparr>) junk (int p) x = Some (int (p + min x (e - p)), s2)"
    "rep cs s2 (if x \<le> e - p then a1 else term_insert e (replicate (x - (e - p)) 32) a1)"
    using goto_x_rep [OF r1 p len(1), of junk] unfolding e_def [symmetric] by blast
  have "tty_gotoxy s junk x y = Some (set_sh_off s2 (int (p + min x (e - p))))"
    using b(1) s1(1) b1(1) s2(1) by (simp add: tty_gotoxy_def line_col_def n_def)
  moreover have "represents cs (set_sh_off s2 (int (p + min x (e - p)))) a'"
    using s2(2) e unfolding a' by (auto simp: represents_def)
  ultimately show ?thesis by blast
qed

lemma tty_put_rep:
  assumes "represents cs s a" "length (t_text a) + 1 < 2147483648" "cs \<noteq> Charset_utf8"
  shows "\<exists>s'. tty_put s junk c = Some s' \<and> represents cs s' (term_put (hd (unicode_to_charset c cs)) a)"
proof -
  let ?p = "t_pos a"
  have r: "rep cs s a" and o: "sh_off s = int ?p" and le: "?p \<le> length (t_text a)"
    using assms(1) by (simp_all add: represents_def)
  have "\<exists>q. unicode_to_charset c cs = [q]"
    using assms(3) by (cases cs) (simp_all add: unicode_to_charset_def encode_8859_1_def encode_7bit_def)
  then obtain q where q: "unicode_to_charset c cs = [q]" by blast
  have cs: "charset (sh_b s) = cs" using r by (simp add: rep_def sh_holds_def)
  have ins: "\<exists>s'. sh_insert s1 (int ?p) [q] = Some s' \<and> rep cs s' (term_insert ?p [q] a) \<and> sh_off s' = sh_off s1"
    if "rep cs s1 a" "sh_off s1 = int ?p" for s1
    using rep_insert [OF that(1) le, of "[q]"] assms(2) that(2) by auto
  show ?thesis
  proof (cases "?p < length (t_text a)")
    case True
    obtain s1 where s1: "sh_nextc s junk (int ?p) = Some (uint (t_text a ! ?p), int (Suc ?p), s1)" "rep cs s1 a" "sh_off s1 = sh_off s"
      using rep_nextc [OF r True, of junk] by auto
    show ?thesis
    proof (cases "t_text a ! ?p = 10")
      case nl: True
      obtain s2 where "sh_insert s1 (int ?p) [q] = Some s2" "rep cs s2 (term_insert ?p [q] a)" "sh_off s2 = sh_off s1"
        using ins [OF s1(2)] s1(3) o by auto
      then show ?thesis using s1 o nl q cs le by (auto simp: tty_put_def term_put_def represents_def Let_def)
    next
      case False
      obtain s2 where "sh_write s1 (int ?p) [q] = Some s2" "rep cs s2 (term_write ?p [q] a)" "sh_off s2 = sh_off s1"
        using rep_write [OF s1(2), of ?p "[q]"] True assms(2) by auto
      then show ?thesis using s1 o False q cs True by (auto simp: tty_put_def term_put_def represents_def Let_def)
    qed
  next
    case False
    then have p: "?p = length (t_text a)" using le by simp
    obtain s2 where "sh_insert s (int ?p) [q] = Some s2" "rep cs s2 (term_insert ?p [q] a)" "sh_off s2 = sh_off s"
      using ins [OF r o] by auto
    then show ?thesis using rep_nextc_end [OF r, of junk] o q cs p by (auto simp: tty_put_def term_put_def represents_def Let_def)
  qed
qed

text \<open>The operations on the escape state do not look at the buffers.\<close>

lemma csi_digit_frame: "csi_digit c s = map_option (\<lambda>r. Tty.extend r (Tty.more s)) (csi_digit c (Tty.truncate s))"
  by (cases s) (auto simp: csi_digit_def Tty.defs guard_def Let_def)

lemma tty_csi_m_frame: "tty_csi_m c s = Tty.extend (tty_csi_m c (Tty.truncate s)) (Tty.more s)"
  by (cases s) (simp add: tty_csi_m_def Tty.defs)

lemma csi_colors_frame: "csi_colors i n s = map_option (\<lambda>r. Tty.extend r (Tty.more s)) (csi_colors i n (Tty.truncate s))"
proof (induction n arbitrary: i s)
  case 0
  then show ?case by (cases s) (simp add: Tty.defs)
next
  case (Suc n)
  let ?r = "tty_csi_m (esc_params s ! i) (Tty.truncate s)"
  have "Tty.truncate (tty_csi_m (esc_params s ! i) s) = ?r" "Tty.more (tty_csi_m (esc_params s ! i) s) = Tty.more s"
    by (simp_all add: tty_csi_m_frame [of _ s] Tty.defs)
  moreover have "esc_params (Tty.truncate s) = esc_params s" "Tty.truncate ?r = ?r"
    by (simp_all add: Tty.defs)
  ultimately show ?case using Suc.IH [of "i + 1" "tty_csi_m (esc_params s ! i) s"] by (auto simp: guard_def)
qed

lemma csi_m_frame: "csi_m s = map_option (\<lambda>r. Tty.extend r (Tty.more s)) (csi_m (Tty.truncate s))"
  unfolding csi_m_def Let_def by (subst csi_colors_frame) (simp add: Tty.defs)

lemma csi_n_frame: "csi_n s = map_option (\<lambda>r. Tty.extend r (Tty.more s)) (csi_n (Tty.truncate s))"
  by (cases "write_loop (pty_answers s) cursor_report"; cases s) (auto simp: csi_n_def tty_write_def Tty.defs)

lemma represents_frame:
  assumes "represents cs s a" "f a = map_option (\<lambda>r. Tty.extend r (Tty.more a)) (g (Tty.truncate a))"
    "h s = map_option (\<lambda>r. Tty.extend r (Tty.more s)) (g (Tty.truncate s))" "f a = Some a'"
  shows "\<exists>s'. h s = Some s' \<and> represents cs s' a'"
proof -
  have t: "Tty.truncate s = Tty.truncate a" using assms(1) by (simp add: represents_def rep_def)
  then obtain r where r: "g (Tty.truncate s) = Some r" "a' = Tty.extend r (Tty.more a)"
    using assms(2,4) by (cases "g (Tty.truncate s)") auto
  have "represents cs (Tty.extend r (Tty.more s)) (Tty.extend r (Tty.more a))"
    using assms(1) by (cases s; cases a) (simp add: represents_def rep_def sh_holds_def sh_off_def Tty.defs)
  then show ?thesis using assms(3) r by simp
qed

lemma represents_set:
  assumes "represents cs s a"
  shows "represents cs (s\<lparr>tty_state := v\<rparr>) (a\<lparr>tty_state := v\<rparr>)"
    "represents cs (s\<lparr>nb_esc_params := n\<rparr>) (a\<lparr>nb_esc_params := n\<rparr>)"
    "represents cs (s\<lparr>esc_params := l\<rparr>) (a\<lparr>esc_params := l\<rparr>)"
  using assms by (simp_all add: represents_def rep_def sh_holds_def sh_off_def Tty.defs)

lemma represents_same:
  assumes "represents cs s a"
  shows "tty_state s = tty_state a" "nb_esc_params s = nb_esc_params a" "csi_x s = csi_x a" "csi_y s = csi_y a"
    "csi_count s = csi_count a"
  using assms by (simp_all add: represents_def rep_def Tty.defs csi_x_def csi_y_def csi_count_def)

text \<open>There is room for what a step of the terminal adds, and a byte more.\<close>

definition room_for :: "nat \<Rightarrow> Term \<Rightarrow> Term \<Rightarrow> bool" where
  "room_for x a a' \<longleftrightarrow> length (t_text a) + 1 < 2147483648 \<and> length (t_text a') + x < 2147483648"

definition fits :: "Term \<Rightarrow> Term \<Rightarrow> bool" where
  "fits a a' \<longleftrightarrow> room_for (if tty_state a = TTY_STATE_CSI then csi_x a else 0) a a'"

lemma tty_csi_rep:
  assumes "represents cs s a" "term_csi c a = Some a'" "room_for (csi_x a) a a'"
  shows "\<exists>s'. tty_csi s junk c = Some s' \<and> represents cs s' a'"
proof -
  let ?p = "t_pos a" and ?e = "eol (t_text a) (t_pos a)"
  have r: "rep cs s a" and o: "sh_off s = int ?p" and le: "?p \<le> length (t_text a)"
    using assms(1) by (simp_all add: represents_def)
  note eb = eol_bounds [OF le] and same = represents_same [OF assms(1)]
  note codes = assms(2) [unfolded term_csi_def Let_def]
  consider (H) "c = code CHR ''H''" | (K) "c = code CHR ''K''" | (P) "c = code CHR ''P''"
    | (A) "c = code CHR ''@''" | (m) "c = code CHR ''m''" | (n) "c = code CHR ''n''"
    | (other) "c \<notin> {code CHR ''H'', code CHR ''K'', code CHR ''P'', code CHR ''@'', code CHR ''m'', code CHR ''n''}"
    by blast
  then show ?thesis
  proof cases
    case H
    then have "a' = term_goto (csi_x a) (csi_y a) a" using codes by simp
    from tty_gotoxy_rep [OF r this] assms(3) same H show ?thesis by (simp add: tty_csi_def room_for_def)
  next
    case K
    then have a': "a' = term_delete ?p (?e - ?p) a" using codes by (simp add: code_def)
    obtain s1 where s1: "eol_loop s junk (int ?p) = Some (int ?e, s1)" "rep cs s1 a" "sh_off s1 = sh_off s"
      using eol_loop_rep [OF r le] by blast
    obtain s2 where s2: "sh_delete s1 (int ?p) (int (?e - ?p)) = Some s2" "rep cs s2 a'" "sh_off s2 = sh_off s1"
      using rep_delete [OF s1(2), of ?p "?e - ?p"] eb assms(3) s1(3) o unfolding a' room_for_def by auto
    have "tty_csi s junk c = Some s2" using s1 s2(1) o eb K by (simp add: tty_csi_def csi_K_def code_def of_nat_diff)
    moreover have "represents cs s2 a'" using s2 s1(3) o le unfolding a' by (simp add: represents_def list_delete_def)
    ultimately show ?thesis by blast
  next
    case P
    let ?n = "min (csi_count a) (?e - ?p)"
    have room: "?p + ?n \<le> length (t_text a)" using eb by linarith
    have a': "a' = term_delete ?p ?n a" using codes P by (simp add: code_def)
    obtain s1 where s1: "chars_loop s junk (int ?p) (csi_count a) = Some (int (?p + ?n), s1)" "rep cs s1 a" "sh_off s1 = sh_off s"
      using chars_loop_rep [OF r le] by blast
    obtain s2 where s2: "sh_delete s1 (int ?p) (int ?n) = Some s2" "rep cs s2 a'" "sh_off s2 = sh_off s1"
      using rep_delete [OF s1(2), of ?p ?n] room assms(3) s1(3) o unfolding a' room_for_def by auto
    have "tty_csi s junk c = Some s2" using s1 s2(1) o P same(5) by (simp add: tty_csi_def csi_P_def code_def)
    moreover have "represents cs s2 a'" using s2 s1(3) o le unfolding a' by (simp add: represents_def list_delete_def)
    ultimately show ?thesis by blast
  next
    case A
    have a': "a' = term_insert ?p (replicate (csi_count a) 32) a" using codes A by (simp add: code_def)
    obtain s2 where s2: "insert_spaces s (int ?p) (csi_count a) = Some s2" "rep cs s2 a'" "sh_off s2 = sh_off s"
      using insert_spaces_rep [OF r le, of "csi_count a"] assms(3) o unfolding a' room_for_def by auto
    have "tty_csi s junk c = Some s2" using s2(1) o A same(5) by (simp add: tty_csi_def code_def)
    moreover have "represents cs s2 a'" using s2 o le unfolding a' by (simp add: represents_def)
    ultimately show ?thesis by blast
  next
    case m
    then have "csi_m a = Some a'" "tty_csi s junk c = csi_m s" using codes by (simp_all add: tty_csi_def code_def)
    then show ?thesis using represents_frame [where f = csi_m and g = csi_m and h = csi_m, OF assms(1) csi_m_frame csi_m_frame] by auto
  next
    case n
    then have "csi_n a = Some a'" "tty_csi s junk c = csi_n s" using codes by (simp_all add: tty_csi_def code_def)
    then show ?thesis using represents_frame [where f = csi_n and g = csi_n and h = csi_n, OF assms(1) csi_n_frame csi_n_frame] by auto
  next
    case other
    then show ?thesis using codes assms(1) by (simp add: tty_csi_def)
  qed
qed

lemma tty_emulate_rep:
  assumes "represents cs s a" "term_step cs c a = Some a'" "fits a a'" "cs \<noteq> Charset_utf8"
  shows "\<exists>s'. tty_emulate s junk c = Some s' \<and> represents cs s' a'"
proof -
  let ?p = "t_pos a"
  have r: "rep cs s a" and o: "sh_off s = int ?p" and le: "?p \<le> length (t_text a)"
    using assms(1) by (simp_all add: represents_def)
  have len: "length (t_text a) + 1 < 2147483648" using assms(3) by (simp add: fits_def room_for_def)
  note same = represents_same [OF assms(1)]
  have finish: "\<exists>s'. map_option tty_update_cursor m = Some s' \<and> represents cs s' a'"
    if "\<exists>s'. m = Some s' \<and> represents cs s' a'" for m
    using that represents_update by auto
  show ?thesis
  proof (cases "tty_state a")
    case TTY_STATE_NORM
    note step = assms(2) [unfolded term_step_def TTY_STATE_NORM TTYState.case option.inject]
    consider (bs) "c = 8" | (lf) "c = 10" | (cr) "c = 13" | (esc) "c = 27"
      | (put) "c \<notin> {8, 10, 13, 27}" "c \<ge> 32 \<or> c = 9" | (other) "c \<notin> {8, 10, 13, 27, 9}" "c < 32"
      by force
    then have "\<exists>s'. (if c = 8 then tty_bs s else if c = 10 then tty_lf s junk else if c = 13 then tty_cr s
        else if c = 27 then Some (s\<lparr>tty_state := TTY_STATE_ESC\<rparr>)
        else if c \<ge> 32 \<or> c = 9 then tty_put s junk c else Some s) = Some s' \<and> represents cs s' a'"
    proof cases
      case bs
      show ?thesis
      proof (cases ?p)
        case 0
        then show ?thesis using bs step o assms(1) by (simp add: tty_bs_def)
      next
        case (Suc q)
        then have q: "q < length (t_text a)" using le by simp
        obtain s1 where s1: "sh_prevc s (int (Suc q)) = Some (uint (t_text a ! q), int q, s1)" "rep cs s1 a" "sh_off s1 = sh_off s"
          using rep_prevc [OF r q] by blast
        have "bol (t_text a) (Suc q) < Suc q \<longleftrightarrow> t_text a ! q \<noteq> 10"
          using bol_step [OF q] bol_le [of "t_text a" q] by auto
        then show ?thesis using bs step o s1 Suc q by (auto simp: tty_bs_def represents_def)
      qed
    next
      case lf
      obtain s1 where s1: "lf_loop s junk (int ?p) = Some (int (eol (t_text a) ?p + 1), s1)"
        "rep cs s1 (if eol (t_text a) ?p < length (t_text a) then a else term_insert (eol (t_text a) ?p) [10] a)"
        using lf_loop_rep [OF r le len] by blast
      let ?e = "eol (t_text a) ?p"
      let ?a = "if ?e < length (t_text a) then a else term_insert ?e [10] a"
      have a': "a' = ?a\<lparr>t_pos := ?e + 1\<rparr>" using lf step by (auto simp: term_lf_def Let_def)
      have "?e + 1 \<le> length (t_text ?a)" using eol_bounds [OF le] by simp
      then have "represents cs (set_sh_off s1 (int (?e + 1))) a'" using s1(2) unfolding a' represents_def by simp
      moreover have "tty_lf s junk = Some (set_sh_off s1 (int (?e + 1)))" using s1(1) o by (simp add: tty_lf_def)
      ultimately show ?thesis using lf by simp
    next
      case cr
      obtain s1 where "tty_cr s = Some s1" "rep cs s1 a" "sh_off s1 = int (bol (t_text a) ?p)"
        using tty_cr_rep [OF r o le] by blast
      then show ?thesis using cr step le bol_le [of "t_text a" ?p] by (auto simp: represents_def)
    next
      case esc
      then show ?thesis using step represents_set(1) [OF assms(1)] by auto
    next
      case put
      then have "term_put (hd (unicode_to_charset c cs)) a = a'" using step by auto
      then show ?thesis using tty_put_rep [OF assms(1) len assms(4)] put by auto
    next
      case other
      then show ?thesis using step assms(1) by auto
    qed
    from finish [OF this] show ?thesis using same(1) TTY_STATE_NORM by (simp add: tty_emulate_def)
  next
    case TTY_STATE_ESC
    note step = assms(2) [unfolded term_step_def TTY_STATE_ESC TTYState.case option.inject]
    have "represents cs (s\<lparr>esc_params := replicate MAX_ESC_PARAMS 0, nb_esc_params := 0, tty_state := TTY_STATE_CSI\<rparr>)
        (a\<lparr>esc_params := replicate MAX_ESC_PARAMS 0, nb_esc_params := 0, tty_state := TTY_STATE_CSI\<rparr>)"
      using represents_set [OF assms(1)] by (simp add: represents_set)
    then show ?thesis
      using step same(1) TTY_STATE_ESC represents_set(1) [OF assms(1)]
      by (auto simp: tty_emulate_def represents_update split: if_splits)
  next
    case TTY_STATE_CSI
    note step = assms(2) [unfolded term_step_def TTY_STATE_CSI TTYState.case]
    show ?thesis
    proof (cases "c \<ge> 48 \<and> c \<le> 57")
      case True
      then have "csi_digit c a = Some a'" using step by simp
      from finish [OF represents_frame [where f = "csi_digit c" and g = "csi_digit c" and h = "csi_digit c", OF assms(1) csi_digit_frame csi_digit_frame this]] show ?thesis
        using True same(1) TTY_STATE_CSI by (simp add: tty_emulate_def)
    next
      case False
      let ?a = "a\<lparr>nb_esc_params := nb_esc_params a + 1\<rparr>" and ?s = "s\<lparr>nb_esc_params := nb_esc_params s + 1\<rparr>"
      have rr: "represents cs ?s ?a" using represents_set(2) [OF assms(1), of "nb_esc_params a + 1"] same(2) by simp
      have g: "nb_esc_params a < INT_LIMIT" using step False by (simp add: guard_def split: if_splits)
      show ?thesis
      proof (cases "c = code CHR '';''")
        case True
        then have "a' = ?a" using step False by auto
        then show ?thesis using True False g rr same(1,2) TTY_STATE_CSI represents_update by (auto simp: tty_emulate_def)
      next
        case ns: False
        let ?a1 = "?a\<lparr>tty_state := TTY_STATE_NORM\<rparr>"
        have t: "term_csi c ?a1 = Some a'" using step False ns by auto
        have "room_for (csi_x ?a1) ?a1 a'" using assms(3) TTY_STATE_CSI by (simp add: fits_def room_for_def csi_x_def)
        from finish [OF tty_csi_rep [OF represents_set(1) [OF rr] t this, of junk]] show ?thesis
          using False ns g same(1,2) TTY_STATE_CSI by (auto simp: tty_emulate_def)
      qed
    qed
  qed
qed

end
