(* ===== verification/Shell_Theorems.thy ===== *)
theory Shell_Theorems
  imports Shell_Term
begin

text \<open>
  The properties of the shell's terminal: the code refines the terminal of \<open>Shell_Term\<close> for whole
  outputs, the types of the escape state, what plain output does to the buffer, and the colored lines.
\<close>

section \<open>Whole outputs\<close>

fun term_run :: "QECharset \<Rightarrow> u8 list \<Rightarrow> Term \<Rightarrow> Term option" where
  "term_run cs [] a = Some a"
| "term_run cs (c # buf) a = do { a \<leftarrow> term_step cs (uint c) a; term_run cs buf a }"

fun run_fits :: "QECharset \<Rightarrow> u8 list \<Rightarrow> Term \<Rightarrow> bool" where
  "run_fits cs [] a = True"
| "run_fits cs (c # buf) a = (case term_step cs (uint c) a of None \<Rightarrow> True | Some a' \<Rightarrow> fits a a' \<and> run_fits cs buf a')"

lemma shell_read_rep:
  assumes "represents cs s a" "cs \<noteq> Charset_utf8" "term_run cs buf a = Some a'" "run_fits cs buf a"
  shows "\<exists>s'. shell_read_cb s junk buf = Some s' \<and> represents cs s' a'"
  using assms
proof (induction buf arbitrary: s a)
  case (Cons c buf)
  obtain a1 where a1: "term_step cs (uint c) a = Some a1" "term_run cs buf a1 = Some a'"
    using Cons.prems(3) by (auto simp: bind_eq_Some_conv)
  have f: "fits a a1" "run_fits cs buf a1" using Cons.prems(4) a1(1) by simp_all
  obtain s1 where s1: "tty_emulate s junk (uint c) = Some s1" "represents cs s1 a1"
    using tty_emulate_rep [OF Cons.prems(1) a1(1) f(1) Cons.prems(2)] by blast
  from Cons.IH [OF s1(2) Cons.prems(2) a1(2) f(2)] s1(1) show ?case by simp
qed simp

definition new_term :: "bool \<Rightarrow> int \<Rightarrow> int \<Rightarrow> int list \<Rightarrow> int \<Rightarrow> Term" where
  "new_term shell fd process junk nb =
    \<lparr>pty_fd = fd, pid = process, color = 56, def_color = 56, esc_params = junk, nb_esc_params = nb,
     tty_state = TTY_STATE_NORM, is_shell = shell, pty_out = [], pty_answers = [],
     t_text = [], t_colors = (if shell then Some [] else None), t_pos = 0\<rparr>"

text \<open>A new shell's buffer represents an empty terminal in white on black.\<close>

lemma new_shell_represents:
  "represents Charset_8859_1 (new_shell_buffer (alloc_buffer name BF_SAVELOG) shell fd process junk nb)
    (new_term shell fd process junk nb)"
proof -
  let ?b = "(alloc_buffer name BF_SAVELOG)\<lparr>callbacks := [CUR, 0]\<rparr>"
  have b: "byte_text ?b []" by (rule byte_text_callbacks [OF byte_text_alloc])
  have c: "byte_text ((alloc_buffer ''*color*'' BF_SYSTEM)\<lparr>save_log := False\<rparr>) []"
    by (rule byte_text_save_log [OF byte_text_alloc])
  have "charset (alloc_buffer name BF_SAVELOG) = Charset_8859_1" by (simp add: alloc_buffer_def eb_add_callback_def)
  then show ?thesis
    using b c by (simp add: new_shell_buffer_def eb_add_callback_def new_term_def tty_init_def set_sh_off_def represents_def rep_def
        sh_holds_def sh_off_def colors_ok_def Tty.defs TTY_GET_COLOR_def CUR_def)
qed

text \<open>C2. The shell's terminal: in a charset of one byte per character, reading the output of a process
  does to the shell's buffers exactly what \<open>term_step\<close>, byte by byte, does to a text with a color per
  byte, a position and an escape state, as long as the sizes fit into an \<open>int\<close>. In particular no
  access leaves the buffers, the color buffer keeps the length of the text, and the call returns.
\<close>

theorem shell_output_refines:
  assumes "represents cs s a" "cs \<noteq> Charset_utf8" "term_run cs buf a = Some a'" "run_fits cs buf a"
  shows "\<exists>s'. shell_read_cb s junk buf = Some s' \<and> represents cs s' a'"
  by (rule shell_read_rep [OF assms])

text \<open>The output \<open>ab\<close>, carriage return, \<open>ESC [ 31 m\<close>, \<open>c\<close> of a new shell.\<close>

definition demo_output :: "u8 list" where
  "demo_output = [97, 98, 13, 27, 91, 51, 49, 109, 99]"

definition demo_term :: Term where
  "demo_term = (new_term True 5 77 [0, 0, 0] 0)
     \<lparr>t_text := [99, 98], t_colors := Some [8, 56], t_pos := 1, color := 8, esc_params := [31, 0, 0], nb_esc_params := 1\<rparr>"

text \<open>Runs on short texts fit.\<close>

fun run_small :: "QECharset \<Rightarrow> u8 list \<Rightarrow> Term \<Rightarrow> bool" where
  "run_small cs [] a = True"
| "run_small cs (c # buf) a = (length (t_text a) < 50 \<and> csi_x a < 50 \<and> (case term_step cs (uint c) a of None \<Rightarrow> True
     | Some a' \<Rightarrow> length (t_text a') < 50 \<and> run_small cs buf a'))"

lemma run_small_fits: "run_small cs buf a \<Longrightarrow> run_fits cs buf a"
  by (induction buf arbitrary: a) (auto simp: fits_def room_for_def split: option.splits)

lemma demo_run: "term_run Charset_8859_1 demo_output (new_term True 5 77 [0, 0, 0] 0) = Some demo_term"
  by code_simp

lemma demo_fits: "run_fits Charset_8859_1 demo_output (new_term True 5 77 [0, 0, 0] 0)"
  by (rule run_small_fits) code_simp

theorem shell_output_refines_witness:
  "\<exists>s. shell_read_cb (new_shell_buffer (alloc_buffer ''*shell*'' BF_SAVELOG) True 5 77 [0, 0, 0] 0) [] demo_output = Some s \<and>
    represents Charset_8859_1 s demo_term"
  by (rule shell_output_refines [OF new_shell_represents _ demo_run demo_fits]) simp

section \<open>The types of the escape state\<close>

text \<open>
  What the integers of the terminal can be: three parameters that are not negative, a number of
  parameters that is not negative, and colors of six bits.
\<close>

definition tty_typed :: "'a Tty_scheme \<Rightarrow> bool" where
  "tty_typed s \<longleftrightarrow> length (esc_params s) = MAX_ESC_PARAMS \<and> (\<forall>v \<in> set (esc_params s). 0 \<le> v \<and> v \<le> INT_LIMIT) \<and>
     0 \<le> nb_esc_params s \<and> nb_esc_params s \<le> INT_LIMIT \<and> color s \<in> {0..63} \<and> def_color s \<in> {0..63}"

lemma tty_typed_same: "same_tty s s' \<Longrightarrow> tty_typed s' = tty_typed s"
  by (simp add: same_tty_def tty_typed_def Tty.defs)

lemma nextc_frame: "sh_nextc s junk p = Some (c, q, s') \<Longrightarrow> same_tty s s'"
  by (auto simp: sh_nextc_def bind_eq_Some_conv)

lemma prevc_frame: "sh_prevc s p = Some (c, q, s') \<Longrightarrow> same_tty s s'"
  by (auto simp: sh_prevc_def bind_eq_Some_conv)

lemma callback_frame: "shell_color_callback s op p n = Some s' \<Longrightarrow> same_tty s s'"
  by (auto simp: shell_color_callback_def bind_eq_Some_conv split: option.splits)

lemma insert_frame: "sh_insert s p bs = Some s' \<Longrightarrow> same_tty s s'"
  by (auto simp: sh_insert_def bind_eq_Some_conv dest!: callback_frame intro: same_tty_trans)

lemma delete_frame: "sh_delete s p n = Some s' \<Longrightarrow> same_tty s s'"
  by (auto simp: sh_delete_def bind_eq_Some_conv dest!: callback_frame intro: same_tty_trans split: if_splits)

lemma write_frame: "sh_write s p bs = Some s' \<Longrightarrow> same_tty s s'"
  by (auto simp: sh_write_def Let_def bind_eq_Some_conv dest!: callback_frame intro: same_tty_trans split: if_splits)

lemmas frames = nextc_frame prevc_frame insert_frame delete_frame write_frame

lemma spaces_frame: "insert_spaces s p n = Some s' \<Longrightarrow> same_tty s s'"
  by (induction n arbitrary: s) (auto simp: bind_eq_Some_conv dest!: insert_frame intro: same_tty_trans)

lemma lines_frame: "add_lines s n m = Some s' \<Longrightarrow> same_tty s s'"
proof (induction s n m rule: add_lines.induct)
  case (1 s n m)
  show ?case
  proof (cases "n \<ge> m")
    case True
    then obtain s1 where "sh_insert s (int (total_size (sh_b s))) [10] = Some s1" "add_lines s1 n (m + 1) = Some s'"
      using 1(2) by (auto simp: add_lines.simps [of s] bind_eq_Some_conv)
    then show ?thesis using 1(1) [OF True] insert_frame same_tty_trans by blast
  next
    case False
    then show ?thesis using 1(2) by (simp add: add_lines.simps [of s])
  qed
qed

lemma goto_x_frame: "goto_x s junk p x = Some (q, s') \<Longrightarrow> same_tty s s'"
  by (induction x arbitrary: s p)
    (auto simp: bind_eq_Some_conv simp del: insert_spaces.simps dest!: nextc_frame spaces_frame intro: same_tty_trans
      split: if_splits)

lemma chars_frame: "chars_loop s junk p n = Some (q, s') \<Longrightarrow> same_tty s s'"
  by (induction n arbitrary: s p) (auto simp: bind_eq_Some_conv dest!: nextc_frame intro: same_tty_trans split: if_splits)

lemma eol_frame: "eol_loop s junk p = Some (q, s') \<Longrightarrow> same_tty s s'"
proof -
  have "same_tty s (snd r)" if "eol_loop s junk p = Some r" for s junk p r
    using that
    by (rule eol_loop.raw_induct [rotated])
      (auto simp: bind_eq_Some_conv dest!: nextc_frame intro: same_tty_trans split: if_splits)
  from this [of s junk p "(q, s')"] show "eol_loop s junk p = Some (q, s') \<Longrightarrow> same_tty s s'" by simp
qed

lemma lf_frame: "lf_loop s junk p = Some (q, s') \<Longrightarrow> same_tty s s'"
proof -
  have "same_tty s (snd r)" if "lf_loop s junk p = Some r" for s junk p r
    using that
    by (rule lf_loop.raw_induct [rotated])
      (auto simp: bind_eq_Some_conv dest!: nextc_frame insert_frame intro: same_tty_trans split: if_splits)
  from this [of s junk p "(q, s')"] show "lf_loop s junk p = Some (q, s') \<Longrightarrow> same_tty s s'" by simp
qed

lemma cr_frame: "tty_cr s = Some s' \<Longrightarrow> same_tty s s'"
proof (rule tty_cr.raw_induct [rotated])
  fix loop s s'
  assume IH: "\<And>s s'. loop s = Some s' \<Longrightarrow> same_tty s s'"
    and run: "sh_prevc s (sh_off s) \<bind> (\<lambda>(c, offset1, s). if c = 10 then Some s else loop (set_sh_off s offset1)) = Some s'"
  then obtain c q s1 where s1: "same_tty s s1" "s' = s1 \<or> loop (set_sh_off s1 q) = Some s'"
    by (auto simp: bind_eq_Some_conv dest!: prevc_frame split: if_splits)
  then show "same_tty s s'" using IH [of "set_sh_off s1 q" s'] same_tty_trans [OF s1(1)] same_tty_trans same_tty_sh_b(3) by blast
qed

lemma update_frame: "same_tty s (tty_update_cursor s)"
  by (simp add: tty_update_cursor_def)

lemma color_typed: "0 \<le> f \<Longrightarrow> f < 8 \<Longrightarrow> 0 \<le> b \<Longrightarrow> b < 8 \<Longrightarrow> TTY_GET_COLOR f b \<in> {0..63}"
proof -
  assume f: "0 \<le> f" "f < 8" and b: "0 \<le> b" "b < 8"
  have "f \<in> {0, 1, 2, 3, 4, 5, 6, 7}" "b \<in> {0, 1, 2, 3, 4, 5, 6, 7}" using f b by auto
  then show ?thesis by (auto simp: TTY_GET_COLOR_def)
qed

lemma three_bits: "0 \<le> TTY_GET_FG c \<and> TTY_GET_FG c < 8" "0 \<le> TTY_GET_BG c \<and> TTY_GET_BG c < 8"
  using AND_upper2 [of 7 "drop_bit 3 c"] AND_upper2 [of 7 c] by (auto simp: TTY_GET_FG_def TTY_GET_BG_def)

lemma csi_m_typed: "tty_typed s \<Longrightarrow> tty_typed (tty_csi_m c s)"
  using three_bits [of "color s"] color_typed [of "c - 30" "TTY_GET_BG (color s)"] color_typed [of "TTY_GET_FG (color s)" "c - 40"]
  by (auto simp: tty_typed_def tty_csi_m_def)

lemma csi_colors_typed: "tty_typed s \<Longrightarrow> csi_colors i n s = Some s' \<Longrightarrow> tty_typed s'"
  by (induction n arbitrary: i s) (auto simp: bind_eq_Some_conv dest: csi_m_typed)

lemma digit_typed:
  assumes "tty_typed s" "csi_digit c s = Some s'" "48 \<le> c"
  shows "tty_typed s'"
proof (cases "nb_esc_params s < int MAX_ESC_PARAMS")
  case True
  let ?k = "nat (nb_esc_params s)"
  have k: "?k < length (esc_params s)" using True assms(1) by (simp add: tty_typed_def nat_less_iff)
  then have p: "0 \<le> esc_params s ! ?k" using assms(1) by (simp add: tty_typed_def)
  have d: "esc_params s ! ?k * 10 + c \<le> INT_LIMIT" "s' = s\<lparr>esc_params := (esc_params s)[?k := esc_params s ! ?k * 10 + c - 48]\<rparr>"
    using True k assms(2) by (auto simp: csi_digit_def Let_def)
  have "\<forall>v \<in> set ((esc_params s)[?k := esc_params s ! ?k * 10 + c - 48]). 0 \<le> v \<and> v \<le> INT_LIMIT"
    using assms(1,3) p d(1) by (auto simp: tty_typed_def dest!: set_update_subset_insert [THEN subsetD])
  then show ?thesis using assms(1) by (simp add: d(2) tty_typed_def)
next
  case False
  then show ?thesis using assms by (simp add: csi_digit_def)
qed

lemma gotoxy_frame: "tty_gotoxy s junk x y = Some s' \<Longrightarrow> same_tty s s'"
proof -
  assume run: "tty_gotoxy s junk x y = Some s'"
  obtain l col b where pos: "eb_get_pos (sh_b s) (total_size (sh_b s)) = ((l, col), b)" by (metis prod.exhaust)
  from run pos obtain s1 q b1 q2 s2 where
    "add_lines (s\<lparr>sh_b := b\<rparr>) (l - TTY_YSIZE + y) l = Some s1" "goto_x (s1\<lparr>sh_b := b1\<rparr>) junk q x = Some (q2, s2)"
    "s' = set_sh_off s2 q2"
    by (auto simp: tty_gotoxy_def Let_def bind_eq_Some_conv)
  with lines_frame goto_x_frame show ?thesis by (metis same_tty_sh_b(1,3) same_tty_trans)
qed

lemma put_frame: "tty_put s junk c = Some s' \<Longrightarrow> same_tty s s'"
  by (auto simp: tty_put_def Let_def bind_eq_Some_conv dest!: frames intro: same_tty_trans same_tty_trans [OF _ same_tty_sh_b(3)]
      split: if_splits)

lemma csi_typed:
  assumes "tty_typed s" "tty_csi s junk c = Some s'"
  shows "tty_typed s'"
proof -
  have K: "same_tty s s'" if "csi_K s junk = Some s'"
    using that by (auto simp: csi_K_def bind_eq_Some_conv dest!: eol_frame delete_frame intro: same_tty_trans)
  have P: "same_tty s s'" if "csi_P s junk = Some s'"
    using that by (auto simp: csi_P_def bind_eq_Some_conv dest!: chars_frame delete_frame intro: same_tty_trans)
  have m: "tty_typed s'" if "csi_m s = Some s'"
    using that assms(1) csi_colors_typed by (auto simp: csi_m_def Let_def)
  have n: "tty_typed s'" if "csi_n s = Some s'"
    using that assms(1) by (auto simp: csi_n_def tty_write_def bind_eq_Some_conv tty_typed_def split: if_splits)
  show ?thesis
    using assms K P m n tty_typed_same [of s s'] gotoxy_frame [of s junk _ _ s'] spaces_frame [of s _ _ s']
    by (auto simp: tty_csi_def split: if_splits)
qed

lemma bs_frame: "tty_bs s = Some s' \<Longrightarrow> same_tty s s'"
  by (auto simp: tty_bs_def bind_eq_Some_conv dest!: prevc_frame intro: same_tty_trans split: if_splits)

lemma tty_lf_frame: "tty_lf s junk = Some s' \<Longrightarrow> same_tty s s'"
  by (auto simp: tty_lf_def bind_eq_Some_conv dest!: lf_frame intro: same_tty_trans)

text \<open>The types of the terminal's state hold after every byte, in every charset: there are always
  three escape parameters, none negative, the number of parameters is not negative, and both
  colors stay within the six bits of a color.
\<close>

theorem tty_emulate_typed:
  assumes "tty_typed s" "tty_emulate s junk c = Some s'"
  shows "tty_typed s'"
proof -
  have upd: "tty_typed (tty_update_cursor s1)" if "tty_typed s1" for s1
    using that tty_typed_same [OF update_frame] by simp
  have same: "tty_typed s1" if "same_tty s s1" for s1
    using that assms(1) tty_typed_same by blast
  show ?thesis
  proof (cases "tty_state s")
    case TTY_STATE_NORM
    have "tty_typed (s\<lparr>tty_state := TTY_STATE_ESC\<rparr>)" using assms(1) by (simp add: tty_typed_def)
    then show ?thesis
      using assms TTY_STATE_NORM
      by (auto simp: tty_emulate_def upd split: if_splits
          dest: bs_frame [THEN same, THEN upd] tty_lf_frame [THEN same, THEN upd] cr_frame [THEN same, THEN upd]
            put_frame [THEN same, THEN upd])
  next
    case TTY_STATE_ESC
    have e: "tty_typed (s\<lparr>tty_state := TTY_STATE_NORM\<rparr>)"
      "tty_typed (s\<lparr>esc_params := replicate MAX_ESC_PARAMS 0, nb_esc_params := 0, tty_state := TTY_STATE_CSI\<rparr>)"
      using assms(1) by (auto simp: tty_typed_def INT_LIMIT_def)
    show ?thesis
      using assms(2) TTY_STATE_ESC upd [OF e(1)] upd [OF e(2)] by (simp add: tty_emulate_def split: if_splits)
  next
    case TTY_STATE_CSI
    let ?s = "s\<lparr>nb_esc_params := nb_esc_params s + 1\<rparr>"
    have n: "tty_typed ?s" "tty_typed (?s\<lparr>tty_state := TTY_STATE_NORM\<rparr>)" if "nb_esc_params s < INT_LIMIT"
      using that assms(1) by (simp_all add: tty_typed_def)
    show ?thesis
    proof (cases "48 \<le> c \<and> c \<le> 57")
      case True
      then obtain z where "csi_digit c s = Some z" "s' = tty_update_cursor z"
        using assms(2) TTY_STATE_CSI by (auto simp: tty_emulate_def)
      with digit_typed [OF assms(1)] True upd show ?thesis by simp
    next
      case False
      then have g: "nb_esc_params s < INT_LIMIT" and
        z: "\<exists>z. (if c = code CHR '';'' then Some ?s else tty_csi (?s\<lparr>tty_state := TTY_STATE_NORM\<rparr>) junk c) = Some z \<and>
          s' = tty_update_cursor z"
        using assms(2) TTY_STATE_CSI by (auto simp: tty_emulate_def)
      from z obtain z where "z = ?s \<or> tty_csi (?s\<lparr>tty_state := TTY_STATE_NORM\<rparr>) junk c = Some z" "s' = tty_update_cursor z"
        by (auto split: if_splits)
      with csi_typed [OF n(2) [OF g]] n(1) [OF g] upd show ?thesis by blast
    qed
  qed
qed

theorem tty_emulate_typed_witness:
  "\<exists>s. tty_emulate ((new_shell_buffer (alloc_buffer ''*shell*'' BF_SAVELOG) True 5 77 [0, 0, 0] 0)
      \<lparr>tty_state := TTY_STATE_CSI\<rparr>) [] 52 = Some s \<and> tty_typed s"
proof -
  let ?s = "(new_shell_buffer (alloc_buffer ''*shell*'' BF_SAVELOG) True 5 77 [0, 0, 0] 0)\<lparr>tty_state := TTY_STATE_CSI\<rparr>"
  have s: "tty_typed ?s"
    by (simp add: new_shell_buffer_def tty_init_def set_sh_off_def tty_typed_def MAX_ESC_PARAMS_def INT_LIMIT_def
        TTY_GET_COLOR_def)
  have "nb_esc_params ?s = 0" "esc_params ?s = [0, 0, 0]" "tty_state ?s = TTY_STATE_CSI"
    by (simp_all add: new_shell_buffer_def tty_init_def set_sh_off_def)
  then have "\<exists>s. tty_emulate ?s [] 52 = Some s"
    by (simp add: tty_emulate_def csi_digit_def MAX_ESC_PARAMS_def INT_LIMIT_def)
  then show ?thesis using tty_emulate_typed [OF s, of "[]" 52] by blast
qed

section \<open>Plain output\<close>

definition plain :: "u8 list \<Rightarrow> bool" where
  "plain l \<longleftrightarrow> (\<forall>c \<in> set l. 32 \<le> c \<or> c = 9)"

definition at_end :: "Term \<Rightarrow> bool" where
  "at_end a \<longleftrightarrow> tty_state a = TTY_STATE_NORM \<and> t_pos a = length (t_text a) \<and>
     (\<forall>k. t_colors a = Some k \<longrightarrow> length k = length (t_text a))"

definition append_out :: "u8 list \<Rightarrow> Term \<Rightarrow> Term" where
  "append_out l a = a\<lparr>t_text := t_text a @ l, t_colors := map_option (\<lambda>k. k @ paint a (length l)) (t_colors a),
     t_pos := length (t_text a) + length l\<rparr>"

lemma append_out_simps [simp]:
  "at_end a \<Longrightarrow> at_end (append_out l a)" "t_text (append_out l a) = t_text a @ l"
  "at_end a \<Longrightarrow> append_out [] a = a" "append_out k (append_out l a) = append_out (l @ k) a"
  by (auto simp: at_end_def append_out_def paint_def replicate_add option.map_comp comp_def option.map_id0 [unfolded id_def])

lemma insert_end: "at_end a \<Longrightarrow> (term_insert (length (t_text a)) l a)\<lparr>t_pos := length (t_text a) + length l\<rparr> = append_out l a"
  by (cases "t_colors a") (auto simp: at_end_def term_insert_def append_out_def)

lemma insert_moved: "(term_insert p l (a\<lparr>t_pos := v\<rparr>))\<lparr>t_pos := w\<rparr> = (term_insert p l a)\<lparr>t_pos := w\<rparr>"
  by (simp add: term_insert_def paint_def)

lemma plain_byte: "32 \<le> c \<or> c = 9 \<Longrightarrow> uint c \<notin> {8, 10, 13, 27} \<and> (uint c \<ge> 32 \<or> uint c = 9)" for c :: u8
proof -
  have "32 \<le> c \<longleftrightarrow> 32 \<le> uint c" by (simp add: word_le_def)
  moreover have "c = 9 \<longleftrightarrow> uint c = 9" by (simp add: word_uint_eq_iff)
  ultimately show "32 \<le> c \<or> c = 9 \<Longrightarrow> uint c \<notin> {8, 10, 13, 27} \<and> (uint c \<ge> 32 \<or> uint c = 9)" by auto
qed

lemma plain_step:
  assumes "at_end a" "32 \<le> c \<or> c = 9"
  shows "term_step Charset_8859_1 (uint c) a = Some (append_out [c] a)"
proof -
  have "hd (unicode_to_charset (uint c) Charset_8859_1) = c"
    using u8_uint_less [of c] by (simp add: unicode_to_charset_def encode_8859_1_def)
  then show ?thesis
    using assms(1) plain_byte [OF assms(2)] insert_end [OF assms(1), of "[c]"]
    by (simp add: term_step_def term_put_def at_end_def Let_def)
qed

lemma plain_run:
  assumes "at_end a" "plain l" "length (t_text a) + length l + 1 < 2147483648"
  shows "term_run Charset_8859_1 (l @ k) a = term_run Charset_8859_1 k (append_out l a) \<and>
    (run_fits Charset_8859_1 (l @ k) a \<longleftrightarrow> run_fits Charset_8859_1 k (append_out l a))"
  using assms
proof (induction l arbitrary: a)
  case (Cons c l)
  have c: "term_step Charset_8859_1 (uint c) a = Some (append_out [c] a)"
    using plain_step [OF Cons.prems(1)] Cons.prems(2) by (simp add: plain_def)
  have "fits a (append_out [c] a)" using Cons.prems(1,3) by (simp add: fits_def room_for_def at_end_def)
  moreover have "term_run Charset_8859_1 (l @ k) (append_out [c] a) = term_run Charset_8859_1 k (append_out l (append_out [c] a)) \<and>
      (run_fits Charset_8859_1 (l @ k) (append_out [c] a) \<longleftrightarrow> run_fits Charset_8859_1 k (append_out l (append_out [c] a)))"
    by (rule Cons.IH) (use Cons.prems in \<open>simp_all add: plain_def\<close>)
  ultimately show ?case using c by simp
qed simp

lemma bol_no_newline: "p \<le> length t \<Longrightarrow> \<forall>i. bol t p \<le> i \<and> i < p \<longrightarrow> t ! i \<noteq> 10"
proof (induction p)
  case (Suc p)
  then show ?case using bol_step [of p t] by (auto simp: less_Suc_eq)
qed simp

lemma eol_skip: "q \<le> p \<Longrightarrow> p \<le> length t \<Longrightarrow> (\<forall>i. q \<le> i \<and> i < p \<longrightarrow> t ! i \<noteq> 10) \<Longrightarrow> eol t q = eol t p"
proof (induction "p - q" arbitrary: q)
  case (Suc n)
  then have "eol t q = eol t (Suc q)" using eol_step [of q t] by auto
  then show ?case using Suc.hyps(1) [of "Suc q"] Suc.hyps(2) Suc.prems by auto
qed simp

text \<open>Carriage return and line feed, in the last line, begin a new line.\<close>

lemma crlf_run:
  assumes "at_end a" "length (t_text a) + 1 < 2147483648"
  shows "term_run Charset_8859_1 [13, 10] a = Some (append_out [10] a)" "run_fits Charset_8859_1 [13, 10] a"
proof -
  let ?a = "a\<lparr>t_pos := bol (t_text a) (t_pos a)\<rparr>"
  have e: "eol (t_text a) (bol (t_text a) (length (t_text a))) = length (t_text a)"
    using eol_skip [OF bol_le [of "t_text a" "length (t_text a)"]] bol_no_newline [of "length (t_text a)" "t_text a"] by simp
  have 1: "term_step Charset_8859_1 13 a = Some ?a"
    using assms(1) by (simp add: term_step_def at_end_def)
  have 2: "term_step Charset_8859_1 10 ?a = Some (append_out [10] a)"
    using assms(1) e insert_end [OF assms(1), of "[10]"]
    by (simp add: insert_moved term_step_def term_lf_def at_end_def Let_def)
  show "term_run Charset_8859_1 [13, 10] a = Some (append_out [10] a)" "run_fits Charset_8859_1 [13, 10] a"
    using 1 2 assms by (simp_all add: fits_def room_for_def at_end_def)
qed

text \<open>What a program prints in a shell buffer: a line of printable characters and tabs, ended by
  carriage return and line feed and printed at the end of the buffer, is appended to the buffer in
  the current color, with its line feed, and the position is at the end again.
\<close>

theorem shell_appends_line:
  assumes "represents Charset_8859_1 s a" "tty_state a = TTY_STATE_NORM" "t_pos a = length (t_text a)" "plain l"
    "length (t_text a) + length l + 2 < 2147483648"
  shows "\<exists>s'. shell_read_cb s junk (l @ [13, 10]) = Some s' \<and> represents Charset_8859_1 s' (append_out (l @ [10]) a)"
proof -
  have a: "at_end a" using assms(1-3) rep_colors [of Charset_8859_1 s a] by (auto simp: at_end_def represents_def)
  have l: "length (t_text a) + length l + 1 < 2147483648" using assms(5) by simp
  note run = plain_run [OF a assms(4) l, of "[13, 10]"]
  note crlf = crlf_run [of "append_out l a"]
  have "term_run Charset_8859_1 (l @ [13, 10]) a = Some (append_out (l @ [10]) a)"
    using run crlf(1) a l by simp
  moreover have "run_fits Charset_8859_1 (l @ [13, 10]) a"
    using run crlf(2) a l by simp
  ultimately show ?thesis using shell_read_rep [OF assms(1)] by simp
qed

theorem shell_appends_line_witness:
  "\<exists>s. shell_read_cb (new_shell_buffer (alloc_buffer ''*shell*'' BF_SAVELOG) True 5 77 [0, 0, 0] 0) [] [104, 105, 13, 10] = Some s \<and>
    represents Charset_8859_1 s (append_out [104, 105, 10] (new_term True 5 77 [0, 0, 0] 0))"
  using shell_appends_line [OF new_shell_represents [of "''*shell*''" True 5 77 "[0, 0, 0]" 0], of "[104, 105]" "[]"]
  by (simp add: new_term_def plain_def)

section \<open>Colored lines\<close>

lemma byte_text_read:
  assumes "byte_text b t"
  shows "\<exists>b'. eb_read b p 1 = Some (list_slice p 1 t, b') \<and> byte_text b' t"
proof -
  obtain b' where b': "eb_read b p 1 = Some (list_slice p 1 t, b')" "buf_ok b'" "same_text b b'"
    using eb_read_correct [OF byte_textD(1) [OF assms], of p 1] byte_textD(2) [OF assms] by auto
  have "same_doc b b'" using b'(2,3) by (simp add: same_doc_def)
  with byte_text_same_doc [OF assms] b' show ?thesis by blast
qed

lemma colorized_rep:
  assumes "rep cs s a" "t_colors a = Some k" "p \<le> length (t_text a)"
  shows "\<exists>s'. shell_get_colorized_line s junk col room (int p) =
      Some (take room (map (\<lambda>i. colored (def_color a) (k ! i) (uint (t_text a ! i))) [p..<eol (t_text a) p]), s') \<and> rep cs s' a"
  using assms(1,3)
proof (induction "length (t_text a) - p" arbitrary: s p col room)
  case 0
  then have p: "p = length (t_text a)" by simp
  obtain bc where bc: "b_color s = Some bc" "byte_text bc k"
    using "0.prems"(1) assms(2) by (auto simp: rep_def sh_holds_def colors_ok_def split: option.splits)
  obtain bc1 where bc1: "eb_read bc p 1 = Some (list_slice p 1 k, bc1)" "byte_text bc1 k"
    using byte_text_read [OF bc(2)] by blast
  have r: "rep cs (s\<lparr>b_color := Some bc1\<rparr>) a"
    using "0.prems"(1) bc bc1(2) assms(2) by (simp add: rep_def sh_holds_def colors_ok_def Tty.defs)
  show ?case
    using bc(1) bc1(1) p rep_nextc_end [OF r, of junk] r by (subst shell_get_colorized_line.simps) simp
next
  case (Suc n)
  then have lt: "p < length (t_text a)" by simp
  obtain bc where bc: "b_color s = Some bc" "byte_text bc k"
    using Suc.prems(1) assms(2) by (auto simp: rep_def sh_holds_def colors_ok_def split: option.splits)
  obtain bc1 where bc1: "eb_read bc p 1 = Some (list_slice p 1 k, bc1)" "byte_text bc1 k"
    using byte_text_read [OF bc(2)] by blast
  have r: "rep cs (s\<lparr>b_color := Some bc1\<rparr>) a"
    using Suc.prems(1) bc bc1(2) assms(2) by (simp add: rep_def sh_holds_def colors_ok_def Tty.defs)
  have "p < length k" using rep_colors [OF Suc.prems(1) assms(2)] lt by simp
  then have sl: "list_slice p 1 k = [k ! p]" by (simp add: list_slice_def take_Suc_conv_app_nth hd_drop_conv_nth take_Suc)
  obtain s1 where s1: "sh_nextc (s\<lparr>b_color := Some bc1\<rparr>) junk (int p) = Some (uint (t_text a ! p), int (Suc p), s1)" "rep cs s1 a"
    using rep_nextc [OF r lt, of junk] by blast
  show ?case
  proof (cases "t_text a ! p = 10")
    case True
    then have "eol (t_text a) p = p" using eol_step [OF lt] by simp
    then show ?thesis
      using bc(1) bc1(1) sl s1 True by (subst shell_get_colorized_line.simps) simp
  next
    case False
    have n: "n = length (t_text a) - Suc p" and le: "Suc p \<le> length (t_text a)" using Suc.hyps(2) by simp_all
    have d: "def_color s' = def_color a" if "rep cs s' a" for s' using that by (simp add: rep_def Tty.defs)
    obtain s2 where s2: "shell_get_colorized_line s1 junk (k ! p) (room - 1) (int (Suc p)) =
        Some (take (room - 1) (map (\<lambda>i. colored (def_color a) (k ! i) (uint (t_text a ! i))) [Suc p..<eol (t_text a) (Suc p)]), s2)"
      "rep cs s2 a"
      using Suc.hyps(1) [OF n s1(2) le, of "k ! p" "room - 1"] by blast
    have "p < eol (t_text a) p" "eol (t_text a) p = eol (t_text a) (Suc p)"
      using eol_step [OF lt] False eol_bounds [of "Suc p" "t_text a"] lt by auto
    then have "[p..<eol (t_text a) p] = p # [Suc p..<eol (t_text a) (Suc p)]" by (simp add: upt_conv_Cons)
    then show ?thesis
      using bc(1) bc1(1) sl s1 s2 False d by (subst shell_get_colorized_line.simps) (cases room, simp_all)
  qed
qed

text \<open>The line that a shell window shows from an offset: the characters up to the end of the line, each
  with the style of its color in the color buffer unless that is the default color, cut off at the
  size of the caller's array; the buffers still represent the same terminal.
\<close>

theorem shell_line_colored:
  assumes "represents cs s a" "t_colors a = Some k" "p \<le> length (t_text a)"
  shows "\<exists>s'. shell_get_colorized_line s junk col room (int p) =
      Some (take room (map (\<lambda>i. colored (def_color a) (k ! i) (uint (t_text a ! i))) [p..<eol (t_text a) p]), s') \<and> rep cs s' a"
  using assms colorized_rep by (auto simp: represents_def)

theorem shell_line_colored_witness:
  "\<exists>s s1 s2. shell_read_cb (new_shell_buffer (alloc_buffer ''*shell*'' BF_SAVELOG) True 5 77 [0, 0, 0] 0) [] demo_output = Some s1 \<and>
    shell_get_colorized_line s1 [] 0 80 0 = Some ([0x80800063, 98], s2)"
proof -
  obtain s where s: "shell_read_cb (new_shell_buffer (alloc_buffer ''*shell*'' BF_SAVELOG) True 5 77 [0, 0, 0] 0) [] demo_output = Some s"
    "represents Charset_8859_1 s demo_term"
    using shell_read_rep [OF new_shell_represents _ demo_run demo_fits] by (metis QECharset.distinct(1))
  have k: "t_colors demo_term = Some [8, 56]" by (simp add: demo_term_def)
  have "take 80 (map (\<lambda>i. colored (def_color demo_term) ([8, 56] ! i) (uint (t_text demo_term ! i)))
      [0..<eol (t_text demo_term) 0]) = [0x80800063, 98]"
    by code_simp
  then show ?thesis using s shell_line_colored [OF s(2) k, of 0 "[]" 0 80] by auto
qed

section \<open>What the terminal does wrong\<close>

lemma run_new_shell:
  assumes "term_run Charset_8859_1 buf (new_term True 5 77 [0, 0, 0] 0) = Some a"
    "run_small Charset_8859_1 buf (new_term True 5 77 [0, 0, 0] 0)"
  shows "\<exists>s. shell_read_cb (new_shell_buffer (alloc_buffer ''*shell*'' BF_SAVELOG) True 5 77 [0, 0, 0] 0) junk buf = Some s \<and>
    contents (sh_b s) = t_text a \<and> sh_off s = int (t_pos a)"
proof -
  obtain s where s: "shell_read_cb (new_shell_buffer (alloc_buffer ''*shell*'' BF_SAVELOG) True 5 77 [0, 0, 0] 0) junk buf = Some s"
    "represents Charset_8859_1 s a"
    using shell_read_rep [where junk = junk, OF new_shell_represents _ assms(1) run_small_fits [OF assms(2)]] by auto
  from s(2) have "byte_text (sh_b s) (t_text a)" "sh_off s = int (t_pos a)"
    by (simp_all add: represents_def rep_def sh_holds_def)
  then show ?thesis using s(1) byte_textD(2) by blast
qed

text \<open>
  Moving to a column behind the end of the line adds the spaces but leaves the cursor in front of
  them: \<open>ESC [ 1 ; 5 H\<close> and \<open>x\<close> in a new shell put the \<open>x\<close> into column 1, not 5.
\<close>

lemma goto_column_falls_short:
  "\<exists>s. shell_read_cb (new_shell_buffer (alloc_buffer ''*shell*'' BF_SAVELOG) True 5 77 [0, 0, 0] 0) junk
      [27, 91, 49, 59, 53, 72, 120] = Some s \<and> contents (sh_b s) = [120, 32, 32, 32, 10] \<and> sh_off s = 1"
proof -
  let ?buf = "[27, 91, 49, 59, 53, 72, 120]" and ?new = "new_term True 5 77 [0, 0, 0] 0"
  have "map_option (\<lambda>a. (t_text a, t_pos a)) (term_run Charset_8859_1 ?buf ?new) = Some ([120, 32, 32, 32, 10], 1)"
    by code_simp
  then obtain a where "term_run Charset_8859_1 ?buf ?new = Some a" "t_text a = [120, 32, 32, 32, 10]" "t_pos a = 1"
    by auto
  moreover have "run_small Charset_8859_1 ?buf ?new" by code_simp
  ultimately show ?thesis using run_new_shell [of ?buf a junk] by auto
qed

text \<open>A sequence \<open>m\<close> with more than three parameters reads behind the array of the parameters.\<close>

lemma fourth_parameter_is_read: "nb_esc_params s \<ge> 4 \<Longrightarrow> csi_m s = None"
proof -
  assume n: "nb_esc_params s \<ge> 4"
  have *: "csi_colors i m s = None" if "i + m > MAX_ESC_PARAMS" "i \<le> MAX_ESC_PARAMS" for i m and s :: "'b Tty_scheme"
    using that by (induction m arbitrary: i s) (auto simp: guard_def not_less)
  show ?thesis using n by (auto simp: csi_m_def Let_def MAX_ESC_PARAMS_def intro!: *)
qed

text \<open>A key for the process is one byte, whatever character it was: the euro sign is sent as \<open>0xAC\<close>.\<close>

lemma key_is_cut: "shell_write_char s True 0x20AC = map_option Inr (tty_write s [0xAC])"
proof -
  have "byte 0x20AC = 0xAC" by code_simp
  then show ?thesis by (simp only: shell_write_char_def tty_keys_def if_True)
qed

end
