(* ===== verification/Compile_Errors.thy ===== *)
theory Compile_Errors
  imports Shell_Term
begin

text \<open>
  The commands on compiler messages of \<open>src/shell.c\<close>: \<open>do_compile_error\<close> searches the compilation
  buffer for the next or previous line of the form \<open>file:number:\<close>. \<open>compile_error_finds\<close> says which
  line it stops at. The static variables are a \<open>CompileState\<close>; loading the file and going to the
  line are what the caller does with the result. Where the line number overflows or \<open>isdigit\<close> is
  called with a character beyond its range there is no result.
\<close>

section \<open>The code\<close>

record CompileState =
  error_offset :: int
  last_line_num :: int
  last_filename :: "u8 list"

definition compile_reset :: "CompileState \<Rightarrow> CompileState" where
  "compile_reset st = st\<lparr>error_offset := -1, last_line_num := -1\<rparr>"

text \<open>The buffer whose messages are searched.\<close>

definition compile_buffer :: "QEmacsState \<Rightarrow> bufptr option" where
  "compile_buffer qs = (case eb_find qs ''*compilation*'' of
       None \<Rightarrow> eb_find qs ''*shell*'' | Some p \<Rightarrow> Some p)"

definition is_digit :: "int \<Rightarrow> bool option" where
  "is_digit c = (if 0 \<le> c \<and> c < 256 then Some (48 \<le> c \<and> c \<le> 57) else None)"

definition FILENAME_SIZE :: nat where "FILENAME_SIZE = 1024"

text \<open>The name up to a colon and the offset behind it; none if the line or a word ends before.\<close>

partial_function (option) error_file ::
    "EditBuffer \<Rightarrow> u8 list \<Rightarrow> int \<Rightarrow> u8 list \<Rightarrow> ((u8 list \<times> int) option \<times> EditBuffer) option" where
  "error_file b junk offset q = do {
     (c, offset, b) \<leftarrow> eb_nextc b junk offset;
     if c = 10 \<or> c = 9 \<or> c = 32 then Some (None, b)
     else if c = 58 then Some (Some (q, offset), b)
     else error_file b junk offset (if length q < FILENAME_SIZE - 1 then q @ [byte c] else q) }"

partial_function (option) error_number ::
    "EditBuffer \<Rightarrow> u8 list \<Rightarrow> int \<Rightarrow> int \<Rightarrow> (int option \<times> EditBuffer) option" where
  "error_number b junk offset line_num = do {
     (c, offset, b) \<leftarrow> eb_nextc b junk offset;
     if c = 58 then Some (Some line_num, b)
     else do {
       d \<leftarrow> is_digit c;
       if \<not> d then Some (None, b)
       else do {
         guard (line_num * 10 + c \<le> INT_LIMIT);
         error_number b junk offset (line_num * 10 + c - 48) } } }"

definition error_at :: "EditBuffer \<Rightarrow> u8 list \<Rightarrow> int \<Rightarrow> ((u8 list \<times> int) option \<times> EditBuffer) option" where
  "error_at b junk offset = do {
     (r, b) \<leftarrow> error_file b junk offset [];
     case r of None \<Rightarrow> Some (None, b)
     | Some (q, offset) \<Rightarrow> do {
         (n, b) \<leftarrow> error_number b junk offset 0;
         Some (map_option (Pair (takeWhile (\<lambda>c. c \<noteq> 0) q)) n, b) } }"

datatype ErrorJump = No_More_Errors | No_Previous_Error | Goto_Error "u8 list" int

text \<open>To the next line, or to the beginning of the previous one; or the message that there is none.\<close>

definition error_move :: "int \<Rightarrow> EditBuffer \<Rightarrow> u8 list \<Rightarrow> int \<Rightarrow> (ErrorJump + int \<times> EditBuffer) option" where
  "error_move dir b junk offset =
    (if dir > 0
     then if offset \<ge> int (total_size b) then Some (Inl No_More_Errors)
          else map_option Inr (eb_next_line b junk offset)
     else if offset \<le> 0 then Some (Inl No_Previous_Error)
     else do {
       (c, offset, b) \<leftarrow> eb_prevc b offset;
       map_option Inr (eb_goto_bol b offset) })"

text \<open>The loop of \<open>do_compile_error\<close>; it enters at \<open>find_error\<close> if \<open>look\<close> is set.\<close>

partial_function (option) error_loop ::
    "CompileState \<Rightarrow> int \<Rightarrow> EditBuffer \<Rightarrow> u8 list \<Rightarrow> int \<Rightarrow> bool \<Rightarrow> (ErrorJump \<times> CompileState \<times> EditBuffer) option" where
  "error_loop st dir b junk offset look = do {
     r \<leftarrow> (if look then Some (Inr (offset, b)) else error_move dir b junk offset);
     case r of Inl m \<Rightarrow> Some (m, st, b)
     | Inr (found_offset, b) \<Rightarrow> do {
         (e, b) \<leftarrow> error_at b junk found_offset;
         case e of None \<Rightarrow> error_loop st dir b junk found_offset False
         | Some (fname, line_num) \<Rightarrow>
             if line_num \<ge> 1 \<and> (line_num \<noteq> last_line_num st \<or> fname \<noteq> last_filename st)
             then Some (Goto_Error fname line_num,
               st\<lparr>error_offset := found_offset, last_line_num := line_num, last_filename := fname\<rparr>, b)
             else error_loop st dir b junk found_offset False } }"

text \<open>\<open>windows\<close> are the addresses of the offsets of the windows on the buffer.\<close>

definition do_compile_error ::
    "CompileState \<Rightarrow> int \<Rightarrow> EditBuffer \<Rightarrow> u8 list \<Rightarrow> tracker list \<Rightarrow> (ErrorJump \<times> CompileState \<times> EditBuffer) option" where
  "do_compile_error st dir b junk windows = do {
     (r, st, b) \<leftarrow> (if error_offset st < 0 then error_loop st dir b junk 0 True
                   else error_loop st dir b junk (error_offset st) False);
     case r of Goto_Error fname line_num \<Rightarrow>
         Some (r, st, b\<lparr>tracked := fold (\<lambda>a m. m(a := error_offset st)) windows (tracked b)\<rparr>)
     | _ \<Rightarrow> Some (r, st, b) }"

section \<open>The messages of a text\<close>

definition digit :: "u8 \<Rightarrow> bool" where
  "digit c \<longleftrightarrow> 48 \<le> c \<and> c \<le> 57"

definition name_byte :: "u8 \<Rightarrow> bool" where
  "name_byte c \<longleftrightarrow> c \<notin> {10, 9, 32, 58}"

text \<open>The file name before a colon, after the part \<open>q\<close> of it, and the text behind; a number before a colon.\<close>

definition file_part :: "u8 list \<Rightarrow> u8 list \<Rightarrow> (u8 list \<times> u8 list) option" where
  "file_part q l = (case dropWhile name_byte l of [] \<Rightarrow> None
     | c # r \<Rightarrow> if c = 58 then Some (take 1023 (q @ takeWhile name_byte l), r) else None)"

definition number_part :: "int \<Rightarrow> u8 list \<Rightarrow> int option" where
  "number_part n l = (case dropWhile digit l of [] \<Rightarrow> None
     | c # r \<Rightarrow> if c = 58 then Some (foldl (\<lambda>n c. n * 10 + uint c - 48) n (takeWhile digit l)) else None)"

text \<open>The file and the line number at the beginning of a text.\<close>

definition message :: "u8 list \<Rightarrow> (u8 list \<times> int) option" where
  "message l = (case file_part [] l of None \<Rightarrow> None
     | Some (f, r) \<Rightarrow> map_option (Pair (takeWhile (\<lambda>c. c \<noteq> 0) f)) (number_part 0 r))"

text \<open>The search stops at the beginning of a line with a message that is not the last one again.\<close>

definition accepts :: "CompileState \<Rightarrow> u8 list \<Rightarrow> nat \<Rightarrow> bool" where
  "accepts st t q \<longleftrightarrow> (q = 0 \<or> t ! (q - 1) = 10) \<and> (case message (drop q t) of None \<Rightarrow> False
     | Some (f, n) \<Rightarrow> n \<ge> 1 \<and> (n \<noteq> last_line_num st \<or> f \<noteq> last_filename st))"

text \<open>The offsets that the search looks at, in its order.\<close>

definition candidates :: "int \<Rightarrow> int \<Rightarrow> u8 list \<Rightarrow> nat list" where
  "candidates dir p t =
    (if dir > 0 then [(if p < 0 then 0 else Suc (nat p))..<Suc (length t)]
     else if p < 0 then [0] else rev [0..<nat p])"

text \<open>No line number has more than nine digits.\<close>

definition short_numbers :: "u8 list \<Rightarrow> bool" where
  "short_numbers t \<longleftrightarrow> (\<forall>p \<le> length t. length (takeWhile digit (drop p t)) \<le> 9)"

section \<open>Reading a message\<close>

lemma next_byte_text:
  assumes "byte_text b t" "p < length t"
  obtains b' where "eb_nextc b junk (int p) = Some (uint (t ! p), int (Suc p), b')" "byte_text b' t" "tracked b' = tracked b"
  using byte_text_nextc [OF assms] by blast

lemma uint_eq: "uint (c :: u8) = 58 \<longleftrightarrow> c = 58" "uint c = 9 \<longleftrightarrow> c = 9" "uint c = 32 \<longleftrightarrow> c = 32"
  by (simp_all add: word_uint_eq_iff)

lemma drop_Cons: "p < length t \<Longrightarrow> drop p t = t ! p # drop (Suc p) t"
  by (simp add: Cons_nth_drop_Suc)

lemma file_part_Cons: "length q \<le> 1023 \<Longrightarrow> file_part q (c # l) =
    (if name_byte c then file_part (if length q < 1023 then q @ [c] else q) l else if c = 58 then Some (q, l) else None)"
  by (auto simp: file_part_def take_Cons' simp del: dropWhile_eq_Nil_conv split: list.split)

lemma number_part_Cons: "number_part n (c # l) =
    (if digit c then number_part (n * 10 + uint c - 48) l else if c = 58 then Some n else None)"
  by (auto simp: number_part_def simp del: dropWhile_eq_Nil_conv split: list.split)

lemma parts_Nil [simp]: "file_part q [] = None" "number_part n [] = None"
  by (simp_all add: file_part_def number_part_def)

definition behind :: "u8 list \<Rightarrow> u8 list \<times> u8 list \<Rightarrow> u8 list \<times> int" where
  "behind t = (\<lambda>(f, r). (f, int (length t - length r)))"

lemma error_file_text:
  assumes "byte_text b t" "p \<le> length t" "length q \<le> 1023"
  shows "\<exists>b'. error_file b junk (int p) q = Some (map_option (behind t) (file_part q (drop p t)), b') \<and>
    byte_text b' t \<and> tracked b' = tracked b"
  using assms
proof (induction "length t - p" arbitrary: b p q)
  case 0
  then have "p = length t" by simp
  then show ?case using byte_text_nextc_end [OF "0.prems"(1), of junk] "0.prems"(1) by (subst error_file.simps) simp
next
  case (Suc n)
  then have lt: "p < length t" by simp
  obtain b1 where b1: "eb_nextc b junk (int p) = Some (uint (t ! p), int (Suc p), b1)" "byte_text b1 t" "tracked b1 = tracked b"
    by (rule next_byte_text [OF Suc.prems(1) lt])
  show ?case
  proof (cases "name_byte (t ! p)")
    case True
    then have ne: "uint (t ! p) \<noteq> 10" "uint (t ! p) \<noteq> 9" "uint (t ! p) \<noteq> 32" "uint (t ! p) \<noteq> 58"
      by (simp_all add: name_byte_def uint_eq)
    let ?q = "if length q < 1023 then q @ [t ! p] else q"
    have n: "n = length t - Suc p" "Suc p \<le> length t" "length ?q \<le> 1023"
      using Suc.hyps(2) Suc.prems(3) by simp_all
    have "error_file b junk (int p) q = error_file b1 junk (int (Suc p)) ?q"
      using b1(1) ne by (subst error_file.simps) (simp add: FILENAME_SIZE_def)
    with Suc.hyps(1) [OF n(1) b1(2) n(2,3)] b1(3) True show ?thesis
      by (simp add: drop_Cons [OF lt] file_part_Cons [OF Suc.prems(3)])
  next
    case False
    then show ?thesis
      using b1 lt
      by (subst error_file.simps)
        (auto simp: drop_Cons [OF lt] file_part_Cons [OF Suc.prems(3)] name_byte_def uint_eq behind_def)
  qed
qed

lemma digit_uint: "digit c \<longleftrightarrow> 48 \<le> uint c \<and> uint c \<le> 57"
  by (simp add: digit_def word_le_def)

lemma error_number_text:
  assumes "byte_text b t" "p \<le> length t" "0 \<le> n" "length (takeWhile digit (drop p t)) \<le> 9"
    "n < 10 ^ (9 - length (takeWhile digit (drop p t)))"
  shows "\<exists>b'. error_number b junk (int p) n = Some (number_part n (drop p t), b') \<and>
    byte_text b' t \<and> tracked b' = tracked b"
  using assms
proof (induction "length t - p" arbitrary: b p n)
  case 0
  then have "p = length t" by simp
  then show ?case
    using byte_text_nextc_end [OF "0.prems"(1), of junk] "0.prems"(1)
    by (subst error_number.simps) (simp add: is_digit_def)
next
  case (Suc m)
  then have lt: "p < length t" by simp
  obtain b1 where b1: "eb_nextc b junk (int p) = Some (uint (t ! p), int (Suc p), b1)" "byte_text b1 t" "tracked b1 = tracked b"
    by (rule next_byte_text [OF Suc.prems(1) lt])
  have d: "is_digit (uint (t ! p)) = Some (digit (t ! p))"
    using u8_uint_less [of "t ! p"] by (simp add: is_digit_def digit_uint)
  show ?case
  proof (cases "digit (t ! p)")
    case True
    let ?d = "takeWhile digit (drop (Suc p) t)" and ?n = "n * 10 + uint (t ! p) - 48"
    have len: "length ?d \<le> 8" "length (takeWhile digit (drop p t)) = Suc (length ?d)"
      using Suc.prems(4) True drop_Cons [OF lt] by simp_all
    have ten: "n < 10 ^ (8 - length ?d)" using Suc.prems(5) len by simp
    have "(10::int) ^ (9 - length ?d) = 10 * 10 ^ (8 - length ?d)"
      using len(1) by (simp add: Suc_diff_le flip: power_Suc)
    with ten True have n: "?n < 10 ^ (9 - length ?d)" "0 \<le> ?n"
      using Suc.prems(3) by (auto simp: digit_uint)
    have "(10::int) ^ (8 - length ?d) \<le> 10 ^ 8" by (rule power_increasing) simp_all
    with ten True have g: "n * 10 + uint (t ! p) \<le> INT_LIMIT" by (auto simp: digit_uint INT_LIMIT_def)
    have ne: "uint (t ! p) \<noteq> 58" using True by (simp add: digit_uint)
    have hyp: "\<exists>b'. error_number b1 junk (int (Suc p)) ?n = Some (number_part ?n (drop (Suc p) t), b') \<and>
        byte_text b' t \<and> tracked b' = tracked b1"
      by (rule Suc.hyps(1)) (use Suc.hyps(2) b1(2) lt n len in simp_all)
    have "error_number b junk (int p) n = error_number b1 junk (int (Suc p)) ?n"
      using b1(1) d True g ne by (subst error_number.simps) simp
    then show ?thesis using hyp b1(3) True by (simp add: drop_Cons [OF lt] number_part_Cons)
  next
    case False
    then show ?thesis
      using b1 d lt by (subst error_number.simps) (auto simp: drop_Cons [OF lt] number_part_Cons uint_eq)
  qed
qed

lemma error_at_text:
  assumes "byte_text b t" "p \<le> length t" "short_numbers t"
  shows "\<exists>b'. error_at b junk (int p) = Some (message (drop p t), b') \<and> byte_text b' t \<and> tracked b' = tracked b"
proof -
  obtain b1 where b1: "error_file b junk (int p) [] = Some (map_option (behind t) (file_part [] (drop p t)), b1)"
    "byte_text b1 t" "tracked b1 = tracked b"
    using error_file_text [OF assms(1,2), of "[]" junk] by auto
  show ?thesis
  proof (cases "file_part [] (drop p t)")
    case (Some fr)
    obtain f r where fr: "fr = (f, r)" by (cases fr)
    have "58 # r = dropWhile name_byte (drop p t)"
      using Some fr by (auto simp: file_part_def split: list.splits if_splits)
    then have "\<exists>x. t = x @ r"
      by (metis append_Cons append_Nil append_assoc append_take_drop_id takeWhile_dropWhile_id)
    then have r: "drop (length t - length r) t = r" by auto
    let ?k = "length t - length r"
    have "length (takeWhile digit (drop ?k t)) \<le> 9" using assms(3) by (simp add: short_numbers_def)
    then obtain b2 where b2: "error_number b1 junk (int ?k) 0 = Some (number_part 0 (drop ?k t), b2)"
      "byte_text b2 t" "tracked b2 = tracked b1"
      using error_number_text [OF b1(2), of ?k 0 junk] by auto
    show ?thesis using b1 b2 Some fr r by (simp add: error_at_def message_def behind_def)
  qed (use b1 in \<open>simp add: error_at_def message_def\<close>)
qed

section \<open>Moving over lines\<close>

lemma next_line_text:
  assumes "byte_text b t" "p \<le> length t"
  shows "\<exists>b'. eb_next_line b junk (int p) = Some (int (min (length t) (eol t p + 1)), b') \<and>
    byte_text b' t \<and> tracked b' = tracked b"
  using assms
proof (induction "length t - p" arbitrary: b p)
  case 0
  then have "p = length t" by simp
  then show ?case using byte_text_nextc_end [OF "0.prems"(1), of junk] "0.prems"(1) by (subst eb_next_line.simps) simp
next
  case (Suc n)
  then have lt: "p < length t" by simp
  obtain b1 where b1: "eb_nextc b junk (int p) = Some (uint (t ! p), int (Suc p), b1)" "byte_text b1 t" "tracked b1 = tracked b"
    by (rule next_byte_text [OF Suc.prems(1) lt])
  show ?case
  proof (cases "t ! p = 10")
    case True
    then show ?thesis using b1 eol_step [OF lt] lt by (subst eb_next_line.simps) simp
  next
    case False
    have n: "n = length t - Suc p" "Suc p \<le> length t" using Suc.hyps(2) by simp_all
    show ?thesis
      using Suc.hyps(1) [OF n(1) b1(2) n(2)] b1 False eol_step [OF lt] by (subst eb_next_line.simps) simp
  qed
qed

lemma goto_bol_text:
  assumes "byte_text b t" "p \<le> length t"
  shows "\<exists>b'. eb_goto_bol b (int p) = Some (int (bol t p), b') \<and> byte_text b' t \<and> tracked b' = tracked b"
  using assms
proof (induction p arbitrary: b)
  case 0
  then show ?case by (subst eb_goto_bol.simps) simp
next
  case (Suc p)
  then have lt: "p < length t" by simp
  obtain b1 where b1: "eb_prevc b (int (Suc p)) = Some (uint (t ! p), int p, b1)" "byte_text b1 t" "tracked b1 = tracked b"
    using byte_text_prevc [OF Suc.prems(1) lt] by blast
  show ?case
  proof (cases "t ! p = 10")
    case False
    then show ?thesis using Suc.IH [OF b1(2)] b1 bol_step [OF lt] lt by (subst eb_goto_bol.simps) simp
  qed (use b1 bol_step [OF lt] in \<open>subst eb_goto_bol.simps, simp\<close>)
qed

section \<open>The search\<close>

definition line_begins :: "u8 list \<Rightarrow> nat \<Rightarrow> bool" where
  "line_begins t q \<longleftrightarrow> q = 0 \<or> t ! (q - 1) = 10"

lemma find_skip: "(\<And>x. x \<in> set xs \<Longrightarrow> \<not> P x) \<Longrightarrow> find P (xs @ ys) = find P ys"
  by (induction xs) auto

lemma upt_split: "p \<le> q \<Longrightarrow> q < n \<Longrightarrow> [p..<n] = [p..<q] @ q # [Suc q..<n]"
  using upt_add_eq_append [of p q "n - q"] by (simp add: upt_conv_Cons)

lemma eol_no_newline: "p \<le> length t \<Longrightarrow> p \<le> i \<Longrightarrow> i < eol t p \<Longrightarrow> t ! i \<noteq> 10"
proof (induction "length t - p" arbitrary: p)
  case (Suc n)
  then have lt: "p < length t" by simp
  show ?case
  proof (cases "t ! p = 10")
    case True
    then show ?thesis using Suc.prems eol_step [OF lt] by simp
  next
    case False
    then show ?thesis using Suc.prems Suc.hyps(1) [of "Suc p"] Suc.hyps(2) lt eol_step [OF lt] by (cases "i = p") auto
  qed
qed simp

lemma eol_newline: "p \<le> length t \<Longrightarrow> eol t p < length t \<Longrightarrow> t ! eol t p = 10"
proof (induction "length t - p" arbitrary: p)
  case (Suc n)
  then have lt: "p < length t" by simp
  show ?case using Suc.prems Suc.hyps(1) [of "Suc p"] Suc.hyps(2) lt eol_step [OF lt] by (auto split: if_splits)
qed simp

text \<open>The result when the search comes to \<open>found\<close>.\<close>

definition outcome :: "CompileState \<Rightarrow> int \<Rightarrow> u8 list \<Rightarrow> nat option \<Rightarrow> ErrorJump \<times> CompileState" where
  "outcome st dir t found = (case found of
       None \<Rightarrow> (if dir > 0 then No_More_Errors else No_Previous_Error, st)
     | Some q \<Rightarrow> (case message (drop q t) of None \<Rightarrow> (No_More_Errors, st)
         | Some (f, n) \<Rightarrow> (Goto_Error f n, st\<lparr>error_offset := int q, last_line_num := n, last_filename := f\<rparr>)))"

text \<open>One look at a line.\<close>

definition looks :: "CompileState \<Rightarrow> int \<Rightarrow> EditBuffer \<Rightarrow> u8 list \<Rightarrow> nat \<Rightarrow> (ErrorJump \<times> CompileState \<times> EditBuffer) option" where
  "looks st dir b junk q = do {
     (e, b) \<leftarrow> error_at b junk (int q);
     case e of None \<Rightarrow> error_loop st dir b junk (int q) False
     | Some (fname, line_num) \<Rightarrow>
         if line_num \<ge> 1 \<and> (line_num \<noteq> last_line_num st \<or> fname \<noteq> last_filename st)
         then Some (Goto_Error fname line_num,
           st\<lparr>error_offset := int q, last_line_num := line_num, last_filename := fname\<rparr>, b)
         else error_loop st dir b junk (int q) False }"

definition goes :: "u8 list \<Rightarrow> EditBuffer \<Rightarrow> (ErrorJump \<times> CompileState \<times> EditBuffer) option \<Rightarrow> ErrorJump \<times> CompileState \<Rightarrow> bool" where
  "goes t b r res \<longleftrightarrow> (\<exists>b'. r = Some (fst res, snd res, b') \<and> byte_text b' t \<and> tracked b' = tracked b)"

lemma looks_text:
  assumes "byte_text b t" "q \<le> length t" "short_numbers t" "line_begins t q \<or> message (drop q t) = None"
    "\<And>b'. byte_text b' t \<Longrightarrow> \<not> accepts st t q \<Longrightarrow> goes t b' (error_loop st dir b' junk (int q) False) res"
    "accepts st t q \<Longrightarrow> res = outcome st dir t (Some q)"
  shows "goes t b (looks st dir b junk q) res"
proof -
  obtain b1 where b1: "error_at b junk (int q) = Some (message (drop q t), b1)" "byte_text b1 t" "tracked b1 = tracked b"
    using error_at_text [OF assms(1-3)] by blast
  show ?thesis
  proof (cases "accepts st t q")
    case True
    then obtain f n where m: "message (drop q t) = Some (f, n)" "n \<ge> 1" "n \<noteq> last_line_num st \<or> f \<noteq> last_filename st"
      by (auto simp: accepts_def split: option.splits)
    then show ?thesis
      using b1 assms(6) [OF True] by (auto simp: looks_def goes_def outcome_def)
  next
    case False
    have g: "goes t b (error_loop st dir b1 junk (int q) False) res"
      using assms(5) [OF b1(2) False] b1(3) by (simp add: goes_def)
    from False have "message (drop q t) = None \<or>
        (\<exists>f n. message (drop q t) = Some (f, n) \<and> \<not> (n \<ge> 1 \<and> (n \<noteq> last_line_num st \<or> f \<noteq> last_filename st)))"
      using assms(4) by (auto simp: accepts_def line_begins_def split: option.splits)
    then have "looks st dir b junk q = error_loop st dir b1 junk (int q) False"
      using b1(1) by (auto simp: looks_def)
    then show ?thesis using g by simp
  qed
qed

lemma error_loop_looks: "error_loop st dir b junk (int q) True = looks st dir b junk q"
  by (subst error_loop.simps) (simp add: looks_def)

lemma error_loop_moves:
  assumes "error_move dir b junk p = Some (Inr (int q, b'))"
  shows "error_loop st dir b junk p False = looks st dir b' junk q"
  using assms by (subst error_loop.simps) (simp add: looks_def)

lemma message_end [simp]: "message [] = None"
  by (simp add: message_def)

lemma search_forward:
  assumes "byte_text b t" "p \<le> length t" "short_numbers t" "dir > 0"
  shows "goes t b (error_loop st dir b junk (int p) False) (outcome st dir t (find (accepts st t) [Suc p..<Suc (length t)]))"
  using assms(1,2)
proof (induction "length t - p" arbitrary: b p rule: less_induct)
  case less
  note sz = byte_textD(3) [OF less.prems(1)]
  show ?case
  proof (cases "p < length t")
    case True
    define q where "q = min (length t) (eol t p + 1)"
    have eb: "p \<le> eol t p" "eol t p \<le> length t" using eol_bounds [OF less.prems(2)] by auto
    have q: "p < q" "q \<le> length t" using True eb by (auto simp: q_def)
    obtain b1 where b1: "eb_next_line b junk (int p) = Some (int q, b1)" "byte_text b1 t" "tracked b1 = tracked b"
      using next_line_text [OF less.prems] unfolding q_def by blast
    have mv: "error_move dir b junk (int p) = Some (Inr (int q, b1))"
      using b1(1) True sz assms(4) by (simp add: error_move_def)
    have ch: "line_begins t q \<or> message (drop q t) = None"
    proof (cases "eol t p < length t")
      case True
      then have "t ! eol t p = 10" by (rule eol_newline [OF less.prems(2)])
      then show ?thesis using True by (simp add: q_def line_begins_def)
    qed (simp add: q_def)
    have skip: "\<not> accepts st t i" if "i \<in> set [Suc p..<q]" for i
    proof -
      have "p \<le> i - 1" "i - 1 < eol t p" "i \<noteq> 0" using that eb by (auto simp: q_def)
      then show ?thesis using eol_no_newline [OF less.prems(2), of "i - 1"] by (simp add: accepts_def)
    qed
    have "[Suc p..<Suc (length t)] = [Suc p..<q] @ q # [Suc q..<Suc (length t)]"
      by (rule upt_split) (use q in simp_all)
    then have f: "find (accepts st t) [Suc p..<Suc (length t)] =
        (if accepts st t q then Some q else find (accepts st t) [Suc q..<Suc (length t)])"
      using find_skip [of "[Suc p..<q]", OF skip] by simp
    have "goes t b1 (looks st dir b1 junk q) (outcome st dir t (find (accepts st t) [Suc p..<Suc (length t)]))"
    proof (rule looks_text [OF b1(2) q(2) assms(3) ch])
      fix b' assume b': "byte_text b' t" "\<not> accepts st t q"
      have "length t - q < length t - p" using q by simp
      from less.hyps [OF this b'(1) q(2)]
      show "goes t b' (error_loop st dir b' junk (int q) False) (outcome st dir t (find (accepts st t) [Suc p..<Suc (length t)]))"
        using f b'(2) by simp
    qed (use f in simp)
    then show ?thesis using error_loop_moves [OF mv] b1(3) by (simp add: goes_def)
  next
    case False
    then have p: "p = length t" using less.prems(2) by simp
    then have "error_move dir b junk (int p) = Some (Inl No_More_Errors)" using assms(4) sz by (simp add: error_move_def)
    then have "error_loop st dir b junk (int p) False = Some (No_More_Errors, st, b)"
      by (subst error_loop.simps) simp
    moreover have "[Suc p..<Suc (length t)] = []" using p by simp
    ultimately show ?thesis using assms(4) less.prems(1) by (simp add: goes_def outcome_def)
  qed
qed

lemma bol_newline: "p \<le> length t \<Longrightarrow> line_begins t (bol t p)"
proof (induction p)
  case (Suc p)
  then show ?case using bol_step [of p t] by (auto simp: line_begins_def)
qed (simp add: line_begins_def)

lemma bol_between: "p \<le> length t \<Longrightarrow> bol t p < i \<Longrightarrow> i \<le> p \<Longrightarrow> t ! (i - 1) \<noteq> 10"
proof (induction p)
  case (Suc p)
  then show ?case using bol_step [of p t] by (cases "i = Suc p") (auto split: if_splits)
qed simp

lemma search_backward:
  assumes "byte_text b t" "p \<le> length t" "short_numbers t" "\<not> dir > 0"
  shows "goes t b (error_loop st dir b junk (int p) False) (outcome st dir t (find (accepts st t) (rev [0..<p])))"
  using assms(1,2)
proof (induction p arbitrary: b rule: less_induct)
  case (less p)
  show ?case
  proof (cases p)
    case (Suc r)
    define q where "q = bol t r"
    have r: "r < length t" using Suc less.prems(2) by simp
    have q: "q \<le> r" by (simp add: q_def bol_le)
    obtain b1 where b1: "eb_prevc b (int (Suc r)) = Some (uint (t ! r), int r, b1)" "byte_text b1 t" "tracked b1 = tracked b"
      using byte_text_prevc [OF less.prems(1) r] by blast
    obtain b2 where b2: "eb_goto_bol b1 (int r) = Some (int q, b2)" "byte_text b2 t" "tracked b2 = tracked b"
      using goto_bol_text [OF b1(2), of r] r b1(3) by (auto simp: q_def)
    have mv: "error_move dir b junk (int p) = Some (Inr (int q, b2))"
      using b1(1) b2(1) Suc assms(4) by (simp add: error_move_def)
    have "line_begins t q" using bol_newline [of r t] r by (simp add: q_def)
    then have ch: "line_begins t q \<or> message (drop q t) = None" by simp
    have skip: "\<not> accepts st t i" if "i \<in> set (rev [Suc q..<p])" for i
      using that bol_between [of r t i] r Suc by (auto simp: accepts_def q_def)
    have "[0..<p] = [0..<q] @ q # [Suc q..<p]"
      by (rule upt_split) (use q Suc in simp_all)
    then have "rev [0..<p] = rev [Suc q..<p] @ q # rev [0..<q]" by simp
    then have f: "find (accepts st t) (rev [0..<p]) = (if accepts st t q then Some q else find (accepts st t) (rev [0..<q]))"
      using find_skip [of "rev [Suc q..<p]", OF skip] by simp
    have "goes t b2 (looks st dir b2 junk q) (outcome st dir t (find (accepts st t) (rev [0..<p])))"
    proof (rule looks_text [OF b2(2) _ assms(3) ch])
      fix b' assume b': "byte_text b' t" "\<not> accepts st t q"
      have "q < p" "q \<le> length t" using q Suc r by simp_all
      from less.IH [OF this(1) b'(1) this(2)]
      show "goes t b' (error_loop st dir b' junk (int q) False) (outcome st dir t (find (accepts st t) (rev [0..<p])))"
        using f b'(2) by simp
    qed (use f q r in simp_all)
    then show ?thesis using error_loop_moves [OF mv] b2(3) by (simp add: goes_def)
  next
    case 0
    then have "error_move dir b junk (int p) = Some (Inl No_Previous_Error)" using assms(4) by (simp add: error_move_def)
    then have "error_loop st dir b junk (int p) False = Some (No_Previous_Error, st, b)"
      by (subst error_loop.simps) simp
    then show ?thesis using 0 assms(4) less.prems(1) by (simp add: goes_def outcome_def)
  qed
qed

lemma search_start:
  assumes "byte_text b t" "short_numbers t"
  shows "goes t b (error_loop st dir b junk 0 True) (outcome st dir t (find (accepts st t) (candidates dir (-1) t)))"
proof -
  have c: "candidates dir (-1) t = 0 # (if dir > 0 then [Suc 0..<Suc (length t)] else [])"
    by (simp add: candidates_def upt_conv_Cons del: upt_Suc)
  have "goes t b (looks st dir b junk 0) (outcome st dir t (find (accepts st t) (candidates dir (-1) t)))"
  proof (rule looks_text [OF assms(1) _ assms(2)])
    fix b' assume b': "byte_text b' t" "\<not> accepts st t 0"
    show "goes t b' (error_loop st dir b' junk (int 0) False) (outcome st dir t (find (accepts st t) (candidates dir (-1) t)))"
    proof (cases "dir > 0")
      case True
      then show ?thesis using search_forward [OF b'(1) _ assms(2) True, of 0 st junk] b'(2) c by simp
    next
      case False
      then show ?thesis using search_backward [OF b'(1) _ assms(2) False, of 0 st junk] b'(2) c by simp
    qed
  qed (use c in \<open>simp_all add: line_begins_def\<close>)
  then show ?thesis using error_loop_looks [of st dir b junk 0] by simp
qed

lemma accepts_message: "accepts st t q \<Longrightarrow> \<exists>f n. message (drop q t) = Some (f, n)"
  by (auto simp: accepts_def split: option.splits)

text \<open>C26. The next or previous compiler message: in a buffer of one byte per character the command comes
  to the first line in its direction that begins with a file name, a colon, a number of at least 1
  and a colon and is not the message that it stopped at last, wherever the search starts; it
  remembers the line, the number and the name, and says so when there is no such line. It always
  returns and leaves the text alone.
\<close>

theorem compile_error_finds:
  assumes "byte_text b t" "short_numbers t" "error_offset st \<le> int (length t)" "-1 \<le> error_offset st"
  shows "\<exists>b'. do_compile_error st dir b junk windows =
      (let (r, st') = outcome st dir t (find (accepts st t) (candidates dir (error_offset st) t)) in Some (r, st', b')) \<and>
    byte_text b' t"
proof -
  let ?found = "find (accepts st t) (candidates dir (error_offset st) t)"
  let ?loop = "if error_offset st < 0 then error_loop st dir b junk 0 True else error_loop st dir b junk (error_offset st) False"
  have "goes t b ?loop (outcome st dir t ?found)"
  proof (cases "error_offset st < 0")
    case True
    then have "error_offset st = -1" using assms(4) by simp
    then show ?thesis using search_start [OF assms(1,2)] by simp
  next
    case False
    then obtain p where p: "error_offset st = int p" by (metis nat_0_le not_less)
    show ?thesis
    proof (cases "dir > 0")
      case True
      then show ?thesis using search_forward [OF assms(1) _ assms(2) True, of p st junk] assms(3) p by (simp add: candidates_def)
    next
      case False
      then show ?thesis using search_backward [OF assms(1) _ assms(2) False, of p st junk] assms(3) p by (simp add: candidates_def)
    qed
  qed
  then obtain b1 where b1: "?loop = Some (fst (outcome st dir t ?found), snd (outcome st dir t ?found), b1)" "byte_text b1 t"
    by (auto simp: goes_def)
  show ?thesis
  proof (cases ?found)
    case None
    then show ?thesis using b1 unfolding do_compile_error_def b1(1) by (simp add: outcome_def)
  next
    case (Some q)
    then obtain f n where "message (drop q t) = Some (f, n)" using accepts_message by (metis find_Some_iff)
    then show ?thesis using b1 Some unfolding do_compile_error_def b1(1) by (simp add: outcome_def)
  qed
qed

theorem compile_error_finds_witness:
  "\<exists>b b'. byte_text b [97, 58, 51, 58, 10] \<and>
    do_compile_error \<lparr>error_offset = -1, last_line_num = -1, last_filename = []\<rparr> 1 b [] [] =
      Some (Goto_Error [97] 3, \<lparr>error_offset = 0, last_line_num = 3, last_filename = [97]\<rparr>, b')"
proof -
  let ?t = "[97, 58, 51, 58, 10] :: u8 list" and ?st = "\<lparr>error_offset = -1, last_line_num = -1, last_filename = []\<rparr>"
  obtain b where b: "byte_text b ?t" using byte_text_exists [of ?t] by auto
  have "length (takeWhile digit (drop p ?t)) \<le> 9" for p
    using length_takeWhile_le [of digit "drop p ?t"] by simp
  then have s: "short_numbers ?t" by (simp add: short_numbers_def)
  have "outcome ?st 1 ?t (find (accepts ?st ?t) (candidates 1 (-1) ?t)) =
      (Goto_Error [97] 3, \<lparr>error_offset = 0, last_line_num = 3, last_filename = [97]\<rparr>)"
    by code_simp
  then show ?thesis using b compile_error_finds [OF b s, of ?st 1 "[]" "[]"] by auto
qed

text \<open>A line number beyond the range of \<open>int\<close>, and a character beyond the range of \<open>isdigit\<close>, have no result.\<close>

lemma line_number_overflows: "eb_nextc b junk p = Some (c, q, b') \<Longrightarrow> 48 \<le> c \<Longrightarrow> c \<le> 57 \<Longrightarrow> n > 214748364 \<Longrightarrow>
    error_number b junk p n = None"
  by (subst error_number.simps) (simp add: is_digit_def guard_def INT_LIMIT_def)

lemma character_beyond_isdigit: "eb_nextc b junk p = Some (c, q, b') \<Longrightarrow> c \<ge> 256 \<Longrightarrow> error_number b junk p n = None"
  by (subst error_number.simps) (simp add: is_digit_def)

end
