(* ===== verification/Text_Lines.thy ===== *)
theory Text_Lines
  imports Text_Buffers Line_Theorems
begin

text \<open>
  Texts as lists of lines: the offset at which a line begins, and what a change within one line does
  to the list, for the components that work line by line.
\<close>

fun join :: "u8 list list \<Rightarrow> u8 list" where
  "join [] = []"
| "join [l] = l"
| "join (l # ls) = l @ 10 # join ls"

definition whole_lines :: "u8 list list \<Rightarrow> bool" where
  "whole_lines ls \<longleftrightarrow> ls \<noteq> [] \<and> (\<forall>l \<in> set ls. 10 \<notin> set l)"

lemma join_Cons: "ls \<noteq> [] \<Longrightarrow> join (l # ls) = l @ 10 # join ls"
  by (cases ls) simp_all

lemma line_start_line:
  assumes "10 \<notin> set l"
  shows "line_start (Suc k) (l @ 10 # t) = length l + 1 + line_start k t"
  using memchr_after_append [OF assms, of t] line_start_le [of k t] by simp

lemma join_at:
  assumes "whole_lines ls" "k < length ls"
  shows "\<exists>a d. (\<forall>l. join (ls[k := l]) = a @ l @ d) \<and> length a = sum_list (map length (take k ls)) + k \<and>
    line_start k (join ls) = length a \<and> line_col a = (k, 0)"
  using assms
proof (induction ls arbitrary: k)
  case (Cons l ls)
  show ?case
  proof (cases k)
    case 0
    show ?thesis
    proof (cases "ls = []")
      case True
      then show ?thesis using 0 by (intro exI [of _ "[]"]) (simp add: line_col_def)
    next
      case False
      then show ?thesis
        using 0 by (intro exI [of _ "[]"] exI [of _ "10 # join ls"]) (simp add: join_Cons line_col_def)
    qed
  next
    case (Suc m)
    then have ls: "whole_lines ls" "m < length ls" "ls \<noteq> []" and l: "10 \<notin> set l"
      using Cons.prems by (auto simp: whole_lines_def)
    obtain a d where ad: "\<forall>l. join (ls[m := l]) = a @ l @ d" "length a = sum_list (map length (take m ls)) + m"
      "line_start m (join ls) = length a" "line_col a = (m, 0)"
      using Cons.IH [OF ls(1,2)] by blast
    have "line_col (l @ 10 # a) = (Suc m, 0)" using line_col_line [OF l, of a] ad(4) by simp
    then show ?thesis
      using Suc ad line_start_line [OF l, of m] ls(3) l
      by (intro exI [of _ "l @ 10 # a"] exI [of _ d]) (simp add: join_Cons del: line_start.simps)
  qed
qed simp

lemma join_position:
  assumes "whole_lines ls" "p \<le> length (join ls)"
  shows "\<exists>k c. k < length ls \<and> c \<le> length (ls ! k) \<and> p = line_start k (join ls) + c"
  using assms
proof (induction ls arbitrary: p)
  case (Cons l ls)
  then have l: "10 \<notin> set l" by (simp add: whole_lines_def)
  show ?case
  proof (cases "p \<le> length l")
    case True
    then show ?thesis by (intro exI [of _ 0] exI [of _ p]) simp
  next
    case False
    then have ls: "ls \<noteq> []" using Cons.prems by auto
    then have "whole_lines ls" "p - length l - 1 \<le> length (join ls)"
      using Cons.prems False by (auto simp: whole_lines_def join_Cons)
    then obtain k c where kc: "k < length ls" "c \<le> length (ls ! k)" "p - length l - 1 = line_start k (join ls) + c"
      using Cons.IH by blast
    then show ?thesis
      using False line_start_line [OF l, of k "join ls"] ls
      by (intro exI [of _ "Suc k"] exI [of _ c]) (simp add: join_Cons del: line_start.simps)
  qed
qed (simp add: whole_lines_def)

text \<open>A change of one line.\<close>

lemma join_line:
  assumes "whole_lines ls" "k < length ls" "c \<le> length (ls ! k)"
  shows "list_insert (line_start k (join ls) + c) r (join ls) = join (ls[k := take c (ls ! k) @ r @ drop c (ls ! k)])"
    "c + n \<le> length (ls ! k) \<Longrightarrow>
      list_delete (line_start k (join ls) + c) n (join ls) = join (ls[k := take c (ls ! k) @ drop (c + n) (ls ! k)])"
    "line_col (take (line_start k (join ls) + c) (join ls)) = (k, c)"
    "line_start k (join ls) + length (ls ! k) \<le> length (join ls)"
proof -
  obtain a d where ad: "\<forall>l. join (ls[k := l]) = a @ l @ d" "line_start k (join ls) = length a" "line_col a = (k, 0)"
    using join_at [OF assms(1,2)] by blast
  have t: "join ls = a @ ls ! k @ d" using ad(1) [rule_format, of "ls ! k"] by simp
  show "list_insert (line_start k (join ls) + c) r (join ls) = join (ls[k := take c (ls ! k) @ r @ drop c (ls ! k)])"
    using ad(1) assms(3) unfolding ad(2) unfolding t by (simp add: list_insert_def)
  show "list_delete (line_start k (join ls) + c) n (join ls) = join (ls[k := take c (ls ! k) @ drop (c + n) (ls ! k)])"
    if "c + n \<le> length (ls ! k)"
    using ad(1) that unfolding ad(2) unfolding t by (simp add: list_delete_def)
  have "10 \<notin> set (take c (ls ! k))"
    using assms(1,2) by (auto simp: whole_lines_def dest: in_set_takeD)
  then have "line_col (take c (ls ! k)) = (0, c)"
    using assms(3) by (simp add: line_col_def count_list_zero takeWhile_all)
  then show "line_col (take (line_start k (join ls) + c) (join ls)) = (k, c)"
    using ad(3) assms(3) unfolding ad(2) unfolding t by (simp add: line_col_append then_pos_def)
  show "line_start k (join ls) + length (ls ! k) \<le> length (join ls)" unfolding ad(2) unfolding t by simp
qed

lemma line_start_join: "whole_lines ls \<Longrightarrow> k < length ls \<Longrightarrow> line_start k (join ls) = sum_list (map length (take k ls)) + k"
  using join_at by fastforce

lemma whole_lines_update: "whole_lines ls \<Longrightarrow> 10 \<notin> set l \<Longrightarrow> whole_lines (ls[k := l])"
  by (auto simp: whole_lines_def dest!: set_update_subset_insert [THEN subsetD])

lemma join_line_text:
  assumes "whole_lines ls" "k < length ls"
  shows "takeWhile (\<lambda>c. c \<noteq> 10) (drop (line_start k (join ls)) (join ls)) = ls ! k"
  using assms
proof (induction ls arbitrary: k)
  case (Cons l ls)
  then have l: "10 \<notin> set l" by (simp add: whole_lines_def)
  then have t: "takeWhile (\<lambda>c. c \<noteq> 10) (l @ u) = l @ takeWhile (\<lambda>c. c \<noteq> 10) u" for u
    by (intro takeWhile_append2) auto
  show ?case
  proof (cases "ls = []")
    case True
    then show ?thesis using t [of "[]"] Cons.prems(2) by simp
  next
    case False
    show ?thesis
    proof (cases k)
      case 0
      then show ?thesis using t [of "10 # join ls"] False by (simp add: join_Cons)
    next
      case (Suc m)
      have "whole_lines ls" using Cons.prems(1) False by (simp add: whole_lines_def)
      then show ?thesis
        using Cons.IH [of m] Cons.prems(2) Suc False line_start_line [OF l, of m "join ls"]
        by (simp add: join_Cons del: line_start.simps)
    qed
  qed
qed simp

text \<open>Reading line \<open>k\<close> into an array of \<open>n\<close> bytes.\<close>

lemma byte_text_strline:
  assumes "byte_text b (join ls)" "whole_lines ls" "k < length ls" "length (ls ! k) < n"
  shows "\<exists>e b'. eb_get_strline b junk n (int (line_start k (join ls))) = Some (ls ! k @ [0], e, b')"
proof -
  note d = byte_textD [OF assms(1)]
  let ?p = "line_start k (join ls)"
  obtain b' where "eb_get_line b junk (n - 1) (int ?p) =
      Some (take (n - 1) (map uint (takeWhile (\<lambda>c. c \<noteq> 10) (drop ?p (contents b)))),
        int (min (?p + line_rest (drop ?p (contents b)) + 1) (length (contents b))), b')"
    using eb_get_line_8bit [OF d(1,5,6), of ?p junk "n - 1"] d(2) line_start_le [of k "join ls"] by auto
  moreover have "take (n - 1) (map uint (ls ! k)) = map uint (ls ! k)" using assms(4) by simp
  ultimately show ?thesis
    using assms(4) d(2) join_line_text [OF assms(2,3)] by (auto simp: eb_get_strline_def comp_def)
qed

end
