(* ===== verification/Minibuffer.thy ===== *)
theory Minibuffer
  imports Text_Buffers Util "HOL-Library.List_Lexorder" "HOL-Library.Sublist"
begin

text \<open>
  The minibuffer of \<open>src/qe.c\<close>: asking, completion, history and the end of the question, and the
  functions of \<open>src/list.c\<close> that find the line of a list. The completion functions for files and
  buffers and their registry are here too. This theory holds the definitions.

  A \<open>MiniBuffer\<close> is the window and buffer of the question with the static variables of \<open>qe.c\<close> that
  belong to it. The popup window of the completions is its buffer, the offset of its cursor and the
  flag \<open>force_highlight\<close>; moving in it depends on the display and is an argument, as are the results
  of \<open>malloc\<close>, the directories and the function that matches names. Strings are lists of
  characters without their terminating zero; where the program reads or writes beyond a string or
  an array there is no result.
\<close>

section \<open>Lists in buffers\<close>

definition list_get_pos :: "EditBuffer \<Rightarrow> int \<Rightarrow> (nat \<times> EditBuffer) option" where
  "list_get_pos b offset = do {
     guard (0 \<le> offset);
     let ((line, col), b) = eb_get_pos b (nat offset);
     Some (line, b) }"

definition list_get_offset :: "EditBuffer \<Rightarrow> u8 list \<Rightarrow> int \<Rightarrow> (int \<times> EditBuffer) option" where
  "list_get_offset b junk offset = do {
     (line, b) \<leftarrow> list_get_pos b offset;
     eb_goto_pos b junk line 0 }"

text \<open>Without the movement to the next line; \<open>ch\<close> is what the local byte holds before.\<close>

definition list_toggle_selection :: "EditBuffer \<Rightarrow> u8 list \<Rightarrow> u8 \<Rightarrow> int \<Rightarrow> EditBuffer option" where
  "list_toggle_selection b junk ch offset = do {
     (offset, b) \<leftarrow> list_get_offset b junk offset;
     guard (0 \<le> offset);
     (bs, b) \<leftarrow> eb_read b (nat offset) 1;
     let ch = (case bs of [] \<Rightarrow> ch | x # _ \<Rightarrow> x);
     let ch = (if ch = 32 then 42 else 32);
     eb_write b (nat offset) [ch] }"

definition QE_STYLE_HIGHLIGHT :: u32 where "QE_STYLE_HIGHLIGHT = 6"
definition QE_STYLE_SELECTION :: u32 where "QE_STYLE_SELECTION = 7"

text \<open>\<open>shown\<close> says that the window is active or forced to highlight; \<open>cur\<close> is its offset.\<close>

definition list_get_colorized_line ::
    "EditBuffer \<Rightarrow> u8 list \<Rightarrow> bool \<Rightarrow> int \<Rightarrow> nat \<Rightarrow> int \<Rightarrow> (u32 list \<times> EditBuffer) option" where
  "list_get_colorized_line b junk shown cur buf_size offset = do {
     (cs, offset1, b) \<leftarrow> eb_get_line b junk buf_size offset;
     let buf = map word_of_int cs;
     buf \<leftarrow> (if shown \<and> offset \<le> cur \<and> cur < offset1 then set_color buf (length buf) QE_STYLE_HIGHLIGHT
            else if buf \<noteq> [] \<and> hd buf = 42 then set_color buf (length buf) QE_STYLE_SELECTION
            else Some buf);
     Some (buf, b) }"

section \<open>Completion functions\<close>

definition bytes_string :: "u8 list \<Rightarrow> string" where
  "bytes_string bs = map (\<lambda>b. char_of (unat b)) bs"

text \<open>The loop of \<open>file_completion\<close>; \<open>dir\<close> is the part of the input up to its last slash.\<close>

partial_function (option) file_completion_loop ::
    "(string \<Rightarrow> string list option) \<Rightarrow> (string \<Rightarrow> string \<Rightarrow> bool) \<Rightarrow> (string \<Rightarrow> bool) \<Rightarrow> string \<Rightarrow> FindFileState \<Rightarrow>
      string list option" where
  "file_completion_loop ls fnm isdir dir ffs = (case find_file_next ls fnm ffs 1024 of
       (No_more, ffs) \<Rightarrow> Some []
     | (Overflow, ffs) \<Rightarrow> None
     | (Found fname, ffs) \<Rightarrow> do {
         let file = dir @ qe_basename fname;
         guard (length file < 1024);
         let file = (if isdir file then file @ ''/'' else file);
         guard (length file < 1024);
         rest \<leftarrow> file_completion_loop ls fnm isdir dir ffs;
         Some (file # rest) })"

definition file_completion ::
    "(string \<Rightarrow> string list option) \<Rightarrow> (string \<Rightarrow> string \<Rightarrow> bool) \<Rightarrow> (string \<Rightarrow> bool) \<Rightarrow> string \<Rightarrow> string list option" where
  "file_completion ls fnm isdir input = do {
     (dir, path, file) \<leftarrow> (case strrchr input CHR ''/'' of
         None \<Rightarrow> Some ([], ''.'', take 1023 input)
       | Some (d, p) \<Rightarrow> do {
           let input_path_len = length d + 1;
           guard (input_path_len \<le> 1024);
           let input_path_len = min input_path_len 1023;
           Some (take input_path_len input, take input_path_len input, take 1023 (tl p)) });
     guard (length file + 1 < 1024);
     file_completion_loop ls fnm isdir dir (find_file_open path (file @ ''*'')) }"

definition buffer_completion :: "EditBuffer list \<Rightarrow> string \<Rightarrow> string list" where
  "buffer_completion bs input =
     map b_name (filter (\<lambda>b. b_flags b AND BF_SYSTEM = 0 \<and> take (length input) (b_name b) = input) bs)"

definition register_completion :: "string \<Rightarrow> 'f \<Rightarrow> (string \<times> 'f) list \<Rightarrow> (string \<times> 'f) list" where
  "register_completion name f entries = entries @ [(name, f)]"

definition find_completion :: "(string \<times> 'f) list \<Rightarrow> string \<Rightarrow> 'f option" where
  "find_completion entries name = (if name \<noteq> [] then map_of entries name else None)"

section \<open>The state\<close>

record MiniBuffer =
  mb_s :: EditState
  mb_popup :: "(EditBuffer \<times> int \<times> bool) option"
  mb_hist :: "StringArray option"
  mb_index :: int
  mb_saved :: int

text \<open>Replace the text by \<open>str\<close> and go to its end.\<close>

definition set_minibuffer_str :: "EditState \<Rightarrow> string \<Rightarrow> EditState option" where
  "set_minibuffer_str s str = do {
     s \<leftarrow> delete_at s 0 (es_size s);
     s \<leftarrow> write_at s 0 (bytes_of str);
     Some (goto_off s (int (length str))) }"

text \<open>The text of the question: all of it in an array of \<open>n\<close> bytes, and the string in that array.\<close>

definition mini_str :: "EditState \<Rightarrow> nat \<Rightarrow> (nat \<times> string \<times> EditState) option" where
  "mini_str s n = do {
     (bs, b) \<leftarrow> eb_get_str (es_b s) n;
     Some (length bs - 1, cstr (bytes_string bs), s\<lparr>es_b := b\<rparr>) }"

section \<open>Completion\<close>

definition char_at :: "string \<Rightarrow> nat \<Rightarrow> char option" where
  "char_at str k = (if k < length str then Some (str ! k) else if k = length str then Some NUL else None)"

text \<open>Do all strings have the character \<open>c\<close> at \<open>k\<close>?\<close>

fun all_match :: "string list \<Rightarrow> nat \<Rightarrow> char \<Rightarrow> bool option" where
  "all_match [] k c = Some True"
| "all_match (str # outputs) k c = do {
     d \<leftarrow> char_at str k;
     if d \<noteq> c then Some False else all_match outputs k c }"

function longest_match :: "string \<Rightarrow> string list \<Rightarrow> nat \<Rightarrow> nat option" where
  "longest_match first outputs mlen = (case char_at first mlen of
       None \<Rightarrow> None
     | Some c \<Rightarrow> if c = NUL then Some mlen
         else case all_match outputs mlen c of
           None \<Rightarrow> None
         | Some same \<Rightarrow> if same then longest_match first outputs (mlen + 1) else Some mlen)"
  by pat_completeness auto
termination
  by (relation "measure (\<lambda>(first, outputs, k). length first - k)")
    (auto simp: char_at_def split: if_splits)

declare longest_match.simps [simp del]

definition strcmp_key :: "string \<Rightarrow> nat list" where
  "strcmp_key = map of_char"

fun popup_lines :: "EditBuffer \<Rightarrow> string list \<Rightarrow> EditBuffer option" where
  "popup_lines b [] = Some b"
| "popup_lines b (str # outputs) = do {
     b \<leftarrow> eb_printf b (32 # bytes_of str);
     b \<leftarrow> (if outputs \<noteq> [] then eb_printf b [10] else Some b);
     popup_lines b outputs }"

definition show_completions :: "string list \<Rightarrow> MiniBuffer \<Rightarrow> MiniBuffer option" where
  "show_completions outputs m =
    (let popup = (if mb_popup m = None \<and> length outputs > 1
                  then Some (alloc_buffer ''*completion*'' (or BF_SYSTEM BF_READONLY), 0, False) else mb_popup m)
     in case popup of None \<Rightarrow> Some m
        | Some (b, _, _) \<Rightarrow> do {
            b \<leftarrow> eb_delete b 0 (total_size b);
            b \<leftarrow> popup_lines b (sort_key strcmp_key outputs);
            Some (m\<lparr>mb_popup := Some (b, 0, False)\<rparr>) })"

definition do_completion :: "(string \<Rightarrow> string list option) option \<Rightarrow> MiniBuffer \<Rightarrow> MiniBuffer option" where
  "do_completion completion_function m = (case completion_function of
       None \<Rightarrow> Some m
     | Some f \<Rightarrow> do {
         (len, input, s) \<leftarrow> mini_str (mb_s m) 1024;
         let m = m\<lparr>mb_s := s\<rparr>;
         outputs \<leftarrow> f input;
         if outputs = [] then Some m
         else do {
           mlen \<leftarrow> longest_match (hd outputs) (tl outputs) len;
           if mlen > len
           then do {
             s \<leftarrow> write_at s 0 (bytes_of (take mlen (hd outputs)));
             Some (m\<lparr>mb_s := goto_off s (int mlen)\<rparr>) }
           else show_completions outputs m } })"

definition do_completion_space :: "(string \<Rightarrow> string list option) option \<Rightarrow> u8 list \<Rightarrow> MiniBuffer \<Rightarrow> MiniBuffer option" where
  "do_completion_space completion_function junk m =
    (if completion_function = None
     then do { s \<leftarrow> do_char (mb_s m) junk 32; Some (m\<lparr>mb_s := s\<rparr>) }
     else do_completion completion_function m)"

text \<open>\<open>move\<close> moves the cursor of the popup by lines or pages.\<close>

definition minibuf_complete_scroll_up_down ::
    "(EditBuffer \<Rightarrow> int \<Rightarrow> EditBuffer \<times> int) \<Rightarrow> MiniBuffer \<Rightarrow> MiniBuffer" where
  "minibuf_complete_scroll_up_down move m = (case mb_popup m of
       None \<Rightarrow> m
     | Some (b, p, _) \<Rightarrow> let (b, p) = move b p in m\<lparr>mb_popup := Some (b, p, True)\<rparr>)"

section \<open>History\<close>

text \<open>The histories with their names; a new one comes first. No result where \<open>malloc\<close> fails.\<close>

definition get_history :: "bool \<Rightarrow> string \<Rightarrow> (string \<times> StringArray) list \<Rightarrow>
    StringArray option \<times> (string \<times> StringArray) list" where
  "get_history ok name hs =
    (if name = [] then (None, hs)
     else case map_of hs name of
       Some h \<Rightarrow> (Some h, hs)
     | None \<Rightarrow> if \<not> ok then (None, hs)
         else let h = \<lparr>nb_allocated = 0, items = []\<rparr> in (Some h, (take 31 name, h) # hs))"

text \<open>\<open>again\<close> says that the last command was \<open>do_history\<close>, too.\<close>

definition do_history :: "(EditBuffer \<Rightarrow> int \<Rightarrow> EditBuffer \<times> int) \<Rightarrow> bool \<Rightarrow> bool \<Rightarrow> MiniBuffer \<Rightarrow> int \<Rightarrow> MiniBuffer option" where
  "do_history move ok again m dir = (case mb_popup m of
       Some (b, p, _) \<Rightarrow> (let (b, p) = move b p in Some (m\<lparr>mb_popup := Some (b, p, True)\<rparr>))
     | None \<Rightarrow> (case mb_hist m of
         None \<Rightarrow> Some m
       | Some hist \<Rightarrow>
           let index = mb_index m + dir
           in if index < 0 \<or> index \<ge> int (length (items hist)) then Some m
           else do {
             m \<leftarrow> (if again then Some m
                  else do {
                    (_, buf, s) \<leftarrow> mini_str (mb_s m) 1024;
                    Some (m\<lparr>mb_s := s, mb_hist := Some (snd (set_string ok hist (length (items hist) - 1) buf)),
                      mb_saved := off s\<rparr>) });
             let m = m\<lparr>mb_index := index\<rparr>;
             hist \<leftarrow> mb_hist m;
             item \<leftarrow> items hist ! nat index;
             s \<leftarrow> set_minibuffer_str (mb_s m) (item_str item);
             let s = (if index = int (length (items hist)) - 1 then goto_off s (mb_saved m) else s);
             Some (m\<lparr>mb_s := s\<rparr>) }))"

section \<open>Asking and answering\<close>

text \<open>\<open>minibuffer_edit\<close> when no question is open.\<close>

definition mini_window :: EditState where
  "mini_window = \<lparr>es_b = eb_add_callback (alloc_buffer ''*minibuf*'' BF_SYSTEM) OFFSET, es_insert = True,
     input_method = None, compose_buf = [], compose_start_offset = 0\<rparr>"

definition start_minibuffer :: "bool \<Rightarrow> string option \<Rightarrow> StringArray option \<Rightarrow> MiniBuffer option" where
  "start_minibuffer ok input hist = do {
     s \<leftarrow> (case input of None \<Rightarrow> Some mini_window
          | Some str \<Rightarrow> do {
              s \<leftarrow> write_at mini_window 0 (bytes_of str);
              Some (goto_off s (int (length str))) });
     Some (\<lparr>mb_s = s, mb_popup = None,
       mb_hist = map_option (\<lambda>h. snd (add_string ok h [])) hist,
       mb_index = (case hist of None \<Rightarrow> 0 | Some h \<Rightarrow> int (length (items h))), mb_saved = 0\<rparr>) }"

text \<open>
  \<open>do_minibuffer_exit\<close>: the reply for the callback and the history as it is left. The selected line of
  the popup without its first character becomes the text.
\<close>

definition popup_choice :: "u8 list \<Rightarrow> MiniBuffer \<Rightarrow> EditState option" where
  "popup_choice junk m = (case mb_popup m of
       Some (b, p, True) \<Rightarrow> do {
         (offset, b) \<leftarrow> list_get_offset b junk p;
         (bs, _, _) \<leftarrow> eb_get_strline b junk 1024 offset;
         if hd bs \<noteq> 0 then set_minibuffer_str (mb_s m) (cstr (bytes_string (tl bs))) else Some (mb_s m) }
     | _ \<Rightarrow> Some (mb_s m))"

definition do_minibuffer_exit ::
    "bool \<Rightarrow> u8 list \<Rightarrow> MiniBuffer \<Rightarrow> bool \<Rightarrow> (string option \<times> StringArray option) option" where
  "do_minibuffer_exit ok junk m abort = do {
     s \<leftarrow> popup_choice junk m;
     (_, buf, s) \<leftarrow> mini_str s 4096;
     let hist = (case mb_hist m of
         None \<Rightarrow> None
       | Some h \<Rightarrow>
           if length (items h) > 0
           then let h = h\<lparr>items := butlast (items h)\<rparr>
                in Some (if buf \<noteq> [] then snd (add_string ok h buf) else h)
           else Some h);
     Some (if abort then None else Some buf, hist) }"

end
