(* ===== verification/Minibuffer_Theorems.thy ===== *)
theory Minibuffer_Theorems
  imports Minibuffer Text_Lines
begin

text \<open>
  The properties of the minibuffer: completion extends the input to the longest common prefix of its
  completions, the line chosen in the list of completions is the reply, and moving in the history and
  back restores what was typed, unless the first movement was impossible.
\<close>

section \<open>Strings in the minibuffer\<close>

lemma char_of_byte [simp]: "char_of (unat (of_nat (of_char c) :: u8)) = c"
proof -
  have "(of_char c :: nat) < 256" by (rule nat_of_char_less_256)
  then show ?thesis by (simp add: unat_of_nat take_bit_eq_mod)
qed

lemma bytes_string_of [simp]: "bytes_string (bytes_of str) = str"
  by (induction str) (simp_all add: bytes_string_def bytes_of_def)

lemma length_bytes_of [simp]: "length (bytes_of str) = length str"
  by (simp add: bytes_of_def)

lemma bytes_string_append [simp]: "bytes_string (a @ b) = bytes_string a @ bytes_string b"
  by (simp add: bytes_string_def)

lemma bytes_string_0 [simp]: "bytes_string [0] = [NUL]" "bytes_string [] = []"
  by (simp_all add: bytes_string_def char_of_def)

definition mini_text :: "EditState \<Rightarrow> string \<Rightarrow> bool" where
  "mini_text s str \<longleftrightarrow> byte_text (es_b s) (bytes_of str) \<and> c_string str"

lemma mini_str_text:
  assumes "mini_text s str" "length str < n"
  shows "\<exists>s'. mini_str s n = Some (length str, str, s') \<and> mini_text s' str \<and> off s' = off s"
proof -
  have b: "byte_text (es_b s) (bytes_of str)" and c: "c_string str" using assms(1) by (simp_all add: mini_text_def)
  obtain b' where b': "eb_read (es_b s) 0 (length str) = Some (list_slice 0 (length str) (bytes_of str), b')"
    "buf_ok b'" "same_text (es_b s) b'"
    using eb_read_correct [OF byte_textD(1) [OF b], of 0 "length str"] byte_textD(2) [OF b] by auto
  have sd: "same_doc (es_b s) b'" using b'(2,3) by (simp add: same_doc_def)
  have sl: "list_slice 0 (length str) (bytes_of str) = bytes_of str" by (simp add: list_slice_def)
  have "mini_str s n = Some (length str, str, s\<lparr>es_b := b'\<rparr>)"
    using b'(1) sl assms(2) byte_textD(3) [OF b] c by (simp add: mini_str_def eb_get_str_def)
  moreover have "mini_text (s\<lparr>es_b := b'\<rparr>) str" "off (s\<lparr>es_b := b'\<rparr>) = off s"
    using byte_text_same_doc [OF b sd] c by (simp_all add: mini_text_def off_def)
  ultimately show ?thesis by blast
qed

lemma mini_goto [simp]: "mini_text (goto_off s v) str = mini_text s str" "off (goto_off s v) = v"
  by (simp_all add: mini_text_def set_tracked_def off_def)

lemma write_str:
  assumes "mini_text s str" "c_string str'" "length str \<le> length str'" "length str + length str' < 2147483648"
  shows "\<exists>s'. write_at s 0 (bytes_of str') = Some s' \<and> mini_text s' str'"
proof -
  have b: "byte_text (es_b s) (bytes_of str)" using assms(1) by (simp add: mini_text_def)
  obtain b' where "eb_write (es_b s) 0 (bytes_of str') = Some b'" "byte_text b' (list_write 0 (bytes_of str') (bytes_of str))"
    using byte_text_overwrite [OF b, of 0 "bytes_of str'"] assms(4) by auto
  then show ?thesis using assms(2,3) by (simp add: write_at_def mini_text_def list_write_def)
qed

lemma set_minibuffer_str_text:
  assumes "mini_text s str" "c_string str'" "length str < 2147483648" "length str' < 2147483648"
  shows "\<exists>s'. set_minibuffer_str s str' = Some s' \<and> mini_text s' str' \<and> off s' = int (length str')"
proof -
  have b: "byte_text (es_b s) (bytes_of str)" using assms(1) by (simp add: mini_text_def)
  obtain b' where b': "eb_delete (es_b s) 0 (length str) = Some b'" "byte_text b' (list_delete 0 (length str) (bytes_of str))"
    using byte_text_delete [OF b, of 0 "length str"] assms(3) by auto
  have "mini_text (s\<lparr>es_b := b'\<rparr>) []"
    using b'(2) by (simp add: mini_text_def list_delete_def bytes_of_def)
  then obtain s' where "write_at (s\<lparr>es_b := b'\<rparr>) 0 (bytes_of str') = Some s'" "mini_text s' str'"
    using write_str [of _ "[]" str'] assms(2,4) by auto
  then show ?thesis
    using b'(1) byte_textD(3) [OF b] by (auto simp: set_minibuffer_str_def delete_at_def)
qed

section \<open>Completion\<close>

lemma all_match_iff:
  assumes "\<forall>x \<in> set outs. k \<le> length x"
  shows "all_match outs k c = Some (\<forall>x \<in> set outs. (if k < length x then x ! k else NUL) = c)"
  using assms by (induction outs) (auto simp: char_at_def)

text \<open>A common prefix that cannot be continued is the longest one.\<close>

lemma longest_unique:
  assumes "L \<noteq> {}" "\<forall>x \<in> L. prefix p x" "\<And>c. \<exists>x \<in> L. \<not> prefix (p @ [c]) x"
  shows "Longest_common_prefix L = p"
proof -
  have "prefix p (Longest_common_prefix L)" by (rule Longest_common_prefix_max_prefix [OF assms(1,2)])
  then obtain q where q: "Longest_common_prefix L = p @ q" by (auto simp: prefix_def)
  show ?thesis
  proof (cases q)
    case (Cons c r)
    have "prefix (p @ [c]) x" if "x \<in> L" for x
      using Longest_common_prefix_prefix [OF that] q Cons by (auto simp: prefix_def)
    then show ?thesis using assms(3) [of c] by blast
  qed (simp add: q)
qed

lemma longest_match_prefix:
  assumes "\<forall>x \<in> set (first # outs). prefix (take k first) x" "k \<le> length first" "\<forall>x \<in> set (first # outs). c_string x"
  shows "longest_match first outs k = Some (length (Longest_common_prefix (set (first # outs))))"
  using assms
proof (induction first outs k rule: longest_match.induct)
  case (1 first outs k)
  let ?L = "set (first # outs)"
  have len: "\<forall>x \<in> set outs. k \<le> length x" using 1(2,3) by (auto dest!: bspec prefix_length_le)
  have pk: "take k x = take k first" if "x \<in> ?L" for x
    using 1(2,3) that by (auto simp: prefix_def)
  show ?case
  proof (cases "k < length first")
    case False
    then have k: "k = length first" using 1(3) by simp
    then have "Longest_common_prefix ?L = first"
      using 1(2) by (intro longest_unique) (auto simp: prefix_def)
    then show ?thesis using k by (simp add: longest_match.simps [of first] char_at_def)
  next
    case True
    let ?c = "first ! k"
    have nn: "?c \<noteq> NUL" using nth_mem [OF True] 1(4) by (auto simp: c_string_def)
    define same where "same \<longleftrightarrow> (\<forall>x \<in> set outs. (if k < length x then x ! k else NUL) = ?c)"
    have am: "all_match outs k ?c = Some same" using all_match_iff [OF len] by (simp add: same_def)
    show ?thesis
    proof (cases same)
      case s: True
      have pre: "\<forall>x \<in> ?L. prefix (take (k + 1) first) x"
      proof
        fix x assume x: "x \<in> ?L"
        have "k < length x \<and> x ! k = ?c" using s x True nn by (auto simp: same_def split: if_splits)
        then have "take (k + 1) first = take (k + 1) x" using pk [OF x] True by (simp add: take_Suc_conv_app_nth)
        then show "prefix (take (k + 1) first) x" by (simp add: take_is_prefix)
      qed
      have "longest_match first outs (k + 1) = Some (length (Longest_common_prefix ?L))"
        by (rule 1(1) [OF _ nn am s pre _ 1(4)]) (use True in \<open>simp_all add: char_at_def\<close>)
      then show ?thesis using True nn am s by (simp add: longest_match.simps [of first outs k] char_at_def)
    next
      case False
      then obtain x where x: "x \<in> set outs" "(if k < length x then x ! k else NUL) \<noteq> ?c" by (auto simp: same_def)
      have "Longest_common_prefix ?L = take k first"
      proof (rule longest_unique)
        fix c
        show "\<exists>x \<in> ?L. \<not> prefix (take k first @ [c]) x"
        proof (cases "c = ?c")
          case True
          then have "\<not> prefix (take k first @ [c]) x"
            using x(2) 1(3) nn by (auto simp: prefix_def nth_append split: if_splits)
          then show ?thesis using x(1) by auto
        next
          case False
          have "\<not> prefix (take k first @ [c]) first"
          proof
            assume "prefix (take k first @ [c]) first"
            then obtain r where "first = take k first @ c # r" by (auto simp: prefix_def)
            then have "first ! length (take k first) = c" by (metis nth_append_length)
            then show False using True False by simp
          qed
          then show ?thesis by auto
        qed
      qed (use 1(2) in auto)
      then show ?thesis using True nn am False by (simp add: longest_match.simps [of first outs k] char_at_def)
    qed
  qed
qed

section \<open>The list of completions\<close>

abbreviation popup_line :: "string \<Rightarrow> u8 list" where
  "popup_line x \<equiv> 32 # bytes_of x"

lemma popup_lines_text:
  assumes "byte_text b t" "\<forall>x \<in> set outs. length x < 1023" "length t + length (join (map popup_line outs)) < 2147483648"
  shows "\<exists>b'. popup_lines b outs = Some b' \<and> byte_text b' (t @ join (map popup_line outs))"
  using assms
proof (induction outs arbitrary: b t)
  case (Cons x outs)
  have len: "length t + length (popup_line x) < 2147483648"
    using Cons.prems(3) by (cases outs) auto
  obtain b1 where b1: "eb_printf b (popup_line x) = Some b1" "byte_text b1 (t @ popup_line x)"
    using byte_text_printf [OF Cons.prems(1) _ len] Cons.prems(2) by auto
  show ?case
  proof (cases "outs = []")
    case True
    then show ?thesis using b1 by simp
  next
    case False
    then have j: "join (map popup_line (x # outs)) = popup_line x @ 10 # join (map popup_line outs)"
      by (simp add: join_Cons)
    obtain b2 where b2: "eb_printf b1 [10] = Some b2" "byte_text b2 ((t @ popup_line x) @ [10])"
      using byte_text_printf [OF b1(2), of "[10]"] Cons.prems(3) unfolding j by auto
    show ?thesis
      using Cons.IH [OF b2(2)] b1(1) b2(1) Cons.prems(2,3) False unfolding j by auto
  qed
qed simp

lemma list_offset_line:
  assumes "byte_text b (join ls)" "whole_lines ls" "k < length ls" "c \<le> length (ls ! k)"
  shows "\<exists>b'. list_get_offset b junk (int (line_start k (join ls) + c)) = Some (int (line_start k (join ls)), b') \<and>
    byte_text b' (join ls)"
proof -
  have "line_start k (join ls) + c \<le> length (join ls)" using join_line(4) [OF assms(2-4)] assms(4) by simp
  then obtain b1 where b1: "eb_get_pos b (line_start k (join ls) + c) = ((k, c), b1)" "byte_text b1 (join ls)"
    using byte_text_get_pos [OF assms(1)] join_line(3) [OF assms(2-4)] by fastforce
  obtain b2 where "eb_goto_pos b1 junk k 0 = Some (int (line_start k (join ls)), b2)" "byte_text b2 (join ls)"
    using byte_text_goto_line [OF b1(2)] by blast
  then show ?thesis using b1(1) by (simp add: list_get_offset_def list_get_pos_def nat_int_add)
qed

lemma popup_choice_line:
  assumes "mb_popup m = Some (b, int (line_start k (join ls) + c), True)" "byte_text b (join ls)" "whole_lines ls"
    "k < length ls" "c \<le> length (ls ! k)" "ls ! k = popup_line x" "c_string x" "length x < 1022"
    "mini_text (mb_s m) str" "length str < 2147483648"
  shows "\<exists>s. popup_choice junk m = Some s \<and> mini_text s x"
proof -
  obtain b' where b': "list_get_offset b junk (int (line_start k (join ls) + c)) = Some (int (line_start k (join ls)), b')"
    "byte_text b' (join ls)"
    using list_offset_line [OF assms(2-5)] by blast
  obtain e b2 where st: "eb_get_strline b' junk 1024 (int (line_start k (join ls))) = Some (popup_line x @ [0], e, b2)"
    using byte_text_strline [OF b'(2) assms(3,4), of 1024 junk] assms(6,8) by auto
  have "cstr (x @ [NUL]) = x" using assms(7) by simp
  then show ?thesis
    using assms(1) b'(1) st set_minibuffer_str_text [OF assms(9,7,10)] assms(8)
    by (auto simp: popup_choice_def)
qed

section \<open>Completing the input\<close>

text \<open>\<open>outs\<close> are completions of the input \<open>str\<close>.\<close>

definition completes :: "string \<Rightarrow> string list \<Rightarrow> bool" where
  "completes str outs \<longleftrightarrow> outs \<noteq> [] \<and> (\<forall>x \<in> set outs. prefix str x \<and> c_string x \<and> length x < 1022)"

lemma longest_of_completions:
  assumes "completes str outs"
  defines "L \<equiv> Longest_common_prefix (set outs)"
  shows "longest_match (hd outs) (tl outs) (length str) = Some (length L)" "take (length L) (hd outs) = L"
    "prefix str L" "c_string L" "length L < 1022"
proof -
  have ne: "outs \<noteq> []" "set outs \<noteq> {}" and x: "\<forall>x \<in> set outs. prefix str x \<and> c_string x \<and> length x < 1022"
    using assms(1) by (auto simp: completes_def)
  then have h: "hd outs \<in> set outs" "set (hd outs # tl outs) = set outs" by simp_all
  have st: "take (length str) (hd outs) = str" using x h(1) by (auto simp: prefix_def)
  show "longest_match (hd outs) (tl outs) (length str) = Some (length L)"
    using longest_match_prefix [of "hd outs" "tl outs" "length str"] x h(1) st prefix_length_le [of str "hd outs"]
    unfolding L_def h(2) by simp
  have pl: "prefix L (hd outs)" unfolding L_def by (rule Longest_common_prefix_prefix [OF h(1)])
  then show "take (length L) (hd outs) = L" "length L < 1022" "c_string L"
    using x h(1) by (auto simp: prefix_def c_string_def)
  show "prefix str L" unfolding L_def using x ne(2) by (intro Longest_common_prefix_max_prefix) auto
qed

text \<open>C27. Completion: when the completion function returns completions of the typed text that have
  more in common than it, the text becomes their longest common prefix and the cursor goes to its
  end; the list of completions is left alone.
\<close>

theorem completion_extends:
  assumes "mini_text (mb_s m) str" "f str = Some outs" "completes str outs" "Longest_common_prefix (set outs) \<noteq> str"
  shows "\<exists>m'. do_completion (Some f) m = Some m' \<and> mini_text (mb_s m') (Longest_common_prefix (set outs)) \<and>
    off (mb_s m') = int (length (Longest_common_prefix (set outs))) \<and> mb_popup m' = mb_popup m"
proof -
  let ?L = "Longest_common_prefix (set outs)"
  note l = longest_of_completions [OF assms(3)]
  have len: "length str < length ?L" "length str < 1024"
    using l(3,5) assms(4) by (auto simp: prefix_def)
  obtain s where s: "mini_str (mb_s m) 1024 = Some (length str, str, s)" "mini_text s str"
    using mini_str_text [OF assms(1) len(2)] by blast
  obtain s' where "write_at s 0 (bytes_of ?L) = Some s'" "mini_text s' ?L"
    using write_str [OF s(2) l(4)] len l(5) by auto
  then show ?thesis
    using s(1) assms(2,3) l(1,2) len(1) by (auto simp: do_completion_def completes_def)
qed

lemma show_completions_text:
  assumes "mb_popup m = None" "length outs > 1" "\<forall>x \<in> set outs. length x < 1022"
    "length (join (map popup_line (sort_key strcmp_key outs))) < 2147483648"
  shows "\<exists>b. show_completions outs m = Some (m\<lparr>mb_popup := Some (b, 0, False)\<rparr>) \<and>
    byte_text b (join (map popup_line (sort_key strcmp_key outs)))"
proof -
  let ?b = "alloc_buffer ''*completion*'' (or BF_SYSTEM BF_READONLY)"
  have b: "byte_text ?b []" by (rule byte_text_alloc)
  then have "eb_delete ?b 0 (total_size ?b) = Some ?b"
    using byte_text_delete [OF b, of 0 0] byte_textD(3) [OF b] by auto
  moreover have "\<forall>x \<in> set outs. length x < 1023" using assms(3) by auto
  ultimately show ?thesis
    using popup_lines_text [OF b, of "sort_key strcmp_key outs"] assms by (auto simp: show_completions_def)
qed

text \<open>C28. Choosing a completion: when the completions have nothing more in common, they are listed in the
  order of their bytes, and once the cursor of the list has been moved to some place in line \<open>i\<close>, the
  answer given with return is completion \<open>i\<close> of the sorted list.
\<close>

theorem completion_choice:
  assumes "mini_text (mb_s m) str" "f str = Some outs" "completes str outs" "Longest_common_prefix (set outs) = str"
    "mb_popup m = None" "length outs > 1" "\<forall>x \<in> set outs. 10 \<notin> set (bytes_of x)"
    "join (map popup_line (sort_key strcmp_key outs)) = t" "length t < 2147483648"
    "i < length outs" "c \<le> length (sort_key strcmp_key outs ! i) + 1"
    "\<And>b. byte_text b t \<Longrightarrow> byte_text (fst (move b 0)) t \<and> snd (move b 0) = int (line_start i t + c)"
  shows "\<exists>m1 h. do_completion (Some f) m = Some m1 \<and> mini_text (mb_s m1) str \<and>
    do_minibuffer_exit ok junk (minibuf_complete_scroll_up_down move m1) False =
      Some (Some (sort_key strcmp_key outs ! i), h)"
proof -
  let ?sorted = "sort_key strcmp_key outs"
  let ?ls = "map popup_line ?sorted"
  note l = longest_of_completions [OF assms(3)]
  have len: "length str < 1022" using l(5) assms(4) by simp
  then obtain s where s: "mini_str (mb_s m) 1024 = Some (length str, str, s)" "mini_text s str"
    using mini_str_text [OF assms(1), of 1024] by fastforce
  obtain b where b: "show_completions outs (m\<lparr>mb_s := s\<rparr>) = Some (m\<lparr>mb_s := s, mb_popup := Some (b, 0, False)\<rparr>)"
    "byte_text b t"
    using show_completions_text [of "m\<lparr>mb_s := s\<rparr>" outs] assms(3,5,6,8,9) by (auto simp: completes_def)
  let ?m1 = "m\<lparr>mb_s := s, mb_popup := Some (b, 0, False)\<rparr>"
  have m1: "do_completion (Some f) m = Some ?m1"
    using s(1) assms(2,3,4) l(1) b(1) by (simp add: do_completion_def completes_def)
  obtain b2 where b2: "move b 0 = (b2, int (line_start i t + c))" "byte_text b2 t"
    using assms(12) [OF b(2)] by (cases "move b 0") auto
  let ?m2 = "minibuf_complete_scroll_up_down move ?m1"
  have p2: "mb_popup ?m2 = Some (b2, int (line_start i (join ?ls) + c), True)" "mb_s ?m2 = s"
    using b2(1) assms(8) by (simp_all add: minibuf_complete_scroll_up_down_def)
  have "?sorted \<noteq> []" using assms(6) length_sort [of strcmp_key outs] by (auto simp del: length_sort)
  then have w: "whole_lines ?ls" "i < length ?ls" using assms(7,10) by (auto simp: whole_lines_def)
  have "?sorted ! i \<in> set outs" using nth_mem [of i ?sorted] assms(10) by simp
  then have x: "c_string (?sorted ! i)" "length (?sorted ! i) < 1022" using assms(3) by (auto simp: completes_def)
  obtain s2 where s2: "popup_choice junk ?m2 = Some s2" "mini_text s2 (?sorted ! i)"
    using popup_choice_line [OF p2(1) _ w, of "?sorted ! i" str] b2(2) assms(8,10,11) x s(2) p2(2) len by auto
  obtain s3 where "mini_str s2 4096 = Some (length (?sorted ! i), ?sorted ! i, s3)"
    using mini_str_text [OF s2(2), of 4096] x(2) by fastforce
  then have "\<exists>h. do_minibuffer_exit ok junk ?m2 False = Some (Some (?sorted ! i), h)"
    using s2(1) by (simp add: do_minibuffer_exit_def)
  then show ?thesis using m1 s(2) by auto
qed

section \<open>History\<close>

abbreviation history_of :: "string list \<Rightarrow> StringArray \<Rightarrow> bool" where
  "history_of xs h \<equiv> map (map_option item_str) (items h) = map Some xs"

lemma history_nth: "history_of xs h \<Longrightarrow> i < length xs \<Longrightarrow> \<exists>it. items h ! i = Some it \<and> item_str it = xs ! i"
  by (metis (mono_tags, lifting) length_map map_option_eq_Some nth_map)

lemma history_length: "history_of xs h \<Longrightarrow> length (items h) = length xs"
  by (metis length_map)

text \<open>A question whose history holds the strings \<open>xs\<close>.\<close>

definition in_history :: "MiniBuffer \<Rightarrow> string list \<Rightarrow> bool" where
  "in_history m xs \<longleftrightarrow> mb_popup m = None \<and> (\<exists>h. mb_hist m = Some h \<and> history_of xs h) \<and>
     (\<forall>x \<in> set xs. c_string x \<and> length x < 1024)"

text \<open>A series of movements: only the first one is not a repetition.\<close>

fun history_moves :: "(EditBuffer \<Rightarrow> int \<Rightarrow> EditBuffer \<times> int) \<Rightarrow> bool \<Rightarrow> MiniBuffer \<Rightarrow> int list \<Rightarrow> MiniBuffer option" where
  "history_moves move again m [] = Some m"
| "history_moves move again m (d # ds) = do {
     m \<leftarrow> do_history move True again m d;
     history_moves move True m ds }"

text \<open>Where the movements go: those that would leave the history are ignored.\<close>

fun history_index :: "nat \<Rightarrow> int \<Rightarrow> int list \<Rightarrow> int" where
  "history_index n i [] = i"
| "history_index n i (d # ds) = history_index n (if 0 \<le> i + d \<and> i + d < int n then i + d else i) ds"

lemma history_step:
  assumes "in_history m xs" "mini_text (mb_s m) str" "length str < 1024" "0 \<le> mb_index m + d" "mb_index m + d < int (length xs)"
  shows "\<exists>m'. do_history move True True m d = Some m' \<and> in_history m' xs \<and> mb_index m' = mb_index m + d \<and>
    mb_saved m' = mb_saved m \<and> mini_text (mb_s m') (xs ! nat (mb_index m')) \<and>
    off (mb_s m') = (if mb_index m' = int (length xs) - 1 then mb_saved m else int (length (xs ! nat (mb_index m'))))"
proof -
  let ?i = "nat (mb_index m + d)"
  obtain h where h: "mb_hist m = Some h" "history_of xs h" "mb_popup m = None"
    using assms(1) by (auto simp: in_history_def)
  have i: "?i < length xs" using assms(4,5) by simp
  obtain it where it: "items h ! ?i = Some it" "item_str it = xs ! ?i" using history_nth [OF h(2) i] by blast
  have "c_string (xs ! ?i)" "length (xs ! ?i) < 1024" using assms(1) nth_mem [OF i] by (auto simp: in_history_def)
  then obtain s where s: "set_minibuffer_str (mb_s m) (xs ! ?i) = Some s" "mini_text s (xs ! ?i)"
    "off s = int (length (xs ! ?i))"
    using set_minibuffer_str_text [OF assms(2)] assms(3) by fastforce
  then have "do_history move True True m d = Some (m\<lparr>mb_index := mb_index m + d,
      mb_s := if mb_index m + d = int (length xs) - 1 then goto_off s (mb_saved m) else s\<rparr>)"
    using h(1,3) it assms(4,5) history_length [OF h(2)] by (simp add: do_history_def)
  then show ?thesis
    using assms(1) s by (auto simp: in_history_def)
qed

lemma history_steps:
  assumes "in_history m xs" "mini_text (mb_s m) (xs ! nat (mb_index m))" "0 \<le> mb_index m" "mb_index m < int (length xs)"
    "off (mb_s m) = (if mb_index m = int (length xs) - 1 then mb_saved m else int (length (xs ! nat (mb_index m))))"
  shows "\<exists>m'. history_moves move True m ds = Some m' \<and> mb_index m' = history_index (length xs) (mb_index m) ds \<and>
    mini_text (mb_s m') (xs ! nat (mb_index m')) \<and>
    off (mb_s m') = (if mb_index m' = int (length xs) - 1 then mb_saved m else int (length (xs ! nat (mb_index m'))))"
  using assms
proof (induction ds arbitrary: m)
  case (Cons d ds)
  have len: "length (xs ! nat (mb_index m)) < 1024"
    using Cons.prems(1,3,4) by (auto simp: in_history_def)
  show ?case
  proof (cases "0 \<le> mb_index m + d \<and> mb_index m + d < int (length xs)")
    case True
    then obtain m1 where m1: "do_history move True True m d = Some m1" "in_history m1 xs" "mb_index m1 = mb_index m + d"
      "mb_saved m1 = mb_saved m" "mini_text (mb_s m1) (xs ! nat (mb_index m1))"
      "off (mb_s m1) = (if mb_index m1 = int (length xs) - 1 then mb_saved m else int (length (xs ! nat (mb_index m1))))"
      using history_step [OF Cons.prems(1,2) len] by blast
    have i: "0 \<le> mb_index m1" "mb_index m1 < int (length xs)" using m1(3) True by simp_all
    have at: "off (mb_s m1) = (if mb_index m1 = int (length xs) - 1 then mb_saved m1 else int (length (xs ! nat (mb_index m1))))"
      using m1(4,6) by simp
    obtain m2 where "history_moves move True m1 ds = Some m2" "mb_index m2 = history_index (length xs) (mb_index m1) ds"
      "mini_text (mb_s m2) (xs ! nat (mb_index m2))"
      "off (mb_s m2) = (if mb_index m2 = int (length xs) - 1 then mb_saved m1 else int (length (xs ! nat (mb_index m2))))"
      using Cons.IH [OF m1(2,5) i at] by blast
    then show ?thesis using m1(1,3,4) True by (intro exI [of _ m2]) simp
  next
    case False
    obtain h where h: "mb_hist m = Some h" "history_of xs h" "mb_popup m = None"
      using Cons.prems(1) by (auto simp: in_history_def)
    then have "do_history move True True m d = Some m"
      using False history_length [OF h(2)] by (auto simp: do_history_def)
    then show ?thesis using Cons.IH [OF Cons.prems] False by auto
  qed
qed simp

text \<open>C29. History: from the line being typed, any series of movements whose first one finds a line shows
  the lines of the history at the index it reaches, with the cursor at their end; movements that would
  leave the history are ignored, and whenever the index is back at the line being typed, its text and
  the place of the cursor in it are restored.
\<close>

theorem history_browse:
  assumes "in_history m (xs @ [x])" "mini_text (mb_s m) str" "length str < 1024" "mb_index m = int (length xs)"
    "0 \<le> int (length xs) + d" "d \<le> 0"
  shows "\<exists>m'. history_moves move False m (d # ds) = Some m' \<and>
    mb_index m' = history_index (length xs + 1) (int (length xs)) (d # ds) \<and>
    mini_text (mb_s m') (if mb_index m' = int (length xs) then str else xs ! nat (mb_index m')) \<and>
    off (mb_s m') = (if mb_index m' = int (length xs) then off (mb_s m) else int (length (xs ! nat (mb_index m'))))"
proof -
  let ?i = "history_index (length xs + 1) (int (length xs)) (d # ds)"
  obtain h where h: "mb_hist m = Some h" "history_of (xs @ [x]) h" "mb_popup m = None"
    using assms(1) by (auto simp: in_history_def)
  have len: "length (items h) = length xs + 1" using history_length [OF h(2)] by simp
  obtain s where s: "mini_str (mb_s m) 1024 = Some (length str, str, s)" "mini_text s str" "off s = off (mb_s m)"
    using mini_str_text [OF assms(2,3)] by blast
  let ?h = "snd (set_string True h (length xs) str)"
  let ?m1 = "m\<lparr>mb_s := s, mb_hist := Some ?h, mb_saved := off s\<rparr>" and ?xs = "xs @ [str]"
  have "history_of ?xs ?h"
    using h(2) len by (auto simp: set_string_def map_update list_update_append)
  moreover have "c_string str" using s(2) by (simp add: mini_text_def)
  ultimately have m1: "in_history ?m1 ?xs" using assms(1,3) h(3) by (auto simp: in_history_def)
  have step: "do_history move True False m d = do_history move True True ?m1 d"
    using h(1,3) len s(1) assms(4,5,6) by (simp add: do_history_def set_string_def)
  obtain m2 where m2: "do_history move True True ?m1 d = Some m2" "in_history m2 ?xs" "mb_index m2 = int (length xs) + d"
    "mb_saved m2 = off (mb_s m)" "mini_text (mb_s m2) (?xs ! nat (mb_index m2))"
    "off (mb_s m2) = (if mb_index m2 = int (length ?xs) - 1 then off (mb_s m) else int (length (?xs ! nat (mb_index m2))))"
    using history_step [OF m1, of str d move] s(2,3) assms(3-6) by auto
  have i2: "0 \<le> mb_index m2" "mb_index m2 < int (length ?xs)" using m2(3) assms(5,6) by simp_all
  have at: "off (mb_s m2) = (if mb_index m2 = int (length ?xs) - 1 then mb_saved m2 else int (length (?xs ! nat (mb_index m2))))"
    using m2(4,6) by simp
  obtain m3 where m3: "history_moves move True m2 ds = Some m3" "mb_index m3 = history_index (length ?xs) (mb_index m2) ds"
    "mini_text (mb_s m3) (?xs ! nat (mb_index m3))"
    "off (mb_s m3) = (if mb_index m3 = int (length ?xs) - 1 then off (mb_s m) else int (length (?xs ! nat (mb_index m3))))"
    using history_steps [OF m2(2,5) i2 at] unfolding m2(4) by blast
  have i: "mb_index m3 = ?i" using m3(2) m2(3) assms(5,6) by simp
  have "0 \<le> ?i \<and> ?i \<le> int (length xs)"
  proof -
    have "0 \<le> j \<Longrightarrow> j < int n \<Longrightarrow> 0 \<le> history_index n j ds \<and> history_index n j ds < int n" for j n
      by (induction ds arbitrary: j) auto
    from this [of "int (length xs) + d" "length xs + 1"] show ?thesis using assms(5,6) by simp
  qed
  then have x: "?xs ! nat (mb_index m3) = (if mb_index m3 = int (length xs) then str else xs ! nat (mb_index m3))"
    unfolding i by (auto simp: nth_append)
  have "history_moves move False m (d # ds) = Some m3" using step m2(1) m3(1) by simp
  then show ?thesis using m3(3,4) i unfolding x by auto
qed

text \<open>What \<open>do_minibuffer_exit\<close> does without a list of completions.\<close>

lemma exit_without_popup:
  assumes "mini_text (mb_s m) str" "length str < 4096" "mb_popup m = None" "mb_hist m = Some h" "history_of (xs @ [x]) h"
  shows "\<exists>h'. do_minibuffer_exit True junk m abort = Some (if abort then None else Some str, Some h') \<and>
    history_of (if str = [] then xs else xs @ [str]) h'"
proof -
  obtain s where s: "mini_str (mb_s m) 4096 = Some (length str, str, s)" using mini_str_text [OF assms(1,2)] by blast
  have n: "items h \<noteq> []" using history_length [OF assms(5)] by auto
  have "map (map_option item_str) (butlast (items h)) = map Some xs" using assms(5) by (simp add: map_butlast)
  then show ?thesis
    using s n assms(3,4) by (auto simp: do_minibuffer_exit_def popup_choice_def add_string_def set_string_def Let_def)
qed

text \<open>A question and its history: \<open>start_minibuffer\<close> adds an empty line to the history, and answering
  with \<open>str\<close> replaces it by this text, so that the history grows by exactly the answer, and is
  as before when the answer is empty.
\<close>

theorem question_history:
  assumes "history_of xs h" "mini_text s str" "length str < 4096"
  shows "\<exists>m h'. start_minibuffer True None (Some h) = Some m \<and> mb_index m = int (length xs) \<and>
    do_minibuffer_exit True junk (m\<lparr>mb_s := s\<rparr>) False = Some (Some str, Some h') \<and>
    history_of (if str = [] then xs else xs @ [str]) h'"
proof -
  let ?h = "snd (add_string True h [])"
  let ?m = "\<lparr>mb_s = mini_window, mb_popup = None, mb_hist = Some ?h, mb_index = int (length xs), mb_saved = 0\<rparr>"
  have "start_minibuffer True None (Some h) = Some ?m"
    using history_length [OF assms(1)] by (simp add: start_minibuffer_def)
  moreover have "history_of (xs @ [[]]) ?h"
    using assms(1) by (simp add: add_string_def set_string_def Let_def)
  then have "\<exists>h'. do_minibuffer_exit True junk (?m\<lparr>mb_s := s\<rparr>) False = Some (Some str, Some h') \<and>
      history_of (if str = [] then xs else xs @ [str]) h'"
    using exit_without_popup [of "?m\<lparr>mb_s := s\<rparr>" str ?h xs "[]" junk False] assms(2,3) by simp
  ultimately show ?thesis by auto
qed

section \<open>Concrete questions\<close>

text \<open>A question with a text and a history.\<close>

definition question :: "EditBuffer \<Rightarrow> int \<Rightarrow> string list \<Rightarrow> MiniBuffer" where
  "question b p xs = \<lparr>mb_s = \<lparr>es_b = b\<lparr>tracked := (tracked b)(OFFSET := p)\<rparr>, es_insert = True,
     input_method = None, compose_buf = [], compose_start_offset = 0\<rparr>, mb_popup = None,
     mb_hist = Some \<lparr>nb_allocated = 32, items = map (\<lambda>x. Some \<lparr>selected = False, item_str = x\<rparr>) xs\<rparr>,
     mb_index = int (length xs) - 1, mb_saved = 0\<rparr>"

lemma question_text: "byte_text b (bytes_of str) \<Longrightarrow> c_string str \<Longrightarrow> mini_text (mb_s (question b p xs)) str"
  by (simp add: question_def mini_text_def)

lemma question_exists: "length str < 2147483648 \<Longrightarrow> \<exists>b. byte_text b (bytes_of str)"
  by (rule byte_text_exists) simp

lemma text_contents: "mini_text s str \<Longrightarrow> contents (es_b s) = bytes_of str"
  using byte_textD(2) by (auto simp: mini_text_def)

lemma contents_question [simp]: "contents (es_b (mb_s (question b p xs))) = contents b"
  by (simp add: question_def contents_def)

lemma longest_abc_abd: "Longest_common_prefix {''abc'', ''abd''} = ''ab''"
  by (rule longest_unique) (auto simp: prefix_def)

theorem completion_extends_witness:
  "\<exists>b m'. contents b = bytes_of ''a'' \<and> do_completion (Some (\<lambda>_. Some [''abc'', ''abd''])) (question b 1 []) = Some m' \<and>
    contents (es_b (mb_s m')) = bytes_of ''ab'' \<and> off (mb_s m') = 2"
proof -
  obtain b where b: "byte_text b (bytes_of ''a'')" using question_exists [of "''a''"] by auto
  have "completes ''a'' [''abc'', ''abd'']" by (auto simp: completes_def c_string_def)
  moreover have "mini_text (mb_s (question b 1 [])) ''a''" by (rule question_text [OF b]) (simp add: c_string_def)
  ultimately show ?thesis
    using completion_extends [where m = "question b 1 []" and str = "''a''" and f = "\<lambda>_. Some [''abc'', ''abd'']"
        and outs = "[''abc'', ''abd'']"] longest_abc_abd byte_textD(2) [OF b] text_contents by fastforce
qed

theorem completion_choice_witness:
  "\<exists>b m1 h. contents b = bytes_of ''ab'' \<and> do_completion (Some (\<lambda>_. Some [''abd'', ''abc''])) (question b 2 []) = Some m1 \<and>
    do_minibuffer_exit True [] (minibuf_complete_scroll_up_down (\<lambda>b p. (b, 5)) m1) False = Some (Some ''abd'', h)"
proof -
  obtain b where b: "byte_text b (bytes_of ''ab'')" using question_exists [of "''ab''"] by auto
  have c: "completes ''ab'' [''abd'', ''abc'']" by (auto simp: completes_def c_string_def)
  have srt: "sort_key strcmp_key [''abd'', ''abc''] = [''abc'', ''abd'']" by code_simp
  have t: "join (map popup_line [''abc'', ''abd'']) = [32, 97, 98, 99, 10, 32, 97, 98, 100]" by code_simp
  have l: "line_start 1 [32, 97, 98, 99, 10, 32, 97, 98, 100] = 5" by code_simp
  have "Longest_common_prefix (set [''abd'', ''abc'']) = ''ab''" using longest_abc_abd by (simp add: insert_commute)
  moreover have "mini_text (mb_s (question b 2 [])) ''ab''" by (rule question_text [OF b]) (simp add: c_string_def)
  moreover have "\<forall>x \<in> set [''abd'', ''abc'']. 10 \<notin> set (bytes_of x)" by code_simp
  moreover have "mb_popup (question b 2 []) = None" by (simp add: question_def)
  ultimately show ?thesis
    using completion_choice [where m = "question b 2 []" and str = "''ab''" and f = "\<lambda>_. Some [''abd'', ''abc'']"
        and outs = "[''abd'', ''abc'']" and t = "[32, 97, 98, 99, 10, 32, 97, 98, 100]" and i = 1 and c = 0
        and move = "\<lambda>b p. (b, 5)" and ok = True and junk = "[]"] c srt t l byte_textD(2) [OF b] by fastforce
qed

theorem history_browse_witness:
  "\<exists>b m1 m2. contents b = bytes_of ''new'' \<and>
    history_moves (\<lambda>b p. (b, p)) False (question b 1 [''old'', []]) [-1] = Some m1 \<and>
    contents (es_b (mb_s m1)) = bytes_of ''old'' \<and> off (mb_s m1) = 3 \<and>
    history_moves (\<lambda>b p. (b, p)) False (question b 1 [''old'', []]) [-1, -1, 1] = Some m2 \<and>
    contents (es_b (mb_s m2)) = bytes_of ''new'' \<and> off (mb_s m2) = 1"
proof -
  obtain b where b: "byte_text b (bytes_of ''new'')" using question_exists [of "''new''"] by auto
  let ?m = "question b 1 [''old'', []]"
  have i: "in_history ?m ([''old''] @ [[]])" by (auto simp: in_history_def question_def c_string_def)
  have t: "mini_text (mb_s ?m) ''new''" by (rule question_text [OF b]) (simp add: c_string_def)
  have q: "mb_index ?m = int (length [''old''])" "off (mb_s ?m) = 1" by (simp_all add: question_def off_def)
  show ?thesis
    using history_browse [OF i t _ q(1), of "-1" "\<lambda>b p. (b, p)" "[]"]
      history_browse [OF i t _ q(1), of "-1" "\<lambda>b p. (b, p)" "[-1, 1]"] q(2) byte_textD(2) [OF b] text_contents
    by fastforce
qed

theorem question_history_witness:
  "\<exists>b m h'. contents b = bytes_of ''x'' \<and> start_minibuffer True None (Some \<lparr>nb_allocated = 0, items = []\<rparr>) = Some m \<and>
    do_minibuffer_exit True [] (m\<lparr>mb_s := mb_s (question b 1 [])\<rparr>) False = Some (Some ''x'', Some h') \<and>
    map (map_option item_str) (items h') = [Some ''x'']"
proof -
  obtain b where b: "byte_text b (bytes_of ''x'')" using question_exists [of "''x''"] by auto
  have "mini_text (mb_s (question b 1 [])) ''x''" by (rule question_text [OF b]) (simp add: c_string_def)
  then show ?thesis
    using question_history [where xs = "[]" and h = "\<lparr>nb_allocated = 0, items = []\<rparr>" and str = "''x''" and junk = "[]"]
      byte_textD(2) [OF b] by fastforce
qed

section \<open>What the code does wrong\<close>

text \<open>
  A first movement that leaves the history returns before the line being typed is saved, but the next
  movement counts as a repetition, does not save it either, and the way back shows an empty line.
\<close>

lemma first_move_not_saved:
  assumes "in_history m (xs @ [x])" "mb_index m = int (length xs)" "xs \<noteq> []" "mini_text (mb_s m) str" "length str < 1024"
  shows "\<exists>m'. history_moves move False m [1, -1, 1] = Some m' \<and> mini_text (mb_s m') x"
proof -
  obtain h where h: "mb_hist m = Some h" "history_of (xs @ [x]) h" "mb_popup m = None"
    using assms(1) by (auto simp: in_history_def)
  have first: "do_history move True False m 1 = Some m"
    using h(1,3) history_length [OF h(2)] assms(2) by (simp add: do_history_def)
  have len: "0 \<le> mb_index m + - 1" "mb_index m + - 1 < int (length (xs @ [x]))" using assms(2,3) by (cases xs; simp)+
  obtain m1 where m1: "do_history move True True m (- 1) = Some m1" "in_history m1 (xs @ [x])" "mb_index m1 = mb_index m + - 1"
    "mini_text (mb_s m1) ((xs @ [x]) ! nat (mb_index m1))"
    using history_step [OF assms(1,4,5) len] by blast
  have i: "0 \<le> mb_index m1 + 1" "mb_index m1 + 1 < int (length (xs @ [x]))" using m1(3) assms(2) by simp_all
  have l: "length ((xs @ [x]) ! nat (mb_index m1)) < 1024"
  proof -
    have "nat (mb_index m1) < length (xs @ [x])" using m1(3) assms(2) by simp
    then show ?thesis using m1(2) nth_mem unfolding in_history_def by blast
  qed
  obtain m2 where "do_history move True True m1 1 = Some m2" "mb_index m2 = mb_index m1 + 1"
    "mini_text (mb_s m2) ((xs @ [x]) ! nat (mb_index m2))"
    using history_step [OF m1(2,4) l i] by blast
  then show ?thesis using first m1(1,3) assms(2) by simp
qed

text \<open>A text that was abandoned is added to the history, too.\<close>

lemma abort_is_remembered:
  assumes "mini_text (mb_s m) str" "length str < 4096" "str \<noteq> []" "mb_popup m = None" "mb_hist m = Some h"
    "history_of (xs @ [x]) h"
  shows "\<exists>h'. do_minibuffer_exit True junk m True = Some (None, Some h') \<and> history_of (xs @ [str]) h'"
  using exit_without_popup [OF assms(1,2,4,5,6), of junk True] assms(3) by simp

text \<open>The comparison of the completions starts at the length of the input, behind the end of a shorter one.\<close>

lemma short_completion_overread:
  "length first < k \<Longrightarrow> longest_match first outs k = None"
  by (simp add: longest_match.simps char_at_def)

text \<open>The star added to a pattern of 1023 characters overflows its array.\<close>

lemma star_overflows: "length input \<ge> 1023 \<Longrightarrow> CHR ''/'' \<notin> set input \<Longrightarrow> file_completion ls fnm isdir input = None"
  by (simp add: file_completion_def guard_def min_def strrchr_def)

end
