(* ===== verification/Colorize.thy ===== *)
theory Colorize
  imports Text_Lines Util
begin

text \<open>
  Coloured lines of \<open>src/qe.c\<close>: \<open>get_colorized_line\<close> keeps the state of the colorizer at the beginning of
  the lines in a cache, which edits invalidate through \<open>colorize_callback\<close>. The colorizer of the
  language is the argument \<open>f\<close>: from an array, the length of the line in it and a state it makes
  the coloured array and the state behind the line.

  The locale \<open>colorizer\<close> is the contract of such a function, which may only look at the line. From it
  follows that the cache never shows: whatever edits and queries came before, a line is coloured as
  if the text was coloured from its beginning.
\<close>

section \<open>The code\<close>

type_synonym colorize_func = "u32 list \<Rightarrow> nat \<Rightarrow> nat \<Rightarrow> (u32 list \<times> nat) option"

definition MAXINT :: int where "MAXINT = 0x7fffffff"

text \<open>The fields of the window. \<open>None\<close> in the array is a byte that was not written yet.\<close>

record Colors =
  colorize_states :: "nat option list"
  colorize_nb_lines :: nat
  colorize_nb_valid_lines :: nat
  colorize_max_valid_offset :: int

definition colorize_callback :: "int \<Rightarrow> Colors \<Rightarrow> Colors" where
  "colorize_callback offset e =
    (if offset < colorize_max_valid_offset e then e\<lparr>colorize_max_valid_offset := offset\<rparr> else e)"

definition set_colorize_func :: Colors where
  "set_colorize_func = \<lparr>colorize_states = [], colorize_nb_lines = 0, colorize_nb_valid_lines = 0,
     colorize_max_valid_offset = MAXINT\<rparr>"

definition get_state :: "Colors \<Rightarrow> nat \<Rightarrow> nat option" where
  "get_state e k = do { guard (k < length (colorize_states e)); colorize_states e ! k }"

definition set_state :: "Colors \<Rightarrow> nat \<Rightarrow> nat \<Rightarrow> Colors option" where
  "set_state e k v = do {
     guard (k < length (colorize_states e));
     Some (e\<lparr>colorize_states := (colorize_states e)[k := Some (v mod 256)]\<rparr>) }"

definition check_cache :: "EditBuffer \<Rightarrow> Colors \<Rightarrow> (EditBuffer \<times> Colors) option" where
  "check_cache b e =
    (if colorize_max_valid_offset e \<noteq> MAXINT
     then do {
       guard (0 \<le> colorize_max_valid_offset e);
       let ((line, col), b) = eb_get_pos b (nat (colorize_max_valid_offset e));
       let line = line + 1;
       let e = (if line < colorize_nb_valid_lines e then e\<lparr>colorize_nb_valid_lines := line\<rparr> else e);
       Some (b, e\<lparr>colorize_max_valid_offset := MAXINT\<rparr>) }
     else Some (b, e))"

text \<open>No result of \<open>realloc\<close> leaves the old array, but the new size.\<close>

definition COLORIZED_LINE_PREALLOC_SIZE :: nat where "COLORIZED_LINE_PREALLOC_SIZE = 64"

definition grow_states :: "bool \<Rightarrow> nat \<Rightarrow> Colors \<Rightarrow> bool \<times> Colors" where
  "grow_states ok line_num e =
    (if line_num + 2 > colorize_nb_lines e
     then let n = line_num + 2 + COLORIZED_LINE_PREALLOC_SIZE; e = e\<lparr>colorize_nb_lines := n\<rparr>
       in if \<not> ok then (False, e)
          else (True, e\<lparr>colorize_states := colorize_states e @ replicate (n - length (colorize_states e)) None\<rparr>)
     else (True, e))"

text \<open>\<open>eb_get_line\<close> into the array \<open>buf\<close>, of which \<open>buf_size\<close> entries may be used, and a newline behind.\<close>

definition read_line ::
    "EditBuffer \<Rightarrow> u8 list \<Rightarrow> u32 list \<Rightarrow> nat \<Rightarrow> int \<Rightarrow> (nat \<times> int \<times> u32 list \<times> EditBuffer) option" where
  "read_line b junk buf buf_size offset = do {
     guard (0 < buf_size);
     (cs, offset, b) \<leftarrow> eb_get_line b junk (buf_size - 1) offset;
     let len = length cs;
     guard (len < length buf);
     Some (len, offset, map word_of_int cs @ 10 # drop (len + 1) buf, b) }"

fun propagate ::
    "colorize_func \<Rightarrow> u8 list \<Rightarrow> EditBuffer \<Rightarrow> Colors \<Rightarrow> u32 list \<Rightarrow> nat \<Rightarrow> int \<Rightarrow> nat \<Rightarrow> nat \<Rightarrow> nat \<Rightarrow>
      (u32 list \<times> EditBuffer \<times> Colors) option" where
  "propagate f junk b e buf buf_size offset st l 0 = Some (buf, b, e)"
| "propagate f junk b e buf buf_size offset st l (Suc n) = do {
     (len, offset, buf, b) \<leftarrow> read_line b junk buf buf_size offset;
     (buf, st) \<leftarrow> f buf len st;
     e \<leftarrow> set_state e l st;
     propagate f junk b e buf buf_size offset st (l + 1) n }"

definition fill_states ::
    "colorize_func \<Rightarrow> u8 list \<Rightarrow> EditBuffer \<Rightarrow> Colors \<Rightarrow> u32 list \<Rightarrow> nat \<Rightarrow> nat \<Rightarrow>
      (u32 list \<times> EditBuffer \<times> Colors) option" where
  "fill_states f junk b e buf buf_size line_num =
    (if line_num \<ge> colorize_nb_valid_lines e
     then do {
       e \<leftarrow> (if colorize_nb_valid_lines e = 0
             then do { e \<leftarrow> set_state e 0 0; Some (e\<lparr>colorize_nb_valid_lines := 1\<rparr>) } else Some e);
       (offset, b) \<leftarrow> eb_goto_pos b junk (colorize_nb_valid_lines e - 1) 0;
       st \<leftarrow> get_state e (colorize_nb_valid_lines e - 1);
       propagate f junk b e buf buf_size offset st (colorize_nb_valid_lines e)
         (line_num + 1 - colorize_nb_valid_lines e) }
     else Some (buf, b, e))"

definition get_colorized_line ::
    "colorize_func \<Rightarrow> bool \<Rightarrow> u8 list \<Rightarrow> EditBuffer \<Rightarrow> Colors \<Rightarrow> u32 list \<Rightarrow> nat \<Rightarrow> int \<Rightarrow> nat \<Rightarrow>
      (nat \<times> u32 list \<times> EditBuffer \<times> Colors) option" where
  "get_colorized_line f ok junk b e buf buf_size offset1 line_num = do {
     (b, e) \<leftarrow> check_cache b e;
     let (ok, e) = grow_states ok line_num e;
     if \<not> ok then Some (0, buf, b, e)
     else do {
       (buf, b, e) \<leftarrow> fill_states f junk b e buf buf_size line_num;
       (len, offset1, buf, b) \<leftarrow> read_line b junk buf buf_size offset1;
       st \<leftarrow> get_state e line_num;
       (buf, st) \<leftarrow> f buf len st;
       e \<leftarrow> set_state e (line_num + 1) st;
       Some (len, buf, b, e\<lparr>colorize_nb_valid_lines := line_num + 2\<rparr>) } }"

section \<open>Lines of a text\<close>

definition nth_line :: "nat \<Rightarrow> u8 list \<Rightarrow> u8 list" where
  "nth_line k t = takeWhile (\<lambda>c. c \<noteq> 10) (drop (line_start k t) t)"

lemma takeWhile_line: "10 \<notin> set d \<Longrightarrow> takeWhile (\<lambda>c. c \<noteq> 10) (d @ 10 # r) = d"
  by (subst takeWhile_append2) auto

lemma line_start_Suc: "line_start (Suc k) t = min (line_start k t + length (nth_line k t) + 1) (length t)"
proof (induction k arbitrary: t)
  case 0
  show ?case
  proof (cases "memchr_after t")
    case None
    then have "\<forall>c \<in> set t. c \<noteq> 10" using memchr_after_None by blast
    then have "nth_line 0 t = t" by (simp add: nth_line_def takeWhile_eq_all_conv)
    then show ?thesis using None by simp
  next
    case (Some r)
    then obtain d where d: "t = d @ 10 # r" "10 \<notin> set d" using memchr_after_Some by blast
    then have "takeWhile (\<lambda>c. c \<noteq> 10) t = d" using takeWhile_line by simp
    then show ?thesis using Some d(1) by (simp add: nth_line_def)
  qed
next
  case (Suc k)
  show ?case
  proof (cases "memchr_after t")
    case (Some r)
    then obtain d where d: "t = d @ 10 # r" "10 \<notin> set d" using memchr_after_Some by blast
    have "nth_line (Suc k) t = nth_line k r"
      unfolding d(1) nth_line_def line_start_line [OF d(2)] by simp
    then show ?thesis
      using Suc.IH [of r] line_start_line [OF d(2), of _ r] d(1) by (simp del: line_start.simps)
  qed (simp add: nth_line_def)
qed

text \<open>The lines that end before a change stay the same.\<close>

lemma line_start_prefix: "k \<le> count_list d 10 \<Longrightarrow> line_start k (d @ r) = line_start k d \<and> line_start k d \<le> length d"
  using seek_line_start [of k d r] line_start_le [of k d] by blast

lemma nth_line_Suc: "10 \<notin> set d \<Longrightarrow> nth_line (Suc k) (d @ 10 # r) = nth_line k r"
  by (simp add: nth_line_def line_start_line del: line_start.simps)

lemma nth_line_prefix: "k < count_list d 10 \<Longrightarrow> nth_line k (d @ r) = nth_line k d"
proof (induction k arbitrary: d)
  case 0
  then obtain q where "memchr_after d = Some q" using memchr_after_None [of d] count_list_zero [of d] by auto
  then obtain a where "d = a @ 10 # q" "10 \<notin> set a" using memchr_after_Some by blast
  then show ?case by (simp add: nth_line_def takeWhile_line)
next
  case (Suc k)
  then obtain q where "memchr_after d = Some q" using memchr_after_None [of d] count_list_zero [of d] by auto
  then obtain a where a: "d = a @ 10 # q" "10 \<notin> set a" using memchr_after_Some by blast
  then have "count_list d 10 = Suc (count_list q 10)" by (simp add: count_list_zero)
  then show ?case using a Suc.IH [of q] Suc.prems nth_line_Suc [OF a(2)] by simp
qed

text \<open>Reading line \<open>k\<close> into an array.\<close>

definition chars :: "u8 list \<Rightarrow> u32 list" where
  "chars l = map ucast l"

definition cut_line :: "nat \<Rightarrow> nat \<Rightarrow> u8 list \<Rightarrow> u32 list" where
  "cut_line n k t = chars (take (n - 1) (nth_line k t))"

lemma read_line_text:
  assumes "byte_text b t" "0 < n" "n \<le> length buf"
  shows "\<exists>b'. read_line b junk buf n (int (line_start k t)) =
      Some (length (cut_line n k t), int (line_start (Suc k) t), cut_line n k t @ 10 # drop (length (cut_line n k t) + 1) buf, b') \<and>
    byte_text b' t \<and> kept b b' \<and> tracked b' = tracked b"
proof -
  note d = byte_textD [OF assms(1)]
  let ?p = "line_start k t"
  define cs where "cs = take (n - 1) (map uint (nth_line k t))"
  obtain b' where b': "eb_get_line b junk (n - 1) (int ?p) = Some (cs, int (line_start (Suc k) t), b')" "same_doc b b'"
  proof -
    have e: "min (?p + line_rest (drop ?p t) + 1) (length t) = line_start (Suc k) t"
      by (simp only: line_start_Suc line_rest_def nth_line_def)
    then show thesis
      using that eb_get_line_8bit [OF d(1,5,6), of ?p junk "n - 1"] line_start_le [of k t]
      unfolding d(2) e cs_def nth_line_def by blast
  qed
  have u: "ucast = (\<lambda>c :: u8. word_of_int (uint c) :: u32)" by (rule ext) (rule ucast_eq)
  have "map word_of_int cs = cut_line n k t"
    by (simp only: cs_def cut_line_def chars_def take_map map_map comp_def u)
  moreover have "length cs = length (cut_line n k t)" using calculation by (metis length_map)
  moreover have "length (cut_line n k t) < length buf" using assms(2,3) by (simp add: cut_line_def chars_def)
  ultimately show ?thesis
    using b'(1) assms(2) byte_text_same_doc [OF assms(1) b'(2)] by (auto simp: read_line_def Let_def)
qed

section \<open>Colours from the beginning\<close>

definition color_line :: "colorize_func \<Rightarrow> nat \<Rightarrow> u32 list \<Rightarrow> (u32 list \<times> nat) option" where
  "color_line f st l = map_option (\<lambda>(a, st). (take (length l) a, st)) (f (l @ [10]) (length l) st)"

fun line_state :: "colorize_func \<Rightarrow> nat \<Rightarrow> u8 list \<Rightarrow> nat \<Rightarrow> nat option" where
  "line_state f n t 0 = Some 0"
| "line_state f n t (Suc k) = do {
     st \<leftarrow> line_state f n t k;
     (l, st) \<leftarrow> color_line f st (cut_line n k t);
     Some st }"

lemma line_state_prefix: "k \<le> count_list d 10 \<Longrightarrow> line_state f n (d @ r) k = line_state f n d k"
  by (induction k) (simp_all add: cut_line_def nth_line_prefix)

lemma line_state_same:
  assumes "take m t = take m t'" "k \<le> count_list (take m t) 10"
  shows "line_state f n t k = line_state f n t' k"
  using line_state_prefix [OF assms(2), of f n "drop m t"] line_state_prefix [of k "take m t'" f n "drop m t'"] assms
  by (metis append_take_drop_id)

text \<open>The states that are valid when the lines behind the first change are left out.\<close>

definition valid_to :: "Colors \<Rightarrow> u8 list \<Rightarrow> nat" where
  "valid_to e t = (if colorize_max_valid_offset e = MAXINT then colorize_nb_valid_lines e
     else min (colorize_nb_valid_lines e) (count_list (take (nat (colorize_max_valid_offset e)) t) 10 + 1))"

definition has_states :: "colorize_func \<Rightarrow> nat \<Rightarrow> Colors \<Rightarrow> u8 list \<Rightarrow> nat \<Rightarrow> bool" where
  "has_states f n e t m \<longleftrightarrow> m \<le> length (colorize_states e) \<and> (\<forall>k < m. colorize_states e ! k = line_state f n t k)"

definition colors_ok :: "colorize_func \<Rightarrow> nat \<Rightarrow> Colors \<Rightarrow> u8 list \<Rightarrow> bool" where
  "colors_ok f n e t \<longleftrightarrow> colorize_nb_lines e \<le> length (colorize_states e) \<and>
     (colorize_max_valid_offset e = MAXINT \<or>
       0 \<le> colorize_max_valid_offset e \<and> colorize_max_valid_offset e \<le> int (length t)) \<and>
     has_states f n e t (valid_to e t)"

lemma colors_ok_start: "colors_ok f n set_colorize_func t"
  by (simp add: colors_ok_def set_colorize_func_def has_states_def valid_to_def)

lemma count_take_mono: "p \<le> m \<Longrightarrow> count_list (take p t) x \<le> count_list (take m t) x"
  by (metis count_list_append le_add1 take_add le_add_diff_inverse)

lemma has_states_mono: "has_states f n e t m \<Longrightarrow> k \<le> m \<Longrightarrow> has_states f n e t k"
  by (auto simp: has_states_def)

lemma colors_ok_edit:
  assumes "colors_ok f n e t" "take p t = take p t'" "p \<le> length t" "p \<le> length t'" "int p < MAXINT"
  shows "colors_ok f n (colorize_callback (int p) e) t'"
proof -
  define q where "q = nat (min (colorize_max_valid_offset e) (int p))"
  let ?e = "colorize_callback (int p) e"
  have m: "0 \<le> colorize_max_valid_offset e" using assms(1) by (auto simp: colors_ok_def MAXINT_def)
  then have q: "colorize_max_valid_offset ?e = int q" "q \<le> p" "int q < MAXINT"
    using assms(5) by (auto simp: q_def colorize_callback_def)
  have same: "take q t = take q t'" using arg_cong [OF assms(2), of "take q"] q(2) by (simp add: min_absorb1)
  have to: "valid_to ?e t' = min (colorize_nb_valid_lines e) (count_list (take q t) 10 + 1)"
    using q(1,3) same by (simp add: valid_to_def colorize_callback_def)
  have "valid_to ?e t' \<le> valid_to e t"
  proof (cases "colorize_max_valid_offset e = MAXINT")
    case False
    have "q \<le> nat (colorize_max_valid_offset e)" by (simp add: q_def)
    then show ?thesis
      using False count_take_mono [of q "nat (colorize_max_valid_offset e)" t 10] unfolding to by (simp add: valid_to_def)
  qed (simp only: to, simp add: valid_to_def)
  then have h: "has_states f n e t (valid_to ?e t')"
    using assms(1) has_states_mono unfolding colors_ok_def by blast
  have "line_state f n t k = line_state f n t' k" if "k < valid_to ?e t'" for k
    using line_state_same [OF same, of k] that by (simp add: to)
  then have "has_states f n ?e t' (valid_to ?e t')"
  proof -
    have "colorize_states ?e = colorize_states e" by (simp add: colorize_callback_def)
    with h show ?thesis using \<open>\<And>k. k < valid_to ?e t' \<Longrightarrow> line_state f n t k = line_state f n t' k\<close>
      by (auto simp: has_states_def)
  qed
  then show ?thesis using assms(1,4) q by (auto simp: colors_ok_def colorize_callback_def)
qed

section \<open>The contract of a colorizer\<close>

locale colorizer =
  fixes f :: colorize_func and ok :: "nat \<Rightarrow> u32 list \<Rightarrow> bool" and states :: nat
  assumes states: "0 < states" "states \<le> 256"
    and line_only: "ok st l \<Longrightarrow> st < states \<Longrightarrow>
      \<exists>l' st'. st' < states \<and> length l' = length l \<and> (\<forall>rest. f (l @ 10 # rest) (length l) st = Some (l' @ 10 # rest, st'))"

definition lines_ok :: "colorize_func \<Rightarrow> (nat \<Rightarrow> u32 list \<Rightarrow> bool) \<Rightarrow> nat \<Rightarrow> u8 list \<Rightarrow> bool" where
  "lines_ok f ok n t \<longleftrightarrow> (\<forall>k \<le> count_list t 10. \<forall>st. line_state f n t k = Some st \<longrightarrow> ok st (cut_line n k t))"

context colorizer
begin

lemma colored_alike:
  assumes "ok st l" "st < states"
  obtains l' st' where "color_line f st l = Some (l', st')" "st' < states" "length l' = length l"
    "\<And>rest. f (l @ 10 # rest) (length l) st = Some (l' @ 10 # rest, st')"
proof -
  obtain l' st' where l': "st' < states" "length l' = length l"
    "\<And>rest. f (l @ 10 # rest) (length l) st = Some (l' @ 10 # rest, st')"
    using line_only [OF assms] by blast
  have "color_line f st l = Some (l', st')" using l'(2) l'(3) [of "[]"] by (simp add: color_line_def)
  then show thesis using that l' by blast
qed

lemma state_defined:
  assumes "lines_ok f ok n t"
  shows "k \<le> count_list t 10 + 1 \<Longrightarrow> \<exists>st < states. line_state f n t k = Some st"
proof (induction k)
  case (Suc k)
  then obtain st where st: "st < states" "line_state f n t k = Some st" by auto
  then have "ok st (cut_line n k t)" using assms Suc.prems by (simp add: lines_ok_def)
  then obtain l' st' where "color_line f st (cut_line n k t) = Some (l', st')" "st' < states"
    using colored_alike st(1) by metis
  then show ?case using st(2) by simp
qed (simp add: states)

lemma propagate_states:
  assumes "lines_ok f ok n t" "byte_text b t" "0 < n" "n \<le> length buf"
    "l + m \<le> count_list t 10 + 1" "0 < l" "line_state f n t (l - 1) = Some st" "st < states"
    "has_states f n e t l" "l + m \<le> length (colorize_states e)"
  shows "\<exists>buf' b' e'. propagate f junk b e buf n (int (line_start (l - 1) t)) st l m = Some (buf', b', e') \<and>
    length buf' = length buf \<and> byte_text b' t \<and> kept b b' \<and> tracked b' = tracked b \<and> has_states f n e' t (l + m) \<and>
    length (colorize_states e') = length (colorize_states e) \<and> colorize_nb_lines e' = colorize_nb_lines e \<and>
    colorize_max_valid_offset e' = colorize_max_valid_offset e"
  using assms(2-)
proof (induction m arbitrary: b buf l st e)
  case (Suc m)
  let ?l = "cut_line n (l - 1) t"
  obtain b1 where b1: "read_line b junk buf n (int (line_start (l - 1) t)) =
      Some (length ?l, int (line_start l t), ?l @ 10 # drop (length ?l + 1) buf, b1)"
    "byte_text b1 t" "kept b b1" "tracked b1 = tracked b"
    using read_line_text [OF Suc.prems(1,2,3), of junk "l - 1"] Suc.prems(5) by auto
  have len: "length ?l < length buf" using Suc.prems(2,3) by (simp add: cut_line_def chars_def)
  have "ok st ?l" using assms(1) Suc.prems(4,6) by (simp add: lines_ok_def)
  then obtain l' st' where l': "color_line f st ?l = Some (l', st')" "st' < states" "length l' = length ?l"
    "\<And>rest. f (?l @ 10 # rest) (length ?l) st = Some (l' @ 10 # rest, st')"
    using colored_alike Suc.prems(7) by metis
  let ?buf = "l' @ 10 # drop (length ?l + 1) buf"
  let ?e = "e\<lparr>colorize_states := (colorize_states e)[l := Some st']\<rparr>"
  have st: "line_state f n t l = Some st'" using Suc.prems(5,6) l'(1) by (cases l) auto
  have lb: "length ?buf = length buf" using l'(3) len by simp
  have set: "set_state e l st' = Some ?e" using l'(2) states Suc.prems(9) by (simp add: set_state_def)
  have h: "has_states f n ?e t (Suc l)"
    using Suc.prems(8,9) st by (auto simp: has_states_def nth_list_update less_Suc_eq)
  obtain buf' b' e' where r: "propagate f junk b1 ?e ?buf n (int (line_start (Suc l - 1) t)) st' (Suc l) m = Some (buf', b', e')"
    "length buf' = length ?buf" "byte_text b' t" "kept b1 b'" "tracked b' = tracked b1" "has_states f n e' t (Suc l + m)"
    "length (colorize_states e') = length (colorize_states ?e)" "colorize_nb_lines e' = colorize_nb_lines ?e"
    "colorize_max_valid_offset e' = colorize_max_valid_offset ?e"
  proof -
    have "n \<le> length ?buf" "Suc l + m \<le> count_list t 10 + 1" "line_state f n t (Suc l - 1) = Some st'"
      "Suc l + m \<le> length (colorize_states ?e)"
      using lb Suc.prems(3,4,9) st by simp_all
    from Suc.IH [OF b1(2) Suc.prems(2) this(1,2) _ this(3) l'(2) h this(4)] show thesis using that by blast
  qed
  have "propagate f junk b e buf n (int (line_start (l - 1) t)) st l (Suc m) = Some (buf', b', e')"
    using b1(1) l'(4) set r(1) by simp
  then show ?case using r(2,3,5-9) b1(4) lb kept_trans [OF b1(3) r(4)] by simp
qed simp

lemma fill_states_text:
  assumes "lines_ok f ok n t" "byte_text b t" "0 < n" "n \<le> length buf" "k \<le> count_list t 10"
    "has_states f n e t (colorize_nb_valid_lines e)" "k + 2 \<le> length (colorize_states e)"
  shows "\<exists>buf' b' e'. fill_states f junk b e buf n k = Some (buf', b', e') \<and> length buf' = length buf \<and>
    byte_text b' t \<and> kept b b' \<and> tracked b' = tracked b \<and> has_states f n e' t (k + 1) \<and>
    length (colorize_states e') = length (colorize_states e) \<and> colorize_nb_lines e' = colorize_nb_lines e \<and>
    colorize_max_valid_offset e' = colorize_max_valid_offset e"
proof (cases "k \<ge> colorize_nb_valid_lines e")
  case False
  then show ?thesis
    using assms(2) has_states_mono [OF assms(6), of "k + 1"] by (simp add: fill_states_def)
next
  case True
  define e1 where "e1 = (if colorize_nb_valid_lines e = 0
    then e\<lparr>colorize_states := (colorize_states e)[0 := Some 0], colorize_nb_valid_lines := 1\<rparr> else e)"
  have e1: "(if colorize_nb_valid_lines e = 0
      then do { e \<leftarrow> set_state e 0 0; Some (e\<lparr>colorize_nb_valid_lines := 1\<rparr>) } else Some e) = Some e1"
    "0 < colorize_nb_valid_lines e1" "colorize_nb_valid_lines e1 \<le> k + 1"
    "has_states f n e1 t (colorize_nb_valid_lines e1)" "length (colorize_states e1) = length (colorize_states e)"
    "colorize_nb_lines e1 = colorize_nb_lines e" "colorize_max_valid_offset e1 = colorize_max_valid_offset e"
  proof -
    obtain x xs where "colorize_states e = x # xs" using assms(7) by (cases "colorize_states e") auto
    then show "(if colorize_nb_valid_lines e = 0
      then do { e \<leftarrow> set_state e 0 0; Some (e\<lparr>colorize_nb_valid_lines := 1\<rparr>) } else Some e) = Some e1"
      "0 < colorize_nb_valid_lines e1" "colorize_nb_valid_lines e1 \<le> k + 1"
      "has_states f n e1 t (colorize_nb_valid_lines e1)" "length (colorize_states e1) = length (colorize_states e)"
      "colorize_nb_lines e1 = colorize_nb_lines e" "colorize_max_valid_offset e1 = colorize_max_valid_offset e"
      using assms(6) True by (auto simp: e1_def set_state_def has_states_def guard_def)
  qed
  let ?l = "colorize_nb_valid_lines e1"
  obtain b1 where b1: "eb_goto_pos b junk (?l - 1) 0 = Some (int (line_start (?l - 1) t), b1)" "byte_text b1 t" "kept b b1"
    "tracked b1 = tracked b"
    using byte_text_goto_line [OF assms(2)] by blast
  obtain st where st: "st < states" "line_state f n t (?l - 1) = Some st"
  proof -
    have "?l - 1 \<le> count_list t 10 + 1" using e1(3) assms(5) by linarith
    then show thesis using that state_defined [OF assms(1)] by blast
  qed
  have "?l - 1 < length (colorize_states e1)" using e1(2,4) unfolding has_states_def by linarith
  then have get: "get_state e1 (?l - 1) = Some st" using st e1(2,4) by (simp add: get_state_def has_states_def)
  obtain buf' b' e' where r: "propagate f junk b1 e1 buf n (int (line_start (?l - 1) t)) st ?l (k + 1 - ?l) = Some (buf', b', e')"
    "length buf' = length buf" "byte_text b' t" "kept b1 b'" "tracked b' = tracked b1" "has_states f n e' t (?l + (k + 1 - ?l))"
    "length (colorize_states e') = length (colorize_states e1)" "colorize_nb_lines e' = colorize_nb_lines e1"
    "colorize_max_valid_offset e' = colorize_max_valid_offset e1"
    using propagate_states [OF assms(1) b1(2) assms(3,4) _ e1(2) st(2,1) e1(4), of "k + 1 - ?l" junk] e1(3,5) assms(5,7) by auto
  have "fill_states f junk b e buf n k = Some (buf', b', e')"
    using True e1(1) b1(1) get r(1) by (simp add: fill_states_def)
  then show ?thesis using r e1 b1(4) kept_trans [OF b1(3) r(4)] by simp
qed

lemma check_cache_text:
  assumes "byte_text b t" "colors_ok f n e t"
  shows "\<exists>b' e'. check_cache b e = Some (b', e') \<and> byte_text b' t \<and> kept b b' \<and> tracked b' = tracked b \<and>
    colorize_max_valid_offset e' = MAXINT \<and> has_states f n e' t (colorize_nb_valid_lines e') \<and>
    colorize_nb_lines e' = colorize_nb_lines e \<and> colorize_states e' = colorize_states e"
proof (cases "colorize_max_valid_offset e = MAXINT")
  case True
  then show ?thesis using assms by (simp add: check_cache_def colors_ok_def valid_to_def kept_def)
next
  case False
  let ?p = "nat (colorize_max_valid_offset e)"
  have p: "0 \<le> colorize_max_valid_offset e" "?p \<le> length t" using False assms(2) by (auto simp: colors_ok_def)
  obtain b' where b': "eb_get_pos b ?p = (line_col (take ?p t), b')" "byte_text b' t" "kept b b'" "tracked b' = tracked b"
    using byte_text_get_pos [OF assms(1) p(2)] by blast
  let ?e = "e\<lparr>colorize_nb_valid_lines := valid_to e t, colorize_max_valid_offset := MAXINT\<rparr>"
  have "check_cache b e = Some (b', ?e)"
    using False p(1) b'(1) by (simp add: check_cache_def line_col_def valid_to_def min_def)
  moreover have "has_states f n ?e t (valid_to e t)" using assms(2) by (simp add: colors_ok_def has_states_def)
  ultimately show ?thesis using b' by simp
qed

lemma grow_states_text:
  assumes "has_states f n e t (colorize_nb_valid_lines e)" "colorize_nb_lines e \<le> length (colorize_states e)"
  shows "\<exists>e'. grow_states True k e = (True, e') \<and> k + 2 \<le> length (colorize_states e') \<and>
    colorize_nb_lines e' \<le> length (colorize_states e') \<and> has_states f n e' t (colorize_nb_valid_lines e') \<and>
    colorize_max_valid_offset e' = colorize_max_valid_offset e"
proof (cases "k + 2 > colorize_nb_lines e")
  case True
  let ?n = "k + 2 + COLORIZED_LINE_PREALLOC_SIZE"
  let ?e = "e\<lparr>colorize_nb_lines := ?n,
    colorize_states := colorize_states e @ replicate (?n - length (colorize_states e)) None\<rparr>"
  have "grow_states True k e = (True, ?e)" using True by (simp add: grow_states_def Let_def)
  moreover have "has_states f n ?e t (colorize_nb_valid_lines ?e)"
    using assms(1) by (auto simp: has_states_def nth_append)
  moreover have "?n \<le> length (colorize_states ?e)" by simp
  ultimately show ?thesis by (intro exI [of _ ?e]) auto
next
  case False
  then show ?thesis using assms by (simp add: grow_states_def)
qed

text \<open>One query: the colours are those from the beginning, and the cache stays right.\<close>

lemma query_line:
  assumes "lines_ok f ok n t" "byte_text b t" "0 < n" "n \<le> length buf" "k \<le> count_list t 10" "colors_ok f n e t"
  shows "\<exists>st l' st' rest b' e'. line_state f n t k = Some st \<and> color_line f st (cut_line n k t) = Some (l', st') \<and>
    length l' = length (cut_line n k t) \<and>
    get_colorized_line f True junk b e buf n (int (line_start k t)) k = Some (length l', l' @ 10 # rest, b', e') \<and>
    length (l' @ 10 # rest) = length buf \<and> byte_text b' t \<and> kept b b' \<and> tracked b' = tracked b \<and> colors_ok f n e' t"
proof -
  obtain b1 e1 where e1: "check_cache b e = Some (b1, e1)" "byte_text b1 t" "kept b b1" "tracked b1 = tracked b"
    "colorize_max_valid_offset e1 = MAXINT" "has_states f n e1 t (colorize_nb_valid_lines e1)"
    "colorize_nb_lines e1 = colorize_nb_lines e" "colorize_states e1 = colorize_states e"
    using check_cache_text [OF assms(2,6)] by blast
  obtain e2 where e2: "grow_states True k e1 = (True, e2)" "k + 2 \<le> length (colorize_states e2)"
    "colorize_nb_lines e2 \<le> length (colorize_states e2)" "has_states f n e2 t (colorize_nb_valid_lines e2)"
    "colorize_max_valid_offset e2 = MAXINT"
    using grow_states_text [OF e1(6), of k] e1(5,7,8) assms(6) by (auto simp: colors_ok_def)
  obtain buf3 b3 e3 where e3: "fill_states f junk b1 e2 buf n k = Some (buf3, b3, e3)" "length buf3 = length buf"
    "byte_text b3 t" "kept b1 b3" "tracked b3 = tracked b1" "has_states f n e3 t (k + 1)"
    "length (colorize_states e3) = length (colorize_states e2)" "colorize_nb_lines e3 = colorize_nb_lines e2"
    "colorize_max_valid_offset e3 = colorize_max_valid_offset e2"
    using fill_states_text [OF assms(1) e1(2) assms(3,4,5) e2(4,2)] by blast
  let ?l = "cut_line n k t"
  obtain b4 where b4: "read_line b3 junk buf3 n (int (line_start k t)) =
      Some (length ?l, int (line_start (Suc k) t), ?l @ 10 # drop (length ?l + 1) buf3, b4)"
    "byte_text b4 t" "kept b3 b4" "tracked b4 = tracked b3"
    using read_line_text [OF e3(3) assms(3), of buf3 junk k] assms(4) e3(2) by auto
  obtain st where st: "st < states" "line_state f n t k = Some st" using state_defined [OF assms(1), of k] assms(5) by auto
  then have get: "get_state e3 k = Some st" using e3(6,7) e2(2) by (simp add: get_state_def has_states_def)
  have "ok st ?l" using assms(1,5) st(2) by (simp add: lines_ok_def)
  then obtain l' st' where l': "color_line f st ?l = Some (l', st')" "st' < states" "length l' = length ?l"
    "\<And>rest. f (?l @ 10 # rest) (length ?l) st = Some (l' @ 10 # rest, st')"
    using colored_alike st(1) by metis
  let ?e = "e3\<lparr>colorize_states := (colorize_states e3)[k + 1 := Some st'], colorize_nb_valid_lines := k + 2\<rparr>"
  let ?rest = "drop (length ?l + 1) buf3"
  have set: "set_state e3 (k + 1) st' = Some (e3\<lparr>colorize_states := (colorize_states e3)[k + 1 := Some st']\<rparr>)"
    using l'(2) states e3(7) e2(2) by (simp add: set_state_def)
  have "get_colorized_line f True junk b e buf n (int (line_start k t)) k = Some (length l', l' @ 10 # ?rest, b4, ?e)"
    using e1(1) e2(1) e3(1) b4(1) get l'(3,4) set by (simp add: get_colorized_line_def)
  moreover have "length (l' @ 10 # ?rest) = length buf"
    using l'(3) e3(2) assms(3,4) by (simp add: cut_line_def chars_def)
  moreover have "colors_ok f n ?e t"
    using e3(6-9) e2(2,3,5) st(2) l'(1) by (auto simp: colors_ok_def valid_to_def has_states_def nth_list_update less_Suc_eq)
  ultimately show ?thesis
    using st(2) l'(1,3) b4(2,4) e3(5) e1(4) kept_trans [OF e1(3) kept_trans [OF e3(4) b4(3)]] by auto
qed

end

section \<open>Edits and queries\<close>

lemma byte_text_undo:
  assumes "byte_text b t" "refines b' a" "do_undo b again s = Some b'"
  shows "byte_text b' (a_text a)"
proof -
  have "cached b'"
    by (rule cached_all [OF _ byte_textD(4) [OF assms(1)]]) (rule page_pred.do_undo_all [OF _ assms(3)])
  moreover have "view b' = view b"
    by (rule any_page.do_undo_all [OF assms(3) all_True, THEN conjunct2])
  ultimately show ?thesis
    using byte_textI [OF assms(1,2)] by blast
qed

text \<open>
  A buffer and the cache of a window on it, after edits, each with its callback, undos of a log that fits the text (as
  every session leaves it), and queries into arrays of \<open>n\<close> entries. The last argument is the text. \<open>eb_write\<close> calls the
  callback for the part that overwrites and for the part that appends; for an undo the callback with the smallest offset
  is what counts.
\<close>

definition write_callbacks :: "u8 list \<Rightarrow> nat \<Rightarrow> u8 list \<Rightarrow> Colors \<Rightarrow> Colors" where
  "write_callbacks t p bs e =
    (let len = min (length bs) (length t - p);
         e = (if 0 < len then colorize_callback (int p) e else e)
     in if 0 < length bs - len then colorize_callback (int (p + len)) e else e)"

definition undo_callbacks :: "EditBuffer \<Rightarrow> bool \<Rightarrow> Colors \<Rightarrow> Colors" where
  "undo_callbacks b again e = (case undo_offset b again of None \<Rightarrow> e | Some p \<Rightarrow> colorize_callback p e)"

inductive colored :: "colorize_func \<Rightarrow> (nat \<Rightarrow> u32 list \<Rightarrow> bool) \<Rightarrow> nat \<Rightarrow> EditBuffer \<Rightarrow> Colors \<Rightarrow> u8 list \<Rightarrow> bool"
  for f ok n where
  start: "byte_text b t \<Longrightarrow> length t < 2147483647 \<Longrightarrow> colored f ok n b set_colorize_func t"
| insert: "colored f ok n b e t \<Longrightarrow> p \<le> length t \<Longrightarrow> length t + length bs < 2147483647 \<Longrightarrow> eb_insert b p bs = Some b' \<Longrightarrow>
    colored f ok n b' (colorize_callback (int p) e) (list_insert p bs t)"
| delete: "colored f ok n b e t \<Longrightarrow> p + m \<le> length t \<Longrightarrow> eb_delete b p m = Some b' \<Longrightarrow>
    colored f ok n b' (colorize_callback (int p) e) (list_delete p m t)"
| overwrite: "colored f ok n b e t \<Longrightarrow> p \<le> length t \<Longrightarrow> length t + length bs < 2147483647 \<Longrightarrow> eb_write b p bs = Some b' \<Longrightarrow>
    colored f ok n b' (write_callbacks t p bs e) (list_write p bs t)"
| undo: "colored f ok n b e t \<Longrightarrow> log_inv b again \<Longrightarrow> do_undo b again s = Some b' \<Longrightarrow> total_size b' < 2147483647 \<Longrightarrow>
    colored f ok n b' (undo_callbacks b again e) (contents b')"
| query: "colored f ok n b e t \<Longrightarrow> lines_ok f ok n t \<Longrightarrow> n \<le> length buf \<Longrightarrow> k \<le> count_list t 10 \<Longrightarrow>
    get_colorized_line f True junk b e buf n (int (line_start k t)) k = Some (len, buf', b', e') \<Longrightarrow>
    colored f ok n b' e' t"

context colorizer
begin

lemma colored_invariant:
  assumes "colored f ok n b e t" "0 < n"
  shows "byte_text b t \<and> colors_ok f n e t \<and> length t < 2147483647"
  using assms
proof (induction rule: colored.induct)
  case (insert b e t p bs b')
  have "byte_text b' (list_insert p bs t)"
    using byte_text_insert [of b t p bs] insert by auto
  moreover have "take p t = take p (list_insert p bs t)" using insert.hyps(2) by (simp add: list_insert_def)
  then have "colors_ok f n (colorize_callback (int p) e) (list_insert p bs t)"
    using colors_ok_edit [of f n e t p] insert by (simp add: MAXINT_def)
  ultimately show ?case using insert.hyps(2,3) by simp
next
  case (delete b e t p m b')
  have "byte_text b' (list_delete p m t)"
    using byte_text_delete [of b t p m] delete by auto
  moreover have "take p t = take p (list_delete p m t)" using delete.hyps(2) by (simp add: list_delete_def)
  then have "colors_ok f n (colorize_callback (int p) e) (list_delete p m t)"
    using colors_ok_edit [of f n e t p] delete by (simp add: MAXINT_def)
  moreover have "length (list_delete p m t) \<le> length t" using delete.hyps(2) by (simp add: list_delete_def)
  then have "length (list_delete p m t) < 2147483647" using delete by linarith
  ultimately show ?case by blast
next
  case (overwrite b e t p bs b')
  let ?len = "min (length bs) (length t - p)"
  have l: "p + ?len \<le> length (list_write p bs t)" "p + length bs < 2147483647"
    using overwrite.hyps(2,3) by (auto simp: list_write_def)
  have b': "byte_text b' (list_write p bs t)"
    using byte_text_overwrite [of b t p bs] overwrite by auto
  have "colors_ok f n (if 0 < ?len then colorize_callback (int p) e else e) (list_write p bs t)"
    if "0 < ?len \<or> list_write p bs t = t"
    using colors_ok_edit [of f n e t p "list_write p bs t"] overwrite that l by (auto simp: MAXINT_def list_write_def)
  moreover have "colors_ok f n (colorize_callback (int p) e) (list_write p bs t)"
    using colors_ok_edit [of f n e t p "list_write p bs t"] overwrite l by (auto simp: MAXINT_def list_write_def)
  ultimately have "colors_ok f n (write_callbacks t p bs e) (list_write p bs t)"
    using colors_ok_edit [of f n _ "list_write p bs t" "p + ?len" "list_write p bs t", OF _ refl] l
    by (auto simp: write_callbacks_def Let_def MAXINT_def list_write_def)
  then show ?case
    using b' overwrite.hyps(2,3) by (auto simp: list_write_def)
next
  case (undo b e t again s b')
  then have t: "byte_text b t" "colors_ok f n e t" "length t < 2147483647"
    by simp_all
  obtain a where a: "refines b a" "undo_inv a again"
    using log_invE [OF undo.hyps(2)] .
  have at: "a_text a = t"
    using refinesD(4) [OF a(1)] byte_textD(2) [OF t(1)] by simp
  have r: "refines b' (a_undo a again s)"
    using undo_refines [OF a] undo.hyps(3) by (metis option.inject)
  then have c: "contents b' = a_text (a_undo a again s)" "total_size b' = length (contents b')"
    using refinesD(3,4) by simp_all
  have "byte_text b' (contents b')"
    using byte_text_undo [OF t(1) r undo.hyps(3)] c(1) by simp
  moreover have "colors_ok f n (undo_callbacks b again e) (contents b')"
  proof (cases "undo_offset b again")
    case None
    then show ?thesis
      using undo_before_offset [OF a, of s] t(2) by (simp add: undo_callbacks_def at c(1))
  next
    case (Some p)
    with undo_before_offset [OF a, of s] have "0 \<le> p" "nat p \<le> length t" "nat p \<le> length (contents b')"
      "take (nat p) t = take (nat p) (contents b')"
      by (simp_all add: at c(1))
    then show ?thesis
      using colors_ok_edit [OF t(2), of "nat p" "contents b'"] t(3) Some by (simp add: undo_callbacks_def MAXINT_def)
  qed
  ultimately show ?case
    using c(2) undo.hyps(4) by simp
next
  case (query b e t buf k junk len buf' b' e')
  then show ?case
    using query_line [of n t b buf k e junk] by fastforce
qed (simp add: colors_ok_start)

lemma colored_query:
  assumes "colored f ok n b e t" "0 < n" "lines_ok f ok n t" "n \<le> length buf" "k \<le> count_list t 10"
  shows "\<exists>st l' st' rest b' e'. line_state f n t k = Some st \<and> color_line f st (cut_line n k t) = Some (l', st') \<and>
    get_colorized_line f True junk b e buf n (int (line_start k t)) k = Some (length l', l' @ 10 # rest, b', e')"
  using query_line [OF assms(3) _ assms(2,4,5)] colored_invariant [OF assms(1,2)] by metis

end

end
