(* ===== verification/Language_Modes.thy ===== *)
theory Language_Modes
  imports Colorize "HOL-Library.Sublist"
begin

text \<open>
  The colorizers of \<open>src/clang.c\<close> and \<open>src/pylang.c\<close>. A line is in an array \<open>buf\<close> with a newline at \<open>len\<close>;
  what lies behind it is left over from earlier lines, and reading behind the array has no result.
  \<open>margin\<close> is \<open>g_margin_size\<close> when \<open>g_highlight_over_margin\<close> is set.
\<close>

section \<open>The code\<close>

definition QE_STYLE_MARGIN_HIGHLIGHT :: u32 where "QE_STYLE_MARGIN_HIGHLIGHT = 5"
definition QE_STYLE_COMMENT :: u32 where "QE_STYLE_COMMENT = 8"
definition QE_STYLE_PREPROCESS :: u32 where "QE_STYLE_PREPROCESS = 9"
definition QE_STYLE_STRING :: u32 where "QE_STYLE_STRING = 10"
definition QE_STYLE_KEYWORD :: u32 where "QE_STYLE_KEYWORD = 11"
definition QE_STYLE_FUNCTION :: u32 where "QE_STYLE_FUNCTION = 12"
definition QE_STYLE_VARIABLE :: u32 where "QE_STYLE_VARIABLE = 13"
definition QE_STYLE_TYPE :: u32 where "QE_STYLE_TYPE = 14"

definition c_keywords :: string where
  "c_keywords = ''|auto|break|case|const|continue|do|else|enum|extern|for|goto|'' @
     ''if|register|return|static|struct|switch|typedef|union|volatile|while|'' @
     ''class|private|public|protected|try|except|template|typename|throw|'' @
     ''using|namespace|catch|explicit|virtual|noexcept|operator|new|delete|''"

definition c_types :: string where
  "c_types = ''|char|double|float|int|long|unsigned|short|signed|void|var|'' @
     ''u8|uint8_t|u16|uint16_t|u32|uint32_t|u64|uint64_t|bool|'' @
     ''vector|ordered_map|unordered_map|string|nullptr|''"

definition py_keywords :: string where
  "py_keywords = ''|def|break|continue|do|else|for|elif|try|except|pass|throw|'' @
     ''if|return|while|with|as|''"

definition py_types :: string where
  "py_types = ''|char|double|float|int|long|unsigned|short|signed|void|var|'' @
     ''u8|uint8_t|u16|uint16_t|u32|uint32_t|u64|uint64_t|''"

definition C_COMMENT :: nat where "C_COMMENT = 1"
definition C_STRING :: nat where "C_STRING = 2"
definition C_STRING_Q :: nat where "C_STRING_Q = 3"
definition C_PREPROCESS :: nat where "C_PREPROCESS = 4"
definition C_IF0 :: nat where "C_IF0 = 5"
definition PY_STRING :: nat where "PY_STRING = 2"
definition PY_STRING_Q :: nat where "PY_STRING_Q = 3"

definition ident_start :: "u32 \<Rightarrow> bool" where
  "ident_start c \<longleftrightarrow> (c \<ge> 97 \<and> c \<le> 122) \<or> (c \<ge> 65 \<and> c \<le> 90) \<or> c = 95"

definition ident_char :: "u32 \<Rightarrow> bool" where
  "ident_char c \<longleftrightarrow> ident_start c \<or> (c \<ge> 48 \<and> c \<le> 57)"

text \<open>The word at a pointer, cut to its array, and how far the pointer moves.\<close>

definition get_c_keyword :: "nat \<Rightarrow> u32 list \<Rightarrow> (string \<times> nat) option" where
  "get_c_keyword buf_size p = do {
     guard (p \<noteq> []);
     let w = (if ident_start (hd p) then takeWhile ident_char p else []);
     guard (length w < length p);
     Some (map (\<lambda>c. char_of (unat c)) (take (buf_size - 1) w), length w) }"

definition color_at :: "u32 list \<Rightarrow> nat \<Rightarrow> nat \<Rightarrow> u32 \<Rightarrow> u32 list option" where
  "color_at buf p n style = do {
     guard (p \<le> length buf);
     a \<leftarrow> set_color (drop p buf) n style;
     Some (take p buf @ a) }"

fun until_newline :: "u32 list \<Rightarrow> nat option" where
  "until_newline [] = None"
| "until_newline (c # p) = (if c = 10 then Some 0 else do { n \<leftarrow> until_newline p; Some (n + 1) })"

fun comment_end :: "u32 list \<Rightarrow> (nat \<times> bool) option" where
  "comment_end [] = None"
| "comment_end [c] = (if c = 10 then Some (0, False) else None)"
| "comment_end (c # d # p) =
    (if c = 10 then Some (0, False)
     else if c = 42 \<and> d = 47 then Some (2, True)
     else do { (n, closed) \<leftarrow> comment_end (d # p); Some (n + 1, closed) })"

fun string_end :: "u32 \<Rightarrow> u32 list \<Rightarrow> (nat \<times> bool) option" where
  "string_end q [] = None"
| "string_end q (c # p) =
    (if c = 10 then Some (0, False)
     else if c = 92 then (case p of
         [] \<Rightarrow> None
       | d # p \<Rightarrow> if d = 10 then Some (1, False) else do { (n, closed) \<leftarrow> string_end q p; Some (n + 2, closed) })
     else if c = q then Some (1, True)
     else do { (n, closed) \<leftarrow> string_end q p; Some (n + 1, closed) })"

fun looking_at :: "u32 list \<Rightarrow> u32 list \<Rightarrow> bool option" where
  "looking_at [] p = Some True"
| "looking_at (c # cs) [] = None"
| "looking_at (c # cs) (d # p) = (if c = d then looking_at cs p else Some False)"

definition blanks :: "u32 list \<Rightarrow> nat option" where
  "blanks p = (let n = length (takeWhile (\<lambda>c. c = 32 \<or> c = 9) p) in if n < length p then Some n else None)"

text \<open>The labels \<open>parse_comment\<close>, \<open>parse_string\<close>, \<open>parse_preprocessor\<close> and \<open>parse_disabled_block\<close>.\<close>

definition parse_comment :: "u32 list \<Rightarrow> nat \<Rightarrow> nat \<Rightarrow> (u32 list \<times> nat \<times> nat) option" where
  "parse_comment buf p_start p = do {
     (n, closed) \<leftarrow> comment_end (drop p buf);
     buf \<leftarrow> color_at buf p_start (p + n - p_start) QE_STYLE_COMMENT;
     Some (buf, p + n, if closed then 0 else C_COMMENT) }"

definition parse_string :: "u32 list \<Rightarrow> nat \<Rightarrow> nat \<Rightarrow> nat \<Rightarrow> (u32 list \<times> nat \<times> nat) option" where
  "parse_string buf p_start p st = do {
     (n, closed) \<leftarrow> string_end (if st = C_STRING_Q then 39 else 34) (drop p buf);
     buf \<leftarrow> color_at buf p_start (p + n - p_start) QE_STYLE_STRING;
     Some (buf, p + n, if closed then 0 else st) }"

definition parse_preprocessor :: "u32 list \<Rightarrow> nat \<Rightarrow> nat \<Rightarrow> (u32 list \<times> nat) option" where
  "parse_preprocessor buf len p_start = do {
     buf \<leftarrow> color_at buf p_start (len - p_start) QE_STYLE_PREPROCESS;
     Some (buf, if len > 0 \<and> buf ! (len - 1) AND CHAR_MASK = 92 then C_PREPROCESS else 0) }"

definition parse_disabled_block :: "u32 list \<Rightarrow> nat \<Rightarrow> (u32 list \<times> nat) option" where
  "parse_disabled_block buf len = do {
     let p = drop 1 buf;
     endif \<leftarrow> looking_at [101, 110, 100, 105, 102] p;
     if endif then do { buf \<leftarrow> color_at buf 0 len QE_STYLE_COMMENT; Some (buf, 0) }
     else do {
       el \<leftarrow> looking_at [101, 108] p;
       if el then do {
         elif \<leftarrow> looking_at [105, 102] (drop 2 p);
         else' \<leftarrow> (if elif then Some True else looking_at [115, 101] (drop 2 p));
         if else' then do { buf \<leftarrow> color_at buf 0 len QE_STYLE_COMMENT; Some (buf, 0) }
         else parse_preprocessor buf len 0 }
       else do { buf \<leftarrow> color_at buf 0 len QE_STYLE_COMMENT; Some (buf, C_IF0) } } }"

text \<open>A word; \<open>always\<close> says that every other word counts as declared, not only one in the first column.\<close>

definition color_word ::
    "string \<Rightarrow> string \<Rightarrow> bool \<Rightarrow> u32 list \<Rightarrow> nat \<Rightarrow> bool \<Rightarrow> (u32 list \<times> nat \<times> bool) option" where
  "color_word keywords types always buf p_start type_decl = do {
     (w, n) \<leftarrow> get_c_keyword 30 (drop p_start buf);
     let kbuf = ''|'' @ w @ ''|'';
     let p1 = p_start + n;
     if sublist kbuf keywords
     then do { buf \<leftarrow> color_at buf p_start n QE_STYLE_KEYWORD; Some (buf, p1, type_decl) }
     else if sublist kbuf types
     then do {
       k \<leftarrow> blanks (drop p1 buf);
       let type_decl = (if buf ! (p1 + k) \<noteq> 41 then True else type_decl);
       buf \<leftarrow> color_at buf p_start n QE_STYLE_TYPE;
       Some (buf, p1 + k, type_decl) }
     else if type_decl \<or> always \<or> p_start = 0
     then do {
       k \<leftarrow> blanks (drop p1 buf);
       buf \<leftarrow> color_at buf p_start n (if buf ! (p1 + k) = 40 then QE_STYLE_FUNCTION
         else if p_start = 0 then QE_STYLE_TYPE else QE_STYLE_VARIABLE);
       Some (buf, p1 + k, True) }
     else Some (buf, p1, type_decl) }"

definition color_margin :: "int option \<Rightarrow> u32 list \<Rightarrow> nat \<Rightarrow> u32 list option" where
  "color_margin margin buf len = (case margin of
       None \<Rightarrow> Some buf
     | Some g \<Rightarrow> if int len > g
         then do {
           guard (0 \<le> g \<and> nat g \<le> length buf);
           a \<leftarrow> clear_color (drop (nat g) buf) (len - nat g);
           a \<leftarrow> set_color a (len - nat g) QE_STYLE_MARGIN_HIGHLIGHT;
           Some (take (nat g) buf @ a) }
         else Some buf)"

partial_function (option) c_loop :: "u32 list \<Rightarrow> nat \<Rightarrow> nat \<Rightarrow> nat \<Rightarrow> bool \<Rightarrow> (u32 list \<times> nat) option" where
  "c_loop buf len p st type_decl = do {
     guard (p < length buf);
     let c = buf ! p;
     if c = 10 then Some (buf, st)
     else if c = 47 then do {
       guard (p + 1 < length buf);
       if buf ! (p + 1) = 42 then do {
         (buf, p, st) \<leftarrow> parse_comment buf p (p + 2);
         c_loop buf len p st type_decl }
       else if buf ! (p + 1) = 47 then do {
         n \<leftarrow> until_newline (drop (p + 1) buf);
         buf \<leftarrow> color_at buf p (n + 1) QE_STYLE_COMMENT;
         c_loop buf len (p + 1 + n) st type_decl }
       else c_loop buf len (p + 1) st type_decl }
     else if c = 35 then do {
       if0 \<leftarrow> looking_at [105, 102, 32, 48] (drop (p + 1) buf);
       if if0 then do { buf \<leftarrow> color_at buf p len QE_STYLE_COMMENT; Some (buf, C_IF0) }
       else parse_preprocessor buf len p }
     else if c = 39 \<or> c = 34 then do {
       (buf, p, st) \<leftarrow> parse_string buf p (p + 1) (if c = 39 then C_STRING_Q else C_STRING);
       c_loop buf len p st type_decl }
     else if c = 61 then c_loop buf len (p + 1) st False
     else if ident_start c then do {
       (buf, p, type_decl) \<leftarrow> color_word c_keywords c_types False buf p type_decl;
       c_loop buf len p st type_decl }
     else c_loop buf len (p + 1) st type_decl }"

definition c_colorize_line :: "int option \<Rightarrow> colorize_func" where
  "c_colorize_line margin buf len st = do {
     (buf, st) \<leftarrow> (if st = C_COMMENT then do {
           (buf, p, st) \<leftarrow> parse_comment buf 0 0;
           c_loop buf len p st False }
         else if st = C_STRING \<or> st = C_STRING_Q then do {
           (buf, p, st) \<leftarrow> parse_string buf 0 0 st;
           c_loop buf len p st False }
         else if st = C_PREPROCESS then parse_preprocessor buf len 0
         else if st = C_IF0 then parse_disabled_block buf len
         else c_loop buf len 0 st False);
     buf \<leftarrow> color_margin margin buf len;
     Some (buf, st) }"

partial_function (option) py_loop :: "u32 list \<Rightarrow> nat \<Rightarrow> nat \<Rightarrow> bool \<Rightarrow> (u32 list \<times> nat) option" where
  "py_loop buf p st type_decl = do {
     guard (p < length buf);
     let c = buf ! p;
     if c = 10 then Some (buf, st)
     else if c = 35 then do {
       n \<leftarrow> until_newline (drop p buf);
       buf \<leftarrow> color_at buf p n QE_STYLE_COMMENT;
       py_loop buf (p + n) st type_decl }
     else if c = 39 \<or> c = 34 then do {
       (buf, p, st) \<leftarrow> parse_string buf p (p + 1) (if c = 39 then PY_STRING_Q else PY_STRING);
       py_loop buf p st type_decl }
     else if c = 61 then py_loop buf (p + 1) st False
     else if ident_start c then do {
       (buf, p, type_decl) \<leftarrow> color_word py_keywords py_types True buf p type_decl;
       py_loop buf p st type_decl }
     else py_loop buf (p + 1) st type_decl }"

definition py_colorize_line :: "int option \<Rightarrow> colorize_func" where
  "py_colorize_line margin buf len st = do {
     (buf, st) \<leftarrow> (if st = PY_STRING \<or> st = PY_STRING_Q then do {
           (buf, p, st) \<leftarrow> parse_string buf 0 0 st;
           py_loop buf p st False }
         else py_loop buf 0 st False);
     buf \<leftarrow> color_margin margin buf len;
     Some (buf, st) }"

text \<open>The modes are chosen by the extension of the file.\<close>

definition extension_in :: "string list \<Rightarrow> string \<Rightarrow> int" where
  "extension_in exts name = (case strrchr name CHR ''.'' of
       None \<Rightarrow> 0
     | Some (d, r) \<Rightarrow> if map c_tolower (tl r) \<in> set exts then 100 else 0)"

definition c_mode_probe :: "string \<Rightarrow> int" where
  "c_mode_probe name = extension_in [''c'', ''h'', ''cpp''] name"

definition py_mode_probe :: "string \<Rightarrow> int" where
  "py_mode_probe name = extension_in [''py''] name"

declare c_loop.simps [code] py_loop.simps [code]

end
