(* ===== verification/Indent.thy ===== *)
theory Indent
  imports Language_Modes
begin

text \<open>
  The indentation of \<open>src/clang.c\<close>; \<open>src/pylang.c\<close> has the same functions word for word, with its own
  colorizer. \<open>f\<close> is the colorizer of the window, \<open>ok\<close> the result of \<open>realloc\<close>, and \<open>buf\<close> the local
  array, whose contents are not known at first.
\<close>

section \<open>The code\<close>

definition MAX_BUF_SIZE :: nat where "MAX_BUF_SIZE = 512"
definition MAX_STACK_SIZE :: nat where "MAX_STACK_SIZE = 64"

record CodeWindow =
  cw_s :: EditState
  cw_colors :: Colors
  tab_size :: int
  indent_size :: int
  indent_tabs_mode :: bool

text \<open>The settings accept sizes above 1 only.\<close>

definition do_set_tab_width :: "CodeWindow \<Rightarrow> int \<Rightarrow> CodeWindow" where
  "do_set_tab_width w v = (if v > 1 then w\<lparr>tab_size := v\<rparr> else w)"

definition do_set_indent_width :: "CodeWindow \<Rightarrow> int \<Rightarrow> CodeWindow" where
  "do_set_indent_width w v = (if v > 1 then w\<lparr>indent_size := v\<rparr> else w)"

definition do_set_indent_tabs_mode :: "CodeWindow \<Rightarrow> int \<Rightarrow> CodeWindow" where
  "do_set_indent_tabs_mode w v = w\<lparr>indent_tabs_mode := (v \<noteq> 0)\<rparr>"

abbreviation cw_b :: "CodeWindow \<Rightarrow> EditBuffer" where
  "cw_b w \<equiv> es_b (cw_s w)"

definition with_b :: "CodeWindow \<Rightarrow> EditBuffer \<Rightarrow> CodeWindow" where
  "with_b w b = w\<lparr>cw_s := (cw_s w)\<lparr>es_b := b\<rparr>\<rparr>"

text \<open>Edits call the callback of the colours.\<close>

definition cw_insert :: "CodeWindow \<Rightarrow> int \<Rightarrow> u8 list \<Rightarrow> CodeWindow option" where
  "cw_insert w p bs = do {
     s \<leftarrow> insert_at (cw_s w) p bs;
     Some (w\<lparr>cw_s := s, cw_colors := colorize_callback p (cw_colors w)\<rparr>) }"

definition cw_delete :: "CodeWindow \<Rightarrow> int \<Rightarrow> int \<Rightarrow> CodeWindow option" where
  "cw_delete w p n = do {
     s \<leftarrow> delete_at (cw_s w) p n;
     Some (w\<lparr>cw_s := s, cw_colors := colorize_callback p (cw_colors w)\<rparr>) }"

definition cw_line ::
    "colorize_func \<Rightarrow> bool \<Rightarrow> u8 list \<Rightarrow> CodeWindow \<Rightarrow> u32 list \<Rightarrow> int \<Rightarrow> nat \<Rightarrow> (nat \<times> u32 list \<times> CodeWindow) option" where
  "cw_line f ok junk w buf offset line_num = do {
     (len, buf, b, e) \<leftarrow> get_colorized_line f ok junk (cw_b w) (cw_colors w) buf (MAX_BUF_SIZE - 1) offset line_num;
     Some (len, buf, (with_b w b)\<lparr>cw_colors := e\<rparr>) }"

definition next_stop :: "int \<Rightarrow> int \<Rightarrow> int option" where
  "next_stop ts pos = do { guard (0 < ts); Some (pos + (ts - pos mod ts)) }"

fun find_indent1 :: "int \<Rightarrow> u32 list \<Rightarrow> int \<Rightarrow> int option" where
  "find_indent1 ts [] pos = None"
| "find_indent1 ts (c # p) pos =
    (let c = c AND CHAR_MASK
     in if c = 9 then do { pos \<leftarrow> next_stop ts pos; find_indent1 ts p pos }
        else if c = 32 then find_indent1 ts p (pos + 1)
        else Some pos)"

fun find_pos :: "int \<Rightarrow> u32 list \<Rightarrow> int \<Rightarrow> int option" where
  "find_pos ts [] pos = Some pos"
| "find_pos ts (c # p) pos =
    (if c AND CHAR_MASK = 9 then do { pos \<leftarrow> next_stop ts pos; find_pos ts p pos }
     else find_pos ts p (pos + 1))"

text \<open>\<open>insert_spaces\<close>: the tabs, then the spaces in pieces of at most 64.\<close>

function insert_tabs :: "int \<Rightarrow> CodeWindow \<Rightarrow> int \<Rightarrow> int \<Rightarrow> (CodeWindow \<times> int \<times> int) option" where
  "insert_tabs ts w offset i =
    (if i \<ge> ts
     then if ts \<le> 0 then None
       else (case cw_insert w offset [9] of
           None \<Rightarrow> None
         | Some w \<Rightarrow> insert_tabs ts w (offset + 1) (i - ts))
     else Some (w, offset, i))"
  by pat_completeness auto
termination by (relation "measure (\<lambda>(ts, w, offset, i). nat i)") auto

function insert_blanks :: "CodeWindow \<Rightarrow> int \<Rightarrow> int \<Rightarrow> (CodeWindow \<times> int) option" where
  "insert_blanks w offset i =
    (if i > 0
     then let size = (if i > 64 then 64 else i)
       in (case cw_insert w offset (replicate (nat size) 32) of
           None \<Rightarrow> None
         | Some w \<Rightarrow> insert_blanks w (offset + size) (i - size))
     else Some (w, offset))"
  by pat_completeness auto
termination by (relation "measure (\<lambda>(w, offset, i). nat i)") auto

declare insert_tabs.simps [simp del] insert_blanks.simps [simp del]

definition insert_indent :: "CodeWindow \<Rightarrow> int \<Rightarrow> int \<Rightarrow> (CodeWindow \<times> int) option" where
  "insert_indent w offset i = do {
     (w, offset, i) \<leftarrow> (if indent_tabs_mode w then insert_tabs (tab_size w) w offset i else Some (w, offset, i));
     insert_blanks w offset i }"

text \<open>The search for the beginning of the instruction or block, over the lines before, backwards.\<close>

record Search =
  i_pos :: int
  lpos :: int
  eoi_found :: bool
  stack_ptr :: nat
  find_eq :: bool

datatype found = Prev_line Search | End_parse Search | Give_up

text \<open>The label \<open>check_instr\<close>; \<open>k\<close> continues where the code goes on.\<close>

definition check_instr :: "int \<Rightarrow> Search \<Rightarrow> (Search \<Rightarrow> found option) \<Rightarrow> found option" where
  "check_instr is st k =
    (if lpos st \<ge> 0 then Some (End_parse (st\<lparr>i_pos := lpos st + (if eoi_found st then 0 else is)\<rparr>))
     else k (st\<lparr>eoi_found := True\<rparr>))"

definition push :: "Search \<Rightarrow> Search" where
  "push st = st\<lparr>stack_ptr := stack_ptr st + 1\<rparr>"

definition pop :: "Search \<Rightarrow> Search" where
  "pop st = st\<lparr>stack_ptr := stack_ptr st - 1\<rparr>"

definition style_of :: "u32 \<Rightarrow> u32" where
  "style_of c = drop_bit STYLE_SHIFT c"

definition no_code :: "u32 \<Rightarrow> bool" where
  "no_code c \<longleftrightarrow> style_of c = QE_STYLE_COMMENT \<or> style_of c = QE_STYLE_STRING \<or> style_of c = QE_STYLE_PREPROCESS"

text \<open>
  One line, from its end; the list has the characters in reverse. \<open>keyword_word\<close> is the special case
  for \<open>if\<close>, \<open>for\<close> and \<open>while\<close>: the word that ends at \<open>c\<close> and what comes before it.
\<close>

definition keyword_word :: "u32 \<Rightarrow> u32 list \<Rightarrow> string \<times> u32 list" where
  "keyword_word c before =
    (let n = length (takeWhile (\<lambda>x. style_of x = QE_STYLE_KEYWORD) before)
     in (map (\<lambda>c. char_of (unat (c AND CHAR_MASK))) (take 63 (rev (c # take n before))), drop n before))"

function scan_line :: "int \<Rightarrow> int \<Rightarrow> int \<Rightarrow> u32 list \<Rightarrow> Search \<Rightarrow> found option" where
  "scan_line ts is pos1 [] st = Some (Prev_line st)"
| "scan_line ts is pos1 (x # before) st =
    (let k = scan_line ts is pos1 before; c = x AND CHAR_MASK
     in if no_code x then k st
        else if find_eq st then
          (if c = 61 then Some (End_parse (st\<lparr>i_pos := lpos st\<rparr>))
           else if c = 59 then check_instr is st k
           else k st)
        else if c = 125 then
          (if stack_ptr st \<ge> MAX_STACK_SIZE then Some Give_up else check_instr is (push st) k)
        else if c = 123 then
          (if stack_ptr st = 0
           then if lpos st = -1 then Some (End_parse (st\<lparr>i_pos := pos1 + is, eoi_found := True\<rparr>))
                else k (st\<lparr>find_eq := True\<rparr>)
           else check_instr is (pop st) k)
        else if c = 41 \<or> c = 93 then
          (if stack_ptr st \<ge> MAX_STACK_SIZE then Some Give_up else k (push st))
        else if c = 40 \<or> c = 91 then
          (if stack_ptr st = 0 then do { q \<leftarrow> find_pos ts (rev before) 0; Some (End_parse (st\<lparr>i_pos := q + 1\<rparr>)) }
           else k (pop st))
        else if c = 32 \<or> c = 9 \<or> c = 10 then k st
        else if c = 59 then (if stack_ptr st = 0 then check_instr is st k else k st)
        else if c = 58 then Some (Prev_line st)
        else if stack_ptr st \<noteq> 0 then k st
        else if style_of c = QE_STYLE_KEYWORD then
          (let (w, rest) = keyword_word x before
           in if \<not> eoi_found st \<and> w \<in> {''if'', ''for'', ''while''}
              then Some (End_parse (st\<lparr>i_pos := pos1 + is\<rparr>))
              else scan_line ts is pos1 rest (st\<lparr>lpos := pos1\<rparr>))
        else k (st\<lparr>lpos := pos1\<rparr>))"
  by pat_completeness auto
termination
  by (relation "measure (\<lambda>(ts, is, pos1, cs, st). length cs)") (auto simp: keyword_word_def Let_def)

declare scan_line.simps [simp del]

partial_function (option) scan_lines ::
    "colorize_func \<Rightarrow> bool \<Rightarrow> u8 list \<Rightarrow> CodeWindow \<Rightarrow> u32 list \<Rightarrow> int \<Rightarrow> nat \<Rightarrow> Search \<Rightarrow>
      (CodeWindow \<times> u32 list \<times> Search option) option" where
  "scan_lines f ok junk w buf offsetl line_num st =
    (if offsetl = 0 then Some (w, buf, Some st)
     else do {
       guard (0 < line_num);
       let line_num = line_num - 1;
       (c, offsetl, b) \<leftarrow> eb_prevc (cw_b w) offsetl;
       (offsetl, b) \<leftarrow> eb_goto_bol b offsetl;
       (len, buf, w) \<leftarrow> cw_line f ok junk (with_b w b) buf offsetl line_num;
       pos1 \<leftarrow> find_indent1 (tab_size w) buf 0;
       r \<leftarrow> scan_line (tab_size w) (indent_size w) pos1 (rev (take len buf)) st;
       case r of
         Prev_line st \<Rightarrow> scan_lines f ok junk w buf offsetl line_num st
       | End_parse st \<Rightarrow> Some (w, buf, Some st)
       | Give_up \<Rightarrow> Some (w, buf, None) })"

text \<open>The special cases which depend on the characters of the current line.\<close>

fun adjust_pos :: "int \<Rightarrow> bool \<Rightarrow> u32 list \<Rightarrow> int \<Rightarrow> int" where
  "adjust_pos is eoi [] pos = pos"
| "adjust_pos is eoi (c # cs) pos =
    (if style_of c = QE_STYLE_PREPROCESS then 0
     else if c = 125 \<or> c = 58 then (if pos - is < 0 then 0 else pos - is)
     else if c = 123 \<and> pos = is \<and> \<not> eoi then 0
     else adjust_pos is eoi cs pos)"

partial_function (option) skip_blanks :: "EditBuffer \<Rightarrow> u8 list \<Rightarrow> int \<Rightarrow> (int \<times> EditBuffer) option" where
  "skip_blanks b junk offset1 = do {
     (c, offset2, b) \<leftarrow> eb_nextc b junk offset1;
     if c \<noteq> 32 \<and> c \<noteq> 9 then Some (offset1, b) else skip_blanks b junk offset2 }"

definition delete_blanks :: "CodeWindow \<Rightarrow> int \<Rightarrow> int \<Rightarrow> CodeWindow option" where
  "delete_blanks w offset n =
    (if n > 0
     then do {
       w \<leftarrow> cw_delete w offset n;
       let s = goto_off (cw_s w) (off (cw_s w) - n);
       let s = (if off s < offset then goto_off s offset else s);
       Some (w\<lparr>cw_s := s\<rparr>) }
     else Some w)"

definition replace_indent :: "u8 list \<Rightarrow> CodeWindow \<Rightarrow> int \<Rightarrow> int \<Rightarrow> CodeWindow option" where
  "replace_indent junk w offset pos = do {
     (offset1, b) \<leftarrow> skip_blanks (cw_b w) junk offset;
     w \<leftarrow> delete_blanks (with_b w b) offset (offset1 - offset);
     (w, offset) \<leftarrow> insert_indent w offset pos;
     Some (w\<lparr>cw_s := goto_off (cw_s w) offset\<rparr>) }"

definition do_c_indent :: "colorize_func \<Rightarrow> bool \<Rightarrow> u8 list \<Rightarrow> u32 list \<Rightarrow> CodeWindow \<Rightarrow> CodeWindow option" where
  "do_c_indent f ok junk buf w = do {
     guard (0 \<le> off (cw_s w));
     let ((line_num, col_num), b) = eb_get_pos (cw_b w) (nat (off (cw_s w)));
     (offset, b) \<leftarrow> eb_goto_bol b (off (cw_s w));
     (w, buf, r) \<leftarrow> scan_lines f ok junk (with_b w b) buf offset line_num
       \<lparr>i_pos = 0, lpos = -1, eoi_found = False, stack_ptr = 0, find_eq = False\<rparr>;
     case r of
       None \<Rightarrow> Some w
     | Some st \<Rightarrow> do {
         (len, buf, w) \<leftarrow> cw_line f ok junk w buf offset line_num;
         let pos = (if stack_ptr st = 0 \<and> i_pos st = 0 \<and> lpos st \<ge> 0
                    then lpos st + (if eoi_found st then 0 else indent_size w) else i_pos st);
         let pos = adjust_pos (indent_size w) (eoi_found st) (take len buf) pos;
         replace_indent junk w offset pos } }"

fun indent_lines :: "colorize_func \<Rightarrow> bool \<Rightarrow> u8 list \<Rightarrow> u32 list \<Rightarrow> CodeWindow \<Rightarrow> nat \<Rightarrow> nat \<Rightarrow> CodeWindow option" where
  "indent_lines f ok junk buf w p1 0 = Some w"
| "indent_lines f ok junk buf w p1 (Suc n) = do {
     (offset, b) \<leftarrow> eb_goto_pos (cw_b w) junk p1 0;
     let w = with_b w b;
     w \<leftarrow> do_c_indent f ok junk buf (w\<lparr>cw_s := goto_off (cw_s w) offset\<rparr>);
     indent_lines f ok junk buf w (p1 + 1) n }"

definition do_c_indent_region :: "colorize_func \<Rightarrow> bool \<Rightarrow> u8 list \<Rightarrow> u32 list \<Rightarrow> CodeWindow \<Rightarrow> CodeWindow option" where
  "do_c_indent_region f ok junk buf w = do {
     guard (0 \<le> off (cw_s w) \<and> 0 \<le> mark (cw_s w));
     let ((p1, col_num), b) = eb_get_pos (cw_b w) (nat (off (cw_s w)));
     let ((p2, col_num), b) = eb_get_pos b (nat (mark (cw_s w)));
     let (p1, p2) = (if p1 > p2 then (p2, p1) else (p1, p2));
     indent_lines f ok junk buf (with_b w b) p1 (p2 + 1 - p1) }"

definition do_py_indent :: "int option \<Rightarrow> bool \<Rightarrow> u8 list \<Rightarrow> u32 list \<Rightarrow> CodeWindow \<Rightarrow> CodeWindow option" where
  "do_py_indent margin = do_c_indent (py_colorize_line margin)"

definition do_py_indent_region :: "int option \<Rightarrow> bool \<Rightarrow> u8 list \<Rightarrow> u32 list \<Rightarrow> CodeWindow \<Rightarrow> CodeWindow option" where
  "do_py_indent_region margin = do_c_indent_region (py_colorize_line margin)"

declare scan_lines.simps [code] skip_blanks.simps [code]

end
