(* ===== verification/Language_Theorems.thy ===== *)
theory Language_Theorems
  imports Language_Modes Util_Theorems
begin

text \<open>
  The colorizers of C and Python return, keep the characters and look only at their line; so both are
  instances of \<open>colorizer\<close>, for C with the exception of some lines that make it read or write behind
  the line.
\<close>

section \<open>Colours and characters\<close>

definition paint :: "u32 list \<Rightarrow> nat \<Rightarrow> nat \<Rightarrow> u32 \<Rightarrow> u32 list" where
  "paint a p n style = take p a @ map (\<lambda>c. c OR push_bit STYLE_SHIFT style) (take n (drop p a)) @ drop (p + n) a"

abbreviation same_chars :: "u32 list \<Rightarrow> u32 list \<Rightarrow> bool" where
  "same_chars a a' \<equiv> map (\<lambda>c. c AND CHAR_MASK) a' = map (\<lambda>c. c AND CHAR_MASK) a"

lemma paint_facts [simp]:
  "p + n \<le> length a \<Longrightarrow> length (paint a p n style) = length a"
  "p + n \<le> length a \<Longrightarrow> drop (p + n) (paint a p n style) = drop (p + n) a"
  by (simp_all add: paint_def)

lemma paint_chars: "same_chars a (paint a p n style)"
proof -
  have "a = take p a @ take n (drop p a) @ drop (p + n) a"
    by (metis append_take_drop_id drop_drop add.commute)
  then show ?thesis unfolding paint_def map_append map_map comp_def char_of_styled by (metis map_append)
qed

lemma color_at_line: "p + n \<le> length a \<Longrightarrow> color_at (a @ t) p n style = Some (paint a p n style @ t)"
  by (auto simp: color_at_def set_color_def paint_def guard_def add.commute)

lemma paint_drop: "p + n \<le> length a \<Longrightarrow> p + n \<le> q \<Longrightarrow> drop q (paint a p n style) = drop q a"
  by (simp add: paint_def)

section \<open>Scanning a line\<close>

text \<open>A scan of a line: it depends on the line only and stops at its end.\<close>

lemma until_newline_line: "\<exists>n \<le> length x. \<forall>rest. until_newline (x @ 10 # rest) = Some n"
proof (induction x)
  case (Cons c x)
  then obtain n where "n \<le> length x" "\<forall>rest. until_newline (x @ 10 # rest) = Some n" by blast
  then show ?case by (cases "c = 10") auto
qed simp

lemma comment_end_newline [simp]: "comment_end (10 # rest) = Some (0, False)"
  by (cases rest) simp_all

lemma comment_end_line: "\<exists>n closed. n \<le> length x \<and> (\<forall>rest. comment_end (x @ 10 # rest) = Some (n, closed))"
proof (induction x)
  case (Cons c x)
  then obtain n closed where n: "n \<le> length x" "\<And>rest. comment_end (x @ 10 # rest) = Some (n, closed)" by blast
  have step: "comment_end (c # x @ 10 # rest) = (if c = 10 then Some (0, False)
      else if c = 42 \<and> x \<noteq> [] \<and> hd x = 47 then Some (2, True) else Some (n + 1, closed))" for rest
    using n(2) [of rest] by (cases x) auto
  show ?case
  proof (cases "c = 10 \<or> c = 42 \<and> x \<noteq> [] \<and> hd x = 47")
    case True
    then show ?thesis unfolding append_Cons step by (cases x) auto
  next
    case False
    then show ?thesis unfolding append_Cons step using n(1) by auto
  qed
qed auto

lemma string_end_line: "q \<noteq> 10 \<Longrightarrow> \<exists>n closed. n \<le> length x \<and> (\<forall>rest. string_end q (x @ 10 # rest) = Some (n, closed))"
proof (induction x rule: length_induct)
  case (1 x)
  show ?case
  proof (cases x)
    case (Cons c y)
    show ?thesis
    proof (cases "c = 92")
      case True
      show ?thesis
      proof (cases y)
        case (Cons d z)
        obtain n closed where "n \<le> length z" "\<forall>rest. string_end q (z @ 10 # rest) = Some (n, closed)"
          using 1 \<open>x = c # y\<close> Cons by force
        then show ?thesis using \<open>x = c # y\<close> True Cons by (cases "d = 10") auto
      qed (use \<open>x = c # y\<close> True in auto)
    next
      case False
      obtain n closed where "n \<le> length y" "\<forall>rest. string_end q (y @ 10 # rest) = Some (n, closed)"
        using 1 Cons by force
      then show ?thesis using Cons False by (cases "c = 10"; cases "c = q") auto
    qed
  qed auto
qed

lemma looking_at_line: "10 \<notin> set pat \<Longrightarrow> looking_at pat (x @ 10 # rest) = Some (prefix pat x)"
proof (induction pat arbitrary: x)
  case (Cons c pat)
  then show ?case by (cases x) auto
qed simp

lemma takeWhile_at_newline: "\<not> P 10 \<Longrightarrow> takeWhile P (x @ 10 # rest) = takeWhile P x"
  by (induction x) auto

lemma blanks_line: "\<exists>n \<le> length x. \<forall>rest. blanks (x @ 10 # rest) = Some n"
  using length_takeWhile_le [of "\<lambda>c. c = 32 \<or> c = 9" x]
  by (intro exI [of _ "length (takeWhile (\<lambda>c. c = 32 \<or> c = 9) x)"]) (auto simp: blanks_def Let_def takeWhile_at_newline)

lemma get_c_keyword_line:
  assumes "x \<noteq> []" "ident_start (hd x)"
  shows "\<exists>w n. 0 < n \<and> n \<le> length x \<and> (\<forall>rest. get_c_keyword m (x @ 10 # rest) = Some (w, n))"
proof -
  have "\<not> ident_char 10" by (simp add: ident_char_def ident_start_def)
  moreover have "0 < length (takeWhile ident_char x)" using assms by (cases x) (simp_all add: ident_char_def)
  ultimately show ?thesis
    using assms length_takeWhile_le [of ident_char x] by (auto simp: get_c_keyword_def takeWhile_at_newline guard_def Let_def)
qed

section \<open>The parts of a line\<close>

text \<open>A part of the colorizer that begins at \<open>p\<close> goes to \<open>q\<close> and leaves the rest of the line alone.\<close>

definition line_part ::
    "(u32 list \<Rightarrow> (u32 list \<times> nat \<times> 'a) option) \<Rightarrow> u32 list \<Rightarrow> nat \<Rightarrow> u32 list \<Rightarrow> nat \<Rightarrow> 'a \<Rightarrow> bool" where
  "line_part g a p a' q r \<longleftrightarrow> p \<le> q \<and> q \<le> length a \<and> length a' = length a \<and> same_chars a a' \<and> drop q a' = drop q a \<and>
     (\<forall>rest. g (a @ 10 # rest) = Some (a' @ 10 # rest, q, r))"

definition line_result :: "(u32 list \<Rightarrow> (u32 list \<times> nat) option) \<Rightarrow> u32 list \<Rightarrow> bool" where
  "line_result g a \<longleftrightarrow> (\<exists>a' st. length a' = length a \<and> same_chars a a' \<and> st < 6 \<and>
     (\<forall>rest. g (a @ 10 # rest) = Some (a' @ 10 # rest, st)))"

lemma line_resultI:
  "length a' = length a \<Longrightarrow> same_chars a a' \<Longrightarrow> st < 6 \<Longrightarrow> (\<And>rest. g (a @ 10 # rest) = Some (a' @ 10 # rest, st)) \<Longrightarrow>
    line_result g a"
  by (auto simp: line_result_def)

lemma line_result_trans:
  "line_result h a' \<Longrightarrow> length a' = length a \<Longrightarrow> same_chars a a' \<Longrightarrow> (\<And>rest. g (a @ 10 # rest) = h (a' @ 10 # rest)) \<Longrightarrow>
    line_result g a"
  by (auto simp: line_result_def)

lemma drop_line: "p \<le> length a \<Longrightarrow> drop p (a @ 10 # rest) = drop p a @ 10 # rest"
  by simp

lemma parse_comment_line:
  assumes "p0 \<le> p" "p \<le> length a"
  shows "\<exists>a' q st. st < 6 \<and> line_part (\<lambda>buf. parse_comment buf p0 p) a p a' q st"
proof -
  obtain n closed where n: "n \<le> length (drop p a)" "\<And>rest. comment_end (drop p a @ 10 # rest) = Some (n, closed)"
    using comment_end_line by blast
  have k: "p0 + (p + n - p0) \<le> length a" "p0 + (p + n - p0) = p + n" using n(1) assms by simp_all
  have "line_part (\<lambda>buf. parse_comment buf p0 p) a p (paint a p0 (p + n - p0) QE_STYLE_COMMENT) (p + n)
    (if closed then 0 else C_COMMENT)"
    using n k assms(2) color_at_line [OF k(1)] paint_chars paint_drop [OF k(1), of "p + n"]
    by (simp add: line_part_def parse_comment_def)
  then show ?thesis by (intro exI conjI) (auto simp: C_COMMENT_def)
qed

lemma parse_string_line:
  assumes "p0 \<le> p" "p \<le> length a" "st < 6"
  shows "\<exists>a' q st'. st' < 6 \<and> line_part (\<lambda>buf. parse_string buf p0 p st) a p a' q st'"
proof -
  let ?q = "if st = C_STRING_Q then 39 else 34 :: u32"
  obtain n closed where n: "n \<le> length (drop p a)" "\<And>rest. string_end ?q (drop p a @ 10 # rest) = Some (n, closed)"
  proof -
    have "?q \<noteq> 10" by simp
    then show thesis using that string_end_line by blast
  qed
  have k: "p0 + (p + n - p0) \<le> length a" "p0 + (p + n - p0) = p + n" using n(1) assms by simp_all
  have "line_part (\<lambda>buf. parse_string buf p0 p st) a p (paint a p0 (p + n - p0) QE_STYLE_STRING) (p + n)
    (if closed then 0 else st)"
    using n k assms(2) color_at_line [OF k(1)] paint_chars paint_drop [OF k(1), of "p + n"]
    by (simp add: line_part_def parse_string_def)
  then show ?thesis using assms(3) by (intro exI conjI) auto
qed

lemma color_word_line:
  assumes "p < length a" "ident_start (a ! p)"
  shows "\<exists>a' q td'. p < q \<and> line_part (\<lambda>buf. color_word kws tys always buf p td) a p a' q td'"
proof -
  have dp: "drop p a \<noteq> []" "hd (drop p a) = a ! p" using assms(1) by (simp_all add: hd_drop_conv_nth)
  obtain w n where n: "0 < n" "n \<le> length (drop p a)"
    "\<And>rest. get_c_keyword 30 (drop p a @ 10 # rest) = Some (w, n)"
    using get_c_keyword_line [of "drop p a" 30] dp assms(2) by metis
  have pn: "p + n \<le> length a" using n(2) assms(1) by simp
  obtain k where k: "k \<le> length (drop (p + n) a)" "\<And>rest. blanks (drop (p + n) a @ 10 # rest) = Some k"
    using blanks_line by blast
  have pk: "p + n + k \<le> length a" using k(1) pn by simp
  define c where "c = (a @ [10]) ! (p + n + k)"
  have nth: "(a @ 10 # rest) ! (p + n + k) = c" for rest using pk by (simp add: c_def nth_append)
  note painted = color_at_line [OF pn] paint_chars paint_drop [OF pn]
  note defs = line_part_def color_word_def Let_def
  consider "sublist (''|'' @ w @ ''|'') kws" | "\<not> sublist (''|'' @ w @ ''|'') kws" "sublist (''|'' @ w @ ''|'') tys"
    | "\<not> sublist (''|'' @ w @ ''|'') kws" "\<not> sublist (''|'' @ w @ ''|'') tys" by blast
  then show ?thesis
  proof cases
    case 1
    then have "line_part (\<lambda>buf. color_word kws tys always buf p td) a p (paint a p n QE_STYLE_KEYWORD) (p + n) td"
      using n(3) assms(1) pn painted by (simp add: defs)
    moreover have "p < p + n" "p < p + n + k" using n(1) by simp_all
    ultimately show ?thesis by blast
  next
    case 2
    then have "line_part (\<lambda>buf. color_word kws tys always buf p td) a p (paint a p n QE_STYLE_TYPE) (p + n + k)
        (if c \<noteq> 41 then True else td)"
      using n(3) assms(1) pn pk k(2) painted nth by (simp add: defs)
    moreover have "p < p + n" "p < p + n + k" using n(1) by simp_all
    ultimately show ?thesis by blast
  next
    case 3
    show ?thesis
    proof (cases "td \<or> always \<or> p = 0")
      case True
      let ?style = "if c = 40 then QE_STYLE_FUNCTION else if p = 0 then QE_STYLE_TYPE else QE_STYLE_VARIABLE"
      from 3 True have "line_part (\<lambda>buf. color_word kws tys always buf p td) a p (paint a p n ?style) (p + n + k) True"
        using n(3) assms(1) pn pk k(2) painted nth by (simp add: defs)
      moreover have "p < p + n" "p < p + n + k" using n(1) by simp_all
    ultimately show ?thesis by blast
    next
      case False
      with 3 have "line_part (\<lambda>buf. color_word kws tys always buf p td) a p a (p + n) td"
        using n(3) assms(1) pn by (simp add: defs)
      moreover have "p < p + n" "p < p + n + k" using n(1) by simp_all
    ultimately show ?thesis by blast
    qed
  qed
qed

lemma parse_preprocessor_line:
  assumes "p \<le> length a"
  shows "line_result (\<lambda>buf. parse_preprocessor buf (length a) p) a"
proof -
  let ?a = "paint a p (length a - p) QE_STYLE_PREPROCESS"
  have len: "p + (length a - p) \<le> length a" using assms by simp
  have "parse_preprocessor (a @ 10 # rest) (length a) p =
      Some (?a @ 10 # rest, if length a > 0 \<and> ?a ! (length a - 1) AND CHAR_MASK = 92 then C_PREPROCESS else 0)" for rest
    using color_at_line [OF len] len by (cases a) (simp_all add: parse_preprocessor_def nth_append)
  then show ?thesis using len paint_chars by (intro line_resultI [of ?a]) (auto simp: C_PREPROCESS_def)
qed

section \<open>The loops\<close>

lemma line_part_result:
  assumes "line_part g a p a' q r" "line_result (\<lambda>buf. h buf q r) a'"
    "\<And>rest. f (a @ 10 # rest) = do { (buf, p, r) \<leftarrow> g (a @ 10 # rest); h buf p r }"
  shows "line_result f a"
  using assms(1) by (intro line_result_trans [OF assms(2)]) (simp_all add: line_part_def assms(3))

abbreviation if0 :: "u32 list" where "if0 \<equiv> [35, 105, 102, 32, 48]"

definition no_if0 :: "u32 list \<Rightarrow> nat \<Rightarrow> bool" where
  "no_if0 a p \<longleftrightarrow> (\<forall>q. p \<le> q \<and> 0 < q \<longrightarrow> \<not> prefix if0 (drop q a))"

lemma no_if0_part: "no_if0 a p \<Longrightarrow> line_part g a p' a' q r \<Longrightarrow> p \<le> p' \<Longrightarrow> no_if0 a' q"
proof -
  assume a: "no_if0 a p" "line_part g a p' a' q r" "p \<le> p'"
  have "drop k a' = drop k a" if "q \<le> k" for k
  proof -
    have "drop (k - q) (drop q a') = drop (k - q) (drop q a)" using a(2) by (simp add: line_part_def)
    then show ?thesis using that by simp
  qed
  then show ?thesis using a by (auto simp: no_if0_def line_part_def)
qed

lemma no_if0_mono: "no_if0 a p \<Longrightarrow> p \<le> q \<Longrightarrow> no_if0 a q"
  by (auto simp: no_if0_def)

lemma line_comment_part:
  assumes "p < length a"
  shows "\<exists>a' q. p < q \<and> line_part (\<lambda>buf. do {
      n \<leftarrow> until_newline (drop (p + 1) buf);
      buf \<leftarrow> color_at buf p (n + 1) QE_STYLE_COMMENT;
      Some (buf, p + 1 + n, ()) }) a p a' q ()"
proof -
  obtain n where n: "n \<le> length (drop (p + 1) a)" "\<And>rest. until_newline (drop (p + 1) a @ 10 # rest) = Some n"
    using until_newline_line by blast
  have k: "p + (n + 1) \<le> length a" using n(1) assms by simp
  have "drop (p + 1) (a @ 10 # rest) = drop (p + 1) a @ 10 # rest" for rest using assms by simp
  then have "line_part (\<lambda>buf. do { n \<leftarrow> until_newline (drop (p + 1) buf); buf \<leftarrow> color_at buf p (n + 1) QE_STYLE_COMMENT;
      Some (buf, p + 1 + n, ()) }) a p (paint a p (n + 1) QE_STYLE_COMMENT) (p + 1 + n) ()"
    using n(2) k color_at_line [OF k] paint_chars paint_drop [OF k, of "p + 1 + n"]
    by (simp add: line_part_def del: drop_append)
  then show ?thesis by (intro exI conjI) auto
qed

lemma c_loop_line:
  assumes "p \<le> length a" "len = length a" "st < 6" "no_if0 a p"
  shows "line_result (\<lambda>buf. c_loop buf len p st td) a"
  using assms
proof (induction "length a - p" arbitrary: a p st td rule: less_induct)
  case less
  have part: "line_result (\<lambda>buf. c_loop buf len q st' td') a'" if "line_part g a p' a' q r" "p \<le> p'" "p < q" "st' < 6"
    for g p' a' q and r :: 'x and st' td'
    by (rule less.hyps) (use that less.prems no_if0_part [OF less.prems(4) that(1,2)] in \<open>auto simp: line_part_def\<close>)
  have step: "line_result (\<lambda>buf. c_loop buf len (p + 1) st td') a" if "p < length a" for td'
    by (rule less.hyps) (use that less.prems no_if0_mono in auto)
  show ?case
  proof (cases "p < length a")
    case False
    then have "c_loop (a @ 10 # rest) len p st td = Some (a @ 10 # rest, st)" for rest
      using less.prems(1) by (simp add: c_loop.simps nth_append)
    then show ?thesis using less.prems(3) by (intro line_resultI [of a]) auto
  next
    case True
    define c where "c = a ! p"
    have c: "(a @ 10 # rest) ! p = c" "p < length (a @ 10 # rest)" for rest using True by (simp_all add: c_def nth_append)
    consider "c = 10" | "c = 47" | "c = 35" | "c = 39 \<or> c = 34" | "c = 61" | "ident_start c" "c \<notin> {10, 47, 35, 39, 34, 61}"
      | "\<not> ident_start c" "c \<notin> {10, 47, 35, 39, 34, 61}" by blast
    then show ?thesis
    proof cases
      case 1
      then have "c_loop (a @ 10 # rest) len p st td = Some (a @ 10 # rest, st)" for rest
        using c by (simp add: c_loop.simps)
      then show ?thesis using less.prems(3) by (intro line_resultI [of a]) auto
    next
      case 5
      then show ?thesis using c by (intro line_result_trans [OF step [OF True, of False]]) (simp_all add: c_loop.simps [of _ _ p])
    next
      case 7
      then show ?thesis using c by (intro line_result_trans [OF step [OF True, of td]]) (simp_all add: c_loop.simps [of _ _ p])
    next
      case 6
      obtain a' q td' where p: "p < q" "line_part (\<lambda>buf. color_word c_keywords c_types False buf p td) a p a' q td'"
        using color_word_line [OF True] 6(1) unfolding c_def by metis
      show ?thesis
        by (rule line_part_result [where h = "\<lambda>buf p td. c_loop buf len p st td", OF p(2) part [OF p(2) _ p(1) less.prems(3)]])
          (use c 6 in \<open>simp_all add: c_loop.simps [of _ _ p]\<close>)
    next
      case 4
      let ?st = "if c = 39 then C_STRING_Q else C_STRING"
      have st: "?st < 6" by (simp add: C_STRING_Q_def C_STRING_def)
      obtain a' q st' where p: "st' < 6" "line_part (\<lambda>buf. parse_string buf p (p + 1) ?st) a (p + 1) a' q st'"
        using parse_string_line [of p "p + 1" a ?st] True st by auto
      then have "p < q" by (simp add: line_part_def)
      show ?thesis
        by (rule line_part_result [where h = "\<lambda>buf p st. c_loop buf len p st td", OF p(2) part [OF p(2) _ \<open>p < q\<close> p(1)]])
          (use c 4 in \<open>auto simp: c_loop.simps [of _ _ p]\<close>)
    next
      case 3
      have "\<not> prefix if0 (drop p a) \<or> p = 0" using less.prems(4) by (auto simp: no_if0_def)
      moreover have dp: "drop p a = 35 # drop (p + 1) a" using Cons_nth_drop_Suc [OF True] 3 by (simp add: c_def)
      moreover have l: "looking_at [105, 102, 32, 48] (drop (p + 1) (a @ 10 # rest)) = Some (prefix if0 (drop p a))" for rest
        using looking_at_line [of "[105, 102, 32, 48]" "drop (p + 1) a" rest] True dp by simp
      ultimately consider "prefix if0 (drop p a)" "p = 0" | "\<not> prefix if0 (drop p a)" by blast
      then show ?thesis
      proof cases
        case 1
        have len: "0 + len \<le> length a" using less.prems(2) by simp
        show ?thesis
          by (rule line_resultI [of "paint a 0 len QE_STYLE_COMMENT" a C_IF0])
            (use 1 3 c l color_at_line [OF len] paint_chars len in
              \<open>simp_all add: c_loop.simps [of _ _ 0] C_IF0_def del: drop_append\<close>)
      next
        case 2
        show ?thesis
          by (rule line_result_trans [OF parse_preprocessor_line [OF less.prems(1)]])
            (use 2 3 c l less.prems(2) in \<open>simp_all add: c_loop.simps [of _ _ p]\<close>)
      qed
    next
      case 2
      define d where "d = (a @ [10]) ! (p + 1)"
      have d: "(a @ 10 # rest) ! (p + 1) = d" "p + 1 < length (a @ 10 # rest)" for rest
        using True by (simp_all add: d_def nth_append)
      consider "d = 42" | "d = 47" | "d \<noteq> 42" "d \<noteq> 47" by blast
      then show ?thesis
      proof cases
        case 1
        then have "p + 2 \<le> length a" using True by (cases "p + 1 < length a") (auto simp: d_def nth_append)
        then obtain a' q st' where p: "st' < 6" "line_part (\<lambda>buf. parse_comment buf p (p + 2)) a (p + 2) a' q st'"
          using parse_comment_line [of p "p + 2" a] by auto
        then have "p < q" by (simp add: line_part_def)
        show ?thesis
          by (rule line_part_result [where h = "\<lambda>buf p st. c_loop buf len p st td", OF p(2) part [OF p(2) _ \<open>p < q\<close> p(1)]])
            (use 1 2 c d in \<open>simp_all add: c_loop.simps [of _ _ p]\<close>)
      next
        case 3: 2
        obtain a' q where p: "p < q" "line_part (\<lambda>buf. do { n \<leftarrow> until_newline (drop (p + 1) buf);
            buf \<leftarrow> color_at buf p (n + 1) QE_STYLE_COMMENT; Some (buf, p + 1 + n, ()) }) a p a' q ()"
          using line_comment_part [OF True] by blast
        show ?thesis
          by (rule line_part_result [where h = "\<lambda>buf p u. c_loop buf len p st td", OF p(2) part [OF p(2) _ p(1) less.prems(3)]])
            (use 2 3 c d in \<open>simp_all add: c_loop.simps [of _ _ p]\<close>)
      next
        case 3
        then show ?thesis
          using 2 c d by (intro line_result_trans [OF step [OF True, of td]]) (simp_all add: c_loop.simps [of _ _ p])
      qed
    qed
  qed
qed

lemma py_comment_part:
  assumes "p < length a" "a ! p = 35"
  shows "\<exists>a' q. p < q \<and> line_part (\<lambda>buf. do {
      n \<leftarrow> until_newline (drop p buf);
      buf \<leftarrow> color_at buf p n QE_STYLE_COMMENT;
      Some (buf, p + n, ()) }) a p a' q ()"
proof -
  obtain n where n: "n \<le> length (drop (p + 1) a)" "\<And>rest. until_newline (drop (p + 1) a @ 10 # rest) = Some n"
    using until_newline_line by blast
  have k: "p + (n + 1) \<le> length a" using n(1) assms by simp
  have "drop p (a @ 10 # rest) = 35 # drop (p + 1) a @ 10 # rest" for rest
    using assms Cons_nth_drop_Suc [OF assms(1)] by simp
  then have "line_part (\<lambda>buf. do { n \<leftarrow> until_newline (drop p buf); buf \<leftarrow> color_at buf p n QE_STYLE_COMMENT;
      Some (buf, p + n, ()) }) a p (paint a p (n + 1) QE_STYLE_COMMENT) (p + (n + 1)) ()"
    using n(2) k color_at_line [OF k] paint_chars paint_drop [OF k, of "p + (n + 1)"]
    by (simp add: line_part_def del: drop_append)
  then show ?thesis by (intro exI conjI) auto
qed

lemma py_loop_line:
  assumes "p \<le> length a" "st < 6"
  shows "line_result (\<lambda>buf. py_loop buf p st td) a"
  using assms
proof (induction "length a - p" arbitrary: a p st td rule: less_induct)
  case less
  have part: "line_result (\<lambda>buf. py_loop buf q st' td') a'" if "line_part g a p' a' q r" "p < q" "st' < 6"
    for g p' a' q and r :: 'x and st' td'
    by (rule less.hyps) (use that less.prems in \<open>auto simp: line_part_def\<close>)
  have step: "line_result (\<lambda>buf. py_loop buf (p + 1) st td') a" if "p < length a" for td'
    by (rule less.hyps) (use that less.prems in auto)
  show ?case
  proof (cases "p < length a")
    case False
    then have "py_loop (a @ 10 # rest) p st td = Some (a @ 10 # rest, st)" for rest
      using less.prems(1) by (simp add: py_loop.simps nth_append)
    then show ?thesis using less.prems(2) by (intro line_resultI [of a]) auto
  next
    case True
    define c where "c = a ! p"
    have c: "(a @ 10 # rest) ! p = c" "p < length (a @ 10 # rest)" for rest using True by (simp_all add: c_def nth_append)
    consider "c = 10" | "c = 35" | "c = 39 \<or> c = 34" | "c = 61" | "ident_start c" "c \<notin> {10, 35, 39, 34, 61}"
      | "\<not> ident_start c" "c \<notin> {10, 35, 39, 34, 61}" by blast
    then show ?thesis
    proof cases
      case 1
      then have "py_loop (a @ 10 # rest) p st td = Some (a @ 10 # rest, st)" for rest
        using c by (simp add: py_loop.simps)
      then show ?thesis using less.prems(2) by (intro line_resultI [of a]) auto
    next
      case 2
      obtain a' q where p: "p < q" "line_part (\<lambda>buf. do { n \<leftarrow> until_newline (drop p buf);
          buf \<leftarrow> color_at buf p n QE_STYLE_COMMENT; Some (buf, p + n, ()) }) a p a' q ()"
        using py_comment_part [OF True] 2 unfolding c_def by blast
      show ?thesis
        by (rule line_part_result [where h = "\<lambda>buf p u. py_loop buf p st td", OF p(2) part [OF p(2,1) less.prems(2)]])
          (use 2 c in \<open>simp_all add: py_loop.simps [of _ p]\<close>)
    next
      case 3
      let ?st = "if c = 39 then PY_STRING_Q else PY_STRING"
      have "?st < 6" by (simp add: PY_STRING_Q_def PY_STRING_def)
      then obtain a' q st' where p: "st' < 6" "line_part (\<lambda>buf. parse_string buf p (p + 1) ?st) a (p + 1) a' q st'"
        using parse_string_line [of p "p + 1" a ?st] True by auto
      then have "p < q" by (simp add: line_part_def)
      show ?thesis
        by (rule line_part_result [where h = "\<lambda>buf p st. py_loop buf p st td", OF p(2) part [OF p(2) \<open>p < q\<close> p(1)]])
          (use c 3 in \<open>auto simp: py_loop.simps [of _ p]\<close>)
    next
      case 4
      then show ?thesis using c by (intro line_result_trans [OF step [OF True, of False]]) (simp_all add: py_loop.simps [of _ p])
    next
      case 5
      obtain a' q td' where p: "p < q" "line_part (\<lambda>buf. color_word py_keywords py_types True buf p td) a p a' q td'"
        using color_word_line [OF True] 5(1) unfolding c_def by metis
      show ?thesis
        by (rule line_part_result [where h = "\<lambda>buf p td. py_loop buf p st td", OF p(2) part [OF p(2,1) less.prems(2)]])
          (use c 5 in \<open>simp_all add: py_loop.simps [of _ p]\<close>)
    next
      case 6
      then show ?thesis using c by (intro line_result_trans [OF step [OF True, of td]]) (simp_all add: py_loop.simps [of _ p])
    qed
  qed
qed

section \<open>Lines\<close>

definition margin_ok :: "int option \<Rightarrow> bool" where
  "margin_ok margin \<longleftrightarrow> (\<forall>g. margin = Some g \<longrightarrow> 0 \<le> g)"

lemma color_margin_line:
  assumes "margin_ok margin"
  shows "\<exists>a'. length a' = length a \<and> same_chars a a' \<and> (\<forall>t. color_margin margin (a @ t) (length a) = Some (a' @ t))"
proof (cases margin)
  case None
  then show ?thesis by (simp add: color_margin_def)
next
  case (Some g)
  show ?thesis
  proof (cases "int (length a) > g")
    case True
    have g: "0 \<le> g" "nat g \<le> length a" using assms Some True by (auto simp: margin_ok_def)
    let ?d = "drop (nat g) a"
    let ?a = "take (nat g) a @ map (\<lambda>c. c OR push_bit STYLE_SHIFT QE_STYLE_MARGIN_HIGHLIGHT) (map (\<lambda>c. c AND NOT STYLE_MASK) ?d)"
    have "color_margin margin (a @ t) (length a) = Some (?a @ t)" for t
      using g True Some by (simp add: color_margin_def clear_color_def set_color_def)
    moreover have "same_chars a ?a"
      unfolding map_append map_map comp_def char_of_styled char_of_cleared by (simp flip: map_append)
    moreover have "length ?a = length a" using g by simp
    ultimately show ?thesis by blast
  next
    case False
    then show ?thesis using Some by (simp add: color_margin_def)
  qed
qed

lemma line_result_margin:
  assumes "line_result g a" "margin_ok margin"
  shows "line_result (\<lambda>buf. do { (buf, st) \<leftarrow> g buf; buf \<leftarrow> color_margin margin buf (length a); Some (buf, st) }) a"
proof -
  obtain a1 st where a1: "length a1 = length a" "same_chars a a1" "st < 6" "\<And>rest. g (a @ 10 # rest) = Some (a1 @ 10 # rest, st)"
    using assms(1) by (auto simp: line_result_def)
  obtain a2 where "length a2 = length a1" "same_chars a1 a2" "\<And>t. color_margin margin (a1 @ t) (length a1) = Some (a2 @ t)"
    using color_margin_line [OF assms(2)] by blast
  then show ?thesis using a1 by (intro line_resultI [of a2 a st]) simp_all
qed

text \<open>
  The lines that the C colorizer treats properly: \<open>#if 0\<close> stands in the first column only, and the
  line is not empty inside of such a block.
\<close>

definition c_ok :: "nat \<Rightarrow> u32 list \<Rightarrow> bool" where
  "c_ok st l \<longleftrightarrow> no_if0 l 0 \<and> (st = C_IF0 \<longrightarrow> l \<noteq> [])"

lemma parse_disabled_line:
  assumes "a \<noteq> []"
  shows "line_result (\<lambda>buf. parse_disabled_block buf (length a)) a"
proof -
  have len: "0 + length a \<le> length a" by simp
  have d: "drop (Suc 0) (a @ 10 # rest) = drop (Suc 0) a @ 10 # rest" for rest using assms by (cases a) simp_all
  have d2: "drop 2 (drop (Suc 0) a @ 10 # rest) = drop 2 (drop (Suc 0) a) @ 10 # rest" if "prefix [101, 108] (drop (Suc 0) a)" for rest
    using that by (auto simp: prefix_def simp del: drop_append drop_drop)
  note l = looking_at_line [of "[101, 110, 100, 105, 102]"] looking_at_line [of "[101, 108]"]
    looking_at_line [of "[105, 102]"] looking_at_line [of "[115, 101]"]
  define commented where "commented = paint a 0 (length a) QE_STYLE_COMMENT"
  have p: "color_at (a @ t) 0 (length a) QE_STYLE_COMMENT = Some (commented @ t)" for t
    using color_at_line [OF len] by (simp add: commented_def)
  have cm: "length commented = length a" by (simp add: commented_def paint_def)
  have cc: "same_chars a commented" unfolding commented_def by (rule paint_chars)
  consider "prefix [101, 110, 100, 105, 102] (drop (Suc 0) a)"
    | "\<not> prefix [101, 110, 100, 105, 102] (drop (Suc 0) a)" "prefix [101, 108] (drop (Suc 0) a)"
    | "\<not> prefix [101, 110, 100, 105, 102] (drop (Suc 0) a)" "\<not> prefix [101, 108] (drop (Suc 0) a)" by blast
  then show ?thesis
  proof cases
    case 1
    then show ?thesis using cm cc l
      by (intro line_resultI [of commented a 0]) (auto simp add: parse_disabled_block_def Let_def d p simp del: drop_drop drop_append)
  next
    case 2
    show ?thesis
    proof (cases "prefix [105, 102] (drop 2 (drop (Suc 0) a)) \<or> prefix [115, 101] (drop 2 (drop (Suc 0) a))")
      case True
      then show ?thesis using cm cc 2 l d2 [OF 2(2)]
        by (intro line_resultI [of commented a 0]) (auto simp add: parse_disabled_block_def Let_def d p simp del: drop_drop drop_append)
    next
      case False
      then show ?thesis using 2 l d2 [OF 2(2)]
        by (intro line_result_trans [OF parse_preprocessor_line [of 0 a]])
          (auto simp add: parse_disabled_block_def Let_def d simp del: drop_drop drop_append)
    qed
  next
    case 3
    then show ?thesis using cm cc l
      by (intro line_resultI [of commented a C_IF0]) (auto simp add: parse_disabled_block_def Let_def d p C_IF0_def simp del: drop_drop drop_append)
  qed
qed

lemma c_colorize_line_result:
  assumes "margin_ok margin" "c_ok st a" "st < 6"
  shows "line_result (\<lambda>buf. c_colorize_line margin buf (length a) st) a"
proof -
  have n: "no_if0 a 0" and e: "st = C_IF0 \<Longrightarrow> a \<noteq> []" using assms(2) by (simp_all add: c_ok_def)
  have loop: "line_result (\<lambda>buf. c_loop buf (length a) q st' False) a'" if "line_part g a 0 a' q r" "st' < 6"
    for g a' q and r :: 'x and st'
    by (rule c_loop_line) (use that no_if0_part [OF n that(1)] in \<open>auto simp: line_part_def\<close>)
  note states = C_COMMENT_def C_STRING_def C_STRING_Q_def C_PREPROCESS_def C_IF0_def
  have "line_result (\<lambda>buf. if st = C_COMMENT then do {
           (buf, p, st) \<leftarrow> parse_comment buf 0 0;
           c_loop buf (length a) p st False }
         else if st = C_STRING \<or> st = C_STRING_Q then do {
           (buf, p, st) \<leftarrow> parse_string buf 0 0 st;
           c_loop buf (length a) p st False }
         else if st = C_PREPROCESS then parse_preprocessor buf (length a) 0
         else if st = C_IF0 then parse_disabled_block buf (length a)
         else c_loop buf (length a) 0 st False) a"
  proof -
    consider "st = C_COMMENT" | "st = C_STRING \<or> st = C_STRING_Q" "st \<noteq> C_COMMENT" | "st = C_PREPROCESS" | "st = C_IF0"
      | "st \<notin> {C_COMMENT, C_STRING, C_STRING_Q, C_PREPROCESS, C_IF0}" by blast
    then show ?thesis
    proof cases
      case 1
      obtain a' q st' where p: "st' < 6" "line_part (\<lambda>buf. parse_comment buf 0 0) a 0 a' q st'"
        using parse_comment_line [of 0 0 a] by auto
      show ?thesis
        by (rule line_part_result [where h = "\<lambda>buf p st. c_loop buf (length a) p st False", OF p(2) loop [OF p(2,1)]]) (simp add: 1)
    next
      case 2
      obtain a' q st' where p: "st' < 6" "line_part (\<lambda>buf. parse_string buf 0 0 st) a 0 a' q st'"
        using parse_string_line [of 0 0 a st] assms(3) by auto
      show ?thesis
        by (rule line_part_result [where h = "\<lambda>buf p st. c_loop buf (length a) p st False", OF p(2) loop [OF p(2,1)]]) (use 2 in simp)
    next
      case 3
      then show ?thesis using parse_preprocessor_line [of 0 a] by (simp add: states)
    next
      case 4
      then show ?thesis using parse_disabled_line [OF e] by (simp add: states)
    next
      case 5
      then show ?thesis using c_loop_line [of 0 a "length a" st False] n assms(3) by simp
    qed
  qed
  from line_result_margin [OF this assms(1)] show ?thesis by (simp only: c_colorize_line_def)
qed

lemma py_colorize_line_result:
  assumes "margin_ok margin" "st < 6"
  shows "line_result (\<lambda>buf. py_colorize_line margin buf (length a) st) a"
proof -
  have "line_result (\<lambda>buf. if st = PY_STRING \<or> st = PY_STRING_Q then do {
           (buf, p, st) \<leftarrow> parse_string buf 0 0 st;
           py_loop buf p st False }
         else py_loop buf 0 st False) a"
  proof (cases "st = PY_STRING \<or> st = PY_STRING_Q")
    case True
    obtain a' q st' where p: "st' < 6" "line_part (\<lambda>buf. parse_string buf 0 0 st) a 0 a' q st'"
      using parse_string_line [of 0 0 a st] assms(2) by auto
    then have "line_result (\<lambda>buf. py_loop buf q st' False) a'" by (intro py_loop_line) (simp_all add: line_part_def)
    then show ?thesis
      by (rule line_part_result [where h = "\<lambda>buf p st. py_loop buf p st False", OF p(2)]) (use True in simp)
  next
    case False
    then show ?thesis using py_loop_line [of 0 a st False] assms(2) by simp
  qed
  from line_result_margin [OF this assms(1)] show ?thesis by (simp only: py_colorize_line_def)
qed

section \<open>The contract\<close>

lemma line_result_only:
  "line_result g l \<Longrightarrow> \<exists>l' st'. st' < 6 \<and> length l' = length l \<and> (\<forall>rest. g (l @ 10 # rest) = Some (l' @ 10 # rest, st'))"
  by (auto simp: line_result_def)

interpretation c: colorizer "c_colorize_line (map_option int g)" c_ok 6 for g
  by unfold_locales (auto intro!: line_result_only c_colorize_line_result simp: margin_ok_def)

interpretation py: colorizer "py_colorize_line (map_option int g)" "\<lambda>_ _. True" 6 for g
  by unfold_locales (auto intro!: line_result_only py_colorize_line_result simp: margin_ok_def)

lemma chars_masked: "map (\<lambda>c. c AND CHAR_MASK) (chars l) = chars l"
proof -
  have m: "CHAR_MASK = mask 20" by (simp add: CHAR_MASK_def mask_eq_exp_minus_1)
  have "ucast c AND CHAR_MASK = (ucast c :: u32)" for c :: u8
    unfolding m by (rule bit_word_eqI) (auto simp: bit_simps dest: bit_imp_le_length)
  then show ?thesis by (simp add: chars_def)
qed

section \<open>Properties\<close>

text \<open>C25. The colours of C are always right: after any insertions, deletions, overwritings and undos, each with its
  callbacks, and any queries in between, \<open>get_colorized_line\<close> colours a line as if the text was coloured from its first line
  on, and the characters of the line are those of the text. The lines must not be of the two kinds
  that make the colorizer leave the line (\<open>c_ok\<close>).
\<close>

theorem c_colors_right:
  assumes "colored (c_colorize_line (map_option int g)) c_ok n b e t" "0 < n"
    "lines_ok (c_colorize_line (map_option int g)) c_ok n t" "n \<le> length buf" "k \<le> count_list t 10"
  shows "\<exists>st l' st' rest b' e'. line_state (c_colorize_line (map_option int g)) n t k = Some st \<and>
    color_line (c_colorize_line (map_option int g)) st (cut_line n k t) = Some (l', st') \<and>
    map (\<lambda>c. c AND CHAR_MASK) l' = cut_line n k t \<and>
    get_colorized_line (c_colorize_line (map_option int g)) True junk b e buf n (int (line_start k t)) k =
      Some (length l', l' @ 10 # rest, b', e')"
proof -
  let ?f = "c_colorize_line (map_option int g)"
  obtain st l' st' rest b' e' where r: "line_state ?f n t k = Some st" "color_line ?f st (cut_line n k t) = Some (l', st')"
    "get_colorized_line ?f True junk b e buf n (int (line_start k t)) k = Some (length l', l' @ 10 # rest, b', e')"
    using c.colored_query [OF assms(1-5)] by blast
  have "st < 6" using c.state_defined [OF assms(3), of k] assms(5) r(1) by auto
  moreover have "c_ok st (cut_line n k t)" using assms(3,5) r(1) by (simp add: lines_ok_def)
  ultimately have "line_result (\<lambda>buf. ?f buf (length (cut_line n k t)) st) (cut_line n k t)"
    by (intro c_colorize_line_result) (auto simp: margin_ok_def)
  then have "same_chars (cut_line n k t) l'" using r(2) by (auto simp: line_result_def color_line_def)
  then show ?thesis using r chars_masked by (auto simp: cut_line_def)
qed

text \<open>Two lines, the second of which becomes a comment when \<open>/*\<close> is inserted before it.\<close>

lemma no_if0_short: "length l < 5 \<Longrightarrow> no_if0 l p"
  by (auto simp: no_if0_def dest!: prefix_length_le)

lemma short_lines_ok:
  "lines_ok (c_colorize_line None) c_ok 8 [10, 120]" "lines_ok (c_colorize_line None) c_ok 8 [47, 42, 10, 120]"
proof -
  have e: "line_state (c_colorize_line None) 8 [10, 120] 1 = Some 0" "cut_line 8 0 [10, 120] = []" "cut_line 8 1 [10, 120] = [120]"
    "line_state (c_colorize_line None) 8 [47, 42, 10, 120] 1 = Some 1" "cut_line 8 0 [47, 42, 10, 120] = [47, 42]"
    "cut_line 8 1 [47, 42, 10, 120] = [120]" by code_simp+
  show "lines_ok (c_colorize_line None) c_ok 8 [10, 120]" "lines_ok (c_colorize_line None) c_ok 8 [47, 42, 10, 120]"
    using e by (auto simp: lines_ok_def c_ok_def C_IF0_def le_Suc_eq intro!: no_if0_short)
qed

theorem c_colors_right_witness:
  "\<exists>b b1 e1 b2 rest1 rest2 b3 e3. contents b = [10, 120] \<and>
    get_colorized_line (c_colorize_line None) True [] b set_colorize_func (replicate 8 0) 8 1 1 =
      Some (1, (120 OR push_bit STYLE_SHIFT QE_STYLE_TYPE) # 10 # rest1, b1, e1) \<and>
    eb_insert b1 0 [47, 42] = Some b2 \<and>
    get_colorized_line (c_colorize_line None) True [] b2 (colorize_callback 0 e1) (replicate 8 0) 8 3 1 =
      Some (1, (120 OR push_bit STYLE_SHIFT QE_STYLE_COMMENT) # 10 # rest2, b3, e3)"
proof -
  let ?f = "c_colorize_line (map_option int None)"
  obtain b where b: "byte_text b [10, 120]" using byte_text_exists [of "[10, 120]"] by auto
  have c0: "colored ?f c_ok 8 b set_colorize_func [10, 120]" by (rule colored.start [OF b]) simp
  have v: "line_state ?f 8 [10, 120] 1 = Some 0"
    "color_line ?f 0 (cut_line 8 1 [10, 120]) = Some ([120 OR push_bit STYLE_SHIFT QE_STYLE_TYPE], 0)"
    "line_state ?f 8 [47, 42, 10, 120] 1 = Some 1"
    "color_line ?f 1 (cut_line 8 1 [47, 42, 10, 120]) = Some ([120 OR push_bit STYLE_SHIFT QE_STYLE_COMMENT], 1)"
    "line_start 1 [10, 120] = 1" "line_start 1 [47, 42, 10, 120] = 3" by code_simp+
  obtain rest1 b1 e1 where q1: "get_colorized_line ?f True [] b set_colorize_func (replicate 8 0) 8 1 1 =
      Some (1, (120 OR push_bit STYLE_SHIFT QE_STYLE_TYPE) # 10 # rest1, b1, e1)"
    using c_colors_right [OF c0 _ _ _, of "replicate 8 0" 1 "[]"] short_lines_ok v by auto
  have c1: "colored ?f c_ok 8 b1 e1 [10, 120]"
    using colored.query [OF c0, of "replicate 8 0" 1 "[]"] q1 short_lines_ok v by auto
  have b1: "byte_text b1 [10, 120]" using c.colored_invariant [OF c1] by simp
  obtain b2 where b2: "eb_insert b1 0 [47, 42] = Some b2" using byte_text_insert [OF b1, of 0 "[47, 42]"] by auto
  have c2: "colored ?f c_ok 8 b2 (colorize_callback 0 e1) [47, 42, 10, 120]"
    using colored.insert [OF c1 _ _ b2] by (simp add: list_insert_def)
  obtain rest2 b3 e3 where "get_colorized_line ?f True [] b2 (colorize_callback 0 e1) (replicate 8 0) 8 3 1 =
      Some (1, (120 OR push_bit STYLE_SHIFT QE_STYLE_COMMENT) # 10 # rest2, b3, e3)"
    using c_colors_right [OF c2 _ _ _, of "replicate 8 0" 1 "[]"] short_lines_ok v by auto
  then show ?thesis using q1 b2 byte_textD(2) [OF b] by auto
qed

text \<open>The colorizers and their line. Whatever stands in the array behind the line and its newline, the one of Python
  returns, leaves it alone, changes no character of the line, and leaves one of its six states; so does the one of C on
  lines that fulfil \<open>c_ok\<close>, that is, that neither have \<open>#if 0\<close> behind the first column nor are an empty line of a disabled
  block.
\<close>

theorem colorizers_stay_in_line:
  assumes "st < 6"
  shows "(\<exists>l' st'. length l' = length l \<and> same_chars l l' \<and> st' < 6 \<and>
      (\<forall>rest. py_colorize_line (map_option int g) (l @ 10 # rest) (length l) st = Some (l' @ 10 # rest, st'))) \<and>
    (c_ok st l \<longrightarrow> (\<exists>l' st'. length l' = length l \<and> same_chars l l' \<and> st' < 6 \<and>
      (\<forall>rest. c_colorize_line (map_option int g) (l @ 10 # rest) (length l) st = Some (l' @ 10 # rest, st'))))"
proof -
  have m: "margin_ok (map_option int g)" by (auto simp: margin_ok_def)
  show ?thesis
    using py_colorize_line_result [OF m assms, of l] c_colorize_line_result [OF m _ assms, of l]
    unfolding line_result_def by blast
qed

text \<open>An unfinished string of Python, and a C type behind the end of a comment.\<close>

theorem colorizers_stay_in_line_witness:
  "(\<exists>l' st'. length l' = 3 \<and> same_chars [39, 97, 98] l' \<and> st' < 6 \<and>
      (\<forall>rest. py_colorize_line (Some 2) ([39, 97, 98] @ 10 # rest) 3 0 = Some (l' @ 10 # rest, st'))) \<and>
    (\<exists>l' st'. length l' = 3 \<and> same_chars [39, 97, 98] l' \<and> st' < 6 \<and>
      (\<forall>rest. c_colorize_line (Some 2) ([39, 97, 98] @ 10 # rest) 3 0 = Some (l' @ 10 # rest, st')))"
proof -
  have "c_ok 0 [39, 97, 98]" by (simp add: c_ok_def C_IF0_def no_if0_short)
  then show ?thesis using colorizers_stay_in_line [of 0 "[39, 97, 98]" "Some 2"] by (simp add: numeral_3_eq_3)
qed

section \<open>Keywords\<close>

text \<open>The search for the word between bars in the text of the keywords finds exactly the keywords.\<close>

fun bars :: "string list \<Rightarrow> string" where
  "bars [] = ''|''"
| "bars (w # ws) = ''|'' @ w @ bars ws"

lemma split_bar:
  assumes "CHR ''|'' \<notin> set a" "CHR ''|'' \<notin> set b" "a @ CHR ''|'' # x = b @ CHR ''|'' # y"
  shows "a = b \<and> x = y"
  using assms
proof (induction a arbitrary: b)
  case Nil
  then show ?case by (cases b) auto
next
  case (Cons c a)
  then show ?case by (cases b) auto
qed

lemma bars_bar: "\<exists>t. bars ws = CHR ''|'' # t"
  by (cases ws) simp_all

lemma keyword_lookup:
  assumes "CHR ''|'' \<notin> set w" "\<forall>v \<in> set ws. CHR ''|'' \<notin> set v"
  shows "sublist (''|'' @ w @ ''|'') (bars ws) \<longleftrightarrow> w \<in> set ws"
  using assms(2)
proof (induction ws)
  case Nil
  have "\<not> sublist (''|'' @ w @ ''|'') ''|''" using sublist_length_le [of "''|'' @ w @ ''|''" "''|''"] by auto
  then show ?case by simp
next
  case (Cons v ws)
  obtain t where t: "bars ws = CHR ''|'' # t" using bars_bar by blast
  have nv: "CHR ''|'' \<notin> set v" using Cons.prems by simp
  have "sublist (''|'' @ w @ ''|'') (bars (v # ws)) \<longleftrightarrow> w = v \<or> sublist (''|'' @ w @ ''|'') (bars ws)"
  proof
    assume "sublist (''|'' @ w @ ''|'') (bars (v # ws))"
    then obtain ps ss where e: "CHR ''|'' # v @ bars ws = ps @ CHR ''|'' # w @ CHR ''|'' # ss"
      by (auto simp: sublist_def)
    show "w = v \<or> sublist (''|'' @ w @ ''|'') (bars ws)"
    proof (cases ps)
      case Nil
      then have "v @ CHR ''|'' # t = w @ CHR ''|'' # ss" using e t by simp
      then show ?thesis using split_bar [OF nv assms(1)] by blast
    next
      case (Cons c ps')
      then have e': "v @ bars ws = ps' @ CHR ''|'' # w @ CHR ''|'' # ss" using e by simp
      have "length v \<le> length ps'"
      proof (rule ccontr)
        assume a: "\<not> length v \<le> length ps'"
        then have "(v @ bars ws) ! length ps' = v ! length ps'" by (simp add: nth_append)
        then have "v ! length ps' = CHR ''|''" using e' by simp
        then show False using a nth_mem [of "length ps'" v] nv by simp
      qed
      then have "take (length v) ps' = take (length v) (v @ bars ws)" using e' by simp
      then obtain q where "ps' = v @ q" by (metis append_eq_conv_conj append_take_drop_id)
      then have "bars ws = q @ (''|'' @ w @ ''|'') @ ss" using e' by simp
      then show ?thesis unfolding sublist_def by blast
    qed
  next
    assume "w = v \<or> sublist (''|'' @ w @ ''|'') (bars ws)"
    then show "sublist (''|'' @ w @ ''|'') (bars (v # ws))"
    proof
      assume "w = v"
      then have "bars (v # ws) = [] @ (''|'' @ w @ ''|'') @ t" using t by simp
      then show ?thesis unfolding sublist_def by blast
    next
      assume "sublist (''|'' @ w @ ''|'') (bars ws)"
      then obtain ps ss where "bars ws = ps @ (''|'' @ w @ ''|'') @ ss" unfolding sublist_def by blast
      then have "bars (v # ws) = (''|'' @ v @ ps) @ (''|'' @ w @ ''|'') @ ss" by simp
      then show ?thesis unfolding sublist_def by blast
    qed
  qed
  then show ?case using Cons by auto
qed

lemma py_keywords_bars:
  "py_keywords = bars [''def'', ''break'', ''continue'', ''do'', ''else'', ''for'', ''elif'', ''try'', ''except'', ''pass'',
    ''throw'', ''if'', ''return'', ''while'', ''with'', ''as'']"
  by (simp add: py_keywords_def)

lemma c_types_bars:
  "c_types = bars [''char'', ''double'', ''float'', ''int'', ''long'', ''unsigned'', ''short'', ''signed'', ''void'', ''var'',
    ''u8'', ''uint8_t'', ''u16'', ''uint16_t'', ''u32'', ''uint32_t'', ''u64'', ''uint64_t'', ''bool'', ''vector'',
    ''ordered_map'', ''unordered_map'', ''string'', ''nullptr'']"
  by (simp add: c_types_def)

section \<open>What the colorizer of C does wrong\<close>

text \<open>In a disabled block an empty line is judged by what the array held before.\<close>

lemma empty_line_reads_leftovers:
  "c_colorize_line None ([10] @ [101, 110, 100, 105, 102]) 0 C_IF0 = Some ([10, 101, 110, 100, 105, 102], 0)"
  "c_colorize_line None ([10] @ [0, 0, 0, 0, 0]) 0 C_IF0 = Some ([10, 0, 0, 0, 0, 0], C_IF0)"
  by code_simp+

text \<open>A disabled block ends at any line with \<open>endif\<close> or just \<open>el\<close> behind its first character, as in \<open>help\<close>.\<close>

lemma block_ends_early:
  "map_option snd (c_colorize_line None [104, 101, 108, 112, 10] 4 C_IF0) = Some 0"
  "map_option snd (c_colorize_line None [120, 101, 110, 100, 105, 102, 10] 6 C_IF0) = Some 0"
  by code_simp+

text \<open>\<open>#if 0\<close> behind the first column colours as many characters as the line has, beyond the end of the array.\<close>

lemma if0_overflows: "c_colorize_line None [32, 32, 35, 105, 102, 32, 48, 10] 7 0 = None"
  by code_simp

end
