(* ===== verification/Indent_Theorems.thy ===== *)
theory Indent_Theorems
  imports Indent Language_Theorems
begin

text \<open>
  Indenting a line changes its leading blanks only, whatever the lines before it are: the search ends, the array of the
  line is big enough, and the cursor goes behind the indentation.
\<close>

section \<open>Lines of a text\<close>

lemma whole_lines_ex: "\<exists>ls. whole_lines ls \<and> t = join ls"
proof (induction "length t" arbitrary: t rule: less_induct)
  case less
  show ?case
  proof (cases "memchr_after t")
    case None
    then show ?thesis using memchr_after_None [of t] by (intro exI [of _ "[t]"]) (simp add: whole_lines_def)
  next
    case (Some r)
    then obtain a where a: "t = a @ 10 # r" "10 \<notin> set a" using memchr_after_Some by blast
    then obtain ls where ls: "whole_lines ls" "r = join ls" using less.hyps [of r] by auto
    then have "ls \<noteq> []" by (simp add: whole_lines_def)
    then show ?thesis using a ls by (intro exI [of _ "a # ls"]) (auto simp: whole_lines_def join_Cons)
  qed
qed

lemma count_join: "whole_lines ls \<Longrightarrow> count_list (join ls) 10 = length ls - 1"
proof (induction ls)
  case (Cons l ls)
  then have l: "count_list l 10 = 0" by (simp add: whole_lines_def count_list_zero)
  show ?case
  proof (cases "ls = []")
    case False
    then have "whole_lines ls" using Cons.prems by (simp add: whole_lines_def)
    then show ?thesis using Cons.IH False l by (cases ls) (simp_all add: join_Cons)
  qed (simp add: l)
qed simp

lemma nth_line_join: "whole_lines ls \<Longrightarrow> k < length ls \<Longrightarrow> nth_line k (join ls) = ls ! k"
  by (simp add: nth_line_def join_line_text)

lemma takeWhile_in_line: "\<not> P 10 \<Longrightarrow> takeWhile P x = takeWhile P (takeWhile (\<lambda>c. c \<noteq> 10) x)"
  by (induction x) auto

lemma list_insert_twice:
  "p \<le> length t \<Longrightarrow> list_insert (p + length x) y (list_insert p x t) = list_insert p (x @ y) t"
  by (simp add: list_insert_def)

section \<open>Positions\<close>

lemma next_stop_bounds: "0 < ts \<Longrightarrow> 0 \<le> pos \<Longrightarrow> \<exists>q. next_stop ts pos = Some q \<and> pos < q \<and> q \<le> pos + ts"
  by (auto simp: next_stop_def)

lemma find_indent1_line:
  assumes "0 < ts" "0 \<le> pos"
  shows "\<exists>q. find_indent1 ts (l @ 10 # rest) pos = Some q \<and> pos \<le> q \<and> q \<le> pos + ts * int (length l)"
  using assms
proof (induction l arbitrary: pos)
  case (Cons c l)
  obtain q where q: "next_stop ts pos = Some q" "pos < q" "q \<le> pos + ts" using next_stop_bounds [OF Cons.prems] by blast
  obtain r where r: "find_indent1 ts (l @ 10 # rest) q = Some r" "q \<le> r" "r \<le> q + ts * int (length l)"
    using Cons.IH [of q] q(2) Cons.prems by auto
  obtain r' where r': "find_indent1 ts (l @ 10 # rest) (pos + 1) = Some r'" "pos + 1 \<le> r'" "r' \<le> pos + 1 + ts * int (length l)"
    using Cons.IH [of "pos + 1"] Cons.prems by auto
  have "0 \<le> ts * int (length l)" using Cons.prems by simp
  then show ?case using q r r' Cons.prems by (auto simp: Let_def distrib_left)
qed (simp add: CHAR_MASK_def)

lemma find_pos_line:
  assumes "0 < ts" "0 \<le> pos"
  shows "\<exists>q. find_pos ts l pos = Some q \<and> pos \<le> q \<and> q \<le> pos + ts * int (length l)"
  using assms
proof (induction l arbitrary: pos)
  case (Cons c l)
  obtain q where q: "next_stop ts pos = Some q" "pos < q" "q \<le> pos + ts" using next_stop_bounds [OF Cons.prems] by blast
  obtain r where r: "find_pos ts l q = Some r" "q \<le> r" "r \<le> q + ts * int (length l)"
    using Cons.IH [of q] q(2) Cons.prems by auto
  obtain r' where r': "find_pos ts l (pos + 1) = Some r'" "pos + 1 \<le> r'" "r' \<le> pos + 1 + ts * int (length l)"
    using Cons.IH [of "pos + 1"] Cons.prems by auto
  show ?case using q r r' Cons.prems by (auto simp: distrib_left)
qed simp

section \<open>The search in one line\<close>

definition search_ok :: "int \<Rightarrow> int \<Rightarrow> Search \<Rightarrow> bool" where
  "search_ok m is st \<longleftrightarrow> 0 \<le> i_pos st \<and> i_pos st \<le> m + is + 1 \<and> -1 \<le> lpos st \<and> lpos st \<le> m \<and>
     (find_eq st \<longrightarrow> 0 \<le> lpos st)"

fun found_ok :: "int \<Rightarrow> int \<Rightarrow> found \<Rightarrow> bool" where
  "found_ok m is (Prev_line st) = search_ok m is st"
| "found_ok m is (End_parse st) = search_ok m is st"
| "found_ok m is Give_up = True"

abbreviation search_ends :: "int \<Rightarrow> int \<Rightarrow> found option \<Rightarrow> bool" where
  "search_ends m is r \<equiv> \<exists>x. r = Some x \<and> found_ok m is x"

lemma check_instr_ends:
  assumes "search_ok m is st" "0 \<le> is" "\<And>st. search_ok m is st \<Longrightarrow> search_ends m is (k st)"
  shows "search_ends m is (check_instr is st k)"
  using assms by (auto simp: check_instr_def search_ok_def)

lemma search_ok_fields [simp]:
  "search_ok m is (push st) = search_ok m is st" "search_ok m is (pop st) = search_ok m is st"
  "search_ok m is (st\<lparr>eoi_found := e\<rparr>) = search_ok m is st"
  by (simp_all add: search_ok_def push_def pop_def)

lemma if_ends:
  "(c \<Longrightarrow> search_ends m is r) \<Longrightarrow> (\<not> c \<Longrightarrow> search_ends m is r') \<Longrightarrow> search_ends m is (if c then r else r')"
  by simp

lemma scan_line_ends:
  assumes "0 < ts" "0 \<le> is" "0 \<le> pos1" "pos1 \<le> m" "ts * int (length cs) \<le> m" "search_ok m is st"
  shows "search_ends m is (scan_line ts is pos1 cs st)"
  using assms
proof (induction "length cs" arbitrary: cs st rule: less_induct)
  case less
  show ?case
  proof (cases cs)
    case (Cons x before)
    have len: "ts * int (length rest) \<le> m" if "length rest \<le> length before" for rest
    proof -
      have "ts * int (length rest) \<le> ts * int (length cs)" using that Cons less.prems(1) by (intro mult_left_mono) simp_all
      then show ?thesis using less.prems(5) by linarith
    qed
    have k: "search_ends m is (scan_line ts is pos1 rest st')" if "length rest \<le> length before" "search_ok m is st'" for rest st'
      by (rule less.hyps [OF _ less.prems(1-4) len [OF that(1)] that(2)]) (use that Cons in simp)
    have k1: "search_ends m is (scan_line ts is pos1 before st')" if "search_ok m is st'" for st'
      using k that by simp
    obtain q where q: "find_pos ts (rev before) 0 = Some q" "0 \<le> q" "q \<le> m"
      using find_pos_line [OF less.prems(1), of 0 "rev before"] len [of "rev before"] by auto
    have kw: "length (snd (keyword_word x before)) \<le> length before" by (simp add: keyword_word_def Let_def)
    have ends: "search_ok m is (st\<lparr>i_pos := pos1 + is\<rparr>)" "search_ok m is (st\<lparr>i_pos := q + 1\<rparr>)" "search_ok m is (st\<lparr>lpos := pos1\<rparr>)"
      "search_ok m is (st\<lparr>i_pos := pos1 + is, eoi_found := True\<rparr>)"
      "find_eq st \<Longrightarrow> search_ok m is (st\<lparr>i_pos := lpos st\<rparr>)" "lpos st \<noteq> -1 \<Longrightarrow> search_ok m is (st\<lparr>find_eq := True\<rparr>)"
      using less.prems q by (simp_all add: search_ok_def)
    show ?thesis
      unfolding Cons scan_line.simps(2) Let_def case_prod_unfold
      by (intro if_ends k1 k [OF kw] check_instr_ends [OF _ less.prems(2) k1]) (use less.prems(6) ends q(1) in simp_all)
  qed (use less.prems in \<open>simp add: scan_line.simps\<close>)
qed

section \<open>Windows\<close>

text \<open>The window shows the lines \<open>ls\<close>; its settings are those of \<open>v\<close>.\<close>

definition shows_lines :: "colorize_func \<Rightarrow> CodeWindow \<Rightarrow> u8 list list \<Rightarrow> bool" where
  "shows_lines f w ls \<longleftrightarrow> whole_lines ls \<and> byte_text (cw_b w) (join ls) \<and> colors_ok f 511 (cw_colors w) (join ls) \<and>
     0 < tab_size w \<and> 0 \<le> indent_size w"

definition like :: "CodeWindow \<Rightarrow> CodeWindow \<Rightarrow> bool" where
  "like v w \<longleftrightarrow> tab_size w = tab_size v \<and> indent_size w = indent_size v \<and> indent_tabs_mode w = indent_tabs_mode v \<and>
     off (cw_s w) = off (cw_s v)"

lemma like_refl [simp]: "like w w" and like_trans: "like u v \<Longrightarrow> like v w \<Longrightarrow> like u w"
  by (auto simp: like_def)

lemma with_b_fields [simp]:
  "cw_b (with_b w b) = b" "cw_colors (with_b w b) = cw_colors w" "tab_size (with_b w b) = tab_size w"
  "indent_size (with_b w b) = indent_size w" "indent_tabs_mode (with_b w b) = indent_tabs_mode w"
  by (simp_all add: with_b_def)

lemma with_b_lines:
  assumes "shows_lines f w ls" "byte_text b (join ls)" "tracked b = tracked (cw_b w)"
  shows "shows_lines f (with_b w b) ls" "like w (with_b w b)"
  using assms by (simp_all add: shows_lines_def like_def off_def with_b_def)

lemma goto_bol_line:
  assumes "byte_text b (join ls)" "whole_lines ls" "k < length ls" "c \<le> length (ls ! k)"
  shows "\<exists>b'. eb_goto_bol b (int (line_start k (join ls) + c)) = Some (int (line_start k (join ls)), b') \<and>
    byte_text b' (join ls) \<and> tracked b' = tracked b"
proof -
  let ?p = "line_start k (join ls) + c"
  note d = byte_textD [OF assms(1)]
  have p: "?p \<le> length (join ls)" "snd (line_col (take ?p (join ls))) = c"
    using join_line(3,4) [OF assms(2-4)] assms(4) by simp_all
  obtain b' where b': "eb_goto_bol b (int ?p) = Some (int (?p - c), b')" "same_doc b b'"
    using eb_goto_bol_8bit [OF d(1,6), of ?p] p unfolding d(2) by auto
  then show ?thesis using byte_text_same_doc [OF assms(1) b'(2)] by auto
qed

lemma prev_line:
  assumes "byte_text b (join ls)" "whole_lines ls" "Suc k < length ls"
  shows "\<exists>c b1 b2. eb_prevc b (int (line_start (Suc k) (join ls))) = Some (c, int (line_start k (join ls) + length (ls ! k)), b1) \<and>
    eb_goto_bol b1 (int (line_start k (join ls) + length (ls ! k))) = Some (int (line_start k (join ls)), b2) \<and>
    byte_text b2 (join ls) \<and> tracked b2 = tracked b"
proof -
  have k: "k < length ls" using assms(3) by simp
  let ?p = "line_start k (join ls) + length (ls ! k)"
  have p: "line_start (Suc k) (join ls) = Suc ?p" "?p < length (join ls)"
  proof -
    have s: "line_start (Suc k) (join ls) = sum_list (map length (take (Suc k) ls)) + Suc k"
      by (rule line_start_join [OF assms(2,3)])
    have "line_start k (join ls) = sum_list (map length (take k ls)) + k" by (rule line_start_join [OF assms(2) k])
    then show "line_start (Suc k) (join ls) = Suc ?p" using s k by (simp add: take_Suc_conv_app_nth del: line_start.simps)
    then show "?p < length (join ls)" using line_start_le [of "Suc k" "join ls"] by (simp del: line_start.simps)
  qed
  obtain b1 where b1: "eb_prevc b (int (Suc ?p)) = Some (uint (join ls ! ?p), int ?p, b1)" "byte_text b1 (join ls)"
    "tracked b1 = tracked b"
    using byte_text_prevc [OF assms(1) p(2)] by blast
  then show ?thesis using goto_bol_line [OF b1(2) assms(2) k, of "length (ls ! k)"] p(1) by (auto simp del: line_start.simps)
qed

context colorizer
begin

lemma cw_line_text:
  assumes "shows_lines f w ls" "lines_ok f ok 511 (join ls)" "k < length ls" "length buf = 512"
  shows "\<exists>l' rest w'. cw_line f True junk w buf (int (line_start k (join ls))) k = Some (length l', l' @ 10 # rest, w') \<and>
    length (l' @ 10 # rest) = 512 \<and> length l' \<le> 510 \<and> shows_lines f w' ls \<and> like w w'"
proof -
  have w: "whole_lines ls" "byte_text (cw_b w) (join ls)" "colors_ok f 511 (cw_colors w) (join ls)"
    using assms(1) by (simp_all add: shows_lines_def)
  have k: "k \<le> count_list (join ls) 10" using assms(3) count_join [OF w(1)] by simp
  have n: "(511 :: nat) \<le> length buf" using assms(4) by simp
  obtain st l' st' rest b' e' where r: "length l' = length (cut_line 511 k (join ls))"
    "get_colorized_line f True junk (cw_b w) (cw_colors w) buf 511 (int (line_start k (join ls))) k = Some (length l', l' @ 10 # rest, b', e')"
    "length (l' @ 10 # rest) = length buf" "byte_text b' (join ls)" "tracked b' = tracked (cw_b w)" "colors_ok f 511 e' (join ls)"
    using query_line [OF assms(2) w(2) _ n k w(3), of junk] by auto
  have "length l' \<le> 510" using r(1) by (simp add: cut_line_def chars_def)
  moreover have "shows_lines f ((with_b w b')\<lparr>cw_colors := e'\<rparr>) ls" "like w ((with_b w b')\<lparr>cw_colors := e'\<rparr>)"
    using assms(1) r(4-6) by (simp_all add: shows_lines_def like_def off_def with_b_def)
  moreover have "cw_line f True junk w buf (int (line_start k (join ls))) k =
      Some (length l', l' @ 10 # rest, (with_b w b')\<lparr>cw_colors := e'\<rparr>)"
    using r(2) by (simp add: cw_line_def MAX_BUF_SIZE_def)
  moreover have "length (l' @ 10 # rest) = 512" using r(3) assms(4) by simp
  ultimately show ?thesis by blast
qed

lemma scan_lines_end:
  assumes "shows_lines f w ls" "lines_ok f ok 511 (join ls)" "k < length ls" "length buf = 512"
    "510 * tab_size w \<le> m" "search_ok m (indent_size w) st"
  shows "\<exists>w' buf' r. scan_lines f True junk w buf (int (line_start k (join ls))) k st = Some (w', buf', r) \<and>
    length buf' = 512 \<and> shows_lines f w' ls \<and> like w w' \<and> (\<forall>st. r = Some st \<longrightarrow> search_ok m (indent_size w) st)"
  using assms
proof (induction k arbitrary: w buf st)
  case 0
  then show ?case by (simp add: scan_lines.simps)
next
  case (Suc k)
  have w: "whole_lines ls" "byte_text (cw_b w) (join ls)" "0 < tab_size w" "0 \<le> indent_size w"
    using Suc.prems(1) by (simp_all add: shows_lines_def)
  have k: "k < length ls" using Suc.prems(3) by simp
  obtain c b1 b2 where b: "eb_prevc (cw_b w) (int (line_start (Suc k) (join ls))) = Some (c, int (line_start k (join ls) + length (ls ! k)), b1)"
    "eb_goto_bol b1 (int (line_start k (join ls) + length (ls ! k))) = Some (int (line_start k (join ls)), b2)"
    "byte_text b2 (join ls)" "tracked b2 = tracked (cw_b w)"
    using prev_line [OF w(2,1) Suc.prems(3)] by blast
  have nz: "line_start (Suc k) (join ls) \<noteq> 0"
    using line_start_join [OF w(1) Suc.prems(3)] by (simp del: line_start.simps)
  note w1 = with_b_lines [OF Suc.prems(1) b(3,4)]
  obtain l' rest w2 where w2: "cw_line f True junk (with_b w b2) buf (int (line_start k (join ls))) k = Some (length l', l' @ 10 # rest, w2)"
    "length (l' @ 10 # rest) = 512" "length l' \<le> 510" "shows_lines f w2 ls" "like (with_b w b2) w2"
    using cw_line_text [OF w1(1) Suc.prems(2) k Suc.prems(4)] by blast
  have like: "like w w2" by (rule like_trans [OF w1(2) w2(5)])
  then have set: "tab_size w2 = tab_size w" "indent_size w2 = indent_size w" by (simp_all add: like_def)
  have lm: "tab_size w * int (length l') \<le> m"
  proof -
    have "tab_size w * int (length l') \<le> tab_size w * 510" using w2(3) w(3) by (intro mult_left_mono) simp_all
    then show ?thesis using Suc.prems(5) by simp
  qed
  obtain pos1 where pos1: "find_indent1 (tab_size w2) (l' @ 10 # rest) 0 = Some pos1" "0 \<le> pos1" "pos1 \<le> m"
    using find_indent1_line [OF w(3), of 0 l' rest] lm set by auto
  obtain r where r: "scan_line (tab_size w2) (indent_size w2) pos1 (rev (take (length l') (l' @ 10 # rest))) st = Some r"
    "found_ok m (indent_size w) r"
    using scan_line_ends [OF w(3,4) pos1(2,3), of "rev l'" st] lm Suc.prems(6) set by auto
  have step: "scan_lines f True junk w buf (int (line_start (Suc k) (join ls))) (Suc k) st = (case r of
         Prev_line st \<Rightarrow> scan_lines f True junk w2 (l' @ 10 # rest) (int (line_start k (join ls))) k st
       | End_parse st \<Rightarrow> Some (w2, l' @ 10 # rest, Some st)
       | Give_up \<Rightarrow> Some (w2, l' @ 10 # rest, None))"
    using b(1,2) nz w2(1) pos1(1) r(1) by (subst scan_lines.simps) (simp del: line_start.simps take_append)
  show ?case
  proof (cases r)
    case (Prev_line st1)
    have "510 * tab_size w2 \<le> m" "search_ok m (indent_size w2) st1" using Suc.prems(5) r(2) Prev_line set by simp_all
    from Suc.IH [OF w2(4) Suc.prems(2) k w2(2) this] show ?thesis
      using step Prev_line like_trans [OF like] set by auto
  next
    case (End_parse st1)
    then show ?thesis using step w2(2,4) like r(2) by (simp del: line_start.simps)
  next
    case Give_up
    then show ?thesis using step w2(2,4) like by (simp del: line_start.simps)
  qed
qed

end

section \<open>Changing the indentation\<close>

abbreviation blank :: "u8 \<Rightarrow> bool" where
  "blank c \<equiv> c = 32 \<or> c = 9"

lemma skip_blanks_text:
  assumes "byte_text b t" "p \<le> length t"
  shows "\<exists>b'. skip_blanks b junk (int p) = Some (int (p + length (takeWhile blank (drop p t))), b') \<and> byte_text b' t \<and>
    tracked b' = tracked b"
  using assms
proof (induction "length t - p" arbitrary: b p)
  case 0
  then have "p = length t" by simp
  then show ?case using "0.prems"(1) byte_text_nextc_end [OF "0.prems"(1), of junk] by (simp add: skip_blanks.simps)
next
  case (Suc n)
  then have p: "p < length t" by simp
  obtain b1 where b1: "eb_nextc b junk (int p) = Some (uint (t ! p), int (Suc p), b1)" "byte_text b1 t" "tracked b1 = tracked b"
    using byte_text_nextc [OF Suc.prems(1) p] by blast
  have d: "drop p t = t ! p # drop (Suc p) t" using Cons_nth_drop_Suc [OF p] by simp
  have u: "uint (t ! p) = 32 \<longleftrightarrow> t ! p = 32" "uint (t ! p) = 9 \<longleftrightarrow> t ! p = 9"
    by (simp_all add: word_uint_eq_iff)
  show ?case
  proof (cases "blank (t ! p)")
    case True
    obtain b' where "skip_blanks b1 junk (int (Suc p)) = Some (int (Suc p + length (takeWhile blank (drop (Suc p) t))), b')"
      "byte_text b' t" "tracked b' = tracked b1"
    proof -
      have "n = length t - Suc p" "Suc p \<le> length t" using Suc.hyps(2) p by linarith+
      then show thesis using that Suc.hyps(1) [OF _ b1(2)] by blast
    qed
    then show ?thesis
      using b1(1,3) True u d by (subst skip_blanks.simps) (auto simp del: of_nat_Suc)
  next
    case False
    then show ?thesis
      using b1 u d by (subst skip_blanks.simps) auto
  qed
qed

definition indent_text :: "CodeWindow \<Rightarrow> int \<Rightarrow> u8 list" where
  "indent_text w pos = (if indent_tabs_mode w
     then replicate (nat (pos div tab_size w)) 9 @ replicate (nat (pos mod tab_size w)) 32 else replicate (nat pos) 32)"

text \<open>Text and settings of a window when its colours do not matter any more.\<close>

definition shows_text :: "CodeWindow \<Rightarrow> u8 list \<Rightarrow> bool" where
  "shows_text w t \<longleftrightarrow> byte_text (cw_b w) t"

lemma cw_insert_text:
  assumes "shows_text w t" "p \<le> length t" "length t + length bs < 2147483648"
  shows "\<exists>w'. cw_insert w (int p) bs = Some w' \<and> shows_text w' (list_insert p bs t) \<and> tab_size w' = tab_size w \<and>
    indent_tabs_mode w' = indent_tabs_mode w"
  using byte_text_insert [of "cw_b w" t p bs] assms by (auto simp: cw_insert_def insert_at_def shows_text_def)

lemma insert_tabs_text:
  assumes "shows_text w t" "p \<le> length t" "0 < ts" "0 \<le> i" "int (length t) + i < 2147483648"
  shows "\<exists>w'. insert_tabs ts w (int p) i = Some (w', int p + i div ts, i mod ts) \<and>
    shows_text w' (list_insert p (replicate (nat (i div ts)) 9) t)"
  using assms
proof (induction "nat i" arbitrary: i w t p rule: less_induct)
  case less
  show ?case
  proof (cases "i \<ge> ts")
    case False
    then show ?thesis using less.prems by (simp add: insert_tabs.simps [of ts w] list_insert_def)
  next
    case True
    obtain w1 where w1: "cw_insert w (int p) [9] = Some w1" "shows_text w1 (list_insert p [9] t)"
      using cw_insert_text [OF less.prems(1,2), of "[9]"] less.prems(3,5) True by auto
    have len: "length (list_insert p [9] t) = length t + 1" by simp
    obtain w2 where w2: "insert_tabs ts w1 (int (p + 1)) (i - ts) = Some (w2, int (p + 1) + (i - ts) div ts, (i - ts) mod ts)"
      "shows_text w2 (list_insert (p + 1) (replicate (nat ((i - ts) div ts)) 9) (list_insert p [9] t))"
      using less.hyps [OF _ w1(2), of "i - ts" "p + 1"] True less.prems by auto
    have d: "(i - ts) div ts = i div ts - 1" "(i - ts) mod ts = i mod ts" "0 < i div ts"
      using True less.prems(3) div_pos_geq [of ts i] mod_pos_geq [of ts i] pos_imp_zdiv_nonneg_iff [of ts "i - ts"]
      by simp_all
    have "[9] @ replicate (nat (i div ts - 1)) 9 = replicate (nat (i div ts)) (9 :: u8)"
      using d(3) by (cases "nat (i div ts)") (simp_all add: nat_diff_distrib)
    then have "list_insert (p + 1) (replicate (nat (i div ts - 1)) 9) (list_insert p [9] t) = list_insert p (replicate (nat (i div ts)) 9) t"
      using list_insert_twice [OF less.prems(2), of "[9]" "replicate (nat (i div ts - 1)) 9"] by simp
    then show ?thesis
      using True less.prems(3) w1(1) w2 d by (subst insert_tabs.simps) (simp add: add.commute)
  qed
qed

lemma insert_blanks_text:
  assumes "shows_text w t" "p \<le> length t" "0 \<le> i" "int (length t) + i < 2147483648"
  shows "\<exists>w'. insert_blanks w (int p) i = Some (w', int p + i) \<and> shows_text w' (list_insert p (replicate (nat i) 32) t)"
  using assms
proof (induction "nat i" arbitrary: i w t p rule: less_induct)
  case less
  show ?case
  proof (cases "i > 0")
    case False
    then show ?thesis using less.prems by (simp add: insert_blanks.simps [of w] list_insert_def)
  next
    case True
    define n where "n = (if i > 64 then 64 else i)"
    have n: "0 < n" "n \<le> i" using True by (simp_all add: n_def)
    obtain w1 where w1: "cw_insert w (int p) (replicate (nat n) 32) = Some w1"
      "shows_text w1 (list_insert p (replicate (nat n) 32) t)"
    proof -
      have "length t + nat n < 2147483648" using less.prems(4) n by linarith
      then show thesis using that cw_insert_text [OF less.prems(1,2), of "replicate (nat n) 32"] by auto
    qed
    have len: "length (list_insert p (replicate (nat n) (32 :: u8)) t) = length t + nat n" by simp
    obtain w2 where w2: "insert_blanks w1 (int (p + nat n)) (i - n) = Some (w2, int (p + nat n) + (i - n))"
      "shows_text w2 (list_insert (p + nat n) (replicate (nat (i - n)) 32) (list_insert p (replicate (nat n) 32) t))"
      using less.hyps [OF _ w1(2), of "i - n" "p + nat n"] n less.prems by auto
    have "nat n + nat (i - n) = nat i" using n by simp
    then have "list_insert (p + nat n) (replicate (nat (i - n)) 32) (list_insert p (replicate (nat n) 32) t) =
        list_insert p (replicate (nat i) (32 :: u8)) t"
      using list_insert_twice [OF less.prems(2), of "replicate (nat n) 32" "replicate (nat (i - n)) 32"]
      by (simp flip: replicate_add)
    then show ?thesis
      using True w1(1) w2 n unfolding n_def by (subst insert_blanks.simps) (simp add: Let_def)
  qed
qed

lemma insert_indent_text:
  assumes "shows_text w t" "p \<le> length t" "0 < tab_size w" "0 \<le> i" "int (length t) + i < 2147483648"
  shows "\<exists>w'. insert_indent w (int p) i = Some (w', int p + int (length (indent_text w i))) \<and>
    shows_text w' (list_insert p (indent_text w i) t)"
proof (cases "indent_tabs_mode w")
  case False
  then show ?thesis using insert_blanks_text [OF assms(1,2,4,5)] assms(4) by (simp add: insert_indent_def indent_text_def)
next
  case True
  let ?q = "i div tab_size w" and ?r = "i mod tab_size w"
  have q: "0 \<le> ?q" "0 \<le> ?r" "?q + ?r \<le> i"
  proof -
    show "0 \<le> ?q" "0 \<le> ?r" using assms(3,4) by (simp_all add: pos_imp_zdiv_nonneg_iff)
    have "?q \<le> tab_size w * ?q" using \<open>0 \<le> ?q\<close> assms(3) by (simp add: mult_le_cancel_right1)
    then show "?q + ?r \<le> i" using mult_div_mod_eq [of "tab_size w" i] by linarith
  qed
  let ?t = "list_insert p (replicate (nat ?q) (9 :: u8)) t"
  obtain w1 where w1: "insert_tabs (tab_size w) w (int p) i = Some (w1, int p + ?q, ?r)" "shows_text w1 ?t"
    using insert_tabs_text [OF assms(1,2,3,4,5)] by blast
  have len: "length ?t = length t + nat ?q" by simp
  obtain w2 where w2: "insert_blanks w1 (int (p + nat ?q)) ?r = Some (w2, int (p + nat ?q) + ?r)"
    "shows_text w2 (list_insert (p + nat ?q) (replicate (nat ?r) 32) ?t)"
    using insert_blanks_text [OF w1(2), of "p + nat ?q" ?r] assms(2,5) q len by auto
  have "list_insert (p + nat ?q) (replicate (nat ?r) 32) ?t = list_insert p (indent_text w i) t"
    using list_insert_twice [OF assms(2), of "replicate (nat ?q) 9" "replicate (nat ?r) 32"] True by (simp add: indent_text_def)
  then show ?thesis using w1(1) w2 q True by (simp add: insert_indent_def indent_text_def)
qed

text \<open>The line \<open>k\<close> gets the indentation \<open>pos\<close> instead of its leading blanks.\<close>

lemma replace_indent_text:
  assumes "shows_text w (join ls)" "whole_lines ls" "k < length ls" "0 < tab_size w" "0 \<le> pos"
    "int (length (join ls)) + pos < 2147483648"
  shows "\<exists>w'. replace_indent junk w (int (line_start k (join ls))) pos = Some w' \<and>
    contents (cw_b w') = join (ls[k := indent_text w pos @ dropWhile blank (ls ! k)]) \<and>
    off (cw_s w') = int (line_start k (join ls) + length (indent_text w pos))"
proof -
  let ?p = "line_start k (join ls)" and ?l = "ls ! k"
  let ?n = "length (takeWhile blank ?l)" and ?i = "indent_text w pos"
  have p: "?p + 0 \<le> length (join ls)" "?p + ?n \<le> length (join ls)"
    using join_line(4) [OF assms(2,3), of 0] length_takeWhile_le [of blank ?l] by simp_all
  have tw: "takeWhile blank (drop ?p (join ls)) = takeWhile blank ?l"
    using takeWhile_in_line [of blank "drop ?p (join ls)"] join_line_text [OF assms(2,3)] by simp
  obtain b1 where b1: "skip_blanks (cw_b w) junk (int ?p) = Some (int (?p + ?n), b1)" "byte_text b1 (join ls)"
    using skip_blanks_text [of "cw_b w" "join ls" ?p junk] assms(1) p(1) unfolding tw shows_text_def by auto
  let ?w1 = "with_b w b1" and ?t = "join (ls[k := dropWhile blank ?l])"
  have del: "list_delete ?p ?n (join ls) = ?t"
    using join_line(2) [OF assms(2,3), of 0 ?n] length_takeWhile_le [of blank ?l] by (simp add: dropWhile_eq_drop)
  obtain w2 where w2: "delete_blanks ?w1 (int ?p) (int ?n) = Some w2" "shows_text w2 ?t" "tab_size w2 = tab_size w"
    "indent_tabs_mode w2 = indent_tabs_mode w"
  proof (cases "?n = 0")
    case True
    then have "takeWhile blank ?l = []" by simp
    then have "dropWhile blank ?l = ?l" by (metis append_Nil takeWhile_dropWhile_id)
    then show thesis using that [of ?w1] True b1(2) by (simp add: shows_text_def delete_blanks_def)
  next
    case False
    obtain b2 where b2: "eb_delete b1 ?p ?n = Some b2" "byte_text b2 ?t"
      using byte_text_delete [OF b1(2) p(2)] assms(5,6) unfolding del by auto
    then show thesis using that False
      by (simp add: delete_blanks_def cw_delete_def delete_at_def shows_text_def set_tracked_def Let_def)
  qed
  have w: "whole_lines (ls[k := dropWhile blank ?l])"
    using assms(2,3) by (intro whole_lines_update) (auto simp: whole_lines_def dest: set_dropWhileD)
  have k: "k < length (ls[k := dropWhile blank ?l])" using assms(3) by simp
  have st: "line_start k ?t = ?p"
    using line_start_join [OF w k] line_start_join [OF assms(2,3)] by simp
  have lt: "length ?t \<le> length (join ls)" "?p \<le> length ?t"
    using del line_start_le [of k ?t] st p(2) by (auto simp: list_delete_def simp flip: del)
  obtain w3 where w3: "insert_indent w2 (int ?p) pos = Some (w3, int ?p + int (length ?i))" "shows_text w3 (list_insert ?p ?i ?t)"
    using insert_indent_text [OF w2(2) lt(2), of pos] assms(4-6) w2(3,4) lt(1) by (auto simp: indent_text_def)
  have ins: "list_insert ?p ?i ?t = join (ls[k := ?i @ dropWhile blank ?l])"
    using join_line(1) [OF w k, of 0 ?i] st assms(3) by simp
  let ?w4 = "w3\<lparr>cw_s := goto_off (cw_s w3) (int ?p + int (length ?i))\<rparr>"
  have "replace_indent junk w (int ?p) pos = Some ?w4"
    using b1(1) w2(1) w3(1) by (simp add: replace_indent_def)
  moreover have "contents (cw_b ?w4) = join (ls[k := ?i @ dropWhile blank ?l])"
  proof -
    have "byte_text (cw_b ?w4) (join (ls[k := ?i @ dropWhile blank ?l]))"
      using w3(2) unfolding ins by (simp add: shows_text_def set_tracked_def)
    then show ?thesis by (rule byte_textD(2))
  qed
  moreover have "off (cw_s ?w4) = int (?p + length ?i)" by (simp add: set_tracked_def off_def)
  ultimately show ?thesis by blast
qed

section \<open>Indenting\<close>

lemma adjust_pos_bounds: "0 \<le> is \<Longrightarrow> 0 \<le> pos \<Longrightarrow> 0 \<le> adjust_pos is eoi l pos \<and> adjust_pos is eoi l pos \<le> pos"
  by (induction l) auto

context colorizer
begin

lemma indent_text_change:
  assumes "shows_lines f w ls" "lines_ok f ok 511 (join ls)" "length buf = 512" "k < length ls" "c \<le> length (ls ! k)"
    "off (cw_s w) = int (line_start k (join ls) + c)"
    "int (length (join ls)) + 511 * tab_size w + 2 * indent_size w < 2147483647"
  shows "\<exists>w'. do_c_indent f True junk buf w = Some w' \<and>
    (contents (cw_b w') = join ls \<and> off (cw_s w') = off (cw_s w) \<or>
      (\<exists>pos \<ge> 0. contents (cw_b w') = join (ls[k := indent_text w pos @ dropWhile blank (ls ! k)]) \<and>
        off (cw_s w') = int (line_start k (join ls) + length (indent_text w pos))))"
proof -
  have w: "whole_lines ls" "byte_text (cw_b w) (join ls)" "0 < tab_size w" "0 \<le> indent_size w"
    using assms(1) by (simp_all add: shows_lines_def)
  let ?p = "line_start k (join ls)"
  have p: "?p + c \<le> length (join ls)" "line_col (take (?p + c) (join ls)) = (k, c)"
    using join_line(3,4) [OF w(1) assms(4,5)] assms(5) by simp_all
  obtain b1 where b1: "eb_get_pos (cw_b w) (?p + c) = ((k, c), b1)" "byte_text b1 (join ls)" "tracked b1 = tracked (cw_b w)"
    using byte_text_get_pos [OF w(2) p(1)] p(2) by auto
  obtain b2 where b2: "eb_goto_bol b1 (int (?p + c)) = Some (int ?p, b2)" "byte_text b2 (join ls)" "tracked b2 = tracked b1"
    using goto_bol_line [OF b1(2) w(1) assms(4,5)] by blast
  have "tracked b2 = tracked (cw_b w)" using b1(3) b2(3) by simp
  note w1 = with_b_lines [OF assms(1) b2(2) this]
  have like1: "tab_size (with_b w b2) = tab_size w" "indent_size (with_b w b2) = indent_size w" by simp_all
  define m where "m = 510 * tab_size w"
  let ?st = "\<lparr>i_pos = 0, lpos = -1, eoi_found = False, stack_ptr = 0, find_eq = False\<rparr>"
  have st: "search_ok m (indent_size w) ?st" using w(3,4) by (simp add: search_ok_def m_def)
  obtain w2 buf2 r where r: "scan_lines f True junk (with_b w b2) buf (int ?p) k ?st = Some (w2, buf2, r)"
    "length buf2 = 512" "shows_lines f w2 ls" "like (with_b w b2) w2" "\<forall>st. r = Some st \<longrightarrow> search_ok m (indent_size w) st"
    using scan_lines_end [OF w1(1) assms(2,4,3), of m ?st junk] st like1 by (auto simp: m_def)
  have like2: "like w w2" by (rule like_trans [OF w1(2) r(4)])
  show ?thesis
  proof (cases r)
    case None
    have "do_c_indent f True junk buf w = Some w2"
      using assms(6) b1(1) b2(1) r(1) None by (simp add: do_c_indent_def nat_int_add)
    moreover have "contents (cw_b w2) = join ls" using r(3) byte_textD(2) by (simp add: shows_lines_def)
    ultimately show ?thesis using like2 by (simp add: like_def)
  next
    case (Some st1)
    then have ok1: "search_ok m (indent_size w) st1" using r(5) by simp
    obtain l' rest w3 where w3: "cw_line f True junk w2 buf2 (int ?p) k = Some (length l', l' @ 10 # rest, w3)"
      "shows_lines f w3 ls" "like w2 w3"
      using cw_line_text [OF r(3) assms(2,4) r(2)] by blast
    have like3: "like w w3" by (rule like_trans [OF like2 w3(3)])
    then have set: "tab_size w3 = tab_size w" "indent_size w3 = indent_size w" "indent_text w3 = indent_text w"
      by (auto simp: like_def indent_text_def)
    let ?pos = "adjust_pos (indent_size w3) (eoi_found st1) (take (length l') (l' @ 10 # rest))
      (if stack_ptr st1 = 0 \<and> i_pos st1 = 0 \<and> lpos st1 \<ge> 0
       then lpos st1 + (if eoi_found st1 then 0 else indent_size w3) else i_pos st1)"
    have pos: "0 \<le> ?pos" "?pos \<le> m + indent_size w + 1"
    proof -
      have "0 \<le> (if stack_ptr st1 = 0 \<and> i_pos st1 = 0 \<and> lpos st1 \<ge> 0
         then lpos st1 + (if eoi_found st1 then 0 else indent_size w3) else i_pos st1)"
        "(if stack_ptr st1 = 0 \<and> i_pos st1 = 0 \<and> lpos st1 \<ge> 0
         then lpos st1 + (if eoi_found st1 then 0 else indent_size w3) else i_pos st1) \<le> m + indent_size w + 1"
        using ok1 w(4) set by (auto simp: search_ok_def)
      then show "0 \<le> ?pos" "?pos \<le> m + indent_size w + 1"
        using adjust_pos_bounds [of "indent_size w3"] w(4) set(2) order_trans by (metis (no_types))+
    qed
    have w3t: "shows_text w3 (join ls)" "0 < tab_size w3" using w3(2) by (simp_all add: shows_lines_def shows_text_def)
    have len: "int (length (join ls)) + ?pos < 2147483648"
      using pos(2) assms(7) w(3,4) unfolding m_def by linarith
    obtain w' where w': "replace_indent junk w3 (int ?p) ?pos = Some w'"
      "contents (cw_b w') = join (ls[k := indent_text w ?pos @ dropWhile blank (ls ! k)])"
      "off (cw_s w') = int (?p + length (indent_text w ?pos))"
      using replace_indent_text [OF w3t(1) w(1) assms(4) w3t(2) pos(1) len, of junk] unfolding set(3) by blast
    have "do_c_indent f True junk buf w = Some w'"
      using assms(6) b1(1) b2(1) r(1) Some w3(1) w'(1) by (simp add: do_c_indent_def Let_def nat_int_add del: take_append)
    then show ?thesis using w'(2,3) pos(1) by blast
  qed
qed

end

section \<open>Properties\<close>

text \<open>Indenting a line in C changes at most its leading blanks, if the lines of the text fulfil \<open>c_ok\<close>: \<open>do_c_indent\<close>
  ends, and either gives up (as when brackets are nested too deeply) without any change, or the line
  gets tabs and spaces for some column instead of its blanks and the cursor goes behind them. All
  other lines stay as they are. The column is left open here.
\<close>

theorem c_indent_line:
  assumes "shows_lines (c_colorize_line (map_option int g)) w ls" "lines_ok (c_colorize_line (map_option int g)) c_ok 511 (join ls)"
    "length buf = 512" "k < length ls" "c \<le> length (ls ! k)" "off (cw_s w) = int (line_start k (join ls) + c)"
    "int (length (join ls)) + 511 * tab_size w + 2 * indent_size w < 2147483647"
  shows "\<exists>w'. do_c_indent (c_colorize_line (map_option int g)) True junk buf w = Some w' \<and>
    (contents (cw_b w') = join ls \<and> off (cw_s w') = off (cw_s w) \<or>
      (\<exists>pos \<ge> 0. contents (cw_b w') = join (ls[k := indent_text w pos @ dropWhile blank (ls ! k)]) \<and>
        off (cw_s w') = int (line_start k (join ls) + length (indent_text w pos))))"
  by (rule c.indent_text_change [OF assms])

text \<open>The same for Python, where no line has to be excluded.\<close>

theorem py_indent_line:
  assumes "shows_lines (py_colorize_line (map_option int g)) w ls"
    "length buf = 512" "k < length ls" "c \<le> length (ls ! k)" "off (cw_s w) = int (line_start k (join ls) + c)"
    "int (length (join ls)) + 511 * tab_size w + 2 * indent_size w < 2147483647"
  shows "\<exists>w'. do_py_indent (map_option int g) True junk buf w = Some w' \<and>
    (contents (cw_b w') = join ls \<and> off (cw_s w') = off (cw_s w) \<or>
      (\<exists>pos \<ge> 0. contents (cw_b w') = join (ls[k := indent_text w pos @ dropWhile blank (ls ! k)]) \<and>
        off (cw_s w') = int (line_start k (join ls) + length (indent_text w pos))))"
  unfolding do_py_indent_def by (rule py.indent_text_change [OF assms(1) _ assms(2-6)]) (simp add: lines_ok_def)

text \<open>A block with one line.\<close>

definition code_window :: "EditBuffer \<Rightarrow> int \<Rightarrow> CodeWindow" where
  "code_window b p = \<lparr>cw_s = \<lparr>es_b = b\<lparr>tracked := (tracked b)(OFFSET := p)\<rparr>, es_insert = True,
     input_method = None, compose_buf = [], compose_start_offset = 0\<rparr>, cw_colors = set_colorize_func,
     tab_size = 8, indent_size = 4, indent_tabs_mode = False\<rparr>"

theorem c_indent_line_witness:
  "\<exists>b w'. contents b = [123, 10, 9, 120] \<and>
    do_c_indent (c_colorize_line None) True [] (replicate 512 0) (code_window b 4) = Some w' \<and>
    (contents (cw_b w') = [123, 10, 9, 120] \<and> off (cw_s w') = 4 \<or>
      (\<exists>pos \<ge> 0. contents (cw_b w') = [123, 10] @ replicate (nat pos) 32 @ [120] \<and> off (cw_s w') = 2 + pos))"
proof -
  let ?f = "c_colorize_line (map_option int None)" and ?ls = "[[123], [9, 120]] :: u8 list list"
  obtain b where b: "byte_text b [123, 10, 9, 120]" using byte_text_exists [of "[123, 10, 9, 120]"] by auto
  have w: "whole_lines ?ls" "join ?ls = [123, 10, 9, 120]" by (simp_all add: whole_lines_def)
  have e: "line_state ?f 511 [123, 10, 9, 120] 1 = Some 0" "cut_line 511 0 [123, 10, 9, 120] = [123]"
    "cut_line 511 1 [123, 10, 9, 120] = [9, 120]" by code_simp+
  have l: "lines_ok ?f c_ok 511 (join ?ls)"
    using e unfolding w(2) by (auto simp: lines_ok_def c_ok_def C_IF0_def le_Suc_eq intro!: no_if0_short)
  have s: "shows_lines ?f (code_window b 4) ?ls"
    using b w colors_ok_start by (simp add: shows_lines_def code_window_def)
  have st: "line_start 1 (join ?ls) = 2" using line_start_join [OF w(1), of 1] by simp
  have o4: "off (cw_s (code_window b 4)) = int (line_start 1 (join ?ls) + 2)"
    unfolding st by (simp add: off_def code_window_def)
  have i: "indent_text (code_window b 4) pos = replicate (nat pos) 32" for pos
    by (simp add: indent_text_def code_window_def)
  have "\<exists>w'. do_c_indent ?f True [] (replicate 512 0) (code_window b 4) = Some w' \<and>
    (contents (cw_b w') = join ?ls \<and> off (cw_s w') = off (cw_s (code_window b 4)) \<or>
      (\<exists>pos \<ge> 0. contents (cw_b w') = join (?ls[1 := indent_text (code_window b 4) pos @ dropWhile blank (?ls ! 1)]) \<and>
        off (cw_s w') = int (line_start 1 (join ?ls) + length (indent_text (code_window b 4) pos))))"
    by (rule c_indent_line [OF s l _ _ _ o4]) (simp_all add: code_window_def)
  then show ?thesis using byte_textD(2) [OF b] o4 unfolding st i by auto
qed

section \<open>What the indentation does wrong\<close>

text \<open>The special case for \<open>if\<close>, \<open>for\<close> and \<open>while\<close> asks for the style of a character whose style was removed.\<close>

lemma keyword_case_never: "style_of (x AND CHAR_MASK) \<noteq> QE_STYLE_KEYWORD"
proof -
  have m: "CHAR_MASK = mask STYLE_SHIFT" by (simp add: CHAR_MASK_def STYLE_SHIFT_def mask_eq_exp_minus_1)
  have "style_of (x AND CHAR_MASK) = 0"
    unfolding style_of_def m by (rule bit_word_eqI) (auto simp: bit_simps)
  then show ?thesis by (simp add: QE_STYLE_KEYWORD_def)
qed

text \<open>When \<open>realloc\<close> fails, the size of the array is raised all the same.\<close>

lemma failed_realloc:
  "colorize_nb_lines e < k + 2 \<Longrightarrow> length (colorize_states e) \<le> colorize_nb_lines e \<Longrightarrow> grow_states False k e = (ok, e') \<Longrightarrow>
    length (colorize_states e') < colorize_nb_lines e'"
  by (auto simp: grow_states_def Let_def)

end
