(* ===== verification/Terminal.thy ===== *)
theory Terminal
  imports Key_Names
begin

text \<open>
  The display: \<open>src/display.c\<close> with the structures of \<open>src/display.h\<close>, and the driver for
  terminals \<open>src/tty.c\<close>. The driver draws into \<open>screen\<close>; \<open>term_flush\<close> compares it with
  \<open>old_screen\<close> and writes the lines that differ. What it writes is the result of the
  operation, a list of bytes. Keys are read byte by byte by \<open>tty_read_handler\<close>.
\<close>

section \<open>Screen and clipping (\<open>display.c\<close>)\<close>

record TTYChar =
  ch :: "16 word"
  bgcolor :: u8
  fgcolor :: u8

datatype InputState = IS_NORM | IS_ESC | IS_CSI | IS_ESC2

record TtyDriver =
  old_screen :: "TTYChar list"
  screen :: "TTYChar list"
  line_updated :: "bool list"
  cursor_x :: int
  cursor_y :: int
  input_state :: InputState
  input_param :: int
  utf8_state :: int
  utf8_index :: nat
  in_buf :: "u8 list"

text \<open>The state of the driver is the private part of the screen.\<close>

record QEditScreen =
  scr_width :: int
  scr_height :: int
  scr_charset :: QECharset
  clip_x1 :: int
  clip_y1 :: int
  clip_x2 :: int
  clip_y2 :: int
  priv :: TtyDriver

definition set_clip :: "int \<Rightarrow> int \<Rightarrow> int \<Rightarrow> int \<Rightarrow> QEditScreen \<Rightarrow> QEditScreen" where
  "set_clip x1 y1 x2 y2 s = s\<lparr>clip_x1 := x1, clip_y1 := y1, clip_x2 := x2, clip_y2 := y2\<rparr>"

definition set_clip_rectangle :: "QEditScreen \<Rightarrow> CSSRect \<Rightarrow> QEditScreen" where
  "set_clip_rectangle s r =
    (let x2 = (if rx2 r > scr_width s then scr_width s else rx2 r);
         y2 = (if ry2 r > scr_height s then scr_height s else ry2 r);
         x1 = (if rx1 r < 0 then 0 else rx1 r);
         y1 = (if ry1 r < 0 then 0 else ry1 r)
     in set_clip x1 y1 x2 y2 s)"

text \<open>The old rectangle and the new state.\<close>

definition push_clip_rectangle :: "QEditScreen \<Rightarrow> CSSRect \<Rightarrow> CSSRect \<times> QEditScreen" where
  "push_clip_rectangle s r =
    (let old = \<lparr>rx1 = clip_x1 s, ry1 = clip_y1 s, rx2 = clip_x2 s, ry2 = clip_y2 s\<rparr>;
         x2 = (if rx2 r > clip_x2 s then clip_x2 s else rx2 r);
         y2 = (if ry2 r > clip_y2 s then clip_y2 s else ry2 r);
         x1 = (if rx1 r < clip_x1 s then clip_x1 s else rx1 r);
         y1 = (if ry1 r < clip_y1 s then clip_y1 s else ry1 r)
     in (old, set_clip x1 y1 x2 y2 s))"

text \<open>\<open>fill\<close> is \<open>dpy_fill_rectangle\<close> of the driver.\<close>

definition fill_rectangle ::
    "(QEditScreen \<Rightarrow> int \<Rightarrow> int \<Rightarrow> int \<Rightarrow> int \<Rightarrow> u32 \<Rightarrow> QEditScreen option) \<Rightarrow>
     QEditScreen \<Rightarrow> int \<Rightarrow> int \<Rightarrow> int \<Rightarrow> int \<Rightarrow> u32 \<Rightarrow> QEditScreen option" where
  "fill_rectangle fill s x1 y1 w h color =
    (let x2 = x1 + w; y2 = y1 + h in
     if x2 \<le> clip_x1 s \<or> y2 \<le> clip_y1 s \<or> x1 \<ge> clip_x2 s \<or> y1 \<ge> clip_y2 s then Some s
     else
       let x2 = (if x2 > clip_x2 s then clip_x2 s else x2);
           y2 = (if y2 > clip_y2 s then clip_y2 s else y2);
           x1 = (if x1 < clip_x1 s then clip_x1 s else x1);
           y1 = (if y1 < clip_y1 s then clip_y1 s else y1)
       in if x1 \<ge> x2 \<or> y1 \<ge> y2 then Some s
          else fill s x1 y1 (x2 - x1) (y2 - y1) color)"

text \<open>
  The displays that are registered, each with the result of its probe. \<open>probe_display\<close> takes
  the last of the best ones.
\<close>

definition qe_register_display :: "('d \<times> int) list \<Rightarrow> 'd \<times> int \<Rightarrow> ('d \<times> int) list" where
  "qe_register_display first_dpy dpy = first_dpy @ [dpy]"

fun probe_loop :: "('d \<times> int) list \<Rightarrow> int \<Rightarrow> 'd option \<Rightarrow> 'd option" where
  "probe_loop [] probe_max dpy = dpy"
| "probe_loop ((p, probe) # ps) probe_max dpy =
     (if probe \<ge> probe_max then probe_loop ps probe (Some p) else probe_loop ps probe_max dpy)"

definition probe_display :: "('d \<times> int) list \<Rightarrow> 'd option" where
  "probe_display first_dpy = probe_loop first_dpy 0 None"

section \<open>The font cache\<close>

text \<open>
  A font that has been closed is freed; \<open>open\<close> is false from then on, and looking at it is
  undefined.
\<close>

record QEFont =
  font_id :: nat
  font_style :: int
  font_size :: int
  font_timestamp :: int
  font_open :: bool

definition FONT_CACHE_SIZE :: nat where "FONT_CACHE_SIZE = 32"

record FontCache =
  font_cache :: "QEFont option list"
  font_cache_timestamp :: int

text \<open>The loop ends with the font that was found, or with the entry to replace.\<close>

fun font_loop :: "int \<Rightarrow> int \<Rightarrow> nat \<Rightarrow> QEFont option list \<Rightarrow> int \<Rightarrow> nat \<Rightarrow> (nat + nat) option" where
  "font_loop style sz i [] min_ts min_index = Some (Inr min_index)"
| "font_loop style sz i (None # fs) min_ts min_index = font_loop style sz (Suc i) fs 0 i"
| "font_loop style sz i (Some fc # fs) min_ts min_index = do {
     guard (font_open fc);
     if font_style fc = style \<and> font_size fc = sz then Some (Inl i)
     else if font_timestamp fc < min_ts then font_loop style sz (Suc i) fs (font_timestamp fc) i
     else font_loop style sz (Suc i) fs min_ts min_index }"

definition close_font :: "QEFont \<Rightarrow> QEFont option" where
  "close_font f = do { guard (font_open f); Some (f\<lparr>font_open := False\<rparr>) }"

text \<open>\<open>opened\<close> is the result of \<open>open_font\<close>, \<open>None\<close> when there is no memory.\<close>

definition select_font ::
    "nat option \<Rightarrow> FontCache \<Rightarrow> int \<Rightarrow> int \<Rightarrow> (QEFont option \<times> FontCache) option" where
  "select_font opened c style sz = do {
     r \<leftarrow> font_loop style sz 0 (font_cache c) 0x7fffffff 0;
     case r of
       Inl i \<Rightarrow>
         let fc = (the (font_cache c ! i))\<lparr>font_timestamp := font_cache_timestamp c\<rparr>
         in Some (Some fc, c\<lparr>font_cache := (font_cache c)[i := Some fc],
                             font_cache_timestamp := font_cache_timestamp c + 1\<rparr>)
     | Inr m \<Rightarrow> do {
         c \<leftarrow> (case font_cache c ! m of
                 None \<Rightarrow> Some c
               | Some f \<Rightarrow> do { f \<leftarrow> close_font f; Some (c\<lparr>font_cache := (font_cache c)[m := Some f]\<rparr>) });
         case opened of
           None \<Rightarrow> Some (None, c)
         | Some k \<Rightarrow>
             let fc = \<lparr>font_id = k, font_style = style, font_size = sz,
                       font_timestamp = font_cache_timestamp c, font_open = True\<rparr>
             in Some (Some fc, c\<lparr>font_cache := (font_cache c)[m := Some fc],
                                 font_cache_timestamp := font_cache_timestamp c + 1\<rparr>) } }"

section \<open>Size of the terminal\<close>

definition int_range :: "int \<Rightarrow> bool" where
  "int_range n \<longleftrightarrow> - (2 ^ 31) \<le> n \<and> n < 2 ^ 31"

text \<open>
  What \<open>getchar\<close> returns is the list \<open>inp\<close>, and then \<open>EOF\<close> for ever. The states of the loop are
  its numbers; the result is the size with the rest of the input, \<open>(0, 0)\<close> after the jump to
  \<open>fail\<close>.
\<close>

definition getchar :: "u8 list \<Rightarrow> int \<times> u8 list" where
  "getchar inp = (case inp of [] \<Rightarrow> (- 1, []) | b # r \<Rightarrow> (uint b, r))"

definition digit_step :: "int \<Rightarrow> int \<Rightarrow> int option" where
  "digit_step n c = do { guard (int_range (n * 10 + c)); Some (n * 10 + c - 48) }"

partial_function (option) cursor_pos_loop ::
    "int \<Rightarrow> int \<Rightarrow> int \<Rightarrow> u8 list \<Rightarrow> ((int \<times> int) \<times> u8 list) option" where
  "cursor_pos_loop state w h inp =
    (case getchar inp of (c, inp) \<Rightarrow>
     if state = 0 then cursor_pos_loop (if c = 27 then 1 else 0) w h inp
     else if state = 1 then cursor_pos_loop (if c = 91 then 2 else 0) w h inp
     else if state = 2 then
       (if c \<ge> 48 \<and> c \<le> 57 then do { h \<leftarrow> digit_step h c; cursor_pos_loop 2 w h inp }
        else if c = 59 then cursor_pos_loop 3 w h inp
        else Some ((0, 0), inp))
     else
       (if c \<ge> 48 \<and> c \<le> 57 then do { w \<leftarrow> digit_step w c; cursor_pos_loop 3 w h inp }
        else if c = 82 then Some ((w, h), inp)
        else Some ((0, 0), inp)))"

definition tty_get_cursor_pos :: "u8 list \<Rightarrow> ((int \<times> int) \<times> u8 list) option" where
  "tty_get_cursor_pos inp = cursor_pos_loop 0 0 0 inp"

definition MAX_WH :: int where "MAX_WH = 500"

definition tty_get_screen_size :: "u8 list \<Rightarrow> ((int \<times> int) \<times> u8 list) option" where
  "tty_get_screen_size inp = do {
     ((w, h), inp) \<leftarrow> tty_get_cursor_pos inp;
     Some (if h < 1 \<or> w < 1 \<or> h > MAX_WH \<or> w > MAX_WH then (80, 25) else (w, h), inp) }"

text \<open>
  The size comes from the terminal for the signal -1 and from \<open>ioctl\<close> otherwise. \<open>mem\<close> says
  whether the three calls of \<open>realloc\<close> succeed, which the code does not test. The bytes are
  set by \<open>memset\<close>, so a new cell of \<open>screen\<close> has the character \<open>0x2020\<close> and the colors 32. A size in
  bytes beyond \<open>int\<close> would be cut.
\<close>

definition old_cell :: TTYChar where "old_cell = \<lparr>ch = 0, bgcolor = 0, fgcolor = 0\<rparr>"
definition new_cell :: TTYChar where "new_cell = \<lparr>ch = 0x2020, bgcolor = 32, fgcolor = 32\<rparr>"

definition tty_resize ::
    "int \<Rightarrow> u8 list \<Rightarrow> (int \<times> int) option \<Rightarrow> bool \<Rightarrow> QEditScreen \<Rightarrow> (QEditScreen \<times> u8 list) option" where
  "tty_resize sig inp winsize mem s = do {
     ((w, h), inp) \<leftarrow> (if sig = - 1 then tty_get_screen_size inp
                      else Some (case winsize of None \<Rightarrow> (80, 24) | Some (col, row) \<Rightarrow> (col, row), inp));
     guard (int_range (w * h * 4) \<and> mem);
     let n = nat (w * h);
     let ts = (priv s)\<lparr>old_screen := replicate n old_cell, screen := replicate n new_cell,
                          line_updated := replicate (nat h) True\<rparr>;
     let s = s\<lparr>scr_width := w, scr_height := h, priv := ts\<rparr>;
     Some (set_clip 0 0 w h s, inp) }"

definition term_cursor_at :: "QEditScreen \<Rightarrow> int \<Rightarrow> int \<Rightarrow> QEditScreen" where
  "term_cursor_at s x1 y1 = s\<lparr>priv := (priv s)\<lparr>cursor_x := x1, cursor_y := y1\<rparr>\<rparr>"

section \<open>Keys\<close>

text \<open>
  \<open>rd\<close> is what \<open>read\<close> stores, \<open>None\<close> when it does not return 1. The result is the new state and the
  key passed to \<open>qe_handle_event\<close>, if there is one.
\<close>

definition isdigit_arg :: "int \<Rightarrow> bool option" where
  "isdigit_arg c = do { guard (- 1 \<le> c \<and> c \<le> 255); Some (48 \<le> c \<and> c \<le> 57) }"

definition tty_key :: "TtyDriver \<Rightarrow> int \<Rightarrow> (TtyDriver \<times> int option) option" where
  "tty_key ts c = (case input_state ts of
     IS_NORM \<Rightarrow> Some (if c = 27 then (ts\<lparr>input_state := IS_ESC\<rparr>, None) else (ts, Some c))
   | IS_ESC \<Rightarrow>
       Some (if c = 91 then (ts\<lparr>input_state := IS_CSI, input_param := 0\<rparr>, None)
             else if c = 79 then (ts\<lparr>input_state := IS_ESC2\<rparr>, None)
             else (ts\<lparr>input_state := IS_NORM\<rparr>, Some (KEY_META c)))
   | IS_CSI \<Rightarrow> do {
       d \<leftarrow> isdigit_arg c;
       if \<not> d
       then let ts = ts\<lparr>input_state := IS_NORM\<rparr> in
         Some (ts, Some (if c = 126 then KEY_ESC1 (input_param ts)
           else if c = 72 then KEY_HOME
           else if c = 70 then KEY_END
           else if c = 90 then KEY_SHIFT_TAB
           else KEY_ESC1 (if input_param ts = 5 \<and> c \<ge> 65 \<and> c \<le> 68 then c + 32 else c)))
       else do {
         p \<leftarrow> digit_step (input_param ts) c;
         Some (ts\<lparr>input_param := p\<rparr>, None) } }
   | IS_ESC2 \<Rightarrow>
       let ts = ts\<lparr>input_state := IS_NORM\<rparr> in
       Some (ts, if c \<ge> 80 \<and> c \<le> 83 then Some (KEY_F1 + c - 80) else None))"

definition tty_read_handler :: "u8 option \<Rightarrow> QEditScreen \<Rightarrow> (QEditScreen \<times> int option) option" where
  "tty_read_handler rd s = (case rd of None \<Rightarrow> Some (s, None) | Some b \<Rightarrow> do {
     let ts = priv s;
     guard (utf8_index ts < length (in_buf ts));
     let ts = ts\<lparr>in_buf := (in_buf ts)[utf8_index ts := b]\<rparr>;
     if scr_charset s = Charset_utf8 \<and> utf8_state ts \<noteq> 0
     then Some (s\<lparr>priv := ts\<lparr>utf8_state := int (utf8_length (in_buf ts ! 0)) - 1, utf8_index := 0\<rparr>\<rparr>, None)
     else do {
       c \<leftarrow> (if scr_charset s = Charset_utf8 then map_option fst (utf8_decode (in_buf ts))
            else Some (uint (in_buf ts ! 0)));
       (ts, key) \<leftarrow> tty_key ts c;
       Some (s\<lparr>priv := ts\<rparr>, key) } })"

text \<open>The keys from a sequence of bytes.\<close>

fun tty_read_all :: "u8 list \<Rightarrow> QEditScreen \<Rightarrow> (QEditScreen \<times> int list) option" where
  "tty_read_all [] s = Some (s, [])"
| "tty_read_all (b # bs) s = do {
     (s, key) \<leftarrow> tty_read_handler (Some b) s;
     (s, keys) \<leftarrow> tty_read_all bs s;
     Some (s, (case key of None \<Rightarrow> keys | Some k \<Rightarrow> k # keys)) }"

section \<open>Colors\<close>

definition color_part :: "nat \<Rightarrow> u32 \<Rightarrow> u32" where
  "color_part k c = drop_bit k c AND 0xff"

definition color_dist :: "u32 \<Rightarrow> u32 \<Rightarrow> int" where
  "color_dist c1 c2 = abs (sint (color_part 0 c1 - color_part 0 c2)) +
     2 * abs (sint (color_part 8 c1 - color_part 8 c2)) +
     abs (sint (color_part 16 c1 - color_part 16 c2))"

definition tty_colors :: "u32 list" where
  "tty_colors = [QERGB 0x00 0x00 0x00, QERGB 0xff 0x00 0x00, QERGB 0x00 0xff 0x00, QERGB 0xff 0xff 0x00,
     QERGB 0x00 0x00 0xff, QERGB 0xff 0x00 0xff, QERGB 0x00 0xff 0xff, QERGB 0xff 0xff 0xff]"

fun color_loop :: "u32 \<Rightarrow> nat \<Rightarrow> u32 list \<Rightarrow> nat \<Rightarrow> int \<Rightarrow> nat" where
  "color_loop color i [] cmin dmin = cmin"
| "color_loop color i (c # cs) cmin dmin =
     (let d = color_dist color c
      in if d < dmin then color_loop color (Suc i) cs i d else color_loop color (Suc i) cs cmin dmin)"

definition get_tty_color :: "u32 \<Rightarrow> nat" where
  "get_tty_color color = color_loop color 0 tty_colors 0 0x7fffffff"

section \<open>Drawing\<close>

definition QECOLOR_XOR :: u32 where "QECOLOR_XOR = 1"

text \<open>The cell at \<open>ptr\<close> is changed; outside of the array this is undefined.\<close>

definition change_cell :: "(TTYChar \<Rightarrow> TTYChar) \<Rightarrow> int \<Rightarrow> TTYChar list \<Rightarrow> TTYChar list option" where
  "change_cell f ptr scr = do {
     guard (0 \<le> ptr \<and> ptr < int (length scr));
     Some (scr[nat ptr := f (scr ! nat ptr)]) }"

definition set_updated :: "int \<Rightarrow> bool list \<Rightarrow> bool list option" where
  "set_updated y l = do { guard (0 \<le> y \<and> y < int (length l)); Some (l[nat y := True]) }"

fun fill_cells :: "(TTYChar \<Rightarrow> TTYChar) \<Rightarrow> nat \<Rightarrow> int \<Rightarrow> TTYChar list \<Rightarrow> TTYChar list option" where
  "fill_cells f 0 ptr scr = Some scr"
| "fill_cells f (Suc n) ptr scr = do { scr \<leftarrow> change_cell f ptr scr; fill_cells f n (ptr + 1) scr }"

fun fill_rows :: "(TTYChar \<Rightarrow> TTYChar) \<Rightarrow> int \<Rightarrow> int \<Rightarrow> nat \<Rightarrow> int \<Rightarrow> int \<Rightarrow> TtyDriver \<Rightarrow> TtyDriver option" where
  "fill_rows f w wrap 0 y ptr ts = Some ts"
| "fill_rows f w wrap (Suc rows) y ptr ts = do {
     l \<leftarrow> set_updated y (line_updated ts);
     scr \<leftarrow> fill_cells f (nat w) ptr (screen ts);
     fill_rows f w wrap rows (y + 1) (ptr + int (nat w) + wrap) (ts\<lparr>line_updated := l, screen := scr\<rparr>) }"

definition xor_cell :: "TTYChar \<Rightarrow> TTYChar" where
  "xor_cell c = c\<lparr>bgcolor := bgcolor c XOR 7, fgcolor := fgcolor c XOR 7\<rparr>"

definition blank_cell :: "nat \<Rightarrow> TTYChar \<Rightarrow> TTYChar" where
  "blank_cell bg c = c\<lparr>bgcolor := of_nat bg, ch := 32, fgcolor := 7\<rparr>"

definition term_fill_rectangle ::
    "QEditScreen \<Rightarrow> int \<Rightarrow> int \<Rightarrow> int \<Rightarrow> int \<Rightarrow> u32 \<Rightarrow> QEditScreen option" where
  "term_fill_rectangle s x1 y1 w h color =
    (let ptr = y1 * scr_width s + x1;
         f = (if color = QECOLOR_XOR then xor_cell else blank_cell (get_tty_color color))
     in map_option (\<lambda>ts. s\<lparr>priv := ts\<rparr>)
          (fill_rows f w (scr_width s - w) (nat h) y1 ptr (priv s)))"

definition term_glyph_width :: "u32 \<Rightarrow> int" where
  "term_glyph_width ucs =
    (if ucs < 0x900 then 1
     else 1 + (if (ucs \<ge> 0x1100 \<and> ucs \<le> 0x115f) \<or>
                  (ucs \<ge> 0x2e80 \<and> ucs \<le> 0xa4cf \<and> ucs AND NOT 0x0011 \<noteq> 0x300a \<and> ucs \<noteq> 0x303f) \<or>
                  (ucs \<ge> 0xac00 \<and> ucs \<le> 0xd7a3) \<or> (ucs \<ge> 0xf900 \<and> ucs \<le> 0xfaff) \<or>
                  (ucs \<ge> 0xfe30 \<and> ucs \<le> 0xfe6f) \<or> (ucs \<ge> 0xff00 \<and> ucs \<le> 0xff5f) \<or>
                  (ucs \<ge> 0xffe0 \<and> ucs \<le> 0xffe6) then 1 else 0))"

definition term_text_metrics :: "u32 list \<Rightarrow> int" where
  "term_text_metrics str = fold (\<lambda>c x. x + term_glyph_width c) str 0"

text \<open>Cells get a color and a character; the character is cut to 16 bits.\<close>

definition put_cell :: "nat \<Rightarrow> 16 word \<Rightarrow> TTYChar \<Rightarrow> TTYChar" where
  "put_cell fg c cell = cell\<lparr>fgcolor := of_nat fg, ch := c\<rparr>"

text \<open>The loop that clips at the left: the rest of the string, \<open>x\<close>, the pointer and the cells.\<close>

fun clip_left :: "int \<Rightarrow> int \<Rightarrow> nat \<Rightarrow> u32 list \<Rightarrow> int \<Rightarrow> int \<Rightarrow> TTYChar list \<Rightarrow>
    (u32 list \<times> int \<times> int \<times> TTYChar list) option" where
  "clip_left cx1 cx2 fg [] x ptr scr = Some ([], x, ptr, scr)"
| "clip_left cx1 cx2 fg (cc # str) x ptr scr =
    (let x = x + term_glyph_width cc in
     if x \<ge> cx1
     then let n = (if cx2 < x then cx2 else x) - cx1 in do {
       scr \<leftarrow> fill_cells (put_cell fg 32) (nat n) ptr scr;
       Some (str, x, ptr + int (nat n), scr) }
     else clip_left cx1 cx2 fg str x ptr scr)"

fun draw_loop :: "int \<Rightarrow> nat \<Rightarrow> u32 list \<Rightarrow> int \<Rightarrow> int \<Rightarrow> TTYChar list \<Rightarrow> TTYChar list option" where
  "draw_loop cx2 fg [] x ptr scr = Some scr"
| "draw_loop cx2 fg (cc # str) x ptr scr =
    (let w = term_glyph_width cc in
     if x + w > cx2 then Some scr
     else do {
       scr \<leftarrow> change_cell (put_cell fg (ucast cc)) ptr scr;
       scr \<leftarrow> fill_cells (put_cell fg 0xffff) (nat (w - 1)) (ptr + 1) scr;
       draw_loop cx2 fg str (x + w) (ptr + 1 + int (nat (w - 1))) scr })"

definition term_draw_text :: "QEditScreen \<Rightarrow> int \<Rightarrow> int \<Rightarrow> u32 list \<Rightarrow> u32 \<Rightarrow> QEditScreen option" where
  "term_draw_text s x y str color =
    (if y < clip_y1 s \<or> y \<ge> clip_y2 s \<or> x \<ge> clip_x2 s then Some s
     else do {
       let ts = priv s;
       l \<leftarrow> set_updated y (line_updated ts);
       let fg = get_tty_color color;
       let ptr = y * scr_width s;
       (str, x, ptr, scr) \<leftarrow>
         (if x < clip_x1 s then clip_left (clip_x1 s) (clip_x2 s) fg str x (ptr + clip_x1 s) (screen ts)
          else Some (str, x, ptr + x, screen ts));
       scr \<leftarrow> draw_loop (clip_x2 s) fg str x ptr scr;
       Some (s\<lparr>priv := ts\<lparr>line_updated := l, screen := scr\<rparr>\<rparr>) })"

section \<open>Output\<close>

text \<open>\<open>%d\<close> of \<open>printf\<close>.\<close>

fun print_nat :: "nat \<Rightarrow> u8 list" where
  "print_nat n = (if n < 10 then [byte (48 + int n)] else print_nat (n div 10) @ [byte (48 + int (n mod 10))])"

declare print_nat.simps [simp del]

definition print_int :: "int \<Rightarrow> u8 list" where
  "print_int n = (if n < 0 then 45 # print_nat (nat (- n)) else print_nat (nat n))"

definition goto_seq :: "int \<Rightarrow> int \<Rightarrow> u8 list" where
  "goto_seq row col = [27, 91] @ print_int row @ [59] @ print_int col @ [72]"

definition attr_seq :: "int \<Rightarrow> int \<Rightarrow> u8 list" where
  "attr_seq fg bg = [27, 91, 59] @ print_int (30 + fg) @ [59] @ print_int (40 + bg) @ [109]"

text \<open>The bytes for one character; \<open>printf\<close> stops at a zero byte.\<close>

definition glyph_bytes :: "QECharset \<Rightarrow> 16 word \<Rightarrow> u8 list" where
  "glyph_bytes cs c =
    (if c < 32 \<or> (c \<ge> 128 \<and> c < 128 + 32) then [46]
     else takeWhile (\<lambda>b. b \<noteq> 0) (unicode_to_charset (uint c) cs))"

fun flush_cells :: "QECharset \<Rightarrow> TTYChar list \<Rightarrow> int \<Rightarrow> int \<Rightarrow> u8 list \<times> int \<times> int" where
  "flush_cells cs [] fg bg = ([], fg, bg)"
| "flush_cells cs (c # cells) fg bg =
    (if ch c = 0xffff then flush_cells cs cells fg bg
     else
       let change = (fg \<noteq> uint (fgcolor c) \<and> ch c \<noteq> 32) \<or> bg \<noteq> uint (bgcolor c);
           fg' = (if change then uint (fgcolor c) else fg);
           bg' = (if change then uint (bgcolor c) else bg);
           (out, r) = flush_cells cs cells fg' bg'
       in ((if change then attr_seq fg' bg' else []) @ glyph_bytes cs (ch c) @ out, r))"

definition row_of :: "int \<Rightarrow> nat \<Rightarrow> TTYChar list \<Rightarrow> TTYChar list" where
  "row_of w y scr = take (nat w) (drop (y * nat w) scr)"

definition put_row :: "int \<Rightarrow> nat \<Rightarrow> TTYChar list \<Rightarrow> TTYChar list \<Rightarrow> TTYChar list" where
  "put_row w y r scr = take (y * nat w) scr @ r @ drop (y * nat w + nat w) scr"

definition flush_row :: "QECharset \<Rightarrow> int \<Rightarrow> nat \<Rightarrow> TtyDriver \<Rightarrow> int \<Rightarrow> int \<Rightarrow>
    (TtyDriver \<times> u8 list \<times> int \<times> int) option" where
  "flush_row cs w y ts fg bg = do {
     guard (y < length (line_updated ts));
     if line_updated ts ! y
     then do {
       let ts = ts\<lparr>line_updated := (line_updated ts)[y := False]\<rparr>;
       guard (y * nat w + nat w \<le> length (screen ts) \<and> y * nat w + nat w \<le> length (old_screen ts));
       if row_of w y (screen ts) \<noteq> row_of w y (old_screen ts)
       then (case flush_cells cs (row_of w y (screen ts)) fg bg of (out, fg, bg) \<Rightarrow>
         Some (ts\<lparr>old_screen := put_row w y (row_of w y (screen ts)) (old_screen ts)\<rparr>,
               goto_seq (int y + 1) 1 @ out, fg, bg))
       else Some (ts, [], fg, bg) }
     else Some (ts, [], fg, bg) }"

fun flush_rows :: "QECharset \<Rightarrow> int \<Rightarrow> nat \<Rightarrow> nat \<Rightarrow> TtyDriver \<Rightarrow> int \<Rightarrow> int \<Rightarrow>
    (TtyDriver \<times> u8 list) option" where
  "flush_rows cs w 0 y ts fg bg = Some (ts, [])"
| "flush_rows cs w (Suc n) y ts fg bg = do {
     (ts, out, fg, bg) \<leftarrow> flush_row cs w y ts fg bg;
     (ts, out') \<leftarrow> flush_rows cs w n (Suc y) ts fg bg;
     Some (ts, out @ out') }"

definition term_flush :: "QEditScreen \<Rightarrow> (QEditScreen \<times> u8 list) option" where
  "term_flush s = do {
     (ts, out) \<leftarrow> flush_rows (scr_charset s) (scr_width s) (nat (scr_height s)) 0 (priv s) (- 1) (- 1);
     Some (s\<lparr>priv := ts\<rparr>, out @ goto_seq (cursor_y ts + 1) (cursor_x ts + 1)) }"

definition term_close :: "QEditScreen \<Rightarrow> u8 list" where
  "term_close s = goto_seq (scr_height s) 1 @ [27, 91, 109, 27, 91, 75]"

end
