(* ===== verification/Layout.thy ===== *)
theory Layout
  imports Terminal Colorize Shell "HOL-Library.Signed_Division"
begin

text \<open>
  The layout of text in \<open>src/qe.c\<close>. \<open>display_char\<close> collects characters to fragments of words,
  \<open>flush_fragment\<close> turns a fragment into glyphs of a line and wraps the line, \<open>flush_line\<close> draws it and
  calls the cursor callback for each of its glyphs.

  The arrays of \<open>DisplayState\<close> are on the stack and not initialised; here they are lists of the size of
  the arrays, whatever they hold. Drawing is a result, the list \<open>drawn\<close>. The functions of the display
  are in \<open>DisplayEnv\<close>, a font being its ascent and descent. \<open>CONFIG_UNICODE_JOIN\<close> is not defined.
\<close>

section \<open>State\<close>

definition MAX_WORD_SIZE :: int where "MAX_WORD_SIZE = 128"
definition MAX_WIDTH :: int where "MAX_WIDTH = 256"
definition NO_CURSOR :: int where "NO_CURSOR = 0x7fffffff"
definition QE_STYLE_SEL :: u32 where "QE_STYLE_SEL = 0x400"
definition QE_STYLE_DEFAULT :: u32 where "QE_STYLE_DEFAULT = 0"
definition OFFSET_TOP :: tracker where "OFFSET_TOP = 3"

datatype WrapType = WRAP_TRUNCATE | WRAP_LINE | WRAP_WORD
datatype DirType = DIR_LTR | DIR_RTL
datatype DisplayType = DISP_CURSOR | DISP_PRINT | DISP_CURSOR_SCREEN

text \<open>\<open>short\<close> is a value stored in 16 bits.\<close>

definition short :: "int \<Rightarrow> int" where
  "short n = (n + 32768) mod 65536 - 32768"

record TextFragment =
  frag_level :: int
  frag_width :: int
  frag_ascent :: int
  frag_descent :: int
  frag_style :: u32
  frag_line_index :: int
  frag_len :: int

record QELineShadow =
  sh_x_start :: int
  sh_y :: int
  sh_height :: int
  sh_crc :: u32

record QEStyleDef =
  fg_color :: u32
  bg_color :: u32
  font_style :: int
  font_size :: int

text \<open>A place where the cursor could be, as it is passed to the callback.\<close>

record CursorCall =
  cc_offset1 :: int
  cc_offset2 :: int
  cc_line_num :: int
  cc_x :: int
  cc_y :: int
  cc_w :: int
  cc_h :: int
  cc_hex_mode :: int

datatype DrawCall =
    Fill_rectangle int int int int u32
  | Draw_text "int \<times> int" int int "u32 list" u32

text \<open>
  The window. Offsets that callbacks move are tracked by the buffer. \<open>get_colorized\<close> is
  \<open>get_colorized_line_func\<close>, from the offset and number of a line its colored characters.
\<close>

record DisplayWindow =
  dw_s :: EditState
  dw_y_disp :: int
  dw_x_disp :: "DirType \<Rightarrow> int"
  dw_wrap :: WrapType
  dw_line_numbers :: bool
  dw_show_tabs :: bool
  dw_tab_size :: int
  dw_hex_mode :: int
  dw_hex_nibble :: int
  dw_unihex_mode :: bool
  dw_disp_width :: int
  dw_default_style :: u32
  dw_show_selection :: bool
  dw_prompt :: "u8 list option"
  dw_display_invalid :: bool
  dw_flags :: u32
  dw_mouse_force_highlight :: bool
  dw_force_highlight :: bool
  dw_width :: int
  dw_height :: int
  dw_xleft :: int
  dw_ytop :: int
  dw_cur_rtl :: bool
  dw_line_shadow :: "QELineShadow list"
  dw_colors :: Colors
  dw_colorize :: bool
  get_colorized :: "(EditBuffer \<Rightarrow> Colors \<Rightarrow> int \<Rightarrow> nat \<Rightarrow> (u32 list \<times> EditBuffer \<times> Colors) option) option"

abbreviation dw_b :: "DisplayWindow \<Rightarrow> EditBuffer" where "dw_b e \<equiv> es_b (dw_s e)"
abbreviation dw_offset :: "DisplayWindow \<Rightarrow> int" where "dw_offset e \<equiv> off (dw_s e)"

definition dw_offset_top :: "DisplayWindow \<Rightarrow> int" where
  "dw_offset_top e = tracked (dw_b e) OFFSET_TOP"

definition set_dw_b :: "EditBuffer \<Rightarrow> DisplayWindow \<Rightarrow> DisplayWindow" where
  "set_dw_b b e = e\<lparr>dw_s := (dw_s e)\<lparr>es_b := b\<rparr>\<rparr>"

definition set_dw_offset :: "int \<Rightarrow> DisplayWindow \<Rightarrow> DisplayWindow" where
  "set_dw_offset p e = e\<lparr>dw_s := goto_off (dw_s e) p\<rparr>"

definition set_dw_offset_top :: "int \<Rightarrow> DisplayWindow \<Rightarrow> DisplayWindow" where
  "set_dw_offset_top p e = e\<lparr>dw_s := set_tracked OFFSET_TOP p (dw_s e)\<rparr>"

text \<open>Metrics of a character are the ascent, the descent and the width.\<close>

record DisplayEnv =
  dpy_font :: "int \<Rightarrow> int \<Rightarrow> int \<times> int"
  dpy_metrics :: "int \<times> int \<Rightarrow> u32 \<Rightarrow> int \<times> int \<times> int"
  dpy_has_cursor :: bool
  dpy_utf8 :: bool
  env_styles :: "QEStyleDef list"
  env_junk :: "u8 list"
  env_mem :: bool
  env_line_numbers :: bool


section \<open>Cursor callbacks\<close>

text \<open>
  The callback and its context, \<open>cursor_func\<close> and \<open>cursor_opaque\<close>, are one value. \<open>None\<close> in \<open>place\<close> is
  memory that was not written. A callback is passed the base direction and the height of the display.
\<close>

record CursorPlace =
  linec :: int
  basec :: DirType
  dirc :: DirType
  cursor_width :: int
  cursor_height :: int

record CursorContext =
  xc :: int
  yc :: int
  offsetc :: int
  place :: "CursorPlace option"

record MoveContext =
  mv_yd :: int
  mv_xd :: int
  mv_xdmin :: int
  mv_offsetd :: int

record ScrollContext =
  y_found :: int
  sc_offset_found :: int
  sc_dir :: int
  sc_offsetc :: int

record LeftRightMoveContext =
  lr_yd :: int
  lr_xd :: int
  lr_xdmin :: int
  lr_offsetd :: int
  lr_dir :: int
  lr_after_found :: bool

record MouseGotoContext =
  mg_yd :: int
  mg_xd :: int
  mg_dy_min :: int
  mg_dx_min :: int
  mg_offset_found :: int
  mg_hex_mode :: int

definition cursor_func :: "DirType \<Rightarrow> CursorCall \<Rightarrow> CursorContext \<Rightarrow> CursorContext \<times> bool" where
  "cursor_func base c m =
    (if offsetc m \<ge> cc_offset1 c \<and> offsetc m < cc_offset2 c
     then (m\<lparr>xc := cc_x c, yc := cc_y c,
             place := Some \<lparr>linec = cc_line_num c, basec = base, dirc = base,
                            cursor_width = cc_w c, cursor_height = cc_h c\<rparr>\<rparr>, True)
     else (m, False))"

definition down_cursor_func :: "CursorCall \<Rightarrow> MoveContext \<Rightarrow> MoveContext \<times> bool" where
  "down_cursor_func c m =
    (if cc_line_num c = mv_yd m
     then let d = abs (cc_x c - mv_xd m) in
       (if d < mv_xdmin m then m\<lparr>mv_xdmin := d, mv_offsetd := cc_offset1 c\<rparr> else m, False)
     else (m, cc_line_num c > mv_yd m))"

definition scroll_cursor_func :: "int \<Rightarrow> CursorCall \<Rightarrow> ScrollContext \<Rightarrow> ScrollContext \<times> bool" where
  "scroll_cursor_func height c m =
    (let y1 = cc_y c + cc_h c;
         m = (if sc_dir m < 0
              then (if cc_y c \<ge> 0 \<and> cc_y c < y_found m
                    then m\<lparr>y_found := cc_y c, sc_offset_found := cc_offset1 c\<rparr> else m)
              else (if y1 \<le> height \<and> y1 > y_found m
                    then m\<lparr>y_found := y1, sc_offset_found := cc_offset1 c\<rparr> else m))
     in if sc_offsetc m \<ge> cc_offset1 c \<and> sc_offsetc m < cc_offset2 c \<and> cc_y c \<ge> 0 \<and> y1 \<le> height
        then (m\<lparr>sc_offset_found := sc_offsetc m, y_found := 0x7fffffff * sc_dir m\<rparr>, True)
        else (m, False))"

definition left_right_cursor_func ::
    "CursorCall \<Rightarrow> LeftRightMoveContext \<Rightarrow> LeftRightMoveContext \<times> bool" where
  "left_right_cursor_func c m =
    (if cc_line_num c = lr_yd m \<and>
        (lr_dir m < 0 \<and> cc_x c < lr_xd m \<or> lr_dir m > 0 \<and> cc_x c > lr_xd m)
     then let d = abs (cc_x c - lr_xd m) in
       (if d < lr_xdmin m then m\<lparr>lr_xdmin := d, lr_offsetd := cc_offset1 c\<rparr> else m, False)
     else if cc_line_num c > lr_yd m then (m\<lparr>lr_after_found := True\<rparr>, True)
     else (m, False))"

definition seg_dist :: "int \<Rightarrow> int \<Rightarrow> int \<Rightarrow> int" where
  "seg_dist x x1 x2 = (if x \<le> x1 then x1 - x else if x \<ge> x2 then x - x2 + 1 else 0)"

definition mouse_goto_func :: "CursorCall \<Rightarrow> MouseGotoContext \<Rightarrow> MouseGotoContext \<times> bool" where
  "mouse_goto_func c m =
    (let dy = seg_dist (mg_yd m) (cc_y c) (cc_y c + cc_h c);
         m = (if dy < mg_dy_min m then m\<lparr>mg_dy_min := dy, mg_dx_min := 0x3fffffff\<rparr> else m)
     in if dy = mg_dy_min m
        then let dx = seg_dist (mg_xd m) (cc_x c) (cc_x c + cc_w c)
             in if dx < mg_dx_min m
                then (m\<lparr>mg_dx_min := dx, mg_offset_found := cc_offset1 c, mg_hex_mode := cc_hex_mode c\<rparr>,
                      dy = 0 \<and> dx = 0)
                else (m, False)
        else (m, False))"

datatype CursorFunc =
    Cursor_func CursorContext
  | Down_cursor_func MoveContext
  | Scroll_cursor_func ScrollContext
  | Left_right_cursor_func LeftRightMoveContext
  | Mouse_goto_func MouseGotoContext

definition call_cursor :: "DirType \<Rightarrow> int \<Rightarrow> CursorCall \<Rightarrow> CursorFunc \<Rightarrow> CursorFunc \<times> bool" where
  "call_cursor base height c f = (case f of
      Cursor_func m \<Rightarrow> map_prod Cursor_func id (cursor_func base c m)
    | Down_cursor_func m \<Rightarrow> map_prod Down_cursor_func id (down_cursor_func c m)
    | Scroll_cursor_func m \<Rightarrow> map_prod Scroll_cursor_func id (scroll_cursor_func height c m)
    | Left_right_cursor_func m \<Rightarrow> map_prod Left_right_cursor_func id (left_right_cursor_func c m)
    | Mouse_goto_func m \<Rightarrow> map_prod Mouse_goto_func id (mouse_goto_func c m))"

section \<open>The display state\<close>

record DisplayState =
  do_disp :: DisplayType
  ds_width :: int
  ds_height :: int
  eol_width :: int
  default_line_height :: int
  ds_tab_width :: int
  ds_x_disp :: int
  ds_x :: int
  ds_y :: int
  ds_line_num :: int
  cur_hex_mode :: int
  ds_hex_mode :: int
  cursor :: "CursorFunc option"
  eod :: bool
  ds_base :: DirType
  embedding_level_max :: int
  ds_wrap :: WrapType
  edit_state :: DisplayWindow
  fragments :: "TextFragment list"
  nb_fragments :: int
  last_word_space :: bool
  word_index :: int
  line_chars :: "u32 list"
  line_char_widths :: "int list"
  line_offsets :: "(int \<times> int) list"
  line_hex_mode :: "int list"
  line_index :: int
  fragment_chars :: "u32 list"
  fragment_offsets :: "(int \<times> int) list"
  fragment_hex_mode :: "int list"
  fragment_index :: int
  last_space :: bool
  last_style :: u32
  last_embedding_level :: int
  drawn :: "DrawCall list"

text \<open>An array is read and written.\<close>

definition at :: "'a list \<Rightarrow> int \<Rightarrow> 'a option" where
  "at xs i = do { guard (0 \<le> i \<and> i < int (length xs)); Some (xs ! nat i) }"

definition put_at :: "'a list \<Rightarrow> int \<Rightarrow> 'a \<Rightarrow> 'a list option" where
  "put_at xs i v = do { guard (0 \<le> i \<and> i < int (length xs)); Some (xs[nat i := v]) }"

section \<open>Styles\<close>

text \<open>\<open>apply_style\<close> overrides a style by another of the table.\<close>

definition COLOR_TRANSPARENT :: u32 where "COLOR_TRANSPARENT = 0"

definition apply_style :: "QEStyleDef list \<Rightarrow> QEStyleDef \<Rightarrow> u32 \<Rightarrow> QEStyleDef option" where
  "apply_style styles style i = do {
     style \<leftarrow>
       (if i AND QE_STYLE_TTY \<noteq> 0
        then do {
          fg \<leftarrow> at tty_colors (TTY_GET_FG (sint i));
          bg \<leftarrow> at tty_colors (TTY_GET_BG (sint i));
          Some (style\<lparr>fg_color := fg, bg_color := bg\<rparr>) }
        else do {
          s \<leftarrow> at styles (sint (i AND NOT QE_STYLE_SEL));
          let style = (if fg_color s \<noteq> COLOR_TRANSPARENT then style\<lparr>fg_color := fg_color s\<rparr> else style);
          let style = (if bg_color s \<noteq> COLOR_TRANSPARENT then style\<lparr>bg_color := bg_color s\<rparr> else style);
          let style = (if font_style s \<noteq> 0 then style\<lparr>font_style := font_style s\<rparr> else style);
          Some (if font_size s \<noteq> 0 then style\<lparr>font_size := font_size s\<rparr> else style) });
     if i AND QE_STYLE_SEL \<noteq> 0
     then do {
       s \<leftarrow> at styles 7;
       Some (style\<lparr>fg_color := fg_color s, bg_color := bg_color s\<rparr>) }
     else Some style }"

definition get_style :: "DisplayEnv \<Rightarrow> DisplayWindow \<Rightarrow> u32 \<Rightarrow> QEStyleDef option" where
  "get_style env e i = do {
     style \<leftarrow> at (env_styles env) 0;
     style \<leftarrow> (if dw_default_style e \<noteq> 0 then apply_style (env_styles env) style (dw_default_style e) else Some style);
     if i \<noteq> 0 then apply_style (env_styles env) style i else Some style }"

definition style_font :: "DisplayEnv \<Rightarrow> QEStyleDef \<Rightarrow> int \<times> int" where
  "style_font env style = dpy_font env (font_style style) (font_size style)"

definition glyph_width :: "DisplayEnv \<Rightarrow> int \<times> int \<Rightarrow> u32 \<Rightarrow> int" where
  "glyph_width env font c = snd (snd (dpy_metrics env font c))"

section \<open>Order of fragments and checksum\<close>

definition reverse_fragments :: "nat \<Rightarrow> nat \<Rightarrow> 'a list \<Rightarrow> 'a list" where
  "reverse_fragments pos len xs =
    fold (\<lambda>i xs. xs[pos + i := xs ! (pos + (len - 1 - i)), pos + (len - 1 - i) := xs ! (pos + i)]) [0..<len div 2] xs"

text \<open>The end of the run of fragments of at least this level from \<open>pos\<close> on.\<close>

definition run_end :: "int \<Rightarrow> nat \<Rightarrow> nat \<Rightarrow> TextFragment list \<Rightarrow> nat" where
  "run_end level nb pos fs = Suc pos + length (takeWhile (\<lambda>f. frag_level f \<ge> level) (take (nb - Suc pos) (drop (Suc pos) fs)))"

function level_pass :: "int \<Rightarrow> nat \<Rightarrow> nat \<Rightarrow> TextFragment list \<Rightarrow> TextFragment list" where
  "level_pass level nb pos fs =
    (if pos < nb
     then if frag_level (fs ! pos) \<ge> level
       then let p = run_end level nb pos fs in level_pass level nb (Suc p) (reverse_fragments pos (p - pos) fs)
       else level_pass level nb (Suc pos) fs
     else fs)"
  by auto
termination
  by (relation "measure (\<lambda>(_, nb, pos, _). nb - pos)") (auto simp: run_end_def)

declare level_pass.simps [simp del]

fun order_levels :: "nat \<Rightarrow> nat \<Rightarrow> TextFragment list \<Rightarrow> TextFragment list" where
  "order_levels 0 nb fs = fs"
| "order_levels (Suc l) nb fs = order_levels l nb (level_pass (int (Suc l)) nb 0 fs)"

fun compute_crc :: "u8 list \<Rightarrow> u32 \<Rightarrow> u32" where
  "compute_crc (a # b # c # d # r) sm =
     compute_crc r (sm + (push_bit 24 (ucast a) OR push_bit 16 (ucast b) OR push_bit 8 (ucast c) OR ucast d))"
| "compute_crc [a, b, c] sm = sm + push_bit 24 (ucast a) + push_bit 16 (ucast b) + push_bit 8 (ucast c)"
| "compute_crc [a, b] sm = sm + push_bit 16 (ucast a) + push_bit 8 (ucast b)"
| "compute_crc [a] sm = sm + push_bit 8 (ucast a)"
| "compute_crc [] sm = sm"

definition short_bytes :: "int \<Rightarrow> u8 list" where
  "short_bytes v = [word_of_int v, word_of_int (v div 256)]"

definition fragment_bytes :: "TextFragment \<Rightarrow> u8 list" where
  "fragment_bytes f = concat (map short_bytes [frag_level f, frag_width f, frag_ascent f, frag_descent f,
     sint (frag_style f), frag_line_index f, frag_len f, 0])"

definition char_word_bytes :: "u32 \<Rightarrow> u8 list" where
  "char_word_bytes c = [ucast c, ucast (drop_bit 8 c), ucast (drop_bit 16 c), ucast (drop_bit 24 c)]"

section \<open>Drawing a line\<close>

definition LINE_SHADOW_INCR :: nat where "LINE_SHADOW_INCR = 10"

definition no_shadow :: QELineShadow where
  "no_shadow = \<lparr>sh_x_start = - 1, sh_y = - 1, sh_height = - 1, sh_crc = 0xffffffff\<rparr>"

definition array_slice :: "'a list \<Rightarrow> int \<Rightarrow> int \<Rightarrow> 'a list option" where
  "array_slice xs i n = do { guard (0 \<le> i \<and> i + n \<le> int (length xs)); Some (take (nat n) (drop (nat i) xs)) }"

text \<open>The rectangles behind the fragments from \<open>x\<close> on and where they end, then their texts.\<close>

fun fragment_rects :: "DisplayEnv \<Rightarrow> DisplayWindow \<Rightarrow> int \<Rightarrow> int \<Rightarrow> int \<Rightarrow> TextFragment list \<Rightarrow> (int \<times> DrawCall list) option" where
  "fragment_rects env e x y h [] = Some (x, [])"
| "fragment_rects env e x y h (f # fs) = do {
     style \<leftarrow> get_style env e (frag_style f);
     (x', calls) \<leftarrow> fragment_rects env e (x + frag_width f) y h fs;
     Some (x', Fill_rectangle x y (frag_width f) h (bg_color style) # calls) }"

fun fragment_texts :: "DisplayEnv \<Rightarrow> DisplayWindow \<Rightarrow> u32 list \<Rightarrow> int \<Rightarrow> int \<Rightarrow> TextFragment list \<Rightarrow> DrawCall list option" where
  "fragment_texts env e gchars x y [] = Some []"
| "fragment_texts env e gchars x y (f # fs) = do {
     style \<leftarrow> get_style env e (frag_style f);
     str \<leftarrow> array_slice gchars (frag_line_index f) (frag_len f);
     calls \<leftarrow> fragment_texts env e gchars (x + frag_width f) y fs;
     Some (Draw_text (style_font env style) x y str (fg_color style) # calls) }"

definition draw_line ::
    "DisplayEnv \<Rightarrow> DisplayState \<Rightarrow> TextFragment list \<Rightarrow> int \<Rightarrow> int \<Rightarrow> int \<Rightarrow> bool \<Rightarrow> DrawCall list option" where
  "draw_line env s fs baseline h x_start last_line = do {
     let e = edit_state s;
     style \<leftarrow> get_style env e 0;
     let font = style_font env style;
     let x = dw_xleft e;
     let y = dw_ytop e + ds_y s;
     let x1 = dw_xleft e + ds_width s + eol_width s;
     let left = (if x_start > 0 then [Fill_rectangle x y x_start h (bg_color style)] else []);
     (xe, rects) \<leftarrow> fragment_rects env e (x + x_start) y h fs;
     let right = (if xe < x1 then [Fill_rectangle xe y (x1 - xe) h (bg_color style)] else []);
     let mark_l = (if x_start > 0 \<and> \<not> last_line \<and> ds_base s = DIR_RTL
       then [Draw_text font x (y + fst font) [47] (fg_color style)] else []);
     texts \<leftarrow> fragment_texts env e (line_chars s) (x + x_start) (y + baseline) fs;
     let mark_r = (if xe < x1 \<and> \<not> last_line \<and> ds_base s = DIR_LTR
       then [Draw_text font (dw_xleft e + ds_width s) (y + fst font) [92] (fg_color style)] else []);
     Some (left @ rects @ right @ mark_l @ texts @ mark_r) }"

text \<open>The line is drawn unless it is the one that was drawn there before.\<close>

definition print_line ::
    "DisplayEnv \<Rightarrow> TextFragment list \<Rightarrow> int \<Rightarrow> int \<Rightarrow> int \<Rightarrow> bool \<Rightarrow> DisplayState \<Rightarrow> DisplayState option" where
  "print_line env fs baseline h x_start last_line s = do {
     gchars \<leftarrow> array_slice (line_chars s) 0 (line_index s);
     let crc = compute_crc (concat (map fragment_bytes fs)) 0;
     let crc = compute_crc (concat (map char_word_bytes gchars)) crc;
     let e = edit_state s;
     let shadow = dw_line_shadow e;
     shadow \<leftarrow> (if ds_line_num s \<ge> int (length shadow)
       then do { guard (env_mem env); Some (shadow @ replicate LINE_SHADOW_INCR no_shadow) }
       else Some shadow);
     ls \<leftarrow> at shadow (ds_line_num s);
     let s = s\<lparr>edit_state := e\<lparr>dw_line_shadow := shadow\<rparr>\<rparr>;
     if sh_y ls = ds_y s \<and> sh_x_start ls = x_start \<and> sh_height ls = h \<and> sh_crc ls = crc then Some s
     else do {
       let ls = \<lparr>sh_x_start = short x_start, sh_y = short (ds_y s), sh_height = short h, sh_crc = crc\<rparr>;
       shadow \<leftarrow> put_at shadow (ds_line_num s) ls;
       calls \<leftarrow> draw_line env s fs baseline h x_start last_line;
       Some (s\<lparr>edit_state := e\<lparr>dw_line_shadow := shadow\<rparr>, drawn := drawn s @ calls\<rparr>) } }"

text \<open>The callback for one place; it is not called with a negative offset.\<close>

definition cursor_at :: "int \<times> int \<Rightarrow> int \<Rightarrow> int \<Rightarrow> int \<Rightarrow> int \<Rightarrow> DisplayState \<Rightarrow> DisplayState" where
  "cursor_at offsets x w h hex s = (case cursor s of None \<Rightarrow> s | Some f \<Rightarrow>
     (if fst offsets \<ge> 0 \<and> snd offsets \<ge> 0
      then let c = \<lparr>cc_offset1 = fst offsets, cc_offset2 = snd offsets, cc_line_num = ds_line_num s,
                    cc_x = x, cc_y = ds_y s, cc_w = w, cc_h = h, cc_hex_mode = hex\<rparr>;
               (f, r) = call_cursor (ds_base s) (ds_height s) c f
           in s\<lparr>cursor := Some f, eod := eod s \<or> r\<rparr>
      else s))"

fun glyph_calls :: "nat \<Rightarrow> int \<Rightarrow> int \<Rightarrow> int \<Rightarrow> DisplayState \<Rightarrow> (int \<times> DisplayState) option" where
  "glyph_calls 0 j x h s = Some (x, s)"
| "glyph_calls (Suc n) j x h s = do {
     offsets \<leftarrow> at (line_offsets s) j;
     hex \<leftarrow> at (line_hex_mode s) j;
     w \<leftarrow> at (line_char_widths s) j;
     let s = (if hex = ds_hex_mode s \<or> ds_hex_mode s = - 1
       then if ds_base s = DIR_RTL then cursor_at offsets (x + w) (- w) h hex s
            else cursor_at offsets x w h hex s
       else s);
     glyph_calls n (j + 1) (x + w) h s }"

fun fragment_calls :: "TextFragment list \<Rightarrow> int \<Rightarrow> int \<Rightarrow> DisplayState \<Rightarrow> (int \<times> DisplayState) option" where
  "fragment_calls [] x h s = Some (x, s)"
| "fragment_calls (f # fs) x h s = do {
     (x, s) \<leftarrow> glyph_calls (nat (frag_len f)) (frag_line_index f) x h s;
     fragment_calls fs x h s }"

definition line_calls :: "TextFragment list \<Rightarrow> int \<times> int \<Rightarrow> int \<Rightarrow> int \<Rightarrow> DisplayState \<Rightarrow> DisplayState option" where
  "line_calls fs offsets x_start h s = (case cursor s of None \<Rightarrow> Some s | Some _ \<Rightarrow> do {
     let hex = dw_hex_mode (edit_state s);
     let s = (if ds_base s = DIR_RTL then cursor_at offsets x_start (- eol_width s) h hex s else s);
     (x, s) \<leftarrow> fragment_calls fs x_start h s;
     Some (if ds_base s = DIR_LTR then cursor_at offsets x (eol_width s) h hex s else s) })"

definition line_ascent :: "TextFragment list \<Rightarrow> int" where
  "line_ascent fs = fold (\<lambda>f a. if frag_ascent f > a then frag_ascent f else a) fs 0"

definition line_descent :: "TextFragment list \<Rightarrow> int" where
  "line_descent fs = fold (\<lambda>f a. if frag_descent f > a then frag_descent f else a) fs 0"

definition flush_line :: "DisplayEnv \<Rightarrow> int \<Rightarrow> int \<times> int \<Rightarrow> bool \<Rightarrow> DisplayState \<Rightarrow> DisplayState option" where
  "flush_line env nb offsets last_line s = do {
     guard (nb \<le> int (length (fragments s)));
     let fs = take (nat nb) (fragments s);
     let baseline = line_ascent fs;
     let h = (if nb = 0 then default_line_height s else baseline + line_descent fs);
     let s = s\<lparr>fragments := order_levels (nat (embedding_level_max s)) (nat nb) (fragments s)\<rparr>;
     let fs = take (nat nb) (fragments s);
     let x_start = (if ds_base s = DIR_RTL then dw_width (edit_state s) - ds_x s else ds_x_disp s);
     s \<leftarrow> (if do_disp s = DISP_PRINT then print_line env fs baseline h x_start last_line s else Some s);
     s \<leftarrow> line_calls fs offsets x_start h s;
     Some (s\<lparr>ds_y := ds_y s + h, ds_line_num := ds_line_num s + 1\<rparr>) }"

section \<open>Fragments\<close>

text \<open>\<open>memmove\<close> of the last \<open>n\<close> entries of the line to its start; \<open>line_hex_mode\<close> is not moved.\<close>

definition move_front :: "int \<Rightarrow> int \<Rightarrow> 'a list \<Rightarrow> 'a list option" where
  "move_front i n xs = do { ys \<leftarrow> array_slice xs i n; Some (ys @ drop (nat n) xs) }"

definition keep_line_chars :: "int \<Rightarrow> DisplayState \<Rightarrow> DisplayState option" where
  "keep_line_chars n s = do {
     let i = line_index s - n;
     guard (0 \<le> n);
     gchars \<leftarrow> move_front i n (line_chars s);
     offsets \<leftarrow> move_front i n (line_offsets s);
     widths \<leftarrow> move_front i n (line_char_widths s);
     Some (s\<lparr>line_chars := gchars, line_offsets := offsets, line_char_widths := widths, line_index := n\<rparr>) }"

text \<open>\<open>unicode_to_glyphs\<close>: the glyphs, and for each character its glyph; those that are not written are \<open>None\<close>.\<close>

definition unicode_to_glyphs :: "int \<Rightarrow> u32 list \<Rightarrow> u32 list \<times> nat option list" where
  "unicode_to_glyphs dst_size src =
    (let len = (if int (length src) > dst_size then nat dst_size else length src)
     in (take len src, map (\<lambda>i. if i < len then Some i else None) [0..<length src]))"

fun put_glyphs :: "u32 list \<Rightarrow> int \<Rightarrow> DisplayState \<Rightarrow> DisplayState option" where
  "put_glyphs [] j s = Some s"
| "put_glyphs (g # gs) j s = do {
     gchars \<leftarrow> put_at (line_chars s) j g;
     offsets \<leftarrow> put_at (line_offsets s) j (- 1, - 1);
     put_glyphs gs (j + 1) (s\<lparr>line_chars := gchars, line_offsets := offsets\<rparr>) }"

fun glyph_offsets :: "nat option list \<Rightarrow> int \<Rightarrow> DisplayState \<Rightarrow> DisplayState option" where
  "glyph_offsets [] i s = Some s"
| "glyph_offsets (p # ps) i s = do {
     p \<leftarrow> p;
     let j = line_index s + int p;
     (o1, o2) \<leftarrow> at (fragment_offsets s) i;
     hex \<leftarrow> at (fragment_hex_mode s) i;
     (l1, l2) \<leftarrow> at (line_offsets s) j;
     hexes \<leftarrow> put_at (line_hex_mode s) j hex;
     offsets \<leftarrow> put_at (line_offsets s) j
       (if l1 = - 1 \<or> l1 > o1 then o1 else l1, if l2 = - 1 \<or> l2 < o2 then o2 else l2);
     glyph_offsets ps (i + 1) (s\<lparr>line_hex_mode := hexes, line_offsets := offsets\<rparr>) }"

text \<open>The metrics of \<open>n\<close> glyphs from \<open>j\<close> on: ascent, descent, width.\<close>

fun measure_glyphs :: "DisplayEnv \<Rightarrow> int \<times> int \<Rightarrow> nat \<Rightarrow> int \<Rightarrow> int \<times> int \<times> int \<Rightarrow> DisplayState \<Rightarrow>
    ((int \<times> int \<times> int) \<times> DisplayState) option" where
  "measure_glyphs env font 0 j m s = Some (m, s)"
| "measure_glyphs env font (Suc n) j (a, d, w) s = do {
     c \<leftarrow> at (line_chars s) j;
     let (fa, fd, fw) = dpy_metrics env font c;
     widths \<leftarrow> put_at (line_char_widths s) j (short fw);
     measure_glyphs env font n (j + 1)
       (if fa > a then fa else a, if fd > d then fd else d, w + short fw) (s\<lparr>line_char_widths := widths\<rparr>) }"

text \<open>
  \<open>shrink\<close> takes glyphs off the end of the last fragment until the line fits, and leaves at least one
  glyph on a line. Its first argument counts the entries of the array below the last glyph.
\<close>

fun shrink :: "nat \<Rightarrow> int list \<Rightarrow> int \<Rightarrow> int \<Rightarrow> int \<Rightarrow> int \<Rightarrow> (int \<times> int) option" where
  "shrink 0 widths width li len x = (if x > width then None else Some (len, x))"
| "shrink (Suc n) widths width li len x =
     (if x > width
      then do {
        ww \<leftarrow> at widths (li + (len - 1));
        if len - 1 = 0 \<and> x - ww = 0 then Some (1, x)
        else shrink n widths width li (len - 1) (x - ww) }
      else Some (len, x))"

text \<open>One line of \<open>WRAP_LINE\<close>: what fits is flushed, the rest is moved to the next line.\<close>

definition break_line :: "DisplayEnv \<Rightarrow> DisplayState \<Rightarrow> DisplayState option" where
  "break_line env s = do {
     let k = nb_fragments s - 1;
     frag \<leftarrow> at (fragments s) k;
     (len, x) \<leftarrow> shrink (nat (frag_line_index frag + frag_len frag)) (line_char_widths s) (ds_width s)
       (frag_line_index frag) (frag_len frag) (ds_x s);
     let len1 = frag_len frag - len;
     let w1 = ds_x s - x;
     fs \<leftarrow> put_at (fragments s) k (frag\<lparr>frag_len := len, frag_width := short (frag_width frag - w1)\<rparr>);
     s \<leftarrow> flush_line env (if len = 0 then nb_fragments s - 1 else nb_fragments s) (- 1, - 1) False
       (s\<lparr>fragments := fs, ds_x := x\<rparr>);
     s \<leftarrow> (if len1 > 0
       then do {
         frag \<leftarrow> at (fragments s) k;
         fs \<leftarrow> put_at (fragments s) 0 (frag\<lparr>frag_width := short w1, frag_line_index := 0, frag_len := short len1\<rparr>);
         Some (s\<lparr>fragments := fs, nb_fragments := 1, ds_x := w1\<rparr>) }
       else Some (s\<lparr>nb_fragments := 0, ds_x := 0\<rparr>));
     keep_line_chars len1 s }"

partial_function (option) wrap_line :: "DisplayEnv \<Rightarrow> DisplayState \<Rightarrow> DisplayState option" where
  "wrap_line env s = (if ds_x s > ds_width s then do { s \<leftarrow> break_line env s; wrap_line env s } else Some s)"

text \<open>\<open>WRAP_WORD\<close>: the line is flushed up to the current word.\<close>

definition wrap_word :: "DisplayEnv \<Rightarrow> DisplayState \<Rightarrow> DisplayState option" where
  "wrap_word env s =
    (if ds_x s > ds_width s
     then do {
       s \<leftarrow> flush_line env (word_index s) (- 1, - 1) False s;
       frag \<leftarrow> at (fragments s) (word_index s);
       let i = frag_line_index frag;
       let n = nb_fragments s - word_index s;
       fs \<leftarrow> move_front (word_index s) n (fragments s);
       let fs = map (\<lambda>f. f\<lparr>frag_line_index := frag_line_index f - i\<rparr>) (take (nat n) fs) @ drop (nat n) fs;
       let s = s\<lparr>fragments := fs, nb_fragments := n, ds_x := sum_list (map frag_width (take (nat n) fs))\<rparr>;
       s \<leftarrow> keep_line_chars (line_index s - i) s;
       Some (s\<lparr>word_index := 0\<rparr>) }
     else Some s)"

text \<open>
  The fragment becomes glyphs of the line. The loop for a tabulator has no metrics; a fragment behind
  the last place of the line is dropped.
\<close>

definition add_fragment :: "DisplayEnv \<Rightarrow> DisplayState \<Rightarrow> DisplayState option" where
  "add_fragment env s = do {
     src \<leftarrow> array_slice (fragment_chars s) 0 (fragment_index s);
     let (glyphs, pos) = unicode_to_glyphs (MAX_WIDTH - line_index s) src;
     let n = int (length glyphs);
     s \<leftarrow> put_glyphs glyphs (line_index s) s;
     s \<leftarrow> glyph_offsets pos 0 s;
     let style_index = (if last_style s = QE_STYLE_DEFAULT then dw_default_style (edit_state s) else last_style s);
     style \<leftarrow> get_style env (edit_state s) style_index;
     let font = style_font env style;
     c \<leftarrow> at (line_chars s) (line_index s);
     ((a, d, w), s) \<leftarrow>
       (if c = 9
        then do {
          guard (ds_tab_width s \<noteq> 0);
          let w = ds_tab_width s - (ds_x s - ds_x_disp s) smod ds_tab_width s;
          gchars \<leftarrow> put_at (line_chars s) (line_index s) 32;
          widths \<leftarrow> put_at (line_char_widths s) (line_index s) (short w);
          Some ((fst font, snd font, w), s\<lparr>line_chars := gchars, line_char_widths := widths\<rparr>) }
        else measure_glyphs env font (length glyphs) (line_index s) (fst font, snd font, 0) s);
     fs \<leftarrow> put_at (fragments s) (nb_fragments s)
       \<lparr>frag_level = last_embedding_level s, frag_width = short w, frag_ascent = short a, frag_descent = short d,
        frag_style = scast (ucast style_index :: 16 word), frag_line_index = line_index s, frag_len = n\<rparr>;
     Some (s\<lparr>fragments := fs, nb_fragments := nb_fragments s + 1, line_index := line_index s + n,
             ds_x := ds_x s + short w\<rparr>) }"

definition flush_fragment :: "DisplayEnv \<Rightarrow> DisplayState \<Rightarrow> DisplayState option" where
  "flush_fragment env s =
    (if fragment_index s = 0 then Some s
     else if nb_fragments s \<ge> MAX_WIDTH then Some (s\<lparr>fragment_index := 0\<rparr>)
     else
       let s = (if nb_fragments s \<ge> 1 \<and> last_word_space s \<noteq> last_space s
                then s\<lparr>last_word_space := last_space s, word_index := nb_fragments s\<rparr> else s)
       in if MAX_WIDTH - line_index s \<le> 0 then Some (s\<lparr>fragment_index := 0\<rparr>)
          else do {
            s \<leftarrow> add_fragment env s;
            s \<leftarrow> (case ds_wrap s of
                WRAP_TRUNCATE \<Rightarrow> Some s
              | WRAP_LINE \<Rightarrow> wrap_line env s
              | WRAP_WORD \<Rightarrow> wrap_word env s);
            Some (s\<lparr>fragment_index := 0\<rparr>) })"

section \<open>Characters\<close>

text \<open>The style of a character, by an arithmetic shift of its 32 bits.\<close>

definition style_of_char :: "u32 \<Rightarrow> u32" where
  "style_of_char c = drop_bit STYLE_SHIFT c OR (if bit c 31 then 0xfffff000 else 0)"

definition char_style :: "DisplayWindow \<Rightarrow> int \<Rightarrow> u32 \<Rightarrow> u32" where
  "char_style e offset1 uc =
    (let mk = mark (dw_s e); p = dw_offset e
     in if dw_show_selection e \<and> (offset1 \<ge> p \<and> offset1 < mk \<or> offset1 \<ge> mk \<and> offset1 < p)
        then style_of_char uc OR QE_STYLE_SEL else style_of_char uc)"

definition display_char_bidir :: "DisplayEnv \<Rightarrow> int \<Rightarrow> int \<Rightarrow> int \<Rightarrow> u32 \<Rightarrow> DisplayState \<Rightarrow> DisplayState option" where
  "display_char_bidir env offset1 offset2 level uc s = do {
     let style = char_style (edit_state s) offset1 uc;
     let (offset1, offset2) = (if offset1 = offset2 then (- 1, - 1) else (offset1, offset2));
     let uc = uc AND NOT STYLE_MASK;
     let space = (uc = 32);
     let istab = (uc = 9);
     s \<leftarrow> (if fragment_index s \<ge> MAX_WORD_SIZE \<or> istab \<or>
         fragment_index s \<ge> 1 \<and>
           (space \<noteq> last_space s \<or> style \<noteq> last_style s \<or> level \<noteq> last_embedding_level s)
       then flush_fragment env s else Some s);
     gchars \<leftarrow> put_at (fragment_chars s) (fragment_index s) uc;
     offsets \<leftarrow> put_at (fragment_offsets s) (fragment_index s) (offset1, offset2);
     hexes \<leftarrow> put_at (fragment_hex_mode s) (fragment_index s) (cur_hex_mode s);
     let s = s\<lparr>fragment_chars := gchars, fragment_offsets := offsets, fragment_hex_mode := hexes,
               fragment_index := fragment_index s + 1, last_space := space, last_style := style,
               last_embedding_level := level\<rparr>;
     if istab then flush_fragment env s else Some s }"

definition display_char :: "DisplayEnv \<Rightarrow> int \<Rightarrow> int \<Rightarrow> u32 \<Rightarrow> DisplayState \<Rightarrow> DisplayState option" where
  "display_char env offset1 offset2 uc s = display_char_bidir env offset1 offset2 0 uc s"

text \<open>The digits of \<open>h\<close> from the \<open>k\<close>-th to the last one.\<close>

fun printhex_loop :: "DisplayEnv \<Rightarrow> int \<Rightarrow> int \<Rightarrow> u32 \<Rightarrow> nat \<Rightarrow> int \<Rightarrow> DisplayState \<Rightarrow> DisplayState option" where
  "printhex_loop env offset1 offset2 h 0 i s = Some s"
| "printhex_loop env offset1 offset2 h (Suc k) i s = do {
     let v = drop_bit (k * 4) h AND 0xf;
     let v = (if v \<ge> 10 then v + 87 else v + 48);
     s \<leftarrow> display_char env offset1 (if dw_hex_nibble (edit_state s) = i then offset2 else offset1) v s;
     printhex_loop env offset1 offset2 h k (i + 1) s }"

definition display_printhex :: "DisplayEnv \<Rightarrow> int \<Rightarrow> int \<Rightarrow> u32 \<Rightarrow> nat \<Rightarrow> DisplayState \<Rightarrow> DisplayState option" where
  "display_printhex env offset1 offset2 h n s = do {
     s \<leftarrow> printhex_loop env offset1 offset2 h n 0 (s\<lparr>cur_hex_mode := 1\<rparr>);
     Some (s\<lparr>cur_hex_mode := 0\<rparr>) }"

text \<open>\<open>display_printf\<close> of a formatted string, whose characters are signed.\<close>

fun printf_loop :: "DisplayEnv \<Rightarrow> u8 list \<Rightarrow> DisplayState \<Rightarrow> DisplayState option" where
  "printf_loop env [] s = Some s"
| "printf_loop env (c # cs) s = do {
     s \<leftarrow> display_char env (- 1) (- 1) (scast c) s;
     printf_loop env cs s }"

definition display_printf :: "DisplayEnv \<Rightarrow> int \<Rightarrow> int \<Rightarrow> u8 list \<Rightarrow> DisplayState \<Rightarrow> DisplayState option" where
  "display_printf env offset1 offset2 str s = (case takeWhile (\<lambda>c. c \<noteq> 0) (take 255 str) of
      [] \<Rightarrow> Some s
    | c # cs \<Rightarrow> do {
        s \<leftarrow> display_char env offset1 offset2 (scast c) s;
        printf_loop env cs s })"

definition display_eol :: "DisplayEnv \<Rightarrow> int \<Rightarrow> int \<Rightarrow> DisplayState \<Rightarrow> DisplayState option" where
  "display_eol env offset1 offset2 s = do {
     s \<leftarrow> flush_fragment env s;
     flush_line env (nb_fragments s) (offset1, offset2) True s }"

section \<open>The beginning of a display and of a line\<close>

definition display_init :: "DisplayEnv \<Rightarrow> DisplayWindow \<Rightarrow> DisplayType \<Rightarrow> DisplayState \<Rightarrow> DisplayState option" where
  "display_init env e disp s = do {
     style \<leftarrow> get_style env e (dw_default_style e);
     let font = style_font env style;
     let eolw = max (max (glyph_width env font 47) (glyph_width env font 92)) (glyph_width env font 36);
     Some (s\<lparr>do_disp := disp, ds_wrap := dw_wrap e, edit_state := e, eol_width := eolw,
             default_line_height := fst font + snd font,
             ds_tab_width := glyph_width env font 32 * dw_tab_size e,
             ds_width := dw_width e - eolw, ds_height := dw_height e, ds_hex_mode := dw_hex_mode e,
             cur_hex_mode := 0, ds_y := dw_y_disp e, ds_line_num := 0, cursor := None, eod := False\<rparr>) }"

definition display_bol_bidir :: "DirType \<Rightarrow> int \<Rightarrow> DisplayState \<Rightarrow> DisplayState" where
  "display_bol_bidir base level_max s =
    s\<lparr>ds_base := base, ds_x_disp := dw_x_disp (edit_state s) base, ds_x := dw_x_disp (edit_state s) base,
      fragment_index := 0, line_index := 0, nb_fragments := 0, word_index := 0,
      embedding_level_max := level_max, last_word_space := False\<rparr>"

definition display_bol :: "DisplayState \<Rightarrow> DisplayState" where
  "display_bol s = display_bol_bidir DIR_LTR 0 s"

end
