(* ===== verification/Windows.thy ===== *)
theory Windows
  imports Util "HOL-Library.Signed_Division"
begin

text \<open>
  The windows of \<open>src/qe.c\<close>: creating, closing, splitting, deleting and sizing them, popups, and
  the mouse. A window is named by its address, a number that is not used again. The list
  \<open>first_window\<close> has the windows in the order of the links; an operation on a window that is
  not in the list follows a dangling pointer and has no result. What a mode does with its window is
  left out; calls of the modes by the mouse and what is drawn are results of the operations.
\<close>

section \<open>State\<close>

definition WF_POPUP :: u32 where "WF_POPUP = 1"
definition WF_MODELINE :: u32 where "WF_MODELINE = 2"
definition WF_RSEPARATOR :: u32 where "WF_RSEPARATOR = 4"

record ScreenWindow =
  win :: nat
  x1 :: int
  y1 :: int
  x2 :: int
  y2 :: int
  xleft :: int
  ytop :: int
  win_width :: int
  win_height :: int
  win_flags :: u32
  minibuf :: bool
  win_b :: "nat option"
  show_selection :: bool
  display_invalid :: bool

datatype Motion = MOTION_NONE | MOTION_MODELINE | MOTION_RSEPARATOR | MOTION_TEXT

record WindowState =
  first_window :: "ScreenWindow list"
  active_window :: "nat option"
  fresh_window :: nat
  screen_width :: int
  screen_height :: int
  tty_media :: bool
  qs_width :: int
  qs_height :: int
  status_height :: int
  mode_line_height :: int
  content_height :: int
  separator_width :: int
  border_width :: int
  hide_status :: bool
  popup_saved_active :: "nat option"
  motion_type :: Motion
  motion_target :: "nat option"
  motion_x :: int
  motion_y :: int

definition has_flag :: "u32 \<Rightarrow> ScreenWindow \<Rightarrow> bool" where
  "has_flag f e \<longleftrightarrow> win_flags e AND f \<noteq> 0"

definition window_at :: "WindowState \<Rightarrow> nat \<Rightarrow> ScreenWindow option" where
  "window_at qs i = find (\<lambda>e. win e = i) (first_window qs)"

definition put_window :: "ScreenWindow \<Rightarrow> WindowState \<Rightarrow> WindowState" where
  "put_window s qs = qs\<lparr>first_window := map (\<lambda>e. if win e = win s then s else e) (first_window qs)\<rparr>"

section \<open>Creating and closing\<close>

definition compute_client_area :: "WindowState \<Rightarrow> ScreenWindow \<Rightarrow> ScreenWindow" where
  "compute_client_area qs s =
    (let l = x1 s; t = y1 s; r = x2 s; b = y2 s;
         b = (if has_flag WF_MODELINE s then b - mode_line_height qs else b);
         (l, t, r, b) = (if has_flag WF_POPUP s
           then (l + border_width qs, t + border_width qs, r - border_width qs, b - border_width qs)
           else (l, t, r, b));
         r = (if has_flag WF_RSEPARATOR s then r - separator_width qs else r)
     in s\<lparr>xleft := l, ytop := t, win_width := r - l, win_height := b - t\<rparr>)"

text \<open>\<open>mem\<close>: whether \<open>malloc\<close> succeeds. The new window, if there is one.\<close>

definition edit_new ::
    "bool \<Rightarrow> nat option \<Rightarrow> int \<Rightarrow> int \<Rightarrow> int \<Rightarrow> int \<Rightarrow> u32 \<Rightarrow> WindowState \<Rightarrow> nat option \<times> WindowState" where
  "edit_new mem b left tp width height flags qs =
    (if \<not> mem then (None, qs)
     else
       let i = fresh_window qs;
           s = \<lparr>win = i, x1 = left, y1 = tp, x2 = left + width, y2 = tp + height,
                xleft = 0, ytop = 0, win_width = 0, win_height = 0, win_flags = flags,
                minibuf = False, win_b = None, show_selection = False, display_invalid = False\<rparr>;
           s = compute_client_area qs s;
           qs = qs\<lparr>first_window := s # first_window qs, fresh_window := i + 1\<rparr>;
           qs = (if active_window qs = None then qs\<lparr>active_window := Some i\<rparr> else qs)
       in (Some i, put_window (s\<lparr>win_b := b\<rparr>) qs))"

fun unlink_window :: "nat \<Rightarrow> ScreenWindow list \<Rightarrow> ScreenWindow list option" where
  "unlink_window i [] = None"
| "unlink_window i (e # es) = (if win e = i then Some es else map_option ((#) e) (unlink_window i es))"

definition edit_close :: "nat \<Rightarrow> WindowState \<Rightarrow> WindowState option" where
  "edit_close i qs = do {
     es \<leftarrow> unlink_window i (first_window qs);
     let qs = qs\<lparr>first_window := es\<rparr>;
     Some (if active_window qs = Some i
           then qs\<lparr>active_window := (case es of [] \<Rightarrow> None | e # _ \<Rightarrow> Some (win e))\<rparr>
           else qs) }"

section \<open>Refreshing\<close>

text \<open>
  \<open>do_refresh\<close> has the heights of the fonts of the status and mode lines as an argument. It returns
  what it draws: the clip rectangles it sets and the borders it fills. Drawing the empty
  status line at its end is left out.
\<close>

datatype ScreenCall = Clip_rect CSSRect | Fill_rect int int int int

text \<open>\<open>a * new / old\<close>, rounded to zero.\<close>

definition scale :: "int \<Rightarrow> int \<Rightarrow> int \<Rightarrow> int option" where
  "scale a new old = do { guard (old \<noteq> 0); Some ((a * new) sdiv old) }"

definition resize_window :: "WindowState \<Rightarrow> int \<Rightarrow> int \<Rightarrow> int \<Rightarrow> ScreenWindow \<Rightarrow> ScreenWindow option" where
  "resize_window qs width height content e =
    (if minibuf e then Some (e\<lparr>x1 := 0, y1 := content, x2 := width, y2 := height\<rparr>)
     else if qs_height qs = 0 then Some (e\<lparr>x1 := 0, y1 := 0, y2 := content, x2 := width\<rparr>)
     else do {
       l \<leftarrow> scale (x1 e) width (qs_width qs);
       r \<leftarrow> scale (x2 e) width (qs_width qs);
       t \<leftarrow> scale (y1 e) content (content_height qs);
       b \<leftarrow> scale (y2 e) content (content_height qs);
       Some (e\<lparr>x1 := l, x2 := r, y1 := t, y2 := b\<rparr>) })"

fun map_windows :: "(ScreenWindow \<Rightarrow> ScreenWindow option) \<Rightarrow> ScreenWindow list \<Rightarrow> ScreenWindow list option" where
  "map_windows f [] = Some []"
| "map_windows f (e # es) = do { e \<leftarrow> f e; es \<leftarrow> map_windows f es; Some (e # es) }"

definition edit_invalidate :: "ScreenWindow \<Rightarrow> ScreenWindow" where
  "edit_invalidate s = s\<lparr>display_invalid := True\<rparr>"

definition borders :: "WindowState \<Rightarrow> ScreenWindow \<Rightarrow> ScreenCall list" where
  "borders qs e =
    (if has_flag (WF_POPUP OR WF_RSEPARATOR) e
     then [Clip_rect \<lparr>rx1 = 0, ry1 = 0, rx2 = qs_width qs, ry2 = qs_height qs\<rparr>] @
       (if has_flag WF_POPUP e
        then [Fill_rect (x1 e) (y1 e) (border_width qs) (y2 e - y1 e),
              Fill_rect (x2 e - border_width qs) (y1 e) (border_width qs) (y2 e - y1 e),
              Fill_rect (x1 e) (y1 e) (x2 e - x1 e) (border_width qs),
              Fill_rect (x1 e) (y2 e - border_width qs) (x2 e - x1 e) (border_width qs)]
        else []) @
       (if has_flag WF_RSEPARATOR e
        then [Fill_rect (x2 e - separator_width qs) (y1 e) (separator_width qs) (y2 e - y1 e)]
        else [])
     else [])"

text \<open>\<open>do_refresh\<close> in its parts: the dimensions and windows, then the borders.\<close>

definition refresh_windows :: "int \<Rightarrow> int \<Rightarrow> WindowState \<Rightarrow> WindowState option" where
  "refresh_windows new_status new_mode qs =
    (let qs = qs\<lparr>separator_width := (if tty_media qs then 1 else 4), border_width := 1\<rparr>;
         width = screen_width qs;
         height = screen_height qs;
         content = (if hide_status qs then height else height - new_status)
     in do {
       qs \<leftarrow> (if qs_width qs \<noteq> width \<or> qs_height qs \<noteq> height \<or> status_height qs \<noteq> new_status \<or>
               mode_line_height qs \<noteq> new_mode \<or> content_height qs \<noteq> content
             then do {
               es \<leftarrow> map_windows (resize_window qs width height content) (first_window qs);
               Some (qs\<lparr>first_window := es, qs_width := width, qs_height := height,
                        status_height := new_status, mode_line_height := new_mode, content_height := content\<rparr>) }
             else Some qs);
       Some (qs\<lparr>first_window := map (edit_invalidate \<circ> compute_client_area qs) (first_window qs)\<rparr>) })"

definition do_refresh :: "int \<Rightarrow> int \<Rightarrow> WindowState \<Rightarrow> (WindowState \<times> ScreenCall list) option" where
  "do_refresh new_status new_mode qs = do {
     qs \<leftarrow> refresh_windows new_status new_mode qs;
     Some (qs, concat (map (borders qs) (first_window qs))) }"

section \<open>Commands on windows\<close>

text \<open>The window behind \<open>i\<close> in the list, or the first one.\<close>

fun window_behind :: "nat \<Rightarrow> ScreenWindow list \<Rightarrow> nat option option" where
  "window_behind i [] = None"
| "window_behind i (e # es) =
     (if win e = i then Some (case es of [] \<Rightarrow> None | e' # _ \<Rightarrow> Some (win e')) else window_behind i es)"

definition do_other_window :: "nat \<Rightarrow> WindowState \<Rightarrow> WindowState option" where
  "do_other_window i qs = do {
     n \<leftarrow> window_behind i (first_window qs);
     let n = (case n of None \<Rightarrow> (case first_window qs of [] \<Rightarrow> None | e # _ \<Rightarrow> Some (win e)) | Some j \<Rightarrow> Some j);
     Some (qs\<lparr>active_window := n\<rparr>) }"

text \<open>The first window that \<open>s\<close> can be merged with, as it is then.\<close>

definition merge_with :: "ScreenWindow \<Rightarrow> ScreenWindow \<Rightarrow> ScreenWindow option" where
  "merge_with s e =
    (if x1 s = x2 e \<and> y1 s = y1 e \<and> y2 s = y2 e then Some (e\<lparr>x2 := x2 s\<rparr>)
     else if x2 s = x1 e \<and> y1 s = y1 e \<and> y2 s = y2 e then Some (e\<lparr>x1 := x1 s\<rparr>)
     else if y1 s = y2 e \<and> x1 s = x1 e \<and> x2 s = x2 e then Some (e\<lparr>y2 := y2 s\<rparr>)
     else if y2 s = y1 e \<and> x1 s = x1 e \<and> x2 s = x2 e then Some (e\<lparr>y1 := y1 s\<rparr>)
     else None)"

fun find_merge :: "ScreenWindow \<Rightarrow> ScreenWindow list \<Rightarrow> ScreenWindow option" where
  "find_merge s [] = None"
| "find_merge s (e # es) =
     (if minibuf e \<or> win e = win s then find_merge s es
      else case merge_with s e of Some e' \<Rightarrow> Some e' | None \<Rightarrow> find_merge s es)"

text \<open>
  Without a window to merge with, \<open>e\<close> is null after the loop and \<open>compute_client_area\<close> reads
  through it.
\<close>

definition do_delete_window ::
    "int \<Rightarrow> int \<Rightarrow> nat \<Rightarrow> bool \<Rightarrow> WindowState \<Rightarrow> (WindowState \<times> ScreenCall list) option" where
  "do_delete_window st ml i force qs = do {
     s \<leftarrow> window_at qs i;
     let count = length (filter (\<lambda>e. \<not> minibuf e) (first_window qs));
     if (\<not> minibuf s \<and> count > 1) \<or> force
     then do {
       e \<leftarrow> find_merge s (first_window qs);
       let qs = put_window (compute_client_area qs e) qs;
       qs \<leftarrow> edit_close i qs;
       do_refresh st ml qs }
     else Some (qs, []) }"

fun close_others :: "nat \<Rightarrow> nat list \<Rightarrow> WindowState \<Rightarrow> WindowState option" where
  "close_others i [] qs = Some qs"
| "close_others i (j # js) qs = do {
     e \<leftarrow> window_at qs j;
     qs \<leftarrow> (if \<not> minibuf e \<and> j \<noteq> i then edit_close j qs else Some qs);
     close_others i js qs }"

definition do_delete_other_windows ::
    "int \<Rightarrow> int \<Rightarrow> nat \<Rightarrow> WindowState \<Rightarrow> (WindowState \<times> ScreenCall list) option" where
  "do_delete_other_windows st ml i qs = do {
     qs \<leftarrow> close_others i (map win (first_window qs)) qs;
     s \<leftarrow> window_at qs i;
     let s = s\<lparr>y1 := 0, x1 := 0, x2 := qs_width qs, y2 := qs_height qs - status_height qs,
               win_flags := win_flags s AND NOT WF_RSEPARATOR\<rparr>;
     do_refresh st ml (put_window (compute_client_area qs s) qs) }"

definition do_split_window ::
    "int \<Rightarrow> int \<Rightarrow> bool \<Rightarrow> nat \<Rightarrow> bool \<Rightarrow> WindowState \<Rightarrow> (WindowState \<times> ScreenCall list) option" where
  "do_split_window st ml mem i horiz qs = do {
     s \<leftarrow> window_at qs i;
     if minibuf s then Some (qs, [])
     else
       let (s, qs) =
         (if horiz
          then let x = (x2 s + x1 s) sdiv 2
               in (s\<lparr>x2 := x, win_flags := win_flags s OR WF_RSEPARATOR\<rparr>,
                   snd (edit_new mem (win_b s) x (y1 s) (x2 s - x) (y2 s - y1 s) WF_MODELINE qs))
          else let y = (y2 s + y1 s) sdiv 2
               in (s\<lparr>y2 := y\<rparr>,
                   snd (edit_new mem (win_b s) (x1 s) y (x2 s - x1 s) (y2 s - y)
                     (WF_MODELINE OR (win_flags s AND WF_RSEPARATOR)) qs)))
       in do_refresh st ml (put_window (compute_client_area qs s) qs) }"

section \<open>Popups and windows at the left\<close>

definition show_popup :: "int \<Rightarrow> int \<Rightarrow> bool \<Rightarrow> nat option \<Rightarrow> WindowState \<Rightarrow> (WindowState \<times> ScreenCall list) option" where
  "show_popup st ml mem b qs = do {
     let w1 = screen_width qs;
     let h1 = screen_height qs - status_height qs;
     let w = (w1 * 4) sdiv 5;
     let h = (h1 * 3) sdiv 4;
     let (i, qs) = edit_new mem b ((w1 - w) sdiv 2) ((h1 - h) sdiv 2) w h WF_POPUP qs;
     i \<leftarrow> i;
     do_refresh st ml (qs\<lparr>popup_saved_active := active_window qs, active_window := Some i\<rparr>) }"

definition do_less_quit :: "nat \<Rightarrow> WindowState \<Rightarrow> WindowState option" where
  "do_less_quit i qs = edit_close i (qs\<lparr>active_window := popup_saved_active qs\<rparr>)"

fun push_right :: "int \<Rightarrow> nat list \<Rightarrow> WindowState \<Rightarrow> WindowState option" where
  "push_right width [] qs = Some qs"
| "push_right width (j # js) qs = do {
     e \<leftarrow> window_at qs j;
     qs \<leftarrow> (if minibuf e then Some qs
           else if x2 e \<le> width then edit_close j qs
           else if x1 e < width then Some (put_window (e\<lparr>x1 := width\<rparr>) qs)
           else Some qs);
     push_right width js qs }"

definition insert_window_left ::
    "int \<Rightarrow> int \<Rightarrow> bool \<Rightarrow> nat option \<Rightarrow> int \<Rightarrow> u32 \<Rightarrow> WindowState \<Rightarrow>
     (nat option \<times> WindowState \<times> ScreenCall list) option" where
  "insert_window_left st ml mem b width flags qs = do {
     qs \<leftarrow> push_right width (map win (first_window qs)) qs;
     let (i, qs) = edit_new mem b 0 0 width (qs_height qs - status_height qs) (flags OR WF_RSEPARATOR) qs;
     (qs, calls) \<leftarrow> do_refresh st ml qs;
     Some (i, qs, calls) }"

definition find_window_right :: "nat \<Rightarrow> WindowState \<Rightarrow> nat option option" where
  "find_window_right i qs = do {
     s \<leftarrow> window_at qs i;
     Some (map_option win (find (\<lambda>e. \<not> minibuf e \<and> x1 e = x2 s) (first_window qs))) }"

definition do_toggle_full_screen :: "nat \<Rightarrow> bool \<Rightarrow> WindowState \<Rightarrow> WindowState option" where
  "do_toggle_full_screen i full qs = do {
     s \<leftarrow> window_at qs i;
     let s = s\<lparr>win_flags := (if \<not> full then win_flags s AND NOT WF_MODELINE else win_flags s OR WF_MODELINE)\<rparr>;
     Some ((put_window s qs)\<lparr>hide_status := \<not> full\<rparr>) }"

text \<open>The order in which \<open>edit_display\<close> displays the windows.\<close>

definition edit_display_order :: "WindowState \<Rightarrow> nat list" where
  "edit_display_order qs =
    (let first = filter (\<lambda>s. has_flag WF_POPUP s \<or> minibuf s) (first_window qs);
         has_popups = list_ex (has_flag WF_POPUP) (first_window qs)
     in map win (if has_popups then first else first @ filter (\<lambda>s. \<not> minibuf s) (first_window qs)))"

section \<open>Changing the size of a window\<close>

definition window_get_min_size :: "WindowState \<Rightarrow> ScreenWindow \<Rightarrow> int \<times> int" where
  "window_get_min_size qs s = (8, if has_flag WF_MODELINE s then 8 + mode_line_height qs else 8)"

text \<open>Whether the loop over the other windows returns at \<open>e\<close>.\<close>

definition too_small :: "WindowState \<Rightarrow> ScreenWindow \<Rightarrow> int \<Rightarrow> int \<Rightarrow> ScreenWindow \<Rightarrow> bool" where
  "too_small qs s delta_x delta_y e \<longleftrightarrow>
    (let (min_w, min_h) = window_get_min_size qs e in
     (if y1 e = y2 s then y2 e - y1 e - delta_y < min_h
      else if y2 e = y2 s then y2 e - y1 e + delta_y < min_h else False) \<or>
     (if x1 e = x2 s then x2 e - x1 e - delta_x < min_w
      else if x2 e = x2 s then x2 e - x1 e + delta_x < min_w else False))"

definition move_edges :: "ScreenWindow \<Rightarrow> int \<Rightarrow> int \<Rightarrow> ScreenWindow \<Rightarrow> ScreenWindow" where
  "move_edges s delta_x delta_y e =
    (let e = (if y1 e = y2 s then e\<lparr>y1 := y1 e + delta_y\<rparr>
              else if y2 e = y2 s then e\<lparr>y2 := y2 e + delta_y\<rparr> else e)
     in if x1 e = x2 s then e\<lparr>x1 := x1 e + delta_x\<rparr>
        else if x2 e = x2 s then e\<lparr>x2 := x2 e + delta_x\<rparr> else e)"

definition window_resize :: "nat \<Rightarrow> int \<Rightarrow> int \<Rightarrow> WindowState \<Rightarrow> WindowState option" where
  "window_resize i target_w target_h qs = do {
     s \<leftarrow> window_at qs i;
     let delta_x = target_w - (x2 s - x1 s);
     let delta_y = target_h - (y2 s - y1 s);
     let (min_w, min_h) = window_get_min_size qs s;
     if target_w < min_w \<or> target_h < min_h then Some qs
     else if (x2 s \<ge> screen_width qs \<and> delta_x \<noteq> 0) \<or>
       (y2 s \<ge> screen_height qs - status_height qs \<and> delta_y \<noteq> 0) then Some qs
     else if list_ex (\<lambda>e. \<not> minibuf e \<and> win e \<noteq> i \<and> too_small qs s delta_x delta_y e) (first_window qs) then Some qs
     else Some (qs\<lparr>first_window := map (\<lambda>e.
       if win e = i then compute_client_area qs (e\<lparr>x2 := x1 e + target_w, y2 := y1 e + target_h\<rparr>)
       else if minibuf e then e
       else compute_client_area qs (move_edges s delta_x delta_y e)) (first_window qs)\<rparr>) }"

section \<open>The mouse\<close>

text \<open>
  What the mouse makes others do: the mode sets the cursor, the mark is set, text is yanked,
  scrolled or killed, the windows are displayed.
\<close>

datatype MouseCall =
    Mouse_goto nat int int
  | Set_mark nat
  | Yank nat
  | Wheel_scroll nat int
  | Kill_region nat
  | Display

datatype Button = QE_BUTTON_LEFT | QE_BUTTON_MIDDLE | QE_BUTTON_RIGHT | QE_WHEEL_UP | QE_WHEEL_DOWN
datatype MouseEvent = Release | Press Button int int | Move int int

definition check_motion_target :: "WindowState \<Rightarrow> bool" where
  "check_motion_target qs \<longleftrightarrow>
     list_ex (\<lambda>e. motion_target qs = Some (win e)) (first_window qs)"

definition save_selection :: "WindowState \<Rightarrow> WindowState \<times> MouseCall list" where
  "save_selection qs =
    (let showed = list_ex show_selection (first_window qs);
         qs = qs\<lparr>first_window := map (\<lambda>e. e\<lparr>show_selection := False\<rparr>) (first_window qs)\<rparr>
     in if showed \<and> motion_type qs = MOTION_TEXT
        then let qs = qs\<lparr>motion_type := MOTION_NONE\<rparr>
             in if \<not> check_motion_target qs then (qs, []) else (qs, [Kill_region (the (motion_target qs))])
        else (qs, []))"

definition in_text :: "int \<Rightarrow> int \<Rightarrow> ScreenWindow \<Rightarrow> bool" where
  "in_text x y e \<longleftrightarrow> x \<ge> xleft e \<and> x < xleft e + win_width e \<and> y \<ge> ytop e \<and> y < ytop e + win_height e"

text \<open>The loop over the windows for a button. \<open>goto\<close> says which windows have a mode with \<open>mouse_goto\<close>.\<close>

fun press_loop :: "(nat \<Rightarrow> bool) \<Rightarrow> Button \<Rightarrow> int \<Rightarrow> int \<Rightarrow> ScreenWindow list \<Rightarrow> WindowState \<Rightarrow>
    WindowState \<times> MouseCall list" where
  "press_loop goto button x y [] qs = (qs, [])"
| "press_loop goto button x y (e # es) qs =
    (if in_text x y e
     then if goto (win e)
       then let (qs, calls) = save_selection qs;
                calls = calls @ [Mouse_goto (win e) (x - xleft e) (y - ytop e)];
                (qs, more) = (case button of
                    QE_BUTTON_LEFT \<Rightarrow>
                      (qs\<lparr>motion_type := MOTION_TEXT, motion_x := 0, motion_target := Some (win e)\<rparr>, [])
                  | QE_BUTTON_MIDDLE \<Rightarrow> (qs, [Yank (win e)])
                  | QE_WHEEL_UP \<Rightarrow> (qs, [Wheel_scroll (win e) (- 1)])
                  | QE_WHEEL_DOWN \<Rightarrow> (qs, [Wheel_scroll (win e) 1])
                  | QE_BUTTON_RIGHT \<Rightarrow> (qs, []))
            in (qs, calls @ more @ [Display])
       else (qs, [])
     else if has_flag WF_MODELINE e \<and> x \<ge> xleft e \<and> x < xleft e + win_width e \<and>
         y \<ge> ytop e + win_height e \<and> y < ytop e + win_height e + mode_line_height qs
     then (qs\<lparr>motion_type := MOTION_MODELINE, motion_target := Some (win e), motion_y := ytop e + win_height e\<rparr>, [])
     else if has_flag WF_RSEPARATOR e \<and> x \<ge> x2 e - separator_width qs \<and> x < x2 e \<and>
         y \<ge> ytop e \<and> y < ytop e + win_height e
     then (qs\<lparr>motion_type := MOTION_RSEPARATOR, motion_target := Some (win e),
             motion_x := x2 e - separator_width qs\<rparr>, [])
     else press_loop goto button x y es qs)"

text \<open>Dragging an edge: the window gets a new size, then everything is displayed.\<close>

definition drag_window :: "int \<Rightarrow> int \<Rightarrow> nat \<Rightarrow> int \<Rightarrow> int \<Rightarrow> WindowState \<Rightarrow> (WindowState \<times> ScreenCall list) option" where
  "drag_window st ml i w h qs = do { qs \<leftarrow> window_resize i w h qs; do_refresh st ml qs }"

text \<open>In \<open>MOTION_TEXT\<close> a window that has been closed is written to.\<close>

definition mouse_event :: "int \<Rightarrow> int \<Rightarrow> (nat \<Rightarrow> bool) \<Rightarrow> MouseEvent \<Rightarrow> WindowState \<Rightarrow>
    (WindowState \<times> ScreenCall list \<times> MouseCall list) option" where
  "mouse_event st ml goto ev qs = (case ev of
     Release \<Rightarrow> (case save_selection qs of (qs, calls) \<Rightarrow> Some (qs\<lparr>motion_type := MOTION_NONE\<rparr>, [], calls))
   | Press button x y \<Rightarrow> (case press_loop goto button x y (first_window qs) qs of (qs, calls) \<Rightarrow> Some (qs, [], calls))
   | Move x y \<Rightarrow> (case motion_type qs of
       MOTION_NONE \<Rightarrow> Some (qs, [], [])
     | MOTION_TEXT \<Rightarrow> do {
         i \<leftarrow> motion_target qs;
         e \<leftarrow> window_at qs i;
         let calls = (if motion_x qs = 0 \<and> win_b e \<noteq> None then [Set_mark i] else []);
         let qs = put_window (e\<lparr>show_selection := True\<rparr>) (if motion_x qs = 0 then qs\<lparr>motion_x := 1\<rparr> else qs);
         Some (qs, [], calls @ (if in_text x y e then [Mouse_goto i (x - xleft e) (y - ytop e), Display] else [])) }
     | MOTION_MODELINE \<Rightarrow>
         if y sdiv 8 = motion_y qs sdiv 8 then Some (qs, [], [])
         else if \<not> check_motion_target qs then Some (qs\<lparr>motion_type := MOTION_NONE\<rparr>, [], [])
         else do {
           i \<leftarrow> motion_target qs;
           e \<leftarrow> window_at qs i;
           (qs, out) \<leftarrow> drag_window st ml i (x2 e - x1 e) (y - y1 e) (qs\<lparr>motion_y := y\<rparr>);
           Some (qs, out, [Display]) }
     | MOTION_RSEPARATOR \<Rightarrow>
         if x sdiv 8 = motion_x qs sdiv 8 then Some (qs, [], [])
         else if \<not> check_motion_target qs then Some (qs\<lparr>motion_type := MOTION_NONE\<rparr>, [], [])
         else do {
           i \<leftarrow> motion_target qs;
           e \<leftarrow> window_at qs i;
           (qs, out) \<leftarrow> drag_window st ml i (x - x1 e) (y2 e - y1 e) (qs\<lparr>motion_x := x\<rparr>);
           Some (qs, out, [Display]) }))"

end
