(* ===== verification/Text_Display.thy ===== *)
theory Text_Display
  imports Layout Windows
begin

text \<open>
  The display of a text and the movements of the cursor that depend on it, from \<open>src/qe.c\<close>. The functions
  of the mode are arguments: \<open>disp\<close> is \<open>text_display\<close> and \<open>back\<close> is \<open>text_backward_offset\<close>. The functions for
  texts are below; \<open>Hex_Modes\<close> has others. \<open>ds0\<close> is what the stack holds where the display state is put.
\<close>

type_synonym display_fun = "DisplayState \<Rightarrow> int \<Rightarrow> (int \<times> DisplayState) option"
type_synonym backward_fun = "DisplayWindow \<Rightarrow> int \<Rightarrow> (int \<times> DisplayWindow) option"

section \<open>Display of a line of text\<close>

definition hex_digit :: "int \<Rightarrow> u8" where
  "hex_digit v = (if v < 10 then byte (48 + v) else byte (87 + v))"

text \<open>\<open>%0kx\<close> of a number of at most \<open>k\<close> digits, and \<open>%6d\<close>.\<close>

definition print_hex :: "nat \<Rightarrow> int \<Rightarrow> u8 list" where
  "print_hex k v = map (\<lambda>i. hex_digit (v div 16 ^ i mod 16)) (rev [0..<k])"

definition print_right :: "nat \<Rightarrow> int \<Rightarrow> u8 list" where
  "print_right k v = (let d = print_int v in replicate (k - length d) 32 @ d)"

definition display_text_char :: "DisplayEnv \<Rightarrow> u32 list \<Rightarrow> nat \<Rightarrow> int \<Rightarrow> int \<Rightarrow> int \<Rightarrow> DisplayState \<Rightarrow> DisplayState option" where
  "display_text_char env styled k o1 o2 c ds =
    (let tabs = dw_show_tabs (edit_state ds) in
     if c < 32 \<and> c \<noteq> 9 then display_printf env o1 o2 [94, byte (64 + c)] ds
     else if c \<ge> 0x10000 then display_printf env o1 o2 ([92, 85] @ print_hex 8 c) ds
     else if (c \<ge> 128 \<and> c < 128 + 32) \<or> (\<not> dpy_utf8 env \<and> c \<ge> 256)
       then display_printf env o1 o2 ([92, 117] @ print_hex 4 c) ds
     else if c = 9 \<and> tabs then display_printf env o1 o2 (94 # replicate 7 45) ds
     else if c = 32 \<and> tabs then display_printf env o1 o2 [46] ds
     else display_char_bidir env o1 o2 0 (if k < length styled then styled ! k else word_of_int c) ds)"

partial_function (option) display_loop ::
    "DisplayEnv \<Rightarrow> u32 list \<Rightarrow> nat \<Rightarrow> int \<Rightarrow> DisplayState \<Rightarrow> (int \<times> DisplayState) option" where
  "display_loop env styled k offset ds =
    (let b = dw_b (edit_state ds) in
     if offset \<ge> int (total_size b)
     then do { ds \<leftarrow> display_eol env offset (offset + 1) ds; Some (- 1, ds) }
     else do {
       (c, o2, b) \<leftarrow> eb_nextc b (env_junk env) offset;
       let ds = ds\<lparr>edit_state := set_dw_b b (edit_state ds)\<rparr>;
       if c = 10
       then do { ds \<leftarrow> display_eol env offset o2 ds; Some (o2, ds) }
       else do {
         ds \<leftarrow> display_text_char env styled k offset o2 c ds;
         display_loop env styled (k + 1) o2 ds } })"

definition text_display :: "DisplayEnv \<Rightarrow> display_fun" where
  "text_display env ds offset = do {
     let e = (edit_state ds)\<lparr>dw_line_numbers := env_line_numbers env\<rparr>;
     guard (0 \<le> offset);
     let (line_num, b) = (if dw_line_numbers e \<or> dw_colorize e
       then (case eb_get_pos (dw_b e) (nat offset) of ((l, c), b) \<Rightarrow> (l, b)) else (0, dw_b e));
     let ds = display_bol_bidir DIR_LTR 0 (ds\<lparr>edit_state := set_dw_b b e\<rparr>);
     ds \<leftarrow> (if dw_line_numbers e
           then display_printf env (- 1) (- 1) (print_right 6 (int line_num + 1) @ [32, 32]) ds else Some ds);
     ds \<leftarrow> (case dw_prompt e of
             Some p \<Rightarrow> if offset = 0 then printf_loop env p ds else Some ds
           | None \<Rightarrow> Some ds);
     (styled, ds) \<leftarrow> (case get_colorized e of
         None \<Rightarrow> Some ([], ds)
       | Some f \<Rightarrow> do {
           let e = edit_state ds;
           (styled, b, colors) \<leftarrow> f (dw_b e) (dw_colors e) offset line_num;
           Some (styled, ds\<lparr>edit_state := (set_dw_b b e)\<lparr>dw_colors := colors\<rparr>\<rparr>) });
     display_loop env styled 0 offset ds }"

definition text_backward_offset :: "DisplayEnv \<Rightarrow> backward_fun" where
  "text_backward_offset env e offset = do {
     guard (0 \<le> offset);
     let ((line, col), b) = eb_get_pos (dw_b e) (nat offset);
     (p, b) \<leftarrow> eb_goto_pos b (env_junk env) line 0;
     Some (p, set_dw_b b e) }"

section \<open>Finding the cursor\<close>

text \<open>\<open>display1\<close> displays lines up to the end of the text or of what is needed.\<close>

definition display_ends :: "DisplayState \<Rightarrow> bool" where
  "display_ends ds = (case do_disp ds of
      DISP_CURSOR \<Rightarrow> eod ds
    | DISP_PRINT \<Rightarrow> ds_y ds \<ge> ds_height ds
    | DISP_CURSOR_SCREEN \<Rightarrow> eod ds \<or> ds_y ds \<ge> ds_height ds)"

partial_function (option) display1_loop :: "display_fun \<Rightarrow> int \<Rightarrow> DisplayState \<Rightarrow> DisplayState option" where
  "display1_loop disp offset ds = do {
     (offset, ds) \<leftarrow> disp ds offset;
     if offset < 0 \<or> display_ends ds then Some ds else display1_loop disp offset ds }"

definition display1 :: "display_fun \<Rightarrow> DisplayState \<Rightarrow> DisplayState option" where
  "display1 disp ds = display1_loop disp (dw_offset_top (edit_state ds)) (ds\<lparr>eod := False\<rparr>)"

definition cursor_context :: "DisplayState \<Rightarrow> CursorContext option" where
  "cursor_context ds = (case cursor ds of Some (Cursor_func m) \<Rightarrow> Some m | _ \<Rightarrow> None)"

definition get_cursor_pos ::
    "DisplayEnv \<Rightarrow> display_fun \<Rightarrow> DisplayState \<Rightarrow> DisplayWindow \<Rightarrow> CursorContext \<Rightarrow> (CursorContext \<times> DisplayWindow) option" where
  "get_cursor_pos env disp ds0 s m = do {
     ds \<leftarrow> display_init env s DISP_CURSOR ds0;
     let m = m\<lparr>offsetc := dw_offset s, xc := NO_CURSOR, yc := NO_CURSOR\<rparr>;
     ds \<leftarrow> display1 disp (ds\<lparr>cursor := Some (Cursor_func m)\<rparr>);
     m \<leftarrow> cursor_context ds;
     Some (m, edit_state ds) }"

section \<open>Moving up and down\<close>

text \<open>The text on the screen is moved down until there is a line above the cursor; \<open>None\<close> when there is none.\<close>

partial_function (option) scroll_back ::
    "DisplayEnv \<Rightarrow> display_fun \<Rightarrow> backward_fun \<Rightarrow> DisplayState \<Rightarrow> DisplayWindow \<Rightarrow> CursorContext \<Rightarrow>
     (CursorContext option \<times> DisplayWindow) option" where
  "scroll_back env disp back ds0 s cm = do {
     p \<leftarrow> place cm;
     if linec p \<le> 0
     then if dw_offset_top s \<le> 0 then Some (None, s)
       else do {
         (top_offset, s) \<leftarrow> back s (dw_offset_top s - 1);
         let s = set_dw_offset_top top_offset s;
         let s = s\<lparr>dw_y_disp := dw_y_disp s + yc cm\<rparr>;
         (cm, s) \<leftarrow> get_cursor_pos env disp ds0 s cm;
         let s = s\<lparr>dw_y_disp := dw_y_disp s - yc cm\<rparr>;
         scroll_back env disp back ds0 s cm }
     else Some (Some cm, s) }"

text \<open>\<open>last_x\<close> is \<open>up_down_last_x\<close>, \<open>again\<close> says that the last command moved up or down, too.\<close>

definition text_move_up_down ::
    "DisplayEnv \<Rightarrow> display_fun \<Rightarrow> backward_fun \<Rightarrow> DisplayState \<Rightarrow> bool \<Rightarrow> int \<Rightarrow> CursorContext \<Rightarrow> int \<Rightarrow> DisplayWindow \<Rightarrow>
     (int \<times> DisplayWindow) option" where
  "text_move_up_down env disp back ds0 again last_x cm dir s = do {
     let last_x = (if \<not> again then - 1 else last_x);
     (cm, s) \<leftarrow> get_cursor_pos env disp ds0 s cm;
     if xc cm = NO_CURSOR then Some (last_x, s)
     else do {
       let last_x = (if last_x = - 1 then xc cm else last_x);
       (r, s) \<leftarrow> (if dir < 0 then scroll_back env disp back ds0 s cm else Some (Some cm, s));
       case r of
         None \<Rightarrow> Some (last_x, s)
       | Some cm \<Rightarrow> do {
           p \<leftarrow> place cm;
           let m = \<lparr>mv_yd = linec p + dir, mv_xd = last_x, mv_xdmin = 0x7fffffff,
                    mv_offsetd = (if dir > 0 then int (total_size (dw_b s)) else 0)\<rparr>;
           ds \<leftarrow> display_init env s DISP_CURSOR ds0;
           ds \<leftarrow> display1 disp (ds\<lparr>cursor := Some (Down_cursor_func m)\<rparr>);
           m \<leftarrow> (case cursor ds of Some (Down_cursor_func m) \<Rightarrow> Some m | _ \<Rightarrow> None);
           Some (last_x, set_dw_offset (mv_offsetd m) (edit_state ds)) } } }"

section \<open>Scrolling\<close>

partial_function (option) scroll_top ::
    "display_fun \<Rightarrow> backward_fun \<Rightarrow> DisplayState \<Rightarrow> DisplayState option" where
  "scroll_top disp back ds = (let s = edit_state ds in do {
     ds \<leftarrow> (if dw_offset_top s \<le> 0 then Some (ds\<lparr>edit_state := s\<lparr>dw_y_disp := 0\<rparr>\<rparr>)
       else do {
         (top_offset, s) \<leftarrow> back s (dw_offset_top s - 1);
         let s = set_dw_offset_top top_offset s;
         (p, ds) \<leftarrow> disp (ds\<lparr>edit_state := s, ds_y := 0\<rparr>) top_offset;
         let s = edit_state ds;
         Some (ds\<lparr>edit_state := s\<lparr>dw_y_disp := dw_y_disp s - ds_y ds\<rparr>\<rparr>) });
     if dw_y_disp (edit_state ds) > 0 then scroll_top disp back ds else Some ds })"

definition perform_scroll_up_down ::
    "DisplayEnv \<Rightarrow> display_fun \<Rightarrow> backward_fun \<Rightarrow> DisplayState \<Rightarrow> int \<Rightarrow> DisplayWindow \<Rightarrow> DisplayWindow option" where
  "perform_scroll_up_down env disp back ds0 h s = do {
     let dir = (if h < 0 then - 1 else 1);
     let s = s\<lparr>dw_y_disp := dw_y_disp s - h\<rparr>;
     s \<leftarrow> (if dw_y_disp s > 0
       then do {
         ds \<leftarrow> display_init env s DISP_CURSOR_SCREEN ds0;
         ds \<leftarrow> scroll_top disp back ds;
         Some (edit_state ds) }
       else Some s);
     let m = \<lparr>y_found = 0x7fffffff * dir, sc_offset_found = dw_offset s, sc_dir = - dir, sc_offsetc = dw_offset s\<rparr>;
     ds \<leftarrow> display_init env s DISP_CURSOR_SCREEN ds0;
     ds \<leftarrow> display1 disp (ds\<lparr>cursor := Some (Scroll_cursor_func m)\<rparr>);
     m \<leftarrow> (case cursor ds of Some (Scroll_cursor_func m) \<Rightarrow> Some m | _ \<Rightarrow> None);
     Some (set_dw_offset (sc_offset_found m) (edit_state ds)) }"

definition get_line_height :: "DisplayEnv \<Rightarrow> u32 \<Rightarrow> int option" where
  "get_line_height env style_index = do {
     style \<leftarrow> at (env_styles env) 0;
     style \<leftarrow> (if style_index \<noteq> 0 then apply_style (env_styles env) style style_index else Some style);
     let font = style_font env style;
     Some (fst font + snd font) }"

definition text_scroll_up_down ::
    "DisplayEnv \<Rightarrow> display_fun \<Rightarrow> backward_fun \<Rightarrow> DisplayState \<Rightarrow> int \<Rightarrow> DisplayWindow \<Rightarrow> DisplayWindow option" where
  "text_scroll_up_down env disp back ds0 dir s = do {
     line_height \<leftarrow> get_line_height env (dw_default_style s);
     guard (line_height \<noteq> 0);
     let h = dw_height s sdiv line_height - 1;
     let h = (if h < 1 then 1 else h) * line_height;
     perform_scroll_up_down env disp back ds0 (dir * h) s }"

definition WHEEL_SCROLL_STEP :: int where "WHEEL_SCROLL_STEP = 4"

definition wheel_scroll_up_down ::
    "DisplayEnv \<Rightarrow> display_fun \<Rightarrow> backward_fun \<Rightarrow> DisplayState \<Rightarrow> int \<Rightarrow> DisplayWindow \<Rightarrow> DisplayWindow option" where
  "wheel_scroll_up_down env disp back ds0 dir s = do {
     line_height \<leftarrow> get_line_height env (dw_default_style s);
     perform_scroll_up_down env disp back ds0 (dir * WHEEL_SCROLL_STEP * line_height) s }"

definition center_cursor ::
    "DisplayEnv \<Rightarrow> display_fun \<Rightarrow> backward_fun \<Rightarrow> DisplayState \<Rightarrow> CursorContext \<Rightarrow> DisplayWindow \<Rightarrow> DisplayWindow option" where
  "center_cursor env disp back ds0 cm s = do {
     (cm, s) \<leftarrow> get_cursor_pos env disp ds0 s cm;
     if xc cm = NO_CURSOR then Some s
     else perform_scroll_up_down env disp back ds0 (- (dw_height s sdiv 2 - yc cm)) s }"

section \<open>Moving left and right\<close>

text \<open>\<open>y\<close> is the line looked at, \<open>nextline\<close> says that it is not the one of the cursor.\<close>

partial_function (option) left_right_loop ::
    "DisplayEnv \<Rightarrow> display_fun \<Rightarrow> backward_fun \<Rightarrow> DisplayState \<Rightarrow> int \<Rightarrow> int \<Rightarrow> int \<Rightarrow> bool \<Rightarrow> CursorContext \<Rightarrow> DisplayWindow \<Rightarrow>
     DisplayWindow option" where
  "left_right_loop env disp back ds0 dir x y nextline cm s = do {
     let m = \<lparr>lr_yd = y, lr_xd = (if \<not> nextline then x else - dir * 0x3fffffff), lr_xdmin = 0x7fffffff,
              lr_offsetd = - 1, lr_dir = dir, lr_after_found = False\<rparr>;
     ds \<leftarrow> display_init env s DISP_CURSOR ds0;
     ds \<leftarrow> display1 disp (ds\<lparr>cursor := Some (Left_right_cursor_func m)\<rparr>);
     m \<leftarrow> (case cursor ds of Some (Left_right_cursor_func m) \<Rightarrow> Some m | _ \<Rightarrow> None);
     let s = edit_state ds;
     if lr_offsetd m \<ge> 0 then Some (set_dw_offset (lr_offsetd m) s)
     else if dir > 0
     then if \<not> lr_after_found m then Some s
          else left_right_loop env disp back ds0 dir x (y + dir) True cm s
     else if y \<le> 0
     then if dw_offset_top s \<le> 0 then Some s
       else do {
         (top_offset, s) \<leftarrow> back s (dw_offset_top s - 1);
         let s = set_dw_offset_top top_offset s;
         let s = s\<lparr>dw_y_disp := dw_y_disp s + yc cm\<rparr>;
         (cm, s) \<leftarrow> get_cursor_pos env disp ds0 s cm;
         let s = s\<lparr>dw_y_disp := dw_y_disp s - yc cm\<rparr>;
         p \<leftarrow> place cm;
         left_right_loop env disp back ds0 dir x (linec p + dir) True cm s }
     else left_right_loop env disp back ds0 dir x (y + dir) True cm s }"

definition text_move_left_right_visual ::
    "DisplayEnv \<Rightarrow> display_fun \<Rightarrow> backward_fun \<Rightarrow> DisplayState \<Rightarrow> CursorContext \<Rightarrow> int \<Rightarrow> DisplayWindow \<Rightarrow> DisplayWindow option" where
  "text_move_left_right_visual env disp back ds0 cm dir s = do {
     (cm, s) \<leftarrow> get_cursor_pos env disp ds0 s cm;
     p \<leftarrow> place cm;
     left_right_loop env disp back ds0 dir (xc cm) (linec p) False cm s }"

section \<open>The mouse\<close>

text \<open>The result says whether the window becomes the active one.\<close>

definition text_mouse_goto ::
    "DisplayEnv \<Rightarrow> display_fun \<Rightarrow> DisplayState \<Rightarrow> int \<Rightarrow> int \<Rightarrow> DisplayWindow \<Rightarrow> (bool \<times> DisplayWindow) option" where
  "text_mouse_goto env disp ds0 x y s = do {
     let m = \<lparr>mg_yd = y, mg_xd = x, mg_dy_min = 0x3fffffff, mg_dx_min = 0x3fffffff,
              mg_offset_found = dw_offset s, mg_hex_mode = dw_hex_mode s\<rparr>;
     ds \<leftarrow> display_init env s DISP_CURSOR_SCREEN ds0;
     ds \<leftarrow> display1 disp (ds\<lparr>ds_hex_mode := - 1, cursor := Some (Mouse_goto_func m)\<rparr>);
     m \<leftarrow> (case cursor ds of Some (Mouse_goto_func m) \<Rightarrow> Some m | _ \<Rightarrow> None);
     let s = (set_dw_offset (mg_offset_found m) (edit_state ds))\<lparr>dw_hex_mode := mg_hex_mode m\<rparr>;
     let s = (if dw_mouse_force_highlight s then s\<lparr>dw_force_highlight := True\<rparr> else s);
     Some (dw_flags s AND WF_POPUP = 0, s) }"

section \<open>Displaying a window\<close>

text \<open>The loop that looks for the cursor and moves the top of the display down to the first line needed.\<close>

definition found_xc :: "DisplayState \<Rightarrow> int" where
  "found_xc ds = (case cursor_context ds of Some m \<Rightarrow> xc m | None \<Rightarrow> NO_CURSOR)"

partial_function (option) find_cursor_loop :: "display_fun \<Rightarrow> int \<Rightarrow> DisplayState \<Rightarrow> DisplayState option" where
  "find_cursor_loop disp offset ds = (let s = edit_state ds in do {
     let s = (if ds_y ds \<le> 0 then (set_dw_offset_top offset s)\<lparr>dw_y_disp := ds_y ds\<rparr> else s);
     (offset, ds) \<leftarrow> disp (ds\<lparr>edit_state := s\<rparr>) offset;
     if offset < 0 \<or> ds_y ds \<ge> dw_height (edit_state ds) \<or> found_xc ds \<noteq> NO_CURSOR then Some ds
     else find_cursor_loop disp offset ds })"

partial_function (option) fill_back_loop ::
    "display_fun \<Rightarrow> backward_fun \<Rightarrow> int \<Rightarrow> DisplayState \<Rightarrow> (int \<times> DisplayState) option" where
  "fill_back_loop disp back offset ds =
    (if ds_y ds < dw_height (edit_state ds) \<and> offset > 0
     then do {
       (offset, s) \<leftarrow> back (edit_state ds) (offset - 1);
       (p, ds) \<leftarrow> disp (ds\<lparr>edit_state := s\<rparr>) offset;
       fill_back_loop disp back offset ds }
     else Some (offset, ds))"

text \<open>
  The cursor is not between the top and the bottom of the screen: the line of the cursor is put at
  the bottom. What is printed when the cursor is not in its line is left out.
\<close>

definition resync ::
    "DisplayEnv \<Rightarrow> display_fun \<Rightarrow> backward_fun \<Rightarrow> CursorContext \<Rightarrow> DisplayState \<Rightarrow> DisplayState option" where
  "resync env disp back m ds = do {
     let s = edit_state ds;
     ds \<leftarrow> display_init env s DISP_CURSOR_SCREEN ds;
     (offset, s) \<leftarrow> back s (dw_offset s);
     (p, ds) \<leftarrow> disp (ds\<lparr>edit_state := s, cursor := Some (Cursor_func m), ds_y := 0\<rparr>) offset;
     m \<leftarrow> cursor_context ds;
     y \<leftarrow> (if xc m = NO_CURSOR then Some 0 else do { p \<leftarrow> place m; Some (yc m + cursor_height p) });
     (offset, ds) \<leftarrow> fill_back_loop disp back offset (ds\<lparr>ds_y := y\<rparr>);
     let s = edit_state ds;
     Some (ds\<lparr>edit_state := (set_dw_offset_top offset s)\<lparr>dw_y_disp := dw_height s - ds_y ds\<rparr>\<rparr>) }"

definition adjust_y :: "CursorContext \<Rightarrow> DisplayWindow \<Rightarrow> DisplayWindow option" where
  "adjust_y m s =
    (if yc m < 0 then Some (s\<lparr>dw_y_disp := dw_y_disp s - yc m\<rparr>)
     else do {
       p \<leftarrow> place m;
       Some (if yc m + cursor_height p \<ge> dw_height s
             then s\<lparr>dw_y_disp := dw_y_disp s + (dw_height s - (yc m + cursor_height p))\<rparr> else s) })"

definition adjust_x :: "CursorContext \<Rightarrow> DisplayState \<Rightarrow> DisplayWindow \<Rightarrow> DisplayWindow option" where
  "adjust_x m ds s =
    (if dw_wrap s = WRAP_TRUNCATE
     then do {
       p \<leftarrow> place m;
       let base = basec p;
       let x1 = xc m - dw_x_disp s base;
       Some (if x1 \<ge> 0 \<and> x1 < ds_width ds - eol_width ds then s\<lparr>dw_x_disp := (dw_x_disp s)(base := 0)\<rparr>
             else if xc m < 0 then s\<lparr>dw_x_disp := (dw_x_disp s)(base := dw_x_disp s base - xc m)\<rparr>
             else if xc m \<ge> ds_width ds
             then s\<lparr>dw_x_disp := (dw_x_disp s)(base := dw_x_disp s base + (ds_width ds - xc m - eol_width ds))\<rparr>
             else s) }
     else Some (s\<lparr>dw_x_disp := (dw_x_disp s)(DIR_LTR := 0, DIR_RTL := 0)\<rparr>))"

text \<open>What the cursor of the active window becomes: the place of the hardware cursor, or a rectangle.\<close>

definition forget_shadow :: "int \<Rightarrow> DisplayWindow \<Rightarrow> DisplayWindow option" where
  "forget_shadow i s = do {
     shadow \<leftarrow> put_at (dw_line_shadow s) i no_shadow;
     Some (s\<lparr>dw_line_shadow := shadow\<rparr>) }"

definition show_cursor ::
    "DisplayEnv \<Rightarrow> CursorContext \<Rightarrow> DisplayWindow \<Rightarrow> ((int \<times> int) option \<times> DrawCall list \<times> DisplayWindow) option" where
  "show_cursor env m s = do {
     let x = dw_xleft s + xc m;
     let y = dw_ytop s + yc m;
     guard (int_range x \<and> int_range y);
     if dpy_has_cursor env then Some (Some (x, y), [], s)
     else do {
       p \<leftarrow> place m;
       let (x, w) = (if cursor_width p < 0 then (x + cursor_width p, - cursor_width p) else (x, cursor_width p));
       s \<leftarrow> forget_shadow (linec p) s;
       Some (None, [Fill_rectangle x y w (cursor_height p) QECOLOR_XOR], s) } }"

definition print_text ::
    "DisplayEnv \<Rightarrow> display_fun \<Rightarrow> CursorContext \<Rightarrow> DisplayState \<Rightarrow> DisplayWindow \<Rightarrow> (CursorContext \<times> DisplayState) option" where
  "print_text env disp m ds s = do {
     ds \<leftarrow> display_init env s DISP_PRINT ds;
     let m = m\<lparr>offsetc := dw_offset s, xc := NO_CURSOR, yc := NO_CURSOR\<rparr>;
     ds \<leftarrow> display1 disp (ds\<lparr>cursor := Some (Cursor_func m)\<rparr>);
     m \<leftarrow> cursor_context ds;
     let s = edit_state ds;
     if ds_y ds < dw_height s
     then do {
       style \<leftarrow> get_style env s 0;
       let shadow = dw_line_shadow s;
       guard (0 \<le> ds_line_num ds \<and> ds_line_num ds \<le> int (length shadow));
       let n = nat (ds_line_num ds);
       Some (m, ds\<lparr>edit_state := s\<lparr>dw_line_shadow := take n shadow @ replicate (length shadow - n) no_shadow\<rparr>,
                   drawn := drawn ds @ [Fill_rectangle (dw_xleft s) (dw_ytop s + ds_y ds) (dw_width s)
                     (dw_height s - ds_y ds) (bg_color style)]\<rparr>) }
     else Some (m, ds) }"

text \<open>\<open>active\<close> says that the window is the active one; the result has what is drawn, and the hardware cursor.\<close>

definition generic_text_display ::
    "DisplayEnv \<Rightarrow> display_fun \<Rightarrow> backward_fun \<Rightarrow> DisplayState \<Rightarrow> CursorContext \<Rightarrow> bool \<Rightarrow> DisplayWindow \<Rightarrow>
     (DisplayWindow \<times> DrawCall list \<times> (int \<times> int) option) option" where
  "generic_text_display env disp back ds0 m active s = do {
     s \<leftarrow> (if dw_offset s < dw_offset_top s
           then do { (p, s) \<leftarrow> back s (dw_offset s); Some (set_dw_offset_top p s) } else Some s);
     let s = (if dw_display_invalid s then s\<lparr>dw_line_shadow := [], dw_display_invalid := False\<rparr> else s);
     ds \<leftarrow> display_init env s DISP_CURSOR_SCREEN (ds0\<lparr>drawn := []\<rparr>);
     let m = m\<lparr>offsetc := dw_offset s, xc := NO_CURSOR, yc := NO_CURSOR\<rparr>;
     ds \<leftarrow> find_cursor_loop disp (dw_offset_top s) (ds\<lparr>cursor := Some (Cursor_func m)\<rparr>);
     m \<leftarrow> cursor_context ds;
     ds \<leftarrow> (if xc m = NO_CURSOR then resync env disp back m ds
       else do { s \<leftarrow> adjust_y m (edit_state ds); Some (ds\<lparr>edit_state := s\<rparr>) });
     m \<leftarrow> cursor_context ds;
     s \<leftarrow> adjust_x m ds (edit_state ds);
     (m, ds) \<leftarrow> print_text env disp m ds s;
     (hw, calls, s) \<leftarrow> (if active then show_cursor env m (edit_state ds) else Some (None, [], edit_state ds));
     p \<leftarrow> place m;
     Some (s\<lparr>dw_cur_rtl := (dirc p = DIR_RTL)\<rparr>, drawn ds @ calls, hw) }"

end
