(* ===== verification/Layout_Theorems.thy ===== *)
theory Layout_Theorems
  imports Text_Display
begin

text \<open>
  What the layout does to a line of text: the glyphs go from left to right, and one that does not fit any more
  begins the next line of the screen. The incremental layout by fragments does just this (\<open>lay\<close>).
  The locale \<open>text_driver\<close> is what the layout relies on from the display.
\<close>

section \<open>The shadow of a line\<close>

text \<open>
  The checksum by which \<open>flush_line\<close> decides whether a line of the screen has to be drawn again is a sum: a line in which
  two characters were exchanged has the same one, and stays as it is on the screen.
\<close>

definition char_sum :: "u32 \<Rightarrow> u32" where
  "char_sum c = compute_crc (char_word_bytes c) 0"

lemma crc_char: "compute_crc (char_word_bytes c @ r) k = compute_crc r (k + char_sum c)"
  by (simp add: char_sum_def char_word_bytes_def)

theorem exchanged_characters_same_crc:
  "compute_crc (concat (map char_word_bytes (ps @ c # d # qs))) k = compute_crc (concat (map char_word_bytes (ps @ d # c # qs))) k"
  by (induction ps arbitrary: k) (simp_all add: crc_char ac_simps)

section \<open>Calls of the cursor callback\<close>

definition run :: "DirType \<Rightarrow> int \<Rightarrow> CursorCall list \<Rightarrow> CursorFunc option \<times> bool \<Rightarrow> CursorFunc option \<times> bool" where
  "run base ht cs p = fold (\<lambda>c (f, e). case f of None \<Rightarrow> (f, e)
     | Some g \<Rightarrow> (case call_cursor base ht c g of (g', r) \<Rightarrow> (Some g', e \<or> r))) cs p"

lemma run_simps [simp]:
  "run base ht [] p = p"
  "run base ht (cs @ ds) p = run base ht ds (run base ht cs p)"
  by (simp_all add: run_def)

lemma run_None [simp]: "run base ht cs (None, e) = (None, e)"
  by (induction cs) (simp_all add: run_def)

type_synonym cell = "int \<times> int \<times> int"

abbreviation cell_width :: "cell \<Rightarrow> int" where "cell_width c \<equiv> snd (snd c)"
abbreviation row_width :: "cell list \<Rightarrow> int" where "row_width cs \<equiv> sum_list (map cell_width cs)"

definition place_calls :: "int \<Rightarrow> int \<Rightarrow> int \<Rightarrow> int \<Rightarrow> cell \<Rightarrow> CursorCall list" where
  "place_calls n y h x c = (case c of (o1, o2, w) \<Rightarrow>
     if o1 \<ge> 0 \<and> o2 \<ge> 0
     then [\<lparr>cc_offset1 = o1, cc_offset2 = o2, cc_line_num = n, cc_x = x, cc_y = y, cc_w = w, cc_h = h, cc_hex_mode = 0\<rparr>]
     else [])"

fun row_calls :: "int \<Rightarrow> int \<Rightarrow> int \<Rightarrow> int \<Rightarrow> cell list \<Rightarrow> CursorCall list" where
  "row_calls n y h x [] = []"
| "row_calls n y h x (c # cs) = place_calls n y h x c @ row_calls n y h (x + cell_width c) cs"

lemma row_calls_append:
  "row_calls n y h x (cs @ ds) = row_calls n y h x cs @ row_calls n y h (x + row_width cs) ds"
  by (induction cs arbitrary: x) (simp_all add: algebra_simps)

definition called :: "CursorCall list \<Rightarrow> DisplayState \<Rightarrow> DisplayState" where
  "called cs s = (case run (ds_base s) (ds_height s) cs (cursor s, eod s) of (f, e) \<Rightarrow> s\<lparr>cursor := f, eod := e\<rparr>)"

lemma called_fields [simp]:
  "ds_base (called cs s) = ds_base s" "ds_height (called cs s) = ds_height s" "ds_line_num (called cs s) = ds_line_num s"
  "ds_y (called cs s) = ds_y s" "ds_hex_mode (called cs s) = ds_hex_mode s" "line_offsets (called cs s) = line_offsets s"
  "line_hex_mode (called cs s) = line_hex_mode s" "line_char_widths (called cs s) = line_char_widths s"
  "edit_state (called cs s) = edit_state s" "eol_width (called cs s) = eol_width s"
  "do_disp (called cs s) = do_disp s" "ds_width (called cs s) = ds_width s" "ds_x (called cs s) = ds_x s"
  by (simp_all add: called_def split: prod.split)

lemma called_append: "called ds (called cs s) = called (cs @ ds) s"
  by (simp add: called_def split: prod.split)

lemma called_Nil [simp]: "called [] s = s"
  by (simp add: called_def)

lemma called_None: "cursor s = None \<Longrightarrow> called cs s = s"
  by (simp add: called_def)

lemma cursor_at_called:
  "cursor_at (o1, o2) x w h 0 s = called (place_calls (ds_line_num s) (ds_y s) h x (o1, o2, w)) s"
proof (cases "o1 \<ge> 0 \<and> o2 \<ge> 0")
  case True
  then show ?thesis
    by (simp add: cursor_at_def called_def place_calls_def run_def split: option.split prod.split)
next
  case False
  then have "place_calls (ds_line_num s) (ds_y s) h x (o1, o2, w) = []"
    by (simp add: place_calls_def)
  then show ?thesis
    using False by (auto simp: cursor_at_def split: option.split)
qed

section \<open>The line that is laid out\<close>

text \<open>The arrays hold the cells of the line, and the fragments are parts of it.\<close>

definition stored :: "cell list \<Rightarrow> DisplayState \<Rightarrow> bool" where
  "stored cs s \<longleftrightarrow> int (length cs) \<le> line_index s \<and> line_index s \<le> 256 \<and>
     length (line_chars s) = 256 \<and> length (line_offsets s) = 256 \<and> length (line_char_widths s) = 256 \<and>
     length (line_hex_mode s) = 256 \<and>
     take (length cs) (line_offsets s) = map (\<lambda>(o1, o2, w). (o1, o2)) cs \<and>
     take (length cs) (line_char_widths s) = map cell_width cs \<and>
     (\<forall>i<length cs. line_hex_mode s ! i = 0)"

lemma at_iff [simp]: "0 \<le> i \<Longrightarrow> i < int (length xs) \<Longrightarrow> at xs i = Some (xs ! nat i)"
  by (simp add: at_def)

lemma put_at_iff [simp]: "0 \<le> i \<Longrightarrow> i < int (length xs) \<Longrightarrow> put_at xs i v = Some (xs[nat i := v])"
  by (simp add: put_at_def)

lemma stored_cell:
  assumes "stored cs s" "i < length cs"
  shows "at (line_offsets s) (int i) = Some (fst (cs ! i), fst (snd (cs ! i)))"
    "at (line_char_widths s) (int i) = Some (cell_width (cs ! i))"
    "at (line_hex_mode s) (int i) = Some 0"
proof -
  have "take (length cs) (line_offsets s) ! i = map (\<lambda>(o1, o2, w). (o1, o2)) cs ! i"
    "take (length cs) (line_char_widths s) ! i = map cell_width cs ! i"
    using assms(1) by (simp_all add: stored_def)
  then show "at (line_offsets s) (int i) = Some (fst (cs ! i), fst (snd (cs ! i)))"
    "at (line_char_widths s) (int i) = Some (cell_width (cs ! i))"
    "at (line_hex_mode s) (int i) = Some 0"
    using assms by (auto simp: stored_def split: prod.splits)
qed

lemma stored_called [simp]: "stored cs (called l s) = stored cs s"
  by (simp add: stored_def called_def split: prod.split)

text \<open>The state of a line in a text mode: from left to right, no hexadecimal columns.\<close>

definition plain :: "DisplayState \<Rightarrow> bool" where
  "plain s \<longleftrightarrow> ds_base s = DIR_LTR \<and> embedding_level_max s = 0 \<and> ds_x_disp s = 0 \<and>
     (ds_hex_mode s = 0 \<or> ds_hex_mode s = - 1) \<and> dw_hex_mode (edit_state s) = 0"

lemma glyph_calls_row:
  assumes "stored cs s" "plain s" "j + n \<le> length cs"
  shows "glyph_calls n (int j) x h s =
    Some (x + row_width (take n (drop j cs)), called (row_calls (ds_line_num s) (ds_y s) h x (take n (drop j cs))) s)"
  using assms
proof (induction n arbitrary: j x s)
  case (Suc n)
  obtain o1 o2 w where c: "cs ! j = (o1, o2, w)"
    by (cases "cs ! j")
  have "take (Suc n) (drop j cs) = cs ! j # take n (drop (Suc j) cs)"
    using Suc.prems(3) by (simp add: Cons_nth_drop_Suc [symmetric])
  moreover have "plain (called l s)" for l
    using Suc.prems(2) by (simp add: plain_def called_def split: prod.split)
  ultimately show ?case
    using Suc.IH [of "called (place_calls (ds_line_num s) (ds_y s) h x (o1, o2, w)) s" "Suc j" "x + w"] Suc.prems
      stored_cell [OF Suc.prems(1), of j] c
    by (auto simp: plain_def cursor_at_called called_append add.commute)
qed simp

fun frags_ok :: "int \<Rightarrow> int \<Rightarrow> nat \<Rightarrow> TextFragment list \<Rightarrow> cell list \<Rightarrow> bool" where
  "frags_ok asc desc i [] cs \<longleftrightarrow> cs = []"
| "frags_ok asc desc i (f # fs) cs \<longleftrightarrow> (\<exists>n. frag_len f = int n \<and> 0 < n \<and> n \<le> length cs \<and>
     frag_width f = row_width (take n cs) \<and> frag_line_index f = int i \<and> frag_level f = 0 \<and>
     frag_ascent f = asc \<and> frag_descent f = desc \<and> (frag_style f = 0 \<or> frag_style f = QE_STYLE_SEL) \<and>
     frags_ok asc desc (i + n) fs (drop n cs))"

lemma frags_ok_append:
  "frags_ok asc desc i (fs @ gs) cs \<longleftrightarrow>
    (\<exists>m. m \<le> length cs \<and> frags_ok asc desc i fs (take m cs) \<and> frags_ok asc desc (i + m) gs (drop m cs))"
proof (induction fs arbitrary: i cs)
  case (Cons f fs)
  show ?case
  proof
    assume "frags_ok asc desc i ((f # fs) @ gs) cs"
    then obtain n m where "frag_len f = int n" "0 < n" "n \<le> length cs" "frag_width f = row_width (take n cs)"
      "frag_line_index f = int i" "frag_level f = 0" "frag_ascent f = asc" "frag_descent f = desc"
      "frag_style f = 0 \<or> frag_style f = QE_STYLE_SEL" "m \<le> length (drop n cs)"
      "frags_ok asc desc (i + n) fs (take m (drop n cs))" "frags_ok asc desc (i + n + m) gs (drop m (drop n cs))"
      using Cons.IH by auto
    then show "\<exists>m. m \<le> length cs \<and> frags_ok asc desc i (f # fs) (take m cs) \<and> frags_ok asc desc (i + m) gs (drop m cs)"
      by (intro exI [of _ "n + m"]) (auto simp: take_drop ac_simps min_def intro!: exI [of _ n])
  next
    assume "\<exists>m. m \<le> length cs \<and> frags_ok asc desc i (f # fs) (take m cs) \<and> frags_ok asc desc (i + m) gs (drop m cs)"
    then obtain m where m: "m \<le> length cs" "frags_ok asc desc (i + m) gs (drop m cs)"
      and f: "frags_ok asc desc i (f # fs) (take m cs)"
      by blast
    from f m(1) obtain n where n: "frag_len f = int n" "0 < n" "n \<le> m" "frag_width f = row_width (take n cs)"
        "frag_line_index f = int i" "frag_level f = 0" "frag_ascent f = asc" "frag_descent f = desc"
        "frag_style f = 0 \<or> frag_style f = QE_STYLE_SEL" "frags_ok asc desc (i + n) fs (drop n (take m cs))"
      by (fastforce simp: min_absorb1 min_absorb2)
    have "frags_ok asc desc (i + n) (fs @ gs) (drop n cs)"
      using m n by (subst Cons.IH) (auto simp: drop_take intro!: exI [of _ "m - n"])
    then show "frags_ok asc desc i ((f # fs) @ gs) cs"
      using m n by (auto intro!: exI [of _ n])
  qed
qed auto

lemma fragment_calls_row:
  assumes "stored cs s" "plain s" "frags_ok asc desc i fs (drop i cs)" "i \<le> length cs"
  shows "fragment_calls fs x h s =
    Some (x + row_width (drop i cs), called (row_calls (ds_line_num s) (ds_y s) h x (drop i cs)) s)"
  using assms
proof (induction fs arbitrary: i x s)
  case (Cons f fs)
  then obtain n where n: "frag_len f = int n" "n \<le> length cs - i" "frag_line_index f = int i"
    "frags_ok asc desc (i + n) fs (drop (i + n) cs)"
    by (auto simp: add.commute)
  have "plain (called l s)" for l
    using Cons.prems(2) by (simp add: plain_def called_def split: prod.split)
  moreover have "drop i cs = take n (drop i cs) @ drop (i + n) cs"
    by (metis add.commute append_take_drop_id drop_drop)
  ultimately show ?case
    using n Cons.IH [of "called (row_calls (ds_line_num s) (ds_y s) h x (take n (drop i cs))) s" "i + n"
        "x + row_width (take n (drop i cs))"] Cons.prems glyph_calls_row [OF Cons.prems(1,2), of i n]
    by (simp add: called_append row_calls_append [symmetric] add.assoc [symmetric] flip: map_append sum_list_append)
qed simp

section \<open>Laying out cells\<close>

text \<open>
  Cells from column \<open>x\<close> of row \<open>r\<close> on: a cell that does not fit begins the next row, unless it is the first of its
  row. The result has the row and column of each cell; \<open>lay_end\<close> is the place behind the last one.
\<close>

fun lay :: "int \<Rightarrow> int \<Rightarrow> int \<Rightarrow> cell list \<Rightarrow> (int \<times> int \<times> cell) list" where
  "lay W x r [] = []"
| "lay W x r (c # cs) =
    (let (x, r) = (if x + cell_width c > W \<and> x \<noteq> 0 then (0, r + 1) else (x, r))
     in (r, x, c) # (if x + cell_width c > W then lay W 0 (r + 1) cs else lay W (x + cell_width c) r cs))"

fun lay_end :: "int \<Rightarrow> int \<Rightarrow> int \<Rightarrow> cell list \<Rightarrow> int \<times> int" where
  "lay_end W x r [] = (x, r)"
| "lay_end W x r (c # cs) =
    (let (x, r) = (if x + cell_width c > W \<and> x \<noteq> 0 then (0, r + 1) else (x, r))
     in if x + cell_width c > W then lay_end W 0 (r + 1) cs else lay_end W (x + cell_width c) r cs)"

fun in_row :: "int \<Rightarrow> int \<Rightarrow> cell list \<Rightarrow> (int \<times> int \<times> cell) list" where
  "in_row r x [] = []"
| "in_row r x (c # cs) = (r, x, c) # in_row r (x + cell_width c) cs"

definition cells_ok :: "cell list \<Rightarrow> bool" where
  "cells_ok cs \<longleftrightarrow> (\<forall>c\<in>set cs. 1 \<le> cell_width c \<and> cell_width c \<le> 100)"

lemma cells_ok_simps [simp]:
  "cells_ok []" "cells_ok (c # cs) \<longleftrightarrow> 1 \<le> cell_width c \<and> cell_width c \<le> 100 \<and> cells_ok cs"
  "cells_ok (cs @ ds) \<longleftrightarrow> cells_ok cs \<and> cells_ok ds"
  by (auto simp: cells_ok_def)

lemma cells_ok_parts: "cells_ok cs \<Longrightarrow> cells_ok (take k cs)" "cells_ok cs \<Longrightarrow> cells_ok (drop k cs)"
  by (auto simp: cells_ok_def dest: in_set_takeD in_set_dropD)

lemma row_width_bounds: "cells_ok cs \<Longrightarrow> int (length cs) \<le> row_width cs \<and> row_width cs \<le> 100 * int (length cs)"
  by (induction cs) auto

lemma lay_fits:
  assumes "cells_ok cs" "x + row_width cs \<le> W"
  shows "lay W x r (cs @ t) = in_row r x cs @ lay W (x + row_width cs) r t \<and>
    lay_end W x r (cs @ t) = lay_end W (x + row_width cs) r t"
  using assms
proof (induction cs arbitrary: x)
  case (Cons c cs)
  have "0 \<le> row_width cs"
    using row_width_bounds [of cs] Cons.prems(1) by simp
  then have "x + cell_width c \<le> W" "x + cell_width c + row_width cs \<le> W"
    using Cons.prems(2) by simp_all
  with Cons.IH [of "x + cell_width c"] Cons.prems(1) show ?case
    by (simp add: Let_def add.assoc)
qed simp

text \<open>Where a row of cells ends: \<open>k\<close> cells fit and the next one does not, or the first one is too wide.\<close>

definition row_break :: "int \<Rightarrow> cell list \<Rightarrow> nat \<Rightarrow> bool" where
  "row_break W cs k \<longleftrightarrow> 0 < k \<and> k \<le> length cs \<and>
     (row_width (take k cs) \<le> W \<and> k < length cs \<and> row_width (take (Suc k) cs) > W \<or>
      k = 1 \<and> row_width (take 1 cs) > W)"

lemma lay_next_row:
  "x + cell_width c > W \<Longrightarrow> x \<noteq> 0 \<Longrightarrow> lay W x r (c # cs) = lay W 0 (r + 1) (c # cs)"
  "x + cell_width c > W \<Longrightarrow> x \<noteq> 0 \<Longrightarrow> lay_end W x r (c # cs) = lay_end W 0 (r + 1) (c # cs)"
  by (simp_all add: Let_def)

lemma lay_break:
  assumes "cells_ok cs" "row_break W cs k"
  shows "lay W 0 r (cs @ t) = in_row r 0 (take k cs) @ lay W 0 (r + 1) (drop k cs @ t) \<and>
    lay_end W 0 r (cs @ t) = lay_end W 0 (r + 1) (drop k cs @ t)"
proof -
  consider (fits) "0 < k" "k < length cs" "row_width (take k cs) \<le> W" "row_width (take (Suc k) cs) > W"
    | (wide) "k = 1" "0 < length cs" "row_width (take 1 cs) > W"
    using assms(2) by (auto simp: row_break_def Suc_le_eq)
  then show ?thesis
  proof cases
    case fits
    obtain c d where d: "drop k cs = c # d"
      using fits(2) by (metis Cons_nth_drop_Suc)
    have cs: "cs = take k cs @ c # d"
      using d by (metis append_take_drop_id)
    have "take (Suc k) cs = take k cs @ [c]"
      using fits(2) d by (metis Cons_nth_drop_Suc list.inject take_Suc_conv_app_nth)
    then have over: "row_width (take k cs) + cell_width c > W"
      using fits(4) by simp
    have "row_width (take k cs) \<noteq> 0"
      using row_width_bounds [OF cells_ok_parts(1) [OF assms(1)], of k] fits(1,2) by auto
    note lay_next_row [OF over this, of r "d @ t"]
    moreover have "lay W 0 r (take k cs @ c # d @ t) = in_row r 0 (take k cs) @ lay W (0 + row_width (take k cs)) r (c # d @ t)"
      "lay_end W 0 r (take k cs @ c # d @ t) = lay_end W (0 + row_width (take k cs)) r (c # d @ t)"
      using lay_fits [of "take k cs" 0 W r "c # d @ t"] fits(3) cells_ok_parts(1) [OF assms(1)]
      by (simp_all only: add_0)
    moreover have "cs @ t = take k cs @ c # d @ t"
      by (subst cs) simp
    ultimately show ?thesis
      by (simp only: d add_0 append_Cons)
  next
    case wide
    then obtain c d where "cs = c # d"
      by (metis length_greater_0_conv list.exhaust)
    then show ?thesis
      using wide by (simp add: Let_def)
  qed
qed

definition lay_calls :: "int \<Rightarrow> int \<Rightarrow> int \<Rightarrow> (int \<times> int \<times> cell) list \<Rightarrow> CursorCall list" where
  "lay_calls n y h l = concat (map (\<lambda>(r, x, c). place_calls (n + r) (y + r * h) h x c) l)"

lemma lay_calls_append [simp]: "lay_calls n y h (l @ l') = lay_calls n y h l @ lay_calls n y h l'"
  by (simp add: lay_calls_def)

lemma lay_calls_row: "lay_calls n y h (in_row r x cs) = row_calls (n + r) (y + r * h) h x cs"
  by (induction cs arbitrary: x) (simp_all add: lay_calls_def)

lemma lay_shift:
  assumes "r' = r + k"
  shows "lay W x r' cs = map (\<lambda>(r, p). (r + k, p)) (lay W x r cs)"
    "lay_end W x r' cs = map_prod id (\<lambda>r. r + k) (lay_end W x r cs)"
proof -
  have "r' = r + k \<longrightarrow> lay W x r' cs = map (\<lambda>(r, p). (r + k, p)) (lay W x r cs) \<and>
      lay_end W x r' cs = map_prod id (\<lambda>r. r + k) (lay_end W x r cs)"
  proof (induction cs arbitrary: x r r')
    case (Cons c cs)
    have "lay W x1 (r + k + j) cs = map (\<lambda>(r, p). (r + k, p)) (lay W x1 (r + j) cs)"
      "lay_end W x1 (r + k + j) cs = map_prod id (\<lambda>r. r + k) (lay_end W x1 (r + j) cs)" for x1 j
      using Cons.IH [of "r + k + j" "r + j" x1] by (simp_all add: id_def)
    from this [of _ 0] this [of _ 1] this [of _ "1 + 1"] show ?case
      by (auto simp: Let_def add.assoc id_def)
  qed simp
  with assms show "lay W x r' cs = map (\<lambda>(r, p). (r + k, p)) (lay W x r cs)"
    "lay_end W x r' cs = map_prod id (\<lambda>r. r + k) (lay_end W x r cs)"
    by blast+
qed

text \<open>\<open>cs\<close> is laid out as \<open>P\<close>, in \<open>R\<close> rows, and then \<open>rest\<close> from the beginning of a row on.\<close>

abbreviation down :: "int \<Rightarrow> (int \<times> int \<times> cell) list \<Rightarrow> (int \<times> int \<times> cell) list" where
  "down k \<equiv> map (\<lambda>(r, p). (r + k, p))"

definition laid :: "int \<Rightarrow> cell list \<Rightarrow> (int \<times> int \<times> cell) list \<Rightarrow> int \<Rightarrow> cell list \<Rightarrow> bool" where
  "laid W cs P R rest \<longleftrightarrow> (\<forall>r t. lay W 0 r (cs @ t) = down r P @ lay W 0 (r + R) (rest @ t) \<and>
     lay_end W 0 r (cs @ t) = lay_end W 0 (r + R) (rest @ t))"

lemma down_down: "down j (down k P) = down (k + j) P"
  by (simp add: add.assoc comp_def case_prod_beta)

lemma laid_refl: "laid W cs [] 0 cs"
  by (simp add: laid_def)

lemma laid_trans:
  assumes "laid W cs P R mid" "laid W mid Q S rest"
  shows "laid W cs (P @ down R Q) (R + S) rest"
  using assms unfolding laid_def by (auto simp: add.assoc add.commute [of R])

lemma laid_append: "laid W cs P R rest \<Longrightarrow> laid W (cs @ t) P R (rest @ t)"
  by (simp add: laid_def)

lemma in_row_down: "in_row r x cs = down r (in_row 0 x cs)"
  by (induction cs arbitrary: x) simp_all

lemma laid_break: "cells_ok cs \<Longrightarrow> row_break W cs k \<Longrightarrow> laid W cs (in_row 0 0 (take k cs)) 1 (drop k cs)"
  unfolding laid_def
proof (intro allI)
  fix r t
  assume "cells_ok cs" "row_break W cs k"
  note b = lay_break [OF this, of r t]
  have "in_row r 0 (take k cs) = down r (in_row 0 0 (take k cs))"
    by (rule in_row_down)
  with b show "lay W 0 r (cs @ t) = down r (in_row 0 0 (take k cs)) @ lay W 0 (r + 1) (drop k cs @ t) \<and>
      lay_end W 0 r (cs @ t) = lay_end W 0 (r + 1) (drop k cs @ t)"
    by metis
qed

lemma lay_calls_down: "lay_calls n y h (down k P) = lay_calls (n + k) (y + k * h) h P"
  by (induction P) (auto simp: lay_calls_def algebra_simps)

section \<open>The display driver\<close>

text \<open>
  What the layout relies on: fonts of one height, and glyphs of positive width. The driver for terminals
  fulfils it.
\<close>

locale text_driver =
  fixes env :: DisplayEnv and asc desc :: int and gw :: "u32 \<Rightarrow> int"
  assumes font [simp]: "dpy_font env a b = (asc, desc)"
    and metrics [simp]: "dpy_metrics env (asc, desc) c = (asc, desc, gw c)"
    and font_height: "0 \<le> asc" "0 \<le> desc" "0 < asc + desc" "asc < 10000" "desc < 10000"
    and glyph_size: "1 \<le> gw c" "gw c \<le> 100"
    and styles: "7 < length (env_styles env)"
    and memory: "env_mem env"

definition text_styles :: "DisplayEnv \<Rightarrow> DisplayWindow \<Rightarrow> bool" where
  "text_styles env e \<longleftrightarrow> (\<forall>st. st = 0 \<or> st = QE_STYLE_SEL \<longrightarrow> get_style env e st \<noteq> None)"

lemma style_values: "QE_STYLE_SEL AND QE_STYLE_TTY = 0" "QE_STYLE_SEL AND NOT QE_STYLE_SEL = 0"
  "QE_STYLE_SEL \<noteq> 0" "scast (ucast QE_STYLE_SEL :: 16 word) = QE_STYLE_SEL"
  by (simp_all add: QE_STYLE_SEL_def QE_STYLE_TTY_def)

context text_driver
begin

lemma default_styles:
  assumes "dw_default_style e = 0"
  shows "text_styles env e"
proof -
  obtain st where "at (env_styles env) 0 = Some st" "at (env_styles env) 7 \<noteq> None"
    using styles by (cases "env_styles env") (auto simp: at_def)
  then show ?thesis
    using assms by (auto simp: text_styles_def get_style_def apply_style_def style_values Let_def)
qed

lemma style_font_eq [simp]: "style_font env st = (asc, desc)"
  by (simp add: style_font_def)

lemma line_height:
  assumes "frags_ok asc desc i fs cs" "fs \<noteq> []"
  shows "line_ascent fs = asc" "line_descent fs = desc"
proof -
  have a: "\<forall>f\<in>set fs. frag_ascent f = asc \<and> frag_descent f = desc"
    using assms(1) by (induction fs arbitrary: i cs) auto
  then have "fold (\<lambda>f a. if frag_ascent f > a then frag_ascent f else a) fs asc = asc"
    "fold (\<lambda>f a. if frag_descent f > a then frag_descent f else a) fs desc = desc"
    by (induction fs) auto
  with a assms(2) font_height show "line_ascent fs = asc" "line_descent fs = desc"
    by (cases fs; force simp: line_ascent_def line_descent_def)+
qed

text \<open>Printing does not fail, and changes only the shadow and what is drawn.\<close>

lemma fragment_rects_ok:
  assumes "text_styles env e" "frags_ok asc desc i fs cs"
  shows "\<exists>l. fragment_rects env e x y h fs = Some (x + row_width cs, l)"
  using assms(2)
proof (induction fs arbitrary: x i cs)
  case (Cons f fs)
  then obtain n where n: "frag_width f = row_width (take n cs)" "frags_ok asc desc (i + n) fs (drop n cs)"
    "frag_style f = 0 \<or> frag_style f = QE_STYLE_SEL"
    by auto
  have "row_width cs = row_width (take n cs) + row_width (drop n cs)"
    by (metis append_take_drop_id map_append sum_list_append)
  then show ?case
    using Cons.IH [OF n(2), of "x + frag_width f"] n assms(1) by (auto simp: text_styles_def)
qed simp

lemma fragment_texts_ok:
  assumes "text_styles env e" "frags_ok asc desc i fs cs" "i + length cs \<le> length gs"
  shows "\<exists>l. fragment_texts env e gs x y fs = Some l"
  using assms(2,3)
proof (induction fs arbitrary: x i cs)
  case (Cons f fs)
  then obtain n where n: "frag_len f = int n" "n \<le> length cs" "frag_line_index f = int i"
    "frags_ok asc desc (i + n) fs (drop n cs)" "frag_style f = 0 \<or> frag_style f = QE_STYLE_SEL"
    by auto
  then show ?case
    using Cons.IH [OF n(4), of "x + frag_width f"] Cons.prems assms(1)
    by (auto simp: text_styles_def array_slice_def)
qed simp

definition printed :: "DisplayState \<Rightarrow> DisplayState \<Rightarrow> bool" where
  "printed s s' \<longleftrightarrow> (\<exists>sh dr. s' = s\<lparr>edit_state := (edit_state s)\<lparr>dw_line_shadow := sh\<rparr>, drawn := dr\<rparr>)"

definition print_ok :: "DisplayState \<Rightarrow> bool" where
  "print_ok s \<longleftrightarrow> text_styles env (edit_state s) \<and>
     (do_disp s = DISP_PRINT \<longrightarrow> 0 \<le> ds_line_num s \<and> ds_line_num s \<le> int (length (dw_line_shadow (edit_state s))))"

lemma print_line_ok:
  assumes "stored cs s" "frags_ok asc desc 0 fs cs" "print_ok s" "do_disp s = DISP_PRINT"
  shows "\<exists>s'. print_line env fs bl h x0 l s = Some s' \<and> printed s s' \<and>
    ds_line_num s < int (length (dw_line_shadow (edit_state s')))"
proof -
  let ?e = "edit_state s"
  let ?n = "ds_line_num s"
  define sh where "sh = (if ?n \<ge> int (length (dw_line_shadow ?e))
    then dw_line_shadow ?e @ replicate LINE_SHADOW_INCR no_shadow else dw_line_shadow ?e)"
  have n: "0 \<le> ?n" "?n < int (length sh)"
    using assms(3,4) by (auto simp: print_ok_def sh_def LINE_SHADOW_INCR_def)
  have st: "text_styles env ?e"
    using assms(3) by (simp add: print_ok_def)
  then obtain st0 where st0: "get_style env ?e 0 = Some st0"
    by (auto simp: text_styles_def)
  have chars: "array_slice (line_chars s) 0 (line_index s) \<noteq> None" "length cs \<le> length (line_chars s)"
    using assms(1) by (auto simp: array_slice_def stored_def)
  have gs: "get_style env (?e\<lparr>dw_line_shadow := v\<rparr>) = get_style env ?e" for v
    by (rule ext) (simp add: get_style_def cong: if_cong)
  have "text_styles env (?e\<lparr>dw_line_shadow := sh\<rparr>)"
    using st by (simp add: text_styles_def gs)
  note st' = this
  have draws: "\<exists>calls. draw_line env (s\<lparr>edit_state := ?e\<lparr>dw_line_shadow := sh\<rparr>\<rparr>) fs bl h x0 l = Some calls"
  proof -
    obtain rects where "fragment_rects env (?e\<lparr>dw_line_shadow := sh\<rparr>) (dw_xleft ?e + x0) (dw_ytop ?e + ds_y s) h fs =
        Some (dw_xleft ?e + x0 + row_width cs, rects)"
      using fragment_rects_ok [OF st' assms(2)] by blast
    moreover obtain texts where "fragment_texts env (?e\<lparr>dw_line_shadow := sh\<rparr>) (line_chars s) (dw_xleft ?e + x0)
        (dw_ytop ?e + ds_y s + bl) fs = Some texts"
      using fragment_texts_ok [OF st' assms(2), of "line_chars s"] chars(2) by force
    ultimately show ?thesis
      using st0 by (simp add: draw_line_def gs Let_def)
  qed
  then obtain calls where calls: "draw_line env (s\<lparr>edit_state := ?e\<lparr>dw_line_shadow := sh\<rparr>\<rparr>) fs bl h x0 l = Some calls"
    by blast
  have grow: "(if ?n \<ge> int (length (dw_line_shadow ?e))
      then do { guard (env_mem env); Some (dw_line_shadow ?e @ replicate LINE_SHADOW_INCR no_shadow) }
      else Some (dw_line_shadow ?e)) = Some sh"
    using memory by (simp add: sh_def)
  obtain gcs where gcs: "array_slice (line_chars s) 0 (line_index s) = Some gcs"
    using chars(1) by blast
  define crc where "crc = compute_crc (concat (map char_word_bytes gcs)) (compute_crc (concat (map fragment_bytes fs)) 0)"
  define ls where "ls = \<lparr>sh_x_start = short x0, sh_y = short (ds_y s), sh_height = short h, sh_crc = crc\<rparr>"
  have "print_line env fs bl h x0 l s = Some
      (if sh_y (sh ! nat ?n) = ds_y s \<and> sh_x_start (sh ! nat ?n) = x0 \<and> sh_height (sh ! nat ?n) = h \<and> sh_crc (sh ! nat ?n) = crc
       then s\<lparr>edit_state := ?e\<lparr>dw_line_shadow := sh\<rparr>\<rparr>
       else s\<lparr>edit_state := ?e\<lparr>dw_line_shadow := sh[nat ?n := ls]\<rparr>, drawn := drawn s @ calls\<rparr>)"
    unfolding print_line_def Let_def gcs grow using n calls by (simp add: crc_def ls_def)
  moreover have "printed s (s\<lparr>edit_state := ?e\<lparr>dw_line_shadow := sh\<rparr>\<rparr>)"
    unfolding printed_def by (intro exI [of _ sh] exI [of _ "drawn s"]) simp
  moreover have "printed s (s\<lparr>edit_state := ?e\<lparr>dw_line_shadow := sh[nat ?n := ls]\<rparr>, drawn := drawn s @ calls\<rparr>)"
    unfolding printed_def by blast
  ultimately show ?thesis
    using n(2) by (auto split: if_splits)
qed

text \<open>A line is flushed: the callback is called for its cells, and then for the end of the line.\<close>

definition flushed :: "CursorCall list \<Rightarrow> DisplayState \<Rightarrow> DisplayState \<Rightarrow> bool" where
  "flushed cs s s' \<longleftrightarrow> (\<exists>sh dr f e. run (ds_base s) (ds_height s) cs (cursor s, eod s) = (f, e) \<and>
     s' = s\<lparr>cursor := f, eod := e, edit_state := (edit_state s)\<lparr>dw_line_shadow := sh\<rparr>, drawn := dr,
            ds_y := ds_y s + (asc + desc), ds_line_num := ds_line_num s + 1\<rparr> \<and>
     (do_disp s = DISP_PRINT \<longrightarrow> ds_line_num s + 1 \<le> int (length sh)))"

lemma line_calls_row:
  assumes "stored cs s" "plain s" "frags_ok asc desc 0 fs cs"
  shows "line_calls fs (o1, o2) 0 h s = Some (called (row_calls (ds_line_num s) (ds_y s) h 0 cs @
    place_calls (ds_line_num s) (ds_y s) h (row_width cs) (o1, o2, eol_width s)) s)"
proof (cases "cursor s")
  case None
  then show ?thesis
    by (simp add: line_calls_def called_None)
next
  case (Some f)
  then show ?thesis
    using fragment_calls_row [OF assms(1,2), of asc desc 0 fs 0 h] assms(2,3)
    by (simp add: line_calls_def plain_def cursor_at_called called_append)
qed

lemma flush_line_row:
  assumes "stored cs s" "plain s" "frags_ok asc desc 0 (take (nat nb) (fragments s)) cs"
    "0 \<le> nb" "nb \<le> int (length (fragments s))" "default_line_height s = asc + desc" "print_ok s"
  shows "\<exists>s'. flush_line env nb (o1, o2) l s = Some s' \<and>
    flushed (row_calls (ds_line_num s) (ds_y s) (asc + desc) 0 cs @
      place_calls (ds_line_num s) (ds_y s) (asc + desc) (row_width cs) (o1, o2, eol_width s)) s s'"
proof -
  let ?fs = "take (nat nb) (fragments s)"
  let ?h = "asc + desc"
  have h: "(if nb = 0 then default_line_height s else line_ascent ?fs + line_descent ?fs) = ?h"
  proof (cases "nb = 0")
    case False
    then have "?fs \<noteq> []"
      using assms(4,5) by auto
    then show ?thesis
      using line_height [OF assms(3)] False by simp
  qed (use assms(6) in simp)
  have same: "s\<lparr>fragments := order_levels (nat (embedding_level_max s)) (nat nb) (fragments s)\<rparr> = s"
    using assms(2) by (simp add: plain_def)
  have "\<exists>s1. (if do_disp s = DISP_PRINT then print_line env ?fs (line_ascent ?fs) ?h 0 l s else Some s) = Some s1 \<and>
      printed s s1 \<and> (do_disp s = DISP_PRINT \<longrightarrow> ds_line_num s < int (length (dw_line_shadow (edit_state s1))))"
  proof (cases "do_disp s = DISP_PRINT")
    case True
    then show ?thesis
      using print_line_ok [OF assms(1,3,7) True, of "line_ascent ?fs" ?h 0 l] by auto
  next
    case False
    have "printed s s"
      unfolding printed_def by (intro exI [of _ "dw_line_shadow (edit_state s)"] exI [of _ "drawn s"]) simp
    then show ?thesis
      using False by simp
  qed
  then obtain s1 where s1: "(if do_disp s = DISP_PRINT then print_line env ?fs (line_ascent ?fs) ?h 0 l s else Some s) = Some s1"
    "printed s s1" "do_disp s = DISP_PRINT \<longrightarrow> ds_line_num s < int (length (dw_line_shadow (edit_state s1)))"
    by blast
  obtain sh dr where e: "s1 = s\<lparr>edit_state := (edit_state s)\<lparr>dw_line_shadow := sh\<rparr>, drawn := dr\<rparr>"
    using s1(2) by (auto simp: printed_def)
  have "stored cs s1" "plain s1"
    using assms(1,2) by (simp_all add: e stored_def plain_def)
  have x0: "(if ds_base s = DIR_RTL then dw_width (edit_state s) - ds_x s else ds_x_disp s) = 0"
    using assms(2) by (simp add: plain_def)
  from line_calls_row [OF \<open>stored cs s1\<close> \<open>plain s1\<close> assms(3), of o1 o2 ?h] have
    "line_calls ?fs (o1, o2) 0 ?h s1 = Some (called (row_calls (ds_line_num s) (ds_y s) ?h 0 cs @
      place_calls (ds_line_num s) (ds_y s) ?h (row_width cs) (o1, o2, eol_width s)) s1)"
    by (simp add: e)
  then have "flush_line env nb (o1, o2) l s = Some ((called (row_calls (ds_line_num s) (ds_y s) ?h 0 cs @
      place_calls (ds_line_num s) (ds_y s) ?h (row_width cs) (o1, o2, eol_width s)) s1)
        \<lparr>ds_y := ds_y s + ?h, ds_line_num := ds_line_num s + 1\<rparr>)"
    unfolding flush_line_def Let_def h same x0 s1(1) using assms(5) by (simp add: e)
  moreover obtain f v where q: "run (ds_base s) (ds_height s) (row_calls (ds_line_num s) (ds_y s) ?h 0 cs @
      place_calls (ds_line_num s) (ds_y s) ?h (row_width cs) (o1, o2, eol_width s)) (cursor s, eod s) = (f, v)"
    by fastforce
  moreover have "flushed (row_calls (ds_line_num s) (ds_y s) ?h 0 cs @
      place_calls (ds_line_num s) (ds_y s) ?h (row_width cs) (o1, o2, eol_width s)) s
      (s\<lparr>edit_state := (edit_state s)\<lparr>dw_line_shadow := sh\<rparr>, drawn := dr, cursor := f, eod := v,
         ds_y := ds_y s + ?h, ds_line_num := ds_line_num s + 1\<rparr>)"
    unfolding flushed_def using s1(3)
    by (intro exI [of _ sh] exI [of _ dr] exI [of _ f] exI [of _ v]) (use q in \<open>auto simp: e\<close>)
  ultimately show ?thesis
    by (simp add: called_def e)
qed

section \<open>Wrapping lines\<close>

lemma short_id: "- 32768 \<le> n \<Longrightarrow> n < 32768 \<Longrightarrow> short n = n"
  by (simp add: short_def)

lemma row_width_take_mono:
  assumes "cells_ok cs" "j \<le> k"
  shows "row_width (take j cs) \<le> row_width (take k cs)"
proof -
  have "take k cs = take j cs @ drop j (take k cs)"
    using assms(2) by (metis append_take_drop_id min_absorb1 take_take)
  then have "row_width (take k cs) = row_width (take j cs) + row_width (drop j (take k cs))"
    by (metis map_append sum_list_append)
  moreover have "0 \<le> row_width (drop j (take k cs))"
    using row_width_bounds [of "drop j (take k cs)"] cells_ok_parts [OF assms(1)] by (auto simp: cells_ok_parts)
  ultimately show ?thesis
    by simp
qed

lemma row_width_split: "row_width cs = row_width (take k cs) + row_width (drop k cs)"
  by (metis append_take_drop_id map_append sum_list_append)

text \<open>\<open>shrink\<close> finds the end of the row, if the cells before the last fragment fit.\<close>

lemma shrink_row:
  assumes "stored cs s" "cells_ok cs" "i \<le> m" "m \<le> length cs" "0 < m" "row_width (take i cs) \<le> W" "0 \<le> W"
    and "m = length cs \<or> row_width (take (Suc m) cs) > W" "row_width cs > W"
  shows "\<exists>k. shrink m (line_char_widths s) W (int i) (int m - int i) (row_width (take m cs)) =
      Some (int k - int i, row_width (take k cs)) \<and> i \<le> k \<and> k \<le> m \<and> row_break W cs k"
  using assms(3-5,8)
proof (induction m)
  case (Suc m)
  note Suc_m = Suc
  show ?case
  proof (cases "row_width (take (Suc m) cs) \<le> W")
    case True
    then have "Suc m < length cs"
      using Suc.prems assms(9) by (cases "Suc m = length cs") auto
    then show ?thesis
      using True Suc.prems by (intro exI [of _ "Suc m"]) (simp add: row_break_def)
  next
    case False
    then have im: "i \<le> m"
      using Suc.prems(1) assms(6) by (cases "i = Suc m") auto
    have m: "m < length cs"
      using Suc.prems(2) by simp
    have w: "at (line_char_widths s) (int i + (int (Suc m) - int i - 1)) = Some (cell_width (cs ! m))"
      using stored_cell(2) [OF assms(1) m] by simp
    have x: "row_width (take (Suc m) cs) - cell_width (cs ! m) = row_width (take m cs)"
      using m by (simp add: take_Suc_conv_app_nth)
    show ?thesis
    proof (cases "m = i \<and> row_width (take m cs) = 0")
      case True
      then have "m = 0"
        using row_width_bounds [OF cells_ok_parts(1) [OF assms(2)], of m] m by (cases m) auto
      then show ?thesis
        using True False w x m by (intro exI [of _ 1]) (simp add: row_break_def Suc_le_eq)
    next
      case False': False
      have "0 < m"
        using False' im by (cases m) auto
      then obtain k where "shrink m (line_char_widths s) W (int i) (int m - int i) (row_width (take m cs)) =
          Some (int k - int i, row_width (take k cs))" "i \<le> k" "k \<le> m" "row_break W cs k"
        using Suc.IH [OF im] m False by auto
      moreover have "shrink (Suc m) (line_char_widths s) W (int i) (int (Suc m) - int i) (row_width (take (Suc m) cs)) =
          shrink m (line_char_widths s) W (int i) (int m - int i) (row_width (take m cs))"
      proof -
        have "\<not> (int (Suc m) - int i - 1 = 0 \<and> row_width (take m cs) = 0)"
          using False' by auto
        moreover have "int (Suc m) - int i - 1 = int m - int i"
          "at (line_char_widths s) (int i + (int m - int i)) = Some (cell_width (cs ! m))"
          using w by simp_all
        ultimately show ?thesis
          using False by (simp only: shrink.simps x bind.bind_lunit not_le if_True if_False)
      qed
      ultimately show ?thesis
        by (intro exI [of _ k]) auto
    qed
  qed
qed simp

lemma stored_take: "stored cs s \<Longrightarrow> stored (take k cs) s"
  by (auto simp: stored_def take_map min_def dest: arg_cong [of _ _ "take k"])

lemma move_front_spec:
  "k + n \<le> length xs \<Longrightarrow> move_front (int k) (int n) xs = Some (drop k (take (k + n) xs) @ drop n xs)"
  by (simp add: move_front_def array_slice_def drop_take)

lemma keep_line:
  assumes "stored cs s" "line_index s = int (k + n)" "length cs = k + n"
  shows "\<exists>gs os ws. keep_line_chars (int n) s =
      Some (s\<lparr>line_chars := gs, line_offsets := os, line_char_widths := ws, line_index := int n\<rparr>) \<and>
    stored (drop k cs) (s\<lparr>line_chars := gs, line_offsets := os, line_char_widths := ws, line_index := int n\<rparr>)"
proof -
  have i: "line_index s - int n = int k"
    using assms(2) by simp
  note st = assms(1) [unfolded stored_def]
  show ?thesis
    using st assms(3) unfolding keep_line_chars_def i Let_def
    by (intro exI [of _ "drop k (take (k + n) (line_chars s)) @ drop n (line_chars s)"]
        exI [of _ "map (\<lambda>(o1, o2, w). (o1, o2)) (drop k cs) @ drop n (line_offsets s)"]
        exI [of _ "map cell_width (drop k cs) @ drop n (line_char_widths s)"])
      (simp add: stored_def drop_map move_front_spec)
qed

definition frame :: "DisplayState \<Rightarrow> DisplayState \<Rightarrow> bool" where
  "frame s s' \<longleftrightarrow> do_disp s' = do_disp s \<and> ds_width s' = ds_width s \<and> ds_height s' = ds_height s \<and>
     eol_width s' = eol_width s \<and> default_line_height s' = default_line_height s \<and>
     ds_tab_width s' = ds_tab_width s \<and> ds_x_disp s' = ds_x_disp s \<and> cur_hex_mode s' = cur_hex_mode s \<and>
     ds_hex_mode s' = ds_hex_mode s \<and> ds_base s' = ds_base s \<and> embedding_level_max s' = embedding_level_max s \<and>
     ds_wrap s' = ds_wrap s \<and>
     (edit_state s')\<lparr>dw_line_shadow := []\<rparr> = (edit_state s)\<lparr>dw_line_shadow := []\<rparr>"

definition same_pending :: "DisplayState \<Rightarrow> DisplayState \<Rightarrow> bool" where
  "same_pending s s' \<longleftrightarrow> fragment_chars s' = fragment_chars s \<and> fragment_offsets s' = fragment_offsets s \<and>
     fragment_hex_mode s' = fragment_hex_mode s \<and> fragment_index s' = fragment_index s \<and>
     last_space s' = last_space s \<and> last_style s' = last_style s \<and> last_embedding_level s' = last_embedding_level s"

text \<open>\<open>k\<close> rows were flushed, with these calls.\<close>

definition advanced :: "CursorCall list \<Rightarrow> int \<Rightarrow> DisplayState \<Rightarrow> DisplayState \<Rightarrow> bool" where
  "advanced cs k s s' \<longleftrightarrow> frame s s' \<and> (cursor s', eod s') = run (ds_base s) (ds_height s) cs (cursor s, eod s) \<and>
     ds_y s' = ds_y s + k * (asc + desc) \<and> ds_line_num s' = ds_line_num s + k"

definition on_line :: "cell list \<Rightarrow> DisplayState \<Rightarrow> bool" where
  "on_line cs s \<longleftrightarrow> stored cs s \<and> line_index s = int (length cs) \<and> plain s \<and> cells_ok cs \<and> ds_x s = row_width cs \<and>
     length (fragments s) = 256 \<and> 0 \<le> nb_fragments s \<and> nb_fragments s \<le> 256 \<and>
     frags_ok asc desc 0 (take (nat (nb_fragments s)) (fragments s)) cs \<and>
     default_line_height s = asc + desc \<and> print_ok s"

lemma advanced_trans:
  "advanced cs k s s1 \<Longrightarrow> advanced ds j s1 s2 \<Longrightarrow> advanced (cs @ ds) (k + j) s s2"
  by (auto simp: advanced_def frame_def algebra_simps)

lemma frame_refl [simp]: "frame s s"
  by (simp add: frame_def)

lemma advanced_refl [simp]: "advanced [] 0 s s"
  by (simp add: advanced_def)

lemma get_style_shadow [simp]: "get_style env (e\<lparr>dw_line_shadow := v\<rparr>) = get_style env e"
  by (rule ext) (simp add: get_style_def cong: if_cong)

lemma flushed_advanced:
  assumes "flushed cs s s'"
  shows "advanced cs 1 s s'" "same_pending s s'" "print_ok s \<Longrightarrow> print_ok s'"
    "stored l s' = stored l s" "plain s' = plain s" "line_index s' = line_index s" "fragments s' = fragments s"
    "nb_fragments s' = nb_fragments s" "ds_x s' = ds_x s"
  using assms
  by (auto simp: flushed_def advanced_def frame_def same_pending_def print_ok_def text_styles_def stored_def plain_def)

text \<open>One row is broken off.\<close>

lemma last_fragment:
  assumes "frags_ok asc desc 0 (take (Suc m) fs) cs" "m < length fs"
  shows "\<exists>j. j < length cs \<and> frags_ok asc desc 0 (take m fs) (take j cs) \<and> frag_line_index (fs ! m) = int j \<and>
    frag_len (fs ! m) = int (length cs - j) \<and> frag_width (fs ! m) = row_width (drop j cs) \<and>
    frag_level (fs ! m) = 0 \<and> frag_ascent (fs ! m) = asc \<and> frag_descent (fs ! m) = desc \<and>
    (frag_style (fs ! m) = 0 \<or> frag_style (fs ! m) = QE_STYLE_SEL)"
proof -
  have "take (Suc m) fs = take m fs @ [fs ! m]"
    using assms(2) by (simp add: take_Suc_conv_app_nth)
  then obtain j where j: "j \<le> length cs" "frags_ok asc desc 0 (take m fs) (take j cs)"
    "frags_ok asc desc j [fs ! m] (drop j cs)"
    using assms(1) frags_ok_append [of asc desc 0 "take m fs" "[fs ! m]" cs] by auto
  then show ?thesis
    by (intro exI [of _ j]) auto
qed

lemma first_fragments:
  assumes j: "j < length cs" "frags_ok asc desc 0 (take m fs) (take j cs)" "frag_line_index f = int j"
    "frag_level f = 0" "frag_ascent f = asc" "frag_descent f = desc" "frag_style f = 0 \<or> frag_style f = QE_STYLE_SEL"
    and k: "j \<le> k" "k \<le> length cs" "m < length fs"
  shows "frags_ok asc desc 0 (take (if k = j then m else Suc m)
      (fs[m := f\<lparr>frag_len := int k - int j, frag_width := row_width (drop j (take k cs))\<rparr>])) (take k cs)"
proof (cases "k = j")
  case True
  then show ?thesis
    using j(2) by simp
next
  case False
  let ?f = "f\<lparr>frag_len := int k - int j, frag_width := row_width (drop j (take k cs))\<rparr>"
  have "take (Suc m) (fs[m := ?f]) = take m fs @ [?f]"
    using k(3) by (simp add: take_Suc_conv_app_nth)
  moreover have "frags_ok asc desc 0 (take m fs @ [?f]) (take k cs)"
    unfolding frags_ok_append using j k False by (intro exI [of _ j]) (auto simp: min_def intro!: exI [of _ "k - j"])
  ultimately show ?thesis
    using False by simp
qed

lemma break_line_row:
  assumes on: "on_line cs s" and W: "0 \<le> ds_width s" "ds_width s < row_width cs" "length cs \<le> 256"
    and fits: "\<And>j. frag_line_index (fragments s ! nat (nb_fragments s - 1)) = int j \<Longrightarrow> row_width (take j cs) \<le> ds_width s"
  shows "\<exists>k s'. row_break (ds_width s) cs k \<and> break_line env s = Some s' \<and> on_line (drop k cs) s' \<and>
    advanced (row_calls (ds_line_num s) (ds_y s) (asc + desc) 0 (take k cs)) 1 s s' \<and> same_pending s s' \<and>
    nb_fragments s' = (if k = length cs then 0 else 1)"
proof -
  note o = on [unfolded on_line_def]
  have nb: "nb_fragments s \<noteq> 0"
  proof
    assume "nb_fragments s = 0"
    then have "cs = []"
      using o by simp
    then show False
      using W by simp
  qed
  define m where "m = nat (nb_fragments s - 1)"
  have m: "nb_fragments s = int (Suc m)" "m < 256" "m < length (fragments s)"
    using o nb by (auto simp: m_def)
  define f where "f = fragments s ! m"
  obtain j where j: "j < length cs" "frags_ok asc desc 0 (take m (fragments s)) (take j cs)" "frag_line_index f = int j"
    "frag_len f = int (length cs - j)" "frag_width f = row_width (drop j cs)" "frag_level f = 0" "frag_ascent f = asc"
    "frag_descent f = desc" "frag_style f = 0 \<or> frag_style f = QE_STYLE_SEL"
  proof -
    have "frags_ok asc desc 0 (take (Suc m) (fragments s)) cs"
      using o m(1) by (simp add: nat_add_distrib)
    from last_fragment [OF this m(3), folded f_def] that show ?thesis
      by blast
  qed
  have wj: "row_width (take j cs) \<le> ds_width s"
    using fits [of j] j(3) by (simp add: f_def m_def)
  obtain k where k: "shrink (length cs) (line_char_widths s) (ds_width s) (int j) (int (length cs) - int j) (row_width cs) =
      Some (int k - int j, row_width (take k cs))" "j \<le> k" "k \<le> length cs" "row_break (ds_width s) cs k"
    using shrink_row [of cs s j "length cs" "ds_width s"] o j(1) wj W by (cases "cs = []") auto
  define w1 where "w1 = row_width cs - row_width (take k cs)"
  have w1: "w1 = row_width (drop k cs)" "frag_width f - w1 = row_width (drop j (take k cs))"
  proof -
    have "row_width (take k cs) = row_width (take j cs) + row_width (drop j (take k cs))"
      using row_width_split [of "take k cs" j] k(2) by (simp add: min_absorb1)
    then show "w1 = row_width (drop k cs)" "frag_width f - w1 = row_width (drop j (take k cs))"
      using row_width_split [of cs k] row_width_split [of cs j] j(5) by (simp_all only: w1_def)
  qed
  define g where "g = f\<lparr>frag_len := int k - int j, frag_width := row_width (drop j (take k cs))\<rparr>"
  define fs where "fs = (fragments s)[m := g]"
  define s0 where "s0 = s\<lparr>fragments := fs, ds_x := row_width (take k cs)\<rparr>"
  define nb where "nb = int (if k = j then m else Suc m)"
  have bounds: "row_width (drop i (take l cs)) < 32768 \<and> - 32768 \<le> row_width (drop i (take l cs))" for i l
  proof -
    have "cells_ok (drop i (take l cs))"
      using o by (simp add: cells_ok_parts)
    from row_width_bounds [OF this] W(3) show ?thesis
      by auto
  qed
  have sh: "short (frag_width f - w1) = row_width (drop j (take k cs))" "short w1 = w1"
    using bounds [of j k] bounds [of k "length cs"] w1 by (simp_all add: short_id)
  obtain n where n: "length cs = k + n"
    using k(3) le_iff_add by blast
  have on0: "stored (take k cs) s0" "stored cs s0" "plain s0" "print_ok s0" "default_line_height s0 = asc + desc"
    using o stored_take [of cs s k] by (simp_all add: s0_def stored_def plain_def print_ok_def)
  have fr: "frags_ok asc desc 0 (take (nat nb) (fragments s0)) (take k cs)"
    using first_fragments [OF j(1-3,6-9) k(2,3) m(3)] by (simp add: s0_def fs_def g_def nb_def del: of_nat_Suc)
  obtain s1 where s1: "flush_line env nb (- 1, - 1) False s0 = Some s1"
    "flushed (row_calls (ds_line_num s) (ds_y s) (asc + desc) 0 (take k cs)) s0 s1"
  proof -
    have "0 \<le> nb" "nb \<le> int (length (fragments s0))"
      using m(2) o by (auto simp: nb_def s0_def fs_def)
    from flush_line_row [OF on0(1,3) fr this on0(5,4), of "- 1" "- 1" False] that show ?thesis
      by (auto simp: place_calls_def s0_def)
  qed
  note fl = flushed_advanced [OF s1(2)]
  have adv: "advanced (row_calls (ds_line_num s) (ds_y s) (asc + desc) 0 (take k cs)) 1 s s1" "same_pending s s1"
    using fl(1,2) by (simp_all add: advanced_def frame_def same_pending_def s0_def)
  have f1: "fragments s1 = fs" "fs ! m = g" "length fs = 256" "line_index s1 = int (k + n)"
    using fl(6,7) o n m(3) by (simp_all add: s0_def fs_def)
  define h where "h = g\<lparr>frag_width := w1, frag_line_index := 0, frag_len := int n\<rparr>"
  define s2 where "s2 = (if n = 0 then s1\<lparr>nb_fragments := 0, ds_x := 0\<rparr>
    else s1\<lparr>fragments := fs[0 := h], nb_fragments := 1, ds_x := w1\<rparr>)"
  have "stored cs s1"
    using fl(4) on0(2) by blast
  then have "stored cs s2" "line_index s2 = int (k + n)"
    using f1(4) by (simp_all add: s2_def stored_def)
  from keep_line [OF this n] obtain gs os ws where s3:
    "keep_line_chars (int n) s2 = Some (s2\<lparr>line_chars := gs, line_offsets := os, line_char_widths := ws, line_index := int n\<rparr>)"
    "stored (drop k cs) (s2\<lparr>line_chars := gs, line_offsets := os, line_char_widths := ws, line_index := int n\<rparr>)"
    by blast
  define s3 where "s3 = s2\<lparr>line_chars := gs, line_offsets := os, line_char_widths := ws, line_index := int n\<rparr>"
  have len: "frag_len f - (int k - int j) = int n" "nat (int j + frag_len f) = length cs"
    using j(1,4) n by simp_all
  have "short (int n) = int n"
    using n W(3) by (simp add: short_id)
  have km: "nb_fragments s - 1 = int m" "at (fragments s) (int m) = Some f" "put_at (fragments s) (int m) g = Some fs"
    using m by (simp_all add: f_def fs_def)
  have km1: "at (fragments s1) (int m) = Some g" "put_at (fragments s1) 0 h = Some (fs[0 := h])"
    using m f1 by simp_all
  have nbk: "(if int k - int j = 0 then int m else nb_fragments s) = nb"
    using m(1) by (simp add: nb_def)
  have g': "f\<lparr>frag_len := int k - int j, frag_width := short (frag_width f - w1)\<rparr> = g"
    by (simp add: g_def sh)
  have h': "g\<lparr>frag_width := short w1, frag_line_index := 0, frag_len := short (int n)\<rparr> = h"
    using \<open>short (int n) = int n\<close> sh(2) by (simp add: h_def)
  have x: "ds_x s - row_width (take k cs) = w1"
    using o by (simp add: w1_def)
  have sk: "shrink (nat (frag_line_index f + frag_len f)) (line_char_widths s) (ds_width s) (frag_line_index f)
      (frag_len f) (ds_x s) = Some (int k - int j, row_width (take k cs))"
    using k(1) len(2) j(1,3,4) o by simp
  have rest: "(if int n > 0
       then do {
         frag \<leftarrow> at (fragments s1) (int m);
         fs \<leftarrow> put_at (fragments s1) 0 (frag\<lparr>frag_width := short w1, frag_line_index := 0, frag_len := short (int n)\<rparr>);
         Some (s1\<lparr>fragments := fs, nb_fragments := 1, ds_x := w1\<rparr>) }
       else Some (s1\<lparr>nb_fragments := 0, ds_x := 0\<rparr>)) = Some s2"
    by (simp add: km1 h' s2_def)
  have "break_line env s = Some s3"
    unfolding break_line_def Let_def
    by (simp only: km sk len(1) x g' nbk s0_def [symmetric] s1(1) rest s3(1) s3_def [symmetric] bind.bind_lunit
        prod.case)
  moreover have "on_line (drop k cs) s3"
  proof -
    have "print_ok s1"
      using fl(3) on0(4) by blast
    moreover have "plain s1"
      using fl(5) on0(3) by blast
    moreover have "default_line_height s1 = asc + desc"
      using fl(1) on0(5) by (simp add: advanced_def frame_def)
    moreover have "frags_ok asc desc 0 [h] (drop k cs)" if "n \<noteq> 0"
      using that n j(6-9) w1 by (auto simp: h_def g_def intro!: exI [of _ n])
    moreover have "take (Suc 0) (fs[0 := h]) = [h]"
      using f1(3) by (cases fs) auto
    ultimately show ?thesis
      using s3(2) o f1 n w1(1) unfolding s3_def [symmetric]
      by (auto simp: on_line_def s3_def s2_def plain_def print_ok_def cells_ok_parts)
  qed
  moreover have "advanced (row_calls (ds_line_num s) (ds_y s) (asc + desc) 0 (take k cs)) 1 s s3" "same_pending s s3"
    using adv by (simp_all add: s3_def s2_def advanced_def frame_def same_pending_def)
  moreover have "nb_fragments s3 = (if k = length cs then 0 else 1)"
    using n by (simp add: s3_def s2_def)
  ultimately show ?thesis
    using k(4) by blast
qed

definition last_fits :: "cell list \<Rightarrow> DisplayState \<Rightarrow> bool" where
  "last_fits cs s \<longleftrightarrow> (\<forall>j. frag_line_index (fragments s ! nat (nb_fragments s - 1)) = int j \<longrightarrow>
     row_width (take j cs) \<le> ds_width s)"

lemma frame_widthD: "frame s s' \<Longrightarrow> ds_width s' = ds_width s"
  by (simp add: frame_def)

lemma wrap_line_rows:
  assumes "on_line cs s" "0 \<le> ds_width s" "length cs \<le> 256" "row_width cs > ds_width s \<Longrightarrow> last_fits cs s"
  shows "\<exists>s' P R rest. wrap_line env s = Some s' \<and> on_line rest s' \<and> row_width rest \<le> ds_width s \<and>
    laid (ds_width s) cs P R rest \<and> advanced (lay_calls (ds_line_num s) (ds_y s) (asc + desc) P) R s s' \<and>
    same_pending s s'"
  using assms
proof (induction "length cs" arbitrary: cs s rule: less_induct)
  case less
  let ?W = "ds_width s"
  let ?h = "asc + desc"
  have x: "ds_x s = row_width cs"
    using less.prems(1) by (simp add: on_line_def)
  show ?case
  proof (cases "row_width cs > ?W")
    case False
    then have "wrap_line env s = Some s"
      using x by (subst wrap_line.simps) simp
    then show ?thesis
      using False less.prems(1) laid_refl [of ?W cs]
      by (intro exI [of _ s] exI [of _ "[]"] exI [of _ 0] exI [of _ cs]) (simp add: lay_calls_def same_pending_def)
  next
    case True
    obtain k s1 where k: "row_break ?W cs k" "break_line env s = Some s1" "on_line (drop k cs) s1"
      "advanced (row_calls (ds_line_num s) (ds_y s) ?h 0 (take k cs)) 1 s s1" "same_pending s s1"
      "nb_fragments s1 = (if k = length cs then 0 else 1)"
      using break_line_row [OF less.prems(1,2) True less.prems(3)] less.prems(4) [OF True] by (auto simp: last_fits_def)
    have W: "ds_width s1 = ?W" and num: "ds_line_num s1 = ds_line_num s + 1" "ds_y s1 = ds_y s + ?h"
      using k(4) by (simp_all add: advanced_def frame_def)
    have kp: "0 < k" "k \<le> length cs"
      using k(1) by (auto simp: row_break_def)
    have fits: "last_fits (drop k cs) s1" if "row_width (drop k cs) > ds_width s1"
    proof -
      have "drop k cs \<noteq> []"
        using that less.prems(2) W by auto
      then have nb: "nb_fragments s1 = 1"
        using k(6) by auto
      have "frags_ok asc desc 0 (take 1 (fragments s1)) (drop k cs)" "fragments s1 \<noteq> []"
        using k(3) nb by (auto simp: on_line_def)
      then have "frag_line_index (fragments s1 ! 0) = 0"
        by (cases "fragments s1") auto
      then show ?thesis
        using nb less.prems(2) W by (simp add: last_fits_def)
    qed
    have "length (drop k cs) < length cs" "0 \<le> ds_width s1" "length (drop k cs) \<le> 256"
      using kp less.prems(2,3) W by auto
    from less.hyps [OF this(1) k(3) this(2,3) fits] obtain s' P R rest where r:
      "wrap_line env s1 = Some s'" "on_line rest s'" "row_width rest \<le> ?W" "laid ?W (drop k cs) P R rest"
      "advanced (lay_calls (ds_line_num s1) (ds_y s1) ?h P) R s1 s'" "same_pending s1 s'"
      using W by metis
    have "cells_ok cs"
      using less.prems(1) by (simp add: on_line_def)
    note lb = laid_trans [OF laid_break [OF this k(1)] r(4)]
    have "wrap_line env s = Some s'"
      using True x k(2) r(1) by (subst wrap_line.simps) simp
    moreover have "advanced (lay_calls (ds_line_num s) (ds_y s) ?h (in_row 0 0 (take k cs) @ down 1 P)) (1 + R) s s'"
      using advanced_trans [OF k(4) r(5)] num by (simp add: lay_calls_row lay_calls_down)
    moreover have "same_pending s s'"
      using k(5) r(6) by (simp add: same_pending_def)
    ultimately show ?thesis
      using r(2,3) lb by blast
  qed
qed

end

end
