(* ===== verification/Layout_Lines.thy ===== *)
theory Layout_Lines
  imports Layout_Theorems
begin

text \<open>
  From fragments to lines: the characters of a line, in whatever fragments they come, are laid out as
  \<open>lay\<close> says, and the callback is called for them in this order and then for the end of the line.
\<close>

section \<open>Entries of the arrays\<close>

definition patch :: "nat \<Rightarrow> 'a list \<Rightarrow> 'a list \<Rightarrow> 'a list" where
  "patch j ys xs = take j xs @ ys @ drop (j + length ys) xs"

lemma patch_Nil [simp]: "patch j [] xs = xs"
  by (simp add: patch_def)

lemma patch_Cons: "j < length xs \<Longrightarrow> patch (Suc j) ys (xs[j := y]) = patch j (y # ys) xs"
  by (simp add: patch_def take_Suc_conv_app_nth)

lemma patch_single: "j < length xs \<Longrightarrow> patch j [y] xs = xs[j := y]"
  using patch_Cons [of j xs "[]" y] by simp

lemma length_patch [simp]: "j + length ys \<le> length xs \<Longrightarrow> length (patch j ys xs) = length xs"
  by (simp add: patch_def)

lemma nth_patch: "j + length ys \<le> length xs \<Longrightarrow> i < length xs \<Longrightarrow>
    patch j ys xs ! i = (if j \<le> i \<and> i < j + length ys then ys ! (i - j) else xs ! i)"
  by (auto simp: patch_def nth_append min_def)

lemma take_patch: "j \<le> length xs \<Longrightarrow> take (j + length ys) (patch j ys xs) = take j xs @ ys"
  by (simp add: patch_def min_def)

lemma put_glyphs_spec:
  assumes "j + length gs \<le> length (line_chars s)" "j + length gs \<le> length (line_offsets s)"
  shows "put_glyphs gs (int j) s = Some (s\<lparr>line_chars := patch j gs (line_chars s),
      line_offsets := patch j (replicate (length gs) (- 1, - 1)) (line_offsets s)\<rparr>)"
  using assms
proof (induction gs arbitrary: j s)
  case (Cons g gs)
  have "int j + 1 = int (Suc j)"
    by simp
  then show ?case
    using Cons.IH [of "Suc j" "s\<lparr>line_chars := (line_chars s)[j := g], line_offsets := (line_offsets s)[j := (- 1, - 1)]\<rparr>"]
      Cons.prems by (simp add: patch_Cons add.commute [of "int j" 1])
qed simp

lemma glyph_offsets_spec:
  assumes "line_index s = int li" "li + i + length ps \<le> length (line_offsets s)" "li + i + length ps \<le> length (line_hex_mode s)"
    "i + length ps \<le> length (fragment_offsets s)" "i + length ps \<le> length (fragment_hex_mode s)"
    "\<forall>k<length ps. line_offsets s ! (li + i + k) = (- 1, - 1) \<and> fragment_offsets s ! (i + k) = ps ! k \<and>
       fragment_hex_mode s ! (i + k) = 0"
  shows "glyph_offsets (map Some [i..<i + length ps]) (int i) s = Some (s\<lparr>line_offsets := patch (li + i) ps (line_offsets s),
      line_hex_mode := patch (li + i) (replicate (length ps) 0) (line_hex_mode s)\<rparr>)"
  using assms
proof (induction ps arbitrary: i s)
  case (Cons p ps)
  obtain o1 o2 where p: "p = (o1, o2)"
    by fastforce
  let ?s = "s\<lparr>line_hex_mode := (line_hex_mode s)[li + i := 0], line_offsets := (line_offsets s)[li + i := p]\<rparr>"
  have up: "[i..<i + length (p # ps)] = i # [Suc i..<Suc i + length ps]"
    by (simp add: upt_rec)
  have here: "line_offsets s ! (li + i) = (- 1, - 1)" "fragment_offsets s ! i = p" "fragment_hex_mode s ! i = 0"
    using Cons.prems(6) by force+
  have "\<forall>k<length ps. line_offsets ?s ! (li + Suc i + k) = (- 1, - 1) \<and> fragment_offsets ?s ! (Suc i + k) = ps ! k \<and>
       fragment_hex_mode ?s ! (Suc i + k) = 0"
    using Cons.prems(6) by (force dest: spec [of _ "Suc k" for k])
  then have "glyph_offsets (map Some [Suc i..<Suc i + length ps]) (int (Suc i)) ?s =
      Some (?s\<lparr>line_offsets := patch (li + Suc i) ps (line_offsets ?s),
        line_hex_mode := patch (li + Suc i) (replicate (length ps) 0) (line_hex_mode ?s)\<rparr>)"
    using Cons.IH [of ?s "Suc i"] Cons.prems(1-5) by simp
  moreover have "nat (int li + int i) = li + i" "int i + 1 = int (Suc i)"
    by simp_all
  ultimately show ?case
    using Cons.prems(1-5) here p unfolding up by (simp add: patch_Cons add.commute [of "int i" 1])
qed simp

context text_driver
begin

lemma short_glyph [simp]: "short (gw c) = gw c"
  using glyph_size [of c] by (simp add: short_id)

lemma measure_glyphs_spec:
  assumes "j + length gs \<le> length (line_chars s)" "j + length gs \<le> length (line_char_widths s)"
    "\<forall>k<length gs. line_chars s ! (j + k) = gs ! k"
  shows "measure_glyphs env (asc, desc) (length gs) (int j) (asc, desc, w) s =
    Some ((asc, desc, w + sum_list (map gw gs)), s\<lparr>line_char_widths := patch j (map gw gs) (line_char_widths s)\<rparr>)"
  using assms
proof (induction gs arbitrary: j w s)
  case (Cons g gs)
  let ?s = "s\<lparr>line_char_widths := (line_char_widths s)[j := gw g]\<rparr>"
  have "line_chars s ! j = g"
    using Cons.prems(3) by force
  moreover have "\<forall>k<length gs. line_chars ?s ! (Suc j + k) = gs ! k"
    using Cons.prems(3) by force
  moreover have "int j + 1 = int (Suc j)"
    by simp
  ultimately show ?case
    using Cons.IH [of "Suc j" ?s "w + gw g"] Cons.prems(1,2) by (simp add: patch_Cons add.assoc add.commute [of "int j" 1])
qed simp

section \<open>Fragments\<close>

type_synonym glyph = "u32 \<times> int \<times> int"

text \<open>The characters that were collected and are not yet in the line.\<close>

definition pending :: "glyph list \<Rightarrow> DisplayState \<Rightarrow> bool" where
  "pending gs s \<longleftrightarrow> fragment_index s = int (length gs) \<and> length gs \<le> 128 \<and>
     length (fragment_chars s) = 128 \<and> length (fragment_offsets s) = 128 \<and> length (fragment_hex_mode s) = 128 \<and>
     take (length gs) (fragment_chars s) = map fst gs \<and> take (length gs) (fragment_offsets s) = map snd gs \<and>
     (\<forall>k<length gs. fragment_hex_mode s ! k = 0) \<and>
     (gs \<noteq> [] \<longrightarrow> (last_style s = 0 \<or> last_style s = QE_STYLE_SEL) \<and> last_embedding_level s = 0)"

definition glyph_cell :: "int \<Rightarrow> int \<Rightarrow> glyph \<Rightarrow> cell" where
  "glyph_cell T x g = (case g of (c, o1, o2) \<Rightarrow> (o1, o2, if c = 9 then T - x mod T else gw c))"

definition whole_word :: "glyph list \<Rightarrow> bool" where
  "whole_word gs \<longleftrightarrow> gs \<noteq> [] \<and> (9 \<in> fst ` set gs \<longrightarrow> length gs = 1)"

lemma glyph_cell_bounds:
  assumes "0 < T" "T \<le> 100"
  shows "1 \<le> cell_width (glyph_cell T x g) \<and> cell_width (glyph_cell T x g) \<le> 100"
proof -
  have "0 \<le> x mod T" "x mod T < T"
    using assms(1) by simp_all
  then have "1 \<le> T - x mod T" "T - x mod T \<le> 100"
    using assms(2) by linarith+
  then show ?thesis
    using glyph_size by (cases g) (simp add: glyph_cell_def)
qed

lemma pending_chars:
  assumes "pending gs s"
  shows "array_slice (fragment_chars s) 0 (fragment_index s) = Some (map fst gs)"
    "k < length gs \<Longrightarrow> fragment_offsets s ! k = map snd gs ! k"
proof -
  show "array_slice (fragment_chars s) 0 (fragment_index s) = Some (map fst gs)"
    using assms by (simp add: pending_def array_slice_def)
  have "take (length gs) (fragment_offsets s) ! k = map snd gs ! k" if "k < length gs"
    using assms by (simp add: pending_def)
  then show "k < length gs \<Longrightarrow> fragment_offsets s ! k = map snd gs ! k"
    by simp
qed

lemma stored_append:
  assumes "stored cs s" "line_index s = int (length cs)" "length cs + length ds \<le> 256"
    and "length (line_chars s') = 256" "line_offsets s' = patch (length cs) (map (\<lambda>(o1, o2, w). (o1, o2)) ds) (line_offsets s)"
      "line_char_widths s' = patch (length cs) (map cell_width ds) (line_char_widths s)"
      "line_hex_mode s' = patch (length cs) (replicate (length ds) 0) (line_hex_mode s)"
      "line_index s' = int (length cs + length ds)"
  shows "stored (cs @ ds) s'"
  using assms take_patch [of "length cs" "line_offsets s" "map (\<lambda>(o1, o2, w). (o1, o2)) ds"]
    take_patch [of "length cs" "line_char_widths s" "map cell_width ds"]
  by (auto simp: stored_def nth_patch)

lemma frags_ok_snoc:
  assumes "frags_ok asc desc 0 fs cs" "ds \<noteq> []" "frag_len f = int (length ds)" "frag_width f = row_width ds"
    "frag_line_index f = int (length cs)" "frag_level f = 0" "frag_ascent f = asc" "frag_descent f = desc"
    "frag_style f = 0 \<or> frag_style f = QE_STYLE_SEL"
  shows "frags_ok asc desc 0 (fs @ [f]) (cs @ ds)"
  unfolding frags_ok_append using assms by (intro exI [of _ "length cs"]) auto

text \<open>The style of a fragment.\<close>

lemma fragment_style:
  assumes "print_ok s" "dw_default_style (edit_state s) = 0" "last_style s = 0 \<or> last_style s = QE_STYLE_SEL"
  shows "(if last_style s = QE_STYLE_DEFAULT then dw_default_style (edit_state s) else last_style s) = last_style s"
    "\<exists>st. get_style env (edit_state s) (last_style s) = Some st"
    "scast (ucast (last_style s) :: 16 word) = last_style s"
  using assms style_values(4) by (auto simp: print_ok_def text_styles_def QE_STYLE_DEFAULT_def)

lemma smod_nonneg: "0 \<le> x \<Longrightarrow> 0 < T \<Longrightarrow> x smod T = x mod (T::int)"
  by (simp add: signed_modulo_int_def signed_divide_int_def sgn_if minus_div_mult_eq_mod [symmetric] mult.commute)

lemma add_fragment_cells:
  assumes on: "on_line cs s" and pend: "pending gs s" and word: "whole_word gs" and room: "length cs + length gs \<le> 256"
    and nb: "nb_fragments s < 256" and style: "dw_default_style (edit_state s) = 0"
    and T: "0 < ds_tab_width s" "ds_tab_width s \<le> 100"
  shows "\<exists>s'. add_fragment env s = Some s' \<and> on_line (cs @ map (glyph_cell (ds_tab_width s) (row_width cs)) gs) s' \<and>
    advanced [] 0 s s' \<and> same_pending s s' \<and> nb_fragments s' = nb_fragments s + 1 \<and>
    frag_line_index (fragments s' ! nat (nb_fragments s)) = int (length cs)"
proof -
  note o = on [unfolded on_line_def]
  note st = o [THEN conjunct1, unfolded stored_def]
  let ?j = "length cs" and ?n = "length gs" and ?T = "ds_tab_width s"
  define ds where "ds = map (glyph_cell ?T (row_width cs)) gs"
  have li: "line_index s = int ?j"
    using o by simp
  have src: "array_slice (fragment_chars s) 0 (fragment_index s) = Some (map fst gs)"
    using pending_chars(1) [OF pend] .
  have gl: "unicode_to_glyphs (MAX_WIDTH - line_index s) (map fst gs) = (map fst gs, map Some [0..<?n])"
    using room li by (auto simp: unicode_to_glyphs_def MAX_WIDTH_def Let_def)
  define s1 where "s1 = s\<lparr>line_chars := patch ?j (map fst gs) (line_chars s),
    line_offsets := patch ?j (replicate ?n (- 1, - 1)) (line_offsets s)\<rparr>"
  have p1: "put_glyphs (map fst gs) (line_index s) s = Some s1"
    using put_glyphs_spec [of ?j "map fst gs" s] st room by (simp add: li s1_def)
  define s2 where "s2 = s1\<lparr>line_offsets := patch ?j (map snd gs) (line_offsets s1),
    line_hex_mode := patch ?j (replicate ?n 0) (line_hex_mode s)\<rparr>"
  have "glyph_offsets (map Some [0..<0 + length (map snd gs)]) (int 0) s1 = Some (s1\<lparr>line_offsets := patch (?j + 0) (map snd gs) (line_offsets s1),
      line_hex_mode := patch (?j + 0) (replicate (length (map snd gs)) 0) (line_hex_mode s1)\<rparr>)"
    by (rule glyph_offsets_spec)
      (use st room pend pending_chars(2) [OF pend] li in \<open>auto simp: s1_def pending_def nth_patch\<close>)
  then have p2: "glyph_offsets (map Some [0..<?n]) 0 s1 = Some s2"
    by (simp add: s2_def s1_def)
  have lo: "line_offsets s2 = patch ?j (map snd gs) (line_offsets s)"
    using st room by (intro nth_equalityI) (auto simp: s2_def s1_def nth_patch)
  obtain c o1 o2 gs' where g: "gs = (c, o1, o2) # gs'"
    using word by (cases gs) (auto simp: whole_word_def)
  have gne: "gs \<noteq> []" "(last_style s = 0 \<or> last_style s = QE_STYLE_SEL)" "last_embedding_level s = 0"
    using word pend by (auto simp: whole_word_def pending_def)
  have c: "at (line_chars s2) (line_index s2) = Some c"
    using st room g by (simp add: s2_def s1_def li nth_patch)
  have x0: "0 \<le> row_width cs" "ds_x s = row_width cs" "ds_x_disp s = 0"
    using o row_width_bounds [of cs] by (auto simp: plain_def)
  have dsok: "cells_ok ds" "length ds = ?n" "length gs \<le> 128"
    using glyph_cell_bounds [OF T] pend by (auto simp: ds_def cells_ok_def pending_def)
  then have wd: "short (row_width ds) = row_width ds"
    using row_width_bounds [of ds] by (intro short_id) auto
  have "\<exists>lc. (if c = 9
      then do {
        guard (?T \<noteq> 0);
        let w = ?T - (row_width cs - 0) smod ?T;
        gchars \<leftarrow> put_at (line_chars s2) (int ?j) 32;
        widths \<leftarrow> put_at (line_char_widths s2) (int ?j) (short w);
        Some ((asc, desc, w), s2\<lparr>line_chars := gchars, line_char_widths := widths\<rparr>) }
      else measure_glyphs env (asc, desc) ?n (int ?j) (asc, desc, 0) s2) =
      Some ((asc, desc, row_width ds), s2\<lparr>line_chars := lc, line_char_widths := patch ?j (map cell_width ds) (line_char_widths s)\<rparr>) \<and>
    length lc = 256"
  proof (cases "c = 9")
    case True
    then have "gs' = []"
      using word g by (simp add: whole_word_def)
    with True g wd have ds: "ds = [(o1, o2, ?T - row_width cs mod ?T)]" "short (?T - row_width cs mod ?T) = ?T - row_width cs mod ?T"
      by (simp_all add: ds_def glyph_cell_def)
    show ?thesis
      using True T st room g ds smod_nonneg [OF x0(1) T(1)]
      by (intro exI [of _ "(line_chars s2)[?j := 32]"]) (simp add: s2_def s1_def patch_single Let_def)
  next
    case False
    have no_tab: "\<forall>g\<in>set gs. fst g \<noteq> 9"
      using word False g by (force simp: whole_word_def)
    then have w: "map cell_width ds = map gw (map fst gs)"
      by (auto simp: ds_def glyph_cell_def split: prod.splits)
    have "measure_glyphs env (asc, desc) (length (map fst gs)) (int ?j) (asc, desc, 0) s2 = Some ((asc, desc, 0 + sum_list (map gw (map fst gs))),
        s2\<lparr>line_char_widths := patch ?j (map gw (map fst gs)) (line_char_widths s2)\<rparr>)"
      by (rule measure_glyphs_spec) (use st room in \<open>auto simp: s2_def s1_def nth_patch\<close>)
    then show ?thesis
      using False st room by (intro exI [of _ "line_chars s2"]) (simp add: w s2_def s1_def)
  qed
  then obtain lc where lc: "(if c = 9
      then do {
        guard (?T \<noteq> 0);
        let w = ?T - (row_width cs - 0) smod ?T;
        gchars \<leftarrow> put_at (line_chars s2) (int ?j) 32;
        widths \<leftarrow> put_at (line_char_widths s2) (int ?j) (short w);
        Some ((asc, desc, w), s2\<lparr>line_chars := gchars, line_char_widths := widths\<rparr>) }
      else measure_glyphs env (asc, desc) ?n (int ?j) (asc, desc, 0) s2) =
      Some ((asc, desc, row_width ds), s2\<lparr>line_chars := lc, line_char_widths := patch ?j (map cell_width ds) (line_char_widths s)\<rparr>)"
    "length lc = 256"
    by blast
  define f where "f = \<lparr>frag_level = 0, frag_width = row_width ds, frag_ascent = asc, frag_descent = desc,
    frag_style = last_style s, frag_line_index = int ?j, frag_len = int ?n\<rparr>"
  define s' where "s' = s\<lparr>line_chars := lc, line_offsets := patch ?j (map snd gs) (line_offsets s),
    line_hex_mode := patch ?j (replicate ?n 0) (line_hex_mode s), line_char_widths := patch ?j (map cell_width ds) (line_char_widths s),
    fragments := (fragments s)[nat (nb_fragments s) := f], nb_fragments := nb_fragments s + 1,
    line_index := int ?j + int ?n, ds_x := row_width cs + row_width ds\<rparr>"
  have pr: "print_ok s"
    using o by simp
  note stl = fragment_style [OF pr style gne(2)]
  obtain sd where sd: "get_style env (edit_state s) (last_style s) = Some sd"
    using stl(2) by blast
  have flds: "edit_state s2 = edit_state s" "last_style s2 = last_style s" "line_index s2 = int ?j" "ds_x s2 = row_width cs"
    "ds_x_disp s2 = 0" "ds_tab_width s2 = ?T"
    using x0 li by (simp_all add: s2_def s1_def)
  have "add_fragment env s = Some s'"
    unfolding add_fragment_def src bind.bind_lunit gl Let_def prod.case p1 p2 flds stl(1) sd style_font_eq fst_conv
      snd_conv length_map c [unfolded flds] lc(1) [unfolded Let_def]
    using o nb gne(3) font_height
    by (simp add: s'_def f_def s2_def s1_def stl(3) wd lo [unfolded s2_def s1_def, simplified] short_id)
  moreover have "stored (cs @ ds) s'"
    by (rule stored_append [OF _ li]) (use o room st lc(2) dsok(2) in \<open>auto simp: s'_def ds_def glyph_cell_def comp_def case_prod_beta\<close>)
  moreover have "frags_ok asc desc 0 (take (nat (nb_fragments s)) (fragments s) @ [f]) (cs @ ds)"
    by (rule frags_ok_snoc) (use o dsok gne in \<open>auto simp: f_def\<close>)
  then have "frags_ok asc desc 0 (take (nat (nb_fragments s')) (fragments s')) (cs @ ds)"
    using o nb by (simp add: s'_def nat_add_distrib take_Suc_conv_app_nth)
  ultimately show ?thesis
    using o nb dsok
    by (auto simp: on_line_def s'_def f_def ds_def [symmetric] plain_def print_ok_def advanced_def frame_def same_pending_def)
qed

lemma frags_ok_length: "frags_ok asc desc i fs cs \<Longrightarrow> length fs \<le> length cs"
proof (induction fs arbitrary: i cs)
  case (Cons f fs)
  then obtain n where "0 < n" "n \<le> length cs" "frags_ok asc desc (i + n) fs (drop n cs)"
    by auto
  then show ?case
    using Cons.IH [of "i + n" "drop n cs"] by simp
qed simp

text \<open>The settings of a line: it is wrapped, in a window that is wide enough and not too wide.\<close>

definition wrapped :: "DisplayState \<Rightarrow> bool" where
  "wrapped s \<longleftrightarrow> ds_wrap s = WRAP_LINE \<and> 0 \<le> ds_width s \<and> ds_width s \<le> 128 \<and>
     0 < ds_tab_width s \<and> ds_tab_width s \<le> 100 \<and> dw_default_style (edit_state s) = 0"

lemma wrapped_frame:
  assumes "frame s s'"
  shows "wrapped s' = wrapped s"
proof -
  have "(edit_state s')\<lparr>dw_line_shadow := []\<rparr> = (edit_state s)\<lparr>dw_line_shadow := []\<rparr>"
    using assms by (simp add: frame_def)
  from arg_cong [OF this, where f = dw_default_style]
  have "dw_default_style (edit_state s') = dw_default_style (edit_state s)"
    by simp
  then show ?thesis
    using assms by (simp add: wrapped_def frame_def)
qed

lemma flush_fragment_rows:
  assumes on: "on_line cs s" and fits: "row_width cs \<le> ds_width s" and wr: "wrapped s" and pend: "pending gs s"
    and word: "gs = [] \<or> whole_word gs"
  shows "\<exists>s' P R rest. flush_fragment env s = Some s' \<and> on_line rest s' \<and> row_width rest \<le> ds_width s \<and>
    laid (ds_width s) (cs @ map (glyph_cell (ds_tab_width s) (row_width cs)) gs) P R rest \<and>
    advanced (lay_calls (ds_line_num s) (ds_y s) (asc + desc) P) R s s' \<and> pending [] s'"
proof (cases "gs = []")
  case True
  then have "flush_fragment env s = Some s"
    using pend by (simp add: flush_fragment_def pending_def)
  then show ?thesis
    using True on fits pend laid_refl [of "ds_width s" cs]
    by (intro exI [of _ s] exI [of _ "[]"] exI [of _ 0] exI [of _ cs]) (simp add: lay_calls_def)
next
  case False
  let ?W = "ds_width s"
  define ds where "ds = map (glyph_cell (ds_tab_width s) (row_width cs)) gs"
  define s0 where "s0 = (if nb_fragments s \<ge> 1 \<and> last_word_space s \<noteq> last_space s
    then s\<lparr>last_word_space := last_space s, word_index := nb_fragments s\<rparr> else s)"
  have same: "on_line cs s0" "pending gs s0" "advanced [] 0 s s0" "ds_width s0 = ?W" "ds_tab_width s0 = ds_tab_width s"
    "ds_line_num s0 = ds_line_num s" "ds_y s0 = ds_y s" "nb_fragments s0 = nb_fragments s" "edit_state s0 = edit_state s"
    "line_index s0 = line_index s" "ds_wrap s0 = ds_wrap s"
    using on pend by (auto simp: s0_def on_line_def stored_def plain_def print_ok_def pending_def advanced_def frame_def)
  have "cells_ok cs" and fr: "frags_ok asc desc 0 (take (nat (nb_fragments s)) (fragments s)) cs"
    and li: "line_index s = int (length cs)" and nb0: "0 \<le> nb_fragments s" "nb_fragments s \<le> int (length (fragments s))"
    using on by (auto simp: on_line_def)
  then have len: "length cs \<le> 128"
    using row_width_bounds [of cs] fits wr by (simp add: wrapped_def)
  have nb: "nb_fragments s < 256"
    using frags_ok_length [OF fr] len nb0 by simp
  have gl: "length gs \<le> 128"
    using pend by (simp add: pending_def)
  obtain s1 where s1: "add_fragment env s0 = Some s1" "on_line (cs @ ds) s1" "advanced [] 0 s0 s1" "same_pending s0 s1"
    "nb_fragments s1 = nb_fragments s0 + 1" "frag_line_index (fragments s1 ! nat (nb_fragments s0)) = int (length cs)"
    using add_fragment_cells [OF same(1,2)] word False len gl nb wr
    by (auto simp: same ds_def wrapped_def)
  have W1: "ds_width s1 = ?W" "ds_wrap s1 = WRAP_LINE" "ds_line_num s1 = ds_line_num s" "ds_y s1 = ds_y s"
    using s1(3) same wr by (simp_all add: advanced_def frame_def wrapped_def)
  have "last_fits (cs @ ds) s1"
    using s1(5,6) fits W1(1) by (simp add: last_fits_def)
  moreover have "length (cs @ ds) \<le> 256"
    using len gl by (simp add: ds_def)
  ultimately obtain s2 P R rest where s2: "wrap_line env s1 = Some s2" "on_line rest s2" "row_width rest \<le> ?W"
    "laid ?W (cs @ ds) P R rest" "advanced (lay_calls (ds_line_num s1) (ds_y s1) (asc + desc) P) R s1 s2" "same_pending s1 s2"
    using wrap_line_rows [OF s1(2)] W1(1) wr by (auto simp: wrapped_def)
  have "flush_fragment env s = Some (s2\<lparr>fragment_index := 0\<rparr>)"
    unfolding flush_fragment_def Let_def s0_def [symmetric]
    using pend False nb li len s1(1) s2(1) W1(2) by (simp add: pending_def MAX_WIDTH_def same)
  moreover have "on_line rest (s2\<lparr>fragment_index := 0\<rparr>)"
    using s2(2) by (simp add: on_line_def stored_def plain_def print_ok_def)
  moreover have "advanced (lay_calls (ds_line_num s) (ds_y s) (asc + desc) P) R s (s2\<lparr>fragment_index := 0\<rparr>)"
    using advanced_trans [OF same(3) advanced_trans [OF s1(3) s2(5)]] W1 by (simp add: advanced_def frame_def)
  moreover have "pending [] (s2\<lparr>fragment_index := 0\<rparr>)"
    using same(2) s1(4) s2(6) by (simp add: pending_def same_pending_def)
  ultimately show ?thesis
    using s2(3,4) unfolding ds_def by blast
qed

end

end
