(* ===== verification/Layout_Feed.thy ===== *)
theory Layout_Feed
  imports Layout_Lines
begin

text \<open>
  Characters are fed to the layout one by one. What was fed is a list of cells, and the state is the one
  where \<open>lay\<close> has got to.
\<close>

section \<open>States of a line that is fed\<close>

lemma down_0 [simp]: "down 0 P = P"
  by (induction P) auto

lemma laid_place:
  assumes "laid W pre P R rest" "cells_ok rest" "row_width rest \<le> W"
  shows "lay W 0 0 pre = P @ in_row R 0 rest" "lay_end W 0 0 pre = (row_width rest, R)"
proof -
  have l: "lay W 0 0 (pre @ []) = down 0 P @ lay W 0 (0 + R) (rest @ [])"
    "lay_end W 0 0 (pre @ []) = lay_end W 0 (0 + R) (rest @ [])"
    using assms(1) unfolding laid_def by blast+
  have "lay W 0 R (rest @ []) = in_row R 0 rest @ lay W (0 + row_width rest) R []"
    "lay_end W 0 R (rest @ []) = lay_end W (0 + row_width rest) R []"
    using lay_fits [of rest 0 W R "[]"] assms(2,3) by auto
  with l show "lay W 0 0 pre = P @ in_row R 0 rest" "lay_end W 0 0 pre = (row_width rest, R)"
    by simp_all
qed

lemma in_row_append: "in_row r x (cs @ ds) = in_row r x cs @ in_row r (x + row_width cs) ds"
  by (induction cs arbitrary: x) (simp_all add: add.assoc)

text \<open>A character without a style.\<close>

definition plain_code :: "u32 \<Rightarrow> bool" where
  "plain_code uc \<longleftrightarrow> style_of_char uc = 0 \<and> uc AND NOT STYLE_MASK = uc"

definition glyph_offsets_of :: "int \<Rightarrow> int \<Rightarrow> int \<times> int" where
  "glyph_offsets_of o1 o2 = (if o1 = o2 then (- 1, - 1) else (o1, o2))"

lemma char_style_plain:
  assumes "plain_code uc"
  shows "char_style e o1 uc = 0 \<or> char_style e o1 uc = QE_STYLE_SEL"
  using assms by (simp add: char_style_def plain_code_def Let_def)

context text_driver
begin

definition fed :: "glyph list \<Rightarrow> cell list \<Rightarrow> DisplayState \<Rightarrow> DisplayState \<Rightarrow> bool" where
  "fed pend tot s0 s \<longleftrightarrow> (\<exists>pre P R rest. tot = pre @ map (glyph_cell (ds_tab_width s) 0) pend \<and>
     9 \<notin> fst ` set pend \<and> laid (ds_width s) pre P R rest \<and> on_line rest s \<and> row_width rest \<le> ds_width s \<and>
     pending pend s \<and> wrapped s \<and> advanced (lay_calls (ds_line_num s0) (ds_y s0) (asc + desc) P) R s0 s)"

lemma no_tab_cells: "9 \<notin> fst ` set gs \<Longrightarrow> map (glyph_cell T x) gs = map (glyph_cell T 0) gs"
  by (force simp: glyph_cell_def)

lemma advanced_width:
  assumes "advanced cs k s s'"
  shows "ds_width s' = ds_width s" "ds_tab_width s' = ds_tab_width s" "wrapped s' = wrapped s"
    "cur_hex_mode s' = cur_hex_mode s" "eol_width s' = eol_width s"
    "dw_show_selection (edit_state s') = dw_show_selection (edit_state s)"
    "dw_s (edit_state s') = dw_s (edit_state s)"
proof -
  have f: "frame s s'"
    using assms by (simp add: advanced_def)
  then show "wrapped s' = wrapped s"
    by (rule wrapped_frame)
  from f show "ds_width s' = ds_width s" "ds_tab_width s' = ds_tab_width s"
    "cur_hex_mode s' = cur_hex_mode s" "eol_width s' = eol_width s"
    unfolding frame_def by blast+
  have e: "(edit_state s')\<lparr>dw_line_shadow := []\<rparr> = (edit_state s)\<lparr>dw_line_shadow := []\<rparr>"
    using f by (simp add: frame_def)
  from arg_cong [OF e, where f = dw_show_selection] arg_cong [OF e, where f = dw_s]
  show "dw_show_selection (edit_state s') = dw_show_selection (edit_state s)"
    "dw_s (edit_state s') = dw_s (edit_state s)"
    by simp_all
qed

text \<open>What is pending becomes part of the line.\<close>

lemma flush_pending:
  assumes laid: "laid (ds_width s) pre P R rest" and on: "on_line rest s" and fits: "row_width rest \<le> ds_width s"
    and wr: "wrapped s" and pend: "pending gs s" and word: "gs = [] \<or> whole_word gs"
    and adv: "advanced (lay_calls (ds_line_num s0) (ds_y s0) (asc + desc) P) R s0 s"
  shows "\<exists>s'. flush_fragment env s = Some s' \<and>
    fed [] (pre @ map (glyph_cell (ds_tab_width s) (fst (lay_end (ds_width s) 0 0 pre))) gs) s0 s'"
proof -
  let ?W = "ds_width s" and ?h = "asc + desc"
  obtain s' Q S rest' where s': "flush_fragment env s = Some s'" "on_line rest' s'" "row_width rest' \<le> ?W"
    "laid ?W (rest @ map (glyph_cell (ds_tab_width s) (row_width rest)) gs) Q S rest'"
    "advanced (lay_calls (ds_line_num s) (ds_y s) ?h Q) S s s'" "pending [] s'"
    using flush_fragment_rows [OF on fits wr pend word] by blast
  have "cells_ok rest"
    using on by (simp add: on_line_def)
  then have x: "fst (lay_end ?W 0 0 pre) = row_width rest"
    using laid_place(2) [OF laid] fits by simp
  have "laid ?W (pre @ map (glyph_cell (ds_tab_width s) (row_width rest)) gs) (P @ down R Q) (R + S) rest'"
    by (rule laid_trans [OF laid_append [OF laid] s'(4)])
  moreover have "advanced (lay_calls (ds_line_num s0) (ds_y s0) ?h (P @ down R Q)) (R + S) s0 s'"
    using advanced_trans [OF adv s'(5)] adv by (simp add: advanced_def lay_calls_down)
  moreover have "wrapped s'" "ds_width s' = ?W" "ds_tab_width s' = ds_tab_width s"
    using advanced_width [OF s'(5)] wr by simp_all
  ultimately show ?thesis
    unfolding fed_def using s'(1,2,3,6) x
    by (intro exI [of _ s']) (auto intro!: exI [of _ "P @ down R Q"] exI [of _ "R + S"] exI [of _ rest'])
qed

lemma fed_flush:
  assumes "fed pend tot s0 s"
  shows "\<exists>s'. flush_fragment env s = Some s' \<and> fed [] tot s0 s'"
proof -
  obtain pre P R rest where f: "tot = pre @ map (glyph_cell (ds_tab_width s) 0) pend" "9 \<notin> fst ` set pend"
    "laid (ds_width s) pre P R rest" "on_line rest s" "row_width rest \<le> ds_width s" "pending pend s" "wrapped s"
    "advanced (lay_calls (ds_line_num s0) (ds_y s0) (asc + desc) P) R s0 s"
    using assms by (auto simp: fed_def)
  then have "pend = [] \<or> whole_word pend"
    by (auto simp: whole_word_def)
  from flush_pending [OF f(3,4,5,7,6) this f(8)] show ?thesis
    using f(1) no_tab_cells [OF f(2)] by metis
qed

text \<open>A character is put behind those that are pending.\<close>

definition put_char :: "glyph \<Rightarrow> bool \<Rightarrow> u32 \<Rightarrow> DisplayState \<Rightarrow> DisplayState" where
  "put_char g space style s = (let n = nat (fragment_index s) in
     s\<lparr>fragment_chars := (fragment_chars s)[n := fst g], fragment_offsets := (fragment_offsets s)[n := snd g],
       fragment_hex_mode := (fragment_hex_mode s)[n := 0], fragment_index := fragment_index s + 1,
       last_space := space, last_style := style, last_embedding_level := 0\<rparr>)"

lemma pending_put:
  assumes "pending pend s" "length pend < 128" "style = 0 \<or> style = QE_STYLE_SEL"
  shows "pending (pend @ [g]) (put_char g space style s)"
  using assms by (auto simp: pending_def put_char_def Let_def take_Suc_conv_app_nth nth_append nth_list_update)

lemma put_char_keeps:
  "on_line rest (put_char g space style s) = on_line rest s"
  "wrapped (put_char g space style s) = wrapped s"
  "advanced cs k s0 (put_char g space style s) = advanced cs k s0 s"
  "ds_width (put_char g space style s) = ds_width s" "ds_tab_width (put_char g space style s) = ds_tab_width s"
  by (simp_all add: put_char_def Let_def on_line_def stored_def plain_def print_ok_def wrapped_def advanced_def frame_def)

lemma fed_put:
  assumes "fed pend tot s0 s" "length pend < 128" "style = 0 \<or> style = QE_STYLE_SEL" "fst g \<noteq> 9"
  shows "fed (pend @ [g]) (tot @ [glyph_cell (ds_tab_width s) x g]) s0 (put_char g space style s)"
proof -
  have "glyph_cell (ds_tab_width s) x g = glyph_cell (ds_tab_width s) 0 g"
    using assms(4) by (cases g) (simp add: glyph_cell_def)
  then show ?thesis
    using assms(1,4) pending_put [OF _ assms(2,3), of s g space] unfolding fed_def put_char_keeps by force
qed

lemma fed_put_tab:
  assumes "fed [] tot s0 s" "style = 0 \<or> style = QE_STYLE_SEL" "fst g = 9"
  shows "\<exists>s'. flush_fragment env (put_char g space style s) = Some s' \<and>
    fed [] (tot @ [glyph_cell (ds_tab_width s) (fst (lay_end (ds_width s) 0 0 tot)) g]) s0 s'"
proof -
  obtain P R rest where f: "laid (ds_width s) tot P R rest" "on_line rest s" "row_width rest \<le> ds_width s" "pending [] s"
    "wrapped s" "advanced (lay_calls (ds_line_num s0) (ds_y s0) (asc + desc) P) R s0 s"
    using assms(1) by (auto simp: fed_def)
  have "pending [g] (put_char g space style s)"
    using pending_put [OF f(4) _ assms(2), of g space] by simp
  moreover have "whole_word [g]"
    by (simp add: whole_word_def)
  ultimately show ?thesis
    using flush_pending [of "put_char g space style s" tot P R rest "[g]" s0] f by (simp add: put_char_keeps)
qed

section \<open>Feeding characters\<close>

lemma fed_settings:
  assumes "fed pend tot s0 s"
  shows "ds_width s = ds_width s0" "ds_tab_width s = ds_tab_width s0" "cur_hex_mode s = cur_hex_mode s0"
    "eol_width s = eol_width s0" "wrapped s" "pending pend s"
proof -
  obtain cs k where "advanced cs k s0 s"
    using assms by (auto simp: fed_def)
  from advanced_width [OF this] show "ds_width s = ds_width s0" "ds_tab_width s = ds_tab_width s0"
    "cur_hex_mode s = cur_hex_mode s0" "eol_width s = eol_width s0"
    by blast+
  show "wrapped s" "pending pend s"
    using assms by (auto simp: fed_def)
qed

lemma display_char_fed:
  assumes fed: "fed pend tot s0 s" and code: "plain_code uc" and hex: "cur_hex_mode s0 = 0"
  shows "\<exists>pend' s'. display_char_bidir env o1 o2 0 uc s = Some s' \<and>
    fed pend' (tot @ [glyph_cell (ds_tab_width s0) (fst (lay_end (ds_width s0) 0 0 tot)) (uc, glyph_offsets_of o1 o2)]) s0 s'"
proof -
  let ?g = "(uc, glyph_offsets_of o1 o2)"
  define st where "st = char_style (edit_state s) o1 uc"
  have st: "st = 0 \<or> st = QE_STYLE_SEL"
    using char_style_plain [OF code] by (simp add: st_def)
  have ch: "uc AND NOT STYLE_MASK = uc"
    using code by (simp add: plain_code_def)
  define flush where "flush \<longleftrightarrow> fragment_index s \<ge> MAX_WORD_SIZE \<or> uc = 9 \<or>
    fragment_index s \<ge> 1 \<and> ((uc = 32) \<noteq> last_space s \<or> st \<noteq> last_style s \<or> 0 \<noteq> last_embedding_level s)"
  obtain pend1 s1 where s1: "(if flush then flush_fragment env s else Some s) = Some s1" "fed pend1 tot s0 s1"
    "length pend1 < 128" "uc = 9 \<longrightarrow> pend1 = []"
  proof (cases flush)
    case True
    with fed_flush [OF fed] that [of _ "[]"] show ?thesis
      by auto
  next
    case False
    then have "length pend < 128" "uc \<noteq> 9"
      using fed_settings(6) [OF fed] by (auto simp: flush_def pending_def MAX_WORD_SIZE_def)
    with False fed that [of s pend] show ?thesis
      by simp
  qed
  note set = fed_settings [OF s1(2)]
  have arrays: "fragment_index s1 = int (length pend1)" "length (fragment_chars s1) = 128"
    "length (fragment_offsets s1) = 128" "length (fragment_hex_mode s1) = 128"
    using set(6) by (simp_all add: pending_def)
  have off: "(if o1 = o2 then (- 1, - 1) else (o1, o2)) = glyph_offsets_of o1 o2"
    by (simp add: glyph_offsets_of_def)
  have "display_char_bidir env o1 o2 0 uc s =
      (let s = put_char ?g (uc = 32) st s1 in if uc = 9 then flush_fragment env s else Some s)"
    unfolding display_char_bidir_def Let_def ch st_def [symmetric] flush_def [symmetric] off prod.case s1(1) bind.bind_lunit
    using arrays s1(3) set(3) hex by (cases "glyph_offsets_of o1 o2") (simp add: put_char_def Let_def)
  moreover have "\<exists>pend' s'. (let s = put_char ?g (uc = 32) st s1 in if uc = 9 then flush_fragment env s else Some s) = Some s' \<and>
      fed pend' (tot @ [glyph_cell (ds_tab_width s0) (fst (lay_end (ds_width s0) 0 0 tot)) ?g]) s0 s'"
  proof (cases "uc = 9")
    case True
    with s1(2,4) fed_put_tab [of tot s0 s1 st ?g "uc = 32"] st show ?thesis
      by (auto simp: set)
  next
    case False
    with fed_put [OF s1(2,3) st, of ?g "fst (lay_end (ds_width s0) 0 0 tot)" "uc = 32"] show ?thesis
      by (auto simp: set)
  qed
  ultimately show ?thesis
    by simp
qed

text \<open>The cells of glyphs: the width of a tabulator depends on its column.\<close>

fun glyph_cells :: "int \<Rightarrow> int \<Rightarrow> cell list \<Rightarrow> glyph list \<Rightarrow> cell list" where
  "glyph_cells W T cs [] = cs"
| "glyph_cells W T cs (g # gs) = glyph_cells W T (cs @ [glyph_cell T (fst (lay_end W 0 0 cs)) g]) gs"

lemma glyph_cells_append: "glyph_cells W T cs (gs @ hs) = glyph_cells W T (glyph_cells W T cs gs) hs"
  by (induction gs arbitrary: cs) simp_all

definition feeds :: "(DisplayState \<Rightarrow> DisplayState option) \<Rightarrow> glyph list \<Rightarrow> bool" where
  "feeds f gs \<longleftrightarrow> (\<forall>pend tot s0 s. fed pend tot s0 s \<and> cur_hex_mode s0 = 0 \<longrightarrow>
     (\<exists>pend' s'. f s = Some s' \<and> fed pend' (glyph_cells (ds_width s0) (ds_tab_width s0) tot gs) s0 s'))"

lemma feeds_char: "plain_code uc \<Longrightarrow> feeds (display_char_bidir env o1 o2 0 uc) [(uc, glyph_offsets_of o1 o2)]"
  unfolding feeds_def using display_char_fed by fastforce

lemma feeds_bind:
  assumes "feeds f gs" "feeds h hs"
  shows "feeds (\<lambda>s. f s \<bind> h) (gs @ hs)"
  unfolding feeds_def
proof (intro allI impI)
  fix pend tot s0 s
  assume a: "fed pend tot s0 s \<and> cur_hex_mode s0 = 0"
  then obtain pend1 s1 where s1: "f s = Some s1" "fed pend1 (glyph_cells (ds_width s0) (ds_tab_width s0) tot gs) s0 s1"
    using assms(1) unfolding feeds_def by blast
  with a assms(2) show "\<exists>pend' s'. f s \<bind> h = Some s' \<and>
      fed pend' (glyph_cells (ds_width s0) (ds_tab_width s0) tot (gs @ hs)) s0 s'"
    unfolding feeds_def glyph_cells_append by simp
qed

lemma feeds_Nil: "feeds Some []"
  by (auto simp: feeds_def)

end

section \<open>Feeding a text\<close>

lemma plain_code_byte: "plain_code (ucast (c :: u8))"
proof -
  have hi: "\<not> bit c n" if "8 \<le> n" for n
    using that bit_imp_le_length [of c n] by auto
  have "drop_bit STYLE_SHIFT (ucast c :: u32) = 0"
    by (rule bit_word_eqI) (simp add: bit_drop_bit_eq bit_ucast_iff STYLE_SHIFT_def hi)
  moreover have "\<not> bit (ucast c :: u32) 31"
    by (simp add: bit_ucast_iff hi)
  moreover have "(ucast c :: u32) AND NOT STYLE_MASK = ucast c"
  proof (rule bit_word_eqI)
    fix n
    assume "n < LENGTH(32)"
    have "bit STYLE_MASK n \<Longrightarrow> 20 \<le> n"
      unfolding STYLE_MASK_def STYLE_SHIFT_def bit_push_bit_iff by blast
    with \<open>n < LENGTH(32)\<close> show "bit ((ucast c :: u32) AND NOT STYLE_MASK) n \<longleftrightarrow> bit (ucast c :: u32) n"
      using hi [of n] by (cases "8 \<le> n") (auto simp: bit_and_iff bit_not_iff bit_ucast_iff)
  qed
  ultimately show ?thesis
    by (simp add: plain_code_def style_of_char_def)
qed

lemma scast_ascii:
  assumes "(c :: u8) < 128"
  shows "(scast c :: u32) = ucast c"
proof -
  have "uint c < 128"
    using assms by (simp add: word_less_def)
  then have "sint c = uint c"
    using signed_take_bit_int_eq_self [of 7 "uint c"] order.trans [OF _ uint_ge_0 [of c], of "- 128"] by (simp add: sint_uint)
  then show ?thesis
    by (simp only: scast_eq ucast_eq)
qed

definition arrays_ok :: "DisplayState \<Rightarrow> bool" where
  "arrays_ok s \<longleftrightarrow> length (fragments s) = 256 \<and> length (line_chars s) = 256 \<and> length (line_offsets s) = 256 \<and>
     length (line_char_widths s) = 256 \<and> length (line_hex_mode s) = 256 \<and> length (fragment_chars s) = 128 \<and>
     length (fragment_offsets s) = 128 \<and> length (fragment_hex_mode s) = 128"

text \<open>The calls for a line: its cells, then its end.\<close>

definition end_calls :: "int \<Rightarrow> int \<Rightarrow> int \<Rightarrow> int \<Rightarrow> int \<Rightarrow> int \<Rightarrow> int \<Rightarrow> cell list \<Rightarrow> CursorCall list" where
  "end_calls W ew n y h o1 o2 cs = (case lay_end W 0 0 cs of (x, r) \<Rightarrow>
     lay_calls n y h (lay W 0 0 cs) @ place_calls (n + r) (y + r * h) h x (o1, o2, ew))"

text \<open>The glyphs of a string that is printed; only the first one has offsets.\<close>

fun text_glyphs :: "int \<Rightarrow> int \<Rightarrow> u8 list \<Rightarrow> (u32 \<times> int \<times> int) list" where
  "text_glyphs o1 o2 [] = []"
| "text_glyphs o1 o2 (c # cs) = (ucast c, o1, o2) # map (\<lambda>c. (ucast c, - 1, - 1)) cs"

definition char_glyphs :: "bool \<Rightarrow> nat \<Rightarrow> u8 \<Rightarrow> (u32 \<times> int \<times> int) list" where
  "char_glyphs tabs p c = text_glyphs (int p) (int (Suc p))
     (if c < 32 \<and> c \<noteq> 9 then [94, 64 + c]
      else if 128 \<le> c \<and> c < 160 then [92, 117] @ print_hex 4 (uint c)
      else if c = 9 \<and> tabs then 94 # replicate 7 45
      else if c = 32 \<and> tabs then [46]
      else [c])"

context text_driver
begin

lemma feeds_printf_loop: "\<forall>c\<in>set cs. c < 128 \<Longrightarrow> feeds (printf_loop env cs) (map (\<lambda>c. (ucast c, - 1, - 1)) cs)"
proof (induction cs)
  case Nil
  have "printf_loop env [] = Some"
    by (rule ext) simp
  then show ?case
    by (simp add: feeds_Nil)
next
  case (Cons c cs)
  have "feeds (display_char_bidir env (- 1) (- 1) 0 (ucast c)) [(ucast c, - 1, - 1)]"
    using feeds_char [OF plain_code_byte [of c], where ?o1.0 = "- 1" and ?o2.0 = "- 1"] by (simp add: glyph_offsets_of_def)
  from feeds_bind [OF this Cons.IH] Cons.prems show ?case
    by (simp add: display_char_def scast_ascii cong: if_cong)
qed

lemma feeds_printf:
  assumes "\<forall>c\<in>set str. c < 128 \<and> c \<noteq> 0" "length str \<le> 255" "o1 \<noteq> o2"
  shows "feeds (display_printf env o1 o2 str) (text_glyphs o1 o2 str)"
proof -
  have tw: "takeWhile (\<lambda>c. c \<noteq> 0) (take 255 str) = str"
    using assms by (simp add: takeWhile_eq_all_conv)
  show ?thesis
  proof (cases str)
    case Nil
    then have "display_printf env o1 o2 str = Some"
      by (intro ext) (simp add: display_printf_def)
    then show ?thesis
      by (simp add: Nil feeds_Nil)
  next
    case (Cons c cs)
    have "feeds (display_char_bidir env o1 o2 0 (ucast c)) [(ucast c, o1, o2)]"
      using feeds_char [OF plain_code_byte [of c], where ?o1.0 = o1 and ?o2.0 = o2] assms(3) by (simp add: glyph_offsets_of_def)
    from feeds_bind [OF this feeds_printf_loop [of cs]] assms(1) show ?thesis
      unfolding display_printf_def tw by (simp add: Cons display_char_def scast_ascii)
  qed
qed

lemma hex_digit_ascii:
  assumes "0 \<le> v" "v < 16"
  shows "hex_digit v < 128 \<and> hex_digit v \<noteq> 0"
proof -
  have "v = 0 \<or> v = 1 \<or> v = 2 \<or> v = 3 \<or> v = 4 \<or> v = 5 \<or> v = 6 \<or> v = 7 \<or> v = 8 \<or> v = 9 \<or> v = 10 \<or> v = 11 \<or> v = 12 \<or> v = 13 \<or> v = 14 \<or> v = 15"
    using assms by presburger
  then show ?thesis
    by (auto simp: hex_digit_def)
qed

lemma print_hex_ascii: "\<forall>c\<in>set (print_hex k v). c < 128 \<and> c \<noteq> 0"
  using hex_digit_ascii by (auto simp: print_hex_def)

lemma feeds_text_char:
  assumes "dw_show_tabs (edit_state ds) = tabs" "fed pend tot s0 ds" "cur_hex_mode s0 = 0" "c \<noteq> 10"
  shows "\<exists>pend' s'. display_text_char env [] k (int p) (int (Suc p)) (uint c) ds = Some s' \<and>
    fed pend' (glyph_cells (ds_width s0) (ds_tab_width s0) tot (char_glyphs tabs p c)) s0 s'"
proof -
  have u: "uint c < 32 \<longleftrightarrow> c < 32" "uint c = 9 \<longleftrightarrow> c = 9" "uint c = 32 \<longleftrightarrow> c = 32" "128 \<le> uint c \<longleftrightarrow> 128 \<le> c" "uint c < 160 \<longleftrightarrow> c < 160"
    by (simp_all add: word_less_def word_le_def word_uint_eq_iff)
  have lt: "uint c < 256"
    using uint_lt2p [of c] by simp
  define str where "str = (if c < 32 \<and> c \<noteq> 9 then [94, 64 + c]
      else if 128 \<le> c \<and> c < 160 then [92, 117] @ print_hex 4 (uint c)
      else if c = 9 \<and> tabs then 94 # replicate 7 45
      else if c = 32 \<and> tabs then [46 :: u8] else [c])"
  define f where "f = (if c < 32 \<and> c \<noteq> 9 \<or> 128 \<le> c \<and> c < 160 \<or> (c = 9 \<or> c = 32) \<and> tabs
    then display_printf env (int p) (int (Suc p)) str
    else display_char_bidir env (int p) (int (Suc p)) 0 (ucast c))"
  have b: "byte (64 + uint c) = 64 + c" "64 + uint c \<noteq> 0"
    using uint_ge_0 [of c] by (simp, linarith)
  have "display_text_char env [] k (int p) (int (Suc p)) (uint c) ds = f ds"
    using lt assms(1) by (auto simp: display_text_char_def f_def str_def u b Let_def)
  moreover have "feeds f (char_glyphs tabs p c)"
  proof (cases "c < 32 \<and> c \<noteq> 9 \<or> 128 \<le> c \<and> c < 160 \<or> (c = 9 \<or> c = 32) \<and> tabs")
    case True
    have "64 + c < 128 \<and> 64 + c \<noteq> 0" if "c < 32"
      using uint_byte [of "64 + uint c"] that b(2) unfolding b(1) by (simp add: word_less_def word_uint_eq_iff)
    then have "\<forall>c\<in>set str. c < 128 \<and> c \<noteq> 0" "length str \<le> 255"
      using True print_hex_ascii [of 4 "uint c"] by (auto simp: str_def print_hex_def)
    from feeds_printf [OF this, of "int p" "int (Suc p)"] True show ?thesis
      unfolding f_def char_glyphs_def str_def [symmetric] by simp
  next
    case False
    then have n: "\<not> (c < 32 \<and> c \<noteq> 9)" "\<not> (128 \<le> c \<and> c < 160)" "\<not> (c = 9 \<and> tabs)" "\<not> (c = 32 \<and> tabs)"
      by blast+
    have "str = [c]"
      unfolding str_def if_not_P [OF n(1)] if_not_P [OF n(2)] if_not_P [OF n(3)] if_not_P [OF n(4)] by (rule refl)
    moreover have "f = display_char_bidir env (int p) (int (Suc p)) 0 (ucast c)"
      unfolding f_def if_not_P [OF False] by (rule refl)
    moreover have "glyph_offsets_of (int p) (int (Suc p)) = (int p, int (Suc p))"
      by (simp add: glyph_offsets_of_def)
    ultimately show ?thesis
      using feeds_char [OF plain_code_byte [of c], where ?o1.0 = "int p" and ?o2.0 = "int (Suc p)"]
      unfolding char_glyphs_def str_def [symmetric] by simp
  qed
  ultimately show ?thesis
    using assms(2,3) unfolding feeds_def by simp
qed

text \<open>The end of the line.\<close>

lemma display_eol_fed:
  assumes fed: "fed pend tot s0 s"
  shows "\<exists>s'. display_eol env o1 o2 s = Some s' \<and> arrays_ok s' \<and> print_ok s' \<and>
    advanced (end_calls (ds_width s0) (eol_width s0) (ds_line_num s0) (ds_y s0) (asc + desc) o1 o2 tot)
      (snd (lay_end (ds_width s0) 0 0 tot) + 1) s0 s'"
proof -
  let ?h = "asc + desc" and ?W = "ds_width s0"
  obtain s1 where s1: "flush_fragment env s = Some s1" "fed [] tot s0 s1"
    using fed_flush [OF fed] by blast
  note set = fed_settings [OF s1(2)]
  obtain P R rest where f: "laid ?W tot P R rest" "on_line rest s1" "row_width rest \<le> ?W" "pending [] s1"
    "advanced (lay_calls (ds_line_num s0) (ds_y s0) ?h P) R s0 s1"
    using s1(2) set(1) by (auto simp: fed_def)
  note on = f(2) [unfolded on_line_def]
  obtain s' where s': "flush_line env (nb_fragments s1) (o1, o2) True s1 = Some s'"
    "flushed (row_calls (ds_line_num s1) (ds_y s1) ?h 0 rest @
      place_calls (ds_line_num s1) (ds_y s1) ?h (row_width rest) (o1, o2, eol_width s1)) s1 s'"
    using flush_line_row [of rest s1 "nb_fragments s1" o1 o2 True] on by auto
  note fl = flushed_advanced [OF s'(2)]
  have place: "lay ?W 0 0 tot = P @ in_row R 0 rest" "lay_end ?W 0 0 tot = (row_width rest, R)"
    using laid_place [OF f(1) _ f(3)] on by auto
  have y: "ds_line_num s1 = ds_line_num s0 + R" "ds_y s1 = ds_y s0 + R * ?h"
    using f(5) by (simp_all add: advanced_def)
  have "advanced (end_calls ?W (eol_width s0) (ds_line_num s0) (ds_y s0) ?h o1 o2 tot) (R + 1) s0 s'"
    using advanced_trans [OF f(5) fl(1)] y set(4) by (simp add: end_calls_def place lay_calls_row)
  moreover have "display_eol env o1 o2 s = Some s'"
    using s1(1) s'(1) by (simp add: display_eol_def)
  moreover have "print_ok s'"
    using fl(3) on by blast
  moreover have "arrays_ok s'"
    using on f(4) s'(2) by (auto simp: arrays_ok_def flushed_def stored_def pending_def)
  ultimately show ?thesis
    by (auto simp: place)
qed

end

end
