(* ===== verification/Layout_Text.thy ===== *)
theory Layout_Text
  imports Layout_Feed
begin

text \<open>
  A line of a text is displayed: the calls of the callback and the rows it takes are a function of the text
  (\<open>line_end\<close>, \<open>line_cells\<close>).
\<close>

section \<open>The buffer of a window\<close>

text \<open>Reading characters changes only the caches of the buffer.\<close>

definition rebuf :: "EditBuffer \<Rightarrow> DisplayState \<Rightarrow> DisplayState" where
  "rebuf b s = s\<lparr>edit_state := set_dw_b b (edit_state s)\<rparr>"

lemma rebuf_fields [simp]:
  "do_disp (rebuf b s) = do_disp s" "ds_width (rebuf b s) = ds_width s" "ds_height (rebuf b s) = ds_height s"
  "eol_width (rebuf b s) = eol_width s" "ds_tab_width (rebuf b s) = ds_tab_width s" "ds_y (rebuf b s) = ds_y s"
  "ds_line_num (rebuf b s) = ds_line_num s" "cursor (rebuf b s) = cursor s" "eod (rebuf b s) = eod s"
  "cur_hex_mode (rebuf b s) = cur_hex_mode s" "ds_base (rebuf b s) = ds_base s" "ds_hex_mode (rebuf b s) = ds_hex_mode s"
  "edit_state (rebuf b s) = set_dw_b b (edit_state s)" "rebuf b (rebuf b' s) = rebuf b s"
  "default_line_height (rebuf b s) = default_line_height s"
  by (simp_all add: rebuf_def set_dw_b_def)

lemma set_dw_b_fields [simp]:
  "dw_b (set_dw_b b e) = b" "dw_show_tabs (set_dw_b b e) = dw_show_tabs e" "dw_hex_mode (set_dw_b b e) = dw_hex_mode e"
  "dw_default_style (set_dw_b b e) = dw_default_style e" "dw_prompt (set_dw_b b e) = dw_prompt e"
  "get_colorized (set_dw_b b e) = get_colorized e" "dw_line_numbers (set_dw_b b e) = dw_line_numbers e"
  "dw_colorize (set_dw_b b e) = dw_colorize e" "dw_x_disp (set_dw_b b e) = dw_x_disp e"
  "dw_line_shadow (set_dw_b b e) = dw_line_shadow e"
  "set_dw_b b (set_dw_b b' e) = set_dw_b b e" "dw_height (set_dw_b b e) = dw_height e"
  "dw_width (set_dw_b b e) = dw_width e" "dw_wrap (set_dw_b b e) = dw_wrap e" "dw_tab_size (set_dw_b b e) = dw_tab_size e"
  "dw_y_disp (set_dw_b b e) = dw_y_disp e"
  by (simp_all add: set_dw_b_def)

lemma set_dw_b_self: "set_dw_b (dw_b e) e = e"
  by (simp add: set_dw_b_def)

context text_driver
begin

lemma get_style_buffer [simp]: "get_style env (set_dw_b b e) = get_style env e"
  by (rule ext) (simp add: get_style_def cong: if_cong)

lemma rebuf_keeps:
  "on_line cs (rebuf b s) = on_line cs s" "wrapped (rebuf b s) = wrapped s" "pending gs (rebuf b s) = pending gs s"
  "print_ok (rebuf b s) = print_ok s" "arrays_ok (rebuf b s) = arrays_ok s"
proof -
  show p: "print_ok (rebuf b s) = print_ok s"
    by (simp add: print_ok_def text_styles_def)
  show "on_line cs (rebuf b s) = on_line cs s"
    unfolding on_line_def p by (simp add: rebuf_def stored_def plain_def set_dw_b_def)
  show "wrapped (rebuf b s) = wrapped s" "pending gs (rebuf b s) = pending gs s" "arrays_ok (rebuf b s) = arrays_ok s"
    by (simp_all add: rebuf_def wrapped_def pending_def arrays_ok_def)
qed

lemma frame_rebuf:
  assumes "frame s s'"
  shows "frame (rebuf b s) (rebuf b s')"
proof -
  have sh: "(set_dw_b b e)\<lparr>dw_line_shadow := []\<rparr> = set_dw_b b (e\<lparr>dw_line_shadow := []\<rparr>)" for e
    by (simp add: set_dw_b_def)
  have "(edit_state s')\<lparr>dw_line_shadow := []\<rparr> = (edit_state s)\<lparr>dw_line_shadow := []\<rparr>"
    using assms by (simp add: frame_def)
  then have "(set_dw_b b (edit_state s'))\<lparr>dw_line_shadow := []\<rparr> = (set_dw_b b (edit_state s))\<lparr>dw_line_shadow := []\<rparr>"
    by (simp only: sh)
  then show ?thesis
    using assms unfolding frame_def by (simp add: rebuf_def)
qed

lemma advanced_rebuf: "advanced cs k s s' \<Longrightarrow> advanced cs k (rebuf b s) (rebuf b s')"
  by (simp add: advanced_def frame_rebuf)

lemma fed_rebuf: "fed pend tot s0 s \<Longrightarrow> fed pend tot (rebuf b s0) (rebuf b s)"
  unfolding fed_def rebuf_keeps using advanced_rebuf by fastforce

lemma fed_window:
  assumes "fed pend tot s0 s"
  shows "dw_s (edit_state s) = dw_s (edit_state s0)" "dw_show_tabs (edit_state s) = dw_show_tabs (edit_state s0)"
proof -
  obtain cs k where "advanced cs k s0 s"
    using assms by (auto simp: fed_def)
  then have e: "(edit_state s)\<lparr>dw_line_shadow := []\<rparr> = (edit_state s0)\<lparr>dw_line_shadow := []\<rparr>"
    by (simp add: advanced_def frame_def)
  from arg_cong [OF e, where f = dw_s] arg_cong [OF e, where f = dw_show_tabs]
  show "dw_s (edit_state s) = dw_s (edit_state s0)" "dw_show_tabs (edit_state s) = dw_show_tabs (edit_state s0)"
    by simp_all
qed

section \<open>The loop over a line\<close>

fun line_glyphs :: "bool \<Rightarrow> nat \<Rightarrow> u8 list \<Rightarrow> glyph list" where
  "line_glyphs tabs p [] = []"
| "line_glyphs tabs p (c # cs) = char_glyphs tabs p c @ line_glyphs tabs (Suc p) cs"

text \<open>The characters of the line at an offset, and where the line ends.\<close>

abbreviation line_at :: "u8 list \<Rightarrow> nat \<Rightarrow> u8 list" where
  "line_at t p \<equiv> takeWhile (\<lambda>c. c \<noteq> 10) (drop p t)"

definition after_line :: "u8 list \<Rightarrow> nat \<Rightarrow> int" where
  "after_line t p = (let q = p + length (line_at t p) in if q < length t then int (Suc q) else - 1)"

definition reads :: "EditBuffer \<Rightarrow> EditBuffer \<Rightarrow> bool" where
  "reads b b' \<longleftrightarrow> kept b b' \<and> tracked b' = tracked b"

lemma reads_trans: "reads b b1 \<Longrightarrow> reads b1 b2 \<Longrightarrow> reads b b2"
  by (auto simp: reads_def intro: kept_trans)

lemma display_loop_line:
  assumes "fed pend tot s0 s" "cur_hex_mode s0 = 0" "byte_text (dw_b (edit_state s0)) t" "p \<le> length t"
  shows "\<exists>b' s'. display_loop env [] k (int p) s = Some (after_line t p, s') \<and> byte_text b' t \<and>
    reads (dw_b (edit_state s0)) b' \<and> arrays_ok s' \<and> print_ok s' \<and>
    (let cs = glyph_cells (ds_width s0) (ds_tab_width s0) tot (line_glyphs (dw_show_tabs (edit_state s0)) p (line_at t p));
         q = int (p + length (line_at t p))
     in advanced (end_calls (ds_width s0) (eol_width s0) (ds_line_num s0) (ds_y s0) (asc + desc) q (q + 1) cs)
          (snd (lay_end (ds_width s0) 0 0 cs) + 1) (rebuf b' s0) s')"
  using assms
proof (induction "length t - p" arbitrary: p k pend tot s s0)
  case 0
  then have p: "p = length t"
    by simp
  let ?b = "dw_b (edit_state s0)"
  have b: "dw_b (edit_state s) = ?b" "total_size ?b = length t" "rebuf ?b s0 = s0"
    using fed_window(1) [OF 0(2)] byte_textD(3) [OF 0(4)] by (simp_all add: rebuf_def set_dw_b_self)
  obtain s' where "display_eol env (int p) (int p + 1) s = Some s'" "arrays_ok s'" "print_ok s'"
    "advanced (end_calls (ds_width s0) (eol_width s0) (ds_line_num s0) (ds_y s0) (asc + desc) (int p) (int p + 1) tot)
      (snd (lay_end (ds_width s0) 0 0 tot) + 1) s0 s'"
    using display_eol_fed [OF 0(2)] by blast
  then show ?case
    using p b 0(4) by (subst display_loop.simps) (auto simp: after_line_def reads_def intro!: exI [of _ ?b])
next
  case (Suc n)
  have lt: "p < length t"
    using Suc(2) by simp
  let ?b = "dw_b (edit_state s0)" and ?W = "ds_width s0" and ?T = "ds_tab_width s0"
  have bs: "dw_b (edit_state s) = ?b" "total_size ?b = length t"
    using fed_window(1) [OF Suc(3)] byte_textD(3) [OF Suc(5)] by simp_all
  obtain b1 where b1: "eb_nextc ?b (env_junk env) (int p) = Some (uint (t ! p), int (Suc p), b1)" "byte_text b1 t" "reads ?b b1"
    using byte_text_nextc [OF Suc(5) lt, of "env_junk env"] by (auto simp: reads_def)
  have fed1: "fed pend tot (rebuf b1 s0) (rebuf b1 s)"
    by (rule fed_rebuf [OF Suc(3)])
  have dr: "drop p t = t ! p # drop (Suc p) t"
    using lt by (simp add: Cons_nth_drop_Suc)
  have step: "display_loop env [] k (int p) s = (if t ! p = 10
      then do { s \<leftarrow> display_eol env (int p) (int (Suc p)) (rebuf b1 s); Some (int (Suc p), s) }
      else do { s \<leftarrow> display_text_char env [] k (int p) (int (Suc p)) (uint (t ! p)) (rebuf b1 s);
                display_loop env [] (k + 1) (int (Suc p)) s })"
  proof -
    have "uint (t ! p) = 10 \<longleftrightarrow> t ! p = 10"
      by (simp add: word_uint_eq_iff)
    then show ?thesis
      using lt b1(1) by (subst display_loop.simps) (simp add: bs rebuf_def [symmetric] Let_def)
  qed
  show ?case
  proof (cases "t ! p = 10")
    case True
    obtain s' where "display_eol env (int p) (int (Suc p)) (rebuf b1 s) = Some s'" "arrays_ok s'" "print_ok s'"
      "advanced (end_calls ?W (eol_width s0) (ds_line_num s0) (ds_y s0) (asc + desc) (int p) (int (Suc p)) tot)
        (snd (lay_end ?W 0 0 tot) + 1) (rebuf b1 s0) s'"
      using display_eol_fed [OF fed1, of "int p" "int (Suc p)"] by auto
    moreover have "line_at t p = []" "int (Suc p) = int p + 1" "after_line t p = int (Suc p)"
      using True lt by (simp_all add: dr after_line_def)
    ultimately show ?thesis
      using True b1(2,3) by (intro exI [of _ b1] exI [of _ s']) (simp only: step line_glyphs.simps glyph_cells.simps
        list.size add_0_right Let_def if_True bind.bind_lunit simp_thms)
  next
    case False
    let ?c = "t ! p" and ?tabs = "dw_show_tabs (edit_state s0)"
    have "dw_show_tabs (edit_state (rebuf b1 s)) = ?tabs"
      using fed_window(2) [OF Suc(3)] by simp
    from feeds_text_char [OF this fed1 _ False, of k p] Suc(4) obtain pend1 s1 where
      s1: "display_text_char env [] k (int p) (int (Suc p)) (uint ?c) (rebuf b1 s) = Some s1"
        "fed pend1 (glyph_cells ?W ?T tot (char_glyphs ?tabs p ?c)) (rebuf b1 s0) s1"
      by auto
    have la: "line_at t p = ?c # line_at t (Suc p)"
      using False by (simp add: dr)
    have "n = length t - Suc p" "byte_text (dw_b (edit_state (rebuf b1 s0))) t" "Suc p \<le> length t" "cur_hex_mode (rebuf b1 s0) = 0"
      using Suc(2,4) b1(2) by simp_all
    from Suc(1) [OF this(1) s1(2) this(4,2,3), of "k + 1"] obtain b' s' where
      s': "display_loop env [] (k + 1) (int (Suc p)) s1 = Some (after_line t (Suc p), s')" "byte_text b' t" "reads b1 b'"
        "arrays_ok s'" "print_ok s'"
        "advanced (end_calls ?W (eol_width s0) (ds_line_num s0) (ds_y s0) (asc + desc) (int (Suc p + length (line_at t (Suc p))))
          (int (Suc p + length (line_at t (Suc p))) + 1)
          (glyph_cells ?W ?T (glyph_cells ?W ?T tot (char_glyphs ?tabs p ?c)) (line_glyphs ?tabs (Suc p) (line_at t (Suc p)))))
          (snd (lay_end ?W 0 0 (glyph_cells ?W ?T (glyph_cells ?W ?T tot (char_glyphs ?tabs p ?c))
            (line_glyphs ?tabs (Suc p) (line_at t (Suc p))))) + 1) (rebuf b' s0) s'"
      by (auto simp: Let_def)
    have "display_loop env [] k (int p) s = Some (after_line t p, s')"
      using False s1(1) s'(1) by (simp add: step after_line_def la del: takeWhile.simps)
    then show ?thesis
      using s'(2-6) reads_trans [OF b1(3)] by (intro exI [of _ b'] exI [of _ s']) (simp add: la glyph_cells_append Let_def)
  qed
qed

section \<open>The display of a line\<close>

text \<open>A window in a text mode: no prompt, colors or line numbers, not scrolled to the right.\<close>

definition text_window :: "DisplayWindow \<Rightarrow> bool" where
  "text_window e \<longleftrightarrow> dw_hex_mode e = 0 \<and> dw_x_disp e DIR_LTR = 0 \<and> \<not> dw_line_numbers e \<and> \<not> dw_colorize e \<and>
     dw_prompt e = None \<and> get_colorized e = None"

definition ready :: "u8 list \<Rightarrow> DisplayState \<Rightarrow> bool" where
  "ready t s \<longleftrightarrow> wrapped s \<and> print_ok s \<and> arrays_ok s \<and> default_line_height s = asc + desc \<and> cur_hex_mode s = 0 \<and>
     (ds_hex_mode s = 0 \<or> ds_hex_mode s = - 1) \<and> byte_text (dw_b (edit_state s)) t \<and> text_window (edit_state s)"

definition stepped :: "CursorCall list \<Rightarrow> int \<Rightarrow> DisplayState \<Rightarrow> DisplayState \<Rightarrow> bool" where
  "stepped cs k s s' \<longleftrightarrow> (cursor s', eod s') = run DIR_LTR (ds_height s) cs (cursor s, eod s) \<and>
     ds_y s' = ds_y s + k * (asc + desc) \<and> ds_line_num s' = ds_line_num s + k \<and> do_disp s' = do_disp s \<and>
     ds_width s' = ds_width s \<and> ds_height s' = ds_height s \<and> ds_tab_width s' = ds_tab_width s \<and>
     eol_width s' = eol_width s \<and> reads (dw_b (edit_state s)) (dw_b (edit_state s')) \<and>
     (\<exists>sh. edit_state s' = (set_dw_b (dw_b (edit_state s')) (edit_state s))\<lparr>dw_line_shadow := sh\<rparr>)"

lemma stepped_tabs: "stepped cs k s s' \<Longrightarrow> dw_show_tabs (edit_state s') = dw_show_tabs (edit_state s)"
proof -
  assume "stepped cs k s s'"
  then obtain b sh where "edit_state s' = (set_dw_b b (edit_state s))\<lparr>dw_line_shadow := sh\<rparr>"
    unfolding stepped_def by blast
  then show ?thesis
    by simp
qed

lemma stepped_trans:
  assumes "stepped cs k s s1" "stepped ds j s1 s2"
  shows "stepped (cs @ ds) (k + j) s s2"
proof -
  obtain sh1 sh2 where e: "edit_state s1 = (set_dw_b (dw_b (edit_state s1)) (edit_state s))\<lparr>dw_line_shadow := sh1\<rparr>"
    "edit_state s2 = (set_dw_b (dw_b (edit_state s2)) (edit_state s1))\<lparr>dw_line_shadow := sh2\<rparr>"
    using assms unfolding stepped_def by blast
  have "set_dw_b b ((set_dw_b c e)\<lparr>dw_line_shadow := l\<rparr>) = (set_dw_b b e)\<lparr>dw_line_shadow := l\<rparr>" for b c e l
    by (simp add: set_dw_b_def)
  with e have "edit_state s2 = (set_dw_b (dw_b (edit_state s2)) (edit_state s))\<lparr>dw_line_shadow := sh2\<rparr>"
    by (metis (no_types, lifting) DisplayWindow.update_convs(24) DisplayWindow.surjective)
  then show ?thesis
    using assms reads_trans unfolding stepped_def by (auto simp: algebra_simps)
qed

definition line_cells :: "DisplayState \<Rightarrow> u8 list \<Rightarrow> nat \<Rightarrow> cell list" where
  "line_cells s t p = glyph_cells (ds_width s) (ds_tab_width s) []
     (line_glyphs (dw_show_tabs (edit_state s)) p (line_at t p))"

definition line_rows :: "DisplayState \<Rightarrow> u8 list \<Rightarrow> nat \<Rightarrow> int" where
  "line_rows s t p = snd (lay_end (ds_width s) 0 0 (line_cells s t p)) + 1"

text \<open>The calls for the line at \<open>p\<close>, displayed in row \<open>n\<close> at \<open>y\<close>.\<close>

definition line_end_calls :: "DisplayState \<Rightarrow> u8 list \<Rightarrow> nat \<Rightarrow> int \<Rightarrow> int \<Rightarrow> CursorCall list" where
  "line_end_calls s t p n y = (let q = int (p + length (line_at t p)) in
     end_calls (ds_width s) (eol_width s) n y (asc + desc) q (q + 1) (line_cells s t p))"

lemma shadow_only:
  assumes "x\<lparr>dw_line_shadow := []\<rparr> = y\<lparr>dw_line_shadow := []\<rparr>"
  shows "\<exists>sh. x = y\<lparr>dw_line_shadow := sh\<rparr>"
proof -
  have "x = (x\<lparr>dw_line_shadow := []\<rparr>)\<lparr>dw_line_shadow := dw_line_shadow x\<rparr>"
    by simp
  also have "\<dots> = y\<lparr>dw_line_shadow := dw_line_shadow x\<rparr>"
    unfolding assms by simp
  finally show ?thesis
    by (rule exI)
qed

lemma line_begins:
  assumes "ready t s"
  shows "fed [] [] (display_bol s) (display_bol s)"
proof -
  have "on_line [] (display_bol s)"
    using assms by (auto simp: ready_def text_window_def on_line_def stored_def plain_def print_ok_def arrays_ok_def
        display_bol_def display_bol_bidir_def)
  moreover have "pending [] (display_bol s)" "wrapped (display_bol s)" "0 \<le> ds_width (display_bol s)"
    using assms by (auto simp: ready_def pending_def arrays_ok_def wrapped_def display_bol_def display_bol_bidir_def)
  ultimately show ?thesis
    unfolding fed_def using laid_refl [of "ds_width (display_bol s)" "[]"]
    by (auto simp: lay_calls_def intro!: exI [of _ "[]"] exI [of _ 0])
qed

lemma text_display_line:
  assumes ready: "ready t s" and p: "p \<le> length t" and nums: "\<not> env_line_numbers env"
  shows "\<exists>s'. text_display env s (int p) = Some (after_line t p, s') \<and> ready t s' \<and>
    stepped (line_end_calls s t p (ds_line_num s) (ds_y s)) (line_rows s t p) s s'"
proof -
  let ?e = "edit_state s" and ?s0 = "display_bol s"
  have w: "\<not> dw_line_numbers ?e" "\<not> dw_colorize ?e" "dw_prompt ?e = None" "get_colorized ?e = None"
    using ready by (auto simp: ready_def text_window_def)
  have same: "?e\<lparr>dw_line_numbers := env_line_numbers env\<rparr> = ?e" "set_dw_b (dw_b ?e) ?e = ?e"
    using w(1) nums by (simp_all add: set_dw_b_self)
  have start: "text_display env s (int p) = display_loop env [] 0 (int p) ?s0"
    unfolding text_display_def same Let_def using w by (simp add: same display_bol_def)
  have s0: "ds_width ?s0 = ds_width s" "ds_tab_width ?s0 = ds_tab_width s" "edit_state ?s0 = ?e" "eol_width ?s0 = eol_width s"
    "ds_line_num ?s0 = ds_line_num s" "ds_y ?s0 = ds_y s" "cur_hex_mode ?s0 = cur_hex_mode s" "ds_base ?s0 = DIR_LTR"
    "ds_height ?s0 = ds_height s" "cursor ?s0 = cursor s" "eod ?s0 = eod s" "do_disp ?s0 = do_disp s"
    "ds_hex_mode ?s0 = ds_hex_mode s" "default_line_height ?s0 = default_line_height s" "wrapped ?s0 = wrapped s"
    by (simp_all add: display_bol_def display_bol_bidir_def wrapped_def)
  have "cur_hex_mode ?s0 = 0" "byte_text (dw_b (edit_state ?s0)) t"
    using ready by (simp_all add: s0 ready_def)
  from display_loop_line [OF line_begins [OF ready] this p, of 0] obtain b' s' where
    s': "display_loop env [] 0 (int p) ?s0 = Some (after_line t p, s')" "byte_text b' t" "reads (dw_b ?e) b'"
      "arrays_ok s'" "print_ok s'" "advanced (line_end_calls s t p (ds_line_num s) (ds_y s)) (line_rows s t p) (rebuf b' ?s0) s'"
    by (auto simp: s0 Let_def line_end_calls_def line_rows_def line_cells_def)
  have fr: "frame (rebuf b' ?s0) s'"
    using s'(6) by (simp add: advanced_def)
  then have e: "(edit_state s')\<lparr>dw_line_shadow := []\<rparr> = (set_dw_b b' ?e)\<lparr>dw_line_shadow := []\<rparr>"
    by (simp add: frame_def s0)
  from shadow_only [OF e] obtain sh where sh: "edit_state s' = (set_dw_b b' ?e)\<lparr>dw_line_shadow := sh\<rparr>"
    by blast
  have b': "dw_b (edit_state s') = b'" "text_window (edit_state s') = text_window ?e"
    by (simp_all add: sh text_window_def)
  have "wrapped s'"
    using wrapped_frame [OF fr] ready by (simp add: rebuf_keeps s0 ready_def)
  moreover have "default_line_height s' = default_line_height s" "cur_hex_mode s' = cur_hex_mode s" "ds_hex_mode s' = ds_hex_mode s"
    using fr by (simp_all add: frame_def s0)
  ultimately have "ready t s'"
    using s'(2,4,5) ready [unfolded ready_def] unfolding ready_def b' by metis
  moreover have "stepped (line_end_calls s t p (ds_line_num s) (ds_y s)) (line_rows s t p) s s'"
    unfolding stepped_def b' using s'(3,6) fr sh unfolding advanced_def frame_def by (intro conjI) (auto simp: s0)
  ultimately show ?thesis
    using start s'(1) by auto
qed

end

end
