(* ===== verification/Layout_Cursor.thy ===== *)
theory Layout_Cursor
  imports Layout_Text
begin

text \<open>
  Where the characters of a text are on the screen. The places do not overlap and are in the order of the text, so
  a callback that looks for one of them finds it.
\<close>

section \<open>Geometry of a layout\<close>

lemma lay_cells: "map (\<lambda>(r, x, c). c) (lay W x r cs) = cs"
  by (induction cs arbitrary: x r) (simp_all add: Let_def)

definition left_of :: "int \<times> int \<times> cell \<Rightarrow> int \<times> int \<times> cell \<Rightarrow> bool" where
  "left_of = (\<lambda>(r, x, c) (r', x', c'). r < r' \<or> r = r' \<and> x + cell_width c \<le> x')"

lemma lay_from:
  assumes "cells_ok cs" "0 \<le> x" "(r', x', c') \<in> set (lay W x r cs)"
  shows "0 \<le> x' \<and> c' \<in> set cs \<and> (r < r' \<or> r' = r \<and> x \<le> x')"
  using assms
proof (induction cs arbitrary: x r)
  case (Cons c cs)
  have w: "1 \<le> cell_width c" "cells_ok cs"
    using Cons.prems(1) by simp_all
  define x1 r1 where "x1 = (if x + cell_width c > W \<and> x \<noteq> 0 then 0 else x)"
    "r1 = (if x + cell_width c > W \<and> x \<noteq> 0 then r + 1 else r)"
  have p: "(if x + cell_width c > W \<and> x \<noteq> 0 then (0, r + 1) else (x, r)) = (x1, r1)"
    by (simp add: x1_r1_def)
  have x1: "0 \<le> x1" "r < r1 \<or> r1 = r \<and> x1 = x"
    using Cons.prems(2) by (auto simp: x1_r1_def)
  consider "(r', x', c') = (r1, x1, c)" | "(r', x', c') \<in> set (lay W 0 (r1 + 1) cs)"
    | "(r', x', c') \<in> set (lay W (x1 + cell_width c) r1 cs)"
    using Cons.prems(3) unfolding lay.simps p Let_def by (auto split: if_splits)
  then show ?case
  proof cases
    case 1
    with x1 show ?thesis
      by auto
  next
    case 2
    from Cons.IH [OF w(2) _ this] x1 show ?thesis
      by auto
  next
    case 3
    from Cons.IH [OF w(2) _ this] x1 w(1) show ?thesis
      by auto
  qed
qed simp

lemma lay_sorted: "cells_ok cs \<Longrightarrow> 0 \<le> x \<Longrightarrow> sorted_wrt left_of (lay W x r cs)"
proof (induction cs arbitrary: x r)
  case (Cons c cs)
  have w: "1 \<le> cell_width c" "cells_ok cs"
    using Cons.prems(1) by simp_all
  have next_row: "left_of (r1, x1, c) q" if "q \<in> set (lay W 0 (r1 + 1) cs)" for r1 x1 q
    using lay_from [OF w(2), of 0 _ _ _ W "r1 + 1"] that by (cases q) (force simp: left_of_def)
  have same_row: "left_of (r1, x1, c) q" if "0 \<le> x1" "q \<in> set (lay W (x1 + cell_width c) r1 cs)" for r1 x1 q
    using lay_from [OF w(2), of "x1 + cell_width c" _ _ _ W r1] that w(1) by (cases q) (force simp: left_of_def)
  from Cons.IH [OF w(2)] Cons.prems(2) w(1) next_row same_row show ?case
    by (auto simp: Let_def)
qed simp

lemma lay_before_end:
  assumes "cells_ok cs" "0 \<le> x" "lay_end W x r cs = (xe, re)"
  shows "0 \<le> xe \<and> (r < re \<or> r = re \<and> x \<le> xe) \<and>
    (\<forall>(r', x', c')\<in>set (lay W x r cs). r' < re \<or> r' = re \<and> x' + cell_width c' \<le> xe)"
  using assms
proof (induction cs arbitrary: x r)
  case (Cons c cs)
  have w: "1 \<le> cell_width c" "cells_ok cs"
    using Cons.prems(1) by simp_all
  define x1 r1 where "x1 = (if x + cell_width c > W \<and> x \<noteq> 0 then 0 else x)"
    "r1 = (if x + cell_width c > W \<and> x \<noteq> 0 then r + 1 else r)"
  have p: "(if x + cell_width c > W \<and> x \<noteq> 0 then (0, r + 1) else (x, r)) = (x1, r1)"
    by (simp add: x1_r1_def)
  have x1: "0 \<le> x1" "r < r1 \<or> r1 = r \<and> x1 = x"
    using Cons.prems(2) by (auto simp: x1_r1_def)
  show ?case
  proof (cases "x1 + cell_width c > W")
    case True
    have "lay_end W 0 (r1 + 1) cs = (xe, re)"
      using Cons.prems(3) True unfolding lay_end.simps p Let_def by simp
    from Cons.IH [OF w(2) _ this] x1 True show ?thesis
      unfolding lay.simps p Let_def by auto
  next
    case False
    have "lay_end W (x1 + cell_width c) r1 cs = (xe, re)"
      using Cons.prems(3) False unfolding lay_end.simps p Let_def by simp
    from Cons.IH [OF w(2) _ this] x1 w(1) False show ?thesis
      unfolding lay.simps p Let_def by auto
  qed
qed simp

lemma lay_within:
  assumes "cells_ok cs" "0 \<le> x" "x \<le> W"
  shows "fst (lay_end W x r cs) \<le> W \<and> (\<forall>(r', x', c')\<in>set (lay W x r cs). x' \<le> W)"
  using assms
proof (induction cs arbitrary: x r)
  case (Cons c cs)
  have w: "1 \<le> cell_width c" "cells_ok cs" "0 \<le> W"
    using Cons.prems by simp_all
  note next_row = Cons.IH [OF w(2) _ w(3), of "r + 1"] Cons.IH [OF w(2) _ w(3), of "r + 1 + 1"]
  show ?case
    using next_row Cons.IH [OF w(2), of "x + cell_width c" r] Cons.IH [OF w(2), of "cell_width c" "r + 1"] Cons.prems(2,3) w
    by (auto simp: Let_def)
qed simp

text \<open>A place is before another one: in a row above, or to the left in the same row.\<close>

definition before :: "CursorCall \<Rightarrow> CursorCall \<Rightarrow> bool" where
  "before c d \<longleftrightarrow> cc_y c + cc_h c \<le> cc_y d \<or> cc_y c = cc_y d \<and> cc_x c + cc_w c \<le> cc_x d"

lemma place_calls_elem:
  "d \<in> set (place_calls n y h x c) \<longleftrightarrow> fst c \<ge> 0 \<and> fst (snd c) \<ge> 0 \<and>
    d = \<lparr>cc_offset1 = fst c, cc_offset2 = fst (snd c), cc_line_num = n, cc_x = x, cc_y = y, cc_w = cell_width c,
         cc_h = h, cc_hex_mode = 0\<rparr>"
  by (cases c) (auto simp: place_calls_def)

lemma left_of_before:
  assumes "left_of (r, x, c) (r', x', c')" "0 \<le> h" "d \<in> set (place_calls (n + r) (y + r * h) h x c)"
    "d' \<in> set (place_calls (n + r') (y + r' * h) h x' c')"
  shows "before d d'"
proof -
  have "r * h + h \<le> r' * h" if "r < r'"
    using mult_right_mono [of "r + 1" r' h] that assms(2) by (simp add: distrib_right)
  then show ?thesis
    using assms by (auto simp: before_def place_calls_elem left_of_def)
qed

lemma place_calls_sorted: "sorted_wrt before (place_calls n y h x c)"
  by (cases c) (simp add: place_calls_def)

lemma lay_calls_sorted:
  assumes "sorted_wrt left_of l" "0 \<le> h"
  shows "sorted_wrt before (lay_calls n y h l)"
  using assms(1)
proof (induction l)
  case (Cons q l)
  obtain r x c where q: "q = (r, x, c)"
    by (cases q)
  have "before d d'" if d: "d \<in> set (place_calls (n + r) (y + r * h) h x c)" "d' \<in> set (lay_calls n y h l)" for d d'
  proof -
    obtain r' x' c' where "(r', x', c') \<in> set l" "d' \<in> set (place_calls (n + r') (y + r' * h) h x' c')"
      using d(2) by (auto simp: lay_calls_def)
    moreover from this Cons.prems have "left_of (r, x, c) (r', x', c')"
      by (auto simp: q)
    ultimately show ?thesis
      using left_of_before assms(2) d(1) by blast
  qed
  moreover have "lay_calls n y h (q # l) = place_calls (n + r) (y + r * h) h x c @ lay_calls n y h l"
    by (simp add: q lay_calls_def)
  ultimately show ?case
    using Cons place_calls_sorted by (simp add: sorted_wrt_append)
qed (simp add: lay_calls_def)

lemma end_calls_sorted:
  assumes "cells_ok cs" "0 \<le> h" "0 \<le> ew"
  shows "sorted_wrt before (end_calls W ew n y h o1 o2 cs)"
proof -
  obtain xe re where e: "lay_end W 0 0 cs = (xe, re)"
    by fastforce
  have "before d d'" if d: "d \<in> set (lay_calls n y h (lay W 0 0 cs))" "d' \<in> set (place_calls (n + re) (y + re * h) h xe (o1, o2, ew))" for d d'
  proof -
    obtain r x c where c: "(r, x, c) \<in> set (lay W 0 0 cs)" "d \<in> set (place_calls (n + r) (y + r * h) h x c)"
      using d(1) by (auto simp: lay_calls_def)
    then have "left_of (r, x, c) (re, xe, (o1, o2, ew))"
      using lay_before_end [OF assms(1) _ e] by (auto simp: left_of_def)
    from left_of_before [OF this assms(2) c(2) d(2)] show ?thesis .
  qed
  then show ?thesis
    using lay_calls_sorted [OF lay_sorted [OF assms(1), of 0 W 0] assms(2)] place_calls_sorted
    by (simp add: end_calls_def e sorted_wrt_append)
qed

text \<open>What is common to all places of a line.\<close>

lemma end_calls_elem:
  assumes "cells_ok cs" "1 \<le> ew" "0 \<le> h" "d \<in> set (end_calls W ew n y h o1 o2 cs)" "lay_end W 0 0 cs = (xe, re)"
  shows "1 \<le> cc_w d \<and> cc_h d = h \<and> cc_hex_mode d = 0 \<and> 0 \<le> cc_x d \<and> n \<le> cc_line_num d \<and> cc_line_num d \<le> n + re \<and>
    cc_y d = y + (cc_line_num d - n) * h \<and> y \<le> cc_y d \<and> cc_y d + h \<le> y + (re + 1) * h"
proof -
  have "\<exists>r x c. 0 \<le> r \<and> r \<le> re \<and> 0 \<le> x \<and> 1 \<le> cell_width c \<and> d \<in> set (place_calls (n + r) (y + r * h) h x c)"
  proof (cases "d \<in> set (lay_calls n y h (lay W 0 0 cs))")
    case True
    then obtain r x c where c: "(r, x, c) \<in> set (lay W 0 0 cs)" "d \<in> set (place_calls (n + r) (y + r * h) h x c)"
      by (auto simp: lay_calls_def)
    then show ?thesis
      using lay_from [OF assms(1) _ c(1)] lay_before_end [OF assms(1) _ assms(5)] assms(1)
      by (intro exI [of _ r] exI [of _ x] exI [of _ c]) (auto simp: cells_ok_def)
  next
    case False
    then have "d \<in> set (place_calls (n + re) (y + re * h) h xe (o1, o2, ew))"
      using assms(4) by (simp add: end_calls_def assms(5))
    then show ?thesis
      using lay_before_end [OF assms(1) _ assms(5)] assms(2)
      by (intro exI [of _ re] exI [of _ xe] exI [of _ "(o1, o2, ew)"]) auto
  qed
  then obtain r x c where c: "0 \<le> r" "r \<le> re" "0 \<le> x" "1 \<le> cell_width c" "d \<in> set (place_calls (n + r) (y + r * h) h x c)"
    by blast
  have "0 \<le> r * h" "r * h + h \<le> (re + 1) * h"
    using c(1,2) assms(3) mult_right_mono [of "r + 1" "re + 1" h] by (simp_all add: distrib_right)
  with c show ?thesis
    by (auto simp: place_calls_elem)
qed

lemma end_calls_within:
  assumes "cells_ok cs" "0 \<le> W" "d \<in> set (end_calls W ew n y h o1 o2 cs)"
  shows "cc_x d \<le> W"
proof -
  obtain xe re where e: "lay_end W 0 0 cs = (xe, re)"
    by fastforce
  show ?thesis
    using assms(3) lay_within [OF assms(1) _ assms(2), of 0] assms(2)
    by (fastforce simp: end_calls_def e lay_calls_def place_calls_elem)
qed

text \<open>The offsets of the places.\<close>

definition shown :: "cell list \<Rightarrow> (int \<times> int) list" where
  "shown cs = map (\<lambda>(o1, o2, w). (o1, o2)) (filter (\<lambda>(o1, o2, w). o1 \<ge> 0 \<and> o2 \<ge> 0) cs)"

lemma lay_calls_offsets:
  "map (\<lambda>d. (cc_offset1 d, cc_offset2 d)) (lay_calls n y h l) = shown (map (\<lambda>(r, x, c). c) l)"
proof (induction l)
  case (Cons q l)
  obtain r x o1 o2 w where "q = (r, x, o1, o2, w)"
    by (cases q)
  with Cons show ?case
    by (cases "0 \<le> o1 \<and> 0 \<le> o2") (simp_all add: lay_calls_def shown_def place_calls_def)
qed (simp add: lay_calls_def shown_def)

lemma end_calls_offsets:
  assumes "0 \<le> o1" "0 \<le> o2"
  shows "map (\<lambda>d. (cc_offset1 d, cc_offset2 d)) (end_calls W ew n y h o1 o2 cs) = shown cs @ [(o1, o2)]"
  using assms lay_calls_offsets [of n y h "lay W 0 0 cs"]
  by (cases "lay_end W 0 0 cs") (simp add: end_calls_def lay_cells place_calls_def)

section \<open>Looking for a place\<close>

lemma run_passes:
  assumes "\<And>e f. e \<in> set cs \<Longrightarrow> Q f \<Longrightarrow> \<exists>f'. call_cursor base ht e f = (f', False) \<and> Q f'" "Q f"
  shows "\<exists>f'. run base ht cs (Some f, False) = (Some f', False) \<and> Q f'"
  using assms
proof (induction cs arbitrary: f)
  case (Cons e cs)
  then obtain f1 where f1: "call_cursor base ht e f = (f1, False)" "Q f1"
    by force
  with Cons.IH [OF _ f1(2)] Cons.prems(1) show ?case
    by (simp add: run_def)
qed (simp add: run_def)

lemma run_stays:
  assumes "\<And>e f. e \<in> set cs \<Longrightarrow> R f \<Longrightarrow> R (fst (call_cursor base ht e f))" "R f"
  shows "\<exists>f'. run base ht cs (Some f, True) = (Some f', True) \<and> R f'"
  using assms
proof (induction cs arbitrary: f)
  case (Cons e cs)
  obtain f1 r where f1: "call_cursor base ht e f = (f1, r)"
    by fastforce
  then have "R f1"
    using Cons.prems(1) [of e f] Cons.prems(2) by simp
  with Cons.IH [OF _ this] Cons.prems(1) f1 show ?case
    by (simp add: run_def)
qed (simp add: run_def)

lemma run_finds:
  assumes "\<And>e f. e \<in> set pre \<Longrightarrow> Q f \<Longrightarrow> \<exists>f'. call_cursor base ht e f = (f', False) \<and> Q f'" "Q f"
    and "\<And>f. Q f \<Longrightarrow> \<exists>f'. call_cursor base ht d f = (f', True) \<and> R f'"
    and "\<And>e f. e \<in> set post \<Longrightarrow> R f \<Longrightarrow> R (fst (call_cursor base ht e f))"
  shows "\<exists>f'. run base ht (pre @ d # post) (Some f, False) = (Some f', True) \<and> R f'"
proof -
  obtain f1 where f1: "run base ht pre (Some f, False) = (Some f1, False)" "Q f1"
    using run_passes [of pre Q base ht f] assms(1,2) by blast
  obtain f2 where f2: "call_cursor base ht d f1 = (f2, True)" "R f2"
    using assms(3) [OF f1(2)] by blast
  have "run base ht (d # post) (Some f1, False) = run base ht post (Some f2, True)"
    using f2(1) by (simp add: run_def)
  with run_stays [of post R base ht f2] assms(4) f1(1) f2(2) show ?thesis
    by simp
qed

context text_driver
begin

lemma glyph_cells_ok:
  assumes "0 < T" "T \<le> 100" "cells_ok cs"
  shows "cells_ok (glyph_cells W T cs gs)"
  using assms(3)
proof (induction gs arbitrary: cs)
  case (Cons g gs)
  then have "cells_ok (cs @ [glyph_cell T (fst (lay_end W 0 0 cs)) g])"
    using glyph_cell_bounds [OF assms(1,2)] by simp
  from Cons.IH [OF this] show ?case
    by simp
qed simp

lemma line_cells_ok: "wrapped s \<Longrightarrow> cells_ok (line_cells s t p)"
  unfolding line_cells_def wrapped_def by (intro glyph_cells_ok) simp_all

lemma glyph_cells_offsets:
  "map (\<lambda>(o1, o2, w). (o1, o2)) (glyph_cells W T cs gs) = map (\<lambda>(o1, o2, w). (o1, o2)) cs @ map snd gs"
  by (induction gs arbitrary: cs) (simp_all add: glyph_cell_def split: prod.split)

lemma shown_pairs: "shown cs = filter (\<lambda>(o1, o2). o1 \<ge> 0 \<and> o2 \<ge> 0) (map (\<lambda>(o1, o2, w). (o1, o2)) cs)"
  by (induction cs) (auto simp: shown_def)

lemma char_glyphs_offsets:
  "filter (\<lambda>(o1, o2). o1 \<ge> 0 \<and> o2 \<ge> 0) (map snd (char_glyphs tabs p c)) = [(int p, int (Suc p))]"
proof -
  have "filter (\<lambda>(o1, o2). o1 \<ge> 0 \<and> o2 \<ge> 0) (map snd (text_glyphs (int p) (int (Suc p)) (a # as))) = [(int p, int (Suc p))]"
    for a as
    by (simp add: comp_def case_prod_beta)
  then show ?thesis
    unfolding char_glyphs_def by (simp only: append_Cons split: if_split) blast
qed

lemma line_shown: "shown (line_cells s t p) = map (\<lambda>i. (int i, int (Suc i))) [p..<p + length (line_at t p)]"
proof -
  have "filter (\<lambda>(o1, o2). o1 \<ge> 0 \<and> o2 \<ge> 0) (map snd (line_glyphs tabs p l)) = map (\<lambda>i. (int i, int (Suc i))) [p..<p + length l]"
    for tabs l
  proof (induction l arbitrary: p)
    case (Cons c l)
    have "[p..<p + length (c # l)] = p # [Suc p..<Suc p + length l]"
      by (simp add: upt_rec)
    then show ?case
      using Cons.IH [of "Suc p"] char_glyphs_offsets [of tabs p c] by simp
  qed simp
  then show ?thesis
    by (simp add: shown_pairs line_cells_def glyph_cells_offsets)
qed

lemma line_end_calls_offsets:
  "map (\<lambda>d. (cc_offset1 d, cc_offset2 d)) (line_end_calls s t p n y) =
    map (\<lambda>i. (int i, int i + 1)) [p..<p + length (line_at t p) + 1]"
proof -
  have "map (\<lambda>i. (int i, int (Suc i))) xs = map (\<lambda>i. (int i, int i + 1)) xs" for xs
    by simp
  then show ?thesis
    using end_calls_offsets [of "int (p + length (line_at t p))" "int (p + length (line_at t p)) + 1" "ds_width s" "eol_width s" n y "asc + desc"
        "line_cells s t p"]
    unfolding line_end_calls_def Let_def by (simp add: line_shown)
qed

lemma line_end_calls_length: "length (line_end_calls s t p n y) = length (line_at t p) + 1"
  using arg_cong [OF line_end_calls_offsets, of length s t p n y] by (simp del: upt_Suc)

lemma line_end_calls_nth:
  assumes "i \<le> length (line_at t p)"
  shows "cc_offset1 (line_end_calls s t p n y ! i) = int (p + i)" "cc_offset2 (line_end_calls s t p n y ! i) = int (p + i) + 1"
proof -
  have "map (\<lambda>d. (cc_offset1 d, cc_offset2 d)) (line_end_calls s t p n y) ! i = (int (p + i), int (p + i) + 1)"
    unfolding line_end_calls_offsets using assms by (simp del: upt_Suc)
  then show "cc_offset1 (line_end_calls s t p n y ! i) = int (p + i)" "cc_offset2 (line_end_calls s t p n y ! i) = int (p + i) + 1"
    using assms by (simp_all add: line_end_calls_length)
qed

definition settings :: "DisplayState \<Rightarrow> bool" where
  "settings s \<longleftrightarrow> wrapped s \<and> 1 \<le> eol_width s"

lemma line_end_calls_elem:
  assumes "settings s" "d \<in> set (line_end_calls s t p n y)"
  shows "1 \<le> cc_w d" "cc_h d = asc + desc" "cc_hex_mode d = 0" "0 \<le> cc_x d" "n \<le> cc_line_num d" "cc_line_num d < n + line_rows s t p"
    "cc_y d = y + (cc_line_num d - n) * (asc + desc)" "y \<le> cc_y d" "cc_y d + (asc + desc) \<le> y + line_rows s t p * (asc + desc)"
proof -
  obtain xe re where e: "lay_end (ds_width s) 0 0 (line_cells s t p) = (xe, re)"
    by fastforce
  let ?q = "int (p + length (line_at t p))"
  have "cells_ok (line_cells s t p)" "1 \<le> eol_width s" "0 \<le> asc + desc"
    "d \<in> set (end_calls (ds_width s) (eol_width s) n y (asc + desc) ?q (?q + 1) (line_cells s t p))"
    using assms line_cells_ok font_height by (simp_all add: settings_def line_end_calls_def Let_def)
  from end_calls_elem [OF this e]
  show "1 \<le> cc_w d" "cc_h d = asc + desc" "cc_hex_mode d = 0" "0 \<le> cc_x d" "n \<le> cc_line_num d" "cc_line_num d < n + line_rows s t p"
    "cc_y d = y + (cc_line_num d - n) * (asc + desc)" "y \<le> cc_y d" "cc_y d + (asc + desc) \<le> y + line_rows s t p * (asc + desc)"
    unfolding line_rows_def e by auto
qed

lemma line_end_calls_sorted: "settings s \<Longrightarrow> sorted_wrt before (line_end_calls s t p n y)"
  unfolding line_end_calls_def Let_def settings_def using font_height line_cells_ok by (intro end_calls_sorted) auto

lemma line_end_calls_within: "settings s \<Longrightarrow> d \<in> set (line_end_calls s t p n y) \<Longrightarrow> cc_x d \<le> ds_width s"
  unfolding line_end_calls_def Let_def settings_def
  using line_cells_ok by (auto simp: wrapped_def intro: end_calls_within)

text \<open>The place of the offset \<open>c\<close> in a display from the offset \<open>p\<close> on, in row \<open>n\<close> at \<open>y\<close>.\<close>

function call_of :: "DisplayState \<Rightarrow> u8 list \<Rightarrow> nat \<Rightarrow> int \<Rightarrow> int \<Rightarrow> nat \<Rightarrow> CursorCall" where
  "call_of s t p n y c = (let q = p + length (line_at t p) in
     if c \<le> q then line_end_calls s t p n y ! (c - p)
     else call_of s t (Suc q) (n + line_rows s t p) (y + line_rows s t p * (asc + desc)) c)"
  by auto
termination
  by (relation "measure (\<lambda>(s, t, p, n, y, c). c - p)") auto

declare call_of.simps [simp del]

lemma line_rows_pos: "settings s \<Longrightarrow> 1 \<le> line_rows s t p"
  using lay_before_end [of "line_cells s t p" 0 "ds_width s" 0] line_cells_ok [of s t p]
  by (cases "lay_end (ds_width s) 0 0 (line_cells s t p)") (auto simp: line_rows_def settings_def)

lemma call_of_place:
  assumes "settings s" "p \<le> c" "c \<le> length t"
  shows "cc_offset1 (call_of s t p n y c) = int c \<and> cc_offset2 (call_of s t p n y c) = int c + 1 \<and>
    1 \<le> cc_w (call_of s t p n y c) \<and> cc_h (call_of s t p n y c) = asc + desc \<and> cc_hex_mode (call_of s t p n y c) = 0 \<and>
    0 \<le> cc_x (call_of s t p n y c) \<and> y \<le> cc_y (call_of s t p n y c) \<and> n \<le> cc_line_num (call_of s t p n y c)"
  using assms
proof (induction s t p n y c rule: call_of.induct)
  case (1 s t p n y c)
  let ?q = "p + length (line_at t p)"
  show ?case
  proof (cases "c \<le> ?q")
    case True
    then have "line_end_calls s t p n y ! (c - p) \<in> set (line_end_calls s t p n y)"
      using 1(3) by (intro nth_mem) (simp add: line_end_calls_length)
    note e = line_end_calls_elem [OF 1(2) this]
    have "call_of s t p n y c = line_end_calls s t p n y ! (c - p)"
      using True by (subst call_of.simps) (simp add: Let_def)
    moreover have "c - p \<le> length (line_at t p)" "p + (c - p) = c"
      using True 1(3) by simp_all
    ultimately show ?thesis
      using e line_end_calls_nth [where i = "c - p" and t = t and p = p and s = s and n = n and y = y] by simp
  next
    case False
    then have c: "call_of s t p n y c = call_of s t (Suc ?q) (n + line_rows s t p) (y + line_rows s t p * (asc + desc)) c"
      by (subst call_of.simps) (simp add: Let_def)
    have "0 \<le> line_rows s t p * (asc + desc)" "1 \<le> line_rows s t p"
      using line_rows_pos [OF 1(2), of t p] font_height by (auto intro: mult_nonneg_nonneg)
    then show ?thesis
      using 1(1) [OF refl False 1(2) _ 1(4)] False unfolding c by auto
  qed
qed

section \<open>The display up to a place\<close>

lemma stepped_calls:
  assumes "stepped cs k s s'"
  shows "line_end_calls s' t p n y = line_end_calls s t p n y" "line_rows s' t p = line_rows s t p"
    "call_of s' t p n y c = call_of s t p n y c"
proof -
  have set: "ds_width s' = ds_width s" "ds_tab_width s' = ds_tab_width s" "eol_width s' = eol_width s"
    "dw_show_tabs (edit_state s') = dw_show_tabs (edit_state s)"
    using assms stepped_tabs [OF assms] by (simp_all add: stepped_def)
  show l: "line_end_calls s' t p n y = line_end_calls s t p n y" "line_rows s' t p = line_rows s t p" for p n y
    by (simp_all add: line_end_calls_def line_rows_def line_cells_def set)
  show "call_of s' t p n y c = call_of s t p n y c"
  proof (induction "c - p" arbitrary: p n y rule: less_induct)
    case less
    then show ?case
      by (subst (1 2) call_of.simps) (auto simp: Let_def l)
  qed
qed

lemma stepped_settings: "stepped cs k s s' \<Longrightarrow> ready t s' \<Longrightarrow> settings s \<Longrightarrow> settings s'"
  by (simp add: stepped_def settings_def ready_def)

text \<open>
  A callback that passes over the places before the one of \<open>c\<close>, wants to stop there, and keeps what it has found
  in the rest of the line, finds it. The display goes on until then, if the place is on the screen.
\<close>

definition ordinary :: "CursorCall \<Rightarrow> bool" where
  "ordinary e \<longleftrightarrow> cc_offset2 e = cc_offset1 e + 1 \<and> 1 \<le> cc_w e \<and> cc_h e = asc + desc"

lemma display1_finds:
  assumes ready: "ready t s" "settings s" and nums: "\<not> env_line_numbers env" and c: "p \<le> c" "c \<le> length t"
    and cursor: "cursor s = Some f" "eod s = False" "Q f"
    and d: "d = call_of s t p (ds_line_num s) (ds_y s) c"
    and screen: "do_disp s = DISP_CURSOR \<or> do_disp s = DISP_CURSOR_SCREEN \<and> cc_y d < ds_height s"
    and pass: "\<And>e f. Q f \<Longrightarrow> before e d \<Longrightarrow> cc_offset1 e < int c \<Longrightarrow> ordinary e \<Longrightarrow>
      \<exists>f'. call_cursor DIR_LTR (ds_height s) e f = (f', False) \<and> Q f'"
    and find: "\<And>f. Q f \<Longrightarrow> \<exists>f'. call_cursor DIR_LTR (ds_height s) d f = (f', True) \<and> R f'"
    and keep: "\<And>e f. R f \<Longrightarrow> cc_offset1 e > int c \<Longrightarrow> R (fst (call_cursor DIR_LTR (ds_height s) e f))"
  shows "\<exists>s' k cs f'. display1_loop (text_display env) (int p) s = Some s' \<and> ready t s' \<and> stepped cs k s s' \<and>
    cursor s' = Some f' \<and> R f'"
  using ready c cursor d screen pass find keep
proof (induction "c - p" arbitrary: p s f rule: less_induct)
  case less
  let ?q = "p + length (line_at t p)" and ?n = "ds_line_num s" and ?y = "ds_y s" and ?ht = "ds_height s"
  let ?cs = "line_end_calls s t p ?n ?y"
  obtain s1 where s1: "text_display env s (int p) = Some (after_line t p, s1)" "ready t s1"
    "stepped ?cs (line_rows s t p) s s1"
    using text_display_line [OF less.prems(1) _ nums, of p] less.prems(3,4) by auto
  have ends: "display_ends s1 \<longleftrightarrow> eod s1 \<or> do_disp s = DISP_CURSOR_SCREEN \<and> ds_y s1 \<ge> ?ht"
    using less.prems(9) s1(3) by (auto simp: display_ends_def stepped_def)
  have run1: "(cursor s1, eod s1) = run DIR_LTR ?ht ?cs (Some f, False)"
    using s1(3) less.prems(5,6) by (simp add: stepped_def)
  have ord: "ordinary e" if e: "e \<in> set ?cs" for e
  proof -
    obtain j where j: "j < length ?cs" "e = ?cs ! j"
      using e by (auto simp: in_set_conv_nth)
    then show ?thesis
      using line_end_calls_nth [where i = j and t = t and p = p and s = s and n = ?n and y = ?y]
        line_end_calls_elem(1,2) [OF less.prems(2) e] by (simp add: ordinary_def line_end_calls_length)
  qed
  show ?case
  proof (cases "c \<le> ?q")
    case True
    define i where "i = c - p"
    have i: "i < length ?cs" "p + i = c" "d = ?cs ! i"
      using True less.prems(3,8) by (simp_all add: i_def line_end_calls_length call_of.simps Let_def)
    have split: "?cs = take i ?cs @ d # drop (Suc i) ?cs"
      using i(1,3) by (simp add: id_take_nth_drop)
    have early: "before e d" "cc_offset1 e < int c" if e: "e \<in> set (take i ?cs)" for e
    proof -
      obtain j where j: "j < i" "e = ?cs ! j"
        using e i(1) by (auto simp: in_set_conv_nth)
      with sorted_wrt_nth_less [OF line_end_calls_sorted [OF less.prems(2)], of j i] i show "before e d"
        by simp
      show "cc_offset1 e < int c"
        using line_end_calls_nth(1) [where i = j and t = t and p = p and s = s and n = ?n and y = ?y] j i
        by (simp add: line_end_calls_length)
    qed
    have late: "cc_offset1 e > int c" if e: "e \<in> set (drop (Suc i) ?cs)" for e
    proof -
      obtain j where j: "j < length ?cs - Suc i" "e = ?cs ! (Suc i + j)"
        using e by (auto simp: in_set_conv_nth)
      then have "Suc i + j < length ?cs"
        by simp
      then show ?thesis
        using line_end_calls_nth(1) [where i = "Suc i + j" and t = t and p = p and s = s and n = ?n and y = ?y] i(2) j(2)
        by (simp add: line_end_calls_length)
    qed
    have "\<exists>f'. run DIR_LTR ?ht (take i ?cs @ d # drop (Suc i) ?cs) (Some f, False) = (Some f', True) \<and> R f'"
      by (rule run_finds [where Q = Q]) (use early late ord [OF in_set_takeD] less.prems(7,10-12) in blast)+
    then obtain f' where "run DIR_LTR ?ht ?cs (Some f, False) = (Some f', True)" "R f'"
      using split by metis
    moreover have "display1_loop (text_display env) (int p) s = Some s1" if "eod s1"
      using s1(1) ends that by (subst display1_loop.simps) simp
    ultimately show ?thesis
      using run1 s1(2,3) by (intro exI [of _ s1] exI [of _ "line_rows s t p"] exI [of _ ?cs] exI [of _ f']) auto
  next
    case False
    let ?n1 = "?n + line_rows s t p" and ?y1 = "?y + line_rows s t p * (asc + desc)"
    have d1: "d = call_of s1 t (Suc ?q) (ds_line_num s1) (ds_y s1) c"
      using False less.prems(8) s1(3) stepped_calls(3) [OF s1(3)] by (simp add: call_of.simps [of s t p] Let_def stepped_def)
    have next_line: "after_line t p = int (Suc ?q)"
      using False less.prems(4) by (simp add: after_line_def Let_def)
    have set1: "settings s1"
      by (rule stepped_settings [OF s1(3,2) less.prems(2)])
    have "cc_y d \<ge> ds_y s1"
      using call_of_place [OF set1, of "Suc ?q" c t] False less.prems(4) d1 by simp
    then have y: "cc_y d \<ge> ?y1"
      using s1(3) by (simp add: stepped_def)
    have early: "before e d" "cc_offset1 e < int c" if e: "e \<in> set ?cs" for e
    proof -
      show "before e d"
        using line_end_calls_elem(2,9) [OF less.prems(2) e] y by (simp add: before_def)
      obtain j where "j < length ?cs" "e = ?cs ! j"
        using e by (auto simp: in_set_conv_nth)
      then show "cc_offset1 e < int c"
        using line_end_calls_nth(1) [where i = j and t = t and p = p and s = s and n = ?n and y = ?y] False
        by (simp add: line_end_calls_length)
    qed
    obtain f1 where f1: "run DIR_LTR ?ht ?cs (Some f, False) = (Some f1, False)" "Q f1"
      using run_passes [of ?cs Q DIR_LTR ?ht f] early ord less.prems(7,10) by blast
    have s1f: "cursor s1 = Some f1" "eod s1 = False"
      using run1 f1(1) by simp_all
    have same: "ds_height s1 = ?ht" "do_disp s1 = do_disp s"
      using s1(3) by (simp_all add: stepped_def)
    have "\<not> display_ends s1"
      using ends s1f(2) less.prems(9) \<open>cc_y d \<ge> ds_y s1\<close> by auto
    then have step: "display1_loop (text_display env) (int p) s = display1_loop (text_display env) (int (Suc ?q)) s1"
      using s1(1) next_line by (subst display1_loop.simps) simp
    have "c - Suc ?q < c - p" "Suc ?q \<le> c"
      using False by simp_all
    from less.hyps [OF this(1) s1(2) set1 this(2) less.prems(4) s1f f1(2) d1] less.prems(9-12) obtain s' k cs f' where
      "display1_loop (text_display env) (int (Suc ?q)) s1 = Some s'" "ready t s'" "stepped cs k s1 s'" "cursor s' = Some f'" "R f'"
      unfolding same by blast
    with step stepped_trans [OF s1(3)] show ?thesis
      by metis
  qed
qed

section \<open>Windows\<close>

lemma same_layout_calls:
  assumes "ds_width s' = ds_width s" "ds_tab_width s' = ds_tab_width s" "eol_width s' = eol_width s"
    "dw_show_tabs (edit_state s') = dw_show_tabs (edit_state s)"
  shows "call_of s' t p n y c = call_of s t p n y c"
proof (induction "c - p" arbitrary: p n y rule: less_induct)
  case less
  have "line_end_calls s' t p n y = line_end_calls s t p n y" "line_rows s' t p = line_rows s t p"
    by (simp_all add: line_end_calls_def line_rows_def line_cells_def assms)
  with less show ?case
    by (subst (1 2) call_of.simps) (auto simp: Let_def)
qed

definition eol_glyph :: int where
  "eol_glyph = max (max (gw 47) (gw 92)) (gw 36)"

text \<open>A window on the text \<open>t\<close> whose lines are wrapped.\<close>

definition window_ok :: "u8 list \<Rightarrow> DisplayWindow \<Rightarrow> bool" where
  "window_ok t e \<longleftrightarrow> byte_text (dw_b e) t \<and> text_window e \<and> dw_default_style e = 0 \<and> dw_wrap e = WRAP_LINE \<and>
     0 < dw_tab_size e \<and> gw 32 * dw_tab_size e \<le> 100 \<and> eol_glyph \<le> dw_width e \<and> dw_width e \<le> 128 + eol_glyph"

lemma display_init_ready:
  assumes "window_ok t e" "arrays_ok ds0"
  shows "\<exists>s. display_init env e disp ds0 = Some s \<and> ready t s \<and> settings s \<and> do_disp s = disp \<and> ds_y s = dw_y_disp e \<and>
    ds_line_num s = 0 \<and> ds_height s = dw_height e \<and> edit_state s = e \<and> ds_width s = dw_width e - eol_glyph \<and>
    ds_tab_width s = gw 32 * dw_tab_size e \<and> eol_width s = eol_glyph"
proof -
  have st: "text_styles env e"
    using assms(1) default_styles by (simp add: window_ok_def)
  have "QE_STYLE_DEFAULT = 0" "dw_default_style e = 0"
    using assms(1) by (simp_all add: QE_STYLE_DEFAULT_def window_ok_def)
  with st obtain sd where sd: "get_style env e (dw_default_style e) = Some sd"
    by (auto simp: text_styles_def)
  define s where "s = ds0\<lparr>do_disp := disp, ds_wrap := dw_wrap e, edit_state := e, eol_width := eol_glyph,
    default_line_height := asc + desc, ds_tab_width := gw 32 * dw_tab_size e, ds_width := dw_width e - eol_glyph,
    ds_height := dw_height e, ds_hex_mode := dw_hex_mode e, cur_hex_mode := 0, ds_y := dw_y_disp e, ds_line_num := 0,
    cursor := None, eod := False\<rparr>"
  have "display_init env e disp ds0 = Some s"
    unfolding display_init_def sd by (simp add: s_def glyph_width_def eol_glyph_def Let_def)
  moreover have "0 < gw 32 * dw_tab_size e"
    using assms(1) glyph_size(1) [of 32] by (intro mult_pos_pos) (simp_all add: window_ok_def)
  then have "wrapped s" "print_ok s" "arrays_ok s" "text_window (edit_state s)" "ds_hex_mode s = 0" "1 \<le> eol_width s"
    "0 < ds_tab_width s"
    using assms st glyph_size
    by (auto simp: s_def window_ok_def wrapped_def print_ok_def arrays_ok_def text_window_def eol_glyph_def le_max_iff_disj)
  moreover have "byte_text (dw_b (edit_state s)) t"
    using assms(1) by (simp add: s_def window_ok_def)
  ultimately show ?thesis
    by (intro exI [of _ s]) (simp add: ready_def settings_def, simp add: s_def)
qed

lemma ready_updates [simp]:
  "ready t (s\<lparr>cursor := v\<rparr>) = ready t s" "ready t (s\<lparr>eod := b\<rparr>) = ready t s"
  "settings (s\<lparr>cursor := v\<rparr>) = settings s" "settings (s\<lparr>eod := b\<rparr>) = settings s" "settings (s\<lparr>ds_hex_mode := j\<rparr>) = settings s"
  by (simp_all add: ready_def settings_def wrapped_def print_ok_def arrays_ok_def)

lemma ready_hex: "ready t s \<Longrightarrow> ready t (s\<lparr>ds_hex_mode := - 1\<rparr>)"
  by (simp add: ready_def wrapped_def print_ok_def arrays_ok_def)

text \<open>The place where the cursor is displayed when it is at \<open>c\<close>.\<close>

definition cursor_place :: "DisplayState \<Rightarrow> DisplayWindow \<Rightarrow> u8 list \<Rightarrow> nat \<Rightarrow> CursorCall" where
  "cursor_place ds0 e t c = call_of (ds0\<lparr>edit_state := e, eol_width := eol_glyph, ds_tab_width := gw 32 * dw_tab_size e,
     ds_width := dw_width e - eol_glyph\<rparr>) t (nat (dw_offset_top e)) 0 (dw_y_disp e) c"

text \<open>A window changes only in the caches of its buffer and in its shadow.\<close>

definition redrawn :: "DisplayWindow \<Rightarrow> DisplayWindow \<Rightarrow> bool" where
  "redrawn e e' \<longleftrightarrow> reads (dw_b e) (dw_b e') \<and> (\<exists>sh. e' = (set_dw_b (dw_b e') e)\<lparr>dw_line_shadow := sh\<rparr>)"

lemma display1_window:
  assumes w: "window_ok t e" "arrays_ok ds0" and nums: "\<not> env_line_numbers env"
    and c: "0 \<le> dw_offset_top e" "dw_offset_top e \<le> int c" "c \<le> length t"
    and Q: "Q f" and d: "d = cursor_place ds0 e t c"
    and screen: "disp = DISP_CURSOR \<or> disp = DISP_CURSOR_SCREEN \<and> cc_y d < dw_height e"
    and pass: "\<And>e' f. Q f \<Longrightarrow> before e' d \<Longrightarrow> cc_offset1 e' < int c \<Longrightarrow> ordinary e' \<Longrightarrow>
      \<exists>f'. call_cursor DIR_LTR (dw_height e) e' f = (f', False) \<and> Q f'"
    and find: "\<And>f. Q f \<Longrightarrow> \<exists>f'. call_cursor DIR_LTR (dw_height e) d f = (f', True) \<and> R f'"
    and keep: "\<And>e' f. R f \<Longrightarrow> cc_offset1 e' > int c \<Longrightarrow> R (fst (call_cursor DIR_LTR (dw_height e) e' f))"
    and hex: "g = (\<lambda>s. s) \<or> g = (\<lambda>s. s\<lparr>ds_hex_mode := - 1\<rparr>)"
  shows "\<exists>s s' f'. display_init env e disp ds0 = Some s \<and> display1 (text_display env) ((g s)\<lparr>cursor := Some f\<rparr>) = Some s' \<and>
    cursor s' = Some f' \<and> R f' \<and> window_ok t (edit_state s') \<and> redrawn e (edit_state s')"
proof -
  obtain s where s: "display_init env e disp ds0 = Some s" "ready t s" "settings s" "do_disp s = disp" "ds_y s = dw_y_disp e"
    "ds_line_num s = 0" "ds_height s = dw_height e" "edit_state s = e" "ds_width s = dw_width e - eol_glyph"
    "ds_tab_width s = gw 32 * dw_tab_size e" "eol_width s = eol_glyph"
    using display_init_ready [OF w] by blast
  let ?s = "(g s)\<lparr>cursor := Some f, eod := False\<rparr>"
  have g: "ready t ?s" "settings ?s" "do_disp ?s = disp" "ds_height ?s = dw_height e" "edit_state ?s = e" "ds_y ?s = dw_y_disp e"
    "ds_line_num ?s = 0" "ds_width ?s = dw_width e - eol_glyph" "ds_tab_width ?s = gw 32 * dw_tab_size e" "eol_width ?s = eol_glyph"
    using hex s ready_hex by auto
  have d': "d = call_of ?s t (nat (dw_offset_top e)) (ds_line_num ?s) (ds_y ?s) c"
    unfolding d cursor_place_def g(6,7) by (rule same_layout_calls) (simp_all add: g(5,8-10))
  have "nat (dw_offset_top e) \<le> c"
    using c by simp
  from display1_finds [where Q = Q and R = R and s = ?s and f = f, OF g(1,2) nums this c(3) _ _ Q d'] screen pass find keep
  obtain s' k cs f' where s': "display1_loop (text_display env) (int (nat (dw_offset_top e))) ?s = Some s'"
    "ready t s'" "stepped cs k ?s s'" "cursor s' = Some f'" "R f'"
    unfolding g(3,4) by auto
  have "display1 (text_display env) ((g s)\<lparr>cursor := Some f\<rparr>) = Some s'"
    using s'(1) c(1) g(5) by (simp add: display1_def)
  moreover have red: "redrawn e (edit_state s')"
    using s'(3) g(5) by (auto simp: redrawn_def stepped_def)
  moreover have "window_ok t (edit_state s')"
  proof -
    obtain b sh where "edit_state s' = (set_dw_b b e)\<lparr>dw_line_shadow := sh\<rparr>"
      using red unfolding redrawn_def by blast
    with s'(2) w(1) show ?thesis
      by (simp add: window_ok_def ready_def text_window_def)
  qed
  ultimately show ?thesis
    using s(1) s'(4,5) by blast
qed

section \<open>The cursor\<close>

definition found_place :: "CursorCall \<Rightarrow> CursorPlace" where
  "found_place d = \<lparr>linec = cc_line_num d, basec = DIR_LTR, dirc = DIR_LTR, cursor_width = cc_w d, cursor_height = cc_h d\<rparr>"

lemma cursor_place_facts:
  assumes "window_ok t e" "0 \<le> dw_offset_top e" "dw_offset_top e \<le> int c" "c \<le> length t" "arrays_ok ds0"
  shows "cc_offset1 (cursor_place ds0 e t c) = int c" "ordinary (cursor_place ds0 e t c)"
    "cc_hex_mode (cursor_place ds0 e t c) = 0" "0 \<le> cc_x (cursor_place ds0 e t c)"
    "dw_y_disp e \<le> cc_y (cursor_place ds0 e t c)" "0 \<le> cc_line_num (cursor_place ds0 e t c)"
proof -
  obtain s where s: "settings s" "edit_state s = e" "ds_width s = dw_width e - eol_glyph"
    "ds_tab_width s = gw 32 * dw_tab_size e" "eol_width s = eol_glyph"
    using display_init_ready [OF assms(1,5)] by blast
  have "cursor_place ds0 e t c = call_of s t (nat (dw_offset_top e)) 0 (dw_y_disp e) c"
    unfolding cursor_place_def by (rule same_layout_calls) (simp_all add: s)
  moreover have "nat (dw_offset_top e) \<le> c"
    using assms(2,3) by simp
  ultimately show "cc_offset1 (cursor_place ds0 e t c) = int c" "ordinary (cursor_place ds0 e t c)"
    "cc_hex_mode (cursor_place ds0 e t c) = 0" "0 \<le> cc_x (cursor_place ds0 e t c)"
    "dw_y_disp e \<le> cc_y (cursor_place ds0 e t c)" "0 \<le> cc_line_num (cursor_place ds0 e t c)"
    using call_of_place [OF s(1) _ assms(4)] by (auto simp: ordinary_def)
qed

lemma get_cursor_pos_place:
  assumes w: "window_ok t e" "arrays_ok ds0" and nums: "\<not> env_line_numbers env"
    and c: "0 \<le> dw_offset_top e" "dw_offset_top e \<le> dw_offset e" "dw_offset e \<le> int (length t)"
    and d: "d = cursor_place ds0 e t (nat (dw_offset e))"
  shows "\<exists>e'. get_cursor_pos env (text_display env) ds0 e m = Some (m\<lparr>offsetc := dw_offset e, xc := cc_x d, yc := cc_y d,
    place := Some (found_place d)\<rparr>, e') \<and> window_ok t e' \<and> redrawn e e'"
proof -
  let ?c = "nat (dw_offset e)"
  define m0 where "m0 = m\<lparr>offsetc := dw_offset e, xc := NO_CURSOR, yc := NO_CURSOR\<rparr>"
  define m1 where "m1 = m\<lparr>offsetc := dw_offset e, xc := cc_x d, yc := cc_y d, place := Some (found_place d)\<rparr>"
  have c': "int ?c = dw_offset e" "?c \<le> length t" "dw_offset_top e \<le> int ?c"
    using c by simp_all
  note df = cursor_place_facts [OF w(1) c(1) c'(3,2) w(2), folded d]
  have hit: "cc_offset1 d \<le> dw_offset e \<and> dw_offset e < cc_offset2 d"
    using df(1,2) c'(1) by (simp add: ordinary_def)
  have "\<exists>s s' f'. display_init env e DISP_CURSOR ds0 = Some s \<and>
      display1 (text_display env) (s\<lparr>cursor := Some (Cursor_func m0)\<rparr>) = Some s' \<and>
      cursor s' = Some f' \<and> f' = Cursor_func m1 \<and> window_ok t (edit_state s') \<and> redrawn e (edit_state s')"
  proof (rule display1_window [OF w nums c(1) c'(3,2), where Q = "\<lambda>f. f = Cursor_func m0" and d = d and g = "\<lambda>s. s"])
    show "\<exists>f'. call_cursor DIR_LTR (dw_height e) e' f = (f', False) \<and> f' = Cursor_func m0"
      if "f = Cursor_func m0" "cc_offset1 e' < int ?c" "ordinary e'" for e' f
      using that c'(1) by (simp add: call_cursor_def cursor_func_def m0_def ordinary_def)
    show "\<exists>f'. call_cursor DIR_LTR (dw_height e) d f = (f', True) \<and> f' = Cursor_func m1" if "f = Cursor_func m0" for f
      using that hit by (simp add: call_cursor_def cursor_func_def m0_def m1_def found_place_def)
    show "fst (call_cursor DIR_LTR (dw_height e) e' f) = Cursor_func m1" if "f = Cursor_func m1" "int ?c < cc_offset1 e'" for e' f
      using that c'(1) by (simp add: call_cursor_def cursor_func_def m1_def)
  qed (simp_all add: d)
  then obtain s s' where s: "display_init env e DISP_CURSOR ds0 = Some s"
    "display1 (text_display env) (s\<lparr>cursor := Some (Cursor_func m0)\<rparr>) = Some s'" "cursor s' = Some (Cursor_func m1)"
    "window_ok t (edit_state s')" "redrawn e (edit_state s')"
    by auto
  have "get_cursor_pos env (text_display env) ds0 e m = Some (m1, edit_state s')"
    unfolding get_cursor_pos_def m0_def [symmetric] by (simp add: s(1-3) Let_def cursor_context_def m0_def [symmetric])
  then show ?thesis
    using s(4,5) m1_def by blast
qed

section \<open>The mouse\<close>

lemma seg_dist_nonneg: "0 \<le> seg_dist x a b"
  by (simp add: seg_dist_def)

lemma seg_dist_0: "a < b \<Longrightarrow> seg_dist x a b = 0 \<longleftrightarrow> a \<le> x \<and> x < b"
  by (auto simp: seg_dist_def)

lemma text_mouse_goto_place:
  assumes w: "window_ok t e" "arrays_ok ds0" and nums: "\<not> env_line_numbers env"
    and c: "0 \<le> dw_offset_top e" "dw_offset_top e \<le> int c" "c \<le> length t"
    and d: "d = cursor_place ds0 e t c"
    and at: "cc_x d \<le> x" "x < cc_x d + cc_w d" "cc_y d \<le> y" "y < cc_y d + cc_h d" "cc_y d < dw_height e"
  shows "\<exists>a e'. text_mouse_goto env (text_display env) ds0 x y e = Some (a, e') \<and> dw_offset e' = int c"
proof -
  define Q where "Q f \<longleftrightarrow> (\<exists>m. f = Mouse_goto_func m \<and> mg_xd m = x \<and> mg_yd m = y \<and> 0 \<le> mg_dy_min m \<and> 0 \<le> mg_dx_min m \<and>
    (mg_dy_min m = 0 \<longrightarrow> 0 < mg_dx_min m))" for f
  define R where "R f \<longleftrightarrow> (\<exists>m. f = Mouse_goto_func m \<and> mg_dy_min m = 0 \<and> mg_dx_min m = 0 \<and> mg_offset_found m = int c \<and>
    mg_hex_mode m = 0)" for f
  note df = cursor_place_facts [OF w(1) c w(2), folded d]
  have dist: "seg_dist y (cc_y d) (cc_y d + cc_h d) = 0" "seg_dist x (cc_x d) (cc_x d + cc_w d) = 0"
    using at df(2) font_height by (simp_all add: seg_dist_0 ordinary_def)
  define m0 where "m0 = \<lparr>mg_yd = y, mg_xd = x, mg_dy_min = 0x3fffffff, mg_dx_min = 0x3fffffff,
    mg_offset_found = dw_offset e, mg_hex_mode = dw_hex_mode e\<rparr>"
  have "\<exists>s s' f'. display_init env e DISP_CURSOR_SCREEN ds0 = Some s \<and>
      display1 (text_display env) ((\<lambda>s. s\<lparr>ds_hex_mode := - 1\<rparr>) s\<lparr>cursor := Some (Mouse_goto_func m0)\<rparr>) = Some s' \<and>
      cursor s' = Some f' \<and> R f' \<and> window_ok t (edit_state s') \<and> redrawn e (edit_state s')"
  proof (rule display1_window [OF w nums c, where Q = Q and d = d])
    show "Q (Mouse_goto_func m0)"
      by (simp add: Q_def m0_def)
    show "\<exists>f'. call_cursor DIR_LTR (dw_height e) e' f = (f', False) \<and> Q f'"
      if q: "Q f" and b: "before e' d" "ordinary e'" for e' f
    proof -
      obtain m where m: "f = Mouse_goto_func m" "mg_xd m = x" "mg_yd m = y" "0 \<le> mg_dy_min m" "0 \<le> mg_dx_min m"
        "mg_dy_min m = 0 \<longrightarrow> 0 < mg_dx_min m"
        using q by (auto simp: Q_def)
      let ?dy = "seg_dist y (cc_y e') (cc_y e' + cc_h e')" and ?dx = "seg_dist x (cc_x e') (cc_x e' + cc_w e')"
      have "\<not> (?dy = 0 \<and> ?dx = 0)"
        using b at font_height by (auto simp: before_def ordinary_def seg_dist_0)
      then show ?thesis
        using m seg_dist_nonneg [of y "cc_y e'" "cc_y e' + cc_h e'"] seg_dist_nonneg [of x "cc_x e'" "cc_x e' + cc_w e'"]
        by (auto simp: call_cursor_def mouse_goto_func_def Q_def Let_def)
    qed
    show "\<exists>f'. call_cursor DIR_LTR (dw_height e) d f = (f', True) \<and> R f'" if q: "Q f" for f
    proof -
      obtain m where m: "f = Mouse_goto_func m" "mg_xd m = x" "mg_yd m = y" "0 \<le> mg_dy_min m" "0 \<le> mg_dx_min m"
        "mg_dy_min m = 0 \<longrightarrow> 0 < mg_dx_min m"
        using q by (auto simp: Q_def)
      then show ?thesis
        using dist df(1,3) by (auto simp: call_cursor_def mouse_goto_func_def R_def Let_def)
    qed
    show "R (fst (call_cursor DIR_LTR (dw_height e) e' f))" if r: "R f" for e' f
    proof -
      obtain m where m: "f = Mouse_goto_func m" "mg_dy_min m = 0" "mg_dx_min m = 0" "mg_offset_found m = int c" "mg_hex_mode m = 0"
        using r by (auto simp: R_def)
      have "\<not> seg_dist (mg_yd m) (cc_y e') (cc_y e' + cc_h e') < 0" "\<not> seg_dist (mg_xd m) (cc_x e') (cc_x e' + cc_w e') < 0"
        using seg_dist_nonneg by (simp_all add: not_less)
      with m show ?thesis
        by (auto simp: call_cursor_def mouse_goto_func_def R_def Let_def)
    qed
  qed (use at d in simp_all)
  then obtain s s' m1 where s: "display_init env e DISP_CURSOR_SCREEN ds0 = Some s"
    "display1 (text_display env) (s\<lparr>ds_hex_mode := - 1, cursor := Some (Mouse_goto_func m0)\<rparr>) = Some s'"
    "cursor s' = Some (Mouse_goto_func m1)" "mg_offset_found m1 = int c"
    by (auto simp: R_def)
  show ?thesis
    unfolding text_mouse_goto_def Let_def m0_def [symmetric] by (simp add: s set_dw_offset_def off_def set_tracked_def)
qed

end

end
