(* ===== verification/Layout_Moves.thy ===== *)
theory Layout_Moves
  imports Layout_Cursor
begin

text \<open>
  Movements of the cursor by lines of the screen. The display calls the callback for all places from the top up to
  the one where it stops, and the closest place in the wanted row is taken.
\<close>

section \<open>Moving up and down\<close>

text \<open>What the callback finds: a closest one of the places in the row.\<close>

definition closest :: "int \<Rightarrow> int \<Rightarrow> CursorCall list \<Rightarrow> CursorCall \<Rightarrow> bool" where
  "closest r x cs d \<longleftrightarrow> d \<in> set cs \<and> cc_line_num d = r \<and> (\<forall>e\<in>set cs. cc_line_num e = r \<longrightarrow> \<bar>cc_x d - x\<bar> \<le> \<bar>cc_x e - x\<bar>)"

lemma run_down:
  fixes m :: MoveContext
  shows "\<exists>m' b'. run base ht cs (Some (Down_cursor_func m), b) = (Some (Down_cursor_func m'), b') \<and>
    mv_yd m' = mv_yd m \<and> mv_xd m' = mv_xd m \<and> (b' \<longrightarrow> b \<or> (\<exists>e\<in>set cs. cc_line_num e > mv_yd m)) \<and>
    (mv_xdmin m' = mv_xdmin m \<and> mv_offsetd m' = mv_offsetd m \<and>
       (\<forall>e\<in>set cs. cc_line_num e = mv_yd m \<longrightarrow> mv_xdmin m \<le> \<bar>cc_x e - mv_xd m\<bar>) \<or>
     (\<exists>d. closest (mv_yd m) (mv_xd m) cs d \<and> mv_xdmin m' = \<bar>cc_x d - mv_xd m\<bar> \<and> mv_offsetd m' = cc_offset1 d \<and>
       \<bar>cc_x d - mv_xd m\<bar> < mv_xdmin m))"
proof (induction cs arbitrary: m b)
  case Nil
  then show ?case
    by (simp add: run_def)
next
  case (Cons c cs)
  define m1 where "m1 = fst (down_cursor_func c m)"
  define b1 where "b1 \<longleftrightarrow> b \<or> snd (down_cursor_func c m)"
  have same: "mv_yd m1 = mv_yd m" "mv_xd m1 = mv_xd m" "snd (down_cursor_func c m) \<longleftrightarrow> cc_line_num c > mv_yd m"
    by (auto simp: m1_def down_cursor_func_def Let_def)
  have step: "run base ht (c # cs) (Some (Down_cursor_func m), b) = run base ht cs (Some (Down_cursor_func m1), b1)"
    by (simp add: run_def call_cursor_def m1_def b1_def map_prod_def case_prod_beta)
  obtain m' b' where m': "run base ht cs (Some (Down_cursor_func m1), b1) = (Some (Down_cursor_func m'), b')"
    "mv_yd m' = mv_yd m" "mv_xd m' = mv_xd m" "b' \<longrightarrow> b1 \<or> (\<exists>e\<in>set cs. cc_line_num e > mv_yd m)"
    "mv_xdmin m' = mv_xdmin m1 \<and> mv_offsetd m' = mv_offsetd m1 \<and>
       (\<forall>e\<in>set cs. cc_line_num e = mv_yd m \<longrightarrow> mv_xdmin m1 \<le> \<bar>cc_x e - mv_xd m\<bar>) \<or>
     (\<exists>d. closest (mv_yd m) (mv_xd m) cs d \<and> mv_xdmin m' = \<bar>cc_x d - mv_xd m\<bar> \<and> mv_offsetd m' = cc_offset1 d \<and>
       \<bar>cc_x d - mv_xd m\<bar> < mv_xdmin m1)"
    using Cons.IH [of m1 b1] same by auto
  have b': "b' \<longrightarrow> b \<or> (\<exists>e\<in>set (c # cs). cc_line_num e > mv_yd m)"
    using m'(4) same(3) by (auto simp: b1_def)
  have m1: "cc_line_num c = mv_yd m \<and> \<bar>cc_x c - mv_xd m\<bar> < mv_xdmin m \<and>
      mv_xdmin m1 = \<bar>cc_x c - mv_xd m\<bar> \<and> mv_offsetd m1 = cc_offset1 c \<or>
    (cc_line_num c = mv_yd m \<longrightarrow> mv_xdmin m \<le> \<bar>cc_x c - mv_xd m\<bar>) \<and> mv_xdmin m1 = mv_xdmin m \<and> mv_offsetd m1 = mv_offsetd m"
    by (auto simp: m1_def down_cursor_func_def Let_def)
  show ?case
    using m'(5) m1
  proof (elim disjE exE conjE)
    assume c: "cc_line_num c = mv_yd m" "\<bar>cc_x c - mv_xd m\<bar> < mv_xdmin m" "mv_xdmin m1 = \<bar>cc_x c - mv_xd m\<bar>"
        "mv_offsetd m1 = cc_offset1 c"
      and "mv_xdmin m' = mv_xdmin m1" "mv_offsetd m' = mv_offsetd m1"
        "\<forall>e\<in>set cs. cc_line_num e = mv_yd m \<longrightarrow> mv_xdmin m1 \<le> \<bar>cc_x e - mv_xd m\<bar>"
    then have "closest (mv_yd m) (mv_xd m) (c # cs) c"
      by (auto simp: closest_def)
    with c m'(1-3) b' \<open>mv_xdmin m' = mv_xdmin m1\<close> \<open>mv_offsetd m' = mv_offsetd m1\<close> show ?thesis
      unfolding step by (intro exI [of _ m'] exI [of _ b']) auto
  next
    assume "cc_line_num c = mv_yd m \<longrightarrow> mv_xdmin m \<le> \<bar>cc_x c - mv_xd m\<bar>" "mv_xdmin m1 = mv_xdmin m"
      "mv_offsetd m1 = mv_offsetd m" "mv_xdmin m' = mv_xdmin m1" "mv_offsetd m' = mv_offsetd m1"
      "\<forall>e\<in>set cs. cc_line_num e = mv_yd m \<longrightarrow> mv_xdmin m1 \<le> \<bar>cc_x e - mv_xd m\<bar>"
    with m'(1-3) b' show ?thesis
      unfolding step by (intro exI [of _ m'] exI [of _ b']) auto
  next
    fix d
    assume "closest (mv_yd m) (mv_xd m) cs d" "mv_xdmin m' = \<bar>cc_x d - mv_xd m\<bar>" "mv_offsetd m' = cc_offset1 d"
      "\<bar>cc_x d - mv_xd m\<bar> < mv_xdmin m1" "cc_line_num c = mv_yd m" "\<bar>cc_x c - mv_xd m\<bar> < mv_xdmin m"
      "mv_xdmin m1 = \<bar>cc_x c - mv_xd m\<bar>" "mv_offsetd m1 = cc_offset1 c"
    moreover from this have "closest (mv_yd m) (mv_xd m) (c # cs) d"
      by (auto simp: closest_def)
    ultimately show ?thesis
      unfolding step using m'(1-3) b' by (intro exI [of _ m'] exI [of _ b']) auto
  next
    fix d
    assume "closest (mv_yd m) (mv_xd m) cs d" "mv_xdmin m' = \<bar>cc_x d - mv_xd m\<bar>" "mv_offsetd m' = cc_offset1 d"
      "\<bar>cc_x d - mv_xd m\<bar> < mv_xdmin m1" "cc_line_num c = mv_yd m \<longrightarrow> mv_xdmin m \<le> \<bar>cc_x c - mv_xd m\<bar>"
      "mv_xdmin m1 = mv_xdmin m" "mv_offsetd m1 = mv_offsetd m"
    moreover from this have "closest (mv_yd m) (mv_xd m) (c # cs) d"
      by (auto simp: closest_def)
    ultimately show ?thesis
      unfolding step using m'(1-3) b' by (intro exI [of _ m'] exI [of _ b']) auto
  qed
qed

context text_driver
begin

section \<open>All places of a display\<close>

lemma call_of_line: "p \<le> c \<Longrightarrow> c \<le> p + length (line_at t p) \<Longrightarrow> call_of s t p n y c = line_end_calls s t p n y ! (c - p)"
  by (simp add: call_of.simps Let_def)

lemma call_of_next:
  "p + length (line_at t p) < c \<Longrightarrow> call_of s t p n y c =
    call_of s t (Suc (p + length (line_at t p))) (n + line_rows s t p) (y + line_rows s t p * (asc + desc)) c"
  by (subst call_of.simps) (simp add: Let_def)

lemma line_end_calls_map:
  "line_end_calls s t p n y = map (call_of s t p n y) [p..<Suc (p + length (line_at t p))]"
  by (rule nth_equalityI) (simp_all add: line_end_calls_length call_of_line del: upt_Suc)

lemma display1_runs:
  assumes "ready t s" "settings s" "p \<le> length t" and nums: "\<not> env_line_numbers env"
  shows "\<exists>s' q k. display1_loop (text_display env) (int p) s = Some s' \<and> ready t s' \<and>
    stepped (map (call_of s t p (ds_line_num s) (ds_y s)) [p..<q]) k s s' \<and> p < q \<and> q \<le> Suc (length t) \<and> 1 \<le> k \<and>
    (q \<le> length t \<longrightarrow> display_ends s' \<and>
      (\<forall>c. q \<le> c \<and> c \<le> length t \<longrightarrow> ds_y s' \<le> cc_y (call_of s t p (ds_line_num s) (ds_y s) c)))"
  using assms(1-3)
proof (induction "length t - p" arbitrary: p s rule: less_induct)
  case less
  let ?q = "p + length (line_at t p)" and ?n = "ds_line_num s" and ?y = "ds_y s"
  obtain s1 where s1: "text_display env s (int p) = Some (after_line t p, s1)" "ready t s1"
    "stepped (map (call_of s t p ?n ?y) [p..<Suc ?q]) (line_rows s t p) s s1"
    using text_display_line [OF less.prems(1,3) nums] unfolding line_end_calls_map by blast
  have q: "?q \<le> length t"
    using less.prems(3) length_takeWhile_le [of "\<lambda>c. c \<noteq> 10" "drop p t"] by simp
  have rows: "1 \<le> line_rows s t p"
    by (rule line_rows_pos [OF less.prems(2)])
  have set1: "settings s1"
    by (rule stepped_settings [OF s1(3,2) less.prems(2)])
  have pos: "ds_line_num s1 = ?n + line_rows s t p" "ds_y s1 = ?y + line_rows s t p * (asc + desc)"
    using s1(3) by (simp_all add: stepped_def)
  have later: "call_of s t p ?n ?y c = call_of s1 t (Suc ?q) (ds_line_num s1) (ds_y s1) c" if "Suc ?q \<le> c" for c
    using call_of_next [of p t c s ?n ?y] that stepped_calls(3) [OF s1(3)] by (simp add: pos)
  show ?case
  proof (cases "?q = length t")
    case True
    then have "display1_loop (text_display env) (int p) s = Some s1"
      using s1(1) by (subst display1_loop.simps) (simp add: after_line_def)
    then show ?thesis
      using s1(2,3) True rows by (intro exI [of _ s1] exI [of _ "Suc ?q"] exI [of _ "line_rows s t p"]) simp
  next
    case False
    then have al: "after_line t p = int (Suc ?q)" and lt: "Suc ?q \<le> length t"
      using q by (simp_all add: after_line_def Let_def)
    show ?thesis
    proof (cases "display_ends s1")
      case True
      then have "display1_loop (text_display env) (int p) s = Some s1"
        using s1(1) by (subst display1_loop.simps) simp
      moreover have "ds_y s1 \<le> cc_y (call_of s t p ?n ?y c)" if "Suc ?q \<le> c" "c \<le> length t" for c
        using call_of_place [OF set1 that] later [OF that(1)] by simp
      ultimately show ?thesis
        using s1(2,3) True rows lt by (intro exI [of _ s1] exI [of _ "Suc ?q"] exI [of _ "line_rows s t p"]) auto
    next
      case False
      then have step: "display1_loop (text_display env) (int p) s = display1_loop (text_display env) (int (Suc ?q)) s1"
        using s1(1) al by (subst display1_loop.simps) simp
      have "length t - Suc ?q < length t - p"
        using lt by simp
      from less.hyps [OF this s1(2) set1 lt] obtain s' q' k where s':
        "display1_loop (text_display env) (int (Suc ?q)) s1 = Some s'" "ready t s'"
        "stepped (map (call_of s1 t (Suc ?q) (ds_line_num s1) (ds_y s1)) [Suc ?q..<q']) k s1 s'" "Suc ?q < q'" "q' \<le> Suc (length t)"
        "1 \<le> k" "q' \<le> length t \<longrightarrow> display_ends s' \<and>
          (\<forall>c. q' \<le> c \<and> c \<le> length t \<longrightarrow> ds_y s' \<le> cc_y (call_of s1 t (Suc ?q) (ds_line_num s1) (ds_y s1) c))"
        by blast
      have "map (call_of s1 t (Suc ?q) (ds_line_num s1) (ds_y s1)) [Suc ?q..<q'] = map (call_of s t p ?n ?y) [Suc ?q..<q']"
        using later by simp
      moreover have "[p..<Suc ?q] @ [Suc ?q..<q'] = [p..<q']"
        using upt_add_eq_append [of p "Suc ?q" "q' - Suc ?q"] s'(4) by simp
      ultimately have "stepped (map (call_of s t p ?n ?y) [p..<q']) (line_rows s t p + k) s s'"
        using stepped_trans [OF s1(3) s'(3)] by (metis map_append)
      moreover have "ds_y s' \<le> cc_y (call_of s t p ?n ?y c)" if "q' \<le> c" "c \<le> length t" "q' \<le> length t" for c
        using s'(4,7) that later [of c] by auto
      ultimately show ?thesis
        using step s'(1,2,4-7) rows
        by (intro exI [of _ s'] exI [of _ q'] exI [of _ "line_rows s t p + k"]) auto
    qed
  qed
qed

lemma call_of_sorted:
  assumes "settings s" "p \<le> c" "c < c'" "c' \<le> length t"
  shows "before (call_of s t p n y c) (call_of s t p n y c')"
  using assms(2-4)
proof (induction "length t - p" arbitrary: p n y rule: less_induct)
  case less
  let ?q = "p + length (line_at t p)"
  consider (here) "c' \<le> ?q" | (between) "c \<le> ?q" "?q < c'" | (below) "?q < c"
    by linarith
  then show ?case
  proof cases
    case here
    then show ?thesis
      using sorted_wrt_nth_less [OF line_end_calls_sorted [OF assms(1), of t p n y], of "c - p" "c' - p"] less.prems
      by (simp add: call_of_line line_end_calls_length)
  next
    case between
    have "call_of s t p n y c \<in> set (line_end_calls s t p n y)"
      using between less.prems unfolding line_end_calls_map by (auto simp del: upt_Suc)
    note e = line_end_calls_elem(2,9) [OF assms(1) this]
    have "cc_y (call_of s t p n y c') \<ge> y + line_rows s t p * (asc + desc)"
      using call_of_place [OF assms(1), of "Suc ?q" c' t] between less.prems unfolding call_of_next [OF between(2)] by simp
    with e show ?thesis
      by (simp add: before_def)
  next
    case below
    then have "length t - Suc ?q < length t - p" "Suc ?q \<le> c"
      using less.prems by simp_all
    from less.hyps [OF this less.prems(2,3)] show ?thesis
      using below less.prems by (simp add: call_of_next)
  qed
qed

lemma call_of_row:
  assumes "settings s" "p \<le> c" "c \<le> length t"
  shows "cc_y (call_of s t p n y c) = y + (cc_line_num (call_of s t p n y c) - n) * (asc + desc)"
  using assms(2,3)
proof (induction "length t - p" arbitrary: p n y rule: less_induct)
  case less
  let ?q = "p + length (line_at t p)"
  show ?case
  proof (cases "c \<le> ?q")
    case True
    then have "call_of s t p n y c \<in> set (line_end_calls s t p n y)"
      using less.prems unfolding line_end_calls_map by (auto simp del: upt_Suc)
    then show ?thesis
      using line_end_calls_elem(7) [OF assms(1)] by simp
  next
    case False
    then have "length t - Suc ?q < length t - p" "Suc ?q \<le> c"
      using less.prems by simp_all
    from less.hyps [OF this less.prems(2), of "n + line_rows s t p" "y + line_rows s t p * (asc + desc)"] show ?thesis
      using False by (simp add: call_of_next algebra_simps)
  qed
qed

lemma call_of_row_mono:
  assumes "settings s" "p \<le> c" "c \<le> c'" "c' \<le> length t"
  shows "cc_line_num (call_of s t p n y c) \<le> cc_line_num (call_of s t p n y c')"
proof (cases "c = c'")
  case False
  let ?d = "call_of s t p n y c" and ?d' = "call_of s t p n y c'"
  have "before ?d ?d'"
    using call_of_sorted [OF assms(1,2) _ assms(4)] False assms(3) by simp
  moreover have "cc_h ?d = asc + desc"
    using call_of_place [OF assms(1,2)] assms(3,4) by simp
  ultimately have "cc_y ?d \<le> cc_y ?d'"
    using font_height by (auto simp: before_def)
  moreover have "cc_y ?d = y + (cc_line_num ?d - n) * (asc + desc)" "cc_y ?d' = y + (cc_line_num ?d' - n) * (asc + desc)"
    using assms by (intro call_of_row; simp)+
  ultimately have "(cc_line_num ?d - n) * (asc + desc) \<le> (cc_line_num ?d' - n) * (asc + desc)"
    by simp
  then show ?thesis
    using font_height(3) by (simp add: mult_le_cancel_right)
qed simp

section \<open>The movement\<close>

lemma call_of_within:
  assumes "settings s" "p \<le> c" "c \<le> length t"
  shows "cc_x (call_of s t p n y c) \<le> ds_width s"
  using assms(2,3)
proof (induction "length t - p" arbitrary: p n y rule: less_induct)
  case less
  let ?q = "p + length (line_at t p)"
  show ?case
  proof (cases "c \<le> ?q")
    case True
    then have "call_of s t p n y c \<in> set (line_end_calls s t p n y)"
      using less.prems unfolding line_end_calls_map by (auto simp del: upt_Suc)
    then show ?thesis
      by (rule line_end_calls_within [OF assms(1)])
  next
    case False
    then have "length t - Suc ?q < length t - p" "Suc ?q \<le> c"
      using less.prems by simp_all
    from less.hyps [OF this less.prems(2)] False show ?thesis
      by (simp add: call_of_next)
  qed
qed

lemma reads_offset: "reads (dw_b e) b \<Longrightarrow> dw_offset (set_dw_b b e) = dw_offset e" "reads (dw_b e) b \<Longrightarrow> dw_offset_top (set_dw_b b e) = dw_offset_top e"
  by (simp_all add: reads_def off_def dw_offset_top_def set_dw_b_def)

lemma redrawn_fields:
  assumes "redrawn e e'"
  shows "dw_offset e' = dw_offset e" "dw_offset_top e' = dw_offset_top e" "dw_y_disp e' = dw_y_disp e" "dw_width e' = dw_width e"
    "dw_height e' = dw_height e" "dw_tab_size e' = dw_tab_size e" "dw_show_tabs e' = dw_show_tabs e" "dw_wrap e' = dw_wrap e"
    "dw_xleft e' = dw_xleft e" "dw_ytop e' = dw_ytop e" "dw_x_disp e' = dw_x_disp e"
    "cursor_place ds0 e' t c = cursor_place ds0 e t c"
proof -
  obtain sh where e': "reads (dw_b e) (dw_b e')" "e' = (set_dw_b (dw_b e') e)\<lparr>dw_line_shadow := sh\<rparr>"
    using assms unfolding redrawn_def by blast
  have "dw_s e' = dw_s (set_dw_b (dw_b e') e)"
    using arg_cong [OF e'(2), of dw_s] by simp
  with reads_offset [OF e'(1)] show o: "dw_offset e' = dw_offset e" "dw_offset_top e' = dw_offset_top e"
    by (simp_all add: off_def dw_offset_top_def)
  from e'(2) obtain b where e: "e' = (set_dw_b b e)\<lparr>dw_line_shadow := sh\<rparr>"
    by blast
  show f: "dw_y_disp e' = dw_y_disp e" "dw_width e' = dw_width e" "dw_height e' = dw_height e" "dw_tab_size e' = dw_tab_size e"
    "dw_show_tabs e' = dw_show_tabs e" "dw_wrap e' = dw_wrap e" "dw_xleft e' = dw_xleft e" "dw_ytop e' = dw_ytop e"
    "dw_x_disp e' = dw_x_disp e"
    by (simp_all add: e) (simp_all add: set_dw_b_def)
  show "cursor_place ds0 e' t c = cursor_place ds0 e t c"
    unfolding cursor_place_def o f by (rule same_layout_calls) (simp_all add: f)
qed

text \<open>The places of a window, from its top on.\<close>

definition row_of :: "DisplayState \<Rightarrow> DisplayWindow \<Rightarrow> u8 list \<Rightarrow> int \<Rightarrow> nat set" where
  "row_of ds0 e t r = {c. nat (dw_offset_top e) \<le> c \<and> c \<le> length t \<and> cc_line_num (cursor_place ds0 e t c) = r}"

lemma down_in_window:
  assumes w: "window_ok t e" "arrays_ok ds0" and nums: "\<not> env_line_numbers env"
    and top: "0 \<le> dw_offset_top e" "dw_offset_top e \<le> int (length t)"
    and m: "\<bar>mv_xd m\<bar> \<le> 1000000" "mv_xdmin m = 0x7fffffff"
  shows "\<exists>s s' m'. display_init env e DISP_CURSOR ds0 = Some s \<and>
    display1 (text_display env) (s\<lparr>cursor := Some (Down_cursor_func m)\<rparr>) = Some s' \<and> cursor s' = Some (Down_cursor_func m') \<and>
    redrawn e (edit_state s') \<and>
    (row_of ds0 e t (mv_yd m) = {} \<and> mv_offsetd m' = mv_offsetd m \<or>
     (\<exists>c\<in>row_of ds0 e t (mv_yd m). mv_offsetd m' = int c \<and> (\<forall>c'\<in>row_of ds0 e t (mv_yd m).
        \<bar>cc_x (cursor_place ds0 e t c) - mv_xd m\<bar> \<le> \<bar>cc_x (cursor_place ds0 e t c') - mv_xd m\<bar>)))"
proof -
  let ?P = "cursor_place ds0 e t" and ?p = "nat (dw_offset_top e)"
  obtain s where s: "display_init env e DISP_CURSOR ds0 = Some s" "ready t s" "settings s" "do_disp s = DISP_CURSOR" "ds_y s = dw_y_disp e"
    "ds_line_num s = 0" "edit_state s = e" "ds_width s = dw_width e - eol_glyph"
    "ds_tab_width s = gw 32 * dw_tab_size e" "eol_width s = eol_glyph"
    using display_init_ready [OF w] by blast
  let ?s = "s\<lparr>cursor := Some (Down_cursor_func m), eod := False\<rparr>"
  have "call_of ?s t ?p 0 (dw_y_disp e) c = ?P c" for c
    unfolding cursor_place_def by (rule same_layout_calls) (simp_all add: s)
  then have P: "call_of ?s t ?p (ds_line_num ?s) (ds_y ?s) = ?P"
    using s(5,6) by auto
  have set: "settings ?s" "ready t ?s" "?p \<le> length t"
    using s top by simp_all
  obtain s' q k where s': "display1_loop (text_display env) (int ?p) ?s = Some s'" "stepped (map ?P [?p..<q]) k ?s s'" "?p < q"
    "q \<le> Suc (length t)" "q \<le> length t \<longrightarrow> display_ends s'"
    using display1_runs [OF set(2,1,3) nums] unfolding P by blast
  have "cursor s' = fst (run DIR_LTR (ds_height s) (map ?P [?p..<q]) (Some (Down_cursor_func m), False))"
    "eod s' = snd (run DIR_LTR (ds_height s) (map ?P [?p..<q]) (Some (Down_cursor_func m), False))" "do_disp s' = DISP_CURSOR"
    using s'(2) s(4) by (auto simp: stepped_def prod_eq_iff)
  moreover obtain m' b' where m1: "run DIR_LTR (ds_height s) (map ?P [?p..<q]) (Some (Down_cursor_func m), False) =
      (Some (Down_cursor_func m'), b')" "b' \<longrightarrow> (\<exists>e\<in>set (map ?P [?p..<q]). cc_line_num e > mv_yd m)"
    "mv_offsetd m' = mv_offsetd m \<and> (\<forall>e\<in>set (map ?P [?p..<q]). cc_line_num e = mv_yd m \<longrightarrow> mv_xdmin m \<le> \<bar>cc_x e - mv_xd m\<bar>) \<or>
     (\<exists>d. closest (mv_yd m) (mv_xd m) (map ?P [?p..<q]) d \<and> mv_offsetd m' = cc_offset1 d)"
    using run_down [of DIR_LTR "ds_height s" "map ?P [?p..<q]" m False] by metis
  ultimately have m': "cursor s' = Some (Down_cursor_func m')" "eod s' \<longrightarrow> (\<exists>e\<in>set (map ?P [?p..<q]). cc_line_num e > mv_yd m)"
    "display_ends s' = eod s'"
    by (simp_all add: display_ends_def)
  have x: "\<bar>cc_x (?P c) - mv_xd m\<bar> < 0x7fffffff" if "?p \<le> c" "c \<le> length t" for c
  proof -
    have "dw_width e - eol_glyph \<le> 128" "0 \<le> dw_width e - eol_glyph"
      using w(1) by (simp_all add: window_ok_def)
    moreover have "cc_x (?P c) \<le> dw_width e - eol_glyph" "0 \<le> cc_x (?P c)"
      using call_of_within [OF set(1) that, of "ds_line_num ?s" "ds_y ?s"]
        call_of_place [OF set(1) that, where n = "ds_line_num ?s" and y = "ds_y ?s"] s(8) unfolding P by simp_all
    ultimately show ?thesis
      using m(1) by linarith
  qed
  have early: "c < q" if "?p \<le> c" "c \<le> length t" "cc_line_num (?P c) \<le> mv_yd m" for c
  proof (rule ccontr)
    assume "\<not> c < q"
    then have "eod s'"
      using s'(5) m'(3) that by simp
    then obtain c' where c': "?p \<le> c'" "c' < q" "cc_line_num (?P c') > mv_yd m"
      using m'(2) by auto
    then have "cc_line_num (?P c') \<le> cc_line_num (?P c)"
      using call_of_row_mono [OF set(1) c'(1), of c t "ds_line_num ?s" "ds_y ?s"] that \<open>\<not> c < q\<close> unfolding P by simp
    with c'(3) that(3) show False
      by simp
  qed
  have row: "row_of ds0 e t (mv_yd m) = {c. ?p \<le> c \<and> c < q \<and> cc_line_num (?P c) = mv_yd m}"
    using early s'(4) by (auto simp: row_of_def)
  have off: "cc_offset1 (?P c) = int c" if "?p \<le> c" "c < q" for c
    using cursor_place_facts(1) [OF w(1) top(1) _ _ w(2), of c] that s'(4) by simp
  have "row_of ds0 e t (mv_yd m) = {} \<and> mv_offsetd m' = mv_offsetd m \<or>
     (\<exists>c\<in>row_of ds0 e t (mv_yd m). mv_offsetd m' = int c \<and> (\<forall>c'\<in>row_of ds0 e t (mv_yd m).
        \<bar>cc_x (?P c) - mv_xd m\<bar> \<le> \<bar>cc_x (?P c') - mv_xd m\<bar>))"
    using m1(3)
  proof
    assume none: "mv_offsetd m' = mv_offsetd m \<and> (\<forall>e\<in>set (map ?P [?p..<q]). cc_line_num e = mv_yd m \<longrightarrow> mv_xdmin m \<le> \<bar>cc_x e - mv_xd m\<bar>)"
    have "row_of ds0 e t (mv_yd m) = {}"
      unfolding row using none x m(2) s'(4) by fastforce
    with none show ?thesis
      by simp
  next
    assume "\<exists>d. closest (mv_yd m) (mv_xd m) (map ?P [?p..<q]) d \<and> mv_offsetd m' = cc_offset1 d"
    then obtain c where "?p \<le> c" "c < q" "closest (mv_yd m) (mv_xd m) (map ?P [?p..<q]) (?P c)" "mv_offsetd m' = cc_offset1 (?P c)"
      by (auto simp: closest_def)
    then show ?thesis
      unfolding row using off by (auto simp: closest_def)
  qed
  moreover have "redrawn e (edit_state s')"
    using s'(2) s(7) by (auto simp: redrawn_def stepped_def)
  moreover have "display1 (text_display env) (s\<lparr>cursor := Some (Down_cursor_func m)\<rparr>) = Some s'"
    using s'(1) top(1) unfolding display1_def by (simp add: s(7))
  ultimately show ?thesis
    using s(1) m'(1) by blast
qed

lemma text_move_up_down_places:
  assumes w: "window_ok t e" "arrays_ok ds0" and nums: "\<not> env_line_numbers env"
    and c: "0 \<le> dw_offset_top e" "dw_offset_top e \<le> dw_offset e" "dw_offset e \<le> int (length t)"
    and d: "d = cursor_place ds0 e t (nat (dw_offset e))" and dir: "dir = 1 \<or> dir = - 1 \<and> 0 < cc_line_num d"
    and x: "x = (if again \<and> last_x \<noteq> - 1 then last_x else cc_x d)" "\<bar>last_x\<bar> \<le> 1000000"
  shows "\<exists>e'. text_move_up_down env (text_display env) back ds0 again last_x cm dir e = Some (x, e') \<and>
    (row_of ds0 e t (cc_line_num d + dir) = {} \<and> dw_offset e' = (if dir = 1 then int (length t) else 0) \<or>
     (\<exists>c\<in>row_of ds0 e t (cc_line_num d + dir). dw_offset e' = int c \<and> (\<forall>c'\<in>row_of ds0 e t (cc_line_num d + dir).
        \<bar>cc_x (cursor_place ds0 e t c) - x\<bar> \<le> \<bar>cc_x (cursor_place ds0 e t c') - x\<bar>)))"
proof -
  obtain e1 where e1: "get_cursor_pos env (text_display env) ds0 e cm = Some (cm\<lparr>offsetc := dw_offset e, xc := cc_x d, yc := cc_y d,
    place := Some (found_place d)\<rparr>, e1)" "window_ok t e1" "redrawn e e1"
    using get_cursor_pos_place [OF w nums c d] by blast
  note same = redrawn_fields [OF e1(3)]
  have rows: "row_of ds0 e1 t r = row_of ds0 e t r" for r
    by (simp add: row_of_def same)
  have c': "dw_offset_top e \<le> int (nat (dw_offset e))" "nat (dw_offset e) \<le> length t" "dw_offset_top e \<le> int (length t)"
    using c by simp_all
  note df = cursor_place_facts [OF w(1) c(1) c'(1,2) w(2), folded d]
  obtain s where s: "settings s" "ds_width s = dw_width e - eol_glyph" "edit_state s = e" "ds_tab_width s = gw 32 * dw_tab_size e" "eol_width s = eol_glyph"
    using display_init_ready [OF w] by blast
  have "d = call_of s t (nat (dw_offset_top e)) 0 (dw_y_disp e) (nat (dw_offset e))"
    unfolding d cursor_place_def by (rule same_layout_calls) (simp_all add: s)
  with call_of_within [OF s(1), of "nat (dw_offset_top e)" "nat (dw_offset e)" t 0 "dw_y_disp e"] c'
  have "cc_x d \<le> dw_width e - eol_glyph"
    using c(2) s(2) by (simp add: nat_mono)
  then have xd: "cc_x d \<noteq> NO_CURSOR" "\<bar>x\<bar> \<le> 1000000" "0 \<le> cc_x d"
    using w(1) df(4) x by (auto simp: window_ok_def NO_CURSOR_def)
  define m where "m = \<lparr>mv_yd = cc_line_num d + dir, mv_xd = x, mv_xdmin = 0x7fffffff,
    mv_offsetd = (if dir > 0 then int (total_size (dw_b e1)) else 0)\<rparr>"
  have size: "total_size (dw_b e1) = length t"
    using e1(2) byte_textD(3) by (simp add: window_ok_def)
  obtain s1 s2 m' where s2: "display_init env e1 DISP_CURSOR ds0 = Some s1"
    "display1 (text_display env) (s1\<lparr>cursor := Some (Down_cursor_func m)\<rparr>) = Some s2" "cursor s2 = Some (Down_cursor_func m')"
    "row_of ds0 e1 t (mv_yd m) = {} \<and> mv_offsetd m' = mv_offsetd m \<or>
     (\<exists>c\<in>row_of ds0 e1 t (mv_yd m). mv_offsetd m' = int c \<and> (\<forall>c'\<in>row_of ds0 e1 t (mv_yd m).
        \<bar>cc_x (cursor_place ds0 e1 t c) - mv_xd m\<bar> \<le> \<bar>cc_x (cursor_place ds0 e1 t c') - mv_xd m\<bar>))"
    using down_in_window [OF e1(2) w(2) nums, of m] c(1) c'(3) xd(2) by (auto simp: same m_def)
  have no_scroll: "(if dir < 0 then scroll_back env (text_display env) back ds0 e1 (cm\<lparr>offsetc := dw_offset e, xc := cc_x d, yc := cc_y d,
      place := Some (found_place d)\<rparr>) else Some (Some (cm\<lparr>offsetc := dw_offset e, xc := cc_x d, yc := cc_y d,
      place := Some (found_place d)\<rparr>), e1)) = Some (Some (cm\<lparr>offsetc := dw_offset e, xc := cc_x d, yc := cc_y d,
      place := Some (found_place d)\<rparr>), e1)"
    using dir by (subst scroll_back.simps) (auto simp: found_place_def)
  have lx: "(if (if \<not> again then - 1 else last_x) = - 1 then cc_x d else (if \<not> again then - 1 else last_x)) = x"
    using x by auto
  have "text_move_up_down env (text_display env) back ds0 again last_x cm dir e = Some (x, set_dw_offset (mv_offsetd m') (edit_state s2))"
    unfolding text_move_up_down_def Let_def e1(1) bind.bind_lunit prod.case
    using xd(1) s2(1-3) no_scroll lx by (simp add: found_place_def m_def cong: if_cong)
  moreover have "dw_offset (set_dw_offset v e') = v" for v e'
    by (simp add: set_dw_offset_def off_def set_tracked_def)
  ultimately show ?thesis
    using s2(4) dir unfolding rows same(12) by (auto simp: m_def size)
qed

end

end
