(* ===== verification/Layout_Screen.thy ===== *)
theory Layout_Screen
  imports Layout_Moves Compile_Errors Indent_Theorems
begin

text \<open>
  The display of a window: whatever part of the text was shown, afterwards the cursor is on the screen.
\<close>

section \<open>Beginnings of lines\<close>

lemma line_start_bol:
  assumes "p \<le> length t"
  shows "line_start (fst (line_col (take p t))) t = bol t p"
proof -
  obtain ls where ls: "whole_lines ls" "t = join ls"
    using whole_lines_ex by blast
  then obtain k c where kc: "k < length ls" "c \<le> length (ls ! k)" "p = line_start k t + c"
    using join_position assms by blast
  have "line_col (take p t) = (k, c)"
    using join_line(3) [OF ls(1) kc(1,2)] kc(3) ls(2) by simp
  moreover have "bol t p = p - snd (line_col (take p t))"
    by (simp add: bol_def scan_back_def line_col_def)
  ultimately show ?thesis
    using kc(3) by simp
qed

text \<open>The line that begins there ends at the offset it was looked for from, or behind it.\<close>

lemma bol_line:
  assumes "p \<le> length t"
  shows "p \<le> bol t p + length (takeWhile (\<lambda>c. c \<noteq> 10) (drop (bol t p) t))"
proof (rule ccontr)
  let ?l = "takeWhile (\<lambda>c. c \<noteq> 10) (drop (bol t p) t)"
  assume "\<not> p \<le> bol t p + length ?l"
  then have lt: "bol t p + length ?l < p"
    by simp
  then have "length ?l < length (drop (bol t p) t)"
    using assms by simp
  then have "drop (bol t p) t ! length ?l = 10"
    using nth_length_takeWhile [of "\<lambda>c. c \<noteq> 10" "drop (bol t p) t"] by blast
  then have "t ! (bol t p + length ?l) = 10"
    using assms lt by simp
  then show False
    using bol_between [OF assms, of "Suc (bol t p + length ?l)"] lt by simp
qed

lemma line_before:
  assumes "0 < q" "q \<le> length t" "t ! (q - 1) = 10"
  shows "bol t (q - 1) + length (takeWhile (\<lambda>c. c \<noteq> 10) (drop (bol t (q - 1)) t)) = q - 1"
proof -
  let ?p = "q - 1" and ?b = "bol t (q - 1)"
  have "?p \<le> length t" "?b \<le> ?p"
    using assms bol_le by simp_all
  have "length (takeWhile (\<lambda>c. c \<noteq> 10) (drop ?b t)) \<le> ?p - ?b"
  proof (rule ccontr)
    let ?l = "takeWhile (\<lambda>c. c \<noteq> 10) (drop ?b t)"
    assume "\<not> length ?l \<le> ?p - ?b"
    then have lt: "?p - ?b < length ?l"
      by simp
    then have "?l ! (?p - ?b) \<noteq> 10"
      using set_takeWhileD [OF nth_mem [OF lt]] by simp
    moreover have "?l ! (?p - ?b) = t ! ?p"
      using takeWhile_nth [OF lt] \<open>?b \<le> ?p\<close> assms(1,2) by simp
    ultimately show False
      using assms(3) by simp
  qed
  then show ?thesis
    using bol_line [OF \<open>?p \<le> length t\<close>] \<open>?b \<le> ?p\<close> by linarith
qed

context text_driver
begin

lemma text_backward_offset_bol:
  assumes "byte_text (dw_b e) t" "p \<le> length t"
  shows "\<exists>b. text_backward_offset env e (int p) = Some (int (bol t p), set_dw_b b e) \<and> byte_text b t \<and> reads (dw_b e) b"
proof -
  obtain b1 where b1: "eb_get_pos (dw_b e) p = (line_col (take p t), b1)" "byte_text b1 t" "kept (dw_b e) b1" "tracked b1 = tracked (dw_b e)"
    using byte_text_get_pos [OF assms] by blast
  obtain l c where lc: "line_col (take p t) = (l, c)"
    by fastforce
  obtain b2 where b2: "eb_goto_pos b1 (env_junk env) l 0 = Some (int (line_start l t), b2)" "byte_text b2 t" "kept b1 b2"
    "tracked b2 = tracked b1"
    using byte_text_goto_line [OF b1(2)] by blast
  have "line_start l t = bol t p"
    using line_start_bol [OF assms(2)] lc by simp
  then show ?thesis
    using b1 b2 lc kept_trans [OF b1(3) b2(3)] by (intro exI [of _ b2]) (simp add: text_backward_offset_def reads_def)
qed

section \<open>Windows that are scrolled\<close>

definition same_view :: "u8 list \<Rightarrow> DisplayWindow \<Rightarrow> DisplayWindow \<Rightarrow> bool" where
  "same_view t e e' \<longleftrightarrow> window_ok t e' \<and> dw_offset e' = dw_offset e \<and> dw_width e' = dw_width e \<and> dw_height e' = dw_height e \<and>
     dw_tab_size e' = dw_tab_size e \<and> dw_show_tabs e' = dw_show_tabs e \<and> dw_xleft e' = dw_xleft e \<and> dw_ytop e' = dw_ytop e"

lemma same_view_trans: "same_view t e e1 \<Longrightarrow> same_view t e1 e2 \<Longrightarrow> same_view t e e2"
  by (simp add: same_view_def)

lemma window_ok_redrawn:
  assumes "window_ok t e" "redrawn e e'" "byte_text (dw_b e') t"
  shows "window_ok t e'"
proof -
  obtain b sh where e': "e' = (set_dw_b b e)\<lparr>dw_line_shadow := sh\<rparr>"
    using assms(2) unfolding redrawn_def by blast
  show ?thesis
    using assms(1,3) by (simp add: e' window_ok_def text_window_def)
qed

lemma same_view_redrawn: "window_ok t e \<Longrightarrow> redrawn e e' \<Longrightarrow> byte_text (dw_b e') t \<Longrightarrow> same_view t e e'"
  using redrawn_fields window_ok_redrawn by (simp add: same_view_def)

lemma redrawn_buffer: "reads (dw_b e) b \<Longrightarrow> redrawn e (set_dw_b b e)"
  unfolding redrawn_def by (intro conjI exI [of _ "dw_line_shadow e"]) (simp_all add: set_dw_b_def)

text \<open>The top of the display is set.\<close>

definition scroll_to :: "int \<Rightarrow> int \<Rightarrow> DisplayWindow \<Rightarrow> DisplayWindow" where
  "scroll_to p y e = (set_dw_offset_top p e)\<lparr>dw_y_disp := y\<rparr>"

lemma scroll_to_fields [simp]:
  "dw_offset_top (scroll_to p y e) = p" "dw_y_disp (scroll_to p y e) = y" "dw_offset (scroll_to p y e) = dw_offset e"
  "dw_width (scroll_to p y e) = dw_width e" "dw_height (scroll_to p y e) = dw_height e" "dw_tab_size (scroll_to p y e) = dw_tab_size e"
  "dw_show_tabs (scroll_to p y e) = dw_show_tabs e" "dw_xleft (scroll_to p y e) = dw_xleft e" "dw_ytop (scroll_to p y e) = dw_ytop e"
  "byte_text (dw_b (scroll_to p y e)) t = byte_text (dw_b e) t" "text_window (scroll_to p y e) = text_window e"
  "dw_default_style (scroll_to p y e) = dw_default_style e" "dw_wrap (scroll_to p y e) = dw_wrap e"
  "dw_line_shadow (scroll_to p y e) = dw_line_shadow e"
  by (simp_all add: scroll_to_def set_dw_offset_top_def set_tracked_def dw_offset_top_def off_def OFFSET_def OFFSET_TOP_def text_window_def)

lemma window_ok_scroll [simp]: "window_ok t (scroll_to p y e) = window_ok t e"
  by (simp add: window_ok_def)

lemma same_view_scroll: "window_ok t e \<Longrightarrow> same_view t e (scroll_to p y e)"
  by (simp add: same_view_def)

lemma ready_scroll: "ready t s \<Longrightarrow> ready t (s\<lparr>edit_state := scroll_to p y (edit_state s)\<rparr>)"
proof -
  have "get_style env (scroll_to p y e) = get_style env e" for e
    by (rule ext) (simp add: get_style_def cong: if_cong)
  then show "ready t s \<Longrightarrow> ready t (s\<lparr>edit_state := scroll_to p y (edit_state s)\<rparr>)"
    by (simp add: ready_def wrapped_def print_ok_def text_styles_def arrays_ok_def)
qed

lemma settings_edit [simp]: "dw_default_style e = dw_default_style (edit_state s) \<Longrightarrow> settings (s\<lparr>edit_state := e\<rparr>) = settings s"
  by (simp add: settings_def wrapped_def)

section \<open>Places of a display that is moved\<close>

definition shift :: "int \<Rightarrow> int \<Rightarrow> CursorCall \<Rightarrow> CursorCall" where
  "shift dn dy c = c\<lparr>cc_line_num := cc_line_num c + dn, cc_y := cc_y c + dy\<rparr>"

lemma line_end_calls_shift: "line_end_calls s t p (n + dn) (y + dy) = map (shift dn dy) (line_end_calls s t p n y)"
proof -
  have one: "place_calls (n + dn + r) (y + dy + z) h x c = map (shift dn dy) (place_calls (n + r) (y + z) h x c)" for r z h x c
    by (cases c) (simp add: place_calls_def shift_def)
  have "lay_calls (n + dn) (y + dy) h l = map (shift dn dy) (lay_calls n y h l)" for h l
    by (induction l) (auto simp: lay_calls_def one)
  then show ?thesis
    by (simp add: line_end_calls_def end_calls_def Let_def one split: prod.split)
qed

lemma call_of_shift:
  assumes "p \<le> c" "c \<le> length t"
  shows "call_of s t p (n + dn) (y + dy) c = shift dn dy (call_of s t p n y c)"
  using assms
proof (induction "length t - p" arbitrary: p n y rule: less_induct)
  case less
  let ?q = "p + length (line_at t p)"
  show ?case
  proof (cases "c \<le> ?q")
    case True
    then show ?thesis
      using less.prems by (simp add: call_of_line line_end_calls_shift line_end_calls_length)
  next
    case False
    then have "length t - Suc ?q < length t - p" "Suc ?q \<le> c"
      using less.prems by simp_all
    from less.hyps [OF this less.prems(2), of "n + line_rows s t p" "y + line_rows s t p * (asc + desc)"] show ?thesis
      using False by (simp add: call_of_next ac_simps)
  qed
qed

text \<open>The place of \<open>c\<close> in a display from \<open>p\<close> on at height \<open>y\<close>.\<close>

definition height_at :: "DisplayState \<Rightarrow> u8 list \<Rightarrow> nat \<Rightarrow> int \<Rightarrow> nat \<Rightarrow> int" where
  "height_at s t p y c = cc_y (call_of s t p 0 y c)"

lemma height_at_any:
  assumes "p \<le> c" "c \<le> length t"
  shows "cc_y (call_of s t p n y c) = height_at s t p y c" "height_at s t p (y + z) c = height_at s t p y c + z"
  using call_of_shift [OF assms, of s 0 n y 0] call_of_shift [OF assms, of s 0 0 y z] by (simp_all add: height_at_def shift_def)

lemma height_at_next:
  assumes "p + length (line_at t p) < c" "c \<le> length t"
  shows "height_at s t p y c = height_at s t (Suc (p + length (line_at t p))) (y + line_rows s t p * (asc + desc)) c"
  using height_at_any(1) [of "Suc (p + length (line_at t p))" c t] assms by (simp add: height_at_def call_of_next)

section \<open>The loop that looks for the cursor\<close>

lemma run_cursor_passes:
  assumes "\<forall>e\<in>set cs. cc_offset2 e \<le> offsetc m \<or> offsetc m < cc_offset1 e"
  shows "run base ht cs (Some (Cursor_func m), b) = (Some (Cursor_func m), b)"
  using assms
proof (induction cs)
  case (Cons c cs)
  then have "call_cursor base ht c (Cursor_func m) = (Cursor_func m, False)"
    by (auto simp: call_cursor_def cursor_func_def)
  then show ?case
    using Cons by (simp add: run_def)
qed (simp add: run_def)

definition found_at :: "CursorCall \<Rightarrow> CursorContext \<Rightarrow> CursorContext" where
  "found_at d m = m\<lparr>xc := cc_x d, yc := cc_y d, place := Some (found_place d)\<rparr>"

text \<open>One line more is displayed, and the place of the cursor is found if it is in this line.\<close>

lemma line_run:
  assumes "settings s" "p \<le> length t" "offsetc m = int c" "cursor s = Some (Cursor_func m)"
    and "stepped (line_end_calls s t p (ds_line_num s) (ds_y s)) k s s1"
  shows "cursor s1 = Some (Cursor_func (if p \<le> c \<and> c \<le> p + length (line_at t p)
    then found_at (call_of s t p (ds_line_num s) (ds_y s) c) m else m))"
proof -
  let ?cs = "line_end_calls s t p (ds_line_num s) (ds_y s)"
  have r: "cursor s1 = fst (run DIR_LTR (ds_height s) ?cs (Some (Cursor_func m), eod s))"
    using assms(4,5) by (simp add: stepped_def prod_eq_iff)
  have nth: "cc_offset1 (?cs ! j) = int (p + j)" "cc_offset2 (?cs ! j) = int (p + j) + 1" if "j < length ?cs" for j
    using that line_end_calls_nth [where i = j and t = t and p = p and s = s and n = "ds_line_num s" and y = "ds_y s"]
    by (simp_all add: line_end_calls_length)
  show ?thesis
  proof (cases "p \<le> c \<and> c \<le> p + length (line_at t p)")
    case True
    define i where "i = c - p"
    have "i \<le> length (line_at t p)"
      using True unfolding i_def by linarith
    then have i: "i < length ?cs" "p + i = c" "?cs ! i = call_of s t p (ds_line_num s) (ds_y s) c"
      using True by (simp_all add: i_def line_end_calls_length call_of_line)
    have split: "?cs = take i ?cs @ ?cs ! i # drop (Suc i) ?cs"
      using i(1) by (rule id_take_nth_drop)
    have "\<forall>e\<in>set (take i ?cs). cc_offset2 e \<le> offsetc m \<or> offsetc m < cc_offset1 e"
      using nth i assms(3) by (auto simp: in_set_conv_nth)
    note before = run_cursor_passes [OF this, of DIR_LTR "ds_height s" "eod s"]
    have "\<forall>e\<in>set (drop (Suc i) ?cs). cc_offset2 e \<le> offsetc (found_at (?cs ! i) m) \<or> offsetc (found_at (?cs ! i) m) < cc_offset1 e"
      using nth i assms(3) by (auto simp: in_set_conv_nth found_at_def)
    note after = run_cursor_passes [OF this, of DIR_LTR "ds_height s" True]
    have "call_cursor DIR_LTR (ds_height s) (?cs ! i) (Cursor_func m) = (Cursor_func (found_at (?cs ! i) m), True)"
      using nth [OF i(1)] i(2) assms(3) by (simp add: call_cursor_def cursor_func_def found_at_def found_place_def)
    then have here: "run DIR_LTR (ds_height s) (?cs ! i # drop (Suc i) ?cs) (Some (Cursor_func m), eod s) =
        run DIR_LTR (ds_height s) (drop (Suc i) ?cs) (Some (Cursor_func (found_at (?cs ! i) m)), True)"
      by (simp add: run_def)
    have "run DIR_LTR (ds_height s) ?cs (Some (Cursor_func m), eod s) = (Some (Cursor_func (found_at (?cs ! i) m)), True)"
      by (subst split) (simp only: run_simps before here after)
    then show ?thesis
      using r i(3) True by simp
  next
    case False
    have "\<forall>e\<in>set ?cs. cc_offset2 e \<le> offsetc m \<or> offsetc m < cc_offset1 e"
      using nth False assms(3) by (auto simp: in_set_conv_nth line_end_calls_length)
    from run_cursor_passes [OF this] show ?thesis
      unfolding if_not_P [OF False] using r by simp
  qed
qed

lemma stepped_redrawn: "stepped cs k s s' \<Longrightarrow> redrawn (edit_state s) (edit_state s')"
  by (auto simp: stepped_def redrawn_def)

lemma stepped_view:
  assumes "stepped cs k s s'" "ready t s'" "window_ok t (edit_state s)"
  shows "same_view t (edit_state s) (edit_state s')" "dw_offset_top (edit_state s') = dw_offset_top (edit_state s)"
    "dw_y_disp (edit_state s') = dw_y_disp (edit_state s)"
  using same_view_redrawn [OF assms(3) stepped_redrawn [OF assms(1)]] assms(2) redrawn_fields [OF stepped_redrawn [OF assms(1)]]
  by (simp_all add: ready_def)

lemma found_xc_eq: "cursor s = Some (Cursor_func m) \<Longrightarrow> found_xc s = xc m"
  by (simp add: found_xc_def cursor_context_def)

lemma find_cursor_loop_finds:
  assumes "ready t s" "settings s" and nums: "\<not> env_line_numbers env" and "p \<le> c" and c: "c \<le> length t"
    and "cursor s = Some (Cursor_func m)" and m: "offsetc m = int c" "xc m = NO_CURSOR"
    and "window_ok t (edit_state s)" "dw_offset_top (edit_state s) = int tp" "tp \<le> c" "ds_width s < NO_CURSOR"
    and "height_at s t tp (dw_y_disp (edit_state s)) c = height_at s t p (ds_y s) c"
  shows "\<exists>s' m' tp'. find_cursor_loop (text_display env) (int p) s = Some s' \<and> ready t s' \<and> settings s' \<and> cursor s' = Some (Cursor_func m') \<and>
    same_view t (edit_state s) (edit_state s') \<and> ds_width s' = ds_width s \<and> ds_tab_width s' = ds_tab_width s \<and> eol_width s' = eol_width s \<and>
    dw_offset_top (edit_state s') = int tp' \<and> tp' \<le> c \<and>
    (m' = m \<or> xc m' \<noteq> NO_CURSOR \<and> (\<exists>d. m' = found_at d m \<and> cc_h d = asc + desc \<and>
      height_at s t tp' (dw_y_disp (edit_state s')) c = cc_y d))"
  using assms(1,2,4,6,9-13)
proof (induction "length t - p" arbitrary: p s tp rule: less_induct)
  case less
  let ?e = "edit_state s" and ?q = "p + length (line_at t p)"
  define e1 where "e1 = (if ds_y s \<le> 0 then scroll_to (int p) (ds_y s) ?e else ?e)"
  define tp1 where "tp1 = (if ds_y s \<le> 0 then p else tp)"
  let ?s1 = "s\<lparr>edit_state := e1\<rparr>"
  have same: "height_at ?s1 t a y c = height_at s t a y c" for a y
    unfolding height_at_def by (subst same_layout_calls [of ?s1 s]) (simp_all add: e1_def)
  have tp1: "dw_offset_top e1 = int tp1" "tp1 \<le> c" "height_at s t tp1 (dw_y_disp e1) c = height_at s t p (ds_y s) c"
    using less.prems(3,6,7,9) by (simp_all add: e1_def tp1_def)
  have w1: "window_ok t e1" "same_view t ?e e1" "ready t ?s1" "settings ?s1"
    using less.prems(1,2,5) ready_scroll same_view_scroll by (auto simp: e1_def same_view_def)
  have p: "p \<le> length t"
    using less.prems(3) c by simp
  obtain s2 where s2: "text_display env ?s1 (int p) = Some (after_line t p, s2)" "ready t s2"
    "stepped (line_end_calls ?s1 t p (ds_line_num ?s1) (ds_y ?s1)) (line_rows ?s1 t p) ?s1 s2"
    using text_display_line [OF w1(3) p nums] by blast
  have set2: "settings s2"
    by (rule stepped_settings [OF s2(3,2) w1(4)])
  have v2: "same_view t ?e (edit_state s2)" "dw_offset_top (edit_state s2) = int tp1" "dw_y_disp (edit_state s2) = dw_y_disp e1"
    using stepped_view [OF s2(3,2)] w1(1) same_view_trans [OF w1(2)] tp1(1) by simp_all
  have f2: "ds_width s2 = ds_width s" "ds_tab_width s2 = ds_tab_width s" "eol_width s2 = eol_width s" "ds_y s2 = ds_y s + line_rows ?s1 t p * (asc + desc)"
    using s2(3) by (simp_all add: stepped_def)
  have loop: "find_cursor_loop (text_display env) (int p) s = (if after_line t p < 0 \<or> ds_y s2 \<ge> dw_height (edit_state s2) \<or> found_xc s2 \<noteq> NO_CURSOR
      then Some s2 else find_cursor_loop (text_display env) (after_line t p) s2)"
  proof -
    have "(if ds_y s \<le> 0 then (set_dw_offset_top (int p) ?e)\<lparr>dw_y_disp := ds_y s\<rparr> else ?e) = e1"
      by (simp add: e1_def scroll_to_def)
    then show ?thesis
      by (subst find_cursor_loop.simps) (simp only: Let_def s2(1) bind.bind_lunit prod.case)
  qed
  have c2: "cursor s2 = Some (Cursor_func (if c \<le> ?q then found_at (call_of ?s1 t p (ds_line_num ?s1) (ds_y ?s1) c) m else m))"
    using line_run [OF w1(4) p m(1) _ s2(3)] less.prems(3,4) by simp
  show ?case
  proof (cases "c \<le> ?q")
    case True
    define d where "d = call_of ?s1 t p (ds_line_num ?s1) (ds_y ?s1) c"
    have d: "cc_x d \<le> ds_width s" "cc_h d = asc + desc"
      using call_of_within [OF w1(4) less.prems(3) c] call_of_place [OF w1(4) less.prems(3) c] by (auto simp: d_def)
    have "cc_y d = height_at ?s1 t p (ds_y s) c"
      using height_at_any(1) [OF less.prems(3) c] by (simp add: d_def)
    then have "height_at s t tp1 (dw_y_disp (edit_state s2)) c = cc_y d"
      using tp1(3) by (simp add: same v2(3))
    moreover have c3: "cursor s2 = Some (Cursor_func (found_at d m))" "xc (found_at d m) \<noteq> NO_CURSOR"
      using c2 True d(1) less.prems(8) by (simp_all add: d_def found_at_def)
    moreover have "find_cursor_loop (text_display env) (int p) s = Some s2"
      using loop found_xc_eq [OF c3(1)] c3(2) by simp
    ultimately show ?thesis
      using s2(2) set2 v2(1,2) f2(1-3) tp1(2) d(2)
      by (intro exI [of _ s2] exI [of _ "found_at d m"] exI [of _ tp1] conjI disjI2 exI [of _ d]) simp_all
  next
    case False
    then have lt: "?q < length t" and al: "after_line t p = int (Suc ?q)"
      using c by (simp_all add: after_line_def Let_def)
    have c3: "cursor s2 = Some (Cursor_func m)"
      using c2 False by simp
    show ?thesis
    proof (cases "ds_y s2 \<ge> dw_height (edit_state s2)")
      case True
      then have "find_cursor_loop (text_display env) (int p) s = Some s2"
        using loop by simp
      then show ?thesis
        using s2(2) set2 c3 v2(1,2) f2(1-3) tp1(2) by blast
    next
      case again: False
      then have step: "find_cursor_loop (text_display env) (int p) s = find_cursor_loop (text_display env) (int (Suc ?q)) s2"
        using loop found_xc_eq [OF c3] m(2) al by simp
      have same2: "height_at s2 t a y c = height_at s t a y c" for a y
        unfolding height_at_def using v2(1) f2 by (intro arg_cong [where f = cc_y] same_layout_calls) (simp_all add: same_view_def)
      have "height_at s t p (ds_y s) c = height_at s2 t (Suc ?q) (ds_y s2) c"
        using height_at_next [of p t c ?s1 "ds_y s"] False c by (simp add: same same2 f2(4))
      then have h: "height_at s2 t tp1 (dw_y_disp (edit_state s2)) c = height_at s2 t (Suc ?q) (ds_y s2) c"
        using tp1(3) by (simp add: same2 v2(3))
      have "length t - Suc ?q < length t - p" "Suc ?q \<le> c" "window_ok t (edit_state s2)" "ds_width s2 < NO_CURSOR"
        using lt False v2(1) less.prems(8) by (simp_all add: same_view_def f2(1))
      from less.hyps [OF this(1) s2(2) set2 this(2) c3 this(3) v2(2) tp1(2) this(4) h] obtain s' m' tp' where
        "find_cursor_loop (text_display env) (int (Suc ?q)) s2 = Some s'" "ready t s'" "settings s'" "cursor s' = Some (Cursor_func m')"
        "same_view t (edit_state s2) (edit_state s')" "ds_width s' = ds_width s2" "ds_tab_width s' = ds_tab_width s2" "eol_width s' = eol_width s2"
        "dw_offset_top (edit_state s') = int tp'" "tp' \<le> c"
        "m' = m \<or> xc m' \<noteq> NO_CURSOR \<and> (\<exists>d. m' = found_at d m \<and> cc_h d = asc + desc \<and>
          height_at s2 t tp' (dw_y_disp (edit_state s')) c = cc_y d)"
        by blast
      then show ?thesis
        using step same_view_trans [OF v2(1)] f2(1-3) unfolding same2 by (intro exI [of _ s'] exI [of _ m'] exI [of _ tp']) auto
    qed
  qed
qed

section \<open>The cursor at the bottom\<close>

lemma set_cursor_ready [simp]:
  "ready t (s\<lparr>ds_y := y\<rparr>) = ready t s" "settings (s\<lparr>ds_y := y\<rparr>) = settings s"
  by (simp_all add: ready_def settings_def wrapped_def print_ok_def arrays_ok_def)

lemma settings_rebuf [simp]: "settings (rebuf b s) = settings s"
  by (simp add: settings_def rebuf_keeps)

lemma ready_buffer: "ready t s \<Longrightarrow> byte_text b t \<Longrightarrow> ready t (rebuf b s)"
  by (simp add: ready_def rebuf_keeps text_window_def)

lemma fill_back_loop_fills:
  assumes "ready t s" "settings s" and nums: "\<not> env_line_numbers env" and "p \<le> c" and c: "c \<le> length t"
    and "p = 0 \<or> t ! (p - 1) = 10" "cursor s = Some (Cursor_func m)" and m: "offsetc m = int c"
    and "window_ok t (edit_state s)" "height_at s t p 0 c + (asc + desc) = ds_y s"
  shows "\<exists>s' p'. fill_back_loop (text_display env) (text_backward_offset env) (int p) s = Some (int p', s') \<and> ready t s' \<and> settings s' \<and>
    cursor s' = cursor s \<and> same_view t (edit_state s) (edit_state s') \<and> ds_width s' = ds_width s \<and> ds_tab_width s' = ds_tab_width s \<and>
    eol_width s' = eol_width s \<and> p' \<le> c \<and> height_at s t p' 0 c + (asc + desc) = ds_y s'"
  using assms(1,2,4,6,7,9,10)
proof (induction p arbitrary: s rule: less_induct)
  case (less p)
  let ?e = "edit_state s"
  show ?case
  proof (cases "ds_y s < dw_height ?e \<and> 0 < p")
    case False
    then have "fill_back_loop (text_display env) (text_backward_offset env) (int p) s = Some (int p, s)"
      by (subst fill_back_loop.simps) auto
    then show ?thesis
      using less.prems by (intro exI [of _ s] exI [of _ p]) (simp add: same_view_def)
  next
    case True
    have lt: "p - 1 \<le> length t" "p \<le> length t" and p0: "0 < p" and nl: "t ! (p - 1) = 10"
      using less.prems(3,4) c True by auto
    let ?p = "bol t (p - 1)"
    have bt: "byte_text (dw_b ?e) t"
      using less.prems(1) by (simp add: ready_def)
    obtain b where b: "text_backward_offset env ?e (int (p - 1)) = Some (int ?p, set_dw_b b ?e)" "byte_text b t" "reads (dw_b ?e) b"
      using text_backward_offset_bol [OF bt lt(1)] by blast
    have pl: "?p + length (line_at t ?p) = p - 1"
      by (rule line_before [OF p0 lt(2) nl])
    have begins: "?p = 0 \<or> t ! (?p - 1) = 10"
      using bol_newline [OF lt(1)] by (simp add: line_begins_def)
    have pp: "?p < p" "?p \<le> length t"
      using pl p0 lt(2) by linarith+
    let ?s1 = "rebuf b s"
    have r1: "ready t ?s1" "settings ?s1"
      using less.prems(1,2) ready_buffer b(2) by (simp_all add: rebuf_keeps settings_def)
    have same1: "line_rows ?s1 t a = line_rows s t a" for a
      by (simp add: line_rows_def line_cells_def)
    obtain s2 where s2: "text_display env ?s1 (int ?p) = Some (after_line t ?p, s2)" "ready t s2"
      "stepped (line_end_calls ?s1 t ?p (ds_line_num ?s1) (ds_y ?s1)) (line_rows ?s1 t ?p) ?s1 s2"
      using text_display_line [OF r1(1) pp(2) nums] by blast
    have v1: "same_view t ?e (edit_state ?s1)"
      using same_view_redrawn [OF less.prems(6) redrawn_buffer [OF b(3)]] b(2) by simp
    have set2: "settings s2"
      by (rule stepped_settings [OF s2(3,2) r1(2)])
    have v2: "same_view t ?e (edit_state s2)"
      using stepped_view(1) [OF s2(3,2)] v1 same_view_trans [OF v1] by (simp add: same_view_def)
    have f2: "ds_width s2 = ds_width s" "ds_tab_width s2 = ds_tab_width s" "eol_width s2 = eol_width s"
      "ds_y s2 = ds_y s + line_rows s t ?p * (asc + desc)"
      using s2(3) by (simp_all add: stepped_def same1)
    have same2: "height_at s2 t a y c = height_at s t a y c" for a y
      unfolding height_at_def using v2 f2 by (intro arg_cong [where f = cc_y] same_layout_calls) (simp_all add: same_view_def)
    have "\<not> (?p \<le> c \<and> c \<le> ?p + length (line_at t ?p))"
      using less.prems(3) pl p0 by linarith
    note no = if_not_P [OF this]
    have c2: "cursor s2 = Some (Cursor_func m)"
      using line_run [OF r1(2) pp(2) m _ s2(3)] less.prems(5) unfolding no by simp
    have "?p + length (line_at t ?p) < c" "Suc (?p + length (line_at t ?p)) = p"
      using pl less.prems(3) p0 by linarith+
    then have "height_at s t ?p 0 c = height_at s t p (0 + line_rows s t ?p * (asc + desc)) c"
      using height_at_next [of ?p t c s 0] c by simp
    also have "\<dots> = height_at s t p 0 c + line_rows s t ?p * (asc + desc)"
      by (rule height_at_any(2) [OF less.prems(3) c])
    finally have h2: "height_at s2 t ?p 0 c + (asc + desc) = ds_y s2"
      using less.prems(7) f2(4) by (simp add: same2)
    have step: "fill_back_loop (text_display env) (text_backward_offset env) (int p) s =
        fill_back_loop (text_display env) (text_backward_offset env) (int ?p) s2"
    proof -
      have "int p - 1 = int (p - 1)"
        using p0 by simp
      then show ?thesis
        using True b(1) s2(1) by (subst fill_back_loop.simps) (simp add: rebuf_def)
    qed
    have "?p \<le> c" "window_ok t (edit_state s2)"
      using pp(1) less.prems(3) v2 by (simp_all add: same_view_def)
    from less.IH [OF pp(1) s2(2) set2 this(1) begins c2 this(2) h2] obtain s' p' where
      "fill_back_loop (text_display env) (text_backward_offset env) (int ?p) s2 = Some (int p', s')" "ready t s'" "settings s'"
      "cursor s' = cursor s2" "same_view t (edit_state s2) (edit_state s')" "ds_width s' = ds_width s2" "ds_tab_width s' = ds_tab_width s2"
      "eol_width s' = eol_width s2" "p' \<le> c" "height_at s2 t p' 0 c + (asc + desc) = ds_y s'"
      by blast
    then show ?thesis
      using step same_view_trans [OF v2] f2(1-3) c2 less.prems(5) unfolding same2 by (intro exI [of _ s'] exI [of _ p']) auto
  qed
qed

lemma init_fields:
  assumes "window_ok t e" "display_init env e disp ds0 = Some s" "arrays_ok ds0"
  shows "ready t s" "settings s" "do_disp s = disp" "ds_y s = dw_y_disp e" "ds_line_num s = 0" "ds_height s = dw_height e" "edit_state s = e"
    "ds_width s = dw_width e - eol_glyph" "ds_tab_width s = gw 32 * dw_tab_size e" "eol_width s = eol_glyph"
  using display_init_ready [OF assms(1,3), of disp] assms(2) by auto

text \<open>The layout of a window, in any state.\<close>

definition fits_window :: "DisplayState \<Rightarrow> DisplayWindow \<Rightarrow> bool" where
  "fits_window s e \<longleftrightarrow> ds_width s = dw_width e - eol_glyph \<and> ds_tab_width s = gw 32 * dw_tab_size e \<and> eol_width s = eol_glyph \<and>
     dw_show_tabs (edit_state s) = dw_show_tabs e"

lemma fits_place:
  "fits_window s e \<Longrightarrow> cursor_place ds0 e t c = call_of s t (nat (dw_offset_top e)) 0 (dw_y_disp e) c"
  unfolding cursor_place_def fits_window_def by (rule same_layout_calls) simp_all

lemma fits_view: "fits_window s e \<Longrightarrow> same_view t e e' \<Longrightarrow> fits_window s e'"
  by (simp add: fits_window_def same_view_def)

lemma resync_bottom:
  assumes w: "window_ok t (edit_state s)" "ready t s" and nums: "\<not> env_line_numbers env" and c: "dw_offset (edit_state s) = int c" "c \<le> length t"
    and m: "offsetc m = int c" "xc m = NO_CURSOR" and sh: "fits_window s (edit_state s)"
  shows "\<exists>s' d p'. resync env (text_display env) (text_backward_offset env) m s = Some s' \<and> ready t s' \<and> settings s' \<and>
    cursor s' = Some (Cursor_func (found_at d m)) \<and> same_view t (edit_state s) (edit_state s') \<and> fits_window s' (edit_state s') \<and>
    dw_offset_top (edit_state s') = int p' \<and> p' \<le> c \<and>
    height_at s t p' (dw_y_disp (edit_state s')) c + (asc + desc) = dw_height (edit_state s)"
proof -
  let ?e = "edit_state s" and ?p = "bol t c"
  have arr: "arrays_ok s"
    using w(2) by (simp add: ready_def)
  obtain s1 where s1: "display_init env ?e DISP_CURSOR_SCREEN s = Some s1"
    using display_init_ready [OF w(1) arr] by blast
  note i1 = init_fields [OF w(1) s1 arr]
  have bt: "byte_text (dw_b ?e) t"
    using w(2) by (simp add: ready_def)
  obtain b where b: "text_backward_offset env ?e (int c) = Some (int ?p, set_dw_b b ?e)" "byte_text b t" "reads (dw_b ?e) b"
    using text_backward_offset_bol [OF bt c(2)] by blast
  let ?s2 = "(rebuf b s1)\<lparr>cursor := Some (Cursor_func m), ds_y := 0\<rparr>"
  have r2: "ready t ?s2" "settings ?s2"
    using ready_buffer [OF i1(1) b(2)] i1(2) by simp_all
  have pp: "?p \<le> c" "?p \<le> length t" "c \<le> ?p + length (line_at t ?p)"
    using bol_le [of t c] bol_line [OF c(2)] c(2) by linarith+
  obtain s3 where s3: "text_display env ?s2 (int ?p) = Some (after_line t ?p, s3)" "ready t s3"
    "stepped (line_end_calls ?s2 t ?p (ds_line_num ?s2) (ds_y ?s2)) (line_rows ?s2 t ?p) ?s2 s3"
    using text_display_line [OF r2(1) pp(2) nums] by blast
  define d where "d = call_of ?s2 t ?p (ds_line_num ?s2) (ds_y ?s2) c"
  have "cursor ?s2 = Some (Cursor_func m)"
    by simp
  from line_run [OF r2(2) pp(2) m(1) this s3(3)] have c3: "cursor s3 = Some (Cursor_func (found_at d m))"
    using pp by (simp add: d_def)
  have d: "cc_x d \<le> ds_width ?s2" "cc_h d = asc + desc"
    using call_of_within [OF r2(2) pp(1) c(2)] call_of_place [OF r2(2) pp(1) c(2)] by (auto simp: d_def)
  have v2: "same_view t ?e (edit_state ?s2)"
    using same_view_redrawn [OF w(1) redrawn_buffer [OF b(3)]] b(2) by (simp add: i1(7))
  have v3: "same_view t ?e (edit_state s3)"
    using stepped_view(1) [OF s3(3,2)] v2 same_view_trans [OF v2] by (simp add: same_view_def)
  have "ds_width s3 = ds_width ?s2 \<and> ds_tab_width s3 = ds_tab_width ?s2 \<and> eol_width s3 = eol_width ?s2"
    using s3(3) by (simp add: stepped_def)
  then have f3: "ds_width s3 = ds_width s" "ds_tab_width s3 = ds_tab_width s" "eol_width s3 = eol_width s"
    using sh i1(8-10) by (simp_all add: fits_window_def)
  have same3: "height_at s3 t a y c = height_at s t a y c" for a y
    unfolding height_at_def using v3 f3 by (intro arg_cong [where f = cc_y] same_layout_calls) (simp_all add: same_view_def)
  have same2: "height_at ?s2 t a y c = height_at s t a y c" for a y
    unfolding height_at_def using v2 sh i1(8-10) by (intro arg_cong [where f = cc_y] same_layout_calls) (simp_all add: same_view_def fits_window_def)
  have h: "height_at s t ?p 0 c = cc_y d"
    using height_at_any(1) [OF pp(1) c(2), of ?s2 "ds_line_num ?s2" 0] same2 [of ?p 0] unfolding d_def by simp
  let ?s4 = "s3\<lparr>ds_y := cc_y d + cc_h d\<rparr>"
  have same4: "height_at ?s4 t a y c = height_at s t a y c" for a y
    unfolding height_at_def using v3 f3 by (intro arg_cong [where f = cc_y] same_layout_calls) (simp_all add: same_view_def)
  have r4: "ready t ?s4" "settings ?s4" "window_ok t (edit_state ?s4)" "cursor ?s4 = Some (Cursor_func (found_at d m))"
    "?p = 0 \<or> t ! (?p - 1) = 10" "height_at ?s4 t ?p 0 c + (asc + desc) = ds_y ?s4" "offsetc (found_at d m) = int c"
    using s3(2) stepped_settings [OF s3(3,2) r2(2)] v3 c3 bol_newline [OF c(2)] h same4 d(2) m(1)
    by (simp_all add: same_view_def line_begins_def found_at_def)
  obtain s5 p' where s5: "fill_back_loop (text_display env) (text_backward_offset env) (int ?p) ?s4 = Some (int p', s5)" "ready t s5" "settings s5"
    "cursor s5 = Some (Cursor_func (found_at d m))" "same_view t (edit_state ?s4) (edit_state s5)" "ds_width s5 = ds_width ?s4"
    "ds_tab_width s5 = ds_tab_width ?s4" "eol_width s5 = eol_width ?s4" "p' \<le> c" "height_at ?s4 t p' 0 c + (asc + desc) = ds_y s5"
    using fill_back_loop_fills [OF r4(1,2) nums pp(1) c(2) r4(5,4,7,3,6)] r4(4) by auto
  have v5: "same_view t ?e (edit_state s5)"
    using same_view_trans [OF v3] s5(5) by simp
  define s6 where "s6 = s5\<lparr>edit_state := scroll_to (int p') (dw_height (edit_state s5) - ds_y s5) (edit_state s5)\<rparr>"
  have "xc (found_at d m) \<noteq> NO_CURSOR"
    using d(1) i1(8) w(1) by (simp add: found_at_def NO_CURSOR_def window_ok_def)
  then have "resync env (text_display env) (text_backward_offset env) m s = Some s6"
    unfolding resync_def s1 bind.bind_lunit Let_def c(1) b(1) prod.case
    using s3(1) c3 s5(1) by (simp add: rebuf_def i1(7) cursor_context_def found_at_def found_place_def s6_def scroll_to_def)
  moreover have "ready t s6" "settings s6" "cursor s6 = Some (Cursor_func (found_at d m))"
    using ready_scroll [OF s5(2)] s5(3,4) by (simp_all add: s6_def)
  moreover have v6: "same_view t ?e (edit_state s6)"
    using same_view_trans [OF v5 same_view_scroll] s5(5) by (simp add: s6_def same_view_def)
  moreover have "fits_window s6 (edit_state s6)"
    using sh f3 s5(6-8) v6 by (simp add: s6_def fits_window_def same_view_def)
  moreover have "height_at s t p' (dw_y_disp (edit_state s6)) c + (asc + desc) = dw_height ?e"
  proof -
    have y: "dw_y_disp (edit_state s6) = 0 + (dw_height ?e - ds_y s5)"
      using v5 by (simp add: s6_def same_view_def)
    have "height_at s t p' 0 c + (asc + desc) = ds_y s5"
      using s5(10) unfolding same4 .
    then show ?thesis
      unfolding y height_at_any(2) [OF s5(9) c(2)] by simp
  qed
  ultimately show ?thesis
    using s5(9) by (intro exI [of _ s6] exI [of _ d] exI [of _ p']) (simp add: s6_def)
qed

section \<open>The window is printed\<close>

lemma run_cursor_list:
  assumes "\<And>i. p \<le> i \<Longrightarrow> i < q \<Longrightarrow> cc_offset1 (P i) = int i \<and> cc_offset2 (P i) = int i + 1" "p \<le> c" "c < q" "offsetc m = int c"
  shows "run DIR_LTR ht (map P [p..<q]) (Some (Cursor_func m), b) = (Some (Cursor_func (found_at (P c) m)), True)"
proof -
  have split: "map P [p..<q] = map P [p..<c] @ P c # map P [Suc c..<q]"
    using assms(2,3) upt_add_eq_append [of p c "q - c"] by (simp add: upt_conv_Cons)
  have "\<forall>e\<in>set (map P [p..<c]). cc_offset2 e \<le> offsetc m \<or> offsetc m < cc_offset1 e"
    using assms by auto
  note before = run_cursor_passes [OF this, of DIR_LTR ht b]
  have "\<forall>e\<in>set (map P [Suc c..<q]). cc_offset2 e \<le> offsetc (found_at (P c) m) \<or> offsetc (found_at (P c) m) < cc_offset1 e"
    using assms by (auto simp: found_at_def)
  note after = run_cursor_passes [OF this, of DIR_LTR ht True]
  have "call_cursor DIR_LTR ht (P c) (Cursor_func m) = (Cursor_func (found_at (P c) m), True)"
    using assms(1) [of c] assms(2-4) by (simp add: call_cursor_def cursor_func_def found_at_def found_place_def)
  then have here: "run DIR_LTR ht (P c # map P [Suc c..<q]) (Some (Cursor_func m), b) =
      run DIR_LTR ht (map P [Suc c..<q]) (Some (Cursor_func (found_at (P c) m)), True)"
    by (simp add: run_def)
  show ?thesis
    unfolding split by (simp only: run_simps before here after)
qed

lemma redrawn_shadow:
  assumes "redrawn e e'"
  shows "redrawn e (e'\<lparr>dw_line_shadow := l\<rparr>)"
proof -
  obtain sh where "reads (dw_b e) (dw_b e')" "e' = (set_dw_b (dw_b e') e)\<lparr>dw_line_shadow := sh\<rparr>"
    using assms unfolding redrawn_def by blast
  then have "e'\<lparr>dw_line_shadow := l\<rparr> = (set_dw_b (dw_b e') e)\<lparr>dw_line_shadow := l\<rparr>"
    by (metis DisplayWindow.select_convs(1) DisplayWindow.surjective DisplayWindow.update_convs(24))
  then show ?thesis
    using \<open>reads (dw_b e) (dw_b e')\<close> unfolding redrawn_def by auto
qed

lemma print_text_cursor:
  assumes w: "window_ok t e" "arrays_ok ds0" and nums: "\<not> env_line_numbers env"
    and c: "dw_offset e = int c" "c \<le> length t" "0 \<le> dw_offset_top e" "dw_offset_top e \<le> int c"
    and d: "d = cursor_place ds1 e t c" and screen: "cc_y d < dw_height e"
  shows "\<exists>s. print_text env (text_display env) m ds0 e = Some (found_at d (m\<lparr>offsetc := int c, xc := NO_CURSOR, yc := NO_CURSOR\<rparr>), s) \<and>
    same_view t e (edit_state s) \<and> redrawn e (edit_state s)"
proof -
  obtain s where s: "display_init env e DISP_PRINT ds0 = Some s"
    using display_init_ready [OF w] by blast
  note i = init_fields [OF w(1) s w(2)]
  define m0 where "m0 = m\<lparr>offsetc := int c, xc := NO_CURSOR, yc := NO_CURSOR\<rparr>"
  let ?s = "s\<lparr>cursor := Some (Cursor_func m0), eod := False\<rparr>" and ?p = "nat (dw_offset_top e)"
  let ?P = "cursor_place ds1 e t"
  have "call_of ?s t ?p 0 (dw_y_disp e) c = ?P c" for c
    unfolding cursor_place_def by (rule same_layout_calls) (simp_all add: i)
  then have P: "call_of ?s t ?p (ds_line_num ?s) (ds_y ?s) = ?P"
    using i(4,5) by auto
  have pc: "?p \<le> c" "?p \<le> length t"
    using c by simp_all
  have set: "settings ?s" "ready t ?s"
    using i by simp_all
  obtain s' q k where s': "display1_loop (text_display env) (int ?p) ?s = Some s'" "ready t s'" "stepped (map ?P [?p..<q]) k ?s s'"
    "?p < q" "q \<le> Suc (length t)" "q \<le> length t \<longrightarrow> display_ends s' \<and> (\<forall>c. q \<le> c \<and> c \<le> length t \<longrightarrow> ds_y s' \<le> cc_y (?P c))"
    using display1_runs [OF set(2,1) pc(2) nums] unfolding P by blast
  have dd: "do_disp s' = DISP_PRINT" "ds_height s' = dw_height e"
    using s'(3) i(3,6) by (simp_all add: stepped_def)
  have "c < q"
  proof (rule ccontr)
    assume "\<not> c < q"
    then have "display_ends s'" "ds_y s' \<le> cc_y (?P c)"
      using s'(6) c(2) by auto
    then show False
      using screen dd by (simp add: display_ends_def d)
  qed
  have off: "cc_offset1 (?P j) = int j \<and> cc_offset2 (?P j) = int j + 1" if "?p \<le> j" "j < q" for j
    using call_of_place [OF set(1) that(1), of t] that(2) s'(5) unfolding P [symmetric] by auto
  have "run DIR_LTR (ds_height s) (map ?P [?p..<q]) (Some (Cursor_func m0), False) = (Some (Cursor_func (found_at (?P c) m0)), True)"
    by (rule run_cursor_list) (use off pc(1) \<open>c < q\<close> in \<open>simp_all add: m0_def\<close>)
  then have cur: "cursor s' = Some (Cursor_func (found_at d m0))"
    using s'(3) by (simp add: stepped_def d)
  have red: "redrawn e (edit_state s')"
    using stepped_redrawn [OF s'(3)] by (simp add: i(7))
  have bt: "byte_text (dw_b (edit_state s')) t"
    using s'(2) by (simp add: ready_def)
  have pr: "text_styles env (edit_state s')" "0 \<le> ds_line_num s'" "ds_line_num s' \<le> int (length (dw_line_shadow (edit_state s')))"
    using s'(2) dd by (simp_all add: ready_def print_ok_def)
  then obtain sd where sd: "get_style env (edit_state s') 0 = Some sd"
    by (auto simp: text_styles_def)
  have d1: "display1 (text_display env) (s\<lparr>cursor := Some (Cursor_func m0)\<rparr>) = Some s'"
    using s'(1) c(3) unfolding display1_def by (simp add: i(7))
  define s2 where "s2 = (if ds_y s' < dw_height (edit_state s')
    then s'\<lparr>edit_state := (edit_state s')\<lparr>dw_line_shadow := take (nat (ds_line_num s')) (dw_line_shadow (edit_state s')) @
        replicate (length (dw_line_shadow (edit_state s')) - nat (ds_line_num s')) no_shadow\<rparr>,
      drawn := drawn s' @ [Fill_rectangle (dw_xleft (edit_state s')) (dw_ytop (edit_state s') + ds_y s') (dw_width (edit_state s'))
        (dw_height (edit_state s') - ds_y s') (bg_color sd)]\<rparr> else s')"
  have m0': "m\<lparr>offsetc := dw_offset e, xc := NO_CURSOR, yc := NO_CURSOR\<rparr> = m0"
    by (simp add: m0_def c(1))
  have "print_text env (text_display env) m ds0 e = Some (found_at d m0, s2)"
    unfolding print_text_def s Let_def bind.bind_lunit m0' d1
    using cur sd pr by (simp add: cursor_context_def s2_def)
  moreover have "redrawn e (edit_state s2)"
    using red redrawn_shadow by (simp add: s2_def)
  moreover have "byte_text (dw_b (edit_state s2)) t"
    using bt by (simp add: s2_def)
  ultimately show ?thesis
    using same_view_redrawn [OF w(1)] unfolding m0_def by blast
qed

section \<open>The cursor stays on the screen\<close>

lemma adjust_y_cursor:
  assumes "p \<le> c" "c \<le> length t" "cc_h d = asc + desc" "asc + desc \<le> dw_height e" "dw_offset_top e = int p"
    and "height_at s t p (dw_y_disp e) c = cc_y d"
  shows "\<exists>y. adjust_y (found_at d m) e = Some (e\<lparr>dw_y_disp := y\<rparr>) \<and> 0 \<le> height_at s t p y c \<and>
    height_at s t p y c + (asc + desc) \<le> dw_height e"
proof -
  let ?y = "dw_y_disp e"
  note sh = height_at_any(2) [OF assms(1,2), of s ?y]
  show ?thesis
  proof (cases "cc_y d < 0")
    case True
    then show ?thesis
      using sh [of "- cc_y d"] assms(4,6) by (intro exI [of _ "?y - cc_y d"]) (simp add: adjust_y_def found_at_def)
  next
    case False
    show ?thesis
    proof (cases "cc_y d + cc_h d \<ge> dw_height e")
      case True
      then show ?thesis
        using False sh [of "dw_height e - (cc_y d + cc_h d)"] assms(3,4,6)
        by (intro exI [of _ "?y + (dw_height e - (cc_y d + cc_h d))"]) (simp add: adjust_y_def found_at_def found_place_def)
    next
      case in_window: False
      then show ?thesis
        using False assms(3,6) by (intro exI [of _ ?y]) (simp add: adjust_y_def found_at_def found_place_def)
    qed
  qed
qed

lemma place_in_view:
  assumes "same_view t e e'" "same_view t e e''" "dw_offset_top e'' = dw_offset_top e'" "dw_y_disp e'' = dw_y_disp e'"
  shows "cursor_place ds1 e'' t c = cursor_place ds0 e' t c"
  unfolding cursor_place_def assms(3,4) using assms(1,2) by (intro same_layout_calls) (simp_all add: same_view_def)

lemma generic_text_display_cursor:
  assumes w: "window_ok t e" "arrays_ok ds0" and nums: "\<not> env_line_numbers env" and hw: "dpy_has_cursor env"
    and c: "dw_offset e = int c" "c \<le> length t" "0 \<le> dw_offset_top e" and h: "asc + desc \<le> dw_height e"
    and area: "0 \<le> dw_xleft e" "dw_xleft e \<le> 1000000" "0 \<le> dw_ytop e" "dw_ytop e \<le> 1000000" "dw_height e \<le> 1000000"
  shows "\<exists>e' calls d. generic_text_display env (text_display env) (text_backward_offset env) ds0 m True e =
      Some (e', calls, Some (dw_xleft e + cc_x d, dw_ytop e + cc_y d)) \<and> d = cursor_place ds0 e' t c \<and> same_view t e e' \<and>
    0 \<le> cc_x d \<and> cc_x d \<le> dw_width e - eol_glyph \<and> 0 \<le> cc_y d \<and> cc_y d + (asc + desc) \<le> dw_height e \<and>
    0 \<le> dw_offset_top e' \<and> dw_offset_top e' \<le> int c"
proof -
  have bt: "byte_text (dw_b e) t"
    using w(1) by (simp add: window_ok_def)
  obtain e1 tp where e1: "(if dw_offset e < dw_offset_top e
      then do { (p, s) \<leftarrow> text_backward_offset env e (dw_offset e); Some (set_dw_offset_top p s) } else Some e) = Some e1"
    "same_view t e e1" "dw_offset_top e1 = int tp" "tp \<le> c"
  proof (cases "dw_offset e < dw_offset_top e")
    case True
    obtain b where b: "text_backward_offset env e (int c) = Some (int (bol t c), set_dw_b b e)" "byte_text b t" "reads (dw_b e) b"
      using text_backward_offset_bol [OF bt c(2)] by blast
    have v: "same_view t e (set_dw_b b e)"
      using same_view_redrawn [OF w(1) redrawn_buffer [OF b(3)]] b(2) by simp
    have "set_dw_offset_top p x = scroll_to p (dw_y_disp x) x" for p x
      by (simp add: scroll_to_def set_dw_offset_top_def)
    moreover have "same_view t e (scroll_to (int (bol t c)) (dw_y_disp (set_dw_b b e)) (set_dw_b b e))"
      by (rule same_view_trans [OF v same_view_scroll]) (use v in \<open>simp add: same_view_def\<close>)
    ultimately show ?thesis
      using True b(1) bol_le [of t c] by (intro that [of "scroll_to (int (bol t c)) (dw_y_disp (set_dw_b b e)) (set_dw_b b e)" "bol t c"])
        (simp_all add: c(1))
  next
    case False
    then show ?thesis
      using c w(1) by (intro that [of e "nat (dw_offset_top e)"]) (simp_all add: same_view_def)
  qed
  define e2 where "e2 = (if dw_display_invalid e1 then e1\<lparr>dw_line_shadow := [], dw_display_invalid := False\<rparr> else e1)"
  have e2: "same_view t e e2" "dw_offset_top e2 = int tp" "window_ok t e2"
  proof -
    have "window_ok t e1"
      using e1(2) by (simp add: same_view_def)
    then show "window_ok t e2"
      by (simp add: e2_def window_ok_def text_window_def)
    then show "same_view t e e2" "dw_offset_top e2 = int tp"
      using e1(2,3) by (simp_all add: e2_def same_view_def off_def dw_offset_top_def)
  qed
  have arr: "arrays_ok (ds0\<lparr>drawn := []\<rparr>)"
    using w(2) by (simp add: arrays_ok_def)
  obtain s where s: "display_init env e2 DISP_CURSOR_SCREEN (ds0\<lparr>drawn := []\<rparr>) = Some s"
    using display_init_ready [OF e2(3) arr] by blast
  note i = init_fields [OF e2(3) s arr]
  define m0 where "m0 = m\<lparr>offsetc := int c, xc := NO_CURSOR, yc := NO_CURSOR\<rparr>"
  let ?s = "s\<lparr>cursor := Some (Cursor_func m0)\<rparr>"
  have off2: "dw_offset e2 = int c"
    using e2(1) c(1) by (simp add: same_view_def)
  have wd: "ds_width ?s < NO_CURSOR" "0 \<le> dw_width e - eol_glyph"
    using i(8) e2(3) w(1) by (simp_all add: window_ok_def NO_CURSOR_def)
  obtain s1 m1 tp1 where s1: "find_cursor_loop (text_display env) (int tp) ?s = Some s1" "ready t s1" "settings s1" "cursor s1 = Some (Cursor_func m1)"
    "same_view t e2 (edit_state s1)" "ds_width s1 = ds_width s" "ds_tab_width s1 = ds_tab_width s" "eol_width s1 = eol_width s"
    "dw_offset_top (edit_state s1) = int tp1" "tp1 \<le> c"
    "m1 = m0 \<or> xc m1 \<noteq> NO_CURSOR \<and> (\<exists>d. m1 = found_at d m0 \<and> cc_h d = asc + desc \<and>
      height_at ?s t tp1 (dw_y_disp (edit_state s1)) c = cc_y d)"
    using find_cursor_loop_finds [of t ?s tp c m0 tp] i nums e1(4) c(2) e2 wd(1) by (auto simp: m0_def)
  have fw: "fits_window s1 (edit_state s1)"
    using s1(5-8) i(8-10) by (simp add: fits_window_def same_view_def)
  have v1: "same_view t e (edit_state s1)"
    by (rule same_view_trans [OF e2(1) s1(5)])
  have same1: "height_at ?s t p y c = height_at s1 t p y c" for p y
    unfolding height_at_def using s1(5-8) i(7) by (intro arg_cong [where f = cc_y] same_layout_calls) (simp_all add: same_view_def)
  obtain s2 d2 tp2 where s2: "(if xc m1 = NO_CURSOR then resync env (text_display env) (text_backward_offset env) m1 s1
      else do { s \<leftarrow> adjust_y m1 (edit_state s1); Some (s1\<lparr>edit_state := s\<rparr>) }) = Some s2"
    "cursor s2 = Some (Cursor_func (found_at d2 m0))" "same_view t e (edit_state s2)" "fits_window s2 (edit_state s2)"
    "dw_offset_top (edit_state s2) = int tp2" "tp2 \<le> c" "0 \<le> height_at s1 t tp2 (dw_y_disp (edit_state s2)) c"
    "height_at s1 t tp2 (dw_y_disp (edit_state s2)) c + (asc + desc) \<le> dw_height e" "ready t s2"
  proof (cases "xc m1 = NO_CURSOR")
    case True
    then have m1: "m1 = m0"
      using s1(11) by blast
    have "dw_offset (edit_state s1) = int c" "window_ok t (edit_state s1)" "dw_height (edit_state s1) = dw_height e"
      using v1 c(1) by (simp_all add: same_view_def)
    with resync_bottom [of t s1 c m0] s1(2) nums c(2) fw obtain s' d p' where
      "resync env (text_display env) (text_backward_offset env) m0 s1 = Some s'" "ready t s'" "cursor s' = Some (Cursor_func (found_at d m0))"
      "same_view t (edit_state s1) (edit_state s')" "fits_window s' (edit_state s')" "dw_offset_top (edit_state s') = int p'" "p' \<le> c"
      "height_at s1 t p' (dw_y_disp (edit_state s')) c + (asc + desc) = dw_height e"
      by (auto simp: m0_def)
    then show ?thesis
      using True m1 h same_view_trans [OF v1] by (intro that [of s' d p']) simp_all
  next
    case False
    then obtain d where d: "m1 = found_at d m0" "cc_h d = asc + desc" "height_at s1 t tp1 (dw_y_disp (edit_state s1)) c = cc_y d"
      using s1(11) same1 by (auto simp: m0_def)
    have "asc + desc \<le> dw_height (edit_state s1)"
      using v1 h by (simp add: same_view_def)
    from adjust_y_cursor [OF s1(10) c(2) d(2) this s1(9) d(3)] obtain y where y:
      "adjust_y (found_at d m0) (edit_state s1) = Some ((edit_state s1)\<lparr>dw_y_disp := y\<rparr>)" "0 \<le> height_at s1 t tp1 y c"
      "height_at s1 t tp1 y c + (asc + desc) \<le> dw_height (edit_state s1)"
      by blast
    let ?e3 = "(edit_state s1)\<lparr>dw_y_disp := y\<rparr>"
    have "window_ok t (edit_state s1)"
      using v1 by (simp add: same_view_def)
    then have "window_ok t ?e3"
      by (simp add: window_ok_def text_window_def)
    then have v3: "same_view t e ?e3" "dw_offset_top ?e3 = int tp1"
      using v1 s1(9) by (simp_all add: same_view_def off_def dw_offset_top_def)
    have "?e3 = scroll_to (dw_offset_top (edit_state s1)) y (edit_state s1)"
      by (simp add: scroll_to_def set_dw_offset_top_def set_tracked_def dw_offset_top_def)
    with ready_scroll [OF s1(2)] have r3: "ready t (s1\<lparr>edit_state := ?e3\<rparr>)"
      by simp
    show ?thesis
      using False d(1) y v3 s1(4,10) fw v1 r3
      by (intro that [of "s1\<lparr>edit_state := ?e3\<rparr>" d tp1]) (simp_all add: fits_window_def same_view_def)
  qed
  define e3 where "e3 = (edit_state s2)\<lparr>dw_x_disp := (dw_x_disp (edit_state s2))(DIR_LTR := 0, DIR_RTL := 0)\<rparr>"
  have "window_ok t (edit_state s2)"
    using s2(3) by (simp add: same_view_def)
  then have w3: "window_ok t e3"
    by (simp add: e3_def window_ok_def text_window_def)
  have v3: "same_view t e e3" "dw_offset_top e3 = int tp2" "dw_y_disp e3 = dw_y_disp (edit_state s2)"
    using s2(3,5) w3 by (simp_all add: e3_def same_view_def off_def dw_offset_top_def)
  have off3: "dw_offset e3 = int c" "0 \<le> dw_offset_top e3" "dw_offset_top e3 \<le> int c" "dw_wrap (edit_state s2) = WRAP_LINE"
    using v3(1,2) c(1) s2(3,6) by (simp_all add: same_view_def window_ok_def)
  define d where "d = cursor_place ds0 e3 t c"
  have same2: "height_at s2 t p y c = height_at s1 t p y c" for p y
    unfolding height_at_def using s2(3,4) fw v1 by (intro arg_cong [where f = cc_y] same_layout_calls) (simp_all add: same_view_def fits_window_def)
  have "fits_window s2 e3"
    by (rule fits_view [OF s2(4), where t = t]) (use s2(3) v3(1) in \<open>simp add: same_view_def\<close>)
  from fits_place [OF this] have "d = call_of s2 t tp2 0 (dw_y_disp (edit_state s2)) c"
    by (simp add: d_def v3)
  then have dy: "cc_y d = height_at s1 t tp2 (dw_y_disp (edit_state s2)) c"
    using same2 by (simp add: height_at_def)
  have screen: "0 \<le> cc_y d" "cc_y d + (asc + desc) \<le> dw_height e" "cc_y d < dw_height e3"
    using s2(7,8) dy v3(1) font_height(3) by (simp_all add: same_view_def)
  have dx: "0 \<le> cc_x d" "cc_x d \<le> dw_width e - eol_glyph"
  proof -
    show "0 \<le> cc_x d"
      using cursor_place_facts(4) [OF w3 off3(2,3) c(2) w(2)] by (simp add: d_def)
    obtain s3 where s3: "display_init env e3 DISP_CURSOR ds0 = Some s3"
      using display_init_ready [OF w3 w(2)] by blast
    note j = init_fields [OF w3 s3 w(2)]
    have "d = call_of s3 t tp2 0 (dw_y_disp e3) c"
      unfolding d_def cursor_place_def v3(2) nat_int by (rule same_layout_calls) (simp_all add: j)
    then show "cc_x d \<le> dw_width e - eol_glyph"
      using call_of_within [OF j(2) s2(6) c(2)] j(8) v3(1) by (simp add: same_view_def)
  qed
  have arr2: "arrays_ok s2"
    using s2(9) by (simp add: ready_def)
  obtain s4 where s4: "print_text env (text_display env) (found_at d2 m0) s2 e3 =
      Some (found_at d (found_at d2 m0\<lparr>offsetc := int c, xc := NO_CURSOR, yc := NO_CURSOR\<rparr>), s4)"
    "same_view t e3 (edit_state s4)" "redrawn e3 (edit_state s4)"
    using print_text_cursor [OF w3 arr2 nums off3(1) c(2) off3(2,3) d_def screen(3)] by blast
  define e4 where "e4 = (edit_state s4)\<lparr>dw_cur_rtl := False\<rparr>"
  have v4: "same_view t e (edit_state s4)"
    by (rule same_view_trans [OF v3(1) s4(2)])
  then have "window_ok t (edit_state s4)"
    by (simp add: same_view_def)
  then have "window_ok t e4"
    by (simp add: e4_def window_ok_def text_window_def)
  then have v5: "same_view t e e4" "dw_offset_top e4 = int tp2" "dw_y_disp e4 = dw_y_disp e3"
    using v4 redrawn_fields(2,3) [OF s4(3)] v3(2) by (simp_all add: same_view_def e4_def off_def dw_offset_top_def)
  have dp: "d = cursor_place ds0 e4 t c"
    unfolding d_def by (rule place_in_view [OF v5(1) v3(1)]) (simp_all add: v3 v5)
  have rng: "int_range (dw_xleft e + cc_x d)" "int_range (dw_ytop e + cc_y d)"
    using area dx screen w(1) font_height by (simp_all add: int_range_def window_ok_def)
  have adj: "adjust_x (found_at d2 m0) s2 (edit_state s2) = Some e3"
    using off3(4) by (simp add: adjust_x_def e3_def)
  have ctx: "cursor_context s1 = Some m1" "cursor_context s2 = Some (found_at d2 m0)"
    using s1(4) s2(2) by (simp_all add: cursor_context_def)
  have cur: "show_cursor env (found_at d (found_at d2 m0\<lparr>offsetc := int c, xc := NO_CURSOR, yc := NO_CURSOR\<rparr>)) (edit_state s4) =
      Some (Some (dw_xleft e + cc_x d, dw_ytop e + cc_y d), [], edit_state s4)"
    using rng hw v4 by (simp add: show_cursor_def found_at_def same_view_def Let_def)
  have "generic_text_display env (text_display env) (text_backward_offset env) ds0 m True e =
      Some (e4, drawn s4 @ [], Some (dw_xleft e + cc_x d, dw_ytop e + cc_y d))"
    unfolding generic_text_display_def e1(1) bind.bind_lunit Let_def e2_def [symmetric] s off2 m0_def [symmetric] e2(2) s1(1)
      ctx s2(1) adj s4(1) prod.case if_True cur
    by (simp add: found_at_def found_place_def e4_def)
  then show ?thesis
    using dp v5(1,2) dx screen(1,2) s2(6) by (intro exI [of _ e4] exI [of _ "drawn s4 @ []"] exI [of _ d]) simp
qed

end

end
