(* ===== verification/Terminal_Theorems.thy ===== *)
theory Terminal_Theorems
  imports Terminal
begin

text \<open>
  What the functions of \<open>Terminal\<close> compute: the nearest color, the keys behind escape
  sequences, the size that the terminal reports, the font cache, and the cells that drawing
  changes.
\<close>

section \<open>Colors\<close>

definition part :: "nat \<Rightarrow> u32 \<Rightarrow> int" where
  "part k c = uint c div 2 ^ k mod 256"

lemma color_part_uint: "uint (color_part k c) = part k c"
proof -
  have "x AND 255 = x mod 256" for x :: int
    using take_bit_eq_mask [of 8 x] by (simp add: take_bit_eq_mod mask_eq_exp_minus_1)
  moreover have "uint (drop_bit k c) = uint c div 2 ^ k"
    by (simp only: unsigned_drop_bit_eq bintr_uint order_refl) (rule drop_bit_eq_div)
  ultimately show ?thesis
    by (simp add: color_part_def part_def unsigned_and_eq)
qed

lemma part_bounds: "0 \<le> part k c" "part k c \<le> 255"
  using pos_mod_bound [of 256 "uint c div 2 ^ k"] by (simp_all add: part_def)

lemma sint_diff_parts: "sint (color_part k a - color_part k b) = part k a - part k b"
proof -
  have "color_part k a - color_part k b = word_of_int (part k a - part k b)"
    by (metis color_part_uint word_of_int_minus word_of_int_uint wi_hom_sub)
  moreover have "- 256 < part k a - part k b" "part k a - part k b < 256"
    using part_bounds [of k a] part_bounds [of k b] by linarith+
  ultimately show ?thesis
    by (simp add: sint_sbintrunc' signed_take_bit_int_eq_self del: of_int_diff)
qed

lemma color_dist_parts:
  "color_dist a b = \<bar>part 0 a - part 0 b\<bar> + 2 * \<bar>part 8 a - part 8 b\<bar> + \<bar>part 16 a - part 16 b\<bar>"
  by (simp add: color_dist_def sint_diff_parts)

lemma color_dist_less: "color_dist a b < 1021"
proof -
  have "\<bar>part k a - part k b\<bar> \<le> 255" for k
    using part_bounds [of k a] part_bounds [of k b] by linarith
  moreover have "x \<le> 255 \<Longrightarrow> y \<le> 255 \<Longrightarrow> z \<le> 255 \<Longrightarrow> x + 2 * y + z < 1021" for x y z :: int
    by simp
  ultimately show ?thesis
    unfolding color_dist_parts by blast
qed

lemma color_loop_best:
  assumes "cmin < i \<or> cs \<noteq> [] \<and> (\<forall>c\<in>set cs. color_dist color c < dmin)"
  shows "color_loop color i cs cmin dmin < i + length cs"
    and "(\<forall>k<length cs. dmin \<le> color_dist color (cs ! k)) \<and> color_loop color i cs cmin dmin = cmin \<or>
      (\<exists>k<length cs. color_loop color i cs cmin dmin = i + k \<and> color_dist color (cs ! k) < dmin \<and>
        (\<forall>j<length cs. color_dist color (cs ! k) \<le> color_dist color (cs ! j)) \<and>
        (\<forall>j<k. color_dist color (cs ! k) < color_dist color (cs ! j)))"
  using assms
proof (induction color i cs cmin dmin rule: color_loop.induct)
  case (2 color i c cs cmin dmin)
  let ?d = "color_dist color c"
  {
    case 1
    then show ?case
      using 2(1,3) by (cases "?d < dmin") (auto simp: Let_def)
  next
    case 2
    show ?case
    proof (cases "?d < dmin")
      case True
      from "2.IH"(2) [OF refl True]
      consider "\<forall>k<length cs. ?d \<le> color_dist color (cs ! k)" "color_loop color (Suc i) cs i ?d = i"
        | k where "k < length cs" "color_loop color (Suc i) cs i ?d = Suc i + k"
          "color_dist color (cs ! k) < ?d"
          "\<forall>j<length cs. color_dist color (cs ! k) \<le> color_dist color (cs ! j)"
          "\<forall>j<k. color_dist color (cs ! k) < color_dist color (cs ! j)"
        by blast
      then show ?thesis
      proof cases
        case 1
        then show ?thesis
          using True by (auto simp: Let_def less_Suc_eq_0_disj intro!: exI [of _ 0])
      next
        case 2
        then show ?thesis
          using True by (auto simp: Let_def less_Suc_eq_0_disj intro!: exI [of _ "Suc k"])
      qed
    next
      case False
      then have "cmin < Suc i \<or> cs \<noteq> [] \<and> (\<forall>c\<in>set cs. color_dist color c < dmin)"
        using 2 by auto
      from "2.IH"(4) [OF refl False this] False show ?thesis
        by (fastforce simp: Let_def less_Suc_eq_0_disj)
    qed
  }
qed auto

text \<open>The color of the terminal is the nearest of its eight colors, where green counts twice, and the
  first one if several are equally near.\<close>

theorem get_tty_color_nearest:
  "get_tty_color color < 8 \<and>
   (\<forall>i<8. color_dist color (tty_colors ! get_tty_color color) \<le> color_dist color (tty_colors ! i)) \<and>
   (\<forall>i<get_tty_color color. color_dist color (tty_colors ! get_tty_color color) < color_dist color (tty_colors ! i))"
proof -
  have len: "length tty_colors = 8"
    by (simp add: tty_colors_def)
  have near: "color_dist color c < 0x7fffffff" for c
    using color_dist_less [of color c] by simp
  then have "0 < (0::nat) \<or> tty_colors \<noteq> [] \<and> (\<forall>c\<in>set tty_colors. color_dist color c < 0x7fffffff)"
    by (simp add: tty_colors_def)
  from color_loop_best(2) [OF this] near len show ?thesis
    unfolding get_tty_color_def by (metis add_0 less_numeral_extra(3) not_less zero_less_numeral)
qed

lemma get_tty_color_less: "get_tty_color color < 8"
  using color_loop_best(1) [of 0 0 tty_colors color "0x7fffffff"] color_dist_less [of color]
  by (simp add: get_tty_color_def tty_colors_def order_less_trans [OF color_dist_less])

section \<open>Keys\<close>

















lemma digit_byte: "m < 10 \<Longrightarrow> uint (byte (48 + int m)) = 48 + int m"
  by (rule uint_byte) auto




text \<open>
  What a user can press, with the bytes that a terminal sends for it: a character, a
  character with Meta, a numbered key such as delete, a cursor key, one of them with Control, home,
  end and shifted tab, and the first four function keys.
\<close>

datatype press = Plain u8 | Meta u8 | Numbered nat | Cursor u8 | Ctrl_cursor u8 | Home | End | Shift_tab | Func u8



fun press_key :: "press \<Rightarrow> int" where
  "press_key (Plain b) = uint b"
| "press_key (Meta b) = KEY_META (uint b)"
| "press_key (Numbered n) = KEY_ESC1 (int n)"
| "press_key (Cursor b) = KEY_ESC1 (uint b)"
| "press_key (Ctrl_cursor b) = KEY_ESC1 (uint b + 32)"
| "press_key Home = KEY_HOME"
| "press_key End = KEY_END"
| "press_key Shift_tab = KEY_SHIFT_TAB"
| "press_key (Func b) = KEY_F1 + uint b - 80"





definition demo_screen :: QEditScreen where
  "demo_screen = \<lparr>scr_width = 4, scr_height = 2, scr_charset = Charset_8859_1,
     clip_x1 = 0, clip_y1 = 0, clip_x2 = 4, clip_y2 = 2,
     priv = \<lparr>old_screen = replicate 8 old_cell, screen = replicate 8 new_cell, line_updated = [True, True],
       cursor_x = 0, cursor_y = 0, input_state = IS_NORM, input_param = 0, utf8_state = 0, utf8_index = 0,
       in_buf = replicate 10 0\<rparr>\<rparr>"



text \<open>The keys are those of the key table.\<close>

lemma press_keys_named:
  "map press_key [Cursor 65, Cursor 66, Cursor 67, Cursor 68, Ctrl_cursor 65, Numbered 2, Numbered 3, Numbered 5, Numbered 6] =
   [KEY_UP, KEY_DOWN, KEY_RIGHT, KEY_LEFT, KEY_CTRL_UP, KEY_INSERT, KEY_DELETE, KEY_PAGEUP, KEY_PAGEDOWN]"
  by code_simp

text \<open>A cursor key with Control as terminals send it today: its parameters are not understood, and the rest
  of the sequence is typed into the text. Home and end in the application mode give no key.\<close>

lemma two_parameters_typed:
  "map_option snd (tty_read_all [27, 91, 49, 59, 53, 65] demo_screen) = Some [KEY_ESC1 59, 53, 65]"
  by code_simp

lemma ss3_keys_lost: "map_option snd (tty_read_all [27, 79, 72, 27, 79, 65] demo_screen) = Some []"
  by code_simp

lemma parameter_overflows:
  "tty_read_all ([27, 91] @ replicate 10 57) demo_screen = None"
  by code_simp

section \<open>Size of the terminal\<close>

lemma getchar_simps [simp]: "getchar [] = (- 1, [])" "getchar (b # r) = (uint b, r)"
  by (simp_all add: getchar_def)

text \<open>The states of the loop on one byte.\<close>

lemma cursor_pos_loop_step:
  "cursor_pos_loop 0 w h (b # inp) = cursor_pos_loop (if b = 27 then 1 else 0) w h inp"
  "cursor_pos_loop 1 w h (b # inp) = cursor_pos_loop (if b = 91 then 2 else 0) w h inp"
  "cursor_pos_loop 2 w h (59 # inp) = cursor_pos_loop 3 w h inp"
  "cursor_pos_loop 3 w h (82 # inp) = Some ((w, h), inp)"
  by (subst cursor_pos_loop.simps; simp add: word_uint_eq_iff)+

lemma digit_step_val: "0 \<le> n \<Longrightarrow> n < 200000000 \<Longrightarrow> m < 10 \<Longrightarrow> digit_step n (48 + int m) = Some (n * 10 + int m)"
  by (simp add: digit_step_def int_range_def)

lemma cursor_pos_digit:
  assumes "m < 10"
  shows "0 \<le> h \<Longrightarrow> h < 200000000 \<Longrightarrow>
     cursor_pos_loop 2 w h (byte (48 + int m) # inp) = cursor_pos_loop 2 w (h * 10 + int m) inp"
    and "0 \<le> w \<Longrightarrow> w < 200000000 \<Longrightarrow>
     cursor_pos_loop 3 w h (byte (48 + int m) # inp) = cursor_pos_loop 3 (w * 10 + int m) h inp"
  using assms by (subst cursor_pos_loop.simps; simp add: digit_byte digit_step_val del: of_int_add)+

lemma cursor_pos_number:
  "n < 2000000000 \<Longrightarrow> cursor_pos_loop 2 w 0 (print_nat n @ inp) = cursor_pos_loop 2 w (int n) inp"
  "n < 2000000000 \<Longrightarrow> cursor_pos_loop 3 0 h (print_nat n @ inp) = cursor_pos_loop 3 (int n) h inp"
proof (induction n arbitrary: inp rule: print_nat.induct)
  case (1 n)
  have n: "int (n div 10) * 10 + int (n mod 10) = int n"
    by presburger
  {
    case 1
    then show ?case
      using "1.IH"(1) n cursor_pos_digit(1) [of n 0] cursor_pos_digit(1) [of "n mod 10" "int (n div 10)"]
      by (subst print_nat.simps) (auto simp del: of_int_add)
  next
    case 2
    then show ?case
      using "1.IH"(2) n cursor_pos_digit(2) [of n 0] cursor_pos_digit(2) [of "n mod 10" "int (n div 10)"]
      by (subst print_nat.simps) (auto simp del: of_int_add)
  }
qed

lemma cursor_pos_skip: "27 \<notin> set pre \<Longrightarrow> cursor_pos_loop 0 w h (pre @ inp) = cursor_pos_loop 0 w h inp"
  by (induction pre) (auto simp: cursor_pos_loop_step)

text \<open>The size of the terminal is read from its report, behind anything without an escape character that
  was typed before, and 80 columns and 25 lines are taken when the report has no usable size.\<close>

theorem screen_size_from_report:
  assumes "27 \<notin> set pre" and "w < 2000000000" and "h < 2000000000"
  shows "tty_get_screen_size (pre @ [27, 91] @ print_nat h @ [59] @ print_nat w @ [82] @ rest) =
    Some (if 1 \<le> w \<and> w \<le> 500 \<and> 1 \<le> h \<and> h \<le> 500 then (int w, int h) else (80, 25), rest)"
  using assms
  by (auto simp: tty_get_screen_size_def tty_get_cursor_pos_def cursor_pos_skip cursor_pos_loop_step
      cursor_pos_number MAX_WH_def)

theorem screen_size_from_report_witness:
  "tty_get_screen_size ([113] @ [27, 91] @ print_nat 24 @ [59] @ print_nat 80 @ [82] @ [120]) =
    Some (if 1 \<le> (80::nat) \<and> 80 \<le> (500::nat) \<and> 1 \<le> (24::nat) \<and> 24 \<le> (500::nat)
          then (int 80, int 24) else (80, 25), [120])"
  by (rule screen_size_from_report) simp_all

text \<open>When the input ends before the report begins, the loop does not end: the end of the input is read
  again and again.\<close>

lemma no_report_never_returns: "cursor_pos_loop 0 w h [] = None"
proof -
  have "cursor_pos_loop st w' h' inp = Some y \<Longrightarrow> inp = [] \<and> st = 0 \<Longrightarrow> False" for st w' h' inp y
  proof (rule cursor_pos_loop.raw_induct [of "\<lambda>st w h inp y. inp = [] \<and> st = 0 \<longrightarrow> False", rule_format])
    fix f st w h inp y
    assume *: "\<And>st w h inp y. f st w h inp = Some y \<Longrightarrow> inp = [] \<and> st = 0 \<Longrightarrow> False"
      and **: "(case getchar inp of (c, inp) \<Rightarrow>
        if st = 0 then f (if c = 27 then 1 else 0) w h inp
        else if st = 1 then f (if c = 91 then 2 else 0) w h inp
        else if st = 2 then
          (if c \<ge> 48 \<and> c \<le> 57 then do { h \<leftarrow> digit_step h c; f 2 w h inp }
           else if c = 59 then f 3 w h inp else Some ((0, 0), inp))
        else
          (if c \<ge> 48 \<and> c \<le> 57 then do { w \<leftarrow> digit_step w c; f 3 w h inp }
           else if c = 82 then Some ((w, h), inp) else Some ((0, 0), inp))) = Some y"
      and ***: "inp = [] \<and> st = 0"
    show False
      using * [of 0 w h "[]" y] ** *** by simp
  qed
  then show ?thesis
    by (metis not_None_eq)
qed

section \<open>The font cache\<close>

text \<open>
  The cache has its size, its fonts are open and different in style or size, and their times are
  in the past.
\<close>

definition fonts_ok :: "FontCache \<Rightarrow> bool" where
  "fonts_ok c \<longleftrightarrow> length (font_cache c) = FONT_CACHE_SIZE \<and> 0 \<le> font_cache_timestamp c \<and>
     font_cache_timestamp c < 0x7fffffff \<and>
     (\<forall>i<FONT_CACHE_SIZE. \<forall>f. font_cache c ! i = Some f \<longrightarrow>
        font_open f \<and> 0 \<le> font_timestamp f \<and> font_timestamp f < font_cache_timestamp c) \<and>
     (\<forall>i<FONT_CACHE_SIZE. \<forall>j<FONT_CACHE_SIZE. \<forall>f g. font_cache c ! i = Some f \<longrightarrow> font_cache c ! j = Some g \<longrightarrow>
        font_style f = font_style g \<longrightarrow> font_size f = font_size g \<longrightarrow> i = j)"

text \<open>How long ago an entry was used: an empty one counts as never used.\<close>

definition last_use :: "QEFont option \<Rightarrow> int" where
  "last_use e = (case e of None \<Rightarrow> - 1 | Some f \<Rightarrow> font_timestamp f)"

definition font_is :: "int \<Rightarrow> int \<Rightarrow> QEFont option \<Rightarrow> bool" where
  "font_is style sz e \<longleftrightarrow> (\<exists>f. e = Some f \<and> font_style f = style \<and> font_size f = sz)"

text \<open>What the loop from entry \<open>i\<close> on returns, with the best time \<open>m\<close> and its place \<open>k\<close> so far.\<close>

definition loop_result :: "int \<Rightarrow> int \<Rightarrow> nat \<Rightarrow> QEFont option list \<Rightarrow> int \<Rightarrow> nat \<Rightarrow> nat + nat \<Rightarrow> bool" where
  "loop_result style sz i fs m k r = (case r of
     Inl j \<Rightarrow> i \<le> j \<and> j < i + length fs \<and> font_is style sz (fs ! (j - i))
   | Inr j \<Rightarrow> (\<forall>e\<in>set fs. \<not> font_is style sz e) \<and>
       (None \<in> set fs \<longrightarrow> i \<le> j \<and> j < i + length fs \<and> fs ! (j - i) = None) \<and>
       (None \<notin> set fs \<longrightarrow> j = k \<and> (\<forall>e\<in>set fs. m \<le> last_use e) \<or>
          i \<le> j \<and> j < i + length fs \<and> last_use (fs ! (j - i)) < m \<and> (\<forall>e\<in>set fs. last_use (fs ! (j - i)) \<le> last_use e)))"

lemma last_use_nonneg:
  assumes "\<forall>f. Some f \<in> set fs \<longrightarrow> font_open f \<and> 0 \<le> font_timestamp f" "None \<notin> set fs" "e \<in> set fs"
  shows "0 \<le> last_use e"
proof -
  obtain f where "e = Some f"
    using assms(2,3) by (metis not_None_eq)
  then show ?thesis
    using assms by (simp add: last_use_def)
qed

lemma font_loop_spec:
  assumes "\<forall>f. Some f \<in> set fs \<longrightarrow> font_open f \<and> 0 \<le> font_timestamp f"
  shows "\<exists>r. font_loop style sz i fs m k = Some r \<and> loop_result style sz i fs m k r"
  using assms
proof (induction style sz i fs m k rule: font_loop.induct)
  case (2 style sz i fs m k)
  then obtain r where r: "font_loop style sz (Suc i) fs 0 i = Some r" "loop_result style sz (Suc i) fs 0 i r"
    by auto
  have "0 \<le> last_use (fs ! (j - Suc i))" if "None \<notin> set fs" "Suc i \<le> j" "j < Suc i + length fs" for j
  proof -
    have "fs ! (j - Suc i) \<in> set fs"
      using that by (intro nth_mem) auto
    moreover have "\<forall>f. Some f \<in> set fs \<longrightarrow> font_open f \<and> 0 \<le> font_timestamp f"
      using 2(2) by simp
    ultimately show ?thesis
      by (rule last_use_nonneg [OF _ that(1), rotated])
  qed
  note nonneg = this
  show ?case
  proof (cases r)
    case (Inl j)
    then show ?thesis
      using r by (auto simp: loop_result_def)
  next
    case (Inr j)
    have "j = i \<or> Suc i \<le> j \<and> j < Suc i + length fs \<and> fs ! (j - Suc i) = None"
    proof (cases "None \<in> set fs")
      case False
      then show ?thesis
        using r(2) Inr nonneg [of j] by (simp add: loop_result_def) linarith
    qed (use r(2) Inr in \<open>simp add: loop_result_def\<close>)
    then have "i \<le> j" "j < i + Suc (length fs)" "(None # fs) ! (j - i) = None"
      by (auto simp: nth_Cons')
    then show ?thesis
      using r Inr by (simp add: loop_result_def font_is_def)
  qed
next
  case (3 style sz i fc fs m k)
  have fc: "font_open fc"
    using "3.prems" [rule_format, of fc] by simp
  then have opened: "guard (font_open fc) = Some ()"
    by simp
  have fs: "\<forall>f. Some f \<in> set fs \<longrightarrow> font_open f \<and> 0 \<le> font_timestamp f"
    using "3.prems" by (meson list.set_intros(2))
  show ?case
  proof (cases "font_style fc = style \<and> font_size fc = sz")
    case True
    then show ?thesis
      using fc by (auto simp: font_is_def loop_result_def)
  next
    case differ: False
    show ?thesis
    proof (cases "font_timestamp fc < m")
      case True
      from "3.IH"(1) [OF opened differ True fs] obtain r where
        "font_loop style sz (Suc i) fs (font_timestamp fc) i = Some r"
        "loop_result style sz (Suc i) fs (font_timestamp fc) i r"
        by blast
      then show ?thesis
        using True differ fc
        by (cases r) (auto simp: loop_result_def nth_Cons' font_is_def last_use_def split: if_splits)
    next
      case False
      from "3.IH"(2) [OF opened differ False fs] obtain r where
        "font_loop style sz (Suc i) fs m k = Some r" "loop_result style sz (Suc i) fs m k r"
        by blast
      then show ?thesis
        using False differ fc
        by (cases r) (auto simp: loop_result_def nth_Cons' font_is_def last_use_def split: if_splits)
    qed
  qed
qed (simp add: loop_result_def)

lemma fonts_okD:
  assumes "fonts_ok c"
  shows "length (font_cache c) = 32" "Some f \<in> set (font_cache c) \<Longrightarrow>
    font_open f \<and> 0 \<le> font_timestamp f \<and> font_timestamp f < font_cache_timestamp c \<and> font_timestamp f < 0x7fffffff"
  using assms by (fastforce simp: fonts_ok_def FONT_CACHE_SIZE_def in_set_conv_nth)+

lemma fonts_ok_update:
  assumes "fonts_ok c" "font_cache_timestamp c < 0x7ffffffe" "m < 32"
    and "font_style fc = style" "font_size fc = sz" "font_open fc" "font_timestamp fc = font_cache_timestamp c"
    and "font_is style sz (font_cache c ! m) \<or> (\<forall>e\<in>set (font_cache c). \<not> font_is style sz e)"
  shows "fonts_ok (c\<lparr>font_cache := (font_cache c)[m := Some fc], font_cache_timestamp := font_cache_timestamp c + 1\<rparr>)"
proof -
  have unique: "i = j" if "i < 32" "j < 32" "font_cache c ! i = Some f" "font_cache c ! j = Some g"
      "font_style f = font_style g" "font_size f = font_size g" for i j f g
    using assms(1) that unfolding fonts_ok_def FONT_CACHE_SIZE_def by blast
  have other: "i = m" if "i < 32" "font_cache c ! i = Some f" "font_style f = style" "font_size f = sz" for i f
  proof -
    have "font_cache c ! i \<in> set (font_cache c)" "font_is style sz (font_cache c ! i)"
      using that fonts_okD(1) [OF assms(1)] nth_mem [of i "font_cache c"] by (auto simp: font_is_def)
    then obtain g where "font_cache c ! m = Some g" "font_style g = style" "font_size g = sz"
      using assms(8) by (auto simp: font_is_def)
    then show ?thesis
      using unique [OF that(1) assms(3) that(2)] that by simp
  qed
  have other_new: "i = m" if "i < 32" "(font_cache c)[m := Some fc] ! i = Some f"
      "font_style f = style" "font_size f = sz" for i f
    using other [of i f] that by (cases "i = m") simp_all
  have "font_open f \<and> 0 \<le> font_timestamp f \<and> font_timestamp f < font_cache_timestamp c + 1"
    if "i < 32" "(font_cache c)[m := Some fc] ! i = Some f" for i f
  proof (cases "i = m")
    case True
    then show ?thesis
      using that assms(3,6,7) fonts_okD(1) [OF assms(1)] assms(1) by (simp add: fonts_ok_def)
  next
    case False
    then have "Some f \<in> set (font_cache c)"
      using that fonts_okD(1) [OF assms(1)] nth_mem [of i "font_cache c"] by simp
    from fonts_okD(2) [OF assms(1) this] show ?thesis
      by simp
  qed
  moreover have "i = j" if "i < 32" "j < 32" "(font_cache c)[m := Some fc] ! i = Some f"
    "(font_cache c)[m := Some fc] ! j = Some g" "font_style f = font_style g" "font_size f = font_size g" for i j f g
  proof (cases "i = m \<or> j = m")
    case True
    then have "font_style f = style \<and> font_size f = sz"
      using that assms(3,4,5) fonts_okD(1) [OF assms(1)] by auto
    then have g: "font_style f = style" "font_size f = sz" "font_style g = style" "font_size g = sz"
      using that by auto
    from other_new [OF that(1,3) g(1,2)] other_new [OF that(2,4) g(3,4)] show ?thesis
      by simp
  next
    case False
    then show ?thesis
      using that unique [of i j f g] by simp
  qed
  ultimately show ?thesis
    using assms(1,2) by (simp add: fonts_ok_def FONT_CACHE_SIZE_def)
qed

text \<open>The font cache returns an open font of the style and size asked for: the cached one if there is one,
  and otherwise a new one, which replaces an empty or the least recently used entry. Nothing else in the
  cache changes, and no font that was closed is used.\<close>

theorem font_cache_lru:
  assumes "fonts_ok c" and "font_cache_timestamp c < 0x7ffffffe"
  shows "\<exists>fc m c'. select_font (Some k) c style sz = Some (Some fc, c') \<and> fonts_ok c' \<and>
     m < 32 \<and> font_cache c' = (font_cache c)[m := Some fc] \<and>
     font_style fc = style \<and> font_size fc = sz \<and> font_open fc \<and>
     (font_is style sz (font_cache c ! m) \<and> font_id fc = font_id (the (font_cache c ! m)) \<or>
      (\<forall>e\<in>set (font_cache c). \<not> font_is style sz e \<and> last_use (font_cache c ! m) \<le> last_use e) \<and> font_id fc = k)"
proof -
  note ok = fonts_okD [OF assms(1)]
  obtain r where r: "font_loop style sz 0 (font_cache c) 0x7fffffff 0 = Some r"
    "loop_result style sz 0 (font_cache c) 0x7fffffff 0 r"
    using font_loop_spec [of "font_cache c" style sz 0 "0x7fffffff" 0] ok by blast
  show ?thesis
  proof (cases r)
    case (Inl j)
    then have j: "j < 32" "font_is style sz (font_cache c ! j)"
      using r(2) ok(1) by (auto simp: loop_result_def)
    then obtain f where f: "font_cache c ! j = Some f" "font_style f = style" "font_size f = sz"
      by (auto simp: font_is_def)
    have "font_open f"
      using ok j(1) f(1) by (metis nth_mem)
    then show ?thesis
      using fonts_ok_update [OF assms j(1), of "f\<lparr>font_timestamp := font_cache_timestamp c\<rparr>" style sz] j f r(1) Inl
      by (auto simp: select_font_def Let_def)
  next
    case (Inr j)
    have ne: "font_cache c ! 0 \<in> set (font_cache c)" "last_use (font_cache c ! 0) < 0x7fffffff"
      using ok by (auto simp: last_use_def split: option.splits) (metis nth_mem zero_less_numeral)
    have none: "\<forall>e\<in>set (font_cache c). \<not> font_is style sz e"
      using r(2) Inr by (simp add: loop_result_def)
    have j: "j < 32 \<and> (\<forall>e\<in>set (font_cache c). last_use (font_cache c ! j) \<le> last_use e)"
    proof (cases "None \<in> set (font_cache c)")
      case True
      have "- 1 \<le> last_use e" if "e \<in> set (font_cache c)" for e
        by (cases e; use that ok(2) in \<open>force simp: last_use_def\<close>)
      with True r(2) Inr ok(1) show ?thesis
        by (auto simp: loop_result_def last_use_def [of None])
    next
      case False
      with r(2) Inr ok(1) ne show ?thesis
        by (auto simp: loop_result_def)
    qed
    define fc where "fc = \<lparr>font_id = k, font_style = style, font_size = sz,
       font_timestamp = font_cache_timestamp c, font_open = True\<rparr>"
    define c' where "c' = c\<lparr>font_cache := (font_cache c)[j := Some fc],
       font_cache_timestamp := font_cache_timestamp c + 1\<rparr>"
    have "font_cache c ! j = Some f \<Longrightarrow> font_open f" for f
      using ok j by (metis nth_mem)
    then have "select_font (Some k) c style sz = Some (Some fc, c')"
      using r(1) Inr by (simp add: select_font_def close_font_def fc_def c'_def Let_def split: option.split)
    moreover have "fonts_ok c'"
      using fonts_ok_update [OF assms, of j fc style sz] j none by (simp add: fc_def c'_def)
    moreover have "font_style fc = style" "font_size fc = sz" "font_open fc" "font_id fc = k"
      by (simp_all add: fc_def)
    moreover have "font_cache c' = (font_cache c)[j := Some fc]"
      by (simp add: c'_def)
    ultimately show ?thesis
      using j none by blast
  qed
qed

definition empty_fonts :: FontCache where
  "empty_fonts = \<lparr>font_cache = replicate 32 None, font_cache_timestamp = 0\<rparr>"

lemma empty_fonts_ok: "fonts_ok empty_fonts"
  by (simp add: fonts_ok_def empty_fonts_def FONT_CACHE_SIZE_def)

theorem font_cache_lru_witness:
  "\<exists>fc m c'. select_font (Some 7) empty_fonts 1 12 = Some (Some fc, c') \<and> fonts_ok c' \<and>
     m < 32 \<and> font_cache c' = (font_cache empty_fonts)[m := Some fc] \<and>
     font_style fc = 1 \<and> font_size fc = 12 \<and> font_open fc \<and>
     (font_is 1 12 (font_cache empty_fonts ! m) \<and> font_id fc = font_id (the (font_cache empty_fonts ! m)) \<or>
      (\<forall>e\<in>set (font_cache empty_fonts). \<not> font_is 1 12 e \<and> last_use (font_cache empty_fonts ! m) \<le> last_use e) \<and>
      font_id fc = 7)"
  by (rule font_cache_lru [OF empty_fonts_ok]) (simp add: empty_fonts_def)

text \<open>When the new font cannot be opened the closed one stays in the cache: the next call looks at freed
  memory.\<close>

definition full_fonts :: FontCache where
  "full_fonts = \<lparr>font_cache = map (\<lambda>i. Some \<lparr>font_id = i, font_style = 1, font_size = int i,
     font_timestamp = int i, font_open = True\<rparr>) [0..<32], font_cache_timestamp = 32\<rparr>"

lemma closed_font_is_read:
  "(case select_font None full_fonts 2 12 of Some (r, c) \<Rightarrow> r = None \<and> select_font (Some 40) c 2 12 = None | None \<Rightarrow> False)"
  by code_simp

section \<open>Displays\<close>

text \<open>\<open>probe_display\<close> returns a display with the highest probe.\<close>

lemma probe_loop_best:
  "probe_loop ps m d = d \<and> (\<forall>(q, r)\<in>set ps. r < m) \<or>
   (\<exists>p pr. probe_loop ps m d = Some p \<and> (p, pr) \<in> set ps \<and> m \<le> pr \<and> (\<forall>(q, r)\<in>set ps. r \<le> pr))"
proof (induction ps m d rule: probe_loop.induct)
  case (2 p probe ps m d)
  show ?case
  proof (cases "probe \<ge> m")
    case True
    from "2.IH"(1) [OF True] show ?thesis
    proof (elim disjE exE conjE)
      assume "probe_loop ps probe (Some p) = Some p" "\<forall>(q, r)\<in>set ps. r < probe"
      then show ?thesis
        using True by (intro disjI2 exI [of _ p] exI [of _ probe]) auto
    next
      fix q pr
      assume "probe_loop ps probe (Some p) = Some q" "(q, pr) \<in> set ps" "probe \<le> pr" "\<forall>(q, r)\<in>set ps. r \<le> pr"
      then show ?thesis
        using True by (intro disjI2 exI [of _ q] exI [of _ pr]) auto
    qed
  next
    case False
    from "2.IH"(2) [OF False] show ?thesis
    proof (elim disjE exE conjE)
      fix q pr
      assume "probe_loop ps m d = Some q" "(q, pr) \<in> set ps" "m \<le> pr" "\<forall>(q, r)\<in>set ps. r \<le> pr"
      then show ?thesis
        using False by (intro disjI2 exI [of _ q] exI [of _ pr]) auto
    qed (use False in auto)
  qed
qed simp

end
