(* ===== verification/Terminal_Output.thy ===== *)
theory Terminal_Output
  imports Terminal_Theorems
begin

text \<open>
  The screen of the terminal. An abstract terminal reads the bytes that \<open>term_flush\<close> writes, as
  the standard for escape sequences says, and the theorem is that it shows the cells of
  \<open>screen\<close>, whatever has been drawn in whatever order. Below it are the lemmas on which cells
  an operation changes.
\<close>

section \<open>Which cells change\<close>

lemma change_cell_spec:
  "0 \<le> ptr \<Longrightarrow> ptr < int (length scr) \<Longrightarrow> change_cell f ptr scr = Some (scr[nat ptr := f (scr ! nat ptr)])"
  by (simp add: change_cell_def)

lemma fill_cells_spec:
  assumes "0 \<le> ptr" and "ptr + int n \<le> int (length scr)"
  shows "\<exists>scr'. fill_cells f n ptr scr = Some scr' \<and> length scr' = length scr \<and>
    (\<forall>i<length scr. scr' ! i = (if ptr \<le> int i \<and> int i < ptr + int n then f (scr ! i) else scr ! i))"
  using assms
proof (induction n arbitrary: ptr scr)
  case (Suc n)
  define s1 where "s1 = scr[nat ptr := f (scr ! nat ptr)]"
  have "ptr + 1 + int n \<le> int (length s1)"
    using Suc.prems by (simp add: s1_def)
  then obtain scr' where r: "fill_cells f n (ptr + 1) s1 = Some scr'" "length scr' = length s1"
    "\<forall>i<length s1. scr' ! i = (if ptr + 1 \<le> int i \<and> int i < ptr + 1 + int n then f (s1 ! i) else s1 ! i)"
    using Suc.IH [of "ptr + 1" s1] Suc.prems by auto
  have "scr' ! i = (if ptr \<le> int i \<and> int i < ptr + int (Suc n) then f (scr ! i) else scr ! i)"
    if "i < length scr" for i
    using r(3) that Suc.prems by (auto simp: s1_def nth_list_update nat_eq_iff)
  then show ?case
    using r Suc.prems by (simp add: change_cell_spec s1_def)
qed auto

text \<open>
  \<open>within lo hi P a b\<close>: the cells of \<open>b\<close> are those of \<open>a\<close> except from \<open>lo\<close> to \<open>hi\<close>, and all fulfil \<open>P\<close> if those
  of \<open>a\<close> do.
\<close>

definition within :: "int \<Rightarrow> int \<Rightarrow> (TTYChar \<Rightarrow> bool) \<Rightarrow> TTYChar list \<Rightarrow> TTYChar list \<Rightarrow> bool" where
  "within lo hi P a b \<longleftrightarrow> length b = length a \<and>
     (\<forall>i<length a. \<not> (lo \<le> int i \<and> int i < hi) \<longrightarrow> b ! i = a ! i) \<and>
     ((\<forall>c\<in>set a. P c) \<longrightarrow> (\<forall>c\<in>set b. P c))"

lemma within_refl [simp]: "within lo hi P a a"
  by (simp add: within_def)

lemma within_trans: "within lo hi P a b \<Longrightarrow> within lo hi P b c \<Longrightarrow> within lo hi P a c"
  by (simp add: within_def)

lemma change_cell_within:
  assumes "0 \<le> lo" "lo \<le> ptr" "ptr < hi" "hi \<le> int (length scr)" and "\<And>c. P c \<Longrightarrow> P (f c)"
  shows "\<exists>scr'. change_cell f ptr scr = Some scr' \<and> within lo hi P scr scr'"
  using assms by (auto simp: change_cell_spec within_def nth_list_update set_update_memI dest!: set_update_subset_insert [THEN subsetD])

lemma fill_cells_within:
  assumes "0 \<le> lo" "lo \<le> ptr" "ptr + int n \<le> hi" "hi \<le> int (length scr)" and "\<And>c. P c \<Longrightarrow> P (f c)"
  shows "\<exists>scr'. fill_cells f n ptr scr = Some scr' \<and> within lo hi P scr scr'"
proof -
  obtain scr' where r: "fill_cells f n ptr scr = Some scr'" "length scr' = length scr"
    "\<forall>i<length scr. scr' ! i = (if ptr \<le> int i \<and> int i < ptr + int n then f (scr ! i) else scr ! i)"
    using fill_cells_spec [of ptr n scr f] assms by force
  have "P c" if all: "\<forall>c\<in>set scr. P c" and mem: "c \<in> set scr'" for c
  proof -
    obtain i where i: "i < length scr" "c = scr' ! i"
      using mem r(2) by (auto simp: in_set_conv_nth)
    then have "P (scr ! i)" "P (f (scr ! i))"
      using all assms(5) by simp_all
    then show ?thesis
      using r(3) i by simp
  qed
  then show ?thesis
    using r assms by (auto simp: within_def)
qed

text \<open>Characters that a string may put into cells fulfilling \<open>P\<close>.\<close>

definition puts :: "(TTYChar \<Rightarrow> bool) \<Rightarrow> nat \<Rightarrow> u32 list \<Rightarrow> bool" where
  "puts P fg str \<longleftrightarrow> (\<forall>c. P c \<longrightarrow> P (put_cell fg 32 c)) \<and>
     (\<forall>cc\<in>set str. \<forall>c. P c \<longrightarrow> P (put_cell fg (ucast cc) c) \<and>
        (term_glyph_width cc \<noteq> 1 \<longrightarrow> P (put_cell fg 0xffff c)))"

lemma term_glyph_width_range: "term_glyph_width c = 1 \<or> term_glyph_width c = 2"
  by (simp add: term_glyph_width_def)

lemma draw_loop_within:
  assumes "0 \<le> lo" "lo \<le> ptr" "ptr \<le> base + x" "base + cx2 \<le> int (length scr)" "puts P fg str"
  shows "\<exists>scr'. draw_loop cx2 fg str x ptr scr = Some scr' \<and> within lo (base + cx2) P scr scr'"
  using assms
proof (induction str arbitrary: x ptr scr)
  case (Cons cc str)
  let ?w = "term_glyph_width cc"
  have w: "?w = 1 \<or> ?w = 2"
    by (rule term_glyph_width_range)
  show ?case
  proof (cases "x + ?w > cx2")
    case False
    obtain s1 where s1: "change_cell (put_cell fg (ucast cc)) ptr scr = Some s1" "within lo (base + cx2) P scr s1"
      using change_cell_within [of lo ptr "base + cx2" scr P "put_cell fg (ucast cc)"] Cons.prems False w
      by (auto simp: puts_def)
    have "\<exists>s2. fill_cells (put_cell fg 0xffff) (nat (?w - 1)) (ptr + 1) s1 = Some s2 \<and> within lo (base + cx2) P s1 s2"
    proof (cases "?w = 1")
      case False
      with w Cons.prems \<open>\<not> x + ?w > cx2\<close> s1(2) show ?thesis
        by (intro fill_cells_within) (auto simp: puts_def within_def)
    qed simp
    then obtain s2 where s2: "fill_cells (put_cell fg 0xffff) (nat (?w - 1)) (ptr + 1) s1 = Some s2"
      "within lo (base + cx2) P s1 s2"
      by blast
    have "length s2 = length scr"
      using s1(2) s2(2) by (simp add: within_def)
    then obtain s3 where "draw_loop cx2 fg str (x + ?w) (ptr + 1 + int (nat (?w - 1))) s2 = Some s3"
      "within lo (base + cx2) P s2 s3"
      using Cons.IH [of "ptr + 1 + int (nat (?w - 1))" "x + ?w" s2] Cons.prems w by (auto simp: puts_def)
    then show ?thesis
      using False s1 s2 by (auto simp: Let_def intro: within_trans)
  qed (simp add: Let_def)
qed simp

lemma clip_left_within:
  assumes "0 \<le> base + cx1" "base + cx2 \<le> int (length scr)" "x < cx1" "puts P fg str"
  shows "\<exists>str' x' ptr' scr'. clip_left cx1 cx2 fg str x (base + cx1) scr = Some (str', x', ptr', scr') \<and>
    within (base + cx1) (base + cx2) P scr scr' \<and> puts P fg str' \<and>
    (str' = [] \<or> base + cx1 \<le> ptr' \<and> ptr' \<le> base + x')"
  using assms(3,4)
proof (induction str arbitrary: x)
  case (Cons cc str)
  let ?x = "x + term_glyph_width cc"
  show ?case
  proof (cases "?x \<ge> cx1")
    case True
    define n where "n = (if cx2 < ?x then cx2 else ?x) - cx1"
    have n: "int (nat n) \<le> ?x - cx1" "n > 0 \<Longrightarrow> cx1 + n \<le> cx2"
      using True by (auto simp: n_def)
    have "\<exists>s. fill_cells (put_cell fg 32) (nat n) (base + cx1) scr = Some s \<and> within (base + cx1) (base + cx2) P scr s"
    proof (cases "n > 0")
      case True
      then show ?thesis
        using n(2) assms(1,2) Cons.prems by (intro fill_cells_within) (auto simp: puts_def)
    qed simp
    then show ?thesis
      using True n(1) Cons.prems by (auto simp: Let_def n_def [symmetric] puts_def)
  next
    case False
    then show ?thesis
      using Cons.IH [of ?x] Cons.prems by (auto simp: Let_def puts_def)
  qed
qed auto

section \<open>The geometry of a screen\<close>

definition geometry :: "QEditScreen \<Rightarrow> bool" where
  "geometry s \<longleftrightarrow> 0 < scr_width s \<and> 0 < scr_height s \<and>
     int (length (screen (priv s))) = scr_width s * scr_height s \<and>
     int (length (old_screen (priv s))) = scr_width s * scr_height s \<and>
     int (length (line_updated (priv s))) = scr_height s \<and>
     0 \<le> clip_x1 s \<and> 0 \<le> clip_y1 s \<and> clip_x2 s \<le> scr_width s \<and> clip_y2 s \<le> scr_height s"

lemma line_fits: "0 \<le> y \<Longrightarrow> y < h \<Longrightarrow> 0 \<le> w \<Longrightarrow> y * w + w \<le> w * h" for y :: int
proof -
  assume "0 \<le> y" "y < h" "0 \<le> w"
  then have "(y + 1) * w \<le> h * w"
    by (intro mult_right_mono) auto
  then show ?thesis
    by (simp add: algebra_simps)
qed

text \<open>Drawing any text changes only its line, within the clip rectangle.\<close>

lemma draw_text_within:
  assumes "geometry s" and "puts P (get_tty_color color) str"
  shows "\<exists>l scr. term_draw_text s x y str color = Some (s\<lparr>priv := (priv s)\<lparr>line_updated := l, screen := scr\<rparr>\<rparr>) \<and>
    (if clip_y1 s \<le> y \<and> y < clip_y2 s \<and> x < clip_x2 s
     then l = (line_updated (priv s))[nat y := True] \<and>
       within (y * scr_width s + clip_x1 s) (y * scr_width s + clip_x2 s) P (screen (priv s)) scr
     else l = line_updated (priv s) \<and> scr = screen (priv s))"
proof (cases "clip_y1 s \<le> y \<and> y < clip_y2 s \<and> x < clip_x2 s")
  case False
  then show ?thesis
    by (intro exI [of _ "line_updated (priv s)"] exI [of _ "screen (priv s)"]) (auto simp: term_draw_text_def)
next
  case True
  let ?b = "y * scr_width s"
  let ?fg = "get_tty_color color"
  let ?scr = "screen (priv s)"
  have y: "0 \<le> y" "y < scr_height s"
    using True assms(1) by (auto simp: geometry_def)
  then have upd: "set_updated y (line_updated (priv s)) = Some ((line_updated (priv s))[nat y := True])"
    using assms(1) by (simp add: set_updated_def geometry_def)
  have "?b + scr_width s \<le> int (length ?scr)"
    using line_fits [OF y] assms(1) by (simp add: geometry_def)
  then have b: "0 \<le> ?b + clip_x1 s" "?b + clip_x2 s \<le> int (length ?scr)"
    using assms(1) y by (auto simp: geometry_def)
  obtain str1 x1 ptr1 scr1 where one:
    "(if x < clip_x1 s then clip_left (clip_x1 s) (clip_x2 s) ?fg str x (?b + clip_x1 s) ?scr
      else Some (str, x, ?b + x, ?scr)) = Some (str1, x1, ptr1, scr1)"
    "within (?b + clip_x1 s) (?b + clip_x2 s) P ?scr scr1" "puts P ?fg str1"
    "str1 = [] \<or> ?b + clip_x1 s \<le> ptr1 \<and> ptr1 \<le> ?b + x1"
  proof (cases "x < clip_x1 s")
    case True
    then show ?thesis
      using clip_left_within [OF b True assms(2)] that by auto
  next
    case False
    then show ?thesis
      using that [of str x "?b + x" ?scr] assms(2) by simp
  qed
  have "\<exists>scr'. draw_loop (clip_x2 s) ?fg str1 x1 ptr1 scr1 = Some scr' \<and>
      within (?b + clip_x1 s) (?b + clip_x2 s) P scr1 scr'"
  proof (cases "str1 = []")
    case False
    have "length scr1 = length ?scr"
      using one(2) by (simp add: within_def)
    then show ?thesis
      using one(3,4) b False by (intro draw_loop_within) auto
  qed simp
  then obtain scr' where two: "draw_loop (clip_x2 s) ?fg str1 x1 ptr1 scr1 = Some scr'"
    "within (?b + clip_x1 s) (?b + clip_x2 s) P scr1 scr'"
    by blast
  have "term_draw_text s x y str color =
      Some (s\<lparr>priv := (priv s)\<lparr>line_updated := (line_updated (priv s))[nat y := True], screen := scr'\<rparr>\<rparr>)"
    using True one(1) two(1) upd by (simp add: term_draw_text_def Let_def not_le not_less)
  then show ?thesis
    using True within_trans [OF one(2) two(2)] by auto
qed

text \<open>Filling a rectangle changes the cells in it and marks its lines.\<close>

lemma in_line_iff:
  fixes i :: nat
  assumes "0 \<le> x1" "x1 + w \<le> W" "0 < W"
  shows "y * W + x1 \<le> int i \<and> int i < y * W + x1 + w \<longleftrightarrow>
    int i div W = y \<and> x1 \<le> int i mod W \<and> int i mod W < x1 + w"
proof
  assume r: "y * W + x1 \<le> int i \<and> int i < y * W + x1 + w"
  then have "int i div W = y"
    using assms by (intro div_pos_pos_trivial [THEN trans] int_div_pos_eq [where r = "int i - y * W"]) (auto simp: algebra_simps)
  moreover have "int i = int i div W * W + int i mod W"
    by simp
  ultimately show "int i div W = y \<and> x1 \<le> int i mod W \<and> int i mod W < x1 + w"
    using r by auto
next
  assume "int i div W = y \<and> x1 \<le> int i mod W \<and> int i mod W < x1 + w"
  moreover have "int i = int i div W * W + int i mod W"
    by simp
  ultimately show "y * W + x1 \<le> int i \<and> int i < y * W + x1 + w"
    by auto
qed

lemma fill_rows_spec:
  assumes "0 \<le> x1" "0 \<le> w" "x1 + w \<le> W" "0 < W" "0 \<le> y"
    and "(y + int rows) * W \<le> int (length (screen ts))" "y + int rows \<le> int (length (line_updated ts))"
  shows "\<exists>l scr. fill_rows f w (W - w) rows y (y * W + x1) ts = Some (ts\<lparr>line_updated := l, screen := scr\<rparr>) \<and>
    length scr = length (screen ts) \<and> length l = length (line_updated ts) \<and>
    (\<forall>i<length scr. scr ! i =
      (if y \<le> int i div W \<and> int i div W < y + int rows \<and> x1 \<le> int i mod W \<and> int i mod W < x1 + w
       then f (screen ts ! i) else screen ts ! i)) \<and>
    (\<forall>k<length l. l ! k \<longleftrightarrow> line_updated ts ! k \<or> y \<le> int k \<and> int k < y + int rows)"
  using assms(5-)
proof (induction rows arbitrary: y ts)
  case 0
  then show ?case
    by (intro exI [of _ "line_updated ts"] exI [of _ "screen ts"]) auto
next
  case (Suc rows)
  have "y * W + x1 + int (nat w) \<le> (y + 1) * W"
    using assms(2,3) by (simp add: algebra_simps)
  also have "\<dots> \<le> (y + int (Suc rows)) * W"
    using assms(4) by (intro mult_right_mono) auto
  finally have fit: "y * W + x1 + int (nat w) \<le> int (length (screen ts))"
    using Suc.prems(2) by simp
  obtain s1 where s1: "fill_cells f (nat w) (y * W + x1) (screen ts) = Some s1" "length s1 = length (screen ts)"
    "\<forall>i<length (screen ts). s1 ! i =
       (if y * W + x1 \<le> int i \<and> int i < y * W + x1 + int (nat w) then f (screen ts ! i) else screen ts ! i)"
    using fill_cells_spec [of "y * W + x1" "nat w" "screen ts" f] fit assms(1,4) Suc.prems(1) by auto
  have s1': "s1 ! i = (if int i div W = y \<and> x1 \<le> int i mod W \<and> int i mod W < x1 + w then f (screen ts ! i) else screen ts ! i)"
    if "i < length (screen ts)" for i
    using s1(3) that in_line_iff [OF assms(1,3,4), of y i] assms(2) by simp
  define t1 where "t1 = ts\<lparr>line_updated := (line_updated ts)[nat y := True], screen := s1\<rparr>"
  have "(y + 1 + int rows) * W \<le> int (length (screen t1))" "y + 1 + int rows \<le> int (length (line_updated t1))"
    using Suc.prems s1(2) by (simp_all add: t1_def algebra_simps)
  from Suc.IH [OF _ this] Suc.prems(1) obtain l scr where
    r: "fill_rows f w (W - w) rows (y + 1) ((y + 1) * W + x1) t1 = Some (t1\<lparr>line_updated := l, screen := scr\<rparr>)"
      "length scr = length (screen t1)" "length l = length (line_updated t1)"
    and scr: "\<forall>i<length scr. scr ! i =
      (if y + 1 \<le> int i div W \<and> int i div W < y + 1 + int rows \<and> x1 \<le> int i mod W \<and> int i mod W < x1 + w
       then f (screen t1 ! i) else screen t1 ! i)"
    and l: "\<forall>k<length l. l ! k \<longleftrightarrow> line_updated t1 ! k \<or> y + 1 \<le> int k \<and> int k < y + 1 + int rows"
    by auto
  have step: "y * W + x1 + int (nat w) + (W - w) = (y + 1) * W + x1"
    using assms(2) by (simp add: algebra_simps)
  have upd: "set_updated y (line_updated ts) = Some ((line_updated ts)[nat y := True])"
    using Suc.prems by (simp add: set_updated_def)
  have "fill_rows f w (W - w) (Suc rows) y (y * W + x1) ts = Some (t1\<lparr>line_updated := l, screen := scr\<rparr>)"
    using r(1) by (simp only: fill_rows.simps upd s1(1) Option.bind.bind_lunit step t1_def)
  then have "fill_rows f w (W - w) (Suc rows) y (y * W + x1) ts = Some (ts\<lparr>line_updated := l, screen := scr\<rparr>)"
    by (simp add: t1_def)
  moreover have "scr ! i =
      (if y \<le> int i div W \<and> int i div W < y + int (Suc rows) \<and> x1 \<le> int i mod W \<and> int i mod W < x1 + w
       then f (screen ts ! i) else screen ts ! i)" if "i < length scr" for i
  proof -
    have "screen t1 ! i = s1 ! i" "i < length (screen ts)"
      using that r(2) s1(2) by (simp_all add: t1_def)
    then show ?thesis
      using scr that s1' [of i] by auto
  qed
  moreover have "l ! k \<longleftrightarrow> line_updated ts ! k \<or> y \<le> int k \<and> int k < y + int (Suc rows)" if "k < length l" for k
  proof -
    have "line_updated t1 ! k \<longleftrightarrow> line_updated ts ! k \<or> int k = y"
      using that r(3) Suc.prems(1) by (cases "int k = y") (auto simp: t1_def nth_list_update)
    then show ?thesis
      using l that by auto
  qed
  ultimately show ?case
    using r(2,3) s1(2) by (intro exI [of _ l] exI [of _ scr]) (simp add: t1_def)
qed

text \<open>The driver fills what \<open>fill_rectangle\<close> passes to it.\<close>

definition fill_cell :: "u32 \<Rightarrow> TTYChar \<Rightarrow> TTYChar" where
  "fill_cell color = (if color = QECOLOR_XOR then xor_cell else blank_cell (get_tty_color color))"

lemma fill_rectangle_spec:
  assumes "geometry s"
  shows "\<exists>l scr. fill_rectangle term_fill_rectangle s x1 y1 w h color =
      Some (s\<lparr>priv := (priv s)\<lparr>line_updated := l, screen := scr\<rparr>\<rparr>) \<and>
    length scr = length (screen (priv s)) \<and> length l = length (line_updated (priv s)) \<and>
    (\<forall>i<length scr. scr ! i =
      (let x = int i mod scr_width s; y = int i div scr_width s in
       if x1 \<le> x \<and> x < x1 + w \<and> y1 \<le> y \<and> y < y1 + h \<and>
          clip_x1 s \<le> x \<and> x < clip_x2 s \<and> clip_y1 s \<le> y \<and> y < clip_y2 s
       then fill_cell color (screen (priv s) ! i) else screen (priv s) ! i)) \<and>
    (\<forall>k<length l. line_updated (priv s) ! k \<longrightarrow> l ! k) \<and>
    (\<forall>i<length scr. scr ! i \<noteq> screen (priv s) ! i \<longrightarrow> l ! nat (int i div scr_width s))"
    (is "\<exists>l scr. ?F = ?r l scr \<and> ?Q l scr")
proof -
  let ?ts = "priv s" and ?W = "scr_width s"
  define a1 where "a1 = max x1 (clip_x1 s)"
  define a2 where "a2 = min (x1 + w) (clip_x2 s)"
  define b1 where "b1 = max y1 (clip_y1 s)"
  define b2 where "b2 = min (y1 + h) (clip_y2 s)"
  show ?thesis
  proof (cases "a1 < a2 \<and> b1 < b2")
    case False
    then have "?F = Some s"
      by (auto simp: fill_rectangle_def Let_def a1_def a2_def b1_def b2_def)
    then have "?F = ?r (line_updated ?ts) (screen ?ts)"
      by simp
    moreover have "?Q (line_updated ?ts) (screen ?ts)"
      using False by (auto simp: Let_def a1_def a2_def b1_def b2_def)
    ultimately show ?thesis
      by blast
  next
    case True
    have g: "0 \<le> a1" "a2 \<le> ?W" "0 \<le> b1" "b2 \<le> scr_height s" "0 < ?W"
      using assms by (auto simp: geometry_def a1_def a2_def b1_def b2_def)
    have start: "?F = term_fill_rectangle s a1 b1 (a2 - a1) (b2 - b1) color"
    proof -
      have mm: "(if b < a then b else a) = min a b" "(if a < b then b else a) = max a b" for a b :: int
        by auto
      have "\<not> (x1 + w \<le> clip_x1 s \<or> y1 + h \<le> clip_y1 s \<or> x1 \<ge> clip_x2 s \<or> y1 \<ge> clip_y2 s)" "\<not> (a1 \<ge> a2 \<or> b1 \<ge> b2)"
        using True by (auto simp: a1_def a2_def b1_def b2_def)
      then show ?thesis
        unfolding fill_rectangle_def Let_def mm a1_def a2_def b1_def b2_def by (simp only: if_False)
    qed
    have prem: "0 \<le> a2 - a1" "a1 + (a2 - a1) \<le> ?W"
      using True g by auto
    have fits: "(b1 + int (nat (b2 - b1))) * ?W \<le> int (length (screen ?ts))"
      "b1 + int (nat (b2 - b1)) \<le> int (length (line_updated ?ts))"
      using True g assms mult_right_mono [of b2 "scr_height s" ?W] by (simp_all add: geometry_def mult.commute)
    from fill_rows_spec [OF g(1) prem g(5) g(3) fits, of "fill_cell color"]
    obtain l scr where r: "fill_rows (fill_cell color) (a2 - a1) (?W - (a2 - a1)) (nat (b2 - b1)) b1 (b1 * ?W + a1) ?ts =
        Some (?ts\<lparr>line_updated := l, screen := scr\<rparr>)" "length scr = length (screen ?ts)"
        "length l = length (line_updated ?ts)"
      and scr: "\<forall>i<length scr. scr ! i =
      (if b1 \<le> int i div ?W \<and> int i div ?W < b1 + int (nat (b2 - b1)) \<and> a1 \<le> int i mod ?W \<and> int i mod ?W < a1 + (a2 - a1)
       then fill_cell color (screen ?ts ! i) else screen ?ts ! i)"
      and l: "\<forall>k<length l. l ! k \<longleftrightarrow> line_updated ?ts ! k \<or> b1 \<le> int k \<and> int k < b1 + int (nat (b2 - b1))"
      by blast
    have "?F = ?r l scr"
      using start r(1) by (simp add: term_fill_rectangle_def fill_cell_def Let_def)
    moreover have "scr ! i = (let x = int i mod ?W; y = int i div ?W in
       if x1 \<le> x \<and> x < x1 + w \<and> y1 \<le> y \<and> y < y1 + h \<and>
          clip_x1 s \<le> x \<and> x < clip_x2 s \<and> clip_y1 s \<le> y \<and> y < clip_y2 s
       then fill_cell color (screen ?ts ! i) else screen ?ts ! i)" if "i < length scr" for i
      using scr that True by (auto simp: Let_def a1_def a2_def b1_def b2_def)
    moreover have "l ! nat (int i div ?W)" if "i < length scr" "scr ! i \<noteq> screen ?ts ! i" for i
    proof -
      have "b1 \<le> int i div ?W" "int i div ?W < b2"
        using scr that True by (auto split: if_splits)
      moreover have "nat (int i div ?W) < length l"
        using calculation g(3,4) assms r(3) by (auto simp: geometry_def nat_less_iff)
      ultimately show ?thesis
        using l [rule_format, of "nat (int i div ?W)"] g(3) by simp
    qed
    ultimately show ?thesis
      using r(2,3) l by blast
  qed
qed

section \<open>An abstract terminal\<close>

text \<open>
  What a terminal does with the bytes that it gets: printable characters are put at the cursor in
  the current colors, and of the escape sequences those that set the cursor (\<open>H\<close>) and the colors
  (\<open>m\<close>, with 9 for the default) are known. A delete character is ignored. A character behind the
  last column goes to the next line.
\<close>

datatype vt_mode = Ground | Escape | Params "nat list"

record vt =
  vt_cells :: "nat \<Rightarrow> nat \<Rightarrow> u8 \<times> nat \<times> nat"
  vt_width :: nat
  vt_row :: nat
  vt_col :: nat
  vt_fg :: nat
  vt_bg :: nat
  vt_mode :: vt_mode

definition vt_put :: "u8 \<Rightarrow> vt \<Rightarrow> vt" where
  "vt_put b t =
    (let r = (if vt_col t < vt_width t then vt_row t else vt_row t + 1);
         c = (if vt_col t < vt_width t then vt_col t else 0)
     in t\<lparr>vt_cells := (vt_cells t)(r := (vt_cells t r)(c := (b, vt_fg t, vt_bg t))), vt_row := r, vt_col := c + 1\<rparr>)"

definition vt_sgr :: "nat \<Rightarrow> vt \<Rightarrow> vt" where
  "vt_sgr p t =
    (if p = 0 then t\<lparr>vt_fg := 9, vt_bg := 9\<rparr>
     else if 30 \<le> p \<and> p \<le> 37 then t\<lparr>vt_fg := p - 30\<rparr>
     else if 40 \<le> p \<and> p \<le> 47 then t\<lparr>vt_bg := p - 40\<rparr>
     else t)"

definition vt_final :: "u8 \<Rightarrow> nat list \<Rightarrow> vt \<Rightarrow> vt" where
  "vt_final b ps t =
    (if b = 72 then t\<lparr>vt_row := (if ps ! 0 = 0 then 0 else ps ! 0 - 1),
                      vt_col := (if length ps < 2 \<or> ps ! 1 = 0 then 0 else ps ! 1 - 1)\<rparr>
     else if b = 109 then fold vt_sgr ps t
     else t)"

definition vt_byte :: "u8 \<Rightarrow> vt \<Rightarrow> vt" where
  "vt_byte b t = (case vt_mode t of
     Ground \<Rightarrow> if b = 27 then t\<lparr>vt_mode := Escape\<rparr>
       else if (32 \<le> b \<and> b < 127) \<or> 160 \<le> b then vt_put b t else t
   | Escape \<Rightarrow> if b = 91 then t\<lparr>vt_mode := Params [0]\<rparr> else t\<lparr>vt_mode := Ground\<rparr>
   | Params ps \<Rightarrow>
       if 48 \<le> b \<and> b \<le> 57 then t\<lparr>vt_mode := Params (butlast ps @ [last ps * 10 + (unat b - 48)])\<rparr>
       else if b = 59 then t\<lparr>vt_mode := Params (ps @ [0])\<rparr>
       else vt_final b ps (t\<lparr>vt_mode := Ground\<rparr>))"

definition vt_run :: "u8 list \<Rightarrow> vt \<Rightarrow> vt" where
  "vt_run bs t = fold vt_byte bs t"

lemma vt_run_simps [simp]:
  "vt_run [] t = t" "vt_run (b # bs) t = vt_run bs (vt_byte b t)" "vt_run (as @ bs) t = vt_run bs (vt_run as t)"
  by (simp_all add: vt_run_def)

lemma vt_digit:
  assumes "vt_mode t = Params (ps @ [k])" "m < 10"
  shows "vt_byte (byte (48 + int m)) t = t\<lparr>vt_mode := Params (ps @ [k * 10 + m])\<rparr>"
proof -
  have "uint (byte (48 + int m)) = 48 + int m"
    by (rule digit_byte [OF assms(2)])
  then have "unat (byte (48 + int m)) = 48 + m" "48 \<le> byte (48 + int m)" "byte (48 + int m) \<le> 57"
    using assms(2) by (simp_all add: word_le_def unat_eq_nat_uint del: of_int_add)
  then show ?thesis
    using assms(1) by (simp add: vt_byte_def del: of_int_add)
qed

lemma vt_number:
  "vt_mode t = Params (ps @ [0]) \<Longrightarrow> vt_run (print_nat n) t = t\<lparr>vt_mode := Params (ps @ [n])\<rparr>"
proof (induction n arbitrary: t rule: print_nat.induct)
  case (1 n)
  show ?case
  proof (cases "n < 10")
    case True
    then show ?thesis
      using vt_digit [OF 1(2), of n] by (subst print_nat.simps) (simp del: of_int_add)
  next
    case False
    have "vt_run (print_nat (n div 10)) t = t\<lparr>vt_mode := Params (ps @ [n div 10])\<rparr>"
      using 1 False by simp
    moreover have "n div 10 * 10 + n mod 10 = n"
      by presburger
    ultimately show ?thesis
      using False vt_digit [of "t\<lparr>vt_mode := Params (ps @ [n div 10])\<rparr>" ps "n div 10" "n mod 10"]
      by (subst print_nat.simps) (simp del: of_int_add)
  qed
qed

lemma vt_goto:
  assumes "vt_mode t = Ground" "0 \<le> r" "0 \<le> c"
  shows "vt_run (goto_seq (r + 1) (c + 1)) t = t\<lparr>vt_row := nat r, vt_col := nat c\<rparr>"
proof -
  have csi: "vt_run [27, 91] t = t\<lparr>vt_mode := Params [0]\<rparr>"
    using assms(1) by (simp add: vt_byte_def)
  have nums: "print_int (r + 1) = print_nat (nat r + 1)" "print_int (c + 1) = print_nat (nat c + 1)"
    using assms by (simp_all add: print_int_def nat_add_distrib)
  show ?thesis
    unfolding goto_seq_def vt_run_simps(3) csi nums
    by (simp add: vt_number [where ps = "[]"] vt_number [where ps = "[_]"] vt_byte_def vt_final_def assms(1))
qed

lemma vt_attr:
  assumes "vt_mode t = Ground" "fg < 8" "bg < 8"
  shows "vt_run (attr_seq (int fg) (int bg)) t = t\<lparr>vt_fg := fg, vt_bg := bg\<rparr>"
proof -
  have csi: "vt_run [27, 91, 59] t = t\<lparr>vt_mode := Params [0, 0]\<rparr>"
    using assms(1) by (simp add: vt_byte_def)
  have nums: "print_int (30 + int fg) = print_nat (30 + fg)" "print_int (40 + int bg) = print_nat (40 + bg)"
    by (simp_all add: print_int_def nat_add_distrib)
  show ?thesis
    unfolding attr_seq_def vt_run_simps(3) csi nums
    using assms
    by (simp add: vt_number [where ps = "[_]"] vt_number [where ps = "[_, _]"] vt_byte_def vt_final_def vt_sgr_def)
qed

section \<open>What the terminal shows\<close>

text \<open>
  A cell is shown if the terminal has its character and its colors; the foreground of a space
  does not matter. Cells as the driver makes them have one of eight colors and a character
  that is printed in one column, which leaves out the delete character and the two columns of
  wide characters.
\<close>

definition glyph :: "16 word \<Rightarrow> u8" where
  "glyph c = (if c < 32 \<or> (c \<ge> 128 \<and> c < 160) then 46 else if c \<le> 255 then ucast c else 63)"

definition cell_shown :: "TTYChar \<Rightarrow> u8 \<times> nat \<times> nat \<Rightarrow> bool" where
  "cell_shown c v \<longleftrightarrow> (case v of (b, f, g) \<Rightarrow>
     b = glyph (ch c) \<and> (f = unat (fgcolor c) \<or> ch c = 32) \<and> g = unat (bgcolor c))"

definition cell_ok :: "TTYChar \<Rightarrow> bool" where
  "cell_ok c \<longleftrightarrow> ch c \<noteq> 0 \<and> ch c \<noteq> 127 \<and> ch c \<noteq> 0xffff \<and> bgcolor c < 8 \<and> fgcolor c < 8"

lemma glyph_bytes_latin1: "c \<noteq> 127 \<Longrightarrow> glyph_bytes Charset_8859_1 c = [glyph c] \<and>
    ((32 \<le> glyph c \<and> glyph c < 127) \<or> 160 \<le> glyph c) \<and> glyph c \<noteq> 27"
proof -
  assume c: "c \<noteq> 127"
  show ?thesis
  proof (cases "c < 32 \<or> (c \<ge> 128 \<and> c < 160)")
    case True
    then show ?thesis
      by (auto simp: glyph_bytes_def glyph_def)
  next
    case False
    show ?thesis
    proof (cases "c \<le> 255")
      case True
      have u: "uint (ucast c :: u8) = uint c"
        using True by (simp add: uint_up_ucast unsigned_ucast_eq take_bit_int_eq_self word_le_def)
      have r: "uint c \<le> 255" "uint c \<noteq> 127" "32 \<le> uint c" "uint c < 128 \<or> 160 \<le> uint c"
        using True False c by (auto simp: word_le_def word_less_def word_uint_eq_iff)
      have "byte (uint c) = ucast c"
        by (metis byte_uint u)
      moreover have "(ucast c :: u8) \<noteq> 0" "(ucast c :: u8) \<noteq> 27"
        "(32 \<le> (ucast c :: u8) \<and> (ucast c :: u8) < 127) \<or> 160 \<le> (ucast c :: u8)"
        unfolding word_uint_eq_iff word_le_def word_less_def u using r by auto
      ultimately show ?thesis
        using False True r(1) by (auto simp: glyph_bytes_def glyph_def unicode_to_charset_def encode_8859_1_def)
    next
      case False': False
      then show ?thesis
        using False by (simp add: glyph_bytes_def glyph_def unicode_to_charset_def encode_8859_1_def word_le_def)
    qed
  qed
qed

lemma vt_glyph:
  assumes "vt_mode t = Ground" "vt_col t < vt_width t" "c \<noteq> 127"
  shows "vt_run (glyph_bytes Charset_8859_1 c) t =
    t\<lparr>vt_cells := (vt_cells t)(vt_row t := (vt_cells t (vt_row t))(vt_col t := (glyph c, vt_fg t, vt_bg t))),
      vt_row := vt_row t, vt_col := vt_col t + 1\<rparr>"
  using glyph_bytes_latin1 [OF assms(3)] assms(1,2) by (simp add: vt_byte_def vt_put_def Let_def)


text \<open>The colors that \<open>term_flush\<close> remembers are none or those of the terminal.\<close>

definition colors_known :: "int \<Rightarrow> int \<Rightarrow> vt \<Rightarrow> bool" where
  "colors_known fg bg t \<longleftrightarrow> bg = - 1 \<or> fg = int (vt_fg t) \<and> bg = int (vt_bg t)"

text \<open>The terminal has put cells from column \<open>c\<close> of its line on.\<close>

definition cells_put :: "TTYChar list \<Rightarrow> vt \<Rightarrow> vt \<Rightarrow> bool" where
  "cells_put cells t t' \<longleftrightarrow> vt_mode t' = Ground \<and> vt_width t' = vt_width t \<and> vt_row t' = vt_row t \<and>
     vt_col t' = vt_col t + length cells \<and>
     (\<forall>y x. y \<noteq> vt_row t \<or> x < vt_col t \<longrightarrow> vt_cells t' y x = vt_cells t y x) \<and>
     (\<forall>i<length cells. cell_shown (cells ! i) (vt_cells t' (vt_row t) (vt_col t + i)))"

lemma cells_put_Cons:
  assumes "cells_put cells t1 t2" "vt_mode t1 = Ground" "vt_width t1 = vt_width t" "vt_row t1 = vt_row t"
    "vt_col t1 = Suc (vt_col t)" "\<And>y x. y \<noteq> vt_row t \<or> x \<noteq> vt_col t \<Longrightarrow> vt_cells t1 y x = vt_cells t y x"
    "cell_shown c (vt_cells t1 (vt_row t) (vt_col t))"
  shows "cells_put (c # cells) t t2"
proof -
  have "cell_shown ((c # cells) ! i) (vt_cells t2 (vt_row t) (vt_col t + i))" if "i < Suc (length cells)" for i
    using that assms(1,4,5,7) by (cases i) (auto simp: cells_put_def)
  then show ?thesis
    using assms(1,3-6) by (auto simp: cells_put_def)
qed

lemma flush_cells_shown:
  assumes "\<forall>c\<in>set cells. cell_ok c" "vt_mode t = Ground" "vt_col t + length cells \<le> vt_width t"
    "colors_known fg bg t"
  shows "\<exists>out fg' bg'. flush_cells Charset_8859_1 cells fg bg = (out, fg', bg') \<and>
    cells_put cells t (vt_run out t) \<and> colors_known fg' bg' (vt_run out t)"
  using assms
proof (induction cells arbitrary: t fg bg)
  case Nil
  then show ?case
    by (simp add: cells_put_def)
next
  case (Cons c cells)
  have ok: "ch c \<noteq> 0xffff" "ch c \<noteq> 127" "unat (fgcolor c) < 8" "unat (bgcolor c) < 8"
    using Cons.prems(1) by (simp_all add: cell_ok_def word_less_nat_alt)
  define change where "change \<longleftrightarrow> (fg \<noteq> uint (fgcolor c) \<and> ch c \<noteq> 32) \<or> bg \<noteq> uint (bgcolor c)"
  define fg' where "fg' = (if change then uint (fgcolor c) else fg)"
  define bg' where "bg' = (if change then uint (bgcolor c) else bg)"
  define t1 where "t1 = vt_run (if change then attr_seq fg' bg' else []) t"
  have t1: "vt_mode t1 = Ground \<and> vt_width t1 = vt_width t \<and> vt_row t1 = vt_row t \<and> vt_col t1 = vt_col t \<and>
      vt_cells t1 = vt_cells t \<and> (vt_fg t1 = unat (fgcolor c) \<or> ch c = 32) \<and> vt_bg t1 = unat (bgcolor c) \<and>
      colors_known fg' bg' t1"
  proof (cases change)
    case True
    then have "t1 = t\<lparr>vt_fg := unat (fgcolor c), vt_bg := unat (bgcolor c)\<rparr>"
      using vt_attr [OF Cons.prems(2) ok(3,4)] by (simp add: t1_def fg'_def bg'_def)
    then show ?thesis
      using Cons.prems(2) True by (simp add: fg'_def bg'_def colors_known_def)
  next
    case False
    then have "bg = uint (bgcolor c)" "fg = uint (fgcolor c) \<or> ch c = 32"
      by (auto simp: change_def)
    moreover have "bg \<noteq> - 1"
      using calculation(1) uint_ge_0 [of "bgcolor c"] by linarith
    ultimately have "int (vt_bg t) = uint (bgcolor c)" "int (vt_fg t) = uint (fgcolor c) \<or> ch c = 32"
      using Cons.prems(4) by (simp_all add: colors_known_def)
    then have "vt_bg t = unat (bgcolor c)" "vt_fg t = unat (fgcolor c) \<or> ch c = 32"
      by (simp_all only: uint_nat of_nat_eq_iff)
    then show ?thesis
      using Cons.prems(2,4) False by (simp add: t1_def fg'_def bg'_def)
  qed
  define t2 where "t2 = vt_run (glyph_bytes Charset_8859_1 (ch c)) t1"
  have t2: "t2 = t1\<lparr>vt_cells := (vt_cells t1)(vt_row t1 := (vt_cells t1 (vt_row t1))(vt_col t1 := (glyph (ch c), vt_fg t1, vt_bg t1))),
      vt_row := vt_row t1, vt_col := vt_col t1 + 1\<rparr>"
    unfolding t2_def using t1 Cons.prems(3) ok(2) by (intro vt_glyph) auto
  have same: "vt_fg t2 = vt_fg t1 \<and> vt_bg t2 = vt_bg t1"
    unfolding t2 by simp
  have known: "colors_known fg' bg' t2"
    using t1 unfolding colors_known_def same [THEN conjunct1] same [THEN conjunct2] by blast
  obtain out f b where r: "flush_cells Charset_8859_1 cells fg' bg' = (out, f, b)"
    "cells_put cells t2 (vt_run out t2)" "colors_known f b (vt_run out t2)"
    using Cons.IH [of t2 fg' bg'] Cons.prems(1,3) t1 known by (auto simp: t2)
  have "flush_cells Charset_8859_1 (c # cells) fg bg =
      ((if change then attr_seq fg' bg' else []) @ glyph_bytes Charset_8859_1 (ch c) @ out, f, b)"
    using ok(1) r(1) unfolding flush_cells.simps Let_def change_def [symmetric] fg'_def [symmetric] bg'_def [symmetric]
    by simp
  moreover have "cells_put (c # cells) t (vt_run out t2)"
    by (rule cells_put_Cons [OF r(2)]) (use t1 in \<open>auto simp: t2 cell_shown_def\<close>)
  moreover have "vt_run ((if change then attr_seq fg' bg' else []) @ glyph_bytes Charset_8859_1 (ch c) @ out) t =
      vt_run out t2"
    by (simp only: vt_run_simps(3) t1_def t2_def)
  ultimately show ?case
    using r(3) by metis
qed

section \<open>The invariant between the screen and the terminal\<close>

definition line_shown :: "QEditScreen \<Rightarrow> vt \<Rightarrow> nat \<Rightarrow> TTYChar list \<Rightarrow> bool" where
  "line_shown s t y scr \<longleftrightarrow>
     (\<forall>x<nat (scr_width s). cell_shown (scr ! (y * nat (scr_width s) + x)) (vt_cells t y x))"

text \<open>
  The terminal shows the lines of \<open>old_screen\<close>, apart from lines never written since the
  size changed, and lines that are not marked are the same in \<open>screen\<close>.
\<close>

definition in_sync :: "QEditScreen \<Rightarrow> vt \<Rightarrow> nat \<Rightarrow> bool" where
  "in_sync s t y \<longleftrightarrow>
     (let W = scr_width s; ts = priv s in
      (line_updated ts ! y \<or> row_of W y (screen ts) = row_of W y (old_screen ts)) \<and>
      (line_shown s t y (old_screen ts) \<or>
       line_updated ts ! y \<and> (\<exists>x<nat W. ch (old_screen ts ! (y * nat W + x)) = 0)))"

definition synced :: "QEditScreen \<Rightarrow> vt \<Rightarrow> bool" where
  "synced s t \<longleftrightarrow> geometry s \<and> scr_charset s = Charset_8859_1 \<and>
     (\<forall>c\<in>set (screen (priv s)). cell_ok c) \<and> 0 \<le> cursor_x (priv s) \<and> 0 \<le> cursor_y (priv s) \<and>
     vt_mode t = Ground \<and> vt_width t = nat (scr_width s) \<and> (\<forall>y<nat (scr_height s). in_sync s t y)"

lemma row_ofD: "row_of w y a = row_of w y b \<Longrightarrow> x < nat w \<Longrightarrow> y * nat w + nat w \<le> length a \<Longrightarrow>
    length b = length a \<Longrightarrow> a ! (y * nat w + x) = b ! (y * nat w + x)"
proof -
  assume "row_of w y a = row_of w y b" "x < nat w" "y * nat w + nat w \<le> length a" "length b = length a"
  then have "row_of w y a ! x = row_of w y b ! x" by simp
  then show ?thesis
    using \<open>x < nat w\<close> \<open>y * nat w + nat w \<le> length a\<close> \<open>length b = length a\<close> by (simp add: row_of_def)
qed

lemma row_of_eqI:
  assumes "\<And>x. x < nat w \<Longrightarrow> a ! (y * nat w + x) = b ! (y * nat w + x)" "length a = length b"
    "y * nat w + nat w \<le> length a"
  shows "row_of w y a = row_of w y b"
  using assms by (intro nth_equalityI) (auto simp: row_of_def)

text \<open>A line that is not marked, the same on both screens and shown.\<close>

definition clean :: "QEditScreen \<Rightarrow> vt \<Rightarrow> nat \<Rightarrow> bool" where
  "clean s t y \<longleftrightarrow> \<not> line_updated (priv s) ! y \<and>
     row_of (scr_width s) y (screen (priv s)) = row_of (scr_width s) y (old_screen (priv s)) \<and>
     line_shown s t y (screen (priv s))"

lemma geometry_lengths:
  assumes "geometry s" "y < nat (scr_height s)"
  shows "y * nat (scr_width s) + nat (scr_width s) \<le> length (screen (priv s))"
    and "length (old_screen (priv s)) = length (screen (priv s))"
    and "y < length (line_updated (priv s))"
proof -
  have "int y * scr_width s + scr_width s \<le> int (length (screen (priv s)))"
    using line_fits [of "int y" "scr_height s" "scr_width s"] assms by (simp add: geometry_def)
  moreover have "int (y * nat (scr_width s) + nat (scr_width s)) = int y * scr_width s + scr_width s"
    using assms(1) by (simp add: geometry_def)
  ultimately show "y * nat (scr_width s) + nat (scr_width s) \<le> length (screen (priv s))"
    by linarith
  show "length (old_screen (priv s)) = length (screen (priv s))" "y < length (line_updated (priv s))"
    using assms by (auto simp: geometry_def nat_less_iff)
qed

lemma line_shown_cong:
  assumes "\<And>x. x < nat (scr_width s) \<Longrightarrow> scr' ! (y * nat (scr_width s) + x) = scr ! (y * nat (scr_width s) + x)"
    "\<And>x. vt_cells t' y x = vt_cells t y x" "scr_width s' = scr_width s"
  shows "line_shown s' t' y scr' = line_shown s t y scr"
  using assms by (simp add: line_shown_def)

text \<open>A line of the screen stays in sync when neither it nor what the terminal shows of it is touched.\<close>

lemma sync_other_line:
  assumes g: "geometry s" "y < nat (scr_height s)"
    and old: "\<And>x. x < nat (scr_width s) \<Longrightarrow>
       old' ! (y * nat (scr_width s) + x) = old_screen (priv s) ! (y * nat (scr_width s) + x)"
    and len: "length old' = length (old_screen (priv s))"
    and t: "\<And>x. vt_cells t' y x = vt_cells t y x"
    and l: "l ! y = line_updated (priv s) ! y"
  shows "in_sync (s\<lparr>priv := (priv s)\<lparr>line_updated := l, old_screen := old'\<rparr>\<rparr>) t' y = in_sync s t y"
    and "clean (s\<lparr>priv := (priv s)\<lparr>line_updated := l, old_screen := old'\<rparr>\<rparr>) t' y = clean s t y"
proof -
  let ?s' = "s\<lparr>priv := (priv s)\<lparr>line_updated := l, old_screen := old'\<rparr>\<rparr>"
  have row: "row_of (scr_width s) y old' = row_of (scr_width s) y (old_screen (priv s))"
    using geometry_lengths [OF g] len by (intro row_of_eqI old) auto
  have shown: "line_shown ?s' t' y old' = line_shown s t y (old_screen (priv s))"
    "line_shown ?s' t' y (screen (priv s)) = line_shown s t y (screen (priv s))"
    by (rule line_shown_cong; use old t in simp)+
  show "in_sync ?s' t' y = in_sync s t y"
    using row shown(1) old by (simp add: in_sync_def Let_def l cong: conj_cong)
  show "clean ?s' t' y = clean s t y"
    using row shown(2) by (simp add: clean_def l)
qed

lemma nth_put_row:
  assumes "length r = nat w" "y * nat w + nat w \<le> length scr" "x < nat w"
  shows "k \<noteq> y \<Longrightarrow> k * nat w + x < length scr \<Longrightarrow> put_row w y r scr ! (k * nat w + x) = scr ! (k * nat w + x)"
    and "put_row w y r scr ! (y * nat w + x) = r ! x" and "length (put_row w y r scr) = length scr"
proof -
  show "put_row w y r scr ! (y * nat w + x) = r ! x" "length (put_row w y r scr) = length scr"
    using assms by (auto simp: put_row_def nth_append)
  assume k: "k \<noteq> y" "k * nat w + x < length scr"
  show "put_row w y r scr ! (k * nat w + x) = scr ! (k * nat w + x)"
  proof (cases "k < y")
    case True
    then have "Suc k * nat w \<le> y * nat w"
      by (intro mult_le_mono1) simp
    then show ?thesis
      using assms by (simp add: put_row_def nth_append)
  next
    case False
    then have "Suc y * nat w \<le> k * nat w"
      using k by (intro mult_le_mono1) simp
    then have "y * nat w + nat w \<le> k * nat w + x"
      by simp
    then show ?thesis
      using assms k by (simp add: put_row_def nth_append less_diff_conv2)
  qed
qed

lemma flush_row_synced:
  assumes sy: "synced s t" and y: "y < nat (scr_height s)" and known: "colors_known fg bg t"
  shows "\<exists>l old' out fg' bg'. flush_row Charset_8859_1 (scr_width s) y (priv s) fg bg =
      Some ((priv s)\<lparr>line_updated := l, old_screen := old'\<rparr>, out, fg', bg') \<and>
    (let s' = s\<lparr>priv := (priv s)\<lparr>line_updated := l, old_screen := old'\<rparr>\<rparr>; t' = vt_run out t in
     synced s' t' \<and> clean s' t' y \<and>
     (\<forall>k<nat (scr_height s). k \<noteq> y \<longrightarrow> clean s t k \<longrightarrow> clean s' t' k) \<and> colors_known fg' bg' t')"
proof -
  let ?W = "nat (scr_width s)" and ?ts = "priv s"
  let ?row = "row_of (scr_width s) y (screen ?ts)"
  have g: "geometry s" and cs: "scr_charset s = Charset_8859_1" and ok: "\<forall>c\<in>set (screen ?ts). cell_ok c"
    and t: "vt_mode t = Ground" "vt_width t = ?W" and cur: "0 \<le> cursor_x ?ts" "0 \<le> cursor_y ?ts"
    and sync: "\<And>k. k < nat (scr_height s) \<Longrightarrow> in_sync s t k"
    using sy by (auto simp: synced_def)
  note len = geometry_lengths [OF g y]
  have W: "0 < ?W"
    using g by (simp add: geometry_def)
  show ?thesis
  proof (cases "line_updated ?ts ! y")
    case False
    have "line_shown s t y (old_screen ?ts)" "?row = row_of (scr_width s) y (old_screen ?ts)"
      using sync [OF y] False by (auto simp: in_sync_def Let_def)
    moreover have "line_shown s t y (screen ?ts) = line_shown s t y (old_screen ?ts)"
      using row_ofD [OF calculation(2) _ len(1,2)] by (intro line_shown_cong) auto
    ultimately have "clean s t y"
      using False by (simp add: clean_def)
    then show ?thesis
      using sy known len False
      by (intro exI [of _ "line_updated ?ts"] exI [of _ "old_screen ?ts"] exI [of _ "[]"] exI [of _ fg] exI [of _ bg])
        (simp add: flush_row_def)
  next
    case upd: True
    let ?l = "(line_updated ?ts)[y := False]"
    show ?thesis
    proof (cases "?row = row_of (scr_width s) y (old_screen ?ts)")
      case True
      let ?s' = "s\<lparr>priv := ?ts\<lparr>line_updated := ?l, old_screen := old_screen ?ts\<rparr>\<rparr>"
      note same = row_ofD [OF True _ len(1,2)]
      have "ch (old_screen ?ts ! (y * ?W + x)) \<noteq> 0" if "x < ?W" for x
        using ok nth_mem [of "y * ?W + x" "screen ?ts"] that len(1) same [OF that] by (auto simp: cell_ok_def)
      then have "line_shown s t y (old_screen ?ts)"
        using sync [OF y] by (auto simp: in_sync_def Let_def)
      moreover have "line_shown ?s' t y (screen ?ts) = line_shown s t y (old_screen ?ts)"
        using same by (intro line_shown_cong) auto
      ultimately have "clean ?s' t y"
        using True len(3) by (simp add: clean_def)
      moreover have others: "in_sync ?s' t k = in_sync s t k" "clean ?s' t k = clean s t k"
        if "k < nat (scr_height s)" "k \<noteq> y" for k
        using that by (intro sync_other_line g; simp)+
      moreover have "in_sync ?s' t y"
        using calculation(1) True \<open>line_shown s t y (old_screen ?ts)\<close>
        by (simp add: in_sync_def clean_def Let_def line_shown_def)
      ultimately have "synced ?s' t"
        using sy sync others(1) by (auto simp: synced_def geometry_def)
      then show ?thesis
        using \<open>clean ?s' t y\<close> others(2) known len upd True
        by (intro exI [of _ ?l] exI [of _ "old_screen ?ts"] exI [of _ "[]"] exI [of _ fg] exI [of _ bg])
          (simp add: flush_row_def)
    next
      case False
      let ?old = "put_row (scr_width s) y ?row (old_screen ?ts)"
      let ?s' = "s\<lparr>priv := ?ts\<lparr>line_updated := ?l, old_screen := ?old\<rparr>\<rparr>"
      define t1 where "t1 = vt_run (goto_seq (int y + 1) 1) t"
      have t1: "t1 = t\<lparr>vt_row := y, vt_col := 0\<rparr>"
        using vt_goto [of t "int y" 0] t(1) by (simp add: t1_def)
      have row: "length ?row = ?W" "\<forall>c\<in>set ?row. cell_ok c"
        using len(1) ok by (auto simp: row_of_def dest!: in_set_takeD in_set_dropD)
      have old: "length ?old = length (old_screen ?ts)" "\<And>x. x < ?W \<Longrightarrow> ?old ! (y * ?W + x) = screen ?ts ! (y * ?W + x)"
        using nth_put_row(2) [OF row(1), of y "old_screen ?ts"] nth_put_row(3) [OF row(1) _ W, of y "old_screen ?ts"]
          len(1,2) by (auto simp: row_of_def)
      have other: "?old ! (k * ?W + x) = old_screen ?ts ! (k * ?W + x)"
        if "k < nat (scr_height s)" "k \<noteq> y" "x < ?W" for k x
        using nth_put_row(1) [OF row(1) _ that(3), of y "old_screen ?ts" k] that len geometry_lengths [OF g that(1)] by simp
      have "colors_known fg bg t1"
        using known by (simp add: t1 colors_known_def)
      then obtain out fg' bg' where r: "flush_cells Charset_8859_1 ?row fg bg = (out, fg', bg')"
        "cells_put ?row t1 (vt_run out t1)" "colors_known fg' bg' (vt_run out t1)"
        using flush_cells_shown [OF row(2), of t1 fg bg] t row(1) by (auto simp: t1)
      define t2 where "t2 = vt_run (goto_seq (int y + 1) 1 @ out) t"
      have t2: "t2 = vt_run out t1"
        by (simp add: t2_def t1_def)
      have put: "vt_mode t2 = Ground" "vt_width t2 = ?W" "\<And>k x. k \<noteq> y \<Longrightarrow> vt_cells t2 k x = vt_cells t k x"
        "\<And>i. i < ?W \<Longrightarrow> cell_shown (?row ! i) (vt_cells t2 y i)"
        using r(2) row(1) t by (auto simp: cells_put_def t1 t2)
      have "line_shown ?s' t2 y (screen ?ts)"
        using put(4) len(1) by (simp add: line_shown_def row_of_def)
      moreover have "?row = row_of (scr_width s) y ?old"
        using old len by (intro row_of_eqI) auto
      ultimately have clean: "clean ?s' t2 y"
        using len(3) by (simp add: clean_def)
      have others: "in_sync ?s' t2 k = in_sync s t k" "clean ?s' t2 k = clean s t k"
        if "k < nat (scr_height s)" "k \<noteq> y" for k
        using that other [OF that] old(1) put(3) by (intro sync_other_line g; simp)+
      have "line_shown ?s' t2 y ?old = line_shown ?s' t2 y (screen ?ts)"
        using old(2) by (intro line_shown_cong) auto
      then have "in_sync ?s' t2 y"
        using clean by (simp add: in_sync_def clean_def Let_def)
      then have "in_sync ?s' t2 k" if "k < nat (scr_height s)" for k
        using others(1) [of k] sync that by (cases "k = y") auto
      then have "synced ?s' t2"
        using sy put old(1) by (simp add: synced_def geometry_def)
      moreover have "flush_row Charset_8859_1 (scr_width s) y ?ts fg bg =
          Some (?ts\<lparr>line_updated := ?l, old_screen := ?old\<rparr>, goto_seq (int y + 1) 1 @ out, fg', bg')"
        using upd False len r(1) by (simp add: flush_row_def)
      ultimately show ?thesis
        using clean [unfolded t2_def] others(2) [unfolded t2_def] r(3) [folded t2, unfolded t2_def]
        unfolding Let_def t2_def
        by (intro exI [of _ ?l] exI [of _ ?old] exI [of _ "goto_seq (int y + 1) 1 @ out"] exI [of _ fg'] exI [of _ bg'])
          (simp del: vt_run_simps(3))
    qed
  qed
qed

lemma flush_rows_synced:
  assumes "synced s t" "y + n = nat (scr_height s)" "\<forall>k<y. clean s t k" "colors_known fg bg t"
  shows "\<exists>l old' out. flush_rows Charset_8859_1 (scr_width s) n y (priv s) fg bg =
      Some ((priv s)\<lparr>line_updated := l, old_screen := old'\<rparr>, out) \<and>
    (let s' = s\<lparr>priv := (priv s)\<lparr>line_updated := l, old_screen := old'\<rparr>\<rparr> in
     synced s' (vt_run out t) \<and> (\<forall>k<nat (scr_height s). clean s' (vt_run out t) k))"
  using assms
proof (induction n arbitrary: s t y fg bg)
  case 0
  then show ?case
    by (intro exI [of _ "line_updated (priv s)"] exI [of _ "old_screen (priv s)"] exI [of _ "[]"]) simp
next
  case (Suc n)
  have y: "y < nat (scr_height s)"
    using Suc.prems(2) by simp
  from flush_row_synced [OF Suc.prems(1) y Suc.prems(4)] obtain l old1 out fg1 bg1 where
    r: "flush_row Charset_8859_1 (scr_width s) y (priv s) fg bg =
        Some ((priv s)\<lparr>line_updated := l, old_screen := old1\<rparr>, out, fg1, bg1)" and
    one: "synced (s\<lparr>priv := (priv s)\<lparr>line_updated := l, old_screen := old1\<rparr>\<rparr>) (vt_run out t)"
      "clean (s\<lparr>priv := (priv s)\<lparr>line_updated := l, old_screen := old1\<rparr>\<rparr>) (vt_run out t) y"
      "\<forall>k<nat (scr_height s). k \<noteq> y \<longrightarrow> clean s t k \<longrightarrow>
         clean (s\<lparr>priv := (priv s)\<lparr>line_updated := l, old_screen := old1\<rparr>\<rparr>) (vt_run out t) k"
      "colors_known fg1 bg1 (vt_run out t)"
    by (auto simp: Let_def)
  define s1 where "s1 = s\<lparr>priv := (priv s)\<lparr>line_updated := l, old_screen := old1\<rparr>\<rparr>"
  have "\<forall>k<Suc y. clean s1 (vt_run out t) k"
    using one(2,3) Suc.prems(3) y by (auto simp: s1_def less_Suc_eq)
  moreover have "Suc y + n = nat (scr_height s1)"
    using Suc.prems(2) by (simp add: s1_def)
  ultimately obtain l' old' out' where
    two: "flush_rows Charset_8859_1 (scr_width s1) n (Suc y) (priv s1) fg1 bg1 =
        Some ((priv s1)\<lparr>line_updated := l', old_screen := old'\<rparr>, out')"
      "synced (s1\<lparr>priv := (priv s1)\<lparr>line_updated := l', old_screen := old'\<rparr>\<rparr>) (vt_run out' (vt_run out t))"
      "\<forall>k<nat (scr_height s1). clean (s1\<lparr>priv := (priv s1)\<lparr>line_updated := l', old_screen := old'\<rparr>\<rparr>) (vt_run out' (vt_run out t)) k"
    using Suc.IH [of s1 "vt_run out t" "Suc y" fg1 bg1] one(1,4) by (auto simp: s1_def [symmetric] Let_def)
  have "flush_rows Charset_8859_1 (scr_width s) (Suc n) y (priv s) fg bg =
      Some ((priv s)\<lparr>line_updated := l', old_screen := old'\<rparr>, out @ out')"
    using r two(1) by (simp add: s1_def)
  then show ?case
    using two(2,3) by (intro exI [of _ l'] exI [of _ old'] exI [of _ "out @ out'"]) (simp add: s1_def)
qed

lemma synced_cursor_moved:
  "synced s t \<Longrightarrow> synced s (t\<lparr>vt_row := r, vt_col := c\<rparr>)"
  "line_shown s (t\<lparr>vt_row := r, vt_col := c\<rparr>) y scr = line_shown s t y scr"
  by (simp_all add: synced_def in_sync_def line_shown_def)

text \<open>After a flush the terminal shows the screen, with its cursor.\<close>

lemma term_flush_shows:
  assumes "synced s t"
  shows "\<exists>s' out. term_flush s = Some (s', out) \<and> synced s' (vt_run out t) \<and>
    screen (priv s') = screen (priv s) \<and> scr_width s' = scr_width s \<and> scr_height s' = scr_height s \<and>
    (\<forall>y<nat (scr_height s). line_shown s' (vt_run out t) y (screen (priv s'))) \<and>
    int (vt_row (vt_run out t)) = cursor_y (priv s) \<and> int (vt_col (vt_run out t)) = cursor_x (priv s)"
proof -
  have "colors_known (- 1) (- 1) t"
    by (simp add: colors_known_def)
  from flush_rows_synced [OF assms _ _ this, of 0 "nat (scr_height s)"] obtain l old' out where
    r: "flush_rows Charset_8859_1 (scr_width s) (nat (scr_height s)) 0 (priv s) (- 1) (- 1) =
      Some ((priv s)\<lparr>line_updated := l, old_screen := old'\<rparr>, out)" and
    sy: "synced (s\<lparr>priv := (priv s)\<lparr>line_updated := l, old_screen := old'\<rparr>\<rparr>) (vt_run out t)" and
    cl: "\<forall>k<nat (scr_height s). clean (s\<lparr>priv := (priv s)\<lparr>line_updated := l, old_screen := old'\<rparr>\<rparr>) (vt_run out t) k"
    by (auto simp: Let_def)
  let ?s' = "s\<lparr>priv := (priv s)\<lparr>line_updated := l, old_screen := old'\<rparr>\<rparr>"
  let ?goto = "goto_seq (cursor_y (priv s) + 1) (cursor_x (priv s) + 1)"
  have cur: "scr_charset s = Charset_8859_1" "0 \<le> cursor_x (priv s)" "0 \<le> cursor_y (priv s)"
    using assms by (simp_all add: synced_def)
  have "vt_run (out @ ?goto) t = (vt_run out t)\<lparr>vt_row := nat (cursor_y (priv s)), vt_col := nat (cursor_x (priv s))\<rparr>"
    using vt_goto [of "vt_run out t"] sy cur by (simp add: synced_def)
  moreover have "term_flush s = Some (?s', out @ ?goto)"
    using r cur(1) by (simp add: term_flush_def)
  ultimately show ?thesis
    using synced_cursor_moved(1) [OF sy] cl cur
    by (intro exI [of _ ?s'] exI [of _ "out @ ?goto"]) (simp add: synced_cursor_moved(2) clean_def)
qed

section \<open>Sessions\<close>

text \<open>Drawing keeps the screen and the terminal in sync if it marks the lines that it changes.\<close>

lemma drawn_synced:
  assumes "synced s t" "length scr = length (screen (priv s))" "length l = length (line_updated (priv s))"
    and "\<forall>c\<in>set scr. cell_ok c"
    and "\<And>y x. y < nat (scr_height s) \<Longrightarrow> x < nat (scr_width s) \<Longrightarrow> \<not> l ! y \<Longrightarrow>
      scr ! (y * nat (scr_width s) + x) = screen (priv s) ! (y * nat (scr_width s) + x)"
    and "\<And>y. y < nat (scr_height s) \<Longrightarrow> line_updated (priv s) ! y \<Longrightarrow> l ! y"
  shows "synced (s\<lparr>priv := (priv s)\<lparr>line_updated := l, screen := scr\<rparr>\<rparr>) t"
proof -
  let ?s' = "s\<lparr>priv := (priv s)\<lparr>line_updated := l, screen := scr\<rparr>\<rparr>"
  have "in_sync ?s' t y" if y: "y < nat (scr_height s)" for y
  proof -
    have g: "geometry s" and sync: "in_sync s t y"
      using assms(1) y by (auto simp: synced_def)
    have shown: "line_shown ?s' t y (old_screen (priv s)) = line_shown s t y (old_screen (priv s))"
      by (rule line_shown_cong) simp_all
    have "row_of (scr_width s) y scr = row_of (scr_width s) y (screen (priv s))" if "\<not> l ! y"
      using that assms(2,5) y geometry_lengths(1) [OF g y] by (intro row_of_eqI) auto
    then show ?thesis
      using sync shown assms(6) [OF y] by (cases "l ! y") (auto simp: in_sync_def Let_def)
  qed
  then show ?thesis
    using assms(1-4) by (simp add: synced_def geometry_def)
qed

datatype tty_op =
    Draw int int "u32 list" u32
  | Fill int int int int u32
  | Set_clip CSSRect
  | Push_clip CSSRect
  | Cursor_at int int
  | Flush

fun tty_step :: "tty_op \<Rightarrow> QEditScreen \<Rightarrow> (QEditScreen \<times> u8 list) option" where
  "tty_step (Draw x y str color) s = map_option (\<lambda>s. (s, [])) (term_draw_text s x y str color)"
| "tty_step (Fill x y w h color) s = map_option (\<lambda>s. (s, [])) (fill_rectangle term_fill_rectangle s x y w h color)"
| "tty_step (Set_clip r) s = Some (set_clip_rectangle s r, [])"
| "tty_step (Push_clip r) s = Some (snd (push_clip_rectangle s r), [])"
| "tty_step (Cursor_at x y) s = Some (term_cursor_at s x y, [])"
| "tty_step Flush s = term_flush s"

fun tty_session :: "tty_op list \<Rightarrow> QEditScreen \<Rightarrow> (QEditScreen \<times> u8 list) option" where
  "tty_session [] s = Some (s, [])"
| "tty_session (a # as) s = do {
     (s, out) \<leftarrow> tty_step a s;
     (s, out') \<leftarrow> tty_session as s;
     Some (s, out @ out') }"

text \<open>Characters that take one column and are printed.\<close>

definition plain_char :: "u32 \<Rightarrow> bool" where
  "plain_char c \<longleftrightarrow> term_glyph_width c = 1 \<and> (ucast c :: 16 word) \<notin> {0, 127, 0xffff}"

fun op_ok :: "tty_op \<Rightarrow> bool" where
  "op_ok (Draw x y str color) \<longleftrightarrow> (\<forall>c\<in>set str. plain_char c)"
| "op_ok (Cursor_at x y) \<longleftrightarrow> 0 \<le> x \<and> 0 \<le> y"
| "op_ok _ \<longleftrightarrow> True"

lemma color_byte: "of_nat (get_tty_color color) < (8 :: u8)"
  using get_tty_color_less [of color] by (simp add: word_less_nat_alt unat_of_nat)

lemma xor_7_less: "c < 8 \<Longrightarrow> c XOR 7 < 8" for c :: u8
proof -
  assume "c < 8"
  then have "unat c < 8"
    by (simp add: word_less_nat_alt)
  then have "c = word_of_nat (unat c)" "unat c \<in> {0, 1, 2, 3, 4, 5, 6, 7}"
    by auto
  then show ?thesis
    by (elim insertE emptyE) (simp_all; simp add: word_less_def)+
qed

lemma fill_cell_ok: "cell_ok c \<Longrightarrow> cell_ok (fill_cell color c)"
  using color_byte [of color] by (auto simp: fill_cell_def cell_ok_def xor_cell_def blank_cell_def xor_7_less)

lemma draw_puts: "\<forall>c\<in>set str. plain_char c \<Longrightarrow> puts cell_ok (get_tty_color color) str"
  using color_byte [of color] by (auto simp: puts_def plain_char_def cell_ok_def put_cell_def)

lemma draw_synced:
  assumes "synced s t" "\<forall>c\<in>set str. plain_char c"
  shows "\<exists>s'. term_draw_text s x y str color = Some s' \<and> synced s' t"
proof -
  have g: "geometry s"
    using assms(1) by (simp add: synced_def)
  from draw_text_within [OF g draw_puts [OF assms(2)], of x y color] obtain l scr where
    r: "term_draw_text s x y str color = Some (s\<lparr>priv := (priv s)\<lparr>line_updated := l, screen := scr\<rparr>\<rparr>)" and
    d: "if clip_y1 s \<le> y \<and> y < clip_y2 s \<and> x < clip_x2 s
     then l = (line_updated (priv s))[nat y := True] \<and>
       within (y * scr_width s + clip_x1 s) (y * scr_width s + clip_x2 s) cell_ok (screen (priv s)) scr
     else l = line_updated (priv s) \<and> scr = screen (priv s)"
    by blast
  have "synced (s\<lparr>priv := (priv s)\<lparr>line_updated := l, screen := scr\<rparr>\<rparr>) t"
  proof (cases "clip_y1 s \<le> y \<and> y < clip_y2 s \<and> x < clip_x2 s")
    case False
    then show ?thesis
      using d assms(1) by simp
  next
    case True
    then have l: "l = (line_updated (priv s))[nat y := True]" and
      w: "within (y * scr_width s + clip_x1 s) (y * scr_width s + clip_x2 s) cell_ok (screen (priv s)) scr"
      using d by simp_all
    have y: "0 \<le> y" "y < scr_height s"
      using True g by (auto simp: geometry_def)
    show ?thesis
    proof (rule drawn_synced [OF assms(1)])
      fix k i
      assume k: "k < nat (scr_height s)" "i < nat (scr_width s)" "\<not> l ! k"
      have "k \<noteq> nat y"
        using k(3) y geometry_lengths(3) [OF g k(1)] by (auto simp: l)
      then have "int k \<noteq> y"
        by auto
      moreover have "int (k * nat (scr_width s) + i) div scr_width s = int k"
        using g k(2) by (simp add: geometry_def)
      ultimately have "\<not> (y * scr_width s + clip_x1 s \<le> int (k * nat (scr_width s) + i) \<and>
          int (k * nat (scr_width s) + i) < y * scr_width s + clip_x2 s)"
        using in_line_iff [of "clip_x1 s" "clip_x2 s - clip_x1 s" "scr_width s" y "k * nat (scr_width s) + i"] g
        by (auto simp: geometry_def)
      then show "scr ! (k * nat (scr_width s) + i) = screen (priv s) ! (k * nat (scr_width s) + i)"
        using w geometry_lengths(1) [OF g k(1)] k(2) by (simp add: within_def)
    next
      fix k
      assume "k < nat (scr_height s)" "line_updated (priv s) ! k"
      then show "l ! k"
        by (cases "k = nat y") (use y g in \<open>auto simp: l geometry_def\<close>)
    qed (use w assms(1) in \<open>auto simp: within_def l synced_def\<close>)
  qed
  then show ?thesis
    using r by blast
qed

lemma cell_index:
  assumes "geometry s" "x < nat (scr_width s)"
  shows "nat (int (y * nat (scr_width s) + x) div scr_width s) = y"
  using assms by (simp add: geometry_def)

lemma fill_synced:
  assumes "synced s t"
  shows "\<exists>s'. fill_rectangle term_fill_rectangle s x1 y1 w h color = Some s' \<and> synced s' t"
proof -
  have g: "geometry s" and ok: "\<forall>c\<in>set (screen (priv s)). cell_ok c"
    using assms by (simp_all add: synced_def)
  from fill_rectangle_spec [OF g, of x1 y1 w h color] obtain l scr where
    r: "fill_rectangle term_fill_rectangle s x1 y1 w h color =
      Some (s\<lparr>priv := (priv s)\<lparr>line_updated := l, screen := scr\<rparr>\<rparr>)"
      "length scr = length (screen (priv s))" "length l = length (line_updated (priv s))" and
    scr: "\<forall>i<length scr. scr ! i = screen (priv s) ! i \<or> scr ! i = fill_cell color (screen (priv s) ! i)" and
    up: "\<forall>k<length l. line_updated (priv s) ! k \<longrightarrow> l ! k" and
    ch: "\<forall>i<length scr. scr ! i \<noteq> screen (priv s) ! i \<longrightarrow> l ! nat (int i div scr_width s)"
    by (auto simp: Let_def split: if_splits)
  have "synced (s\<lparr>priv := (priv s)\<lparr>line_updated := l, screen := scr\<rparr>\<rparr>) t"
  proof (rule drawn_synced [OF assms r(2,3)])
    show "\<forall>c\<in>set scr. cell_ok c"
      using scr ok r(2) fill_cell_ok by (metis in_set_conv_nth)
    show "scr ! (y * nat (scr_width s) + x) = screen (priv s) ! (y * nat (scr_width s) + x)"
      if "y < nat (scr_height s)" "x < nat (scr_width s)" "\<not> l ! y" for y x
      using ch that cell_index [OF g that(2), of y] geometry_lengths(1) [OF g that(1)] r(2)
      by (auto dest!: spec [of _ "y * nat (scr_width s) + x"])
    show "l ! y" if "y < nat (scr_height s)" "line_updated (priv s) ! y" for y
      using up that geometry_lengths(3) [OF g that(1)] r(3) by simp
  qed
  then show ?thesis
    using r(1) by blast
qed

lemma clip_synced:
  assumes "synced s t" "0 \<le> x1" "0 \<le> y1" "x2 \<le> scr_width s" "y2 \<le> scr_height s"
  shows "synced (set_clip x1 y1 x2 y2 s) t"
  using assms by (simp add: synced_def set_clip_def geometry_def in_sync_def line_shown_def)

lemma tty_step_synced:
  assumes "synced s t" "op_ok a"
  shows "\<exists>s' out. tty_step a s = Some (s', out) \<and> synced s' (vt_run out t)"
proof (cases a)
  case (Draw x y str color)
  then show ?thesis
    using draw_synced [OF assms(1), of str x y color] assms(2) by auto
next
  case (Fill x y w h color)
  then show ?thesis
    using fill_synced [OF assms(1), of x y w h color] by auto
next
  case (Set_clip r)
  then show ?thesis
    using clip_synced [OF assms(1)] by (auto simp: set_clip_rectangle_def Let_def)
next
  case (Push_clip r)
  have "0 \<le> clip_x1 s" "0 \<le> clip_y1 s" "clip_x2 s \<le> scr_width s" "clip_y2 s \<le> scr_height s"
    using assms(1) by (simp_all add: synced_def geometry_def)
  then show ?thesis
    using clip_synced [OF assms(1)] Push_clip by (auto simp: push_clip_rectangle_def Let_def)
next
  case (Cursor_at x y)
  then show ?thesis
    using assms by (simp add: synced_def term_cursor_at_def geometry_def in_sync_def line_shown_def Let_def)
next
  case Flush
  then show ?thesis
    using term_flush_shows [OF assms(1)] by auto
qed

lemma tty_session_synced:
  "synced s t \<Longrightarrow> \<forall>a\<in>set ops. op_ok a \<Longrightarrow> \<exists>s' out. tty_session ops s = Some (s', out) \<and> synced s' (vt_run out t)"
proof (induction ops arbitrary: s t)
  case (Cons a as)
  obtain s1 out where one: "tty_step a s = Some (s1, out)" "synced s1 (vt_run out t)"
    using tty_step_synced [OF Cons.prems(1), of a] Cons.prems(2) by auto
  obtain s2 out' where "tty_session as s1 = Some (s2, out')" "synced s2 (vt_run out' (vt_run out t))"
    using Cons.IH [OF one(2)] Cons.prems(2) by auto
  then show ?case
    using one(1) by simp
qed simp

lemma tty_session_append:
  "tty_session as s = Some (s1, out) \<Longrightarrow> tty_session bs s1 = Some (s2, out') \<Longrightarrow>
   tty_session (as @ bs) s = Some (s2, out @ out')"
  by (induction as arbitrary: s out) (auto split: bind_splits)

text \<open>Where the cursor was put last.\<close>

definition last_cursor :: "int \<times> int \<Rightarrow> tty_op list \<Rightarrow> int \<times> int" where
  "last_cursor p ops = fold (\<lambda>a p. case a of Cursor_at x y \<Rightarrow> (x, y) | _ \<Rightarrow> p) ops p"

lemma flush_rows_cursor:
  "flush_rows cs w n y ts fg bg = Some (ts', out) \<Longrightarrow> cursor_x ts' = cursor_x ts \<and> cursor_y ts' = cursor_y ts"
  by (induction n arbitrary: y ts fg bg out) (auto simp: flush_row_def Let_def split: bind_splits if_splits prod.splits)

lemma term_flush_cursor:
  "term_flush s = Some (s', out) \<Longrightarrow> cursor_x (priv s') = cursor_x (priv s) \<and> cursor_y (priv s') = cursor_y (priv s)"
  by (auto simp: term_flush_def split: bind_splits dest: flush_rows_cursor)

lemma fill_rows_cursor:
  "fill_rows f w o1 n y p ts = Some ts' \<Longrightarrow> cursor_x ts' = cursor_x ts \<and> cursor_y ts' = cursor_y ts"
  by (induction f w o1 n y p ts rule: fill_rows.induct) (auto simp: Let_def split: bind_splits)

lemma fill_cursor:
  "fill_rectangle term_fill_rectangle s x y w h color = Some s' \<Longrightarrow>
    cursor_x (priv s') = cursor_x (priv s) \<and> cursor_y (priv s') = cursor_y (priv s)"
  by (auto simp: fill_rectangle_def term_fill_rectangle_def Let_def split: if_splits dest: fill_rows_cursor)

lemma draw_cursor:
  "term_draw_text s x y str color = Some s' \<Longrightarrow>
    cursor_x (priv s') = cursor_x (priv s) \<and> cursor_y (priv s') = cursor_y (priv s)"
  by (auto simp: term_draw_text_def Let_def split: if_splits bind_splits)

lemma tty_step_cursor:
  "tty_step a s = Some (s', out) \<Longrightarrow>
    (cursor_x (priv s'), cursor_y (priv s')) = (case a of Cursor_at x y \<Rightarrow> (x, y) | _ \<Rightarrow> (cursor_x (priv s), cursor_y (priv s)))"
  by (cases a) (auto simp: set_clip_rectangle_def push_clip_rectangle_def set_clip_def term_cursor_at_def Let_def
    dest: fill_cursor draw_cursor term_flush_cursor)

lemma tty_session_cursor:
  "tty_session ops s = Some (s', out) \<Longrightarrow>
    (cursor_x (priv s'), cursor_y (priv s')) = last_cursor (cursor_x (priv s), cursor_y (priv s)) ops"
proof (induction ops arbitrary: s out)
  case (Cons a as)
  then obtain s1 o1 o2 where "tty_step a s = Some (s1, o1)" "tty_session as s1 = Some (s', o2)"
    by (auto split: bind_splits)
  with tty_step_cursor [of a s s1 o1] Cons.IH [of s1 o2] show ?case
    by (cases a) (simp_all add: last_cursor_def)
qed (simp add: last_cursor_def)

lemma tty_resize_cursor:
  "tty_resize sig inp ws mem s = Some (s0, rest) \<Longrightarrow> cursor_x (priv s0) = cursor_x (priv s) \<and> cursor_y (priv s0) = cursor_y (priv s)"
  by (auto simp: tty_resize_def set_clip_def Let_def split: bind_splits if_splits)

lemma session_end_shown:
  assumes "synced s t" "\<forall>a\<in>set ops. op_ok a"
  shows "\<exists>s' out. tty_session (ops @ [Flush]) s = Some (s', out) \<and> geometry s' \<and>
    (\<forall>y<nat (scr_height s'). line_shown s' (vt_run out t) y (screen (priv s'))) \<and>
    int (vt_row (vt_run out t)) = cursor_y (priv s') \<and> int (vt_col (vt_run out t)) = cursor_x (priv s') \<and>
    (cursor_x (priv s'), cursor_y (priv s')) = last_cursor (cursor_x (priv s), cursor_y (priv s)) ops"
proof -
  obtain s1 out where one: "tty_session ops s = Some (s1, out)" "synced s1 (vt_run out t)"
    using tty_session_synced [OF assms] by blast
  obtain s2 out' where two: "term_flush s1 = Some (s2, out')" "synced s2 (vt_run out' (vt_run out t))"
    "scr_height s2 = scr_height s1"
    "\<forall>y<nat (scr_height s1). line_shown s2 (vt_run out' (vt_run out t)) y (screen (priv s2))"
    "int (vt_row (vt_run out' (vt_run out t))) = cursor_y (priv s1)" "int (vt_col (vt_run out' (vt_run out t))) = cursor_x (priv s1)"
    using term_flush_shows [OF one(2)] by blast
  note c = tty_session_cursor [OF one(1)] term_flush_cursor [OF two(1)]
  have "tty_session [Flush] s1 = Some (s2, out')"
    using two(1) by simp
  then have "tty_session (ops @ [Flush]) s = Some (s2, out @ out')"
    using tty_session_append [OF one(1)] by blast
  then show ?thesis
    using two c by (intro exI [of _ s2] exI [of _ "out @ out'"]) (simp add: synced_def)
qed

text \<open>After the size has been set, filling the screen makes the invariant hold.\<close>

lemma resized_fill_synced:
  assumes "tty_resize sig inp ws True s = Some (s0, rest)" "scr_charset s = Charset_8859_1"
    and "0 \<le> cursor_x (priv s)" "0 \<le> cursor_y (priv s)" "0 < scr_width s0" "0 < scr_height s0"
    and "vt_mode t = Ground" "vt_width t = nat (scr_width s0)" "color \<noteq> QECOLOR_XOR"
  shows "\<exists>s1. tty_step (Fill 0 0 (scr_width s0) (scr_height s0) color) s0 = Some (s1, []) \<and> synced s1 t"
proof -
  define n where "n = nat (scr_width s0 * scr_height s0)"
  have s0: "old_screen (priv s0) = replicate n old_cell" "screen (priv s0) = replicate n new_cell"
    "line_updated (priv s0) = replicate (nat (scr_height s0)) True" "clip_x1 s0 = 0" "clip_y1 s0 = 0"
    "clip_x2 s0 = scr_width s0" "clip_y2 s0 = scr_height s0" "scr_charset s0 = Charset_8859_1"
    "cursor_x (priv s0) = cursor_x (priv s)" "cursor_y (priv s0) = cursor_y (priv s)"
    using assms(1,2) by (auto simp: tty_resize_def set_clip_def n_def Let_def split: bind_splits if_splits)
  have g: "geometry s0"
    using assms(5,6) by (simp add: geometry_def s0 n_def)
  from fill_rectangle_spec [OF g, of 0 0 "scr_width s0" "scr_height s0" color] obtain l scr where
    r: "fill_rectangle term_fill_rectangle s0 0 0 (scr_width s0) (scr_height s0) color =
      Some (s0\<lparr>priv := (priv s0)\<lparr>line_updated := l, screen := scr\<rparr>\<rparr>)"
      "length scr = n" "length l = nat (scr_height s0)" and
    scr: "\<forall>i<length scr. scr ! i =
      (let x = int i mod scr_width s0; y = int i div scr_width s0 in
       if 0 \<le> x \<and> x < 0 + scr_width s0 \<and> 0 \<le> y \<and> y < 0 + scr_height s0 \<and>
          clip_x1 s0 \<le> x \<and> x < clip_x2 s0 \<and> clip_y1 s0 \<le> y \<and> y < clip_y2 s0
       then fill_cell color (screen (priv s0) ! i) else screen (priv s0) ! i)" and
    up: "\<forall>k<length l. line_updated (priv s0) ! k \<longrightarrow> l ! k"
    by (auto simp: s0)
  have "cell_ok (scr ! i)" if i: "i < n" for i
  proof -
    have "0 \<le> int i mod scr_width s0" "int i mod scr_width s0 < scr_width s0" "0 \<le> int i div scr_width s0"
      using assms(5) by (simp_all add: pos_imp_zdiv_nonneg_iff)
    moreover have "int i div scr_width s0 < scr_height s0"
    proof (rule ccontr)
      assume "\<not> int i div scr_width s0 < scr_height s0"
      then have "scr_height s0 * scr_width s0 \<le> int i div scr_width s0 * scr_width s0"
        using assms(5) by (intro mult_right_mono) auto
      also have "\<dots> \<le> int i"
        using pos_mod_sign [OF assms(5), of "int i"] div_mult_mod_eq [of "int i" "scr_width s0"] by linarith
      finally show False
        using i assms(5,6) by (simp add: n_def mult.commute nat_less_iff)
    qed
    ultimately have "scr ! i = fill_cell color new_cell"
      using scr i r(2) by (simp add: Let_def s0)
    then show ?thesis
      using assms(9) color_byte [of color] by (simp add: fill_cell_def cell_ok_def blank_cell_def)
  qed
  then have "\<forall>c\<in>set scr. cell_ok c"
    using r(2) by (auto simp: in_set_conv_nth)
  moreover have "l ! k" if "k < nat (scr_height s0)" for k
    using up that r(3) by (simp add: s0)
  moreover have "\<exists>x<nat (scr_width s0). ch (replicate n old_cell ! (k * nat (scr_width s0) + x)) = 0"
    if "k < nat (scr_height s0)" for k
    using geometry_lengths(1) [OF g that] assms(5) by (intro exI [of _ 0]) (simp add: s0 old_cell_def)
  ultimately have "synced (s0\<lparr>priv := (priv s0)\<lparr>line_updated := l, screen := scr\<rparr>\<rparr>) t"
    using g assms(3,4,7,8) r(2,3) by (simp add: synced_def geometry_def in_sync_def Let_def s0)
  then show ?thesis
    using r(1) by simp
qed

text \<open>C3. The terminal shows the screen. In the 8859-1 charset, after the size of the terminal has been set and the
  screen filled once, any sequence of texts, rectangles, clip rectangles, cursor positions and flushes is carried out
  without an access outside of the screen, if the characters drawn are one column wide and are not NUL, DEL or
  the mark for the second cell of a wide one, and no cursor position is negative. After a flush the terminal, which
  has read nothing but the bytes that were written, shows every cell of the screen, and its cursor is where it was put
  last.
\<close>

theorem terminal_shows_screen:
  assumes "tty_resize sig inp ws True s = Some (s0, rest)" and "scr_charset s = Charset_8859_1"
    and "0 \<le> cursor_x (priv s)" and "0 \<le> cursor_y (priv s)" and "0 < scr_width s0" and "0 < scr_height s0"
    and "vt_mode t = Ground" and "vt_width t = nat (scr_width s0)" and "color \<noteq> QECOLOR_XOR"
    and "\<forall>a\<in>set ops. op_ok a"
  shows "\<exists>s' out. tty_session (Fill 0 0 (scr_width s0) (scr_height s0) color # ops @ [Flush]) s0 = Some (s', out) \<and>
    (\<forall>y<nat (scr_height s'). \<forall>x<nat (scr_width s').
       cell_shown (screen (priv s') ! (y * nat (scr_width s') + x)) (vt_cells (vt_run out t) y x)) \<and>
    (int (vt_col (vt_run out t)), int (vt_row (vt_run out t))) = last_cursor (cursor_x (priv s), cursor_y (priv s)) ops"
proof -
  obtain s1 where one: "tty_step (Fill 0 0 (scr_width s0) (scr_height s0) color) s0 = Some (s1, [])" "synced s1 t"
    using resized_fill_synced [OF assms(1-9)] by blast
  obtain s' out where two: "tty_session (ops @ [Flush]) s1 = Some (s', out)"
    "\<forall>y<nat (scr_height s'). line_shown s' (vt_run out t) y (screen (priv s'))"
    "int (vt_row (vt_run out t)) = cursor_y (priv s')" "int (vt_col (vt_run out t)) = cursor_x (priv s')"
    "(cursor_x (priv s'), cursor_y (priv s')) = last_cursor (cursor_x (priv s1), cursor_y (priv s1)) ops"
    using session_end_shown [OF one(2) assms(10)] by blast
  have "(cursor_x (priv s1), cursor_y (priv s1)) = (cursor_x (priv s), cursor_y (priv s))"
    using tty_step_cursor [OF one(1)] tty_resize_cursor [OF assms(1)] by simp
  then have "(int (vt_col (vt_run out t)), int (vt_row (vt_run out t))) = last_cursor (cursor_x (priv s), cursor_y (priv s)) ops"
    using two(3-5) by simp
  moreover have "tty_session (Fill 0 0 (scr_width s0) (scr_height s0) color # ops @ [Flush]) s0 = Some (s', out)"
    using one(1) two(1) by (simp del: tty_step.simps)
  ultimately show ?thesis
    using two(2) unfolding line_shown_def by blast
qed

definition start_vt :: vt where
  "start_vt = \<lparr>vt_cells = (\<lambda>_ _. (0, 0, 0)), vt_width = 4, vt_row = 0, vt_col = 0, vt_fg = 7, vt_bg = 0, vt_mode = Ground\<rparr>"

definition demo_ops :: "tty_op list" where
  "demo_ops = [Draw 1 0 [104, 105] 0xffff0000, Cursor_at 3 0, Flush, Fill 0 1 4 1 1]"

lemma demo_resize:
  "tty_resize 0 [] (Some (4, 2)) True demo_screen = Some (demo_screen, [])"
  by (simp add: tty_resize_def demo_screen_def set_clip_def int_range_def numeral_eq_Suc Let_def)

theorem terminal_shows_screen_witness:
  "\<exists>s' out. tty_session (Fill 0 0 (scr_width demo_screen) (scr_height demo_screen) 0xff000000 # demo_ops @ [Flush])
      demo_screen = Some (s', out) \<and>
    (\<forall>y<nat (scr_height s'). \<forall>x<nat (scr_width s').
       cell_shown (screen (priv s') ! (y * nat (scr_width s') + x)) (vt_cells (vt_run out start_vt) y x)) \<and>
    (int (vt_col (vt_run out start_vt)), int (vt_row (vt_run out start_vt))) = (3, 0)"
proof -
  have "last_cursor p demo_ops = (3, 0)" for p
    by (simp add: last_cursor_def demo_ops_def)
  then show ?thesis
    using terminal_shows_screen [OF demo_resize, where t = start_vt and color = "0xff000000" and ops = demo_ops]
    by (simp add: demo_screen_def start_vt_def demo_ops_def QECOLOR_XOR_def plain_char_def term_glyph_width_def)
qed

section \<open>Text in cells\<close>

lemma draw_loop_plain:
  assumes "\<forall>c\<in>set str. term_glyph_width c = 1" "0 \<le> ptr" "ptr + (cx2 - x) \<le> int (length scr)"
  shows "\<exists>scr'. draw_loop cx2 fg str x ptr scr = Some scr' \<and> length scr' = length scr \<and>
    (\<forall>i<length scr. scr' ! i =
      (if ptr \<le> int i \<and> int i < ptr + int (length str) \<and> int i < ptr + (cx2 - x)
       then put_cell fg (ucast (str ! nat (int i - ptr))) (scr ! i) else scr ! i))"
  using assms
proof (induction str arbitrary: x ptr scr)
  case (Cons c str)
  show ?case
  proof (cases "x + 1 > cx2")
    case True
    then show ?thesis
      using Cons.prems by (auto simp: Let_def)
  next
    case False
    define s1 where "s1 = scr[nat ptr := put_cell fg (ucast c) (scr ! nat ptr)]"
    have "change_cell (put_cell fg (ucast c)) ptr scr = Some s1"
      using Cons.prems False by (simp add: change_cell_spec s1_def)
    moreover obtain scr' where r: "draw_loop cx2 fg str (x + 1) (ptr + 1) s1 = Some scr'" "length scr' = length s1"
      "\<forall>i<length s1. scr' ! i =
        (if ptr + 1 \<le> int i \<and> int i < ptr + 1 + int (length str) \<and> int i < ptr + 1 + (cx2 - (x + 1))
         then put_cell fg (ucast (str ! nat (int i - (ptr + 1)))) (s1 ! i) else s1 ! i)"
      using Cons.IH [of "ptr + 1" "x + 1" s1] Cons.prems by (auto simp: s1_def)
    ultimately have "draw_loop cx2 fg (c # str) x ptr scr = Some scr'"
      using False Cons.prems(1) by (simp add: Let_def)
    moreover have "scr' ! i =
        (if ptr \<le> int i \<and> int i < ptr + int (length (c # str)) \<and> int i < ptr + (cx2 - x)
         then put_cell fg (ucast ((c # str) ! nat (int i - ptr))) (scr ! i) else scr ! i)" if "i < length scr" for i
    proof (cases "int i = ptr")
      case True
      then have "scr' ! i = s1 ! i"
        using r(3) that by (simp add: s1_def)
      also have "\<dots> = put_cell fg (ucast c) (scr ! i)"
        using True that by (simp add: s1_def flip: True)
      finally show ?thesis
        using True False by simp
    next
      case ne: False
      have "s1 ! i = scr ! i"
        using ne Cons.prems(2) by (simp add: s1_def nth_list_update nat_eq_iff)
      moreover have "nat (int i - ptr) = Suc (nat (int i - (ptr + 1)))" if "ptr \<le> int i"
        using that ne by auto
      ultimately show ?thesis
        using r(3) that ne by (auto simp: s1_def)
    qed
    ultimately show ?thesis
      using r(2) by (auto simp: s1_def)
  qed
qed auto

lemma clip_left_plain:
  assumes "\<forall>c\<in>set str. term_glyph_width c = 1" "x < cx1"
  shows "clip_left cx1 cx2 fg str x ptr scr =
    Some (drop (nat (cx1 - x)) str, min cx1 (x + int (length str)), ptr, scr)"
  using assms
proof (induction str arbitrary: x)
  case (Cons c str)
  have "nat (cx1 - x) = Suc (nat (cx1 - (x + 1)))"
    using Cons.prems(2) by simp
  then show ?case
    using Cons by (cases "x + 1 = cx1") (auto simp: Let_def min_def)
qed simp

text \<open>C32. A text of characters of one column is drawn into the cells from its position on that lie in the clip
  rectangle: each gets its character, cut to 16 bits, and the nearest color, and keeps its
  background. All other cells stay as they are.\<close>

theorem draw_text_cells:
  assumes "geometry s" and "\<forall>c\<in>set str. term_glyph_width c = 1"
  shows "\<exists>s'. term_draw_text s x y str color = Some s' \<and> length (screen (priv s')) = length (screen (priv s)) \<and>
    (\<forall>k<nat (scr_height s). \<forall>j<nat (scr_width s).
      let i = k * nat (scr_width s) + j in
      screen (priv s') ! i =
        (if int k = y \<and> clip_y1 s \<le> y \<and> y < clip_y2 s \<and> x \<le> int j \<and> int j < x + int (length str) \<and>
            clip_x1 s \<le> int j \<and> int j < clip_x2 s
         then put_cell (get_tty_color color) (ucast (str ! nat (int j - x))) (screen (priv s) ! i)
         else screen (priv s) ! i))"
proof (cases "clip_y1 s \<le> y \<and> y < clip_y2 s \<and> x < clip_x2 s")
  case False
  then have "term_draw_text s x y str color = Some s"
    by (auto simp: term_draw_text_def)
  then show ?thesis
    using False by (auto simp: Let_def)
next
  case True
  let ?b = "y * scr_width s" and ?fg = "get_tty_color color" and ?scr = "screen (priv s)"
  have y: "0 \<le> y" "y < scr_height s"
    using True assms(1) by (auto simp: geometry_def)
  then have upd: "set_updated y (line_updated (priv s)) = Some ((line_updated (priv s))[nat y := True])"
    using assms(1) by (simp add: set_updated_def geometry_def)
  have fit: "?b + scr_width s \<le> int (length ?scr)" "0 \<le> ?b"
    using line_fits [OF y] assms(1) y(1) by (simp_all add: geometry_def)
  define a where "a = max x (clip_x1 s)"
  define str1 where "str1 = drop (nat (a - x)) str"
  have one: "(if x < clip_x1 s then clip_left (clip_x1 s) (clip_x2 s) ?fg str x (?b + clip_x1 s) ?scr
      else Some (str, x, ?b + x, ?scr)) = Some (str1, if x < clip_x1 s then min a (x + int (length str)) else a, ?b + a, ?scr)"
    using clip_left_plain [OF assms(2), of x "clip_x1 s"] by (auto simp: a_def str1_def max_def)
  have a: "0 \<le> a" "x \<le> a" "clip_x1 s \<le> a" "clip_x2 s \<le> scr_width s"
    using assms(1) by (auto simp: a_def geometry_def)
  have narrow: "\<forall>c\<in>set str1. term_glyph_width c = 1"
    using assms(2) by (auto simp: str1_def dest: in_set_dropD)
  have two: "\<exists>scr'. draw_loop (clip_x2 s) ?fg str1 (if x < clip_x1 s then min a (x + int (length str)) else a) (?b + a) ?scr =
        Some scr' \<and> length scr' = length ?scr \<and>
      (\<forall>i<length ?scr. scr' ! i =
        (if ?b + a \<le> int i \<and> int i < ?b + a + int (length str1) \<and> int i < ?b + a + (clip_x2 s - a)
         then put_cell ?fg (ucast (str1 ! nat (int i - (?b + a)))) (?scr ! i) else ?scr ! i))"
  proof (cases "str1 = []")
    case True
    then show ?thesis
      by auto
  next
    case False
    then have "(if x < clip_x1 s then min a (x + int (length str)) else a) = a"
      using a by (auto simp: str1_def min_def)
    then show ?thesis
      using draw_loop_plain [OF narrow, of "?b + a" "clip_x2 s" a ?scr] fit a by simp
  qed
  then obtain scr' where two: "draw_loop (clip_x2 s) ?fg str1
      (if x < clip_x1 s then min a (x + int (length str)) else a) (?b + a) ?scr = Some scr'"
    "length scr' = length ?scr" "\<forall>i<length ?scr. scr' ! i =
        (if ?b + a \<le> int i \<and> int i < ?b + a + int (length str1) \<and> int i < ?b + a + (clip_x2 s - a)
         then put_cell ?fg (ucast (str1 ! nat (int i - (?b + a)))) (?scr ! i) else ?scr ! i)"
    by blast
  have "term_draw_text s x y str color =
      Some (s\<lparr>priv := (priv s)\<lparr>line_updated := (line_updated (priv s))[nat y := True], screen := scr'\<rparr>\<rparr>)"
    using True one two(1) upd by (simp add: term_draw_text_def Let_def not_le not_less)
  moreover have "scr' ! i =
      (if int k = y \<and> x \<le> int j \<and> int j < x + int (length str) \<and> clip_x1 s \<le> int j \<and> int j < clip_x2 s
       then put_cell ?fg (ucast (str ! nat (int j - x))) (?scr ! i) else ?scr ! i)"
    if k: "k < nat (scr_height s)" and j: "j < nat (scr_width s)" and i: "i = k * nat (scr_width s) + j" for k j i
  proof -
    have W: "0 < scr_width s"
      using assms(1) by (simp add: geometry_def)
    have dm: "int i div scr_width s = int k" "int i mod scr_width s = int j" and ij: "int i = int k * scr_width s + int j"
      using j W by (simp_all add: i)
    have len: "i < length ?scr"
      using geometry_lengths(1) [OF assms(1) k] j by (simp add: i)
    have "a + (clip_x2 s - a) \<le> scr_width s"
      using a(4) by simp
    from in_line_iff [OF a(1) this W, of y i]
    have rng: "?b + a \<le> int i \<and> int i < ?b + a + (clip_x2 s - a) \<longleftrightarrow> int k = y \<and> a \<le> int j \<and> int j < clip_x2 s"
      by (simp add: dm)
    show ?thesis
    proof (cases "int k = y")
      case True
      then have off: "int i - (?b + a) = int j - a"
        using ij by simp
      have "int j < x + int (length str) \<longleftrightarrow> int i < ?b + a + int (length str1)" if "a \<le> int j"
        using that off a(2) by (auto simp: str1_def)
      moreover have "str1 ! nat (int j - a) = str ! nat (int j - x)" if "a \<le> int j" "int j < x + int (length str)"
      proof -
        have "nat (a - x) + nat (int j - a) = nat (int j - x)"
          using that a(2) by auto
        then show ?thesis
          using that a(2) by (simp add: str1_def)
      qed
      moreover have "scr' ! i = (if a \<le> int j \<and> int j < clip_x2 s \<and> int i < ?b + a + int (length str1)
          then put_cell ?fg (ucast (str1 ! nat (int j - a))) (?scr ! i) else ?scr ! i)"
        using two(3) [rule_format, OF len] rng True unfolding off by auto
      moreover have "a \<le> int j \<longleftrightarrow> x \<le> int j \<and> clip_x1 s \<le> int j"
        by (auto simp: a_def)
      ultimately show ?thesis
        using True by auto
    next
      case False
      then show ?thesis
        using two(3) len rng by auto
    qed
  qed
  ultimately show ?thesis
    using True two(2) by (auto simp: Let_def)
qed

theorem draw_text_cells_witness:
  "\<exists>s'. term_draw_text demo_screen 2 1 [97, 98, 99] 0xffffffff = Some s' \<and>
    length (screen (priv s')) = length (screen (priv demo_screen)) \<and>
    (\<forall>k<nat (scr_height demo_screen). \<forall>j<nat (scr_width demo_screen).
      let i = k * nat (scr_width demo_screen) + j in
      screen (priv s') ! i =
        (if int k = 1 \<and> clip_y1 demo_screen \<le> 1 \<and> 1 < clip_y2 demo_screen \<and> 2 \<le> int j \<and>
            int j < 2 + int (length [97::u32, 98, 99]) \<and> clip_x1 demo_screen \<le> int j \<and> int j < clip_x2 demo_screen
         then put_cell (get_tty_color 0xffffffff) (ucast ([97::u32, 98, 99] ! nat (int j - 2))) (screen (priv demo_screen) ! i)
         else screen (priv demo_screen) ! i))"
  by (rule draw_text_cells) (simp_all add: geometry_def demo_screen_def term_glyph_width_def)

section \<open>What goes wrong\<close>

text \<open>
  A wide character takes two cells but is written as one question mark, so what is behind it
  moves to the left on the terminal; a delete character is written and moves the rest, too.
  The new cells of a screen are not spaces. A character from \<open>0x10000\<close> on becomes another one.
\<close>

lemma wide_character_shifts:
  "flush_cells Charset_8859_1
     (screen (priv (the (term_draw_text demo_screen 0 0 [0x4e2d, 97] 0xffffffff)))) (- 1) (- 1) =
   flush_cells Charset_8859_1
     (let c = screen (priv (the (term_draw_text demo_screen 0 0 [0x4e2d, 97] 0xffffffff))) in c ! 0 # drop 2 c) (- 1) (- 1)"
  by code_simp

lemma delete_is_written: "glyph_bytes Charset_8859_1 127 = [127]"
  by code_simp

lemma new_cells_no_spaces: "glyph_bytes Charset_8859_1 (ch new_cell) = [63] \<and> \<not> cell_ok new_cell"
  by code_simp

lemma character_is_cut:
  "map ch (take 1 (screen (priv (the (term_draw_text demo_screen 0 0 [0x10041] 0xffffffff))))) = [65]"
  by code_simp

text \<open>The driver itself does not clip rectangles.\<close>

lemma unclipped_rectangle: "term_fill_rectangle demo_screen 0 1 4 2 0 = None"
  by code_simp

end
