(* ===== verification/Tty_Text.thy ===== *)
theory Tty_Text
  imports Layout_Screen Terminal_Output
begin

text \<open>
  Text on a terminal: the driver of \<open>src/tty.c\<close> with the styles of \<open>src/qestyles.h\<close> is one the layout can
  rely on, so the theorems of \<open>text_driver\<close> hold for it.
\<close>

section \<open>The table of styles\<close>

definition QE_FAMILY_FIXED :: int where "QE_FAMILY_FIXED = 0x0100"
definition QE_FAMILY_SERIF :: int where "QE_FAMILY_SERIF = 0x0200"

definition STYLE_DEF :: "u32 \<Rightarrow> u32 \<Rightarrow> int \<Rightarrow> int \<Rightarrow> QEStyleDef" where
  "STYLE_DEF fg bg style sz = \<lparr>fg_color = fg, bg_color = bg, font_style = style, font_size = sz\<rparr>"

definition qe_styles :: "QEStyleDef list" where
  "qe_styles = [
     STYLE_DEF (QERGB 0xf8 0xd8 0xb0) (QERGB 0x00 0x00 0x00) QE_FAMILY_FIXED 12,
     STYLE_DEF (QERGB 0x00 0x00 0x00) (QERGB 0xe0 0xe0 0xe0) 0 0,
     STYLE_DEF (QERGB 0xff 0xff 0x00) COLOR_TRANSPARENT 0 0,
     STYLE_DEF (QERGB 0xff 0xff 0x00) COLOR_TRANSPARENT 0 0,
     STYLE_DEF (QERGB 0x00 0x00 0x00) (QERGB 0xbb 0xbb 0xbb) QE_FAMILY_SERIF 12,
     STYLE_DEF (QERGB 0xff 0xff 0xff) (QERGB 0x00 0x00 0x00) 0 0,
     STYLE_DEF (QERGB 0xf8 0xd8 0xb0) (QERGB 0x00 0x00 0x00) 0 0,
     STYLE_DEF (QERGB 0x00 0x00 0xff) (QERGB 0xff 0xff 0xff) 0 0,
     STYLE_DEF (QERGB 0xf8 0x44 0x00) COLOR_TRANSPARENT 0 0,
     STYLE_DEF (QERGB 0x00 0xff 0xff) COLOR_TRANSPARENT 0 0,
     STYLE_DEF (QERGB 0xf8 0xa0 0x78) COLOR_TRANSPARENT 0 0,
     STYLE_DEF (QERGB 0x00 0xff 0xff) COLOR_TRANSPARENT 0 0,
     STYLE_DEF (QERGB 0x80 0xcc 0xf0) COLOR_TRANSPARENT 0 0,
     STYLE_DEF (QERGB 0xe8 0xdc 0x80) COLOR_TRANSPARENT 0 0,
     STYLE_DEF (QERGB 0x00 0x80 0x00) COLOR_TRANSPARENT 0 0,
     STYLE_DEF (QERGB 0x00 0xff 0xff) COLOR_TRANSPARENT 0 0,
     STYLE_DEF (QERGB 0x98 0xf8 0x98) COLOR_TRANSPARENT 0 0,
     STYLE_DEF (QERGB 0xf8 0xa0 0x78) COLOR_TRANSPARENT 0 0,
     STYLE_DEF (QERGB 0x00 0xff 0xff) COLOR_TRANSPARENT 0 0,
     STYLE_DEF (QERGB 0x00 0xff 0xff) COLOR_TRANSPARENT 0 0,
     STYLE_DEF (QERGB 0x00 0x80 0x00) COLOR_TRANSPARENT 0 0,
     STYLE_DEF (QERGB 0xff 0x00 0x00) COLOR_TRANSPARENT 0 0]"

section \<open>The driver\<close>

text \<open>
  The charset of the terminal, the contents of memory and whether lines are numbered are arguments;
  there is memory.
\<close>

definition term_open_font :: "int \<Rightarrow> int \<Rightarrow> int \<times> int" where
  "term_open_font style sz = (0, 1)"

definition tty_env :: "bool \<Rightarrow> u8 list \<Rightarrow> bool \<Rightarrow> DisplayEnv" where
  "tty_env utf8 junk line_numbers = \<lparr>dpy_font = term_open_font,
     dpy_metrics = (\<lambda>font c. (fst font, snd font, term_text_metrics [c])), dpy_has_cursor = True,
     dpy_utf8 = utf8, env_styles = qe_styles, env_junk = junk, env_mem = True, env_line_numbers = line_numbers\<rparr>"

interpretation tty: text_driver "tty_env utf8 junk line_numbers" 0 1 term_glyph_width
  for utf8 junk line_numbers
proof
  show "dpy_font (tty_env utf8 junk line_numbers) a b = (0, 1)" for a b
    by (simp add: tty_env_def term_open_font_def)
  show "dpy_metrics (tty_env utf8 junk line_numbers) (0, 1) c = (0, 1, term_glyph_width c)" for c
    by (simp add: tty_env_def term_text_metrics_def)
  show "1 \<le> term_glyph_width c" "term_glyph_width c \<le> 100" for c
    using term_glyph_width_range [of c] by auto
qed (simp_all add: tty_env_def qe_styles_def)

end
