(* ===== verification/Tty_Screen.thy ===== *)
theory Tty_Screen
  imports Tty_Text
begin

text \<open>
  The text in a window of a terminal. \<open>places\<close> says where each character is shown, in one pass over the text and
  without the tables of \<open>src/qe.c\<close>; the layout of the code is shown to agree with it, and the cursor, the mouse, the
  moves up and down and the redisplay are described with it.
\<close>

section \<open>Where the characters are shown\<close>

text \<open>A glyph of width \<open>w\<close> behind a place of the screen (row and column): where it is shown, and the place behind it.\<close>

definition next_cell :: "int \<Rightarrow> int \<Rightarrow> int \<times> int \<Rightarrow> (int \<times> int) \<times> (int \<times> int)" where
  "next_cell W w p = (case p of (r, x) \<Rightarrow>
     let (r, x) = (if x \<noteq> 0 \<and> x + w > W then (r + 1, 0) else (r, x))
     in ((r, x), if x + w > W then (r + 1, 0) else (r, x + w)))"

text \<open>The glyphs of a character of the text, and how wide they are.\<close>

definition shown_as :: "bool \<Rightarrow> u8 \<Rightarrow> u8 list" where
  "shown_as tabs c =
     (if c < 32 \<and> c \<noteq> 9 then [94, 64 + c]
      else if 128 \<le> c \<and> c < 160 then [92, 117] @ print_hex 4 (uint c)
      else if c = 9 \<and> tabs then 94 # replicate 7 45
      else if c = 32 \<and> tabs then [46]
      else [c])"

definition glyph_size :: "int \<Rightarrow> int \<Rightarrow> u8 \<Rightarrow> int" where
  "glyph_size T x c = (if c = 9 then T - x mod T else term_glyph_width (ucast c))"

fun advance :: "int \<Rightarrow> int \<Rightarrow> u8 list \<Rightarrow> int \<times> int \<Rightarrow> int \<times> int" where
  "advance W T [] p = p"
| "advance W T (c # cs) p = advance W T cs (snd (next_cell W (glyph_size T (snd p) c) p))"

text \<open>
  The places (row, column and width) of the characters of a text and of its end, from a place of the screen on, when a
  row is \<open>W\<close> columns wide and there is a tabulator stop at every \<open>T\<close> columns.
\<close>

fun places :: "int \<Rightarrow> int \<Rightarrow> bool \<Rightarrow> u8 list \<Rightarrow> int \<times> int \<Rightarrow> (int \<times> int \<times> int) list" where
  "places W T tabs [] (r, x) = [(r, x, 1)]"
| "places W T tabs (c # t) (r, x) =
    (if c = 10 then (r, x, 1) # places W T tabs t (r + 1, 0)
     else let cs = shown_as tabs c; w = glyph_size T x (hd cs); (r', x') = fst (next_cell W w (r, x))
          in (r', x', w) # places W T tabs t (advance W T cs (r, x)))"

text \<open>A window on a text in a charset of one byte per character whose lines are wrapped.\<close>

definition tty_window :: "u8 list \<Rightarrow> DisplayWindow \<Rightarrow> bool" where
  "tty_window t e \<longleftrightarrow> byte_text (dw_b e) t \<and> dw_hex_mode e = 0 \<and> dw_x_disp e DIR_LTR = 0 \<and> \<not> dw_line_numbers e \<and>
     \<not> dw_colorize e \<and> get_colorized e = None \<and> dw_prompt e = None \<and> dw_default_style e = 0 \<and> dw_wrap e = WRAP_LINE \<and>
     0 < dw_tab_size e \<and> dw_tab_size e \<le> 100 \<and> 1 \<le> dw_width e \<and> dw_width e \<le> 129"

text \<open>The places in a window, from the top of its display on.\<close>

definition window_places :: "u8 list \<Rightarrow> DisplayWindow \<Rightarrow> (int \<times> int \<times> int) list" where
  "window_places t e = places (dw_width e - 1) (dw_tab_size e) (dw_show_tabs e) (drop (nat (dw_offset_top e)) t) (0, 0)"

definition place_of :: "u8 list \<Rightarrow> DisplayWindow \<Rightarrow> nat \<Rightarrow> int \<times> int \<times> int" where
  "place_of t e c = window_places t e ! (c - nat (dw_offset_top e))"

section \<open>The layout of the code puts them there\<close>

definition call_at :: "int \<Rightarrow> int \<Rightarrow> nat \<Rightarrow> int \<times> int \<times> int \<Rightarrow> CursorCall" where
  "call_at n y p l = (case l of (r, x, w) \<Rightarrow> \<lparr>cc_offset1 = int p, cc_offset2 = int p + 1, cc_line_num = n + r, cc_x = x,
     cc_y = y + r, cc_w = w, cc_h = 1, cc_hex_mode = 0\<rparr>)"

fun calls_from :: "int \<Rightarrow> int \<Rightarrow> nat \<Rightarrow> (int \<times> int \<times> int) list \<Rightarrow> CursorCall list" where
  "calls_from n y p [] = []"
| "calls_from n y p (l # ls) = call_at n y p l # calls_from n y (Suc p) ls"

lemma calls_from_nth: "i < length ls \<Longrightarrow> calls_from n y p ls ! i = call_at n y (p + i) (ls ! i)"
  by (induction ls arbitrary: p i) (auto simp: nth_Cons split: nat.split)

lemma length_places [simp]: "length (places W T tabs t p) = length t + 1"
  by (induction W T tabs t p rule: places.induct) (auto simp: Let_def split: prod.split)

lemma lay_append:
  "lay W x r (cs @ ds) = lay W x r cs @ (case lay_end W x r cs of (x', r') \<Rightarrow> lay W x' r' ds)"
  "lay_end W x r (cs @ ds) = (case lay_end W x r cs of (x', r') \<Rightarrow> lay_end W x' r' ds)"
  by (induction cs arbitrary: x r) (simp_all add: Let_def)

lemma lay_cell:
  assumes "next_cell W (cell_width c) (r, x) = ((ra, xa), rb, xb)"
  shows "lay W x r [c] = [(ra, xa, c)]" "lay_end W x r [c] = (xb, rb)"
  using assms by (auto simp: next_cell_def Let_def split: if_splits)

lemma next_cell_shift:
  "next_cell W w (k + r, x) = (case next_cell W w (r, x) of ((ra, xa), rb, xb) \<Rightarrow> ((k + ra, xa), k + rb, xb))"
  by (simp add: next_cell_def Let_def add.assoc)

lemma tab_code: "(ucast c :: u32) = 9 \<longleftrightarrow> c = 9" for c :: u8
proof
  assume "(ucast c :: u32) = 9"
  then have "uint (ucast c :: u32) = 9"
    by simp
  then have "uint c = 9"
    by (simp add: uint_up_ucast is_up)
  then show "c = 9"
    by (simp add: word_uint_eq_iff)
qed simp

text \<open>A glyph that is put behind the cells \<open>cs\<close>.\<close>

lemma one_glyph:
  assumes "lay_end W 0 0 cs = (x, r)" "next_cell W (glyph_size T x c) (k + r, x) = ((k + ra, xa), pb)"
  shows "lay_calls (n + k) (y + k) 1 (lay W 0 0 (tty.glyph_cells W T cs [(ucast c, o1, o2)])) =
      lay_calls (n + k) (y + k) 1 (lay W 0 0 cs) @ place_calls (n + (k + ra)) (y + (k + ra)) 1 xa (o1, o2, glyph_size T x c) \<and>
    (\<exists>xb rb. lay_end W 0 0 (tty.glyph_cells W T cs [(ucast c, o1, o2)]) = (xb, rb) \<and> pb = (k + rb, xb))"
proof (intro conjI)
  let ?c = "tty.glyph_cell T x (ucast c, o1, o2)"
  have "(ucast c :: u32) = 9 \<longleftrightarrow> c = 9"
    by (rule tab_code)
  then have c: "?c = (o1, o2, glyph_size T x c)"
    by (simp add: tty.glyph_cell_def glyph_size_def)
  obtain s1 xz s2 xb where n: "next_cell W (glyph_size T x c) (r, x) = ((s1, xz), s2, xb)"
    by (metis prod.exhaust)
  then have e: "s1 = ra" "xz = xa" "pb = (k + s2, xb)"
    using assms(2) by (simp_all add: next_cell_shift)
  have l: "lay W x r [?c] = [(ra, xa, ?c)]" "lay_end W x r [?c] = (xb, s2)"
    using lay_cell [of W ?c r x] n e by (simp_all add: c)
  show "lay_calls (n + k) (y + k) 1 (lay W 0 0 (tty.glyph_cells W T cs [(ucast c, o1, o2)])) =
      lay_calls (n + k) (y + k) 1 (lay W 0 0 cs) @ place_calls (n + (k + ra)) (y + (k + ra)) 1 xa (o1, o2, glyph_size T x c)"
    using l assms(1) by (simp add: lay_append lay_calls_def add.assoc del: lay.simps) (simp add: c)
  show "\<exists>xb rb. lay_end W 0 0 (tty.glyph_cells W T cs [(ucast c, o1, o2)]) = (xb, rb) \<and> pb = (k + rb, xb)"
    using l assms(1) e by (simp add: lay_append del: lay_end.simps)
qed

lemma other_glyphs:
  assumes "lay_end W 0 0 cs = (x, r)"
  shows "lay_calls (n + k) (y + k) 1 (lay W 0 0 (tty.glyph_cells W T cs (map (\<lambda>c. (ucast c, - 1, - 1)) ds))) =
      lay_calls (n + k) (y + k) 1 (lay W 0 0 cs) \<and>
    (\<exists>xb rb. lay_end W 0 0 (tty.glyph_cells W T cs (map (\<lambda>c. (ucast c, - 1, - 1)) ds)) = (xb, rb) \<and>
      advance W T ds (k + r, x) = (k + rb, xb))"
  using assms
proof (induction ds arbitrary: cs x r)
  case (Cons d ds)
  obtain ra xa pb where "next_cell W (glyph_size T x d) (k + r, x) = ((k + ra, xa), pb)"
    by (metis add_diff_cancel_left' diff_add_cancel prod.exhaust add.commute)
  note one = one_glyph [OF Cons.prems this, where ?o1.0 = "- 1" and ?o2.0 = "- 1" and n = n and y = y]
  obtain xb rb where e: "lay_end W 0 0 (tty.glyph_cells W T cs [(ucast d, - 1, - 1)]) = (xb, rb)" "pb = (k + rb, xb)"
    using one by blast
  from Cons.IH [OF e(1)] show ?case
    using one e \<open>next_cell W (glyph_size T x d) (k + r, x) = ((k + ra, xa), pb)\<close>
    by (simp add: place_calls_def)
qed simp

lemma char_glyphs_shown: "char_glyphs tabs p c = text_glyphs (int p) (int (Suc p)) (shown_as tabs c)"
  unfolding char_glyphs_def shown_as_def by (rule refl)

lemma shown_as_some: "shown_as tabs c \<noteq> []"
  unfolding shown_as_def by (simp only: append.simps list.distinct simp_thms split: if_split)

text \<open>A character that is put behind the cells \<open>cs\<close>.\<close>

lemma one_char:
  assumes "lay_end W 0 0 cs = (x, r)" and l: "fst (next_cell W (glyph_size T x (hd (shown_as tabs c))) (k + r, x)) = (rq, xq)"
  shows "lay_calls (n + k) (y + k) 1 (lay W 0 0 (tty.glyph_cells W T cs (char_glyphs tabs p c))) =
      lay_calls (n + k) (y + k) 1 (lay W 0 0 cs) @ [call_at n y p (rq, xq, glyph_size T x (hd (shown_as tabs c)))] \<and>
    (\<exists>xb rb. lay_end W 0 0 (tty.glyph_cells W T cs (char_glyphs tabs p c)) = (xb, rb) \<and>
      advance W T (shown_as tabs c) (k + r, x) = (k + rb, xb))"
proof (intro conjI)
  obtain d ds where d: "shown_as tabs c = d # ds"
    using shown_as_some list.exhaust by blast
  obtain pb where n: "next_cell W (glyph_size T x d) (k + r, x) = ((k + (rq - k), xq), pb)"
    using l d by (cases "next_cell W (glyph_size T x d) (k + r, x)") simp
  note one = one_glyph [OF assms(1) n, where ?o1.0 = "int p" and ?o2.0 = "int (Suc p)" and n = n and y = y]
  obtain xb rb where e: "lay_end W 0 0 (tty.glyph_cells W T cs [(ucast d, int p, int (Suc p))]) = (xb, rb)" "pb = (k + rb, xb)"
    using one by blast
  have g: "tty.glyph_cells W T cs (char_glyphs tabs p c) =
      tty.glyph_cells W T (tty.glyph_cells W T cs [(ucast d, int p, int (Suc p))]) (map (\<lambda>c. (ucast c, - 1, - 1)) ds)"
    by (simp add: char_glyphs_shown d)
  show "lay_calls (n + k) (y + k) 1 (lay W 0 0 (tty.glyph_cells W T cs (char_glyphs tabs p c))) =
      lay_calls (n + k) (y + k) 1 (lay W 0 0 cs) @ [call_at n y p (rq, xq, glyph_size T x (hd (shown_as tabs c)))]"
    unfolding g using other_glyphs [OF e(1)] one by (simp add: d place_calls_def call_at_def)
  show "\<exists>xb rb. lay_end W 0 0 (tty.glyph_cells W T cs (char_glyphs tabs p c)) = (xb, rb) \<and>
      advance W T (shown_as tabs c) (k + r, x) = (k + rb, xb)"
    unfolding g using other_glyphs [OF e(1), of n k y T ds] n e(2) by (simp add: d)
qed

text \<open>A line: its calls, and where the next line begins.\<close>

lemma line_places:
  assumes "lay_end W 0 0 cs = (x, r)" "10 \<notin> set l" "rest = [] \<or> hd rest = 10"
    and L: "L = places W T tabs (l @ rest) (k + r, x)" and g: "g = tty.glyph_cells W T cs (tty.line_glyphs tabs p l)"
  shows "end_calls W 1 (n + k) (y + k) 1 (int (p + length l)) (int (p + length l) + 1) g =
      lay_calls (n + k) (y + k) 1 (lay W 0 0 cs) @ calls_from n y p (take (Suc (length l)) L)"
    "rest \<noteq> [] \<Longrightarrow> drop (Suc (length l)) L = places W T tabs (tl rest) (k + snd (lay_end W 0 0 g) + 1, 0)"
  using assms
proof (induction l arbitrary: cs x r p L g)
  case Nil
  {
    case 1
    then show ?case
      by (cases rest) (simp_all add: end_calls_def lay_calls_def place_calls_def call_at_def)
  next
    case 2
    then show ?case
      by (cases rest) simp_all
  }
next
  case (Cons c l)
  {
    case 1
    obtain rq xq where l: "fst (next_cell W (glyph_size T x (hd (shown_as tabs c))) (k + r, x)) = (rq, xq)"
      by (metis prod.exhaust)
    let ?g = "tty.glyph_cells W T cs (char_glyphs tabs p c)"
    note one = one_char [OF 1(1) l, where n = n and y = y and p = p]
    obtain xb rb where e: "lay_end W 0 0 ?g = (xb, rb)" "advance W T (shown_as tabs c) (k + r, x) = (k + rb, xb)"
      using one by blast
    have "g = tty.glyph_cells W T ?g (tty.line_glyphs tabs (Suc p) l)"
      using 1(5) by (simp add: tty.glyph_cells_append)
    from Cons.IH(1) [OF e(1) _ 1(3) refl this] 1(2,4) one show ?case
      by (simp add: l e(2) Let_def)
  next
    case 2
    obtain rq xq where l: "fst (next_cell W (glyph_size T x (hd (shown_as tabs c))) (k + r, x)) = (rq, xq)"
      by (metis prod.exhaust)
    let ?g = "tty.glyph_cells W T cs (char_glyphs tabs p c)"
    note one = one_char [OF 2(2) l, where n = n and y = y and p = p]
    obtain xb rb where e: "lay_end W 0 0 ?g = (xb, rb)" "advance W T (shown_as tabs c) (k + r, x) = (k + rb, xb)"
      using one by blast
    have "g = tty.glyph_cells W T ?g (tty.line_glyphs tabs (Suc p) l)"
      using 2(6) by (simp add: tty.glyph_cells_append)
    from Cons.IH(2) [OF 2(1) e(1) _ 2(4) refl this] 2(3,5) show ?case
      by (simp add: l e(2) Let_def)
  }
qed

lemma line_rest:
  assumes "p \<le> length t" "l = takeWhile (\<lambda>c. c \<noteq> 10) (drop p t)" "rest = dropWhile (\<lambda>c. c \<noteq> 10) (drop p t)"
  shows "drop p t = l @ rest" "10 \<notin> set l" "rest = [] \<or> hd rest = 10" "tl rest = drop (Suc (p + length l)) t"
    "p + length l < length t \<longleftrightarrow> rest \<noteq> []"
proof -
  show d: "drop p t = l @ rest"
    by (simp add: assms(2,3))
  show "10 \<notin> set l"
    unfolding assms(2) by (auto dest: set_takeWhileD)
  show "rest = [] \<or> hd rest = 10"
    unfolding assms(3) using hd_dropWhile [of "\<lambda>c. c \<noteq> 10" "drop p t"] by auto
  have "drop (length l) (drop p t) = rest"
    by (simp add: d)
  then have r: "drop (p + length l) t = rest"
    by (simp add: add.commute)
  then show "tl rest = drop (Suc (p + length l)) t"
    by (metis drop_Suc tl_drop)
  show "p + length l < length t \<longleftrightarrow> rest \<noteq> []"
    unfolding r [symmetric] by (simp add: not_le)
qed

lemma layout_places:
  assumes s: "ds_width s = W" "ds_tab_width s = T" "eol_width s = 1" "dw_show_tabs (edit_state s) = tabs"
    and c: "p \<le> c" "c \<le> length t"
  shows "tty.call_of s t p (n + k) (y + k) c = call_at n y c (places W T tabs (drop p t) (k, 0) ! (c - p))"
  using c
proof (induction "c - p" arbitrary: p k rule: less_induct)
  case less
  define l where "l = takeWhile (\<lambda>c. c \<noteq> 10) (drop p t)"
  define rest where "rest = dropWhile (\<lambda>c. c \<noteq> 10) (drop p t)"
  define g where "g = tty.glyph_cells W T [] (tty.line_glyphs tabs p l)"
  have "p \<le> length t"
    using less.prems by simp
  note lr = line_rest [OF this l_def rest_def]
  have e: "lay_end W 0 0 [] = (0, 0)"
    by simp
  have P: "places W T tabs (l @ rest) (k, 0) = places W T tabs (l @ rest) (k + 0, 0)"
    by simp
  note lp = line_places(1) [OF e lr(2,3) P g_def, of n y] line_places(2) [OF e lr(2,3) P g_def]
  show ?case
  proof (cases "c \<le> p + length l")
    case True
    have "tty.call_of s t p (n + k) (y + k) c = tty.line_end_calls s t p (n + k) (y + k) ! (c - p)"
      by (rule tty.call_of_line) (use True less.prems l_def in simp_all)
    also have "tty.line_end_calls s t p (n + k) (y + k) = calls_from n y p (take (Suc (length l)) (places W T tabs (l @ rest) (k, 0)))"
      using lp(1) unfolding tty.line_end_calls_def tty.line_cells_def s Let_def l_def [symmetric] g_def [symmetric]
      by (simp add: lay_calls_def)
    finally show ?thesis
      using True less.prems lr(1) by (simp add: calls_from_nth)
  next
    case False
    let ?q = "Suc (p + length l)"
    have rest: "rest \<noteq> []"
      using False less.prems(2) lr(5) by simp
    have rows: "tty.line_rows s t p = snd (lay_end W 0 0 g) + 1"
      unfolding tty.line_rows_def tty.line_cells_def s l_def [symmetric] g_def [symmetric] by simp
    have "tty.call_of s t p (n + k) (y + k) c = tty.call_of s t ?q (n + (k + tty.line_rows s t p)) (y + (k + tty.line_rows s t p)) c"
      using tty.call_of_next [of p t c s "n + k" "y + k"] False by (simp add: l_def add.assoc)
    also have "\<dots> = call_at n y c (places W T tabs (drop ?q t) (k + tty.line_rows s t p, 0) ! (c - ?q))"
      using False less.prems by (intro less.hyps) simp_all
    also have "places W T tabs (drop ?q t) (k + tty.line_rows s t p, 0) = drop (Suc (length l)) (places W T tabs (drop p t) (k, 0))"
      using lp(2) [OF rest] lr(1,4) rows by (simp add: add.assoc)
    also have "drop (Suc (length l)) (places W T tabs (drop p t) (k, 0)) ! (c - ?q) = places W T tabs (drop p t) (k, 0) ! (c - p)"
    proof -
      have "Suc (length l) \<le> length (places W T tabs (drop p t) (k, 0))" "Suc (length l) + (c - ?q) = c - p"
        using False less.prems by simp_all
      then show ?thesis
        by (simp only: nth_drop)
    qed
    finally show ?thesis .
  qed
qed

section \<open>Windows of a terminal\<close>

lemma tty_widths: "tty.eol_glyph = 1" "term_glyph_width 32 = 1"
  by (simp_all add: tty.eol_glyph_def term_glyph_width_def)

lemma tty_window_ok: "tty_window t e \<longleftrightarrow> tty.window_ok t e"
  by (auto simp: tty_window_def tty.window_ok_def tty.text_window_def tty_widths)

lemma tty_place:
  assumes "0 \<le> dw_offset_top e" "dw_offset_top e \<le> int c" "c \<le> length t"
  shows "tty.cursor_place ds0 e t c = call_at 0 (dw_y_disp e) c (place_of t e c)"
  using layout_places [where ?n = 0 and ?k = 0 and ?y = "dw_y_disp e" and ?p = "nat (dw_offset_top e)" and ?c = c, OF refl refl]
    assms
  by (simp add: tty.cursor_place_def place_of_def window_places_def tty_widths nat_le_iff)

abbreviation text_tty :: "bool \<Rightarrow> u8 list \<Rightarrow> display_fun" where
  "text_tty utf8 junk \<equiv> text_display (tty_env utf8 junk False)"

lemma no_numbers: "\<not> env_line_numbers (tty_env utf8 junk False)"
  by (simp add: tty_env_def)

text \<open>Moving the cursor of a window leaves the layout alone.\<close>

lemma set_offset_window:
  "tty_window t (set_dw_offset p e) = tty_window t e" "dw_offset_top (set_dw_offset p e) = dw_offset_top e"
  "tty.cursor_place ds0 (set_dw_offset p e) t c = tty.cursor_place ds0 e t c"
proof -
  show a: "dw_offset_top (set_dw_offset p e) = dw_offset_top e"
    by (simp add: dw_offset_top_def set_dw_offset_def set_tracked_def OFFSET_def OFFSET_TOP_def)
  show "tty_window t (set_dw_offset p e) = tty_window t e"
    by (simp add: tty_window_def set_dw_offset_def set_tracked_def)
  show "tty.cursor_place ds0 (set_dw_offset p e) t c = tty.cursor_place ds0 e t c"
    unfolding tty.cursor_place_def a
    by (simp add: set_dw_offset_def) (rule tty.same_layout_calls, simp_all)
qed

section \<open>The cursor and the mouse\<close>

text \<open>C37. The position of the cursor on the terminal that \<open>get_cursor_pos\<close> computes by laying out the text is the
  place that \<open>places\<close> says, for every text, width up to 129 columns, tabulator up to 100 and top of the display that is
  not behind the cursor; and if this place is not below the window, clicking on any of its columns puts the cursor back
  from wherever it was moved. The lines of the window are wrapped, not numbered and not coloured, and its text has one
  byte per character.
\<close>

theorem click_finds_cursor:
  assumes "tty_window t e" "arrays_ok ds0" "0 \<le> dw_offset_top e" "dw_offset_top e \<le> dw_offset e"
    "dw_offset e \<le> int (length t)" "place_of t e (nat (dw_offset e)) = (row, col, w)"
  shows "\<exists>e1. get_cursor_pos (tty_env utf8 junk False) (text_tty utf8 junk) ds0 e m =
      Some (m\<lparr>offsetc := dw_offset e, xc := col, yc := dw_y_disp e + row, place := Some \<lparr>linec = row, basec = DIR_LTR,
        dirc = DIR_LTR, cursor_width = w, cursor_height = 1\<rparr>\<rparr>, e1) \<and>
    (\<forall>dx p. 0 \<le> dx \<and> dx < w \<and> dw_y_disp e + row < dw_height e \<longrightarrow>
      (\<exists>a e2. text_mouse_goto (tty_env utf8 junk False) (text_tty utf8 junk) ds0 (col + dx) (dw_y_disp e + row)
        (set_dw_offset p e1) = Some (a, e2) \<and> dw_offset e2 = dw_offset e))"
proof -
  let ?c = "nat (dw_offset e)"
  have w: "tty.window_ok t e" and c: "int ?c = dw_offset e" "?c \<le> length t"
    using assms(1,3-5) by (simp_all add: tty_window_ok)
  define d where "d = tty.cursor_place ds0 e t ?c"
  have d: "d = call_at 0 (dw_y_disp e) ?c (row, col, w)"
    using tty_place [of e ?c t ds0] assms by (simp add: d_def)
  obtain e1 where e1: "get_cursor_pos (tty_env utf8 junk False) (text_tty utf8 junk) ds0 e m =
      Some (m\<lparr>offsetc := dw_offset e, xc := cc_x d, yc := cc_y d, place := Some (tty.found_place d)\<rparr>, e1)"
    "tty.window_ok t e1" "tty.redrawn e e1"
    using tty.get_cursor_pos_place [OF w assms(2) no_numbers assms(3-5) d_def] by blast
  have "\<exists>a e2. text_mouse_goto (tty_env utf8 junk False) (text_tty utf8 junk) ds0 (col + dx) (dw_y_disp e + row)
      (set_dw_offset p e1) = Some (a, e2) \<and> dw_offset e2 = dw_offset e"
    if x: "0 \<le> dx \<and> dx < w \<and> dw_y_disp e + row < dw_height e" for dx p
  proof -
    note same = tty.redrawn_fields [OF e1(3)]
    let ?e = "set_dw_offset p e1"
    have top: "dw_offset_top ?e = dw_offset_top e" and h: "dw_height ?e = dw_height e"
      using same by (simp_all add: set_offset_window) (simp add: set_dw_offset_def same)
    have w2: "tty.window_ok t ?e" and d2: "d = tty.cursor_place ds0 ?e t ?c"
      using e1(2) same by (simp_all add: set_offset_window d_def flip: tty_window_ok)
    have "0 \<le> dw_offset_top ?e" "dw_offset_top ?e \<le> int ?c" "cc_x d \<le> col + dx" "col + dx < cc_x d + cc_w d"
      "cc_y d \<le> dw_y_disp e + row" "dw_y_disp e + row < cc_y d + cc_h d" "cc_y d < dw_height ?e"
      using assms(3,4) x c top h by (simp_all add: d call_at_def)
    from tty.text_mouse_goto_place [OF w2 assms(2) no_numbers this(1,2) c(2) d2 this(3-7), of utf8 junk] c(1)
    show ?thesis
      by auto
  qed
  then show ?thesis
    using e1(1) by (auto simp: d call_at_def tty.found_place_def)
qed

section \<open>Moving up and down\<close>

definition row_offsets :: "u8 list \<Rightarrow> DisplayWindow \<Rightarrow> int \<Rightarrow> nat set" where
  "row_offsets t e r = {c. nat (dw_offset_top e) \<le> c \<and> c \<le> length t \<and> fst (place_of t e c) = r}"

definition column_of :: "u8 list \<Rightarrow> DisplayWindow \<Rightarrow> nat \<Rightarrow> int" where
  "column_of t e c = fst (snd (place_of t e c))"

lemma row_offsets_row:
  assumes "0 \<le> dw_offset_top e"
  shows "tty.row_of ds0 e t r = row_offsets t e r"
    "c \<in> row_offsets t e r \<Longrightarrow> cc_x (tty.cursor_place ds0 e t c) = column_of t e c"
proof -
  have p: "tty.cursor_place ds0 e t c = call_at 0 (dw_y_disp e) c (place_of t e c)"
    if "nat (dw_offset_top e) \<le> c" "c \<le> length t" for c
    using tty_place [of e c t ds0] that assms by (simp add: nat_le_iff)
  then show "tty.row_of ds0 e t r = row_offsets t e r"
    unfolding tty.row_of_def row_offsets_def by (auto simp: call_at_def split: prod.splits)
  show "cc_x (tty.cursor_place ds0 e t c) = column_of t e c" if "c \<in> row_offsets t e r"
    using that p [of c] by (auto simp: row_offsets_def column_of_def call_at_def split: prod.splits)
qed

text \<open>C39. Moving the cursor down, or up from below the first row of the display, moves it to the character of the next or
  previous row of the screen whose column is closest to the one it started from, or to the end or the beginning of the
  text if no character begins in that row; a series of moves keeps the column of the first one. The window is one as
  before.
\<close>

theorem move_goes_to_closest:
  assumes "tty_window t e" "arrays_ok ds0" "0 \<le> dw_offset_top e" "dw_offset_top e \<le> dw_offset e"
    "dw_offset e \<le> int (length t)" "place_of t e (nat (dw_offset e)) = (row, col, w)"
    "dir = 1 \<or> dir = - 1 \<and> 0 < row" "x = (if again \<and> last_x \<noteq> - 1 then last_x else col)" "\<bar>last_x\<bar> \<le> 1000000"
  shows "\<exists>e'. text_move_up_down (tty_env utf8 junk False) (text_tty utf8 junk) back ds0 again last_x cm dir e = Some (x, e') \<and>
    (row_offsets t e (row + dir) = {} \<and> dw_offset e' = (if dir = 1 then int (length t) else 0) \<or>
     (\<exists>c\<in>row_offsets t e (row + dir). dw_offset e' = int c \<and>
        (\<forall>c'\<in>row_offsets t e (row + dir). \<bar>column_of t e c - x\<bar> \<le> \<bar>column_of t e c' - x\<bar>)))"
proof -
  let ?c = "nat (dw_offset e)"
  define d where "d = tty.cursor_place ds0 e t ?c"
  have d: "d = call_at 0 (dw_y_disp e) ?c (row, col, w)"
    using tty_place [of e ?c t ds0] assms by (simp add: d_def)
  have w: "tty.window_ok t e"
    using assms(1) by (simp add: tty_window_ok)
  have "dir = 1 \<or> dir = - 1 \<and> 0 < cc_line_num d" "x = (if again \<and> last_x \<noteq> - 1 then last_x else cc_x d)"
    using assms(7,8) by (simp_all add: d call_at_def)
  from tty.text_move_up_down_places [OF w assms(2) no_numbers assms(3-5) d_def this assms(9), of utf8 junk "back" cm]
  obtain e' where e': "text_move_up_down (tty_env utf8 junk False) (text_tty utf8 junk) back ds0 again last_x cm dir e = Some (x, e')"
    "row_offsets t e (row + dir) = {} \<and> dw_offset e' = (if dir = 1 then int (length t) else 0) \<or>
     (\<exists>c\<in>row_offsets t e (row + dir). dw_offset e' = int c \<and> (\<forall>c'\<in>row_offsets t e (row + dir).
        \<bar>cc_x (tty.cursor_place ds0 e t c) - x\<bar> \<le> \<bar>cc_x (tty.cursor_place ds0 e t c') - x\<bar>))"
    unfolding row_offsets_row(1) [OF assms(3)] by (auto simp: d call_at_def)
  then show ?thesis
    using row_offsets_row(2) [OF assms(3), where ?ds0.0 = ds0] by (metis (no_types, lifting))
qed

section \<open>Displaying the window\<close>

text \<open>C38. Redisplaying a window as before, at least one row high, ends and leaves the cursor in it: wherever the cursor
  was moved in the text and whatever the top of the display was, the new top is not behind it, its place from there is
  inside the window, and the cursor of the terminal is put on that place.
\<close>

theorem redisplay_shows_cursor:
  assumes "tty_window t e" "arrays_ok ds0" "dw_offset e = int c" "c \<le> length t" "0 \<le> dw_offset_top e"
    "1 \<le> dw_height e" "dw_height e \<le> 1000000" "0 \<le> dw_xleft e" "dw_xleft e \<le> 1000000" "0 \<le> dw_ytop e" "dw_ytop e \<le> 1000000"
  shows "\<exists>e' calls row col w. generic_text_display (tty_env utf8 junk False) (text_tty utf8 junk)
      (text_backward_offset (tty_env utf8 junk False)) ds0 m True e =
      Some (e', calls, Some (dw_xleft e + col, dw_ytop e + (dw_y_disp e' + row))) \<and>
    tty_window t e' \<and> dw_offset e' = int c \<and> 0 \<le> dw_offset_top e' \<and> dw_offset_top e' \<le> int c \<and>
    place_of t e' c = (row, col, w) \<and> 0 \<le> col \<and> col < dw_width e \<and> 0 \<le> dw_y_disp e' + row \<and> dw_y_disp e' + row < dw_height e"
proof -
  have w: "tty.window_ok t e"
    using assms(1) by (simp add: tty_window_ok)
  have "dpy_has_cursor (tty_env utf8 junk False)" "0 + 1 \<le> dw_height e"
    using assms(6) by (simp_all add: tty_env_def)
  from tty.generic_text_display_cursor [OF w assms(2) no_numbers this(1) assms(3-5) this(2) assms(8-11,7), of m]
  obtain e' calls d where e': "generic_text_display (tty_env utf8 junk False) (text_tty utf8 junk)
      (text_backward_offset (tty_env utf8 junk False)) ds0 m True e = Some (e', calls, Some (dw_xleft e + cc_x d, dw_ytop e + cc_y d))"
    "d = tty.cursor_place ds0 e' t c" "tty.same_view t e e'" "0 \<le> cc_x d" "cc_x d \<le> dw_width e - 1" "0 \<le> cc_y d"
    "cc_y d + 1 \<le> dw_height e" "0 \<le> dw_offset_top e'" "dw_offset_top e' \<le> int c"
    by (auto simp: tty_widths)
  obtain row col w where p: "place_of t e' c = (row, col, w)"
    by (metis prod.exhaust)
  have d: "d = call_at 0 (dw_y_disp e') c (row, col, w)"
    using tty_place [OF e'(8,9) assms(4), of ds0] e'(2) p by simp
  have v: "tty_window t e'" "dw_offset e' = int c"
    using e'(3) assms(3) by (simp_all add: tty.same_view_def tty_window_ok)
  show ?thesis
    using e'(1,4-9) v p d by (intro exI [of _ e'] exI [of _ calls] exI [of _ row] exI [of _ col] exI [of _ w])
      (simp add: call_at_def)
qed

section \<open>A window\<close>

text \<open>Five columns and two rows on the text \<open>abcdef\<close>, \<open>xyz\<close> with the cursor at \<open>p\<close>.\<close>

definition demo_text :: "u8 list" where
  "demo_text = [97, 98, 99, 100, 101, 102, 10, 120, 121, 122]"

definition demo_window :: "EditBuffer \<Rightarrow> int \<Rightarrow> DisplayWindow" where
  "demo_window b p = \<lparr>dw_s = \<lparr>es_b = b\<lparr>tracked := (tracked b)(OFFSET := p, OFFSET_TOP := 0)\<rparr>, es_insert = True,
       input_method = None, compose_buf = [], compose_start_offset = 0\<rparr>,
     dw_y_disp = 0, dw_x_disp = (\<lambda>_. 0), dw_wrap = WRAP_LINE, dw_line_numbers = False, dw_show_tabs = False,
     dw_tab_size = 8, dw_hex_mode = 0, dw_hex_nibble = 0, dw_unihex_mode = False, dw_disp_width = 16,
     dw_default_style = 0, dw_show_selection = False, dw_prompt = None, dw_display_invalid = True, dw_flags = 0,
     dw_mouse_force_highlight = False, dw_force_highlight = False, dw_width = 5, dw_height = 2, dw_xleft = 0, dw_ytop = 0,
     dw_cur_rtl = False, dw_line_shadow = [], dw_colors = \<lparr>colorize_states = [], colorize_nb_lines = 0,
       colorize_nb_valid_lines = 0, colorize_max_valid_offset = 0\<rparr>, dw_colorize = False, get_colorized = None\<rparr>"

definition demo_display :: "DisplayWindow \<Rightarrow> DisplayState" where
  "demo_display e = \<lparr>do_disp = DISP_CURSOR, ds_width = 0, ds_height = 0, eol_width = 0, default_line_height = 0,
     ds_tab_width = 0, ds_x_disp = 0, ds_x = 0, ds_y = 0, ds_line_num = 0, cur_hex_mode = 0, ds_hex_mode = 0,
     cursor = None, eod = False, ds_base = DIR_LTR, embedding_level_max = 0, ds_wrap = WRAP_LINE, edit_state = e,
     fragments = replicate 256 \<lparr>frag_level = 0, frag_width = 0, frag_ascent = 0, frag_descent = 0, frag_style = 0,
       frag_line_index = 0, frag_len = 0\<rparr>,
     nb_fragments = 0, last_word_space = False, word_index = 0, line_chars = replicate 256 0,
     line_char_widths = replicate 256 0, line_offsets = replicate 256 (0, 0), line_hex_mode = replicate 256 0,
     line_index = 0, fragment_chars = replicate 128 0, fragment_offsets = replicate 128 (0, 0),
     fragment_hex_mode = replicate 128 0, fragment_index = 0, last_space = False, last_style = 0,
     last_embedding_level = 0, drawn = []\<rparr>"

definition demo_context :: CursorContext where
  "demo_context = \<lparr>xc = 0, yc = 0, offsetc = 0, place = None\<rparr>"

lemma demo_ok:
  assumes "byte_text b demo_text"
  shows "tty_window demo_text (demo_window b p)" "arrays_ok (demo_display e)" "dw_offset_top (demo_window b p) = 0"
    "dw_offset (demo_window b p) = p" "dw_y_disp (demo_window b p) = 0" "dw_height (demo_window b p) = 2"
    "dw_width (demo_window b p) = 5" "dw_xleft (demo_window b p) = 0" "dw_ytop (demo_window b p) = 0"
  using assms by (simp_all add: tty_window_def demo_window_def arrays_ok_def demo_display_def dw_offset_top_def off_def
    OFFSET_def OFFSET_TOP_def)

lemma demo_places: "window_places demo_text (demo_window b p) =
    [(0, 0, 1), (0, 1, 1), (0, 2, 1), (0, 3, 1), (1, 0, 1), (1, 1, 1), (1, 2, 1), (2, 0, 1), (2, 1, 1), (2, 2, 1), (2, 3, 1)]"
proof -
  have "places 4 8 False demo_text (0, 0) =
    [(0, 0, 1), (0, 1, 1), (0, 2, 1), (0, 3, 1), (1, 0, 1), (1, 1, 1), (1, 2, 1), (2, 0, 1), (2, 1, 1), (2, 2, 1), (2, 3, 1)]"
    by code_simp
  then show ?thesis
    by (simp add: window_places_def demo_window_def dw_offset_top_def)
qed

lemma demo_place: "place_of demo_text (demo_window b p) c = window_places demo_text (demo_window b p) ! c"
  by (simp add: place_of_def demo_window_def dw_offset_top_def)

lemma demo_text_buffer: "\<exists>b. byte_text b demo_text"
  by (rule byte_text_exists) (simp add: demo_text_def)

text \<open>The offset 5 is shown in the second column of the second row.\<close>

lemma demo_cursor:
  assumes "byte_text b demo_text"
  shows "tty_window demo_text (demo_window b 5)" "0 \<le> dw_offset_top (demo_window b 5)"
    "dw_offset_top (demo_window b 5) \<le> dw_offset (demo_window b 5)" "dw_offset (demo_window b 5) \<le> int (length demo_text)"
    "place_of demo_text (demo_window b 5) (nat (dw_offset (demo_window b 5))) = (1, 1, 1)"
    "dw_y_disp (demo_window b 5) + 1 < dw_height (demo_window b 5)"
  using demo_ok [OF assms] by (simp_all add: demo_place demo_places) (simp add: demo_text_def)

theorem click_finds_cursor_witness:
  "\<exists>b e1. byte_text b demo_text \<and> get_cursor_pos (tty_env False [] False) (text_tty False []) (demo_display (demo_window b 5))
      (demo_window b 5) demo_context = Some (demo_context\<lparr>offsetc := 5, xc := 1, yc := 1, place := Some \<lparr>linec = 1,
      basec = DIR_LTR, dirc = DIR_LTR, cursor_width = 1, cursor_height = 1\<rparr>\<rparr>, e1) \<and>
    (\<exists>a e2. text_mouse_goto (tty_env False [] False) (text_tty False []) (demo_display (demo_window b 5)) 1 1
      (set_dw_offset 9 e1) = Some (a, e2) \<and> dw_offset e2 = 5)"
proof -
  obtain b where b: "byte_text b demo_text"
    using demo_text_buffer by blast
  from click_finds_cursor [OF demo_cursor(1) [OF b] demo_ok(2) [OF b, of "demo_window b 5"] demo_cursor(2-5) [OF b],
      of False "[]" demo_context]
  obtain e1 where e1: "get_cursor_pos (tty_env False [] False) (text_tty False []) (demo_display (demo_window b 5))
      (demo_window b 5) demo_context = Some (demo_context\<lparr>offsetc := 5, xc := 1, yc := 1, place := Some \<lparr>linec = 1,
      basec = DIR_LTR, dirc = DIR_LTR, cursor_width = 1, cursor_height = 1\<rparr>\<rparr>, e1)"
    "\<forall>dx p. 0 \<le> dx \<and> dx < 1 \<longrightarrow> (\<exists>a e2. text_mouse_goto (tty_env False [] False) (text_tty False [])
      (demo_display (demo_window b 5)) (1 + dx) 1 (set_dw_offset p e1) = Some (a, e2) \<and> dw_offset e2 = 5)"
    by (auto simp: demo_ok [OF b])
  show ?thesis
    using b e1(1) e1(2) [rule_format, of 0 9] by auto
qed

text \<open>Down from the last column of the first row the closest place is that of the end of the line.\<close>

theorem move_goes_to_closest_witness:
  "\<exists>b e'. byte_text b demo_text \<and> text_move_up_down (tty_env False [] False) (text_tty False [])
    (text_backward_offset (tty_env False [] False)) (demo_display (demo_window b 3)) False (- 1) demo_context 1 (demo_window b 3) =
    Some (3, e') \<and> dw_offset e' = 6"
proof -
  obtain b where b: "byte_text b demo_text"
    using demo_text_buffer by blast
  let ?e = "demo_window b 3"
  have h: "0 \<le> dw_offset_top ?e" "dw_offset_top ?e \<le> dw_offset ?e" "dw_offset ?e \<le> int (length demo_text)"
    "place_of demo_text ?e (nat (dw_offset ?e)) = (0, 3, 1)"
    using demo_ok [OF b] by (simp_all add: demo_place demo_places) (simp add: demo_text_def)
  have len: "length demo_text = 10"
    by (simp add: demo_text_def)
  have rows: "row_offsets demo_text ?e 1 = {4, 5, 6}"
  proof -
    have "c \<le> 10 \<longleftrightarrow> c \<in> {0, 1, 2, 3, 4, 5, 6, 7, 8, 9, 10}" for c :: nat
      unfolding insert_iff empty_iff simp_thms by presburger
    then show ?thesis
      unfolding row_offsets_def by (auto simp: demo_ok [OF b] demo_place demo_places len)
  qed
  have x: "(3 :: int) = (if False \<and> (- 1 :: int) \<noteq> - 1 then - 1 else 3)" "\<bar>- 1 :: int\<bar> \<le> 1000000"
    by simp_all
  from move_goes_to_closest [OF demo_ok(1) [OF b] demo_ok(2) [OF b, of ?e] h _ x, of 1 False "[]"
      "text_backward_offset (tty_env False [] False)" demo_context]
  obtain e' where e': "text_move_up_down (tty_env False [] False) (text_tty False [])
    (text_backward_offset (tty_env False [] False)) (demo_display ?e) False (- 1) demo_context 1 ?e = Some (3, e')"
    "\<exists>c\<in>{4, 5, 6}. dw_offset e' = int c \<and> (\<forall>c'\<in>{4, 5, 6}. \<bar>column_of demo_text ?e c - 3\<bar> \<le> \<bar>column_of demo_text ?e c' - 3\<bar>)"
    by (auto simp: rows)
  have "dw_offset e' = 6"
    using e'(2) by (auto simp: column_of_def demo_place demo_places)
  then show ?thesis
    using b e'(1) by blast
qed

text \<open>The last line is below the window, so the display is scrolled.\<close>

theorem redisplay_shows_cursor_witness:
  "\<exists>b e' calls x y. byte_text b demo_text \<and> generic_text_display (tty_env False [] False) (text_tty False [])
      (text_backward_offset (tty_env False [] False)) (demo_display (demo_window b 9)) demo_context True (demo_window b 9) =
      Some (e', calls, Some (x, y)) \<and> dw_offset e' = 9 \<and> 0 \<le> x \<and> x < 5 \<and> 0 \<le> y \<and> y < 2"
proof -
  obtain b where b: "byte_text b demo_text"
    using demo_text_buffer by blast
  let ?e = "demo_window b 9"
  have h: "dw_offset ?e = int 9" "9 \<le> length demo_text" "0 \<le> dw_offset_top ?e" "1 \<le> dw_height ?e" "dw_height ?e \<le> 1000000"
    "0 \<le> dw_xleft ?e" "dw_xleft ?e \<le> 1000000" "0 \<le> dw_ytop ?e" "dw_ytop ?e \<le> 1000000"
    using demo_ok [OF b] by simp_all (simp add: demo_text_def)
  from redisplay_shows_cursor [OF demo_ok(1) [OF b] demo_ok(2) [OF b, of ?e] h, of False "[]" demo_context]
  obtain e' calls row col w where e': "generic_text_display (tty_env False [] False) (text_tty False [])
      (text_backward_offset (tty_env False [] False)) (demo_display ?e) demo_context True ?e =
      Some (e', calls, Some (col, dw_y_disp e' + row))" "dw_offset e' = 9" "0 \<le> col" "col < 5" "0 \<le> dw_y_disp e' + row"
      "dw_y_disp e' + row < 2"
    by (auto simp: demo_ok [OF b])
  show ?thesis
    using b e' by blast
qed

end
