(* ===== verification/Window_Theorems.thy ===== *)
theory Window_Theorems
  imports Windows
begin

text \<open>
  The windows tile the screen. Each point of the area of the windows belongs to exactly one of
  them, and splitting, deleting, sizing with the mouse and the other commands keep it so. Only
  deleting a window without a neighbour of its size goes wrong.
\<close>

section \<open>Tilings\<close>

definition covers :: "ScreenWindow \<Rightarrow> int \<Rightarrow> int \<Rightarrow> bool" where
  "covers e x y \<longleftrightarrow> x1 e \<le> x \<and> x < x2 e \<and> y1 e \<le> y \<and> y < y2 e"

definition owns :: "ScreenWindow list \<Rightarrow> int \<Rightarrow> int \<Rightarrow> nat \<Rightarrow> bool" where
  "owns es x y i \<longleftrightarrow> (\<exists>e\<in>set es. win e = i \<and> covers e x y)"

definition inside :: "int \<Rightarrow> int \<Rightarrow> ScreenWindow \<Rightarrow> bool" where
  "inside W H e \<longleftrightarrow> 0 \<le> x1 e \<and> x1 e \<le> x2 e \<and> x2 e \<le> W \<and> 0 \<le> y1 e \<and> y1 e \<le> y2 e \<and> y2 e \<le> H"

definition tiled :: "int \<Rightarrow> int \<Rightarrow> ScreenWindow list \<Rightarrow> bool" where
  "tiled W H es \<longleftrightarrow> (\<forall>e\<in>set es. inside W H e) \<and>
     (\<forall>x y. 0 \<le> x \<and> x < W \<and> 0 \<le> y \<and> y < H \<longrightarrow> (\<exists>!i. owns es x y i))"

definition same_rect :: "ScreenWindow \<Rightarrow> ScreenWindow \<Rightarrow> bool" where
  "same_rect e f \<longleftrightarrow> win e = win f \<and> x1 e = x1 f \<and> y1 e = y1 f \<and> x2 e = x2 f \<and> y2 e = y2 f"

lemma owns_map: "(\<And>e. win (f e) = win e) \<Longrightarrow> owns (map f es) x y i \<longleftrightarrow> (\<exists>e\<in>set es. win e = i \<and> covers (f e) x y)"
  by (auto simp: owns_def)

lemma owns_Cons: "owns (e # es) x y i \<longleftrightarrow> win e = i \<and> covers e x y \<or> owns es x y i"
  by (auto simp: owns_def)

lemma tiled_map_same:
  assumes "\<And>e. same_rect (f e) e"
  shows "tiled W H (map f es) = tiled W H es"
proof -
  have "owns (map f es) x y i = owns es x y i" for x y i
    using assms by (subst owns_map) (auto simp: same_rect_def covers_def owns_def)
  moreover have "inside W H (f e) = inside W H e" for e
    using assms by (auto simp: same_rect_def inside_def)
  ultimately show ?thesis
    by (simp add: tiled_def)
qed

lemma tiled_map_cong:
  assumes "\<And>e. e \<in> set es \<Longrightarrow> same_rect (f e) (g e)"
  shows "tiled W H (map f es) = tiled W H (map g es)"
proof -
  have "owns (map f es) x y i = owns (map g es) x y i" for x y i
    using assms by (force simp: owns_def same_rect_def covers_def)
  moreover have "inside W H (f e) = inside W H (g e)" if "e \<in> set es" for e
    using assms [OF that] by (auto simp: same_rect_def inside_def)
  ultimately show ?thesis
    by (simp add: tiled_def)
qed

lemma owns_member: "distinct (map win es) \<Longrightarrow> e \<in> set es \<Longrightarrow> owns es x y (win e) \<longleftrightarrow> covers e x y"
  by (auto simp: owns_def) (metis distinct_map inj_onD)

text \<open>One window is replaced by two that share its points.\<close>

lemma tiled_split:
  assumes t: "tiled W H es" and d: "distinct (map win es)" and s: "s \<in> set es"
    and new: "win n \<notin> win ` set es" and s': "win s' = win s"
    and pts: "\<And>x y. covers s x y \<longleftrightarrow> covers s' x y \<or> covers n x y" "\<And>x y. \<not> (covers s' x y \<and> covers n x y)"
    and ins: "inside W H s'" "inside W H n"
  shows "tiled W H (n # map (\<lambda>e. if win e = win s then s' else e) es)"
proof -
  let ?es = "map (\<lambda>e. if win e = win s then s' else e) es"
  have own: "owns ?es x y i \<longleftrightarrow> (if i = win s then covers s' x y else owns es x y i)" for x y i
    using s s' by (auto simp: owns_def)
  have "\<exists>!i. owns (n # ?es) x y i" if p: "0 \<le> x \<and> x < W \<and> 0 \<le> y \<and> y < H" for x y
  proof -
    obtain j where j: "owns es x y j" "\<And>i. owns es x y i \<Longrightarrow> i = j"
      using t p unfolding tiled_def by metis
    have jn: "j \<noteq> win n" "win s \<noteq> win n"
      using j(1) new s unfolding owns_def by (metis image_eqI)+
    have os: "owns es x y (win s) \<longleftrightarrow> covers s x y"
      by (rule owns_member [OF d s])
    show ?thesis
    proof (cases "j = win s")
      case True
      then have "covers s x y"
        using j(1) os by simp
      then have "covers s' x y \<noteq> covers n x y"
        using pts by blast
      then show ?thesis
        unfolding owns_Cons own using j(2) True jn by metis
    next
      case False
      then have "\<not> covers s x y"
        using j(2) os by metis
      then have no: "\<not> covers s' x y" "\<not> covers n x y"
        using pts by blast+
      then show ?thesis
        unfolding owns_Cons own using j False by metis
    qed
  qed
  moreover have "\<forall>e\<in>set (n # ?es). inside W H e"
    using t ins by (auto simp: tiled_def)
  ultimately show ?thesis
    unfolding tiled_def by blast
qed

text \<open>Two windows are replaced by one.\<close>

lemma tiled_merge:
  assumes t: "tiled W H es" and d: "distinct (map win es)" and s: "s \<in> set es" and e: "e \<in> set es"
    and se: "win s \<noteq> win e" and e': "win e' = win e"
    and pts: "\<And>x y. covers e' x y \<longleftrightarrow> covers e x y \<or> covers s x y" and ins: "inside W H e'"
  shows "tiled W H (filter (\<lambda>f. win f \<noteq> win s) (map (\<lambda>f. if win f = win e then e' else f) es))"
    (is "tiled W H ?es")
proof -
  have own: "owns ?es x y i \<longleftrightarrow> i \<noteq> win s \<and> (if i = win e then covers e' x y else owns es x y i)" for x y i
    using e e' se by (auto simp: owns_def)
  have "\<exists>!i. owns ?es x y i" if p: "0 \<le> x \<and> x < W \<and> 0 \<le> y \<and> y < H" for x y
  proof -
    obtain j where j: "owns es x y j" "\<And>i. owns es x y i \<Longrightarrow> i = j"
      using t p unfolding tiled_def by metis
    have os: "owns es x y (win s) \<longleftrightarrow> covers s x y" and oe: "owns es x y (win e) \<longleftrightarrow> covers e x y"
      by (rule owns_member [OF d s], rule owns_member [OF d e])
    show ?thesis
      unfolding own pts using j os oe se by metis
  qed
  moreover have "\<forall>f\<in>set ?es. inside W H f"
    using t ins by (auto simp: tiled_def)
  ultimately show ?thesis
    unfolding tiled_def by blast
qed

text \<open>An edge is moved, together with the edges of the other windows at the same place.\<close>

definition move_y :: "int \<Rightarrow> int \<Rightarrow> ScreenWindow \<Rightarrow> ScreenWindow" where
  "move_y c d e = (if y1 e = c then e\<lparr>y1 := c + d\<rparr> else if y2 e = c then e\<lparr>y2 := c + d\<rparr> else e)"

definition move_x :: "int \<Rightarrow> int \<Rightarrow> ScreenWindow \<Rightarrow> ScreenWindow" where
  "move_x c d e = (if x1 e = c then e\<lparr>x1 := c + d\<rparr> else if x2 e = c then e\<lparr>x2 := c + d\<rparr> else e)"

definition full :: "ScreenWindow \<Rightarrow> bool" where
  "full e \<longleftrightarrow> x1 e < x2 e \<and> y1 e < y2 e"

lemma tiled_unique:
  assumes "tiled W H es" "distinct (map win es)" "e \<in> set es" "f \<in> set es" "covers e x y" "covers f x y"
  shows "e = f"
proof -
  have "0 \<le> x \<and> x < W \<and> 0 \<le> y \<and> y < H"
    using assms(1,3,5) by (fastforce simp: tiled_def inside_def covers_def)
  then have "win e = win f"
    using assms unfolding tiled_def owns_def by metis
  then show ?thesis
    using assms(2,3,4) by (metis distinct_map inj_onD)
qed

lemma tiled_cover:
  assumes "tiled W H es" "0 \<le> x" "x < W" "0 \<le> y" "y < H"
  obtains e where "e \<in> set es" "covers e x y"
  using assms unfolding tiled_def owns_def by metis

text \<open>
  In each column there is either no horizontal edge at \<open>c\<close>, or the window above and the one below meet
  there.
\<close>

lemma column_edge:
  assumes t: "tiled W H es" and d: "distinct (map win es)" and x: "0 \<le> x" "x < W" and c: "0 < c" "c < H"
  obtains "\<forall>e\<in>set es. x1 e \<le> x \<and> x < x2 e \<longrightarrow> full e \<longrightarrow> y1 e \<noteq> c \<and> y2 e \<noteq> c"
  | f g where "f \<in> set es" "g \<in> set es" "f \<noteq> g" "x1 f \<le> x" "x < x2 f" "x1 g \<le> x" "x < x2 g" "y2 f = c" "y1 g = c"
    "\<forall>e\<in>set es. x1 e \<le> x \<and> x < x2 e \<longrightarrow> full e \<longrightarrow> (y1 e = c \<longrightarrow> e = g) \<and> (y2 e = c \<longrightarrow> e = f)"
proof -
  obtain f where f: "f \<in> set es" "covers f x (c - 1)"
    using tiled_cover [OF t x, of "c - 1"] c by auto
  obtain g where g: "g \<in> set es" "covers g x c"
    using tiled_cover [OF t x, of c] c by auto
  have top: "e = g" if "e \<in> set es" "x1 e \<le> x" "x < x2 e" "full e" "y1 e = c" for e
    using tiled_unique [OF t d that(1) g(1) _ g(2)] that by (simp add: covers_def full_def)
  have bottom: "e = f" if "e \<in> set es" "x1 e \<le> x" "x < x2 e" "full e" "y2 e = c" for e
    using tiled_unique [OF t d that(1) f(1) _ f(2)] that by (simp add: covers_def full_def)
  show ?thesis
  proof (cases "f = g")
    case True
    then have "y1 g < c" "c < y2 f"
      using f(2) g(2) by (auto simp: covers_def)
    then show ?thesis
      using that(1) top bottom by blast
  next
    case False
    have "\<not> covers f x c" "\<not> covers g x (c - 1)"
      using tiled_unique [OF t d f(1) g(1)] f(2) g(2) False by blast+
    then have "y2 f = c" "y1 g = c"
      using f(2) g(2) by (auto simp: covers_def)
    then show ?thesis
      using that(2) [OF f(1) g(1) False] f(2) g(2) top bottom by (auto simp: covers_def)
  qed
qed

lemma tiled_move_y:
  assumes t: "tiled W H es" and d: "distinct (map win es)"
    and fl: "\<forall>e\<in>set es. full e" "\<forall>e\<in>set es. full (move_y c k e)" and c: "0 < c" "c < H"
  shows "tiled W H (map (move_y c k) es)"
proof -
  let ?m = "move_y c k"
  have own: "owns (map ?m es) x y i \<longleftrightarrow> (\<exists>e\<in>set es. win e = i \<and> covers (?m e) x y)" for x y i
    by (rule owns_map) (simp add: move_y_def)
  have col: "x1 (?m e) = x1 e \<and> x2 (?m e) = x2 e \<and> win (?m e) = win e" for e
    by (simp add: move_y_def)
  have one: "\<exists>!i. owns (map ?m es) x y i" if p: "0 \<le> x" "x < W" "0 \<le> y" "y < H" for x y
  proof -
    obtain e0 where e0: "e0 \<in> set es" "covers e0 x y"
      using tiled_cover [OF t p] .
    have un0: "e = e0" if "e \<in> set es" "covers e x y" for e
      using tiled_unique [OF t d that(1) e0(1) that(2) e0(2)] .
    show ?thesis
    proof (rule column_edge [OF t d p(1,2) c])
      assume no: "\<forall>e\<in>set es. x1 e \<le> x \<and> x < x2 e \<longrightarrow> full e \<longrightarrow> y1 e \<noteq> c \<and> y2 e \<noteq> c"
      have "covers (?m e) x y \<longleftrightarrow> covers e x y" if "e \<in> set es" for e
        using no fl(1) that col [of e] by (cases "x1 e \<le> x \<and> x < x2 e") (auto simp: move_y_def covers_def)
      then show ?thesis
        unfolding own using e0 un0 by metis
    next
      fix f g
      assume fg: "f \<in> set es" "g \<in> set es" "f \<noteq> g" "x1 f \<le> x" "x < x2 f" "x1 g \<le> x" "x < x2 g" "y2 f = c" "y1 g = c"
        and only: "\<forall>e\<in>set es. x1 e \<le> x \<and> x < x2 e \<longrightarrow> full e \<longrightarrow> (y1 e = c \<longrightarrow> e = g) \<and> (y2 e = c \<longrightarrow> e = f)"
      have ff: "y1 f < c" "c < y2 g"
        using fl(1) fg by (auto simp: full_def)
      then have mf: "?m f = f\<lparr>y2 := c + k\<rparr>" and mg: "?m g = g\<lparr>y1 := c + k\<rparr>"
        using fg by (auto simp: move_y_def)
      have ck: "y1 f < c + k" "c + k < y2 g"
        using fl(2) fg(1,2) mf mg by (auto simp: full_def)
      have cf: "covers (?m f) x y \<longleftrightarrow> y1 f \<le> y \<and> y < c + k" and cg: "covers (?m g) x y \<longleftrightarrow> c + k \<le> y \<and> y < y2 g"
        using fg mf mg by (auto simp: covers_def)
      have other: "covers (?m e) x y \<longleftrightarrow> covers e x y" if "e \<in> set es" "e \<noteq> f" "e \<noteq> g" for e
        using only fl(1) that col [of e] by (cases "x1 e \<le> x \<and> x < x2 e") (auto simp: move_y_def covers_def)
      have old: "y1 f \<le> y \<and> y < y2 g \<longleftrightarrow> e0 = f \<or> e0 = g"
      proof -
        have "covers f x y \<longleftrightarrow> e0 = f" "covers g x y \<longleftrightarrow> e0 = g"
          using un0 e0 fg(1,2) by blast+
        moreover have "covers f x y \<longleftrightarrow> y1 f \<le> y \<and> y < c" "covers g x y \<longleftrightarrow> c \<le> y \<and> y < y2 g"
          using fg by (auto simp: covers_def)
        ultimately show ?thesis
          using ff by auto
      qed
      show ?thesis
      proof (cases "y1 f \<le> y \<and> y < y2 g")
        case True
        define h where "h = (if y < c + k then f else g)"
        have "h \<in> set es" "covers (?m h) x y"
          using fg True cf cg by (auto simp: h_def)
        moreover have "e = h" if "e \<in> set es" "covers (?m e) x y" for e
          using that other [of e] un0 [of e] old True cf cg by (auto simp: h_def)
        ultimately show ?thesis
          unfolding own by metis
      next
        case False
        have "e0 \<noteq> f" "e0 \<noteq> g"
          using old False by auto
        moreover have "e = e0" if "e \<in> set es" "covers (?m e) x y" for e
          using that other [of e] un0 [of e] False ck cf cg by fastforce
        ultimately show ?thesis
          unfolding own using e0 other by metis
      qed
    qed
  qed
  have "inside W H (?m e)" if e: "e \<in> set es" for e
  proof -
    have i: "inside W H e" "full e" "full (?m e)"
      using t fl e by (auto simp: tiled_def)
    then have x: "0 \<le> x1 e" "x1 e < W"
      by (auto simp: inside_def full_def)
    show ?thesis
    proof (rule column_edge [OF t d x c])
      assume "\<forall>e'\<in>set es. x1 e' \<le> x1 e \<and> x1 e < x2 e' \<longrightarrow> full e' \<longrightarrow> y1 e' \<noteq> c \<and> y2 e' \<noteq> c"
      then have "y1 e \<noteq> c \<and> y2 e \<noteq> c"
        using e i by (auto simp: full_def)
      then show ?thesis
        using i by (simp add: move_y_def)
    next
      fix f g
      assume fg: "f \<in> set es" "g \<in> set es" "y2 f = c" "y1 g = c"
      then have "0 \<le> y1 f" "y2 g \<le> H" "full f" "full g" "full (?m f)" "full (?m g)"
        using t fl by (auto simp: tiled_def inside_def)
      then have "0 < c + k" "c + k < H"
        using fg by (auto simp: full_def move_y_def split: if_splits)
      then show ?thesis
        using i by (auto simp: move_y_def inside_def full_def split: if_splits)
    qed
  qed
  then show ?thesis
    using one by (auto simp: tiled_def)
qed

text \<open>The same for vertical edges, by exchanging the coordinates.\<close>

definition flip :: "ScreenWindow \<Rightarrow> ScreenWindow" where
  "flip e = e\<lparr>x1 := y1 e, y1 := x1 e, x2 := y2 e, y2 := x2 e\<rparr>"

lemma flip_simps [simp]: "win (flip e) = win e" "covers (flip e) x y = covers e y x" "inside W H (flip e) = inside H W e"
    "full (flip e) = full e" "flip (flip e) = e"
  by (auto simp: flip_def covers_def inside_def full_def)

lemma tiled_flipI: "tiled H W es \<Longrightarrow> tiled W H (map flip es)"
proof -
  have "owns (map flip es) x y i = owns es y x i" for x y i
    by (simp add: owns_def)
  then show "tiled H W es \<Longrightarrow> ?thesis"
    by (simp add: tiled_def)
qed

lemma tiled_flip: "tiled W H (map flip es) = tiled H W es"
  using tiled_flipI [of W H "map flip es"] tiled_flipI [of H W es] by (auto simp: comp_def)

lemma tiled_move_x:
  assumes t: "tiled W H es" and d: "distinct (map win es)"
    and fl: "\<forall>e\<in>set es. full e" "\<forall>e\<in>set es. full (move_x c k e)" and c: "0 < c" "c < W"
  shows "tiled W H (map (move_x c k) es)"
proof -
  have m: "move_y c k (flip e) = flip (move_x c k e)" for e
    by (simp add: move_y_def move_x_def flip_def)
  have "tiled H W (map (move_y c k) (map flip es))"
    using t d fl c by (intro tiled_move_y) (simp_all add: tiled_flip m comp_def)
  then have "tiled H W (map flip (map (move_x c k) es))"
    by (simp add: m comp_def)
  then show ?thesis
    by (simp only: tiled_flip)
qed

section \<open>The state of the windows\<close>

definition panes :: "WindowState \<Rightarrow> ScreenWindow list" where
  "panes qs = filter (\<lambda>e. \<not> minibuf e) (first_window qs)"

text \<open>
  The windows have addresses of their own, one of them is active, and those that are not
  minibuffers are not empty and tile the screen above the status line.
\<close>

definition laid_out :: "WindowState \<Rightarrow> bool" where
  "laid_out qs \<longleftrightarrow> distinct (map win (first_window qs)) \<and> (\<forall>e\<in>set (first_window qs). win e < fresh_window qs) \<and>
     (\<exists>e\<in>set (first_window qs). active_window qs = Some (win e)) \<and>
     (\<forall>e\<in>set (panes qs). full e) \<and> tiled (qs_width qs) (content_height qs) (panes qs)"

text \<open>The recorded sizes are those of the screen and of the fonts.\<close>

definition settled :: "int \<Rightarrow> int \<Rightarrow> WindowState \<Rightarrow> bool" where
  "settled st ml qs \<longleftrightarrow> qs_width qs = screen_width qs \<and> qs_height qs = screen_height qs \<and> status_height qs = st \<and>
     mode_line_height qs = ml \<and> \<not> hide_status qs \<and> content_height qs = qs_height qs - st \<and>
     0 < qs_width qs \<and> 0 < content_height qs \<and> 0 \<le> ml"

definition keeps :: "(ScreenWindow \<Rightarrow> ScreenWindow) \<Rightarrow> bool" where
  "keeps f \<longleftrightarrow> (\<forall>e. same_rect (f e) e \<and> minibuf (f e) = minibuf e)"

lemma keepsD: "keeps f \<Longrightarrow> win (f e) = win e" "keeps f \<Longrightarrow> minibuf (f e) = minibuf e" "keeps f \<Longrightarrow> full (f e) = full e"
    "keeps f \<Longrightarrow> same_rect (f e) e"
  by (auto simp: keeps_def same_rect_def full_def)

lemma laid_out_map:
  assumes "keeps f" "first_window qs' = map f (first_window qs)" "fresh_window qs' = fresh_window qs"
    "active_window qs' = active_window qs" "qs_width qs' = qs_width qs" "content_height qs' = content_height qs"
  shows "laid_out qs' = laid_out qs"
proof -
  have "panes qs' = map f (panes qs)"
    using assms(1,2) by (simp add: panes_def filter_map comp_def keepsD)
  moreover have "win \<circ> f = win"
    using assms(1) by (auto simp: keepsD)
  ultimately show ?thesis
    using assms tiled_map_same [of f] by (simp add: laid_out_def keepsD)
qed

lemma compute_client_area_keeps [simp]: "same_rect (compute_client_area qs e) e" "minibuf (compute_client_area qs e) = minibuf e"
  by (simp_all add: compute_client_area_def same_rect_def Let_def split: if_splits)

lemma client_rect [simp]:
  "win (compute_client_area qs e) = win e" "x1 (compute_client_area qs e) = x1 e" "x2 (compute_client_area qs e) = x2 e"
  "y1 (compute_client_area qs e) = y1 e" "y2 (compute_client_area qs e) = y2 e"
  using compute_client_area_keeps(1) [of qs e] by (simp_all add: same_rect_def)

lemma keeps_refresh: "keeps (edit_invalidate \<circ> compute_client_area qs)"
  by (simp add: keeps_def edit_invalidate_def same_rect_def)

lemma refresh_settled:
  assumes "settled st ml qs"
  shows "\<exists>qs' calls. do_refresh st ml qs = Some (qs', calls) \<and> settled st ml qs' \<and> laid_out qs' = laid_out qs \<and>
    motion_type qs' = motion_type qs \<and> motion_target qs' = motion_target qs \<and>
    map win (first_window qs') = map win (first_window qs)"
proof -
  define q1 where "q1 = qs\<lparr>separator_width := (if tty_media qs then 1 else 4), border_width := 1\<rparr>"
  define q2 where "q2 = q1\<lparr>first_window := map (edit_invalidate \<circ> compute_client_area q1) (first_window q1)\<rparr>"
  have "refresh_windows st ml qs = Some q2"
    using assms by (simp add: refresh_windows_def settled_def q1_def q2_def Let_def)
  then have "do_refresh st ml qs = Some (q2, concat (map (borders q2) (first_window q2)))"
    by (simp add: do_refresh_def)
  moreover have "settled st ml q2"
    using assms by (simp add: settled_def q1_def q2_def)
  moreover have "laid_out q2 = laid_out qs"
    by (rule laid_out_map [OF keeps_refresh [of q1]]) (simp_all add: q2_def q1_def)
  moreover have "map win (first_window q2) = map win (first_window qs)"
    by (simp add: q2_def q1_def edit_invalidate_def)
  ultimately show ?thesis
    by (simp add: q2_def q1_def)
qed

lemma window_at_member:
  "distinct (map win (first_window qs)) \<Longrightarrow> e \<in> set (first_window qs) \<Longrightarrow> window_at qs (win e) = Some e"
proof (cases "window_at qs (win e)")
  case None
  assume "e \<in> set (first_window qs)"
  then show ?thesis
    using None by (auto simp: window_at_def find_None_iff)
next
  case (Some f)
  assume "distinct (map win (first_window qs))" "e \<in> set (first_window qs)"
  moreover have "f \<in> set (first_window qs)" "win f = win e"
    using Some by (auto simp: window_at_def find_Some_iff)
  ultimately show ?thesis
    using Some by (metis distinct_map inj_onD)
qed

lemma window_atD: "window_at qs i = Some e \<Longrightarrow> e \<in> set (first_window qs) \<and> win e = i"
  by (auto simp: window_at_def find_Some_iff)

text \<open>The rectangles after an operation, with what \<open>do_refresh\<close> needs.\<close>

lemma laid_outI:
  assumes "settled st ml qs" "laid_out qs"
    and "qs' = qs\<lparr>first_window := ws, active_window := a, fresh_window := n\<rparr>"
    and "distinct (map win ws)" "\<forall>e\<in>set ws. win e < n" "\<exists>e\<in>set ws. a = Some (win e)"
    and "\<forall>e\<in>set (filter (\<lambda>e. \<not> minibuf e) ws). full e"
    and "tiled (qs_width qs) (content_height qs) (filter (\<lambda>e. \<not> minibuf e) ws)"
  shows "settled st ml qs' \<and> laid_out qs'"
  using assms by (simp add: settled_def laid_out_def panes_def)

section \<open>Each command keeps the tiling\<close>

lemma edit_new_windows:
  assumes "\<forall>e\<in>set (first_window qs). win e < fresh_window qs" "active_window qs \<noteq> None"
  shows "\<exists>n. edit_new True b l t w h fl qs =
      (Some (win n), qs\<lparr>first_window := n # first_window qs, fresh_window := fresh_window qs + 1\<rparr>) \<and>
    win n = fresh_window qs \<and> x1 n = l \<and> y1 n = t \<and> x2 n = l + w \<and> y2 n = t + h \<and> \<not> minibuf n"
proof -
  have "map (\<lambda>e. if win e = fresh_window qs then s else e) (first_window qs) = first_window qs" for s
    using assms(1) by (intro map_idI) auto
  then show ?thesis
    using assms(2)
    by (intro exI [of _ "(compute_client_area qs \<lparr>win = fresh_window qs, x1 = l, y1 = t, x2 = l + w, y2 = t + h,
          xleft = 0, ytop = 0, win_width = 0, win_height = 0, win_flags = fl, minibuf = False, win_b = None,
          show_selection = False, display_invalid = False\<rparr>)\<lparr>win_b := b\<rparr>"])
      (auto simp: edit_new_def Let_def put_window_def)
qed

lemma half: "a + 2 \<le> b \<Longrightarrow> 0 \<le> a \<Longrightarrow> a < (b + a) sdiv 2 \<and> (b + a) sdiv 2 < b" for a b :: int
  by (simp add: signed_divide_int_def sgn_if) linarith

lemma split_laid_out:
  assumes st: "settled st ml qs" and lo: "laid_out qs" and s: "window_at qs i = Some s"
    and big: "\<not> minibuf s \<Longrightarrow> (if horiz then x1 s + 2 \<le> x2 s else y1 s + 2 \<le> y2 s)"
  shows "\<exists>qs' calls. do_split_window st ml True i horiz qs = Some (qs', calls) \<and> settled st ml qs' \<and> laid_out qs'"
proof (cases "minibuf s")
  case True
  then show ?thesis
    using st lo s by (simp add: do_split_window_def)
next
  case False
  have mem: "s \<in> set (first_window qs)" "win s = i" and d: "distinct (map win (first_window qs))"
    and fresh: "\<forall>e\<in>set (first_window qs). win e < fresh_window qs" and act: "active_window qs \<noteq> None"
    using window_atD [OF s] lo by (auto simp: laid_out_def)
  have pane: "s \<in> set (panes qs)"
    using mem(1) False by (simp add: panes_def)
  then have ins: "inside (qs_width qs) (content_height qs) s"
    using lo by (simp add: laid_out_def tiled_def)
  define x where "x = (x2 s + x1 s) sdiv 2"
  define y where "y = (y2 s + y1 s) sdiv 2"
  define s' where "s' = (if horiz then s\<lparr>x2 := x, win_flags := win_flags s OR WF_RSEPARATOR\<rparr> else s\<lparr>y2 := y\<rparr>)"
  define l where "l = (if horiz then x else x1 s)"
  define t where "t = (if horiz then y1 s else y)"
  obtain n fl where n: "snd (if horiz then edit_new True (win_b s) x (y1 s) (x2 s - x) (y2 s - y1 s) WF_MODELINE qs
        else edit_new True (win_b s) (x1 s) y (x2 s - x1 s) (y2 s - y) fl qs) =
      qs\<lparr>first_window := n # first_window qs, fresh_window := fresh_window qs + 1\<rparr>"
    and fl: "fl = WF_MODELINE OR (win_flags s AND WF_RSEPARATOR)"
    and rect: "win n = fresh_window qs" "x1 n = l" "y1 n = t" "x2 n = x2 s" "y2 n = y2 s" "\<not> minibuf n"
  proof (cases horiz)
    case True
    then show thesis
      using edit_new_windows [OF fresh act, of "win_b s" x "y1 s" "x2 s - x" "y2 s - y1 s" WF_MODELINE] that
      by (auto simp: l_def t_def)
  next
    case False
    then show thesis
      using edit_new_windows [OF fresh act, of "win_b s" "x1 s" y "x2 s - x1 s" "y2 s - y"
          "WF_MODELINE OR (win_flags s AND WF_RSEPARATOR)"] that
      by (auto simp: l_def t_def)
  qed
  define f where "f = (\<lambda>e. if win e = win s then compute_client_area (qs\<lparr>first_window := n # first_window qs, fresh_window := fresh_window qs + 1\<rparr>) s' else e)"
  define q1 where "q1 = qs\<lparr>first_window := n # map f (first_window qs), fresh_window := fresh_window qs + 1\<rparr>"
  have s'_rect: "win s' = win s" "x1 s' = x1 s" "y1 s' = y1 s" "minibuf s' = minibuf s"
    "x2 s' = (if horiz then x else x2 s)" "y2 s' = (if horiz then y2 s else y)"
    by (simp_all add: s'_def)
  have fwin: "win (f e) = win e" "minibuf (f e) = minibuf e" if "e \<in> set (first_window qs)" for e
    using that s'_rect d mem by (auto simp: f_def) (metis distinct_map inj_onD)+
  have "do_split_window st ml True i horiz qs = do_refresh st ml q1"
  proof -
    have "win n \<noteq> win s"
      using rect(1) fresh mem(1) by auto
    then have "put_window (compute_client_area (qs\<lparr>first_window := n # first_window qs, fresh_window := fresh_window qs + 1\<rparr>) s')
        (qs\<lparr>first_window := n # first_window qs, fresh_window := fresh_window qs + 1\<rparr>) = q1"
      by (simp add: put_window_def q1_def f_def s'_rect(1))
    then show ?thesis
      using s False n by (cases horiz) (simp_all add: do_split_window_def s'_def x_def y_def fl)
  qed
  moreover have "settled st ml q1 \<and> laid_out q1"
  proof (rule laid_outI [OF st lo])
    show "q1 = qs\<lparr>first_window := n # map f (first_window qs), active_window := active_window qs,
        fresh_window := fresh_window qs + 1\<rparr>"
      by (simp add: q1_def)
    have wins: "map win (map f (first_window qs)) = map win (first_window qs)"
      using fwin by simp
    show "distinct (map win (n # map f (first_window qs)))"
      using d fresh rect(1) by (simp add: wins del: map_map) force
    show "\<forall>e\<in>set (n # map f (first_window qs)). win e < fresh_window qs + 1"
      using fresh rect(1) fwin by (auto simp: less_Suc_eq)
    show "\<exists>e\<in>set (n # map f (first_window qs)). active_window qs = Some (win e)"
      using lo fwin by (auto simp: laid_out_def)
    have panes: "filter (\<lambda>e. \<not> minibuf e) (n # map f (first_window qs)) = n # map f (panes qs)"
      using rect(6) fwin by (simp add: panes_def filter_map comp_def cong: filter_cong)
    have mid: "if horiz then x1 s < x \<and> x < x2 s else y1 s < y \<and> y < y2 s"
      using big [OF False] ins half [of "x1 s" "x2 s"] half [of "y1 s" "y2 s"] by (auto simp: x_def y_def inside_def)
    have fs: "full s"
      using lo pane by (simp add: laid_out_def)
    have "full n" "full s'"
      using mid fs rect s'_rect by (auto simp: full_def l_def t_def split: if_splits)
    then show "\<forall>e\<in>set (filter (\<lambda>e. \<not> minibuf e) (n # map f (first_window qs))). full e"
      unfolding panes using lo by (auto simp: laid_out_def f_def full_def)
    define s'' where "s'' = compute_client_area (qs\<lparr>first_window := n # first_window qs, fresh_window := fresh_window qs + 1\<rparr>) s'"
    have r: "win s'' = win s" "x1 s'' = x1 s" "y1 s'' = y1 s" "x2 s'' = (if horiz then x else x2 s)"
      "y2 s'' = (if horiz then y2 s else y)"
      by (simp_all add: s''_def s'_rect)
    have "tiled (qs_width qs) (content_height qs) (n # map (\<lambda>e. if win e = win s then s'' else e) (panes qs))"
    proof (rule tiled_split [OF _ _ pane _ r(1)])
      show "tiled (qs_width qs) (content_height qs) (panes qs)"
        using lo by (simp add: laid_out_def)
      show "distinct (map win (panes qs))"
        using d by (simp add: panes_def distinct_map_filter)
      show "win n \<notin> win ` set (panes qs)"
        using fresh rect(1) by (auto simp: panes_def)
      show "covers s a b \<longleftrightarrow> covers s'' a b \<or> covers n a b" "\<not> (covers s'' a b \<and> covers n a b)" for a b
        using mid rect r by (cases horiz; auto simp: covers_def l_def t_def)+
      show "inside (qs_width qs) (content_height qs) s''" "inside (qs_width qs) (content_height qs) n"
        using mid ins rect r by (cases horiz; simp add: inside_def l_def t_def)+
    qed
    then show "tiled (qs_width qs) (content_height qs) (filter (\<lambda>e. \<not> minibuf e) (n # map f (first_window qs)))"
      unfolding panes unfolding f_def s''_def .
  qed
  ultimately show ?thesis
    using refresh_settled [of st ml q1] by auto
qed

text \<open>Deleting.\<close>

lemma unlink_filter:
  "distinct (map win es) \<Longrightarrow> i \<in> win ` set es \<Longrightarrow> unlink_window i es = Some (filter (\<lambda>e. win e \<noteq> i) es)"
proof (induction es)
  case (Cons e es)
  show ?case
  proof (cases "win e = i")
    case True
    then have "filter (\<lambda>e. win e \<noteq> i) es = es"
      using Cons.prems(1) by (intro filter_True) (auto simp: image_iff)
    then show ?thesis
      using True by simp
  next
    case False
    then show ?thesis
      using Cons by auto
  qed
qed simp

definition active_in :: "WindowState \<Rightarrow> bool" where
  "active_in qs \<longleftrightarrow> (\<exists>e\<in>set (first_window qs). active_window qs = Some (win e))"

lemma edit_close_windows:
  assumes "distinct (map win (first_window qs))" "i \<in> win ` set (first_window qs)" "active_in qs"
    "\<exists>e\<in>set (first_window qs). win e \<noteq> i"
  shows "\<exists>a. edit_close i qs = Some (qs\<lparr>first_window := filter (\<lambda>e. win e \<noteq> i) (first_window qs), active_window := a\<rparr>) \<and>
    (\<exists>e\<in>set (filter (\<lambda>e. win e \<noteq> i) (first_window qs)). a = Some (win e))"
proof -
  let ?es = "filter (\<lambda>e. win e \<noteq> i) (first_window qs)"
  define a where "a = (if active_window qs = Some i then (case ?es of [] \<Rightarrow> None | e # _ \<Rightarrow> Some (win e)) else active_window qs)"
  have "edit_close i qs = Some (qs\<lparr>first_window := ?es, active_window := a\<rparr>)"
    using unlink_filter [OF assms(1,2)] by (simp add: edit_close_def a_def)
  moreover have "\<exists>e\<in>set ?es. a = Some (win e)"
  proof (cases "active_window qs = Some i")
    case True
    have "?es \<noteq> []"
      using assms(4) by (auto simp: filter_empty_conv)
    then obtain e es where "?es = e # es"
      by (cases ?es) auto
    then show ?thesis
      using True by (simp add: a_def)
  next
    case False
    then show ?thesis
      using assms(3) by (auto simp: active_in_def a_def)
  qed
  ultimately show ?thesis
    by blast
qed

text \<open>A window that shares a whole edge with \<open>s\<close>.\<close>

definition neighbour :: "ScreenWindow \<Rightarrow> ScreenWindow \<Rightarrow> bool" where
  "neighbour s e \<longleftrightarrow> merge_with s e \<noteq> None"

lemma find_merge_spec:
  assumes "\<exists>e\<in>set es. \<not> minibuf e \<and> win e \<noteq> win s \<and> neighbour s e"
  shows "\<exists>e e'. find_merge s es = Some e' \<and> e \<in> set es \<and> \<not> minibuf e \<and> win e \<noteq> win s \<and> merge_with s e = Some e'"
  using assms
proof (induction es)
  case (Cons f es)
  show ?case
  proof (cases "minibuf f \<or> win f = win s")
    case True
    then show ?thesis
      using Cons by auto
  next
    case False
    then show ?thesis
      using Cons by (cases "merge_with s f") (auto simp: neighbour_def)
  qed
qed simp

lemma find_merge_None:
  "\<forall>e\<in>set es. minibuf e \<or> win e = win s \<or> \<not> neighbour s e \<Longrightarrow> find_merge s es = None"
  by (induction es) (auto simp: neighbour_def)

lemma merge_with_covers:
  assumes "merge_with s e = Some e'" "inside W H s" "inside W H e"
  shows "win e' = win e \<and> minibuf e' = minibuf e \<and> inside W H e' \<and> (full e \<longrightarrow> full e') \<and>
    (covers e' x y \<longleftrightarrow> covers e x y \<or> covers s x y)"
  using assms by (auto simp: merge_with_def inside_def full_def covers_def split: if_splits)

text \<open>When \<open>do_delete_window\<close> deletes, and when it finds a window to merge with.\<close>

definition deletes :: "WindowState \<Rightarrow> ScreenWindow \<Rightarrow> bool \<Rightarrow> bool" where
  "deletes qs s force \<longleftrightarrow> \<not> minibuf s \<and> length (panes qs) > 1 \<or> force"

definition has_neighbour :: "WindowState \<Rightarrow> ScreenWindow \<Rightarrow> bool" where
  "has_neighbour qs s \<longleftrightarrow> (\<exists>e\<in>set (panes qs). win e \<noteq> win s \<and> neighbour s e)"

text \<open>Without a neighbour the command reads through a null pointer.\<close>

lemma delete_needs_neighbour:
  assumes "window_at qs i = Some s" "deletes qs s force" "\<not> has_neighbour qs s"
  shows "do_delete_window st ml i force qs = None"
proof -
  have "find_merge s (first_window qs) = None"
    using assms(3) by (intro find_merge_None) (auto simp: has_neighbour_def panes_def)
  then show ?thesis
    using assms(1,2) by (auto simp: do_delete_window_def deletes_def panes_def)
qed

lemma delete_laid_out:
  assumes st: "settled st ml qs" and lo: "laid_out qs" and s: "window_at qs i = Some s"
    and nb: "deletes qs s force \<Longrightarrow> \<not> minibuf s \<and> has_neighbour qs s"
  shows "\<exists>qs' calls. do_delete_window st ml i force qs = Some (qs', calls) \<and> settled st ml qs' \<and> laid_out qs'"
proof (cases "deletes qs s force")
  case False
  then show ?thesis
    using st lo s by (auto simp: do_delete_window_def deletes_def panes_def)
next
  case True
  have mem: "s \<in> set (first_window qs)" "win s = i" "\<not> minibuf s" and d: "distinct (map win (first_window qs))"
    and fresh: "\<forall>e\<in>set (first_window qs). win e < fresh_window qs" and act: "active_in qs"
    using window_atD [OF s] lo nb [OF True] by (auto simp: laid_out_def active_in_def)
  have "\<exists>e\<in>set (first_window qs). \<not> minibuf e \<and> win e \<noteq> win s \<and> neighbour s e"
    using nb [OF True] by (auto simp: has_neighbour_def panes_def)
  then obtain e e' where fm: "find_merge s (first_window qs) = Some e'" and e: "e \<in> set (first_window qs)" "\<not> minibuf e"
    "win e \<noteq> win s" and mw: "merge_with s e = Some e'"
    using find_merge_spec by blast
  have ps: "s \<in> set (panes qs)" "e \<in> set (panes qs)"
    using mem e by (simp_all add: panes_def)
  have ins: "inside (qs_width qs) (content_height qs) s" "inside (qs_width qs) (content_height qs) e"
    using lo ps by (auto simp: laid_out_def tiled_def)
  note cov = merge_with_covers [OF mw ins]
  define e'' where "e'' = compute_client_area qs e'"
  have e'': "win e'' = win e" "minibuf e'' = minibuf e" "inside (qs_width qs) (content_height qs) e''" "full e''"
    "\<And>x y. covers e'' x y \<longleftrightarrow> covers e x y \<or> covers s x y"
  proof -
    have r: "covers e'' x y = covers e' x y" "inside W H e'' = inside W H e'" "full e'' = full e'" for x y W H
      by (simp_all add: e''_def covers_def inside_def full_def)
    show "win e'' = win e" "minibuf e'' = minibuf e" "inside (qs_width qs) (content_height qs) e''" "full e''"
      "\<And>x y. covers e'' x y \<longleftrightarrow> covers e x y \<or> covers s x y"
      using cov lo ps r by (auto simp: laid_out_def e''_def)
  qed
  define f where "f = (\<lambda>h. if win h = win e then e'' else h)"
  define q1 where "q1 = qs\<lparr>first_window := map f (first_window qs)\<rparr>"
  have fwin: "win (f h) = win h" "h \<in> set (first_window qs) \<Longrightarrow> minibuf (f h) = minibuf h" for h
    using e'' d e by (auto simp: f_def) (metis distinct_map inj_onD)+
  have q1: "put_window e'' qs = q1"
    by (simp add: put_window_def q1_def f_def e''(1))
  have d1: "map win (first_window q1) = map win (first_window qs)"
    by (simp add: q1_def fwin)
  have s1: "s \<in> set (first_window q1)"
    using mem(1) e(3) by (force simp: q1_def f_def)
  have "\<exists>h\<in>set (first_window q1). win h \<noteq> i"
    using e mem(2) fwin by (force simp: q1_def)
  moreover have "active_in q1"
    using act fwin by (auto simp: active_in_def q1_def)
  ultimately obtain a where cl: "edit_close i q1 =
      Some (q1\<lparr>first_window := filter (\<lambda>e. win e \<noteq> i) (first_window q1), active_window := a\<rparr>)"
      "\<exists>e\<in>set (filter (\<lambda>e. win e \<noteq> i) (first_window q1)). a = Some (win e)"
    using edit_close_windows [of q1 i] d d1 s1 mem(2) by (metis image_eqI)
  define q2 where "q2 = q1\<lparr>first_window := filter (\<lambda>e. win e \<noteq> i) (first_window q1), active_window := a\<rparr>"
  have "do_delete_window st ml i force qs = do_refresh st ml q2"
    using s True fm cl(1) q1 by (auto simp: do_delete_window_def deletes_def panes_def q2_def e''_def)
  moreover have "settled st ml q2 \<and> laid_out q2"
  proof (rule laid_outI [OF st lo])
    let ?ws = "filter (\<lambda>e. win e \<noteq> i) (map f (first_window qs))"
    show "q2 = qs\<lparr>first_window := ?ws, active_window := a, fresh_window := fresh_window qs\<rparr>"
      by (simp add: q2_def q1_def)
    show "distinct (map win ?ws)"
      using d d1 unfolding q1_def by (intro distinct_map_filter) (simp del: map_map)
    show "\<forall>e\<in>set ?ws. win e < fresh_window qs"
      using fresh fwin by auto
    show "\<exists>e\<in>set ?ws. a = Some (win e)"
      using cl(2) by (simp add: q1_def)
    have panes: "filter (\<lambda>e. \<not> minibuf e) ?ws = filter (\<lambda>h. win h \<noteq> win s) (map f (panes qs))"
      using fwin mem(2) by (simp add: panes_def filter_map comp_def conj_commute cong: filter_cong)
    show "\<forall>e\<in>set (filter (\<lambda>e. \<not> minibuf e) ?ws). full e"
      unfolding panes using lo e''(4) by (auto simp: laid_out_def f_def)
    show "tiled (qs_width qs) (content_height qs) (filter (\<lambda>e. \<not> minibuf e) ?ws)"
      unfolding panes unfolding f_def
    proof (rule tiled_merge [OF _ _ ps _ e''(1,5,3)])
      show "tiled (qs_width qs) (content_height qs) (panes qs)"
        using lo by (simp add: laid_out_def)
      show "distinct (map win (panes qs))"
        using d by (simp add: panes_def distinct_map_filter)
      show "win s \<noteq> win e"
        using e(3) by simp
    qed
  qed
  ultimately show ?thesis
    using refresh_settled [of st ml q2] by auto
qed

text \<open>Deleting all others.\<close>

lemma close_others_windows:
  assumes "distinct (map win (first_window qs))" "active_in qs" "i \<in> win ` set (first_window qs)"
    "set js \<subseteq> win ` set (first_window qs)" "distinct js"
  shows "\<exists>a. close_others i js qs = Some (qs\<lparr>first_window :=
        filter (\<lambda>e. win e \<in> set js \<longrightarrow> minibuf e \<or> win e = i) (first_window qs), active_window := a\<rparr>) \<and>
      (\<exists>e\<in>set (filter (\<lambda>e. win e \<in> set js \<longrightarrow> minibuf e \<or> win e = i) (first_window qs)). a = Some (win e))"
  using assms
proof (induction js arbitrary: qs)
  case Nil
  then show ?case
    by (auto simp: active_in_def intro!: exI [of _ "active_window qs"])
next
  case (Cons j js)
  obtain e where e: "e \<in> set (first_window qs)" "win e = j"
    using Cons.prems(4) by auto
  then have at: "window_at qs j = Some e"
    using window_at_member [OF Cons.prems(1)] by blast
  have only: "f = e" if "f \<in> set (first_window qs)" "win f = j" for f
    using that e Cons.prems(1) by (metis distinct_map inj_onD)
  show ?case
  proof (cases "\<not> minibuf e \<and> j \<noteq> i")
    case False
    have "filter (\<lambda>f. win f \<in> set (j # js) \<longrightarrow> minibuf f \<or> win f = i) (first_window qs) =
        filter (\<lambda>f. win f \<in> set js \<longrightarrow> minibuf f \<or> win f = i) (first_window qs)"
    proof (intro filter_cong refl)
      fix f
      assume f: "f \<in> set (first_window qs)"
      show "(win f \<in> set (j # js) \<longrightarrow> minibuf f \<or> win f = i) = (win f \<in> set js \<longrightarrow> minibuf f \<or> win f = i)"
      proof (cases "win f = j")
        case True
        from only [OF f this] show ?thesis
          using True False by auto
      qed simp
    qed
    moreover have "close_others i (j # js) qs = close_others i js qs"
      using at False by auto
    ultimately show ?thesis
      using Cons.IH [of qs] Cons.prems by simp
  next
    case True
    let ?es = "filter (\<lambda>f. win f \<noteq> j) (first_window qs)"
    have "\<exists>f\<in>set (first_window qs). win f \<noteq> j"
      using Cons.prems(3) True by force
    then obtain a where a: "edit_close j qs = Some (qs\<lparr>first_window := ?es, active_window := a\<rparr>)"
      "\<exists>e\<in>set ?es. a = Some (win e)"
      using edit_close_windows [OF Cons.prems(1) _ Cons.prems(2), of j] e by blast
    define q1 where "q1 = qs\<lparr>first_window := ?es, active_window := a\<rparr>"
    have keep: "k \<in> win ` set ?es" if "k \<in> win ` set (first_window qs)" "k \<noteq> j" for k
      using that by (auto simp: image_iff)
    have "distinct (map win (first_window q1))" "active_in q1" "i \<in> win ` set (first_window q1)"
      "set js \<subseteq> win ` set (first_window q1)" "distinct js"
    proof -
      show "distinct (map win (first_window q1))"
        using Cons.prems(1) by (simp add: q1_def distinct_map_filter)
      show "active_in q1"
        using a(2) by (simp add: q1_def active_in_def)
      show "i \<in> win ` set (first_window q1)"
        using keep [OF Cons.prems(3)] True by (simp add: q1_def)
      show "set js \<subseteq> win ` set (first_window q1)"
      proof
        fix k
        assume "k \<in> set js"
        then have "k \<in> win ` set (first_window qs)" "k \<noteq> j"
          using Cons.prems(4,5) by auto
        from keep [OF this] show "k \<in> win ` set (first_window q1)"
          by (simp add: q1_def)
      qed
      show "distinct js"
        using Cons.prems(5) by simp
    qed
    from Cons.IH [OF this] obtain b where
      b: "close_others i js q1 = Some (q1\<lparr>first_window :=
        filter (\<lambda>e. win e \<in> set js \<longrightarrow> minibuf e \<or> win e = i) (first_window q1), active_window := b\<rparr>)"
      "\<exists>e\<in>set (filter (\<lambda>e. win e \<in> set js \<longrightarrow> minibuf e \<or> win e = i) (first_window q1)). b = Some (win e)"
      by blast
    have "filter (\<lambda>f. win f \<in> set (j # js) \<longrightarrow> minibuf f \<or> win f = i) (first_window qs) =
        filter (\<lambda>e. win e \<in> set js \<longrightarrow> minibuf e \<or> win e = i) ?es"
      unfolding filter_filter
    proof (intro filter_cong refl)
      fix f
      assume f: "f \<in> set (first_window qs)"
      show "(win f \<in> set (j # js) \<longrightarrow> minibuf f \<or> win f = i) =
          (win f \<noteq> j \<and> (win f \<in> set js \<longrightarrow> minibuf f \<or> win f = i))"
      proof (cases "win f = j")
        case True
        from only [OF f this] show ?thesis
          using True \<open>\<not> minibuf e \<and> j \<noteq> i\<close> by auto
      qed simp
    qed
    moreover have "close_others i (j # js) qs = close_others i js q1"
      using at True a(1) by (simp add: q1_def)
    ultimately show ?thesis
      using b by (intro exI [of _ b]) (simp add: q1_def)
  qed
qed

lemma delete_others_laid_out:
  assumes st: "settled st ml qs" and lo: "laid_out qs" and s: "window_at qs i = Some s" "\<not> minibuf s"
  shows "\<exists>qs' calls. do_delete_other_windows st ml i qs = Some (qs', calls) \<and> settled st ml qs' \<and> laid_out qs'"
proof -
  have mem: "s \<in> set (first_window qs)" "win s = i" and d: "distinct (map win (first_window qs))"
    and fresh: "\<forall>e\<in>set (first_window qs). win e < fresh_window qs" and act: "active_in qs"
    using window_atD [OF s(1)] lo by (auto simp: laid_out_def active_in_def)
  have only: "f = s" if "f \<in> set (first_window qs)" "win f = i" for f
    using that mem d by (metis distinct_map inj_onD)
  let ?es = "filter (\<lambda>e. minibuf e \<or> win e = i) (first_window qs)"
  have "filter (\<lambda>e. win e \<in> set (map win (first_window qs)) \<longrightarrow> minibuf e \<or> win e = i) (first_window qs) = ?es"
    by (intro filter_cong) auto
  then obtain a where a: "close_others i (map win (first_window qs)) qs = Some (qs\<lparr>first_window := ?es, active_window := a\<rparr>)"
    "\<exists>e\<in>set ?es. a = Some (win e)"
    using close_others_windows [OF d act, of i "map win (first_window qs)"] mem d by auto
  define q1 where "q1 = qs\<lparr>first_window := ?es, active_window := a\<rparr>"
  define s' where "s' = compute_client_area q1 (s\<lparr>y1 := 0, x1 := 0, x2 := qs_width q1, y2 := qs_height q1 - status_height q1,
               win_flags := win_flags s AND NOT WF_RSEPARATOR\<rparr>)"
  have s': "win s' = i" "minibuf s' = minibuf s" "x1 s' = 0" "y1 s' = 0" "x2 s' = qs_width qs" "y2 s' = content_height qs"
    using st mem(2) by (simp_all add: s'_def q1_def settled_def)
  define q2 where "q2 = put_window s' q1"
  have "window_at q1 i = Some s"
    using window_at_member [of q1 s] d mem by (simp add: q1_def distinct_map_filter)
  then have "do_delete_other_windows st ml i qs = do_refresh st ml q2"
    using a(1) by (simp add: do_delete_other_windows_def q1_def [symmetric] s'_def q2_def)
  moreover have "settled st ml q2 \<and> laid_out q2"
  proof (rule laid_outI [OF st lo])
    let ?f = "\<lambda>e. if win e = win s' then s' else e"
    let ?ws = "map ?f ?es"
    show "q2 = qs\<lparr>first_window := ?ws, active_window := a, fresh_window := fresh_window qs\<rparr>"
      by (simp add: q2_def q1_def put_window_def)
    have wins: "map win ?ws = map win ?es"
      by (simp cong: if_cong)
    show "distinct (map win ?ws)"
      unfolding wins using d by (simp add: distinct_map_filter)
    show "\<forall>e\<in>set ?ws. win e < fresh_window qs"
      using fresh mem s'(1) by auto
    show "\<exists>e\<in>set ?ws. a = Some (win e)"
    proof -
      obtain e where "e \<in> set ?es" "a = Some (win e)"
        using a(2) by blast
      have w: "win (?f e) = win e"
        by simp
      show ?thesis
      proof
        show "?f e \<in> set ?ws"
          using \<open>e \<in> set ?es\<close> unfolding set_map by (intro imageI)
        show "a = Some (win (?f e))"
          unfolding w by fact
      qed
    qed
    have mini: "minibuf (?f e) = minibuf e" if "e \<in> set (first_window qs)" for e
    proof (cases "win e = i")
      case True
      from only [OF that this] show ?thesis
        using s' True by simp
    qed (simp add: s'(1))
    have panes: "\<And>e. e \<in> set (filter (\<lambda>e. \<not> minibuf e) ?ws) \<longleftrightarrow> e = s'"
    proof
      fix e
      assume "e \<in> set (filter (\<lambda>e. \<not> minibuf e) ?ws)"
      then obtain f where f: "f \<in> set (first_window qs)" "minibuf f \<or> win f = i" "e = ?f f" "\<not> minibuf e"
        by auto
      then show "e = s'"
        using mini [OF f(1)] s'(1) by auto
    next
      fix e
      assume "e = s'"
      moreover have sf: "?f s = s'" and "s \<in> set ?es"
        using mem s'(1) by simp_all
      then have "?f s \<in> set ?ws"
        unfolding set_map by (intro imageI)
      then have "s' \<in> set ?ws"
        unfolding sf .
      ultimately show "e \<in> set (filter (\<lambda>e. \<not> minibuf e) ?ws)"
        using s(2) s'(2) by simp
    qed
    have W: "0 < qs_width qs" "0 < content_height qs"
      using st by (simp_all add: settled_def)
    show "\<forall>e\<in>set (filter (\<lambda>e. \<not> minibuf e) ?ws). full e"
    proof
      fix e
      assume "e \<in> set (filter (\<lambda>e. \<not> minibuf e) ?ws)"
      then have "e = s'"
        unfolding panes .
      then show "full e"
        using s' W by (simp add: full_def)
    qed
    have own: "owns (filter (\<lambda>e. \<not> minibuf e) ?ws) x y k \<longleftrightarrow> k = i \<and> covers s' x y" for x y k
      unfolding owns_def Bex_def panes using s'(1) by blast
    show "tiled (qs_width qs) (content_height qs) (filter (\<lambda>e. \<not> minibuf e) ?ws)"
      unfolding tiled_def own
    proof (intro conjI ballI allI impI)
      fix e
      assume "e \<in> set (filter (\<lambda>e. \<not> minibuf e) ?ws)"
      then have "e = s'"
        unfolding panes .
      then show "inside (qs_width qs) (content_height qs) e"
        using s' W by (simp add: inside_def)
    qed (use s' in \<open>auto simp: covers_def\<close>)
  qed
  ultimately show ?thesis
    using refresh_settled [of st ml q2] by auto
qed

text \<open>The other window becomes active.\<close>

lemma window_behind_member:
  "i \<in> win ` set es \<Longrightarrow> \<exists>n. window_behind i es = Some n \<and> (\<forall>j. n = Some j \<longrightarrow> j \<in> win ` set es)"
proof (induction es)
  case (Cons e es)
  then show ?case
    by (cases "win e = i") (auto split: list.split)
qed simp

lemma other_laid_out:
  assumes "settled st ml qs" "laid_out qs" "i \<in> win ` set (first_window qs)"
  shows "\<exists>qs'. do_other_window i qs = Some qs' \<and> settled st ml qs' \<and> laid_out qs'"
proof -
  obtain n where n: "window_behind i (first_window qs) = Some n" "\<forall>j. n = Some j \<longrightarrow> j \<in> win ` set (first_window qs)"
    using window_behind_member [OF assms(3)] by blast
  obtain e es where es: "first_window qs = e # es"
    using assms(3) by (cases "first_window qs") auto
  define m where "m = (case n of None \<Rightarrow> (case first_window qs of [] \<Rightarrow> None | e # _ \<Rightarrow> Some (win e)) | Some j \<Rightarrow> Some j)"
  have m: "\<exists>e\<in>set (first_window qs). m = Some (win e)"
    using n(2) es by (cases n) (auto simp: m_def)
  have "do_other_window i qs = Some (qs\<lparr>active_window := m\<rparr>)"
    using n(1) by (simp add: do_other_window_def m_def)
  moreover have "settled st ml (qs\<lparr>active_window := m\<rparr>)" "laid_out (qs\<lparr>active_window := m\<rparr>)"
    using assms(1,2) m by (simp_all add: settled_def laid_out_def panes_def)
  ultimately show ?thesis
    by blast
qed

text \<open>A new size of a window.\<close>

lemma move_edges_xy:
  "\<exists>f. keeps f \<and> move_edges s dx dy e = f (move_x (x2 s) dx (move_y (y2 s) dy e))"
  by (intro exI [of _ id]) (simp add: keeps_def same_rect_def move_edges_def move_x_def move_y_def Let_def)

lemma resize_laid_out:
  assumes st: "settled st ml qs" and lo: "laid_out qs" and s: "window_at qs i = Some s" "\<not> minibuf s"
  shows "\<exists>qs'. window_resize i w h qs = Some qs' \<and> settled st ml qs' \<and> laid_out qs'"
proof -
  define dx where "dx = w - (x2 s - x1 s)"
  define dy where "dy = h - (y2 s - y1 s)"
  let ?stop = "(w < fst (window_get_min_size qs s) \<or> h < snd (window_get_min_size qs s)) \<or>
    (x2 s \<ge> screen_width qs \<and> dx \<noteq> 0) \<or> (y2 s \<ge> screen_height qs - status_height qs \<and> dy \<noteq> 0) \<or>
    list_ex (\<lambda>e. \<not> minibuf e \<and> win e \<noteq> i \<and> too_small qs s dx dy e) (first_window qs)"
  define f where "f = (\<lambda>e. if win e = i then compute_client_area qs (e\<lparr>x2 := x1 e + w, y2 := y1 e + h\<rparr>)
       else if minibuf e then e else compute_client_area qs (move_edges s dx dy e))"
  have r: "window_resize i w h qs = Some (if ?stop then qs else qs\<lparr>first_window := map f (first_window qs)\<rparr>)"
    using s(1) by (auto simp: window_resize_def dx_def dy_def f_def Let_def split: prod.split)
  show ?thesis
  proof (cases ?stop)
    case True
    then show ?thesis
      using r st lo by simp
  next
    case False
    have mem: "s \<in> set (first_window qs)" "win s = i" and d: "distinct (map win (first_window qs))"
      using window_atD [OF s(1)] lo by (auto simp: laid_out_def)
    have only: "e = s" if "e \<in> set (first_window qs)" "win e = i" for e
      using that mem d by (metis distinct_map inj_onD)
    have ps: "s \<in> set (panes qs)"
      using mem(1) s(2) by (simp add: panes_def)
    have ins: "inside (qs_width qs) (content_height qs) s" and fs: "full s"
      and t: "tiled (qs_width qs) (content_height qs) (panes qs)" and fl: "\<forall>e\<in>set (panes qs). full e"
      and dp: "distinct (map win (panes qs))"
      using lo ps by (auto simp: laid_out_def tiled_def panes_def distinct_map_filter)
    have ml: "0 \<le> ml" "mode_line_height qs = ml" "screen_width qs = qs_width qs"
      "screen_height qs - status_height qs = content_height qs"
      using st by (simp_all add: settled_def)
    have mins: "0 < fst (window_get_min_size qs e)" "0 < snd (window_get_min_size qs e)" for e
      using ml by (simp_all add: window_get_min_size_def)
    let ?m = "\<lambda>e. move_x (x2 s) dx (move_y (y2 s) dy e)"
    have ms: "x1 (?m s) = x1 s" "y1 (?m s) = y1 s" "x2 (?m s) = x1 s + w" "y2 (?m s) = y1 s + h"
      using fs by (auto simp: move_x_def move_y_def full_def dx_def dy_def)
    have rect: "same_rect (f e) (?m e) \<and> minibuf (f e) = minibuf e \<and> win (f e) = win e"
      if "e \<in> set (first_window qs)" "\<not> minibuf e" for e
    proof (cases "win e = i")
      case True
      from only [OF that(1) this] show ?thesis
        using ms mem(2) by (simp add: f_def same_rect_def) (simp add: move_x_def move_y_def)
    next
      case False
      then show ?thesis
        using that by (auto simp: f_def same_rect_def move_edges_def move_x_def move_y_def Let_def)
    qed
    have fwin: "win (f e) = win e" "minibuf (f e) = minibuf e" if "e \<in> set (first_window qs)" for e
      using rect [OF that] by (cases "minibuf e"; use that only [of e] s(2) in \<open>auto simp: f_def\<close>)+
    have sizes: "(y1 e \<noteq> y2 s \<and> y2 e \<noteq> y2 s \<or> y1 (?m e) < y2 (?m e)) \<and> (x1 e \<noteq> x2 s \<and> x2 e \<noteq> x2 s \<or> x1 (?m e) < x2 (?m e))"
      if e: "e \<in> set (panes qs)" for e
    proof (cases "win e = i")
      case True
      then have "e = s"
        using only e by (simp add: panes_def)
      then show ?thesis
        using ms False mins [of s] by auto
    next
      case ne: False
      have "\<not> too_small qs s dx dy e"
        using False ne e by (auto simp: list_ex_iff panes_def)
      then show ?thesis
        using mins [of e] by (auto simp: too_small_def move_x_def move_y_def Let_def split: prod.splits if_splits)
    qed
    have ins0: "0 < x2 s" "0 < y2 s"
      using ins fs by (auto simp: inside_def full_def)
    have win_y: "win (move_y c k e) = win e" for c k e
      by (simp add: move_y_def)
    have full_y: "full (move_y (y2 s) dy e)" if "e \<in> set (panes qs)" for e
      using sizes [OF that] fl that by (auto simp: full_def move_x_def move_y_def split: if_splits)
    have full_m: "full (?m e)" if "e \<in> set (panes qs)" for e
      using sizes [OF that] full_y [OF that] by (auto simp: full_def move_x_def move_y_def split: if_splits)
    have ty: "tiled (qs_width qs) (content_height qs) (map (move_y (y2 s) dy) (panes qs))"
    proof (cases "dy = 0")
      case True
      then show ?thesis
        using t by (subst tiled_map_same) (simp_all add: move_y_def same_rect_def)
    next
      case ne: False
      then have "y2 s < content_height qs"
        using False ml by auto
      then show ?thesis
        using tiled_move_y [OF t dp fl] full_y ins0 by blast
    qed
    have tm: "tiled (qs_width qs) (content_height qs) (map ?m (panes qs))"
    proof (cases "dx = 0")
      case True
      have "tiled (qs_width qs) (content_height qs) (map (move_x (x2 s) dx) (map (move_y (y2 s) dy) (panes qs)))"
        using ty True by (subst tiled_map_same) (simp_all add: move_x_def same_rect_def)
      then show ?thesis
        by (simp add: comp_def)
    next
      case ne: False
      then have "x2 s < qs_width qs"
        using False ml by auto
      moreover have "distinct (map win (map (move_y (y2 s) dy) (panes qs)))"
        using dp by (simp add: win_y comp_def)
      ultimately have "tiled (qs_width qs) (content_height qs) (map (move_x (x2 s) dx) (map (move_y (y2 s) dy) (panes qs)))"
        using tiled_move_x [OF ty, of "x2 s" dx] full_y full_m ins0 by auto
      then show ?thesis
        by (simp add: comp_def)
    qed
    have "settled st ml (qs\<lparr>first_window := map f (first_window qs)\<rparr>) \<and> laid_out (qs\<lparr>first_window := map f (first_window qs)\<rparr>)"
    proof (rule laid_outI [OF st lo])
      show "qs\<lparr>first_window := map f (first_window qs)\<rparr> = qs\<lparr>first_window := map f (first_window qs),
          active_window := active_window qs, fresh_window := fresh_window qs\<rparr>"
        by simp
      have "map win (map f (first_window qs)) = map win (first_window qs)"
        using fwin by simp
      then show "distinct (map win (map f (first_window qs)))"
        using d by (simp only:)
      show "\<forall>e\<in>set (map f (first_window qs)). win e < fresh_window qs"
        using lo fwin by (auto simp: laid_out_def)
      show "\<exists>e\<in>set (map f (first_window qs)). active_window qs = Some (win e)"
        using lo fwin by (auto simp: laid_out_def)
      have panes: "filter (\<lambda>e. \<not> minibuf e) (map f (first_window qs)) = map f (panes qs)"
        using fwin by (simp add: panes_def filter_map comp_def cong: filter_cong)
      have same: "same_rect (f e) (?m e)" if "e \<in> set (panes qs)" for e
        using rect [of e] that by (simp add: panes_def)
      have "full (f e)" if "e \<in> set (panes qs)" for e
        using same [OF that] full_m [OF that] by (simp add: same_rect_def full_def)
      then show "\<forall>e\<in>set (filter (\<lambda>e. \<not> minibuf e) (map f (first_window qs))). full e"
        unfolding panes by simp
      show "tiled (qs_width qs) (content_height qs) (filter (\<lambda>e. \<not> minibuf e) (map f (first_window qs)))"
        unfolding panes using tm same by (subst tiled_map_cong [of _ _ ?m]) auto
    qed
    moreover have "window_resize i w h qs = Some (qs\<lparr>first_window := map f (first_window qs)\<rparr>)"
      using r unfolding if_not_P [OF False] .
    ultimately show ?thesis
      by blast
  qed
qed

text \<open>A window at the left pushes the others to the right.\<close>

definition cut_left :: "int \<Rightarrow> ScreenWindow \<Rightarrow> ScreenWindow" where
  "cut_left w e = (if \<not> minibuf e \<and> x1 e < w then e\<lparr>x1 := w\<rparr> else e)"

lemma cut_left_simps [simp]: "win (cut_left w e) = win e" "minibuf (cut_left w e) = minibuf e"
    "x2 (cut_left w e) = x2 e" "y1 (cut_left w e) = y1 e" "y2 (cut_left w e) = y2 e"
  by (simp_all add: cut_left_def)

definition pushed :: "int \<Rightarrow> ScreenWindow list \<Rightarrow> ScreenWindow list" where
  "pushed w es = map (cut_left w) (filter (\<lambda>e. minibuf e \<or> w < x2 e) es)"

lemma put_window_front:
  assumes "distinct (map win (as @ e # bs))" "win f = win e"
  shows "map (\<lambda>h. if win h = win f then f else h) (as @ e # bs) = as @ f # bs"
proof -
  have "map (\<lambda>h. if win h = win f then f else h) xs = xs" if "win e \<notin> win ` set xs" for xs
    using that assms(2) by (intro map_idI) (auto simp: image_iff)
  then show ?thesis
    using assms by simp
qed

lemma push_right_windows:
  assumes "distinct (map win (as @ bs))" "first_window qs = as @ bs" "active_in qs"
    and "as @ pushed w bs \<noteq> []"
  shows "\<exists>a. push_right w (map win bs) qs = Some (qs\<lparr>first_window := as @ pushed w bs, active_window := a\<rparr>) \<and>
    (\<exists>e\<in>set (as @ pushed w bs). a = Some (win e))"
  using assms
proof (induction bs arbitrary: as qs)
  case Nil
  then show ?case
    by (auto simp: active_in_def pushed_def intro!: exI [of _ "active_window qs"])
next
  case (Cons e bs)
  have at: "window_at qs (win e) = Some e"
    using Cons.prems by (intro window_at_member) auto
  show ?case
  proof (cases "\<not> minibuf e \<and> x2 e \<le> w")
    case True
    have rest: "filter (\<lambda>f. win f \<noteq> win e) (first_window qs) = as @ bs"
    proof -
      have "filter (\<lambda>f. win f \<noteq> win e) xs = xs" if "win e \<notin> win ` set xs" for xs
        using that by (intro filter_True) (auto simp: image_iff)
      from this [of as] this [of bs] show ?thesis
        using Cons.prems(1,2) by simp
    qed
    have pe: "pushed w (e # bs) = pushed w bs"
      using True by (simp add: pushed_def)
    have "as @ bs \<noteq> []"
      using Cons.prems(4) pe by (auto simp: pushed_def)
    then obtain f where "f \<in> set (as @ bs)"
      by (cases "as @ bs") auto
    moreover from this have "win f \<noteq> win e"
      using Cons.prems(1) by (auto simp: image_iff)
    ultimately have "\<exists>f\<in>set (first_window qs). win f \<noteq> win e"
      using Cons.prems(2) by auto
    then obtain a where a: "edit_close (win e) qs = Some (qs\<lparr>first_window := as @ bs, active_window := a\<rparr>)"
      "\<exists>e\<in>set (as @ bs). a = Some (win e)"
      using edit_close_windows [of qs "win e"] Cons.prems rest by auto
    define q1 where "q1 = qs\<lparr>first_window := as @ bs, active_window := a\<rparr>"
    have "distinct (map win (as @ bs))" "first_window q1 = as @ bs" "active_in q1" "as @ pushed w bs \<noteq> []"
      using Cons.prems(1,4) a(2) pe by (simp_all add: q1_def active_in_def)
    from Cons.IH [OF this] obtain b where b: "push_right w (map win bs) q1 =
        Some (q1\<lparr>first_window := as @ pushed w bs, active_window := b\<rparr>)"
        "\<exists>e\<in>set (as @ pushed w bs). b = Some (win e)"
      by blast
    have "push_right w (map win (e # bs)) qs = push_right w (map win bs) q1"
      using at True a(1) by (simp add: q1_def)
    then show ?thesis
      using b unfolding pe by (intro exI [of _ b]) (simp add: q1_def)
  next
    case False
    then have pe: "pushed w (e # bs) = cut_left w e # pushed w bs"
      by (auto simp: pushed_def)
    define q1 where "q1 = qs\<lparr>first_window := (as @ [cut_left w e]) @ bs\<rparr>"
    have "push_right w (map win (e # bs)) qs = push_right w (map win bs) q1"
    proof (cases "\<not> minibuf e \<and> x1 e < w")
      case True
      have "put_window (cut_left w e) qs = q1"
        using put_window_front [OF Cons.prems(1), of "cut_left w e"] Cons.prems(2)
        by (simp add: put_window_def q1_def)
      then show ?thesis
        using at True False by (simp add: cut_left_def)
    next
      case other: False
      then have "q1 = qs"
        using Cons.prems(2) by (simp add: q1_def cut_left_def)
      then show ?thesis
        using at other False by auto
    qed
    moreover have "distinct (map win ((as @ [cut_left w e]) @ bs))" "first_window q1 = (as @ [cut_left w e]) @ bs"
      "active_in q1" "(as @ [cut_left w e]) @ pushed w bs \<noteq> []"
      using Cons.prems(1-3) by (auto simp: q1_def active_in_def)
    from Cons.IH [OF this] obtain b where b: "push_right w (map win bs) q1 =
        Some (q1\<lparr>first_window := (as @ [cut_left w e]) @ pushed w bs, active_window := b\<rparr>)"
        "\<exists>e\<in>set ((as @ [cut_left w e]) @ pushed w bs). b = Some (win e)"
      by blast
    ultimately show ?thesis
      unfolding pe by (intro exI [of _ b]) (simp add: q1_def)
  qed
qed

lemma insert_left_laid_out:
  assumes st: "settled st ml qs" and lo: "laid_out qs" and w: "0 < w" "w < qs_width qs"
  shows "\<exists>i qs' calls. insert_window_left st ml True b w fl qs = Some (Some i, qs', calls) \<and>
    settled st ml qs' \<and> laid_out qs' \<and> i \<in> win ` set (first_window qs')"
proof -
  have d: "distinct (map win (first_window qs))" and fresh: "\<forall>e\<in>set (first_window qs). win e < fresh_window qs"
    and act: "active_in qs" and t: "tiled (qs_width qs) (content_height qs) (panes qs)" and fl: "\<forall>e\<in>set (panes qs). full e"
    using lo by (auto simp: laid_out_def active_in_def)
  have WH: "0 < content_height qs" "qs_height qs - status_height qs = content_height qs"
    using st by (simp_all add: settled_def)
  let ?ws = "pushed w (first_window qs)"
  obtain e where e: "e \<in> set (panes qs)" "covers e w 0"
    using tiled_cover [OF t, of w 0] w WH by auto
  then have "?ws \<noteq> []"
    by (auto simp: pushed_def panes_def covers_def filter_empty_conv)
  then obtain a where a: "push_right w (map win (first_window qs)) qs = Some (qs\<lparr>first_window := ?ws, active_window := a\<rparr>)"
    "\<exists>e\<in>set ?ws. a = Some (win e)"
    using push_right_windows [of "[]" "first_window qs" qs w] d act by auto
  define q1 where "q1 = qs\<lparr>first_window := ?ws, active_window := a\<rparr>"
  have f1: "\<forall>e\<in>set (first_window q1). win e < fresh_window q1" "active_window q1 \<noteq> None"
    using fresh a(2) by (auto simp: q1_def pushed_def)
  obtain n where n: "edit_new True b 0 0 w (qs_height q1 - status_height q1) (fl OR WF_RSEPARATOR) q1 =
      (Some (win n), q1\<lparr>first_window := n # first_window q1, fresh_window := fresh_window q1 + 1\<rparr>)"
    "win n = fresh_window q1" "x1 n = 0" "y1 n = 0" "x2 n = 0 + w" "y2 n = 0 + (qs_height q1 - status_height q1)"
    "\<not> minibuf n"
    using edit_new_windows [OF f1, of b 0 0 w "qs_height q1 - status_height q1" "fl OR WF_RSEPARATOR"] by blast
  define q2 where "q2 = q1\<lparr>first_window := n # first_window q1, fresh_window := fresh_window q1 + 1\<rparr>"
  have "insert_window_left st ml True b w fl qs = map_option (\<lambda>(q, calls). (Some (win n), q, calls)) (do_refresh st ml q2)"
    using a(1) n(1) unfolding q1_def [symmetric] q2_def [symmetric]
    by (cases "do_refresh st ml q2") (auto simp: insert_window_left_def q1_def [symmetric])
  moreover have "settled st ml q2 \<and> laid_out q2"
  proof (rule laid_outI [OF st lo])
    show "q2 = qs\<lparr>first_window := n # ?ws, active_window := a, fresh_window := fresh_window qs + 1\<rparr>"
      by (simp add: q2_def q1_def)
    have "distinct (map win ?ws)"
      using d by (simp add: pushed_def comp_def distinct_map_filter)
    then show "distinct (map win (n # ?ws))"
      using f1 n(2) by (auto simp: q1_def)
    show "\<forall>e\<in>set (n # ?ws). win e < fresh_window qs + 1"
      using f1(1) n(2) by (auto simp: q1_def less_Suc_eq)
    show "\<exists>e\<in>set (n # ?ws). a = Some (win e)"
      using a(2) by auto
    have panes: "filter (\<lambda>e. \<not> minibuf e) (n # ?ws) = n # map (cut_left w) (filter (\<lambda>e. w < x2 e) (panes qs))"
      using n(7) by (auto simp: pushed_def panes_def filter_map comp_def intro!: arg_cong [of _ _ "map (cut_left w)"] filter_cong)
    have n': "covers n x y \<longleftrightarrow> 0 \<le> x \<and> x < w \<and> 0 \<le> y \<and> y < content_height qs" for x y
      using n(3-6) WH by (auto simp: covers_def q1_def)
    have cut: "covers (cut_left w e) x y \<longleftrightarrow> covers e x y \<and> w \<le> x" if "e \<in> set (panes qs)" for e x y
      using that by (auto simp: cut_left_def covers_def panes_def)
    have "full (cut_left w e)" if "e \<in> set (panes qs)" "w < x2 e" for e
      using that fl by (auto simp: cut_left_def full_def)
    moreover have "full n"
      using n(3-6) w WH by (simp add: full_def q1_def)
    ultimately show "\<forall>e\<in>set (filter (\<lambda>e. \<not> minibuf e) (n # ?ws)). full e"
      unfolding panes by auto
    have own: "owns (n # map (cut_left w) (filter (\<lambda>e. w < x2 e) (panes qs))) x y i \<longleftrightarrow>
        (if x < w then i = win n \<and> covers n x y else owns (panes qs) x y i)" for x y i
    proof (cases "x < w")
      case True
      then show ?thesis
        using cut by (auto simp: owns_def)
    next
      case False
      have "\<not> covers n x y"
        using False n' by simp
      moreover have "(\<exists>e\<in>set (panes qs). w < x2 e \<and> win e = i \<and> covers (cut_left w e) x y) \<longleftrightarrow> owns (panes qs) x y i"
      proof -
        have "w < x2 e \<and> covers (cut_left w e) x y \<longleftrightarrow> covers e x y" if "e \<in> set (panes qs)" for e
          using False cut [OF that, of x y] by (auto simp: covers_def)
        then show ?thesis
          unfolding owns_def by blast
      qed
      ultimately show ?thesis
        using False by (auto simp: owns_def)
    qed
    have "inside (qs_width qs) (content_height qs) (cut_left w e)" if "e \<in> set (panes qs)" "w < x2 e" for e
      using that t w by (auto simp: tiled_def inside_def cut_left_def)
    moreover have "inside (qs_width qs) (content_height qs) n"
      using n(3-6) w WH by (simp add: inside_def q1_def)
    ultimately show "tiled (qs_width qs) (content_height qs) (filter (\<lambda>e. \<not> minibuf e) (n # ?ws))"
      unfolding panes tiled_def own
    proof (intro conjI ballI allI impI)
      fix x y
      assume p: "0 \<le> x \<and> x < qs_width qs \<and> 0 \<le> y \<and> y < content_height qs"
      then have "\<exists>!i. owns (panes qs) x y i"
        using t by (simp add: tiled_def)
      then show "\<exists>!i. if x < w then i = win n \<and> covers n x y else owns (panes qs) x y i"
        using p n' by (cases "x < w") auto
    qed auto
  qed
  ultimately show ?thesis
    using refresh_settled [of st ml q2] n(2) by (force simp: q2_def)
qed

section \<open>Changing the size of the screen\<close>

text \<open>Scaling is monotone, so each new point corresponds to an old one.\<close>

lemma scale_nonneg: "0 \<le> a \<Longrightarrow> 0 \<le> n \<Longrightarrow> 0 < old \<Longrightarrow> scale a n old = Some (a * n div old)"
  by (cases "a * n = 0") (auto simp: scale_def signed_divide_int_def sgn_if zero_less_mult_iff)

lemma scaled_point:
  fixes W n x' :: int
  assumes "0 < W" "0 \<le> x'" "x' < n"
  obtains x where "0 \<le> x" "x < W" "\<And>a. 0 \<le> a \<Longrightarrow> a \<le> W \<Longrightarrow> a * n div W \<le> x' \<longleftrightarrow> a \<le> x"
proof -
  let ?S = "{a. 0 \<le> a \<and> a < W \<and> a * n div W \<le> x'}"
  have fin: "finite ?S"
    by (rule finite_subset [of _ "{0..W}"]) auto
  have "0 \<in> ?S"
    using assms by simp
  then have "?S \<noteq> {}"
    by blast
  with fin have mx: "Max ?S \<in> ?S"
    by (rule Max_in)
  have mx_le: "a \<le> Max ?S" if "a \<in> ?S" for a
    using fin that by (rule Max_ge)
  have mono: "a * n div W \<le> b * n div W" if "a \<le> b" for a b
    using that assms by (intro zdiv_mono1 mult_right_mono) auto
  have top: "W * n div W = n"
    using assms by simp
  show ?thesis
  proof (rule that [of "Max ?S"])
    show "0 \<le> Max ?S" "Max ?S < W"
      using mx by auto
    fix a
    assume a: "0 \<le> a" "a \<le> W"
    show "a * n div W \<le> x' \<longleftrightarrow> a \<le> Max ?S"
    proof
      assume "a * n div W \<le> x'"
      moreover from this have "a \<noteq> W"
        using top assms(3) by auto
      ultimately show "a \<le> Max ?S"
        using a mx_le [of a] by auto
    next
      assume "a \<le> Max ?S"
      then show "a * n div W \<le> x'"
        using mono [of a "Max ?S"] mx by auto
    qed
  qed
qed

definition scaled :: "int \<Rightarrow> int \<Rightarrow> int \<Rightarrow> int \<Rightarrow> ScreenWindow \<Rightarrow> ScreenWindow" where
  "scaled W H n m e = e\<lparr>x1 := x1 e * n div W, x2 := x2 e * n div W, y1 := y1 e * m div H, y2 := y2 e * m div H\<rparr>"

lemma tiled_scaled:
  assumes t: "tiled W H es" and WH: "0 < W" "0 < H" "0 < n" "0 < m"
  shows "tiled n m (map (scaled W H n m) es)"
proof -
  let ?f = "scaled W H n m"
  have mono: "a * k div d \<le> b * k div d" if "a \<le> b" "0 \<le> k" "0 < d" for a b k d :: int
    using that by (intro zdiv_mono1 mult_right_mono) auto
  have "inside n m (?f e)" if "e \<in> set es" for e
  proof -
    have i: "inside W H e"
      using t that by (simp add: tiled_def)
    have "x2 e * n div W \<le> n" "y2 e * m div H \<le> m"
      using mono [of "x2 e" W n W] mono [of "y2 e" H m H] i WH by (simp_all add: inside_def)
    then show ?thesis
      using i mono [of "x1 e" "x2 e" n W] mono [of "y1 e" "y2 e" m H] WH
      by (auto simp: inside_def scaled_def pos_imp_zdiv_nonneg_iff)
  qed
  moreover have "\<exists>!i. owns (map ?f es) x' y' i" if p: "0 \<le> x'" "x' < n" "0 \<le> y'" "y' < m" for x' y'
  proof -
    obtain x where x: "0 \<le> x" "x < W" "\<And>a. 0 \<le> a \<Longrightarrow> a \<le> W \<Longrightarrow> a * n div W \<le> x' \<longleftrightarrow> a \<le> x"
      using scaled_point [OF WH(1) p(1,2)] by blast
    obtain y where y: "0 \<le> y" "y < H" "\<And>a. 0 \<le> a \<Longrightarrow> a \<le> H \<Longrightarrow> a * m div H \<le> y' \<longleftrightarrow> a \<le> y"
      using scaled_point [OF WH(2) p(3,4)] by blast
    have "covers (?f e) x' y' \<longleftrightarrow> covers e x y" if "e \<in> set es" for e
    proof -
      have i: "inside W H e"
        using t that by (simp add: tiled_def)
      then have "x1 e * n div W \<le> x' \<longleftrightarrow> x1 e \<le> x" "x2 e * n div W \<le> x' \<longleftrightarrow> x2 e \<le> x"
        "y1 e * m div H \<le> y' \<longleftrightarrow> y1 e \<le> y" "y2 e * m div H \<le> y' \<longleftrightarrow> y2 e \<le> y"
        using x(3) y(3) by (auto simp: inside_def)
      then show ?thesis
        by (auto simp: covers_def scaled_def not_le [symmetric])
    qed
    then have "owns (map ?f es) x' y' i = owns es x y i" for i
      by (subst owns_map) (auto simp: scaled_def owns_def)
    then show ?thesis
      using t x(1,2) y(1,2) by (simp add: tiled_def)
  qed
  ultimately show ?thesis
    by (simp add: tiled_def)
qed

lemma map_windows_map:
  "\<forall>e\<in>set es. f e = Some (g e) \<Longrightarrow> map_windows f es = Some (map g es)"
  by (induction es) auto

text \<open>When the screen or the fonts get another size, refreshing scales the windows so that they tile the
  new screen exactly, with no gap and no overlap from rounding.\<close>

theorem refresh_scales_tiling:
  assumes "settled st0 ml0 qs" and "tiled (qs_width qs) (content_height qs) (panes qs)"
    and "qs_height qs \<noteq> 0" and "0 < w" and "0 < h - st"
  shows "\<exists>qs' calls. do_refresh st ml (qs\<lparr>screen_width := w, screen_height := h\<rparr>) = Some (qs', calls) \<and>
    qs_width qs' = w \<and> content_height qs' = h - st \<and> tiled w (h - st) (panes qs') \<and>
    map win (first_window qs') = map win (first_window qs)"
proof -
  define q0 where "q0 = qs\<lparr>screen_width := w, screen_height := h,
    separator_width := (if tty_media qs then 1 else 4), border_width := 1\<rparr>"
  have WH: "0 < qs_width qs" "0 < content_height qs" "\<not> hide_status qs"
    using assms(1) by (simp_all add: settled_def)
  define f where "f = (\<lambda>e. if minibuf e then e\<lparr>x1 := 0, y1 := h - st, x2 := w, y2 := h\<rparr>
    else scaled (qs_width qs) (content_height qs) w (h - st) e)"
  define change where "change \<longleftrightarrow> qs_width qs \<noteq> w \<or> qs_height qs \<noteq> h \<or> status_height qs \<noteq> st \<or>
    mode_line_height qs \<noteq> ml \<or> content_height qs \<noteq> h - st"
  define q1 where "q1 = (if change then q0\<lparr>first_window := map f (first_window qs), qs_width := w, qs_height := h,
    status_height := st, mode_line_height := ml, content_height := h - st\<rparr> else q0)"
  define q2 where "q2 = q1\<lparr>first_window := map (edit_invalidate \<circ> compute_client_area q1) (first_window q1)\<rparr>"
  have "resize_window q0 w h (h - st) e = Some (f e)" if "e \<in> set (first_window qs)" for e
  proof (cases "minibuf e")
    case False
    then have "inside (qs_width qs) (content_height qs) e"
      using assms(2) that by (simp add: tiled_def panes_def)
    then show ?thesis
      using False assms(3-5) WH
      by (simp add: resize_window_def f_def q0_def scale_nonneg inside_def scaled_def)
  qed (simp add: resize_window_def f_def)
  then have "map_windows (resize_window q0 w h (h - st)) (first_window qs) = Some (map f (first_window qs))"
    by (intro map_windows_map) simp
  then have "refresh_windows st ml (qs\<lparr>screen_width := w, screen_height := h\<rparr>) = Some q2"
    using WH(3) by (simp add: refresh_windows_def Let_def q2_def q1_def change_def q0_def)
  then have r: "do_refresh st ml (qs\<lparr>screen_width := w, screen_height := h\<rparr>) =
      Some (q2, concat (map (borders q2) (first_window q2)))"
    by (simp add: do_refresh_def)
  have "tiled w (h - st) (panes q1)"
  proof (cases change)
    case True
    then have "panes q1 = map (scaled (qs_width qs) (content_height qs) w (h - st)) (panes qs)"
      by (simp add: q1_def panes_def filter_map comp_def f_def scaled_def if_distrib cong: if_cong)
    then show ?thesis
      using tiled_scaled [OF assms(2) WH(1,2) assms(4,5)] by simp
  next
    case False
    then show ?thesis
      using assms(2) by (simp add: q1_def change_def q0_def panes_def)
  qed
  moreover have "panes q2 = map (edit_invalidate \<circ> compute_client_area q1) (panes q1)"
    by (simp add: q2_def panes_def filter_map comp_def edit_invalidate_def)
  ultimately have "tiled w (h - st) (panes q2)"
    using keeps_refresh [of q1] by (simp only:) (subst tiled_map_same; simp add: keeps_def)
  moreover have "qs_width q2 = w" "content_height q2 = h - st"
    by (simp_all add: q2_def q1_def change_def q0_def)
  moreover have "map win (first_window q2) = map win (first_window qs)"
    by (simp add: q2_def q1_def q0_def f_def edit_invalidate_def scaled_def)
  ultimately show ?thesis
    using r by blast
qed

section \<open>Sessions\<close>

text \<open>The commands on windows; the mouse is one of them.\<close>

datatype WindowCmd =
    Split nat bool
  | Delete nat bool
  | Delete_others nat
  | Other nat
  | Insert_left int
  | Mouse MouseEvent
  | Expose

fun window_step :: "int \<Rightarrow> int \<Rightarrow> (nat \<Rightarrow> bool) \<Rightarrow> WindowCmd \<Rightarrow> WindowState \<Rightarrow> WindowState option" where
  "window_step st ml goto (Split i horiz) qs = map_option fst (do_split_window st ml True i horiz qs)"
| "window_step st ml goto (Delete i force) qs = map_option fst (do_delete_window st ml i force qs)"
| "window_step st ml goto (Delete_others i) qs = map_option fst (do_delete_other_windows st ml i qs)"
| "window_step st ml goto (Other i) qs = do_other_window i qs"
| "window_step st ml goto (Insert_left w) qs = map_option (fst \<circ> snd) (insert_window_left st ml True None w WF_MODELINE qs)"
| "window_step st ml goto (Mouse ev) qs = map_option fst (mouse_event st ml goto ev qs)"
| "window_step st ml goto Expose qs = map_option fst (do_refresh st ml qs)"

text \<open>
  The commands considered: one is given in a window that exists, the minibuffer is not deleted, only windows of two
  lines or columns are split, a window that is inserted leaves room for the others, and the mouse does not go on
  selecting text in a window that has been closed.
\<close>

fun cmd_ok :: "WindowCmd \<Rightarrow> WindowState \<Rightarrow> bool" where
  "cmd_ok (Split i horiz) qs \<longleftrightarrow> (\<exists>s\<in>set (first_window qs). win s = i \<and>
     (minibuf s \<or> (if horiz then x1 s + 2 \<le> x2 s else y1 s + 2 \<le> y2 s)))"
| "cmd_ok (Delete i force) qs \<longleftrightarrow> (\<exists>s\<in>set (first_window qs). win s = i \<and>
     (deletes qs s force \<longrightarrow> \<not> minibuf s))"
| "cmd_ok (Delete_others i) qs \<longleftrightarrow> i \<in> win ` set (panes qs)"
| "cmd_ok (Other i) qs \<longleftrightarrow> i \<in> win ` set (first_window qs)"
| "cmd_ok (Insert_left w) qs \<longleftrightarrow> 0 < w \<and> w < qs_width qs"
| "cmd_ok (Mouse ev) qs \<longleftrightarrow> (motion_type qs = MOTION_TEXT \<longrightarrow> check_motion_target qs) \<and>
     list_all (\<lambda>e. minibuf e \<longrightarrow> motion_target qs \<noteq> Some (win e)) (first_window qs)"
| "cmd_ok Expose qs \<longleftrightarrow> True"

fun window_session :: "int \<Rightarrow> int \<Rightarrow> (nat \<Rightarrow> bool) \<Rightarrow> WindowCmd list \<Rightarrow> WindowState \<Rightarrow> WindowState option" where
  "window_session st ml goto [] qs = Some qs"
| "window_session st ml goto (c # cs) qs = do {
     qs \<leftarrow> window_step st ml goto c qs;
     window_session st ml goto cs qs }"

fun session_ok :: "int \<Rightarrow> int \<Rightarrow> (nat \<Rightarrow> bool) \<Rightarrow> WindowCmd list \<Rightarrow> WindowState \<Rightarrow> bool" where
  "session_ok st ml goto [] qs \<longleftrightarrow> True"
| "session_ok st ml goto (c # cs) qs \<longleftrightarrow> cmd_ok c qs \<and>
     (case window_step st ml goto c qs of None \<Rightarrow> True | Some qs' \<Rightarrow> session_ok st ml goto cs qs')"

text \<open>
  A window without a neighbour is deleted: no other window shares one of its edges in full, and the code goes through a
  null pointer.
\<close>

definition deletes_alone :: "WindowCmd \<Rightarrow> WindowState \<Rightarrow> bool" where
  "deletes_alone c qs \<longleftrightarrow> (\<exists>i force s. c = Delete i force \<and> window_at qs i = Some s \<and> deletes qs s force \<and> \<not> has_neighbour qs s)"

text \<open>What the mouse changes apart from sizes does not matter for the layout.\<close>

lemma laid_out_motion:
  "laid_out (qs\<lparr>motion_type := a\<rparr>) = laid_out qs" "laid_out (qs\<lparr>motion_target := b\<rparr>) = laid_out qs"
  "laid_out (qs\<lparr>motion_x := x\<rparr>) = laid_out qs" "laid_out (qs\<lparr>motion_y := x\<rparr>) = laid_out qs"
  "settled st ml (qs\<lparr>motion_type := a\<rparr>) = settled st ml qs" "settled st ml (qs\<lparr>motion_target := b\<rparr>) = settled st ml qs"
  "settled st ml (qs\<lparr>motion_x := x\<rparr>) = settled st ml qs" "settled st ml (qs\<lparr>motion_y := x\<rparr>) = settled st ml qs"
  by (simp_all add: laid_out_def settled_def panes_def)

lemma save_selection_laid_out:
  "laid_out (fst (save_selection qs)) = laid_out qs \<and> settled st ml (fst (save_selection qs)) = settled st ml qs"
proof -
  define q1 where "q1 = qs\<lparr>first_window := map (\<lambda>e. e\<lparr>show_selection := False\<rparr>) (first_window qs)\<rparr>"
  have "laid_out q1 = laid_out qs"
    by (rule laid_out_map [of "\<lambda>e. e\<lparr>show_selection := False\<rparr>"]) (simp_all add: keeps_def same_rect_def q1_def)
  moreover have "settled st ml q1 = settled st ml qs"
    by (simp add: settled_def q1_def)
  ultimately show ?thesis
    by (simp add: save_selection_def Let_def q1_def [symmetric] laid_out_motion)
qed

lemma press_laid_out:
  "laid_out (fst (press_loop goto button x y es qs)) = laid_out qs \<and>
   settled st ml (fst (press_loop goto button x y es qs)) = settled st ml qs"
proof (induction goto button x y es qs rule: press_loop.induct)
  case (2 goto button x y e es qs)
  obtain q calls where sv: "save_selection qs = (q, calls)"
    by fastforce
  then have "laid_out q = laid_out qs" "settled st ml q = settled st ml qs"
    using save_selection_laid_out [of qs st ml] by simp_all
  then show ?case
    using 2 sv by (cases button) (simp_all add: laid_out_motion)
qed simp

lemma drag_laid_out:
  assumes "settled st ml qs" "laid_out qs" "window_at qs i = Some s" "\<not> minibuf s"
  shows "\<exists>qs' calls. drag_window st ml i w h qs = Some (qs', calls) \<and> settled st ml qs' \<and> laid_out qs'"
proof -
  obtain q1 where q1: "window_resize i w h qs = Some q1" "settled st ml q1" "laid_out q1"
    using resize_laid_out [OF assms] by blast
  then show ?thesis
    using refresh_settled [OF q1(2)] by (auto simp: drag_window_def)
qed

lemma mouse_laid_out:
  assumes st: "settled st ml qs" and lo: "laid_out qs" and ok: "cmd_ok (Mouse ev) qs"
  shows "\<exists>qs' calls ms. mouse_event st ml goto ev qs = Some (qs', calls, ms) \<and> settled st ml qs' \<and> laid_out qs'"
proof (cases ev)
  case Release
  then show ?thesis
    using save_selection_laid_out [of qs st ml] st lo
    by (auto simp: mouse_event_def laid_out_motion split: prod.split)
next
  case (Press button x y)
  then show ?thesis
    using press_laid_out [of goto button x y "first_window qs" qs st ml] st lo
    by (auto simp: mouse_event_def split: prod.split)
next
  case (Move x y)
  have d: "distinct (map win (first_window qs))"
    using lo by (simp add: laid_out_def)
  have target: "\<exists>i e. motion_target qs = Some i \<and> e \<in> set (first_window qs) \<and> win e = i \<and> \<not> minibuf e \<and> window_at qs i = Some e"
    if alive: "check_motion_target qs"
  proof -
    obtain e where e: "e \<in> set (first_window qs)" "motion_target qs = Some (win e)"
      using alive by (auto simp: check_motion_target_def list_ex_iff)
    then show ?thesis
      using ok window_at_member [OF d e(1)] by (auto simp: list_all_iff)
  qed
  show ?thesis
  proof (cases "motion_type qs")
    case MOTION_NONE
    then show ?thesis
      using Move st lo by (simp add: mouse_event_def)
  next
    case MOTION_TEXT
    obtain i e where e: "motion_target qs = Some i" "e \<in> set (first_window qs)" "win e = i" "window_at qs i = Some e"
      using target ok MOTION_TEXT by auto
    define q0 where "q0 = (if motion_x qs = 0 then qs\<lparr>motion_x := 1\<rparr> else qs)"
    define f where "f = (\<lambda>h. if win h = win e then e\<lparr>show_selection := True\<rparr> else h)"
    have q0: "first_window q0 = first_window qs" "laid_out q0 = laid_out qs" "settled st ml q0 = settled st ml qs"
      by (simp_all add: q0_def laid_out_motion)
    have same: "map f (first_window qs) = map (\<lambda>h. if win h = win e then h\<lparr>show_selection := True\<rparr> else h) (first_window qs)"
      using d e(2) by (intro map_cong refl) (auto simp: f_def dest: inj_onD simp: distinct_map)
    have "laid_out (put_window (e\<lparr>show_selection := True\<rparr>) q0) = laid_out q0"
      by (rule laid_out_map [of "\<lambda>h. if win h = win e then h\<lparr>show_selection := True\<rparr> else h"])
        (simp_all add: keeps_def same_rect_def put_window_def q0 same [unfolded f_def])
    moreover have "settled st ml (put_window (e\<lparr>show_selection := True\<rparr>) q0) = settled st ml q0"
      by (simp add: settled_def put_window_def)
    ultimately show ?thesis
      using Move MOTION_TEXT e st lo q0 by (simp add: mouse_event_def q0_def [symmetric])
  next
    case MOTION_MODELINE
    show ?thesis
    proof (cases "y sdiv 8 = motion_y qs sdiv 8 \<or> \<not> check_motion_target qs")
      case True
      then show ?thesis
        using Move MOTION_MODELINE st lo by (auto simp: mouse_event_def laid_out_motion)
    next
      case False
      then obtain i e where e: "motion_target qs = Some i" "window_at qs i = Some e" "\<not> minibuf e"
        using target by auto
      have "settled st ml (qs\<lparr>motion_y := y\<rparr>)" "laid_out (qs\<lparr>motion_y := y\<rparr>)" "window_at (qs\<lparr>motion_y := y\<rparr>) i = Some e"
        using st lo e(2) by (simp_all add: laid_out_motion window_at_def)
      from drag_laid_out [OF this e(3), of "x2 e - x1 e" "y - y1 e"] show ?thesis
        using Move MOTION_MODELINE False e by (auto simp: mouse_event_def)
    qed
  next
    case MOTION_RSEPARATOR
    show ?thesis
    proof (cases "x sdiv 8 = motion_x qs sdiv 8 \<or> \<not> check_motion_target qs")
      case True
      then show ?thesis
        using Move MOTION_RSEPARATOR st lo by (auto simp: mouse_event_def laid_out_motion)
    next
      case False
      then obtain i e where e: "motion_target qs = Some i" "window_at qs i = Some e" "\<not> minibuf e"
        using target by auto
      have "settled st ml (qs\<lparr>motion_x := x\<rparr>)" "laid_out (qs\<lparr>motion_x := x\<rparr>)" "window_at (qs\<lparr>motion_x := x\<rparr>) i = Some e"
        using st lo e(2) by (simp_all add: laid_out_motion window_at_def)
      from drag_laid_out [OF this e(3), of "x - x1 e" "y2 e - y1 e"] show ?thesis
        using Move MOTION_RSEPARATOR False e by (auto simp: mouse_event_def)
    qed
  qed
qed

lemma window_step_laid_out:
  assumes st: "settled st ml qs" and lo: "laid_out qs" and ok: "cmd_ok c qs"
  shows "if deletes_alone c qs then window_step st ml goto c qs = None
    else \<exists>qs'. window_step st ml goto c qs = Some qs' \<and> settled st ml qs' \<and> laid_out qs'"
proof (cases "deletes_alone c qs")
  case True
  then show ?thesis
    using delete_needs_neighbour by (auto simp: deletes_alone_def)
next
  case alone: False
  have at: "window_at qs (win s) = Some s" if "s \<in> set (first_window qs)" for s
    using lo that by (intro window_at_member) (auto simp: laid_out_def)
  have "\<exists>qs'. window_step st ml goto c qs = Some qs' \<and> settled st ml qs' \<and> laid_out qs'"
  proof (cases c)
    case (Split i horiz)
    then obtain s where "s \<in> set (first_window qs)" "win s = i"
      "minibuf s \<or> (if horiz then x1 s + 2 \<le> x2 s else y1 s + 2 \<le> y2 s)"
      using ok by auto
    then show ?thesis
      using split_laid_out [OF st lo, of i s horiz] at Split by auto
  next
    case (Delete i force)
    then obtain s where "s \<in> set (first_window qs)" "win s = i"
      "deletes qs s force \<longrightarrow> \<not> minibuf s"
      using ok by auto
    moreover from this at have "deletes qs s force \<longrightarrow> has_neighbour qs s"
      using alone Delete by (auto simp: deletes_alone_def)
    ultimately show ?thesis
      using delete_laid_out [OF st lo, of i s force] at Delete by auto
  next
    case (Delete_others i)
    then obtain s where "s \<in> set (first_window qs)" "win s = i" "\<not> minibuf s"
      using ok by (auto simp: panes_def)
    then show ?thesis
      using delete_others_laid_out [OF st lo, of i s] at Delete_others by auto
  next
    case (Other i)
    then show ?thesis
      using other_laid_out [OF st lo, of i] ok by simp
  next
    case (Insert_left w)
    then show ?thesis
      using insert_left_laid_out [OF st lo, of w None WF_MODELINE] ok by auto
  next
    case (Mouse ev)
    then show ?thesis
      using mouse_laid_out [OF st lo, of ev goto] ok by (auto simp del: cmd_ok.simps)
  next
    case Expose
    then show ?thesis
      using refresh_settled [OF st] lo by auto
  qed
  then show ?thesis
    using alone by simp
qed

text \<open>C4. The windows tile the screen. In any sequence of commands that split, insert, close and select windows and size
  them with the mouse, of those considered in \<open>session_ok\<close>, either all commands end, and afterwards each point above
  the status line belongs to exactly one window, none is empty, and the active window is one of them; or the sequence
  crashes, and then it does so at a command that deletes a window of which no other one shares an edge in full.
\<close>

theorem windows_tile_screen:
  assumes "settled st ml qs" and "laid_out qs" and "session_ok st ml goto cs qs"
  shows "(\<exists>qs'. window_session st ml goto cs qs = Some qs' \<and> settled st ml qs' \<and> laid_out qs') \<or>
    window_session st ml goto cs qs = None \<and>
      (\<exists>as c bs qs1. cs = as @ c # bs \<and> window_session st ml goto as qs = Some qs1 \<and> laid_out qs1 \<and> deletes_alone c qs1)"
  using assms
proof (induction cs arbitrary: qs)
  case (Cons c cs)
  show ?case
  proof (cases "deletes_alone c qs")
    case True
    then have "window_session st ml goto (c # cs) qs = None"
      using window_step_laid_out [of st ml qs c goto] Cons.prems by simp
    moreover have "window_session st ml goto [] qs = Some qs"
      by simp
    ultimately show ?thesis
      using True Cons.prems(2) append_Nil by blast
  next
    case False
    then obtain q1 where q1: "window_step st ml goto c qs = Some q1" "settled st ml q1" "laid_out q1"
      using Cons.prems window_step_laid_out [of st ml qs c goto] by auto
    then have step: "window_session st ml goto (c # as) qs = window_session st ml goto as q1" for as
      by simp
    from Cons.IH [OF q1(2,3)] Cons.prems(3) q1(1) show ?thesis
      unfolding step by (auto simp: step [symmetric] simp del: window_session.simps) (metis append_Cons)
  qed
qed simp

definition one_window :: WindowState where
  "one_window = \<lparr>first_window = [\<lparr>win = 0, x1 = 0, y1 = 0, x2 = 80, y2 = 24, xleft = 0, ytop = 0, win_width = 80,
       win_height = 23, win_flags = WF_MODELINE, minibuf = False, win_b = Some 0, show_selection = False,
       display_invalid = False\<rparr>],
     active_window = Some 0, fresh_window = 1, screen_width = 80, screen_height = 25, tty_media = True,
     qs_width = 80, qs_height = 25, status_height = 1, mode_line_height = 1, content_height = 24,
     separator_width = 1, border_width = 1, hide_status = False, popup_saved_active = None,
     motion_type = MOTION_NONE, motion_target = None, motion_x = 0, motion_y = 0\<rparr>"

definition demo_cmds :: "WindowCmd list" where
  "demo_cmds = [Split 0 False, Split 1 True, Mouse (Press QE_BUTTON_LEFT 3 11), Mouse (Move 3 15), Delete 2 False, Other 0]"

lemma one_window_ok: "settled 1 1 one_window" "laid_out one_window"
proof -
  show "settled 1 1 one_window"
    by (simp add: settled_def one_window_def)
  show "laid_out one_window"
    by (auto simp: laid_out_def one_window_def panes_def full_def tiled_def inside_def owns_def covers_def)
qed

lemma demo_cmds_ok: "session_ok 1 1 (\<lambda>_. True) demo_cmds one_window"
  by code_simp

theorem windows_tile_screen_witness:
  "\<exists>qs'. window_session 1 1 (\<lambda>_. True) demo_cmds one_window = Some qs' \<and> settled 1 1 qs' \<and> laid_out qs'"
proof -
  have "window_session 1 1 (\<lambda>_. True) demo_cmds one_window \<noteq> None"
    by code_simp
  then show ?thesis
    using windows_tile_screen [OF one_window_ok demo_cmds_ok] by (elim disjE conjE) (assumption, erule notE, assumption)
qed

theorem refresh_scales_tiling_witness:
  "\<exists>qs' calls. do_refresh 1 1 (one_window\<lparr>screen_width := 100, screen_height := 40\<rparr>) = Some (qs', calls) \<and>
    qs_width qs' = 100 \<and> content_height qs' = 40 - 1 \<and> tiled 100 (40 - 1) (panes qs') \<and>
    map win (first_window qs') = map win (first_window one_window)"
  by (rule refresh_scales_tiling [OF one_window_ok(1)])
    (use one_window_ok(2) in \<open>simp_all add: laid_out_def one_window_def\<close>)

section \<open>What goes wrong\<close>

text \<open>
  A window without a neighbour of its size cannot be deleted: with one window on the left and
  two on the right, deleting the left one reads through a null pointer. The list of buffers is such a window
  on the left, which is deleted when a buffer is selected in it.
\<close>

lemma delete_crashes:
  "session_ok 1 1 (\<lambda>_. True) [Split 0 True, Split 1 False] one_window \<and>
   window_session 1 1 (\<lambda>_. True) [Split 0 True, Split 1 False] one_window \<noteq> None \<and>
   window_session 1 1 (\<lambda>_. True) [Split 0 True, Split 1 False, Delete 0 False] one_window = None"
  by code_simp

lemma list_window_crashes:
  "window_session 1 1 (\<lambda>_. True) [Split 0 False, Insert_left 16] one_window \<noteq> None \<and>
   window_session 1 1 (\<lambda>_. True) [Split 0 False, Insert_left 16, Delete 2 True] one_window = None"
  by code_simp

text \<open>Without memory for the new window a split leaves a hole; a split of one column makes an empty window.\<close>

lemma split_without_memory:
  "(case do_split_window 1 1 False 0 True one_window of
      Some (qs, _) \<Rightarrow> map (\<lambda>e. (x1 e, x2 e)) (first_window qs) = [(0, 40)] | None \<Rightarrow> False)"
  by code_simp

text \<open>The right one of two windows loses its separator when it is split.\<close>

lemma separator_is_lost:
  "(case window_session 1 1 (\<lambda>_. True) [Split 0 True, Split 0 True] one_window of
      Some qs \<Rightarrow> map (\<lambda>e. (x1 e, has_flag WF_RSEPARATOR e)) (first_window qs) = [(20, False), (40, False), (0, True)]
    | None \<Rightarrow> False)"
  by code_simp

text \<open>Selecting text with the mouse in a window that has been closed writes to it.\<close>

lemma closed_window_selected:
  "window_session 1 1 (\<lambda>_. True) [Split 0 False, Mouse (Press QE_BUTTON_LEFT 3 2), Delete 0 False] one_window \<noteq> None \<and>
   window_session 1 1 (\<lambda>_. True) [Split 0 False, Mouse (Press QE_BUTTON_LEFT 3 2), Delete 0 False, Mouse (Move 3 3)]
     one_window = None"
  by code_simp

end
