(* ===== verification/Spec2Isabelle.thy ===== *)
theory Spec2Isabelle
  imports Base_Theorems Undo_Props Line_Theorems
    Key_Names Util_Theorems Canon_Paths Input_Theorems Edit_Theorems
    Buffer_Theorems File_Theorems Quit Search_Theorems Event_Theorems Key_Theorems
    Shell_Theorems Compile_Errors Rectangles Minibuffer_Theorems Indent_Theorems
    Tty_Screen Window_Theorems
begin

text \<open>
  A model of the text editor hoe, a descendant of QEmacs, whose C sources are under \<open>src/\<close>.

  \<^bold>\<open>The program.\<close> A text is kept by \<open>buffer.c\<close> as a table of pages of at most 4096 bytes with a cache of
  the last page used; pages cache their lines, columns and characters. Every edit goes through
  \<open>eb_write\<close>, \<open>eb_insert\<close> or \<open>eb_delete\<close>, which call the callbacks of the buffer (they move marks and
  cursors) and append a record to a log, itself a paged buffer, that \<open>do_undo\<close> reads backwards. Characters
  are decoded and encoded by \<open>charset.c\<close>; \<open>cutils.c\<close> and \<open>util.c\<close> hold strings, lists, paths, colors and
  the names of keys. On top of this \<open>qe.c\<close> has the editing commands, the list of buffers and their
  files, searching, the exit dialog, and the way from a key to a command: bindings, arguments,
  macros. Keys pass through the input methods of \<open>input.c\<close>. The loop of \<open>unix.c\<close> calls all of it.

  \<^bold>\<open>Which theory models what.\<close>
  \<^item> \<open>Prelude\<close>: machine words, guards, C strings in memory, lemmas on lists.
  \<^item> \<open>Cutils\<close>, \<open>Base_Theorems\<close>: \<open>cutils.c\<close> and \<open>cutils.h\<close>. Arrays are lists of characters, intrusive lists
    a heap of next and previous pointers.
  \<^item> \<open>Utf8\<close>, \<open>Charset\<close>: \<open>charset.c\<close>. The coder and decoder, the three charsets and detection; the locale
    \<open>char_codec\<close> is the contract between a coder and its decoder.
  \<^item> \<open>Pages\<close>, \<open>Page_Store\<close>: the page table of \<open>buffer.c\<close> with \<open>eb_read\<close>, \<open>eb_insert_lowlevel\<close> and the functions
    below them, and the locale \<open>text_store\<close>, the contract of a text that can be changed in place, which
    the pages fulfil.
  \<^item> \<open>Edit_Buffer\<close>: the record \<open>EditBuffer\<close> of \<open>qe.h\<close>, callbacks, log, \<open>do_undo\<close>. \<open>Undo_Log\<close> and \<open>Undo\<close> refine
    it to an abstract buffer, a list of bytes with a list of log entries (\<open>refines\<close>); \<open>Undo_Props\<close> has
    the theorems on undo.
  \<^item> \<open>Lines\<close>: moving over characters, lines, positions (\<open>eb_nextc\<close> to \<open>eb_line_pad\<close>). \<open>Page_Caches\<close> shows with
    the locale \<open>page_pred\<close> that caches stay valid, \<open>Line_Props\<close> and \<open>Line_Theorems\<close> what the functions return.
  \<^item> \<open>Util\<close>, \<open>Util_Theorems\<close>, \<open>Canon_Paths\<close>, \<open>Key_Names\<close>: \<open>util.c\<close>.
  \<^item> \<open>Input_Methods\<close>, \<open>Input_Theorems\<close>: \<open>input.c\<close> with its compressed key maps.
  \<^item> \<open>Editing\<close>: the editing commands of \<open>qe.c\<close> on a window (\<open>EditState\<close>). \<open>Edit_Moves\<close>, \<open>Edit_Changes\<close>,
    \<open>Edit_Match\<close> and \<open>Edit_Theorems\<close> say what they do to the text.
  \<^item> \<open>Buffers\<close>, \<open>Buffer_Theorems\<close>: the list of buffers and which window shows which (\<open>eb_new\<close>,
    \<open>set_buffer_name\<close>, \<open>do_kill_buffer\<close>). \<open>shared_name\<close> are the names that several buffers can have, because the code makes
    these buffers without looking for one: those of the kill ring and of the colors of a shell. \<open>Buffer_Files\<close>, \<open>File_Theorems\<close>: loading, mapping, saving, changing
    the charset, on an explicit disk. \<open>Quit\<close>: the dialog of \<open>do_quit\<close> over both.
  \<^item> \<open>Search\<close>, \<open>Search_Theorems\<close>: \<open>eb_search\<close>, incremental search, query replace.
  \<^item> \<open>Events\<close>, \<open>Event_Theorems\<close>: the main loop of \<open>unix.c\<close>. \<open>Keys\<close>, \<open>Key_Theorems\<close>: modes, commands,
    bindings, arguments and macros of \<open>qe.c\<close>, whose state extends that of the main loop.
  \<^item> \<open>Text_Buffers\<close>, \<open>Text_Lines\<close>: what the operations on buffers do to the text of a buffer with one byte for
    each character (\<open>byte_text\<close>), and to a text that is a list of lines (\<open>join\<close>). The modes rest on them.
  \<^item> \<open>Shell\<close>, \<open>Shell_Term\<close>, \<open>Shell_Theorems\<close>: the terminal emulation of \<open>shell.c\<close>, which edits the buffer of the
    shell and the buffer of its colors, and the abstract terminal \<open>Term\<close> that it refines.
    \<open>Compile_Errors\<close>: the search for compiler messages in \<open>shell.c\<close>.
  \<^item> \<open>Rectangles\<close>: \<open>rect_operations.c\<close>. \<open>Minibuffer\<close>, \<open>Minibuffer_Theorems\<close>: the minibuffer of \<open>qe.c\<close> with
    completion and history, and \<open>list.c\<close>.

  \<^item> \<open>Colorize\<close>: coloured lines and the cache of \<open>get_colorized_line\<close>; its locale \<open>colorizer\<close> is the contract of the
    function that colours a line. \<open>Language_Modes\<close>, \<open>Language_Theorems\<close>: those of C and Python (\<open>clang.c\<close>,
    \<open>pylang.c\<close>), which fulfil it. \<open>Indent\<close>, \<open>Indent_Theorems\<close>: the indentation in both.
  \<^item> \<open>Terminal\<close>: \<open>display.c\<close> and the driver \<open>tty.c\<close>, which draws into an array of cells and writes the lines
    that changed. \<open>Terminal_Theorems\<close> has keys, colors, fonts and sizes; \<open>Terminal_Output\<close> an abstract terminal
    (\<open>vt_run\<close>) that reads what is written.
  \<^item> \<open>Windows\<close>, \<open>Window_Theorems\<close>: the windows of \<open>qe.c\<close>, their splitting, deleting and sizing, and the mouse.
  \<^item> \<open>Layout\<close>: the layout of lines in \<open>qe.c\<close> by fragments (\<open>display_char_bidir\<close>, \<open>flush_fragment\<close>, \<open>flush_line\<close>),
    their drawing, and the callbacks that look for a cursor. \<open>Text_Display\<close>: the display of texts and windows
    and the movements that depend on it. The locale \<open>text_driver\<close> is what they rely on from the display; in it
    \<open>Layout_Theorems\<close> and \<open>Layout_Lines\<close> show that lines are laid out as by \<open>lay\<close>, \<open>Layout_Feed\<close> that the characters of
    a text are fed to the layout (\<open>fed\<close>), \<open>Layout_Text\<close> that \<open>text_display\<close> does this line by line (\<open>stepped\<close>),
    \<open>Layout_Cursor\<close> which calls of the cursor callbacks result, \<open>Layout_Moves\<close> and \<open>Layout_Screen\<close> what the cursor, the
    mouse, the movements and the redisplay make of them. \<open>Tty_Text\<close>: the driver of \<open>tty.c\<close> fulfils the locale;
    \<open>Tty_Screen\<close>: the theorems for a terminal, with \<open>places\<close>, a layout in one pass, as the specification.

  \<^bold>\<open>How to read the model.\<close> C structures are records, enumerations datatypes. An operation that touches
  memory or computes with \<open>int\<close> returns an option, and \<open>None\<close> stands for undefined behaviour: an access
  outside an array or to freed memory, a write to a read-only mapping, an overflow. For a
  \<open>partial_function\<close> \<open>None\<close> also means that it does not return. So a theorem with \<open>Some\<close> says that the code is
  safe and returns, and one with \<open>None\<close> that it is not or does not. Results of the system
  (\<open>fopen\<close>, \<open>open\<close>, \<open>mmap\<close>, \<open>write\<close>, \<open>rename\<close>, \<open>select\<close>, the clock, \<open>malloc\<close> where its failure is handled) are arguments, and
  so are callbacks and, in \<open>Keys\<close>, the commands. Memory whose contents are not known is an argument
  \<open>junk\<close>. Text formatted by \<open>vsnprintf\<close> is an argument where it matters only by its length.

  \<^bold>\<open>Groups of lemmas.\<close> \<open>buf_ok\<close> (pages and sizes fit together) and \<open>cached\<close> (caches are right) are kept by every
  operation; \<open>refines\<close> and \<open>holds_text\<close> carry facts on lists of bytes over to buffers; \<open>same_doc\<close> and
  \<open>moved\<close> say that only the page cache or the cursor has changed; \<open>editor_ok\<close> and \<open>quit_inv\<close> are the
  invariants of the list of buffers and of the exit dialog; \<open>represents\<close> relates the terminal of a shell to its
  buffers; \<open>synced\<close> the terminal outside to the cells; \<open>laid_out\<close> says that the windows tile the screen; \<open>loop_idle\<close>, \<open>plain_key_state\<close> and
  \<open>ctx_ready\<close> describe the states between events and keys.

  \<^bold>\<open>Bounds.\<close> Texts have less than \<open>2 ^ 31\<close> bytes where sizes are added. Recursion is structural or has a
  measure; \<open>kmap_loop\<close>, \<open>fd_loop\<close> and \<open>parse_keys\<close> take the number of entries left, the size of the
  table and the length of the string as bounds, which the code cannot exceed. The theorems on the layout have
  wrapped lines without numbers and colours, windows of up to 129 columns (then no line of the screen fills the
  256 places of its arrays), tabulators of up to 100 columns and texts with one byte per character; \<open>tty_window\<close> says so.
  The positions in the log (\<open>log_new_index\<close>, \<open>log_current\<close>, \<open>nb_logs\<close>) are numbers without a bound where the code has
  \<open>int\<close>, which is the same as long as the log, of at most 50 entries, is below 2 GB; likewise the products of sizes in
  \<open>do_refresh\<close>, for screens below a few ten thousand rows and columns.

  \<^bold>\<open>Not modelled.\<close> The bidirectional algorithm, the modes in
  some files (directory, hexadecimal, LaTeX and others), the configuration file and
  startup. They draw on the screen, run programs or are tables; the
  manifest names each with its reason.
\<close>

end
